(* ===== verification/Prelude.thy ===== *)
theory Prelude
  imports Main "HOL-Library.Word"
begin

text \<open>
  Shared vocabulary of the development: the machine integers of the C code, the sum type used
  for results that can fail, the part of the C library the code relies on (\<open>memcmp\<close>), the
  interface of comparison functions, and generic facts about lists and words.
\<close>

unbundle bit_operations_syntax

subsection \<open>Machine integers\<close>

type_synonym u8 = "8 word"
type_synonym u16 = "16 word"
type_synonym u32 = "32 word"
type_synonym u64 = "64 word"

text \<open>Addresses of allocated objects.\<close>

type_synonym ptr = nat

text \<open>
  \<open>word_nat\<close> collects the equations that move a comparison or an operation on words to the
  natural numbers; \<open>model_defs\<close> collects the non-recursive definitions that closed instances
  unfold when they are evaluated.
\<close>

named_theorems word_nat
named_theorems model_defs

declare word_less_nat_alt [word_nat] word_le_nat_alt [word_nat] word_unat_eq_iff [word_nat]

lemma unat_drop_bit [word_nat]: "unat (drop_bit n w) = unat w div 2 ^ n"
  for w :: "'a::len word"
  by (subst unat_drop_bit_eq) (rule drop_bit_eq_div)

text \<open>Halving with rounding up, \<open>(x + 1) >> 1\<close>: exact unless \<open>x + 1\<close> wraps to 0.\<close>

lemma unat_halve_up_le: "unat (drop_bit 1 (x + 1)) \<le> (unat x + 1) div 2"
  for x :: "'a::len word"
  by (simp only: unat_drop_bit power_one_right)
    (rule div_le_mono, simp add: unat_word_ariths(1) del: Suc_eq_plus1_left)

lemma unat_halve_up: "unat x + 1 < 2 ^ LENGTH('a) \<Longrightarrow> unat (drop_bit 1 (x + 1)) = (unat x + 1) div 2"
  for x :: "'a::len word"
  by (simp only: unat_drop_bit power_one_right) (simp add: unat_word_ariths(1))

subsection \<open>Comparison functions\<close>

text \<open>
  An AVL comparator returns a C \<open>int\<close> of which only the sign matters. The laws below are what
  the tree code needs from the functions of \<open>avl_comp.c\<close> and from the comparators of the other
  components: it is a total preorder.
\<close>

locale comparator =
  fixes cmp :: "'k \<Rightarrow> 'k \<Rightarrow> int"
  assumes cmp_neg: "cmp a b < 0 \<longleftrightarrow> 0 < cmp b a"
    and cmp_trans: "cmp a b \<le> 0 \<Longrightarrow> cmp b c \<le> 0 \<Longrightarrow> cmp a c \<le> 0"
begin

lemma cmp_refl [simp]: "cmp a a = 0"
  using cmp_neg [of a a] by linarith

lemma cmp_zero_sym: "cmp a b = 0 \<longleftrightarrow> cmp b a = 0"
  using cmp_neg [of a b] cmp_neg [of b a] by linarith

lemma cmp_le_iff: "cmp a b \<le> 0 \<longleftrightarrow> \<not> cmp b a < 0"
  by (simp add: cmp_neg not_less)

lemma cmp_zero_iff_le: "cmp a b = 0 \<longleftrightarrow> cmp a b \<le> 0 \<and> cmp b a \<le> 0"
  using cmp_neg [of a b] cmp_neg [of b a] by linarith

lemma cmp_eq_trans: "cmp a b = 0 \<Longrightarrow> cmp b c = 0 \<Longrightarrow> cmp a c = 0"
  using cmp_trans by (auto simp: cmp_zero_iff_le)

lemma cmp_less_trans: "cmp a b < 0 \<Longrightarrow> cmp b c \<le> 0 \<Longrightarrow> cmp a c < 0"
  by (metis cmp_neg cmp_trans linorder_not_less)

lemma cmp_le_less_trans: "cmp a b \<le> 0 \<Longrightarrow> cmp b c < 0 \<Longrightarrow> cmp a c < 0"
  by (metis cmp_neg cmp_trans linorder_not_less)

lemma cmp_eq_left: "cmp a b = 0 \<Longrightarrow> (cmp a c < 0 \<longleftrightarrow> cmp b c < 0)"
  by (metis cmp_le_less_trans cmp_zero_sym order_refl)

lemma cmp_eq_right: "cmp a b = 0 \<Longrightarrow> (cmp c a < 0 \<longleftrightarrow> cmp c b < 0)"
  by (metis cmp_less_trans cmp_zero_sym order_refl)

end

text \<open>Comparators that only call equal keys equal.\<close>

locale strict_comparator = comparator +
  assumes cmp_eq: "cmp a b = 0 \<Longrightarrow> a = b"
begin

lemma cmp_zero_iff [simp]: "cmp a b = 0 \<longleftrightarrow> a = b"
  using cmp_eq cmp_refl by blast

end

subsection \<open>The C library: \<open>memcmp\<close>\<close>

text \<open>
  \<open>memcmp(a, b, n)\<close> on two blocks of the same length: the difference of the first pair of bytes
  that differ, which has the sign the standard prescribes.
\<close>

fun memcmp :: "u8 list \<Rightarrow> u8 list \<Rightarrow> int" where
  "memcmp (x # xs) (y # ys) = (if x = y then memcmp xs ys else uint x - uint y)"
| "memcmp [] [] = 0"
| "memcmp [] (y # ys) = -1"
| "memcmp (x # xs) [] = 1"

lemma memcmp_zero_iff [simp]: "memcmp xs ys = 0 \<longleftrightarrow> xs = ys"
  by (induction xs ys rule: memcmp.induct) (auto simp: word_uint_eq_iff)

lemma memcmp_neg: "memcmp xs ys < 0 \<longleftrightarrow> 0 < memcmp ys xs"
  by (induction xs ys rule: memcmp.induct) auto

lemma memcmp_less_trans: "memcmp xs ys < 0 \<Longrightarrow> memcmp ys zs < 0 \<Longrightarrow> memcmp xs zs < 0"
proof (induction xs ys arbitrary: zs rule: memcmp.induct)
  case (1 x xs y ys)
  then show ?case by (cases zs) (auto split: if_splits)
next
  case (3 y ys)
  then show ?case by (cases zs) (auto split: if_splits)
qed auto

lemma memcmp_trans: "memcmp xs ys \<le> 0 \<Longrightarrow> memcmp ys zs \<le> 0 \<Longrightarrow> memcmp xs zs \<le> 0"
  by (metis linorder_le_less_linear memcmp_less_trans memcmp_zero_iff order.order_iff_strict)

interpretation memcmp: strict_comparator memcmp
proof
  show "memcmp a b < 0 \<longleftrightarrow> 0 < memcmp b a" for a b by (rule memcmp_neg)
  show "memcmp a b \<le> 0 \<Longrightarrow> memcmp b c \<le> 0 \<Longrightarrow> memcmp a c \<le> 0" for a b c by (rule memcmp_trans)
  show "memcmp a b = 0 \<Longrightarrow> a = b" for a b by simp
qed

subsection \<open>Byte blocks\<close>

text \<open>
  \<open>mem_write dst off src\<close> is \<open>memcpy(&dst[off], src, n)\<close> for a source of \<open>n\<close> bytes. It is only used
  where the block fits; a copy that would leave its buffer is a \<open>None\<close> of the calling function.
\<close>

definition mem_write :: "'a list \<Rightarrow> nat \<Rightarrow> 'a list \<Rightarrow> 'a list" where
  "mem_write dst off src = take off dst @ src @ drop (off + length src) dst"

lemma length_mem_write [simp]:
  "off + length src \<le> length dst \<Longrightarrow> length (mem_write dst off src) = length dst"
  by (simp add: mem_write_def)

text \<open>The bits of a byte and of a block, most significant bit first.\<close>

definition byte_bits :: "u8 \<Rightarrow> bool list" where
  "byte_bits x = map (bit x) [7, 6, 5, 4, 3, 2, 1, 0]"

definition block_bits :: "u8 list \<Rightarrow> bool list" where
  "block_bits bs = concat (map byte_bits bs)"

lemma length_byte_bits [simp]: "length (byte_bits x) = 8"
  by (simp add: byte_bits_def)

lemma length_block_bits [simp]: "length (block_bits bs) = 8 * length bs"
  by (induction bs) (simp_all add: block_bits_def)

lemma byte_bits_nth: "i < 8 \<Longrightarrow> byte_bits x ! i = bit x (7 - i)"
  by (auto simp: byte_bits_def less_Suc_eq numeral_eq_Suc)

lemma byte_bits_inject [simp]: "byte_bits x = byte_bits y \<longleftrightarrow> x = y"
proof
  assume eq: "byte_bits x = byte_bits y"
  show "x = y"
  proof (rule bit_word_eqI)
    fix n assume "n < LENGTH(8)"
    then have "7 - n < 8" "7 - (7 - n) = n" by auto
    then show "bit x n \<longleftrightarrow> bit y n" using eq byte_bits_nth by metis
  qed
qed simp

lemma block_bits_append [simp]: "block_bits (xs @ ys) = block_bits xs @ block_bits ys"
  by (simp add: block_bits_def)

lemma block_bits_Nil [simp]: "block_bits [] = []"
  by (simp add: block_bits_def)

lemma block_bits_Cons [simp]: "block_bits (x # xs) = byte_bits x @ block_bits xs"
  by (simp add: block_bits_def)

lemma block_bits_inject: "length xs = length ys \<Longrightarrow> block_bits xs = block_bits ys \<longleftrightarrow> xs = ys"
  by (induction xs ys rule: list_induct2) simp_all

lemma shift_eq_iff_bits:
  assumes "k \<le> 8"
  shows "drop_bit (8 - k) x = drop_bit (8 - k) y \<longleftrightarrow> take k (byte_bits x) = take k (byte_bits y)"
proof
  assume eq: "drop_bit (8 - k) x = drop_bit (8 - k) y"
  show "take k (byte_bits x) = take k (byte_bits y)"
  proof (rule nth_equalityI)
    fix i assume "i < length (take k (byte_bits x))"
    then have i: "i < k" "i < 8" by auto
    have "bit x ((8 - k) + (k - 1 - i)) = bit y ((8 - k) + (k - 1 - i))"
      using arg_cong [OF eq, of "\<lambda>w. bit w (k - 1 - i)"] by (simp add: bit_drop_bit_eq)
    moreover have "(8 - k) + (k - 1 - i) = 7 - i" using i assms by simp
    ultimately show "take k (byte_bits x) ! i = take k (byte_bits y) ! i"
      using i by (simp add: byte_bits_nth)
  qed simp
next
  assume eq: "take k (byte_bits x) = take k (byte_bits y)"
  show "drop_bit (8 - k) x = drop_bit (8 - k) y"
  proof (rule bit_word_eqI)
    fix n assume "n < LENGTH(8)"
    show "bit (drop_bit (8 - k) x) n \<longleftrightarrow> bit (drop_bit (8 - k) y) n"
    proof (cases "8 - k + n < 8")
      case True
      define i where "i = 7 - (8 - k + n)"
      have i: "i < k" "i < 8" "7 - i = 8 - k + n" using True assms by (auto simp: i_def)
      from eq have "take k (byte_bits x) ! i = take k (byte_bits y) ! i" by simp
      then show ?thesis using i by (simp add: byte_bits_nth bit_drop_bit_eq)
    next
      case False
      then show ?thesis by (auto simp: bit_drop_bit_eq dest: bit_imp_le_length)
    qed
  qed
qed

end
