(* ===== verification/Rfc5444_Conversion.thy ===== *)
theory Rfc5444_Conversion
  imports Prelude
begin

text \<open>
  The number formats of RFC 5497 and RFC 7181 (\<open>rfc5444/rfc5444.c\<close>, \<open>rfc5444/rfc5444.h\<close>): time
  TLVs (8 bit, 3 bit mantissa and 5 bit exponent), metric values (12 bit, 8 bit mantissa and 4 bit
  exponent) and packet sequence numbers that wrap at \<open>2 ^ 16\<close>. Both encoders are specified by the
  order on codes: they return the least code whose value is at least the encoded number.
\<close>

subsection \<open>Constants of \<open>rfc5444.h\<close>\<close>

definition RFC5497_TIMETLV_MAX :: u64 where "RFC5497_TIMETLV_MAX = 0xdac00000"
definition RFC5497_TIMETLV_MIN :: u64 where "RFC5497_TIMETLV_MIN = 0x00000001"
definition RFC7181_METRIC_MAX :: u32 where "RFC7181_METRIC_MAX = 0xffff00"
definition RFC7181_METRIC_MIN :: u32 where "RFC7181_METRIC_MIN = 0x000001"
definition RFC7181_METRIC_INFINITE :: u32 where "RFC7181_METRIC_INFINITE = 0xffffff"
definition RFC7181_METRIC_INFINITE_PATH :: u32 where "RFC7181_METRIC_INFINITE_PATH = 0xffffffff"

lemmas rfc5444_constants [model_defs] =
  RFC5497_TIMETLV_MAX_def RFC5497_TIMETLV_MIN_def RFC7181_METRIC_MAX_def RFC7181_METRIC_MIN_def
  RFC7181_METRIC_INFINITE_def RFC7181_METRIC_INFINITE_PATH_def

subsection \<open>Time TLV: lookup in a hopcount vector\<close>

text \<open>
  The loop of \<open>rfc5497_timetlv_get_from_vector\<close>; the vector is \<open>v\<^sub>0, d\<^sub>1, v\<^sub>1, \<dots>, d\<^sub>n, v\<^sub>n\<close>.
\<close>

function timetlv_vector_loop :: "u8 list \<Rightarrow> u8 \<Rightarrow> nat \<Rightarrow> u8" where
  "timetlv_vector_loop vector hopcount i =
     (if i < length vector
      then if hopcount \<le> vector ! i then vector ! (i - 1)
           else timetlv_vector_loop vector hopcount (i + 2)
      else vector ! (i - 1))"
  by pat_completeness auto
termination
  by (relation "measure (\<lambda>(vector, hopcount, i). length vector - i)") auto

declare timetlv_vector_loop.simps [simp del]

definition rfc5497_timetlv_get_from_vector :: "u8 list \<Rightarrow> u8 \<Rightarrow> u8" where
  "rfc5497_timetlv_get_from_vector vector hopcount =
     (if even (length vector) then 255 else timetlv_vector_loop vector hopcount 1)"

subsection \<open>Time TLV: encoding\<close>

text \<open>
  The two loops that bring \<open>decoded\<close> into the range of the mantissa. The second one shifts left as
  long as \<open>decoded < 1000\<close>, which for \<open>decoded = 0\<close> would go on for ever; it is therefore an
  \<^theory_text>\<open>option\<close> function, and \<open>timetlv_encode_returns\<close> below shows that the encoder always returns.
\<close>

function timetlv_halve :: "u64 \<Rightarrow> u32 \<Rightarrow> u64 \<times> u32" where
  "timetlv_halve decoded b =
     (if 1875 < decoded then timetlv_halve (drop_bit 1 (decoded + 1)) (b + 1)
      else (decoded, b))"
  by pat_completeness auto
termination
proof (relation "measure (\<lambda>(decoded, b). unat decoded)")
  fix decoded :: u64 and b :: u32
  assume "1875 < decoded"
  then have "1875 < unat decoded" by (simp add: word_nat)
  moreover have "unat (drop_bit 1 (decoded + 1)) \<le> (unat decoded + 1) div 2"
    by (rule unat_halve_up_le)
  ultimately show "((drop_bit 1 (decoded + 1), b + 1), (decoded, b)) \<in> measure (\<lambda>(decoded, b). unat decoded)"
    by simp
qed simp

declare timetlv_halve.simps [simp del]

partial_function (option) timetlv_double :: "u64 \<Rightarrow> u32 \<Rightarrow> (u64 \<times> u32) option" where
  "timetlv_double decoded b =
     (if decoded < 1000 then timetlv_double (push_bit 1 decoded) (b - 1)
      else Some (decoded, b))"

definition timetlv_pack :: "u64 \<times> u32 \<Rightarrow> u8" where
  "timetlv_pack p =
     (let decoded = fst p; b = snd p; a = ucast ((decoded - 1000 + 124) div 125) :: u32
      in ucast (a + push_bit 3 b))"

definition rfc5497_timetlv_encode :: "u64 \<Rightarrow> u8 option" where
  "rfc5497_timetlv_encode decoded =
     (if decoded < RFC5497_TIMETLV_MIN then Some 0
      else if decoded > RFC5497_TIMETLV_MAX then Some 255
      else if decoded \<ge> 1000 then Some (timetlv_pack (timetlv_halve decoded 10))
      else map_option timetlv_pack (timetlv_double decoded 10))"

subsection \<open>Time TLV: decoding\<close>

definition rfc5497_timetlv_decode :: "u8 \<Rightarrow> u64" where
  "rfc5497_timetlv_decode encoded =
     (if encoded = 0 then 0
      else if encoded = 255 then - 1
      else let a = encoded AND 7; b = drop_bit 3 encoded
           in if b \<le> 10 then drop_bit (10 - unat b) (1000 + 125 * ucast a)
              else push_bit (unat b - 10) (1000 + 125 * ucast a))"

subsection \<open>Metric values\<close>

text \<open>\<open>struct rfc7181_metric_field\<close> is two bytes: \<open>b[0]\<close> holds flags and exponent, \<open>b[1]\<close> the mantissa.\<close>

record rfc7181_metric_field =
  mb0 :: u8
  mb1 :: u8

function metric_halve :: "u32 \<Rightarrow> u8 \<Rightarrow> u32 \<times> u8" where
  "metric_halve decoded a =
     (if 512 < decoded then metric_halve (drop_bit 1 (decoded + 1)) (a + 1) else (decoded, a))"
  by pat_completeness auto
termination
proof (relation "measure (\<lambda>(decoded, a). unat decoded)")
  fix decoded :: u32 and a :: u8
  assume "512 < decoded"
  then have "512 < unat decoded" by (simp add: word_nat)
  moreover have "unat (drop_bit 1 (decoded + 1)) \<le> (unat decoded + 1) div 2"
    by (rule unat_halve_up_le)
  ultimately show "((drop_bit 1 (decoded + 1), a + 1), (decoded, a)) \<in> measure (\<lambda>(decoded, a). unat decoded)"
    by simp
qed simp

declare metric_halve.simps [simp del]

text \<open>The result is the return code and the field as the function leaves it.\<close>

definition rfc7181_metric_encode ::
    "rfc7181_metric_field \<Rightarrow> u32 \<Rightarrow> int \<times> rfc7181_metric_field" where
  "rfc7181_metric_encode encoded decoded =
     (if decoded < RFC7181_METRIC_MIN \<or> decoded \<ge> RFC7181_METRIC_INFINITE then (- 1, encoded)
      else if decoded > RFC7181_METRIC_MAX then (0, encoded\<lparr>mb0 := 0x0f, mb1 := 0xff\<rparr>)
      else let p = metric_halve (decoded + 256) 0; b = ucast (fst p - 257)
           in (0, encoded\<lparr>mb0 := snd p, mb1 := b\<rparr>))"

definition rfc7181_metric_decode :: "rfc7181_metric_field \<Rightarrow> u32" where
  "rfc7181_metric_decode encoded =
     (let exponent = mb0 encoded AND 15
      in push_bit (unat exponent) (257 + ucast (mb1 encoded)) - 256)"

text \<open>The flag operations of \<open>rfc5444.h\<close>; a flag is a bit mask of \<open>rfc7181_linkmetric_flags\<close>.\<close>

definition rfc7181_metric_has_flag :: "rfc7181_metric_field \<Rightarrow> u8 \<Rightarrow> bool" where
  "rfc7181_metric_has_flag metric flag = (mb0 metric AND flag \<noteq> 0)"

definition rfc7181_metric_set_flag :: "rfc7181_metric_field \<Rightarrow> u8 \<Rightarrow> rfc7181_metric_field" where
  "rfc7181_metric_set_flag metric flag = metric\<lparr>mb0 := mb0 metric OR flag\<rparr>"

definition rfc7181_metric_reset_flag :: "rfc7181_metric_field \<Rightarrow> u8 \<Rightarrow> rfc7181_metric_field" where
  "rfc7181_metric_reset_flag metric flag = metric\<lparr>mb0 := mb0 metric AND NOT flag\<rparr>"

subsection \<open>Sequence numbers\<close>

definition rfc5444_seqno_difference :: "u16 \<Rightarrow> u16 \<Rightarrow> int" where
  "rfc5444_seqno_difference seqno1 seqno2 =
     (let diff = uint seqno1 - uint seqno2
      in if diff > 2 ^ 15 then diff - 2 ^ 16
         else if diff < - (2 ^ 15) then diff + 2 ^ 16
         else diff)"

definition rfc5444_seqno_is_larger :: "u16 \<Rightarrow> u16 \<Rightarrow> bool" where
  "rfc5444_seqno_is_larger s1 s2 =
     ((s1 > s2 \<and> uint s1 - uint s2 < 2 ^ 15) \<or> (s2 > s1 \<and> uint s2 - uint s1 > 2 ^ 15))"

definition rfc5444_seqno_is_smaller :: "u16 \<Rightarrow> u16 \<Rightarrow> bool" where
  "rfc5444_seqno_is_smaller s1 s2 = (s1 \<noteq> s2 \<and> \<not> rfc5444_seqno_is_larger s1 s2)"

subsection \<open>Time TLV: the encoder rounds up\<close>

lemma timetlv_halve_bounds:
  assumes "unat d + 1 < 2 ^ 64" "timetlv_halve d b = (d', b')"
  shows "\<exists>k. b' = b + of_nat k \<and> unat d' \<le> 1875 \<and> unat d \<le> unat d' * 2 ^ k
    \<and> (unat d' - 1) * 2 ^ k < unat d + (if k = 0 then 1 else 0)
    \<and> (k = 0 \<longrightarrow> d' = d) \<and> (0 < k \<longrightarrow> 938 \<le> unat d' \<and> 1875 * 2 ^ (k - 1) < unat d)"
  using assms
proof (induction d b arbitrary: d' b' rule: timetlv_halve.induct)
  case (1 d b)
  show ?case
  proof (cases "1875 < d")
    case False
    with "1.prems" show ?thesis
      by (intro exI [of _ 0]) (auto simp: timetlv_halve.simps [of d b] word_nat)
  next
    case True
    let ?h = "drop_bit 1 (d + 1)"
    have h: "unat ?h = (unat d + 1) div 2"
      by (rule unat_halve_up) (use "1.prems" in simp)
    have gt: "1875 < unat d" using True by (simp add: word_nat)
    from True "1.prems" have "timetlv_halve ?h (b + 1) = (d', b')"
      by (simp add: timetlv_halve.simps [of d b])
    moreover have "unat ?h + 1 < 2 ^ 64" using h "1.prems"(1) by linarith
    ultimately obtain k where k: "b' = b + 1 + of_nat k" "unat d' \<le> 1875" "unat ?h \<le> unat d' * 2 ^ k"
      "(unat d' - 1) * 2 ^ k < unat ?h + (if k = 0 then 1 else 0)" "k = 0 \<longrightarrow> d' = ?h"
      "0 < k \<longrightarrow> 938 \<le> unat d' \<and> 1875 * 2 ^ (k - 1) < unat ?h"
      using "1.IH" [OF True] by metis
    have up: "unat d \<le> unat d' * 2 ^ Suc k" using k(3) h by simp
    have low: "(unat d' - 1) * 2 ^ Suc k < unat d"
      using k(4,5) h gt by (cases "k = 0") auto
    have pos: "938 \<le> unat d' \<and> 1875 * 2 ^ k < unat d"
    proof (cases k)
      case 0
      then show ?thesis using k(5) h gt by simp
    next
      case (Suc j)
      then show ?thesis using k(6) h by auto
    qed
    show ?thesis
      by (rule exI [of _ "Suc k"]) (use k(1,2) up low pos in simp)
  qed
qed

text \<open>The value of a time code and the two loops, on natural numbers.\<close>

definition timetlv_value :: "nat \<Rightarrow> nat" where
  "timetlv_value c =
     (let a = c mod 8; b = c div 8
      in if b \<le> 10 then (1000 + 125 * a) div 2 ^ (10 - b) else (1000 + 125 * a) * 2 ^ (b - 10))"

lemma timetlv_value_code [simp]:
  "a < 8 \<Longrightarrow> timetlv_value (a + 8 * b) =
     (if b \<le> 10 then (1000 + 125 * a) div 2 ^ (10 - b) else (1000 + 125 * a) * 2 ^ (b - 10))"
  by (simp add: timetlv_value_def)

lemma timetlv_value_step: "timetlv_value c \<le> timetlv_value (Suc c)"
proof -
  obtain a b where c: "c = a + 8 * b" and a: "a < 8"
    by (metis mod_div_decomp mod_less_divisor mult.commute add.commute zero_less_numeral)
  show ?thesis
  proof (cases "a = 7")
    case False
    then have a': "Suc a < 8" using a by simp
    have "timetlv_value (a + 8 * b) \<le> timetlv_value (Suc a + 8 * b)"
      unfolding timetlv_value_code [OF a] timetlv_value_code [OF a'] by (simp add: div_le_mono)
    then show ?thesis using c by simp
  next
    case True
    then have s: "Suc c = 0 + 8 * Suc b" using c by simp
    have v: "timetlv_value (0 + 8 * Suc b) =
        (if Suc b \<le> 10 then 1000 div 2 ^ (10 - Suc b) else 1000 * 2 ^ (Suc b - 10))"
      by (subst timetlv_value_code) simp_all
    show ?thesis
    proof (cases "b \<le> 9")
      case True
      have "1875 div 2 ^ Suc (9 - b) = 1875 div 2 div (2::nat) ^ (9 - b)"
        by (simp only: power_Suc div_mult2_eq)
      also have "\<dots> \<le> 1000 div 2 ^ (9 - b)" by (rule div_le_mono) simp
      finally have "timetlv_value (7 + 8 * b) \<le> timetlv_value (0 + 8 * Suc b)"
        unfolding timetlv_value_code [of 7 b, simplified] v
        using True Suc_diff_le [of b 9] by (simp del: power_Suc)
      then show ?thesis using c s \<open>a = 7\<close> by simp
    next
      case False
      then have "10 \<le> b" by simp
      then obtain i where b: "b = 10 + i" using le_Suc_ex by blast
      have "timetlv_value (7 + 8 * b) = 1875 * 2 ^ i"
        by (subst timetlv_value_code) (simp_all add: b)
      moreover have "timetlv_value (0 + 8 * Suc b) = 2000 * 2 ^ i"
        unfolding v by (simp add: b)
      ultimately show ?thesis using c s \<open>a = 7\<close> by simp
    qed
  qed
qed

lemma timetlv_value_mono: "c \<le> c' \<Longrightarrow> timetlv_value c \<le> timetlv_value c'"
  by (rule lift_Suc_mono_le [of timetlv_value]) (rule timetlv_value_step)

text \<open>A code with these two bounds is the least one that reaches \<open>n\<close>.\<close>

lemma timetlv_least:
  assumes "n \<le> timetlv_value e" "1 \<le> e \<Longrightarrow> timetlv_value (e - 1) < n"
  shows "e \<le> c \<longleftrightarrow> n \<le> timetlv_value c"
proof
  assume "e \<le> c"
  with assms timetlv_value_mono [of e c] show "n \<le> timetlv_value c" by linarith
next
  assume le: "n \<le> timetlv_value c"
  show "e \<le> c"
  proof (rule ccontr)
    assume "\<not> e \<le> c"
    then have "c \<le> e - 1" "1 \<le> e" by auto
    with assms timetlv_value_mono [of c "e - 1"] le show False by linarith
  qed
qed

lemma timetlv_mantissa_bounds:
  assumes "938 \<le> D" "A = (D - 876) div (125::nat)"
  shows "D \<le> 1000 + 125 * A" and "1 \<le> A \<Longrightarrow> 1000 + 125 * (A - 1) < D" and "A = 0 \<Longrightarrow> D \<le> 1000"
    and "D \<le> 1875 \<Longrightarrow> A \<le> 7" and "D < 2000 \<Longrightarrow> A \<le> 8" and "8 \<le> A \<Longrightarrow> 1875 < D"
  using assms by auto

lemma timetlv_up_code:
  assumes D: "938 \<le> D" "D \<le> 1875" and A: "A = (D - 876) div 125" and N: "N \<le> D * 2 ^ k"
    and low: "(D - 1) * 2 ^ k < N + (if k = 0 then 1 else 0)" "k = 0 \<Longrightarrow> D = N" "1000 \<le> N"
    "0 < k \<Longrightarrow> 1875 * 2 ^ (k - 1) < N" and e: "e = A + 8 * (10 + k)"
  shows "N \<le> timetlv_value e" and "timetlv_value (e - 1) < N"
proof -
  note b = timetlv_mantissa_bounds [OF D(1) A]
  have A7: "A < 8" using b(4) D(2) by simp
  have "N \<le> (1000 + 125 * A) * 2 ^ k"
    using N b(1) by (meson le_trans mult_le_mono1)
  then show "N \<le> timetlv_value e"
    using timetlv_value_code [OF A7, of "10 + k"] e by (auto split: if_splits)
  show "timetlv_value (e - 1) < N"
  proof (cases "A = 0")
    case False
    then have e1: "e - 1 = (A - 1) + 8 * (10 + k)" using e by simp
    have le: "(1000 + 125 * (A - 1)) * 2 ^ k \<le> (D - 1) * 2 ^ k"
      using b(2) False by (intro mult_le_mono1) simp
    then have "(1000 + 125 * (A - 1)) * 2 ^ k < N"
      using low(1,2) b(2) False le_less_trans [OF le] by (cases "k = 0") auto
    moreover have "A - 1 < 8" using A7 by simp
    ultimately show ?thesis
      unfolding e1 using timetlv_value_code [of "A - 1" "10 + k"] by (auto split: if_splits)
  next
    case True
    then show ?thesis
    proof (cases k)
      case 0
      then show ?thesis using True e low(2,3) b(3) timetlv_value_code [of 7 9] by simp
    next
      case (Suc j)
      then have e1: "e - 1 = 7 + 8 * (10 + j)" using e True by simp
      have "timetlv_value (7 + 8 * (10 + j)) = 1875 * 2 ^ j"
        by (subst timetlv_value_code) simp_all
      then show ?thesis unfolding e1 using low(4) Suc by simp
    qed
  qed
qed

lemma timetlv_down_code:
  assumes D: "D = N * 2 ^ j" "1000 \<le> D" "D < 2000" and A: "A = (D - 876) div 125"
    and j: "1 \<le> j" "j \<le> 10" and e: "e = A + 8 * (10 - j)"
  shows "N \<le> timetlv_value e" and "1 \<le> e \<Longrightarrow> timetlv_value (e - 1) < N"
proof -
  have D938: "938 \<le> D" using D by simp
  note b = timetlv_mantissa_bounds [OF D938 A]
  have lt: "x < D \<Longrightarrow> x div 2 ^ j < N" for x
    using D(1) by (simp add: less_mult_imp_div_less)
  have ge: "D \<le> x \<Longrightarrow> N \<le> x div 2 ^ j" for x
    using D(1) by (metis div_le_mono nonzero_mult_div_cancel_right power_not_zero zero_neq_numeral)
  have A8: "A \<le> 8" using b(5) D(3) by simp
  show "N \<le> timetlv_value e"
  proof (cases "A = 8")
    case True
    then have e1: "e = 0 + 8 * (11 - j)" using e j by simp
    obtain i where i: "j = Suc i" using j by (cases j) auto
    have "N * 2 ^ i \<le> 1000" using D i by simp
    then have "N \<le> 1000 div 2 ^ i"
      by (simp add: less_eq_div_iff_mult_less_eq)
    then show ?thesis using e1 j i by (simp del: add_0 add_0_left) (simp add: timetlv_value_def)
  next
    case False
    then have "A < 8" using A8 by simp
    then show ?thesis using ge [OF b(1)] j e by simp
  qed
  assume e0: "1 \<le> e"
  show "timetlv_value (e - 1) < N"
  proof (cases "A = 0")
    case True
    then have "D = 1000" using b(3) D by simp
    have "j \<noteq> 10" using True e e0 by auto
    with True e j have e1: "e - 1 = 7 + 8 * (9 - j)" by simp
    have "1875 div 2 ^ Suc j < N"
      by (rule less_mult_imp_div_less) (use \<open>D = 1000\<close> D in simp)
    moreover have "9 - j \<le> 10" by simp
    ultimately show ?thesis unfolding e1 using j \<open>j \<noteq> 10\<close> by (simp add: Suc_diff_le)
  next
    case False
    then have e1: "e - 1 = (A - 1) + 8 * (10 - j)" using e by simp
    have "1000 + 125 * (A - 1) < D" using b(2) False by simp
    from lt [OF this] show ?thesis
      unfolding e1 using A8 False j timetlv_value_code [of "A - 1" "10 - j"] by simp
  qed
qed

lemma timetlv_pack_unat:
  assumes "938 \<le> unat d" "unat d < 2000" "A = (unat d - 876) div 125" "A + 8 * unat b < 256"
  shows "unat (timetlv_pack (d, b)) = A + 8 * unat b"
proof -
  have "unat (d - 1000 + 124) = unat d - 876"
  proof -
    have "d - 1000 + 124 = d - 876" by simp
    moreover have "876 \<le> d" using assms(1) by (simp add: word_nat)
    ultimately show ?thesis by (simp add: unat_sub)
  qed
  then have a: "unat ((d - 1000 + 124) div 125) = A" using assms(3) by (simp add: unat_div)
  have A: "A < 256" using assms(4) by simp
  have "unat (ucast ((d - 1000 + 124) div 125) :: u32) = A"
    using a A by (simp add: unsigned_ucast_eq take_bit_nat_eq_self)
  moreover have "unat (push_bit 3 b) = 8 * unat b"
    using assms(4) by (simp add: push_bit_eq_mult unat_word_ariths)
  ultimately show ?thesis
    using assms(4) by (simp add: timetlv_pack_def Let_def unsigned_ucast_eq unat_word_ariths take_bit_nat_eq_self)
qed

lemma timetlv_double_returns:
  assumes "0 < unat d" "unat d < 2000"
  shows "\<exists>j d'. timetlv_double d b = Some (d', b - of_nat j) \<and> unat d' = unat d * 2 ^ j
    \<and> 1000 \<le> unat d' \<and> unat d' < 2000 \<and> (unat d < 1000 \<longrightarrow> 1 \<le> j)"
  using assms
proof (induction "2000 - unat d" arbitrary: d b rule: less_induct)
  case less
  show ?case
  proof (cases "d < 1000")
    case False
    with less.prems show ?thesis
      by (intro exI [of _ 0] exI [of _ d]) (simp add: timetlv_double.simps [of d b] word_nat)
  next
    case True
    then have lt: "unat d < 1000" by (simp add: word_nat)
    have u: "unat (push_bit 1 d) = 2 * unat d"
      using lt by (simp add: push_bit_eq_mult unat_word_ariths)
    have "\<exists>j d'. timetlv_double (push_bit 1 d) (b - 1) = Some (d', b - 1 - of_nat j)
        \<and> unat d' = unat (push_bit 1 d) * 2 ^ j \<and> 1000 \<le> unat d' \<and> unat d' < 2000
        \<and> (unat (push_bit 1 d) < 1000 \<longrightarrow> 1 \<le> j)"
      by (rule less.hyps) (use u lt less.prems in auto)
    then obtain j d' where "timetlv_double (push_bit 1 d) (b - 1) = Some (d', b - 1 - of_nat j)"
      "unat d' = unat d * 2 ^ Suc j" "1000 \<le> unat d'" "unat d' < 2000"
      unfolding u by auto
    then show ?thesis
      using True by (intro exI [of _ "Suc j"] exI [of _ d']) (simp add: timetlv_double.simps [of d b] diff_diff_eq)
  qed
qed

text \<open>The encoder returns the least code that reaches its argument, as a number.\<close>

lemma timetlv_encode_least:
  assumes "1 \<le> unat d" "unat d \<le> 0xdac00000"
  shows "\<exists>e. rfc5497_timetlv_encode d = Some e \<and> unat e \<le> 254 \<and> unat d \<le> timetlv_value (unat e)
    \<and> (1 \<le> unat e \<longrightarrow> timetlv_value (unat e - 1) < unat d)"
proof (cases "unat d < 1000")
  case True
  obtain j d' where j: "timetlv_double d 10 = Some (d', 10 - of_nat j)" "unat d' = unat d * 2 ^ j"
    "1000 \<le> unat d'" "unat d' < 2000" "1 \<le> j"
    using timetlv_double_returns [of d 10] assms True by auto
  have j10: "j \<le> 10"
  proof (rule ccontr)
    assume "\<not> j \<le> 10"
    then have "(2::nat) ^ 11 \<le> 2 ^ j" by (intro power_increasing) auto
    then have "1 * 2 ^ 11 \<le> unat d * 2 ^ j" using assms by (intro mult_le_mono) auto
    with j show False by simp
  qed
  define A where "A = (unat d' - 876) div 125"
  have A8: "A \<le> 8" using timetlv_mantissa_bounds(5) [of "unat d'" A] A_def j by simp
  have b: "unat (10 - of_nat j :: u32) = 10 - j"
  proof -
    have u: "unat (of_nat j :: u32) = j" using j10 by (simp add: unat_of_nat)
    then have "of_nat j \<le> (10 :: u32)" using j10 by (simp add: word_le_nat_alt)
    then show ?thesis using u by (simp add: unat_sub)
  qed
  have e: "unat (timetlv_pack (d', 10 - of_nat j)) = A + 8 * (10 - j)"
    using timetlv_pack_unat [of d' A "10 - of_nat j"] j A_def A8 b by simp
  have enc: "rfc5497_timetlv_encode d = Some (timetlv_pack (d', 10 - of_nat j))"
    using True assms j(1) by (simp add: rfc5497_timetlv_encode_def rfc5444_constants word_nat)
  have n: "unat d' = unat d * 2 ^ j" "1000 \<le> unat d'" "unat d' < 2000" by (fact j)+
  note c = timetlv_down_code [OF n A_def j(5) j10 e]
  show ?thesis using enc c e A8 j by (intro exI conjI) (auto simp del: timetlv_value_code)
next
  case False
  obtain d' b' where h: "timetlv_halve d 10 = (d', b')" by fastforce
  obtain k where k: "b' = 10 + of_nat k" "unat d' \<le> 1875" "unat d \<le> unat d' * 2 ^ k"
    "(unat d' - 1) * 2 ^ k < unat d + (if k = 0 then 1 else 0)"
    "k = 0 \<longrightarrow> d' = d" "0 < k \<longrightarrow> 938 \<le> unat d' \<and> 1875 * 2 ^ (k - 1) < unat d"
    using timetlv_halve_bounds [OF _ h] assms by auto
  have k21: "k \<le> 21"
  proof (rule ccontr)
    assume "\<not> k \<le> 21"
    then have "(2::nat) ^ 21 \<le> 2 ^ (k - 1)" by (intro power_increasing) auto
    then have "1875 * 2 ^ 21 \<le> 1875 * (2::nat) ^ (k - 1)" by simp
    with k(6) \<open>\<not> k \<le> 21\<close> assms(2) show False by simp
  qed
  have D: "938 \<le> unat d'" using k False by (cases "k = 0") auto
  define A where "A = (unat d' - 876) div 125"
  have A7: "A \<le> 7" using timetlv_mantissa_bounds(4) [OF D A_def] k by simp
  have b: "unat b' = 10 + k" using k21 k(1) by (simp add: unat_word_ariths unat_of_nat)
  have e: "unat (timetlv_pack (d', b')) = A + 8 * (10 + k)"
    using timetlv_pack_unat [OF D _ A_def, of b'] k A7 b k21 by simp
  have k6: "A + 8 * (10 + k) \<le> 254"
  proof (cases "k = 21")
    case True
    with k(4) assms(2) have "unat d' \<le> 1750" by simp
    then have "A \<le> 6" using A_def by (simp add: div_le_mono [of _ "874" 125, simplified])
    with True show ?thesis by simp
  next
    case False
    with A7 k21 show ?thesis by simp
  qed
  have enc: "rfc5497_timetlv_encode d = Some (timetlv_pack (d', b'))"
    using False assms h by (simp add: rfc5497_timetlv_encode_def rfc5444_constants word_nat)
  have "1000 \<le> unat d" using False by simp
  note c = timetlv_up_code [OF D k(2) A_def k(3,4) _ this _ e]
  show ?thesis using enc c e k6 k(5,6) by (intro exI conjI) (auto simp del: timetlv_value_code)
qed

lemma timetlv_decode_value:
  assumes "1 \<le> unat c" "unat c \<le> 254"
  shows "unat (rfc5497_timetlv_decode c) = timetlv_value (unat c)"
proof -
  have nz: "c \<noteq> 0" "c \<noteq> 255" using assms by auto
  have a: "unat (c AND 7) = unat c mod 8"
  proof -
    have "c AND 7 = take_bit 3 c" by (simp add: take_bit_eq_mask mask_eq_exp_minus_1)
    then show ?thesis by (simp add: take_bit_eq_mod unat_mod)
  qed
  have b: "unat (drop_bit 3 c) = unat c div 8" by (simp only: unat_drop_bit) simp
  have a7: "unat c mod 8 \<le> 7" using mod_less_divisor [of 8 "unat c"] by linarith
  have b31: "unat c div 8 \<le> 31" using assms by linarith
  let ?m = "1000 + 125 * ucast (c AND 7) :: u64"
  have m: "unat ?m = 1000 + 125 * (unat c mod 8)"
    using a7 by (simp add: unat_word_ariths unsigned_ucast_eq a take_bit_nat_eq_self)
  show ?thesis
  proof (cases "unat c div 8 \<le> 10")
    case True
    then have "drop_bit 3 c \<le> (10::u8)" using b by (simp add: word_nat)
    then show ?thesis
      using nz True b m by (simp add: rfc5497_timetlv_decode_def timetlv_value_def Let_def unat_drop_bit del: drop_bit_numeral_minus_bit0 drop_bit_numeral_minus_bit1)
  next
    case False
    then have "\<not> drop_bit 3 c \<le> (10::u8)" using b by (simp add: word_nat)
    moreover have "unat (push_bit (unat c div 8 - 10) ?m) = (1000 + 125 * (unat c mod 8)) * 2 ^ (unat c div 8 - 10)"
    proof -
      have "(2::nat) ^ (unat c div 8 - 10) \<le> 2 ^ 21" using b31 by (intro power_increasing) auto
      then have "(1000 + 125 * (unat c mod 8)) * 2 ^ (unat c div 8 - 10) \<le> 1875 * (2::nat) ^ 21"
        using a7 by (intro mult_le_mono) auto
      then have lt: "(1000 + 125 * (unat c mod 8)) * 2 ^ (unat c div 8 - 10) < (2::nat) ^ 64" by simp
      show ?thesis using lt m
        by (simp only: unsigned_push_bit_eq) (simp add: take_bit_nat_eq_self push_bit_eq_mult)
    qed
    ultimately show ?thesis
      using nz False b by (simp add: rfc5497_timetlv_decode_def timetlv_value_def Let_def)
  qed
qed

subsection \<open>Metrics: the encoder rounds up\<close>

definition metric_value :: "nat \<Rightarrow> nat" where
  "metric_value e = (257 + e mod 256) * 2 ^ (e div 256) - 256"

definition metric_code :: "rfc7181_metric_field \<Rightarrow> nat" where
  "metric_code f = unat (mb1 f) + 256 * unat (mb0 f)"

lemma metric_value_code: "b < 256 \<Longrightarrow> metric_value (b + 256 * a) = (257 + b) * 2 ^ a - 256"
  by (simp add: metric_value_def)

lemma metric_mantissa_ge: "256 \<le> (257 + b) * (2::nat) ^ a"
  by (rule order_trans [OF _ mult_le_mono2 [of 1 "2 ^ a" "257 + b"]]) simp_all

lemma metric_value_step: "metric_value e < metric_value (Suc e)"
proof -
  obtain a b where e: "e = b + 256 * a" and b: "b < 256"
    by (metis mod_div_decomp mod_less_divisor mult.commute add.commute zero_less_numeral)
  have p: "1 \<le> (2::nat) ^ a" by simp
  show ?thesis
  proof (cases "b = 255")
    case False
    then have "Suc b < 256" using b by simp
    from metric_value_code [OF this, of a] have "metric_value (Suc e) = (258 + b) * 2 ^ a - 256"
      using e by simp
    moreover have "metric_value e = (257 + b) * 2 ^ a - 256" using metric_value_code [OF b] e by simp
    moreover have "(258 + b) * 2 ^ a = (257 + b) * 2 ^ a + (2::nat) ^ a" by (simp add: algebra_simps)
    ultimately show ?thesis using p metric_mantissa_ge [of b a] by linarith
  next
    case True
    then have "metric_value (Suc e) = 514 * 2 ^ a - 256"
      using metric_value_code [of 0 "Suc a"] e by simp
    moreover have "metric_value e = 512 * 2 ^ a - 256" using metric_value_code [OF b] e True by simp
    ultimately show ?thesis using p by linarith
  qed
qed

lemma metric_value_strict: "e < e' \<Longrightarrow> metric_value e < metric_value e'"
  by (rule lift_Suc_mono_less [of metric_value]) (rule metric_value_step)

lemma metric_value_le_iff: "metric_value e \<le> metric_value e' \<longleftrightarrow> e \<le> e'"
  by (metis metric_value_strict linorder_not_less order.order_iff_strict)

lemma metric_halve_bounds:
  assumes "unat d + 1 < 2 ^ 32" "257 \<le> unat d" "metric_halve d a = (d', a')"
  shows "\<exists>k. a' = a + of_nat k \<and> 257 \<le> unat d' \<and> unat d' \<le> 512 \<and> unat d \<le> unat d' * 2 ^ k
    \<and> (unat d' - 1) * 2 ^ k < unat d \<and> (0 < k \<longrightarrow> 512 * 2 ^ (k - 1) < unat d)"
  using assms
proof (induction d a arbitrary: d' a' rule: metric_halve.induct)
  case (1 d a)
  show ?case
  proof (cases "512 < d")
    case False
    with "1.prems" show ?thesis
      by (intro exI [of _ 0]) (auto simp: metric_halve.simps [of d a] word_nat)
  next
    case True
    let ?h = "drop_bit 1 (d + 1)"
    have h: "unat ?h = (unat d + 1) div 2"
      by (rule unat_halve_up) (use "1.prems" in simp)
    have gt: "512 < unat d" using True by (simp add: word_nat)
    from True "1.prems" have "metric_halve ?h (a + 1) = (d', a')"
      by (simp add: metric_halve.simps [of d a])
    moreover have "unat ?h + 1 < 2 ^ 32" "257 \<le> unat ?h" using h gt "1.prems"(1) by linarith+
    ultimately obtain k where k: "a' = a + 1 + of_nat k" "257 \<le> unat d'" "unat d' \<le> 512"
      "unat ?h \<le> unat d' * 2 ^ k" "(unat d' - 1) * 2 ^ k < unat ?h"
      "0 < k \<longrightarrow> 512 * 2 ^ (k - 1) < unat ?h"
      using "1.IH" [OF True] by metis
    have up: "unat d \<le> unat d' * 2 ^ Suc k" using k(4) h by simp
    have low: "(unat d' - 1) * 2 ^ Suc k < unat d" using k(5) h by simp
    have pos: "512 * 2 ^ k < unat d"
    proof (cases k)
      case 0
      then show ?thesis using gt by simp
    next
      case (Suc j)
      then show ?thesis using k(6) h by auto
    qed
    show ?thesis
      by (rule exI [of _ "Suc k"]) (use k(1,2,3) up low pos in simp)
  qed
qed

lemma metric_encode_least:
  assumes "1 \<le> unat m" "unat m \<le> 0xffff00"
  shows "\<exists>a b. rfc7181_metric_encode f0 m = (0, f0\<lparr>mb0 := a, mb1 := b\<rparr>) \<and> unat a < 16
    \<and> unat m \<le> metric_value (unat b + 256 * unat a)
    \<and> (1 \<le> unat b + 256 * unat a \<longrightarrow> metric_value (unat b + 256 * unat a - 1) < unat m)"
proof -
  have N: "unat (m + 256) = unat m + 256" using assms by (simp add: unat_word_ariths)
  obtain d' a' where h: "metric_halve (m + 256) 0 = (d', a')" by fastforce
  have "unat (m + 256) + 1 < 2 ^ 32" "257 \<le> unat (m + 256)" using N assms by auto
  from metric_halve_bounds [OF this h] obtain k where k: "a' = of_nat k" "257 \<le> unat d'"
    "unat d' \<le> 512" "unat m + 256 \<le> unat d' * 2 ^ k" "(unat d' - 1) * 2 ^ k < unat m + 256"
    "0 < k \<longrightarrow> 512 * 2 ^ (k - 1) < unat m + 256"
    unfolding N by auto
  have k15: "k \<le> 15"
  proof (rule ccontr)
    assume "\<not> k \<le> 15"
    then have "(2::nat) ^ 15 \<le> 2 ^ (k - 1)" by (intro power_increasing) auto
    then have "512 * 2 ^ 15 \<le> 512 * (2::nat) ^ (k - 1)" by simp
    with k(6) \<open>\<not> k \<le> 15\<close> assms(2) show False by simp
  qed
  have a: "unat a' = k" using k15 k(1) by (simp add: unat_of_nat)
  have "257 \<le> d'" using k(2) by (simp add: word_le_nat_alt)
  then have s: "unat (d' - 257) = unat d' - 257" by (simp add: unat_sub)
  have b: "unat (ucast (d' - 257) :: u8) = unat d' - 257"
    using k(3) s by (simp add: unsigned_ucast_eq take_bit_nat_eq_self)
  let ?e = "unat d' - 257 + 256 * k"
  have lt: "unat d' - 257 < 256" using k(3) by simp
  have ge: "unat m \<le> metric_value ?e"
    using metric_value_code [OF lt, of k] k(2,4) by simp
  have least: "metric_value (?e - 1) < unat m" if "1 \<le> ?e"
  proof (cases "unat d' = 257")
    case True
    with that obtain j where j: "k = Suc j" by (cases k) auto
    then have "?e - 1 = 255 + 256 * j" using True by simp
    then have "metric_value (?e - 1) = 512 * 2 ^ j - 256" using metric_value_code [of 255 j] by simp
    moreover have "512 * 2 ^ j < unat m + 256" using k(6) j by simp
    ultimately show ?thesis using assms(1) by linarith
  next
    case False
    then have e1: "?e - 1 = (unat d' - 258) + 256 * k" using k(2) by simp
    have lt': "unat d' - 258 < 256" using lt by simp
    have "metric_value (?e - 1) = (257 + (unat d' - 258)) * 2 ^ k - 256"
      unfolding e1 by (rule metric_value_code [OF lt'])
    moreover have "257 + (unat d' - 258) = unat d' - 1" using False k(2) by simp
    ultimately have "metric_value (?e - 1) = (unat d' - 1) * 2 ^ k - 256" by simp
    then show ?thesis using k(5) assms(1) by linarith
  qed
  have "rfc7181_metric_encode f0 m = (0, f0\<lparr>mb0 := a', mb1 := ucast (d' - 257)\<rparr>)"
    using assms h
    by (simp add: rfc7181_metric_encode_def rfc5444_constants word_le_nat_alt word_less_nat_alt Let_def)
  moreover have "unat a' < 16" using a k15 by simp
  ultimately show ?thesis using ge least
    by (intro exI [of _ a'] exI [of _ "ucast (d' - 257)"]) (simp add: a b)
qed

lemma metric_decode_value:
  assumes "unat (mb0 f) < 16"
  shows "unat (rfc7181_metric_decode f) = metric_value (metric_code f)"
proof -
  have "mb0 f AND 15 = take_bit 4 (mb0 f)" by (simp add: take_bit_eq_mask mask_eq_exp_minus_1)
  then have a: "unat (mb0 f AND 15) = unat (mb0 f)"
    using assms by (simp add: take_bit_eq_mod unat_mod)
  have b: "unat (mb1 f) < 256" using unsigned_less [of "mb1 f"] by simp
  let ?m = "257 + ucast (mb1 f) :: u32"
  have m: "unat ?m = 257 + unat (mb1 f)"
    using b by (simp add: unat_word_ariths unsigned_ucast_eq take_bit_nat_eq_self)
  have "(2::nat) ^ unat (mb0 f) \<le> 2 ^ 15" using assms by (intro power_increasing) auto
  then have "(257 + unat (mb1 f)) * 2 ^ unat (mb0 f) \<le> 512 * (2::nat) ^ 15"
    using b by (intro mult_le_mono) auto
  then have lt: "(257 + unat (mb1 f)) * 2 ^ unat (mb0 f) < (2::nat) ^ 32" by simp
  have sh: "unat (push_bit (unat (mb0 f)) ?m) = (257 + unat (mb1 f)) * 2 ^ unat (mb0 f)"
    using lt m by (simp only: unsigned_push_bit_eq) (simp add: take_bit_nat_eq_self push_bit_eq_mult)
  have "256 \<le> push_bit (unat (mb0 f)) ?m"
    using sh metric_mantissa_ge [of "unat (mb1 f)" "unat (mb0 f)"]
    by (simp add: word_le_nat_alt del: push_bit_numeral)
  then have "unat (push_bit (unat (mb0 f)) ?m - 256) = (257 + unat (mb1 f)) * 2 ^ unat (mb0 f) - 256"
    using sh by (simp add: unat_sub)
  then show ?thesis using b
    by (simp add: rfc7181_metric_decode_def Let_def a metric_code_def metric_value_code)
qed

text \<open>
  C3. For every time between the two constants of \<open>rfc5444.h\<close> the encoder returns, and its result is the
  least of the codes 1 to 254 whose decoded value is at least that time. So an encoded interval is
  never shorter than the configured one, and no smaller code would have done.
\<close>

theorem timetlv_encode_least_code:
  assumes "RFC5497_TIMETLV_MIN \<le> t" "t \<le> RFC5497_TIMETLV_MAX"
  shows "\<exists>e. rfc5497_timetlv_encode t = Some e \<and> 1 \<le> e \<and> e \<le> 254
    \<and> (\<forall>c. 1 \<le> c \<and> c \<le> 254 \<longrightarrow> (e \<le> c \<longleftrightarrow> t \<le> rfc5497_timetlv_decode c))"
proof -
  have "1 \<le> unat t" "unat t \<le> 0xdac00000"
    using assms by (simp_all add: rfc5444_constants word_le_nat_alt)
  from timetlv_encode_least [OF this] obtain e where e: "rfc5497_timetlv_encode t = Some e"
    "unat e \<le> 254" "unat t \<le> timetlv_value (unat e)"
    "1 \<le> unat e \<Longrightarrow> timetlv_value (unat e - 1) < unat t" by blast
  have "e \<le> c \<longleftrightarrow> t \<le> rfc5497_timetlv_decode c" if "1 \<le> c" "c \<le> 254" for c
    using timetlv_least [OF e(3,4), of "unat c"] that timetlv_decode_value [of c]
    by (simp add: word_le_nat_alt)
  moreover have "unat e \<noteq> 0"
  proof
    assume "unat e = 0"
    with e(3) \<open>1 \<le> unat t\<close> show False by (simp add: timetlv_value_def)
  qed
  then have "1 \<le> e" by (simp add: word_le_nat_alt)
  moreover have "e \<le> 254" using e(2) by (simp add: word_le_nat_alt)
  ultimately show ?thesis using e(1) by blast
qed

theorem timetlv_encode_least_code_witness:
  "\<exists>e. rfc5497_timetlv_encode 3000 = Some e \<and> 1 \<le> e \<and> e \<le> 254
    \<and> (\<forall>c. 1 \<le> c \<and> c \<le> 254 \<longrightarrow> (e \<le> c \<longleftrightarrow> 3000 \<le> rfc5497_timetlv_decode c))"
  by (rule timetlv_encode_least_code) (simp_all add: rfc5444_constants)

text \<open>
  C1. For every representable metric the encoder succeeds with a 12 bit code, and that code is the least
  one whose decoded metric is not smaller than the encoded one.
\<close>

theorem metric_encode_least_code:
  assumes "RFC7181_METRIC_MIN \<le> m" "m \<le> RFC7181_METRIC_MAX"
  shows "\<exists>f. rfc7181_metric_encode f0 m = (0, f) \<and> unat (mb0 f) < 16
    \<and> (\<forall>g. unat (mb0 g) < 16 \<longrightarrow> (metric_code f \<le> metric_code g \<longleftrightarrow> m \<le> rfc7181_metric_decode g))"
proof -
  have "1 \<le> unat m" "unat m \<le> 0xffff00"
    using assms by (simp_all add: rfc5444_constants word_le_nat_alt)
  from metric_encode_least [OF this, of f0] obtain f where
    f: "rfc7181_metric_encode f0 m = (0, f)" "unat (mb0 f) < 16"
      "unat m \<le> metric_value (metric_code f)"
      "1 \<le> metric_code f \<Longrightarrow> metric_value (metric_code f - 1) < unat m"
    unfolding metric_code_def by fastforce
  have "metric_code f \<le> metric_code g \<longleftrightarrow> m \<le> rfc7181_metric_decode g" if "unat (mb0 g) < 16" for g
  proof -
    have "metric_code f \<le> metric_code g \<longleftrightarrow> unat m \<le> metric_value (metric_code g)"
    proof
      assume "metric_code f \<le> metric_code g"
      then show "unat m \<le> metric_value (metric_code g)" using f(3) metric_value_le_iff order_trans by blast
    next
      assume "unat m \<le> metric_value (metric_code g)"
      then show "metric_code f \<le> metric_code g"
        using f(4) metric_value_le_iff [of "metric_code g" "metric_code f - 1"] by linarith
    qed
    then show ?thesis using metric_decode_value [OF that] by (simp add: word_le_nat_alt)
  qed
  then show ?thesis using f(1,2) by blast
qed

theorem metric_encode_least_code_witness:
  "\<exists>f. rfc7181_metric_encode \<lparr>mb0 = 0, mb1 = 0\<rparr> 1000 = (0, f) \<and> unat (mb0 f) < 16
    \<and> (\<forall>g. unat (mb0 g) < 16 \<longrightarrow> (metric_code f \<le> metric_code g \<longleftrightarrow> 1000 \<le> rfc7181_metric_decode g))"
  by (rule metric_encode_least_code) (simp_all add: rfc5444_constants)

lemma metric_code_mod_div: "metric_code f mod 256 = unat (mb1 f)" "metric_code f div 256 = unat (mb0 f)"
  using unsigned_less [of "mb1 f", where ?'a = nat] by (simp_all add: metric_code_def)

lemma metric_code_inj: "metric_code f = metric_code g \<Longrightarrow> mb0 f = mb0 g \<and> mb1 f = mb1 g"
  by (metis metric_code_mod_div word_unat_eq_iff)

text \<open>
  C2. Every 12 bit metric code survives decoding and encoding again: the two functions are inverse on
  codes without flag bits.
\<close>

theorem metric_roundtrip:
  assumes "unat (mb0 f) < 16"
  shows "rfc7181_metric_encode f (rfc7181_metric_decode f) = (0, f)"
proof -
  let ?m = "rfc7181_metric_decode f"
  have v: "unat ?m = metric_value (metric_code f)" by (rule metric_decode_value [OF assms])
  have "metric_code f \<le> 4095"
    using assms unsigned_less [of "mb1 f", where ?'a = nat] by (simp add: metric_code_def)
  then have "metric_value (metric_code f) \<le> metric_value 4095" by (simp add: metric_value_le_iff)
  then have hi: "unat ?m \<le> 0xffff00" using v by (simp add: metric_value_def)
  have "metric_value 0 \<le> metric_value (metric_code f)" by (simp add: metric_value_le_iff)
  then have lo: "1 \<le> unat ?m" using v by (simp add: metric_value_def)
  obtain a b where e: "rfc7181_metric_encode f ?m = (0, f\<lparr>mb0 := a, mb1 := b\<rparr>)" "unat a < 16"
    "unat ?m \<le> metric_value (unat b + 256 * unat a)"
    "1 \<le> unat b + 256 * unat a \<longrightarrow> metric_value (unat b + 256 * unat a - 1) < unat ?m"
    using metric_encode_least [OF lo hi, of f] by blast
  let ?g = "f\<lparr>mb0 := a, mb1 := b\<rparr>"
  have g: "metric_code ?g = unat b + 256 * unat a" by (simp add: metric_code_def)
  have "metric_code f \<le> metric_code ?g" using e(3) v g by (simp add: metric_value_le_iff)
  moreover have "metric_code ?g \<le> metric_code f"
    using e(4) v g metric_value_le_iff [of "metric_code f" "metric_code ?g - 1"] by fastforce
  ultimately have "mb0 f = a" "mb1 f = b" using metric_code_inj [of f ?g] by auto
  then show ?thesis using e(1) by simp
qed

theorem metric_roundtrip_witness:
  "rfc7181_metric_encode \<lparr>mb0 = 3, mb1 = 77\<rparr> (rfc7181_metric_decode \<lparr>mb0 = 3, mb1 = 77\<rparr>)
     = (0, \<lparr>mb0 = 3, mb1 = 77\<rparr>)"
  by (rule metric_roundtrip) simp

subsection \<open>Sequence numbers\<close>

text \<open>
  Sequence number comparison is the serial number order of RFC 5444: \<open>s1\<close> is larger than \<open>s2\<close> when it
  lies less than half the number space ahead of it, whatever wraps in between.
\<close>

theorem seqno_larger_iff: "rfc5444_seqno_is_larger s1 s2 \<longleftrightarrow> 0 < s1 - s2 \<and> s1 - s2 < 0x8000"
proof -
  define x y where "x = unat s1" and "y = unat s2"
  have b: "x < 65536" "y < 65536"
    using unsigned_less [of s1, where ?'a = nat] unsigned_less [of s2, where ?'a = nat]
    by (simp_all add: x_def y_def)
  have d: "unat (s1 - s2) = (if y \<le> x then x - y else x + 65536 - y)"
    by (simp add: unat_sub_if' x_def y_def)
  have "rfc5444_seqno_is_larger s1 s2 \<longleftrightarrow> (y < x \<and> x < y + 32768) \<or> (x < y \<and> x + 32768 < y)"
    unfolding rfc5444_seqno_is_larger_def word_less_nat_alt uint_nat x_def [symmetric] y_def [symmetric]
    by (rule arg_cong2 [where f = "(\<or>)"]) (simp_all, linarith+)
  also have "\<dots> \<longleftrightarrow> 0 < unat (s1 - s2) \<and> unat (s1 - s2) < 32768"
  proof (cases "y \<le> x")
    case True
    then obtain z where "x = y + z" using le_Suc_ex by blast
    then show ?thesis unfolding d by simp
  next
    case False
    then obtain z where "y = x + z" using le_Suc_ex nat_le_linear by blast
    then show ?thesis unfolding d using False b by simp linarith
  qed
  finally show ?thesis by (simp only: word_less_nat_alt) simp
qed

text \<open>
  The sequence number difference is the difference modulo \<open>2 ^ 16\<close> brought into the range of a
  16 bit signed number (with both ends), and it is antisymmetric.
\<close>

theorem seqno_difference_mod:
  "word_of_int (rfc5444_seqno_difference s1 s2) = s1 - s2
   \<and> \<bar>rfc5444_seqno_difference s1 s2\<bar> \<le> 2 ^ 15
   \<and> rfc5444_seqno_difference s2 s1 = - rfc5444_seqno_difference s1 s2"
proof (intro conjI)
  have "word_of_int (uint s1 - uint s2) = s1 - s2" by simp
  moreover have "word_of_int (x + 2 ^ 16) = (word_of_int x :: u16)" "word_of_int (x - 2 ^ 16) = (word_of_int x :: u16)" for x
    by (simp_all add: word_of_int_eq_iff take_bit_eq_mod)
  ultimately show "word_of_int (rfc5444_seqno_difference s1 s2) = s1 - s2"
    unfolding rfc5444_seqno_difference_def Let_def by (auto simp only: split: if_splits)
  define a b where "a = uint s1" and "b = uint s2"
  have ab: "0 \<le> a" "a < 65536" "0 \<le> b" "b < 65536"
    using uint_lt2p [of s1] uint_lt2p [of s2] by (simp_all add: a_def b_def)
  have d: "rfc5444_seqno_difference s1 s2 =
      (if 32768 < a - b then a - b - 65536 else if a - b < - 32768 then a - b + 65536 else a - b)"
    "rfc5444_seqno_difference s2 s1 =
      (if 32768 < b - a then b - a - 65536 else if b - a < - 32768 then b - a + 65536 else b - a)"
    by (simp_all add: rfc5444_seqno_difference_def Let_def a_def b_def)
  show "\<bar>rfc5444_seqno_difference s1 s2\<bar> \<le> 2 ^ 15" unfolding d using ab by (auto split: if_splits)
  show "rfc5444_seqno_difference s2 s1 = - rfc5444_seqno_difference s1 s2"
    unfolding d using ab by (auto split: if_splits)
qed

subsection \<open>The vector lookup\<close>

text \<open>Lookup in the list of (distance, value) pairs that a vector stands for.\<close>

fun timetlv_lookup :: "u8 \<Rightarrow> u8 \<Rightarrow> (u8 \<times> u8) list \<Rightarrow> u8" where
  "timetlv_lookup hopcount v [] = v"
| "timetlv_lookup hopcount v ((d, w) # ds) =
     (if hopcount \<le> d then v else timetlv_lookup hopcount w ds)"

lemma timetlv_vector_loop_spec:
  "timetlv_vector_loop (pre @ v # concat (map (\<lambda>(d, w). [d, w]) ds)) hopcount (length pre + 1)
     = timetlv_lookup hopcount v ds"
proof (induction ds arbitrary: pre v)
  case Nil
  then show ?case by (simp add: timetlv_vector_loop.simps)
next
  case (Cons x ds)
  obtain d w where x: "x = (d, w)" by (cases x)
  have "timetlv_vector_loop ((pre @ [v, d]) @ w # concat (map (\<lambda>(d, w). [d, w]) ds)) hopcount
      (length (pre @ [v, d]) + 1) = timetlv_lookup hopcount w ds"
    by (rule Cons.IH)
  then show ?case
    by (simp add: x timetlv_vector_loop.simps [of "pre @ _"] nth_append)
qed

text \<open>
  On a well formed vector (odd length) the lookup returns the value of the first hop count interval
  that contains the given hop count, and the last value beyond all intervals.
\<close>

theorem timetlv_vector_lookup:
  "rfc5497_timetlv_get_from_vector (v # concat (map (\<lambda>(d, w). [d, w]) ds)) hopcount
     = timetlv_lookup hopcount v ds"
proof -
  have "even (length (concat (map (\<lambda>(d, w). [d, w]) ds)))"
    by (induction ds) auto
  then show ?thesis
    using timetlv_vector_loop_spec [of "[]" v ds hopcount]
    by (simp add: rfc5497_timetlv_get_from_vector_def)
qed

end
