(* ===== verification/C_Strings.thy ===== *)
theory C_Strings
  imports Prelude
begin

text \<open>
  The string helpers (\<open>src-api/common/string.c\<close>, \<open>string.h\<close>). A C string is the list of its
  characters without the terminating zero; a pointer into a string is the suffix it points to. A
  \<open>struct strarray\<close> is kept as the code has it: one block of memory in which every string is
  followed by a zero byte, and pointers into the block are offsets. The character classes are those
  of the C locale.
\<close>

subsection \<open>Characters\<close>

definition NUL :: char where "NUL = CHR 0x00"

definition isspace :: "char \<Rightarrow> bool" where
  "isspace c = (c \<in> {CHR '' '', CHR 0x09, CHR 0x0A, CHR 0x0B, CHR 0x0C, CHR 0x0D})"

definition isblank :: "char \<Rightarrow> bool" where
  "isblank c = (c = CHR '' '' \<or> c = CHR 0x09)"

definition tolower :: "char \<Rightarrow> char" where
  "tolower c = (let n = of_char c :: nat in if 65 \<le> n \<and> n \<le> 90 then char_of (n + 32) else c)"

definition str_char_is_printable :: "char \<Rightarrow> bool" where
  "str_char_is_printable c = (let uc = of_char c :: nat in \<not> (uc < 32 \<or> uc = 127 \<or> uc = 255))"

text \<open>\<open>strcasecmp(a, b) == 0\<close> of the C library.\<close>

definition strcase_eq :: "string \<Rightarrow> string \<Rightarrow> bool" where
  "strcase_eq a b = (map tolower a = map tolower b)"

subsection \<open>Bounded copies\<close>

text \<open>
  \<open>strscpy(dest, src, size)\<close> and \<open>strscat\<close>: the string the destination holds afterwards. The
  destination is \<open>None\<close> for a null pointer, as is the source.
\<close>

definition strscpy :: "string option \<Rightarrow> string option \<Rightarrow> nat \<Rightarrow> string option" where
  "strscpy dest src sz =
     (if dest = None \<or> src = None \<or> sz = 0 then dest
      else map_option (take (sz - 1)) src)"

definition strscat :: "string option \<Rightarrow> string option \<Rightarrow> nat \<Rightarrow> string option" where
  "strscat dest src sz =
     (case (dest, src) of
        (Some d, Some s) \<Rightarrow>
          if sz = 0 then Some d
          else let l = length d
               in if l < sz then map_option (\<lambda>t. d @ t) (strscpy (Some []) (Some s) (sz - l))
                  else Some d
      | _ \<Rightarrow> dest)"

subsection \<open>Trimming and words\<close>

definition str_trim :: "string \<Rightarrow> string" where
  "str_trim ptr =
     (let p = dropWhile isspace ptr
      in if p = [] then []
         else hd p # rev (dropWhile isspace (rev (tl p))))"

fun hasnextword_match :: "string \<Rightarrow> string \<Rightarrow> string \<times> string" where
  "hasnextword_match (b # bs) (w # ws) =
     (if \<not> isblank b \<and> tolower w = tolower b then hasnextword_match bs ws else (b # bs, w # ws))"
| "hasnextword_match bs ws = (bs, ws)"

definition str_hasnextword :: "string option \<Rightarrow> string \<Rightarrow> string option" where
  "str_hasnextword buffer word =
     (case buffer of None \<Rightarrow> None
      | Some b \<Rightarrow>
          (let r = hasnextword_match (dropWhile isblank b) word
           in if snd r = [] \<and> (fst r = [] \<or> isblank (hd (fst r)))
              then Some (dropWhile isblank (fst r)) else None))"

text \<open>
  \<open>str_cpynextword(dst, src, len)\<close>: the copied word and the pointer to the next one. The loop stops
  after \<open>len - 1\<close> characters, with \<open>len\<close> a \<open>size_t\<close>; callers pass a positive length.
\<close>

fun cpynextword_loop :: "string \<Rightarrow> nat \<Rightarrow> string \<times> string" where
  "cpynextword_loop (c # cs) (Suc n) =
     (if isblank c then ([], c # cs)
      else let r = cpynextword_loop cs n in (c # fst r, snd r))"
| "cpynextword_loop cs n = ([], cs)"

definition str_cpynextword :: "string option \<Rightarrow> nat \<Rightarrow> string \<times> string option" where
  "str_cpynextword src len =
     (case src of None \<Rightarrow> ([], None)
      | Some s \<Rightarrow>
          (let r = cpynextword_loop (dropWhile isblank s) (len - 1); rest = dropWhile isblank (snd r)
           in (fst r, if rest \<noteq> [] then Some rest else None)))"

definition str_skipnextword :: "string option \<Rightarrow> string option" where
  "str_skipnextword src =
     (case src of None \<Rightarrow> None
      | Some s \<Rightarrow>
          (let rest = dropWhile isblank (dropWhile (\<lambda>c. \<not> isblank c) (dropWhile isblank s))
           in if rest \<noteq> [] then Some rest else None))"

fun str_is_printable :: "string \<Rightarrow> bool" where
  "str_is_printable [] = True"
| "str_is_printable (c # cs) = (if \<not> str_char_is_printable c then False else str_is_printable cs)"

definition str_startswith :: "string \<Rightarrow> string \<Rightarrow> bool" where
  "str_startswith s pattern = (take (length pattern) s = pattern)"

definition str_startswith_nocase :: "string \<Rightarrow> string \<Rightarrow> bool" where
  "str_startswith_nocase s pattern = strcase_eq (take (length pattern) s) pattern"

definition str_endswith :: "string \<Rightarrow> string \<Rightarrow> bool" where
  "str_endswith s pattern =
     (length s > length pattern \<and> drop (length s - length pattern) s = pattern)"

definition str_endswith_nocase :: "string \<Rightarrow> string \<Rightarrow> bool" where
  "str_endswith_nocase s pattern =
     (length s > length pattern \<and> strcase_eq (drop (length s - length pattern) s) pattern)"

subsection \<open>Numbers: \<open>strtoul\<close> and \<open>strtoull\<close> of the C library, base 10\<close>

text \<open>
  Both skip white space, accept a sign, and read digits. Without a digit the result is 0 and the end
  pointer is the start. A value beyond 64 bits is \<open>ULONG_MAX\<close> with \<open>errno\<close> set; a minus sign negates
  the value in the unsigned type. The result is the value, the rest of the string and whether
  \<open>errno\<close> was set.
\<close>

definition isdigit :: "char \<Rightarrow> bool" where
  "isdigit c = (48 \<le> (of_char c :: nat) \<and> (of_char c :: nat) \<le> 57)"

definition digit_val :: "char \<Rightarrow> nat" where
  "digit_val c = of_char c - 48"

fun digits_value :: "nat \<Rightarrow> string \<Rightarrow> nat" where
  "digits_value acc [] = acc"
| "digits_value acc (c # cs) = digits_value (10 * acc + digit_val c) cs"

definition strtoull :: "string \<Rightarrow> u64 \<times> string \<times> bool" where
  "strtoull s =
     (let s1 = dropWhile isspace s;
          neg = (s1 \<noteq> [] \<and> hd s1 = CHR ''-'');
          s2 = (if s1 \<noteq> [] \<and> (hd s1 = CHR ''-'' \<or> hd s1 = CHR ''+'') then tl s1 else s1);
          ds = takeWhile isdigit s2; rest = dropWhile isdigit s2; v = digits_value 0 ds
      in if ds = [] then (0, s, False)
         else if 2 ^ 64 \<le> v then (- 1, rest, True)
         else ((if neg then - of_nat v else of_nat v), rest, False))"

subsection \<open>String arrays\<close>

record strarray =
  sa_value :: "string option"
  sa_length :: nat

definition strarray_init :: strarray where
  "strarray_init = \<lparr>sa_value = None, sa_length = 0\<rparr>"

definition strarray_is_empty :: "strarray \<Rightarrow> bool" where
  "strarray_is_empty a = (sa_value a = None)"

text \<open>The memory of an array, and \<open>strlen\<close> at an offset of it.\<close>

definition sa_mem :: "strarray \<Rightarrow> string" where
  "sa_mem a = (case sa_value a of None \<Rightarrow> [] | Some v \<Rightarrow> v)"

definition strlen_at :: "string \<Rightarrow> nat \<Rightarrow> nat" where
  "strlen_at v off = length (takeWhile (\<lambda>c. c \<noteq> NUL) (drop off v))"

definition string_at :: "string \<Rightarrow> nat \<Rightarrow> string" where
  "string_at v off = takeWhile (\<lambda>c. c \<noteq> NUL) (drop off v)"

text \<open>
  The macro \<open>strarray_for_each_element\<close>: the offsets the loop visits.
\<close>

function strarray_offsets :: "string \<Rightarrow> nat \<Rightarrow> nat \<Rightarrow> nat list" where
  "strarray_offsets v len off =
     (if off < len then off # strarray_offsets v len (off + strlen_at v off + 1) else [])"
  by pat_completeness auto
termination
  by (relation "measure (\<lambda>(v, len, off). len - off)") auto

declare strarray_offsets.simps [simp del]

definition strarray_for_each :: "strarray \<Rightarrow> nat list" where
  "strarray_for_each a =
     (case sa_value a of None \<Rightarrow> [] | Some v \<Rightarrow> strarray_offsets v (sa_length a) 0)"

text \<open>The strings the loop sees.\<close>

definition strarray_strings :: "strarray \<Rightarrow> string list" where
  "strarray_strings a = map (string_at (sa_mem a)) (strarray_for_each a)"

text \<open>
  The operations that allocate take the outcome of \<open>realloc\<close> as an argument (\<open>True\<close>: the block was
  allocated) and return the return code with the array as it is left.
\<close>

definition strarray_copy :: "bool \<Rightarrow> strarray \<Rightarrow> strarray \<Rightarrow> int \<times> strarray" where
  "strarray_copy alloc dst src =
     (if sa_value src = None \<or> sa_length src = 0 then (0, strarray_init)
      else if \<not> alloc then (- 1, dst)
      else (0, \<lparr>sa_value = Some (take (sa_length src) (sa_mem src)), sa_length = sa_length src\<rparr>))"

definition strarray_append :: "bool \<Rightarrow> strarray \<Rightarrow> string \<Rightarrow> int \<times> strarray" where
  "strarray_append alloc a s =
     (let len = length s + 1; new_length = sa_length a + len
      in if \<not> alloc then (- 1, a)
         else (0, \<lparr>sa_value = Some (take (sa_length a) (sa_mem a) @ s @ [NUL]), sa_length = new_length\<rparr>))"

definition strarray_prepend :: "bool \<Rightarrow> strarray \<Rightarrow> string \<Rightarrow> int \<times> strarray" where
  "strarray_prepend alloc a s =
     (let len = length s + 1; new_length = sa_length a + len
      in if \<not> alloc then (- 1, a)
         else (0, \<lparr>sa_value = Some (s @ [NUL] @ take (sa_length a) (sa_mem a)), sa_length = new_length\<rparr>))"

text \<open>
  \<open>strarray_remove_ext(array, element, resize)\<close> with the element as an offset. The final
  \<open>realloc\<close> changes the size of the block but neither its contents nor \<open>length\<close>, whatever its
  outcome; without \<open>resize\<close> the bytes behind \<open>length\<close> stay in the block.
\<close>

definition strarray_remove_ext :: "strarray \<Rightarrow> nat \<Rightarrow> bool \<Rightarrow> strarray" where
  "strarray_remove_ext a element resize =
     (let len = strlen_at (sa_mem a) element + 1
      in if len = sa_length a then strarray_init
         else let new_length = sa_length a - len;
                  v = (if element \<le> new_length
                       then mem_write (sa_mem a) element
                              (take (new_length - element) (drop (element + len) (sa_mem a)))
                       else sa_mem a)
              in \<lparr>sa_value = Some (if resize then take new_length v else v), sa_length = new_length\<rparr>)"

definition strarray_get_count :: "strarray \<Rightarrow> nat" where
  "strarray_get_count a = length (strarray_for_each a)"

fun nth_offset :: "nat list \<Rightarrow> nat \<Rightarrow> nat option" where
  "nth_offset [] idx = None"
| "nth_offset (p # ps) idx = (if idx = 0 then Some p else nth_offset ps (idx - 1))"

definition strarray_get :: "strarray \<Rightarrow> nat \<Rightarrow> nat option" where
  "strarray_get a idx = nth_offset (strarray_for_each a) idx"

definition strarray_get_next_safe :: "strarray \<Rightarrow> nat \<Rightarrow> nat option" where
  "strarray_get_next_safe a current =
     (let next = current + strlen_at (sa_mem a) current + 1
      in if next > sa_length a then None else Some next)"

definition strarray_cmp :: "strarray option \<Rightarrow> strarray option \<Rightarrow> int" where
  "strarray_cmp a1 a2 =
     (let null = (\<lambda>a. case a of None \<Rightarrow> True | Some x \<Rightarrow> sa_value x = None)
      in if null a1 then (if null a2 then 0 else - 1)
         else if null a2 then 1
         else let l1 = sa_length (the a1); l2 = sa_length (the a2);
                  min_len = (if l1 > l2 then l2 else l1);
                  bytes = (\<lambda>a. map (\<lambda>c. of_char c) (take min_len (sa_mem (the a))) :: u8 list);
                  result = memcmp (bytes a1) (bytes a2)
              in if result = 0 then if l1 > l2 then 1 else if l1 < l2 then - 1 else result
                 else result)"

subsection \<open>String arrays stand for lists of strings\<close>

definition sa_encode :: "string list \<Rightarrow> string" where
  "sa_encode ss = concat (map (\<lambda>s. s @ [NUL]) ss)"

definition strarray_of :: "string list \<Rightarrow> strarray" where
  "strarray_of ss =
     (if ss = [] then strarray_init
      else \<lparr>sa_value = Some (sa_encode ss), sa_length = length (sa_encode ss)\<rparr>)"

definition c_strings :: "string list \<Rightarrow> bool" where
  "c_strings ss = (\<forall>s \<in> set ss. NUL \<notin> set s)"

lemma sa_encode_simps [simp]:
  "sa_encode [] = []" "sa_encode (s # ss) = s @ NUL # sa_encode ss"
  "sa_encode (ss @ ts) = sa_encode ss @ sa_encode ts"
  by (simp_all add: sa_encode_def)

lemma sa_encode_empty [simp]: "sa_encode ss = [] \<longleftrightarrow> ss = []"
  by (cases ss) simp_all

lemma sa_mem_of [simp]: "sa_mem (strarray_of ss) = sa_encode ss"
  by (simp add: sa_mem_def strarray_of_def strarray_init_def)

lemma sa_length_of [simp]: "sa_length (strarray_of ss) = length (sa_encode ss)"
  by (simp add: strarray_of_def strarray_init_def)

lemma string_at_encode:
  "NUL \<notin> set s \<Longrightarrow> string_at (pre @ s @ NUL # rest) (length pre) = s"
  by (simp add: string_at_def takeWhile_append takeWhile_eq_all_conv)

lemma strlen_at_string_at: "strlen_at v off = length (string_at v off)"
  by (simp add: strlen_at_def string_at_def)

fun sa_starts :: "nat \<Rightarrow> string list \<Rightarrow> nat list" where
  "sa_starts off [] = []"
| "sa_starts off (s # ss) = off # sa_starts (off + length s + 1) ss"

lemma strarray_offsets_encode:
  "c_strings ss \<Longrightarrow>
    strarray_offsets (pre @ sa_encode ss) (length (pre @ sa_encode ss)) (length pre) = sa_starts (length pre) ss"
proof (induction ss arbitrary: pre)
  case Nil
  then show ?case by (simp add: strarray_offsets.simps)
next
  case (Cons s ss)
  then have s: "NUL \<notin> set s" "c_strings ss" by (auto simp: c_strings_def)
  have "strarray_offsets ((pre @ s @ [NUL]) @ sa_encode ss) (length ((pre @ s @ [NUL]) @ sa_encode ss))
      (length (pre @ s @ [NUL])) = sa_starts (length (pre @ s @ [NUL])) ss"
    by (rule Cons.IH) (rule s)
  then show ?case
    using string_at_encode [OF s(1), of pre "sa_encode ss"]
    by (simp add: strarray_offsets.simps [of "pre @ _"] strlen_at_string_at)
qed

lemma strarray_for_each_of: "c_strings ss \<Longrightarrow> strarray_for_each (strarray_of ss) = sa_starts 0 ss"
  using strarray_offsets_encode [of ss "[]"]
  by (auto simp: strarray_for_each_def strarray_of_def strarray_init_def)

lemma length_sa_starts [simp]: "length (sa_starts off ss) = length ss"
  by (induction ss arbitrary: off) simp_all

lemma nth_offset_starts:
  "nth_offset (sa_starts off ss) i =
     (if i < length ss then Some (off + length (sa_encode (take i ss))) else None)"
  by (induction ss arbitrary: off i) (auto simp: less_Suc_eq_0_disj take_Cons')

lemma strarray_get_of:
  "c_strings ss \<Longrightarrow> strarray_get (strarray_of ss) i =
     (if i < length ss then Some (length (sa_encode (take i ss))) else None)"
  by (simp add: strarray_get_def strarray_for_each_of nth_offset_starts)

lemma string_at_get:
  assumes "c_strings ss" "i < length ss"
  shows "string_at (sa_encode ss) (length (sa_encode (take i ss))) = ss ! i"
proof -
  have "sa_encode ss = sa_encode (take i ss) @ ss ! i @ NUL # sa_encode (drop (Suc i) ss)"
    using assms(2) by (metis id_take_nth_drop sa_encode_simps(2,3))
  moreover have "NUL \<notin> set (ss ! i)" using assms by (simp add: c_strings_def)
  ultimately show ?thesis by (simp add: string_at_encode)
qed

lemma sa_starts_offsets:
  "sa_starts off ss = map (\<lambda>i. off + length (sa_encode (take i ss))) [0..<length ss]"
proof (induction ss arbitrary: off)
  case (Cons s ss)
  then show ?case
    by (simp add: upt_conv_Cons map_Suc_upt [symmetric] del: upt_Suc)
qed simp

lemma strarray_strings_of:
  assumes "c_strings ss"
  shows "strarray_strings (strarray_of ss) = ss"
proof (rule nth_equalityI)
  show "length (strarray_strings (strarray_of ss)) = length ss"
    by (simp add: strarray_strings_def strarray_for_each_of [OF assms])
  fix i assume "i < length (strarray_strings (strarray_of ss))"
  then have "i < length ss" by (simp add: strarray_strings_def strarray_for_each_of [OF assms])
  then show "strarray_strings (strarray_of ss) ! i = ss ! i"
    by (simp add: strarray_strings_def strarray_for_each_of [OF assms] sa_starts_offsets
        string_at_get [OF assms])
qed

lemma strarray_remove_of:
  assumes "c_strings ss" "i < length ss"
  shows "strarray_remove_ext (strarray_of ss) (length (sa_encode (take i ss))) True
    = strarray_of (take i ss @ drop (Suc i) ss)"
proof -
  let ?pre = "sa_encode (take i ss)" and ?s = "ss ! i" and ?post = "sa_encode (drop (Suc i) ss)"
  have e: "sa_encode ss = ?pre @ ?s @ NUL # ?post"
    using assms(2) by (metis id_take_nth_drop sa_encode_simps(2,3))
  have l: "strlen_at (sa_encode ss) (length ?pre) = length ?s"
    using string_at_get [OF assms] by (simp add: strlen_at_string_at)
  show ?thesis
  proof (cases "take i ss @ drop (Suc i) ss = []")
    case True
    then have pp: "?pre = []" "?post = []" by simp_all
    then have m: "sa_encode ss = ?s @ [NUL]" using e by simp
    have "strlen_at (?s @ [NUL]) 0 = length ?s" using l unfolding m pp by simp
    then show ?thesis
      unfolding strarray_remove_ext_def sa_mem_of sa_length_of True m pp
      by (simp add: strarray_of_def)
  next
    case False
    then have ne: "?pre @ ?post \<noteq> []" by simp
    have a: "strarray_of ss = \<lparr>sa_value = Some (sa_encode ss), sa_length = length (sa_encode ss)\<rparr>"
      using assms(2) by (auto simp: strarray_of_def)
    have b: "strarray_of (take i ss @ drop (Suc i) ss)
        = \<lparr>sa_value = Some (?pre @ ?post), sa_length = length (?pre @ ?post)\<rparr>"
      by (simp only: strarray_of_def False if_False sa_encode_simps)
    have len: "length (sa_encode ss) = length ?pre + (length ?s + 1) + length ?post"
      by (simp add: e)
    have n: "length (sa_encode ss) - (length ?s + 1) = length (?pre @ ?post)" by (simp add: len)
    have d: "drop (length ?pre + (length ?s + 1)) (sa_encode ss) = ?post" by (simp add: e)
    have w: "take (length (?pre @ ?post)) (mem_write (sa_encode ss) (length ?pre) ?post) = ?pre @ ?post"
      by (simp add: mem_write_def e)
    have q: "length ?s + 1 \<noteq> length (sa_encode ss)" using ne by (simp add: len)
    show ?thesis
      unfolding strarray_remove_ext_def sa_mem_of sa_length_of l Let_def n d b using q w by simp
  qed
qed

text \<open>
  C13. A string array built from a list of strings behaves as that list: appending, prepending and
  removing an element give the arrays of the corresponding lists, the count is the length, and the
  element pointer for an index points to the string at that index and is null beyond the end.
\<close>

theorem strarray_refines_list:
  assumes "c_strings ss"
  shows "strarray_append True (strarray_of ss) s = (0, strarray_of (ss @ [s]))
    \<and> strarray_prepend True (strarray_of ss) s = (0, strarray_of (s # ss))
    \<and> strarray_get_count (strarray_of ss) = length ss
    \<and> map_option (string_at (sa_mem (strarray_of ss))) (strarray_get (strarray_of ss) i)
         = (if i < length ss then Some (ss ! i) else None)
    \<and> (strarray_get (strarray_of ss) i = Some p \<longrightarrow>
         strarray_remove_ext (strarray_of ss) p True = strarray_of (take i ss @ drop (Suc i) ss))"
proof (intro conjI impI)
  show "strarray_append True (strarray_of ss) s = (0, strarray_of (ss @ [s]))"
    by (simp add: strarray_append_def strarray_of_def strarray_init_def sa_mem_def)
  show "strarray_prepend True (strarray_of ss) s = (0, strarray_of (s # ss))"
    by (simp add: strarray_prepend_def strarray_of_def strarray_init_def sa_mem_def)
  show "strarray_get_count (strarray_of ss) = length ss"
    by (simp add: strarray_get_count_def strarray_for_each_of [OF assms])
  show "map_option (string_at (sa_mem (strarray_of ss))) (strarray_get (strarray_of ss) i)
      = (if i < length ss then Some (ss ! i) else None)"
    by (simp add: strarray_get_of [OF assms] string_at_get [OF assms])
  assume "strarray_get (strarray_of ss) i = Some p"
  then show "strarray_remove_ext (strarray_of ss) p True = strarray_of (take i ss @ drop (Suc i) ss)"
    using strarray_remove_of [OF assms]
    by (auto simp: strarray_get_of [OF assms] split: if_splits dest!: sym [of _ p])
qed

theorem strarray_refines_list_witness:
  "strarray_append True (strarray_of [''ab'', ''c'']) ''x'' = (0, strarray_of [''ab'', ''c'', ''x'']) \<and>
   strarray_remove_ext (strarray_of [''ab'', ''c'']) 3 True = strarray_of [''ab'']"
proof -
  have c: "c_strings [''ab'', ''c'']" by (simp add: c_strings_def NUL_def)
  have "strarray_get (strarray_of [''ab'', ''c'']) 1 = Some 3"
    by (simp add: strarray_get_of [OF c])
  then show ?thesis using strarray_refines_list [OF c, of "''x''" 1 3] by simp
qed

lemma strarray_get_next_safe_misses_end:
  "strarray_get_next_safe (strarray_of [s]) 0 = Some (sa_length (strarray_of [s]))" if "NUL \<notin> set s"
  using that string_at_encode [of s "[]" "[]"]
  by (simp add: strarray_get_next_safe_def Let_def strlen_at_string_at)

end
