(* ===== verification/Netaddr.thy ===== *)
theory Netaddr
  imports C_Strings
begin

text \<open>
  Network addresses and prefixes (\<open>src-api/common/netaddr.c\<close>, \<open>netaddr.h\<close>): binary and socket
  conversions, prefix arithmetic, comparison, parsing and printing. A \<open>struct netaddr\<close> is a record
  of its 16 address bytes, the address family and the prefix length, in the order they have in
  memory. A function of the code that would leave one of its buffers returns \<open>None\<close> here.
  The address family numbers are those of Linux, where \<open>AF_MAX\<close> is 45 (the value of the headers
  contemporary with the code; the two derived families must fit in a byte, which they do).
\<close>

subsection \<open>Addresses\<close>

record netaddr =
  na_addr :: "u8 list"
  na_type :: u8
  na_prefix_len :: u8

definition AF_UNSPEC :: u8 where "AF_UNSPEC = 0"
definition AF_INET :: u8 where "AF_INET = 2"
definition AF_INET6 :: u8 where "AF_INET6 = 10"
definition AF_MAX :: u8 where "AF_MAX = 45"
definition AF_MAC48 :: u8 where "AF_MAC48 = AF_MAX + 1"
definition AF_EUI64 :: u8 where "AF_EUI64 = AF_MAX + 2"

lemmas af_defs = AF_UNSPEC_def AF_INET_def AF_INET6_def AF_MAX_def AF_MAC48_def AF_EUI64_def

text \<open>The array has 16 bytes and the prefix length lies in it.\<close>

definition netaddr_ok :: "netaddr \<Rightarrow> bool" where
  "netaddr_ok a = (length (na_addr a) = 16 \<and> na_prefix_len a \<le> 128)"

definition zero_bytes :: "nat \<Rightarrow> u8 list" where
  "zero_bytes n = replicate n 0"

definition na_const :: "u8 list \<Rightarrow> u8 \<Rightarrow> u8 \<Rightarrow> netaddr" where
  "na_const bs t p = \<lparr>na_addr = bs @ zero_bytes (16 - length bs), na_type = t, na_prefix_len = p\<rparr>"

definition NETADDR_UNSPEC :: netaddr where "NETADDR_UNSPEC = na_const [] AF_UNSPEC 0"
definition NETADDR_IPV4_ANY :: netaddr where "NETADDR_IPV4_ANY = na_const [] AF_INET 0"
definition NETADDR_IPV6_ANY :: netaddr where "NETADDR_IPV6_ANY = na_const [] AF_INET6 0"
definition NETADDR_IPV4_BINDTO_ANY :: netaddr where "NETADDR_IPV4_BINDTO_ANY = na_const [] AF_INET 32"
definition NETADDR_IPV6_BINDTO_ANY :: netaddr where "NETADDR_IPV6_BINDTO_ANY = na_const [] AF_INET6 128"
definition NETADDR_IPV4_MULTICAST :: netaddr where "NETADDR_IPV4_MULTICAST = na_const [224] AF_INET 4"
definition NETADDR_IPV6_MULTICAST :: netaddr where "NETADDR_IPV6_MULTICAST = na_const [255] AF_INET6 8"
definition NETADDR_IPV4_LINKLOCAL :: netaddr where "NETADDR_IPV4_LINKLOCAL = na_const [169, 254] AF_INET 16"
definition NETADDR_IPV6_LINKLOCAL :: netaddr where "NETADDR_IPV6_LINKLOCAL = na_const [0xfe, 0x80] AF_INET6 10"
definition NETADDR_IPV6_ULA :: netaddr where "NETADDR_IPV6_ULA = na_const [0xfc] AF_INET6 7"
definition NETADDR_IPV6_GLOBAL :: netaddr where "NETADDR_IPV6_GLOBAL = na_const [0x20] AF_INET6 3"
definition NETADDR_IPV6_IPV4COMPATIBLE :: netaddr where
  "NETADDR_IPV6_IPV4COMPATIBLE = na_const [] AF_INET6 96"
definition NETADDR_IPV6_IPV4MAPPED :: netaddr where
  "NETADDR_IPV6_IPV4MAPPED = na_const [0,0,0,0,0,0,0,0,0,0,255,255] AF_INET6 96"
definition NETADDR_IPV4_LOOPBACK_NET :: netaddr where
  "NETADDR_IPV4_LOOPBACK_NET = na_const [127,0,0,1] AF_INET 8"
definition NETADDR_IPV6_LOOPBACK :: netaddr where
  "NETADDR_IPV6_LOOPBACK = na_const [0,0,0,0,0,0,0,0,0,0,0,0,0,0,0,1] AF_INET6 128"

definition netaddr_get_af_maxprefix :: "u32 \<Rightarrow> u8" where
  "netaddr_get_af_maxprefix af_type =
     (if af_type = ucast AF_INET then 32
      else if af_type = ucast AF_INET6 then 128
      else if af_type = ucast AF_MAC48 then 48
      else if af_type = ucast AF_EUI64 then 64
      else 0)"

definition netaddr_get_maxprefix :: "netaddr \<Rightarrow> u8" where
  "netaddr_get_maxprefix a = netaddr_get_af_maxprefix (ucast (na_type a))"

definition netaddr_get_binlength :: "netaddr \<Rightarrow> nat" where
  "netaddr_get_binlength n = unat (drop_bit 3 (netaddr_get_maxprefix n))"

definition netaddr_invalidate :: netaddr where
  "netaddr_invalidate = na_const [] 0 0"

definition netaddr_is_unspec :: "netaddr \<Rightarrow> bool" where
  "netaddr_is_unspec a = (na_type a = AF_UNSPEC)"

subsection \<open>Binary conversion\<close>

text \<open>
  \<open>netaddr_from_binary_prefix\<close>: the source buffer \<open>binary\<close> holds at least \<open>len\<close> bytes. With an
  explicit address type the length is not limited to the 16 bytes of the target.
\<close>

definition netaddr_from_binary_prefix ::
  "u8 list \<Rightarrow> nat \<Rightarrow> u8 \<Rightarrow> u8 \<Rightarrow> (int \<times> netaddr) option" where
  "netaddr_from_binary_prefix binary len addr_type prefix_len =
     (let (t, l) = (if addr_type \<noteq> 0 then (addr_type, len)
                    else if len = 4 then (AF_INET, len)
                    else if len = 6 then (AF_MAC48, len)
                    else if len = 8 then (AF_EUI64, len)
                    else if len = 16 then (AF_INET6, len)
                    else (AF_UNSPEC, if len > 16 then 16 else len));
          p = (if prefix_len = 255 then of_nat l * 8 else prefix_len)
      in if l > 16 \<or> l > length binary then None
         else Some (if t = AF_UNSPEC then - 1 else 0,
                    \<lparr>na_addr = mem_write (zero_bytes 16) 0 (take l binary), na_type = t, na_prefix_len = p\<rparr>))"

definition netaddr_from_binary :: "u8 list \<Rightarrow> nat \<Rightarrow> u8 \<Rightarrow> (int \<times> netaddr) option" where
  "netaddr_from_binary binary len addr_type = netaddr_from_binary_prefix binary len addr_type 255"

definition netaddr_to_binary :: "u8 list \<Rightarrow> netaddr \<Rightarrow> nat \<Rightarrow> int \<times> u8 list" where
  "netaddr_to_binary dst src len =
     (let addr_len = unat (drop_bit 3 (netaddr_get_maxprefix src))
      in if addr_len = 0 \<or> len < addr_len then (- 1, dst)
         else (0, mem_write dst 0 (take addr_len (na_addr src))))"

subsection \<open>Sockets\<close>

text \<open>
  A \<open>union netaddr_socket\<close>: the family, the port in network byte order, the four bytes that are
  \<open>sin_addr\<close> or \<open>sin6_flowinfo\<close>, \<open>sin6_addr\<close>, \<open>sin6_scope_id\<close> and the rest of the storage. The
  IPv4 and IPv6 members share the family, the port and the four bytes.
\<close>

record netaddr_socket =
  so_family :: u16
  so_port :: "u8 list"
  so_word4 :: "u8 list"
  so_addr6 :: "u8 list"
  so_scope :: u32
  so_rest :: "u8 list"

definition netaddr_socket_invalidate :: netaddr_socket where
  "netaddr_socket_invalidate =
     \<lparr>so_family = 0, so_port = zero_bytes 2, so_word4 = zero_bytes 4, so_addr6 = zero_bytes 16,
      so_scope = 0, so_rest = zero_bytes 100\<rparr>"

definition htons :: "u16 \<Rightarrow> u8 list" where
  "htons p = [ucast (drop_bit 8 p), ucast p]"

definition ntohs :: "u8 list \<Rightarrow> u16" where
  "ntohs bs = push_bit 8 (ucast (bs ! 0)) OR ucast (bs ! 1)"

definition netaddr_from_socket :: "netaddr \<Rightarrow> netaddr_socket \<Rightarrow> int \<times> netaddr" where
  "netaddr_from_socket dst src =
     (if so_family src = ucast AF_INET
      then (0, \<lparr>na_addr = mem_write (zero_bytes 16) 0 (so_word4 src), na_type = ucast (so_family src),
                na_prefix_len = 32\<rparr>)
      else if so_family src = ucast AF_INET6
      then (0, \<lparr>na_addr = mem_write (zero_bytes 16) 0 (so_addr6 src), na_type = ucast (so_family src),
                na_prefix_len = 128\<rparr>)
      else (- 1, dst\<lparr>na_addr := zero_bytes 16, na_type := AF_UNSPEC\<rparr>))"

definition netaddr_to_socket :: "netaddr_socket \<Rightarrow> netaddr \<Rightarrow> int \<times> netaddr_socket" where
  "netaddr_to_socket dst src =
     (let d = dst\<lparr>so_family := ucast (na_type src)\<rparr>
      in if na_type src = AF_INET then (0, d\<lparr>so_word4 := take 4 (na_addr src)\<rparr>)
         else if na_type src = AF_INET6 then (0, d\<lparr>so_addr6 := take 16 (na_addr src)\<rparr>)
         else (- 1, d))"

definition netaddr_socket_init :: "netaddr \<Rightarrow> u16 \<Rightarrow> u32 \<Rightarrow> int \<times> netaddr_socket" where
  "netaddr_socket_init addr port if_index =
     (let c = netaddr_socket_invalidate
      in if na_type addr = AF_INET
         then (0, c\<lparr>so_word4 := take 4 (na_addr addr), so_port := htons port,
                    so_family := ucast (na_type addr)\<rparr>)
         else if na_type addr = AF_INET6
         then (0, c\<lparr>so_addr6 := take 16 (na_addr addr), so_port := htons port, so_scope := if_index,
                    so_family := ucast (na_type addr)\<rparr>)
         else (- 1, c))"

definition netaddr_socket_get_port :: "netaddr_socket \<Rightarrow> u16" where
  "netaddr_socket_get_port sock =
     (if so_family sock = ucast AF_INET \<or> so_family sock = ucast AF_INET6 then ntohs (so_port sock) else 0)"

definition netaddr_socket_is_unspec :: "netaddr_socket \<Rightarrow> bool" where
  "netaddr_socket_is_unspec sock = (so_family sock = ucast AF_UNSPEC)"

subsection \<open>Prefix arithmetic\<close>

text \<open>Division of a C \<open>int\<close>, which truncates towards zero.\<close>

definition c_div :: "int \<Rightarrow> int \<Rightarrow> int" where
  "c_div a b = (if a < 0 then - (- a div b) else a div b)"

text \<open>
  \<open>netaddr_create_host_bin\<close>: \<open>number\<close> is the buffer the pointer points to, \<open>num_length\<close> the length
  the caller claims for it. The target index is a \<open>size_t\<close>, which a negative difference would wrap
  far out of the 16 bytes.
\<close>

definition netaddr_create_host_bin ::
  "netaddr \<Rightarrow> u8 list \<Rightarrow> nat \<Rightarrow> (int \<times> netaddr) option" where
  "netaddr_create_host_bin netmask number num_length =
     (let maxp = netaddr_get_maxprefix netmask;
          host = netmask\<lparr>na_prefix_len := maxp\<rparr>;
          plen = na_prefix_len netmask
      in if maxp = 0 then Some (- 1, host)
         else if maxp = plen \<or> num_length = 0 then Some (0, host)
         else
           let hpl = unat (of_int (c_div (uint maxp - uint plen + 7) 8) :: u8);
               copy = (\<lambda>addr hi ni.
                 if ni + (num_length - ni) > length number \<or> hi + (num_length - ni) > 16 then None
                 else Some (0, host\<lparr>na_addr := mem_write addr hi (take (num_length - ni) (drop ni number))\<rparr>))
           in if hpl > num_length
              then if unat maxp div 8 < num_length then None
                   else copy (na_addr host) (unat maxp div 8 - num_length) 0
              else
                let hi = unat plen div 8; ni = num_length - hpl
                in if unat plen mod 8 \<noteq> 0
                   then if ni \<ge> length number \<or> hi \<ge> 16 then None
                        else let mask = drop_bit (unat plen mod 8) (255 :: u8);
                                 b = (na_addr host ! hi AND NOT mask) OR (number ! ni AND mask)
                             in copy ((na_addr host)[hi := b]) (hi + 1) (ni + 1)
                   else copy (na_addr host) hi ni)"

text \<open>\<open>netaddr_create_host\<close> passes the maximum prefix length of the number, a count of bits.\<close>

definition netaddr_create_host :: "netaddr \<Rightarrow> netaddr \<Rightarrow> (int \<times> netaddr) option" where
  "netaddr_create_host netmask host_number =
     netaddr_create_host_bin netmask (na_addr host_number) (unat (netaddr_get_maxprefix host_number))"

text \<open>
  \<open>netaddr_create_prefix\<close>: the loop over the bytes of the netmask. The case for 255 increments the
  index a second time, as the code does.
\<close>

function create_prefix_loop ::
  "netaddr \<Rightarrow> netaddr \<Rightarrow> bool \<Rightarrow> nat \<Rightarrow> nat \<Rightarrow> netaddr \<Rightarrow> int \<times> netaddr" where
  "create_prefix_loop host netmask trunc maxlen len p =
     (if len < maxlen then
        let q = (if trunc then p\<lparr>na_addr := (na_addr p)[len := na_addr host ! len AND na_addr netmask ! len]\<rparr>
                 else p);
            m = na_addr netmask ! len;
            add = (\<lambda>n. q\<lparr>na_prefix_len := na_prefix_len q + n\<rparr>)
        in if m = 255 then create_prefix_loop host netmask trunc maxlen (Suc (Suc len)) (add 8)
           else if m = 254 then (0, add 7)
           else if m = 252 then (0, add 6)
           else if m = 248 then (0, add 5)
           else if m = 240 then (0, add 4)
           else if m = 224 then (0, add 3)
           else if m = 192 then (0, add 2)
           else if m = 128 then (0, add 1)
           else if m = 0 then (0, q)
           else (- 1, q)
      else (0, p))"
  by pat_completeness auto
termination
  by (relation "measure (\<lambda>(h, n, t, maxlen, len, p). maxlen - len)") auto

declare create_prefix_loop.simps [simp del]

definition netaddr_create_prefix ::
  "netaddr \<Rightarrow> netaddr \<Rightarrow> netaddr \<Rightarrow> bool \<Rightarrow> int \<times> netaddr" where
  "netaddr_create_prefix prefix host netmask trunc =
     (if na_type host \<noteq> na_type netmask \<or> na_type host = AF_UNSPEC then (- 1, prefix)
      else
        let maxlen = unat (netaddr_get_af_maxprefix (ucast (na_type host))) div 8;
            p = prefix\<lparr>na_prefix_len := 0, na_type := na_type host\<rparr>;
            p = (if trunc then p else p\<lparr>na_addr := take 16 (na_addr host)\<rparr>)
        in create_prefix_loop host netmask trunc maxlen 0 p)"

definition truncate_mask :: "u8 list" where
  "truncate_mask = [0, 0x80, 0xc0, 0xe0, 0xf0, 0xf8, 0xfc, 0xfe]"

text \<open>
  \<open>netaddr_truncate\<close>; when source and target are the same object the copies change nothing.
  A prefix length above 128 makes the copy leave the array.
\<close>

definition netaddr_truncate :: "netaddr \<Rightarrow> netaddr \<Rightarrow> netaddr option" where
  "netaddr_truncate dst src =
     (let byte_prefix = unat (na_prefix_len src) div 8;
          bit_prefix = unat (na_prefix_len src AND 7)
      in if byte_prefix > 16 \<or> (byte_prefix = 16 \<and> bit_prefix \<noteq> 0) then None
         else
           let a = mem_write (na_addr dst) 0 (take byte_prefix (na_addr src));
               (a, bp) = (if bit_prefix \<noteq> 0
                          then (a[byte_prefix := na_addr src ! byte_prefix AND truncate_mask ! bit_prefix],
                                byte_prefix + 1)
                          else (a, byte_prefix));
               a = (if bp < 16 then mem_write a bp (zero_bytes (16 - bp)) else a)
           in Some \<lparr>na_addr = a, na_type = na_type src, na_prefix_len = na_prefix_len src\<rparr>)"

definition netaddr_embed_ipv4_compatible :: "netaddr \<Rightarrow> netaddr \<Rightarrow> netaddr" where
  "netaddr_embed_ipv4_compatible dst src =
     \<lparr>na_addr = mem_write (mem_write (na_addr dst) 0 (take 12 (na_addr NETADDR_IPV6_IPV4COMPATIBLE))) 12
                  (take 4 (na_addr src)),
      na_type = AF_INET6, na_prefix_len = na_prefix_len src + 96\<rparr>"

definition netaddr_extract_ipv4_compatible :: "netaddr \<Rightarrow> netaddr \<Rightarrow> netaddr" where
  "netaddr_extract_ipv4_compatible dst src =
     \<lparr>na_addr = mem_write (mem_write (na_addr dst) 0 (take 4 (drop 12 (na_addr src)))) 4 (zero_bytes 12),
      na_type = AF_INET, na_prefix_len = na_prefix_len src - 96\<rparr>"

subsection \<open>Comparison and membership\<close>

definition netaddr_bytes :: "netaddr \<Rightarrow> u8 list" where
  "netaddr_bytes a = na_addr a @ [na_type a, na_prefix_len a]"

definition netaddr_cmp :: "netaddr \<Rightarrow> netaddr \<Rightarrow> int" where
  "netaddr_cmp a1 a2 = memcmp (netaddr_bytes a1) (netaddr_bytes a2)"

definition netaddr_avlcmp :: "netaddr \<Rightarrow> netaddr \<Rightarrow> int" where
  "netaddr_avlcmp k1 k2 = netaddr_cmp k1 k2"

text \<open>The memory of a socket; integers of the host are little endian.\<close>

definition netaddr_socket_bytes :: "netaddr_socket \<Rightarrow> u8 list" where
  "netaddr_socket_bytes s =
     [ucast (so_family s), ucast (drop_bit 8 (so_family s))] @ so_port s @ so_word4 s @ so_addr6 s @
     [ucast (so_scope s), ucast (drop_bit 8 (so_scope s)), ucast (drop_bit 16 (so_scope s)),
      ucast (drop_bit 24 (so_scope s))] @ so_rest s"

definition netaddr_socket_cmp :: "netaddr_socket \<Rightarrow> netaddr_socket \<Rightarrow> int" where
  "netaddr_socket_cmp s1 s2 = memcmp (netaddr_socket_bytes s1) (netaddr_socket_bytes s2)"

definition netaddr_socket_avlcmp :: "netaddr_socket \<Rightarrow> netaddr_socket \<Rightarrow> int" where
  "netaddr_socket_avlcmp k1 k2 = netaddr_socket_cmp k1 k2"

definition netaddr_cmp_to_socket :: "netaddr \<Rightarrow> netaddr_socket \<Rightarrow> int" where
  "netaddr_cmp_to_socket a1 a2 =
     (let d = uint (na_type a1) - uint (so_family a2)
      in if d \<noteq> 0 then d
         else let r = (if na_type a1 = AF_INET then memcmp (take 4 (na_addr a1)) (so_word4 a2)
                       else if na_type a1 = AF_INET6 then memcmp (take 16 (na_addr a1)) (so_addr6 a2)
                       else 0)
              in if r \<noteq> 0 then r
                 else uint (na_prefix_len a1) - (if na_type a1 = AF_INET then 32 else 128))"

definition netaddr_isequal_binary :: "netaddr \<Rightarrow> u8 list \<Rightarrow> nat \<Rightarrow> u16 \<Rightarrow> u8 \<Rightarrow> bool" where
  "netaddr_isequal_binary addr bin len af prefix_len =
     (if ucast (na_type addr) \<noteq> af \<or> na_prefix_len addr \<noteq> prefix_len then False
      else let addr_len = unat (drop_bit 3 (netaddr_get_maxprefix addr))
           in if addr_len \<noteq> len then False
              else memcmp (take addr_len (na_addr addr)) (take addr_len bin) = 0)"

definition binary_is_in_subnet :: "netaddr \<Rightarrow> u8 list \<Rightarrow> bool option" where
  "binary_is_in_subnet subnet bin =
     (let byte_length = unat (na_prefix_len subnet) div 8; bit_length = unat (na_prefix_len subnet) mod 8
      in if byte_length > length (na_addr subnet) \<or> byte_length > length bin then None
         else if memcmp (take byte_length (na_addr subnet)) (take byte_length bin) \<noteq> 0 then Some False
         else if bit_length \<noteq> 0
         then if byte_length \<ge> length (na_addr subnet) \<or> byte_length \<ge> length bin then None
              else Some (drop_bit (8 - bit_length) (na_addr subnet ! byte_length)
                         = drop_bit (8 - bit_length) (bin ! byte_length))
         else Some True)"

definition netaddr_binary_is_in_subnet :: "netaddr \<Rightarrow> u8 list \<Rightarrow> nat \<Rightarrow> u8 \<Rightarrow> bool option" where
  "netaddr_binary_is_in_subnet subnet bin len af_family =
     (if na_type subnet \<noteq> af_family \<or> unat (netaddr_get_maxprefix subnet) \<noteq> len * 8 then Some False
      else binary_is_in_subnet subnet bin)"

definition netaddr_is_in_subnet :: "netaddr \<Rightarrow> netaddr \<Rightarrow> bool option" where
  "netaddr_is_in_subnet subnet addr =
     (if na_type subnet \<noteq> na_type addr then Some False else binary_is_in_subnet subnet (na_addr addr))"

subsection \<open>Comparison is a strict total order\<close>

lemma netaddr_bytes_inject [simp]: "netaddr_bytes a = netaddr_bytes b \<longleftrightarrow> a = b"
  by (cases a; cases b) (auto simp: netaddr_bytes_def)

interpretation netaddr_cmp: strict_comparator netaddr_avlcmp
proof
  fix a b c
  show "netaddr_avlcmp a b < 0 \<longleftrightarrow> 0 < netaddr_avlcmp b a"
    by (simp add: netaddr_avlcmp_def netaddr_cmp_def memcmp.cmp_neg)
  show "netaddr_avlcmp a b \<le> 0 \<Longrightarrow> netaddr_avlcmp b c \<le> 0 \<Longrightarrow> netaddr_avlcmp a c \<le> 0"
    unfolding netaddr_avlcmp_def netaddr_cmp_def by (rule memcmp.cmp_trans)
  show "netaddr_avlcmp a b = 0 \<Longrightarrow> a = b"
    by (simp add: netaddr_avlcmp_def netaddr_cmp_def)
qed

subsection \<open>Prefixes as bit strings\<close>

lemma take_block_bits:
  "q < length xs \<Longrightarrow> r \<le> 8 \<Longrightarrow>
    take (8 * q + r) (block_bits xs) = block_bits (take q xs) @ take r (byte_bits (xs ! q))"
proof -
  assume q: "q < length xs" and r: "r \<le> 8"
  have "block_bits xs = block_bits (take q xs) @ byte_bits (xs ! q) @ block_bits (drop (Suc q) xs)"
    using q by (metis id_take_nth_drop block_bits_append block_bits_Cons append_Cons append_Nil)
  then show ?thesis using q r by (simp add: min_def)
qed

lemma take_block_bits_whole: "q \<le> length xs \<Longrightarrow> take (8 * q) (block_bits xs) = block_bits (take q xs)"
  by (metis append_take_drop_id block_bits_append length_block_bits length_take min_absorb2 append_eq_conv_conj)

text \<open>The first \<open>n\<close> bits of an address.\<close>

definition prefix_bits :: "nat \<Rightarrow> netaddr \<Rightarrow> bool list" where
  "prefix_bits n a = take n (block_bits (na_addr a))"

lemma netaddr_plen_le: "netaddr_ok a \<Longrightarrow> unat (na_prefix_len a) \<le> 128"
  by (simp add: netaddr_ok_def word_le_nat_alt)

lemma binary_is_in_subnet_bits:
  assumes s: "netaddr_ok s" and b: "length bin = 16"
  shows "binary_is_in_subnet s bin
    = Some (prefix_bits (unat (na_prefix_len s)) s = take (unat (na_prefix_len s)) (block_bits bin))"
proof -
  define n where "n = unat (na_prefix_len s)"
  define q r where "q = n div 8" and "r = n mod 8"
  have n: "n = 8 * q + r" "r < 8" by (simp_all add: q_def r_def)
  have le: "n \<le> 128" using netaddr_plen_le [OF s] by (simp add: n_def)
  have len: "length (na_addr s) = 16" using s by (simp add: netaddr_ok_def)
  have q16: "q \<le> 16" "q = 16 \<Longrightarrow> r = 0" using le n by auto
  show ?thesis
  proof (cases "r = 0")
    case True
    then show ?thesis
      using q16 len b n
      by (simp add: binary_is_in_subnet_def prefix_bits_def Let_def n_def [symmetric] q_def [symmetric]
          r_def [symmetric] take_block_bits_whole block_bits_inject)
  next
    case False
    then have q: "q < 16" using q16 by (metis le_neq_implies_less)
    have sh: "drop_bit (8 - r) (na_addr s ! q) = drop_bit (8 - r) (bin ! q)
        \<longleftrightarrow> take r (byte_bits (na_addr s ! q)) = take r (byte_bits (bin ! q))"
      by (rule shift_eq_iff_bits) (use n in simp)
    have eq: "take n (block_bits (na_addr s)) = take n (block_bits bin) \<longleftrightarrow>
        take q (na_addr s) = take q bin \<and> take r (byte_bits (na_addr s ! q)) = take r (byte_bits (bin ! q))"
      using q len b n
      by (simp add: take_block_bits block_bits_inject append_eq_append_conv)
    show ?thesis
      unfolding binary_is_in_subnet_def prefix_bits_def n_def [symmetric] Let_def q_def [symmetric]
        r_def [symmetric] eq
      using False q len b by (simp add: sh)
  qed
qed

text \<open>
  C8. Membership in a subnet is agreement on the first bits: \<open>netaddr_is_in_subnet\<close> holds exactly
  when both addresses have the same family and their first \<open>prefix_len\<close> bits agree, and it never
  leaves the address arrays.
\<close>

theorem is_in_subnet_iff_prefix:
  assumes "netaddr_ok s" "netaddr_ok a"
  shows "netaddr_is_in_subnet s a =
    Some (na_type s = na_type a \<and>
          prefix_bits (unat (na_prefix_len s)) s = prefix_bits (unat (na_prefix_len s)) a)"
  using binary_is_in_subnet_bits [OF assms(1), of "na_addr a"] assms(2)
  by (simp add: netaddr_is_in_subnet_def prefix_bits_def netaddr_ok_def)

theorem is_in_subnet_iff_prefix_witness:
  "netaddr_is_in_subnet NETADDR_IPV4_LINKLOCAL (na_const [169, 254, 7, 9] AF_INET 32) = Some True"
  using is_in_subnet_iff_prefix [of NETADDR_IPV4_LINKLOCAL "na_const [169, 254, 7, 9] AF_INET 32"]
  by (simp add: NETADDR_IPV4_LINKLOCAL_def na_const_def netaddr_ok_def zero_bytes_def prefix_bits_def
      byte_bits_def)

subsection \<open>Truncation\<close>

lemma byte_bits_0: "byte_bits 0 = replicate 8 False"
  by (simp add: byte_bits_def numeral_eq_Suc)

lemma block_bits_zero: "block_bits (zero_bytes n) = replicate (8 * n) False"
  by (induction n) (simp_all add: zero_bytes_def byte_bits_0 replicate_add [symmetric])

lemma truncate_mask_bit: "k < 8 \<Longrightarrow> i < 8 \<Longrightarrow> bit (truncate_mask ! k) (7 - i) \<longleftrightarrow> i < k"
  by (auto simp: truncate_mask_def less_Suc_eq numeral_eq_Suc)

lemma byte_bits_mask:
  assumes "k < 8"
  shows "byte_bits (x AND truncate_mask ! k) = take k (byte_bits x) @ replicate (8 - k) False"
proof (rule nth_equalityI)
  fix i assume "i < length (byte_bits (x AND truncate_mask ! k))"
  then have "i < 8" by simp
  then show "byte_bits (x AND truncate_mask ! k) ! i = (take k (byte_bits x) @ replicate (8 - k) False) ! i"
    using assms truncate_mask_bit [of k i]
    by (simp add: byte_bits_nth bit_and_iff nth_append)
qed (use assms in simp)

lemma unat_and_7: "unat (x AND 7 :: u8) = unat x mod 8"
proof -
  have "x AND 7 = take_bit 3 x" by (simp add: take_bit_eq_mask mask_eq_exp_minus_1)
  then have "unat (x AND 7) = take_bit 3 (unat x)" by (simp only: unsigned_take_bit_eq)
  then show ?thesis by (simp only: take_bit_eq_mod) simp
qed

lemma netaddr_truncate_eq:
  assumes "netaddr_ok src" "length (na_addr dst) = 16"
    and n: "n = unat (na_prefix_len src)" "q = n div 8" "r = n mod 8"
  shows "netaddr_truncate dst src = Some (src\<lparr>na_addr :=
      (if r = 0 then take q (na_addr src) @ zero_bytes (16 - q)
       else take q (na_addr src) @ [na_addr src ! q AND truncate_mask ! r] @ zero_bytes (15 - q))\<rparr>)"
proof -
  have le: "n \<le> 128" using netaddr_plen_le [OF assms(1)] by (simp add: n)
  have len: "length (na_addr src) = 16" using assms(1) by (simp add: netaddr_ok_def)
  have nq: "n = 8 * q + r" "r < 8" by (simp_all add: n)
  then have q: "q \<le> 16" "q = 16 \<Longrightarrow> r = 0" using le by auto
  have u: "unat (na_prefix_len src AND 7) = r" by (simp add: unat_and_7 n)
  have d: "unat (na_prefix_len src) div 8 = q" by (simp add: n)
  have nr: "\<not> (16 < q \<or> (q = 16 \<and> r \<noteq> 0))" using q by auto
  show ?thesis
  proof (cases "r = 0")
    case True
    then show ?thesis
      using q len assms(2)
      by (simp add: netaddr_truncate_def u d Let_def mem_write_def zero_bytes_def)
  next
    case False
    then have lt: "q < 16" using q by (metis le_neq_implies_less)
    then have "15 - q = 16 - Suc q" by simp
    then show ?thesis
      using False lt len assms(2)
      by (simp add: netaddr_truncate_def u d Let_def mem_write_def list_update_append zero_bytes_def
          min_def upd_conv_take_nth_drop)
  qed
qed

text \<open>
  C9. Truncation keeps exactly the prefix: the result has the first \<open>prefix_len\<close> bits of the source
  and zeros behind them, whatever the target held before, with the family and prefix length of the
  source. It therefore contains the source and is unchanged by a second truncation.
\<close>

theorem truncate_keeps_prefix:
  assumes ok: "netaddr_ok src" and dst: "length (na_addr dst) = 16"
  shows "\<exists>t. netaddr_truncate dst src = Some t \<and> netaddr_ok t
    \<and> na_type t = na_type src \<and> na_prefix_len t = na_prefix_len src
    \<and> block_bits (na_addr t)
        = prefix_bits (unat (na_prefix_len src)) src @ replicate (128 - unat (na_prefix_len src)) False
    \<and> netaddr_is_in_subnet t src = Some True
    \<and> netaddr_truncate dst t = Some t"
proof -
  define n where "n = unat (na_prefix_len src)"
  define q r where "q = n div 8" and "r = n mod 8"
  define a where "a = (if r = 0 then take q (na_addr src) @ zero_bytes (16 - q)
       else take q (na_addr src) @ [na_addr src ! q AND truncate_mask ! r] @ zero_bytes (15 - q))"
  define t where "t = src\<lparr>na_addr := a\<rparr>"
  have le: "n \<le> 128" using netaddr_plen_le [OF ok] by (simp add: n_def)
  have len: "length (na_addr src) = 16" using ok by (simp add: netaddr_ok_def)
  have nq: "n = 8 * q + r" "r < 8" by (simp_all add: q_def r_def)
  then have q: "q \<le> 16" "q = 16 \<Longrightarrow> r = 0" using le by auto
  have tr: "netaddr_truncate dst src = Some t"
    using netaddr_truncate_eq [OF ok dst n_def q_def r_def] by (simp add: t_def a_def)
  have la: "length a = 16" using q len
    by (cases "q = 16") (auto simp: a_def zero_bytes_def)
  have okt: "netaddr_ok t" using ok la by (simp add: t_def netaddr_ok_def)
  have bits: "block_bits a = take n (block_bits (na_addr src)) @ replicate (128 - n) False"
  proof (cases "r = 0")
    case True
    then show ?thesis
      using q len nq by (simp add: a_def take_block_bits_whole block_bits_zero diff_mult_distrib2)
  next
    case False
    then have lt: "q < 16" using q by (metis le_neq_implies_less)
    have "8 - r + 8 * (15 - q) = 128 - n" using lt nq by simp
    then show ?thesis
      using False lt len nq
      by (simp add: a_def take_block_bits block_bits_zero byte_bits_mask replicate_add [symmetric])
  qed
  have same: "prefix_bits n t = prefix_bits n src"
    using bits le len by (simp add: prefix_bits_def t_def)
  have t': "na_type t = na_type src" "na_prefix_len t = na_prefix_len src" by (simp_all add: t_def)
  have sub: "netaddr_is_in_subnet t src = Some True"
    using is_in_subnet_iff_prefix [OF okt ok] same by (simp add: t' n_def)
  have twice: "netaddr_truncate dst t = Some t"
  proof -
    obtain b where b: "netaddr_truncate dst t = Some (t\<lparr>na_addr := b\<rparr>)"
      and bd: "b = (if r = 0 then take q (na_addr t) @ zero_bytes (16 - q)
       else take q (na_addr t) @ [na_addr t ! q AND truncate_mask ! r] @ zero_bytes (15 - q))"
      using netaddr_truncate_eq [OF okt dst, of n q r] by (simp add: t' n_def q_def r_def)
    have "b = a"
      using q len by (cases "q = 16")
        (auto simp: bd a_def t_def nth_append min_def and.assoc)
    then show ?thesis using b by (simp add: t_def)
  qed
  show ?thesis
    using tr okt t' bits sub twice by (auto simp: prefix_bits_def t_def n_def)
qed

theorem truncate_keeps_prefix_witness:
  "\<exists>t. netaddr_truncate NETADDR_UNSPEC (na_const [10, 1, 255, 7] AF_INET 17) = Some t
     \<and> netaddr_is_in_subnet t (na_const [10, 1, 255, 7] AF_INET 17) = Some True"
proof -
  have "netaddr_ok (na_const [10, 1, 255, 7] AF_INET 17)" "length (na_addr NETADDR_UNSPEC) = 16"
    by (simp_all add: netaddr_ok_def NETADDR_UNSPEC_def na_const_def zero_bytes_def)
  from truncate_keeps_prefix [OF this] show ?thesis by blast
qed

subsection \<open>Host parts\<close>

lemma byte_bits_merge:
  assumes "k < 8"
  shows "byte_bits ((a AND NOT (drop_bit k 255)) OR (b AND drop_bit k 255))
    = take k (byte_bits a) @ drop k (byte_bits b)" (is "byte_bits ?m = _")
proof (rule nth_equalityI)
  have m: "bit (drop_bit k 255 :: u8) j \<longleftrightarrow> k + j < 8" for j
  proof -
    have "(255 :: u8) = mask 8" by (simp add: mask_eq_exp_minus_1)
    then have "bit (drop_bit k 255 :: u8) j \<longleftrightarrow> bit (mask 8 :: u8) (k + j)"
      by (simp only: bit_drop_bit_eq o_def)
    also have "\<dots> \<longleftrightarrow> k + j < 8" by (subst bit_mask_iff) auto
    finally show ?thesis .
  qed
  fix i assume "i < length (byte_bits ?m)"
  then have i: "i < 8" by simp
  have b: "bit ?m (7 - i) \<longleftrightarrow> (if i < k then bit a (7 - i) else bit b (7 - i))"
    using i assms by (auto simp: bit_or_iff bit_and_iff bit_not_iff m)
  show "byte_bits ?m ! i = (take k (byte_bits a) @ drop k (byte_bits b)) ! i"
    using i assms by (auto simp: byte_bits_nth b nth_append)
qed (use assms in simp)

lemma maxprefix_cases:
  "unat (netaddr_get_maxprefix a) \<in> {0, 32, 48, 64, 128}"
  by (simp add: netaddr_get_maxprefix_def netaddr_get_af_maxprefix_def)

lemma maxprefix_bytes: "\<exists>b \<le> 16. unat (netaddr_get_maxprefix a) = 8 * b"
  using maxprefix_cases [of a] by (auto intro: exI [of _ "0::nat"] exI [of _ "4::nat"] exI [of _ "6::nat"]
      exI [of _ "8::nat"] exI [of _ "16::nat"])

lemma drop_block_bits_tail:
  "q \<le> length xs \<Longrightarrow> drop (8 * q) (block_bits xs) = block_bits (drop q xs)"
  by (metis append_take_drop_id block_bits_append append_eq_conv_conj length_block_bits length_take min_absorb2)

text \<open>
  \<open>netaddr_create_host_bin\<close> joins a network and a host number: when the number has at least as
  many bytes as the host part, the address bits of the result are the first \<open>prefix_len\<close> bits of the
  netmask followed by the last bits of the number, the bytes behind the address are those of the
  netmask, and the prefix length is that of a host.
\<close>

theorem create_host_joins_parts:
  assumes ok: "netaddr_ok m" and maxp: "unat (netaddr_get_maxprefix m) = 8 * b" and b: "b \<noteq> 0"
    and n: "n = unat (na_prefix_len m)" "n < 8 * b"
    and num: "length number \<le> 16" "8 * b - n \<le> 8 * length number"
  shows "\<exists>h. netaddr_create_host_bin m number (length number) = Some (0, h)
    \<and> na_type h = na_type m \<and> na_prefix_len h = netaddr_get_maxprefix m
    \<and> block_bits (take b (na_addr h))
        = take n (block_bits (na_addr m)) @ drop (8 * length number - (8 * b - n)) (block_bits number)
    \<and> drop b (na_addr h) = drop b (na_addr m)"
proof -
  define q r where "q = n div 8" and "r = n mod 8"
  define L where "L = length number"
  have nq: "n = 8 * q + r" "r < 8" by (simp_all add: q_def r_def)
  have len: "length (na_addr m) = 16" using ok by (simp add: netaddr_ok_def)
  have b16: "b \<le> 16" using maxp maxprefix_cases [of m] by auto
  have qb: "q < b" using n nq by simp
  define hpl where "hpl = b - q"
  have up: "uint (netaddr_get_maxprefix m) = int (8 * b)" by (simp only: uint_nat maxp)
  have upl: "uint (na_prefix_len m) = int n" by (simp only: n uint_nat)
  have div: "(8 * b - n + 7) div 8 = hpl"
  proof -
    have "8 * b - n + 7 = (7 - r) + hpl * 8" using nq qb by (simp add: hpl_def)
    moreover have "(7 - r) div 8 = 0" by simp
    ultimately show ?thesis using div_mult_self1 [of 8 "7 - r" hpl] by simp
  qed
  have "c_div (uint (netaddr_get_maxprefix m) - uint (na_prefix_len m) + 7) 8 = int hpl"
  proof -
    have e: "int (8 * b) - int n + 7 = int (8 * b - n + 7)" using n by simp
    have "int (8 * b - n + 7) div int 8 = int hpl" by (simp only: div zdiv_int [symmetric])
    then show ?thesis unfolding up upl c_div_def e by simp
  qed
  then have hpl: "unat (of_int (c_div (uint (netaddr_get_maxprefix m) - uint (na_prefix_len m) + 7) 8) :: u8) = hpl"
    using b16 by (simp add: unat_of_nat hpl_def)
  have L: "hpl \<le> L" using num n nq qb by (simp add: hpl_def L_def)
  have ne: "netaddr_get_maxprefix m \<noteq> 0" "netaddr_get_maxprefix m \<noteq> na_prefix_len m" "L \<noteq> 0"
    using maxp b n L qb by (auto simp: hpl_def)
  have L16: "L \<le> 16" using num by (simp add: L_def)
  define host where "host = m\<lparr>na_prefix_len := netaddr_get_maxprefix m\<rparr>"
  show ?thesis
  proof (cases "r = 0")
    case True
    have res: "netaddr_create_host_bin m number L = Some (0, host\<lparr>na_addr :=
        mem_write (na_addr m) q (drop (L - hpl) number)\<rparr>)"
      using ne L L16 qb b16 True
      by (simp add: netaddr_create_host_bin_def Let_def hpl n(1) [symmetric] q_def [symmetric]
          r_def [symmetric] host_def L_def [symmetric]) (simp add: hpl_def L_def)
    have len_d: "length (drop (L - hpl) number) = hpl" using L by (simp add: L_def)
    have tk: "take b (mem_write (na_addr m) q (drop (L - hpl) number)) = take q (na_addr m) @ drop (L - hpl) number"
      using len qb b16 L len_d by (simp add: mem_write_def hpl_def)
    have dr: "drop b (mem_write (na_addr m) q (drop (L - hpl) number)) = drop b (na_addr m)"
      using len qb b16 L len_d by (simp add: mem_write_def hpl_def)
    have "8 * L - (8 * b - n) = 8 * (L - hpl)" using nq qb L True by (simp add: hpl_def)
    then have "block_bits (take q (na_addr m) @ drop (L - hpl) number)
        = take n (block_bits (na_addr m)) @ drop (8 * L - (8 * b - n)) (block_bits number)"
      using nq qb b16 len True
      by (simp add: take_block_bits_whole drop_block_bits_tail L_def)
    then show ?thesis using res tk dr by (simp add: host_def L_def)
  next
    case False
    define k where "k = L - hpl"
    have k: "k < L" using L qb by (simp add: k_def hpl_def)
    define y where "y = (na_addr m ! q AND NOT (drop_bit r 255)) OR (number ! k AND drop_bit r 255)"
    define A where "A = mem_write ((na_addr m)[q := y]) (q + 1) (drop (k + 1) number)"
    have e1: "take (L - (k + 1)) (drop (k + 1) number) = drop (k + 1) number" by (simp add: L_def)
    have e2: "q + 1 + (L - (k + 1)) = b" using k qb L by (simp add: k_def hpl_def)
    have res: "netaddr_create_host_bin m number L = Some (0, host\<lparr>na_addr := A\<rparr>)"
      using ne L L16 qb b16 False k e2
      by (simp add: netaddr_create_host_bin_def Let_def hpl n(1) [symmetric] q_def [symmetric]
          r_def [symmetric] k_def [symmetric] y_def [symmetric] host_def e1 A_def)
        (simp add: L_def [symmetric])
    have t1: "take (q + 1) ((na_addr m)[q := y]) = take q (na_addr m) @ [y]"
      using len qb b16 by (simp add: take_Suc_conv_app_nth)
    have t2: "drop b ((na_addr m)[q := y]) = drop b (na_addr m)" using qb by simp
    have t3: "q + 1 + length (drop (k + 1) number) = b" using e2 by (simp add: L_def)
    have A: "A = take q (na_addr m) @ y # drop (k + 1) number @ drop b (na_addr m)"
      unfolding A_def mem_write_def t1 t2 t3 by simp
    have lk: "length (drop (k + 1) number) = b - (q + 1)" using e2 by (simp add: L_def)
    have bs: "b - q = Suc (b - Suc q)" using qb by simp
    have tk: "take b A = take q (na_addr m) @ y # drop (k + 1) number"
      and dr: "drop b A = drop b (na_addr m)"
      using len qb b16 lk bs by (simp_all add: A)
    have s: "8 * L - (8 * b - n) = 8 * k + r" using nq qb L by (simp add: k_def hpl_def)
    have "drop (8 * k + r) (block_bits number) = drop r (drop (8 * k) (block_bits number))"
      by (simp add: add.commute)
    also have "drop (8 * k) (block_bits number) = byte_bits (number ! k) @ block_bits (drop (k + 1) number)"
    proof -
      have "drop (8 * k) (block_bits number) = block_bits (drop k number)"
        by (rule drop_block_bits_tail) (use k in \<open>simp add: L_def\<close>)
      also have "drop k number = number ! k # drop (Suc k) number"
        by (rule Cons_nth_drop_Suc [symmetric]) (use k in \<open>simp add: L_def\<close>)
      finally show ?thesis by simp
    qed
    also have "drop r (byte_bits (number ! k) @ block_bits (drop (k + 1) number))
        = drop r (byte_bits (number ! k)) @ block_bits (drop (k + 1) number)"
      using nq by simp
    finally have fin: "drop (8 * k + r) (block_bits number)
      = drop r (byte_bits (number ! k)) @ block_bits (drop (k + 1) number)" .
    have tn: "take n (block_bits (na_addr m)) = block_bits (take q (na_addr m)) @ take r (byte_bits (na_addr m ! q))"
      unfolding nq(1) by (rule take_block_bits) (use nq qb b16 len in simp_all)
    have "block_bits (take b A) = take n (block_bits (na_addr m)) @ drop (8 * L - (8 * b - n)) (block_bits number)"
      unfolding tk s tn fin by (simp add: y_def byte_bits_merge nq)
    then show ?thesis using res dr by (simp add: host_def L_def)
  qed
qed

theorem create_host_joins_parts_witness:
  "\<exists>h. netaddr_create_host_bin (na_const [10, 1] AF_INET 12) [9, 8, 7] 3 = Some (0, h)
     \<and> drop 4 (na_addr h) = zero_bytes 12"
proof -
  have u: "netaddr_get_maxprefix (na_const [10, 1] AF_INET 12) = 32"
    by (simp add: netaddr_get_maxprefix_def netaddr_get_af_maxprefix_def na_const_def)
  have "netaddr_ok (na_const [10, 1] AF_INET 12)"
    by (simp add: netaddr_ok_def na_const_def zero_bytes_def)
  then show ?thesis
    using create_host_joins_parts [of "na_const [10, 1] AF_INET 12" 4 12 "[9, 8, 7]"] u
    by (auto simp: na_const_def zero_bytes_def numeral_3_eq_3 simp del: take_Cons_numeral)
qed

text \<open>The wrapper claims 32 bytes or more for a number of 16 bytes.\<close>

lemma create_host_out_of_bounds:
  "netaddr_create_host (na_const [10] AF_INET 8) (na_const [0, 1, 2, 3] AF_INET 32) = None"
  by (simp add: netaddr_create_host_def netaddr_create_host_bin_def na_const_def zero_bytes_def
      netaddr_get_maxprefix_def netaddr_get_af_maxprefix_def af_defs c_div_def)

lemma create_prefix_skips_bytes:
  "netaddr_create_prefix (na_const [] 0 0) (na_const [10, 1, 2, 3] AF_INET 32)
     (na_const [255, 255, 255, 0] AF_INET 32) True = (0, na_const [10, 0, 2] AF_INET 16)"
  by code_simp

subsection \<open>Binary, socket and embedding round trips\<close>

text \<open>The canonical form of an address: nothing behind the bytes of its family.\<close>

definition netaddr_canonical :: "netaddr \<Rightarrow> bool" where
  "netaddr_canonical a = (netaddr_ok a \<and> netaddr_get_maxprefix a \<noteq> 0 \<and>
     drop (netaddr_get_binlength a) (na_addr a) = zero_bytes (16 - netaddr_get_binlength a))"

lemma uint_ucast_u8 [simp]: "uint (ucast x :: u32) = uint x" "uint (ucast x :: u16) = uint x" for x :: u8
  by (simp_all add: uint_up_ucast is_up)

lemma ucast_u8_inject [simp]:
  "(ucast x :: u32) = ucast y \<longleftrightarrow> x = y" "(ucast x :: u16) = ucast y \<longleftrightarrow> x = y" for x y :: u8
  by (simp_all add: word_uint_eq_iff)

lemma ucast_u16_u8 [simp]: "(ucast (ucast x :: u16) :: u8) = x"
  by (simp add: ucast_up_ucast_id is_up)

lemma binlength_cases:
  "netaddr_get_maxprefix a \<noteq> 0 \<Longrightarrow>
    (netaddr_get_binlength a, na_type a) \<in> {(4, AF_INET), (6, AF_MAC48), (8, AF_EUI64), (16, AF_INET6)}"
  by (auto simp: netaddr_get_binlength_def netaddr_get_maxprefix_def netaddr_get_af_maxprefix_def
      unat_drop_bit split: if_splits)

text \<open>
  C10. Binary round trip: for an address of a known family, \<open>netaddr_to_binary\<close> succeeds when the
  buffer is large enough, and reading the bytes back with the family detected from their number
  gives the address again.
\<close>

theorem binary_roundtrip:
  assumes "netaddr_canonical a" "length buf = netaddr_get_binlength a"
  shows "\<exists>bin. netaddr_to_binary buf a (netaddr_get_binlength a) = (0, bin)
    \<and> length bin = netaddr_get_binlength a
    \<and> netaddr_from_binary_prefix bin (netaddr_get_binlength a) 0 (na_prefix_len a) = Some (0, a)"
proof -
  let ?n = "netaddr_get_binlength a"
  have mp: "netaddr_get_maxprefix a \<noteq> 0" and len: "length (na_addr a) = 16"
    and z: "drop ?n (na_addr a) = zero_bytes (16 - ?n)" and p: "na_prefix_len a \<noteq> 255"
    using assms by (auto simp: netaddr_canonical_def netaddr_ok_def word_le_nat_alt word_unat_eq_iff)
  have c: "(?n, na_type a) \<in> {(4, AF_INET), (6, AF_MAC48), (8, AF_EUI64), (16, AF_INET6)}"
    by (rule binlength_cases [OF mp])
  then have n: "0 < ?n" "?n \<le> 16" by auto
  have full: "take ?n (na_addr a) @ zero_bytes (16 - ?n) = na_addr a"
    using z by (metis append_take_drop_id)
  have to: "netaddr_to_binary buf a ?n = (0, take ?n (na_addr a))"
    using n assms(2) len
    by (simp add: netaddr_to_binary_def netaddr_get_binlength_def [symmetric] Let_def mem_write_def)
  have mw: "mem_write (zero_bytes 16) 0 (take ?n (na_addr a)) = na_addr a"
    using n len full by (simp add: mem_write_def zero_bytes_def)
  have "netaddr_from_binary_prefix (take ?n (na_addr a)) ?n 0 (na_prefix_len a) = Some (0, a)"
    using c p len mw by (auto simp: netaddr_from_binary_prefix_def af_defs)
  then show ?thesis using to n len by auto
qed

theorem binary_roundtrip_witness:
  "\<exists>bin. netaddr_to_binary (replicate 6 0) (na_const [2, 0, 0, 0, 0, 7] AF_MAC48 48) 6 = (0, bin)
    \<and> netaddr_from_binary_prefix bin 6 0 48 = Some (0, na_const [2, 0, 0, 0, 0, 7] AF_MAC48 48)"
proof -
  let ?a = "na_const [2, 0, 0, 0, 0, 7] AF_MAC48 48"
  have n: "netaddr_get_binlength ?a = 6" and m: "netaddr_get_maxprefix ?a \<noteq> 0"
    by (simp_all add: netaddr_get_binlength_def netaddr_get_maxprefix_def netaddr_get_af_maxprefix_def
        na_const_def af_defs unat_drop_bit)
  have "netaddr_canonical ?a"
    using n m by (simp add: netaddr_canonical_def) (simp add: netaddr_ok_def na_const_def zero_bytes_def)
  from binary_roundtrip [OF this, of "replicate 6 0"] n show ?thesis
    by (auto simp: na_const_def)
qed

lemma ntohs_htons [simp]: "ntohs (htons p) = p"
proof (rule bit_word_eqI)
  fix n assume "n < LENGTH(16)"
  then show "bit (ntohs (htons p)) n \<longleftrightarrow> bit p n"
    by (auto simp: ntohs_def htons_def bit_or_iff bit_push_bit_iff bit_ucast_iff bit_drop_bit_eq
        not_less)
qed

text \<open>
  Socket round trip: initialising a socket from an IPv4 or IPv6 host address succeeds, and the
  address, the port and equality with the address are read back from it.
\<close>

theorem socket_roundtrip:
  assumes "netaddr_canonical a" "na_prefix_len a = netaddr_get_maxprefix a"
    "na_type a = AF_INET \<or> na_type a = AF_INET6"
  shows "\<exists>s. netaddr_socket_init a port idx = (0, s) \<and> netaddr_from_socket d s = (0, a)
    \<and> netaddr_socket_get_port s = port \<and> netaddr_cmp_to_socket a s = 0"
proof -
  have len: "length (na_addr a) = 16"
    using assms by (simp add: netaddr_canonical_def netaddr_ok_def)
  have diff: "AF_INET \<noteq> AF_INET6" "(ucast AF_INET :: u16) \<noteq> ucast AF_INET6" by (simp_all add: af_defs)
  from assms(3) show ?thesis
  proof
    assume t: "na_type a = AF_INET"
    have mp: "netaddr_get_maxprefix a = 32" and n: "netaddr_get_binlength a = 4"
      using t by (simp_all add: netaddr_get_binlength_def netaddr_get_maxprefix_def
          netaddr_get_af_maxprefix_def unat_drop_bit)
    have z: "drop 4 (na_addr a) = zero_bytes 12"
      using assms(1) n by (simp add: netaddr_canonical_def)
    have w: "mem_write (zero_bytes 16) 0 (take 4 (na_addr a)) = na_addr a"
      using len append_take_drop_id [of 4 "na_addr a"] unfolding z by (simp add: mem_write_def zero_bytes_def)
    then show ?thesis
      using t mp assms(2) len diff
      by (simp add: netaddr_socket_init_def netaddr_from_socket_def netaddr_socket_get_port_def
          netaddr_cmp_to_socket_def w)
  next
    assume t: "na_type a = AF_INET6"
    have mp: "netaddr_get_maxprefix a = 128"
      using t by (simp add: netaddr_get_maxprefix_def netaddr_get_af_maxprefix_def af_defs)
    have w: "mem_write (zero_bytes 16) 0 (na_addr a) = na_addr a"
      using len by (simp add: mem_write_def zero_bytes_def)
    show ?thesis
      using t mp assms(2) len diff
      by (simp add: netaddr_socket_init_def netaddr_from_socket_def netaddr_socket_get_port_def
          netaddr_cmp_to_socket_def w)
  qed
qed

theorem socket_roundtrip_witness:
  "\<exists>s. netaddr_socket_init (na_const [10, 0, 0, 1] AF_INET 32) 698 0 = (0, s)
     \<and> netaddr_socket_get_port s = 698"
proof -
  let ?a = "na_const [10, 0, 0, 1] AF_INET 32"
  have n: "netaddr_get_binlength ?a = 4" and m: "netaddr_get_maxprefix ?a = 32"
    by (simp_all add: netaddr_get_binlength_def netaddr_get_maxprefix_def netaddr_get_af_maxprefix_def
        na_const_def af_defs unat_drop_bit)
  have "netaddr_canonical ?a"
    using n m by (simp add: netaddr_canonical_def) (simp add: netaddr_ok_def na_const_def zero_bytes_def)
  from socket_roundtrip [OF this, of 698 0 ?a] m show ?thesis by (auto simp: na_const_def)
qed

text \<open>
  Embedding an IPv4 prefix in IPv6 and extracting it gives the prefix back, for every prefix
  length (the two additions modulo 256 cancel) and every old content of the targets.
\<close>

theorem embed_extract_ipv4:
  assumes "netaddr_canonical a" "na_type a = AF_INET" "length (na_addr d) = 16" "length (na_addr d') = 16"
  shows "netaddr_extract_ipv4_compatible d (netaddr_embed_ipv4_compatible d' a) = a"
proof -
  have n: "netaddr_get_binlength a = 4"
    using assms(2) by (simp add: netaddr_get_binlength_def netaddr_get_maxprefix_def
          netaddr_get_af_maxprefix_def unat_drop_bit)
  have len: "length (na_addr a) = 16" and z: "drop 4 (na_addr a) = zero_bytes 12"
    using assms(1) n by (simp_all add: netaddr_canonical_def netaddr_ok_def)
  have "take 4 (na_addr a) @ zero_bytes 12 = na_addr a"
    using z by (metis append_take_drop_id)
  then show ?thesis
    using assms len
    by (simp add: netaddr_extract_ipv4_compatible_def netaddr_embed_ipv4_compatible_def mem_write_def
        NETADDR_IPV6_IPV4COMPATIBLE_def na_const_def zero_bytes_def netaddr.equality)
qed

theorem embed_extract_ipv4_witness:
  "netaddr_extract_ipv4_compatible NETADDR_UNSPEC
     (netaddr_embed_ipv4_compatible NETADDR_UNSPEC NETADDR_IPV4_LINKLOCAL) = NETADDR_IPV4_LINKLOCAL"
proof -
  let ?a = NETADDR_IPV4_LINKLOCAL
  have n: "netaddr_get_binlength ?a = 4" and m: "netaddr_get_maxprefix ?a = 32"
    by (simp_all add: netaddr_get_binlength_def netaddr_get_maxprefix_def netaddr_get_af_maxprefix_def
        na_const_def af_defs unat_drop_bit NETADDR_IPV4_LINKLOCAL_def)
  have "netaddr_canonical ?a"
    using n m by (simp add: netaddr_canonical_def)
      (simp add: netaddr_ok_def na_const_def zero_bytes_def NETADDR_IPV4_LINKLOCAL_def)
  then show ?thesis
    by (rule embed_extract_ipv4)
      (simp_all add: NETADDR_IPV4_LINKLOCAL_def NETADDR_UNSPEC_def na_const_def zero_bytes_def)
qed

end
