(* ===== verification/Netaddr_Text.thy ===== *)
theory Netaddr_Text
  imports Netaddr
begin

text \<open>
  Text form of addresses and the access control lists built from it (\<open>netaddr.c\<close>,
  \<open>netaddr_acl.c\<close>). The conversions of IPv4 and IPv6 addresses belong to the C library and are
  arguments: \<open>ntop af bytes\<close> is \<open>inet_ntop\<close>, \<open>pton af text\<close> is \<open>inet_pton\<close>, which returns the bytes
  or \<open>None\<close> for a return value other than 1.
\<close>

type_synonym inet_ntop = "u8 \<Rightarrow> u8 list \<Rightarrow> string"
type_synonym inet_pton = "u8 \<Rightarrow> string \<Rightarrow> u8 list option"

subsection \<open>Numbers in text\<close>

definition hex_digit :: "u8 \<Rightarrow> char" where
  "hex_digit x = ''0123456789abcdef'' ! unat x"

definition read_hexdigit :: "char \<Rightarrow> int" where
  "read_hexdigit c =
     (let n = int (of_char c)
      in if 48 \<le> n \<and> n \<le> 57 then n - 48
         else if 97 \<le> n \<and> n \<le> 102 then n - 97 + 10
         else if 65 \<le> n \<and> n \<le> 70 then n - 65 + 10
         else - 1)"

text \<open>The decimal digits that \<open>"%d"\<close> and \<open>"%"PRIu64\<close> print for a number that is not negative.\<close>

fun dec_string :: "nat \<Rightarrow> string" where
  "dec_string n = (if n < 10 then [char_of (48 + n)] else dec_string (n div 10) @ [char_of (48 + n mod 10)])"

declare dec_string.simps [simp del]

subsection \<open>MAC addresses\<close>

text \<open>
  \<open>_mac_to_string\<close>: the loop writes the buffer \<open>acc\<close> and remembers the position of the last
  separator, which the terminating zero replaces.
\<close>

fun mac_to_string_loop :: "u8 list \<Rightarrow> nat \<Rightarrow> char \<Rightarrow> string \<Rightarrow> nat \<Rightarrow> string \<times> nat" where
  "mac_to_string_loop (b # bs) dst_size separator acc last_sep =
     (if dst_size \<ge> 3
      then let acc2 = acc @ [hex_digit (drop_bit 4 b), hex_digit (b AND 15)]
           in mac_to_string_loop bs (dst_size - 3) separator (acc2 @ [separator]) (length acc2)
      else (acc, last_sep))"
| "mac_to_string_loop [] dst_size separator acc last_sep = (acc, last_sep)"

definition mac_to_string :: "u8 list \<Rightarrow> nat \<Rightarrow> nat \<Rightarrow> char \<Rightarrow> string option" where
  "mac_to_string bin dst_size bin_size separator =
     (if dst_size = 0 then None
      else let r = mac_to_string_loop (take bin_size bin) dst_size separator [] 0
           in Some (take (snd r) (fst r)))"

text \<open>
  \<open>_mac_from_string\<close>: the return code and the bytes that were written, in order. The end of the
  string is its terminating zero, which is no hexadecimal digit.
\<close>

fun mac_from_string :: "nat \<Rightarrow> string \<Rightarrow> char \<Rightarrow> int \<times> u8 list" where
  "mac_from_string 0 src separator = (- 1, [])"
| "mac_from_string (Suc bin_size) src separator =
     (case src of [] \<Rightarrow> (- 1, [])
      | c # src1 \<Rightarrow>
          if read_hexdigit c = - 1 then (- 1, [])
          else
            let digit_2 = (case src1 of [] \<Rightarrow> - 1 | d # _ \<Rightarrow> read_hexdigit d);
                (num, src2) = (if digit_2 \<ge> 0 then (read_hexdigit c * 16 + digit_2, tl src1)
                               else (read_hexdigit c, src1));
                b = (of_int num :: u8)
            in (case src2 of [] \<Rightarrow> (if bin_size \<noteq> 0 then - 1 else 0, [b])
                | e # src3 \<Rightarrow>
                    if e \<noteq> separator then (- 1, [b])
                    else let r = mac_from_string bin_size src3 separator in (fst r, b # snd r)))"

subsection \<open>Printing\<close>

definition netaddr_str_size :: nat where
  "netaddr_str_size = 46 + 16"

definition netaddr_to_prefixstring :: "inet_ntop \<Rightarrow> netaddr option \<Rightarrow> bool \<Rightarrow> string option" where
  "netaddr_to_prefixstring ntop src forceprefix =
     (case src of None \<Rightarrow> strscpy (Some []) (Some ''-'') netaddr_str_size
      | Some a \<Rightarrow>
          let maxprefix = netaddr_get_maxprefix a;
              tail = (\<lambda>result. if forceprefix \<or> na_prefix_len a < maxprefix
                      then map_option (\<lambda>s. s @ take 4 (''/'' @ dec_string (unat (na_prefix_len a)))) result
                      else result)
          in if na_type a = AF_INET then tail (Some (ntop AF_INET (na_addr a)))
             else if na_type a = AF_INET6 then tail (Some (ntop AF_INET6 (na_addr a)))
             else if na_type a = AF_MAC48 then tail (mac_to_string (na_addr a) netaddr_str_size 6 CHR '':'')
             else if na_type a = AF_EUI64 then tail (mac_to_string (na_addr a) netaddr_str_size 8 CHR ''-'')
             else strscpy (Some []) (Some ''-'') netaddr_str_size)"

definition netaddr_to_string :: "inet_ntop \<Rightarrow> netaddr option \<Rightarrow> string option" where
  "netaddr_to_string ntop src = netaddr_to_prefixstring ntop src False"

text \<open>\<open>netaddr_socket_to_string\<close>; \<open>ifname\<close> is what printing \<open>if_indextoname\<close> gives.\<close>

definition netaddr_socket_to_string :: "inet_ntop \<Rightarrow> (u32 \<Rightarrow> string) \<Rightarrow> netaddr_socket \<Rightarrow> string" where
  "netaddr_socket_to_string ntop ifname src =
     take (netaddr_str_size - 1)
       (if so_family src = ucast AF_INET
        then ntop AF_INET (so_word4 src) @ '':'' @ dec_string (unat (ntohs (so_port src)))
        else if so_family src = ucast AF_INET6
        then (if so_scope src \<noteq> 0
              then ''['' @ ntop AF_INET6 (so_addr6 src) @ '']:'' @ dec_string (unat (ntohs (so_port src)))
                   @ ''%'' @ ifname (so_scope src)
              else ''['' @ ntop AF_INET6 (so_addr6 src) @ '']:'' @ dec_string (unat (ntohs (so_port src))))
        else CHR 0x22 # ''Unknown socket type: '' @ dec_string (unat (so_family src)) @ [CHR 0x22])"

subsection \<open>Parsing\<close>

definition known_prefixes :: "(string \<times> netaddr) list" where
  "known_prefixes =
     [(''any4'', NETADDR_IPV4_ANY), (''any6'', NETADDR_IPV6_ANY), (''linklocal4'', NETADDR_IPV4_LINKLOCAL),
      (''linklocal6'', NETADDR_IPV6_LINKLOCAL), (''ula'', NETADDR_IPV6_ULA)]"

fun find_known_prefix :: "(string \<times> netaddr) list \<Rightarrow> string \<Rightarrow> netaddr option" where
  "find_known_prefix [] src = None"
| "find_known_prefix ((n, p) # ks) src = (if strcase_eq src n then Some p else find_known_prefix ks src)"

text \<open>What the first loop counts in the address part.\<close>

record addr_scan =
  sc_colon_count :: nat
  sc_minus_count :: nat
  sc_has_coloncolon :: bool
  sc_has_point :: bool

fun scan_addr :: "string \<Rightarrow> bool \<Rightarrow> addr_scan \<Rightarrow> addr_scan" where
  "scan_addr [] last_was_colon s = s"
| "scan_addr (c # cs) last_was_colon s =
     scan_addr cs (c = CHR '':'')
       (if c = CHR '':''
        then s\<lparr>sc_has_coloncolon := (if last_was_colon then True else sc_has_coloncolon s),
               sc_colon_count := sc_colon_count s + 1\<rparr>
        else if c = CHR ''.'' then s\<lparr>sc_has_point := True\<rparr>
        else if c = CHR ''-'' then s\<lparr>sc_minus_count := sc_minus_count s + 1\<rparr>
        else s)"

definition addr_part :: "char \<Rightarrow> bool" where
  "addr_part c = (\<not> isspace c \<and> c \<noteq> CHR ''/'')"

text \<open>\<open>_subnetmask_to_prefixlen\<close>: the loop over the lengths, which starts at 31.\<close>

fun subnetmask_loop :: "u32 \<Rightarrow> u32 \<Rightarrow> nat \<Rightarrow> int" where
  "subnetmask_loop v4 shift len =
     (if v4 = shift then int len
      else case len of 0 \<Rightarrow> - 1 | Suc l \<Rightarrow> subnetmask_loop v4 (push_bit 1 shift) l)"

declare subnetmask_loop.simps [simp del]

definition ntohl :: "u8 list \<Rightarrow> u32" where
  "ntohl bs = push_bit 24 (ucast (bs ! 0)) OR push_bit 16 (ucast (bs ! 1))
              OR push_bit 8 (ucast (bs ! 2)) OR ucast (bs ! 3)"

definition subnetmask_to_prefixlen :: "inet_pton \<Rightarrow> string \<Rightarrow> int" where
  "subnetmask_to_prefixlen pton src =
     (case pton AF_INET src of None \<Rightarrow> - 1 | Some bs \<Rightarrow> subnetmask_loop (ntohl bs) 0xffffffff 31)"

definition read_prefix_len :: "string \<Rightarrow> int" where
  "read_prefix_len ptr2 =
     (let (v, ptr3, _) = strtoull ptr2 in if ptr3 \<noteq> [] then - 1 else sint (ucast v :: u32))"

definition no_scan :: addr_scan where
  "no_scan = \<lparr>sc_colon_count = 0, sc_minus_count = 0, sc_has_coloncolon = False, sc_has_point = False\<rparr>"

text \<open>
  The choice of the address format: \<open>ptr1\<close> is the address part, \<open>ptr2\<close> the text of the prefix length.
  The result is the value of \<open>result\<close>, the target and the prefix length.
\<close>

definition from_string_family ::
  "inet_pton \<Rightarrow> addr_scan \<Rightarrow> netaddr \<Rightarrow> string \<Rightarrow> string \<Rightarrow> int \<Rightarrow> int \<times> netaddr \<times> int" where
  "from_string_family pton sc dst ptr1 ptr2 prefix_len =
     (let colon = sc_colon_count sc; minus = sc_minus_count sc
      in if (colon = 5 \<or> minus = 5) \<and> (colon = 0 \<or> minus = 0) \<and> \<not> sc_has_point sc \<and> \<not> sc_has_coloncolon sc
         then let r = mac_from_string 6 ptr1 (if colon > 0 then CHR '':'' else CHR ''-'')
              in (fst r, \<lparr>na_addr = mem_write (na_addr dst) 0 (snd r), na_type = AF_MAC48,
                          na_prefix_len = 48\<rparr>, prefix_len)
         else if colon = 0 \<and> \<not> sc_has_point sc \<and> minus = 7
         then let r = mac_from_string 8 ptr1 CHR ''-''
              in (fst r, \<lparr>na_addr = mem_write ((na_addr dst)[7 := 2]) 0 (snd r),
                          na_type = AF_EUI64, na_prefix_len = 64\<rparr>, prefix_len)
         else if colon = 0 \<and> sc_has_point sc \<and> minus = 0
         then (case pton AF_INET ptr1 of
                 None \<Rightarrow> (- 1, dst\<lparr>na_type := AF_INET, na_prefix_len := 32\<rparr>, prefix_len)
               | Some bs \<Rightarrow>
                   (0, \<lparr>na_addr = mem_write (na_addr dst) 0 bs, na_type = AF_INET, na_prefix_len = 32\<rparr>,
                    if ptr2 \<noteq> [] \<and> prefix_len = - 1 then subnetmask_to_prefixlen pton ptr2 else prefix_len))
         else if (sc_has_coloncolon sc \<or> colon = 7) \<and> minus = 0
         then (case pton AF_INET6 ptr1 of
                 None \<Rightarrow> (- 1, dst\<lparr>na_type := AF_INET6, na_prefix_len := 128\<rparr>, prefix_len)
               | Some bs \<Rightarrow>
                   (0, \<lparr>na_addr = mem_write (na_addr dst) 0 bs, na_type = AF_INET6, na_prefix_len = 128\<rparr>,
                    prefix_len))
         else (- 1, dst, prefix_len))"

definition from_string_fail :: "netaddr \<Rightarrow> int \<times> netaddr" where
  "from_string_fail d = (- 1, d\<lparr>na_type := AF_UNSPEC\<rparr>)"

definition from_string_finish :: "string \<Rightarrow> int \<times> netaddr \<times> int \<Rightarrow> int \<times> netaddr" where
  "from_string_finish ptr2 r =
     (let (result, d, prefix_len) = r
      in if result \<noteq> 0 then from_string_fail d
         else if ptr2 \<noteq> []
         then if prefix_len < 0 \<or> prefix_len > uint (na_prefix_len d) then from_string_fail d
              else (0, d\<lparr>na_prefix_len := of_int prefix_len\<rparr>)
         else (0, d))"

text \<open>
  \<open>netaddr_from_string\<close>: the return code and the address left in the target, also when parsing
  fails.
\<close>

definition netaddr_from_string :: "inet_pton \<Rightarrow> string \<Rightarrow> int \<times> netaddr" where
  "netaddr_from_string pton src =
     (if src = ''-'' then (0, netaddr_invalidate)
      else case find_known_prefix known_prefixes src of Some p \<Rightarrow> (0, p)
      | None \<Rightarrow>
        let dst = na_const [] 0 0;
            buf = str_trim (take (netaddr_str_size - 1) src);
            ptr1 = takeWhile addr_part buf;
            rest = dropWhile addr_part buf;
            sc = scan_addr ptr1 False no_scan;
            rest1 = dropWhile isspace rest;
            ptr2 = dropWhile isspace (if rest1 \<noteq> [] \<and> hd rest1 = CHR ''/'' then tl rest1 else rest1)
        in if rest \<noteq> [] \<and> ptr2 = [] then from_string_fail dst
           else
             let prefix_len = (if rest \<noteq> [] then read_prefix_len ptr2 else - 1)
             in from_string_finish ptr2 (from_string_family pton sc dst ptr1 ptr2 prefix_len))"

subsection \<open>Access control lists\<close>

text \<open>
  A \<open>struct netaddr_acl\<close>: the two arrays with their counts are lists (\<open>None\<close> is a null pointer with
  count 0). The functions that allocate take the outcome of \<open>calloc\<close> for the accept and the reject
  array as arguments.
\<close>

record netaddr_acl =
  acl_accept :: "netaddr list"
  acl_reject :: "netaddr list"
  acl_reject_first :: bool
  acl_accept_default :: bool

definition netaddr_acl_add :: netaddr_acl where
  "netaddr_acl_add = \<lparr>acl_accept = [], acl_reject = [], acl_reject_first = False, acl_accept_default = False\<rparr>"

definition netaddr_acl_remove :: "netaddr_acl \<Rightarrow> netaddr_acl" where
  "netaddr_acl_remove acl = netaddr_acl_add"

definition netaddr_acl_handle_keywords :: "netaddr_acl \<Rightarrow> string \<Rightarrow> int \<times> netaddr_acl" where
  "netaddr_acl_handle_keywords acl cmd =
     (if strcase_eq cmd ''default_accept'' then (0, acl\<lparr>acl_accept_default := True\<rparr>)
      else if strcase_eq cmd ''default_reject'' then (0, acl\<lparr>acl_accept_default := False\<rparr>)
      else if strcase_eq cmd ''first_accept'' then (0, acl\<lparr>acl_reject_first := False\<rparr>)
      else if strcase_eq cmd ''first_reject'' then (0, acl\<lparr>acl_reject_first := True\<rparr>)
      else (- 1, acl))"

fun acl_count :: "netaddr_acl \<Rightarrow> string list \<Rightarrow> nat \<Rightarrow> nat \<Rightarrow> netaddr_acl \<times> nat \<times> nat" where
  "acl_count acl [] accept_count reject_count = (acl, accept_count, reject_count)"
| "acl_count acl (ptr # ptrs) accept_count reject_count =
     (let r = netaddr_acl_handle_keywords acl ptr
      in if fst r = 0 then acl_count (snd r) ptrs accept_count reject_count
         else if ptr \<noteq> [] \<and> hd ptr = CHR ''-'' then acl_count (snd r) ptrs accept_count (reject_count + 1)
         else acl_count (snd r) ptrs (accept_count + 1) reject_count)"

fun acl_read :: "inet_pton \<Rightarrow> netaddr_acl \<Rightarrow> string list \<Rightarrow> netaddr_acl option" where
  "acl_read pton acl [] = Some acl"
| "acl_read pton acl (ptr # ptrs) =
     (let r = netaddr_acl_handle_keywords acl ptr
      in if fst r = 0 then acl_read pton (snd r) ptrs
         else
           let addr = (if ptr \<noteq> [] \<and> (hd ptr = CHR ''-'' \<or> hd ptr = CHR ''+'') then tl ptr else ptr);
               p = netaddr_from_string pton addr
           in if fst p \<noteq> 0 then None
              else if ptr \<noteq> [] \<and> hd ptr = CHR ''-''
              then acl_read pton ((snd r)\<lparr>acl_reject := acl_reject (snd r) @ [snd p]\<rparr>) ptrs
              else acl_read pton ((snd r)\<lparr>acl_accept := acl_accept (snd r) @ [snd p]\<rparr>) ptrs)"

definition netaddr_acl_from_strarray ::
  "inet_pton \<Rightarrow> bool \<Rightarrow> bool \<Rightarrow> netaddr_acl \<Rightarrow> strarray \<Rightarrow> int \<times> netaddr_acl" where
  "netaddr_acl_from_strarray pton alloc_accept alloc_reject acl value =
     (let (acl1, accept_count, reject_count) = acl_count (netaddr_acl_remove acl) (strarray_strings value) 0 0
      in if (accept_count > 0 \<and> \<not> alloc_accept) \<or> (reject_count > 0 \<and> \<not> alloc_reject)
         then (- 1, netaddr_acl_remove acl1)
         else case acl_read pton acl1 (strarray_strings value) of
                None \<Rightarrow> (- 1, netaddr_acl_remove acl1)
              | Some acl2 \<Rightarrow> (0, acl2))"

text \<open>
  \<open>netaddr_acl_copy\<close> between different objects. When an allocation fails the target keeps a count
  without its array, or an array of the source: \<open>None\<close>.
\<close>

definition netaddr_acl_copy ::
  "bool \<Rightarrow> bool \<Rightarrow> netaddr_acl \<Rightarrow> netaddr_acl \<Rightarrow> int \<times> netaddr_acl option" where
  "netaddr_acl_copy alloc_accept alloc_reject dst from_acl =
     (if (acl_accept from_acl \<noteq> [] \<and> \<not> alloc_accept) \<or> (acl_reject from_acl \<noteq> [] \<and> \<not> alloc_reject)
      then (- 1, None) else (0, Some from_acl))"

fun acl_is_in_array :: "netaddr list \<Rightarrow> netaddr \<Rightarrow> bool option" where
  "acl_is_in_array [] addr = Some False"
| "acl_is_in_array (n # ns) addr =
     (case netaddr_is_in_subnet n addr of None \<Rightarrow> None
      | Some b \<Rightarrow> if b then Some True else acl_is_in_array ns addr)"

definition netaddr_acl_check_accept :: "netaddr_acl \<Rightarrow> netaddr \<Rightarrow> bool option" where
  "netaddr_acl_check_accept acl addr =
     (let rej = acl_is_in_array (acl_reject acl) addr; acc = acl_is_in_array (acl_accept acl) addr
      in if acl_reject_first acl
         then (case rej of None \<Rightarrow> None
               | Some True \<Rightarrow> Some False
               | Some False \<Rightarrow> (case acc of None \<Rightarrow> None
                   | Some True \<Rightarrow> Some True | Some False \<Rightarrow> Some (acl_accept_default acl)))
         else (case acc of None \<Rightarrow> None
               | Some True \<Rightarrow> Some True
               | Some False \<Rightarrow> (case rej of None \<Rightarrow> None
                   | Some True \<Rightarrow> Some False | Some False \<Rightarrow> Some (acl_accept_default acl))))"

subsection \<open>Decimal and hexadecimal digits\<close>

lemma isdigit_char: "n < 10 \<Longrightarrow> isdigit (char_of (48 + n)) \<and> digit_val (char_of (48 + n)) = n"
  by (simp add: isdigit_def digit_val_def of_char_of)

lemma digits_value_append: "digits_value acc (xs @ [c]) = 10 * digits_value acc xs + digit_val c"
  by (induction xs arbitrary: acc) simp_all

lemma dec_string_props:
  "dec_string n \<noteq> [] \<and> (\<forall>c \<in> set (dec_string n). isdigit c) \<and> digits_value 0 (dec_string n) = n"
proof (induction n rule: dec_string.induct)
  case (1 n)
  show ?case
  proof (cases "n < 10")
    case True
    then show ?thesis using isdigit_char [of n] by (simp add: dec_string.simps [of n])
  next
    case False
    then show ?thesis
      using 1 isdigit_char [of "n mod 10"] by (auto simp: dec_string.simps [of n] digits_value_append)
  qed
qed

lemma length_dec_string: "n < 1000 \<Longrightarrow> length (dec_string n) \<le> 3"
proof -
  assume n: "n < 1000"
  have 1: "length (dec_string m) = 1" if "m < 10" for m
    using that by (simp add: dec_string.simps [of m])
  have 2: "length (dec_string m) \<le> 2" if "m < 100" for m
    using that 1 [of "m div 10"] by (simp add: dec_string.simps [of m])
  show ?thesis using n 2 [of "n div 10"] by (simp add: dec_string.simps [of n])
qed

lemma isdigit_facts:
  "isdigit c \<Longrightarrow> \<not> isspace c" "isdigit c \<Longrightarrow> c \<noteq> CHR ''-''" "isdigit c \<Longrightarrow> c \<noteq> CHR ''+''"
  "isdigit c \<Longrightarrow> c \<noteq> CHR ''/''"
  by (auto simp: isdigit_def isspace_def)

text \<open>Reading the digits back, up to the end of the string.\<close>

lemma strtoull_digits:
  assumes "ds \<noteq> []" "\<forall>c \<in> set ds. isdigit c" "digits_value 0 ds < 2 ^ 64"
  shows "strtoull ds = (of_nat (digits_value 0 ds), [], False)"
proof -
  obtain d es where ds: "ds = d # es" using assms(1) by (cases ds) auto
  have d: "isdigit d" using assms(2) ds by simp
  have sp: "dropWhile isspace ds = ds" using isdigit_facts(1) [OF d] by (simp add: ds)
  have sign: "hd ds \<noteq> CHR ''-''" "hd ds \<noteq> CHR ''+''" using isdigit_facts [OF d] by (simp_all add: ds)
  have tw: "takeWhile isdigit ds = ds" "dropWhile isdigit ds = []"
    using assms(2) by simp_all
  show ?thesis
    unfolding strtoull_def sp Let_def using assms(1,3) sign by (simp add: tw)
qed

lemma strtoull_dec_string: "n < 2 ^ 64 \<Longrightarrow> strtoull (dec_string n) = (of_nat n, [], False)"
  using strtoull_digits [of "dec_string n"] dec_string_props [of n] by simp

lemma read_prefix_len_dec: "p < 256 \<Longrightarrow> read_prefix_len (dec_string p) = int p"
proof -
  assume p: "p < 256"
  have "(ucast (of_nat p :: u64) :: u32) = of_nat p"
    using p by (simp add: word_unat_eq_iff unsigned_ucast_eq unat_of_nat take_bit_nat_eq_self)
  then show ?thesis
    using p by (simp add: read_prefix_len_def strtoull_dec_string signed_of_nat signed_take_bit_int_eq_self)
qed

definition is_hex :: "char \<Rightarrow> bool" where
  "is_hex c = (c \<in> set ''0123456789abcdef'')"

lemma hex_digit_props:
  assumes "unat x < 16"
  shows "is_hex (hex_digit x) \<and> read_hexdigit (hex_digit x) = int (unat x)"
proof -
  have "\<forall>n \<in> {..<16}. is_hex (''0123456789abcdef'' ! n) \<and> read_hexdigit (''0123456789abcdef'' ! n) = int n"
    by code_simp
  then show ?thesis using assms by (simp add: hex_digit_def)
qed

lemma is_hex_facts:
  "is_hex c \<Longrightarrow> addr_part c" "is_hex c \<Longrightarrow> c \<noteq> CHR '':''" "is_hex c \<Longrightarrow> c \<noteq> CHR ''-''"
  "is_hex c \<Longrightarrow> c \<noteq> CHR ''.''"
  by (auto simp: is_hex_def addr_part_def isspace_def)

lemma nibbles:
  "unat (drop_bit 4 b :: u8) < 16" "unat (b AND 15 :: u8) < 16"
  "of_int (int (unat (drop_bit 4 b)) * 16 + int (unat (b AND 15))) = b"
proof -
  show 1: "unat (drop_bit 4 b) < 16"
    using unsigned_less [of b, where ?'a = nat] by (simp add: unat_drop_bit)
  have "b AND 15 = take_bit 4 b" by (simp add: take_bit_eq_mask mask_eq_exp_minus_1)
  then have "unat (b AND 15) = take_bit 4 (unat b)" by (simp only: unsigned_take_bit_eq)
  then have u: "unat (b AND 15) = unat b mod 16" by (simp only: take_bit_eq_mod) simp
  then show "unat (b AND 15 :: u8) < 16" by simp
  have "unat (drop_bit 4 b) * 16 + unat (b AND 15) = unat b" by (simp add: u unat_drop_bit)
  then have "int (unat (drop_bit 4 b)) * 16 + int (unat (b AND 15)) = int (unat b)"
    by (metis of_nat_add of_nat_mult of_nat_numeral)
  then show "of_int (int (unat (drop_bit 4 b)) * 16 + int (unat (b AND 15))) = b"
    by (simp only:) simp
qed

subsection \<open>MAC addresses are read back\<close>

text \<open>The text of a block of octets, as \<open>_mac_to_string\<close> builds it.\<close>

fun mac_text :: "u8 list \<Rightarrow> char \<Rightarrow> string" where
  "mac_text [] sep = []"
| "mac_text [b] sep = [hex_digit (drop_bit 4 b), hex_digit (b AND 15)]"
| "mac_text (b # bs) sep = hex_digit (drop_bit 4 b) # hex_digit (b AND 15) # sep # mac_text bs sep"

lemma mac_to_string_loop_text:
  "3 * length bs \<le> n \<Longrightarrow> bs \<noteq> [] \<Longrightarrow>
    (\<lambda>r. take (snd r) (fst r)) (mac_to_string_loop bs n sep acc l) = acc @ mac_text bs sep"
proof (induction bs arbitrary: n acc l)
  case (Cons b bs)
  show ?case
  proof (cases "bs = []")
    case True
    then show ?thesis using Cons.prems by simp
  next
    case False
    then obtain c cs where bs: "bs = c # cs" by (cases bs) auto
    have n: "3 * length bs \<le> n - 3" "3 \<le> n" using Cons.prems by auto
    have t: "mac_text (b # bs) sep = [hex_digit (drop_bit 4 b), hex_digit (b AND 15), sep] @ mac_text bs sep"
      by (simp add: bs)
    show ?thesis
      using Cons.IH [OF n(1) False, of "acc @ [hex_digit (drop_bit 4 b), hex_digit (b AND 15), sep]"
          "length acc + 2"] n(2)
      unfolding t by (simp add: Let_def)
  qed
qed simp

lemma mac_to_string_text:
  assumes "3 * k \<le> n" "0 < k" "k \<le> length bs"
  shows "mac_to_string bs n k sep = Some (mac_text (take k bs) sep)"
proof -
  have "3 * length (take k bs) \<le> n" "take k bs \<noteq> []" using assms by auto
  from mac_to_string_loop_text [OF this] assms show ?thesis
    by (simp add: mac_to_string_def Let_def)
qed

lemma uint_not_minus_one [simp]: "uint x \<noteq> - 1"
  using uint_ge_0 [of x] by linarith

lemma mac_from_string_text:
  "bs \<noteq> [] \<Longrightarrow> \<not> is_hex sep \<Longrightarrow> mac_from_string (length bs) (mac_text bs sep) sep = (0, bs)"
proof (induction bs rule: induct_list012)
  case (2 b)
  then show ?case
    using hex_digit_props [OF nibbles(1)] hex_digit_props [OF nibbles(2)] nibbles(3)
    by (simp add: Let_def)
next
  case (3 b c bs)
  then show ?case
    using hex_digit_props [OF nibbles(1), of b] hex_digit_props [OF nibbles(2), of b] nibbles(3) [of b]
    by (simp add: Let_def)
qed simp

lemma mac_text_chars: "c \<in> set (mac_text bs sep) \<Longrightarrow> is_hex c \<or> c = sep"
  by (induction bs sep rule: mac_text.induct) (auto simp: hex_digit_props nibbles)

lemma length_mac_text: "length (mac_text bs sep) = 3 * length bs - 1"
  by (induction bs sep rule: mac_text.induct) auto

lemma scan_mac_text:
  "bs \<noteq> [] \<Longrightarrow> scan_addr (mac_text bs CHR '':'') l s
     = s\<lparr>sc_colon_count := sc_colon_count s + (length bs - 1)\<rparr>"
  "bs \<noteq> [] \<Longrightarrow> scan_addr (mac_text bs CHR ''-'') l s
     = s\<lparr>sc_minus_count := sc_minus_count s + (length bs - 1)\<rparr>"
  by (induction bs arbitrary: l s rule: induct_list012)
    (auto simp: is_hex_facts hex_digit_props nibbles)


text \<open>The part of the parser that is common to both MAC formats.\<close>

lemma dropWhile_none: "(\<forall>x \<in> set xs. \<not> P x) \<Longrightarrow> dropWhile P xs = xs"
  by (cases xs) auto

lemma str_trim_id: "(\<forall>c \<in> set s. \<not> isspace c) \<Longrightarrow> str_trim s = s"
  by (cases s) (simp_all add: str_trim_def dropWhile_none)

lemma not_known_prefix:
  "c \<in> {CHR '':'', CHR ''-''} \<Longrightarrow> find_known_prefix known_prefixes (a # b # c # r) = None"
  by (auto simp: known_prefixes_def strcase_eq_def tolower_def)

definition prefix_text :: "nat option \<Rightarrow> string" where
  "prefix_text p = (case p of None \<Rightarrow> [] | Some n \<Rightarrow> CHR ''/'' # dec_string n)"

lemma prefix_text_props:
  "p = None \<or> p = Some n \<Longrightarrow> n < 256 \<Longrightarrow> length (prefix_text p) \<le> 4 \<and> (\<forall>c \<in> set (prefix_text p). \<not> isspace c)
     \<and> dropWhile isspace (prefix_text p) = prefix_text p \<and> takeWhile addr_part (prefix_text p) = []
     \<and> dropWhile addr_part (prefix_text p) = prefix_text p"
  using length_dec_string [of n] dec_string_props [of n]
  by (auto simp: prefix_text_def isdigit_facts isspace_def [of "CHR ''/''"] addr_part_def)

lemma from_string_parts:
  assumes w: "w \<noteq> [] \<and> w \<noteq> ''-''" "\<forall>c \<in> set w. addr_part c" "length w \<le> 57"
      "find_known_prefix known_prefixes (w @ prefix_text p) = None"
    and p: "p = None \<or> p = Some n" "n < 256"
  shows "netaddr_from_string pton (w @ prefix_text p) =
    from_string_finish (case p of None \<Rightarrow> [] | Some n \<Rightarrow> dec_string n)
      (from_string_family pton (scan_addr w False no_scan) (na_const [] 0 0) w
        (case p of None \<Rightarrow> [] | Some n \<Rightarrow> dec_string n) (case p of None \<Rightarrow> - 1 | Some n \<Rightarrow> int n))"
proof -
  note pt = prefix_text_props [OF p]
  have len: "length (w @ prefix_text p) \<le> 61" using w(3) pt by auto
  have nsp: "\<forall>c \<in> set (w @ prefix_text p). \<not> isspace c" using w(2) pt by (auto simp: addr_part_def)
  have buf: "str_trim (take (netaddr_str_size - 1) (w @ prefix_text p)) = w @ prefix_text p"
    using len str_trim_id [OF nsp] by (simp add: netaddr_str_size_def)
  have split: "takeWhile addr_part (w @ prefix_text p) = w" "dropWhile addr_part (w @ prefix_text p) = prefix_text p"
    using w(2) pt by simp_all
  have nd: "w @ prefix_text p \<noteq> ''-''"
    using w(1) by (auto simp: prefix_text_def append_eq_Cons_conv split: option.splits)
  show ?thesis
  proof (cases p)
    case None
    show ?thesis
      unfolding netaddr_from_string_def Let_def buf split
      using nd w(4) by (simp add: None prefix_text_def)
  next
    case (Some m)
    then have m: "m = n" using p by simp
    have d: "dropWhile isspace (dec_string n) = dec_string n"
      using dec_string_props [of n] by (simp add: dropWhile_none isdigit_facts)
    have r: "dropWhile isspace (prefix_text p) = CHR ''/'' # dec_string n"
      by (simp add: Some m prefix_text_def isspace_def)
    show ?thesis
      unfolding netaddr_from_string_def Let_def buf split r
      using nd w(4) dec_string_props [of n] p(2)
      by (simp add: Some m d read_prefix_len_dec) (simp add: prefix_text_def)
  qed
qed

text \<open>
  C11. Printing and parsing of link layer addresses: the text of a MAC-48 or EUI-64 prefix, with or
  without a forced prefix length, is parsed without an error to the same prefix, independently of the
  conversions of the C library for the other families.
\<close>

theorem mac_text_roundtrip:
  assumes "netaddr_canonical a" "na_type a = AF_MAC48 \<or> na_type a = AF_EUI64"
    "na_prefix_len a \<le> netaddr_get_maxprefix a"
  shows "\<exists>s. netaddr_to_prefixstring ntop (Some a) force = Some s \<and> netaddr_from_string pton s = (0, a)"
proof -
  define k where "k = netaddr_get_binlength a"
  define sep where "sep = (if na_type a = AF_MAC48 then CHR '':'' else CHR ''-'')"
  define bs where "bs = take k (na_addr a)"
  define n where "n = unat (na_prefix_len a)"
  define p where "p = (if force \<or> na_prefix_len a < netaddr_get_maxprefix a then Some n else None)"
  define w where "w = mac_text bs sep"
  have len: "length (na_addr a) = 16" and n256: "n < 256"
    and z: "drop k (na_addr a) = zero_bytes (16 - k)"
    using assms(1) unsigned_less [of "na_prefix_len a", where ?'a = nat]
    by (auto simp: netaddr_canonical_def netaddr_ok_def k_def n_def)
  have ne: "AF_MAC48 \<noteq> AF_EUI64" "AF_MAC48 \<noteq> AF_INET" "AF_MAC48 \<noteq> AF_INET6" "AF_EUI64 \<noteq> AF_INET"
    "AF_EUI64 \<noteq> AF_INET6" by (simp_all add: af_defs)
  have cases: "(na_type a = AF_MAC48 \<and> k = 6 \<and> netaddr_get_maxprefix a = 48) \<or>
      (na_type a = AF_EUI64 \<and> k = 8 \<and> netaddr_get_maxprefix a = 64)"
    using assms(2) ne
    by (auto simp: k_def netaddr_get_binlength_def netaddr_get_maxprefix_def netaddr_get_af_maxprefix_def
        unat_drop_bit)
  then have k: "2 \<le> k" "k \<le> 8" by auto
  then have lbs: "length bs = k" using len by (simp add: bs_def)
  have pcases: "p = None \<or> p = Some n" by (simp add: p_def)
  have print: "netaddr_to_prefixstring ntop (Some a) force = Some (w @ prefix_text p)"
    using cases ne len length_dec_string [of n] n256
    by (auto simp: netaddr_to_prefixstring_def mac_to_string_text netaddr_str_size_def w_def bs_def sep_def
        p_def prefix_text_def n_def)
  have sep: "sep \<in> {CHR '':'', CHR ''-''}" "\<not> is_hex sep" "addr_part sep"
    by (auto simp: sep_def is_hex_def addr_part_def isspace_def)
  have wp: "w \<noteq> [] \<and> w \<noteq> ''-''" "\<forall>c \<in> set w. addr_part c" "length w \<le> 57"
  proof -
    have l: "length w = 3 * k - 1" by (simp add: w_def length_mac_text lbs)
    then show "w \<noteq> [] \<and> w \<noteq> ''-''" "length w \<le> 57" using k by auto
    show "\<forall>c \<in> set w. addr_part c" using mac_text_chars [of _ bs sep] sep(3) is_hex_facts(1) by (auto simp: w_def)
  qed
  obtain b c cs where bcs: "bs = b # c # cs" using lbs k(1) by (metis Suc_le_length_iff numeral_2_eq_2)
  have nk: "find_known_prefix known_prefixes (w @ prefix_text p) = None"
    using not_known_prefix [OF sep(1)] by (simp add: w_def bcs)
  have mac: "mac_from_string k w sep = (0, bs)"
    using mac_from_string_text [of bs sep] sep(2) bcs unfolding w_def lbs by blast
  have full: "bs @ zero_bytes (16 - k) = na_addr a"
    using append_take_drop_id [of k "na_addr a"] by (simp add: bs_def z)
  have mw6: "mem_write (na_addr (na_const [] 0 0)) 0 bs = na_addr a"
    using full k by (simp add: mem_write_def na_const_def lbs zero_bytes_def)
  have mw8: "mem_write ((na_addr (na_const [] 0 0))[7 := 2]) 0 bs = na_addr a" if "k = 8"
    using full that by (simp add: mem_write_def na_const_def lbs zero_bytes_def)
  have ple: "int n \<le> uint (netaddr_get_maxprefix a)"
    using assms(3) by (simp add: n_def word_le_def)
  have pn: "(of_int (int n) :: u8) = na_prefix_len a" by (simp add: n_def)
  have ds: "dec_string n \<noteq> []" using dec_string_props [of n] by simp
  have np: "p = None \<Longrightarrow> na_prefix_len a = netaddr_get_maxprefix a"
    using assms(3) by (auto simp: p_def split: if_splits)
  have parse: "netaddr_from_string pton (w @ prefix_text p) = (0, a)"
    using cases
  proof
    assume c: "na_type a = AF_MAC48 \<and> k = 6 \<and> netaddr_get_maxprefix a = 48"
    have sc: "scan_addr w False no_scan = no_scan\<lparr>sc_colon_count := 5\<rparr>"
      using scan_mac_text(1) [of bs False no_scan] bcs lbs c by (simp add: w_def sep_def no_scan_def)
    show ?thesis
      unfolding from_string_parts [OF wp nk pcases n256] sc
      using c mac mw6 ple pn ds np pcases
      by (auto simp: from_string_family_def from_string_finish_def no_scan_def sep_def)
  next
    assume c: "na_type a = AF_EUI64 \<and> k = 8 \<and> netaddr_get_maxprefix a = 64"
    have sc: "scan_addr w False no_scan = no_scan\<lparr>sc_minus_count := 7\<rparr>"
      using scan_mac_text(2) [of bs False no_scan] bcs lbs c ne by (simp add: w_def sep_def no_scan_def)
    show ?thesis
      unfolding from_string_parts [OF wp nk pcases n256] sc
      using c mac mw8 ple pn ds np pcases ne
      by (auto simp: from_string_family_def from_string_finish_def no_scan_def sep_def)
  qed
  show ?thesis using print parse by blast
qed

theorem mac_text_roundtrip_witness:
  "\<exists>s. netaddr_to_prefixstring (\<lambda>af bs. []) (Some (na_const [2, 0, 0, 0, 0xab, 7] AF_MAC48 40)) False = Some s
     \<and> netaddr_from_string (\<lambda>af s. None) s = (0, na_const [2, 0, 0, 0, 0xab, 7] AF_MAC48 40)"
proof -
  let ?a = "na_const [2, 0, 0, 0, 0xab, 7] AF_MAC48 40"
  have n: "netaddr_get_binlength ?a = 6" and m: "netaddr_get_maxprefix ?a = 48"
    by (simp_all add: netaddr_get_binlength_def netaddr_get_maxprefix_def netaddr_get_af_maxprefix_def
        na_const_def af_defs unat_drop_bit)
  have "netaddr_canonical ?a"
    using n m by (simp add: netaddr_canonical_def) (simp add: netaddr_ok_def na_const_def zero_bytes_def)
  then show ?thesis
    by (rule mac_text_roundtrip) (simp_all add: m, simp_all add: na_const_def)
qed

text \<open>A netmask text of \<open>k\<close> ones is read as the prefix length \<open>k - 1\<close>.\<close>

lemma subnetmask_off_by_one:
  "\<forall>k \<in> {1..32}. subnetmask_loop (push_bit (32 - k) 0xffffffff) 0xffffffff 31 = int k - 1"
  by code_simp

text \<open>The conversion of the prefix length to \<open>int\<close> drops the upper half of the number.\<close>

lemma read_prefix_len_truncates: "read_prefix_len ''4294967320'' = 24"
proof -
  have v: "digits_value 0 ''4294967320'' = 4294967320" by (simp add: digit_val_def)
  have "strtoull ''4294967320'' = (of_nat 4294967320, [], False)"
    using strtoull_digits [of "''4294967320''"] unfolding v by (simp add: isdigit_def)
  then show ?thesis by (simp add: read_prefix_len_def)
qed

subsection \<open>Decisions of an access control list\<close>

definition acl_ok :: "netaddr_acl \<Rightarrow> bool" where
  "acl_ok acl = (\<forall>p \<in> set (acl_accept acl) \<union> set (acl_reject acl). netaddr_ok p)"

definition in_prefix_list :: "netaddr list \<Rightarrow> netaddr \<Rightarrow> bool" where
  "in_prefix_list ps a = list_ex (\<lambda>p. na_type p = na_type a \<and>
      prefix_bits (unat (na_prefix_len p)) p = prefix_bits (unat (na_prefix_len p)) a) ps"

lemma acl_is_in_array_iff:
  "\<forall>p \<in> set ps. netaddr_ok p \<Longrightarrow> length (na_addr a) = 16 \<Longrightarrow>
    acl_is_in_array ps a = Some (in_prefix_list ps a)"
  by (induction ps)
    (auto simp: in_prefix_list_def netaddr_is_in_subnet_def binary_is_in_subnet_bits prefix_bits_def
      split: option.splits)

text \<open>
  C12. The decision of an access control list: the list that is checked first decides when one of its
  prefixes contains the address, otherwise the second one, otherwise the default; with well-formed
  prefixes the check always decides.
\<close>

theorem acl_decision:
  assumes "acl_ok acl" "netaddr_ok a"
  shows "netaddr_acl_check_accept acl a =
    Some (if acl_reject_first acl \<and> in_prefix_list (acl_reject acl) a then False
          else if in_prefix_list (acl_accept acl) a then True
          else if in_prefix_list (acl_reject acl) a then False
          else acl_accept_default acl)"
  using acl_is_in_array_iff [of "acl_accept acl" a] acl_is_in_array_iff [of "acl_reject acl" a] assms
  by (simp add: netaddr_acl_check_accept_def acl_ok_def netaddr_ok_def Let_def)

theorem acl_decision_witness:
  "netaddr_acl_check_accept
     \<lparr>acl_accept = [NETADDR_IPV4_ANY], acl_reject = [NETADDR_IPV4_LINKLOCAL], acl_reject_first = True,
      acl_accept_default = False\<rparr> (na_const [169, 254, 1, 1] AF_INET 32) = Some False"
proof -
  have "acl_ok \<lparr>acl_accept = [NETADDR_IPV4_ANY], acl_reject = [NETADDR_IPV4_LINKLOCAL],
      acl_reject_first = True, acl_accept_default = False\<rparr>"
    by (simp add: acl_ok_def netaddr_ok_def NETADDR_IPV4_ANY_def NETADDR_IPV4_LINKLOCAL_def na_const_def
        zero_bytes_def)
  moreover have "netaddr_ok (na_const [169, 254, 1, 1] AF_INET 32)"
    by (simp add: netaddr_ok_def na_const_def zero_bytes_def)
  moreover have "in_prefix_list [NETADDR_IPV4_LINKLOCAL] (na_const [169, 254, 1, 1] AF_INET 32)"
    by (simp add: in_prefix_list_def NETADDR_IPV4_LINKLOCAL_def na_const_def prefix_bits_def byte_bits_def)
  ultimately show ?thesis by (simp add: acl_decision)
qed

subsection \<open>Reading an access control list\<close>

lemma keywords_frame:
  "netaddr_acl_handle_keywords acl cmd = (r, acl') \<Longrightarrow>
    acl_accept acl' = acl_accept acl \<and> acl_reject acl' = acl_reject acl \<and> (r \<noteq> 0 \<longrightarrow> acl' = acl)"
  by (auto simp: netaddr_acl_handle_keywords_def split: if_splits)

lemma keywords_code_indep:
  "fst (netaddr_acl_handle_keywords acl cmd) = fst (netaddr_acl_handle_keywords acl' cmd)"
  by (simp add: netaddr_acl_handle_keywords_def)

text \<open>The entries of the configuration that are not keywords, split by their sign.\<close>

definition acl_is_entry :: "string \<Rightarrow> bool" where
  "acl_is_entry s = (fst (netaddr_acl_handle_keywords netaddr_acl_add s) \<noteq> 0)"

definition acl_is_reject :: "string \<Rightarrow> bool" where
  "acl_is_reject s = (s \<noteq> [] \<and> hd s = CHR ''-'')"

definition acl_entry_addr :: "string \<Rightarrow> string" where
  "acl_entry_addr s = (if s \<noteq> [] \<and> (hd s = CHR ''-'' \<or> hd s = CHR ''+'') then tl s else s)"

lemma acl_is_entry_iff: "fst (netaddr_acl_handle_keywords acl s) = 0 \<longleftrightarrow> \<not> acl_is_entry s"
  using keywords_code_indep [of acl s netaddr_acl_add] by (simp add: acl_is_entry_def)

lemma acl_count_result:
  "acl_count acl ss m n = (acl1, m', n') \<Longrightarrow>
    m' = m + length (filter (\<lambda>s. acl_is_entry s \<and> \<not> acl_is_reject s) ss) \<and>
    n' = n + length (filter (\<lambda>s. acl_is_entry s \<and> acl_is_reject s) ss) \<and>
    acl_accept acl1 = acl_accept acl \<and> acl_reject acl1 = acl_reject acl"
proof (induction ss arbitrary: acl m n)
  case (Cons s ss)
  obtain r acl' where kw: "netaddr_acl_handle_keywords acl s = (r, acl')" by fastforce
  then have "r = 0 \<longleftrightarrow> \<not> acl_is_entry s" using acl_is_entry_iff [of acl s] by simp
  then show ?case
    using Cons keywords_frame [OF kw] by (fastforce simp: kw acl_is_reject_def Let_def split: if_splits)
qed simp

lemma acl_read_result:
  "acl_read pton acl ss = Some acl2 \<Longrightarrow>
    acl_accept acl2 = acl_accept acl @ map (\<lambda>s. snd (netaddr_from_string pton (acl_entry_addr s)))
       (filter (\<lambda>s. acl_is_entry s \<and> \<not> acl_is_reject s) ss) \<and>
    acl_reject acl2 = acl_reject acl @ map (\<lambda>s. snd (netaddr_from_string pton (acl_entry_addr s)))
       (filter (\<lambda>s. acl_is_entry s \<and> acl_is_reject s) ss) \<and>
    (\<forall>s \<in> set ss. acl_is_entry s \<longrightarrow> fst (netaddr_from_string pton (acl_entry_addr s)) = 0)"
proof (induction ss arbitrary: acl)
  case (Cons s ss)
  obtain r acl' where kw: "netaddr_acl_handle_keywords acl s = (r, acl')" by fastforce
  then have e: "r = 0 \<longleftrightarrow> \<not> acl_is_entry s" using acl_is_entry_iff [of acl s] by simp
  show ?case
  proof (cases "r = 0")
    case True
    then show ?thesis using Cons keywords_frame [OF kw] e by (auto simp: kw)
  next
    case False
    then have acl': "acl' = acl" using keywords_frame [OF kw] by simp
    have ok: "fst (netaddr_from_string pton (acl_entry_addr s)) = 0"
      using Cons.prems False by (auto simp: kw Let_def acl_entry_addr_def split: if_splits)
    show ?thesis
    proof (cases "acl_is_reject s")
      case rej: True
      then have "acl_read pton (acl\<lparr>acl_reject := acl_reject acl @ [snd (netaddr_from_string pton (acl_entry_addr s))]\<rparr>) ss
          = Some acl2"
        using Cons.prems False ok by (simp add: kw acl' Let_def acl_entry_addr_def acl_is_reject_def)
      from Cons.IH [OF this] show ?thesis using False e ok rej by simp
    next
      case acc: False
      then have "acl_read pton (acl\<lparr>acl_accept := acl_accept acl @ [snd (netaddr_from_string pton (acl_entry_addr s))]\<rparr>) ss
          = Some acl2"
        using Cons.prems False ok
        by (auto simp add: kw acl' Let_def acl_entry_addr_def acl_is_reject_def split: if_splits)
      from Cons.IH [OF this] show ?thesis using False e ok acc by simp
    qed
  qed
qed simp

text \<open>
  Reading an access control list: on success the accept and the reject list are the parsed
  entries without and with a minus sign in the order of the configuration, every entry parsed, and
  each array holds exactly as many entries as were counted for its allocation.
\<close>

theorem acl_from_strarray_result:
  assumes c: "c_strings ss" and r: "netaddr_acl_from_strarray pton True True acl (strarray_of ss) = (0, acl')"
  shows "acl_accept acl' = map (\<lambda>s. snd (netaddr_from_string pton (acl_entry_addr s)))
       (filter (\<lambda>s. acl_is_entry s \<and> \<not> acl_is_reject s) ss)
    \<and> acl_reject acl' = map (\<lambda>s. snd (netaddr_from_string pton (acl_entry_addr s)))
       (filter (\<lambda>s. acl_is_entry s \<and> acl_is_reject s) ss)
    \<and> (\<forall>s \<in> set ss. acl_is_entry s \<longrightarrow> fst (netaddr_from_string pton (acl_entry_addr s)) = 0)
    \<and> (\<exists>acl1. acl_count netaddr_acl_add ss 0 0 = (acl1, length (acl_accept acl'), length (acl_reject acl')))"
proof -
  obtain acl1 m n where ct: "acl_count netaddr_acl_add ss 0 0 = (acl1, m, n)" by (metis prod_cases3)
  then have rd: "acl_read pton acl1 ss = Some acl'"
    using r by (simp add: netaddr_acl_from_strarray_def strarray_strings_of [OF c] netaddr_acl_remove_def
        split: option.splits)
  show ?thesis
    using acl_count_result [OF ct] acl_read_result [OF rd] ct by (simp add: netaddr_acl_add_def)
qed

theorem acl_from_strarray_result_witness:
  "\<exists>acl'. netaddr_acl_from_strarray (\<lambda>af s. None) True True netaddr_acl_add
      (strarray_of [''-linklocal4'', ''any6'', ''first_reject'']) = (0, acl') \<and> length (acl_reject acl') = 1"
proof -
  let ?ss = "[''-linklocal4'', ''any6'', ''first_reject'']"
  have c: "c_strings ?ss" by (simp add: c_strings_def NUL_def)
  let ?r = "\<lparr>acl_accept = [NETADDR_IPV6_ANY], acl_reject = [NETADDR_IPV4_LINKLOCAL], acl_reject_first = True,
            acl_accept_default = False\<rparr>"
  have 1: "acl_count netaddr_acl_add ?ss 0 0 = (netaddr_acl_add\<lparr>acl_reject_first := True\<rparr>, 1, 1)"
    by code_simp
  have 2: "acl_read (\<lambda>af s. None) (netaddr_acl_add\<lparr>acl_reject_first := True\<rparr>) ?ss = Some ?r"
    by code_simp
  have a: "netaddr_acl_from_strarray (\<lambda>af s. None) True True netaddr_acl_add (strarray_of ?ss) = (0, ?r)"
    unfolding netaddr_acl_from_strarray_def strarray_strings_of [OF c] netaddr_acl_remove_def Let_def 1 split 2
    by simp
  have "length (acl_reject ?r) = 1" by simp
  then show ?thesis using acl_from_strarray_result [OF c a] a by blast
qed

end
