(* ===== verification/Avl.thy ===== *)
theory Avl
  imports Netaddr_Text
begin

text \<open>
  The AVL tree with its linked list (\<open>src-api/common/avl.c\<close>, \<open>avl.h\<close>, \<open>avl_comp.c\<close>), which every other
  component uses as index. A node is a pair of its key and its identity. The parent pointers of
  the code are the path of a zipper: the node a function works on is the subtree in focus, and the
  frames from it to the root say on which side of its parent each ancestor was left. The linked list
  that threads all nodes is a list of nodes with their \<open>follower\<close> flag; followers, nodes with the key
  of the node before them, are in the list only.
\<close>

subsection \<open>Comparators\<close>

definition avl_comp_uint32 :: "u32 \<Rightarrow> u32 \<Rightarrow> int" where
  "avl_comp_uint32 u1 u2 = (if u1 > u2 then 1 else if u2 > u1 then - 1 else 0)"

definition avl_comp_int32 :: "u32 \<Rightarrow> u32 \<Rightarrow> int" where
  "avl_comp_int32 i1 i2 = (if i2 <s i1 then 1 else if i1 <s i2 then - 1 else 0)"

definition avl_comp_uint16 :: "u16 \<Rightarrow> u16 \<Rightarrow> int" where
  "avl_comp_uint16 u1 u2 = (if u1 > u2 then 1 else if u2 > u1 then - 1 else 0)"

definition avl_comp_uint8 :: "u8 \<Rightarrow> u8 \<Rightarrow> int" where
  "avl_comp_uint8 u1 u2 = (if u1 > u2 then 1 else if u2 > u1 then - 1 else 0)"

definition avl_comp_netaddr :: "netaddr \<Rightarrow> netaddr \<Rightarrow> int" where
  "avl_comp_netaddr n1 n2 = memcmp (netaddr_bytes n1) (netaddr_bytes n2)"

definition avl_comp_netaddr_socket :: "netaddr_socket \<Rightarrow> netaddr_socket \<Rightarrow> int" where
  "avl_comp_netaddr_socket s1 s2 = memcmp (netaddr_socket_bytes s1) (netaddr_socket_bytes s2)"

text \<open>\<open>strcasecmp\<close> compares the lower case characters as unsigned bytes.\<close>

definition avl_comp_strcasecmp :: "string \<Rightarrow> string \<Rightarrow> int" where
  "avl_comp_strcasecmp t1 t2 =
     memcmp (map (\<lambda>c. of_char (tolower c)) t1) (map (\<lambda>c. of_char (tolower c)) t2)"

subsection \<open>Trees and their paths\<close>

datatype 'a avl = Leaf | Node "'a avl" 'a int "'a avl"

datatype 'a frame = LeftOf 'a int "'a avl" | RightOf "'a avl" 'a int

fun plug :: "'a avl \<Rightarrow> 'a frame list \<Rightarrow> 'a avl" where
  "plug t [] = t"
| "plug t (LeftOf a b r # p) = plug (Node t a b r) p"
| "plug t (RightOf l a b # p) = plug (Node l a b t) p"

fun balance :: "'a avl \<Rightarrow> int" where
  "balance Leaf = 0"
| "balance (Node l a b r) = b"

subsection \<open>Rotations\<close>

text \<open>
  The rotations at the root of a subtree; the pointer to it in the parent is the hole of the path.
  The child that moves up exists at every call (a null pointer would be dereferenced).
\<close>

fun rotate_right :: "'a avl \<Rightarrow> 'a avl" where
  "rotate_right (Node (Node ll la lb lr) a b r) =
     (let nb = b + 1; nb = (if lb < 0 then nb - lb else nb);
          mb = lb + 1; mb = (if nb > 0 then mb + nb else mb)
      in Node ll la mb (Node lr a nb r))"
| "rotate_right t = t"

fun rotate_left :: "'a avl \<Rightarrow> 'a avl" where
  "rotate_left (Node l a b (Node rl ra rb rr)) =
     (let nb = b - 1; nb = (if rb > 0 then nb - rb else nb);
          mb = rb - 1; mb = (if nb < 0 then mb + nb else mb)
      in Node (Node l a nb rl) ra mb rr)"
| "rotate_left t = t"

subsection \<open>Rebalancing\<close>

fun post_insert :: "'a avl \<Rightarrow> 'a frame list \<Rightarrow> 'a avl" where
  "post_insert node [] = node"
| "post_insert node (LeftOf a b r # p) =
     (let b' = b - 1
      in if b' = 0 then plug (Node node a b' r) p
         else if b' = - 1 then post_insert (Node node a b' r) p
         else if balance node = - 1 then plug (rotate_right (Node node a b' r)) p
         else plug (rotate_right (Node (rotate_left node) a b' r)) p)"
| "post_insert node (RightOf l a b # p) =
     (let b' = b + 1
      in if b' = 0 then plug (Node l a b' node) p
         else if b' = 1 then post_insert (Node l a b' node) p
         else if balance node = 1 then plug (rotate_left (Node l a b' node)) p
         else plug (rotate_left (Node l a b' (rotate_right node))) p)"

fun post_remove :: "'a avl \<Rightarrow> 'a frame list \<Rightarrow> 'a avl" where
  "post_remove node [] = node"
| "post_remove node (LeftOf a b r # p) =
     (let b' = b + 1
      in if b' = 0 then post_remove (Node node a b' r) p
         else if b' = 1 then plug (Node node a b' r) p
         else if balance r = 0 then plug (rotate_left (Node node a b' r)) p
         else if balance r = 1 then post_remove (rotate_left (Node node a b' r)) p
         else post_remove (rotate_left (Node node a b' (rotate_right r))) p)"
| "post_remove node (RightOf l a b # p) =
     (let b' = b - 1
      in if b' = 0 then post_remove (Node l a b' node) p
         else if b' = - 1 then plug (Node l a b' node) p
         else if balance l = 0 then plug (rotate_right (Node l a b' node)) p
         else if balance l = - 1 then post_remove (rotate_right (Node l a b' node)) p
         else post_remove (rotate_right (Node (rotate_left l) a b' node)) p)"

text \<open>The part of \<open>_avl_remove_worker\<close> for a node without children; the path leads to the node.\<close>

fun remove_leaf :: "'a frame list \<Rightarrow> 'a avl" where
  "remove_leaf [] = Leaf"
| "remove_leaf (LeftOf a b r # p) =
     (let b' = b + 1
      in if b' = 1 then plug (Node Leaf a b' r) p
         else if b' = 0 then post_remove (Node Leaf a b' r) p
         else if balance r = 0 then plug (rotate_left (Node Leaf a b' r)) p
         else if balance r = 1 then post_remove (rotate_left (Node Leaf a b' r)) p
         else post_remove (rotate_left (Node Leaf a b' (rotate_right r))) p)"
| "remove_leaf (RightOf l a b # p) =
     (let b' = b - 1
      in if b' = - 1 then plug (Node l a b' Leaf) p
         else if b' = 0 then post_remove (Node l a b' Leaf) p
         else if balance l = 0 then plug (rotate_right (Node l a b' Leaf)) p
         else if balance l = - 1 then post_remove (rotate_right (Node l a b' Leaf)) p
         else post_remove (rotate_right (Node (rotate_left l) a b' Leaf)) p)"

text \<open>\<open>_avl_local_min\<close>: the left-most node of a subtree, with the path to it.\<close>

fun local_min :: "'a avl \<Rightarrow> 'a frame list \<Rightarrow> 'a avl \<times> 'a frame list" where
  "local_min (Node (Node ll la lb lr) a b r) p = local_min (Node ll la lb lr) (LeftOf a b r # p)"
| "local_min t p = (t, p)"

text \<open>
  A node takes over the place of another one: its balance, its children and the pointer of the
  parent. Nodes are told apart by their identity, the second component.
\<close>

fun avl_replace :: "'e \<Rightarrow> 'k \<times> 'e \<Rightarrow> ('k \<times> 'e) avl \<Rightarrow> ('k \<times> 'e) avl" where
  "avl_replace e new Leaf = Leaf"
| "avl_replace e new (Node l a b r) =
     Node (avl_replace e new l) (if snd a = e then new else a) b (avl_replace e new r)"

text \<open>
  \<open>_avl_remove_worker\<close> for the node in focus. The minimum of the right subtree has no left child, so
  the recursive call is one of the first two cases.
\<close>

fun remove_simple :: "'a avl \<Rightarrow> 'a frame list \<Rightarrow> 'a avl" where
  "remove_simple (Node Leaf a b Leaf) p = remove_leaf p"
| "remove_simple (Node Leaf a b r) p = post_remove r p"
| "remove_simple (Node l a b Leaf) p = post_remove l p"
| "remove_simple t p = plug t p"

fun remove_worker :: "('k \<times> 'e) avl \<Rightarrow> ('k \<times> 'e) frame list \<Rightarrow> ('k \<times> 'e) avl" where
  "remove_worker (Node (Node ll la lb lr) a b (Node rl ra rb rr)) p =
     (case local_min (Node rl ra rb rr) (RightOf (Node ll la lb lr) a b # p) of
        (Node ml m mb mr, q) \<Rightarrow> avl_replace (snd a) m (remove_simple (Node ml m mb mr) q)
      | (Leaf, q) \<Rightarrow> Leaf)"
| "remove_worker t p = remove_simple t p"

subsection \<open>The tree object\<close>

type_synonym ('k, 'e) entry = "'k \<times> 'e \<times> bool"

definition en_key :: "('k, 'e) entry \<Rightarrow> 'k" where "en_key x = fst x"
definition en_id :: "('k, 'e) entry \<Rightarrow> 'e" where "en_id x = fst (snd x)"
definition en_follower :: "('k, 'e) entry \<Rightarrow> bool" where "en_follower x = snd (snd x)"

lemma en_simps [simp]: "en_key (k, e, f) = k" "en_id (k, e, f) = e" "en_follower (k, e, f) = f"
  by (simp_all add: en_key_def en_id_def en_follower_def)

record ('k, 'e) avl_tree =
  tr_list :: "('k, 'e) entry list"
  tr_root :: "('k \<times> 'e) avl"
  tr_count :: nat
  tr_allow_dups :: bool
  tr_comp :: "'k \<Rightarrow> 'k \<Rightarrow> int"

definition avl_init :: "('k \<Rightarrow> 'k \<Rightarrow> int) \<Rightarrow> bool \<Rightarrow> ('k, 'e) avl_tree" where
  "avl_init cmp allow_dups =
     \<lparr>tr_list = [], tr_root = Leaf, tr_count = 0, tr_allow_dups = allow_dups, tr_comp = cmp\<rparr>"

definition avl_is_empty :: "('k, 'e) avl_tree \<Rightarrow> bool" where
  "avl_is_empty tree = (tr_count tree = 0)"

subsection \<open>Lookup\<close>

text \<open>\<open>_avl_find_rec\<close>: the node where the search ends, with its path, and the last comparison.\<close>

fun find_rec :: "('k \<Rightarrow> 'k \<Rightarrow> int) \<Rightarrow> 'k \<Rightarrow> ('k \<times> 'e) avl \<Rightarrow> ('k \<times> 'e) frame list
    \<Rightarrow> ('k \<times> 'e) avl \<times> ('k \<times> 'e) frame list \<times> int" where
  "find_rec cmp key Leaf p = (Leaf, p, 0)"
| "find_rec cmp key (Node l a b r) p =
     (let diff = cmp key (fst a)
      in if diff < 0
         then (if l \<noteq> Leaf then find_rec cmp key l (LeftOf a b r # p) else (Node l a b r, p, diff))
         else if diff > 0
         then (if r \<noteq> Leaf then find_rec cmp key r (RightOf l a b # p) else (Node l a b r, p, diff))
         else (Node l a b r, p, diff))"

fun node_of :: "'a avl \<Rightarrow> 'a option" where
  "node_of Leaf = None"
| "node_of (Node l a b r) = Some a"

definition avl_find :: "('k, 'e) avl_tree \<Rightarrow> 'k \<Rightarrow> 'e option" where
  "avl_find tree key =
     (if tr_root tree = Leaf then None
      else let (node, p, diff) = find_rec (tr_comp tree) key (tr_root tree) []
           in if diff = 0 then map_option snd (node_of node) else None)"

text \<open>A position in the linked list: the nodes before it in reverse order, the node and those behind.\<close>

fun list_focus :: "'e \<Rightarrow> ('k, 'e) entry list \<Rightarrow> ('k, 'e) entry list
    \<Rightarrow> (('k, 'e) entry list \<times> ('k, 'e) entry \<times> ('k, 'e) entry list) option" where
  "list_focus e before [] = None"
| "list_focus e before (x # xs) = (if en_id x = e then Some (before, x, xs) else list_focus e (x # before) xs)"

fun go_left_less :: "('k \<Rightarrow> 'k \<Rightarrow> int) \<Rightarrow> 'k \<Rightarrow> ('k, 'e) entry list \<Rightarrow> ('k, 'e) entry \<Rightarrow> ('k, 'e) entry list
    \<Rightarrow> int \<Rightarrow> (('k, 'e) entry \<times> ('k, 'e) entry list) option" where
  "go_left_less cmp key before node after diff =
     (if diff < 0
      then (case before of [] \<Rightarrow> None
            | p # ps \<Rightarrow> go_left_less cmp key ps p (node # after) (cmp key (en_key p)))
      else Some (node, after))"

declare go_left_less.simps [simp del]

fun go_right_lessequal :: "('k \<Rightarrow> 'k \<Rightarrow> int) \<Rightarrow> 'k \<Rightarrow> ('k, 'e) entry \<Rightarrow> ('k, 'e) entry list \<Rightarrow> ('k, 'e) entry" where
  "go_right_lessequal cmp key node [] = node"
| "go_right_lessequal cmp key node (n # ns) =
     (if cmp key (en_key n) \<ge> 0 then go_right_lessequal cmp key n ns else node)"

definition avl_find_lessequal :: "('k, 'e) avl_tree \<Rightarrow> 'k \<Rightarrow> 'e option" where
  "avl_find_lessequal tree key =
     (case find_rec (tr_comp tree) key (tr_root tree) [] of
        (Leaf, p, diff) \<Rightarrow> None
      | (Node l a b r, p, diff) \<Rightarrow>
          (case list_focus (snd a) [] (tr_list tree) of None \<Rightarrow> None
           | Some (before, node, after) \<Rightarrow>
               (case go_left_less (tr_comp tree) key before node after diff of None \<Rightarrow> None
                | Some (n, ns) \<Rightarrow> Some (en_id (go_right_lessequal (tr_comp tree) key n ns)))))"

fun go_right_greater :: "('k \<Rightarrow> 'k \<Rightarrow> int) \<Rightarrow> 'k \<Rightarrow> ('k, 'e) entry list \<Rightarrow> ('k, 'e) entry \<Rightarrow> ('k, 'e) entry list
    \<Rightarrow> int \<Rightarrow> (('k, 'e) entry list \<times> ('k, 'e) entry) option" where
  "go_right_greater cmp key before node after diff =
     (if diff > 0
      then (case after of [] \<Rightarrow> None
            | n # ns \<Rightarrow> go_right_greater cmp key (node # before) n ns (cmp key (en_key n)))
      else Some (before, node))"

declare go_right_greater.simps [simp del]

fun go_left_greaterequal :: "('k \<Rightarrow> 'k \<Rightarrow> int) \<Rightarrow> 'k \<Rightarrow> ('k, 'e) entry list \<Rightarrow> ('k, 'e) entry \<Rightarrow> ('k, 'e) entry" where
  "go_left_greaterequal cmp key [] node = node"
| "go_left_greaterequal cmp key (p # ps) node =
     (if cmp key (en_key p) \<le> 0 then go_left_greaterequal cmp key ps p else node)"

definition avl_find_greaterequal :: "('k, 'e) avl_tree \<Rightarrow> 'k \<Rightarrow> 'e option" where
  "avl_find_greaterequal tree key =
     (case find_rec (tr_comp tree) key (tr_root tree) [] of
        (Leaf, p, diff) \<Rightarrow> None
      | (Node l a b r, p, diff) \<Rightarrow>
          (case list_focus (snd a) [] (tr_list tree) of None \<Rightarrow> None
           | Some (before, node, after) \<Rightarrow>
               (case go_right_greater (tr_comp tree) key before node after diff of None \<Rightarrow> None
                | Some (ps, n) \<Rightarrow> Some (en_id (go_left_greaterequal (tr_comp tree) key ps n)))))"

subsection \<open>Insertion and removal\<close>

fun list_insert_before :: "'e \<Rightarrow> ('k, 'e) entry \<Rightarrow> ('k, 'e) entry list \<Rightarrow> ('k, 'e) entry list" where
  "list_insert_before pos new [] = []"
| "list_insert_before pos new (x # xs) =
     (if en_id x = pos then new # x # xs else x # list_insert_before pos new xs)"

fun list_insert_after :: "'e \<Rightarrow> ('k, 'e) entry \<Rightarrow> ('k, 'e) entry list \<Rightarrow> ('k, 'e) entry list" where
  "list_insert_after pos new [] = []"
| "list_insert_after pos new (x # xs) =
     (if en_id x = pos then x # new # xs else x # list_insert_after pos new xs)"

definition avl_insert_before :: "('k, 'e) avl_tree \<Rightarrow> 'e \<Rightarrow> ('k, 'e) entry \<Rightarrow> ('k, 'e) avl_tree" where
  "avl_insert_before tree pos new =
     tree\<lparr>tr_list := list_insert_before pos new (tr_list tree), tr_count := tr_count tree + 1\<rparr>"

definition avl_insert_after :: "('k, 'e) avl_tree \<Rightarrow> 'e \<Rightarrow> ('k, 'e) entry \<Rightarrow> ('k, 'e) avl_tree" where
  "avl_insert_after tree pos new =
     tree\<lparr>tr_list := list_insert_after pos new (tr_list tree), tr_count := tr_count tree + 1\<rparr>"

text \<open>\<open>_avl_find_last\<close>: the last of the followers of a node.\<close>

fun last_follower :: "'e \<Rightarrow> ('k, 'e) entry list \<Rightarrow> 'e" where
  "last_follower e [] = e"
| "last_follower e (x # xs) = (if en_follower x then last_follower (en_id x) xs else e)"

definition avl_find_last :: "('k, 'e) avl_tree \<Rightarrow> 'e \<Rightarrow> 'e" where
  "avl_find_last tree e =
     (case list_focus e [] (tr_list tree) of None \<Rightarrow> e | Some (before, node, after) \<Rightarrow> last_follower e after)"

definition avl_insert :: "('k, 'e) avl_tree \<Rightarrow> 'k \<Rightarrow> 'e \<Rightarrow> int \<times> ('k, 'e) avl_tree" where
  "avl_insert tree key new =
     (if tr_root tree = Leaf
      then (0, tree\<lparr>tr_list := (key, new, False) # tr_list tree, tr_root := Node Leaf (key, new) 0 Leaf,
                    tr_count := 1\<rparr>)
      else
        case find_rec (tr_comp tree) key (tr_root tree) [] of
          (Leaf, p, d) \<Rightarrow> (0, tree)
        | (Node l a b r, p, d) \<Rightarrow>
            let diff = tr_comp tree key (fst a); leaf = Node Leaf (key, new) 0 Leaf
            in if diff = 0
               then (if \<not> tr_allow_dups tree then (- 1, tree)
                     else (0, avl_insert_after tree (snd a) (key, new, True)))
               else if b = 1
               then (0, (avl_insert_before tree (snd a) (key, new, False))
                          \<lparr>tr_root := plug (Node leaf a 0 r) p\<rparr>)
               else if b = - 1
               then (0, (avl_insert_after tree (avl_find_last tree (snd a)) (key, new, False))
                          \<lparr>tr_root := plug (Node l a 0 leaf) p\<rparr>)
               else if diff < 0
               then (0, (avl_insert_before tree (snd a) (key, new, False))
                          \<lparr>tr_root := post_insert (Node leaf a (- 1) r) p\<rparr>)
               else (0, (avl_insert_after tree (avl_find_last tree (snd a)) (key, new, False))
                          \<lparr>tr_root := post_insert (Node l a 1 leaf) p\<rparr>))"

text \<open>The place of a node in the tree, which the code reaches through the pointer to the node.\<close>

fun avl_locate :: "'e \<Rightarrow> ('k \<times> 'e) avl \<Rightarrow> ('k \<times> 'e) frame list
    \<Rightarrow> (('k \<times> 'e) avl \<times> ('k \<times> 'e) frame list) option" where
  "avl_locate e Leaf p = None"
| "avl_locate e (Node l a b r) p =
     (if snd a = e then Some (Node l a b r, p)
      else case avl_locate e l (LeftOf a b r # p) of Some x \<Rightarrow> Some x
           | None \<Rightarrow> avl_locate e r (RightOf l a b # p))"

fun list_remove :: "'e \<Rightarrow> ('k, 'e) entry list \<Rightarrow> ('k, 'e) entry list" where
  "list_remove e [] = []"
| "list_remove e (x # xs) = (if en_id x = e then xs else x # list_remove e xs)"

fun list_unfollow :: "'e \<Rightarrow> ('k, 'e) entry list \<Rightarrow> ('k, 'e) entry list" where
  "list_unfollow e [] = []"
| "list_unfollow e (x # xs) =
     (if en_id x = e then (en_key x, e, False) # xs else x # list_unfollow e xs)"

definition avl_remove :: "('k, 'e) avl_tree \<Rightarrow> 'e \<Rightarrow> ('k, 'e) avl_tree" where
  "avl_remove tree e =
     (case list_focus e [] (tr_list tree) of None \<Rightarrow> tree
      | Some (before, node, after) \<Rightarrow>
          let t = (if en_follower node then tree
                   else if tr_allow_dups tree \<and> after \<noteq> [] \<and> en_follower (hd after)
                   then tree\<lparr>tr_list := list_unfollow (en_id (hd after)) (tr_list tree),
                             tr_root := avl_replace e (en_key (hd after), en_id (hd after)) (tr_root tree)\<rparr>
                   else (case avl_locate e (tr_root tree) [] of None \<Rightarrow> tree
                         | Some (n, p) \<Rightarrow> tree\<lparr>tr_root := remove_worker n p\<rparr>))
          in t\<lparr>tr_list := list_remove e (tr_list t), tr_count := tr_count t - 1\<rparr>)"

text \<open>The nodes in the order of the list, as the iteration macros visit them.\<close>

definition avl_entries :: "('k, 'e) avl_tree \<Rightarrow> ('k \<times> 'e) list" where
  "avl_entries tree = map (\<lambda>x. (en_key x, en_id x)) (tr_list tree)"

definition avl_elements :: "('k, 'e) avl_tree \<Rightarrow> 'e list" where
  "avl_elements tree = map en_id (tr_list tree)"

subsection \<open>Comparators are lawful\<close>

interpretation avl_comp_uint32: strict_comparator avl_comp_uint32
  by unfold_locales (auto simp: avl_comp_uint32_def split: if_splits)

lemma sint_eqD: "sint a = sint b \<Longrightarrow> a = b" for a b :: "'a::len word"
  by (rule signed_word_eqI)

interpretation avl_comp_int32: strict_comparator avl_comp_int32
  by unfold_locales (auto simp: avl_comp_int32_def word_sless_alt dest: sint_eqD split: if_splits)

interpretation avl_comp_uint16: strict_comparator avl_comp_uint16
  by unfold_locales (auto simp: avl_comp_uint16_def split: if_splits)

interpretation avl_comp_uint8: strict_comparator avl_comp_uint8
  by unfold_locales (auto simp: avl_comp_uint8_def split: if_splits)

interpretation avl_comp_netaddr: strict_comparator avl_comp_netaddr
  by unfold_locales
    (auto simp: avl_comp_netaddr_def memcmp.cmp_neg intro: memcmp.cmp_trans)

interpretation avl_comp_strcasecmp: comparator avl_comp_strcasecmp
  by unfold_locales
    (auto simp: avl_comp_strcasecmp_def memcmp.cmp_neg intro: memcmp.cmp_trans)

subsection \<open>Balance\<close>

fun avl_height :: "'a avl \<Rightarrow> int" where
  "avl_height Leaf = 0"
| "avl_height (Node l a b r) = 1 + max (avl_height l) (avl_height r)"

fun avl_inv :: "'a avl \<Rightarrow> bool" where
  "avl_inv Leaf = True"
| "avl_inv (Node l a b r) =
     (avl_inv l \<and> avl_inv r \<and> b = avl_height r - avl_height l \<and> - 1 \<le> b \<and> b \<le> 1)"

text \<open>The path fits a subtree of height \<open>h\<close> in its hole.\<close>

fun path_inv :: "int \<Rightarrow> 'a frame list \<Rightarrow> bool" where
  "path_inv h [] = True"
| "path_inv h (LeftOf a b r # p) =
     (avl_inv r \<and> b = avl_height r - h \<and> - 1 \<le> b \<and> b \<le> 1 \<and> path_inv (1 + max h (avl_height r)) p)"
| "path_inv h (RightOf l a b # p) =
     (avl_inv l \<and> b = h - avl_height l \<and> - 1 \<le> b \<and> b \<le> 1 \<and> path_inv (1 + max (avl_height l) h) p)"

lemma avl_height_nonneg [simp]: "0 \<le> avl_height t"
  by (induction t) auto

lemma plug_inv: "avl_inv (plug t p) \<longleftrightarrow> avl_inv t \<and> path_inv (avl_height t) p"
  by (induction t p rule: plug.induct) auto

lemma balance_inv: "avl_inv (Node l a b r) \<Longrightarrow> b = avl_height r - avl_height l"
  by simp

text \<open>
  The rotations at a node whose left side is too high by two, after the left child has been
  straightened where it leans to the right, and the mirror images.
\<close>

definition left_heavy :: "'a avl \<Rightarrow> bool" where
  "left_heavy t = (case t of Leaf \<Rightarrow> False
     | Node l a b r \<Rightarrow> avl_inv l \<and> avl_inv r \<and> b = - 2 \<and> avl_height r - avl_height l = - 2)"

definition right_heavy :: "'a avl \<Rightarrow> bool" where
  "right_heavy t = (case t of Leaf \<Rightarrow> False
     | Node l a b r \<Rightarrow> avl_inv l \<and> avl_inv r \<and> b = 2 \<and> avl_height r - avl_height l = 2)"

lemma rotate_right_single:
  assumes "left_heavy (Node l a b r)" "balance l \<le> 0"
  shows "avl_inv (rotate_right (Node l a b r)) \<and>
    avl_height (rotate_right (Node l a b r)) = avl_height l + (if balance l = 0 then 1 else 0)"
proof -
  obtain ll la lb lr where l: "l = Node ll la lb lr"
    using assms avl_height_nonneg [of r] by (cases l) (auto simp: left_heavy_def)
  have "lb = 0 \<or> lb = - 1" using assms unfolding left_heavy_def l by auto
  then show ?thesis
    using assms unfolding left_heavy_def l by (auto simp: Let_def max_def)
qed

lemma rotate_left_single:
  assumes "right_heavy (Node l a b r)" "balance r \<ge> 0"
  shows "avl_inv (rotate_left (Node l a b r)) \<and>
    avl_height (rotate_left (Node l a b r)) = avl_height r + (if balance r = 0 then 1 else 0)"
proof -
  obtain rl ra rb rr where r: "r = Node rl ra rb rr"
    using assms avl_height_nonneg [of l] by (cases r) (auto simp: right_heavy_def)
  have "rb = 0 \<or> rb = 1" using assms unfolding right_heavy_def r by auto
  then show ?thesis
    using assms unfolding right_heavy_def r by (auto simp: Let_def max_def)
qed

lemma rotate_right_double:
  assumes "left_heavy (Node l a b r)" "balance l = 1"
  shows "avl_inv (rotate_right (Node (rotate_left l) a b r)) \<and>
    avl_height (rotate_right (Node (rotate_left l) a b r)) = avl_height l"
proof -
  obtain ll la lb lr where l: "l = Node ll la lb lr"
    using assms avl_height_nonneg [of r] by (cases l) (auto simp: left_heavy_def)
  obtain ml ma mb mr where lr: "lr = Node ml ma mb mr"
    using assms avl_height_nonneg [of ll] unfolding left_heavy_def l by (cases lr) auto
  have "mb = 0 \<or> mb = 1 \<or> mb = - 1" using assms unfolding left_heavy_def l lr by auto
  then show ?thesis
    using assms unfolding left_heavy_def l lr by (elim disjE) (auto simp: Let_def max_def)
qed

lemma rotate_left_double:
  assumes "right_heavy (Node l a b r)" "balance r = - 1"
  shows "avl_inv (rotate_left (Node l a b (rotate_right r))) \<and>
    avl_height (rotate_left (Node l a b (rotate_right r))) = avl_height r"
proof -
  obtain rl ra rb rr where r: "r = Node rl ra rb rr"
    using assms avl_height_nonneg [of l] by (cases r) (auto simp: right_heavy_def)
  obtain ml ma mb mr where rl: "rl = Node ml ma mb mr"
    using assms avl_height_nonneg [of rr] unfolding right_heavy_def r by (cases rl) auto
  have "mb = 0 \<or> mb = 1 \<or> mb = - 1" using assms unfolding right_heavy_def r rl by auto
  then show ?thesis
    using assms unfolding right_heavy_def r rl by (elim disjE) (auto simp: Let_def max_def)
qed

lemma balance_range: "avl_inv t \<Longrightarrow> balance t = 0 \<or> balance t = 1 \<or> balance t = - 1"
  by (cases t) auto

subsection \<open>Rebalancing restores the invariant\<close>

lemma post_insert_inv:
  "avl_inv t \<Longrightarrow> avl_height t = h + 1 \<Longrightarrow> path_inv h p \<Longrightarrow> balance t = 1 \<or> balance t = - 1 \<Longrightarrow>
    avl_inv (post_insert t p)"
proof (induction t p arbitrary: h rule: post_insert.induct)
  case (2 node a b r p)
  consider "b = 1" | "b = 0" | "b = - 1" using "2.prems"(3) by force
  then show ?case
  proof cases
    case 1
    then show ?thesis using "2.prems" by (auto simp: plug_inv max_def)
  next
    case 2
    note b0 = 2
    have "avl_inv (post_insert (Node node a (b - 1) r) p)"
    proof (rule "2.IH" [OF refl])
      show "b - 1 \<noteq> 0" "b - 1 = - 1" "avl_inv (Node node a (b - 1) r)"
        "avl_height (Node node a (b - 1) r) = 1 + h + 1" "path_inv (1 + h) p"
        using b0 "2.prems" by (auto simp: max_def)
    qed (use b0 in simp)
    then show ?thesis using b0 by simp
  next
    case 3
    have heavy: "left_heavy (Node node a (b - 1) r)" using 3 "2.prems" by (simp add: left_heavy_def)
    have p: "path_inv (1 + h) p" using 3 "2.prems" by (auto simp: max_def split: if_splits)
    show ?thesis
      using 3 p "2.prems" rotate_right_single [OF heavy] rotate_right_double [OF heavy]
      by (auto simp: plug_inv add.commute [of h 1] simp del: rotate_right.simps)
  qed
next
  case (3 node l a b p)
  consider "b = - 1" | "b = 0" | "b = 1" using "3.prems"(3) by force
  then show ?case
  proof cases
    case 1
    then have "h = avl_height l - 1" using "3.prems" by auto
    then show ?thesis using 1 "3.prems" by (auto simp: plug_inv max_def)
  next
    case 2
    note b0 = 2
    have "avl_inv (post_insert (Node l a (b + 1) node) p)"
    proof (rule "3.IH" [OF refl])
      show "b + 1 \<noteq> 0" "b + 1 = 1" "avl_inv (Node l a (b + 1) node)"
        "avl_height (Node l a (b + 1) node) = 1 + h + 1" "path_inv (1 + h) p"
        using b0 "3.prems" by (auto simp: max_def)
    qed (use b0 in simp)
    then show ?thesis using b0 by simp
  next
    case c: 3
    have heavy: "right_heavy (Node l a (b + 1) node)" using c "3.prems" by (simp add: right_heavy_def)
    have p: "path_inv (1 + h) p" using c "3.prems" by (auto simp: max_def split: if_splits)
    show ?thesis
      using c p "3.prems" rotate_left_single [OF heavy] rotate_left_double [OF heavy]
      by (auto simp: plug_inv add.commute [of h 1] simp del: rotate_left.simps)
  qed
qed simp

lemma post_remove_inv:
  "avl_inv t \<Longrightarrow> avl_height t = h - 1 \<Longrightarrow> path_inv h p \<Longrightarrow> avl_inv (post_remove t p)"
proof (induction t p arbitrary: h rule: post_remove.induct)
  case (2 node a b r p)
  consider "b = - 1" | "b = 0" | "b = 1" using "2.prems"(3) by force
  then show ?case
  proof cases
    case 1
    have "avl_inv (post_remove (Node node a (b + 1) r) p)"
      by (rule "2.IH"(1) [OF refl, of "1 + h"]) (use 1 "2.prems" in \<open>auto simp: max_def\<close>)
    then show ?thesis using 1 by simp
  next
    case c: 2
    then show ?thesis using "2.prems" by (auto simp: plug_inv max_def)
  next
    case c: 3
    have heavy: "right_heavy (Node node a (b + 1) r)" using c "2.prems" by (simp add: right_heavy_def)
    have p: "path_inv (1 + avl_height r) p" and r: "avl_inv r" using c "2.prems" by (auto simp: max_def split: if_splits)
    from balance_range [OF r] show ?thesis
    proof (elim disjE)
      assume "balance r = 0"
      then show ?thesis
        using c p rotate_left_single [OF heavy]
        by (simp add: plug_inv add.commute del: rotate_left.simps)
    next
      assume b1: "balance r = 1"
      have "avl_inv (post_remove (rotate_left (Node node a (b + 1) r)) p)"
        by (rule "2.IH"(2) [OF refl, of "1 + avl_height r"])
          (use c p b1 rotate_left_single [OF heavy] in \<open>simp_all del: rotate_left.simps\<close>)
      then show ?thesis using c b1 by (simp del: rotate_left.simps)
    next
      assume b1: "balance r = - 1"
      have "avl_inv (post_remove (rotate_left (Node node a (b + 1) (rotate_right r))) p)"
        by (rule "2.IH"(3) [OF refl, of "1 + avl_height r"])
          (use c p b1 rotate_left_double [OF heavy] in \<open>simp_all del: rotate_left.simps\<close>)
      then show ?thesis using c b1 by (simp del: rotate_left.simps)
    qed
  qed
next
  case (3 node l a b p)
  consider "b = 1" | "b = 0" | "b = - 1" using "3.prems"(3) by force
  then show ?case
  proof cases
    case 1
    have "avl_inv (post_remove (Node l a (b - 1) node) p)"
      by (rule "3.IH"(1) [OF refl, of "1 + h"]) (use 1 "3.prems" in \<open>auto simp: max_def\<close>)
    then show ?thesis using 1 by simp
  next
    case c: 2
    then show ?thesis using "3.prems" by (auto simp: plug_inv max_def)
  next
    case c: 3
    have heavy: "left_heavy (Node l a (b - 1) node)" using c "3.prems" by (simp add: left_heavy_def)
    have p: "path_inv (1 + avl_height l) p" and l: "avl_inv l" using c "3.prems" by (auto simp: max_def split: if_splits)
    from balance_range [OF l] show ?thesis
    proof (elim disjE)
      assume "balance l = 0"
      then show ?thesis
        using c p rotate_right_single [OF heavy]
        by (simp add: plug_inv add.commute del: rotate_right.simps)
    next
      assume b1: "balance l = - 1"
      have "avl_inv (post_remove (rotate_right (Node l a (b - 1) node)) p)"
        by (rule "3.IH"(2) [OF refl, of "1 + avl_height l"])
          (use c p b1 rotate_right_single [OF heavy] in \<open>simp_all del: rotate_right.simps\<close>)
      then show ?thesis using c b1 by (simp del: rotate_right.simps)
    next
      assume b1: "balance l = 1"
      have "avl_inv (post_remove (rotate_right (Node (rotate_left l) a (b - 1) node)) p)"
        by (rule "3.IH"(3) [OF refl, of "1 + avl_height l"])
          (use c p b1 rotate_right_double [OF heavy] in \<open>simp_all del: rotate_right.simps\<close>)
      then show ?thesis using c b1 by (simp del: rotate_right.simps)
    qed
  qed
qed simp

subsection \<open>The order of the nodes\<close>

fun inorder :: "'a avl \<Rightarrow> 'a list" where
  "inorder Leaf = []"
| "inorder (Node l a b r) = inorder l @ a # inorder r"

fun lefts :: "'a frame list \<Rightarrow> 'a list" where
  "lefts [] = []"
| "lefts (LeftOf a b r # p) = lefts p"
| "lefts (RightOf l a b # p) = lefts p @ inorder l @ [a]"

fun rights :: "'a frame list \<Rightarrow> 'a list" where
  "rights [] = []"
| "rights (LeftOf a b r # p) = a # inorder r @ rights p"
| "rights (RightOf l a b # p) = rights p"

lemma inorder_plug [simp]: "inorder (plug t p) = lefts p @ inorder t @ rights p"
  by (induction t p rule: plug.induct) simp_all

lemma inorder_rotate [simp]:
  "inorder (rotate_right t) = inorder t" "inorder (rotate_left t) = inorder t"
  by (cases t rule: rotate_right.cases, simp_all add: Let_def)
    (cases t rule: rotate_left.cases, simp_all add: Let_def)

lemma inorder_post_insert [simp]: "inorder (post_insert t p) = lefts p @ inorder t @ rights p"
  by (induction t p rule: post_insert.induct) (simp_all add: Let_def del: rotate_right.simps rotate_left.simps)

lemma inorder_post_remove [simp]: "inorder (post_remove t p) = lefts p @ inorder t @ rights p"
  by (induction t p rule: post_remove.induct) (simp_all add: Let_def del: rotate_right.simps rotate_left.simps)

lemma inorder_Nil [simp]: "inorder t = [] \<longleftrightarrow> t = Leaf"
  by (cases t) auto

lemma remove_leaf_eq: "remove_leaf p = post_remove Leaf p"
  by (cases p rule: remove_leaf.cases) (simp_all add: Let_def del: rotate_right.simps rotate_left.simps)

lemma remove_simple_props:
  assumes "l = Leaf \<or> r = Leaf"
  shows "inorder (remove_simple (Node l a b r) p) = lefts p @ inorder l @ inorder r @ rights p"
    and "avl_inv (plug (Node l a b r) p) \<Longrightarrow> avl_inv (remove_simple (Node l a b r) p)"
proof -
  show "inorder (remove_simple (Node l a b r) p) = lefts p @ inorder l @ inorder r @ rights p"
    using assms by (cases l; cases r) (auto simp: remove_leaf_eq)
  assume inv: "avl_inv (plug (Node l a b r) p)"
  then have i: "avl_inv (Node l a b r)" "path_inv (avl_height (Node l a b r)) p" by (simp_all only: plug_inv)
  show "avl_inv (remove_simple (Node l a b r) p)"
  proof (cases "r = Leaf")
    case True
    have "avl_inv (post_remove l p)"
      by (rule post_remove_inv [OF _ _ i(2)]) (use i(1) True in \<open>simp_all add: max_absorb1\<close>)
    then show ?thesis using True by (cases l) (simp_all add: remove_leaf_eq)
  next
    case False
    then have l: "l = Leaf" using assms by simp
    have "avl_inv (post_remove r p)"
      by (rule post_remove_inv [OF _ _ i(2)]) (use i(1) l in \<open>simp_all add: max_absorb2\<close>)
    then show ?thesis using False l by (cases r) simp_all
  qed
qed

lemma local_min_props:
  "local_min (Node l a b r) p = (t, q) \<Longrightarrow>
    \<exists>m mb mr. t = Node Leaf m mb mr \<and> plug t q = plug (Node l a b r) p \<and>
      lefts q = lefts p \<and> m # inorder mr @ rights q = inorder (Node l a b r) @ rights p"
proof (induction l arbitrary: a b r p)
  case (Node ll la lb lr)
  from Node.IH(1) [of la lb lr "LeftOf a b r # p"] Node.prems show ?case by auto
qed auto

lemma avl_replace_inv [simp]:
  "avl_height (avl_replace e new t) = avl_height t" "avl_inv (avl_replace e new t) = avl_inv t"
  "inorder (avl_replace e new t) = map (\<lambda>x. if snd x = e then new else x) (inorder t)"
proof -
  show h: "avl_height (avl_replace e new t) = avl_height t" for t
    by (induction t) auto
  show "avl_inv (avl_replace e new t) = avl_inv t"
    by (induction t) (auto simp: h)
  show "inorder (avl_replace e new t) = map (\<lambda>x. if snd x = e then new else x) (inorder t)"
    by (induction t) auto
qed

lemma map_replace_id: "e \<notin> snd ` set xs \<Longrightarrow> map (\<lambda>x. if snd x = e then new else x) xs = xs"
  by (rule map_idI) auto

lemma remove_worker_props:
  assumes inv: "avl_inv (plug (Node l a b r) p)"
    and dist: "distinct (map snd (inorder (plug (Node l a b r) p)))"
  shows "avl_inv (remove_worker (Node l a b r) p) \<and>
    inorder (remove_worker (Node l a b r) p) = lefts p @ inorder l @ inorder r @ rights p"
proof (cases "l = Leaf \<or> r = Leaf")
  case True
  then have "remove_worker (Node l a b r) p = remove_simple (Node l a b r) p"
    by (cases l; cases r) auto
  then show ?thesis using remove_simple_props [OF True, of a b p] inv by auto
next
  case False
  then obtain ll la lb lr rl ra rb rr where l: "l = Node ll la lb lr" and r: "r = Node rl ra rb rr"
    by (cases l; cases r) auto
  obtain t q where lm: "local_min (Node rl ra rb rr) (RightOf (Node ll la lb lr) a b # p) = (t, q)"
    by fastforce
  then obtain m mb mr where t: "t = Node Leaf m mb mr"
    and pl: "plug t q = plug (Node rl ra rb rr) (RightOf (Node ll la lb lr) a b # p)"
    and lq: "lefts q = lefts (RightOf (Node ll la lb lr) a b # p)"
    and rq: "m # inorder mr @ rights q = inorder r @ rights p"
    using local_min_props [OF lm] unfolding r by auto
  have w: "remove_worker (Node l a b r) p = avl_replace (snd a) m (remove_simple (Node Leaf m mb mr) q)"
    by (simp add: l r lm t)
  have "avl_inv (plug (Node Leaf m mb mr) q)" using inv pl by (simp add: t l r)
  then have i: "avl_inv (remove_simple (Node Leaf m mb mr) q)"
    by (intro remove_simple_props) auto
  have io: "inorder (remove_simple (Node Leaf m mb mr) q) = lefts p @ inorder l @ a # inorder mr @ rights q"
    using remove_simple_props(1) [of Leaf mr m mb q] lq by (simp add: l)
  have d: "distinct (map snd (lefts p @ inorder l @ a # inorder r @ rights p))" using dist by simp
  have sub: "set (inorder mr @ rights q) \<subseteq> set (inorder r @ rights p)" unfolding rq [symmetric] by auto
  have n1: "snd a \<notin> snd ` set (lefts p @ inorder l)" "snd a \<notin> snd ` set (inorder r @ rights p)"
    using d by auto
  then have n2: "snd a \<notin> snd ` set (inorder mr @ rights q)" using sub by blast
  have "map (\<lambda>x. if snd x = snd a then m else x) (lefts p @ inorder l @ a # inorder mr @ rights q)
      = lefts p @ inorder l @ m # inorder mr @ rights q"
    using map_replace_id [OF n1(1), of m] map_replace_id [OF n2, of m] by simp
  then show ?thesis using i io rq by (simp add: w)
qed

subsection \<open>Search\<close>

lemma locate_props:
  "avl_locate e t p = Some (n, q) \<Longrightarrow>
    \<exists>l a b r. n = Node l a b r \<and> snd a = e \<and> plug n q = plug t p"
  by (induction e t p arbitrary: n q rule: avl_locate.induct) (auto split: if_splits option.splits)

lemma locate_exists: "e \<in> snd ` set (inorder t) \<Longrightarrow> \<exists>x. avl_locate e t p = Some x"
proof (induction t arbitrary: p)
  case (Node l a b r)
  show ?case
  proof (cases "snd a = e")
    case False
    then have "e \<in> snd ` set (inorder l) \<or> e \<in> snd ` set (inorder r)" using Node.prems by auto
    then show ?thesis
      using False Node.IH(1) [of "LeftOf a b r # p"] Node.IH(2) [of "RightOf l a b # p"]
      by (cases "avl_locate e l (LeftOf a b r # p)") auto
  qed simp
qed simp

text \<open>
  The search: where it ends, the subtree and its path make up the tree, and the path separates the
  keys below the wanted one from those above it.
\<close>

abbreviation key_less :: "('k \<Rightarrow> 'k \<Rightarrow> int) \<Rightarrow> 'k \<Rightarrow> 'k \<Rightarrow> bool" where
  "key_less cmp \<equiv> \<lambda>a b. cmp a b < 0"

context comparator
begin

abbreviation less_key :: "'k \<Rightarrow> 'k \<Rightarrow> bool" where "less_key a b \<equiv> cmp a b < 0"

lemma less_key_trans: "less_key a b \<Longrightarrow> less_key b c \<Longrightarrow> less_key a c"
  using cmp_less_trans by fastforce

lemma less_key_zero: "less_key a b \<Longrightarrow> cmp b c = 0 \<Longrightarrow> less_key a c"
  using cmp_eq_right [of b c a] by simp

lemma find_rec_props:
  assumes "find_rec cmp key t p = (n, q, d)" "t \<noteq> Leaf"
    "sorted_wrt less_key (map fst (inorder t))"
    "\<forall>x \<in> set (lefts p). less_key (fst x) key" "\<forall>x \<in> set (rights p). less_key key (fst x)"
  shows "\<exists>l a b r. n = Node l a b r \<and> plug n q = plug t p \<and> d = cmp key (fst a)
    \<and> (d < 0 \<longrightarrow> l = Leaf) \<and> (d > 0 \<longrightarrow> r = Leaf)
    \<and> (\<forall>x \<in> set (lefts q). less_key (fst x) key) \<and> (\<forall>x \<in> set (rights q). less_key key (fst x))
    \<and> (d = 0 \<longrightarrow> (\<forall>x \<in> set (inorder l). less_key (fst x) key) \<and> (\<forall>x \<in> set (inorder r). less_key key (fst x)))"
  using assms
proof (induction t arbitrary: p)
  case (Node l a b r)
  have sl: "sorted_wrt less_key (map fst (inorder l))" and sr: "sorted_wrt less_key (map fst (inorder r))"
    and la: "\<forall>x \<in> set (inorder l). less_key (fst x) (fst a)"
    and ar: "\<forall>x \<in> set (inorder r). less_key (fst a) (fst x)"
    using Node.prems(3) by (auto simp: sorted_wrt_append)
  consider "cmp key (fst a) < 0" | "cmp key (fst a) > 0" | "cmp key (fst a) = 0" by linarith
  then show ?case
  proof cases
    case lt: 1
    then have r: "\<forall>x \<in> set (inorder r). less_key key (fst x)" using ar less_key_trans by blast
    show ?thesis
    proof (cases "l = Leaf")
      case True
      then show ?thesis using Node.prems lt by (cases a) (auto simp: Let_def)
    next
      case False
      have f: "find_rec cmp key l (LeftOf a b r # p) = (n, q, d)"
        using Node.prems(1) lt False by (simp add: Let_def)
      have "\<forall>x \<in> set (rights (LeftOf a b r # p)). less_key key (fst x)"
        "\<forall>x \<in> set (lefts (LeftOf a b r # p)). less_key (fst x) key"
        using Node.prems(4,5) lt r by auto
      from Node.IH(1) [OF f False sl this(2,1)] show ?thesis by simp
    qed
  next
    case gt: 2
    then have ak: "less_key (fst a) key" by (simp add: cmp_neg)
    then have l: "\<forall>x \<in> set (inorder l). less_key (fst x) key" using la less_key_trans by blast
    show ?thesis
    proof (cases "r = Leaf")
      case True
      then show ?thesis using Node.prems gt by (cases a) (auto simp: Let_def)
    next
      case False
      have f: "find_rec cmp key r (RightOf l a b # p) = (n, q, d)"
        using Node.prems(1) gt False by (simp add: Let_def)
      have "\<forall>x \<in> set (rights (RightOf l a b # p)). less_key key (fst x)"
        "\<forall>x \<in> set (lefts (RightOf l a b # p)). less_key (fst x) key"
        using Node.prems(4,5) ak l by auto
      from Node.IH(2) [OF f False sr this(2,1)] show ?thesis by simp
    qed
  next
    case eq: 3
    then have "\<forall>x \<in> set (inorder l). less_key (fst x) key" "\<forall>x \<in> set (inorder r). less_key key (fst x)"
      using la ar cmp_eq_left [of key "fst a"] cmp_eq_right [of key "fst a"] by auto
    then show ?thesis using Node.prems eq by (cases a) (auto simp: Let_def)
  qed
qed simp

end

subsection \<open>The linked list\<close>

text \<open>
  The list is ordered, and the flag of each node says whether its predecessor has the same key;
  \<open>prev\<close> is the key of the node before the list.
\<close>

fun marked :: "('k \<Rightarrow> 'k \<Rightarrow> int) \<Rightarrow> 'k option \<Rightarrow> ('k, 'e) entry list \<Rightarrow> bool" where
  "marked cmp prev [] = True"
| "marked cmp prev (x # xs) =
     ((case prev of None \<Rightarrow> \<not> en_follower x
       | Some k \<Rightarrow> cmp k (en_key x) \<le> 0 \<and> (en_follower x \<longleftrightarrow> cmp k (en_key x) = 0))
      \<and> marked cmp (Some (en_key x)) xs)"

definition heads :: "('k, 'e) entry list \<Rightarrow> ('k \<times> 'e) list" where
  "heads xs = map (\<lambda>x. (en_key x, en_id x)) (filter (\<lambda>x. \<not> en_follower x) xs)"

definition plain :: "('k, 'e) entry list \<Rightarrow> ('k \<times> 'e) list" where
  "plain xs = map (\<lambda>x. (en_key x, en_id x)) xs"

lemma heads_simps [simp]:
  "heads [] = []" "heads (x # xs) = (if en_follower x then heads xs else (en_key x, en_id x) # heads xs)"
  "heads (xs @ ys) = heads xs @ heads ys"
  by (simp_all add: heads_def)

lemma plain_simps [simp]:
  "plain [] = []" "plain (x # xs) = (en_key x, en_id x) # plain xs" "plain (xs @ ys) = plain xs @ plain ys"
  "length (plain xs) = length xs"
  by (simp_all add: plain_def)

definition last_key :: "'k option \<Rightarrow> ('k, 'e) entry list \<Rightarrow> 'k option" where
  "last_key prev xs = (if xs = [] then prev else Some (en_key (last xs)))"

lemma marked_append:
  "marked cmp prev (xs @ ys) \<longleftrightarrow> marked cmp prev xs \<and> marked cmp (last_key prev xs) ys"
  by (induction xs arbitrary: prev) (auto simp: last_key_def)

text \<open>The place of a new node in the ordered list: behind the first node with its key.\<close>

fun ord_insert :: "('k \<Rightarrow> 'k \<Rightarrow> int) \<Rightarrow> 'k \<times> 'e \<Rightarrow> ('k \<times> 'e) list \<Rightarrow> ('k \<times> 'e) list" where
  "ord_insert cmp new [] = [new]"
| "ord_insert cmp new (y # ys) =
     (if cmp (fst new) (fst y) < 0 then new # y # ys
      else if cmp (fst new) (fst y) = 0 then y # new # ys
      else y # ord_insert cmp new ys)"

lemma set_ord_insert [simp]: "set (ord_insert cmp new xs) = insert new (set xs)"
  by (induction xs) auto

lemma list_positions:
  assumes "en_id x = e" "e \<notin> en_id ` set A"
  shows "list_insert_before e new (A @ x # B) = A @ new # x # B"
    and "list_insert_after e new (A @ x # B) = A @ x # new # B"
    and "list_focus e bef (A @ x # B) = Some (rev A @ bef, x, B)"
    and "list_remove e (A @ x # B) = A @ B"
    and "list_unfollow e (A @ x # B) = A @ (en_key x, e, False) # B"
  using assms by (induction A arbitrary: bef) auto

lemma last_follower_position:
  assumes "distinct (map en_id (A @ x # B))"
  shows "list_insert_after (last_follower (en_id x) B) new (A @ x # B)
    = A @ x # takeWhile en_follower B @ new # dropWhile en_follower B"
  using assms
proof (induction B arbitrary: A x)
  case (Cons y B)
  show ?case
  proof (cases "en_follower y")
    case True
    have "list_insert_after (last_follower (en_id y) B) new ((A @ [x]) @ y # B)
      = (A @ [x]) @ y # takeWhile en_follower B @ new # dropWhile en_follower B"
      by (rule Cons.IH) (use Cons.prems in auto)
    then show ?thesis using True by simp
  next
    case False
    then show ?thesis using Cons.prems by (simp add: list_positions)
  qed
qed (auto simp: list_positions)

context comparator
begin

lemma marked_cong: "cmp k k' = 0 \<Longrightarrow> marked cmp (Some k) xs = marked cmp (Some k') xs"
proof (cases xs)
  case (Cons x ys)
  assume "cmp k k' = 0"
  then have "cmp k (en_key x) < 0 \<longleftrightarrow> cmp k' (en_key x) < 0" "cmp (en_key x) k < 0 \<longleftrightarrow> cmp (en_key x) k' < 0"
    by (rule cmp_eq_left, rule cmp_eq_right)
  then show ?thesis using Cons by (simp add: cmp_zero_iff_le cmp_le_iff)
qed simp

lemma marked_prev_le: "marked cmp (Some k) xs \<Longrightarrow> x \<in> set xs \<Longrightarrow> cmp k (en_key x) \<le> 0"
proof (induction xs arbitrary: k)
  case (Cons y xs)
  then show ?case using cmp_trans by fastforce
qed simp

lemma marked_prev_less:
  "marked cmp (Some k) xs \<Longrightarrow> x \<in> set xs \<Longrightarrow> \<not> en_follower x \<Longrightarrow> less_key k (en_key x)"
proof (induction xs arbitrary: k)
  case (Cons y xs)
  show ?case
  proof (cases "x = y")
    case True
    then show ?thesis using Cons.prems by (auto simp: order.order_iff_strict)
  next
    case False
    then have "less_key (en_key y) (en_key x)" using Cons by auto
    then show ?thesis using Cons.prems(1) cmp_le_less_trans by auto
  qed
qed simp

lemma marked_heads_sorted: "marked cmp prev xs \<Longrightarrow> sorted_wrt less_key (map fst (heads xs))"
  by (induction xs arbitrary: prev) (auto simp: heads_def dest: marked_prev_less)

lemma marked_sorted: "marked cmp prev xs \<Longrightarrow> sorted_wrt (\<lambda>a b. cmp a b \<le> 0) (map fst (plain xs))"
  by (induction xs arbitrary: prev) (auto simp: plain_def dest: marked_prev_le)

lemma heads_cover: "marked cmp None xs \<Longrightarrow> x \<in> set xs \<Longrightarrow> \<exists>h \<in> set (heads xs). cmp (fst h) (en_key x) = 0"
proof (induction xs arbitrary: x rule: rev_induct)
  case (snoc y xs)
  have m: "marked cmp None xs" "marked cmp (last_key None xs) [y]" using snoc.prems(1) by (simp_all add: marked_append)
  consider "x \<in> set xs" | "x = y" "en_follower y" | "x = y" "\<not> en_follower y" using snoc.prems(2) by auto
  then show ?case
  proof cases
    case 1
    then show ?thesis using snoc.IH [OF m(1)] by fastforce
  next
    case 2
    then have xs: "last xs \<in> set xs" and z: "cmp (en_key (last xs)) (en_key y) = 0"
      using m(2) by (auto simp: last_key_def split: if_splits)
    obtain h where h: "h \<in> set (heads xs)" "cmp (fst h) (en_key (last xs)) = 0"
      using snoc.IH [OF m(1) xs] by auto
    then show ?thesis using cmp_eq_trans [OF h(2) z] 2 by auto
  next
    case 3
    then show ?thesis by simp
  qed
qed simp

lemma ord_insert_skip:
  "\<forall>y \<in> set A. less_key (fst y) (fst new) \<Longrightarrow> ord_insert cmp new (A @ B) = A @ ord_insert cmp new B"
proof (induction A)
  case (Cons y A)
  then have "less_key (fst y) (fst new)" by simp
  then have "\<not> cmp (fst new) (fst y) < 0" "cmp (fst new) (fst y) \<noteq> 0" using cmp_neg by force+
  then show ?case using Cons by simp
qed simp

text \<open>The elements of a prefix are below a key when its heads are.\<close>

lemma prefix_below:
  assumes "marked cmp None A" "\<forall>h \<in> set (heads A). less_key (fst h) key"
  shows "\<forall>y \<in> set (plain A). less_key (fst y) key"
proof
  fix y assume "y \<in> set (plain A)"
  then obtain x where x: "x \<in> set A" "fst y = en_key x" by (auto simp: plain_def)
  obtain h where "h \<in> set (heads A)" "cmp (fst h) (en_key x) = 0" using heads_cover [OF assms(1) x(1)] by auto
  then show "less_key (fst y) key" using assms(2) x(2) by (metis cmp_eq_left)
qed

lemma last_below:
  assumes "\<forall>y \<in> set (plain A). less_key (fst y) key"
  shows "case last_key None A of None \<Rightarrow> True | Some k \<Rightarrow> less_key k key"
  using assms by (auto simp: last_key_def plain_def)

end

subsection \<open>The invariant of the tree object\<close>

definition avl_ok :: "('k, 'e) avl_tree \<Rightarrow> bool" where
  "avl_ok T \<longleftrightarrow> comparator (tr_comp T) \<and> avl_inv (tr_root T)
     \<and> marked (tr_comp T) None (tr_list T) \<and> inorder (tr_root T) = heads (tr_list T)
     \<and> distinct (map en_id (tr_list T)) \<and> tr_count T = length (tr_list T)
     \<and> (tr_allow_dups T \<or> list_all (\<lambda>x. \<not> en_follower x) (tr_list T))"

lemma avl_entries_plain: "avl_entries T = plain (tr_list T)"
  by (simp add: avl_entries_def plain_def)

lemma ids_of_entries: "snd ` set (plain xs) = en_id ` set xs"
  by (auto simp: plain_def image_image)

lemma heads_sub_plain: "set (heads xs) \<subseteq> set (plain xs)"
  by (auto simp: heads_def plain_def)

lemma head_entry: "h \<in> set (heads xs) \<Longrightarrow> \<exists>x \<in> set xs. \<not> en_follower x \<and> h = (en_key x, en_id x)"
  by (auto simp: heads_def)

text \<open>Where the search ends, in the tree and in the list.\<close>

lemma find_rec_split:
  assumes ok: "avl_ok T" and ne: "tr_root T \<noteq> Leaf"
    and f: "find_rec (tr_comp T) key (tr_root T) [] = (n, q, d)"
  obtains l k e b r A B where
    "n = Node l (k, e) b r" "d = tr_comp T key k" "plug (Node l (k, e) b r) q = tr_root T"
    "tr_list T = A @ (k, e, False) # B" "e \<notin> en_id ` set A"
    "heads A = lefts q @ inorder l" "heads B = inorder r @ rights q"
    "\<forall>y \<in> set (lefts q). tr_comp T (fst y) key < 0" "\<forall>y \<in> set (rights q). tr_comp T key (fst y) < 0"
    "d < 0 \<Longrightarrow> l = Leaf" "d > 0 \<Longrightarrow> r = Leaf"
    "d = 0 \<Longrightarrow> \<forall>y \<in> set (inorder l). tr_comp T (fst y) key < 0"
proof -
  have C: "comparator (tr_comp T)" using ok by (simp add: avl_ok_def)
  note find_rec_props = comparator.find_rec_props [OF C]
    and marked_heads_sorted = comparator.marked_heads_sorted [OF C]
    and cmp_refl [simp] = comparator.cmp_refl [OF C]
  have m: "marked (tr_comp T) None (tr_list T)" and io: "inorder (tr_root T) = heads (tr_list T)"
    and dist: "distinct (map en_id (tr_list T))" using ok by (auto simp: avl_ok_def)
  have sorted: "sorted_wrt (key_less (tr_comp T)) (map fst (inorder (tr_root T)))"
    using marked_heads_sorted [OF m] by (simp add: io)
  from find_rec_props [OF f ne sorted] obtain l a b r where n: "n = Node l a b r"
    and pl: "plug n q = tr_root T" and d: "d = tr_comp T key (fst a)"
    and z: "d < 0 \<longrightarrow> l = Leaf" "d > 0 \<longrightarrow> r = Leaf"
    and lr: "\<forall>x\<in>set (lefts q). key_less (tr_comp T) (fst x) key" "\<forall>x\<in>set (rights q). key_less (tr_comp T) key (fst x)"
    and l0: "d = 0 \<longrightarrow> (\<forall>x\<in>set (inorder l). key_less (tr_comp T) (fst x) key)"
    by auto
  obtain k e where a: "a = (k, e)" by fastforce
  have h: "heads (tr_list T) = (lefts q @ inorder l) @ (k, e) # inorder r @ rights q"
    using pl io by (simp add: n a flip: pl)
  then have "(k, e) \<in> set (heads (tr_list T))" by simp
  then obtain x where x: "x \<in> set (tr_list T)" "\<not> en_follower x" "(k, e) = (en_key x, en_id x)"
    using head_entry by blast
  then have xe: "x = (k, e, False)" by (auto simp: en_key_def en_id_def en_follower_def prod_eq_iff)
  then obtain A B where L: "tr_list T = A @ (k, e, False) # B" using x(1) xe split_list [of x "tr_list T"] by auto
  have eA: "e \<notin> en_id ` set A" and eB: "e \<notin> en_id ` set B" using dist by (auto simp: L)
  have "heads A @ (k, e) # heads B = (lefts q @ inorder l) @ (k, e) # inorder r @ rights q"
    using h by (simp add: L)
  moreover have "(k, e) \<notin> set (heads A)" "(k, e) \<notin> set (heads B)" using eA eB by (auto simp: heads_def)
  ultimately have "heads A = lefts q @ inorder l \<and> heads B = inorder r @ rights q"
    by (metis append_Cons_eq_iff)
  then show thesis using that [of l k e b r A B] n a pl d L eA lr z l0 by simp
qed

subsection \<open>Lookup\<close>

text \<open>The first entry with the key.\<close>

definition first_with :: "('k \<Rightarrow> 'k \<Rightarrow> int) \<Rightarrow> 'k \<Rightarrow> ('k \<times> 'e) list \<Rightarrow> 'e option" where
  "first_with cmp key xs = map_option snd (List.find (\<lambda>x. cmp key (fst x) = 0) xs)"

lemma find_skip: "\<forall>y \<in> set A. \<not> P y \<Longrightarrow> List.find P (A @ B) = List.find P B"
  by (induction A) auto

lemma avl_find_first:
  assumes ok: "avl_ok T"
  shows "avl_find T key = first_with (tr_comp T) key (avl_entries T)"
proof (cases "tr_root T = Leaf")
  case True
  then have "heads (tr_list T) = []" and m: "marked (tr_comp T) None (tr_list T)"
    using ok by (auto simp: avl_ok_def)
  then have "tr_list T = []" by (cases "tr_list T") (auto split: if_splits)
  then show ?thesis by (simp add: avl_find_def True avl_entries_def first_with_def)
next
  case False
  have C: "comparator (tr_comp T)" using ok by (simp add: avl_ok_def)
  note cmp_neg = comparator.cmp_neg [OF C] and cmp_eq_trans = comparator.cmp_eq_trans [OF C]
    and cmp_zero_sym = comparator.cmp_zero_sym [OF C]
    and less_key_trans = comparator.less_key_trans [OF C]
    and marked_heads_sorted = comparator.marked_heads_sorted [OF C]
    and heads_cover = comparator.heads_cover [OF C] and prefix_below = comparator.prefix_below [OF C]
    and cmp_refl [simp] = comparator.cmp_refl [OF C]
  obtain n q d where f: "find_rec (tr_comp T) key (tr_root T) [] = (n, q, d)" by (metis prod_cases3)
  from find_rec_split [OF ok False f] obtain l k e b r A B where
    n: "n = Node l (k, e) b r" and d: "d = tr_comp T key k"
    and L: "tr_list T = A @ (k, e, False) # B"
    and hA: "heads A = lefts q @ inorder l" and hB: "heads B = inorder r @ rights q"
    and lr: "\<forall>y \<in> set (lefts q). key_less (tr_comp T) (fst y) key" "\<forall>y \<in> set (rights q). key_less (tr_comp T) key (fst y)"
    and z: "d < 0 \<Longrightarrow> l = Leaf" "d > 0 \<Longrightarrow> r = Leaf"
    "d = 0 \<Longrightarrow> \<forall>y \<in> set (inorder l). key_less (tr_comp T) (fst y) key" by metis
  have m: "marked (tr_comp T) None (tr_list T)" using ok by (simp add: avl_ok_def)
  have mA: "marked (tr_comp T) None A" using m by (simp add: L marked_append)
  have notless: "key_less (tr_comp T) a b \<Longrightarrow> tr_comp T b a \<noteq> 0" for a b using cmp_neg [of a b] by auto
  show ?thesis
  proof (cases "d = 0")
    case True
    have "\<forall>h \<in> set (heads A). key_less (tr_comp T) (fst h) key" using lr(1) z(3) [OF True] by (auto simp: hA)
    then have "\<forall>y \<in> set (plain A). key_less (tr_comp T) (fst y) key" by (rule prefix_below [OF mA])
    then have "\<forall>y \<in> set (plain A). \<not> tr_comp T key (fst y) = 0" using notless by auto
    then show ?thesis
      using False True d f n
      by (simp add: avl_find_def avl_entries_plain first_with_def L find_skip)
  next
    case dn: False
    have none: "\<forall>h \<in> set (heads (tr_list T)). tr_comp T key (fst h) \<noteq> 0"
    proof
      fix h assume "h \<in> set (heads (tr_list T))"
      then consider "h \<in> set (lefts q)" | "h \<in> set (inorder l)" | "h = (k, e)" | "h \<in> set (inorder r)"
        | "h \<in> set (rights q)" using hA hB by (auto simp: L)
      then show "tr_comp T key (fst h) \<noteq> 0"
      proof cases
        case 2
        then have "\<not> d < 0" using z(1) by auto
        then have "d > 0" using dn by simp
        then have "key_less (tr_comp T) k key" using d cmp_neg by simp
        moreover have "key_less (tr_comp T) (fst h) k"
        proof -
          have "sorted_wrt (key_less (tr_comp T)) (map fst (heads (tr_list T)))" by (rule marked_heads_sorted [OF m])
          then show ?thesis using 2 hA by (auto simp: L sorted_wrt_append)
        qed
        ultimately show ?thesis using less_key_trans notless by blast
      next
        case 4
        then have "\<not> d > 0" using z(2) by auto
        then have "key_less (tr_comp T) key k" using dn d by simp
        moreover have "key_less (tr_comp T) k (fst h)"
        proof -
          have "sorted_wrt (key_less (tr_comp T)) (map fst (heads (tr_list T)))" by (rule marked_heads_sorted [OF m])
          then show ?thesis using 4 hB by (auto simp: L sorted_wrt_append)
        qed
        ultimately show ?thesis using less_key_trans by fastforce
      qed (use lr notless dn d in auto)
    qed
    have "\<forall>y \<in> set (plain (tr_list T)). tr_comp T key (fst y) \<noteq> 0"
    proof
      fix y assume "y \<in> set (plain (tr_list T))"
      then obtain x where x: "x \<in> set (tr_list T)" "fst y = en_key x" by (auto simp: plain_def)
      from heads_cover [OF m x(1)] obtain h where
        h: "h \<in> set (heads (tr_list T))" "tr_comp T (fst h) (en_key x) = 0" by auto
      show "tr_comp T key (fst y) \<noteq> 0"
      proof
        assume "tr_comp T key (fst y) = 0"
        then have "tr_comp T key (fst h) = 0" using h(2) x(2) cmp_eq_trans cmp_zero_sym by metis
        then show False using none h(1) by blast
      qed
    qed
    then have "List.find (\<lambda>x. tr_comp T key (fst x) = 0) (plain (tr_list T)) = None"
      by (auto simp: find_None_iff)
    then show ?thesis
      using dn f n by (simp add: avl_find_def avl_entries_plain first_with_def)
  qed
qed

subsection \<open>Insertion\<close>

lemma avl_insert_result:
  assumes ok: "avl_ok T" and new: "e \<notin> set (avl_elements T)"
  shows "if avl_find T key \<noteq> None \<and> \<not> tr_allow_dups T then avl_insert T key e = (- 1, T)
    else \<exists>T'. avl_insert T key e = (0, T') \<and> avl_ok T'
      \<and> avl_entries T' = ord_insert (tr_comp T) (key, e) (avl_entries T)
      \<and> tr_comp T' = tr_comp T \<and> tr_allow_dups T' = tr_allow_dups T"
proof (cases "tr_root T = Leaf")
  case True
  then have "heads (tr_list T) = []" and m: "marked (tr_comp T) None (tr_list T)"
    using ok by (auto simp: avl_ok_def)
  then have "tr_list T = []" by (cases "tr_list T") (auto split: if_splits)
  then show ?thesis using ok True by (simp add: avl_insert_def avl_find_def avl_ok_def avl_entries_def)
next
  case False
  have C: "comparator (tr_comp T)" using ok by (simp add: avl_ok_def)
  note cmp_neg = comparator.cmp_neg [OF C] and cmp_zero_sym = comparator.cmp_zero_sym [OF C]
    and less_key_trans = comparator.less_key_trans [OF C] and marked_cong = comparator.marked_cong [OF C]
    and marked_heads_sorted = comparator.marked_heads_sorted [OF C]
    and ord_insert_skip = comparator.ord_insert_skip [OF C]
    and prefix_below = comparator.prefix_below [OF C] and last_below = comparator.last_below [OF C]
    and cmp_refl [simp] = comparator.cmp_refl [OF C]
  obtain n q d where f: "find_rec (tr_comp T) key (tr_root T) [] = (n, q, d)" by (metis prod_cases3)
  from find_rec_split [OF ok False f] obtain l k e' b r A B where
    n: "n = Node l (k, e') b r" and d: "d = tr_comp T key k"
    and pl: "plug (Node l (k, e') b r) q = tr_root T"
    and L: "tr_list T = A @ (k, e', False) # B" and e': "e' \<notin> en_id ` set A"
    and hA: "heads A = lefts q @ inorder l" and hB: "heads B = inorder r @ rights q"
    and lr: "\<forall>y \<in> set (lefts q). key_less (tr_comp T) (fst y) key" "\<forall>y \<in> set (rights q). key_less (tr_comp T) key (fst y)"
    and z: "d < 0 \<Longrightarrow> l = Leaf" "d > 0 \<Longrightarrow> r = Leaf"
    "d = 0 \<Longrightarrow> \<forall>y \<in> set (inorder l). key_less (tr_comp T) (fst y) key" by metis
  have m: "marked (tr_comp T) None (tr_list T)" and inv: "avl_inv (tr_root T)"
    and dist: "distinct (map en_id (tr_list T))" and cnt: "tr_count T = length (tr_list T)"
    and dups: "tr_allow_dups T \<or> list_all (\<lambda>x. \<not> en_follower x) (tr_list T)"
    using ok by (auto simp: avl_ok_def)
  have ni: "e \<notin> en_id ` set (tr_list T)" using new by (simp add: avl_elements_def)
  have mA: "marked (tr_comp T) None A" and mB: "marked (tr_comp T) (Some k) B"
    and mk: "marked (tr_comp T) (last_key None A) [(k, e', False)]"
    using m by (auto simp: L marked_append last_key_def)
  have found: "avl_find T key = (if d = 0 then Some e' else None)"
    using False f n by (simp add: avl_find_def)
  have node: "avl_inv (Node l (k, e') b r)" "path_inv (avl_height (Node l (k, e') b r)) q"
    using inv by (simp_all only: pl [symmetric] plug_inv)
  show ?thesis
  proof (cases "d = 0")
    case d0: True
    show ?thesis
    proof (cases "tr_allow_dups T")
      case nd: False
      then show ?thesis using found d0 f n d False by (simp add: avl_insert_def)
    next
      case dup: True
      define T' where "T' = T\<lparr>tr_list := A @ (k, e', False) # (key, e, True) # B, tr_count := tr_count T + 1\<rparr>"
      have kk: "tr_comp T k key = 0" using d0 d cmp_zero_sym by simp
      have ins: "avl_insert T key e = (0, T')"
        using dup d0 f n d False list_positions(2) [of "(k, e', False)" e' A "(key, e, True)" B] e'
        by (simp add: avl_insert_def avl_insert_after_def T'_def L)
      have below: "\<forall>y \<in> set (plain A). key_less (tr_comp T) (fst y) (fst (key, e))"
        unfolding fst_conv by (rule prefix_below [OF mA]) (use lr(1) z(3) d0 hA in auto)
      have "avl_entries T' = ord_insert (tr_comp T) (key, e) (avl_entries T)"
        using ord_insert_skip [OF below, of "(k, e') # plain B"] d0 d
        by (simp add: avl_entries_plain T'_def L)
      moreover have "avl_ok T'"
        using ok mA mk mB kk marked_cong [OF kk, of B] ni dup dist
        by (auto simp: avl_ok_def T'_def L marked_append)
      ultimately show ?thesis using ins dup by (auto simp: T'_def)
    qed
  next
    case dn: False
    define leaf where "leaf = Node Leaf (key, e) 0 (Leaf :: ('a \<times> 'b) avl)"
    have leaf: "avl_inv leaf" "avl_height leaf = 1" "inorder leaf = [(key, e)]" by (simp_all add: leaf_def)
    show ?thesis
    proof (cases "d < 0")
      case lt: True
      then have lL: "l = Leaf" by (rule z)
      have b: "b = 0 \<or> b = 1" 
      proof -
        have "b = avl_height r" "b \<le> 1" using node(1) lL by auto
        then show ?thesis using avl_height_nonneg [of r] by linarith
      qed
      define root where "root = (if b = 1 then plug (Node leaf (k, e') 0 r) q else post_insert (Node leaf (k, e') (- 1) r) q)"
      define T' where "T' = T\<lparr>tr_list := A @ (key, e, False) # (k, e', False) # B, tr_count := tr_count T + 1,
        tr_root := root\<rparr>"
      have ins: "avl_insert T key e = (0, T')"
        using lt f n d False b list_positions(1) [of "(k, e', False)" e' A "(key, e, False)" B] e'
        by (auto simp: avl_insert_def avl_insert_before_def T'_def L root_def leaf_def Let_def)
      have rinv: "avl_inv root"
      proof (cases "b = 1")
        case True
        then show ?thesis using node lL leaf by (simp add: root_def plug_inv)
      next
        case False
        then have b0: "b = 0" using b by simp
        have "avl_inv (post_insert (Node leaf (k, e') (- 1) r) q)"
          by (rule post_insert_inv [of _ 1]) (use node lL leaf b0 in auto)
        then show ?thesis using b0 by (simp add: root_def)
      qed
      have rin: "inorder root = lefts q @ (key, e) # (k, e') # inorder r @ rights q"
        using leaf by (simp add: root_def)
      have below: "\<forall>y \<in> set (plain A). key_less (tr_comp T) (fst y) (fst (key, e))"
        unfolding fst_conv by (rule prefix_below [OF mA]) (use lr(1) lL hA in auto)
      have "avl_entries T' = ord_insert (tr_comp T) (key, e) (avl_entries T)"
        using ord_insert_skip [OF below, of "(k, e') # plain B"] lt d
        by (simp add: avl_entries_plain T'_def L)
      moreover have "avl_ok T'"
        using ok mA mB lt d ni dups dist rinv rin hA hB lL last_below [of A key] below
        by (auto simp: avl_ok_def T'_def L marked_append last_key_def)
      ultimately show ?thesis using ins found dn by (auto simp: T'_def)
    next
      case ge: False
      then have gt: "d > 0" using dn by simp
      then have rL: "r = Leaf" by (rule z)
      have kl: "key_less (tr_comp T) k key" using gt d by (simp add: cmp_neg)
      have b: "b = 0 \<or> b = - 1" 
      proof -
        have "b = - avl_height l" "- 1 \<le> b" using node(1) rL by auto
        then show ?thesis using avl_height_nonneg [of l] by linarith
      qed
      define F B' where "F = takeWhile en_follower B" and "B' = dropWhile en_follower B"
      have B: "B = F @ B'" by (simp add: F_def B'_def)
      have hF: "heads F = []" by (auto simp: F_def heads_def filter_empty_conv dest: set_takeWhileD)
      define root where "root = (if b = - 1 then plug (Node l (k, e') 0 leaf) q else post_insert (Node l (k, e') 1 leaf) q)"
      define T' where "T' = T\<lparr>tr_list := A @ (k, e', False) # F @ (key, e, False) # B', tr_count := tr_count T + 1,
        tr_root := root\<rparr>"
      have fl: "avl_find_last T e' = last_follower e' B"
        using list_positions(3) [of "(k, e', False)" e' A "[]" B] e' by (simp add: avl_find_last_def L)
      have pos: "list_insert_after (last_follower e' B) (key, e, False) (A @ (k, e', False) # B)
          = A @ (k, e', False) # F @ (key, e, False) # B'"
        using last_follower_position [of A "(k, e', False)" B] dist by (simp add: L F_def B'_def)
      have ins: "avl_insert T key e = (0, T')"
        using gt f n d False b pos
        by (auto simp: avl_insert_def avl_insert_after_def T'_def L root_def leaf_def Let_def fl)
      have rinv: "avl_inv root"
      proof (cases "b = - 1")
        case True
        then show ?thesis using node rL leaf by (simp add: root_def plug_inv)
      next
        case False
        then have b0: "b = 0" using b by simp
        have "avl_inv (post_insert (Node l (k, e') 1 leaf) q)"
          by (rule post_insert_inv [of _ 1]) (use node rL leaf b0 in auto)
        then show ?thesis using b0 by (simp add: root_def)
      qed
      have rin: "inorder root = lefts q @ inorder l @ (k, e') # (key, e) # rights q"
        using leaf by (simp add: root_def)
      have mAF: "marked (tr_comp T) None (A @ (k, e', False) # F)"
        and mB': "marked (tr_comp T) (last_key None (A @ (k, e', False) # F)) B'"
        using m by (auto simp: L B marked_append last_key_def)
      have less_hA: "\<forall>y \<in> set (heads A). key_less (tr_comp T) (fst y) key"
      proof
        fix y assume "y \<in> set (heads A)"
        moreover have "sorted_wrt (key_less (tr_comp T)) (map fst (heads (tr_list T)))" by (rule marked_heads_sorted [OF m])
        ultimately have "key_less (tr_comp T) (fst y) k" by (auto simp: L sorted_wrt_append)
        then show "key_less (tr_comp T) (fst y) key" using kl by (rule less_key_trans)
      qed
      have below: "\<forall>y \<in> set (plain (A @ (k, e', False) # F)). key_less (tr_comp T) (fst y) (fst (key, e))"
        unfolding fst_conv by (rule prefix_below [OF mAF]) (use less_hA kl hF in auto)
      have above: "case B' of [] \<Rightarrow> True | x # xs \<Rightarrow> \<not> en_follower x \<and> key_less (tr_comp T) key (en_key x)"
      proof (cases B')
        case (Cons x xs)
        have nf: "\<not> en_follower x" using Cons by (metis B'_def hd_dropWhile list.distinct(1) list.sel(1))
        have "heads B = heads B'" by (simp add: B hF)
        then have "(en_key x, en_id x) \<in> set (rights q)" using Cons nf hB rL by simp
        then show ?thesis using lr(2) nf Cons by force
      qed simp
      have ordB: "ord_insert (tr_comp T) (key, e) (plain B') = (key, e) # plain B'"
        using above by (cases B') auto
      have "avl_entries T' = ord_insert (tr_comp T) (key, e) (avl_entries T)"
        using ord_insert_skip [OF below, of "plain B'"] ordB
        by (simp add: avl_entries_plain T'_def L B)
      moreover have "avl_ok T'"
      proof -
        have "marked (tr_comp T) None (tr_list T')"
        proof -
          have "marked (tr_comp T) (last_key None (A @ (k, e', False) # F)) [(key, e, False)]"
            using last_below [OF below] by (auto simp: last_key_def)
          moreover have "marked (tr_comp T) (Some key) B'"
            using above mB' by (cases B') auto
          ultimately have "marked (tr_comp T) None ((A @ (k, e', False) # F) @ (key, e, False) # B')"
            using mAF by (simp only: marked_append [of _ _ "A @ (k, e', False) # F"]) simp
          then show ?thesis by (simp add: T'_def)
        qed
        moreover have "inorder root = heads (A @ (k, e', False) # F @ (key, e, False) # B')"
          using rin hA hB hF rL by (simp add: B)
        ultimately show ?thesis
          using ok rinv ni dups dist cnt by (auto simp: avl_ok_def T'_def L B)
      qed
      ultimately show ?thesis using ins found dn by (auto simp: T'_def)
    qed
  qed
qed

subsection \<open>Removal\<close>

lemma heads_ids: "snd ` set (heads xs) \<subseteq> en_id ` set xs"
  by (induction xs) (auto simp: heads_def)

lemma avl_remove_result:
  assumes ok: "avl_ok T" and e: "e \<in> set (avl_elements T)"
  shows "avl_ok (avl_remove T e) \<and> avl_entries (avl_remove T e) = filter (\<lambda>x. snd x \<noteq> e) (avl_entries T)
    \<and> tr_comp (avl_remove T e) = tr_comp T \<and> tr_allow_dups (avl_remove T e) = tr_allow_dups T"
proof -
  have C: "comparator (tr_comp T)" using ok by (simp add: avl_ok_def)
  note less_key_trans = comparator.less_key_trans [OF C]
    and less_key_zero = comparator.less_key_zero [OF C] and marked_cong = comparator.marked_cong [OF C]
    and cmp_refl [simp] = comparator.cmp_refl [OF C]
  have m: "marked (tr_comp T) None (tr_list T)" and inv: "avl_inv (tr_root T)"
    and dist: "distinct (map en_id (tr_list T))" and cnt: "tr_count T = length (tr_list T)"
    and io: "inorder (tr_root T) = heads (tr_list T)"
    and dups: "tr_allow_dups T \<or> list_all (\<lambda>x. \<not> en_follower x) (tr_list T)"
    using ok by (auto simp: avl_ok_def)
  obtain x where "x \<in> set (tr_list T)" and xe: "en_id x = e" using e by (auto simp: avl_elements_def)
  then obtain A B where L: "tr_list T = A @ x # B" by (auto dest: split_list)
  have eA: "e \<notin> en_id ` set A" and eB: "e \<notin> en_id ` set B" using dist xe by (auto simp: L)
  have ents: "plain (A @ B) = filter (\<lambda>x. snd x \<noteq> e) (avl_entries T)"
  proof -
    have "filter (\<lambda>x. snd x \<noteq> e) (plain A) = plain A" "filter (\<lambda>x. snd x \<noteq> e) (plain B) = plain B"
      using eA eB by (auto intro!: filter_True simp: plain_def)
    then show ?thesis using xe by (simp add: avl_entries_plain L)
  qed
  have mA: "marked (tr_comp T) None A" and mx: "marked (tr_comp T) (last_key None A) [x]"
    and mB: "marked (tr_comp T) (Some (en_key x)) B"
    using m by (auto simp: L marked_append)
  have foc: "list_focus e [] (tr_list T) = Some (rev A, x, B)"
    using list_positions(3) [OF xe eA, of "[]" B] by (simp add: L)
  have rem: "list_remove e (tr_list T) = A @ B" using list_positions(4) [OF xe eA] by (simp add: L)
  show ?thesis
  proof (cases "en_follower x")
    case True
    define T' where "T' = T\<lparr>tr_list := A @ B, tr_count := tr_count T - 1\<rparr>"
    have r: "avl_remove T e = T'" using foc True rem by (simp add: avl_remove_def T'_def)
    have mAB: "marked (tr_comp T) None (A @ B)"
    proof -
      have "A \<noteq> []" "tr_comp T (en_key (last A)) (en_key x) = 0"
        using mx True by (auto simp: last_key_def split: if_splits)
      then show ?thesis using mA mB marked_cong by (auto simp: marked_append last_key_def)
    qed
    have "avl_ok T'" using ok mAB True dist dups by (auto simp: avl_ok_def T'_def L)
    then show ?thesis using ents by (simp add: r) (simp add: T'_def avl_entries_plain)
  next
    case nf: False
    show ?thesis
    proof (cases "B \<noteq> [] \<and> en_follower (hd B)")
      case True
      then obtain y B2 where B: "B = y # B2" and yf: "en_follower y" by (cases B) auto
      have ad: "tr_allow_dups T" using dups yf by (auto simp: L B)
      define root where "root = avl_replace e (en_key y, en_id y) (tr_root T)"
      define T' where "T' = T\<lparr>tr_list := A @ (en_key y, en_id y, False) # B2, tr_count := tr_count T - 1,
        tr_root := root\<rparr>"
      have "en_id y \<notin> en_id ` set (A @ [x])" using dist by (auto simp: L B)
      then have "list_unfollow (en_id y) (tr_list T) = (A @ [x]) @ (en_key y, en_id y, False) # B2"
        using list_positions(5) [of y "en_id y" "A @ [x]" B2] by (simp add: L B)
      then have r: "avl_remove T e = T'"
        using foc nf True ad list_positions(4) [OF xe eA, of "(en_key y, en_id y, False) # B2"]
        by (simp add: avl_remove_def T'_def B root_def)
      have yk: "tr_comp T (en_key x) (en_key y) = 0" using mB yf by (simp add: B)
      have my: "marked (tr_comp T) (last_key None A) [(en_key y, en_id y, False)]"
      proof (cases "last_key None A")
        case (Some p)
        then have "key_less (tr_comp T) p (en_key x)" using mx nf by auto
        then have "key_less (tr_comp T) p (en_key y)" using yk by (rule less_key_zero)
        then show ?thesis using Some by simp
      qed simp
      have mk: "marked (tr_comp T) None (A @ (en_key y, en_id y, False) # B2)"
        using mA my mB by (auto simp: marked_append B)
      have hAB: "e \<notin> snd ` set (heads A)" "e \<notin> snd ` set (heads B2)"
        using eA eB heads_ids [of A] heads_ids [of B2] by (auto simp: B)
      have "inorder root = heads A @ (en_key y, en_id y) # heads B2"
        using io nf yf xe map_replace_id [OF hAB(1)] map_replace_id [OF hAB(2)]
        by (simp add: root_def L B)
      moreover have "distinct (map en_id (A @ (en_key y, en_id y, False) # B2))"
        using dist by (simp add: L B)
      ultimately have "avl_ok T'"
        using ok mk ad cnt by (simp add: avl_ok_def T'_def root_def L B)
      moreover have "avl_entries T' = plain (A @ B)"
        by (simp add: avl_entries_plain T'_def B)
      ultimately show ?thesis using ents by (simp add: r) (simp add: T'_def)
    next
      case last: False
      have "e \<in> snd ` set (inorder (tr_root T))" using nf xe by (force simp: io L)
      then obtain n p where loc: "avl_locate e (tr_root T) [] = Some (n, p)"
        using locate_exists [of e "tr_root T" "[]"] by auto
      then obtain l a b r where n: "n = Node l a b r" "snd a = e" and pl: "plug n p = tr_root T"
        using locate_props [OF loc] by auto
      define T' where "T' = T\<lparr>tr_list := A @ B, tr_count := tr_count T - 1, tr_root := remove_worker n p\<rparr>"
      have cond: "\<not> (tr_allow_dups T \<and> B \<noteq> [] \<and> en_follower (hd B))" using last by simp
      have rm: "avl_remove T e = T'"
        unfolding avl_remove_def foc option.case prod.case Let_def if_not_P [OF nf] if_not_P [OF cond] loc
        using rem by (simp add: T'_def)
      have dh: "distinct (map snd (heads (tr_list T)))"
        using dist by (simp add: heads_def comp_def distinct_map_filter)
      have wp: "avl_inv (remove_worker n p) \<and> inorder (remove_worker n p) = lefts p @ inorder l @ inorder r @ rights p"
        unfolding n by (rule remove_worker_props) (use inv dh io pl in \<open>simp_all add: n\<close>)
      have "(lefts p @ inorder l) @ a # (inorder r @ rights p) = heads A @ (en_key x, e) # heads B"
        using io nf xe by (simp add: L n flip: pl)
      moreover have "a \<notin> set (heads A)" "a \<notin> set (heads B)"
        using eA eB n(2) heads_ids [of A] heads_ids [of B] by auto
      moreover have "a = (en_key x, e)"
      proof -
        have "a \<in> set (heads A @ (en_key x, e) # heads B)" using calculation(1) by (metis in_set_conv_decomp)
        then show ?thesis using calculation(2,3) by auto
      qed
      ultimately have hAB: "heads A = lefts p @ inorder l \<and> heads B = inorder r @ rights p"
        by (metis append_Cons_eq_iff)
      have mAB: "marked (tr_comp T) None (A @ B)"
      proof (cases B)
        case (Cons y B2)
        then have nfy: "\<not> en_follower y" using last by simp
        then have xy: "key_less (tr_comp T) (en_key x) (en_key y)" using mB Cons by auto
        have "marked (tr_comp T) (last_key None A) [y]"
        proof (cases "last_key None A")
          case (Some p)
          then have "key_less (tr_comp T) p (en_key x)" using mx nf by auto
          then have "key_less (tr_comp T) p (en_key y)" using xy by (rule less_key_trans)
          then show ?thesis using Some nfy by auto
        qed (use nfy in simp)
        then show ?thesis using mA mB Cons by (simp add: marked_append)
      qed (use mA in simp)
      have "avl_ok T'" using ok wp hAB mAB dist dups cnt by (auto simp: avl_ok_def T'_def L)
      then show ?thesis using ents by (simp add: rm) (simp add: T'_def avl_entries_plain)
    qed
  qed
qed

subsection \<open>Neighbour searches\<close>

definition last_le :: "('k \<Rightarrow> 'k \<Rightarrow> int) \<Rightarrow> 'k \<Rightarrow> ('k \<times> 'e) list \<Rightarrow> 'e option" where
  "last_le cmp key xs = (let ys = filter (\<lambda>x. cmp key (fst x) \<ge> 0) xs in if ys = [] then None else Some (snd (last ys)))"

definition first_ge :: "('k \<Rightarrow> 'k \<Rightarrow> int) \<Rightarrow> 'k \<Rightarrow> ('k \<times> 'e) list \<Rightarrow> 'e option" where
  "first_ge cmp key xs = map_option snd (List.find (\<lambda>x. cmp key (fst x) \<le> 0) xs)"

lemma go_left_less_split:
  "go_left_less cmp key bef node aft (cmp key (en_key node)) = res \<Longrightarrow>
    (case res of None \<Rightarrow> \<forall>x \<in> set (node # bef). cmp key (en_key x) < 0
     | Some (n, ns) \<Rightarrow> cmp key (en_key n) \<ge> 0 \<and> (\<exists>pre. rev bef @ node # aft = pre @ n # ns))"
proof (induction bef arbitrary: node aft)
  case Nil
  then show ?case by (auto simp: go_left_less.simps [of _ _ "[]"] intro: exI [of _ "[]"])
next
  case (Cons p ps)
  show ?case
  proof (cases "cmp key (en_key node) < 0")
    case True
    then have "go_left_less cmp key ps p (node # aft) (cmp key (en_key p)) = res"
      using Cons.prems by (simp add: go_left_less.simps [of _ _ "p # ps"])
    from Cons.IH [OF this] show ?thesis using True by (auto split: option.splits)
  next
    case False
    then show ?thesis using Cons.prems by (auto simp: go_left_less.simps [of _ _ "p # ps"])
  qed
qed

lemma go_right_lessequal_split:
  "cmp key (en_key n) \<ge> 0 \<Longrightarrow> \<exists>pre post. n # ns = pre @ go_right_lessequal cmp key n ns # post
     \<and> cmp key (en_key (go_right_lessequal cmp key n ns)) \<ge> 0
     \<and> (case post of [] \<Rightarrow> True | x # xs \<Rightarrow> cmp key (en_key x) < 0)"
proof (induction ns arbitrary: n)
  case (Cons y ns)
  show ?case
  proof (cases "cmp key (en_key y) \<ge> 0")
    case True
    from Cons.IH [OF this] obtain pre post where "y # ns = pre @ go_right_lessequal cmp key y ns # post"
      "cmp key (en_key (go_right_lessequal cmp key y ns)) \<ge> 0"
      "case post of [] \<Rightarrow> True | x # xs \<Rightarrow> cmp key (en_key x) < 0" by blast
    moreover have "go_right_lessequal cmp key n (y # ns) = go_right_lessequal cmp key y ns" using True by simp
    ultimately show ?thesis by (intro exI [of _ "n # pre"] exI [of _ post]) auto
  next
    case False
    then show ?thesis using Cons.prems by (intro exI [of _ "[]"] exI [of _ "y # ns"]) auto
  qed
qed (auto intro: exI [of _ "[]"])

lemma go_right_greater_split:
  "go_right_greater cmp key bef node aft (cmp key (en_key node)) = res \<Longrightarrow>
    (case res of None \<Rightarrow> \<forall>x \<in> set (node # aft). cmp key (en_key x) > 0
     | Some (ps, n) \<Rightarrow> cmp key (en_key n) \<le> 0 \<and> (\<exists>post. rev bef @ node # aft = rev ps @ n # post))"
proof (induction aft arbitrary: node bef)
  case Nil
  then show ?case by (auto simp: go_right_greater.simps [of _ _ _ _ "[]"] intro: exI [of _ "[]"])
next
  case (Cons p ps)
  show ?case
  proof (cases "cmp key (en_key node) > 0")
    case True
    then have "go_right_greater cmp key (node # bef) p ps (cmp key (en_key p)) = res"
      using Cons.prems by (simp add: go_right_greater.simps [of _ _ _ _ "p # ps"])
    from Cons.IH [OF this] show ?thesis using True by (auto split: option.splits)
  next
    case False
    then show ?thesis using Cons.prems by (auto simp: go_right_greater.simps [of _ _ _ _ "p # ps"])
  qed
qed

lemma go_left_greaterequal_split:
  "cmp key (en_key n) \<le> 0 \<Longrightarrow> \<exists>pre post. rev ps @ [n] = pre @ go_left_greaterequal cmp key ps n # post
     \<and> cmp key (en_key (go_left_greaterequal cmp key ps n)) \<le> 0
     \<and> (pre = [] \<or> cmp key (en_key (last pre)) > 0)"
proof (induction ps arbitrary: n)
  case (Cons y ps)
  show ?case
  proof (cases "cmp key (en_key y) \<le> 0")
    case True
    from Cons.IH [OF this] obtain pre post where "rev ps @ [y] = pre @ go_left_greaterequal cmp key ps y # post"
      "cmp key (en_key (go_left_greaterequal cmp key ps y)) \<le> 0"
      "pre = [] \<or> cmp key (en_key (last pre)) > 0" by blast
    then show ?thesis using True by (intro exI [of _ pre] exI [of _ "post @ [n]"]) simp
  next
    case False
    then show ?thesis using Cons.prems by (intro exI [of _ "rev ps @ [y]"] exI [of _ "[]"]) auto
  qed
qed (auto intro: exI [of _ "[]"])

lemma empty_root:
  assumes "avl_ok T" "tr_root T = Leaf"
  shows "tr_list T = []"
proof -
  have "heads (tr_list T) = []" "marked (tr_comp T) None (tr_list T)"
    using assms by (auto simp: avl_ok_def)
  then show ?thesis by (cases "tr_list T") (auto split: if_splits)
qed

lemma avl_find_lessequal_last:
  assumes ok: "avl_ok T"
  shows "avl_find_lessequal T key = last_le (tr_comp T) key (avl_entries T)"
proof (cases "tr_root T = Leaf")
  case True
  then show ?thesis using empty_root [OF ok True] by (simp add: avl_find_lessequal_def avl_entries_def last_le_def)
next
  case False
  have C: "comparator (tr_comp T)" using ok by (simp add: avl_ok_def)
  note cmp_less_trans = comparator.cmp_less_trans [OF C]
    and marked_sorted = comparator.marked_sorted [OF C] and cmp_refl [simp] = comparator.cmp_refl [OF C]
  let ?c = "tr_comp T"
  have m: "marked ?c None (tr_list T)" using ok by (simp add: avl_ok_def)
  have sorted: "sorted_wrt (\<lambda>a b. ?c a b \<le> 0) (map fst (plain (tr_list T)))" by (rule marked_sorted [OF m])
  obtain n q d where f: "find_rec ?c key (tr_root T) [] = (n, q, d)" by (metis prod_cases3)
  from find_rec_split [OF ok False f] obtain l k e b r A B where
    n: "n = Node l (k, e) b r" and d: "d = ?c key k" and L: "tr_list T = A @ (k, e, False) # B"
    and eA: "e \<notin> en_id ` set A" by metis
  have foc: "list_focus e [] (tr_list T) = Some (rev A, (k, e, False), B)"
    using list_positions(3) [of "(k, e, False)" e A "[]" B] eA by (simp add: L)
  have below: "?c key b < 0" if "?c key a < 0" "?c a b \<le> 0" for a b using that by (rule cmp_less_trans)
  show ?thesis
  proof (cases "go_left_less ?c key (rev A) (k, e, False) B d")
    case None
    then have all: "\<forall>x \<in> set ((k, e, False) # rev A). ?c key (en_key x) < 0"
      using go_left_less_split [of ?c key "rev A" "(k, e, False)" B None] d by simp
    have "\<forall>x \<in> set B. ?c key (en_key x) < 0"
      using sorted all below by (auto simp: L plain_def sorted_wrt_append)
    then have "filter (\<lambda>x. ?c key (fst x) \<ge> 0) (plain (tr_list T)) = []"
      using all by (auto simp: L filter_empty_conv plain_def)
    then show ?thesis
      using f n foc None by (simp add: avl_find_lessequal_def last_le_def avl_entries_plain)
  next
    case (Some p)
    then obtain m' ns where gl: "go_left_less ?c key (rev A) (k, e, False) B d = Some (m', ns)" by (cases p) auto
    then obtain pre where ge: "?c key (en_key m') \<ge> 0" and L1: "tr_list T = pre @ m' # ns"
      using go_left_less_split [of ?c key "rev A" "(k, e, False)" B "Some (m', ns)"] d by (auto simp: L)
    define res where "res = go_right_lessequal ?c key m' ns"
    obtain pre2 post where s: "m' # ns = pre2 @ res # post" "?c key (en_key res) \<ge> 0"
      "case post of [] \<Rightarrow> True | x # xs \<Rightarrow> ?c key (en_key x) < 0"
      using go_right_lessequal_split [of ?c key m' ns] ge unfolding res_def by blast
    have L2: "tr_list T = (pre @ pre2) @ res # post" using L1 s(1) by simp
    have "\<forall>x \<in> set post. ?c key (en_key x) < 0"
    proof (cases post)
      case (Cons y ys)
      then show ?thesis using s(3) sorted below by (auto simp: L2 plain_def sorted_wrt_append)
    qed simp
    then have "filter (\<lambda>x. ?c key (fst x) \<ge> 0) (plain post) = []"
      by (auto simp: filter_empty_conv plain_def)
    then have "last_le ?c key (plain (tr_list T)) = Some (en_id res)"
      using s(2) by (simp add: last_le_def L2 Let_def)
    then show ?thesis
      using f n foc gl by (simp add: avl_find_lessequal_def avl_entries_plain res_def)
  qed
qed

lemma avl_find_greaterequal_first:
  assumes ok: "avl_ok T"
  shows "avl_find_greaterequal T key = first_ge (tr_comp T) key (avl_entries T)"
proof (cases "tr_root T = Leaf")
  case True
  then show ?thesis using empty_root [OF ok True] by (simp add: avl_find_greaterequal_def avl_entries_def first_ge_def)
next
  case False
  have C: "comparator (tr_comp T)" using ok by (simp add: avl_ok_def)
  note cmp_neg = comparator.cmp_neg [OF C] and cmp_le_less_trans = comparator.cmp_le_less_trans [OF C]
    and marked_sorted = comparator.marked_sorted [OF C] and cmp_refl [simp] = comparator.cmp_refl [OF C]
  let ?c = "tr_comp T"
  have m: "marked ?c None (tr_list T)" using ok by (simp add: avl_ok_def)
  have sorted: "sorted_wrt (\<lambda>a b. ?c a b \<le> 0) (map fst (plain (tr_list T)))" by (rule marked_sorted [OF m])
  obtain n q d where f: "find_rec ?c key (tr_root T) [] = (n, q, d)" by (metis prod_cases3)
  from find_rec_split [OF ok False f] obtain l k e b r A B where
    n: "n = Node l (k, e) b r" and d: "d = ?c key k" and L: "tr_list T = A @ (k, e, False) # B"
    and eA: "e \<notin> en_id ` set A" by metis
  have foc: "list_focus e [] (tr_list T) = Some (rev A, (k, e, False), B)"
    using list_positions(3) [of "(k, e, False)" e A "[]" B] eA by (simp add: L)
  have above: "?c key a > 0" if "?c key b > 0" "?c a b \<le> 0" for a b
    using that cmp_le_less_trans [of a b key] by (simp add: cmp_neg)
  show ?thesis
  proof (cases "go_right_greater ?c key (rev A) (k, e, False) B d")
    case None
    then have all: "\<forall>x \<in> set ((k, e, False) # B). ?c key (en_key x) > 0"
      using go_right_greater_split [of ?c key "rev A" "(k, e, False)" B None] d by simp
    have "\<forall>x \<in> set A. ?c key (en_key x) > 0"
      using sorted all above by (auto simp: L plain_def sorted_wrt_append)
    then have "\<forall>x \<in> set (plain (tr_list T)). \<not> ?c key (fst x) \<le> 0"
      using all by (auto simp: L plain_def)
    then have "List.find (\<lambda>x. ?c key (fst x) \<le> 0) (plain (tr_list T)) = None"
      by (auto simp: find_None_iff)
    then show ?thesis
      using f n foc None by (simp add: avl_find_greaterequal_def first_ge_def avl_entries_plain)
  next
    case (Some p)
    then obtain m' ps where gl: "go_right_greater ?c key (rev A) (k, e, False) B d = Some (ps, m')" by (cases p) auto
    then obtain post where ge: "?c key (en_key m') \<le> 0" and L1: "tr_list T = rev ps @ m' # post"
      using go_right_greater_split [of ?c key "rev A" "(k, e, False)" B "Some (ps, m')"] d by (auto simp: L)
    define res where "res = go_left_greaterequal ?c key ps m'"
    obtain pre post2 where s: "rev ps @ [m'] = pre @ res # post2" "?c key (en_key res) \<le> 0"
      "pre = [] \<or> ?c key (en_key (last pre)) > 0"
      using go_left_greaterequal_split [of ?c key m' ps] ge unfolding res_def by blast
    have L2: "tr_list T = pre @ res # post2 @ post" using L1 s(1) by (metis append.assoc append_Cons append_Nil)
    have "\<forall>x \<in> set pre. ?c key (en_key x) > 0"
    proof (cases "pre = []")
      case False
      then have P: "pre = butlast pre @ [last pre]" by simp
      have "sorted_wrt (\<lambda>a b. ?c a b \<le> 0) (map fst (plain (butlast pre @ [last pre])))"
        using sorted unfolding L2 P [symmetric] by (simp add: sorted_wrt_append)
      then have "\<forall>x \<in> set (butlast pre). ?c (en_key x) (en_key (last pre)) \<le> 0"
        by (auto simp: plain_def sorted_wrt_append)
      moreover have l: "?c key (en_key (last pre)) > 0" using s(3) False by simp
      ultimately have "\<forall>x \<in> set (butlast pre). ?c key (en_key x) > 0" using above by blast
      then have "\<forall>x \<in> set (butlast pre @ [last pre]). ?c key (en_key x) > 0" using l by simp
      then show ?thesis by (simp only: P [symmetric])
    qed simp
    then have "\<forall>x \<in> set (plain pre). \<not> ?c key (fst x) \<le> 0" by (auto simp: plain_def)
    then have "first_ge ?c key (plain (tr_list T)) = Some (en_id res)"
      using s(2) find_skip [of "plain pre" "\<lambda>x. ?c key (fst x) \<le> 0"] by (simp add: first_ge_def L2)
    then show ?thesis
      using f n foc gl by (simp add: avl_find_greaterequal_def avl_entries_plain res_def)
  qed
qed

subsection \<open>Height\<close>

lemma avl_height_bound: "avl_inv t \<Longrightarrow> 2 ^ (nat (avl_height t) div 2) \<le> length (inorder t) + 1"
proof (induction t)
  case (Node l a b r)
  define h where "h = nat (avl_height (Node l a b r)) - 2"
  have hl: "h \<le> nat (avl_height l)" and hr: "h \<le> nat (avl_height r)"
    using Node.prems avl_height_nonneg [of l] avl_height_nonneg [of r] by (auto simp: h_def)
  have "2 ^ (h div 2) \<le> (2::nat) ^ (nat (avl_height l) div 2)" "2 ^ (h div 2) \<le> (2::nat) ^ (nat (avl_height r) div 2)"
    using hl hr by (simp_all add: div_le_mono power_increasing)
  moreover have "2 ^ (nat (avl_height l) div 2) \<le> length (inorder l) + 1"
    "2 ^ (nat (avl_height r) div 2) \<le> length (inorder r) + 1" using Node by simp_all
  moreover have "length (inorder (Node l a b r)) = length (inorder l) + length (inorder r) + 1" by simp
  ultimately have "2 * 2 ^ (h div 2) \<le> length (inorder (Node l a b r)) + 1" by linarith
  moreover have "nat (avl_height (Node l a b r)) div 2 \<le> Suc (h div 2)"
    by (simp add: h_def)
  ultimately show ?case
    using power_increasing [of "nat (avl_height (Node l a b r)) div 2" "Suc (h div 2)" "2::nat"] by simp
qed simp

subsection \<open>The index interface\<close>

lemma sorted_wrt_distinct: "sorted_wrt R xs \<Longrightarrow> (\<And>x. \<not> R x x) \<Longrightarrow> distinct xs"
  by (induction xs) auto

text \<open>
  What the other components rely on: an index keeps its entries in the order of a comparator, finds
  the first entry with a key, refuses or admits duplicates, and removes an entry by its identity.
\<close>

locale ordered_index =
  fixes ok :: "'t \<Rightarrow> bool"
    and kcmp :: "'t \<Rightarrow> 'k \<Rightarrow> 'k \<Rightarrow> int"
    and dups :: "'t \<Rightarrow> bool"
    and ents :: "'t \<Rightarrow> ('k \<times> 'e) list"
    and look :: "'t \<Rightarrow> 'k \<Rightarrow> 'e option"
    and ins :: "'t \<Rightarrow> 'k \<Rightarrow> 'e \<Rightarrow> int \<times> 't"
    and del :: "'t \<Rightarrow> 'e \<Rightarrow> 't"
  assumes ok_comparator: "ok t \<Longrightarrow> comparator (kcmp t)"
    and ok_sorted: "ok t \<Longrightarrow> sorted_wrt (\<lambda>x y. kcmp t (fst x) (fst y) \<le> 0) (ents t)"
    and ok_strict: "ok t \<Longrightarrow> \<not> dups t \<Longrightarrow> sorted_wrt (\<lambda>x y. kcmp t (fst x) (fst y) < 0) (ents t)"
    and ok_distinct: "ok t \<Longrightarrow> distinct (map snd (ents t))"
    and look_first: "ok t \<Longrightarrow> look t k = first_with (kcmp t) k (ents t)"
    and ins_refused: "ok t \<Longrightarrow> e \<notin> snd ` set (ents t) \<Longrightarrow> look t k \<noteq> None \<Longrightarrow> \<not> dups t \<Longrightarrow> ins t k e = (- 1, t)"
    and ins_done: "ok t \<Longrightarrow> e \<notin> snd ` set (ents t) \<Longrightarrow> look t k = None \<or> dups t \<Longrightarrow>
        \<exists>t'. ins t k e = (0, t') \<and> ok t' \<and> ents t' = ord_insert (kcmp t) (k, e) (ents t)
          \<and> kcmp t' = kcmp t \<and> dups t' = dups t"
    and del_done: "ok t \<Longrightarrow> e \<in> snd ` set (ents t) \<Longrightarrow>
        ok (del t e) \<and> ents (del t e) = filter (\<lambda>x. snd x \<noteq> e) (ents t)
          \<and> kcmp (del t e) = kcmp t \<and> dups (del t e) = dups t"
begin

lemma look_None: "ok t \<Longrightarrow> look t k = None \<longleftrightarrow> (\<forall>x \<in> set (ents t). kcmp t k (fst x) \<noteq> 0)"
  by (auto simp: look_first first_with_def find_None_iff)

lemma look_Some: "ok t \<Longrightarrow> look t k = Some e \<Longrightarrow> \<exists>k'. (k', e) \<in> set (ents t) \<and> kcmp t k k' = 0"
proof -
  assume "ok t" "look t k = Some e"
  then obtain x where "List.find (\<lambda>x. kcmp t k (fst x) = 0) (ents t) = Some x" "e = snd x"
    by (auto simp: look_first first_with_def)
  then have "x \<in> set (ents t)" "kcmp t k (fst x) = 0" "e = snd x"
    by (auto simp: find_Some_iff)
  then show ?thesis by (metis prod.collapse)
qed

text \<open>With a comparator that only identifies equal keys, the index without duplicates is a map.\<close>

lemma look_iff:
  assumes ok: "ok t" "\<not> dups t" and s: "strict_comparator (kcmp t)"
  shows "look t k = Some e \<longleftrightarrow> (k, e) \<in> set (ents t)"
proof
  note z = strict_comparator.cmp_zero_iff [OF s, simp] and C = strict_comparator.axioms(1) [OF s]
  note r = comparator.cmp_refl [OF C, simp]
  show "look t k = Some e \<Longrightarrow> (k, e) \<in> set (ents t)"
    using look_Some [OF ok(1)] by fastforce
  assume m: "(k, e) \<in> set (ents t)"
  then have "look t k \<noteq> None" using look_None [OF ok(1)] by fastforce
  then obtain e' where e': "look t k = Some e'" by auto
  then have m': "(k, e') \<in> set (ents t)" using look_Some [OF ok(1)] by fastforce
  have "distinct (map fst (ents t))"
  proof -
    have "sorted_wrt (\<lambda>a b. kcmp t a b < 0) (map fst (ents t))"
      using ok_strict [OF ok] by (simp add: sorted_wrt_map)
    then show ?thesis by (rule sorted_wrt_distinct) simp
  qed
  then show "look t k = Some e" using e' m m' by (metis eq_key_imp_eq_value)
qed

lemma ins_new:
  assumes "ok t" "look t k = None" "e \<notin> snd ` set (ents t)"
  shows "\<exists>t'. ins t k e = (0, t') \<and> ok t' \<and> set (ents t') = insert (k, e) (set (ents t))
    \<and> kcmp t' = kcmp t \<and> dups t' = dups t"
  using ins_done [OF assms(1,3)] assms(2) set_ord_insert by metis

lemma del_old:
  assumes "ok t" "e \<in> snd ` set (ents t)"
  shows "ok (del t e) \<and> set (ents (del t e)) = {x \<in> set (ents t). snd x \<noteq> e}
    \<and> kcmp (del t e) = kcmp t \<and> dups (del t e) = dups t"
  using del_done [OF assms] by auto

text \<open>The first entry has the least key.\<close>

lemma first_least: "ok t \<Longrightarrow> ents t = x # xs \<Longrightarrow> y \<in> set (ents t) \<Longrightarrow> kcmp t (fst x) (fst y) \<le> 0"
  using ok_sorted [of t] comparator.cmp_refl [OF ok_comparator] by fastforce

end

lemma plain_sorted:
  assumes "avl_ok T"
  shows "sorted_wrt (\<lambda>x y. tr_comp T (fst x) (fst y) \<le> 0) (avl_entries T)"
proof -
  have C: "comparator (tr_comp T)" using assms by (simp add: avl_ok_def)
  note marked_sorted = comparator.marked_sorted [OF C] and cmp_refl [simp] = comparator.cmp_refl [OF C]
  have "marked (tr_comp T) None (tr_list T)" using assms by (simp add: avl_ok_def)
  from marked_sorted [OF this] show ?thesis by (simp add: avl_entries_plain sorted_wrt_map)
qed

lemma plain_strict:
  assumes "avl_ok T" "\<not> tr_allow_dups T"
  shows "sorted_wrt (\<lambda>x y. tr_comp T (fst x) (fst y) < 0) (avl_entries T)"
proof -
  have C: "comparator (tr_comp T)" using assms by (simp add: avl_ok_def)
  note marked_heads_sorted = comparator.marked_heads_sorted [OF C]
    and cmp_refl [simp] = comparator.cmp_refl [OF C]
  have m: "marked (tr_comp T) None (tr_list T)" and "list_all (\<lambda>x. \<not> en_follower x) (tr_list T)"
    using assms by (simp_all add: avl_ok_def)
  then have "heads (tr_list T) = avl_entries T"
    by (simp add: heads_def avl_entries_def list_all_iff)
  then show ?thesis using marked_heads_sorted [OF m] by (simp add: sorted_wrt_map)
qed

lemma avl_ids: "snd ` set (avl_entries T) = set (avl_elements T)"
  by (auto simp: avl_entries_def avl_elements_def image_image)

interpretation avl: ordered_index avl_ok tr_comp tr_allow_dups avl_entries avl_find avl_insert avl_remove
proof
  fix t :: "('a, 'b) avl_tree" and k :: 'a and e :: 'b
  show "avl_ok t \<Longrightarrow> tr_comp t a b < 0 \<longleftrightarrow> 0 < tr_comp t b a" for a b
    by (simp add: avl_ok_def comparator.cmp_neg)
  show "avl_ok t \<Longrightarrow> tr_comp t a b \<le> 0 \<Longrightarrow> tr_comp t b c \<le> 0 \<Longrightarrow> tr_comp t a c \<le> 0" for a b c
    by (auto simp: avl_ok_def intro: comparator.cmp_trans)
  show "avl_ok t \<Longrightarrow> sorted_wrt (\<lambda>x y. tr_comp t (fst x) (fst y) \<le> 0) (avl_entries t)"
    by (rule plain_sorted)
  show "avl_ok t \<Longrightarrow> \<not> tr_allow_dups t \<Longrightarrow> sorted_wrt (\<lambda>x y. tr_comp t (fst x) (fst y) < 0) (avl_entries t)"
    by (rule plain_strict)
  show "avl_ok t \<Longrightarrow> distinct (map snd (avl_entries t))"
    by (simp add: avl_ok_def avl_entries_def comp_def)
  show "avl_ok t \<Longrightarrow> avl_find t k = first_with (tr_comp t) k (avl_entries t)"
    by (rule avl_find_first)
  show "avl_ok t \<Longrightarrow> e \<notin> snd ` set (avl_entries t) \<Longrightarrow> avl_find t k \<noteq> None \<Longrightarrow> \<not> tr_allow_dups t \<Longrightarrow>
      avl_insert t k e = (- 1, t)"
    using avl_insert_result [of t e k] by (simp add: avl_ids)
  show "avl_ok t \<Longrightarrow> e \<notin> snd ` set (avl_entries t) \<Longrightarrow> avl_find t k = None \<or> tr_allow_dups t \<Longrightarrow>
      \<exists>t'. avl_insert t k e = (0, t') \<and> avl_ok t'
        \<and> avl_entries t' = ord_insert (tr_comp t) (k, e) (avl_entries t)
        \<and> tr_comp t' = tr_comp t \<and> tr_allow_dups t' = tr_allow_dups t"
    using avl_insert_result [of t e k] by (auto simp: avl_ids)
  show "avl_ok t \<Longrightarrow> e \<in> snd ` set (avl_entries t) \<Longrightarrow>
      avl_ok (avl_remove t e) \<and> avl_entries (avl_remove t e) = filter (\<lambda>x. snd x \<noteq> e) (avl_entries t)
        \<and> tr_comp (avl_remove t e) = tr_comp t \<and> tr_allow_dups (avl_remove t e) = tr_allow_dups t"
    using avl_remove_result [of t e] by (simp add: avl_ids)
qed

lemma avl_init_ok: "comparator c \<Longrightarrow> avl_ok (avl_init c d)"
  by (simp add: avl_ok_def avl_init_def)

lemma avl_init_simps [simp]:
  "avl_entries (avl_init c d) = []" "tr_comp (avl_init c d) = c" "tr_allow_dups (avl_init c d) = d"
  by (simp_all add: avl_init_def avl_entries_def)

lemma avl_is_empty_iff: "avl_ok T \<Longrightarrow> avl_is_empty T \<longleftrightarrow> avl_entries T = []"
  by (auto simp: avl_is_empty_def avl_ok_def avl_entries_def)

subsection \<open>Properties\<close>

text \<open>
  C4. Insertion: a node with a key that is present is refused exactly when the tree does not allow
  duplicates, and the tree is left as it was; otherwise the node is put into the ordered sequence of
  nodes, directly behind the first node with its key, and balance, list, flags and count of the tree
  stay consistent.
\<close>

theorem avl_insert_correct:
  assumes "avl_ok T" "e \<notin> set (avl_elements T)"
  shows "if avl_find T key \<noteq> None \<and> \<not> tr_allow_dups T then avl_insert T key e = (- 1, T)
    else \<exists>T'. avl_insert T key e = (0, T') \<and> avl_ok T'
      \<and> avl_entries T' = ord_insert (tr_comp T) (key, e) (avl_entries T)"
  using avl_insert_result [OF assms, of key] by (auto split: if_splits)

theorem avl_insert_correct_witness:
  "avl_insert (snd (avl_insert (avl_init avl_comp_uint8 False) 5 ''a'')) 5 ''b''
     = (- 1, snd (avl_insert (avl_init avl_comp_uint8 False) 5 ''a''))"
proof -
  have 0: "avl_ok (avl_init avl_comp_uint8 False)" by (rule avl_init_ok) unfold_locales
  have "\<exists>T'. avl_insert (avl_init avl_comp_uint8 False) 5 ''a'' = (0, T') \<and> avl_ok T'
      \<and> avl_entries T' = [(5, ''a'')]"
    using avl_insert_correct [OF 0, of "''a''" 5] by (simp add: avl_find_def avl_init_def avl_entries_def avl_elements_def)
  then obtain T' where T': "avl_insert (avl_init avl_comp_uint8 False) 5 ''a'' = (0, T')" "avl_ok T'"
    "avl_entries T' = [(5, ''a'')]" by blast
  have "tr_comp T' = avl_comp_uint8" "\<not> tr_allow_dups T'"
    using T'(1) by (auto simp: avl_insert_def avl_init_def)
  moreover have "''b'' \<notin> set (avl_elements T')" using T'(3) avl_ids [of T'] by (simp flip: avl_ids)
  ultimately show ?thesis
    using avl_insert_correct [OF T'(2), of "''b''" 5] T' by (simp add: avl.look_first first_with_def)
qed

text \<open>
  C5. Removal: removing a node of the tree takes exactly this node out of the ordered sequence, also
  when it is the first of several nodes with its key, and keeps the tree consistent.
\<close>

theorem avl_remove_correct:
  assumes "avl_ok T" "e \<in> set (avl_elements T)"
  shows "avl_ok (avl_remove T e) \<and> avl_entries (avl_remove T e) = filter (\<lambda>x. snd x \<noteq> e) (avl_entries T)"
  using avl_remove_result [OF assms] by blast

theorem avl_remove_correct_witness:
  "avl_entries (avl_remove (snd (avl_insert (avl_init avl_comp_uint8 True) 5 ''a'')) ''a'') = []"
proof -
  have 0: "avl_ok (avl_init avl_comp_uint8 True)" by (rule avl_init_ok) unfold_locales
  obtain T' where T': "avl_insert (avl_init avl_comp_uint8 True) 5 ''a'' = (0, T')" "avl_ok T'"
    "avl_entries T' = [(5, ''a'')]"
    using avl.ins_done [OF 0, of "''a''" 5] by auto
  have "''a'' \<in> set (avl_elements T')" using T'(3) by (simp flip: avl_ids)
  from avl_remove_correct [OF T'(2) this] show ?thesis using T' by simp
qed

text \<open>
  C6. Lookup: \<open>avl_find\<close> returns the first node with the key, \<open>avl_find_lessequal\<close> the last node
  with a key not above and \<open>avl_find_greaterequal\<close> the first with a key not below it, each a null
  pointer when there is no such node.
\<close>

theorem avl_lookup_correct:
  assumes "avl_ok T"
  shows "avl_find T key = first_with (tr_comp T) key (avl_entries T)
    \<and> avl_find_lessequal T key = last_le (tr_comp T) key (avl_entries T)
    \<and> avl_find_greaterequal T key = first_ge (tr_comp T) key (avl_entries T)"
  using avl_find_first [OF assms] avl_find_lessequal_last [OF assms] avl_find_greaterequal_first [OF assms] by blast

theorem avl_lookup_correct_witness:
  "avl_find_lessequal (snd (avl_insert (avl_init avl_comp_uint8 True) 5 ''a'')) 9 = Some ''a''"
proof -
  have 0: "avl_ok (avl_init avl_comp_uint8 True)" by (rule avl_init_ok) unfold_locales
  obtain T' where T': "avl_insert (avl_init avl_comp_uint8 True) 5 ''a'' = (0, T')" "avl_ok T'"
    "avl_entries T' = [(5, ''a'')]" "tr_comp T' = avl_comp_uint8"
    using avl.ins_done [OF 0, of "''a''" 5] by auto
  show ?thesis using avl_lookup_correct [OF T'(2), of 9] T' by (simp add: last_le_def avl_comp_uint8_def)
qed

text \<open>
  The trees that the operations build: from an initialised tree by insertions of elements that are not
  in it (accepted or refused) and removals of elements that are in it.
\<close>

inductive avl_built :: "('k, 'e) avl_tree \<Rightarrow> bool" where
  built_init: "comparator c \<Longrightarrow> avl_built (avl_init c d)"
| built_insert: "avl_built T \<Longrightarrow> e \<notin> set (avl_elements T) \<Longrightarrow> avl_built (snd (avl_insert T key e))"
| built_remove: "avl_built T \<Longrightarrow> e \<in> set (avl_elements T) \<Longrightarrow> avl_built (avl_remove T e)"

lemma avl_insert_ok:
  assumes "avl_ok T" "e \<notin> set (avl_elements T)"
  shows "avl_ok (snd (avl_insert T key e))"
proof (cases "avl_find T key \<noteq> None \<and> \<not> tr_allow_dups T")
  case True
  then have "avl_insert T key e = (- 1, T)" using avl.ins_refused [OF assms(1)] assms(2) by (simp add: avl_ids)
  then show ?thesis using assms(1) by simp
next
  case False
  then obtain T' where "avl_insert T key e = (0, T')" "avl_ok T'"
    using avl.ins_done [OF assms(1), of e key] assms(2) by (auto simp: avl_ids)
  then show ?thesis by simp
qed

lemma avl_built_ok: "avl_built T \<Longrightarrow> avl_ok T"
proof (induction rule: avl_built.induct)
  case (built_insert T e key)
  show ?case by (rule avl_insert_ok) fact+
next
  case (built_remove T e)
  then show ?case using avl_remove_result [of T e] by blast
qed (rule avl_init_ok)

text \<open>
  C7. The tree stays shallow: in every tree that insertions and removals build, in any order and with or
  without equal keys, the count is the number of elements and a tree of height \<open>h\<close> has at least
  \<open>2 ^ (h div 2) - 1\<close> of them, so that a search takes a number of comparisons logarithmic in the count.
\<close>

theorem avl_height_logarithmic:
  fixes T :: "('k, 'e) avl_tree"
  assumes "avl_built T"
  shows "avl_height (tr_root T) \<ge> 0 \<and> 2 ^ (nat (avl_height (tr_root T)) div 2) \<le> tr_count T + 1
    \<and> tr_count T = length (avl_elements T)"
proof -
  have ok: "avl_ok T" by (rule avl_built_ok) fact
  have "length (heads (tr_list T)) \<le> tr_count T" using ok by (simp add: avl_ok_def heads_def)
  then show ?thesis using avl_height_bound [of "tr_root T"] ok
    by (simp add: avl_ok_def avl_elements_def)
qed

theorem avl_height_logarithmic_witness:
  "\<exists>T :: (u8, nat) avl_tree. T = avl_remove (snd (avl_insert (snd (avl_insert (snd (avl_insert (snd (avl_insert
        (snd (avl_insert (avl_init avl_comp_uint8 False) 1 10)) 2 20)) 3 30)) 4 40)) 5 50)) 10
    \<and> avl_height (tr_root T) = 3 \<and> tr_count T = 4
    \<and> 2 ^ (nat (avl_height (tr_root T)) div 2) \<le> tr_count T + 1"
proof -
  define T0 :: "(u8, nat) avl_tree" where "T0 = avl_init avl_comp_uint8 False"
  define T1 where "T1 = snd (avl_insert T0 1 10)"
  define T2 where "T2 = snd (avl_insert T1 2 20)"
  define T3 where "T3 = snd (avl_insert T2 3 30)"
  define T4 where "T4 = snd (avl_insert T3 4 40)"
  define T5 where "T5 = snd (avl_insert T4 5 50)"
  define T6 where "T6 = avl_remove T5 10"
  note defs = T0_def T1_def T2_def T3_def T4_def T5_def T6_def
  have b0: "avl_built T0" unfolding T0_def by (rule built_init) unfold_locales
  have n: "10 \<notin> set (avl_elements T0)" "20 \<notin> set (avl_elements T1)" "30 \<notin> set (avl_elements T2)"
    "40 \<notin> set (avl_elements T3)" "50 \<notin> set (avl_elements T4)" "10 \<in> set (avl_elements T5)"
    unfolding defs by code_simp+
  have b5: "avl_built T5"
    unfolding T1_def T2_def T3_def T4_def T5_def
    by (intro built_insert b0 n [unfolded T1_def T2_def T3_def T4_def])
  have b6: "avl_built T6" unfolding T6_def by (rule built_remove [OF b5 n(6)])
  have h: "avl_height (tr_root T6) = 3" "tr_count T6 = 4" unfolding defs by code_simp+
  show ?thesis
    using avl_height_logarithmic [OF b6] h unfolding defs by blast
qed

end
