(* ===== verification/Duplicate_Set.thy ===== *)
theory Duplicate_Set
  imports Avl
begin

text \<open>
  The duplicate set (\<open>src-plugins/subsystems/oonf_duplicate_set.c\<close>): for every pair of originator and
  message type the newest sequence number and a bit window of the 32 numbers up to it. The entries live
  in a store from pointers to records, the tree holds the pointers. The validity timer of an entry is
  the interval it was last armed with, \<open>None\<close> when it is stopped; its expiry is the operation
  \<open>cb_vtime\<close>. Signed 64 bit values are words read with \<open>sint\<close>.
\<close>

subsection \<open>State\<close>

datatype dup_result = TOO_OLD | DUPLICATE | NEW | CURRENT | NEWEST | FIRST

datatype dupset_type = DUPSET_8BIT | DUPSET_16BIT | DUPSET_32BIT | DUPSET_64BIT

record dup_key =
  dk_addr :: netaddr
  dk_msg_type :: u8

record dup_entry =
  de_key :: dup_key
  de_history :: u64
  de_current :: u64
  de_too_old_count :: u16
  de_vtime :: "u64 option"

record dup_set =
  ds_tree :: "(dup_key, ptr) avl_tree"
  ds_mask :: u64
  ds_limit :: u64
  ds_offset :: u64
  ds_store :: "ptr \<Rightarrow> dup_entry option"

definition dup_result_str :: "dup_result \<Rightarrow> string" where
  "dup_result_str r =
     (case r of TOO_OLD \<Rightarrow> ''too old'' | DUPLICATE \<Rightarrow> ''duplicate'' | CURRENT \<Rightarrow> ''current''
      | NEW \<Rightarrow> ''new'' | NEWEST \<Rightarrow> ''newest'' | FIRST \<Rightarrow> ''first'')"

definition duplicate_is_new :: "dup_result \<Rightarrow> bool" where
  "duplicate_is_new r = (r = NEW \<or> r = NEWEST \<or> r = FIRST)"

definition MAXIMUM_TOO_OLD :: u16 where "MAXIMUM_TOO_OLD = 8"

definition avl_cmp_dupkey :: "dup_key \<Rightarrow> dup_key \<Rightarrow> int" where
  "avl_cmp_dupkey k1 k2 =
     (if dk_msg_type k1 \<noteq> dk_msg_type k2 then uint (dk_msg_type k1) - uint (dk_msg_type k2)
      else avl_comp_netaddr (dk_addr k1) (dk_addr k2))"

subsection \<open>Operations\<close>

definition mask_value :: "dupset_type \<Rightarrow> u64" where
  "mask_value t = (case t of DUPSET_8BIT \<Rightarrow> 255 | DUPSET_16BIT \<Rightarrow> 65535 | DUPSET_32BIT \<Rightarrow> 4294967295
                   | DUPSET_64BIT \<Rightarrow> 0)"

definition duplicate_set_add :: "dupset_type \<Rightarrow> dup_set" where
  "duplicate_set_add t =
     (let s = \<lparr>ds_tree = avl_init avl_cmp_dupkey False, ds_mask = 0, ds_limit = 0, ds_offset = 0,
               ds_store = (\<lambda>_. None)\<rparr>
      in if t \<noteq> DUPSET_64BIT
         then s\<lparr>ds_mask := mask_value t, ds_offset := mask_value t + 1, ds_limit := mask_value t div 2\<rparr>
         else s)"

definition seqno_difference :: "dup_set \<Rightarrow> u64 \<Rightarrow> u64 \<Rightarrow> u64" where
  "seqno_difference S seqno1 seqno2 =
     (let diff = seqno1 - seqno2
      in if ds_mask S \<noteq> 0
         then let reldiff = diff AND ds_mask S
              in if sint reldiff > sint (ds_limit S) then reldiff - ds_offset S else reldiff
         else diff)"

definition dup_test :: "dup_set \<Rightarrow> dup_entry \<Rightarrow> u64 \<Rightarrow> bool \<Rightarrow> dup_result \<times> dup_entry" where
  "dup_test S e seqno st =
     (if seqno = de_current e then (CURRENT, e)
      else
        let diff = seqno_difference S seqno (de_current e)
        in if sint diff < - 31
           then let e1 = e\<lparr>de_too_old_count := de_too_old_count e + 1\<rparr>
                in if de_too_old_count e1 > MAXIMUM_TOO_OLD
                   then (NEWEST, e1\<lparr>de_history := 1, de_too_old_count := 0, de_current := seqno\<rparr>)
                   else (TOO_OLD, e1)
           else
             let e1 = e\<lparr>de_too_old_count := 0\<rparr>
             in if sint diff \<le> 0
                then let bitmask = push_bit (unat (ucast (- diff) :: u32)) (1 :: u32)
                     in if de_history e1 AND ucast bitmask \<noteq> 0 then (DUPLICATE, e1)
                        else if st then (NEW, e1\<lparr>de_history := de_history e1 OR ucast bitmask\<rparr>)
                        else (NEW, e1)
                else if st
                then (NEWEST, e1\<lparr>de_current := seqno,
                        de_history := (if sint diff \<ge> 32 then 1
                                       else push_bit (unat diff) (de_history e1) OR 1)\<rparr>)
                else (NEWEST, e1))"

text \<open>
  \<open>oonf_timer_start\<close> and \<open>oonf_timer_set\<close> on the validity timer; a time of 0 given to the latter
  stops the timer.
\<close>

definition timer_set :: "dup_entry \<Rightarrow> u64 \<Rightarrow> dup_entry" where
  "timer_set e vtime = e\<lparr>de_vtime := (if vtime = 0 then None else Some vtime)\<rparr>"

text \<open>
  \<open>oonf_duplicate_entry_add\<close>; \<open>alloc\<close> is the pointer of a new zeroed entry, \<open>None\<close> when there is no
  memory.
\<close>

definition duplicate_entry_add ::
  "ptr option \<Rightarrow> dup_set \<Rightarrow> u8 \<Rightarrow> netaddr \<Rightarrow> u64 \<Rightarrow> u64 \<Rightarrow> dup_result \<times> dup_set" where
  "duplicate_entry_add alloc S msg_type originator seqno vtime =
     (let key = \<lparr>dk_addr = originator, dk_msg_type = msg_type\<rparr>
      in case avl_find (ds_tree S) key of
           None \<Rightarrow>
             (case alloc of None \<Rightarrow> (TOO_OLD, S)
              | Some p \<Rightarrow>
                  let e = \<lparr>de_key = key, de_history = 1, de_current = seqno, de_too_old_count = 0,
                           de_vtime = Some vtime\<rparr>
                  in (FIRST, S\<lparr>ds_tree := snd (avl_insert (ds_tree S) key p),
                               ds_store := (ds_store S)(p \<mapsto> timer_set e vtime)\<rparr>))
         | Some p \<Rightarrow>
             (case ds_store S p of None \<Rightarrow> (TOO_OLD, S)
              | Some e \<Rightarrow>
                  let r = dup_test S e seqno True;
                      e1 = (if duplicate_is_new (fst r) then timer_set (snd r) vtime else snd r)
                  in (fst r, S\<lparr>ds_store := (ds_store S)(p \<mapsto> e1)\<rparr>)))"

definition duplicate_test :: "dup_set \<Rightarrow> u8 \<Rightarrow> netaddr \<Rightarrow> u64 \<Rightarrow> dup_result \<times> dup_set" where
  "duplicate_test S msg_type originator seqno =
     (case avl_find (ds_tree S) \<lparr>dk_addr = originator, dk_msg_type = msg_type\<rparr> of
        None \<Rightarrow> (FIRST, S)
      | Some p \<Rightarrow>
          (case ds_store S p of None \<Rightarrow> (FIRST, S)
           | Some e \<Rightarrow> let r = dup_test S e seqno False
                       in (fst r, S\<lparr>ds_store := (ds_store S)(p \<mapsto> snd r)\<rparr>)))"

definition remove_duplicate_entry :: "dup_set \<Rightarrow> ptr \<Rightarrow> dup_set" where
  "remove_duplicate_entry S p =
     S\<lparr>ds_tree := avl_remove (ds_tree S) p, ds_store := (ds_store S)(p := None)\<rparr>"

definition cb_vtime :: "dup_set \<Rightarrow> ptr \<Rightarrow> dup_set" where
  "cb_vtime S p = remove_duplicate_entry S p"

definition duplicate_set_remove :: "dup_set \<Rightarrow> dup_set" where
  "duplicate_set_remove S = fold (\<lambda>p S. remove_duplicate_entry S p) (avl_elements (ds_tree S)) S"

subsection \<open>Sequence number differences\<close>

text \<open>The number of bits of a sequence number.\<close>

definition seqno_bits :: "dupset_type \<Rightarrow> nat" where
  "seqno_bits t = (case t of DUPSET_8BIT \<Rightarrow> 8 | DUPSET_16BIT \<Rightarrow> 16 | DUPSET_32BIT \<Rightarrow> 32 | DUPSET_64BIT \<Rightarrow> 64)"

definition has_type :: "dup_set \<Rightarrow> dupset_type \<Rightarrow> bool" where
  "has_type S t = (let n = duplicate_set_add t
     in ds_mask S = ds_mask n \<and> ds_limit S = ds_limit n \<and> ds_offset S = ds_offset n)"

text \<open>The representative of a number modulo \<open>2 ^ n\<close> in the signed range.\<close>

definition signed_mod :: "nat \<Rightarrow> int \<Rightarrow> int" where
  "signed_mod n x = (let r = x mod 2 ^ n in if r \<ge> 2 ^ (n - 1) then r - 2 ^ n else r)"

lemma signed_mod_bounds: "0 < n \<Longrightarrow> - (2 ^ (n - 1)) \<le> signed_mod n x \<and> signed_mod n x < 2 ^ (n - 1)"
proof -
  assume "0 < n"
  then have e: "(2::int) ^ n = 2 * 2 ^ (n - 1)" by (cases n) simp_all
  define r where "r = x mod 2 ^ n"
  have "0 \<le> r" "r < 2 ^ n" by (simp_all add: r_def)
  then show ?thesis unfolding signed_mod_def r_def [symmetric] Let_def using e by (auto split: if_splits)
qed

lemma signed_mod_id: "0 < n \<Longrightarrow> - (2 ^ (n - 1)) \<le> y \<Longrightarrow> y < 2 ^ (n - 1) \<Longrightarrow> signed_mod n y = y"
proof -
  assume n: "0 < n" and y: "- (2 ^ (n - 1)) \<le> y" "y < 2 ^ (n - 1)"
  have e: "(2::int) ^ n = 2 * 2 ^ (n - 1)" using n by (cases n) simp_all
  have p: "(1::int) \<le> 2 ^ (n - 1)" by simp
  show ?thesis
  proof (cases "0 \<le> y")
    case True
    then have "y mod 2 ^ n = y" using y e by (intro mod_pos_pos_trivial) linarith+
    then show ?thesis using y by (simp add: signed_mod_def)
  next
    case False
    have "y mod 2 ^ n = (y + 1 * 2 ^ n) mod 2 ^ n" by (simp only: mod_mult_self1)
    also have "\<dots> = y + 2 ^ n" using False y e p by (intro trans [OF mod_pos_pos_trivial]) linarith+
    finally have "y mod 2 ^ n = y + 2 ^ n" .
    then show ?thesis using y e p by (simp add: signed_mod_def)
  qed
qed

lemma sint_of_uint: "sint w = signed_mod 64 (uint w)" for w :: u64
proof -
  have u: "0 \<le> uint w" "uint w < 2 ^ 64" using uint_lt2p [of w] by simp_all
  have "sint w = take_bit 64 (uint w + 2 ^ 63) - 2 ^ 63"
    by (simp add: sint_uint signed_take_bit_eq_take_bit_shift)
  also have "\<dots> = signed_mod 64 (uint w)"
  proof (cases "uint w < 2 ^ 63")
    case True
    then have "take_bit 64 (uint w + 2 ^ 63) = uint w + 2 ^ 63"
      using u by (simp add: take_bit_int_eq_self)
    then show ?thesis using True u by (simp add: signed_mod_def)
  next
    case False
    have "take_bit 64 (uint w + 2 ^ 63) = (uint w - 2 ^ 63 + 1 * 2 ^ 64) mod 2 ^ 64"
      by (simp add: take_bit_eq_mod add.commute)
    also have "\<dots> = (uint w - 2 ^ 63) mod 2 ^ 64" by (rule mod_mult_self1)
    also have "\<dots> = uint w - 2 ^ 63" using False u by (intro mod_pos_pos_trivial) auto
    finally show ?thesis using False u by (simp add: signed_mod_def)
  qed
  finally show ?thesis .
qed

lemma sint_small: "uint w < 2 ^ 63 \<Longrightarrow> sint w = uint w" for w :: u64
  by (simp add: sint_of_uint signed_mod_def)

lemma uint_word_sub: "uint (a - b) = (uint a - uint b) mod 2 ^ 64" for a b :: u64
  by (simp add: uint_word_ariths)

lemma uint_mask64: "n \<le> 64 \<Longrightarrow> uint (mask n :: u64) = 2 ^ n - 1"
  unfolding uint_mask_eq by (simp add: mask_eq_exp_minus_1 min_def)

lemma masked_difference:
  fixes d :: u64
  assumes "0 < n" "n \<le> 32"
  shows "sint (if sint (d AND mask n) > sint (mask n div 2 :: u64) then (d AND mask n) - (mask n + 1) else d AND mask n)
    = signed_mod n (uint d)"
proof -
  have p: "(2::int) ^ n \<le> 2 ^ 32" using assms by (intro power_increasing) auto
  have e: "(2::int) ^ n = 2 * 2 ^ (n - 1)" using assms by (cases n) simp_all
  have p1: "(1::int) \<le> 2 ^ (n - 1)" by simp
  have ur: "uint (d AND mask n) = uint d mod 2 ^ n"
    by (simp only: take_bit_eq_mask [symmetric] unsigned_take_bit_eq) (simp only: take_bit_eq_mod)
  have um: "uint (mask n :: u64) = 2 ^ n - 1"
    using assms by (simp add: uint_mask64)
  have r: "0 \<le> uint d mod 2 ^ n" "uint d mod 2 ^ n < 2 ^ n" by simp_all
  have sr: "sint (d AND mask n) = uint d mod 2 ^ n"
  proof -
    have "uint (d AND mask n) < 2 ^ 63" unfolding ur
      by (rule order.strict_trans2 [OF r(2)], rule order.trans [OF p]) simp
    then show ?thesis by (simp only: sint_small ur)
  qed
  have ul: "uint (mask n div 2 :: u64) = 2 ^ (n - 1) - 1"
    by (simp add: uint_div um) (simp add: e)
  then have sl: "sint (mask n div 2 :: u64) = 2 ^ (n - 1) - 1"
    using p e p1 by (subst sint_small) auto
  show ?thesis
  proof (cases "uint d mod 2 ^ n > 2 ^ (n - 1) - 1")
    case True
    have uo: "uint (mask n + 1 :: u64) = 2 ^ n" using um p by (simp add: uint_word_ariths)
    have "sint ((d AND mask n) - (mask n + 1)) = signed_mod 64 (uint d mod 2 ^ n - 2 ^ n)"
      by (simp add: sint_of_uint uint_word_sub ur uo) (simp add: signed_mod_def)
    also have "\<dots> = uint d mod 2 ^ n - 2 ^ n"
    proof (rule signed_mod_id)
      have "uint d mod 2 ^ n - 2 ^ n < 0" using r(2) by linarith
      then show "uint d mod 2 ^ n - 2 ^ n < 2 ^ (64 - 1)" by (rule order.strict_trans) simp
      have "- (2 ^ 32) \<le> uint d mod 2 ^ n - 2 ^ n" using r(1) p by linarith
      then show "- (2 ^ (64 - 1)) \<le> uint d mod 2 ^ n - 2 ^ n" by (rule order.trans [rotated]) simp
    qed simp
    finally show ?thesis using True by (simp add: sr sl signed_mod_def)
  next
    case False
    then show ?thesis by (simp add: sr sl signed_mod_def)
  qed
qed

lemma seqno_difference_signed:
  assumes "has_type S t"
  shows "sint (seqno_difference S a b) = signed_mod (seqno_bits t) (uint a - uint b)"
proof -
  define n where "n = seqno_bits t"
  have mm: "(255 :: u64) = mask 8" "(65535 :: u64) = mask 16" "(4294967295 :: u64) = mask 32"
    by (simp_all add: mask_eq_exp_minus_1)
  have mm1: "(mod) ((x :: int) mod 2 ^ 64) (2 ^ n) = x mod 2 ^ n" if "n \<le> 64" for x
    by (rule mod_mod_cancel) (rule le_imp_power_dvd [OF that])
  show ?thesis
  proof (cases "t = DUPSET_64BIT")
    case True
    then show ?thesis
      using assms by (simp add: has_type_def duplicate_set_add_def Let_def seqno_difference_def seqno_bits_def
          sint_of_uint uint_word_sub) (simp add: signed_mod_def)
  next
    case False
    have n: "0 < n" "n \<le> 32" using False by (cases t; simp add: n_def seqno_bits_def)+
    have v: "ds_mask S = mask n" "ds_limit S = mask n div 2" "ds_offset S = mask n + 1"
      using assms False by (cases t; simp add: has_type_def duplicate_set_add_def Let_def mask_value_def n_def
          seqno_bits_def mm)+
    have nz: "(mask n :: u64) \<noteq> 0" 
  proof
    assume "(mask n :: u64) = 0"
    then have "uint (mask n :: u64) = 0" by simp
    moreover have "uint (mask n :: u64) = 2 ^ n - 1" using n by (simp add: uint_mask64)
    ultimately have "(2::int) ^ n = 1" by simp
    then show False using n power_increasing [of 1 n "2::int"] by simp
  qed
    have "sint (seqno_difference S a b) = signed_mod n (uint (a - b))"
      unfolding seqno_difference_def v Let_def if_P [OF nz] by (rule masked_difference [OF n])
    also have "\<dots> = signed_mod n (uint a - uint b)"
      using n unfolding signed_mod_def uint_word_sub by (subst mm1) auto
    finally show ?thesis by (simp add: n_def)
  qed
qed

subsection \<open>The window of an entry\<close>

text \<open>
  What an entry promises: the numbers at distance \<open>i < 32\<close> before the current one that were
  received, the current number, and how many numbers in a row were too old. The abstract step has the
  number of bits of a sequence number as its parameter, and whether the number is recorded.
\<close>

definition window :: "dup_entry \<Rightarrow> nat set" where
  "window e = {i. i < 32 \<and> bit (de_history e) i}"

definition dup_view :: "dup_entry \<Rightarrow> nat set \<times> u64 \<times> nat" where
  "dup_view e = (window e, de_current e, unat (de_too_old_count e))"

fun window_step :: "nat \<Rightarrow> bool \<Rightarrow> nat set \<times> u64 \<times> nat \<Rightarrow> u64 \<Rightarrow> dup_result \<times> nat set \<times> u64 \<times> nat" where
  "window_step n st (W, c, k) m =
     (let d = signed_mod n (uint m - uint c)
      in if m = c then (CURRENT, W, c, k)
         else if d < - 31 then (if k < 8 then (TOO_OLD, W, c, k + 1) else (NEWEST, {0}, m, 0))
         else if d \<le> 0 then
           (if nat (- d) \<in> W then (DUPLICATE, W, c, 0)
            else (NEW, if st then insert (nat (- d)) W else W, c, 0))
         else (NEWEST, if st then (insert 0 {j. j < 32 \<and> nat d \<le> j \<and> j - nat d \<in> W}, m, 0) else (W, c, 0)))"

lemma neg_shift:
  fixes d :: u64
  assumes "- 31 \<le> sint d" "sint d \<le> 0"
  shows "unat (ucast (- d) :: u32) = nat (- sint d)"
proof -
  have "uint (- d) = (- sint d) mod 2 ^ 64"
  proof -
    have "- d = word_of_int (- sint d)" by simp
    then show ?thesis by (simp only: uint_word_of_int) simp
  qed
  then have u: "uint (- d) = - sint d" using assms by simp
  have "unat (- d) = nat (- sint d)" using u by (metis nat_uint_eq)
  moreover have "nat (- sint d) < 2 ^ 32" using assms by simp
  ultimately show ?thesis by (simp add: unsigned_ucast_eq take_bit_nat_eq_self)
qed

lemma history_bit: "n < 32 \<Longrightarrow> h AND ucast (push_bit n (1 :: u32)) \<noteq> 0 \<longleftrightarrow> bit h n" for h :: u64
proof -
  assume n: "n < 32"
  have b: "bit (ucast (push_bit n (1 :: u32)) :: u64) i \<longleftrightarrow> i = n" for i
    using n by (auto simp: bit_ucast_iff bit_exp_iff)
  show ?thesis
  proof
    assume nz: "h AND ucast (push_bit n (1 :: u32)) \<noteq> 0"
    show "bit h n"
    proof (rule ccontr)
      assume "\<not> bit h n"
      then have "h AND ucast (push_bit n (1 :: u32)) = 0"
        by (intro bit_word_eqI) (simp only: bit_and_iff b, auto)
      then show False using nz by contradiction
    qed
  next
    assume "bit h n"
    then have "bit (h AND ucast (push_bit n (1 :: u32))) n" by (simp only: bit_and_iff b simp_thms)
    then show "h AND ucast (push_bit n (1 :: u32)) \<noteq> 0" by (metis bit_0_eq bot_apply bot_bool_def)
  qed
qed

lemma history_set: "n < 32 \<Longrightarrow> bit (h OR ucast (push_bit n (1 :: u32))) i \<longleftrightarrow> bit h i \<or> i = n" for h :: u64
  by (auto simp: bit_or_iff bit_ucast_iff bit_exp_iff)

lemma history_shift: "n < 32 \<Longrightarrow> i < 32 \<Longrightarrow> bit (push_bit n h OR 1) i \<longleftrightarrow> i = 0 \<or> (n \<le> i \<and> bit h (i - n))" for h :: u64
  by (auto simp: bit_or_iff bit_push_bit_iff bit_1_iff)

lemma bit_one_u64: "bit (1 :: u64) i \<longleftrightarrow> i = 0"
  by (simp add: bit_1_iff)

lemma dup_test_window:
  assumes t: "has_type S t" and k: "unat (de_too_old_count e) \<le> 8"
  shows "(\<lambda>r. (fst r, dup_view (snd r))) (dup_test S e seqno st)
      = window_step (seqno_bits t) st (dup_view e) seqno
    \<and> unat (de_too_old_count (snd (dup_test S e seqno st))) \<le> 8"
proof -
  define w where "w = seqno_difference S seqno (de_current e)"
  define d where "d = signed_mod (seqno_bits t) (uint seqno - uint (de_current e))"
  have w: "sint w = d" using seqno_difference_signed [OF t] by (simp add: w_def d_def)
  have u1: "unat (de_too_old_count e + 1) = unat (de_too_old_count e) + 1"
    using k by (simp add: unat_word_ariths)
  have mx: "MAXIMUM_TOO_OLD < de_too_old_count e + 1 \<longleftrightarrow> \<not> unat (de_too_old_count e) < 8"
    unfolding word_less_nat_alt u1 by (auto simp: MAXIMUM_TOO_OLD_def)
  note step = window_step.simps dup_test_def w_def [symmetric] d_def [symmetric] Let_def dup_view_def w mx
  have one: "window (e\<lparr>de_too_old_count := x, de_history := 1, de_current := y\<rparr>) = {0}"
    "window (e\<lparr>de_history := 1, de_too_old_count := x, de_current := y\<rparr>) = {0}" for x y
    by (auto simp: window_def bit_one_u64)
  have same: "window (e\<lparr>de_too_old_count := x\<rparr>) = window e" for x by (simp add: window_def)
  consider "seqno = de_current e" | "seqno \<noteq> de_current e" "d < - 31"
    | "seqno \<noteq> de_current e" "- 31 \<le> d" "d \<le> 0" | "seqno \<noteq> de_current e" "0 < d" by linarith
  then show ?thesis
  proof cases
    case 1
    then show ?thesis using k by (simp add: step)
  next
    case 2
    then show ?thesis using u1 by (simp add: step one same)
  next
    case 3
    define i where "i = nat (- d)"
    have i: "i < 32" using 3 by (simp add: i_def)
    have sh: "unat (ucast (- w) :: u32) = i" using neg_shift [of w] 3 w by (simp add: i_def)
    define bm :: u32 where "bm = push_bit i 1"
    have win: "de_history e AND ucast bm \<noteq> 0 \<longleftrightarrow> i \<in> window e"
      unfolding bm_def using history_bit [OF i] i by (simp only: window_def mem_Collect_eq simp_thms)
    have ins: "window (e\<lparr>de_too_old_count := 0, de_history := de_history e OR ucast bm\<rparr>)
        = insert i (window e)"
      unfolding bm_def using history_set [OF i] i by (auto simp: window_def simp del: push_bit_of_1)
    have bmask: "push_bit (unat (ucast (- w) :: u32)) (1 :: u32) = bm" by (simp only: sh bm_def)
    show ?thesis
      using 3 win unfolding step bmask by (auto simp: i_def [symmetric] same ins)
  next
    case 4
    have u: "unat w = nat d"
    proof -
      have "w = word_of_int d" using w by (metis of_int_sint scast_id)
      then have "uint w = d mod 2 ^ 64" by (simp only: uint_word_of_int) simp
      moreover have "d < 2 ^ 63" using sint_lt [of w] by (simp add: w)
      ultimately have "uint w = d" using 4 by simp
      then show ?thesis by (metis nat_uint_eq)
    qed
    have far: "window (e\<lparr>de_too_old_count := 0, de_current := seqno, de_history := 1\<rparr>)
        = insert 0 {j. j < 32 \<and> nat d \<le> j \<and> j - nat d \<in> window e}" if "32 \<le> d"
      using that by (auto simp: window_def bit_one_u64)
    have near: "window (e\<lparr>de_too_old_count := 0, de_current := seqno,
          de_history := push_bit (nat d) (de_history e) OR 1\<rparr>)
        = insert 0 {j. j < 32 \<and> nat d \<le> j \<and> j - nat d \<in> window e}" if "\<not> 32 \<le> d"
      using that 4 history_shift [of "nat d"] by (auto simp: window_def)
    show ?thesis using 4 by (simp add: step u far near same)
  qed
qed

text \<open>
  C15. The bit window: testing a number, with or without recording it, refines the step on the set of
  received distances, the current number and the count of numbers in a row that were too old, on every
  branch: the current number itself, a number 32 or more behind (too old, but the ninth in a row
  restarts the window at it), a number inside of the window (new or a duplicate), and a newer number,
  which becomes the current one and shifts the window. Distances are taken modulo the number space of
  the type of the set. The count never exceeds 8.
\<close>

theorem dup_test_refines_window:
  assumes "has_type S t" and "unat (de_too_old_count e) \<le> 8"
  shows "(\<lambda>r. (fst r, dup_view (snd r))) (dup_test S e seqno st)
      = window_step (seqno_bits t) st (dup_view e) seqno
    \<and> unat (de_too_old_count (snd (dup_test S e seqno st))) \<le> 8"
  by (rule dup_test_window) fact+

theorem dup_test_refines_window_witness:
  "(\<lambda>r. (fst r, dup_view (snd r)))
     (dup_test (duplicate_set_add DUPSET_16BIT)
        \<lparr>de_key = \<lparr>dk_addr = NETADDR_UNSPEC, dk_msg_type = 1\<rparr>, de_history = 1, de_current = 65535,
         de_too_old_count = 3, de_vtime = None\<rparr> 1 True)
   = (NEWEST, {0, 2}, 1, 0)"
proof -
  let ?e = "\<lparr>de_key = \<lparr>dk_addr = NETADDR_UNSPEC, dk_msg_type = 1\<rparr>, de_history = 1, de_current = 65535,
         de_too_old_count = 3, de_vtime = None\<rparr>"
  have d: "signed_mod (seqno_bits DUPSET_16BIT) (uint (1 :: u64) - uint (65535 :: u64)) = 2"
    by (simp add: signed_mod_def seqno_bits_def)
  have ty: "has_type (duplicate_set_add DUPSET_16BIT) DUPSET_16BIT" by (simp only: has_type_def Let_def simp_thms)
  have k: "unat (de_too_old_count ?e) \<le> 8" by simp
  have v: "dup_view ?e = ({0}, 65535, 3)" by (auto simp: dup_view_def window_def bit_one_u64)
  have "(\<lambda>r. (fst r, dup_view (snd r))) (dup_test (duplicate_set_add DUPSET_16BIT) ?e 1 True)
      = window_step (seqno_bits DUPSET_16BIT) True (dup_view ?e) 1"
    using dup_test_refines_window [OF ty k, of 1 True] by (rule conjunct1)
  also have "\<dots> = (NEWEST, {0, 2}, 1, 0)" unfolding v window_step.simps Let_def d by auto
  finally show ?thesis .
qed

subsection \<open>The set as a map from keys to entries\<close>

interpretation avl_cmp_dupkey: strict_comparator avl_cmp_dupkey
proof
  fix a b c :: dup_key
  show "avl_cmp_dupkey a b < 0 \<longleftrightarrow> 0 < avl_cmp_dupkey b a"
    by (auto simp: avl_cmp_dupkey_def avl_comp_netaddr.cmp_neg)
  show "avl_cmp_dupkey a b = 0 \<Longrightarrow> a = b"
    by (cases a; cases b) (auto simp: avl_cmp_dupkey_def word_uint_eq_iff split: if_splits)
  show "avl_cmp_dupkey a b \<le> 0 \<Longrightarrow> avl_cmp_dupkey b c \<le> 0 \<Longrightarrow> avl_cmp_dupkey a c \<le> 0"
    unfolding avl_cmp_dupkey_def
    by (auto simp: word_uint_eq_iff split: if_splits intro: avl_comp_netaddr.cmp_trans)
qed

definition dupset_ok :: "dup_set \<Rightarrow> bool" where
  "dupset_ok S \<longleftrightarrow> avl_ok (ds_tree S) \<and> tr_comp (ds_tree S) = avl_cmp_dupkey
     \<and> \<not> tr_allow_dups (ds_tree S)
     \<and> (\<forall>(k, p) \<in> set (avl_entries (ds_tree S)). \<exists>e. ds_store S p = Some e \<and> de_key e = k)
     \<and> dom (ds_store S) = set (avl_elements (ds_tree S))"

definition dup_lookup :: "dup_set \<Rightarrow> dup_key \<Rightarrow> dup_entry option" where
  "dup_lookup S k = (case avl_find (ds_tree S) k of None \<Rightarrow> None | Some p \<Rightarrow> ds_store S p)"

lemma dup_find:
  "dupset_ok S \<Longrightarrow> avl_find (ds_tree S) k = Some p \<longleftrightarrow> (k, p) \<in> set (avl_entries (ds_tree S))"
  by (rule avl.look_iff) (auto simp: dupset_ok_def avl_cmp_dupkey.strict_comparator_axioms)

lemma dup_find_store:
  "dupset_ok S \<Longrightarrow> avl_find (ds_tree S) k = Some p \<Longrightarrow> \<exists>e. ds_store S p = Some e \<and> de_key e = k"
  by (simp add: dup_find) (auto simp: dupset_ok_def)

lemma dup_find_inj:
  "dupset_ok S \<Longrightarrow> avl_find (ds_tree S) k = Some p \<Longrightarrow> avl_find (ds_tree S) k' = Some p \<Longrightarrow> k = k'"
  using dup_find_store [of S k p] dup_find_store [of S k' p] by auto

lemma dup_test_key [simp]: "de_key (snd (dup_test S e n st)) = de_key e"
  by (simp add: dup_test_def Let_def)

lemma timer_set_simps [simp]:
  "de_key (timer_set e v) = de_key e" "de_current (timer_set e v) = de_current e"
  "de_history (timer_set e v) = de_history e" "de_too_old_count (timer_set e v) = de_too_old_count e"
  by (simp_all add: timer_set_def)

lemma dupset_ok_update:
  assumes "dupset_ok S" "avl_find (ds_tree S) k = Some p" "de_key e = k"
  shows "dupset_ok (S\<lparr>ds_store := (ds_store S)(p \<mapsto> e)\<rparr>)"
proof -
  have m: "(k, p) \<in> set (avl_entries (ds_tree S))" using dup_find assms by blast
  then have "p \<in> set (avl_elements (ds_tree S))" by (force simp flip: avl_ids)
  moreover have "k' = k" if "(k', p) \<in> set (avl_entries (ds_tree S))" for k'
    using that m assms(1) by (metis dup_find dup_find_inj)
  ultimately show ?thesis using assms by (auto simp: dupset_ok_def split: if_splits)
qed

lemma dupset_ok_insert:
  assumes ok: "dupset_ok S" and none: "avl_find (ds_tree S) k = None" and p: "ds_store S p = None"
    and e: "de_key e = k"
  shows "dupset_ok (S\<lparr>ds_tree := snd (avl_insert (ds_tree S) k p), ds_store := (ds_store S)(p \<mapsto> e)\<rparr>)
    \<and> set (avl_entries (snd (avl_insert (ds_tree S) k p))) = insert (k, p) (set (avl_entries (ds_tree S)))"
proof -
  have dom: "dom (ds_store S) = snd ` set (avl_entries (ds_tree S))" and tr: "avl_ok (ds_tree S)"
    using ok by (simp_all add: dupset_ok_def avl_ids)
  have new: "p \<notin> snd ` set (avl_entries (ds_tree S))" using dom p by (metis domIff)
  from avl.ins_new [OF tr none new] obtain t' where t': "avl_insert (ds_tree S) k p = (0, t')" "avl_ok t'"
    "set (avl_entries t') = insert (k, p) (set (avl_entries (ds_tree S)))"
    "tr_comp t' = tr_comp (ds_tree S)" "tr_allow_dups t' = tr_allow_dups (ds_tree S)" by blast
  have D: "dom ((ds_store S)(p \<mapsto> e)) = set (avl_elements t')"
    unfolding avl_ids [symmetric] t'(3) by (simp add: dom)
  have E: "\<exists>e'. ((ds_store S)(p \<mapsto> e)) q = Some e' \<and> de_key e' = k'"
    if "(k', q) \<in> set (avl_entries t')" for k' q
  proof (cases "(k', q) = (k, p)")
    case False
    then have m: "(k', q) \<in> set (avl_entries (ds_tree S))" using that t'(3) by blast
    then have "q \<noteq> p" using new by force
    moreover have "\<exists>e'. ds_store S q = Some e' \<and> de_key e' = k'" using ok m unfolding dupset_ok_def by blast
    ultimately show ?thesis by simp
  qed (use e in simp)
  have E': "\<forall>(k', q) \<in> set (avl_entries t'). \<exists>e'. ((ds_store S)(p \<mapsto> e)) q = Some e' \<and> de_key e' = k'"
    using E by blast
  have c: "tr_comp t' = avl_cmp_dupkey" "\<not> tr_allow_dups t'" using ok t'(4,5) by (simp_all add: dupset_ok_def)
  have f: "ds_tree (S\<lparr>ds_tree := t', ds_store := m\<rparr>) = t'" "ds_store (S\<lparr>ds_tree := t', ds_store := m\<rparr>) = m" for m
    by simp_all
  show ?thesis
    unfolding dupset_ok_def t'(1) snd_conv f using t'(2,3) c D E' by blast
qed

lemma dup_lookup_insert:
  assumes ok: "dupset_ok S" and none: "avl_find (ds_tree S) k = None" and p: "ds_store S p = None"
    and e: "de_key e = k"
  defines "S' \<equiv> S\<lparr>ds_tree := snd (avl_insert (ds_tree S) k p), ds_store := (ds_store S)(p \<mapsto> e)\<rparr>"
  shows "dup_lookup S' k' = (if k' = k then Some e else dup_lookup S k')"
proof -
  note i = dupset_ok_insert [OF ok none p e]
  have ok': "dupset_ok S'" unfolding S'_def by (rule conjunct1 [OF i])
  have tree: "ds_tree S' = snd (avl_insert (ds_tree S) k p)" by (simp add: S'_def)
  have ents: "set (avl_entries (ds_tree S')) = insert (k, p) (set (avl_entries (ds_tree S)))"
    unfolding tree by (rule conjunct2 [OF i])
  have iff: "avl_find (ds_tree S') k' = Some q \<longleftrightarrow> (k', q) = (k, p) \<or> avl_find (ds_tree S) k' = Some q" for k' q
    unfolding dup_find [OF ok'] dup_find [OF ok] ents by blast
  have st: "ds_store S' = (ds_store S)(p \<mapsto> e)" by (simp add: S'_def)
  show ?thesis
  proof (cases "k' = k")
    case True
    then have "avl_find (ds_tree S') k' = Some p" using iff by blast
    then show ?thesis using True by (simp add: dup_lookup_def st)
  next
    case False
    then have some: "avl_find (ds_tree S') k' = Some q \<longleftrightarrow> avl_find (ds_tree S) k' = Some q" for q
      using iff by blast
    show ?thesis
    proof (cases "avl_find (ds_tree S) k'")
      case None
      then have "avl_find (ds_tree S') k' = None" using some by (cases "avl_find (ds_tree S') k'") auto
      then show ?thesis using False None by (simp add: dup_lookup_def)
    next
      case (Some q)
      have "q \<noteq> p" using dup_find_store [OF ok Some] p by auto
      then show ?thesis using False Some some [of q] by (simp add: dup_lookup_def st)
    qed
  qed
qed

lemma dup_lookup_update:
  assumes ok: "dupset_ok S" and k: "avl_find (ds_tree S) k = Some p"
  shows "dup_lookup (S\<lparr>ds_store := (ds_store S)(p \<mapsto> e)\<rparr>) k' = (if k' = k then Some e else dup_lookup S k')"
proof (cases "avl_find (ds_tree S) k'")
  case (Some q)
  show ?thesis
  proof (cases "k' = k")
    case True
    then show ?thesis by (simp add: dup_lookup_def k)
  next
    case False
    then have "q \<noteq> p" using dup_find_inj [OF ok k, of k'] Some by auto
    then show ?thesis using False by (simp add: dup_lookup_def Some)
  qed
next
  case None
  then have "k' \<noteq> k" using k by auto
  then show ?thesis by (simp add: dup_lookup_def None)
qed

definition same_type :: "dup_set \<Rightarrow> dup_set \<Rightarrow> bool" where
  "same_type S S' \<longleftrightarrow> ds_mask S' = ds_mask S \<and> ds_limit S' = ds_limit S \<and> ds_offset S' = ds_offset S"

lemma same_type_simps:
  "same_type S S' \<Longrightarrow> seqno_difference S' = seqno_difference S"
  "same_type S S' \<Longrightarrow> has_type S' t = has_type S t"
  by (simp_all add: same_type_def seqno_difference_def has_type_def fun_eq_iff Let_def)

text \<open>
  What adding a number does to the map: the entry of its key is tested and its window replaced, a
  new one is made when there is none, and every other key keeps its entry.
\<close>

lemma duplicate_entry_add_new:
  assumes ok: "dupset_ok S" and k: "k = \<lparr>dk_addr = a, dk_msg_type = ty\<rparr>" and none: "dup_lookup S k = None"
    and p: "ds_store S p = None"
  shows "\<exists>S' e. duplicate_entry_add (Some p) S ty a n v = (FIRST, S') \<and> dupset_ok S' \<and> same_type S S'
    \<and> dup_lookup S' = (dup_lookup S)(k \<mapsto> e) \<and> de_current e = n \<and> de_history e = 1 \<and> de_too_old_count e = 0"
proof -
  have f: "avl_find (ds_tree S) k = None"
  proof (cases "avl_find (ds_tree S) k")
    case (Some q)
    then show ?thesis using dup_find_store [OF ok Some] none by (auto simp: dup_lookup_def)
  qed
  define e where "e = timer_set \<lparr>de_key = k, de_history = 1, de_current = n, de_too_old_count = 0,
      de_vtime = Some v\<rparr> v"
  have ek: "de_key e = k" by (simp add: e_def)
  define S' where "S' = S\<lparr>ds_tree := snd (avl_insert (ds_tree S) k p), ds_store := (ds_store S)(p \<mapsto> e)\<rparr>"
  have "duplicate_entry_add (Some p) S ty a n v = (FIRST, S')"
    using f by (simp add: duplicate_entry_add_def k e_def S'_def Let_def)
  moreover have "dupset_ok S'" using dupset_ok_insert [OF ok f p ek] by (simp add: S'_def)
  moreover have "dup_lookup S' = (dup_lookup S)(k \<mapsto> e)"
    using dup_lookup_insert [OF ok f p ek] by (simp add: S'_def fun_eq_iff)
  moreover have "same_type S S'" by (simp add: S'_def same_type_def)
  moreover have "de_current e = n \<and> de_history e = 1 \<and> de_too_old_count e = 0" by (simp add: e_def)
  ultimately show ?thesis by blast
qed

lemma duplicate_entry_add_full:
  assumes ok: "dupset_ok S" and k: "k = \<lparr>dk_addr = a, dk_msg_type = ty\<rparr>" and none: "dup_lookup S k = None"
  shows "duplicate_entry_add None S ty a n v = (TOO_OLD, S)"
proof (cases "avl_find (ds_tree S) k")
  case (Some p)
  then show ?thesis using dup_find_store [OF ok Some] none by (auto simp: dup_lookup_def)
qed (simp add: duplicate_entry_add_def k)

lemma duplicate_entry_add_old:
  assumes ok: "dupset_ok S" and k: "k = \<lparr>dk_addr = a, dk_msg_type = ty\<rparr>" and some: "dup_lookup S k = Some e"
    and t: "dup_test S e n True = (r, e1)"
  shows "\<exists>S' e'. duplicate_entry_add alloc S ty a n v = (r, S') \<and> dupset_ok S' \<and> same_type S S'
    \<and> dup_lookup S' = (dup_lookup S)(k \<mapsto> e') \<and> de_current e' = de_current e1
    \<and> de_history e' = de_history e1 \<and> de_too_old_count e' = de_too_old_count e1"
proof -
  obtain p where p: "avl_find (ds_tree S) k = Some p" "ds_store S p = Some e"
    using some by (cases "avl_find (ds_tree S) k") (auto simp: dup_lookup_def)
  have ek: "de_key e = k" using dup_find_store [OF ok p(1)] p(2) by auto
  define e' where "e' = (if duplicate_is_new r then timer_set e1 v else e1)"
  define S' where "S' = S\<lparr>ds_store := (ds_store S)(p \<mapsto> e')\<rparr>"
  have "de_key e1 = k" using dup_test_key [of S e n True] by (simp add: t ek)
  then have ek': "de_key e' = k" by (simp add: e'_def)
  have "duplicate_entry_add alloc S ty a n v = (r, S')"
    using p t by (simp add: duplicate_entry_add_def k e'_def S'_def Let_def)
  moreover have "dupset_ok S'" unfolding S'_def by (rule dupset_ok_update [OF ok p(1) ek'])
  moreover have "dup_lookup S' = (dup_lookup S)(k \<mapsto> e')"
    using dup_lookup_update [OF ok p(1)] by (simp add: S'_def fun_eq_iff)
  moreover have "same_type S S'" by (simp add: S'_def same_type_def)
  moreover have "de_current e' = de_current e1 \<and> de_history e' = de_history e1 \<and> de_too_old_count e' = de_too_old_count e1"
    by (simp add: e'_def)
  ultimately show ?thesis by blast
qed

subsection \<open>Sequences of operations\<close>

text \<open>
  Removing an entry, which its timer does when it fires, forgets its key and no other.
\<close>

lemma remove_duplicate_entry_ok:
  assumes ok: "dupset_ok S" and p: "ds_store S p \<noteq> None"
  shows "dupset_ok (remove_duplicate_entry S p)"
    and "dup_lookup (remove_duplicate_entry S p) k
      = (if avl_find (ds_tree S) k = Some p then None else dup_lookup S k)"
    and "same_type S (remove_duplicate_entry S p)"
proof -
  define S' where "S' = remove_duplicate_entry S p"
  have f: "ds_tree S' = avl_remove (ds_tree S) p" "ds_store S' = (ds_store S)(p := None)"
    by (simp_all add: S'_def remove_duplicate_entry_def)
  have tr: "avl_ok (ds_tree S)" and dom: "dom (ds_store S) = snd ` set (avl_entries (ds_tree S))"
    using ok by (simp_all add: dupset_ok_def avl_ids)
  have pin: "p \<in> set (avl_elements (ds_tree S))" using ok p unfolding dupset_ok_def by blast
  note r = avl_remove_result [OF tr pin]
  have ents: "avl_entries (ds_tree S') = filter (\<lambda>x. snd x \<noteq> p) (avl_entries (ds_tree S))"
    and tr': "avl_ok (ds_tree S')" "tr_comp (ds_tree S') = tr_comp (ds_tree S)"
      "tr_allow_dups (ds_tree S') = tr_allow_dups (ds_tree S)"
    using r by (simp_all add: f)
  have D: "dom (ds_store S') = set (avl_elements (ds_tree S'))"
    unfolding avl_ids [symmetric] ents f(2) using dom by auto
  have E: "\<exists>e. ds_store S' q = Some e \<and> de_key e = k" if "(k, q) \<in> set (avl_entries (ds_tree S'))" for k q
  proof -
    have "(k, q) \<in> set (avl_entries (ds_tree S))" "q \<noteq> p" using that by (simp_all add: ents)
    then show ?thesis using ok unfolding dupset_ok_def f(2) by auto
  qed
  have c: "tr_comp (ds_tree S') = avl_cmp_dupkey" "\<not> tr_allow_dups (ds_tree S')"
    using ok tr'(2,3) by (simp_all add: dupset_ok_def)
  have ok': "dupset_ok S'"
    unfolding dupset_ok_def using tr'(1) c D E by blast
  then show "dupset_ok (remove_duplicate_entry S p)" by (simp add: S'_def)
  have iff: "avl_find (ds_tree S') k = Some q \<longleftrightarrow> avl_find (ds_tree S) k = Some q \<and> q \<noteq> p" for q
    unfolding dup_find [OF ok'] dup_find [OF ok] by (simp add: ents)
  have "dup_lookup S' k = (if avl_find (ds_tree S) k = Some p then None else dup_lookup S k)"
  proof (cases "avl_find (ds_tree S') k")
    case None
    then show ?thesis using iff by (cases "avl_find (ds_tree S) k") (auto simp: dup_lookup_def)
  next
    case (Some q)
    then show ?thesis using iff [of q] by (simp add: dup_lookup_def f(2))
  qed
  then show "dup_lookup (remove_duplicate_entry S p) k
      = (if avl_find (ds_tree S) k = Some p then None else dup_lookup S k)" by (simp add: S'_def)
  show "same_type S (remove_duplicate_entry S p)" by (simp add: same_type_def remove_duplicate_entry_def)
qed

text \<open>
  The operations on a set: adding and testing a number, and the timer of an entry. The allocator gives
  out free pointers, and a timer fires for an entry that exists.
\<close>

datatype dup_op =
    Dup_Add "ptr option" u8 netaddr u64 u64
  | Dup_Test u8 netaddr u64
  | Dup_Timer ptr

fun dup_exec :: "dup_op \<Rightarrow> dup_set \<Rightarrow> dup_set" where
  "dup_exec (Dup_Add alloc ty a m v) S = snd (duplicate_entry_add alloc S ty a m v)"
| "dup_exec (Dup_Test ty a m) S = snd (duplicate_test S ty a m)"
| "dup_exec (Dup_Timer p) S = cb_vtime S p"

fun dup_op_ok :: "dup_op \<Rightarrow> dup_set \<Rightarrow> bool" where
  "dup_op_ok (Dup_Add alloc ty a m v) S = (case alloc of None \<Rightarrow> True | Some p \<Rightarrow> ds_store S p = None)"
| "dup_op_ok (Dup_Test ty a m) S = True"
| "dup_op_ok (Dup_Timer p) S = (ds_store S p \<noteq> None)"

inductive dup_reachable :: "dupset_type \<Rightarrow> dup_set \<Rightarrow> bool" for t where
  dup_start: "dup_reachable t (duplicate_set_add t)"
| dup_step: "dup_reachable t S \<Longrightarrow> dup_op_ok op S \<Longrightarrow> dup_reachable t (dup_exec op S)"

text \<open>What an operation does to the view of the entry of a key.\<close>

fun dup_op_key :: "dup_op \<Rightarrow> dup_key option" where
  "dup_op_key (Dup_Add alloc ty a m v) = Some \<lparr>dk_addr = a, dk_msg_type = ty\<rparr>"
| "dup_op_key (Dup_Test ty a m) = Some \<lparr>dk_addr = a, dk_msg_type = ty\<rparr>"
| "dup_op_key (Dup_Timer p) = None"

fun dup_op_view :: "nat \<Rightarrow> dup_op \<Rightarrow> nat set \<times> u64 \<times> nat \<Rightarrow> nat set \<times> u64 \<times> nat" where
  "dup_op_view n (Dup_Add alloc ty a m v) w = snd (window_step n True w m)"
| "dup_op_view n (Dup_Test ty a m) w = snd (window_step n False w m)"
| "dup_op_view n (Dup_Timer p) w = w"

definition dupset_inv :: "dupset_type \<Rightarrow> dup_set \<Rightarrow> bool" where
  "dupset_inv t S \<longleftrightarrow> dupset_ok S \<and> has_type S t
     \<and> (\<forall>k e. dup_lookup S k = Some e \<longrightarrow> unat (de_too_old_count e) \<le> 8)"

lemma dup_view_eq:
  "de_current e' = de_current e \<Longrightarrow> de_history e' = de_history e \<Longrightarrow> de_too_old_count e' = de_too_old_count e \<Longrightarrow>
    dup_view e' = dup_view e"
  by (simp add: dup_view_def window_def)

lemma dup_add_step:
  assumes inv: "dupset_inv t S" and alloc: "dup_op_ok (Dup_Add alloc ty a m v) S"
    and k: "k = \<lparr>dk_addr = a, dk_msg_type = ty\<rparr>" and r: "duplicate_entry_add alloc S ty a m v = (r, S')"
  shows "dupset_inv t S' \<and> (\<forall>k'. k' \<noteq> k \<longrightarrow> dup_lookup S' k' = dup_lookup S k')
    \<and> (case dup_lookup S k of
         None \<Rightarrow> if alloc = None then r = TOO_OLD \<and> S' = S
                 else r = FIRST \<and> (\<exists>e'. dup_lookup S' k = Some e' \<and> dup_view e' = ({0}, m, 0))
       | Some e \<Rightarrow> \<exists>e'. dup_lookup S' k = Some e'
           \<and> (r, dup_view e') = window_step (seqno_bits t) True (dup_view e) m)"
proof (cases "dup_lookup S k")
  case None
  show ?thesis
  proof (cases alloc)
    case an: None
    have "duplicate_entry_add alloc S ty a m v = (TOO_OLD, S)"
      unfolding an using inv k None by (intro duplicate_entry_add_full) (simp_all add: dupset_inv_def)
    then show ?thesis using r inv None an by simp
  next
    case (Some p)
    have ok: "dupset_ok S" and p: "ds_store S p = None" using inv alloc by (simp_all add: dupset_inv_def Some)
    obtain e where e: "r = FIRST" "dupset_ok S'" "same_type S S'" "dup_lookup S' = (dup_lookup S)(k \<mapsto> e)"
      "de_current e = m" "de_history e = 1" "de_too_old_count e = 0"
      using duplicate_entry_add_new [OF ok k None p, of m v] r unfolding Some by auto
    have "dup_view e = ({0}, m, 0)" using e(5-7) by (auto simp: dup_view_def window_def bit_one_u64)
    then show ?thesis
      using inv e None Some by (auto simp: dupset_inv_def same_type_simps)
  qed
next
  case (Some e)
  have ok: "dupset_ok S" "has_type S t" "unat (de_too_old_count e) \<le> 8" using inv Some by (auto simp: dupset_inv_def)
  obtain r1 e1 where t1: "dup_test S e m True = (r1, e1)" by fastforce
  obtain e' where e': "r = r1" "dupset_ok S'" "same_type S S'" "dup_lookup S' = (dup_lookup S)(k \<mapsto> e')"
    "de_current e' = de_current e1" "de_history e' = de_history e1" "de_too_old_count e' = de_too_old_count e1"
    using duplicate_entry_add_old [OF ok(1) k Some t1, of alloc v] r by auto
  have "(r1, dup_view e1) = window_step (seqno_bits t) True (dup_view e) m" "unat (de_too_old_count e1) \<le> 8"
    using dup_test_window [OF ok(2,3), of m True] by (simp_all add: t1)
  then show ?thesis
    using inv e' Some dup_view_eq [OF e'(5-7)] by (auto simp: dupset_inv_def same_type_simps)
qed

lemma dup_test_step:
  assumes inv: "dupset_inv t S" and k: "k = \<lparr>dk_addr = a, dk_msg_type = ty\<rparr>"
    and r: "duplicate_test S ty a m = (r, S')"
  shows "dupset_inv t S' \<and> (\<forall>k'. k' \<noteq> k \<longrightarrow> dup_lookup S' k' = dup_lookup S k')
    \<and> (case dup_lookup S k of None \<Rightarrow> r = FIRST \<and> S' = S
       | Some e \<Rightarrow> \<exists>e'. dup_lookup S' k = Some e'
           \<and> (r, dup_view e') = window_step (seqno_bits t) False (dup_view e) m)"
proof (cases "avl_find (ds_tree S) k")
  case None
  then show ?thesis using r inv by (simp add: duplicate_test_def k dup_lookup_def)
next
  case (Some p)
  have ok: "dupset_ok S" "has_type S t" using inv by (auto simp: dupset_inv_def)
  obtain e where e: "ds_store S p = Some e" "de_key e = k" using dup_find_store [OF ok(1) Some] by blast
  have l: "dup_lookup S k = Some e" by (simp add: dup_lookup_def Some e)
  have c: "unat (de_too_old_count e) \<le> 8" using inv l by (auto simp: dupset_inv_def)
  obtain r1 e1 where t1: "dup_test S e m False = (r1, e1)" by fastforce
  have S': "S' = S\<lparr>ds_store := (ds_store S)(p \<mapsto> e1)\<rparr>" "r = r1"
    using r Some e t1 by (simp_all add: duplicate_test_def k Let_def)
  have ek: "de_key e1 = k" using dup_test_key [of S e m False] by (simp add: t1 e)
  have "dupset_ok S'" unfolding S' by (rule dupset_ok_update [OF ok(1) Some ek])
  moreover have l': "dup_lookup S' = (dup_lookup S)(k \<mapsto> e1)"
    using dup_lookup_update [OF ok(1) Some] by (simp add: S' fun_eq_iff)
  moreover have "same_type S S'" by (simp add: S' same_type_def)
  moreover have "(r1, dup_view e1) = window_step (seqno_bits t) False (dup_view e) m" "unat (de_too_old_count e1) \<le> 8"
    using dup_test_window [OF ok(2) c, of m False] by (simp_all add: t1)
  ultimately show ?thesis using inv l S'(2) by (auto simp: dupset_inv_def same_type_simps)
qed

lemma dup_timer_step:
  assumes inv: "dupset_inv t S" and p: "dup_op_ok (Dup_Timer p) S"
  shows "dupset_inv t (cb_vtime S p)
    \<and> (\<forall>k. avl_find (ds_tree S) k \<noteq> Some p \<longrightarrow> dup_lookup (cb_vtime S p) k = dup_lookup S k)"
proof -
  have "dupset_ok S" "ds_store S p \<noteq> None" using inv p by (simp_all add: dupset_inv_def)
  note r = remove_duplicate_entry_ok [OF this]
  show ?thesis using r inv by (auto simp: cb_vtime_def dupset_inv_def same_type_simps split: if_splits)
qed

lemma dup_exec_inv: "dupset_inv t S \<Longrightarrow> dup_op_ok op S \<Longrightarrow> dupset_inv t (dup_exec op S)"
proof (induction op)
  case (Dup_Add alloc ty a m v)
  show ?case using dup_add_step [OF Dup_Add refl prod.collapse [symmetric]] by simp
next
  case (Dup_Test ty a m)
  show ?case using dup_test_step [OF Dup_Test(1) refl prod.collapse [symmetric]] by simp
next
  case (Dup_Timer p)
  then show ?case using dup_timer_step by simp
qed

lemma dup_reachable_inv: "dup_reachable t S \<Longrightarrow> dupset_inv t S"
proof (induction rule: dup_reachable.induct)
  case dup_start
  have tree: "ds_tree (duplicate_set_add t) = avl_init avl_cmp_dupkey False" "ds_store (duplicate_set_add t) = (\<lambda>_. None)"
    by (simp_all add: duplicate_set_add_def Let_def)
  have ok: "dupset_ok (duplicate_set_add t)"
    unfolding dupset_ok_def tree
    by (simp add: avl_init_ok [OF avl_cmp_dupkey.comparator_axioms] avl_elements_def) (simp add: avl_init_def)
  have none: "dup_lookup (duplicate_set_add t) k = None" for k by (simp add: dup_lookup_def tree split: option.splits)
  show ?case unfolding dupset_inv_def using ok none by (simp add: has_type_def Let_def)
qed (rule dup_exec_inv)

subsection \<open>Numbers that were seen\<close>

text \<open>
  When a set forgets a number of key \<open>k\<close>: the timer of the entry fires, or the ninth number in a row
  that is 32 or more behind restarts the window. A run that does neither is quiet; the advance of
  a run is the distance by which its newer numbers move the current number on.
\<close>

definition dup_distance :: "dupset_type \<Rightarrow> dup_set \<Rightarrow> dup_key \<Rightarrow> u64 \<Rightarrow> int" where
  "dup_distance t S k m = (case dup_lookup S k of None \<Rightarrow> 0
     | Some e \<Rightarrow> signed_mod (seqno_bits t) (uint m - uint (de_current e)))"

definition dup_restarts :: "dupset_type \<Rightarrow> dup_set \<Rightarrow> dup_key \<Rightarrow> u64 \<Rightarrow> bool" where
  "dup_restarts t S k m = (case dup_lookup S k of None \<Rightarrow> False
     | Some e \<Rightarrow> de_too_old_count e = MAXIMUM_TOO_OLD \<and> dup_distance t S k m < - 31)"

fun dup_quiet :: "dupset_type \<Rightarrow> dup_key \<Rightarrow> dup_op \<Rightarrow> dup_set \<Rightarrow> bool" where
  "dup_quiet t k (Dup_Add alloc ty a m v) S =
     (\<lparr>dk_addr = a, dk_msg_type = ty\<rparr> = k \<longrightarrow> \<not> dup_restarts t S k m)"
| "dup_quiet t k (Dup_Test ty a m) S = (\<lparr>dk_addr = a, dk_msg_type = ty\<rparr> = k \<longrightarrow> \<not> dup_restarts t S k m)"
| "dup_quiet t k (Dup_Timer p) S = (avl_find (ds_tree S) k \<noteq> Some p)"

fun dup_advance :: "dupset_type \<Rightarrow> dup_key \<Rightarrow> dup_op \<Rightarrow> dup_set \<Rightarrow> nat" where
  "dup_advance t k (Dup_Add alloc ty a m v) S =
     (if \<lparr>dk_addr = a, dk_msg_type = ty\<rparr> = k then nat (dup_distance t S k m) else 0)"
| "dup_advance t k (Dup_Test ty a m) S = 0"
| "dup_advance t k (Dup_Timer p) S = 0"

fun dup_run_ops :: "dup_op list \<Rightarrow> dup_set \<Rightarrow> dup_set" where
  "dup_run_ops [] S = S"
| "dup_run_ops (op # ops) S = dup_run_ops ops (dup_exec op S)"

fun dup_ops_quiet :: "dupset_type \<Rightarrow> dup_key \<Rightarrow> dup_op list \<Rightarrow> dup_set \<Rightarrow> bool" where
  "dup_ops_quiet t k [] S = True"
| "dup_ops_quiet t k (op # ops) S =
     (dup_op_ok op S \<and> dup_quiet t k op S \<and> dup_ops_quiet t k ops (dup_exec op S))"

fun dup_ops_advance :: "dupset_type \<Rightarrow> dup_key \<Rightarrow> dup_op list \<Rightarrow> dup_set \<Rightarrow> nat" where
  "dup_ops_advance t k [] S = 0"
| "dup_ops_advance t k (op # ops) S = dup_advance t k op S + dup_ops_advance t k ops (dup_exec op S)"

text \<open>The number \<open>x\<close> was seen and lies \<open>j\<close> behind the current one.\<close>

fun seen_in :: "nat \<Rightarrow> u64 \<Rightarrow> nat \<Rightarrow> nat set \<times> u64 \<times> nat \<Rightarrow> bool" where
  "seen_in n x j (W, c, k) \<longleftrightarrow> signed_mod n (uint x - uint c) = - int j \<and> (j < 32 \<longrightarrow> j \<in> W)"

lemma signed_mod_mod: "signed_mod n x mod 2 ^ n = x mod 2 ^ n"
proof -
  have "(x mod 2 ^ n - 2 ^ n) mod 2 ^ n = x mod 2 ^ n" by (simp only: minus_mod_self2 mod_mod_trivial)
  then show ?thesis unfolding signed_mod_def Let_def by (simp split: if_split)
qed

lemma signed_mod_add:
  assumes n: "0 < n" and r: "- (2 ^ (n - 1)) \<le> signed_mod n a - signed_mod n b" "signed_mod n a - signed_mod n b < 2 ^ (n - 1)"
  shows "signed_mod n (a - b) = signed_mod n a - signed_mod n b"
proof -
  have "(a - b) mod 2 ^ n = (a mod 2 ^ n - b mod 2 ^ n) mod 2 ^ n" by (simp only: mod_diff_eq)
  also have "\<dots> = (signed_mod n a mod 2 ^ n - signed_mod n b mod 2 ^ n) mod 2 ^ n" by (simp only: signed_mod_mod)
  also have "\<dots> = (signed_mod n a - signed_mod n b) mod 2 ^ n" by (simp only: mod_diff_eq)
  finally have "signed_mod n (a - b) = signed_mod n (signed_mod n a - signed_mod n b)"
    unfolding signed_mod_def [of n "a - b"] signed_mod_def [of n "signed_mod n a - signed_mod n b"] by (simp only:)
  then show ?thesis using signed_mod_id [OF n r] by simp
qed

lemma seqno_bits_bounds: "0 < seqno_bits t" "31 < (2 :: nat) ^ (seqno_bits t - 1)"
  by (cases t; simp add: seqno_bits_def)+

lemma window_step_seen:
  assumes n: "0 < n" and seen: "seen_in n x j (W, c, k)"
    and d: "d = signed_mod n (uint m - uint c)" and quiet: "\<not> (8 \<le> k \<and> d < - 31)"
    and far: "j + (if st then nat d else 0) \<le> 2 ^ (n - 1)"
  shows "seen_in n x (j + (if st then nat d else 0)) (snd (window_step n st (W, c, k) m))"
proof -
  have same: "nat d = 0" if "m = c" using that by (simp add: d signed_mod_def)
  show ?thesis
  proof (cases "0 < d \<and> st")
    case False
    then show ?thesis
      using seen quiet same by (auto simp: d [symmetric] Let_def)
  next
    case True
    then have m: "m \<noteq> c" and dj: "int (j + nat d) = int j + d" using same by auto
    have "int (j + nat d) \<le> int (2 ^ (n - 1))" using far True by (intro iffD2 [OF of_nat_le_iff]) simp
    then have lim: "int j + d \<le> 2 ^ (n - 1)" unfolding dj by simp
    have sx: "signed_mod n (uint x - uint c) = - int j" using seen by simp
    have "signed_mod n ((uint x - uint c) - (uint m - uint c)) = - int j - d"
      unfolding sx [symmetric] d using lim True by (intro signed_mod_add n) (simp_all add: sx d [symmetric])
    then have "signed_mod n (uint x - uint m) = - int (j + nat d)" using dj by simp
    moreover have "j + nat d \<in> insert 0 {i. i < 32 \<and> nat d \<le> i \<and> i - nat d \<in> W}" if "j + nat d < 32"
      using that seen by auto
    ultimately show ?thesis using True m by (simp add: d [symmetric] Let_def)
  qed
qed

text \<open>A quiet run keeps what was seen, as far behind as the run advances.\<close>

definition dup_seen :: "dupset_type \<Rightarrow> dup_key \<Rightarrow> u64 \<Rightarrow> nat \<Rightarrow> dup_set \<Rightarrow> bool" where
  "dup_seen t k x j S \<longleftrightarrow> (\<exists>e. dup_lookup S k = Some e \<and> seen_in (seqno_bits t) x j (dup_view e))"

lemma dup_seen_step:
  assumes inv: "dupset_inv t S" and okop: "dup_op_ok op S" and quiet: "dup_quiet t k op S"
    and seen: "dup_seen t k x j S" and far: "j + dup_advance t k op S \<le> 2 ^ (seqno_bits t - 1)"
  shows "dup_seen t k x (j + dup_advance t k op S) (dup_exec op S)"
proof -
  obtain e where e: "dup_lookup S k = Some e" "seen_in (seqno_bits t) x j (dup_view e)"
    using seen by (auto simp: dup_seen_def)
  have cnt: "unat (de_too_old_count e) \<le> 8" using inv e(1) by (auto simp: dupset_inv_def)
  have full: "8 \<le> unat (de_too_old_count e) \<longleftrightarrow> de_too_old_count e = MAXIMUM_TOO_OLD"
    using cnt unfolding MAXIMUM_TOO_OLD_def word_unat_eq_iff by auto
  have step: "seen_in (seqno_bits t) x (j + (if st then nat (dup_distance t S k m) else 0))
      (snd (window_step (seqno_bits t) st (dup_view e) m))"
    if "\<not> dup_restarts t S k m" "j + (if st then nat (dup_distance t S k m) else 0) \<le> 2 ^ (seqno_bits t - 1)" for st m
    unfolding dup_view_def
    by (rule window_step_seen [OF seqno_bits_bounds(1) e(2) [unfolded dup_view_def]])
      (use that full in \<open>auto simp: dup_distance_def dup_restarts_def e(1)\<close>)
  show ?thesis
  proof (cases op)
    case (Dup_Add alloc ty a m v)
    define k0 where "k0 = \<lparr>dk_addr = a, dk_msg_type = ty\<rparr>"
    note s = dup_add_step [OF inv okop [unfolded Dup_Add] k0_def prod.collapse [symmetric]]
    show ?thesis
    proof (cases "k0 = k")
      case True
      then show ?thesis
        using s step [of m True] e(1) quiet far
        by (auto simp: Dup_Add k0_def [symmetric] dup_seen_def) (metis snd_conv)
    next
      case False
      then show ?thesis using s e by (auto simp: Dup_Add k0_def [symmetric] dup_seen_def)
    qed
  next
    case (Dup_Test ty a m)
    define k0 where "k0 = \<lparr>dk_addr = a, dk_msg_type = ty\<rparr>"
    note s = dup_test_step [OF inv k0_def prod.collapse [symmetric], of m]
    show ?thesis
    proof (cases "k0 = k")
      case True
      then show ?thesis
        using s step [of m False] e(1) quiet far
        by (auto simp: Dup_Test k0_def [symmetric] dup_seen_def) (metis snd_conv)
    next
      case False
      then show ?thesis using s e by (auto simp: Dup_Test k0_def [symmetric] dup_seen_def)
    qed
  next
    case (Dup_Timer p)
    then show ?thesis using dup_timer_step [OF inv, of p] okop quiet e by (simp add: dup_seen_def)
  qed
qed

lemma dup_seen_run:
  "dupset_inv t S \<Longrightarrow> dup_ops_quiet t k ops S \<Longrightarrow> dup_seen t k x j S \<Longrightarrow>
    j + dup_ops_advance t k ops S \<le> 2 ^ (seqno_bits t - 1) \<Longrightarrow>
    dupset_inv t (dup_run_ops ops S) \<and> dup_seen t k x (j + dup_ops_advance t k ops S) (dup_run_ops ops S)"
proof (induction ops arbitrary: S j)
  case (Cons op ops)
  have "dup_seen t k x (j + dup_advance t k op S) (dup_exec op S)"
    using Cons.prems by (intro dup_seen_step) simp_all
  then show ?case
    using Cons.IH [of "dup_exec op S" "j + dup_advance t k op S"] Cons.prems
    by (simp add: dup_exec_inv add.assoc)
qed simp

lemma dup_ops_quiet_snoc:
  "dup_ops_quiet t k (ops @ [op]) S \<longleftrightarrow>
    dup_ops_quiet t k ops S \<and> dup_op_ok op (dup_run_ops ops S) \<and> dup_quiet t k op (dup_run_ops ops S)"
  by (induction ops arbitrary: S) auto

text \<open>A number that was accepted has been seen, at most 31 behind the current one.\<close>

lemma dup_accepted_seen:
  assumes inv: "dupset_inv t S" and okop: "dup_op_ok (Dup_Add alloc ty a n v) S"
    and k: "k = \<lparr>dk_addr = a, dk_msg_type = ty\<rparr>" and r: "duplicate_entry_add alloc S ty a n v = (r, S')"
    and new: "duplicate_is_new r"
  shows "\<exists>j \<le> 31. dup_seen t k n j S'"
proof -
  note s = dup_add_step [OF inv okop k r]
  have z: "signed_mod (seqno_bits t) 0 = 0" by (simp add: signed_mod_def)
  show ?thesis
  proof (cases "dup_lookup S k")
    case None
    then have "\<exists>e'. dup_lookup S' k = Some e' \<and> dup_view e' = ({0}, n, 0)"
      using s new by (auto simp: duplicate_is_new_def split: if_splits)
    then have "dup_seen t k n 0 S'" using z by (auto simp: dup_seen_def)
    then show ?thesis by blast
  next
    case (Some e)
    obtain W c i where v: "dup_view e = (W, c, i)" by (rule prod_cases3)
    define d where "d = signed_mod (seqno_bits t) (uint n - uint c)"
    obtain e' where e': "dup_lookup S' k = Some e'" "(r, dup_view e') = window_step (seqno_bits t) True (W, c, i) n"
      using s Some v by auto
    have "\<exists>j \<le> 31. seen_in (seqno_bits t) n j (dup_view e')"
    proof (cases "- 31 \<le> d \<and> d \<le> 0")
      case True
      then have "dup_view e' = (insert (nat (- d)) W, c, 0)"
        using e'(2) new by (auto simp: Let_def d_def [symmetric] duplicate_is_new_def split: if_splits)
      moreover have "nat (- d) \<le> 31" using True by linarith
      ultimately show ?thesis using True by (intro exI [of _ "nat (- d)"]) (simp add: d_def)
    next
      case False
      then obtain W' where "dup_view e' = (insert 0 W', n, 0)"
        using e'(2) new by (auto simp: Let_def d_def [symmetric] duplicate_is_new_def split: if_splits)
      then show ?thesis using z by (intro exI [of _ 0]) simp
    qed
    then show ?thesis using e'(1) by (auto simp: dup_seen_def)
  qed
qed

lemma seen_again:
  assumes seen: "seen_in n x j (W, c, i)" and n: "0 < n" and quiet: "\<not> (8 \<le> i \<and> signed_mod n (uint x - uint c) < - 31)"
  shows "fst (window_step n True (W, c, i) x)
    = (if x = c then CURRENT else if signed_mod n (uint x - uint c) < - 31 then TOO_OLD else DUPLICATE)"
  using seen quiet by (auto simp: Let_def)

subsection \<open>Properties\<close>

text \<open>
  C14. A number is not accepted again as long as its entry remembers it. Let a set that the operations
  built report a number of an originator and message type as new, newest or first. After any
  further operations on the set, for this key and for others, in which the timer of the entry does
  not fire, no ninth number in a row that is too old restarts the window, and newer numbers move the
  current one on by at most half of the number space less 31 in all, the number is reported as
  the current one, a duplicate or too old when it is added again (unless this addition is itself the
  ninth in a row that is too old): too old exactly when it is 32 or more behind the current number.
  When the timer fires or the window restarts, a number can be accepted again.
\<close>

theorem duplicate_not_accepted_twice:
  assumes reach: "dup_reachable t S" and okop: "dup_op_ok (Dup_Add alloc ty a n v) S"
    and k: "k = \<lparr>dk_addr = a, dk_msg_type = ty\<rparr>"
    and r: "duplicate_entry_add alloc S ty a n v = (r, S')" "duplicate_is_new r"
    and quiet: "dup_ops_quiet t k (ops @ [Dup_Add alloc' ty a n v']) S'"
    and far: "dup_ops_advance t k ops S' + 31 \<le> 2 ^ (seqno_bits t - 1)"
  shows "\<exists>e. dup_lookup (dup_run_ops ops S') k = Some e
    \<and> fst (duplicate_entry_add alloc' (dup_run_ops ops S') ty a n v')
      = (if n = de_current e then CURRENT
         else if signed_mod (seqno_bits t) (uint n - uint (de_current e)) < - 31 then TOO_OLD else DUPLICATE)"
proof -
  have inv: "dupset_inv t S" by (rule dup_reachable_inv) fact
  have inv': "dupset_inv t S'" using dup_add_step [OF inv okop k r(1)] by (rule conjunct1)
  obtain j where j: "j \<le> 31" "dup_seen t k n j S'" using dup_accepted_seen [OF inv okop k r] by blast
  define S2 where "S2 = dup_run_ops ops S'"
  have q: "dup_ops_quiet t k ops S'" "dup_op_ok (Dup_Add alloc' ty a n v') S2" "\<not> dup_restarts t S2 k n"
    using quiet by (simp_all add: dup_ops_quiet_snoc S2_def k)
  have "dupset_inv t S2 \<and> dup_seen t k n (j + dup_ops_advance t k ops S') S2"
    unfolding S2_def using far j(1) by (intro dup_seen_run inv' q(1) j(2)) linarith
  then obtain e where e: "dupset_inv t S2" "dup_lookup S2 k = Some e"
    "seen_in (seqno_bits t) n (j + dup_ops_advance t k ops S') (dup_view e)"
    by (auto simp: dup_seen_def)
  have "unat (de_too_old_count e) \<le> 8" using e(1,2) by (auto simp: dupset_inv_def)
  then have quiet': "\<not> (8 \<le> unat (de_too_old_count e) \<and> signed_mod (seqno_bits t) (uint n - uint (de_current e)) < - 31)"
    using q(3) unfolding dup_restarts_def dup_distance_def e(2) MAXIMUM_TOO_OLD_def word_unat_eq_iff by auto
  have "fst (duplicate_entry_add alloc' S2 ty a n v') = fst (window_step (seqno_bits t) True (dup_view e) n)"
    using dup_add_step [OF e(1) q(2) k prod.collapse [symmetric]] e(2) by (auto dest: arg_cong [of _ _ fst])
  also have "\<dots> = (if n = de_current e then CURRENT
       else if signed_mod (seqno_bits t) (uint n - uint (de_current e)) < - 31 then TOO_OLD else DUPLICATE)"
    using seen_again [OF e(3) [unfolded dup_view_def] seqno_bits_bounds(1) quiet'] by (simp add: dup_view_def)
  finally show ?thesis using e(2) unfolding S2_def by blast
qed

theorem duplicate_not_accepted_twice_witness:
  "\<exists>S'. duplicate_entry_add (Some 0) (duplicate_set_add DUPSET_8BIT) 1 NETADDR_UNSPEC 250 1000 = (FIRST, S')
    \<and> fst (duplicate_entry_add None
          (dup_run_ops [Dup_Add None 1 NETADDR_UNSPEC 2 1000, Dup_Test 1 NETADDR_UNSPEC 200] S')
          1 NETADDR_UNSPEC 250 1000) = DUPLICATE"
proof -
  define S0 where "S0 = duplicate_set_add DUPSET_8BIT"
  define k where "k = \<lparr>dk_addr = NETADDR_UNSPEC, dk_msg_type = 1 :: u8\<rparr>"
  define ops where "ops = [Dup_Add None 1 NETADDR_UNSPEC 2 1000, Dup_Test 1 NETADDR_UNSPEC 200]"
  obtain r S1 where a1: "duplicate_entry_add (Some 0) S0 1 NETADDR_UNSPEC 250 1000 = (r, S1)" by fastforce
  obtain r2 S2 where a2: "duplicate_entry_add None S1 1 NETADDR_UNSPEC 2 1000 = (r2, S2)" by fastforce
  obtain r3 S3 where a3: "duplicate_test S2 1 NETADDR_UNSPEC 200 = (r3, S3)" by fastforce
  have reach: "dup_reachable DUPSET_8BIT S0" unfolding S0_def by (rule dup_start)
  have tree: "ds_tree S0 = avl_init avl_cmp_dupkey False" "ds_store S0 = (\<lambda>_. None)"
    by (simp_all add: S0_def duplicate_set_add_def Let_def)
  have ok0: "dup_op_ok (Dup_Add (Some 0) 1 NETADDR_UNSPEC 250 1000) S0" by (simp add: tree)
  have none: "dup_lookup S0 k = None" by (simp add: dup_lookup_def tree split: option.splits)
  have s1: "r = FIRST" "dupset_inv DUPSET_8BIT S1" "\<exists>e. dup_lookup S1 k = Some e \<and> dup_view e = ({0}, 250, 0)"
    using dup_add_step [OF dup_reachable_inv [OF reach] ok0 k_def a1] none by simp_all
  obtain e1 where e1: "dup_lookup S1 k = Some e1" "dup_view e1 = ({0}, 250, 0)" using s1(3) by blast
  have ok2: "dup_op_ok (Dup_Add None 1 NETADDR_UNSPEC 2 1000) S1" by simp
  have w2: "window_step 8 True ({0}, 250, 0) 2 = (NEWEST, {0, 8}, 2, 0)"
    by (auto simp: signed_mod_def)
  have b: "seqno_bits DUPSET_8BIT = 8" by (simp add: seqno_bits_def)
  have s2: "dupset_inv DUPSET_8BIT S2" "\<exists>e. dup_lookup S2 k = Some e \<and> dup_view e = ({0, 8}, 2, 0)"
    using dup_add_step [OF s1(2) ok2 k_def a2] unfolding e1 option.case b w2 by auto
  obtain e2 where e2: "dup_lookup S2 k = Some e2" "dup_view e2 = ({0, 8}, 2, 0)" using s2(2) by blast
  have w3: "window_step 8 False ({0, 8}, 2, 0) 200 = (TOO_OLD, {0, 8}, 2, 1)" by (simp add: signed_mod_def)
  have s3: "\<exists>e. dup_lookup S3 k = Some e \<and> dup_view e = ({0, 8}, 2, 1)"
    using dup_test_step [OF s2(1) k_def a3] unfolding e2 option.case b w3 by auto
  obtain e3 where e3: "dup_lookup S3 k = Some e3" "dup_view e3 = ({0, 8}, 2, 1)" using s3 by blast
  have cnt: "unat (de_too_old_count e1) = 0" "unat (de_too_old_count e2) = 0" "unat (de_too_old_count e3) = 1"
    "de_current e1 = 250" "de_current e3 = 2"
    using e1(2) e2(2) e3(2) by (simp_all add: dup_view_def)
  have nr: "\<not> dup_restarts DUPSET_8BIT S1 k m" "\<not> dup_restarts DUPSET_8BIT S2 k m" "\<not> dup_restarts DUPSET_8BIT S3 k m" for m
    using cnt by (auto simp: dup_restarts_def e1(1) e2(1) e3(1) MAXIMUM_TOO_OLD_def)
  have q: "dup_ops_quiet DUPSET_8BIT k (ops @ [Dup_Add None 1 NETADDR_UNSPEC 250 1000]) S1"
    by (simp add: ops_def a2 a3 nr)
  have adv: "dup_ops_advance DUPSET_8BIT k ops S1 + 31 \<le> 2 ^ (seqno_bits DUPSET_8BIT - 1)"
    by (simp add: ops_def a2 k_def [symmetric] dup_distance_def e1(1) cnt seqno_bits_def signed_mod_def)
  have "fst (duplicate_entry_add None (dup_run_ops ops S1) 1 NETADDR_UNSPEC 250 1000) = DUPLICATE"
    using duplicate_not_accepted_twice [OF reach ok0 k_def a1 _ q adv] s1(1) cnt(5) e3(1)
    by (simp add: ops_def a2 a3 duplicate_is_new_def signed_mod_def seqno_bits_def)
  then show ?thesis using a1 s1(1) unfolding S0_def ops_def by blast
qed

text \<open>
  Originators do not disturb each other: adding a sequence number keeps the set consistent and
  leaves the entry of every other pair of originator and message type as it was.
\<close>

theorem duplicate_add_frame:
  assumes "dupset_ok S" "\<And>p. alloc = Some p \<Longrightarrow> ds_store S p = None"
  shows "dupset_ok (snd (duplicate_entry_add alloc S ty a n v)) \<and>
    (\<forall>k'. k' \<noteq> \<lparr>dk_addr = a, dk_msg_type = ty\<rparr> \<longrightarrow>
          dup_lookup (snd (duplicate_entry_add alloc S ty a n v)) k' = dup_lookup S k')"
proof -
  define k where "k = \<lparr>dk_addr = a, dk_msg_type = ty\<rparr>"
  have "dupset_ok (snd (duplicate_entry_add alloc S ty a n v))
    \<and> (\<forall>k'. k' \<noteq> k \<longrightarrow> dup_lookup (snd (duplicate_entry_add alloc S ty a n v)) k' = dup_lookup S k')"
  proof (cases "dup_lookup S k")
    case (Some e)
    obtain r1 e1 where "dup_test S e n True = (r1, e1)" by fastforce
    from duplicate_entry_add_old [OF assms(1) k_def Some this, of alloc v] show ?thesis by force
  next
    case None
    show ?thesis
    proof (cases alloc)
      case an: None
      then show ?thesis using duplicate_entry_add_full [OF assms(1) k_def None] assms(1) by simp
    next
      case (Some p)
      from duplicate_entry_add_new [OF assms(1) k_def None assms(2) [OF Some], of n v]
      show ?thesis unfolding Some by force
    qed
  qed
  then show ?thesis unfolding k_def .
qed

theorem duplicate_add_frame_witness:
  "dupset_ok (snd (duplicate_entry_add (Some 0) (duplicate_set_add DUPSET_8BIT) 1 NETADDR_UNSPEC 7 1000))"
proof -
  let ?S = "duplicate_set_add DUPSET_8BIT"
  have tree: "ds_tree ?S = avl_init avl_cmp_dupkey False" "ds_store ?S = (\<lambda>_. None)"
    by (simp_all add: duplicate_set_add_def Let_def)
  have ok: "dupset_ok ?S"
    unfolding dupset_ok_def tree
    by (simp add: avl_init_ok [OF avl_cmp_dupkey.comparator_axioms] avl_elements_def) (simp add: avl_init_def)
  have free: "ds_store ?S p = None" for p by (simp only: tree)
  show ?thesis using duplicate_add_frame [OF ok free, of "Some 0"] by (rule conjunct1)
qed

text \<open>Feeding an entry a sequence of numbers.\<close>

fun dup_run :: "dup_set \<Rightarrow> dup_entry \<Rightarrow> u64 list \<Rightarrow> dup_result list \<times> dup_entry" where
  "dup_run S e [] = ([], e)"
| "dup_run S e (n # ns) =
     (let r = dup_test S e n True; rs = dup_run S (snd r) ns in (fst r # fst rs, snd rs))"

lemma dup_run_old:
  "\<forall>n \<in> set ns. signed_mod (seqno_bits t) (uint n - uint (de_current e)) < - 31 \<Longrightarrow> has_type S t \<Longrightarrow>
    unat (de_too_old_count e) + length ns \<le> 8 \<Longrightarrow>
    fst (dup_run S e ns) = replicate (length ns) TOO_OLD
    \<and> de_current (snd (dup_run S e ns)) = de_current e
    \<and> unat (de_too_old_count (snd (dup_run S e ns))) = unat (de_too_old_count e) + length ns"
proof (induction ns arbitrary: e)
  case (Cons n ns)
  have lt: "signed_mod (seqno_bits t) (uint n - uint (de_current e)) < - 31" using Cons.prems(1) by simp
  then have ne: "n \<noteq> de_current e" by (auto simp: signed_mod_def)
  have d: "sint (seqno_difference S n (de_current e)) < - 31"
    using lt seqno_difference_signed [OF Cons.prems(2)] by simp
  have u: "unat (de_too_old_count e + 1) = unat (de_too_old_count e) + 1"
    using Cons.prems(3) by (simp add: unat_word_ariths)
  then have "\<not> de_too_old_count e + 1 > MAXIMUM_TOO_OLD"
    using Cons.prems(3) by (simp add: MAXIMUM_TOO_OLD_def word_less_nat_alt)
  then have t1: "dup_test S e n True = (TOO_OLD, e\<lparr>de_too_old_count := de_too_old_count e + 1\<rparr>)"
    using ne d by (simp add: dup_test_def Let_def)
  show ?case
    using Cons.IH [of "e\<lparr>de_too_old_count := de_too_old_count e + 1\<rparr>"] Cons.prems u
    by (simp add: t1 Let_def)
qed simp

lemma dup_run_append: "dup_run S e (ms @ ns) =
    (fst (dup_run S e ms) @ fst (dup_run S (snd (dup_run S e ms)) ns), snd (dup_run S (snd (dup_run S e ms)) ns))"
  by (induction ms arbitrary: e) (simp_all add: Let_def)

text \<open>
  C16. Recovery after a restart of an originator: of nine consecutive numbers that are all too old for
  the window, that is 32 or more behind the current number, the first eight are rejected and the ninth
  is accepted as the newest and becomes the current number, so that an originator that starts
  counting again is heard again. (The comments of the code say more than 32 behind; the code
  counts a number that is exactly 32 behind as too old.)
\<close>

theorem duplicate_recovers_after_restart:
  assumes "has_type S t" "de_too_old_count e = 0" "length ns = 8"
    "\<forall>n \<in> set (ns @ [m]). signed_mod (seqno_bits t) (uint n - uint (de_current e)) < - 31"
  shows "fst (dup_run S e (ns @ [m])) = replicate 8 TOO_OLD @ [NEWEST]
    \<and> de_current (snd (dup_run S e (ns @ [m]))) = m"
proof -
  define e8 where "e8 = snd (dup_run S e ns)"
  have r: "fst (dup_run S e ns) = replicate 8 TOO_OLD" "de_current e8 = de_current e"
    "unat (de_too_old_count e8) = 8"
    using dup_run_old [of ns t e S] assms by (auto simp: e8_def)
  have lt: "signed_mod (seqno_bits t) (uint m - uint (de_current e8)) < - 31" using assms(4) r(2) by simp
  then have ne: "m \<noteq> de_current e8" by (auto simp: signed_mod_def)
  have "sint (seqno_difference S m (de_current e8)) < - 31"
    using lt seqno_difference_signed [OF assms(1)] by simp
  moreover have "de_too_old_count e8 + 1 > MAXIMUM_TOO_OLD"
    using r(3) by (simp add: MAXIMUM_TOO_OLD_def word_less_nat_alt unat_word_ariths)
  ultimately show ?thesis
    using ne r(1) by (simp add: dup_run_append e8_def [symmetric]) (simp add: dup_test_def Let_def)
qed

theorem duplicate_recovers_after_restart_witness:
  "fst (dup_run (duplicate_set_add DUPSET_16BIT)
      \<lparr>de_key = \<lparr>dk_addr = NETADDR_UNSPEC, dk_msg_type = 1\<rparr>, de_history = 1, de_current = 5000,
       de_too_old_count = 0, de_vtime = None\<rparr> ([1 :: u64, 2, 3, 4, 5, 6, 7, 8] @ [9]))
   = replicate 8 TOO_OLD @ [NEWEST]"
proof -
  have ty: "has_type (duplicate_set_add DUPSET_16BIT) DUPSET_16BIT" by (simp only: has_type_def Let_def simp_thms)
  let ?e = "\<lparr>de_key = \<lparr>dk_addr = NETADDR_UNSPEC, dk_msg_type = 1\<rparr>, de_history = 1, de_current = 5000,
       de_too_old_count = 0, de_vtime = None\<rparr>"
  have cur: "de_current ?e = 5000" "de_too_old_count ?e = 0" by simp_all
  have old: "\<forall>n \<in> set ([1 :: u64, 2, 3, 4, 5, 6, 7, 8] @ [9]).
      signed_mod (seqno_bits DUPSET_16BIT) (uint n - uint (de_current ?e)) < - 31"
    unfolding cur by (simp add: signed_mod_def seqno_bits_def)
  have len: "length [1, 2, 3, 4, 5, 6, 7, 8 :: u64] = 8" by simp
  show ?thesis
    using duplicate_recovers_after_restart [OF ty cur(2) len old] by (rule conjunct1)
qed

end
