(* ===== verification/Bitmap256.thy ===== *)
theory Bitmap256
  imports Prelude
begin

text \<open>
  Bit arrays of 256 bits (\<open>src-api/common/bitmap256.c\<close> and \<open>bitmap256.h\<close>): four words of 64 bits,
  indexed by a byte, and their view as a set of numbers below 256.
\<close>

record bitmap256 =
  bm_b :: "u64 list"

definition bitmap256_zero :: bitmap256 where
  "bitmap256_zero = \<lparr>bm_b = replicate 4 0\<rparr>"

definition bitmap256_get :: "bitmap256 \<Rightarrow> u8 \<Rightarrow> bool" where
  "bitmap256_get m i =
     (bm_b m ! unat (drop_bit 6 i) AND push_bit (unat ((ucast i :: u64) AND 63)) 1 \<noteq> 0)"

definition bitmap256_set :: "bitmap256 \<Rightarrow> u8 \<Rightarrow> bitmap256" where
  "bitmap256_set m i =
     (let w = unat (drop_bit 6 i)
      in m\<lparr>bm_b := (bm_b m)[w := bm_b m ! w OR push_bit (unat ((ucast i :: u64) AND 63)) 1]\<rparr>)"

definition bitmap256_reset :: "bitmap256 \<Rightarrow> u8 \<Rightarrow> bitmap256" where
  "bitmap256_reset m i =
     (let w = unat (drop_bit 6 i)
      in m\<lparr>bm_b := (bm_b m)[w := bm_b m ! w AND NOT (push_bit (unat ((ucast i :: u64) AND 63)) 1)]\<rparr>)"

definition bitmap256_is_subset :: "bitmap256 \<Rightarrow> bitmap256 \<Rightarrow> bool" where
  "bitmap256_is_subset s sub = list_all (\<lambda>i. bm_b s ! i = bm_b s ! i OR bm_b sub ! i) [0..<4]"

subsection \<open>The set of a bit array\<close>

definition bitmap_ok :: "bitmap256 \<Rightarrow> bool" where
  "bitmap_ok m \<longleftrightarrow> length (bm_b m) = 4"

definition bitmap_members :: "bitmap256 \<Rightarrow> u8 set" where
  "bitmap_members m = {i. bit (bm_b m ! (unat i div 64)) (unat i mod 64)}"

lemma byte_word_index: "unat (drop_bit 6 i) = unat i div 64" "unat i div 64 < 4" for i :: u8
  using unsigned_less [of i, where ?'a = nat] by (simp_all add: unat_drop_bit)

lemma byte_bit_index: "unat ((ucast i :: u64) AND 63) = unat i mod 64" for i :: u8
proof -
  have u: "unat (ucast i :: u64) = unat i"
    by (simp add: unsigned_ucast_eq take_bit_nat_eq_self unsigned_less [of i, where ?'a = nat, THEN less_le_trans])
  have "unat ((ucast i :: u64) AND 63) = unat (ucast i :: u64) AND mask 6"
    by (simp only: unsigned_and_eq) (simp add: mask_eq_exp_minus_1)
  also have "\<dots> = take_bit 6 (unat i)" by (simp only: u take_bit_eq_mask)
  also have "\<dots> = unat i mod 64" by (simp add: take_bit_eq_mod)
  finally show ?thesis .
qed

lemma bm_b_upd: "bm_b (m\<lparr>bm_b := x\<rparr>) = x"
  by simp

lemma single_bit: "n < 64 \<Longrightarrow> bit (push_bit n (1 :: u64)) k \<longleftrightarrow> k = n"
  by (auto simp: bit_exp_iff)

lemma and_single_bit: "n < 64 \<Longrightarrow> w AND push_bit n (1 :: u64) \<noteq> 0 \<longleftrightarrow> bit w n" for w :: u64
proof -
  assume n: "n < 64"
  show ?thesis
  proof
    assume nz: "w AND push_bit n 1 \<noteq> 0"
    show "bit w n"
    proof (rule ccontr)
      assume "\<not> bit w n"
      then have "w AND push_bit n 1 = 0"
        by (intro bit_word_eqI) (simp only: bit_and_iff single_bit [OF n], auto)
      then show False using nz by contradiction
    qed
  next
    assume "bit w n"
    then have "bit (w AND push_bit n 1) n" by (simp only: bit_and_iff single_bit [OF n] simp_thms)
    then show "w AND push_bit n 1 \<noteq> 0" by (metis bit_0_eq bot_apply bot_bool_def)
  qed
qed

lemma bitmap_get_iff: "bitmap256_get m i \<longleftrightarrow> i \<in> bitmap_members m"
  unfolding bitmap256_get_def byte_word_index(1) byte_bit_index bitmap_members_def mem_Collect_eq
  by (rule and_single_bit) simp

lemma byte_index_eq: "unat i div 64 = unat j div 64 \<and> unat i mod 64 = unat j mod 64 \<longleftrightarrow> i = j" for i j :: u8
  by (metis mod_div_mult_eq word_unat_eq_iff)

lemma bitmap_set_members:
  assumes "bitmap_ok m"
  shows "bitmap_members (bitmap256_set m i) = insert i (bitmap_members m)" "bitmap_ok (bitmap256_set m i)"
proof -
  have b: "bit (push_bit (unat i mod 64) (1 :: u64)) k \<longleftrightarrow> k = unat i mod 64" for k
    by (rule single_bit) simp
  have l: "unat i div 64 < length (bm_b m)" using assms byte_word_index(2) [of i] by (simp add: bitmap_ok_def)
  have "j \<in> bitmap_members (bitmap256_set m i) \<longleftrightarrow> j \<in> insert i (bitmap_members m)" for j
  proof (cases "unat j div 64 = unat i div 64")
    case True
    have "unat j mod 64 = unat i mod 64 \<longleftrightarrow> j = i" using byte_index_eq [of j i] True by simp
    then show ?thesis
      unfolding bitmap256_set_def byte_word_index(1) byte_bit_index bitmap_members_def Let_def
      by (simp only: True bm_b_upd nth_list_update_eq [OF l] mem_Collect_eq bit_or_iff b) (auto simp: True)
  next
    case False
    then have "j \<noteq> i" by auto
    then show ?thesis
      unfolding bitmap256_set_def byte_word_index(1) byte_bit_index bitmap_members_def Let_def
      using False by simp
  qed
  then show "bitmap_members (bitmap256_set m i) = insert i (bitmap_members m)" by blast
  show "bitmap_ok (bitmap256_set m i)" using assms by (simp add: bitmap256_set_def bitmap_ok_def Let_def)
qed

lemma bitmap_reset_members:
  assumes "bitmap_ok m"
  shows "bitmap_members (bitmap256_reset m i) = bitmap_members m - {i}" "bitmap_ok (bitmap256_reset m i)"
proof -
  have b: "bit (push_bit (unat i mod 64) (1 :: u64)) k \<longleftrightarrow> k = unat i mod 64" for k
    by (rule single_bit) simp
  have l: "unat i div 64 < length (bm_b m)" using assms byte_word_index(2) [of i] by (simp add: bitmap_ok_def)
  have "j \<in> bitmap_members (bitmap256_reset m i) \<longleftrightarrow> j \<in> bitmap_members m - {i}" for j
  proof (cases "unat j div 64 = unat i div 64")
    case True
    have "unat j mod 64 = unat i mod 64 \<longleftrightarrow> j = i" using byte_index_eq [of j i] True by simp
    then show ?thesis
      unfolding bitmap256_reset_def byte_word_index(1) byte_bit_index bitmap_members_def Let_def
      by (simp only: True bm_b_upd nth_list_update_eq [OF l] mem_Collect_eq bit_and_iff bit_not_iff b) (auto simp: True)
  next
    case False
    then have "j \<noteq> i" by auto
    then show ?thesis
      unfolding bitmap256_reset_def byte_word_index(1) byte_bit_index bitmap_members_def Let_def
      using False by simp
  qed
  then show "bitmap_members (bitmap256_reset m i) = bitmap_members m - {i}" by blast
  show "bitmap_ok (bitmap256_reset m i)" using assms by (simp add: bitmap256_reset_def bitmap_ok_def Let_def)
qed

lemma bitmap_zero_members: "bitmap_members bitmap256_zero = {}" "bitmap_ok bitmap256_zero"
  using byte_word_index(2) by (auto simp: bitmap_members_def bitmap256_zero_def bitmap_ok_def)

lemma or_absorb_iff: "a = a OR b \<longleftrightarrow> (\<forall>k < 64. bit b k \<longrightarrow> bit a k)" for a b :: u64
proof
  assume "a = a OR b"
  then show "\<forall>k < 64. bit b k \<longrightarrow> bit a k" by (metis bit_or_iff)
next
  assume "\<forall>k < 64. bit b k \<longrightarrow> bit a k"
  then show "a = a OR b" by (intro bit_word_eqI) (auto simp: bit_or_iff)
qed

text \<open>
  C21. A bit array is a set of bytes: reading, setting and clearing a bit are membership, insertion and
  deletion, and the subset test is inclusion.
\<close>

theorem bitmap256_refines_set:
  assumes "bitmap_ok m" "bitmap_ok m'"
  shows "bitmap256_get m i = (i \<in> bitmap_members m)
    \<and> bitmap_members (bitmap256_set m i) = insert i (bitmap_members m)
    \<and> bitmap_members (bitmap256_reset m i) = bitmap_members m - {i}
    \<and> bitmap256_is_subset m m' = (bitmap_members m' \<subseteq> bitmap_members m)"
proof -
  have "bitmap256_is_subset m m' \<longleftrightarrow> (\<forall>w < 4. \<forall>k < 64. bit (bm_b m' ! w) k \<longrightarrow> bit (bm_b m ! w) k)"
    unfolding bitmap256_is_subset_def or_absorb_iff by (auto simp: list_all_iff)
  also have "\<dots> \<longleftrightarrow> (\<forall>j :: u8. bit (bm_b m' ! (unat j div 64)) (unat j mod 64) \<longrightarrow>
      bit (bm_b m ! (unat j div 64)) (unat j mod 64))"
  proof (intro iffI allI impI)
    fix w k :: nat
    assume j: "\<forall>j :: u8. bit (bm_b m' ! (unat j div 64)) (unat j mod 64) \<longrightarrow>
      bit (bm_b m ! (unat j div 64)) (unat j mod 64)" and wk: "w < 4" "k < 64" "bit (bm_b m' ! w) k"
    have "unat (of_nat (64 * w + k) :: u8) = 64 * w + k"
      using wk by (simp only: unat_of_nat) simp
    then show "bit (bm_b m ! w) k" using j [rule_format, of "of_nat (64 * w + k)"] wk by simp
  next
    fix j :: u8
    assume a: "\<forall>w < 4. \<forall>k < 64. bit (bm_b m' ! w) k \<longrightarrow> bit (bm_b m ! w) k"
      "bit (bm_b m' ! (unat j div 64)) (unat j mod 64)"
    have "unat j mod 64 < 64" by simp
    then show "bit (bm_b m ! (unat j div 64)) (unat j mod 64)" using a byte_word_index(2) [of j] by blast
  qed
  also have "\<dots> \<longleftrightarrow> bitmap_members m' \<subseteq> bitmap_members m" by (auto simp: bitmap_members_def)
  finally show ?thesis
    using bitmap_set_members(1) [OF assms(1)] bitmap_reset_members(1) [OF assms(1)] bitmap_get_iff by blast
qed

theorem bitmap256_refines_set_witness:
  "bitmap256_get (bitmap256_set bitmap256_zero 200) 200 = (200 \<in> bitmap_members (bitmap256_set bitmap256_zero 200))"
  using bitmap256_refines_set [OF bitmap_set_members(2) [OF bitmap_zero_members(2)] bitmap_zero_members(2), of 200 200]
  by blast

end
