(* ===== verification/Rfc5444_Parse.thy ===== *)
theory Rfc5444_Parse
  imports Avl Bitmap256 "HOL-Library.Monad_Syntax"
begin

text \<open>
  The byte level of the RFC 5444 reader (\<open>src-plugins/subsystems/rfc5444/rfc5444_reader.c\<close>): reading
  numbers, TLVs, TLV blocks and address blocks from a packet. The packet is a list of bytes and every
  pointer into it an offset. \<open>None\<close> is undefined behaviour of the C code: a read outside of the packet, a
  copy outside of the 16 bytes of an address, or a division by zero. The nodes of a TLV block live in a
  store from pointers to records; the allocator is a parameter that picks the pointer of the next node.
\<close>

subsection \<open>Results\<close>

datatype rfc5444_result =
    RFC5444_DROP_PACKET | RFC5444_DROP_MESSAGE | RFC5444_DROP_MSG_BUT_FORWARD | RFC5444_DROP_ADDRESS
  | RFC5444_DROP_TLV | RFC5444_OKAY | RFC5444_UNSUPPORTED_VERSION | RFC5444_END_OF_BUFFER
  | RFC5444_BAD_TLV_IDXFLAGS | RFC5444_BAD_TLV_VALUEFLAGS | RFC5444_BAD_TLV_LENGTH
  | RFC5444_OUT_OF_MEMORY | RFC5444_EMPTY_ADDRBLOCK | RFC5444_BAD_MSG_TAILFLAGS
  | RFC5444_BAD_MSG_PREFIXFLAGS | RFC5444_DUPLICATE_TLV | RFC5444_OUT_OF_ADDRTLV_MEM
  | RFC5444_MTU_TOO_SMALL | RFC5444_NO_MSGCREATOR | RFC5444_FW_MESSAGE_TOO_LONG | RFC5444_FW_BAD_SIZE
  | RFC5444_TOO_LARGE

text \<open>The values of the enumeration; drops are positive and ordered by what they drop, errors negative.\<close>

fun result_value :: "rfc5444_result \<Rightarrow> int" where
  "result_value RFC5444_DROP_PACKET = 5"
| "result_value RFC5444_DROP_MESSAGE = 4"
| "result_value RFC5444_DROP_MSG_BUT_FORWARD = 3"
| "result_value RFC5444_DROP_ADDRESS = 2"
| "result_value RFC5444_DROP_TLV = 1"
| "result_value RFC5444_OKAY = 0"
| "result_value RFC5444_UNSUPPORTED_VERSION = - 1"
| "result_value RFC5444_END_OF_BUFFER = - 2"
| "result_value RFC5444_BAD_TLV_IDXFLAGS = - 3"
| "result_value RFC5444_BAD_TLV_VALUEFLAGS = - 4"
| "result_value RFC5444_BAD_TLV_LENGTH = - 5"
| "result_value RFC5444_OUT_OF_MEMORY = - 6"
| "result_value RFC5444_EMPTY_ADDRBLOCK = - 7"
| "result_value RFC5444_BAD_MSG_TAILFLAGS = - 8"
| "result_value RFC5444_BAD_MSG_PREFIXFLAGS = - 9"
| "result_value RFC5444_DUPLICATE_TLV = - 10"
| "result_value RFC5444_OUT_OF_ADDRTLV_MEM = - 11"
| "result_value RFC5444_MTU_TOO_SMALL = - 12"
| "result_value RFC5444_NO_MSGCREATOR = - 13"
| "result_value RFC5444_FW_MESSAGE_TOO_LONG = - 14"
| "result_value RFC5444_FW_BAD_SIZE = - 15"
| "result_value RFC5444_TOO_LARGE = - 16"

lemma result_value_inj: "result_value a = result_value b \<longleftrightarrow> a = b"
  by (cases a; cases b; simp)

instantiation rfc5444_result :: linorder
begin

definition less_eq_rfc5444_result :: "rfc5444_result \<Rightarrow> rfc5444_result \<Rightarrow> bool" where
  "a \<le> b \<longleftrightarrow> result_value a \<le> result_value b"

definition less_rfc5444_result :: "rfc5444_result \<Rightarrow> rfc5444_result \<Rightarrow> bool" where
  "a < b \<longleftrightarrow> result_value a < result_value b"

instance
  by standard (auto simp: less_eq_rfc5444_result_def less_rfc5444_result_def result_value_inj)

end

text \<open>
  \<open>rfc5444_strerror\<close>; the argument is the number. The table of the positive results has no entry for
  \<open>RFC5444_DROP_ADDRESS\<close>, which is a null pointer.
\<close>

definition positive_result_texts :: "string option list" where
  "positive_result_texts = [Some ''Okay'', Some ''Drop TLV'', None, Some ''Drop message but forward it'',
     Some ''Drop message'', Some ''Drop packet'']"

definition negative_result_texts :: "string list" where
  "negative_result_texts = [''Okay'', ''Version of rfc5444 not supported'', ''Early end of packet'',
     ''Bad combination of tlv index flags'', ''Bad combination of tlv value flags'',
     ''TLV length is no multiple of number of values'', ''Memory allocation failed'',
     ''Address block with zero addresses'', ''Bad combination of address tail flags'',
     ''Bad combination of address prefix length flags'', ''Duplicate address TLV'',
     ''Not enough memory for address-TLVs'', ''Configured MTU size too small'',
     ''Cannot create message without message creator'', ''Cannot forward message, content too long'',
     ''Bad length field of message to be forwarded'', ''RFC5444 packet larger than 64k'']"

definition rfc5444_strerror :: "int \<Rightarrow> string option" where
  "rfc5444_strerror r =
     (if r \<ge> 0 \<and> r \<le> 5 then positive_result_texts ! nat r
      else if r < 0 \<and> r \<ge> - 16 then Some (negative_result_texts ! nat (- r))
      else Some ''Unknown RFC5444-API result'')"

subsection \<open>Flags\<close>

abbreviation (input) RFC5444_MAX_ADDRLEN :: nat where "RFC5444_MAX_ADDRLEN \<equiv> 16"

definition PKT_FLAGMASK :: u8 where "PKT_FLAGMASK = 0x0f"
definition PKT_FLAG_SEQNO :: u8 where "PKT_FLAG_SEQNO = 0x08"
definition PKT_FLAG_TLV :: u8 where "PKT_FLAG_TLV = 0x04"
definition MSG_FLAG_ORIGINATOR :: u8 where "MSG_FLAG_ORIGINATOR = 0x80"
definition MSG_FLAG_HOPLIMIT :: u8 where "MSG_FLAG_HOPLIMIT = 0x40"
definition MSG_FLAG_HOPCOUNT :: u8 where "MSG_FLAG_HOPCOUNT = 0x20"
definition MSG_FLAG_SEQNO :: u8 where "MSG_FLAG_SEQNO = 0x10"
definition MSG_FLAG_ADDRLENMASK :: u8 where "MSG_FLAG_ADDRLENMASK = 0x0f"
definition ADDR_FLAG_HEAD :: u8 where "ADDR_FLAG_HEAD = 0x80"
definition ADDR_FLAG_FULLTAIL :: u8 where "ADDR_FLAG_FULLTAIL = 0x40"
definition ADDR_FLAG_ZEROTAIL :: u8 where "ADDR_FLAG_ZEROTAIL = 0x20"
definition ADDR_FLAG_SINGLEPLEN :: u8 where "ADDR_FLAG_SINGLEPLEN = 0x10"
definition ADDR_FLAG_MULTIPLEN :: u8 where "ADDR_FLAG_MULTIPLEN = 0x08"
definition TLV_FLAG_TYPEEXT :: u8 where "TLV_FLAG_TYPEEXT = 0x80"
definition TLV_FLAG_SINGLE_IDX :: u8 where "TLV_FLAG_SINGLE_IDX = 0x40"
definition TLV_FLAG_MULTI_IDX :: u8 where "TLV_FLAG_MULTI_IDX = 0x20"
definition TLV_FLAG_VALUE :: u8 where "TLV_FLAG_VALUE = 0x10"
definition TLV_FLAG_EXTVALUE :: u8 where "TLV_FLAG_EXTVALUE = 0x08"
definition TLV_FLAG_MULTIVALUE :: u8 where "TLV_FLAG_MULTIVALUE = 0x04"

lemmas flag_defs [model_defs] =
  PKT_FLAGMASK_def PKT_FLAG_SEQNO_def PKT_FLAG_TLV_def MSG_FLAG_ORIGINATOR_def MSG_FLAG_HOPLIMIT_def
  MSG_FLAG_HOPCOUNT_def MSG_FLAG_SEQNO_def MSG_FLAG_ADDRLENMASK_def ADDR_FLAG_HEAD_def
  ADDR_FLAG_FULLTAIL_def ADDR_FLAG_ZEROTAIL_def ADDR_FLAG_SINGLEPLEN_def ADDR_FLAG_MULTIPLEN_def
  TLV_FLAG_TYPEEXT_def TLV_FLAG_SINGLE_IDX_def TLV_FLAG_MULTI_IDX_def TLV_FLAG_VALUE_def
  TLV_FLAG_EXTVALUE_def TLV_FLAG_MULTIVALUE_def

subsection \<open>Reading numbers\<close>

text \<open>
  A reader position is the offset of the next byte together with the result variable; \<open>eob\<close> is the
  offset behind the last byte that may be read.
\<close>

type_synonym cursor = "nat \<times> rfc5444_result"

definition get_u8 :: "u8 list \<Rightarrow> nat \<Rightarrow> cursor \<Rightarrow> (u8 \<times> cursor) option" where
  "get_u8 buf eob c =
     (if snd c \<noteq> RFC5444_OKAY then Some (0, c)
      else if fst c \<ge> eob then Some (0, (fst c, RFC5444_END_OF_BUFFER))
      else if fst c < length buf then Some (buf ! fst c, (fst c + 1, snd c))
      else None)"

text \<open>The two reads of the source are operands of one expression; they are taken from left to right.\<close>

definition get_u16 :: "u8 list \<Rightarrow> nat \<Rightarrow> cursor \<Rightarrow> (u16 \<times> cursor) option" where
  "get_u16 buf eob c =
     do {
       (hi, c) \<leftarrow> get_u8 buf eob c;
       (lo, c) \<leftarrow> get_u8 buf eob c;
       Some (push_bit 8 (ucast hi) OR ucast lo, c)
     }"

definition rfc5444_get_pktversion :: "u8 \<Rightarrow> u8" where
  "rfc5444_get_pktversion v = drop_bit 4 v"

subsection \<open>TLVs\<close>

record tlv_entry =
  te_type :: u8
  te_flags :: u8
  te_type_ext :: u8
  te_length :: u16
  te_single_value :: "nat option"
  te_index1 :: u8
  te_index2 :: u8
  te_next_entry :: "ptr option"
  te_order :: u16
  te_value :: "nat option"
  te_multivalue :: bool
  te_drop_tlv :: bitmap256

type_synonym tlv_store = "ptr \<Rightarrow> tlv_entry option"

definition tlv_entry_zero :: tlv_entry where
  "tlv_entry_zero = \<lparr>te_type = 0, te_flags = 0, te_type_ext = 0, te_length = 0, te_single_value = None,
     te_index1 = 0, te_index2 = 0, te_next_entry = None, te_order = 0, te_value = None,
     te_multivalue = False, te_drop_tlv = bitmap256_zero\<rparr>"

definition calc_tlvblock_intorder :: "tlv_entry \<Rightarrow> u16" where
  "calc_tlvblock_intorder e = push_bit 8 (ucast (te_type e)) OR ucast (te_type_ext e)"

text \<open>\<open>_parse_tlv\<close>, step by step: the type, the index values, the length, and the value.\<close>

definition parse_tlv_type :: "u8 list \<Rightarrow> nat \<Rightarrow> tlv_entry \<Rightarrow> cursor \<Rightarrow> (tlv_entry \<times> cursor) option" where
  "parse_tlv_type buf eob e c =
     do {
       (ty, c) \<leftarrow> get_u8 buf eob c;
       (fl, c) \<leftarrow> get_u8 buf eob c;
       (ext, c) \<leftarrow> (if fl AND TLV_FLAG_TYPEEXT \<noteq> 0 then get_u8 buf eob c else Some (0, c));
       let e1 = e\<lparr>te_type := ty, te_flags := fl, te_type_ext := ext\<rparr>;
       Some (e1\<lparr>te_order := calc_tlvblock_intorder e1\<rparr>, c)
     }"

definition parse_tlv_index ::
  "u8 list \<Rightarrow> nat \<Rightarrow> u8 \<Rightarrow> tlv_entry \<Rightarrow> cursor \<Rightarrow> (tlv_entry \<times> cursor) option" where
  "parse_tlv_index buf eob addr_count e c =
     (let masked = te_flags e AND (TLV_FLAG_SINGLE_IDX OR TLV_FLAG_MULTI_IDX)
      in if masked = 0 then Some (e\<lparr>te_index1 := 0, te_index2 := addr_count - 1\<rparr>, c)
         else if masked = TLV_FLAG_SINGLE_IDX then
           do {
             (i, c) \<leftarrow> get_u8 buf eob c;
             Some (e\<lparr>te_index1 := i, te_index2 := i\<rparr>, c)
           }
         else if masked = TLV_FLAG_MULTI_IDX then
           do {
             (i1, c) \<leftarrow> get_u8 buf eob c;
             (i2, c) \<leftarrow> get_u8 buf eob c;
             Some (e\<lparr>te_index1 := i1, te_index2 := i2\<rparr>, c)
           }
         else Some (e, (fst c, RFC5444_BAD_TLV_IDXFLAGS)))"

definition parse_tlv_length :: "u8 list \<Rightarrow> nat \<Rightarrow> tlv_entry \<Rightarrow> cursor \<Rightarrow> (tlv_entry \<times> cursor) option" where
  "parse_tlv_length buf eob e c =
     (let masked = te_flags e AND (TLV_FLAG_VALUE OR TLV_FLAG_EXTVALUE)
      in if masked = 0 then Some (e\<lparr>te_length := 0\<rparr>, c)
         else if masked = TLV_FLAG_VALUE then
           do {
             (l, c) \<leftarrow> get_u8 buf eob c;
             Some (e\<lparr>te_length := ucast l\<rparr>, c)
           }
         else if masked = TLV_FLAG_EXTVALUE OR TLV_FLAG_VALUE then
           do {
             (l, c) \<leftarrow> get_u16 buf eob c;
             Some (e\<lparr>te_length := l\<rparr>, c)
           }
         else Some (e, (fst c, RFC5444_BAD_TLV_VALUEFLAGS)))"

definition parse_tlv_value :: "nat \<Rightarrow> tlv_entry \<Rightarrow> cursor \<Rightarrow> (rfc5444_result \<times> tlv_entry \<times> nat) option" where
  "parse_tlv_value eob e c =
     (let e = e\<lparr>te_multivalue := (te_flags e AND TLV_FLAG_MULTIVALUE \<noteq> 0)\<rparr>;
          p = fst c;
          result = (if p + unat (te_length e) > eob then RFC5444_END_OF_BUFFER else snd c)
      in if result \<noteq> RFC5444_OKAY then Some (result, e, eob)
         else if te_length e = 0 then Some (RFC5444_OKAY, e\<lparr>te_value := None\<rparr>, p)
         else
           let e = e\<lparr>te_value := Some p\<rparr>;
               p = p + unat (te_length e);
               count = te_index2 e - te_index1 e + 1;
               e = (if count = 1 then e\<lparr>te_multivalue := False\<rparr> else e)
           in if \<not> te_multivalue e then Some (RFC5444_OKAY, e\<lparr>te_single_value := te_value e\<rparr>, p)
              else if count = 0 then None
              else if unat (te_length e) mod unat count \<noteq> 0 then Some (RFC5444_BAD_TLV_LENGTH, e, p)
              else Some (RFC5444_OKAY, e\<lparr>te_length := te_length e div ucast count\<rparr>, p))"

definition parse_tlv ::
  "u8 list \<Rightarrow> nat \<Rightarrow> u8 \<Rightarrow> tlv_entry \<Rightarrow> nat \<Rightarrow> (rfc5444_result \<times> tlv_entry \<times> nat) option" where
  "parse_tlv buf eob addr_count e p =
     do {
       (e, c) \<leftarrow> parse_tlv_type buf eob e (p, RFC5444_OKAY);
       (e, c) \<leftarrow> parse_tlv_index buf eob addr_count e c;
       (e, c) \<leftarrow> parse_tlv_length buf eob e c;
       parse_tlv_value eob e c
     }"

subsection \<open>Progress of the reader\<close>

text \<open>
  A step of the reader moves forward inside of the readable bytes and never clears an error.
\<close>

definition advances :: "nat \<Rightarrow> cursor \<Rightarrow> cursor \<Rightarrow> bool" where
  "advances eob c c' \<longleftrightarrow> fst c \<le> fst c' \<and> (snd c' = RFC5444_OKAY \<longrightarrow> snd c = RFC5444_OKAY)
     \<and> (fst c' \<le> eob \<or> fst c' = fst c)"

lemma advances_refl [simp]: "advances eob c c"
  by (simp add: advances_def)

lemma advances_trans: "advances eob c c' \<Longrightarrow> advances eob c' c'' \<Longrightarrow> advances eob c c''"
  by (auto simp: advances_def)

lemma advances_error: "r \<noteq> RFC5444_OKAY \<Longrightarrow> advances eob c (fst c, r)"
  by (simp add: advances_def)

lemma get_u8_okay:
  "get_u8 buf eob c = Some (v, (p, RFC5444_OKAY)) \<longleftrightarrow>
    c = (fst c, RFC5444_OKAY) \<and> fst c < eob \<and> fst c < length buf \<and> v = buf ! fst c \<and> p = fst c + 1"
  by (cases c) (auto simp: get_u8_def)

lemma get_u8_advances: "get_u8 buf eob c = Some (v, c') \<Longrightarrow> advances eob c c'"
  by (cases c) (auto simp: get_u8_def advances_def split: if_splits)

lemma get_u8_total: "eob \<le> length buf \<Longrightarrow> get_u8 buf eob c \<noteq> None"
  by (auto simp: get_u8_def)

lemma get_u16_advances: "get_u16 buf eob c = Some (v, c') \<Longrightarrow> advances eob c c'"
  by (auto simp: get_u16_def bind_eq_Some_conv intro: advances_trans dest!: get_u8_advances)

lemma get_u16_total: "eob \<le> length buf \<Longrightarrow> get_u16 buf eob c \<noteq> None"
proof -
  assume e: "eob \<le> length buf"
  obtain hi c1 where "get_u8 buf eob c = Some (hi, c1)" using get_u8_total [OF e, of c] by auto
  moreover obtain lo c2 where "get_u8 buf eob c1 = Some (lo, c2)" using get_u8_total [OF e, of c1] by auto
  ultimately show "get_u16 buf eob c \<noteq> None" by (simp add: get_u16_def)
qed

lemma parse_tlv_type_advances:
  assumes "parse_tlv_type buf eob e c = Some (e', c')"
  shows "advances eob c c' \<and> (snd c' = RFC5444_OKAY \<longrightarrow> fst c + 2 \<le> fst c')"
proof -
  obtain ty c1 fl c2 ext c3 where s: "get_u8 buf eob c = Some (ty, c1)" "get_u8 buf eob c1 = Some (fl, c2)"
    "(if fl AND TLV_FLAG_TYPEEXT \<noteq> 0 then get_u8 buf eob c2 else Some (0, c2)) = Some (ext, c3)" "c3 = c'"
    using assms by (auto simp: parse_tlv_type_def bind_eq_Some_conv Let_def)
  have a: "advances eob c c1" "advances eob c1 c2" "advances eob c2 c'"
    using s get_u8_advances by (auto split: if_splits)
  have "fst c2 = fst c + 2" if "snd c' = RFC5444_OKAY"
    using s(1,2) that a by (cases c1; cases c2) (auto simp: advances_def get_u8_okay)
  then show ?thesis using a advances_trans unfolding advances_def by (metis order.trans le_refl)
qed

lemma parse_tlv_index_advances:
  "parse_tlv_index buf eob ac e c = Some (e', c') \<Longrightarrow> advances eob c c'"
  by (auto simp: parse_tlv_index_def bind_eq_Some_conv Let_def advances_error split: if_splits
      intro: advances_trans dest!: get_u8_advances)

lemma parse_tlv_length_advances:
  "parse_tlv_length buf eob e c = Some (e', c') \<Longrightarrow> advances eob c c'"
  by (auto simp: parse_tlv_length_def bind_eq_Some_conv Let_def advances_error split: if_splits
      intro: advances_trans dest!: get_u8_advances get_u16_advances)

lemma parse_tlv_value_okay:
  "parse_tlv_value eob e c = Some (RFC5444_OKAY, e', p) \<Longrightarrow> snd c = RFC5444_OKAY \<and> fst c \<le> p \<and> p \<le> eob"
  by (auto simp: parse_tlv_value_def Let_def split: if_splits)

text \<open>A TLV takes at least two bytes, so that the loop over a block ends.\<close>

lemma parse_tlv_progress:
  assumes "parse_tlv buf eob ac e p = Some (RFC5444_OKAY, e', p')"
  shows "p + 2 \<le> p' \<and> p' \<le> eob"
proof -
  obtain e1 c1 e2 c2 e3 c3 where s: "parse_tlv_type buf eob e (p, RFC5444_OKAY) = Some (e1, c1)"
    "parse_tlv_index buf eob ac e1 c1 = Some (e2, c2)" "parse_tlv_length buf eob e2 c2 = Some (e3, c3)"
    "parse_tlv_value eob e3 c3 = Some (RFC5444_OKAY, e', p')"
    using assms by (auto simp: parse_tlv_def bind_eq_Some_conv)
  note v = parse_tlv_value_okay [OF s(4)]
  have "advances eob c1 c3"
    using parse_tlv_index_advances [OF s(2)] parse_tlv_length_advances [OF s(3)] by (rule advances_trans)
  then show ?thesis using v parse_tlv_type_advances [OF s(1)] by (auto simp: advances_def)
qed

subsection \<open>TLV blocks\<close>

type_synonym tlv_tree = "(u16, ptr) avl_tree"

text \<open>The allocator: the pointer of a free node, \<open>None\<close> when there is no memory.\<close>

type_synonym tlv_alloc = "tlv_store \<Rightarrow> ptr option"

definition free_tlvblock :: "tlv_tree \<Rightarrow> tlv_store \<Rightarrow> tlv_store" where
  "free_tlvblock tree st = fold (\<lambda>p st. st(p := None)) (avl_elements tree) st"

function parse_tlvblock_loop ::
  "tlv_alloc \<Rightarrow> u8 list \<Rightarrow> nat \<Rightarrow> nat \<Rightarrow> u8 \<Rightarrow> tlv_entry \<Rightarrow> nat \<Rightarrow> tlv_tree \<Rightarrow> tlv_store \<Rightarrow>
     (rfc5444_result \<times> nat \<times> tlv_tree \<times> tlv_store) option" where
  "parse_tlvblock_loop alloc buf block_end eob ac e p tree st =
     (if p < block_end then
        (case parse_tlv buf eob ac e p of
           None \<Rightarrow> None
         | Some (result, e, p') \<Rightarrow>
             if result \<noteq> RFC5444_OKAY then Some (result, p', tree, st)
             else (case alloc st of
                     None \<Rightarrow> Some (RFC5444_OUT_OF_MEMORY, p', tree, st)
                   | Some q \<Rightarrow> parse_tlvblock_loop alloc buf block_end eob ac e p'
                                (snd (avl_insert tree (te_order e) q)) (st(q \<mapsto> e))))
      else Some (RFC5444_OKAY, p, tree, st))"
  by pat_completeness auto

termination
  by (relation "measure (\<lambda>(alloc, buf, block_end, eob, ac, e, p, tree, st). block_end - p)")
    (auto dest: parse_tlv_progress)

declare parse_tlvblock_loop.simps [simp del]

definition parse_tlvblock ::
  "tlv_alloc \<Rightarrow> u8 list \<Rightarrow> nat \<Rightarrow> u8 \<Rightarrow> nat \<Rightarrow> tlv_tree \<Rightarrow> tlv_store \<Rightarrow>
     (rfc5444_result \<times> nat \<times> tlv_tree \<times> tlv_store) option" where
  "parse_tlvblock alloc buf eob ac p tree st =
     do {
       (len, c) \<leftarrow> get_u16 buf eob (p, RFC5444_OKAY);
       let block_end = p + 2 + unat len;
       (result, p', tree, st) \<leftarrow>
         (if block_end > eob then Some (RFC5444_END_OF_BUFFER, fst c, tree, st)
          else parse_tlvblock_loop alloc buf block_end eob ac tlv_entry_zero (fst c) tree st);
       if result \<noteq> RFC5444_OKAY
       then Some (result, eob, avl_init (tr_comp tree) (tr_allow_dups tree), free_tlvblock tree st)
       else Some (result, p', tree, st)
     }"

subsection \<open>Address blocks\<close>

text \<open>\<open>memcpy\<close> of bytes of the packet into a buffer.\<close>

definition copy_bytes :: "u8 list \<Rightarrow> nat \<Rightarrow> u8 list \<Rightarrow> nat \<Rightarrow> nat \<Rightarrow> u8 list option" where
  "copy_bytes dst off buf src n =
     (if off + n \<le> length dst \<and> (n = 0 \<or> src + n \<le> length buf) then Some (mem_write dst off (take n (drop src buf)))
      else None)"

record addr_entry =
  ae_tlvblock :: tlv_tree
  ae_num_addr :: u8
  ae_mid_start :: u8
  ae_mid_len :: u8
  ae_prefixes :: "nat option"
  ae_mid_src :: nat
  ae_addr :: "u8 list"
  ae_prefixlen :: u8
  ae_addr_block_ptr :: nat
  ae_addr_block_size :: nat
  ae_addr_tlv_size :: nat
  ae_drop_addr :: bitmap256

text \<open>A new entry is cleared memory, with its tree initialised.\<close>

definition addr_entry_zero :: addr_entry where
  "addr_entry_zero = \<lparr>ae_tlvblock = avl_init avl_comp_uint16 True, ae_num_addr = 0, ae_mid_start = 0,
     ae_mid_len = 0, ae_prefixes = None, ae_mid_src = 0, ae_addr = replicate RFC5444_MAX_ADDRLEN 0,
     ae_prefixlen = 0, ae_addr_block_ptr = 0, ae_addr_block_size = 0, ae_addr_tlv_size = 0,
     ae_drop_addr = bitmap256_zero\<rparr>"

text \<open>
  \<open>_parse_addrblock\<close>, step by step. An early return is \<open>Inl\<close> of the result and the position, going
  on is \<open>Inr\<close>.
\<close>

type_synonym 'a step = "(rfc5444_result \<times> nat + 'a) option"

definition parse_addr_head ::
  "u8 list \<Rightarrow> nat \<Rightarrow> u8 \<Rightarrow> addr_entry \<Rightarrow> cursor \<Rightarrow> (addr_entry \<times> cursor) step" where
  "parse_addr_head buf eob flags a c =
     (if flags AND ADDR_FLAG_HEAD \<noteq> 0 then
        do {
          (len, c) \<leftarrow> get_u8 buf eob c;
          let a = a\<lparr>ae_mid_start := len\<rparr>;
          if fst c + unat len > eob then Some (Inl (RFC5444_END_OF_BUFFER, fst c))
          else do {
            m \<leftarrow> copy_bytes (ae_addr a) 0 buf (fst c) (unat len);
            Some (Inr (a\<lparr>ae_addr := m, ae_mid_len := ae_mid_len a - len\<rparr>, (fst c + unat len, snd c)))
          }
        }
      else Some (Inr (a, c)))"

definition parse_addr_tail ::
  "u8 list \<Rightarrow> nat \<Rightarrow> u8 \<Rightarrow> u8 \<Rightarrow> addr_entry \<Rightarrow> cursor \<Rightarrow> (addr_entry \<times> cursor) step" where
  "parse_addr_tail buf eob addr_len flags a c =
     (let masked = flags AND (ADDR_FLAG_FULLTAIL OR ADDR_FLAG_ZEROTAIL)
      in if masked = ADDR_FLAG_ZEROTAIL then
           do {
             (len, c) \<leftarrow> get_u8 buf eob c;
             Some (Inr (a\<lparr>ae_mid_len := ae_mid_len a - len\<rparr>, c))
           }
         else if masked = ADDR_FLAG_FULLTAIL then
           do {
             (len, c) \<leftarrow> get_u8 buf eob c;
             if fst c + unat len > eob then Some (Inl (RFC5444_END_OF_BUFFER, fst c))
             else if unat len > unat addr_len then None
             else do {
               m \<leftarrow> copy_bytes (ae_addr a) (unat addr_len - unat len) buf (fst c) (unat len);
               Some (Inr (a\<lparr>ae_addr := m, ae_mid_len := ae_mid_len a - len\<rparr>, (fst c + unat len, snd c)))
             }
           }
         else if masked \<noteq> 0 then Some (Inl (RFC5444_BAD_MSG_TAILFLAGS, fst c))
         else Some (Inr (a, c)))"

definition parse_addr_prefix ::
  "u8 list \<Rightarrow> nat \<Rightarrow> u8 \<Rightarrow> u8 \<Rightarrow> addr_entry \<Rightarrow> cursor \<Rightarrow> (addr_entry \<times> cursor) step" where
  "parse_addr_prefix buf eob addr_len flags a c =
     (let p = fst c + unat (ae_mid_len a) * unat (ae_num_addr a);
          a = a\<lparr>ae_mid_src := fst c\<rparr>;
          masked = flags AND (ADDR_FLAG_SINGLEPLEN OR ADDR_FLAG_MULTIPLEN)
      in if p > eob then Some (Inl (RFC5444_END_OF_BUFFER, p))
         else if masked = 0 then Some (Inr (a\<lparr>ae_prefixlen := addr_len * 8\<rparr>, (p, snd c)))
         else if masked = ADDR_FLAG_SINGLEPLEN then
           (if p < length buf then Some (Inr (a\<lparr>ae_prefixlen := buf ! p\<rparr>, (p + 1, snd c))) else None)
         else if masked = ADDR_FLAG_MULTIPLEN then
           Some (Inr (a\<lparr>ae_prefixes := Some p\<rparr>, (p + unat (ae_num_addr a), snd c)))
         else Some (Inl (RFC5444_BAD_MSG_PREFIXFLAGS, p)))"

definition parse_addrblock ::
  "u8 list \<Rightarrow> nat \<Rightarrow> u8 \<Rightarrow> addr_entry \<Rightarrow> nat \<Rightarrow> (rfc5444_result \<times> addr_entry \<times> nat) option" where
  "parse_addrblock buf eob addr_len a start =
     do {
       (num, c) \<leftarrow> get_u8 buf eob (start, RFC5444_OKAY);
       let a = a\<lparr>ae_addr_block_ptr := start, ae_num_addr := num\<rparr>;
       if num = 0 then Some (RFC5444_EMPTY_ADDRBLOCK, a, fst c)
       else do {
         (flags, c) \<leftarrow> get_u8 buf eob c;
         let a = a\<lparr>ae_addr := replicate RFC5444_MAX_ADDRLEN 0, ae_mid_len := addr_len\<rparr>;
         s \<leftarrow> parse_addr_head buf eob flags a c;
         case s of Inl (r, p) \<Rightarrow> Some (r, a, p) | Inr (a, c) \<Rightarrow>
         do {
           s \<leftarrow> parse_addr_tail buf eob addr_len flags a c;
           case s of Inl (r, p) \<Rightarrow> Some (r, a, p) | Inr (a, c) \<Rightarrow>
           do {
             s \<leftarrow> parse_addr_prefix buf eob addr_len flags a c;
             case s of Inl (r, p) \<Rightarrow> Some (r, a, p) | Inr (a, c) \<Rightarrow>
             if fst c > eob then Some (RFC5444_END_OF_BUFFER, a, fst c)
             else Some (snd c, a\<lparr>ae_addr_block_size := fst c - start\<rparr>, fst c)
           }
         }
       }
     }"

subsection \<open>TLVs on the wire\<close>

text \<open>
  The TLV format of RFC 5444: type, flags, optional type extension, optional index values, optional
  length of one or two bytes, and the value.
\<close>

datatype tlv_index = All_Addresses | One_Address u8 | Address_Range u8 u8

datatype tlv_size = No_Value | Short_Value | Long_Value

record tlv_wire =
  tw_type :: u8
  tw_ext :: "u8 option"
  tw_index :: tlv_index
  tw_size :: tlv_size
  tw_multivalue :: bool
  tw_value :: "u8 list"

fun index_flag :: "tlv_index \<Rightarrow> u8" where
  "index_flag All_Addresses = 0"
| "index_flag (One_Address _) = TLV_FLAG_SINGLE_IDX"
| "index_flag (Address_Range _ _) = TLV_FLAG_MULTI_IDX"

fun index_bytes :: "tlv_index \<Rightarrow> u8 list" where
  "index_bytes All_Addresses = []"
| "index_bytes (One_Address i) = [i]"
| "index_bytes (Address_Range i j) = [i, j]"

fun index_first :: "tlv_index \<Rightarrow> u8" where
  "index_first All_Addresses = 0"
| "index_first (One_Address i) = i"
| "index_first (Address_Range i j) = i"

fun index_last :: "u8 \<Rightarrow> tlv_index \<Rightarrow> u8" where
  "index_last ac All_Addresses = ac - 1"
| "index_last ac (One_Address i) = i"
| "index_last ac (Address_Range i j) = j"

fun size_flag :: "tlv_size \<Rightarrow> u8" where
  "size_flag No_Value = 0"
| "size_flag Short_Value = TLV_FLAG_VALUE"
| "size_flag Long_Value = TLV_FLAG_VALUE OR TLV_FLAG_EXTVALUE"

fun size_bytes :: "tlv_size \<Rightarrow> nat \<Rightarrow> u8 list" where
  "size_bytes No_Value n = []"
| "size_bytes Short_Value n = [of_nat n]"
| "size_bytes Long_Value n = [of_nat (n div 256), of_nat n]"

definition tw_flags :: "tlv_wire \<Rightarrow> u8" where
  "tw_flags t = (if tw_ext t = None then 0 else TLV_FLAG_TYPEEXT) OR index_flag (tw_index t)
     OR size_flag (tw_size t) OR (if tw_multivalue t then TLV_FLAG_MULTIVALUE else 0)"

definition tw_header :: "tlv_wire \<Rightarrow> u8 list" where
  "tw_header t = [tw_type t, tw_flags t] @ (case tw_ext t of None \<Rightarrow> [] | Some x \<Rightarrow> [x])
     @ index_bytes (tw_index t) @ size_bytes (tw_size t) (length (tw_value t))"

definition tw_bytes :: "tlv_wire \<Rightarrow> u8 list" where
  "tw_bytes t = tw_header t @ tw_value t"

definition tw_ok :: "tlv_wire \<Rightarrow> bool" where
  "tw_ok t \<longleftrightarrow> (case tw_size t of No_Value \<Rightarrow> tw_value t = [] | Short_Value \<Rightarrow> length (tw_value t) < 256
     | Long_Value \<Rightarrow> length (tw_value t) < 65536)"

lemma tw_flags_parts:
  "tw_flags t AND TLV_FLAG_TYPEEXT = 0 \<longleftrightarrow> tw_ext t = None"
  "tw_flags t AND (TLV_FLAG_SINGLE_IDX OR TLV_FLAG_MULTI_IDX) = index_flag (tw_index t)"
  "tw_flags t AND (TLV_FLAG_VALUE OR TLV_FLAG_EXTVALUE) = size_flag (tw_size t)"
  "tw_flags t AND TLV_FLAG_MULTIVALUE = 0 \<longleftrightarrow> \<not> tw_multivalue t"
  by (cases "tw_index t"; cases "tw_size t"; simp add: tw_flags_def flag_defs)+

text \<open>Reading along a list: \<open>rest\<close> is what lies behind the position.\<close>

lemma get_u8_step:
  "drop p buf = x # rest \<Longrightarrow> p < eob \<Longrightarrow> get_u8 buf eob (p, RFC5444_OKAY) = Some (x, (p + 1, RFC5444_OKAY))"
  "drop p buf = x # rest \<Longrightarrow> drop (p + 1) buf = rest"
proof -
  assume d: "drop p buf = x # rest"
  then have "p < length buf" by (metis drop_eq_Nil list.distinct(1) not_le)
  then show "p < eob \<Longrightarrow> get_u8 buf eob (p, RFC5444_OKAY) = Some (x, (p + 1, RFC5444_OKAY))"
    using d by (simp add: get_u8_def) (metis hd_drop_conv_nth list.sel(1))
  show "drop (p + 1) buf = rest" using d by (metis Suc_eq_plus1 drop_Suc list.sel(3) tl_drop)
qed

lemma u16_of_bytes: "push_bit 8 (ucast (of_nat (n div 256) :: u8)) OR ucast (of_nat n :: u8) = (of_nat n :: u16)"
proof (rule bit_word_eqI)
  fix k assume k: "k < LENGTH(16)"
  have d: "bit (n div 256) j \<longleftrightarrow> bit n (j + 8)" for j
    using bit_drop_bit_eq [of 8 n] by (simp add: drop_bit_eq_div fun_eq_iff add.commute)
  show "bit (push_bit 8 (ucast (of_nat (n div 256) :: u8)) OR ucast (of_nat n :: u8) :: u16) k = bit (of_nat n :: u16) k"
    using k d [of "k - 8"] by (auto simp: bit_or_iff bit_push_bit_iff bit_ucast_iff bit_of_nat_iff)
qed

definition ext_bytes :: "tlv_wire \<Rightarrow> u8 list" where
  "ext_bytes t = (case tw_ext t of None \<Rightarrow> [] | Some x \<Rightarrow> [x])"

definition with_type :: "tlv_wire \<Rightarrow> tlv_entry \<Rightarrow> tlv_entry" where
  "with_type t e =
     (let e1 = e\<lparr>te_type := tw_type t, te_flags := tw_flags t,
        te_type_ext := (case tw_ext t of None \<Rightarrow> 0 | Some x \<Rightarrow> x)\<rparr>
      in e1\<lparr>te_order := calc_tlvblock_intorder e1\<rparr>)"

lemma parse_tlv_type_step:
  assumes "drop p buf = tw_type t # tw_flags t # ext_bytes t @ rest" "p + 2 + length (ext_bytes t) \<le> eob"
  shows "parse_tlv_type buf eob e (p, RFC5444_OKAY) = Some (with_type t e, (p + 2 + length (ext_bytes t), RFC5444_OKAY))
    \<and> drop (p + 2 + length (ext_bytes t)) buf = rest"
proof -
  note s1 = get_u8_step [OF assms(1)]
  note s2 = get_u8_step [OF s1(2)]
  have p: "p < eob" "p + 1 < eob" using assms(2) by simp_all
  show ?thesis
  proof (cases "tw_ext t")
    case None
    then show ?thesis using s1 s2 p
      by (simp add: parse_tlv_type_def tw_flags_parts with_type_def ext_bytes_def Let_def)
  next
    case (Some x)
    have d: "drop (p + 1 + 1) buf = x # rest" using s2(2) Some by (simp add: ext_bytes_def)
    show ?thesis using s1 s2(1) p get_u8_step [OF d] assms(2) Some
      by (simp add: parse_tlv_type_def tw_flags_parts with_type_def ext_bytes_def Let_def)
  qed
qed

lemma parse_tlv_index_step:
  assumes "drop p buf = index_bytes i @ rest" "p + length (index_bytes i) \<le> eob"
    "te_flags e AND (TLV_FLAG_SINGLE_IDX OR TLV_FLAG_MULTI_IDX) = index_flag i"
  shows "parse_tlv_index buf eob ac e (p, RFC5444_OKAY)
      = Some (e\<lparr>te_index1 := index_first i, te_index2 := index_last ac i\<rparr>, (p + length (index_bytes i), RFC5444_OKAY))
    \<and> drop (p + length (index_bytes i)) buf = rest"
proof (cases i)
  case All_Addresses
  then show ?thesis using assms by (simp add: parse_tlv_index_def)
next
  case (One_Address x)
  note s = get_u8_step [of p buf x rest]
  show ?thesis using assms s One_Address by (simp add: parse_tlv_index_def flag_defs)
next
  case (Address_Range x y)
  have d: "drop p buf = x # y # rest" using assms(1) Address_Range by simp
  note s1 = get_u8_step [OF d]
  note s2 = get_u8_step [OF s1(2)]
  show ?thesis using assms(2,3) s1(1) s2 Address_Range by (simp add: parse_tlv_index_def flag_defs)
qed

lemma get_u16_step:
  assumes "drop p buf = of_nat (n div 256) # of_nat n # rest" "p + 2 \<le> eob"
  shows "get_u16 buf eob (p, RFC5444_OKAY) = Some (of_nat n, (p + 2, RFC5444_OKAY))" "drop (p + 2) buf = rest"
proof -
  note s1 = get_u8_step [OF assms(1)]
  note s2 = get_u8_step [OF s1(2)]
  show "get_u16 buf eob (p, RFC5444_OKAY) = Some (of_nat n, (p + 2, RFC5444_OKAY))"
    using s1(1) s2(1) assms(2) u16_of_bytes [of n] by (simp add: get_u16_def)
  show "drop (p + 2) buf = rest" using s2(2) by simp
qed

lemma parse_tlv_length_step:
  assumes "drop p buf = size_bytes s n @ rest" "p + length (size_bytes s n) \<le> eob"
    "te_flags e AND (TLV_FLAG_VALUE OR TLV_FLAG_EXTVALUE) = size_flag s"
    "s = No_Value \<Longrightarrow> n = 0" "s = Short_Value \<Longrightarrow> n < 256"
  shows "parse_tlv_length buf eob e (p, RFC5444_OKAY)
      = Some (e\<lparr>te_length := of_nat n\<rparr>, (p + length (size_bytes s n), RFC5444_OKAY))
    \<and> drop (p + length (size_bytes s n)) buf = rest"
proof (cases s)
  case No_Value
  then show ?thesis using assms by (simp add: parse_tlv_length_def)
next
  case Short_Value
  have "(ucast (of_nat n :: u8) :: u16) = of_nat n"
    using assms(5) Short_Value by (simp add: word_unat_eq_iff unat_of_nat unsigned_ucast_eq take_bit_nat_eq_self)
  then show ?thesis
    using assms(1-3) get_u8_step [of p buf "of_nat n" rest] Short_Value
    by (simp add: parse_tlv_length_def flag_defs)
next
  case Long_Value
  have d: "drop p buf = of_nat (n div 256) # of_nat n # rest" using assms(1) Long_Value by simp
  show ?thesis
    using assms(2,3) get_u16_step [OF d] Long_Value by (simp add: parse_tlv_length_def flag_defs)
qed

definition tlv_header :: "u8 list \<Rightarrow> nat \<Rightarrow> u8 \<Rightarrow> tlv_entry \<Rightarrow> nat \<Rightarrow> (tlv_entry \<times> cursor) option" where
  "tlv_header buf eob ac e p =
     do {
       (e, c) \<leftarrow> parse_tlv_type buf eob e (p, RFC5444_OKAY);
       (e, c) \<leftarrow> parse_tlv_index buf eob ac e c;
       parse_tlv_length buf eob e c
     }"

lemma parse_tlv_header: "parse_tlv buf eob ac e p = tlv_header buf eob ac e p \<bind> (\<lambda>(e, c). parse_tlv_value eob e c)"
  by (simp add: parse_tlv_def tlv_header_def split_def)

definition with_header :: "u8 \<Rightarrow> tlv_wire \<Rightarrow> tlv_entry \<Rightarrow> tlv_entry" where
  "with_header ac t e = (with_type t e)\<lparr>te_index1 := index_first (tw_index t), te_index2 := index_last ac (tw_index t),
     te_length := of_nat (length (tw_value t))\<rparr>"

lemma tlv_header_of_bytes:
  assumes ok: "tw_ok t" and d: "drop p buf = tw_header t @ rest" and l: "p + length (tw_header t) \<le> eob"
  shows "tlv_header buf eob ac e p = Some (with_header ac t e, (p + length (tw_header t), RFC5444_OKAY))"
proof -
  let ?p1 = "p + 2 + length (ext_bytes t)"
  let ?p2 = "?p1 + length (index_bytes (tw_index t))"
  have h: "tw_header t = tw_type t # tw_flags t # ext_bytes t @ index_bytes (tw_index t) @ size_bytes (tw_size t) (length (tw_value t))"
    by (simp add: tw_header_def ext_bytes_def)
  have d1: "drop p buf = tw_type t # tw_flags t # ext_bytes t @ (index_bytes (tw_index t) @ size_bytes (tw_size t) (length (tw_value t)) @ rest)"
    using d by (simp add: h)
  have l1: "?p1 \<le> eob" "?p2 \<le> eob" "?p2 + length (size_bytes (tw_size t) (length (tw_value t))) \<le> eob"
    using l by (simp_all add: h)
  note t1 = parse_tlv_type_step [OF d1 l1(1), of e]
  have f: "te_flags (with_type t e) = tw_flags t" by (simp add: with_type_def Let_def)
  note t2 = parse_tlv_index_step [OF conjunct2 [OF t1] l1(2), where e = "with_type t e" and ac = ac,
      unfolded f, OF tw_flags_parts(2)]
  have f2: "te_flags ((with_type t e)\<lparr>te_index1 := a, te_index2 := b\<rparr>) = tw_flags t" for a b by (simp add: f)
  have s: "tw_size t = No_Value \<Longrightarrow> length (tw_value t) = 0" "tw_size t = Short_Value \<Longrightarrow> length (tw_value t) < 256"
    using ok by (simp_all add: tw_ok_def)
  note t3 = parse_tlv_length_step [OF conjunct2 [OF t2] l1(3),
      where e = "(with_type t e)\<lparr>te_index1 := index_first (tw_index t), te_index2 := index_last ac (tw_index t)\<rparr>", unfolded f2, OF tw_flags_parts(3) s]
  show ?thesis
    using t1 t2 t3 by (simp add: tlv_header_def with_header_def h)
qed

text \<open>The value of an address: its share of a multivalue TLV, otherwise the whole value.\<close>

definition tw_count :: "u8 \<Rightarrow> tlv_wire \<Rightarrow> u8" where
  "tw_count ac t = index_last ac (tw_index t) - index_first (tw_index t) + 1"

definition tw_value_for :: "u8 \<Rightarrow> tlv_wire \<Rightarrow> u8 \<Rightarrow> u8 list" where
  "tw_value_for ac t idx =
     (if tw_multivalue t \<and> tw_count ac t \<noteq> 1 then
        let l = length (tw_value t) div unat (tw_count ac t)
        in take l (drop (unat (idx - index_first (tw_index t)) * l) (tw_value t))
      else tw_value t)"

text \<open>The pointer to the value of an address that the reader computes for the callbacks.\<close>

definition tlv_value_at :: "tlv_entry \<Rightarrow> u8 \<Rightarrow> nat option" where
  "tlv_value_at e idx =
     (if te_multivalue e then map_option (\<lambda>v. v + (unat idx - unat (te_index1 e)) * unat (te_length e)) (te_value e)
      else te_single_value e)"

lemma index_span:
  fixes a b idx :: u8
  assumes "a \<le> idx" "idx \<le> b" "b - a + 1 \<noteq> 0"
  shows "unat (b - a + 1) = unat b - unat a + 1" "unat (idx - a) < unat (b - a + 1)"
proof -
  have ab: "a \<le> b" using assms by simp
  have s: "unat (b - a) = unat b - unat a" "unat (idx - a) = unat idx - unat a"
    using ab assms by (simp_all add: unat_sub_if' word_le_nat_alt)
  have "unat (b - a) + 1 < 2 ^ LENGTH(8)"
  proof (rule ccontr)
    assume "\<not> ?thesis"
    then have "unat (b - a) = 255" using unsigned_less [of "b - a", where ?'a = nat] by simp
    then have "b - a = 255" by (simp add: word_unat_eq_iff)
    then show False using assms(3) by simp
  qed
  then have "unat (b - a + 1) = unat (b - a) + 1" by (simp add: unat_word_ariths)
  then show "unat (b - a + 1) = unat b - unat a + 1" by (simp add: s)
  show "unat (idx - a) < unat (b - a + 1)"
    using assms(1,2) s \<open>unat (b - a + 1) = unat (b - a) + 1\<close> by (simp add: word_le_nat_alt)
qed

lemma share_in_value:
  fixes k n len :: nat
  assumes "n dvd len" "k < n"
  shows "k * (len div n) + len div n \<le> len"
proof -
  have "k * (len div n) + len div n = (k + 1) * (len div n)" by simp
  also have "\<dots> \<le> n * (len div n)" using assms(2) by (intro mult_right_mono) simp_all
  also have "\<dots> = len" using assms(1) by simp
  finally show ?thesis .
qed

lemma take_drop_inside:
  "drop v buf = val @ rest \<Longrightarrow> a + n \<le> length val \<Longrightarrow> take n (drop (v + a) buf) = take n (drop a val)"
proof -
  assume d: "drop v buf = val @ rest" and l: "a + n \<le> length val"
  have "drop (v + a) buf = drop a (val @ rest)" by (metis add.commute d drop_drop)
  then show ?thesis using l by simp
qed

text \<open>
  C18. Round trip of a TLV: from the bytes of a TLV in the format of RFC 5444 the reader gets its type,
  extension and index values, the position behind it, and for every address in the index range a
  pointer to the value of that address, for a multivalue TLV to its share of the values.
\<close>

theorem parse_tlv_of_bytes:
  assumes "tw_ok t" "drop p buf = tw_bytes t @ rest" "p + length (tw_bytes t) \<le> eob"
    and "tw_multivalue t \<Longrightarrow> tw_value t \<noteq> [] \<Longrightarrow>
      tw_count ac t \<noteq> 0 \<and> unat (tw_count ac t) dvd length (tw_value t)"
  shows "\<exists>e'. parse_tlv buf eob ac e p = Some (RFC5444_OKAY, e', p + length (tw_bytes t))
    \<and> te_type e' = tw_type t \<and> te_type_ext e' = (case tw_ext t of None \<Rightarrow> 0 | Some x \<Rightarrow> x)
    \<and> te_index1 e' = index_first (tw_index t) \<and> te_index2 e' = index_last ac (tw_index t)
    \<and> (\<forall>idx. tw_value t \<noteq> [] \<and> te_index1 e' \<le> idx \<and> idx \<le> te_index2 e' \<longrightarrow>
        (\<exists>v. tlv_value_at e' idx = Some v \<and> take (unat (te_length e')) (drop v buf) = tw_value_for ac t idx))"
proof -
  let ?n = "length (tw_value t)" and ?c = "tw_count ac t"
  let ?v = "p + length (tw_header t)" and ?e = "with_header ac t e"
  have n: "?n < 65536" using assms(1) by (cases "tw_size t") (auto simp: tw_ok_def)
  then have un: "unat (of_nat ?n :: u16) = ?n" by (simp add: unat_of_nat)
  have dv: "drop ?v buf = tw_value t @ rest"
    using assms(2) by (metis add.commute append.assoc append_eq_conv_conj drop_drop tw_bytes_def)
  have l: "?v + ?n \<le> eob" using assms(3) by (simp add: tw_bytes_def)
  have h: "parse_tlv buf eob ac e p = parse_tlv_value eob ?e (?v, RFC5444_OKAY)"
    unfolding parse_tlv_header using tlv_header_of_bytes [OF assms(1), of p buf "tw_value t @ rest" eob ac e] assms(2) l
    by (simp add: tw_bytes_def)
  have f: "te_length ?e = of_nat ?n" "te_index1 ?e = index_first (tw_index t)"
    "te_index2 ?e = index_last ac (tw_index t)" "te_flags ?e = tw_flags t" "te_type ?e = tw_type t"
    "te_type_ext ?e = (case tw_ext t of None \<Rightarrow> 0 | Some x \<Rightarrow> x)"
    by (simp_all add: with_header_def with_type_def Let_def)
  consider "?n = 0" | "?n \<noteq> 0" "\<not> tw_multivalue t \<or> ?c = 1" | "?n \<noteq> 0" "tw_multivalue t" "?c \<noteq> 1" by blast
  then show ?thesis
  proof cases
    case 1
    then show ?thesis
      using l by (simp add: h parse_tlv_value_def f Let_def tw_bytes_def)
  next
    case 2
    have nz: "(of_nat ?n :: u16) \<noteq> 0" using un 2(1) by (metis unat_0)
    have "parse_tlv_value eob ?e (?v, RFC5444_OKAY) = Some (RFC5444_OKAY,
        ?e\<lparr>te_multivalue := False, te_value := Some ?v, te_single_value := Some ?v\<rparr>, ?v + ?n)"
      using 2 l nz un by (auto simp: parse_tlv_value_def f Let_def tw_flags_parts tw_count_def)
    then show ?thesis
      using 2 dv by (auto simp: h f tw_bytes_def tlv_value_at_def tw_value_for_def un)
  next
    case 3
    have nz: "(of_nat ?n :: u16) \<noteq> 0" using un 3(1) by (metis unat_0)
    have c: "?c \<noteq> 0" "unat ?c dvd ?n" using assms(4) 3 by auto
    define len where "len = (of_nat ?n :: u16) div ucast ?c"
    have ulen: "unat len = ?n div unat ?c"
    proof -
      have "unat (ucast ?c :: u16) = unat ?c"
        using unsigned_less [of ?c, where ?'a = nat] by (simp add: unsigned_ucast_eq take_bit_nat_eq_self)
      then show ?thesis by (simp only: len_def unat_div un)
    qed
    have "parse_tlv_value eob ?e (?v, RFC5444_OKAY) = Some (RFC5444_OKAY,
        ?e\<lparr>te_multivalue := True, te_value := Some ?v, te_length := len\<rparr>, ?v + ?n)"
      using 3 l nz un c by (simp add: parse_tlv_value_def f Let_def tw_flags_parts tw_count_def len_def)
    moreover have "take (unat len) (drop (?v + (unat idx - unat (index_first (tw_index t))) * unat len) buf) = tw_value_for ac t idx"
      if i: "index_first (tw_index t) \<le> idx" "idx \<le> index_last ac (tw_index t)" for idx
    proof -
      have k: "unat (idx - index_first (tw_index t)) = unat idx - unat (index_first (tw_index t))"
        using i by (simp add: unat_sub_if' word_le_nat_alt)
      have "unat (idx - index_first (tw_index t)) < unat ?c"
        using index_span(2) [OF i] c(1) by (simp add: tw_count_def)
      then have "unat (idx - index_first (tw_index t)) * unat len + unat len \<le> ?n"
        unfolding ulen by (rule share_in_value [OF c(2)])
      from take_drop_inside [OF dv this] show ?thesis
        using 3 by (simp add: tw_value_for_def Let_def ulen k)
    qed
    ultimately show ?thesis
      using 3 by (simp add: h f tw_bytes_def tlv_value_at_def)
  qed
qed

theorem parse_tlv_of_bytes_witness:
  "\<exists>e'. parse_tlv [9, 1, 0x34, 0, 1, 4, 10, 11, 12, 13, 99] 11 5 tlv_entry_zero 1
      = Some (RFC5444_OKAY, e', 1 + 9) \<and> te_index2 e' = 1"
proof -
  let ?t = "\<lparr>tw_type = 1, tw_ext = None, tw_index = Address_Range 0 1, tw_size = Short_Value,
    tw_multivalue = True, tw_value = [10, 11, 12, 13]\<rparr>"
  have b: "tw_bytes ?t = [1, 0x34, 0, 1, 4, 10, 11, 12, 13]"
    by (simp add: tw_bytes_def tw_header_def tw_flags_def flag_defs)
  have ok: "tw_ok ?t" by (simp add: tw_ok_def)
  have d: "drop 1 [9, 1, 0x34, 0, 1, 4, 10, 11, 12, 13, 99] = tw_bytes ?t @ [99 :: u8]" unfolding b by simp
  have l: "1 + length (tw_bytes ?t) \<le> 11" unfolding b by simp
  have m: "tw_multivalue ?t \<Longrightarrow> tw_value ?t \<noteq> [] \<Longrightarrow> tw_count 5 ?t \<noteq> 0 \<and> unat (tw_count 5 ?t) dvd length (tw_value ?t)"
    by (simp add: tw_count_def)
  have n: "length (tw_bytes ?t) = 9" unfolding b by simp
  show ?thesis using parse_tlv_of_bytes [OF ok d l m, of tlv_entry_zero] unfolding n by auto
qed

subsection \<open>Undefined behaviour of a TLV\<close>

lemma bind_defined: "m \<noteq> None \<Longrightarrow> (\<And>x. f x \<noteq> None) \<Longrightarrow> m \<bind> f \<noteq> None"
  by (cases m) auto

lemma tlv_header_total:
  assumes "eob \<le> length buf"
  shows "tlv_header buf eob ac e p \<noteq> None"
proof -
  note rules = bind_defined get_u8_total [OF assms] get_u16_total [OF assms]
  have t: "parse_tlv_type buf eob e c \<noteq> None" for e c
    unfolding parse_tlv_type_def split_def by (intro rules) (simp_all add: rules Let_def del: not_None_eq)
  have i: "parse_tlv_index buf eob ac e c \<noteq> None" for e c
    unfolding parse_tlv_index_def split_def Let_def by (simp add: rules del: not_None_eq)
  have l: "parse_tlv_length buf eob e c \<noteq> None" for e c
    unfolding parse_tlv_length_def split_def Let_def by (simp add: rules del: not_None_eq)
  show ?thesis
    unfolding tlv_header_def split_def by (intro bind_defined t i l)
qed

lemma parse_tlv_value_undefined:
  "parse_tlv_value eob e c = None \<longleftrightarrow> snd c = RFC5444_OKAY \<and> te_length e \<noteq> 0 \<and> fst c + unat (te_length e) \<le> eob
    \<and> te_flags e AND TLV_FLAG_MULTIVALUE \<noteq> 0 \<and> te_index2 e - te_index1 e + 1 = 0"
  by (auto simp: parse_tlv_value_def Let_def)

text \<open>
  C20. Inside of the packet the only undefined behaviour of reading a TLV is a division by zero: it
  happens exactly for a complete TLV that is marked multivalue, has a value, and whose index range
  wraps around to no values at all. A packet or message TLV without index values is such a TLV.
\<close>

theorem parse_tlv_undefined_iff:
  assumes "eob \<le> length buf"
  shows "parse_tlv buf eob ac e p = None \<longleftrightarrow>
    (\<exists>e' q. tlv_header buf eob ac e p = Some (e', (q, RFC5444_OKAY)) \<and> te_length e' \<noteq> 0
      \<and> q + unat (te_length e') \<le> eob \<and> te_flags e' AND TLV_FLAG_MULTIVALUE \<noteq> 0
      \<and> te_index2 e' - te_index1 e' + 1 = 0)"
proof -
  obtain e1 c1 where h: "tlv_header buf eob ac e p = Some (e1, c1)"
    using tlv_header_total [OF assms, of ac e p] by auto
  show ?thesis
    unfolding parse_tlv_header h by (cases c1) (auto simp: parse_tlv_value_undefined)
qed

theorem parse_tlv_undefined_iff_witness:
  "parse_tlv [1, 0x14, 1, 7] 4 0 tlv_entry_zero 0 = None"
proof -
  have h: "\<exists>e'. tlv_header [1, 0x14, 1, 7] 4 0 tlv_entry_zero 0 = Some (e', (3, RFC5444_OKAY)) \<and> te_length e' = 1
     \<and> te_flags e' = 0x14 \<and> te_index1 e' = 0 \<and> te_index2 e' = 255"
    by (simp add: tlv_header_def parse_tlv_type_def parse_tlv_index_def parse_tlv_length_def get_u8_def flag_defs Let_def)
  then obtain e' where e': "tlv_header [1, 0x14, 1, 7] 4 0 tlv_entry_zero 0 = Some (e', (3, RFC5444_OKAY))"
    "te_length e' = 1" "te_flags e' = 0x14" "te_index1 e' = 0" "te_index2 e' = 255" by blast
  have len: "4 \<le> length [1, 0x14, 1, 7 :: u8]" by simp
  show ?thesis
    unfolding parse_tlv_undefined_iff [OF len] using e' by (simp add: flag_defs)
qed

subsection \<open>The nodes of a TLV block\<close>

text \<open>
  A node is sound when its sort key is its type and the values the reader hands out for the addresses
  of its index range lie inside of the readable bytes.
\<close>

definition tlv_ok :: "nat \<Rightarrow> tlv_entry \<Rightarrow> bool" where
  "tlv_ok eob e \<longleftrightarrow> te_order e = calc_tlvblock_intorder e
     \<and> (\<forall>idx. te_length e \<noteq> 0 \<and> te_index1 e \<le> idx \<and> idx \<le> te_index2 e \<longrightarrow>
          (\<exists>v. tlv_value_at e idx = Some v \<and> v + unat (te_length e) \<le> eob))"

lemma parse_tlv_value_ok:
  assumes "parse_tlv_value eob e c = Some (RFC5444_OKAY, e', p)" "te_order e = calc_tlvblock_intorder e"
  shows "tlv_ok eob e'"
proof -
  define n where "n = te_index2 e - te_index1 e + 1"
  have r: "snd c = RFC5444_OKAY" "fst c + unat (te_length e) \<le> eob"
    using assms(1) by (auto simp: parse_tlv_value_def Let_def split: if_splits)
  consider "te_length e = 0" | "te_length e \<noteq> 0" "te_flags e AND TLV_FLAG_MULTIVALUE = 0 \<or> n = 1"
    | "te_length e \<noteq> 0" "te_flags e AND TLV_FLAG_MULTIVALUE \<noteq> 0" "n \<noteq> 1" by blast
  then show ?thesis
  proof cases
    case 1
    then show ?thesis using assms r by (auto simp: parse_tlv_value_def Let_def tlv_ok_def calc_tlvblock_intorder_def)
  next
    case 2
    then have "e' = e\<lparr>te_multivalue := False, te_value := Some (fst c), te_single_value := Some (fst c)\<rparr>"
      using assms(1) r by (auto simp: parse_tlv_value_def Let_def n_def split: if_splits)
    then show ?thesis using assms(2) r by (simp add: tlv_ok_def calc_tlvblock_intorder_def tlv_value_at_def)
  next
    case 3
    then have n0: "n \<noteq> 0" and dv: "unat (te_length e) mod unat n = 0"
      and e': "e' = e\<lparr>te_multivalue := True, te_value := Some (fst c), te_length := te_length e div ucast n\<rparr>"
      using assms(1) r by (auto simp: parse_tlv_value_def Let_def n_def split: if_splits)
    have un: "unat (ucast n :: u16) = unat n"
      using unsigned_less [of n, where ?'a = nat] by (simp add: unsigned_ucast_eq take_bit_nat_eq_self)
    have ul: "unat (te_length e div ucast n) = unat (te_length e) div unat n" by (simp only: unat_div un)
    have "fst c + (unat idx - unat (te_index1 e)) * (unat (te_length e) div unat n) + unat (te_length e) div unat n \<le> eob"
      if i: "te_index1 e \<le> idx" "idx \<le> te_index2 e" for idx
    proof -
      have "unat idx - unat (te_index1 e) < unat n"
        using index_span(2) [OF i] n0 i by (simp add: n_def unat_sub_if' word_le_nat_alt)
      moreover have "unat n dvd unat (te_length e)" using dv by (simp add: dvd_eq_mod_eq_0)
      ultimately have "(unat idx - unat (te_index1 e)) * (unat (te_length e) div unat n) + unat (te_length e) div unat n
          \<le> unat (te_length e)" by (rule share_in_value [rotated])
      then show ?thesis using r(2) by simp
    qed
    then show ?thesis
      using assms(2) by (simp add: tlv_ok_def calc_tlvblock_intorder_def tlv_value_at_def e' ul)
  qed
qed

lemma parse_tlv_type_order:
  "parse_tlv_type buf eob e c = Some (e', c') \<Longrightarrow> te_order e' = calc_tlvblock_intorder e'"
  by (auto simp: parse_tlv_type_def bind_eq_Some_conv calc_tlvblock_intorder_def Let_def)

lemma parse_tlv_index_order:
  "parse_tlv_index buf eob ac e c = Some (e', c') \<Longrightarrow> te_order e = calc_tlvblock_intorder e \<Longrightarrow>
    te_order e' = calc_tlvblock_intorder e'"
  by (auto simp: parse_tlv_index_def bind_eq_Some_conv calc_tlvblock_intorder_def Let_def split: if_splits)

lemma parse_tlv_length_order:
  "parse_tlv_length buf eob e c = Some (e', c') \<Longrightarrow> te_order e = calc_tlvblock_intorder e \<Longrightarrow>
    te_order e' = calc_tlvblock_intorder e'"
  by (auto simp: parse_tlv_length_def bind_eq_Some_conv calc_tlvblock_intorder_def Let_def split: if_splits)

lemma tlv_header_order:
  "tlv_header buf eob ac e p = Some (e', c) \<Longrightarrow> te_order e' = calc_tlvblock_intorder e'"
  unfolding tlv_header_def bind_eq_Some_conv
  by (auto simp: bind_eq_Some_conv dest!: parse_tlv_type_order
      intro: parse_tlv_length_order [OF _ parse_tlv_index_order])

lemma parse_tlv_ok: "parse_tlv buf eob ac e p = Some (RFC5444_OKAY, e', p') \<Longrightarrow> tlv_ok eob e'"
  by (auto simp: parse_tlv_header bind_eq_Some_conv intro: parse_tlv_value_ok tlv_header_order)

definition alloc_fresh :: "tlv_alloc \<Rightarrow> bool" where
  "alloc_fresh alloc \<longleftrightarrow> (\<forall>st q. alloc st = Some q \<longrightarrow> st q = None)"

text \<open>The nodes of a block over the store it started from.\<close>

definition tlvblock_ok :: "nat \<Rightarrow> tlv_store \<Rightarrow> tlv_tree \<Rightarrow> tlv_store \<Rightarrow> bool" where
  "tlvblock_ok eob st0 tree st \<longleftrightarrow> avl_ok tree \<and> tr_allow_dups tree
     \<and> (\<forall>(k, q) \<in> set (avl_entries tree). st0 q = None \<and> (\<exists>e. st q = Some e \<and> te_order e = k \<and> tlv_ok eob e))
     \<and> (\<forall>q. q \<notin> set (avl_elements tree) \<longrightarrow> st q = st0 q)"

lemma tlvblock_elements:
  "tlvblock_ok eob st0 tree st \<Longrightarrow> q \<in> set (avl_elements tree) \<Longrightarrow>
    st0 q = None \<and> (\<exists>e. st q = Some e \<and> tlv_ok eob e)"
  by (fastforce simp: tlvblock_ok_def simp flip: avl_ids)

lemma free_fold: "fold (\<lambda>p st. st(p := None)) ps st q = (if q \<in> set ps then None else st q)"
  by (induction ps arbitrary: st) auto

lemma free_tlvblock_apply:
  "free_tlvblock tree st q = (if q \<in> set (avl_elements tree) then None else st q)"
  by (simp add: free_tlvblock_def free_fold)

text \<open>Freeing the nodes of a block restores the store.\<close>

lemma free_tlvblock_restores:
  assumes "tlvblock_ok eob st0 tree st"
  shows "free_tlvblock tree st = st0"
proof
  fix q
  show "free_tlvblock tree st q = st0 q"
    using tlvblock_elements [OF assms, of q] assms by (auto simp: free_tlvblock_apply tlvblock_ok_def)
qed

lemma tlvblock_ok_init: "comparator c \<Longrightarrow> tlvblock_ok eob st (avl_init c True) st"
  by (simp add: tlvblock_ok_def avl_init_ok)

lemma tlvblock_ok_insert:
  assumes ok: "tlvblock_ok eob st0 tree st" and e: "tlv_ok eob e" and q: "st q = None"
  shows "tlvblock_ok eob st0 (snd (avl_insert tree (te_order e) q)) (st(q \<mapsto> e))
    \<and> tr_comp (snd (avl_insert tree (te_order e) q)) = tr_comp tree"
proof -
  have new: "q \<notin> set (avl_elements tree)" using tlvblock_elements [OF ok] q by fastforce
  have t: "avl_ok tree" "avl_find tree (te_order e) = None \<or> tr_allow_dups tree"
    using ok by (simp_all add: tlvblock_ok_def)
  from avl.ins_done [OF t(1) _ t(2), of q] new obtain t' where t': "avl_insert tree (te_order e) q = (0, t')"
    "avl_ok t'" "avl_entries t' = ord_insert (tr_comp tree) (te_order e, q) (avl_entries tree)"
    "tr_comp t' = tr_comp tree" "tr_allow_dups t' = tr_allow_dups tree" by (auto simp: avl_ids)
  have els: "set (avl_elements t') = insert q (set (avl_elements tree))"
    by (simp add: t'(3) flip: avl_ids)
  have st0: "st0 q = None" using ok new q by (auto simp: tlvblock_ok_def)
  have A: "st0 q' = None \<and> (\<exists>e'. (st(q \<mapsto> e)) q' = Some e' \<and> te_order e' = k \<and> tlv_ok eob e')"
    if "(k, q') \<in> set (avl_entries t')" for k q'
  proof (cases "(k, q') = (te_order e, q)")
    case False
    then have m: "(k, q') \<in> set (avl_entries tree)" using that by (auto simp: t'(3))
    then have "q' \<in> set (avl_elements tree)" by (force simp flip: avl_ids)
    then have "q' \<noteq> q" using new by blast
    then show ?thesis using ok m by (auto simp: tlvblock_ok_def)
  qed (use e st0 in simp)
  have B: "(st(q \<mapsto> e)) q' = st0 q'" if "q' \<notin> set (avl_elements t')" for q'
    using that ok by (simp add: els tlvblock_ok_def)
  have "tr_allow_dups t'" using ok t'(5) by (simp add: tlvblock_ok_def)
  then show ?thesis
    unfolding tlvblock_ok_def t'(1) snd_conv using t'(2,4) A B by blast
qed

lemma parse_tlv_end: "parse_tlv buf eob ac e p = Some (r, e', p') \<Longrightarrow> p' \<le> eob"
  by (auto simp: parse_tlv_header bind_eq_Some_conv parse_tlv_value_def Let_def split: if_splits)

lemma parse_tlvblock_loop_ok:
  assumes "parse_tlvblock_loop alloc buf block_end eob ac e p tree st = Some (r, p', tree', st')"
    "alloc_fresh alloc" "tlvblock_ok eob st0 tree st" "p \<le> eob"
  shows "tlvblock_ok eob st0 tree' st' \<and> tr_comp tree' = tr_comp tree \<and> p' \<le> eob
    \<and> (r = RFC5444_OKAY \<longrightarrow> block_end \<le> p' \<and> p \<le> p')"
  using assms
proof (induction alloc buf block_end eob ac e p tree st rule: parse_tlvblock_loop.induct)
  case (1 alloc buf block_end eob ac e p tree st)
  show ?case
  proof (cases "p < block_end")
    case False
    then show ?thesis using "1.prems" by (subst (asm) parse_tlvblock_loop.simps) auto
  next
    case lt: True
    then obtain r1 e1 p1 where s: "parse_tlv buf eob ac e p = Some (r1, e1, p1)"
      using "1.prems"(1) by (subst (asm) parse_tlvblock_loop.simps) (auto split: option.splits)
    show ?thesis
    proof (cases "r1 = RFC5444_OKAY")
      case False
      then show ?thesis
        using "1.prems" s lt parse_tlv_end [OF s] by (subst (asm) parse_tlvblock_loop.simps) auto
    next
      case okay: True
      note pr = parse_tlv_progress [OF s [unfolded okay]]
      show ?thesis
      proof (cases "alloc st")
        case None
        then show ?thesis
          using "1.prems" s lt okay pr by (subst (asm) parse_tlvblock_loop.simps) auto
      next
        case (Some q)
        have q: "st q = None" using "1.prems"(2) Some by (auto simp: alloc_fresh_def)
        note ins = tlvblock_ok_insert [OF "1.prems"(3) parse_tlv_ok [OF s [unfolded okay]] q]
        have rec: "parse_tlvblock_loop alloc buf block_end eob ac e1 p1
            (snd (avl_insert tree (te_order e1) q)) (st(q \<mapsto> e1)) = Some (r, p', tree', st')"
          using "1.prems"(1) s lt okay Some by (subst (asm) parse_tlvblock_loop.simps) simp
        show ?thesis
          using "1.IH" [OF lt s _ refl _ Some, OF refl _ rec "1.prems"(2) conjunct1 [OF ins]] okay pr ins by auto
      qed
    qed
  qed
qed

lemma parse_tlvblock_result:
  assumes "alloc_fresh alloc" "comparator c" "eob \<le> length buf"
    and r: "parse_tlvblock alloc buf eob ac p (avl_init c True) st = Some (r, p', tree, st')"
  shows "p' \<le> eob \<and> (if r = RFC5444_OKAY then p + 2 \<le> p' \<and> tlvblock_ok eob st tree st' \<and> free_tlvblock tree st' = st
    else p' = eob \<and> st' = st \<and> avl_entries tree = [])"
proof -
  obtain len q r0 where g: "get_u16 buf eob (p, RFC5444_OKAY) = Some (len, (q, r0))"
    using r by (auto simp: parse_tlvblock_def bind_eq_Some_conv)
  show ?thesis
  proof (cases "p + 2 + unat len > eob")
    case True
    then show ?thesis
      using r g by (auto simp: parse_tlvblock_def free_tlvblock_def Let_def) (auto simp: avl_elements_def avl_init_def avl_entries_def)
  next
    case False
    then have "p < eob" "p + 1 < eob" by auto
    then have q: "q = p + 2"
      using g assms(3) by (auto simp: get_u16_def get_u8_def)
    obtain r1 p1 tree1 st1 where l: "parse_tlvblock_loop alloc buf (p + 2 + unat len) eob ac tlv_entry_zero q
        (avl_init c True) st = Some (r1, p1, tree1, st1)"
      and res: "(r, p', tree, st') = (if r1 \<noteq> RFC5444_OKAY
          then (r1, eob, avl_init (tr_comp tree1) (tr_allow_dups tree1), free_tlvblock tree1 st1) else (r1, p1, tree1, st1))"
      using r g False by (auto simp: parse_tlvblock_def bind_eq_Some_conv Let_def split: if_splits)
    have "q \<le> eob" using False q by simp
    note ok = parse_tlvblock_loop_ok [OF l assms(1) tlvblock_ok_init [OF assms(2)] this]
    show ?thesis
      using res ok q free_tlvblock_restores [OF conjunct1 [OF ok]] by (auto split: if_splits)
  qed
qed

text \<open>No read looks at a byte behind the end that it is given.\<close>

lemma get_u8_inside: "eob \<le> length buf \<Longrightarrow> get_u8 (take eob buf) eob = get_u8 buf eob"
  by (simp add: get_u8_def fun_eq_iff)

lemma get_u16_inside: "eob \<le> length buf \<Longrightarrow> get_u16 (take eob buf) eob = get_u16 buf eob"
  by (simp only: get_u16_def [abs_def] get_u8_inside)

lemma parse_tlv_inside:
  assumes "eob \<le> length buf"
  shows "parse_tlv (take eob buf) eob ac e p = parse_tlv buf eob ac e p"
  unfolding parse_tlv_def parse_tlv_type_def parse_tlv_index_def parse_tlv_length_def
    get_u8_inside [OF assms] get_u16_inside [OF assms] by (rule refl)

lemma parse_tlvblock_loop_inside:
  "eob \<le> length buf \<Longrightarrow> parse_tlvblock_loop alloc (take eob buf) block_end eob ac e p tree st
    = parse_tlvblock_loop alloc buf block_end eob ac e p tree st"
proof (induction alloc buf block_end eob ac e p tree st rule: parse_tlvblock_loop.induct)
  case (1 alloc buf block_end eob ac e p tree st)
  show ?case
    by (subst (1 2) parse_tlvblock_loop.simps)
      (auto simp: parse_tlv_inside [OF "1.prems"] intro!: "1.IH" "1.prems" split: option.split)
qed

lemma parse_tlvblock_inside:
  assumes "eob \<le> length buf"
  shows "parse_tlvblock alloc (take eob buf) eob ac p tree st = parse_tlvblock alloc buf eob ac p tree st"
  unfolding parse_tlvblock_def get_u16_inside [OF assms] parse_tlvblock_loop_inside [OF assms] by (rule refl)

text \<open>
  The division by zero of a TLV, at the offset of its first byte: the TLV is complete and marked
  multivalue, and its index range wraps around to no values.
\<close>

definition tlv_divides_by_zero :: "u8 list \<Rightarrow> nat \<Rightarrow> u8 \<Rightarrow> nat \<Rightarrow> bool" where
  "tlv_divides_by_zero buf eob ac q \<longleftrightarrow>
     (case tlv_header buf eob ac tlv_entry_zero q of None \<Rightarrow> False
      | Some (e, v, r) \<Rightarrow> r = RFC5444_OKAY \<and> te_length e \<noteq> 0 \<and> v + unat (te_length e) \<le> eob
          \<and> te_flags e AND TLV_FLAG_MULTIVALUE \<noteq> 0 \<and> te_index2 e - te_index1 e + 1 = 0)"

text \<open>The header of a TLV does not depend on what the entry held before.\<close>

definition same_header :: "tlv_entry \<Rightarrow> tlv_entry \<Rightarrow> bool" where
  "same_header e e' \<longleftrightarrow> te_flags e = te_flags e' \<and> te_index1 e = te_index1 e' \<and> te_index2 e = te_index2 e'
     \<and> te_length e = te_length e'"

lemma parse_tlv_type_flags:
  "parse_tlv_type buf eob e c = Some (e1, c1) \<Longrightarrow>
    \<exists>e2. parse_tlv_type buf eob e0 c = Some (e2, c1) \<and> te_flags e2 = te_flags e1"
proof -
  assume "parse_tlv_type buf eob e c = Some (e1, c1)"
  then obtain ty c2 fl c3 ext where s: "get_u8 buf eob c = Some (ty, c2)" "get_u8 buf eob c2 = Some (fl, c3)"
    "(if fl AND TLV_FLAG_TYPEEXT \<noteq> 0 then get_u8 buf eob c3 else Some (0, c3)) = Some (ext, c1)" "te_flags e1 = fl"
    by (auto simp: parse_tlv_type_def bind_eq_Some_conv Let_def)
  show ?thesis
    unfolding parse_tlv_type_def s(1) Option.bind.bind_lunit prod.case s(2) s(3) Let_def using s(4) by simp
qed

lemma parse_tlv_index_same:
  "parse_tlv_index buf eob ac e c = Some (e1, c1) \<Longrightarrow> snd c1 = RFC5444_OKAY \<Longrightarrow> te_flags e0 = te_flags e \<Longrightarrow>
    \<exists>e2. parse_tlv_index buf eob ac e0 c = Some (e2, c1) \<and> te_flags e2 = te_flags e1
      \<and> te_index1 e2 = te_index1 e1 \<and> te_index2 e2 = te_index2 e1"
  by (auto simp: parse_tlv_index_def bind_eq_Some_conv Let_def split: if_splits)

lemma parse_tlv_length_same:
  "parse_tlv_length buf eob e c = Some (e1, c1) \<Longrightarrow> snd c1 = RFC5444_OKAY \<Longrightarrow> te_flags e0 = te_flags e \<Longrightarrow>
    te_index1 e0 = te_index1 e \<Longrightarrow> te_index2 e0 = te_index2 e \<Longrightarrow>
    \<exists>e2. parse_tlv_length buf eob e0 c = Some (e2, c1) \<and> same_header e2 e1"
  by (auto simp: parse_tlv_length_def bind_eq_Some_conv Let_def same_header_def split: if_splits)

lemma tlv_header_same:
  assumes "tlv_header buf eob ac e p = Some (e3, (q, RFC5444_OKAY))"
  shows "\<exists>e'. tlv_header buf eob ac e0 p = Some (e', (q, RFC5444_OKAY)) \<and> same_header e' e3"
proof -
  obtain e1 c1 e2 c2 where s: "parse_tlv_type buf eob e (p, RFC5444_OKAY) = Some (e1, c1)"
    "parse_tlv_index buf eob ac e1 c1 = Some (e2, c2)" "parse_tlv_length buf eob e2 c2 = Some (e3, (q, RFC5444_OKAY))"
    using assms by (auto simp: tlv_header_def bind_eq_Some_conv)
  have "snd c2 = RFC5444_OKAY" using parse_tlv_length_advances [OF s(3)] by (simp add: advances_def)
  obtain f1 where f1: "parse_tlv_type buf eob e0 (p, RFC5444_OKAY) = Some (f1, c1)" "te_flags f1 = te_flags e1"
    using parse_tlv_type_flags [OF s(1)] by blast
  obtain f2 where f2: "parse_tlv_index buf eob ac f1 c1 = Some (f2, c2)" "te_flags f2 = te_flags e2"
    "te_index1 f2 = te_index1 e2" "te_index2 f2 = te_index2 e2"
    using parse_tlv_index_same [OF s(2) \<open>snd c2 = RFC5444_OKAY\<close> f1(2)] by blast
  obtain f3 where "parse_tlv_length buf eob f2 c2 = Some (f3, (q, RFC5444_OKAY))" "same_header f3 e3"
    using parse_tlv_length_same [OF s(3) _ f2(2-4)] by auto
  then show ?thesis using f1 f2 by (simp add: tlv_header_def)
qed

lemma parse_tlv_undefined:
  assumes "eob \<le> length buf" "parse_tlv buf eob ac e q = None"
  shows "tlv_divides_by_zero buf eob ac q"
proof -
  obtain e1 c1 where h: "tlv_header buf eob ac e q = Some (e1, c1)"
    using tlv_header_total [OF assms(1), of ac e q] by auto
  then have "parse_tlv_value eob e1 c1 = None" using assms(2) by (simp add: parse_tlv_header)
  then have z: "c1 = (fst c1, RFC5444_OKAY)" "te_length e1 \<noteq> 0" "fst c1 + unat (te_length e1) \<le> eob"
    "te_flags e1 AND TLV_FLAG_MULTIVALUE \<noteq> 0" "te_index2 e1 - te_index1 e1 + 1 = 0"
    by (cases c1; simp add: parse_tlv_value_undefined)+
  have "tlv_header buf eob ac e q = Some (e1, (fst c1, RFC5444_OKAY))" using h z(1) by simp
  from tlv_header_same [OF this, of tlv_entry_zero] z(2-5) show ?thesis
    by (auto simp: tlv_divides_by_zero_def same_header_def)
qed

lemma parse_tlvblock_loop_undefined:
  assumes "parse_tlvblock_loop alloc buf block_end eob ac e p tree st = None" "eob \<le> length buf"
  shows "\<exists>q. p \<le> q \<and> q < block_end \<and> tlv_divides_by_zero buf eob ac q"
  using assms
proof (induction alloc buf block_end eob ac e p tree st rule: parse_tlvblock_loop.induct)
  case (1 alloc buf block_end eob ac e p tree st)
  have lt: "p < block_end" using "1.prems"(1) by (subst (asm) parse_tlvblock_loop.simps) (auto split: if_splits)
  show ?case
  proof (cases "parse_tlv buf eob ac e p")
    case None
    then show ?thesis using lt parse_tlv_undefined [OF "1.prems"(2)] by blast
  next
    case (Some x)
    obtain r1 e1 p1 where x: "x = (r1, e1, p1)" by (rule prod_cases3)
    obtain q where s: "r1 = RFC5444_OKAY" "alloc st = Some q" "parse_tlvblock_loop alloc buf block_end eob ac e1 p1
        (snd (avl_insert tree (te_order e1) q)) (st(q \<mapsto> e1)) = None"
      using "1.prems"(1) lt Some x
      by (subst (asm) parse_tlvblock_loop.simps) (auto split: if_splits option.splits)
    have "p + 2 \<le> p1" using parse_tlv_progress [OF Some [unfolded x s(1)]] by simp
    moreover have "\<exists>q. p1 \<le> q \<and> q < block_end \<and> tlv_divides_by_zero buf eob ac q"
      using "1.IH" [OF lt Some x [symmetric] refl _ s(2,3) "1.prems"(2)] s(1) by simp
    ultimately show ?thesis by (meson order.trans le_add1)
  qed
qed

lemma parse_tlvblock_undefined:
  assumes "parse_tlvblock alloc buf eob ac p tree st = None" "eob \<le> length buf"
  shows "\<exists>q. p + 2 \<le> q \<and> q < eob \<and> tlv_divides_by_zero buf eob ac q"
proof -
  obtain len q r where g: "get_u16 buf eob (p, RFC5444_OKAY) = Some (len, (q, r))"
    using get_u16_total [OF assms(2), of "(p, RFC5444_OKAY)"] by auto
  have i: "p + 2 + unat len \<le> eob"
    using assms(1) g by (auto simp: parse_tlvblock_def Let_def split: if_splits)
  then have "q = p + 2" using g assms(2) by (auto simp: get_u16_def get_u8_def)
  moreover have "parse_tlvblock_loop alloc buf (p + 2 + unat len) eob ac tlv_entry_zero q tree st = None"
    using assms(1) g i by (cases "parse_tlvblock_loop alloc buf (p + 2 + unat len) eob ac tlv_entry_zero q tree st")
      (auto simp: parse_tlvblock_def Let_def split: if_splits)
  ultimately show ?thesis
    using parse_tlvblock_loop_undefined [OF _ assms(2)] i by fastforce
qed

text \<open>
  C17. Memory of a TLV block: reading a block looks at no byte behind the end that it was given (the
  bytes up to the end alone give the same result), and inside of the buffer its only undefined
  behaviour is the division by zero of a multivalue TLV without values, at a TLV of the block;
  otherwise it returns. On success every node is sorted in under its type, and the value of every
  address in its index range lies inside of the readable bytes; freeing the block then restores the
  store of nodes. On every error, a failed allocation included, the store is already what it was before
  and the position is the end.
\<close>

theorem parse_tlvblock_memory:
  assumes "alloc_fresh alloc" "comparator c" "eob \<le> length buf"
  shows "parse_tlvblock alloc (take eob buf) eob ac p (avl_init c True) st
      = parse_tlvblock alloc buf eob ac p (avl_init c True) st
    \<and> (case parse_tlvblock alloc buf eob ac p (avl_init c True) st of
         None \<Rightarrow> \<exists>q. p + 2 \<le> q \<and> q < eob \<and> tlv_divides_by_zero buf eob ac q
       | Some (r, p', tree, st') \<Rightarrow> p' \<le> eob
           \<and> (if r = RFC5444_OKAY then p + 2 \<le> p' \<and> tlvblock_ok eob st tree st' \<and> free_tlvblock tree st' = st
              else p' = eob \<and> st' = st \<and> avl_entries tree = []))"
proof (cases "parse_tlvblock alloc buf eob ac p (avl_init c True) st")
  case None
  show ?thesis using parse_tlvblock_undefined [OF None assms(3)] unfolding parse_tlvblock_inside [OF assms(3)] None by simp
next
  case (Some x)
  obtain r p' tree st' where x: "x = (r, p', tree, st')" by (rule prod_cases4)
  show ?thesis
    using parse_tlvblock_result [OF assms Some [unfolded x]]
    unfolding parse_tlvblock_inside [OF assms(3)] Some x option.case prod.case by blast
qed

definition first_free :: tlv_alloc where
  "first_free st = (if st 0 = None then Some 0 else if st 1 = None then Some 1 else None)"

theorem parse_tlvblock_memory_witness:
  "\<exists>p' tree st'. parse_tlvblock first_free [0, 2, 7, 0] 4 0 0 (avl_init avl_comp_uint16 True) (\<lambda>_. None)
      = Some (RFC5444_OKAY, p', tree, st') \<and> p' \<le> 4 \<and> free_tlvblock tree st' = (\<lambda>_. None)"
proof -
  have fresh: "alloc_fresh first_free" by (simp add: alloc_fresh_def first_free_def)
  have len: "4 \<le> length [0, 2, 7, 0 :: u8]" by simp
  have t: "parse_tlv [0, 2, 7, 0] 4 0 tlv_entry_zero 2 = Some (RFC5444_OKAY, tlv_entry_zero
      \<lparr>te_type := 7, te_order := 0x700, te_index2 := 255\<rparr>, 4)"
    by (simp add: parse_tlv_def parse_tlv_type_def parse_tlv_index_def parse_tlv_length_def parse_tlv_value_def
        get_u8_def flag_defs Let_def calc_tlvblock_intorder_def) (simp add: tlv_entry_zero_def)
  obtain tree st' where r: "parse_tlvblock first_free [0, 2, 7, 0] 4 0 0 (avl_init avl_comp_uint16 True) (\<lambda>_. None)
      = Some (RFC5444_OKAY, 4, tree, st')"
    by (simp add: parse_tlvblock_def get_u16_def get_u8_def)
      (simp add: parse_tlvblock_loop.simps t [unfolded numeral_2_eq_2] first_free_def)
  show ?thesis
    using parse_tlvblock_memory [OF fresh avl_comp_uint16.comparator_axioms len, of 0 0 "\<lambda>_. None"] r
    by (simp split: if_splits)
qed

subsection \<open>Address blocks on the wire\<close>

text \<open>
  The address block format of RFC 5444: the number of addresses, flags, an optional head and tail that
  all addresses share, their middle parts, and no, one or many prefix lengths.
\<close>

datatype addr_tail = No_Tail | Zero_Tail nat | Full_Tail "u8 list"

datatype addr_plen = Full_Length | One_Length u8 | Many_Lengths "u8 list"

record addr_wire =
  aw_head :: "u8 list option"
  aw_tail :: addr_tail
  aw_mids :: "u8 list list"
  aw_plen :: addr_plen

definition aw_head_part :: "addr_wire \<Rightarrow> u8 list" where
  "aw_head_part w = (case aw_head w of None \<Rightarrow> [] | Some h \<Rightarrow> h)"

fun tail_part :: "addr_tail \<Rightarrow> u8 list" where
  "tail_part No_Tail = []"
| "tail_part (Zero_Tail n) = replicate n 0"
| "tail_part (Full_Tail bs) = bs"

fun tail_bytes :: "addr_tail \<Rightarrow> u8 list" where
  "tail_bytes No_Tail = []"
| "tail_bytes (Zero_Tail n) = [of_nat n]"
| "tail_bytes (Full_Tail bs) = of_nat (length bs) # bs"

fun tail_flag :: "addr_tail \<Rightarrow> u8" where
  "tail_flag No_Tail = 0"
| "tail_flag (Zero_Tail n) = ADDR_FLAG_ZEROTAIL"
| "tail_flag (Full_Tail bs) = ADDR_FLAG_FULLTAIL"

fun plen_flag :: "addr_plen \<Rightarrow> u8" where
  "plen_flag Full_Length = 0"
| "plen_flag (One_Length _) = ADDR_FLAG_SINGLEPLEN"
| "plen_flag (Many_Lengths _) = ADDR_FLAG_MULTIPLEN"

fun plen_bytes :: "addr_plen \<Rightarrow> u8 list" where
  "plen_bytes Full_Length = []"
| "plen_bytes (One_Length x) = [x]"
| "plen_bytes (Many_Lengths xs) = xs"

definition aw_flags :: "addr_wire \<Rightarrow> u8" where
  "aw_flags w = (if aw_head w = None then 0 else ADDR_FLAG_HEAD) OR tail_flag (aw_tail w) OR plen_flag (aw_plen w)"

definition head_bytes :: "addr_wire \<Rightarrow> u8 list" where
  "head_bytes w = (case aw_head w of None \<Rightarrow> [] | Some h \<Rightarrow> of_nat (length h) # h)"

definition aw_bytes :: "addr_wire \<Rightarrow> u8 list" where
  "aw_bytes w = [of_nat (length (aw_mids w)), aw_flags w] @ head_bytes w @ tail_bytes (aw_tail w)
     @ concat (aw_mids w) @ plen_bytes (aw_plen w)"

definition aw_address :: "addr_wire \<Rightarrow> nat \<Rightarrow> u8 list" where
  "aw_address w i = aw_head_part w @ aw_mids w ! i @ tail_part (aw_tail w)"

definition aw_ok :: "nat \<Rightarrow> nat \<Rightarrow> addr_wire \<Rightarrow> bool" where
  "aw_ok alen m w \<longleftrightarrow> alen \<le> 16 \<and> aw_mids w \<noteq> [] \<and> length (aw_mids w) < 256 \<and> (\<forall>x \<in> set (aw_mids w). length x = m)
     \<and> length (aw_head_part w) + m + length (tail_part (aw_tail w)) = alen
     \<and> (case aw_plen w of Many_Lengths xs \<Rightarrow> length xs = length (aw_mids w) | _ \<Rightarrow> True)"

lemma aw_flags_parts:
  "aw_flags w AND ADDR_FLAG_HEAD = 0 \<longleftrightarrow> aw_head w = None"
  "aw_flags w AND (ADDR_FLAG_FULLTAIL OR ADDR_FLAG_ZEROTAIL) = tail_flag (aw_tail w)"
  "aw_flags w AND (ADDR_FLAG_SINGLEPLEN OR ADDR_FLAG_MULTIPLEN) = plen_flag (aw_plen w)"
  by (cases "aw_tail w"; cases "aw_plen w"; simp add: aw_flags_def flag_defs)+

lemma aw_flags_masks:
  "aw_flags w AND 0x80 = 0 \<longleftrightarrow> aw_head w = None"
  "aw_flags w AND 0x60 = tail_flag (aw_tail w)"
  "aw_flags w AND 0x18 = plen_flag (aw_plen w)"
  by (cases "aw_tail w"; cases "aw_plen w"; simp add: aw_flags_def flag_defs)+

text \<open>The address of an index, as the reader assembles it in the 16 bytes of the entry.\<close>

definition assemble_address :: "u8 list \<Rightarrow> addr_entry \<Rightarrow> u8 \<Rightarrow> u8 list option" where
  "assemble_address buf a i =
     copy_bytes (ae_addr a) (unat (ae_mid_start a)) buf (ae_mid_src a + unat (ae_mid_len a) * unat i)
       (unat (ae_mid_len a))"

definition address_plen :: "u8 list \<Rightarrow> addr_entry \<Rightarrow> u8 \<Rightarrow> u8 option" where
  "address_plen buf a i =
     (case ae_prefixes a of None \<Rightarrow> Some (ae_prefixlen a)
      | Some p \<Rightarrow> if p + unat i < length buf then Some (buf ! (p + unat i)) else None)"

lemma copy_bytes_step:
  assumes "drop src buf = xs @ rest" "n = length xs" "off + n \<le> length dst"
  shows "copy_bytes dst off buf src n = Some (mem_write dst off xs)"
proof -
  have "n \<le> length buf - src" using arg_cong [OF assms(1), of length] assms(2) by simp
  then have "n = 0 \<or> src + n \<le> length buf" by linarith
  then show ?thesis using assms by (simp add: copy_bytes_def)
qed

lemma drop_append_add: "drop p buf = xs @ ys \<Longrightarrow> drop (p + length xs) buf = ys"
  by (metis add.commute append_eq_conv_conj drop_drop)

lemma parse_addr_head_step:
  assumes d: "drop p buf = head_bytes w @ rest" and l: "p + length (head_bytes w) \<le> eob"
    and h: "length (aw_head_part w) \<le> 16" and a: "length (ae_addr a) = 16" "ae_mid_start a = 0"
  shows "parse_addr_head buf eob (aw_flags w) a (p, RFC5444_OKAY)
      = Some (Inr (a\<lparr>ae_mid_start := of_nat (length (aw_head_part w)), ae_addr := mem_write (ae_addr a) 0 (aw_head_part w),
          ae_mid_len := ae_mid_len a - of_nat (length (aw_head_part w))\<rparr>, (p + length (head_bytes w), RFC5444_OKAY)))
    \<and> drop (p + length (head_bytes w)) buf = rest"
proof (cases "aw_head w")
  case None
  then show ?thesis using d a by (simp add: parse_addr_head_def aw_flags_parts head_bytes_def aw_head_part_def mem_write_def)
next
  case (Some x)
  have d1: "drop p buf = of_nat (length x) # x @ rest" using d Some by (simp add: head_bytes_def)
  have x16: "length x \<le> 16" using h Some by (simp add: aw_head_part_def)
  then have ux: "unat (of_nat (length x) :: u8) = length x" by (simp add: unat_of_nat)
  note s1 = get_u8_step [OF d1]
  have c: "copy_bytes (ae_addr a) 0 buf (p + 1) (length x) = Some (mem_write (ae_addr a) 0 x)"
    by (rule copy_bytes_step [OF s1(2) refl]) (use a x16 in simp)
  have le: "p < eob" "p + 1 + length x \<le> eob" using l Some by (simp_all add: head_bytes_def)
  have "drop (p + 1 + length x) buf = rest" by (rule drop_append_add [OF s1(2)])
  then show ?thesis
    using s1(1) [OF le(1)] c le Some ux
    by (simp add: parse_addr_head_def aw_flags_parts head_bytes_def aw_head_part_def add.assoc)
qed

definition tail_written :: "nat \<Rightarrow> addr_tail \<Rightarrow> u8 list \<Rightarrow> u8 list" where
  "tail_written alen t m = (case t of Full_Tail bs \<Rightarrow> mem_write m (alen - length bs) bs | _ \<Rightarrow> m)"

lemma parse_addr_tail_step:
  assumes d: "drop p buf = tail_bytes (aw_tail w) @ rest" and l: "p + length (tail_bytes (aw_tail w)) \<le> eob"
    and t: "length (tail_part (aw_tail w)) \<le> unat al" "unat al \<le> 16" and a: "length (ae_addr a) = 16"
  shows "parse_addr_tail buf eob al (aw_flags w) a (p, RFC5444_OKAY)
      = Some (Inr (a\<lparr>ae_addr := tail_written (unat al) (aw_tail w) (ae_addr a),
          ae_mid_len := ae_mid_len a - of_nat (length (tail_part (aw_tail w)))\<rparr>,
          (p + length (tail_bytes (aw_tail w)), RFC5444_OKAY)))
    \<and> drop (p + length (tail_bytes (aw_tail w))) buf = rest"
proof (cases "aw_tail w")
  case No_Tail
  then show ?thesis using d by (simp add: parse_addr_tail_def aw_flags_masks flag_defs tail_written_def)
next
  case (Zero_Tail n)
  have d1: "drop p buf = of_nat n # rest" using d Zero_Tail by simp
  show ?thesis
    using get_u8_step [OF d1] l Zero_Tail by (simp add: parse_addr_tail_def aw_flags_masks flag_defs tail_written_def)
next
  case (Full_Tail x)
  have d1: "drop p buf = of_nat (length x) # x @ rest" using d Full_Tail by simp
  have x16: "length x \<le> unat al" using t Full_Tail by simp
  then have ux: "unat (of_nat (length x) :: u8) = length x"
    using t(2) by (simp add: unat_of_nat)
  note s1 = get_u8_step [OF d1]
  have c: "copy_bytes (ae_addr a) (unat al - length x) buf (p + 1) (length x) = Some (mem_write (ae_addr a) (unat al - length x) x)"
    by (rule copy_bytes_step [OF s1(2) refl]) (use a x16 t in simp)
  have le: "p < eob" "p + 1 + length x \<le> eob" using l Full_Tail by simp_all
  have "drop (p + 1 + length x) buf = rest" by (rule drop_append_add [OF s1(2)])
  then show ?thesis
    using s1(1) [OF le(1)] c le Full_Tail ux x16
    by (simp add: parse_addr_tail_def aw_flags_masks flag_defs tail_written_def add.assoc)
qed

definition with_plen :: "addr_plen \<Rightarrow> u8 \<Rightarrow> nat \<Rightarrow> addr_entry \<Rightarrow> addr_entry" where
  "with_plen x al q a = (case x of Full_Length \<Rightarrow> a\<lparr>ae_prefixlen := al * 8\<rparr> | One_Length y \<Rightarrow> a\<lparr>ae_prefixlen := y\<rparr>
     | Many_Lengths _ \<Rightarrow> a\<lparr>ae_prefixes := Some q\<rparr>)"

lemma parse_addr_prefix_step:
  assumes d: "drop p buf = mids @ plen_bytes (aw_plen w) @ rest"
    and n: "length mids = unat (ae_mid_len a) * unat (ae_num_addr a)"
    and l: "p + length mids + length (plen_bytes (aw_plen w)) \<le> eob"
    and m: "\<And>xs. aw_plen w = Many_Lengths xs \<Longrightarrow> length xs = unat (ae_num_addr a)"
  shows "parse_addr_prefix buf eob al (aw_flags w) a (p, RFC5444_OKAY)
      = Some (Inr (with_plen (aw_plen w) al (p + length mids) (a\<lparr>ae_mid_src := p\<rparr>),
          (p + length mids + length (plen_bytes (aw_plen w)), RFC5444_OKAY)))"
proof -
  have d1: "drop (p + length mids) buf = plen_bytes (aw_plen w) @ rest" by (rule drop_append_add [OF d])
  show ?thesis
  proof (cases "aw_plen w")
    case (One_Length y)
    then have d2: "drop (p + length mids) buf = y # rest" using d1 by simp
    then have "p + length mids < length buf" by (metis drop_eq_Nil list.distinct(1) not_le)
    moreover have "buf ! (p + length mids) = y" using d2 calculation by (metis hd_drop_conv_nth list.sel(1))
    ultimately show ?thesis
      using n l One_Length by (simp add: parse_addr_prefix_def aw_flags_masks flag_defs with_plen_def)
  qed (use n l m in \<open>simp_all add: parse_addr_prefix_def aw_flags_masks flag_defs with_plen_def Let_def\<close>)
qed

lemma concat_slice:
  "\<forall>x \<in> set xss. length x = m \<Longrightarrow> i < length xss \<Longrightarrow> take m (drop (m * i) (concat xss)) = xss ! i"
proof (induction xss arbitrary: i)
  case (Cons xs xss)
  then show ?case by (cases i) (auto simp: algebra_simps)
qed simp

lemma length_concat_same: "\<forall>x \<in> set xss. length x = m \<Longrightarrow> length (concat xss) = m * length xss"
  by (induction xss) auto

lemma slice_of_concat:
  assumes "\<forall>x \<in> set xss. length x = m" "i < length xss" "drop p buf = concat xss @ rest"
  shows "\<exists>rest'. drop (p + m * i) buf = xss ! i @ rest'"
proof -
  have "m * i + m \<le> length (concat xss)"
    using length_concat_same [OF assms(1)] assms(2) by (metis Suc_leI add.commute mult_Suc_right mult_le_mono2)
  then have "drop (m * i) (concat xss) = xss ! i @ drop m (drop (m * i) (concat xss))"
    using concat_slice [OF assms(1,2)] by (metis append_take_drop_id)
  moreover have "drop (p + m * i) buf = drop (m * i) (concat xss) @ drop (m * i - length (concat xss)) rest"
    using assms(3) by (metis add.commute drop_append drop_drop)
  ultimately show ?thesis by (metis append.assoc)
qed

lemma drop_nth_append: "drop q buf = xs @ rest \<Longrightarrow> i < length xs \<Longrightarrow> q + i < length buf \<and> buf ! (q + i) = xs ! i"
proof -
  assume d: "drop q buf = xs @ rest" and i: "i < length xs"
  have "length xs \<le> length buf - q" using arg_cong [OF d, of length] by simp
  then have l: "q + i < length buf" using i by linarith
  then have "buf ! (q + i) = drop q buf ! i" by simp
  then show ?thesis using l d i by (simp add: nth_append)
qed

text \<open>The fixed parts of an address around its middle part.\<close>

lemma assembled_bytes:
  assumes "length h + length m + length (tail_part t) = alen" "alen \<le> 16"
  shows "take alen (mem_write (tail_written alen t (mem_write (replicate 16 0) 0 h)) (length h) m) = h @ m @ tail_part t"
proof (cases t)
  case No_Tail
  then show ?thesis using assms by (simp add: tail_written_def mem_write_def)
next
  case (Zero_Tail n)
  then show ?thesis using assms by (auto simp: tail_written_def mem_write_def min_def)
next
  case (Full_Tail bs)
  have o: "alen - length bs = length h + length m" using assms(1) Full_Tail by simp
  show ?thesis
    unfolding Full_Tail tail_written_def addr_tail.case o using assms Full_Tail
    by (simp add: mem_write_def)
qed

text \<open>
  C19. Round trip of an address block: from the bytes of a block in the format of RFC 5444 the reader gets
  the number of addresses, the size of the block, the position behind it, and assembles for every index
  the address made of head, middle part and tail together with its prefix length.
\<close>

theorem parse_addrblock_of_bytes:
  assumes ok: "aw_ok (unat al) m w" and d: "drop p buf = aw_bytes w @ rest" and l: "p + length (aw_bytes w) \<le> eob"
    and i: "i < length (aw_mids w)"
  shows "\<exists>a mem. parse_addrblock buf eob al addr_entry_zero p = Some (RFC5444_OKAY, a, p + length (aw_bytes w))
    \<and> unat (ae_num_addr a) = length (aw_mids w) \<and> ae_addr_block_size a = length (aw_bytes w)
    \<and> assemble_address buf a (of_nat i) = Some mem \<and> take (unat al) mem = aw_address w i
    \<and> address_plen buf a (of_nat i) = Some (case aw_plen w of Full_Length \<Rightarrow> al * 8 | One_Length y \<Rightarrow> y
        | Many_Lengths xs \<Rightarrow> xs ! i)"
proof -
  let ?n = "length (aw_mids w)"
  have o: "unat al \<le> 16" "?n < 256" "?n \<noteq> 0" "\<forall>x \<in> set (aw_mids w). length x = m"
    "length (aw_head_part w) + m + length (tail_part (aw_tail w)) = unat al"
    using ok by (simp_all add: aw_ok_def)
  have un: "unat (of_nat ?n :: u8) = ?n" using o(2) by (simp add: unat_of_nat)
  then have n0: "(of_nat ?n :: u8) \<noteq> 0" using o(3) by (metis unat_0)
  have ui: "unat (of_nat i :: u8) = i" using i o(2) by (simp add: unat_of_nat)
  define al0 where "al0 = al - of_nat (length (aw_head_part w)) - of_nat (length (tail_part (aw_tail w)))"
  have "al = of_nat (length (aw_head_part w)) + of_nat m + of_nat (length (tail_part (aw_tail w)))"
    unfolding of_nat_add [symmetric] o(5) by simp
  then have "al0 = of_nat m" by (simp add: al0_def)
  then have um: "unat al0 = m" using o(1,5) by (simp add: unat_of_nat)
  define a1 where "a1 = addr_entry_zero\<lparr>ae_addr_block_ptr := p, ae_num_addr := of_nat ?n,
    ae_addr := replicate 16 0, ae_mid_len := al\<rparr>"
  define a2 where "a2 = a1\<lparr>ae_mid_start := of_nat (length (aw_head_part w)),
    ae_addr := mem_write (ae_addr a1) 0 (aw_head_part w), ae_mid_len := ae_mid_len a1 - of_nat (length (aw_head_part w))\<rparr>"
  define a3 where "a3 = a2\<lparr>ae_addr := tail_written (unat al) (aw_tail w) (ae_addr a2),
    ae_mid_len := ae_mid_len a2 - of_nat (length (tail_part (aw_tail w)))\<rparr>"
  let ?p1 = "p + 1 + 1 + length (head_bytes w)"
  let ?p2 = "?p1 + length (tail_bytes (aw_tail w))"
  let ?q = "?p2 + length (concat (aw_mids w))"
  define a4 where "a4 = with_plen (aw_plen w) al ?q (a3\<lparr>ae_mid_src := ?p2\<rparr>)"
  have d0: "drop p buf = of_nat ?n # aw_flags w # (head_bytes w @ tail_bytes (aw_tail w) @ concat (aw_mids w)
      @ plen_bytes (aw_plen w) @ rest)" using d by (simp add: aw_bytes_def)
  have le: "p < eob" "p + 1 < eob" "?p1 \<le> eob" "?p2 \<le> eob" "?q + length (plen_bytes (aw_plen w)) \<le> eob"
    and len: "p + length (aw_bytes w) = ?q + length (plen_bytes (aw_plen w))"
    using l by (simp_all add: aw_bytes_def)
  note s1 = get_u8_step [OF d0]
  note s2 = get_u8_step [OF s1(2)]
  have f1: "length (ae_addr a1) = 16" "ae_mid_start a1 = 0" by (simp_all add: a1_def addr_entry_zero_def)
  have h16: "length (aw_head_part w) \<le> 16" "length (tail_part (aw_tail w)) \<le> unat al" using o by simp_all
  note s3 = parse_addr_head_step [OF s2(2) le(3) h16(1) f1, folded a2_def]
  have f2: "length (ae_addr a2) = 16" using h16 f1 by (simp add: a2_def)
  note s4 = parse_addr_tail_step [OF conjunct2 [OF s3] le(4) h16(2) o(1) f2, folded a3_def]
  have ml: "ae_mid_len a3 = al0" "ae_num_addr a3 = of_nat ?n" "ae_mid_start a3 = of_nat (length (aw_head_part w))"
    "ae_prefixes a3 = None" "ae_prefixlen a3 = 0"
    "ae_addr a3 = tail_written (unat al) (aw_tail w) (mem_write (replicate 16 0) 0 (aw_head_part w))"
    by (simp_all add: a3_def a2_def a1_def al0_def addr_entry_zero_def)
  have cn: "length (concat (aw_mids w)) = unat (ae_mid_len a3) * unat (ae_num_addr a3)"
    using length_concat_same [OF o(4)] by (simp add: ml um un)
  have mn: "aw_plen w = Many_Lengths xs \<Longrightarrow> length xs = unat (ae_num_addr a3)" for xs
    using ok by (simp add: aw_ok_def ml un)
  note s5 = parse_addr_prefix_step [OF conjunct2 [OF s4] cn le(5) mn, where al = al, folded a4_def]
  have run: "parse_addrblock buf eob al addr_entry_zero p = Some (RFC5444_OKAY,
      a4\<lparr>ae_addr_block_size := length (aw_bytes w)\<rparr>, p + length (aw_bytes w))"
    unfolding parse_addrblock_def s1(1) [OF le(1)] Let_def
    using s2(1) [OF le(2)] s3 s4 s5 n0 le(5) len
    by (simp add: a1_def)
  have f4: "ae_num_addr a4 = of_nat ?n" "ae_mid_src a4 = ?p2" "ae_mid_len a4 = al0" "ae_addr a4 = ae_addr a3"
    "ae_mid_start a4 = ae_mid_start a3"
    by (simp_all add: a4_def with_plen_def ml split: addr_plen.split)
  let ?mid = "aw_mids w ! i"
  have d2: "drop ?p2 buf = concat (aw_mids w) @ plen_bytes (aw_plen w) @ rest" using s4 by (rule conjunct2)
  have lm: "length ?mid = m" using o(4) i by simp
  obtain rest' where dm: "drop (?p2 + m * i) buf = ?mid @ rest'"
    using slice_of_concat [OF o(4) i d2] by blast
  have off: "unat (ae_mid_start a4) = length (aw_head_part w)"
    using h16(1) by (simp add: f4 ml unat_of_nat)
  have la: "length (ae_addr a4) = 16"
    using h16 o(1) by (cases "aw_tail w") (simp_all add: f4 ml tail_written_def)
  have "copy_bytes (ae_addr a4) (length (aw_head_part w)) buf (?p2 + m * i) m
      = Some (mem_write (ae_addr a4) (length (aw_head_part w)) ?mid)"
    by (rule copy_bytes_step [OF dm]) (use lm la o in simp_all)
  then have as: "assemble_address buf (a4\<lparr>ae_addr_block_size := length (aw_bytes w)\<rparr>) (of_nat i)
      = Some (mem_write (ae_addr a4) (length (aw_head_part w)) ?mid)"
    by (simp add: assemble_address_def f4(2,3) um ui off)
  have ad: "take (unat al) (mem_write (ae_addr a4) (length (aw_head_part w)) ?mid) = aw_address w i"
    unfolding f4(4) ml(6) aw_address_def by (rule assembled_bytes) (use o lm in simp_all)
  have pl: "address_plen buf (a4\<lparr>ae_addr_block_size := length (aw_bytes w)\<rparr>) (of_nat i)
      = Some (case aw_plen w of Full_Length \<Rightarrow> al * 8 | One_Length y \<Rightarrow> y | Many_Lengths xs \<Rightarrow> xs ! i)"
  proof (cases "aw_plen w")
    case (Many_Lengths xs)
    have "drop ?q buf = xs @ rest" using drop_append_add [OF d2] Many_Lengths by simp
    moreover have "i < length xs" using ok Many_Lengths i by (simp add: aw_ok_def)
    ultimately have "?q + i < length buf" "buf ! (?q + i) = xs ! i"
      using drop_nth_append by blast+
    then show ?thesis using Many_Lengths by (simp add: address_plen_def a4_def with_plen_def ui)
  qed (simp_all add: address_plen_def a4_def with_plen_def ml)
  have "unat (ae_num_addr a4) = ?n" by (simp add: f4 un)
  then show ?thesis using run as ad pl by auto
qed

theorem parse_addrblock_of_bytes_witness:
  "\<exists>a mem. parse_addrblock [2, 0x80, 3, 10, 0, 0, 7, 8] 8 4 addr_entry_zero 0 = Some (RFC5444_OKAY, a, 8)
    \<and> assemble_address [2, 0x80, 3, 10, 0, 0, 7, 8] a 1 = Some mem \<and> take 4 mem = [10, 0, 0, 8]"
proof -
  let ?w = "\<lparr>aw_head = Some [10, 0, 0], aw_tail = No_Tail, aw_mids = [[7], [8]], aw_plen = Full_Length\<rparr>"
  have b: "aw_bytes ?w = [2, 0x80, 3, 10, 0, 0, 7, 8]" by (simp add: aw_bytes_def head_bytes_def aw_flags_def flag_defs)
  have ok: "aw_ok (unat (4 :: u8)) 1 ?w" by (simp add: aw_ok_def aw_head_part_def)
  have d: "drop 0 [2, 0x80, 3, 10, 0, 0, 7, 8] = aw_bytes ?w @ []" unfolding b by simp
  have l: "0 + length (aw_bytes ?w) \<le> 8" unfolding b by simp
  have i: "1 < length (aw_mids ?w)" by simp
  have e: "0 + length (aw_bytes ?w) = 8" unfolding b by simp
  have ad: "aw_address ?w 1 = [10, 0, 0, 8]" by (simp add: aw_address_def aw_head_part_def)
  show ?thesis
    using parse_addrblock_of_bytes [OF ok d l i] unfolding e ad by auto
qed

text \<open>
  The length of the head is not compared with the 16 bytes of an address: a block with a longer head
  that is complete in the packet is copied over the end of the entry.
\<close>

lemma addrblock_head_overflow:
  assumes "drop p buf = n # flags # len # rest" "n \<noteq> 0" "flags AND ADDR_FLAG_HEAD \<noteq> 0" "16 < unat len"
    and "p + 3 + unat len \<le> eob"
  shows "parse_addrblock buf eob al addr_entry_zero p = None"
proof -
  note s1 = get_u8_step [OF assms(1)]
  note s2 = get_u8_step [OF s1(2)]
  note s3 = get_u8_step [OF s2(2)]
  have "copy_bytes (replicate 16 0) 0 buf q (unat len) = None" for q
    using assms(4) by (simp add: copy_bytes_def)
  then show ?thesis
    using s1(1) s2(1) s3(1) assms(2,3,5) by (simp add: parse_addrblock_def parse_addr_head_def Let_def)
qed

end
