(* ===== verification/Rfc5444_Reader.thy ===== *)
theory Rfc5444_Reader
  imports Rfc5444_Parse Netaddr "HOL-Library.Multiset"
begin

text \<open>
  The message level of the RFC 5444 reader (\<open>rfc5444_reader.c\<close>): consumers that ask for TLVs, the merge
  of a sorted TLV block with the sorted list of the TLVs a consumer asks for, messages, address blocks
  and packets. A callback is a function on the state it can reach: the context, the TLV nodes, the
  consumer entries and its own data. Consumers are not added or removed while a packet is read.
\<close>

subsection \<open>State\<close>

datatype context_type = CONTEXT_PACKET | CONTEXT_MESSAGE | CONTEXT_ADDRESS

record tlv_context =
  cx_consumer :: "ptr option"
  cx_type :: context_type
  cx_pkt_version :: u8
  cx_pkt_flags :: u8
  cx_has_pktseqno :: bool
  cx_pkt_seqno :: u16
  cx_pkt_buffer :: "nat option"
  cx_pkt_size :: nat
  cx_msg_type :: u8
  cx_msg_flags :: u8
  cx_addr_len :: u8
  cx_has_hopcount :: bool
  cx_hopcount :: u8
  cx_has_hoplimit :: bool
  cx_hoplimit :: u8
  cx_has_origaddr :: bool
  cx_orig_addr :: netaddr
  cx_has_seqno :: bool
  cx_seqno :: u16
  cx_msg_buffer :: "nat option"
  cx_msg_size :: nat
  cx_do_not_forward :: bool
  cx_addr :: netaddr
  cx_addr_block_buffer :: "nat option"
  cx_addr_block_size :: nat
  cx_addr_tlv_size :: nat
  cx_addr_index :: u8

definition netaddr_zero :: netaddr where
  "netaddr_zero = \<lparr>na_addr = zero_bytes 16, na_type = 0, na_prefix_len = 0\<rparr>"

text \<open>The context of a packet, cleared memory.\<close>

definition packet_context :: tlv_context where
  "packet_context = \<lparr>cx_consumer = None, cx_type = CONTEXT_PACKET, cx_pkt_version = 0, cx_pkt_flags = 0,
     cx_has_pktseqno = False, cx_pkt_seqno = 0, cx_pkt_buffer = None, cx_pkt_size = 0, cx_msg_type = 0,
     cx_msg_flags = 0, cx_addr_len = 0, cx_has_hopcount = False, cx_hopcount = 0, cx_has_hoplimit = False,
     cx_hoplimit = 0, cx_has_origaddr = False, cx_orig_addr = netaddr_zero, cx_has_seqno = False,
     cx_seqno = 0, cx_msg_buffer = None, cx_msg_size = 0, cx_do_not_forward = False,
     cx_addr = netaddr_zero, cx_addr_block_buffer = None, cx_addr_block_size = 0, cx_addr_tlv_size = 0,
     cx_addr_index = 0\<rparr>"

record consumer_entry =
  ce_mandatory :: bool
  ce_type :: u8
  ce_type_ext :: u8
  ce_match_type_ext :: bool
  ce_min_length :: u16
  ce_max_length :: u16
  ce_match_length :: bool
  ce_copy_value :: "u8 list option"
  ce_tlv :: "ptr option"
  ce_drop :: bool

record 'u world =
  w_ctx :: tlv_context
  w_tlvs :: tlv_store
  w_ces :: "ptr \<Rightarrow> consumer_entry"
  w_user :: 'u

type_synonym 'u callback = "'u world \<Rightarrow> rfc5444_result \<times> 'u world"

record 'u consumer =
  co_order :: int
  co_default :: bool
  co_msg_id :: u8
  co_addrblock :: bool
  co_list :: "ptr list"
  co_start :: "'u callback option"
  co_end :: "(bool \<Rightarrow> 'u callback) option"
  co_tlv :: "(ptr \<Rightarrow> 'u callback) option"
  co_block :: "'u callback option"
  co_block_failed :: "'u callback option"

type_synonym consumer_tree = "(int \<times> bool, ptr) avl_tree"

record 'u reader =
  rd_packet :: consumer_tree
  rd_message :: consumer_tree
  rd_consumers :: "ptr \<Rightarrow> 'u consumer"
  rd_forward :: "(nat \<Rightarrow> nat \<Rightarrow> 'u world \<Rightarrow> 'u world) option"
  rd_malloc_tlv :: "tlv_alloc option"
  rd_malloc_addr :: "(nat \<Rightarrow> bool) option"

subsection \<open>Consumers\<close>

definition consumer_avl_comp :: "int \<times> bool \<Rightarrow> int \<times> bool \<Rightarrow> int" where
  "consumer_avl_comp c1 c2 =
     (if fst c1 > fst c2 then 1 else if fst c1 < fst c2 then - 1
      else if snd c1 \<and> \<not> snd c2 then 1 else if \<not> snd c1 \<and> snd c2 then - 1 else 0)"

definition calc_tlvconsumer_intorder :: "consumer_entry \<Rightarrow> u16" where
  "calc_tlvconsumer_intorder e = push_bit 8 (ucast (ce_type e)) OR ucast (ce_type_ext e)"

text \<open>
  \<open>rfc5444_reader_init\<close>; the allocators of the C library are the arguments.
\<close>

definition rfc5444_reader_init :: "tlv_alloc \<Rightarrow> (nat \<Rightarrow> bool) \<Rightarrow> 'u reader \<Rightarrow> 'u reader" where
  "rfc5444_reader_init calloc_tlv calloc_addr r =
     r\<lparr>rd_packet := avl_init consumer_avl_comp True, rd_message := avl_init consumer_avl_comp True,
       rd_malloc_tlv := (case rd_malloc_tlv r of None \<Rightarrow> Some calloc_tlv | m \<Rightarrow> m),
       rd_malloc_addr := (case rd_malloc_addr r of None \<Rightarrow> Some calloc_addr | m \<Rightarrow> m)\<rparr>"

text \<open>
  \<open>rfc5444_reader_cleanup\<close> clears both trees; the comparison of a cleared tree is a null pointer that
  must not be called.
\<close>

definition cleared_tree :: consumer_tree where
  "cleared_tree = \<lparr>tr_list = [], tr_root = Leaf, tr_count = 0, tr_allow_dups = False, tr_comp = undefined\<rparr>"

definition rfc5444_reader_cleanup :: "'u reader \<Rightarrow> 'u reader" where
  "rfc5444_reader_cleanup r = r\<lparr>rd_packet := cleared_tree, rd_message := cleared_tree\<rparr>"

text \<open>
  The list of entries of a consumer: a new one is put behind the last one that is not above it, seen
  from the end of the list.
\<close>

fun add_after_rev :: "(ptr \<Rightarrow> u16) \<Rightarrow> ptr \<Rightarrow> ptr list \<Rightarrow> ptr list" where
  "add_after_rev key e [] = [e]"
| "add_after_rev key e (x # xs) = (if key x \<le> key e then e # x # xs else x # add_after_rev key e xs)"

definition add_sorted :: "(ptr \<Rightarrow> u16) \<Rightarrow> ptr \<Rightarrow> ptr list \<Rightarrow> ptr list" where
  "add_sorted key e xs = rev (add_after_rev key e (rev xs))"

definition fix_max_length :: "consumer_entry \<Rightarrow> consumer_entry" where
  "fix_max_length e = (if ce_min_length e > ce_max_length e then e\<lparr>ce_max_length := ce_min_length e\<rparr> else e)"

definition add_consumer ::
  "(ptr \<Rightarrow> consumer_entry) \<Rightarrow> (ptr \<Rightarrow> 'u consumer) \<Rightarrow> ptr \<Rightarrow> consumer_tree \<Rightarrow> ptr list \<Rightarrow>
     (ptr \<Rightarrow> consumer_entry) \<times> (ptr \<Rightarrow> 'u consumer) \<times> consumer_tree" where
  "add_consumer ces cons c tree entries =
     (let xs = fold (add_sorted (calc_tlvconsumer_intorder \<circ> ces)) entries [];
          ces' = fold (\<lambda>e ces. ces(e := fix_max_length (ces e))) entries ces
      in (ces', cons(c := (cons c)\<lparr>co_list := xs\<rparr>),
          snd (avl_insert tree (co_order (cons c), co_addrblock (cons c)) c)))"

definition rfc5444_reader_add_packet_consumer ::
  "(ptr \<Rightarrow> consumer_entry) \<Rightarrow> 'u reader \<Rightarrow> ptr \<Rightarrow> ptr list \<Rightarrow> (ptr \<Rightarrow> consumer_entry) \<times> 'u reader" where
  "rfc5444_reader_add_packet_consumer ces r c entries =
     (let (ces', cons', tree') = add_consumer ces (rd_consumers r) c (rd_packet r) entries
      in (ces', r\<lparr>rd_consumers := cons', rd_packet := tree'\<rparr>))"

definition rfc5444_reader_add_message_consumer ::
  "(ptr \<Rightarrow> consumer_entry) \<Rightarrow> 'u reader \<Rightarrow> ptr \<Rightarrow> ptr list \<Rightarrow> (ptr \<Rightarrow> consumer_entry) \<times> 'u reader" where
  "rfc5444_reader_add_message_consumer ces r c entries =
     (let (ces', cons', tree') = add_consumer ces (rd_consumers r) c (rd_message r) entries
      in (ces', r\<lparr>rd_consumers := cons', rd_message := tree'\<rparr>))"

definition free_consumer :: "consumer_tree \<Rightarrow> ptr \<Rightarrow> consumer_tree" where
  "free_consumer tree c = (if c \<in> set (avl_elements tree) then avl_remove tree c else tree)"

text \<open>Removing a packet consumer asserts that it is no message or address consumer.\<close>

definition rfc5444_reader_remove_packet_consumer :: "'u reader \<Rightarrow> ptr \<Rightarrow> 'u reader option" where
  "rfc5444_reader_remove_packet_consumer r c =
     (if \<not> co_addrblock (rd_consumers r c) \<and> co_msg_id (rd_consumers r c) = 0
      then Some (r\<lparr>rd_packet := free_consumer (rd_packet r) c\<rparr>) else None)"

definition rfc5444_reader_remove_message_consumer :: "'u reader \<Rightarrow> ptr \<Rightarrow> 'u reader" where
  "rfc5444_reader_remove_message_consumer r c = r\<lparr>rd_message := free_consumer (rd_message r) c\<rparr>"

subsection \<open>Scheduling of a TLV block\<close>

text \<open>
  The current TLV and the current entry are the heads of the lists that are left; an empty list is the
  null pointer.
\<close>

definition compare_tlvtypes :: "'u world \<Rightarrow> ptr list \<Rightarrow> ptr list \<Rightarrow> int option" where
  "compare_tlvtypes w ts cs =
     (case cs of
        [] \<Rightarrow> Some (if ts = [] then 0 else - 1)
      | c # _ \<Rightarrow>
          (case ts of
             [] \<Rightarrow> Some 1
           | t # _ \<Rightarrow>
               (case w_tlvs w t of
                  None \<Rightarrow> None
                | Some e \<Rightarrow>
                    Some (if ce_match_type_ext (w_ces w c)
                          then uint (te_order e) - uint (calc_tlvconsumer_intorder (w_ces w c))
                          else uint (te_type e) - uint (ce_type (w_ces w c))))))"

definition set_consumer :: "ptr \<Rightarrow> 'u world \<Rightarrow> 'u world" where
  "set_consumer cp w = w\<lparr>w_ctx := (w_ctx w)\<lparr>cx_consumer := Some cp\<rparr>\<rparr>"

definition update_tlv :: "ptr \<Rightarrow> (tlv_entry \<Rightarrow> tlv_entry) \<Rightarrow> 'u world \<Rightarrow> 'u world option" where
  "update_tlv t f w =
     (case w_tlvs w t of None \<Rightarrow> None | Some e \<Rightarrow> Some (w\<lparr>w_tlvs := (w_tlvs w)(t \<mapsto> f e)\<rparr>))"

definition update_ce :: "ptr \<Rightarrow> (consumer_entry \<Rightarrow> consumer_entry) \<Rightarrow> 'u world \<Rightarrow> 'u world" where
  "update_ce c f w = w\<lparr>w_ces := (w_ces w)(c := f (w_ces w c))\<rparr>"

text \<open>The first half of a round: does the TLV cover the address, is it the one asked for, and its callback.\<close>

definition tlv_index_match :: "tlv_entry \<Rightarrow> u8 \<Rightarrow> bool" where
  "tlv_index_match e idx = (\<not> bitmap256_get (te_drop_tlv e) idx \<and> te_index1 e \<le> idx \<and> idx \<le> te_index2 e)"

definition tlv_callback_step ::
  "(ptr \<Rightarrow> 'u callback) option \<Rightarrow> ptr \<Rightarrow> u8 \<Rightarrow> ptr \<Rightarrow> bool \<Rightarrow> 'u world \<Rightarrow> (rfc5444_result \<times> bool \<times> 'u world) option" where
  "tlv_callback_step cb cp idx t m w =
     (case cb of
        None \<Rightarrow> Some (RFC5444_OKAY, m, w)
      | Some f \<Rightarrow>
          let (r, w) = f t (set_consumer cp w)
          in if r = RFC5444_DROP_TLV then
               do {
                 w \<leftarrow> update_tlv t (\<lambda>e. e\<lparr>te_drop_tlv := bitmap256_set (te_drop_tlv e) idx\<rparr>) w;
                 Some (RFC5444_OKAY, False, w)
               }
             else Some (r, m, w))"

definition schedule_tlv ::
  "'u consumer \<Rightarrow> ptr \<Rightarrow> u8 \<Rightarrow> ptr list \<Rightarrow> ptr list \<Rightarrow> 'u world \<Rightarrow> (rfc5444_result \<times> bool \<times> 'u world) option" where
  "schedule_tlv co cp idx ts cs w =
     (case ts of
        [] \<Rightarrow> Some (RFC5444_OKAY, False, w)
      | t # _ \<Rightarrow>
          do {
            e \<leftarrow> w_tlvs w t;
            let index_match = tlv_index_match e idx;
            d \<leftarrow> compare_tlvtypes w ts cs;
            w \<leftarrow> (if index_match \<and> te_multivalue e
                  then update_tlv t (\<lambda>e. e\<lparr>te_single_value := tlv_value_at e idx\<rparr>) w else Some w);
            tlv_callback_step (if index_match then co_tlv co else None) cp idx t (cs \<noteq> [] \<and> index_match \<and> d = 0) w
          })"

text \<open>The last node of the list of TLVs that fit one entry.\<close>

partial_function (option) chain_last :: "tlv_store \<Rightarrow> ptr \<Rightarrow> ptr option" where
  "chain_last st p =
     (case st p of None \<Rightarrow> None
      | Some e \<Rightarrow> (case te_next_entry e of None \<Rightarrow> Some p | Some q \<Rightarrow> chain_last st q))"

definition copy_tlv_value :: "u8 list \<Rightarrow> tlv_entry \<Rightarrow> consumer_entry \<Rightarrow> consumer_entry option" where
  "copy_tlv_value buf e ce =
     (case ce_copy_value ce of
        None \<Rightarrow> Some ce
      | Some dst \<Rightarrow>
          if te_length e > 0
          then do {
            src \<leftarrow> te_single_value e;
            m \<leftarrow> copy_bytes dst 0 buf src
                  (unat (if te_length e < ce_max_length ce then te_length e else ce_max_length ce));
            Some (ce\<lparr>ce_copy_value := Some m\<rparr>)
          }
          else Some ce)"

text \<open>The second half: note a match in the entry, and check its constraints.\<close>

definition schedule_match ::
  "u8 list \<Rightarrow> bool \<Rightarrow> ptr list \<Rightarrow> ptr list \<Rightarrow> bool \<Rightarrow> 'u world \<Rightarrow> (bool \<times> 'u world) option" where
  "schedule_match buf m ts cs failed w =
     do {
       d \<leftarrow> compare_tlvtypes w ts cs;
       if d < 0 then Some (failed, w)
       else
         let c = hd cs; ce = w_ces w c; failed = (failed \<or> (ce_mandatory ce \<and> \<not> m))
         in if \<not> m then Some (failed, w)
            else do {
              let t = hd ts;
              e \<leftarrow> w_tlvs w t;
              let failed = (failed \<or> (ce_match_length ce \<and>
                    (te_length e < ce_min_length ce \<or> te_length e > ce_max_length ce)));
              w \<leftarrow> update_tlv t (\<lambda>e. e\<lparr>te_next_entry := None\<rparr>) w;
              case ce_tlv ce of
                None \<Rightarrow> do {
                  ce \<leftarrow> copy_tlv_value buf e (ce\<lparr>ce_tlv := Some t\<rparr>);
                  Some (failed, update_ce c (\<lambda>_. ce) w)
                }
              | Some first \<Rightarrow> do {
                  l \<leftarrow> chain_last (w_tlvs w) first;
                  w \<leftarrow> update_tlv l (\<lambda>e. e\<lparr>te_next_entry := Some t\<rparr>) w;
                  Some (failed, w)
                }
            }
     }"

definition clear_first_ce :: "ptr list \<Rightarrow> 'u world \<Rightarrow> 'u world" where
  "clear_first_ce cs w = (case cs of [] \<Rightarrow> w | c # _ \<Rightarrow> update_ce c (\<lambda>e. e\<lparr>ce_tlv := None\<rparr>) w)"

definition next_tlvs :: "ptr list \<Rightarrow> int \<Rightarrow> ptr list" where
  "next_tlvs ts d = (if ts \<noteq> [] \<and> d \<le> 0 then tl ts else ts)"

lemma compare_no_entry: "compare_tlvtypes w ts [] = Some (if ts = [] then 0 else - 1)"
  by (simp add: compare_tlvtypes_def)

lemma compare_no_tlv: "compare_tlvtypes w [] (c # cs) = Some 1"
  by (simp add: compare_tlvtypes_def)

function schedule_loop ::
  "u8 list \<Rightarrow> 'u consumer \<Rightarrow> ptr \<Rightarrow> u8 \<Rightarrow> ptr list \<Rightarrow> ptr list \<Rightarrow> bool \<Rightarrow> 'u world \<Rightarrow>
     (rfc5444_result \<times> bool \<times> 'u world) option" where
  "schedule_loop buf co cp idx ts cs failed w =
     (if ts = [] \<and> cs = [] then Some (RFC5444_OKAY, failed, w)
      else do {
        (r, m, w) \<leftarrow> schedule_tlv co cp idx ts cs w;
        if r \<noteq> RFC5444_OKAY then Some (r, failed, w)
        else do {
          (failed, w) \<leftarrow> schedule_match buf m ts cs failed w;
          d \<leftarrow> compare_tlvtypes w ts cs;
          let ts' = next_tlvs ts d;
          d' \<leftarrow> compare_tlvtypes w ts' cs;
          if d' > 0
          then schedule_loop buf co cp idx ts' (tl cs) (failed \<or> (ce_mandatory (w_ces w (hd cs)) \<and> \<not> m))
                 (clear_first_ce (tl cs) w)
          else schedule_loop buf co cp idx ts' cs failed w
        }
      })"
  by pat_completeness auto

termination
proof (relation "measure (\<lambda>(buf, co, cp, idx, ts, cs, failed, w). length ts + length cs)", goal_cases)
  case 1
  show ?case by simp
next
  case (2 buf co cp idx ts cs failed w a b aa ba c aaa baa d ts' d')
  then have "cs \<noteq> []" by (cases cs) (auto simp: compare_no_entry split: if_splits)
  then show ?case using 2 by (cases cs) (auto simp: next_tlvs_def)
next
  case (3 buf co cp idx ts cs failed w a b aa ba c aaa baa d ts' d')
  show ?case
  proof (cases "ts = []")
    case True
    then show ?thesis using 3 by (cases cs) (auto simp: compare_no_tlv next_tlvs_def)
  next
    case False
    then show ?thesis using 3 by (cases ts) (auto simp: next_tlvs_def split: if_splits)
  qed
qed

declare schedule_loop.simps [simp del]

definition drop_entry_tlv :: "u8 \<Rightarrow> ptr \<Rightarrow> 'u world \<Rightarrow> 'u world option" where
  "drop_entry_tlv idx c w =
     (case ce_tlv (w_ces w c) of
        Some t \<Rightarrow>
          if ce_drop (w_ces w c)
          then do {
            w \<leftarrow> update_tlv t (\<lambda>e. e\<lparr>te_drop_tlv := bitmap256_set (te_drop_tlv e) idx\<rparr>) w;
            Some (update_ce c (\<lambda>e. e\<lparr>ce_drop := False\<rparr>) w)
          }
          else Some w
      | None \<Rightarrow> Some w)"

fun drop_entry_tlvs :: "u8 \<Rightarrow> ptr list \<Rightarrow> 'u world \<Rightarrow> 'u world option" where
  "drop_entry_tlvs idx [] w = Some w"
| "drop_entry_tlvs idx (c # cs) w = drop_entry_tlv idx c w \<bind> drop_entry_tlvs idx cs"

definition block_callbacks :: "'u consumer \<Rightarrow> ptr \<Rightarrow> bool \<Rightarrow> 'u world \<Rightarrow> rfc5444_result \<times> 'u world" where
  "block_callbacks co cp failed w =
     (case (if failed then co_block_failed co else co_block co) of
        None \<Rightarrow> (RFC5444_OKAY, w)
      | Some cb \<Rightarrow> cb (set_consumer cp w))"

definition schedule_tlvblock ::
  "u8 list \<Rightarrow> 'u consumer \<Rightarrow> ptr \<Rightarrow> tlv_tree \<Rightarrow> u8 \<Rightarrow> 'u world \<Rightarrow> (rfc5444_result \<times> 'u world) option" where
  "schedule_tlvblock buf co cp tree idx w =
     do {
       (r, failed, w) \<leftarrow> schedule_loop buf co cp idx (avl_elements tree) (co_list co) False
                           (clear_first_ce (co_list co) w);
       if r \<noteq> RFC5444_OKAY then Some (r, w)
       else
         let (r, w) = block_callbacks co cp failed w
         in if r = RFC5444_DROP_TLV then do {
              w \<leftarrow> drop_entry_tlvs idx (co_list co) w;
              Some (RFC5444_OKAY, w)
            }
            else Some (r, w)
     }"

subsection \<open>Messages and addresses of a consumer\<close>

definition run_callback :: "'u callback option \<Rightarrow> ptr \<Rightarrow> 'u world \<Rightarrow> rfc5444_result \<times> 'u world" where
  "run_callback cb cp w = (case cb of None \<Rightarrow> (RFC5444_OKAY, w) | Some f \<Rightarrow> f (set_consumer cp w))"

text \<open>An end callback is told whether the context is dropped; it can only raise the result.\<close>

definition run_end_callback ::
  "(bool \<Rightarrow> 'u callback) option \<Rightarrow> ptr \<Rightarrow> rfc5444_result \<Rightarrow> 'u world \<Rightarrow> rfc5444_result \<times> 'u world" where
  "run_end_callback cb cp result w =
     (case cb of
        None \<Rightarrow> (result, w)
      | Some f \<Rightarrow> let (r, w) = f (result \<noteq> RFC5444_OKAY) (set_consumer cp w)
                  in (if r > result then r else result, w))"

definition set_type :: "context_type \<Rightarrow> 'u world \<Rightarrow> 'u world" where
  "set_type t w = w\<lparr>w_ctx := (w_ctx w)\<lparr>cx_type := t\<rparr>\<rparr>"

definition schedule_msgtlv_consumer ::
  "u8 list \<Rightarrow> 'u consumer \<Rightarrow> ptr \<Rightarrow> tlv_tree \<Rightarrow> 'u world \<Rightarrow> (rfc5444_result \<times> 'u world) option" where
  "schedule_msgtlv_consumer buf co cp tree w =
     (let (r, w) = run_callback (co_start co) cp (set_type CONTEXT_MESSAGE w)
      in if r = RFC5444_OKAY then schedule_tlvblock buf co cp tree 0 w else Some (r, w))"

text \<open>One address of an address block.\<close>

definition address_callbacks ::
  "u8 list \<Rightarrow> 'u consumer \<Rightarrow> ptr \<Rightarrow> tlv_tree \<Rightarrow> u8 \<Rightarrow> 'u world \<Rightarrow> (rfc5444_result \<times> 'u world) option" where
  "address_callbacks buf co cp tree i w =
     (let (r, w) = run_callback (co_start co) cp w
      in do {
        (r, w) \<leftarrow> (if r = RFC5444_OKAY then schedule_tlvblock buf co cp tree i w else Some (r, w));
        Some (run_end_callback (co_end co) cp r w)
      })"

definition schedule_address ::
  "u8 list \<Rightarrow> 'u consumer \<Rightarrow> ptr \<Rightarrow> addr_entry \<Rightarrow> u8 \<Rightarrow> 'u world \<Rightarrow>
     (rfc5444_result \<times> addr_entry \<times> 'u world) option" where
  "schedule_address buf co cp a i w =
     (if bitmap256_get (ae_drop_addr a) i then Some (RFC5444_OKAY, a, w)
      else do {
        m \<leftarrow> assemble_address buf a i;
        let a = a\<lparr>ae_addr := m\<rparr>;
        plen \<leftarrow> address_plen buf a i;
        (ret, addr) \<leftarrow> netaddr_from_binary_prefix m (unat (cx_addr_len (w_ctx w))) 0 plen;
        let w = w\<lparr>w_ctx := (w_ctx w)\<lparr>cx_addr := addr, cx_addr_index := i\<rparr>\<rparr>;
        (r, w) \<leftarrow> address_callbacks buf co cp (ae_tlvblock a) i w;
        if r = RFC5444_DROP_ADDRESS
        then Some (RFC5444_OKAY, a\<lparr>ae_drop_addr := bitmap256_set (ae_drop_addr a) i\<rparr>, w)
        else Some (r, a, w)
      })"

fun schedule_addresses ::
  "u8 list \<Rightarrow> 'u consumer \<Rightarrow> ptr \<Rightarrow> addr_entry \<Rightarrow> nat list \<Rightarrow> 'u world \<Rightarrow>
     (rfc5444_result \<times> addr_entry \<times> 'u world) option" where
  "schedule_addresses buf co cp a [] w = Some (RFC5444_OKAY, a, w)"
| "schedule_addresses buf co cp a (i # is) w =
     do {
       (r, a, w) \<leftarrow> schedule_address buf co cp a (of_nat i) w;
       if r \<noteq> RFC5444_OKAY then Some (r, a, w) else schedule_addresses buf co cp a is w
     }"

fun schedule_msgaddr_blocks ::
  "u8 list \<Rightarrow> 'u consumer \<Rightarrow> ptr \<Rightarrow> addr_entry list \<Rightarrow> 'u world \<Rightarrow>
     (rfc5444_result \<times> addr_entry list \<times> 'u world) option" where
  "schedule_msgaddr_blocks buf co cp [] w =
     Some (RFC5444_OKAY, [], w\<lparr>w_ctx := (w_ctx w)\<lparr>cx_addr_block_buffer := None\<rparr>\<rparr>)"
| "schedule_msgaddr_blocks buf co cp (a # as) w =
     do {
       let w = w\<lparr>w_ctx := (w_ctx w)\<lparr>cx_addr_block_buffer := Some (ae_addr_block_ptr a),
                   cx_addr_block_size := ae_addr_block_size a, cx_addr_tlv_size := ae_addr_tlv_size a\<rparr>\<rparr>;
       (r, a, w) \<leftarrow> schedule_addresses buf co cp a [0..<unat (ae_num_addr a)] w;
       if r \<noteq> RFC5444_OKAY then Some (r, a # as, w)
       else do {
         (r, as, w) \<leftarrow> schedule_msgaddr_blocks buf co cp as w;
         Some (r, a # as, w)
       }
     }"

definition schedule_msgaddr_consumer ::
  "u8 list \<Rightarrow> 'u consumer \<Rightarrow> ptr \<Rightarrow> addr_entry list \<Rightarrow> 'u world \<Rightarrow>
     (rfc5444_result \<times> addr_entry list \<times> 'u world) option" where
  "schedule_msgaddr_consumer buf co cp as w =
     schedule_msgaddr_blocks buf co cp as (set_type CONTEXT_ADDRESS w)"

text \<open>The end callbacks of the consumers from \<open>first\<close> to \<open>lst\<close>, in reverse order.\<close>

fun end_message_cbs ::
  "'u reader \<Rightarrow> ptr list \<Rightarrow> rfc5444_result \<Rightarrow> 'u world \<Rightarrow> rfc5444_result \<times> 'u world" where
  "end_message_cbs rd [] result w = (result, w)"
| "end_message_cbs rd (c # cs) result w =
     (let co = rd_consumers rd c
      in if \<not> co_addrblock co \<and> (co_default co \<or> co_msg_id co = cx_msg_type (w_ctx w))
         then let (result, w) = run_end_callback (co_end co) c result w in end_message_cbs rd cs result w
         else end_message_cbs rd cs result w)"

definition element_range :: "ptr list \<Rightarrow> ptr \<Rightarrow> ptr \<Rightarrow> ptr list" where
  "element_range xs first lst =
     (let ys = dropWhile (\<lambda>x. x \<noteq> first) xs in takeWhile (\<lambda>x. x \<noteq> lst) ys @ [lst])"

definition schedule_end_message_cbs ::
  "'u reader \<Rightarrow> ptr \<Rightarrow> ptr \<Rightarrow> rfc5444_result \<Rightarrow> 'u world \<Rightarrow> rfc5444_result \<times> 'u world" where
  "schedule_end_message_cbs rd first lst result w =
     end_message_cbs rd (rev (element_range (avl_elements (rd_message rd)) first lst)) result
       (set_type CONTEXT_MESSAGE w)"

text \<open>
  The loop over the consumers of a message; \<open>same\<close> is the range of consumers with the same order whose
  end callbacks are due.
\<close>

definition end_same_order ::
  "'u reader \<Rightarrow> (ptr \<times> ptr) option \<Rightarrow> rfc5444_result \<Rightarrow> 'u world \<Rightarrow> rfc5444_result \<times> 'u world" where
  "end_same_order rd same result w =
     (case same of None \<Rightarrow> (result, w) | Some (f, l) \<Rightarrow> schedule_end_message_cbs rd f l result w)"

definition same_order_due :: "'u reader \<Rightarrow> (ptr \<times> ptr) option \<Rightarrow> ptr \<Rightarrow> bool" where
  "same_order_due rd same c =
     (case same of None \<Rightarrow> False | Some (f, l) \<Rightarrow> co_order (rd_consumers rd c) > co_order (rd_consumers rd l))"

definition extend_same_order :: "'u reader \<Rightarrow> (ptr \<times> ptr) option \<Rightarrow> ptr \<Rightarrow> (ptr \<times> ptr) option" where
  "extend_same_order rd same c =
     (if co_addrblock (rd_consumers rd c) then same
      else (case same of None \<Rightarrow> Some (c, c) | Some (f, _) \<Rightarrow> Some (f, c)))"

definition run_message_consumer ::
  "u8 list \<Rightarrow> 'u reader \<Rightarrow> tlv_tree \<Rightarrow> ptr \<Rightarrow> addr_entry list \<Rightarrow> 'u world \<Rightarrow>
     (rfc5444_result \<times> addr_entry list \<times> 'u world) option" where
  "run_message_consumer buf rd tree c as w =
     (if co_addrblock (rd_consumers rd c) then schedule_msgaddr_consumer buf (rd_consumers rd c) c as w
      else do {
        (r, w) \<leftarrow> schedule_msgtlv_consumer buf (rd_consumers rd c) c tree w;
        Some (r, as, w)
      })"

fun message_consumers ::
  "u8 list \<Rightarrow> 'u reader \<Rightarrow> tlv_tree \<Rightarrow> ptr list \<Rightarrow> (ptr \<times> ptr) option \<Rightarrow> addr_entry list \<Rightarrow> 'u world \<Rightarrow>
     (rfc5444_result \<times> addr_entry list \<times> 'u world) option" where
  "message_consumers buf rd tree [] same as w =
     (let (r, w) = end_same_order rd same RFC5444_OKAY w in Some (r, as, w))"
| "message_consumers buf rd tree (c # cs) same as w =
     (if \<not> co_default (rd_consumers rd c) \<and> co_msg_id (rd_consumers rd c) \<noteq> cx_msg_type (w_ctx w)
      then message_consumers buf rd tree cs same as w
      else
        let due = same_order_due rd same c;
            (r, w) = end_same_order rd (if due then same else None) RFC5444_OKAY w;
            same = (if due then None else same)
        in if r \<noteq> RFC5444_OKAY then Some (r, as, w)
           else do {
             (r, as, w) \<leftarrow> run_message_consumer buf rd tree c as w;
             let same = extend_same_order rd same c;
             if r \<noteq> RFC5444_OKAY
             then (let (r, w) = end_same_order rd same r w in Some (r, as, w))
             else message_consumers buf rd tree cs same as w
           })"

subsection \<open>Messages\<close>

lemma copy_step_advances:
  "parse_addr_head buf eob fl a c = Some (Inr (a', c')) \<Longrightarrow> fst c \<le> fst c' \<and> (snd c' = RFC5444_OKAY \<longrightarrow> snd c = RFC5444_OKAY)"
  by (auto simp: parse_addr_head_def bind_eq_Some_conv Let_def advances_def split: if_splits dest!: get_u8_advances)

lemma tail_step_advances:
  "parse_addr_tail buf eob al fl a c = Some (Inr (a', c')) \<Longrightarrow> fst c \<le> fst c' \<and> (snd c' = RFC5444_OKAY \<longrightarrow> snd c = RFC5444_OKAY)"
  by (auto simp: parse_addr_tail_def bind_eq_Some_conv Let_def advances_def split: if_splits dest!: get_u8_advances)

lemma prefix_step_advances:
  "parse_addr_prefix buf eob al fl a c = Some (Inr (a', c')) \<Longrightarrow> fst c \<le> fst c' \<and> snd c' = snd c"
  by (auto simp: parse_addr_prefix_def Let_def split: if_splits)

lemma step_results:
  "\<forall>r p. parse_addr_head buf eob fl a c = Some (Inl (r, p)) \<longrightarrow> r \<noteq> RFC5444_OKAY"
  "\<forall>r p. parse_addr_tail buf eob al fl a c = Some (Inl (r, p)) \<longrightarrow> r \<noteq> RFC5444_OKAY"
  "\<forall>r p. parse_addr_prefix buf eob al fl a c = Some (Inl (r, p)) \<longrightarrow> r \<noteq> RFC5444_OKAY"
  by (auto simp: parse_addr_head_def parse_addr_tail_def parse_addr_prefix_def bind_eq_Some_conv Let_def split: if_splits)

lemma step_okay:
  assumes "s \<bind> case_sum (\<lambda>(r, p). Some (r, b, p)) g = Some (RFC5444_OKAY, a', p')"
    "\<forall>r p. s = Some (Inl (r, p)) \<longrightarrow> r \<noteq> RFC5444_OKAY"
  shows "\<exists>a c. s = Some (Inr (a, c)) \<and> g (a, c) = Some (RFC5444_OKAY, a', p')"
proof (cases s)
  case (Some x)
  then show ?thesis using assms by (cases x) auto
qed (use assms in simp)

text \<open>An address block takes at least two bytes.\<close>

lemma parse_addrblock_progress:
  assumes "parse_addrblock buf eob al a p = Some (RFC5444_OKAY, a', p')"
  shows "p + 2 \<le> p' \<and> p' \<le> eob \<and> ae_tlvblock a' = ae_tlvblock a"
proof -
  obtain num c1 where s1: "get_u8 buf eob (p, RFC5444_OKAY) = Some (num, c1)" "num \<noteq> 0"
    using assms by (auto simp: parse_addrblock_def bind_eq_Some_conv Let_def split: if_splits)
  define a0 where "a0 = a\<lparr>ae_addr_block_ptr := p, ae_num_addr := num,
    ae_addr := replicate RFC5444_MAX_ADDRLEN 0, ae_mid_len := al\<rparr>"
  obtain flags c2 where s2: "get_u8 buf eob c1 = Some (flags, c2)"
    and r1: "parse_addr_head buf eob flags a0 c2 \<bind> case_sum (\<lambda>(r, p). Some (r, a0, p)) (\<lambda>(a, c).
        parse_addr_tail buf eob al flags a c \<bind> case_sum (\<lambda>(r, p). Some (r, a, p)) (\<lambda>(a, c).
          parse_addr_prefix buf eob al flags a c \<bind> case_sum (\<lambda>(r, p). Some (r, a, p)) (\<lambda>(a, c).
            if fst c > eob then Some (RFC5444_END_OF_BUFFER, a, fst c)
            else Some (snd c, a\<lparr>ae_addr_block_size := fst c - p\<rparr>, fst c))))
      = Some (RFC5444_OKAY, a', p')"
    using assms s1 unfolding parse_addrblock_def a0_def by (auto simp: Let_def bind_eq_Some_conv [of "get_u8 _ _ _"])
  from step_okay [OF r1 step_results(1)] obtain a2 c3 where s3: "parse_addr_head buf eob flags a0 c2 = Some (Inr (a2, c3))"
    and r2: "parse_addr_tail buf eob al flags a2 c3 \<bind> case_sum (\<lambda>(r, p). Some (r, a2, p)) (\<lambda>(a, c).
          parse_addr_prefix buf eob al flags a c \<bind> case_sum (\<lambda>(r, p). Some (r, a, p)) (\<lambda>(a, c).
            if fst c > eob then Some (RFC5444_END_OF_BUFFER, a, fst c)
            else Some (snd c, a\<lparr>ae_addr_block_size := fst c - p\<rparr>, fst c)))
      = Some (RFC5444_OKAY, a', p')" by auto
  from step_okay [OF r2 step_results(2)] obtain a3 c4 where s4: "parse_addr_tail buf eob al flags a2 c3 = Some (Inr (a3, c4))"
    and r3: "parse_addr_prefix buf eob al flags a3 c4 \<bind> case_sum (\<lambda>(r, p). Some (r, a3, p)) (\<lambda>(a, c).
            if fst c > eob then Some (RFC5444_END_OF_BUFFER, a, fst c)
            else Some (snd c, a\<lparr>ae_addr_block_size := fst c - p\<rparr>, fst c))
      = Some (RFC5444_OKAY, a', p')" by auto
  from step_okay [OF r3 step_results(3)] obtain a4 c5 where s5: "parse_addr_prefix buf eob al flags a3 c4 = Some (Inr (a4, c5))"
    and r: "fst c5 \<le> eob" "snd c5 = RFC5444_OKAY" "p' = fst c5" "a' = a4\<lparr>ae_addr_block_size := fst c5 - p\<rparr>"
    by (auto split: if_splits)
  note m = copy_step_advances [OF s3] tail_step_advances [OF s4] prefix_step_advances [OF s5]
  have ok: "snd c2 = RFC5444_OKAY" using m r(2) by simp
  then have "c2 = (fst c1 + 1, RFC5444_OKAY) \<and> snd c1 = RFC5444_OKAY"
    using s2 by (cases c1; cases c2) (auto simp: get_u8_okay)
  moreover then have "fst c1 = p + 1" using s1 by (cases c1) (auto simp: get_u8_okay)
  moreover have "ae_tlvblock a2 = ae_tlvblock a0"
    using s3 by (auto simp: parse_addr_head_def bind_eq_Some_conv Let_def split: if_splits)
  moreover have "ae_tlvblock a3 = ae_tlvblock a2"
    using s4 by (auto simp: parse_addr_tail_def bind_eq_Some_conv Let_def split: if_splits)
  moreover have "ae_tlvblock a4 = ae_tlvblock a3"
    using s5 by (auto simp: parse_addr_prefix_def Let_def split: if_splits)
  ultimately show ?thesis using m r by (auto simp: a0_def)
qed

lemma parse_tlvblock_progress:
  assumes "parse_tlvblock alloc buf eob ac p tree st = Some (RFC5444_OKAY, p', tree', st')"
  shows "p \<le> p'"
proof -
  have loop: "p1 \<le> p2" if "parse_tlvblock_loop alloc buf be eob ac e p1 t s = Some (r, p2, t', s')" "r = RFC5444_OKAY"
    for be e p1 p2 t s r t' s'
    using that
  proof (induction alloc buf be eob ac e p1 t s rule: parse_tlvblock_loop.induct)
    case (1 alloc buf be eob ac e p1 t s)
    show ?case
      using "1.prems"
    proof (subst (asm) parse_tlvblock_loop.simps, goal_cases)
      case 1
      then show ?case
        using "1.IH" by (fastforce split: if_splits option.splits prod.splits dest: parse_tlv_progress)
    qed
  qed
  show ?thesis
    using assms loop
    by (auto simp: parse_tlvblock_def bind_eq_Some_conv Let_def advances_def split: if_splits
        dest!: get_u16_advances intro: order.trans)
qed

function message_blocks ::
  "tlv_alloc \<Rightarrow> (nat \<Rightarrow> bool) \<Rightarrow> u8 list \<Rightarrow> nat \<Rightarrow> u8 \<Rightarrow> nat \<Rightarrow> addr_entry list \<Rightarrow> tlv_store \<Rightarrow>
     (rfc5444_result \<times> nat \<times> addr_entry list \<times> tlv_store) option" where
  "message_blocks alloc addr_alloc buf end al p as st =
     (if p < end then
        if \<not> addr_alloc (length as) then Some (RFC5444_OUT_OF_MEMORY, p, as, st)
        else (case parse_addrblock buf end al addr_entry_zero p of
                None \<Rightarrow> None
              | Some (r, a, p1) \<Rightarrow>
                  if r \<noteq> RFC5444_OKAY then Some (r, p1, as, st)
                  else (case parse_tlvblock alloc buf end (ae_num_addr a) p1 (ae_tlvblock a) st of
                          None \<Rightarrow> None
                        | Some (r, p2, tree, st) \<Rightarrow>
                            if r \<noteq> RFC5444_OKAY then Some (r, p2, as, st)
                            else message_blocks alloc addr_alloc buf end al p2
                                   (as @ [a\<lparr>ae_tlvblock := tree,
                                            ae_addr_tlv_size := p2 - ae_addr_block_size a - ae_addr_block_ptr a\<rparr>]) st))
      else Some (RFC5444_OKAY, p, as, st))"
  by pat_completeness auto

termination
  by (relation "measure (\<lambda>(alloc, addr_alloc, buf, e, al, p, as, st). e - p)")
    (force dest: parse_addrblock_progress parse_tlvblock_progress)+

declare message_blocks.simps [simp del]

text \<open>
  The header of a message. \<open>mh_result\<close> is the result so far and \<open>mh_end\<close> the end of the message, the null
  pointer when the originator address does not fit into the packet.
\<close>

record message_header =
  mh_result :: rfc5444_result
  mh_ptr :: nat
  mh_end :: "nat option"
  mh_size :: u16

definition originator_step ::
  "u8 list \<Rightarrow> nat \<Rightarrow> u8 \<Rightarrow> tlv_context \<Rightarrow> cursor \<Rightarrow> (tlv_context \<times> cursor) step" where
  "originator_step buf eob flags cx c =
     (let cx = cx\<lparr>cx_has_origaddr := (flags AND MSG_FLAG_ORIGINATOR \<noteq> 0)\<rparr>;
          len = unat (cx_addr_len cx)
      in if \<not> cx_has_origaddr cx then Some (Inr (cx, c))
         else if fst c + len > eob then Some (Inl (RFC5444_END_OF_BUFFER, fst c))
         else if fst c + len > length buf then None
         else do {
           (ret, addr) \<leftarrow> netaddr_from_binary (drop (fst c) buf) len 0;
           Some (Inr (cx\<lparr>cx_orig_addr := addr\<rparr>, (fst c + len, snd c)))
         })"

definition optional_u8 ::
  "u8 list \<Rightarrow> nat \<Rightarrow> bool \<Rightarrow> u8 \<Rightarrow> cursor \<Rightarrow> (u8 \<times> cursor) option" where
  "optional_u8 buf eob present old c = (if present then get_u8 buf eob c else Some (old, c))"

definition optional_u16 ::
  "u8 list \<Rightarrow> nat \<Rightarrow> bool \<Rightarrow> u16 \<Rightarrow> cursor \<Rightarrow> (u16 \<times> cursor) option" where
  "optional_u16 buf eob present old c = (if present then get_u16 buf eob c else Some (old, c))"

definition message_fields ::
  "u8 list \<Rightarrow> nat \<Rightarrow> nat \<Rightarrow> u16 \<Rightarrow> u8 \<Rightarrow> tlv_context \<Rightarrow> cursor \<Rightarrow> (tlv_context \<times> message_header) option" where
  "message_fields buf eob start sz flags cx c =
     do {
       let cx = cx\<lparr>cx_has_hoplimit := (flags AND MSG_FLAG_HOPLIMIT \<noteq> 0)\<rparr>;
       (hl, c) \<leftarrow> optional_u8 buf eob (cx_has_hoplimit cx) (cx_hoplimit cx) c;
       let cx = cx\<lparr>cx_hoplimit := hl, cx_has_hopcount := (flags AND MSG_FLAG_HOPCOUNT \<noteq> 0)\<rparr>;
       (hc, c) \<leftarrow> optional_u8 buf eob (cx_has_hopcount cx) (cx_hopcount cx) c;
       let cx = cx\<lparr>cx_hopcount := hc, cx_has_seqno := (flags AND MSG_FLAG_SEQNO \<noteq> 0)\<rparr>;
       (sq, c) \<leftarrow> optional_u16 buf eob (cx_has_seqno cx) (cx_seqno cx) c;
       let cx = cx\<lparr>cx_seqno := sq\<rparr>;
       Some (cx, \<lparr>mh_result = (if start + unat sz > eob then RFC5444_END_OF_BUFFER else snd c),
                  mh_ptr = (if start + unat sz > eob then eob else fst c),
                  mh_end = Some (start + unat sz), mh_size = sz\<rparr>)
     }"

definition parse_message_header ::
  "u8 list \<Rightarrow> nat \<Rightarrow> tlv_context \<Rightarrow> nat \<Rightarrow> (tlv_context \<times> message_header) option" where
  "parse_message_header buf eob cx start =
     do {
       let cx = cx\<lparr>cx_do_not_forward := False\<rparr>;
       (ty, c) \<leftarrow> get_u8 buf eob (start, RFC5444_OKAY);
       (flags, c) \<leftarrow> get_u8 buf eob c;
       (size, c) \<leftarrow> get_u16 buf eob c;
       let cx = cx\<lparr>cx_msg_type := ty, cx_addr_len := (flags AND MSG_FLAG_ADDRLENMASK) + 1,
                    cx_msg_flags := flags AND NOT MSG_FLAG_ADDRLENMASK\<rparr>;
       s \<leftarrow> originator_step buf eob flags cx c;
       case s of
         Inl (r, p) \<Rightarrow> Some (cx\<lparr>cx_has_origaddr := True\<rparr>,
                        \<lparr>mh_result = r, mh_ptr = p, mh_end = None, mh_size = size\<rparr>)
       | Inr (cx, c) \<Rightarrow>
           message_fields buf eob start size flags cx c
     }"

text \<open>
  The body of a message: its TLV block, its address blocks, and then the consumers. The TLV tree and the
  address blocks are returned for the cleanup.
\<close>

definition message_body ::
  "u8 list \<Rightarrow> 'u reader \<Rightarrow> nat \<Rightarrow> message_header \<Rightarrow> nat \<Rightarrow> 'u world \<Rightarrow>
     (rfc5444_result \<times> tlv_tree \<times> addr_entry list \<times> 'u world) option" where
  "message_body buf rd start h end w =
     do {
       alloc \<leftarrow> rd_malloc_tlv rd;
       addr_alloc \<leftarrow> rd_malloc_addr rd;
       (r, p, tree, st) \<leftarrow> parse_tlvblock alloc buf end 0 (mh_ptr h) (avl_init avl_comp_uint16 True) (w_tlvs w);
       let w = w\<lparr>w_tlvs := st\<rparr>;
       if r \<noteq> RFC5444_OKAY then Some (r, tree, [], w)
       else do {
         (r, p, as, st) \<leftarrow> message_blocks alloc addr_alloc buf end (cx_addr_len (w_ctx w)) p [] (w_tlvs w);
         let w = w\<lparr>w_tlvs := st\<rparr>;
         if r \<noteq> RFC5444_OKAY then Some (r, tree, as, w)
         else do {
           let w = w\<lparr>w_ctx := (w_ctx w)\<lparr>cx_msg_buffer := Some start, cx_msg_size := unat (mh_size h)\<rparr>\<rparr>;
           (r, as, w) \<leftarrow> message_consumers buf rd tree (avl_elements (rd_message rd)) None as w;
           Some (r, tree, as, w)
         }
       }
     }"

definition free_blocks :: "addr_entry list \<Rightarrow> tlv_store \<Rightarrow> tlv_store" where
  "free_blocks as st = fold (\<lambda>a st. free_tlvblock (ae_tlvblock a) st) as st"

text \<open>The part of \<open>_handle_message\<close> behind its label: forwarding, freeing, and the result.\<close>

definition forward_message ::
  "'u reader \<Rightarrow> rfc5444_result \<Rightarrow> nat \<Rightarrow> nat option \<Rightarrow> 'u world \<Rightarrow> 'u world" where
  "forward_message rd r start end w =
     (case rd_forward rd of
        Some fwd \<Rightarrow>
          if (r = RFC5444_OKAY \<or> r = RFC5444_DROP_MSG_BUT_FORWARD) \<and> \<not> cx_do_not_forward (w_ctx w)
             \<and> cx_has_hoplimit (w_ctx w) \<and> cx_hoplimit (w_ctx w) > 1
          then (case end of Some e \<Rightarrow> fwd start (e - start) (set_type CONTEXT_MESSAGE w) | None \<Rightarrow> w)
          else w
      | None \<Rightarrow> w)"

definition message_cleanup ::
  "'u reader \<Rightarrow> rfc5444_result \<Rightarrow> nat \<Rightarrow> nat option \<Rightarrow> tlv_tree \<Rightarrow> addr_entry list \<Rightarrow> 'u world \<Rightarrow>
     rfc5444_result \<times> nat option \<times> 'u world" where
  "message_cleanup rd r start end tree as w =
     (let w = w\<lparr>w_ctx := (w_ctx w)\<lparr>cx_msg_buffer := None\<rparr>\<rparr>;
          w = forward_message rd r start end w;
          w = w\<lparr>w_tlvs := free_tlvblock tree (free_blocks as (w_tlvs w))\<rparr>
      in (if r > RFC5444_OKAY \<and> r \<noteq> RFC5444_DROP_PACKET then RFC5444_OKAY else r, end, w))"

definition handle_message ::
  "u8 list \<Rightarrow> 'u reader \<Rightarrow> nat \<Rightarrow> nat \<Rightarrow> 'u world \<Rightarrow> (rfc5444_result \<times> nat option \<times> 'u world) option" where
  "handle_message buf rd eob start w =
     do {
       (cx, h) \<leftarrow> parse_message_header buf eob (w_ctx w) start;
       let w = w\<lparr>w_ctx := cx\<rparr>;
       case mh_end h of
         None \<Rightarrow> Some (message_cleanup rd (mh_result h) start None (avl_init avl_comp_uint16 True) [] w)
       | Some end \<Rightarrow>
           if mh_result h \<noteq> RFC5444_OKAY
           then Some (message_cleanup rd (mh_result h) start (Some end) (avl_init avl_comp_uint16 True) [] w)
           else do {
             (r, tree, as, w) \<leftarrow> message_body buf rd start h end w;
             Some (message_cleanup rd r start (Some end) tree as w)
           }
     }"

subsection \<open>Packets\<close>

text \<open>The TLVs of a packet are compared with the comparison of 32 bit keys.\<close>

definition packet_tlv_comp :: "u16 \<Rightarrow> u16 \<Rightarrow> int" where
  "packet_tlv_comp a b = avl_comp_uint32 (ucast a) (ucast b)"

text \<open>
  Start callbacks and TLV blocks of the packet consumers; \<open>started\<close> are the consumers reached, the last
  one first.
\<close>

fun packet_consumers ::
  "u8 list \<Rightarrow> 'u reader \<Rightarrow> bool \<Rightarrow> tlv_tree \<Rightarrow> ptr list \<Rightarrow> ptr list \<Rightarrow> 'u world \<Rightarrow>
     (rfc5444_result \<times> ptr list \<times> 'u world) option" where
  "packet_consumers buf rd has_tlv tree [] started w = Some (RFC5444_OKAY, started, w)"
| "packet_consumers buf rd has_tlv tree (c # cs) started w =
     (let co = rd_consumers rd c; (r, w) = run_callback (co_start co) c w
      in if r \<noteq> RFC5444_OKAY then Some (r, c # started, w)
         else do {
           (r, w) \<leftarrow> (if has_tlv \<and> (co_tlv co \<noteq> None \<or> co_block co \<noteq> None)
                       then schedule_tlvblock buf co c tree 0 w else Some (RFC5444_OKAY, w));
           if r \<noteq> RFC5444_OKAY then Some (r, c # started, w)
           else packet_consumers buf rd has_tlv tree cs (c # started) w
         })"

fun packet_end_callbacks :: "'u reader \<Rightarrow> rfc5444_result \<Rightarrow> ptr list \<Rightarrow> 'u world \<Rightarrow> 'u world" where
  "packet_end_callbacks rd r [] w = w"
| "packet_end_callbacks rd r (c # cs) w =
     (case co_end (rd_consumers rd c) of
        None \<Rightarrow> packet_end_callbacks rd r cs w
      | Some f \<Rightarrow> packet_end_callbacks rd r cs (snd (f (r \<noteq> RFC5444_OKAY) (set_consumer c w))))"

lemma optional_advances:
  "optional_u8 buf eob b old c = Some (v, c') \<Longrightarrow> advances eob c c'"
  "optional_u16 buf eob b old8 c = Some (v8, c') \<Longrightarrow> advances eob c c'"
  by (auto simp: optional_u8_def optional_u16_def dest: get_u8_advances get_u16_advances split: if_splits)

lemma originator_advances:
  "originator_step buf eob flags cx c = Some (Inr (cx', c')) \<Longrightarrow> advances eob c c'"
  by (auto simp: originator_step_def advances_def bind_eq_Some_conv Let_def split: if_splits)

lemma get_u16_okay:
  "get_u16 buf eob c = Some (v, c') \<Longrightarrow> snd c' = RFC5444_OKAY \<Longrightarrow> fst c' = fst c + 2"
  by (cases c; cases c') (auto simp: get_u16_def bind_eq_Some_conv get_u8_okay)

lemma header_steps:
  assumes "parse_message_header buf eob cx start = Some (cx', h)"
  shows "\<exists>ty c1 flags c2 size c3 cx0 x. get_u8 buf eob (start, RFC5444_OKAY) = Some (ty, c1)
    \<and> get_u8 buf eob c1 = Some (flags, c2) \<and> get_u16 buf eob c2 = Some (size, c3)
    \<and> originator_step buf eob flags cx0 c3 = Some x
    \<and> (case x of Inl (r, p) \<Rightarrow> mh_result h = r \<and> mh_end h = None
       | Inr (cx, c) \<Rightarrow> message_fields buf eob start size flags cx c = Some (cx', h))"
proof -
  obtain ty c1 flags c2 size c3 where s: "get_u8 buf eob (start, RFC5444_OKAY) = Some (ty, c1)"
    "get_u8 buf eob c1 = Some (flags, c2)" "get_u16 buf eob c2 = Some (size, c3)"
    using assms by (auto simp: parse_message_header_def bind_eq_Some_conv Let_def)
  define cx0 where "cx0 = cx\<lparr>cx_do_not_forward := False, cx_msg_type := ty,
    cx_addr_len := (flags AND MSG_FLAG_ADDRLENMASK) + 1, cx_msg_flags := flags AND NOT MSG_FLAG_ADDRLENMASK\<rparr>"
  have m: "originator_step buf eob flags cx0 c3 \<bind> (\<lambda>s. case s of
        Inl (r, p) \<Rightarrow> Some (cx0\<lparr>cx_has_origaddr := True\<rparr>, \<lparr>mh_result = r, mh_ptr = p, mh_end = None, mh_size = size\<rparr>)
      | Inr (cx, c) \<Rightarrow> message_fields buf eob start size flags cx c) = Some (cx', h)"
    using assms s unfolding parse_message_header_def cx0_def by (simp add: Let_def)
  obtain x where o: "originator_step buf eob flags cx0 c3 = Some x"
    using m by (cases "originator_step buf eob flags cx0 c3") auto
  then have "(case x of Inl (r, p) \<Rightarrow> mh_result h = r \<and> mh_end h = None
       | Inr (cx, c) \<Rightarrow> message_fields buf eob start size flags cx c = Some (cx', h))"
    using m by (cases x) auto
  then show ?thesis using s o by blast
qed

text \<open>A header that was read takes at least four bytes, and its message ends inside of the packet.\<close>

lemma header_end:
  assumes "parse_message_header buf eob cx start = Some (cx', h)" "mh_end h = Some e" "mh_result h = RFC5444_OKAY"
  shows "start + 4 \<le> mh_ptr h \<and> e \<le> eob"
proof -
  obtain ty c1 flags c2 size c3 cx0 x where s: "get_u8 buf eob (start, RFC5444_OKAY) = Some (ty, c1)"
    "get_u8 buf eob c1 = Some (flags, c2)" "get_u16 buf eob c2 = Some (size, c3)"
    and x: "originator_step buf eob flags cx0 c3 = Some x"
      "(case x of Inl (r, p) \<Rightarrow> mh_result h = r \<and> mh_end h = None
       | Inr (cx, c) \<Rightarrow> message_fields buf eob start size flags cx c = Some (cx', h))"
    using header_steps [OF assms(1)] by blast
  obtain cx1 c4 where o: "originator_step buf eob flags cx0 c3 = Some (Inr (cx1, c4))"
    and f: "message_fields buf eob start size flags cx1 c4 = Some (cx', h)"
    using x assms(2) by (cases x) auto
  obtain hl c5 hc c6 sq c7 b1 o1 b2 o2 b3 o3 where p: "optional_u8 buf eob b1 o1 c4 = Some (hl, c5)"
    "optional_u8 buf eob b2 o2 c5 = Some (hc, c6)" "optional_u16 buf eob b3 o3 c6 = Some (sq, c7)"
    and h: "h = \<lparr>mh_result = (if start + unat size > eob then RFC5444_END_OF_BUFFER else snd c7),
          mh_ptr = (if start + unat size > eob then eob else fst c7), mh_end = Some (start + unat size), mh_size = size\<rparr>"
    using f by (auto simp: message_fields_def bind_eq_Some_conv Let_def)
  have e: "e = start + unat size" "e \<le> eob" "snd c7 = RFC5444_OKAY" "mh_ptr h = fst c7"
    using assms(2,3) by (auto simp: h split: if_splits)
  have a: "advances eob c3 c7"
    using originator_advances [OF o] optional_advances(1) [OF p(1)] optional_advances(1) [OF p(2)]
      optional_advances(2) [OF p(3)] advances_trans by blast
  then have ok3: "snd c3 = RFC5444_OKAY" using e(3) by (simp add: advances_def)
  then have "snd c2 = RFC5444_OKAY" using get_u16_advances [OF s(3)] by (simp add: advances_def)
  moreover have "fst c3 = fst c2 + 2" by (rule get_u16_okay [OF s(3) ok3])
  ultimately have "fst c3 = start + 4"
    using s(1,2) by (cases c1; cases c2) (auto simp: get_u8_okay)
  then show ?thesis using a e by (simp add: advances_def)
qed

lemma get_u8_no_drop: "get_u8 buf eob c = Some (v, c') \<Longrightarrow> snd c \<le> RFC5444_OKAY \<Longrightarrow> snd c' \<le> RFC5444_OKAY"
  by (auto simp: get_u8_def less_eq_rfc5444_result_def split: if_splits)

lemma get_u16_no_drop: "get_u16 buf eob c = Some (v, c') \<Longrightarrow> snd c \<le> RFC5444_OKAY \<Longrightarrow> snd c' \<le> RFC5444_OKAY"
  by (auto simp: get_u16_def bind_eq_Some_conv dest!: get_u8_no_drop)

lemma optional_no_drop:
  "optional_u8 buf eob b old c = Some (v, c') \<Longrightarrow> snd c \<le> RFC5444_OKAY \<Longrightarrow> snd c' \<le> RFC5444_OKAY"
  "optional_u16 buf eob b old8 c = Some (v8, c') \<Longrightarrow> snd c \<le> RFC5444_OKAY \<Longrightarrow> snd c' \<le> RFC5444_OKAY"
  by (auto simp: optional_u8_def optional_u16_def dest: get_u8_no_drop get_u16_no_drop split: if_splits)

lemma end_of_buffer_error: "RFC5444_END_OF_BUFFER \<le> RFC5444_OKAY"
  by (simp add: less_eq_rfc5444_result_def)

lemma originator_no_drop:
  "originator_step buf eob flags cx c = Some s \<Longrightarrow> snd c \<le> RFC5444_OKAY \<Longrightarrow>
    (case s of Inl (r, p) \<Rightarrow> r \<le> RFC5444_OKAY | Inr (cx, c) \<Rightarrow> snd c \<le> RFC5444_OKAY)"
  by (auto simp: originator_step_def bind_eq_Some_conv end_of_buffer_error Let_def split: if_splits)

lemma message_fields_no_drop:
  "message_fields buf eob start sz flags cx c = Some (cx', h) \<Longrightarrow> snd c \<le> RFC5444_OKAY \<Longrightarrow> mh_result h \<le> RFC5444_OKAY"
  by (auto simp: message_fields_def bind_eq_Some_conv end_of_buffer_error Let_def dest!: optional_no_drop)

text \<open>Reading a header gives errors, never a drop.\<close>

lemma header_no_drop:
  assumes "parse_message_header buf eob cx start = Some (cx', h)"
  shows "mh_result h \<le> RFC5444_OKAY"
proof -
  obtain ty c1 flags c2 size c3 cx0 x where s: "get_u8 buf eob (start, RFC5444_OKAY) = Some (ty, c1)"
    "get_u8 buf eob c1 = Some (flags, c2)" "get_u16 buf eob c2 = Some (size, c3)"
    and o: "originator_step buf eob flags cx0 c3 = Some x"
    and r: "(case x of Inl (r, p) \<Rightarrow> mh_result h = r \<and> mh_end h = None
       | Inr (cx, c) \<Rightarrow> message_fields buf eob start size flags cx c = Some (cx', h))"
    using header_steps [OF assms] by blast
  have c3: "snd c3 \<le> RFC5444_OKAY"
    using get_u16_no_drop [OF s(3)] get_u8_no_drop [OF s(2)] get_u8_no_drop [OF s(1)] by simp
  show ?thesis
    using originator_no_drop [OF o c3] r message_fields_no_drop by (auto split: sum.splits)
qed

lemma parse_tlvblock_short:
  assumes "parse_tlvblock alloc buf eob ac p tree st = Some (r, p', tree', st')" "eob < p + 2"
  shows "r = RFC5444_END_OF_BUFFER"
  using assms by (auto simp: parse_tlvblock_def bind_eq_Some_conv Let_def split: if_splits)

lemma message_body_end:
  assumes "message_body buf rd start h end w = Some (r, tree, as, w')" "r \<ge> RFC5444_OKAY"
  shows "mh_ptr h + 2 \<le> end"
proof -
  obtain alloc p tree1 st r1 where m: "rd_malloc_tlv rd = Some alloc"
    and p: "parse_tlvblock alloc buf end 0 (mh_ptr h) (avl_init avl_comp_uint16 True) (w_tlvs w)
      = Some (r1, p, tree1, st)"
    using assms(1) by (auto simp: message_body_def bind_eq_Some_conv)
  show ?thesis
  proof (rule ccontr)
    assume gt: "\<not> mh_ptr h + 2 \<le> end"
    then have "r1 = RFC5444_END_OF_BUFFER" using parse_tlvblock_short [OF p] by simp
    then have "r = RFC5444_END_OF_BUFFER"
      using assms(1) m p by (auto simp: message_body_def bind_eq_Some_conv Let_def)
    then show False using assms(2) by (simp add: less_eq_rfc5444_result_def)
  qed
qed

text \<open>The end of a message is where its size field says.\<close>

lemma header_end_none:
  assumes "parse_message_header buf eob cx start = Some (cx', h)" "mh_end h = None"
  shows "mh_result h \<noteq> RFC5444_OKAY"
proof -
  obtain flags c3 cx0 x size where "originator_step buf eob flags cx0 c3 = Some x"
      "(case x of Inl (r, p) \<Rightarrow> mh_result h = r \<and> mh_end h = None
       | Inr (cx, c) \<Rightarrow> message_fields buf eob start size flags cx c = Some (cx', h))"
    using header_steps [OF assms(1)] by blast
  then show ?thesis
    using assms(2) by (cases x) (auto simp: message_fields_def originator_step_def bind_eq_Some_conv Let_def split: if_splits)
qed

lemma handle_message_progress:
  assumes "handle_message buf rd eob start w = Some (RFC5444_OKAY, Some p, w')"
  shows "start < p \<and> p \<le> eob"
proof -
  obtain cx h where h: "parse_message_header buf eob (w_ctx w) start = Some (cx, h)"
    using assms by (auto simp: handle_message_def bind_eq_Some_conv)
  obtain e where e: "mh_end h = Some e"
    using assms h by (cases "mh_end h") (auto simp: handle_message_def message_cleanup_def Let_def)
  have ok: "mh_result h = RFC5444_OKAY"
  proof (rule ccontr)
    assume "mh_result h \<noteq> RFC5444_OKAY"
    moreover have "mh_result h \<le> RFC5444_OKAY" using header_no_drop [OF h] .
    ultimately show False
      using assms h e by (auto simp: handle_message_def message_cleanup_def Let_def split: if_splits)
  qed
  obtain r tree as w1 where b: "message_body buf rd start h e (w\<lparr>w_ctx := cx\<rparr>) = Some (r, tree, as, w1)"
    and c: "message_cleanup rd r start (Some e) tree as w1 = (RFC5444_OKAY, Some p, w')"
    using assms h e ok by (auto simp: handle_message_def bind_eq_Some_conv Let_def)
  have "r \<ge> RFC5444_OKAY" and p: "p = e" using c by (auto simp: message_cleanup_def Let_def split: if_splits)
  then show ?thesis
    using header_end [OF h e ok] message_body_end [OF b] by simp
qed

function packet_messages ::
  "u8 list \<Rightarrow> 'u reader \<Rightarrow> nat \<Rightarrow> nat \<Rightarrow> 'u world \<Rightarrow> (rfc5444_result \<times> 'u world) option" where
  "packet_messages buf rd eob p w =
     (if p < eob then
        (case handle_message buf rd eob p w of
           None \<Rightarrow> None
         | Some (r, q, w) \<Rightarrow>
             if r \<noteq> RFC5444_OKAY then Some (r, w)
             else (case q of None \<Rightarrow> None | Some q \<Rightarrow> packet_messages buf rd eob q w))
      else Some (RFC5444_OKAY, w))"
  by pat_completeness auto

termination
  by (relation "measure (\<lambda>(buf, rd, eob, p, w). eob - p)") (force dest: handle_message_progress)+

declare packet_messages.simps [simp del]

text \<open>The packet header: result, position behind it, and the context.\<close>

definition packet_header :: "u8 list \<Rightarrow> (rfc5444_result \<times> nat \<times> tlv_context) option" where
  "packet_header buf =
     do {
       (first, c) \<leftarrow> get_u8 buf (length buf) (0, RFC5444_OKAY);
       let cx = packet_context\<lparr>cx_pkt_version := rfc5444_get_pktversion first,
                  cx_pkt_flags := first AND PKT_FLAGMASK\<rparr>;
       if cx_pkt_version cx \<noteq> 0 then Some (RFC5444_UNSUPPORTED_VERSION, fst c, cx)
       else do {
         let cx = cx\<lparr>cx_has_pktseqno := (cx_pkt_flags cx AND PKT_FLAG_SEQNO \<noteq> 0)\<rparr>;
         (sq, c) \<leftarrow> optional_u16 buf (length buf) (cx_has_pktseqno cx) (cx_pkt_seqno cx) c;
         Some (snd c, fst c, cx\<lparr>cx_pkt_seqno := sq\<rparr>)
       }
     }"

text \<open>Consumers and messages of a packet whose TLV block was read, and the cleanup behind them.\<close>

definition run_packet ::
  "u8 list \<Rightarrow> 'u reader \<Rightarrow> bool \<Rightarrow> tlv_tree \<Rightarrow> nat \<Rightarrow> 'u world \<Rightarrow> (rfc5444_result \<times> 'u world) option" where
  "run_packet buf rd has_tlv tree p w =
     do {
       (r, started, w) \<leftarrow> packet_consumers buf rd has_tlv tree (avl_elements (rd_packet rd)) [] w;
       (r, w) \<leftarrow> (if r \<noteq> RFC5444_OKAY then Some (r, w) else packet_messages buf rd (length buf) p w);
       let w = packet_end_callbacks rd r started w;
       let w = w\<lparr>w_tlvs := free_tlvblock tree (w_tlvs w)\<rparr>;
       Some (if r = RFC5444_DROP_PACKET then RFC5444_OKAY else r, w)
     }"

definition packet_tlvs ::
  "tlv_alloc \<Rightarrow> u8 list \<Rightarrow> bool \<Rightarrow> nat \<Rightarrow> tlv_store \<Rightarrow> (rfc5444_result \<times> nat \<times> tlv_tree \<times> tlv_store) option" where
  "packet_tlvs alloc buf has_tlv p st =
     (if has_tlv then parse_tlvblock alloc buf (length buf) 0 p (avl_init packet_tlv_comp True) st
      else Some (RFC5444_OKAY, p, avl_init packet_tlv_comp True, st))"

definition rfc5444_reader_handle_packet ::
  "u8 list \<Rightarrow> 'u reader \<Rightarrow> 'u world \<Rightarrow> (rfc5444_result \<times> 'u world) option" where
  "rfc5444_reader_handle_packet buf rd w =
     (if length buf > 65535 then Some (RFC5444_TOO_LARGE, w)
      else do {
        (r, p, cx) \<leftarrow> packet_header buf;
        if r \<noteq> RFC5444_OKAY then Some (r, w)
        else do {
          let has_tlv = (cx_pkt_flags cx AND PKT_FLAG_TLV \<noteq> 0);
          alloc \<leftarrow> rd_malloc_tlv rd;
          (r, p, tree, st) \<leftarrow> packet_tlvs alloc buf has_tlv p (w_tlvs w);
          if r \<noteq> RFC5444_OKAY then Some (r, w\<lparr>w_tlvs := st\<rparr>)
          else run_packet buf rd has_tlv tree p
                 (w\<lparr>w_ctx := cx\<lparr>cx_pkt_buffer := Some 0, cx_pkt_size := length buf\<rparr>, w_tlvs := st\<rparr>)
        }
      })"

subsection \<open>The nodes of a packet are freed\<close>

text \<open>
  The contract of the callbacks: they neither free nor allocate TLV nodes.
\<close>

definition same_nodes :: "'u world \<Rightarrow> 'u world \<Rightarrow> bool" where
  "same_nodes w w' \<longleftrightarrow> dom (w_tlvs w') = dom (w_tlvs w)"

definition keeps_nodes :: "'u callback \<Rightarrow> bool" where
  "keeps_nodes f \<longleftrightarrow> (\<forall>w. same_nodes w (snd (f w)))"

definition consumer_keeps :: "'u consumer \<Rightarrow> bool" where
  "consumer_keeps co \<longleftrightarrow> (\<forall>f. co_start co = Some f \<longrightarrow> keeps_nodes f) \<and> (\<forall>f b. co_end co = Some f \<longrightarrow> keeps_nodes (f b))
     \<and> (\<forall>f t. co_tlv co = Some f \<longrightarrow> keeps_nodes (f t)) \<and> (\<forall>f. co_block co = Some f \<longrightarrow> keeps_nodes f)
     \<and> (\<forall>f. co_block_failed co = Some f \<longrightarrow> keeps_nodes f)"

definition reader_keeps :: "'u reader \<Rightarrow> bool" where
  "reader_keeps rd \<longleftrightarrow> (\<forall>c. consumer_keeps (rd_consumers rd c))
     \<and> (\<forall>f s n w. rd_forward rd = Some f \<longrightarrow> same_nodes w (f s n w))"

named_theorems nodes

lemma same_nodes_refl [nodes, simp]: "same_nodes w w"
  by (simp add: same_nodes_def)

lemma same_nodes_trans: "same_nodes w w' \<Longrightarrow> same_nodes w' w'' \<Longrightarrow> same_nodes w w''"
  by (simp add: same_nodes_def)

lemma same_nodes_simps [simp]:
  "same_nodes w (w'\<lparr>w_ctx := x\<rparr>) = same_nodes w w'" "same_nodes (w\<lparr>w_ctx := x\<rparr>) w' = same_nodes w w'"
  "same_nodes w (w'\<lparr>w_ces := y\<rparr>) = same_nodes w w'" "same_nodes (w\<lparr>w_ces := y\<rparr>) w' = same_nodes w w'"
  "same_nodes (set_consumer c w) w' = same_nodes w w'" "same_nodes w (set_consumer c w') = same_nodes w w'"
  "same_nodes (set_type t w) w' = same_nodes w w'" "same_nodes w (set_type t w') = same_nodes w w'"
  "same_nodes w (update_ce c f w') = same_nodes w w'" "same_nodes (update_ce c f w) w' = same_nodes w w'"
  "same_nodes w (clear_first_ce cs w') = same_nodes w w'" "same_nodes (clear_first_ce cs w) w' = same_nodes w w'"
  by (simp_all add: same_nodes_def set_consumer_def set_type_def update_ce_def clear_first_ce_def split: list.split)

lemma update_tlv_nodes [nodes]: "update_tlv t f w = Some w' \<Longrightarrow> same_nodes w w'"
  by (auto simp: update_tlv_def same_nodes_def dom_def split: option.splits if_splits)

lemma callback_nodes: "keeps_nodes f \<Longrightarrow> f w = (r, w') \<Longrightarrow> same_nodes w w'"
  by (metis keeps_nodes_def snd_conv)

lemma run_callback_nodes [nodes]:
  "run_callback cb cp w = (r, w') \<Longrightarrow> (\<And>f. cb = Some f \<Longrightarrow> keeps_nodes f) \<Longrightarrow> same_nodes w w'"
  by (auto simp: run_callback_def split: option.splits dest: callback_nodes)

lemma run_end_callback_nodes [nodes]:
  "run_end_callback cb cp r0 w = (r, w') \<Longrightarrow> (\<And>f b. cb = Some f \<Longrightarrow> keeps_nodes (f b)) \<Longrightarrow> same_nodes w w'"
  unfolding run_end_callback_def
  by (cases cb) (auto split: prod.splits dest: callback_nodes [rotated])

lemma tlv_callback_step_nodes:
  assumes "tlv_callback_step cb cp idx t m w = Some (r, m', w')" "\<And>f. cb = Some f \<Longrightarrow> keeps_nodes (f t)"
  shows "same_nodes w w'"
proof (cases cb)
  case None
  then show ?thesis using assms(1) by (simp add: tlv_callback_step_def)
next
  case (Some f)
  obtain r2 w2 where c: "f t (set_consumer cp w) = (r2, w2)" by fastforce
  have "same_nodes w w2" using callback_nodes [OF assms(2) [OF Some] c] by simp
  then show ?thesis
    using assms(1) Some c
    by (auto simp: tlv_callback_step_def bind_eq_Some_conv split: if_splits
        dest!: update_tlv_nodes intro: same_nodes_trans)
qed

lemma schedule_tlv_nodes:
  assumes "schedule_tlv co cp idx ts cs w = Some (r, m, w')" "consumer_keeps co"
  shows "same_nodes w w'"
proof (cases ts)
  case Nil
  then show ?thesis using assms by (simp add: schedule_tlv_def)
next
  case (Cons t ts')
  obtain e m1 w1 cb where w1: "(if tlv_index_match e idx \<and> te_multivalue e
        then update_tlv t (\<lambda>e. e\<lparr>te_single_value := tlv_value_at e idx\<rparr>) w else Some w) = Some w1"
    and cb: "cb = (if tlv_index_match e idx then co_tlv co else None)"
    and r: "tlv_callback_step cb cp idx t m1 w1 = Some (r, m, w')"
    using assms(1) Cons unfolding schedule_tlv_def by (auto simp: bind_eq_Some_conv Let_def)
  have "same_nodes w w1" using w1 by (auto split: if_splits dest: update_tlv_nodes)
  moreover have "same_nodes w1 w'"
    by (rule tlv_callback_step_nodes [OF r]) (use assms(2) in \<open>auto simp: cb consumer_keeps_def split: if_splits\<close>)
  ultimately show ?thesis by (rule same_nodes_trans)
qed

lemma schedule_match_nodes:
  "schedule_match buf m ts cs failed w = Some (f', w') \<Longrightarrow> same_nodes w w'"
  by (auto simp: schedule_match_def bind_eq_Some_conv Let_def split: if_splits option.splits
      dest!: update_tlv_nodes intro: same_nodes_trans)

text \<open>One round of the merge.\<close>

lemma schedule_loop_round:
  assumes "schedule_loop buf co cp idx ts cs failed w = Some (r, f', w')" "\<not> (ts = [] \<and> cs = [])"
  shows "\<exists>r1 m w1. schedule_tlv co cp idx ts cs w = Some (r1, m, w1) \<and>
    (if r1 \<noteq> RFC5444_OKAY then r = r1 \<and> f' = failed \<and> w' = w1
     else \<exists>f2 w2 d d' ts'. schedule_match buf m ts cs failed w1 = Some (f2, w2)
       \<and> compare_tlvtypes w2 ts cs = Some d \<and> ts' = next_tlvs ts d
       \<and> compare_tlvtypes w2 ts' cs = Some d'
       \<and> (if d' > 0
          then schedule_loop buf co cp idx ts' (tl cs) (f2 \<or> (ce_mandatory (w_ces w2 (hd cs)) \<and> \<not> m))
                 (clear_first_ce (tl cs) w2)
          else schedule_loop buf co cp idx ts' cs f2 w2) = Some (r, f', w'))"
  using assms(1) assms(2)
  unfolding schedule_loop.simps [of buf co cp idx ts cs failed w]
  by (auto simp: bind_eq_Some_conv Let_def split: if_split_asm)

lemma schedule_loop_nodes:
  assumes "schedule_loop buf co cp idx ts cs failed w = Some (r, f', w')" "consumer_keeps co"
  shows "same_nodes w w'"
  using assms
proof (induction buf co cp idx ts cs failed w arbitrary: r f' w' rule: schedule_loop.induct)
  case (1 buf co cp idx ts cs failed w)
  show ?case
  proof (cases "ts = [] \<and> cs = []")
    case True
    then show ?thesis using "1.prems" by (simp add: schedule_loop.simps)
  next
    case nz: False
    obtain r1 m w1 where s1: "schedule_tlv co cp idx ts cs w = Some (r1, m, w1)"
      and rest: "if r1 \<noteq> RFC5444_OKAY then r = r1 \<and> f' = failed \<and> w' = w1
     else \<exists>f2 w2 d d' ts'. schedule_match buf m ts cs failed w1 = Some (f2, w2)
       \<and> compare_tlvtypes w2 ts cs = Some d \<and> ts' = next_tlvs ts d
       \<and> compare_tlvtypes w2 ts' cs = Some d'
       \<and> (if d' > 0
          then schedule_loop buf co cp idx ts' (tl cs) (f2 \<or> (ce_mandatory (w_ces w2 (hd cs)) \<and> \<not> m))
                 (clear_first_ce (tl cs) w2)
          else schedule_loop buf co cp idx ts' cs f2 w2) = Some (r, f', w')"
      using schedule_loop_round [OF "1.prems"(1) nz] by blast
    note n1 = schedule_tlv_nodes [OF s1 "1.prems"(2)]
    show ?thesis
    proof (cases "r1 = RFC5444_OKAY")
      case False
      then show ?thesis using rest n1 by simp
    next
      case ok: True
      then obtain f2 w2 d d' ts' where s2: "schedule_match buf m ts cs failed w1 = Some (f2, w2)"
        and d: "compare_tlvtypes w2 ts cs = Some d" and ts': "ts' = next_tlvs ts d"
        and d': "compare_tlvtypes w2 ts' cs = Some d'"
        and rec: "(if d' > 0
          then schedule_loop buf co cp idx ts' (tl cs) (f2 \<or> (ce_mandatory (w_ces w2 (hd cs)) \<and> \<not> m))
                 (clear_first_ce (tl cs) w2)
          else schedule_loop buf co cp idx ts' cs f2 w2) = Some (r, f', w')"
        using rest by auto
      have n2: "same_nodes w w2" using n1 schedule_match_nodes [OF s2] by (rule same_nodes_trans)
      show ?thesis
      proof (cases "d' > 0")
        case True
        then have "same_nodes (clear_first_ce (tl cs) w2) w'"
          using "1.IH"(1) [OF nz s1 refl refl _ s2 refl d ts' d' True] ok rec "1.prems"(2) by simp
        then show ?thesis using n2 same_nodes_trans by auto
      next
        case False
        then have "same_nodes w2 w'"
          using "1.IH"(2) [OF nz s1 refl refl _ s2 refl d ts' d' False] ok rec "1.prems"(2) by simp
        then show ?thesis using n2 same_nodes_trans by blast
      qed
    qed
  qed
qed

lemma drop_entry_tlv_nodes: "drop_entry_tlv idx c w = Some w' \<Longrightarrow> same_nodes w w'"
  by (auto simp: drop_entry_tlv_def bind_eq_Some_conv split: option.splits if_splits dest!: update_tlv_nodes)

lemma drop_entry_tlvs_nodes: "drop_entry_tlvs idx cs w = Some w' \<Longrightarrow> same_nodes w w'"
  by (induction cs arbitrary: w) (auto simp: bind_eq_Some_conv dest!: drop_entry_tlv_nodes intro: same_nodes_trans)

lemma block_callbacks_nodes:
  "block_callbacks co cp failed w = (r, w') \<Longrightarrow> consumer_keeps co \<Longrightarrow> same_nodes w w'"
  by (auto simp: block_callbacks_def consumer_keeps_def split: option.splits if_splits dest: callback_nodes)

lemma schedule_tlvblock_nodes:
  assumes "schedule_tlvblock buf co cp tree idx w = Some (r, w')" "consumer_keeps co"
  shows "same_nodes w w'"
proof -
  obtain r1 f1 w1 where l: "schedule_loop buf co cp idx (avl_elements tree) (co_list co) False
      (clear_first_ce (co_list co) w) = Some (r1, f1, w1)"
    using assms(1) by (auto simp: schedule_tlvblock_def bind_eq_Some_conv)
  have n1: "same_nodes w w1" using schedule_loop_nodes [OF l assms(2)] by simp
  obtain r2 w2 where c: "block_callbacks co cp f1 w1 = (r2, w2)" by fastforce
  have n2: "same_nodes w w2" using n1 block_callbacks_nodes [OF c assms(2)] by (rule same_nodes_trans)
  show ?thesis
    using assms(1) l c n1 n2
    by (auto simp: schedule_tlvblock_def bind_eq_Some_conv split: if_splits
        dest!: drop_entry_tlvs_nodes intro: same_nodes_trans)
qed

lemma schedule_msgtlv_nodes:
  assumes "schedule_msgtlv_consumer buf co cp tree w = Some (r, w')" "consumer_keeps co"
  shows "same_nodes w w'"
proof -
  obtain r1 w1 where c: "run_callback (co_start co) cp (set_type CONTEXT_MESSAGE w) = (r1, w1)" by fastforce
  have "same_nodes w w1"
    using run_callback_nodes [OF c] assms(2) by (simp add: consumer_keeps_def)
  then show ?thesis
    using assms c by (auto simp: schedule_msgtlv_consumer_def split: if_splits
        dest!: schedule_tlvblock_nodes intro: same_nodes_trans)
qed

lemma address_callbacks_nodes:
  assumes "address_callbacks buf co cp tree i w = Some (r, w')" "consumer_keeps co"
  shows "same_nodes w w'"
proof -
  obtain r1 w1 where c1: "run_callback (co_start co) cp w = (r1, w1)" by fastforce
  obtain r2 w2 where c2: "(if r1 = RFC5444_OKAY then schedule_tlvblock buf co cp tree i w1 else Some (r1, w1)) = Some (r2, w2)"
    and c3: "run_end_callback (co_end co) cp r2 w2 = (r, w')"
    using assms(1) c1 by (auto simp: address_callbacks_def bind_eq_Some_conv)
  have "same_nodes w w1" using run_callback_nodes [OF c1] assms(2) by (auto simp: consumer_keeps_def)
  moreover have "same_nodes w1 w2" using c2 schedule_tlvblock_nodes [OF _ assms(2)] by (auto split: if_splits)
  moreover have "same_nodes w2 w'" using run_end_callback_nodes [OF c3] assms(2) by (simp add: consumer_keeps_def)
  ultimately show ?thesis using same_nodes_trans by blast
qed

lemma schedule_address_nodes:
  "schedule_address buf co cp a i w = Some (r, a', w') \<Longrightarrow> consumer_keeps co \<Longrightarrow>
    same_nodes w w' \<and> ae_tlvblock a' = ae_tlvblock a"
  by (auto simp: schedule_address_def bind_eq_Some_conv Let_def split: if_splits dest!: address_callbacks_nodes)

lemma schedule_addresses_nodes:
  "schedule_addresses buf co cp a is w = Some (r, a', w') \<Longrightarrow> consumer_keeps co \<Longrightarrow>
    same_nodes w w' \<and> ae_tlvblock a' = ae_tlvblock a"
proof (induction "is" arbitrary: a w)
  case (Cons i "is")
  then obtain r1 a1 w1 where s: "schedule_address buf co cp a (of_nat i) w = Some (r1, a1, w1)"
    by (auto simp: bind_eq_Some_conv)
  note n = schedule_address_nodes [OF s Cons.prems(2)]
  show ?case
    using Cons.prems(1) s n Cons.IH [OF _ Cons.prems(2), of a1 w1] same_nodes_trans
    by (auto split: if_splits)
qed simp

lemma schedule_msgaddr_blocks_nodes:
  "schedule_msgaddr_blocks buf co cp as w = Some (r, as', w') \<Longrightarrow> consumer_keeps co \<Longrightarrow>
    same_nodes w w' \<and> map ae_tlvblock as' = map ae_tlvblock as"
proof (induction "as" arbitrary: w r as' w')
  case (Cons a "as")
  define w0 where "w0 = w\<lparr>w_ctx := (w_ctx w)\<lparr>cx_addr_block_buffer := Some (ae_addr_block_ptr a),
                   cx_addr_block_size := ae_addr_block_size a, cx_addr_tlv_size := ae_addr_tlv_size a\<rparr>\<rparr>"
  obtain r1 a1 w1 where s: "schedule_addresses buf co cp a [0..<unat (ae_num_addr a)] w0 = Some (r1, a1, w1)"
    using Cons.prems(1) by (auto simp: bind_eq_Some_conv w0_def Let_def)
  have n: "same_nodes w w1" "ae_tlvblock a1 = ae_tlvblock a"
    using schedule_addresses_nodes [OF s Cons.prems(2)] by (simp_all add: w0_def)
  show ?case
  proof (cases "r1 = RFC5444_OKAY")
    case True
    then obtain r2 as2 w2 where t: "schedule_msgaddr_blocks buf co cp as w1 = Some (r2, as2, w2)"
      "as' = a1 # as2" "w' = w2"
      using Cons.prems(1) s by (auto simp: bind_eq_Some_conv w0_def Let_def)
    show ?thesis using Cons.IH [OF t(1) Cons.prems(2)] n t(2,3) same_nodes_trans by auto
  next
    case False
    then show ?thesis using Cons.prems(1) s n by (auto simp: w0_def Let_def)
  qed
qed simp

lemma end_message_cbs_nodes:
  "end_message_cbs rd cs r w = (r', w') \<Longrightarrow> reader_keeps rd \<Longrightarrow> same_nodes w w'"
proof (induction cs arbitrary: r w)
  case (Cons c cs)
  obtain r1 w1 where c: "run_end_callback (co_end (rd_consumers rd c)) c r w = (r1, w1)" by fastforce
  have "same_nodes w w1"
    using run_end_callback_nodes [OF c] Cons.prems(2) by (auto simp: reader_keeps_def consumer_keeps_def)
  then show ?case
    using Cons.prems c Cons.IH [OF _ Cons.prems(2)] same_nodes_trans [of w w1 w']
    by (auto simp: Let_def split: if_splits)
qed simp

lemma end_same_order_nodes:
  "end_same_order rd same r w = (r', w') \<Longrightarrow> reader_keeps rd \<Longrightarrow> same_nodes w w'"
  by (auto simp: end_same_order_def schedule_end_message_cbs_def split: option.splits prod.splits
      dest!: end_message_cbs_nodes)

lemma run_message_consumer_nodes:
  "run_message_consumer buf rd tree c as w = Some (r, as', w') \<Longrightarrow> reader_keeps rd \<Longrightarrow>
    same_nodes w w' \<and> map ae_tlvblock as' = map ae_tlvblock as"
  by (auto simp: run_message_consumer_def schedule_msgaddr_consumer_def bind_eq_Some_conv reader_keeps_def
      split: if_splits dest: schedule_msgtlv_nodes schedule_msgaddr_blocks_nodes)

lemma message_consumers_nodes:
  "message_consumers buf rd tree cs same as w = Some (r, as', w') \<Longrightarrow> reader_keeps rd \<Longrightarrow>
    same_nodes w w' \<and> map ae_tlvblock as' = map ae_tlvblock as"
proof (induction cs arbitrary: same "as" w)
  case Nil
  then show ?case by (auto split: prod.splits dest: end_same_order_nodes)
next
  case (Cons c cs)
  show ?case
  proof (cases "\<not> co_default (rd_consumers rd c) \<and> co_msg_id (rd_consumers rd c) \<noteq> cx_msg_type (w_ctx w)")
    case True
    then show ?thesis using Cons by simp
  next
    case False
    obtain r1 w1 where e1: "end_same_order rd (if same_order_due rd same c then same else None) RFC5444_OKAY w = (r1, w1)"
      by fastforce
    note n1 = end_same_order_nodes [OF e1 Cons.prems(2)]
    show ?thesis
    proof (cases "r1 = RFC5444_OKAY")
      case bad: False
      then show ?thesis using Cons.prems(1) False e1 n1 by (auto simp: Let_def split: if_splits)
    next
      case ok: True
      obtain r2 as2 w2 where e2: "run_message_consumer buf rd tree c as w1 = Some (r2, as2, w2)"
        using Cons.prems(1) False e1 ok by (auto simp: Let_def bind_eq_Some_conv split: if_splits)
      have n2: "same_nodes w w2" "map ae_tlvblock as2 = map ae_tlvblock as"
        using run_message_consumer_nodes [OF e2 Cons.prems(2)] n1 same_nodes_trans [of w w1 w2] by auto
      define same2 where "same2 = extend_same_order rd (if same_order_due rd same c then None else same) c"
      have rest: "(if r2 \<noteq> RFC5444_OKAY then (let (r, w) = end_same_order rd same2 r2 w2 in Some (r, as2, w))
          else message_consumers buf rd tree cs same2 as2 w2) = Some (r, as', w')"
        using Cons.prems(1) False e1 ok e2 by (auto simp: Let_def same2_def split: if_splits)
      show ?thesis
      proof (cases "r2 = RFC5444_OKAY")
        case True
        then show ?thesis using rest Cons.IH [OF _ Cons.prems(2)] n2 same_nodes_trans [of w w2 w'] by force
      next
        case False
        obtain r3 w3 where e3: "end_same_order rd same2 r2 w2 = (r3, w3)" by fastforce
        show ?thesis
          using rest False e3 end_same_order_nodes [OF e3 Cons.prems(2)] n2 same_nodes_trans [of w w2 w'] by auto
      qed
    qed
  qed
qed

text \<open>The nodes of a message over the store it started from.\<close>

definition tree_nodes :: "tlv_tree list \<Rightarrow> ptr set" where
  "tree_nodes ts = (\<Union>t \<in> set ts. set (avl_elements t))"

definition owns_nodes :: "tlv_store \<Rightarrow> tlv_tree list \<Rightarrow> tlv_store \<Rightarrow> bool" where
  "owns_nodes st0 ts st \<longleftrightarrow> dom st = dom st0 \<union> tree_nodes ts \<and> tree_nodes ts \<inter> dom st0 = {}"

lemma owns_nodes_empty [simp]: "owns_nodes st [] st"
  by (simp add: owns_nodes_def tree_nodes_def)

lemma avl_elements_init [simp]: "avl_elements (avl_init c d) = []"
  by (simp add: avl_elements_def avl_init_def)

lemma tree_nodes_simps [simp]:
  "tree_nodes [] = {}" "tree_nodes (t # ts) = set (avl_elements t) \<union> tree_nodes ts"
  "tree_nodes (ts @ us) = tree_nodes ts \<union> tree_nodes us" "tree_nodes [avl_init c d] = {}"
  by (auto simp: tree_nodes_def avl_elements_def avl_init_def)

lemma dom_free_tlvblock: "dom (free_tlvblock t st) = dom st - set (avl_elements t)"
  by (auto simp: free_tlvblock_apply dom_def split: if_splits)

lemma dom_free_blocks: "dom (free_blocks as st) = dom st - tree_nodes (map ae_tlvblock as)"
  unfolding free_blocks_def
  by (induction "as" arbitrary: st) (auto simp: dom_free_tlvblock)

text \<open>A TLV block that was read adds its nodes, an error adds none.\<close>

lemma parse_tlvblock_nodes:
  assumes "alloc_fresh alloc" "comparator c" "eob \<le> length buf"
    and r: "parse_tlvblock alloc buf eob ac p (avl_init c True) st = Some (r, p', tree, st')"
    and o: "owns_nodes st0 ts st"
  shows "if r = RFC5444_OKAY then owns_nodes st0 (ts @ [tree]) st' else owns_nodes st0 ts st' \<and> tree_nodes [tree] = {}"
proof -
  note m = parse_tlvblock_result [OF assms(1-3) r]
  show ?thesis
  proof (cases "r = RFC5444_OKAY")
    case True
    then have ok: "tlvblock_ok eob st tree st'" using m by simp
    have el: "st q = None \<and> st' q \<noteq> None" if "q \<in> set (avl_elements tree)" for q
      using tlvblock_elements [OF ok that] by auto
    have "st' q = st q" if "q \<notin> set (avl_elements tree)" for q
      using ok that by (simp add: tlvblock_ok_def)
    then have "dom st' = dom st \<union> set (avl_elements tree)" using el by (force simp: dom_def)
    moreover have "set (avl_elements tree) \<inter> dom st = {}" using el by auto
    ultimately show ?thesis using o True by (auto simp: owns_nodes_def)
  next
    case False
    then have "st' = st" "avl_entries tree = []" using m by auto
    then show ?thesis using o False by (simp flip: avl_ids)
  qed
qed

lemma message_blocks_nodes:
  assumes "message_blocks alloc addr_alloc buf end al p as st = Some (r, p', as', st')"
    "alloc_fresh alloc" "end \<le> length buf" "owns_nodes st0 (t0 # map ae_tlvblock as) st"
  shows "owns_nodes st0 (t0 # map ae_tlvblock as') st'"
  using assms
proof (induction alloc addr_alloc buf "end" al p "as" st rule: message_blocks.induct)
  case (1 alloc addr_alloc buf "end" al p "as" st)
  note unf = "1.prems"(1) [unfolded message_blocks.simps [of alloc addr_alloc buf "end" al p "as" st]]
  show ?case
  proof (cases "p < end \<and> addr_alloc (length as)")
    case False
    then show ?thesis using unf "1.prems"(4) by (auto split: if_splits)
  next
    case True
    then obtain r1 a p1 where s1: "parse_addrblock buf end al addr_entry_zero p = Some (r1, a, p1)"
      using unf by (auto split: option.splits)
    show ?thesis
    proof (cases "r1 = RFC5444_OKAY")
      case False
      then show ?thesis using unf True s1 "1.prems"(4) by auto
    next
      case ok: True
      obtain r2 p2 tree st2 where s2: "parse_tlvblock alloc buf end (ae_num_addr a) p1 (ae_tlvblock a) st = Some (r2, p2, tree, st2)"
        using unf True s1 ok by (auto split: option.splits)
      have z: "ae_tlvblock a = avl_init avl_comp_uint16 True"
        using parse_addrblock_progress [OF s1 [unfolded ok]] by (simp add: addr_entry_zero_def)
      note n = parse_tlvblock_nodes [OF "1.prems"(2) avl_comp_uint16.comparator_axioms "1.prems"(3) s2 [unfolded z] "1.prems"(4)]
      show ?thesis
      proof (cases "r2 = RFC5444_OKAY")
        case False
        then show ?thesis using unf True s1 ok s2 n by auto
      next
        case ok2: True
        define a' where "a' = a\<lparr>ae_tlvblock := tree, ae_addr_tlv_size := p2 - ae_addr_block_size a - ae_addr_block_ptr a\<rparr>"
        have rec: "message_blocks alloc addr_alloc buf end al p2 (as @ [a']) st2 = Some (r, p', as', st')"
          using unf True s1 ok s2 ok2 by (auto simp: a'_def)
        have o: "owns_nodes st0 (t0 # map ae_tlvblock (as @ [a'])) st2" using n ok2 by (simp add: a'_def)
        show ?thesis
          using "1.IH" [OF _ _ s1 refl refl _ s2 refl refl refl] True ok ok2 rec "1.prems"(2,3) o by (simp add: a'_def)
      qed
    qed
  qed
qed

lemma message_body_nodes:
  assumes "message_body buf rd start h end w = Some (r, tree, as, w')"
    "\<And>alloc. rd_malloc_tlv rd = Some alloc \<Longrightarrow> alloc_fresh alloc" "end \<le> length buf" "reader_keeps rd"
  shows "owns_nodes (w_tlvs w) (tree # map ae_tlvblock as) (w_tlvs w')"
proof -
  obtain alloc addr_alloc r1 p1 st1 tree1 where al: "rd_malloc_tlv rd = Some alloc" "rd_malloc_addr rd = Some addr_alloc"
    and s1: "parse_tlvblock alloc buf end 0 (mh_ptr h) (avl_init avl_comp_uint16 True) (w_tlvs w) = Some (r1, p1, tree1, st1)"
    using assms(1) by (auto simp: message_body_def bind_eq_Some_conv)
  note n1 = parse_tlvblock_nodes [OF assms(2) [OF al(1)] avl_comp_uint16.comparator_axioms assms(3) s1 owns_nodes_empty]
  note unf = assms(1) [unfolded message_body_def, simplified al s1 bind.bind_lunit Let_def prod.case, simplified]
  show ?thesis
  proof (cases "r1 = RFC5444_OKAY")
    case False
    then have u: "tree = tree1" "as = []" "w' = w\<lparr>w_tlvs := st1\<rparr>" using unf by auto
    show ?thesis using n1 False by (simp add: u owns_nodes_def)
  next
    case ok: True
    obtain r2 p2 as2 st2 where s2: "message_blocks alloc addr_alloc buf end (cx_addr_len (w_ctx w)) p1 [] st1 = Some (r2, p2, as2, st2)"
      using unf ok by (auto simp: bind_eq_Some_conv)
    have n2: "owns_nodes (w_tlvs w) (tree1 # map ae_tlvblock as2) st2"
      using message_blocks_nodes [OF s2 assms(2) [OF al(1)] assms(3)] n1 ok by simp
    show ?thesis
    proof (cases "r2 = RFC5444_OKAY")
      case False
      then show ?thesis using unf ok s2 n2 by auto
    next
      case ok2: True
      define w2 where "w2 = w\<lparr>w_tlvs := st2, w_ctx := (w_ctx w)\<lparr>cx_msg_buffer := Some start, cx_msg_size := unat (mh_size h)\<rparr>\<rparr>"
      have s3: "message_consumers buf rd tree1 (avl_elements (rd_message rd)) None as2 w2 = Some (r, as, w')" "tree = tree1"
        using unf ok s2 ok2 by (auto simp: bind_eq_Some_conv w2_def)
      have "dom (w_tlvs w') = dom st2" "map ae_tlvblock as = map ae_tlvblock as2"
        using message_consumers_nodes [OF s3(1) assms(4)] by (simp_all add: same_nodes_def w2_def)
      then show ?thesis using n2 s3(2) by (simp add: owns_nodes_def)
    qed
  qed
qed

lemma message_cleanup_nodes:
  assumes "message_cleanup rd r start end tree as w = (r', end', w')" "reader_keeps rd"
    "owns_nodes st0 (tree # map ae_tlvblock as) (w_tlvs w)"
  shows "dom (w_tlvs w') = dom st0"
proof -
  define w1 where "w1 = forward_message rd r start end (w\<lparr>w_ctx := (w_ctx w)\<lparr>cx_msg_buffer := None\<rparr>\<rparr>)"
  have "same_nodes w w1"
  proof (cases "rd_forward rd")
    case None
    then show ?thesis by (simp add: w1_def forward_message_def)
  next
    case (Some f)
    have "same_nodes v (f s n v)" for v s n using assms(2) Some by (simp add: reader_keeps_def)
    from this [of "set_type CONTEXT_MESSAGE (w\<lparr>w_ctx := (w_ctx w)\<lparr>cx_msg_buffer := None\<rparr>\<rparr>)"]
    show ?thesis using Some by (simp add: w1_def forward_message_def split: option.split)
  qed
  then have "dom (w_tlvs w1) = dom (w_tlvs w)" by (simp add: same_nodes_def)
  moreover have "w_tlvs w' = free_tlvblock tree (free_blocks as (w_tlvs w1))"
    using assms(1) by (auto simp: message_cleanup_def Let_def w1_def)
  ultimately show ?thesis
    using assms(3) by (auto simp: owns_nodes_def dom_free_tlvblock dom_free_blocks)
qed

lemma handle_message_nodes:
  assumes "handle_message buf rd eob start w = Some (r, q, w')"
    "\<And>alloc. rd_malloc_tlv rd = Some alloc \<Longrightarrow> alloc_fresh alloc" "eob \<le> length buf" "reader_keeps rd"
  shows "same_nodes w w'"
proof -
  obtain cx h where h: "parse_message_header buf eob (w_ctx w) start = Some (cx, h)"
    using assms(1) by (auto simp: handle_message_def bind_eq_Some_conv)
  have none: "same_nodes w w'"
    if "message_cleanup rd (mh_result h) start e (avl_init avl_comp_uint16 True) [] (w\<lparr>w_ctx := cx\<rparr>) = (r, q, w')" for e
    using message_cleanup_nodes [OF that assms(4), of "w_tlvs w"]
    by (simp add: same_nodes_def owns_nodes_def)
  show ?thesis
  proof (cases "mh_end h")
    case None
    then show ?thesis using assms(1) h none by (simp add: handle_message_def)
  next
    case (Some e)
    show ?thesis
    proof (cases "mh_result h = RFC5444_OKAY")
      case False
      then show ?thesis using assms(1) h none Some by (simp add: handle_message_def)
    next
      case True
      obtain r1 tree as w1 where b: "message_body buf rd start h e (w\<lparr>w_ctx := cx\<rparr>) = Some (r1, tree, as, w1)"
        and c: "message_cleanup rd r1 start (Some e) tree as w1 = (r, q, w')"
        using assms(1) h Some True by (auto simp: handle_message_def bind_eq_Some_conv Let_def)
      have "e \<le> length buf" using header_end [OF h Some True] assms(3) by simp
      from message_cleanup_nodes [OF c assms(4) message_body_nodes [OF b assms(2) this assms(4)]]
      show ?thesis by (simp add: same_nodes_def)
    qed
  qed
qed


lemma packet_messages_nodes:
  assumes "packet_messages buf rd eob p w = Some (r, w')"
    "\<And>alloc. rd_malloc_tlv rd = Some alloc \<Longrightarrow> alloc_fresh alloc" "eob \<le> length buf" "reader_keeps rd"
  shows "same_nodes w w'"
  using assms
proof (induction buf rd eob p w rule: packet_messages.induct)
  case (1 buf rd eob p w)
  note unf = "1.prems"(1) [unfolded packet_messages.simps [of buf rd eob p w]]
  show ?case
  proof (cases "p < eob")
    case False
    then show ?thesis using unf by simp
  next
    case True
    then obtain r1 q w1 where s: "handle_message buf rd eob p w = Some (r1, q, w1)"
      using unf by (auto split: option.splits)
    note n = handle_message_nodes [OF s "1.prems"(2-4)]
    show ?thesis
    proof (cases "r1 = RFC5444_OKAY")
      case False
      then show ?thesis using unf True s n by simp
    next
      case ok: True
      then obtain q' where q: "q = Some q'" using unf True s by (cases q) auto
      have "same_nodes w1 w'"
        using "1.IH" [OF True s refl refl _ q _ "1.prems"(2-4)] unf True s ok q by simp
      then show ?thesis using n same_nodes_trans by blast
    qed
  qed
qed

lemma packet_consumers_nodes:
  "packet_consumers buf rd has_tlv tree cs started w = Some (r, started', w') \<Longrightarrow> reader_keeps rd \<Longrightarrow> same_nodes w w'"
proof (induction cs arbitrary: started w)
  case (Cons c cs)
  have k: "consumer_keeps (rd_consumers rd c)" using Cons.prems(2) by (simp add: reader_keeps_def)
  obtain r1 w1 where c1: "run_callback (co_start (rd_consumers rd c)) c w = (r1, w1)" by fastforce
  have n1: "same_nodes w w1" using run_callback_nodes [OF c1] k by (simp add: consumer_keeps_def)
  show ?case
  proof (cases "r1 = RFC5444_OKAY")
    case False
    then show ?thesis using Cons.prems(1) c1 n1 by (simp add: Let_def)
  next
    case True
    obtain r2 w2 where c2: "(if has_tlv \<and> (co_tlv (rd_consumers rd c) \<noteq> None \<or> co_block (rd_consumers rd c) \<noteq> None)
        then schedule_tlvblock buf (rd_consumers rd c) c tree 0 w1 else Some (RFC5444_OKAY, w1)) = Some (r2, w2)"
      and rest: "(if r2 \<noteq> RFC5444_OKAY then Some (r2, c # started, w2)
        else packet_consumers buf rd has_tlv tree cs (c # started) w2) = Some (r, started', w')"
      using Cons.prems(1) c1 True by (auto simp: Let_def bind_eq_Some_conv)
    have "same_nodes w1 w2" using c2 schedule_tlvblock_nodes [OF _ k] by (auto split: if_splits)
    then have n2: "same_nodes w w2" using n1 same_nodes_trans by blast
    show ?thesis
      using rest n2 Cons.IH [OF _ Cons.prems(2), of "c # started" w2] same_nodes_trans [of w w2 w']
      by (auto split: if_splits)
  qed
qed simp

lemma packet_end_callbacks_nodes: "reader_keeps rd \<Longrightarrow> same_nodes w (packet_end_callbacks rd r cs w)"
proof (induction cs arbitrary: w)
  case (Cons c cs)
  show ?case
  proof (cases "co_end (rd_consumers rd c)")
    case None
    then show ?thesis using Cons by simp
  next
    case (Some f)
    have "keeps_nodes (f (r \<noteq> RFC5444_OKAY))" using Cons.prems Some by (auto simp: reader_keeps_def consumer_keeps_def)
    then have "same_nodes w (snd (f (r \<noteq> RFC5444_OKAY) (set_consumer c w)))"
      by (metis callback_nodes prod.collapse same_nodes_simps(5))
    then show ?thesis
      using Some Cons.IH [OF Cons.prems] same_nodes_trans by (auto simp: Let_def)
  qed
qed simp

lemma packet_tlv_comparator: "comparator packet_tlv_comp"
proof
  show "packet_tlv_comp a b < 0 \<longleftrightarrow> 0 < packet_tlv_comp b a" for a b
    by (simp add: packet_tlv_comp_def avl_comp_uint32.cmp_neg)
  show "packet_tlv_comp a b \<le> 0 \<Longrightarrow> packet_tlv_comp b c \<le> 0 \<Longrightarrow> packet_tlv_comp a c \<le> 0" for a b c
    unfolding packet_tlv_comp_def by (rule avl_comp_uint32.cmp_trans)
qed

lemma run_packet_nodes:
  assumes "run_packet buf rd has_tlv tree p w = Some (r, w')" "reader_keeps rd"
    "\<And>alloc. rd_malloc_tlv rd = Some alloc \<Longrightarrow> alloc_fresh alloc" "owns_nodes st0 [tree] (w_tlvs w)"
  shows "dom (w_tlvs w') = dom st0"
proof -
  obtain r1 started w1 r2 w2 where c: "packet_consumers buf rd has_tlv tree (avl_elements (rd_packet rd)) [] w = Some (r1, started, w1)"
    and m: "(if r1 \<noteq> RFC5444_OKAY then Some (r1, w1) else packet_messages buf rd (length buf) p w1) = Some (r2, w2)"
    and w': "w_tlvs w' = free_tlvblock tree (w_tlvs (packet_end_callbacks rd r2 started w2))"
    using assms(1) by (auto simp: run_packet_def bind_eq_Some_conv Let_def)
  have "same_nodes w1 w2"
    using m packet_messages_nodes [OF _ assms(3) order_refl assms(2)] by (auto split: if_splits)
  then have "same_nodes w (packet_end_callbacks rd r2 started w2)"
    using packet_consumers_nodes [OF c assms(2)] packet_end_callbacks_nodes [OF assms(2)] same_nodes_trans by blast
  then show ?thesis
    using assms(4) w' by (auto simp: same_nodes_def owns_nodes_def dom_free_tlvblock)
qed

lemma handle_packet_steps:
  assumes "rfc5444_reader_handle_packet buf rd w = Some (r, w')"
  shows "w' = w \<or> (\<exists>has_tlv alloc r1 q p tree st cx. rd_malloc_tlv rd = Some alloc
      \<and> packet_tlvs alloc buf has_tlv q (w_tlvs w) = Some (r1, p, tree, st)
      \<and> (if r1 \<noteq> RFC5444_OKAY then Some (r1, w\<lparr>w_tlvs := st\<rparr>)
        else run_packet buf rd has_tlv tree p (w\<lparr>w_ctx := cx, w_tlvs := st\<rparr>)) = Some (r, w'))"
proof (cases "length buf > 65535")
  case True
  then show ?thesis using assms by (simp add: rfc5444_reader_handle_packet_def)
next
  case False
  obtain r0 q cx where h: "packet_header buf = Some (r0, q, cx)"
    using assms False by (auto simp: rfc5444_reader_handle_packet_def bind_eq_Some_conv)
  show ?thesis
  proof (cases "r0 = RFC5444_OKAY")
    case bad: False
    then show ?thesis using assms False h by (simp add: rfc5444_reader_handle_packet_def)
  next
    case True
    define has_tlv where "has_tlv \<longleftrightarrow> cx_pkt_flags cx AND PKT_FLAG_TLV \<noteq> 0"
    obtain alloc r1 p tree st where t: "rd_malloc_tlv rd = Some alloc"
      "packet_tlvs alloc buf has_tlv q (w_tlvs w) = Some (r1, p, tree, st)"
      using assms False h True by (auto simp: rfc5444_reader_handle_packet_def bind_eq_Some_conv Let_def has_tlv_def)
    then have "(if r1 \<noteq> RFC5444_OKAY then Some (r1, w\<lparr>w_tlvs := st\<rparr>)
        else run_packet buf rd has_tlv tree p (w\<lparr>w_ctx := cx\<lparr>cx_pkt_buffer := Some 0, cx_pkt_size := length buf\<rparr>,
          w_tlvs := st\<rparr>)) = Some (r, w')"
      using assms False h True by (auto simp: rfc5444_reader_handle_packet_def has_tlv_def split: if_split_asm)
    then show ?thesis using t by blast
  qed
qed

text \<open>
  C22. No TLV node is lost: whatever a packet contains, whatever errors it has, and wherever a callback
  drops it, after the packet was handled exactly those nodes are allocated that were before, provided
  that the callbacks free and allocate none and the allocator hands out free nodes.
\<close>

theorem handle_packet_frees_nodes:
  assumes "rfc5444_reader_handle_packet buf rd w = Some (r, w')" "reader_keeps rd"
    "\<And>alloc. rd_malloc_tlv rd = Some alloc \<Longrightarrow> alloc_fresh alloc"
  shows "dom (w_tlvs w') = dom (w_tlvs w)"
proof -
  consider "w' = w"
    | has_tlv alloc r1 q p tree st cx where "rd_malloc_tlv rd = Some alloc"
      "packet_tlvs alloc buf has_tlv q (w_tlvs w) = Some (r1, p, tree, st)"
      "(if r1 \<noteq> RFC5444_OKAY then Some (r1, w\<lparr>w_tlvs := st\<rparr>)
        else run_packet buf rd has_tlv tree p (w\<lparr>w_ctx := cx, w_tlvs := st\<rparr>)) = Some (r, w')"
    using handle_packet_steps [OF assms(1)] by blast
  then show ?thesis
  proof cases
    case 1
    then show ?thesis by simp
  next
    case (2 has_tlv alloc r1 q p tree st cx)
    have n: "if r1 = RFC5444_OKAY then owns_nodes (w_tlvs w) [tree] st else owns_nodes (w_tlvs w) [] st \<and> tree_nodes [tree] = {}"
    proof (cases has_tlv)
      case True
      then have "parse_tlvblock alloc buf (length buf) 0 q (avl_init packet_tlv_comp True) (w_tlvs w) = Some (r1, p, tree, st)"
        using 2(2) by (simp add: packet_tlvs_def)
      from parse_tlvblock_nodes [OF assms(3) [OF 2(1)] packet_tlv_comparator order_refl this owns_nodes_empty]
      show ?thesis by (auto split: if_split_asm)
    next
      case False
      then show ?thesis using 2(2) by (auto simp: packet_tlvs_def owns_nodes_def)
    qed
    show ?thesis
    proof (cases "r1 = RFC5444_OKAY")
      case True
      then show ?thesis using n 2(3) run_packet_nodes [OF _ assms(2,3)] by simp
    next
      case False
      then have "w' = w\<lparr>w_tlvs := st\<rparr>" "dom st = dom (w_tlvs w)" using n 2(3) by (simp_all add: owns_nodes_def)
      then show ?thesis by simp
    qed
  qed
qed

definition silent_reader :: "unit reader" where
  "silent_reader = rfc5444_reader_init first_free (\<lambda>_. True)
     \<lparr>rd_packet = avl_init consumer_avl_comp True, rd_message = avl_init consumer_avl_comp True,
      rd_consumers = (\<lambda>_. \<lparr>co_order = 0, co_default = False, co_msg_id = 0, co_addrblock = False, co_list = [],
        co_start = None, co_end = None, co_tlv = None, co_block = None, co_block_failed = None\<rparr>),
      rd_forward = None, rd_malloc_tlv = None, rd_malloc_addr = None\<rparr>"

definition idle_world :: "unit world" where
  "idle_world = \<lparr>w_ctx = packet_context, w_tlvs = (\<lambda>_. None),
     w_ces = (\<lambda>_. \<lparr>ce_mandatory = False, ce_type = 0, ce_type_ext = 0, ce_match_type_ext = False,
       ce_min_length = 0, ce_max_length = 0, ce_match_length = False, ce_copy_value = None, ce_tlv = None,
       ce_drop = False\<rparr>), w_user = ()\<rparr>"

lemma silent_reader_simps [simp]:
  "rd_packet silent_reader = avl_init consumer_avl_comp True"
  "rd_message silent_reader = avl_init consumer_avl_comp True"
  "rd_malloc_tlv silent_reader = Some first_free" "rd_malloc_addr silent_reader = Some (\<lambda>_. True)"
  "rd_forward silent_reader = None"
  by (simp_all add: silent_reader_def rfc5444_reader_init_def)

lemma idle_world_simps [simp]:
  "w_ctx idle_world = packet_context" "w_tlvs idle_world = (\<lambda>_. None)"
  by (simp_all add: idle_world_def)

lemma silent_reader_keeps: "reader_keeps silent_reader"
  by (simp add: reader_keeps_def consumer_keeps_def silent_reader_def rfc5444_reader_init_def)

lemma first_free_fresh: "alloc_fresh first_free"
  by (simp add: alloc_fresh_def first_free_def)

theorem handle_packet_frees_nodes_witness:
  "\<exists>w'. rfc5444_reader_handle_packet [4, 0, 2, 7, 0] silent_reader idle_world = Some (RFC5444_OKAY, w')
    \<and> dom (w_tlvs w') = {}"
proof -
  have h: "packet_header [4, 0, 2, 7, 0] = Some (RFC5444_OKAY, 1, packet_context\<lparr>cx_pkt_flags := 4\<rparr>)"
    by (simp add: packet_header_def get_u8_def optional_u16_def rfc5444_get_pktversion_def flag_defs packet_context_def)
  have t: "parse_tlv [4, 0, 2, 7, 0] 5 0 tlv_entry_zero 3 = Some (RFC5444_OKAY, tlv_entry_zero
      \<lparr>te_type := 7, te_order := 0x700, te_index2 := 255\<rparr>, 5)"
    by (simp add: parse_tlv_def parse_tlv_type_def parse_tlv_index_def parse_tlv_length_def parse_tlv_value_def
        get_u8_def flag_defs Let_def calc_tlvblock_intorder_def) (simp add: tlv_entry_zero_def)
  have e: "Suc (Suc (Suc (Suc (Suc 0)))) = 5" "Suc (Suc (Suc 0)) = 3" by simp_all
  have b: "\<exists>tree st. packet_tlvs first_free [4, 0, 2, 7, 0] True 1 (\<lambda>_. None) = Some (RFC5444_OKAY, 5, tree, st)"
    by (simp add: packet_tlvs_def parse_tlvblock_def get_u16_def get_u8_def)
      (simp add: e parse_tlvblock_loop.simps t first_free_def)
  then obtain tree st where b': "packet_tlvs first_free [4, 0, 2, 7, 0] True 1 (\<lambda>_. None) = Some (RFC5444_OKAY, 5, tree, st)"
    by blast
  have run: "\<exists>w'. run_packet [4, 0, 2, 7, 0] silent_reader True tree 5 w = Some (RFC5444_OKAY, w')" for w
    by (simp add: run_packet_def packet_messages.simps)
  have "\<exists>w'. rfc5444_reader_handle_packet [4, 0, 2, 7, 0] silent_reader idle_world = Some (RFC5444_OKAY, w')"
    using run b' by (simp add: rfc5444_reader_handle_packet_def h flag_defs)
  then obtain w' where w': "rfc5444_reader_handle_packet [4, 0, 2, 7, 0] silent_reader idle_world = Some (RFC5444_OKAY, w')"
    by blast
  have "dom (w_tlvs w') = dom (w_tlvs idle_world)"
    by (rule handle_packet_frees_nodes [OF w' silent_reader_keeps]) (simp add: first_free_fresh)
  then show ?thesis using w' by (simp add: idle_world_def)
qed

lemma get_u16_bytes:
  assumes "get_u16 buf eob (p, RFC5444_OKAY) = Some (v, c)" "snd c = RFC5444_OKAY"
  shows "unat v = 256 * unat (buf ! p) + unat (buf ! (p + 1))"
proof -
  have "v = push_bit 8 (ucast (buf ! p)) OR ucast (buf ! (p + 1))"
    using assms by (cases c) (auto simp: get_u16_def bind_eq_Some_conv get_u8_okay)
  also have "\<dots> = of_nat (256 * unat (buf ! p) + unat (buf ! (p + 1)))"
  proof -
    let ?n = "256 * unat (buf ! p) + unat (buf ! (p + 1))"
    have b: "unat (buf ! (p + 1)) < 256" using unsigned_less [of "buf ! (p + 1)", where ?'a = nat] by simp
    have hi: "of_nat (?n div 256) = buf ! p" using b by simp
    have lo: "of_nat ?n = buf ! (p + 1)" using b by (simp only: word_unat_eq_iff unat_of_nat) simp
    show ?thesis using u16_of_bytes [of ?n] unfolding hi lo by simp
  qed
  finally have "v = of_nat (256 * unat (buf ! p) + unat (buf ! (p + 1)))" .
  moreover have "256 * unat (buf ! p) + unat (buf ! (p + 1)) < 65536"
    using unsigned_less [of "buf ! p", where ?'a = nat] unsigned_less [of "buf ! (p + 1)", where ?'a = nat] by simp
  ultimately show ?thesis by (simp only: unat_of_nat) simp
qed


lemma header_size:
  assumes "parse_message_header buf eob cx start = Some (cx', h)" "mh_end h = Some e" "mh_result h = RFC5444_OKAY"
  shows "e = start + 256 * unat (buf ! (start + 2)) + unat (buf ! (start + 3))"
proof -
  obtain ty c1 flags c2 size c3 cx0 x where s: "get_u8 buf eob (start, RFC5444_OKAY) = Some (ty, c1)"
    "get_u8 buf eob c1 = Some (flags, c2)" "get_u16 buf eob c2 = Some (size, c3)"
    and x: "originator_step buf eob flags cx0 c3 = Some x"
      "(case x of Inl (r, p) \<Rightarrow> mh_result h = r \<and> mh_end h = None
       | Inr (cx, c) \<Rightarrow> message_fields buf eob start size flags cx c = Some (cx', h))"
    using header_steps [OF assms(1)] by blast
  obtain cx1 c4 where o: "originator_step buf eob flags cx0 c3 = Some (Inr (cx1, c4))"
    and f: "message_fields buf eob start size flags cx1 c4 = Some (cx', h)"
    using x assms(2) by (cases x) auto
  obtain hl c5 hc c6 sq c7 b1 o1 b2 o2 b3 o3 where p: "optional_u8 buf eob b1 o1 c4 = Some (hl, c5)"
    "optional_u8 buf eob b2 o2 c5 = Some (hc, c6)" "optional_u16 buf eob b3 o3 c6 = Some (sq, c7)"
    and h: "mh_end h = Some (start + unat size)" "snd c7 = RFC5444_OKAY"
    using f assms(3) by (auto simp: message_fields_def bind_eq_Some_conv Let_def split: if_splits)
  have "advances eob c3 c7"
    using originator_advances [OF o] optional_advances(1) [OF p(1)] optional_advances(1) [OF p(2)]
      optional_advances(2) [OF p(3)] advances_trans by blast
  then have ok3: "snd c3 = RFC5444_OKAY" using h(2) by (simp add: advances_def)
  then have "snd c2 = RFC5444_OKAY" using get_u16_advances [OF s(3)] by (simp add: advances_def)
  then have c2: "c2 = (start + 2, RFC5444_OKAY)"
    using s(1,2) by (cases c1; cases c2) (auto simp: get_u8_okay)
  show ?thesis
    using get_u16_bytes [OF s(3) [unfolded c2] ok3] h(1) assms(2) by (simp add: algebra_simps numeral_eq_Suc)
qed

text \<open>
  C23. Framing of messages: a message that was handled without error reaches from its first byte as far
  as its size field says, more than its header, and inside of the packet; the next message starts there.
  Whatever a message contains, the only drop that reaches the packet is the drop of the packet.
\<close>

theorem handle_message_framing:
  assumes "handle_message buf rd eob start w = Some (r, q, w')"
  shows "(r = RFC5444_OKAY \<longrightarrow> (\<exists>p. q = Some p \<and> start + 6 \<le> p \<and> p \<le> eob
      \<and> p = start + 256 * unat (buf ! (start + 2)) + unat (buf ! (start + 3))))
    \<and> (r \<le> RFC5444_OKAY \<or> r = RFC5444_DROP_PACKET)"
proof -
  obtain cx h where h: "parse_message_header buf eob (w_ctx w) start = Some (cx, h)"
    using assms by (auto simp: handle_message_def bind_eq_Some_conv)
  note nd = header_no_drop [OF h]
  show ?thesis
  proof (cases "mh_end h = None \<or> mh_result h \<noteq> RFC5444_OKAY")
    case True
    then have ne: "mh_result h \<noteq> RFC5444_OKAY" using header_end_none [OF h] by blast
    then have "r = mh_result h"
      using assms h nd by (auto simp: handle_message_def message_cleanup_def Let_def split: option.splits if_splits)
    then have "r = mh_result h \<and> r \<noteq> RFC5444_OKAY" using ne by simp
    then show ?thesis using nd by blast
  next
    case False
    then obtain e where e: "mh_end h = Some e" and ok: "mh_result h = RFC5444_OKAY" by auto
    obtain r1 tree as w1 where b: "message_body buf rd start h e (w\<lparr>w_ctx := cx\<rparr>) = Some (r1, tree, as, w1)"
      and c: "message_cleanup rd r1 start (Some e) tree as w1 = (r, q, w')"
      using assms h e ok by (auto simp: handle_message_def bind_eq_Some_conv Let_def)
    have q: "q = Some e" and r: "r = (if r1 > RFC5444_OKAY \<and> r1 \<noteq> RFC5444_DROP_PACKET then RFC5444_OKAY else r1)"
      using c by (auto simp: message_cleanup_def Let_def)
    have "start + 6 \<le> e" if "r1 \<ge> RFC5444_OKAY"
      using header_end [OF h e ok] message_body_end [OF b that] by simp
    then show ?thesis
      using q r header_size [OF h e ok] header_end [OF h e ok] by (auto split: if_splits)
  qed
qed


theorem handle_message_framing_witness:
  "\<exists>w'. handle_message [1, 3, 0, 6, 0, 0] silent_reader 6 0 idle_world = Some (RFC5444_OKAY, Some 6, w') \<and> 6 \<le> (6 :: nat)"
proof -
  have h: "parse_message_header [1, 3, 0, 6, 0, 0] 6 packet_context 0 = Some (packet_context\<lparr>cx_msg_type := 1,
      cx_addr_len := 4\<rparr>, \<lparr>mh_result = RFC5444_OKAY, mh_ptr = 4, mh_end = Some 6, mh_size = 6\<rparr>)"
    by (simp add: parse_message_header_def get_u8_def get_u16_def originator_step_def message_fields_def
        optional_u8_def optional_u16_def flag_defs packet_context_def)
  have t: "parse_tlvblock first_free [1, 3, 0, 6, 0, 0] 6 0 4 (avl_init avl_comp_uint16 True) (\<lambda>_. None)
      = Some (RFC5444_OKAY, 6, avl_init avl_comp_uint16 True, \<lambda>_. None)"
    by (simp add: parse_tlvblock_def get_u16_def get_u8_def) (simp add: parse_tlvblock_loop.simps)
  have b: "message_body [1, 3, 0, 6, 0, 0] silent_reader 0 \<lparr>mh_result = RFC5444_OKAY, mh_ptr = 4, mh_end = Some 6, mh_size = 6\<rparr> 6
      (idle_world\<lparr>w_ctx := c\<rparr>) = Some (RFC5444_OKAY, avl_init avl_comp_uint16 True, [],
        idle_world\<lparr>w_ctx := c\<lparr>cx_msg_buffer := Some 0, cx_msg_size := 6\<rparr>\<rparr>)" for c
    by (simp add: message_body_def t message_blocks.simps end_same_order_def)
  obtain w' where r: "handle_message [1, 3, 0, 6, 0, 0] silent_reader 6 0 idle_world = Some (RFC5444_OKAY, Some 6, w')"
    by (simp add: handle_message_def h b message_cleanup_def forward_message_def)
  show ?thesis using handle_message_framing [OF r] r by auto
qed

subsection \<open>The list of entries of a consumer\<close>

lemma mset_add_after_rev [simp]: "mset (add_after_rev key e xs) = add_mset e (mset xs)"
  by (induction xs) auto

lemma add_after_rev_sorted:
  "sorted_wrt (\<lambda>a b. key b \<le> key a) xs \<Longrightarrow> sorted_wrt (\<lambda>a b. key b \<le> key a) (add_after_rev key e xs)"
proof (induction xs)
  case (Cons x xs)
  have "set (add_after_rev key e xs) = insert e (set xs)"
    by (metis mset_add_after_rev set_mset_add_mset_insert set_mset_mset)
  then show ?case using Cons by (auto intro: order.trans simp: less_imp_le not_le)
qed simp

lemma fold_add_sorted:
  "sorted_wrt (\<lambda>a b. key a \<le> key b) xs \<Longrightarrow>
    sorted_wrt (\<lambda>a b. key a \<le> key b) (fold (add_sorted key) es xs) \<and> mset (fold (add_sorted key) es xs) = mset es + mset xs"
proof (induction es arbitrary: xs)
  case (Cons e es)
  have "sorted_wrt (\<lambda>a b. key a \<le> key b) (add_sorted key e xs)"
    using add_after_rev_sorted [of key "rev xs" e] Cons.prems by (simp add: add_sorted_def sorted_wrt_rev)
  from Cons.IH [OF this] show ?case by (simp add: add_sorted_def)
qed simp

lemma fold_fix_max_length:
  "fold (\<lambda>e ces. ces(e := fix_max_length (ces e))) es ces p
    = (if p \<in> set es then fix_max_length (ces p) else ces p)"
proof (induction es arbitrary: ces)
  case (Cons e es)
  have "fix_max_length (fix_max_length x) = fix_max_length x" for x by (simp add: fix_max_length_def)
  then show ?case using Cons by simp
qed simp

lemma fix_max_length_facts:
  "calc_tlvconsumer_intorder (fix_max_length e) = calc_tlvconsumer_intorder e"
  "ce_min_length (fix_max_length e) \<le> ce_max_length (fix_max_length e)"
  by (simp_all add: fix_max_length_def calc_tlvconsumer_intorder_def not_less)

text \<open>
  Registration of a consumer: its list holds exactly its entries, sorted by type and extension, every
  entry has a length range that is not empty, and the types of the entries are as they were.
\<close>

theorem add_consumer_sorts_entries:
  "let (ces', cons', tree') = add_consumer ces cons c tree entries
   in mset (co_list (cons' c)) = mset entries
     \<and> sorted_wrt (\<lambda>a b. calc_tlvconsumer_intorder (ces' a) \<le> calc_tlvconsumer_intorder (ces' b)) (co_list (cons' c))
     \<and> (\<forall>e. e \<in> set entries \<longrightarrow> ce_min_length (ces' e) \<le> ce_max_length (ces' e))
     \<and> (\<forall>e. calc_tlvconsumer_intorder (ces' e) = calc_tlvconsumer_intorder (ces e))"
proof -
  obtain ces' cons' tree' where r: "add_consumer ces cons c tree entries = (ces', cons', tree')"
    by (cases "add_consumer ces cons c tree entries")
  have l: "co_list (cons' c) = fold (add_sorted (calc_tlvconsumer_intorder \<circ> ces)) entries []"
    and c: "ces' = fold (\<lambda>e ces. ces(e := fix_max_length (ces e))) entries ces"
    using r by (auto simp: add_consumer_def Let_def)
  have k: "calc_tlvconsumer_intorder (ces' e) = calc_tlvconsumer_intorder (ces e)" for e
    by (simp add: c fold_fix_max_length fix_max_length_facts)
  have "ce_min_length (ces' e) \<le> ce_max_length (ces' e)" if "e \<in> set entries" for e
    using that by (simp add: c fold_fix_max_length fix_max_length_facts)
  then show ?thesis
    using fold_add_sorted [of "calc_tlvconsumer_intorder \<circ> ces" "[]" entries]
    by (simp add: r l k)
qed

theorem add_consumer_sorts_entries_witness:
  "length (co_list ((fst (snd (add_consumer (w_ces idle_world) (rd_consumers silent_reader) 3
     (avl_init consumer_avl_comp True) [5, 4])) 3))) = 2"
proof -
  define l where "l = co_list ((fst (snd (add_consumer (w_ces idle_world) (rd_consumers silent_reader) 3
     (avl_init consumer_avl_comp True) [5, 4]))) 3)"
  have "mset l = mset [5, 4]"
    using add_consumer_sorts_entries [of "w_ces idle_world" "rd_consumers silent_reader" 3 "avl_init consumer_avl_comp True" "[5, 4]"]
    by (simp add: split_def Let_def l_def)
  then have "size (mset l) = 2" by simp
  then show ?thesis by (simp add: l_def [symmetric])
qed

end
