(* ===== verification/Index.thy ===== *)
theory Index
  imports Avl
begin

text \<open>
  The databases of the program keep their objects in trees over a comparator that identifies only
  equal keys, and look a key up before they insert it. Such a tree is a finite map from keys to
  objects; the facts below are what the components above use of it, the order of the keys being of
  no interest there.
\<close>

abbreviation index_set :: "('k, 'e) avl_tree \<Rightarrow> ('k \<times> 'e) set" where
  "index_set T \<equiv> set (avl_entries T)"

definition index_ok :: "('k \<Rightarrow> 'k \<Rightarrow> int) \<Rightarrow> ('k, 'e) avl_tree \<Rightarrow> bool" where
  "index_ok c T \<longleftrightarrow> avl_ok T \<and> tr_comp T = c \<and> (\<forall>k e e'. (k, e) \<in> index_set T \<longrightarrow> (k, e') \<in> index_set T
     \<longrightarrow> e = e')"

lemma elements_entries: "avl_elements T = map snd (avl_entries T)"
  by (simp add: avl_elements_def avl_entries_def)

lemma in_elements: "e \<in> set (avl_elements T) \<longleftrightarrow> (\<exists>k. (k, e) \<in> index_set T)"
  by (force simp: elements_entries)

lemma index_count: "index_ok c T \<Longrightarrow> tr_count T = 0 \<longleftrightarrow> index_set T = {}"
  using avl_is_empty_iff [of T] by (simp add: index_ok_def avl_is_empty_def)

locale key_index = strict_comparator c for c :: "'k \<Rightarrow> 'k \<Rightarrow> int"
begin

lemma init [simp]: "index_ok c (avl_init c d)"
  by (simp add: index_ok_def avl_init_ok comparator_axioms)

lemma key_fun: "index_ok c T \<Longrightarrow> (k, e) \<in> index_set T \<Longrightarrow> (k, e') \<in> index_set T \<Longrightarrow> e = e'"
  by (auto simp: index_ok_def)

lemma obj_fun: "index_ok c T \<Longrightarrow> (k, e) \<in> index_set T \<Longrightarrow> (k', e) \<in> index_set T \<Longrightarrow> k = k'"
  using avl.ok_distinct [of T] unfolding index_ok_def distinct_map inj_on_def by (metis prod.inject snd_conv)

lemma find_None: "index_ok c T \<Longrightarrow> avl_find T k = None \<longleftrightarrow> (\<forall>e. (k, e) \<notin> index_set T)"
  using avl.look_None [of T k] by (fastforce simp: index_ok_def)

lemma find_iff: "index_ok c T \<Longrightarrow> avl_find T k = Some e \<longleftrightarrow> (k, e) \<in> index_set T"
proof
  assume ok: "index_ok c T"
  show 1: "avl_find T k = Some e \<Longrightarrow> (k, e) \<in> index_set T" for e
    using avl.look_Some [of T k e] ok by (auto simp: index_ok_def)
  assume m: "(k, e) \<in> index_set T"
  then obtain e' where "avl_find T k = Some e'" using find_None [OF ok, of k] by auto
  then show "avl_find T k = Some e" using 1 key_fun [OF ok m] by blast
qed

lemma distinct_elements: "index_ok c T \<Longrightarrow> distinct (avl_elements T)"
  using avl.ok_distinct [of T] by (simp add: index_ok_def elements_entries)

lemma insert_new:
  assumes "index_ok c T" "avl_find T k = None" "e \<notin> set (avl_elements T)"
  shows "fst (avl_insert T k e) = 0" "index_ok c (snd (avl_insert T k e))"
    "index_set (snd (avl_insert T k e)) = insert (k, e) (index_set T)"
  using avl.ins_new [of T k e] assms find_None [OF assms(1), of k]
  by (auto simp: index_ok_def avl_ids)

lemma insert_old:
  assumes "index_ok c T" "avl_find T k \<noteq> None" "e \<notin> set (avl_elements T)" "\<not> tr_allow_dups T"
  shows "avl_insert T k e = (- 1, T)"
  using avl.ins_refused [of T e k] assms by (simp add: index_ok_def avl_ids)

lemma remove_old:
  assumes "index_ok c T" "e \<in> set (avl_elements T)"
  shows "index_ok c (avl_remove T e)" "index_set (avl_remove T e) = {x \<in> index_set T. snd x \<noteq> e}"
  using avl.del_old [of T e] assms by (auto simp: index_ok_def avl_ids)

end

interpretation addr_index: key_index avl_comp_netaddr
  by unfold_locales

end
