(* ===== verification/Olsrv2_Tc.thy ===== *)
theory Olsrv2_Tc
  imports Index Rfc5444_Conversion "HOL-Library.Monad_Syntax"
begin

text \<open>
  The topology database of OLSRv2 (\<open>src-plugins/olsrv2/olsrv2/olsrv2_tc.c\<close>, \<open>olsrv2_tc.h\<close>): the nodes
  of the network, the edges between them, which always come in pairs of an edge and its inverse, and
  the addresses and networks that are attached to the nodes. The objects live in stores from
  addresses to records, one per memory class; following a pointer to an object that is not in its
  store is the result \<open>None\<close>. Times are the armed interval of a timer, \<open>None\<close> for a timer that is not
  active. The events for the listeners of a class are recorded in the order they are fired.
\<close>

subsection \<open>Route keys\<close>

record route_key =
  rk_dst :: netaddr
  rk_src :: netaddr

text \<open>\<open>memcmp\<close> over the two addresses, which have a fixed size.\<close>

definition avl_cmp_route_key :: "route_key \<Rightarrow> route_key \<Rightarrow> int" where
  "avl_cmp_route_key ss1 ss2 =
     (let d = memcmp (netaddr_bytes (rk_dst ss1)) (netaddr_bytes (rk_dst ss2))
      in if d \<noteq> 0 then d else memcmp (netaddr_bytes (rk_src ss1)) (netaddr_bytes (rk_src ss2)))"

text \<open>The address that is filled with the wildcard of the family of the other one.\<close>

definition half_route_key :: "netaddr \<Rightarrow> netaddr" where
  "half_route_key source =
     (if na_type source = AF_INET then NETADDR_IPV4_ANY
      else if na_type source = AF_INET6 then NETADDR_IPV6_ANY
      else netaddr_invalidate)"

definition init_sourcespec_prefix :: "netaddr \<Rightarrow> route_key" where
  "init_sourcespec_prefix destination = \<lparr>rk_dst = destination, rk_src = half_route_key destination\<rparr>"

definition init_sourcespec_src_prefix :: "netaddr \<Rightarrow> route_key" where
  "init_sourcespec_src_prefix source = \<lparr>rk_dst = half_route_key source, rk_src = source\<rparr>"

subsection \<open>Objects\<close>

definition NHDP_MAXIMUM_DOMAINS :: nat where "NHDP_MAXIMUM_DOMAINS = 4"

datatype class_event = OBJECT_ADDED | OBJECT_REMOVED | OBJECT_CHANGED

datatype tc_object = Tc_Node ptr | Tc_Edge ptr | Tc_Attached ptr | Tc_Endpoint ptr

datatype target_type = OLSRV2_NODE_TARGET | OLSRV2_ADDRESS_TARGET | OLSRV2_NETWORK_TARGET

record tc_node =
  tn_prefix :: route_key
  tn_ansn :: u16
  tn_interval_time :: u64
  tn_source_specific :: bool
  tn_ss_attached_networks :: "nat \<Rightarrow> bool"
  tn_validity_time :: "u64 option"
  tn_edges :: "(netaddr, ptr) avl_tree"
  tn_attached_networks :: "(route_key, ptr) avl_tree"

record tc_edge =
  te_src :: ptr
  te_dst :: ptr
  te_inverse :: ptr
  te_cost :: "nat \<Rightarrow> u32"
  te_ansn :: u16
  te_virtual :: bool

record tc_attachment =
  ta_src :: ptr
  ta_dst :: ptr
  ta_cost :: "nat \<Rightarrow> u32"
  ta_distance :: "nat \<Rightarrow> u8"
  ta_ansn :: u16

record tc_endpoint =
  tp_prefix :: route_key
  tp_type :: target_type
  tp_attached_networks :: "(route_key, ptr) avl_tree"

record tc_db =
  tc_tree :: "(netaddr, ptr) avl_tree"
  tc_endpoint_tree :: "(route_key, ptr) avl_tree"
  tc_nodes :: "ptr \<Rightarrow> tc_node option"
  tc_edges :: "ptr \<Rightarrow> tc_edge option"
  tc_attachments :: "ptr \<Rightarrow> tc_attachment option"
  tc_endpoints :: "ptr \<Rightarrow> tc_endpoint option"
  tc_events :: "(class_event \<times> tc_object) list"

definition tc_init :: tc_db where
  "tc_init =
     \<lparr>tc_tree = avl_init avl_comp_netaddr False, tc_endpoint_tree = avl_init avl_cmp_route_key True,
      tc_nodes = (\<lambda>_. None), tc_edges = (\<lambda>_. None), tc_attachments = (\<lambda>_. None), tc_endpoints = (\<lambda>_. None),
      tc_events = []\<rparr>"

definition class_event :: "class_event \<Rightarrow> tc_object \<Rightarrow> tc_db \<Rightarrow> tc_db" where
  "class_event ev x db = db\<lparr>tc_events := tc_events db @ [(ev, x)]\<rparr>"

definition upd_node :: "ptr \<Rightarrow> (tc_node \<Rightarrow> tc_node) \<Rightarrow> tc_db \<Rightarrow> tc_db option" where
  "upd_node p f db = do {
     n \<leftarrow> tc_nodes db p;
     Some (db\<lparr>tc_nodes := (tc_nodes db)(p \<mapsto> f n)\<rparr>)
   }"

definition upd_edge :: "ptr \<Rightarrow> (tc_edge \<Rightarrow> tc_edge) \<Rightarrow> tc_db \<Rightarrow> tc_db option" where
  "upd_edge p f db = do {
     n \<leftarrow> tc_edges db p;
     Some (db\<lparr>tc_edges := (tc_edges db)(p \<mapsto> f n)\<rparr>)
   }"

definition upd_endpoint :: "ptr \<Rightarrow> (tc_endpoint \<Rightarrow> tc_endpoint) \<Rightarrow> tc_db \<Rightarrow> tc_db option" where
  "upd_endpoint p f db = do {
     n \<leftarrow> tc_endpoints db p;
     Some (db\<lparr>tc_endpoints := (tc_endpoints db)(p \<mapsto> f n)\<rparr>)
   }"

definition timer_interval :: "u64 \<Rightarrow> u64 option" where
  "timer_interval vtime = (if vtime = 0 then None else Some vtime)"

definition tc_node_get :: "tc_db \<Rightarrow> netaddr \<Rightarrow> ptr option" where
  "tc_node_get db originator = avl_find (tc_tree db) originator"

definition tc_endpoint_get :: "tc_db \<Rightarrow> route_key \<Rightarrow> ptr option" where
  "tc_endpoint_get db prefix = avl_find (tc_endpoint_tree db) prefix"

definition tc_is_node_virtual :: "tc_node \<Rightarrow> bool" where
  "tc_is_node_virtual n = (tn_validity_time n = None)"

subsection \<open>Adding\<close>

definition new_node :: "netaddr \<Rightarrow> u16 \<Rightarrow> tc_node" where
  "new_node originator ansn =
     \<lparr>tn_prefix = init_sourcespec_prefix originator, tn_ansn = ansn, tn_interval_time = 0,
      tn_source_specific = False, tn_ss_attached_networks = (\<lambda>_. False), tn_validity_time = None,
      tn_edges = avl_init avl_comp_netaddr False, tn_attached_networks = avl_init avl_cmp_route_key False\<rparr>"

text \<open>The parameter \<open>alloc\<close> is the address of the new object, \<open>None\<close> when there is no memory.\<close>

definition tc_node_add :: "ptr option \<Rightarrow> netaddr \<Rightarrow> u64 \<Rightarrow> u16 \<Rightarrow> tc_db \<Rightarrow> (ptr option \<times> tc_db) option" where
  "tc_node_add alloc originator vtime ansn db =
     (case tc_node_get db originator of
        None \<Rightarrow>
          (case alloc of
             None \<Rightarrow> Some (None, db)
           | Some p \<Rightarrow> do {
               let n = new_node originator ansn;
               let db = db\<lparr>tc_nodes := (tc_nodes db)(p \<mapsto> n),
                           tc_tree := snd (avl_insert (tc_tree db) (rk_dst (tn_prefix n)) p)\<rparr>;
               let db = class_event OBJECT_ADDED (Tc_Node p) db;
               db \<leftarrow> upd_node p (\<lambda>n. n\<lparr>tn_validity_time := timer_interval vtime\<rparr>) db;
               Some (Some p, db)
             })
      | Some p \<Rightarrow> do {
          n \<leftarrow> tc_nodes db p;
          db \<leftarrow> (if tc_is_node_virtual n
                then do {
                  db \<leftarrow> upd_node p (\<lambda>n. n\<lparr>tn_ansn := ansn\<rparr>) db;
                  Some (class_event OBJECT_ADDED (Tc_Node p) db)
                }
                else Some db);
          db \<leftarrow> upd_node p (\<lambda>n. n\<lparr>tn_validity_time := timer_interval vtime\<rparr>) db;
          Some (Some p, db)
        })"

definition no_cost :: "nat \<Rightarrow> u32" where
  "no_cost i = RFC7181_METRIC_INFINITE"

definition hook_edge :: "ptr \<Rightarrow> ptr \<Rightarrow> ptr \<Rightarrow> tc_db \<Rightarrow> tc_db option" where
  "hook_edge src dst e db = do {
     d \<leftarrow> tc_nodes db dst;
     upd_node src (\<lambda>n. n\<lparr>tn_edges := snd (avl_insert (tn_edges n) (rk_dst (tn_prefix d)) e)\<rparr>) db
   }"

definition tc_edge_link :: "ptr \<Rightarrow> ptr \<Rightarrow> ptr \<Rightarrow> ptr \<Rightarrow> tc_db \<Rightarrow> (ptr option \<times> tc_db) option" where
  "tc_edge_link src dst e i db = do {
     let db = db\<lparr>tc_edges := (tc_edges db)(e \<mapsto>
       \<lparr>te_src = src, te_dst = dst, te_inverse = i, te_cost = no_cost, te_ansn = 0, te_virtual = False\<rparr>)\<rparr>;
     db \<leftarrow> hook_edge src dst e db;
     let db = db\<lparr>tc_edges := (tc_edges db)(i \<mapsto>
       \<lparr>te_src = dst, te_dst = src, te_inverse = e, te_cost = no_cost, te_ansn = 0, te_virtual = True\<rparr>)\<rparr>;
     db \<leftarrow> hook_edge dst src i db;
     Some (Some e, class_event OBJECT_ADDED (Tc_Edge e) db)
   }"

definition tc_edge_dst :: "ptr option \<Rightarrow> netaddr \<Rightarrow> tc_db \<Rightarrow> (ptr option \<times> tc_db) option" where
  "tc_edge_dst alloc addr db =
     (case avl_find (tc_tree db) addr of
        Some d \<Rightarrow> Some (Some d, db)
      | None \<Rightarrow> tc_node_add alloc addr 0 0 db)"

definition tc_edge_new ::
  "ptr option \<Rightarrow> ptr option \<Rightarrow> ptr option \<Rightarrow> ptr \<Rightarrow> netaddr \<Rightarrow> tc_db \<Rightarrow> (ptr option \<times> tc_db) option" where
  "tc_edge_new a_edge a_inverse a_node src addr db =
     (case a_edge of
        None \<Rightarrow> Some (None, db)
      | Some e \<Rightarrow>
          (case a_inverse of
             None \<Rightarrow> Some (None, db)
           | Some i \<Rightarrow> do {
               (dst, db) \<leftarrow> tc_edge_dst a_node addr db;
               case dst of None \<Rightarrow> Some (None, db) | Some d \<Rightarrow> tc_edge_link src d e i db
             }))"

definition tc_edge_add ::
  "ptr option \<Rightarrow> ptr option \<Rightarrow> ptr option \<Rightarrow> ptr \<Rightarrow> netaddr \<Rightarrow> tc_db \<Rightarrow> (ptr option \<times> tc_db) option" where
  "tc_edge_add a_edge a_inverse a_node src addr db = do {
     s \<leftarrow> tc_nodes db src;
     (case avl_find (tn_edges s) addr of
        Some e \<Rightarrow> do {
          db \<leftarrow> upd_edge e (\<lambda>x. x\<lparr>te_virtual := False, te_cost := no_cost\<rparr>) db;
          Some (Some e, class_event OBJECT_ADDED (Tc_Edge e) db)
        }
      | None \<Rightarrow> tc_edge_new a_edge a_inverse a_node src addr db)
   }"

definition new_endpoint :: "ptr \<Rightarrow> route_key \<Rightarrow> bool \<Rightarrow> tc_db \<Rightarrow> tc_db" where
  "new_endpoint p prefix mesh db =
     class_event OBJECT_ADDED (Tc_Endpoint p)
       (db\<lparr>tc_endpoints := (tc_endpoints db)(p \<mapsto>
             \<lparr>tp_prefix = prefix, tp_type = (if mesh then OLSRV2_ADDRESS_TARGET else OLSRV2_NETWORK_TARGET),
              tp_attached_networks = avl_init avl_cmp_route_key False\<rparr>),
           tc_endpoint_tree := snd (avl_insert (tc_endpoint_tree db) prefix p)\<rparr>)"

definition attach_endpoint :: "ptr \<Rightarrow> ptr \<Rightarrow> ptr \<Rightarrow> tc_db \<Rightarrow> tc_db option" where
  "attach_endpoint node net p db = do {
     let db = db\<lparr>tc_attachments := (tc_attachments db)(net \<mapsto>
       \<lparr>ta_src = node, ta_dst = p, ta_cost = no_cost, ta_distance = (\<lambda>_. 0), ta_ansn = 0\<rparr>)\<rparr>;
     n \<leftarrow> tc_nodes db node;
     x \<leftarrow> tc_endpoints db p;
     db \<leftarrow> upd_node node (\<lambda>n. n\<lparr>tn_attached_networks :=
            snd (avl_insert (tn_attached_networks n) (tp_prefix x) net)\<rparr>) db;
     db \<leftarrow> upd_endpoint p (\<lambda>x. x\<lparr>tp_attached_networks :=
            snd (avl_insert (tp_attached_networks x) (tn_prefix n) net)\<rparr>) db;
     Some (class_event OBJECT_ADDED (Tc_Attached net) db)
   }"

definition tc_endpoint_add ::
  "ptr option \<Rightarrow> ptr option \<Rightarrow> ptr \<Rightarrow> route_key \<Rightarrow> bool \<Rightarrow> tc_db \<Rightarrow> (ptr option \<times> tc_db) option" where
  "tc_endpoint_add a_net a_end node prefix mesh db = do {
     n \<leftarrow> tc_nodes db node;
     (case avl_find (tn_attached_networks n) prefix of
        Some net \<Rightarrow> Some (Some net, db)
      | None \<Rightarrow>
          (case a_net of
             None \<Rightarrow> Some (None, db)
           | Some net \<Rightarrow>
               (case tc_endpoint_get db prefix of
                  Some p \<Rightarrow> do { db \<leftarrow> attach_endpoint node net p db; Some (Some net, db) }
                | None \<Rightarrow>
                    (case a_end of
                       None \<Rightarrow> Some (None, db)
                     | Some p \<Rightarrow> do {
                         db \<leftarrow> attach_endpoint node net p (new_endpoint p prefix mesh db);
                         Some (Some net, db)
                       }))))
   }"

subsection \<open>Removing\<close>

definition tc_endpoint_remove :: "ptr \<Rightarrow> tc_db \<Rightarrow> tc_db option" where
  "tc_endpoint_remove net db = do {
     let db = class_event OBJECT_REMOVED (Tc_Attached net) db;
     a \<leftarrow> tc_attachments db net;
     db \<leftarrow> upd_node (ta_src a) (\<lambda>n. n\<lparr>tn_attached_networks := avl_remove (tn_attached_networks n) net\<rparr>) db;
     db \<leftarrow> upd_endpoint (ta_dst a) (\<lambda>x. x\<lparr>tp_attached_networks := avl_remove (tp_attached_networks x) net\<rparr>) db;
     x \<leftarrow> tc_endpoints db (ta_dst a);
     let db = (if tr_count (tp_attached_networks x) = 0
               then let db = class_event OBJECT_REMOVED (Tc_Endpoint (ta_dst a)) db
                    in db\<lparr>tc_endpoint_tree := avl_remove (tc_endpoint_tree db) (ta_dst a),
                          tc_endpoints := (tc_endpoints db)(ta_dst a := None)\<rparr>
               else db);
     Some (db\<lparr>tc_attachments := (tc_attachments db)(net := None)\<rparr>)
   }"

fun remove_endpoints :: "ptr list \<Rightarrow> tc_db \<Rightarrow> tc_db option" where
  "remove_endpoints [] db = Some db"
| "remove_endpoints (a # as) db = tc_endpoint_remove a db \<bind> remove_endpoints as"

text \<open>
  \<open>_remove_edge\<close>; \<open>rm\<close> is the removal of a node, which the code reaches again when the destination
  of the edge was only there because of this edge.
\<close>

definition drop_destination ::
  "(ptr \<Rightarrow> tc_db \<Rightarrow> tc_db option) \<Rightarrow> ptr \<Rightarrow> tc_node \<Rightarrow> bool \<Rightarrow> tc_db \<Rightarrow> (bool \<times> tc_db) option" where
  "drop_destination rm p d cleanup db =
     (if tr_count (tn_edges d) = 0 \<and> cleanup \<and> tc_is_node_virtual d
      then do { db \<leftarrow> rm p db; Some (True, db) }
      else Some (False, db))"

definition free_edge :: "ptr \<Rightarrow> tc_db \<Rightarrow> tc_db option" where
  "free_edge e db = do { _ \<leftarrow> tc_edges db e; Some (db\<lparr>tc_edges := (tc_edges db)(e := None)\<rparr>) }"

definition unhook_edge :: "(ptr \<Rightarrow> tc_db \<Rightarrow> tc_db option) \<Rightarrow> ptr \<Rightarrow> tc_edge \<Rightarrow> bool \<Rightarrow> tc_db \<Rightarrow> (bool \<times> tc_db) option" where
  "unhook_edge rm e x cleanup db = do {
     db \<leftarrow> upd_node (te_src x) (\<lambda>n. n\<lparr>tn_edges := avl_remove (tn_edges n) e\<rparr>) db;
     db \<leftarrow> upd_node (te_dst x) (\<lambda>n. n\<lparr>tn_edges := avl_remove (tn_edges n) (te_inverse x)\<rparr>) db;
     d \<leftarrow> tc_nodes db (te_dst x);
     (removed, db) \<leftarrow> drop_destination rm (te_dst x) d cleanup db;
     db \<leftarrow> free_edge (te_inverse x) db;
     db \<leftarrow> free_edge e db;
     Some (removed, db)
   }"

definition remove_edge :: "(ptr \<Rightarrow> tc_db \<Rightarrow> tc_db option) \<Rightarrow> ptr \<Rightarrow> bool \<Rightarrow> tc_db \<Rightarrow> (bool \<times> tc_db) option" where
  "remove_edge rm e cleanup db = do {
     x \<leftarrow> tc_edges db e;
     if te_virtual x then Some (False, db)
     else do {
       let db = class_event OBJECT_REMOVED (Tc_Edge e) db;
       i \<leftarrow> tc_edges db (te_inverse x);
       if \<not> te_virtual i
       then do {
         db \<leftarrow> upd_edge e (\<lambda>x. x\<lparr>te_virtual := True\<rparr>) db;
         Some (False, db)
       }
       else unhook_edge rm e x cleanup db
     }
   }"

fun remove_edges :: "(ptr \<Rightarrow> tc_db \<Rightarrow> tc_db option) \<Rightarrow> bool \<Rightarrow> ptr list \<Rightarrow> tc_db \<Rightarrow> tc_db option" where
  "remove_edges rm cleanup [] db = Some db"
| "remove_edges rm cleanup (e # es) db = do {
     (_, db) \<leftarrow> remove_edge rm e cleanup db;
     remove_edges rm cleanup es db
   }"

text \<open>
  The end of \<open>olsrv2_tc_node_remove\<close>: the attached networks and the timer go, and the node itself when
  no edge needs it any more.
\<close>

definition release_node :: "ptr \<Rightarrow> tc_db \<Rightarrow> tc_db option" where
  "release_node p db = do {
     n \<leftarrow> tc_nodes db p;
     db \<leftarrow> remove_endpoints (avl_elements (tn_attached_networks n)) db;
     db \<leftarrow> upd_node p (\<lambda>n. n\<lparr>tn_validity_time := None\<rparr>) db;
     n \<leftarrow> tc_nodes db p;
     Some (if tr_count (tn_edges n) = 0
           then db\<lparr>tc_tree := avl_remove (tc_tree db) p, tc_nodes := (tc_nodes db)(p := None)\<rparr>
           else db)
   }"

text \<open>
  \<open>olsrv2_tc_node_remove\<close>. The first argument bounds the depth of the recursion through the removal
  of edges; a node that is removed because of an edge has no edges itself, so that two levels are
  always enough (theorem \<open>tc_operation_consistent\<close>).
\<close>

primrec tc_node_remove_at :: "nat \<Rightarrow> ptr \<Rightarrow> tc_db \<Rightarrow> tc_db option" where
  "tc_node_remove_at 0 p db = None"
| "tc_node_remove_at (Suc depth) p db = do {
     let db = class_event OBJECT_REMOVED (Tc_Node p) db;
     n \<leftarrow> tc_nodes db p;
     db \<leftarrow> remove_edges (tc_node_remove_at depth) True (avl_elements (tn_edges n)) db;
     release_node p db
   }"

definition tc_node_remove :: "ptr \<Rightarrow> tc_db \<Rightarrow> tc_db option" where
  "tc_node_remove = tc_node_remove_at 2"

definition tc_edge_remove :: "ptr \<Rightarrow> tc_db \<Rightarrow> (bool \<times> tc_db) option" where
  "tc_edge_remove e = remove_edge (tc_node_remove_at 1) e True"

text \<open>\<open>_cb_tc_node_timeout\<close>, without the trigger for a new routing calculation.\<close>

definition cb_tc_node_timeout :: "ptr \<Rightarrow> tc_db \<Rightarrow> tc_db option" where
  "cb_tc_node_timeout p db = do {
     db \<leftarrow> upd_node p (\<lambda>n. n\<lparr>tn_validity_time := None\<rparr>) db;
     tc_node_remove p db
   }"

definition tc_trigger_change :: "ptr \<Rightarrow> tc_db \<Rightarrow> tc_db" where
  "tc_trigger_change p db = class_event OBJECT_CHANGED (Tc_Node p) db"

fun cleanup_nodes :: "ptr list \<Rightarrow> tc_db \<Rightarrow> tc_db option" where
  "cleanup_nodes [] db = Some db"
| "cleanup_nodes (p # ps) db = do {
     n \<leftarrow> tc_nodes db p;
     db \<leftarrow> remove_edges (tc_node_remove_at 1) False (avl_elements (tn_edges n)) db;
     n \<leftarrow> tc_nodes db p;
     db \<leftarrow> remove_endpoints (avl_elements (tn_attached_networks n)) db;
     cleanup_nodes ps db
   }"

fun remove_nodes :: "ptr list \<Rightarrow> tc_db \<Rightarrow> tc_db option" where
  "remove_nodes [] db = Some db"
| "remove_nodes (p # ps) db = tc_node_remove p db \<bind> remove_nodes ps"

definition tc_cleanup :: "tc_db \<Rightarrow> tc_db option" where
  "tc_cleanup db = do {
     db \<leftarrow> cleanup_nodes (avl_elements (tc_tree db)) db;
     remove_nodes (avl_elements (tc_tree db)) db
   }"

subsection \<open>Consistency\<close>

lemma route_key_le:
  "avl_cmp_route_key a b \<le> 0 \<longleftrightarrow> memcmp (netaddr_bytes (rk_dst a)) (netaddr_bytes (rk_dst b)) < 0
     \<or> rk_dst a = rk_dst b \<and> memcmp (netaddr_bytes (rk_src a)) (netaddr_bytes (rk_src b)) \<le> 0"
  by (cases "rk_dst a = rk_dst b") (simp_all add: avl_cmp_route_key_def Let_def less_le)

interpretation avl_cmp_route_key: strict_comparator avl_cmp_route_key
proof
  fix a b c :: route_key
  show "avl_cmp_route_key a b < 0 \<longleftrightarrow> 0 < avl_cmp_route_key b a"
    by (auto simp: avl_cmp_route_key_def Let_def memcmp.cmp_neg)
  show "avl_cmp_route_key a b = 0 \<Longrightarrow> a = b"
    by (cases a; cases b) (auto simp: avl_cmp_route_key_def Let_def split: if_splits)
  assume "avl_cmp_route_key a b \<le> 0" "avl_cmp_route_key b c \<le> 0"
  then show "avl_cmp_route_key a c \<le> 0"
    unfolding route_key_le
    using memcmp.cmp_less_trans [of "netaddr_bytes (rk_dst a)" "netaddr_bytes (rk_dst b)" "netaddr_bytes (rk_dst c)"]
      memcmp.cmp_trans [of "netaddr_bytes (rk_src a)" "netaddr_bytes (rk_src b)" "netaddr_bytes (rk_src c)"]
    by auto
qed

interpretation route_index: key_index avl_cmp_route_key
  by unfold_locales

text \<open>
  The trees of the database hold exactly what the back pointers of the objects say. \<open>X\<close> is the set
  of edges that are unhooked already but not yet freed.
\<close>

definition node_prefix :: "(ptr \<Rightarrow> tc_node option) \<Rightarrow> ptr \<Rightarrow> route_key" where
  "node_prefix ns p = tn_prefix (the (ns p))"

definition end_prefix :: "(ptr \<Rightarrow> tc_endpoint option) \<Rightarrow> ptr \<Rightarrow> route_key" where
  "end_prefix ps p = tp_prefix (the (ps p))"

definition nodes_of :: "(ptr \<Rightarrow> tc_node option) \<Rightarrow> (netaddr \<times> ptr) set" where
  "nodes_of ns = {(k, p). case ns p of None \<Rightarrow> False | Some n \<Rightarrow> k = rk_dst (tn_prefix n)}"

definition endpoints_of :: "(ptr \<Rightarrow> tc_endpoint option) \<Rightarrow> (route_key \<times> ptr) set" where
  "endpoints_of ps = {(k, p). case ps p of None \<Rightarrow> False | Some x \<Rightarrow> k = tp_prefix x}"

definition edges_of :: "(ptr \<Rightarrow> tc_node option) \<Rightarrow> (ptr \<Rightarrow> tc_edge option) \<Rightarrow> ptr set \<Rightarrow> ptr \<Rightarrow> (netaddr \<times> ptr) set" where
  "edges_of ns es X p =
     {(k, e). case es e of None \<Rightarrow> False
              | Some x \<Rightarrow> e \<notin> X \<and> te_src x = p \<and> k = rk_dst (node_prefix ns (te_dst x))}"

definition attached_of ::
  "(ptr \<Rightarrow> tc_endpoint option) \<Rightarrow> (ptr \<Rightarrow> tc_attachment option) \<Rightarrow> ptr \<Rightarrow> (route_key \<times> ptr) set" where
  "attached_of ps as p =
     {(k, q). case as q of None \<Rightarrow> False | Some a \<Rightarrow> ta_src a = p \<and> k = end_prefix ps (ta_dst a)}"

definition attaching_of ::
  "(ptr \<Rightarrow> tc_node option) \<Rightarrow> (ptr \<Rightarrow> tc_attachment option) \<Rightarrow> ptr \<Rightarrow> (route_key \<times> ptr) set" where
  "attaching_of ns as p =
     {(k, q). case as q of None \<Rightarrow> False | Some a \<Rightarrow> ta_dst a = p \<and> k = node_prefix ns (ta_src a)}"

definition edge_inv :: "(ptr \<Rightarrow> tc_node option) \<Rightarrow> (ptr \<Rightarrow> tc_edge option) \<Rightarrow> ptr set \<Rightarrow> ptr \<Rightarrow> tc_edge \<Rightarrow> bool" where
  "edge_inv ns es X e x \<longleftrightarrow> ns (te_src x) \<noteq> None \<and> ns (te_dst x) \<noteq> None \<and> te_src x \<noteq> te_dst x
     \<and> te_inverse x \<notin> X
     \<and> (\<exists>y. es (te_inverse x) = Some y \<and> te_inverse y = e \<and> te_src y = te_dst x \<and> te_dst y = te_src x
          \<and> \<not> (te_virtual x \<and> te_virtual y))"

definition nodes_inv :: "(netaddr, ptr) avl_tree \<Rightarrow> (ptr \<Rightarrow> tc_node option) \<Rightarrow> (ptr \<Rightarrow> tc_edge option) \<Rightarrow> ptr set \<Rightarrow> bool" where
  "nodes_inv T ns es X \<longleftrightarrow> index_ok avl_comp_netaddr T
     \<and> index_set T = nodes_of ns
     \<and> (\<forall>p n. ns p = Some n \<longrightarrow> index_ok avl_comp_netaddr (tn_edges n) \<and> index_set (tn_edges n) = edges_of ns es X p
          \<and> \<not> tr_allow_dups (tn_edges n))
     \<and> (\<forall>e x. es e = Some x \<longrightarrow> e \<notin> X \<longrightarrow> edge_inv ns es X e x)"

definition endpoints_inv :: "(route_key, ptr) avl_tree \<Rightarrow> (ptr \<Rightarrow> tc_node option) \<Rightarrow> (ptr \<Rightarrow> tc_endpoint option)
    \<Rightarrow> (ptr \<Rightarrow> tc_attachment option) \<Rightarrow> bool" where
  "endpoints_inv T ns ps as \<longleftrightarrow> index_ok avl_cmp_route_key T
     \<and> index_set T = endpoints_of ps
     \<and> (\<forall>p n. ns p = Some n \<longrightarrow> index_ok avl_cmp_route_key (tn_attached_networks n)
          \<and> index_set (tn_attached_networks n) = attached_of ps as p)
     \<and> (\<forall>p x. ps p = Some x \<longrightarrow> index_ok avl_cmp_route_key (tp_attached_networks x)
          \<and> index_set (tp_attached_networks x) = attaching_of ns as p)
     \<and> (\<forall>q a. as q = Some a \<longrightarrow> ns (ta_src a) \<noteq> None \<and> ps (ta_dst a) \<noteq> None)"

text \<open>Every endpoint is attached somewhere.\<close>

definition endpoints_used :: "(ptr \<Rightarrow> tc_endpoint option) \<Rightarrow> (ptr \<Rightarrow> tc_attachment option) \<Rightarrow> bool" where
  "endpoints_used ps as \<longleftrightarrow> (\<forall>p. ps p \<noteq> None \<longrightarrow> (\<exists>q a. as q = Some a \<and> ta_dst a = p))"

definition tc_inv :: "ptr set \<Rightarrow> tc_db \<Rightarrow> bool" where
  "tc_inv X db \<longleftrightarrow> nodes_inv (tc_tree db) (tc_nodes db) (tc_edges db) X
     \<and> endpoints_inv (tc_endpoint_tree db) (tc_nodes db) (tc_endpoints db) (tc_attachments db)
     \<and> endpoints_used (tc_endpoints db) (tc_attachments db)"

abbreviation tc_ok :: "tc_db \<Rightarrow> bool" where
  "tc_ok \<equiv> tc_inv {}"

lemma class_event_simps [simp]:
  "tc_tree (class_event v x db) = tc_tree db" "tc_endpoint_tree (class_event v x db) = tc_endpoint_tree db"
  "tc_nodes (class_event v x db) = tc_nodes db" "tc_edges (class_event v x db) = tc_edges db"
  "tc_attachments (class_event v x db) = tc_attachments db" "tc_endpoints (class_event v x db) = tc_endpoints db"
  by (simp_all add: class_event_def)

lemma tc_inv_event [simp]: "tc_inv X (class_event v x db) = tc_inv X db"
  by (simp add: tc_inv_def)

lemma tc_init_ok: "tc_ok tc_init"
  by (auto simp: tc_inv_def tc_init_def nodes_inv_def endpoints_inv_def endpoints_used_def nodes_of_def endpoints_of_def)

text \<open>The indexed sets under changes of the stores.\<close>

lemma node_prefix_upd: "ns p = Some n \<Longrightarrow> tn_prefix n' = tn_prefix n \<Longrightarrow> node_prefix (ns(p \<mapsto> n')) = node_prefix ns"
  by (auto simp: node_prefix_def fun_eq_iff)

lemma nodes_of_node: "ns p = Some n \<Longrightarrow> tn_prefix n' = tn_prefix n \<Longrightarrow> nodes_of (ns(p \<mapsto> n')) = nodes_of ns"
  by (auto simp: nodes_of_def split: if_splits)

lemma edges_of_node: "ns p = Some n \<Longrightarrow> tn_prefix n' = tn_prefix n \<Longrightarrow> edges_of (ns(p \<mapsto> n')) es X q = edges_of ns es X q"
  by (simp add: edges_of_def node_prefix_upd cong: option.case_cong)

lemma attaching_of_node:
  "ns p = Some n \<Longrightarrow> tn_prefix n' = tn_prefix n \<Longrightarrow> attaching_of (ns(p \<mapsto> n')) as q = attaching_of ns as q"
  by (simp add: attaching_of_def node_prefix_upd cong: option.case_cong)

lemma edges_of_new:
  "es e = None \<Longrightarrow> edges_of ns (es(e \<mapsto> x)) X p =
     (if e \<notin> X \<and> te_src x = p then insert (rk_dst (node_prefix ns (te_dst x)), e) (edges_of ns es X p)
      else edges_of ns es X p)"
proof -
  assume e: "es e = None"
  have "(k, q) \<in> edges_of ns (es(e \<mapsto> x)) X p \<longleftrightarrow>
     (q = e \<and> e \<notin> X \<and> te_src x = p \<and> k = rk_dst (node_prefix ns (te_dst x)) \<or> (k, q) \<in> edges_of ns es X p)" for k q
    using e by (cases "q = e") (auto simp: edges_of_def)
  then show ?thesis by auto
qed

lemma edges_of_same:
  "es e = Some x \<Longrightarrow> te_src y = te_src x \<Longrightarrow> te_dst y = te_dst x \<Longrightarrow> edges_of ns (es(e \<mapsto> y)) X p = edges_of ns es X p"
  by (auto simp: edges_of_def split: option.splits if_splits)

lemma edges_of_unhook: "edges_of ns es (insert e X) p = {z \<in> edges_of ns es X p. snd z \<noteq> e}"
  by (auto simp: edges_of_def split: option.splits)

lemma edges_of_free: "edges_of ns (es(e := None)) X p = edges_of ns es (insert e X) p"
  by (auto simp: edges_of_def split: option.splits if_splits)

lemma edge_inv_node: "ns p = Some n \<Longrightarrow> edge_inv (ns(p \<mapsto> n')) es X e x = edge_inv ns es X e x"
  by (auto simp: edge_inv_def)

lemmas node_upd_simps = nodes_of_node edges_of_node attaching_of_node edge_inv_node

lemma tc_inv_node_cong:
  assumes "tc_inv X db" "tc_nodes db p = Some n" "tn_prefix n' = tn_prefix n" "tn_edges n' = tn_edges n"
    "tn_attached_networks n' = tn_attached_networks n"
  shows "tc_inv X (db\<lparr>tc_nodes := (tc_nodes db)(p \<mapsto> n')\<rparr>)"
  using assms by (simp add: tc_inv_def nodes_inv_def endpoints_inv_def node_upd_simps)

lemma nodes_invD:
  assumes "nodes_inv T ns es X"
  shows "index_ok avl_comp_netaddr T" "index_set T = nodes_of ns"
    "ns p = Some n \<Longrightarrow> index_ok avl_comp_netaddr (tn_edges n)"
    "ns p = Some n \<Longrightarrow> index_set (tn_edges n) = edges_of ns es X p"
    "es e = Some x \<Longrightarrow> e \<notin> X \<Longrightarrow> edge_inv ns es X e x"
    "ns p = Some n \<Longrightarrow> \<not> tr_allow_dups (tn_edges n)"
  using assms by (simp_all add: nodes_inv_def)

lemma tree_dups [simp]:
  "tr_allow_dups (snd (avl_insert T k e)) = tr_allow_dups T" "tr_allow_dups (avl_remove T e) = tr_allow_dups T"
  "tr_allow_dups (avl_init c d) = d"
  by (auto simp: avl_insert_def avl_insert_before_def avl_insert_after_def avl_remove_def avl_init_def Let_def
      split: avl.split prod.split option.split)

lemma edge_invD:
  assumes "edge_inv ns es X e x"
  shows "ns (te_src x) \<noteq> None" "ns (te_dst x) \<noteq> None" "te_src x \<noteq> te_dst x" "te_inverse x \<notin> X"
    "\<exists>y. es (te_inverse x) = Some y \<and> te_inverse y = e \<and> te_src y = te_dst x \<and> te_dst y = te_src x
      \<and> \<not> (te_virtual x \<and> te_virtual y)"
  using assms unfolding edge_inv_def by blast+

lemma endpoints_invD:
  assumes "endpoints_inv T ns ps as"
  shows "index_ok avl_cmp_route_key T" "index_set T = endpoints_of ps"
    "ns p = Some n \<Longrightarrow> index_ok avl_cmp_route_key (tn_attached_networks n)"
    "ns p = Some n \<Longrightarrow> index_set (tn_attached_networks n) = attached_of ps as p"
    "ps p = Some x \<Longrightarrow> index_ok avl_cmp_route_key (tp_attached_networks x)"
    "ps p = Some x \<Longrightarrow> index_set (tp_attached_networks x) = attaching_of ns as p"
    "as q = Some a \<Longrightarrow> ns (ta_src a) \<noteq> None" "as q = Some a \<Longrightarrow> ps (ta_dst a) \<noteq> None"
  using assms unfolding endpoints_inv_def by blast+

subsection \<open>Operations on a consistent database\<close>

lemma nodes_of_new: "ns p = None \<Longrightarrow> nodes_of (ns(p \<mapsto> n)) = insert (rk_dst (tn_prefix n), p) (nodes_of ns)"
  by (auto simp: nodes_of_def split: option.splits if_splits)

lemma new_node_edges:
  assumes "nodes_inv T ns es X" "ns p = None"
  shows "edges_of (ns(p \<mapsto> n)) es X q = edges_of ns es X q" "edges_of ns es X p = {}"
proof -
  have "te_dst x \<noteq> p \<and> te_src x \<noteq> p" if "es e = Some x" "e \<notin> X" for e x
    using edge_invD(1,2) [OF nodes_invD(5) [OF assms(1) that]] assms(2) by metis
  then show "edges_of (ns(p \<mapsto> n)) es X q = edges_of ns es X q" "edges_of ns es X p = {}"
    by (auto simp: edges_of_def node_prefix_def split: option.splits)
qed

lemma new_node_attached:
  assumes "endpoints_inv T ns ps as" "ns p = None"
  shows "attaching_of (ns(p \<mapsto> n)) as q = attaching_of ns as q" "attached_of ps as p = {}"
proof -
  have "ta_src a \<noteq> p" if "as q = Some a" for q a
    using endpoints_invD(7) [OF assms(1) that] assms(2) by metis
  then show "attaching_of (ns(p \<mapsto> n)) as q = attaching_of ns as q" "attached_of ps as p = {}"
    by (auto simp: attaching_of_def attached_of_def node_prefix_def split: option.splits)
qed

lemma new_node_nodes_inv:
  assumes inv: "nodes_inv T ns es X" and p: "ns p = None" "avl_find T (rk_dst (tn_prefix n)) = None"
    and n: "tn_edges n = avl_init avl_comp_netaddr False"
  shows "nodes_inv (snd (avl_insert T (rk_dst (tn_prefix n)) p)) (ns(p \<mapsto> n)) es X"
proof -
  note D = nodes_invD [OF inv]
  have "p \<notin> set (avl_elements T)" using p(1) D(2) by (auto simp: in_elements nodes_of_def)
  note i = addr_index.insert_new [OF D(1) p(2) this]
  have "edge_inv (ns(p \<mapsto> n)) es X e x" if "es e = Some x" "e \<notin> X" for e x
    using D(5) [OF that] by (auto simp: edge_inv_def)
  then show ?thesis
    using i n D(2-4,6) p by (auto simp: nodes_inv_def nodes_of_new new_node_edges [OF inv p(1)])
qed

lemma new_node_endpoints_inv:
  assumes inv: "endpoints_inv T ns ps as" and p: "ns p = None"
    and n: "tn_attached_networks n = avl_init avl_cmp_route_key False"
  shows "endpoints_inv T (ns(p \<mapsto> n)) ps as"
proof -
  note D = endpoints_invD [OF inv]
  show ?thesis
    unfolding endpoints_inv_def
    using D n by (auto simp: new_node_attached [OF inv p])
qed

lemma new_node_inv:
  assumes inv: "tc_inv X db" and p: "tc_nodes db p = None" "avl_find (tc_tree db) (rk_dst (tn_prefix n)) = None"
    and n: "tn_edges n = avl_init avl_comp_netaddr False" "tn_attached_networks n = avl_init avl_cmp_route_key False"
  shows "tc_inv X (db\<lparr>tc_nodes := (tc_nodes db)(p \<mapsto> n),
                     tc_tree := snd (avl_insert (tc_tree db) (rk_dst (tn_prefix n)) p)\<rparr>)"
  using inv p n by (simp add: tc_inv_def new_node_nodes_inv new_node_endpoints_inv)

text \<open>Nodes survive an operation: no node is freed and none changes its address or its edges.\<close>

definition nodes_kept :: "tc_db \<Rightarrow> tc_db \<Rightarrow> bool" where
  "nodes_kept db db' \<longleftrightarrow> (\<forall>p n. tc_nodes db p = Some n \<longrightarrow>
     (\<exists>n'. tc_nodes db' p = Some n' \<and> tn_prefix n' = tn_prefix n \<and> tn_edges n' = tn_edges n))"

lemma nodes_keptD: "nodes_kept db db' \<Longrightarrow> tc_nodes db p = Some n \<Longrightarrow>
     \<exists>n'. tc_nodes db' p = Some n' \<and> tn_prefix n' = tn_prefix n \<and> tn_edges n' = tn_edges n"
  by (simp add: nodes_kept_def)

lemma tc_node_add_ok:
  assumes inv: "tc_inv X db" and a: "\<And>p. alloc = Some p \<Longrightarrow> tc_nodes db p = None"
  shows "\<exists>r db'. tc_node_add alloc addr v s db = Some (r, db') \<and> tc_inv X db' \<and> tc_edges db' = tc_edges db
    \<and> nodes_kept db db' \<and> (\<forall>p. r = Some p \<longrightarrow> (\<exists>n. tc_nodes db' p = Some n \<and> rk_dst (tn_prefix n) = addr))"
proof (cases "avl_find (tc_tree db) addr")
  case None
  show ?thesis
  proof (cases alloc)
    case no_mem: None
    then show ?thesis using None inv by (auto simp: tc_node_add_def tc_node_get_def nodes_kept_def)
  next
    case (Some p)
    define n where "n = new_node addr s"
    have n: "rk_dst (tn_prefix n) = addr" "tn_edges n = avl_init avl_comp_netaddr False"
      "tn_attached_networks n = avl_init avl_cmp_route_key False"
      by (simp_all add: n_def new_node_def init_sourcespec_prefix_def)
    define db1 where "db1 = db\<lparr>tc_nodes := (tc_nodes db)(p \<mapsto> n), tc_tree := snd (avl_insert (tc_tree db) addr p)\<rparr>"
    have p: "tc_nodes db p = None" using a Some by simp
    have i1: "tc_inv X db1" using new_node_inv [OF inv p, of n] None n by (simp add: db1_def)
    define db2 where "db2 = class_event OBJECT_ADDED (Tc_Node p) db1"
    have i2: "tc_inv X db2" and p2: "tc_nodes db2 p = Some n"
      using i1 by (simp_all add: db2_def db1_def)
    have "tc_node_add alloc addr v s db = Some (Some p, db2\<lparr>tc_nodes := (tc_nodes db2)(p \<mapsto> n\<lparr>tn_validity_time := timer_interval v\<rparr>)\<rparr>)"
      using None Some p2 n(1) by (simp add: tc_node_add_def tc_node_get_def upd_node_def db2_def db1_def n_def Let_def)
    moreover have "tc_inv X (db2\<lparr>tc_nodes := (tc_nodes db2)(p \<mapsto> n\<lparr>tn_validity_time := timer_interval v\<rparr>)\<rparr>)"
      by (rule tc_inv_node_cong [OF i2 p2]) simp_all
    ultimately show ?thesis using p n(1) by (auto simp: db2_def db1_def nodes_kept_def)
  qed
next
  case (Some p)
  note D = nodes_invD [OF conjunct1 [OF inv [unfolded tc_inv_def]]]
  have "(addr, p) \<in> nodes_of (tc_nodes db)" using Some addr_index.find_iff [OF D(1)] D(2) by simp
  then obtain n where n: "tc_nodes db p = Some n" "rk_dst (tn_prefix n) = addr"
    by (auto simp: nodes_of_def split: option.splits)
  define db1 where "db1 = (if tc_is_node_virtual n then class_event OBJECT_ADDED (Tc_Node p)
     (db\<lparr>tc_nodes := (tc_nodes db)(p \<mapsto> n\<lparr>tn_ansn := s\<rparr>)\<rparr>) else db)"
  have i1: "tc_inv X db1"
    using inv tc_inv_node_cong [OF inv n(1), of "n\<lparr>tn_ansn := s\<rparr>"] by (simp add: db1_def)
  obtain m where m: "tc_nodes db1 p = Some m" "tn_prefix m = tn_prefix n" "tn_edges m = tn_edges n"
    using n(1) by (cases "tc_is_node_virtual n") (auto simp: db1_def)
  have "tc_node_add alloc addr v s db = Some (Some p, db1\<lparr>tc_nodes := (tc_nodes db1)(p \<mapsto> m\<lparr>tn_validity_time := timer_interval v\<rparr>)\<rparr>)"
    using Some n(1) m(1) by (simp add: tc_node_add_def tc_node_get_def upd_node_def db1_def split: if_splits)
  moreover have "tc_inv X (db1\<lparr>tc_nodes := (tc_nodes db1)(p \<mapsto> m\<lparr>tn_validity_time := timer_interval v\<rparr>)\<rparr>)"
    by (rule tc_inv_node_cong [OF i1 m(1)]) simp_all
  moreover have "tc_nodes db1 q = tc_nodes db q" if "q \<noteq> p" for q using that by (simp add: db1_def)
  moreover have "tc_edges db1 = tc_edges db" by (simp add: db1_def)
  ultimately show ?thesis using n m by (auto simp: nodes_kept_def)
qed

lemma hook_edge_step:
  assumes "tc_nodes db src = Some s" "tc_nodes db dst = Some d"
  shows "hook_edge src dst e db =
    Some (db\<lparr>tc_nodes := (tc_nodes db)(src \<mapsto> s\<lparr>tn_edges := snd (avl_insert (tn_edges s) (rk_dst (tn_prefix d)) e)\<rparr>)\<rparr>)"
  using assms by (simp add: hook_edge_def upd_node_def)

lemma edge_inv_fresh:
  assumes "edge_inv ns es X f x" "es e = None" "es i = None"
  shows "edge_inv ns (es(e \<mapsto> a, i \<mapsto> b)) X f x"
  using assms edge_invD(5) [OF assms(1)] by (auto simp: edge_inv_def)

lemma new_edge_pair_inv:
  assumes inv: "nodes_inv T ns es {}" and s: "ns src = Some s" and d: "ns dst = Some d" "src \<noteq> dst"
    and f: "es e = None" "es i = None" "e \<noteq> i"
    and new: "avl_find (tn_edges s) (rk_dst (tn_prefix d)) = None"
  shows "nodes_inv T
     (ns(src \<mapsto> s\<lparr>tn_edges := snd (avl_insert (tn_edges s) (rk_dst (tn_prefix d)) e)\<rparr>,
         dst \<mapsto> d\<lparr>tn_edges := snd (avl_insert (tn_edges d) (rk_dst (tn_prefix s)) i)\<rparr>))
     (es(e \<mapsto> \<lparr>te_src = src, te_dst = dst, te_inverse = i, te_cost = c, te_ansn = 0, te_virtual = False\<rparr>,
         i \<mapsto> \<lparr>te_src = dst, te_dst = src, te_inverse = e, te_cost = c, te_ansn = 0, te_virtual = True\<rparr>)) {}"
    (is "nodes_inv T ?ns ?es {}")
proof -
  note D = nodes_invD [OF inv]
  have np: "node_prefix ?ns = node_prefix ns"
    using s d by (auto simp: node_prefix_def fun_eq_iff)
  have no: "nodes_of ?ns = nodes_of ns"
    using s d by (auto simp: nodes_of_def split: if_splits)
  have E: "edges_of ?ns ?es {} q =
      (if q = src then {(rk_dst (tn_prefix d), e)} else if q = dst then {(rk_dst (tn_prefix s), i)} else {})
        \<union> edges_of ns es {} q" for q
  proof -
    have "edges_of ?ns ?es {} q = edges_of ns ?es {} q" by (simp add: edges_of_def np cong: option.case_cong)
    then show ?thesis using f d s by (auto simp: edges_of_new node_prefix_def)
  qed
  have es: "e \<notin> set (avl_elements (tn_edges s))" "i \<notin> set (avl_elements (tn_edges d))"
    using D(4) [OF s] D(4) [OF d(1)] f by (auto simp: in_elements edges_of_def)
  have new': "avl_find (tn_edges d) (rk_dst (tn_prefix s)) = None"
  proof (rule ccontr)
    assume "avl_find (tn_edges d) (rk_dst (tn_prefix s)) \<noteq> None"
    then obtain g where "(rk_dst (tn_prefix s), g) \<in> edges_of ns es {} dst"
      using addr_index.find_None [OF D(3) [OF d(1)]] D(4) [OF d(1)] by auto
    then obtain x where x: "es g = Some x" "te_src x = dst" "rk_dst (tn_prefix s) = rk_dst (node_prefix ns (te_dst x))"
      by (auto simp: edges_of_def split: option.splits)
    have iv: "edge_inv ns es {} g x" using D(5) [OF x(1)] by simp
    obtain m where m: "ns (te_dst x) = Some m" using edge_invD(2) [OF iv] by auto
    have "(rk_dst (tn_prefix s), te_dst x) \<in> nodes_of ns" "(rk_dst (tn_prefix s), src) \<in> nodes_of ns"
      using m s x(3) by (auto simp: nodes_of_def node_prefix_def)
    then have td: "te_dst x = src" using addr_index.key_fun [OF D(1)] D(2) by metis
    obtain y where y: "es (te_inverse x) = Some y" "te_src y = te_dst x" "te_dst y = te_src x"
      using edge_invD(5) [OF iv] by blast
    then have "(rk_dst (tn_prefix d), te_inverse x) \<in> edges_of ns es {} src"
      using x(2) td d(1) by (simp add: edges_of_def node_prefix_def)
    then show False using addr_index.find_None [OF D(3) [OF s]] D(4) [OF s] new by auto
  qed
  note si = addr_index.insert_new [OF D(3) [OF s] new es(1)]
    and di = addr_index.insert_new [OF D(3) [OF d(1)] new' es(2)]
  have live: "edge_inv ?ns ?es {} g x" if "?es g = Some x" for g x
  proof (cases "g = e \<or> g = i")
    case True
    then show ?thesis using that f d(2) by (auto simp: edge_inv_def split: if_splits)
  next
    case False
    then have "edge_inv ns es {} g x" using D(5) that by simp
    from edge_inv_fresh [OF this f(1,2)] show ?thesis by (auto simp: edge_inv_def)
  qed
  have trees: "index_ok avl_comp_netaddr (tn_edges n) \<and> index_set (tn_edges n) = edges_of ?ns ?es {} q
      \<and> \<not> tr_allow_dups (tn_edges n)"
    if "?ns q = Some n" for q n
  proof -
    consider "q = dst" | "q = src" "q \<noteq> dst" | "q \<noteq> src" "q \<noteq> dst" by blast
    then show ?thesis
    proof cases
      case 1
      then show ?thesis using that di(2,3) D(4,6) [OF d(1)] d(2) by (auto simp: E)
    next
      case 2
      then show ?thesis using that si(2,3) D(4,6) [OF s] by (auto simp: E)
    next
      case 3
      then show ?thesis using that D(3,4,6) by (simp add: E)
    qed
  qed
  show ?thesis unfolding nodes_inv_def no using D(1,2) live trees by blast
qed

lemma endpoints_inv_node_cong:
  "endpoints_inv T ns ps as \<Longrightarrow> ns p = Some n \<Longrightarrow> tn_prefix n' = tn_prefix n \<Longrightarrow>
     tn_attached_networks n' = tn_attached_networks n \<Longrightarrow> endpoints_inv T (ns(p \<mapsto> n')) ps as"
  by (simp add: endpoints_inv_def attaching_of_node)

lemma tc_edge_link_ok:
  assumes inv: "tc_ok db" and s: "tc_nodes db src = Some s" and d: "tc_nodes db dst = Some d" "src \<noteq> dst"
    and f: "tc_edges db e = None" "tc_edges db i = None" "e \<noteq> i"
    and new: "avl_find (tn_edges s) (rk_dst (tn_prefix d)) = None"
  shows "\<exists>db'. tc_edge_link src dst e i db = Some (Some e, db') \<and> tc_ok db'"
proof -
  let ?ns = "(tc_nodes db)(src \<mapsto> s\<lparr>tn_edges := snd (avl_insert (tn_edges s) (rk_dst (tn_prefix d)) e)\<rparr>,
         dst \<mapsto> d\<lparr>tn_edges := snd (avl_insert (tn_edges d) (rk_dst (tn_prefix s)) i)\<rparr>)"
  let ?es = "(tc_edges db)(e \<mapsto> \<lparr>te_src = src, te_dst = dst, te_inverse = i, te_cost = no_cost, te_ansn = 0, te_virtual = False\<rparr>,
         i \<mapsto> \<lparr>te_src = dst, te_dst = src, te_inverse = e, te_cost = no_cost, te_ansn = 0, te_virtual = True\<rparr>)"
  have "tc_edge_link src dst e i db =
      Some (Some e, class_event OBJECT_ADDED (Tc_Edge e) (db\<lparr>tc_edges := ?es, tc_nodes := ?ns\<rparr>))"
    using s d f by (simp add: tc_edge_link_def hook_edge_step Let_def)
  moreover have "endpoints_inv (tc_endpoint_tree db) ?ns (tc_endpoints db) (tc_attachments db)"
  proof (rule endpoints_inv_node_cong)
    show "endpoints_inv (tc_endpoint_tree db)
      ((tc_nodes db)(src \<mapsto> s\<lparr>tn_edges := snd (avl_insert (tn_edges s) (rk_dst (tn_prefix d)) e)\<rparr>))
      (tc_endpoints db) (tc_attachments db)"
      using inv s by (intro endpoints_inv_node_cong) (simp_all add: tc_inv_def)
  qed (use d in auto)
  ultimately show ?thesis
    using inv new_edge_pair_inv [OF _ s d f new] by (auto simp: tc_inv_def)
qed

lemma edges_inv_upd:
  assumes inv: "nodes_inv T ns es X" and e: "es e = Some x" "te_src y = te_src x" "te_dst y = te_dst x"
    "te_inverse y = te_inverse x"
    and v: "te_virtual y \<Longrightarrow> \<exists>z. es (te_inverse x) = Some z \<and> \<not> te_virtual z"
  shows "nodes_inv T ns (es(e \<mapsto> y)) X"
proof -
  note D = nodes_invD [OF inv]
  have "edge_inv ns (es(e \<mapsto> y)) X g z" if g: "(es(e \<mapsto> y)) g = Some z" "g \<notin> X" for g z
  proof (cases "g = e")
    case True
    then have "edge_inv ns es X e x" "z = y" using D(5) e(1) g by auto
    then show ?thesis using e v True by (auto simp: edge_inv_def)
  next
    case False
    then have iv: "edge_inv ns es X g z" using D(5) g by simp
    show ?thesis
    proof (cases "te_inverse z = e")
      case True
      then show ?thesis using iv e v False g by (auto simp: edge_inv_def)
    next
      case False
      then show ?thesis using iv by (simp add: edge_inv_def)
    qed
  qed
  then show ?thesis using D e by (simp add: nodes_inv_def edges_of_same)
qed

theorem tc_edge_add_ok:
  assumes inv: "tc_ok db" and s: "tc_nodes db src = Some s" "addr \<noteq> rk_dst (tn_prefix s)"
    and a: "\<And>e. ae = Some e \<Longrightarrow> tc_edges db e = None" "\<And>i. ai = Some i \<Longrightarrow> tc_edges db i = None \<and> ae \<noteq> Some i"
      "\<And>p. an = Some p \<Longrightarrow> tc_nodes db p = None"
  shows "\<exists>r db'. tc_edge_add ae ai an src addr db = Some (r, db') \<and> tc_ok db'"
proof -
  have ni: "nodes_inv (tc_tree db) (tc_nodes db) (tc_edges db) {}" using inv by (simp add: tc_inv_def)
  note D = nodes_invD [OF ni]
  show ?thesis
  proof (cases "avl_find (tn_edges s) addr")
    case (Some e)
    then have "(addr, e) \<in> edges_of (tc_nodes db) (tc_edges db) {} src"
      using addr_index.find_iff [OF D(3) [OF s(1)]] D(4) [OF s(1)] by simp
    then obtain x where x: "tc_edges db e = Some x" by (auto simp: edges_of_def split: option.splits)
    have "nodes_inv (tc_tree db) (tc_nodes db) ((tc_edges db)(e \<mapsto> x\<lparr>te_virtual := False, te_cost := no_cost\<rparr>)) {}"
      by (rule edges_inv_upd [OF ni x]) simp_all
    then show ?thesis using inv s Some x by (simp add: tc_edge_add_def upd_edge_def tc_inv_def)
  next
    case None
    have "\<exists>r db1. tc_edge_dst an addr db = Some (r, db1) \<and> tc_ok db1 \<and> tc_edges db1 = tc_edges db
      \<and> nodes_kept db db1 \<and> (\<forall>p. r = Some p \<longrightarrow> (\<exists>n. tc_nodes db1 p = Some n \<and> rk_dst (tn_prefix n) = addr))"
    proof (cases "avl_find (tc_tree db) addr")
      case none: None
      then show ?thesis using tc_node_add_ok [OF inv, of an addr 0 0] a(3) by (simp add: tc_edge_dst_def)
    next
      case (Some p)
      then have "(addr, p) \<in> nodes_of (tc_nodes db)" using addr_index.find_iff [OF D(1)] D(2) by simp
      then show ?thesis using Some inv
        by (auto simp: tc_edge_dst_def nodes_kept_def nodes_of_def split: option.splits)
    qed
    then obtain r db1 where r: "tc_edge_dst an addr db = Some (r, db1)" "tc_ok db1" "tc_edges db1 = tc_edges db"
      "nodes_kept db db1" "\<And>p. r = Some p \<Longrightarrow> \<exists>n. tc_nodes db1 p = Some n \<and> rk_dst (tn_prefix n) = addr" by auto
    obtain s1 where s1: "tc_nodes db1 src = Some s1" "tn_prefix s1 = tn_prefix s" "tn_edges s1 = tn_edges s"
      using nodes_keptD [OF r(4) s(1)] by blast
    have "\<exists>r db'. tc_edge_new ae ai an src addr db = Some (r, db') \<and> tc_ok db'"
    proof (cases "ae = None \<or> ai = None \<or> r = None")
      case True
      then show ?thesis using inv r by (auto simp: tc_edge_new_def split: option.splits)
    next
      case False
      then obtain e i p where eip: "ae = Some e" "ai = Some i" "r = Some p" by auto
      obtain d where d: "tc_nodes db1 p = Some d" "rk_dst (tn_prefix d) = addr" using r(5) eip(3) by blast
      have ne: "src \<noteq> p" using d s s1 by auto
      from tc_edge_link_ok [OF r(2) s1(1) d(1) ne, of e i]
      show ?thesis using eip r(1,3) a None s1(3) d(2) by (auto simp: tc_edge_new_def)
    qed
    then show ?thesis using s(1) None by (simp add: tc_edge_add_def)
  qed
qed

subsection \<open>Attached networks\<close>

lemma attached_of_new:
  "as q = None \<Longrightarrow> attached_of ps (as(q \<mapsto> a)) p =
     (if ta_src a = p then insert (end_prefix ps (ta_dst a), q) (attached_of ps as p) else attached_of ps as p)"
proof -
  assume e: "as q = None"
  have "(k, r) \<in> attached_of ps (as(q \<mapsto> a)) p \<longleftrightarrow>
     (r = q \<and> ta_src a = p \<and> k = end_prefix ps (ta_dst a) \<or> (k, r) \<in> attached_of ps as p)" for k r
    using e by (cases "r = q") (auto simp: attached_of_def)
  then show ?thesis by auto
qed

lemma attaching_of_new:
  "as q = None \<Longrightarrow> attaching_of ns (as(q \<mapsto> a)) p =
     (if ta_dst a = p then insert (node_prefix ns (ta_src a), q) (attaching_of ns as p) else attaching_of ns as p)"
proof -
  assume e: "as q = None"
  have "(k, r) \<in> attaching_of ns (as(q \<mapsto> a)) p \<longleftrightarrow>
     (r = q \<and> ta_dst a = p \<and> k = node_prefix ns (ta_src a) \<or> (k, r) \<in> attaching_of ns as p)" for k r
    using e by (cases "r = q") (auto simp: attaching_of_def)
  then show ?thesis by auto
qed

lemma attached_of_free: "attached_of ps (as(q := None)) p = {z \<in> attached_of ps as p. snd z \<noteq> q}"
  by (auto simp: attached_of_def split: option.splits if_splits)

lemma attaching_of_free: "attaching_of ns (as(q := None)) p = {z \<in> attaching_of ns as p. snd z \<noteq> q}"
  by (auto simp: attaching_of_def split: option.splits if_splits)

lemma end_prefix_upd: "ps p = Some x \<Longrightarrow> tp_prefix x' = tp_prefix x \<Longrightarrow> end_prefix (ps(p \<mapsto> x')) = end_prefix ps"
  by (auto simp: end_prefix_def fun_eq_iff)

lemma attached_of_end:
  "ps p = Some x \<Longrightarrow> tp_prefix x' = tp_prefix x \<Longrightarrow> attached_of (ps(p \<mapsto> x')) as q = attached_of ps as q"
  by (simp add: attached_of_def end_prefix_upd cong: option.case_cong)

lemma endpoints_of_end:
  "ps p = Some x \<Longrightarrow> tp_prefix x' = tp_prefix x \<Longrightarrow> endpoints_of (ps(p \<mapsto> x')) = endpoints_of ps"
  by (auto simp: endpoints_of_def split: if_splits)

lemma endpoints_of_new: "ps p = None \<Longrightarrow> endpoints_of (ps(p \<mapsto> x)) = insert (tp_prefix x, p) (endpoints_of ps)"
  by (auto simp: endpoints_of_def split: option.splits if_splits)

lemma endpoints_of_free: "endpoints_of (ps(p := None)) = {z \<in> endpoints_of ps. snd z \<noteq> p}"
  by (auto simp: endpoints_of_def split: option.splits if_splits)

text \<open>A new attachment of the node \<open>p\<close> to the endpoint \<open>u\<close>.\<close>

lemma new_attachment_inv:
  assumes inv: "endpoints_inv T ns ps as" and uni: "index_ok avl_comp_netaddr N" "index_set N = nodes_of ns"
    and n: "ns p = Some n" and x: "ps u = Some x" and f: "as q = None"
    and new: "avl_find (tn_attached_networks n) (tp_prefix x) = None"
    and a: "ta_src a = p" "ta_dst a = u"
  shows "endpoints_inv T
     (ns(p \<mapsto> n\<lparr>tn_attached_networks := snd (avl_insert (tn_attached_networks n) (tp_prefix x) q)\<rparr>))
     (ps(u \<mapsto> x\<lparr>tp_attached_networks := snd (avl_insert (tp_attached_networks x) (tn_prefix n) q)\<rparr>))
     (as(q \<mapsto> a))" (is "endpoints_inv T ?ns ?ps ?as")
proof -
  note D = endpoints_invD [OF inv]
  have att: "attached_of ?ps ?as r = (if r = p then insert (tp_prefix x, q) (attached_of ps as r) else attached_of ps as r)"
    for r using x f a by (simp add: attached_of_end attached_of_new) (simp add: end_prefix_def)
  have atg: "attaching_of ?ns ?as r = (if r = u then insert (tn_prefix n, q) (attaching_of ns as r) else attaching_of ns as r)"
    for r using n f a by (simp add: attaching_of_node attaching_of_new) (simp add: node_prefix_def)
  have q: "q \<notin> set (avl_elements (tn_attached_networks n))" "q \<notin> set (avl_elements (tp_attached_networks x))"
    using D(4) [OF n] D(6) [OF x] f by (auto simp: in_elements attached_of_def attaching_of_def)
  have new': "avl_find (tp_attached_networks x) (tn_prefix n) = None"
  proof (rule ccontr)
    assume "avl_find (tp_attached_networks x) (tn_prefix n) \<noteq> None"
    then obtain r where "(tn_prefix n, r) \<in> attaching_of ns as u"
      using route_index.find_None [OF D(5) [OF x]] D(6) [OF x] by auto
    then obtain b where b: "as r = Some b" "ta_dst b = u" "tn_prefix n = node_prefix ns (ta_src b)"
      by (auto simp: attaching_of_def split: option.splits)
    obtain m where m: "ns (ta_src b) = Some m" using D(7) [OF b(1)] by auto
    have "(rk_dst (tn_prefix n), ta_src b) \<in> nodes_of ns" "(rk_dst (tn_prefix n), p) \<in> nodes_of ns"
      using m n b(3) by (auto simp: nodes_of_def node_prefix_def)
    then have "ta_src b = p" using addr_index.key_fun [OF uni(1)] uni(2) by metis
    then have "(tp_prefix x, r) \<in> attached_of ps as p"
      using b x by (simp add: attached_of_def end_prefix_def)
    then show False using route_index.find_None [OF D(3) [OF n]] D(4) [OF n] new by auto
  qed
  note ni = route_index.insert_new [OF D(3) [OF n] new q(1)]
    and xi = route_index.insert_new [OF D(5) [OF x] new' q(2)]
  have A: "index_ok avl_cmp_route_key (tn_attached_networks m) \<and> index_set (tn_attached_networks m) = attached_of ?ps ?as r"
    if "?ns r = Some m" for r m
    using that ni(2,3) D(3,4) n by (auto simp: att split: if_splits)
  have B: "index_ok avl_cmp_route_key (tp_attached_networks y) \<and> index_set (tp_attached_networks y) = attaching_of ?ns ?as r"
    if "?ps r = Some y" for r y
    using that xi(2,3) D(5,6) x by (auto simp: atg split: if_splits)
  have C: "?ns (ta_src b) \<noteq> None \<and> ?ps (ta_dst b) \<noteq> None" if "?as r = Some b" for r b
    using that a D(7,8) by (auto split: if_splits)
  have "endpoints_of ?ps = endpoints_of ps" using x by (simp add: endpoints_of_end)
  then show ?thesis unfolding endpoints_inv_def using D(1,2) A B C by auto
qed

lemma new_endpoint_inv:
  assumes inv: "endpoints_inv T ns ps as" and u: "ps u = None" "avl_find T (tp_prefix x) = None"
    and x: "tp_attached_networks x = avl_init avl_cmp_route_key False"
  shows "endpoints_inv (snd (avl_insert T (tp_prefix x) u)) ns (ps(u \<mapsto> x)) as"
proof -
  note D = endpoints_invD [OF inv]
  have "u \<notin> set (avl_elements T)" using u(1) D(2) by (auto simp: in_elements endpoints_of_def)
  note i = route_index.insert_new [OF D(1) u(2) this]
  have nd: "ta_dst a \<noteq> u" if "as q = Some a" for q a using D(8) [OF that] u(1) by metis
  then have "attached_of (ps(u \<mapsto> x)) as r = attached_of ps as r" "attaching_of ns as u = {}" for r
    by (auto simp: attached_of_def attaching_of_def end_prefix_def split: option.splits)
  then show ?thesis
    unfolding endpoints_inv_def using i D u x by (auto simp: endpoints_of_new)
qed

lemma attach_endpoint_ok:
  assumes inv: "nodes_inv (tc_tree db) (tc_nodes db) (tc_edges db) {}"
      "endpoints_inv (tc_endpoint_tree db) (tc_nodes db) (tc_endpoints db) (tc_attachments db)"
    and us: "\<And>r. tc_endpoints db r \<noteq> None \<Longrightarrow> r \<noteq> u \<Longrightarrow> \<exists>q a. tc_attachments db q = Some a \<and> ta_dst a = r"
    and n: "tc_nodes db p = Some n" and x: "tc_endpoints db u = Some x" and f: "tc_attachments db q = None"
    and new: "avl_find (tn_attached_networks n) (tp_prefix x) = None"
  shows "\<exists>db'. attach_endpoint p q u db = Some db' \<and> tc_ok db'"
proof -
  let ?a = "\<lparr>ta_src = p, ta_dst = u, ta_cost = no_cost, ta_distance = (\<lambda>_. 0), ta_ansn = 0\<rparr>"
  let ?n = "n\<lparr>tn_attached_networks := snd (avl_insert (tn_attached_networks n) (tp_prefix x) q)\<rparr>"
  let ?x = "x\<lparr>tp_attached_networks := snd (avl_insert (tp_attached_networks x) (tn_prefix n) q)\<rparr>"
  have "attach_endpoint p q u db = Some (class_event OBJECT_ADDED (Tc_Attached q)
     (db\<lparr>tc_attachments := (tc_attachments db)(q \<mapsto> ?a), tc_nodes := (tc_nodes db)(p \<mapsto> ?n),
         tc_endpoints := (tc_endpoints db)(u \<mapsto> ?x)\<rparr>))"
    using n x by (simp add: attach_endpoint_def upd_node_def upd_endpoint_def Let_def)
  moreover have "nodes_inv (tc_tree db) ((tc_nodes db)(p \<mapsto> ?n)) (tc_edges db) {}"
    using inv(1) n by (simp add: nodes_inv_def node_upd_simps)
  moreover have "endpoints_inv (tc_endpoint_tree db) ((tc_nodes db)(p \<mapsto> ?n)) ((tc_endpoints db)(u \<mapsto> ?x))
      ((tc_attachments db)(q \<mapsto> ?a))"
    by (rule new_attachment_inv [OF inv(2) nodes_invD(1,2) [OF inv(1)] n x f new]) simp_all
  moreover have "endpoints_used ((tc_endpoints db)(u \<mapsto> ?x)) ((tc_attachments db)(q \<mapsto> ?a))"
  proof -
    have "\<exists>s b. ((tc_attachments db)(q \<mapsto> ?a)) s = Some b \<and> ta_dst b = r"
      if "((tc_endpoints db)(u \<mapsto> ?x)) r \<noteq> None" for r
    proof (cases "r = u")
      case False
      then have "tc_endpoints db r \<noteq> None" using that by simp
      then obtain s b where s: "tc_attachments db s = Some b" "ta_dst b = r" using us [OF _ False] by blast
      moreover have "s \<noteq> q" using s f by auto
      ultimately show ?thesis by auto
    qed auto
    then show ?thesis by (simp add: endpoints_used_def)
  qed
  ultimately show ?thesis by (simp add: tc_inv_def)
qed

lemma tc_endpoint_add_ok:
  assumes inv: "tc_ok db" and n: "tc_nodes db p = Some n"
    and a: "\<And>q. an = Some q \<Longrightarrow> tc_attachments db q = None" "\<And>u. ae = Some u \<Longrightarrow> tc_endpoints db u = None"
  shows "\<exists>r db'. tc_endpoint_add an ae p prefix mesh db = Some (r, db') \<and> tc_ok db'"
proof (cases "avl_find (tn_attached_networks n) prefix = None \<and> an \<noteq> None")
  case False
  then show ?thesis using n inv by (auto simp: tc_endpoint_add_def split: option.splits)
next
  case True
  then obtain q where q: "an = Some q" "tc_attachments db q = None" using a by auto
  have I: "nodes_inv (tc_tree db) (tc_nodes db) (tc_edges db) {}"
    "endpoints_inv (tc_endpoint_tree db) (tc_nodes db) (tc_endpoints db) (tc_attachments db)"
    "endpoints_used (tc_endpoints db) (tc_attachments db)"
    using inv by (simp_all add: tc_inv_def)
  note D = endpoints_invD [OF I(2)]
  show ?thesis
  proof (cases "avl_find (tc_endpoint_tree db) prefix")
    case (Some u)
    then have "(prefix, u) \<in> endpoints_of (tc_endpoints db)" using route_index.find_iff [OF D(1)] D(2) by simp
    then obtain x where x: "tc_endpoints db u = Some x" "tp_prefix x = prefix"
      by (auto simp: endpoints_of_def split: option.splits)
    have "\<exists>db'. attach_endpoint p q u db = Some db' \<and> tc_ok db'"
      using attach_endpoint_ok [OF I(1,2) _ n x(1) q(2)] I(3) True x(2) by (auto simp: endpoints_used_def)
    then show ?thesis using n True q Some by (auto simp: tc_endpoint_add_def tc_endpoint_get_def)
  next
    case None
    show ?thesis
    proof (cases ae)
      case no_mem: None
      then show ?thesis using n True q None inv by (auto simp: tc_endpoint_add_def tc_endpoint_get_def)
    next
      case (Some u)
      let ?x = "\<lparr>tp_prefix = prefix, tp_type = (if mesh then OLSRV2_ADDRESS_TARGET else OLSRV2_NETWORK_TARGET),
              tp_attached_networks = avl_init avl_cmp_route_key False\<rparr>"
      let ?db = "new_endpoint u prefix mesh db"
      have "\<exists>db'. attach_endpoint p q u ?db = Some db' \<and> tc_ok db'"
      proof (rule attach_endpoint_ok [where x = ?x])
        show "endpoints_inv (tc_endpoint_tree ?db) (tc_nodes ?db) (tc_endpoints ?db) (tc_attachments ?db)"
          using new_endpoint_inv [OF I(2), of u ?x] a(2) [OF Some] None by (simp add: new_endpoint_def)
        show "\<exists>q a. tc_attachments ?db q = Some a \<and> ta_dst a = r" if "tc_endpoints ?db r \<noteq> None" "r \<noteq> u" for r
          using that I(3) by (simp add: new_endpoint_def endpoints_used_def)
      qed (use I(1) n q True in \<open>simp_all add: new_endpoint_def\<close>)
      then show ?thesis using n True q None Some by (auto simp: tc_endpoint_add_def tc_endpoint_get_def)
    qed
  qed
qed

subsection \<open>Removal\<close>

definition node_core :: "tc_node \<Rightarrow> tc_node" where
  "node_core n = n\<lparr>tn_attached_networks := avl_init avl_cmp_route_key False\<rparr>"

text \<open>Nothing changed but the attached networks.\<close>

definition same_graph :: "tc_db \<Rightarrow> tc_db \<Rightarrow> bool" where
  "same_graph db db' \<longleftrightarrow> tc_tree db' = tc_tree db \<and> tc_edges db' = tc_edges db
     \<and> (\<forall>p. map_option node_core (tc_nodes db' p) = map_option node_core (tc_nodes db p))"

lemma same_graph_refl [simp]: "same_graph db db"
  by (simp add: same_graph_def)

lemma same_graph_trans: "same_graph a b \<Longrightarrow> same_graph b c \<Longrightarrow> same_graph a c"
  by (simp add: same_graph_def)

lemma node_core_fields:
  "node_core m = node_core n \<Longrightarrow> tn_prefix m = tn_prefix n \<and> tn_edges m = tn_edges n \<and> tn_validity_time m = tn_validity_time n"
  by (cases m; cases n) (simp add: node_core_def)

lemma same_graphD:
  assumes "same_graph db db'" "tc_nodes db p = Some n"
  obtains n' where "tc_nodes db' p = Some n'" "tn_prefix n' = tn_prefix n" "tn_edges n' = tn_edges n"
    "tn_validity_time n' = tn_validity_time n"
proof -
  have "map_option node_core (tc_nodes db' p) = Some (node_core n)"
    using assms by (simp add: same_graph_def)
  then obtain n' where "tc_nodes db' p = Some n'" "node_core n' = node_core n" by auto
  then show thesis using that node_core_fields by metis
qed

lemma same_graph_dom: "same_graph db db' \<Longrightarrow> tc_nodes db' p = None \<longleftrightarrow> tc_nodes db p = None"
  unfolding same_graph_def by (metis map_option_is_None)

lemma remove_attachment_inv:
  assumes inv: "endpoints_inv T ns ps as" and a: "as q = Some a" and n: "ns (ta_src a) = Some n"
    and x: "ps (ta_dst a) = Some x"
  shows "endpoints_inv T
     (ns(ta_src a \<mapsto> n\<lparr>tn_attached_networks := avl_remove (tn_attached_networks n) q\<rparr>))
     (ps(ta_dst a \<mapsto> x\<lparr>tp_attached_networks := avl_remove (tp_attached_networks x) q\<rparr>))
     (as(q := None))" (is "endpoints_inv T ?ns ?ps ?as")
proof -
  note D = endpoints_invD [OF inv]
  have q: "q \<in> set (avl_elements (tn_attached_networks n))" "q \<in> set (avl_elements (tp_attached_networks x))"
    using D(4) [OF n] D(6) [OF x] a by (auto simp: in_elements attached_of_def attaching_of_def)
  note ni = route_index.remove_old [OF D(3) [OF n] q(1)]
    and xi = route_index.remove_old [OF D(5) [OF x] q(2)]
  have att: "attached_of ?ps ?as r = {z \<in> attached_of ps as r. snd z \<noteq> q}" for r
    using x by (simp add: attached_of_end attached_of_free)
  have atg: "attaching_of ?ns ?as r = {z \<in> attaching_of ns as r. snd z \<noteq> q}" for r
    using n by (simp add: attaching_of_node attaching_of_free)
  have oa: "{z \<in> attached_of ps as r. snd z \<noteq> q} = attached_of ps as r" if "r \<noteq> ta_src a" for r
    using that a by (auto simp: attached_of_def)
  have og: "{z \<in> attaching_of ns as r. snd z \<noteq> q} = attaching_of ns as r" if "r \<noteq> ta_dst a" for r
    using that a by (auto simp: attaching_of_def)
  have A: "index_ok avl_cmp_route_key (tn_attached_networks m) \<and> index_set (tn_attached_networks m) = attached_of ?ps ?as r"
    if "?ns r = Some m" for r m
    using that ni D(3,4) n oa by (cases "r = ta_src a") (auto simp: att)
  have B: "index_ok avl_cmp_route_key (tp_attached_networks y) \<and> index_set (tp_attached_networks y) = attaching_of ?ns ?as r"
    if "?ps r = Some y" for r y
    using that xi D(5,6) x og by (cases "r = ta_dst a") (auto simp: atg)
  have C: "?ns (ta_src b) \<noteq> None \<and> ?ps (ta_dst b) \<noteq> None" if "?as r = Some b" for r b
    using that D(7,8) by (auto split: if_splits)
  have "endpoints_of ?ps = endpoints_of ps" using x by (simp add: endpoints_of_end)
  then show ?thesis unfolding endpoints_inv_def using D(1,2) A B C by auto
qed

lemma free_endpoint_inv:
  assumes inv: "endpoints_inv T ns ps as" and x: "ps u = Some x" "index_set (tp_attached_networks x) = {}"
  shows "endpoints_inv (avl_remove T u) ns (ps(u := None)) as"
proof -
  note D = endpoints_invD [OF inv]
  have "u \<in> set (avl_elements T)" using x(1) D(2) by (auto simp: in_elements endpoints_of_def)
  note i = route_index.remove_old [OF D(1) this]
  have nd: "ta_dst a \<noteq> u" if "as q = Some a" for q a
  proof
    assume "ta_dst a = u"
    then have "(node_prefix ns (ta_src a), q) \<in> attaching_of ns as u" using that by (simp add: attaching_of_def)
    then show False using D(6) [OF x(1)] x(2) by simp
  qed
  then have "attached_of (ps(u := None)) as r = attached_of ps as r" for r
    by (auto simp: attached_of_def end_prefix_def split: option.splits)
  then show ?thesis
    unfolding endpoints_inv_def using i D nd by (auto simp: endpoints_of_free)
qed

lemma tc_endpoint_remove_ok:
  assumes inv: "tc_inv X db" and a: "tc_attachments db q = Some a"
  shows "\<exists>db'. tc_endpoint_remove q db = Some db' \<and> tc_inv X db' \<and> same_graph db db'
    \<and> tc_attachments db' = (tc_attachments db)(q := None)"
proof -
  have I: "nodes_inv (tc_tree db) (tc_nodes db) (tc_edges db) X"
    "endpoints_inv (tc_endpoint_tree db) (tc_nodes db) (tc_endpoints db) (tc_attachments db)"
    "endpoints_used (tc_endpoints db) (tc_attachments db)"
    using inv by (simp_all add: tc_inv_def)
  note D = endpoints_invD [OF I(2)]
  obtain n x where n: "tc_nodes db (ta_src a) = Some n" and x: "tc_endpoints db (ta_dst a) = Some x"
    using D(7,8) [OF a] by auto
  let ?n = "n\<lparr>tn_attached_networks := avl_remove (tn_attached_networks n) q\<rparr>"
  let ?x = "x\<lparr>tp_attached_networks := avl_remove (tp_attached_networks x) q\<rparr>"
  let ?ns = "(tc_nodes db)(ta_src a \<mapsto> ?n)" and ?ps = "(tc_endpoints db)(ta_dst a \<mapsto> ?x)"
  let ?as = "(tc_attachments db)(q := None)"
  have E: "endpoints_inv (tc_endpoint_tree db) ?ns ?ps ?as" by (rule remove_attachment_inv [OF I(2) a n x])
  have N: "nodes_inv (tc_tree db) ?ns (tc_edges db) X"
    using I(1) n by (simp add: nodes_inv_def node_upd_simps)
  have x': "?ps (ta_dst a) = Some ?x" by simp
  have xok: "index_ok avl_cmp_route_key (tp_attached_networks ?x)" using endpoints_invD(5) [OF E x'] .
  have xset: "index_set (tp_attached_networks ?x) = attaching_of ?ns ?as (ta_dst a)" using endpoints_invD(6) [OF E x'] .
  have used: "\<exists>s b. ?as s = Some b \<and> ta_dst b = r" if r: "tc_endpoints db r \<noteq> None" "r \<noteq> ta_dst a" for r
  proof -
    obtain s b where "tc_attachments db s = Some b" "ta_dst b = r"
      using I(3) r(1) unfolding endpoints_used_def by blast
    moreover have "s \<noteq> q" using a r(2) calculation by auto
    ultimately show ?thesis by auto
  qed
  show ?thesis
  proof (cases "tr_count (tp_attached_networks ?x) = 0")
    case True
    then have e: "index_set (tp_attached_networks ?x) = {}" using index_count [OF xok] by simp
    let ?db = "(class_event OBJECT_REMOVED (Tc_Endpoint (ta_dst a)) (class_event OBJECT_REMOVED (Tc_Attached q) db))
      \<lparr>tc_nodes := ?ns, tc_endpoint_tree := avl_remove (tc_endpoint_tree db) (ta_dst a),
       tc_endpoints := (tc_endpoints db)(ta_dst a := None), tc_attachments := ?as\<rparr>"
    have r: "tc_endpoint_remove q db = Some ?db"
      using a n x True by (simp add: tc_endpoint_remove_def upd_node_def upd_endpoint_def Let_def class_event_def)
    have fe: "endpoints_inv (avl_remove (tc_endpoint_tree db) (ta_dst a)) ?ns ((tc_endpoints db)(ta_dst a := None)) ?as"
      using free_endpoint_inv [OF E x' e] by (simp only: fun_upd_upd)
    have us: "endpoints_used ((tc_endpoints db)(ta_dst a := None)) ?as"
      unfolding endpoints_used_def using used by (metis fun_upd_apply)
    have "same_graph db ?db" using n by (simp add: same_graph_def node_core_def)
    moreover have "tc_inv X ?db" using N fe us by (simp add: tc_inv_def)
    ultimately show ?thesis using r by (metis (no_types, lifting) tc_db.select_convs(5) tc_db.surjective tc_db.update_convs(5))
  next
    case False
    let ?db = "(class_event OBJECT_REMOVED (Tc_Attached q) db)
      \<lparr>tc_nodes := ?ns, tc_endpoints := ?ps, tc_attachments := ?as\<rparr>"
    have r: "tc_endpoint_remove q db = Some ?db"
      using a n x False by (simp add: tc_endpoint_remove_def upd_node_def upd_endpoint_def Let_def class_event_def)
    have ne: "index_set (tp_attached_networks ?x) \<noteq> {}" using index_count [OF xok] False by auto
    then have "\<exists>s b. ?as s = Some b \<and> ta_dst b = ta_dst a"
      unfolding xset by (auto simp: attaching_of_def split: option.splits if_splits)
    then have us: "endpoints_used ?ps ?as"
      unfolding endpoints_used_def using used by (metis fun_upd_apply)
    have "same_graph db ?db" using n by (simp add: same_graph_def node_core_def)
    moreover have "tc_inv X ?db" using N E us by (simp add: tc_inv_def)
    ultimately show ?thesis using r by (metis (no_types, lifting) tc_db.select_convs(5) tc_db.surjective tc_db.update_convs(5))
  qed
qed

lemma remove_endpoints_ok:
  assumes "tc_inv X db" "distinct qs" "\<And>q. q \<in> set qs \<Longrightarrow> tc_attachments db q \<noteq> None"
  shows "\<exists>db'. remove_endpoints qs db = Some db' \<and> tc_inv X db' \<and> same_graph db db'
    \<and> tc_attachments db' = (\<lambda>q. if q \<in> set qs then None else tc_attachments db q)"
  using assms
proof (induction qs arbitrary: db)
  case (Cons q qs)
  obtain a where a: "tc_attachments db q = Some a" using Cons.prems(3) by fastforce
  obtain db1 where 1: "tc_endpoint_remove q db = Some db1" "tc_inv X db1" "same_graph db db1"
    "tc_attachments db1 = (tc_attachments db)(q := None)"
    using tc_endpoint_remove_ok [OF Cons.prems(1) a] by blast
  have "tc_attachments db1 r \<noteq> None" if "r \<in> set qs" for r
    using that Cons.prems(2,3) 1(4) by auto
  then obtain db2 where 2: "remove_endpoints qs db1 = Some db2" "tc_inv X db2" "same_graph db1 db2"
    "tc_attachments db2 = (\<lambda>q. if q \<in> set qs then None else tc_attachments db1 q)"
    using Cons.IH [OF 1(2)] Cons.prems(2) by auto
  then show ?case using 1 by (auto intro: same_graph_trans)
qed simp

lemma nodes_of_free: "nodes_of (ns(p := None)) = {z \<in> nodes_of ns. snd z \<noteq> p}"
  by (auto simp: nodes_of_def split: option.splits if_splits)

lemma no_edges_at:
  assumes inv: "nodes_inv T ns es X" and n: "ns p = Some n" "index_set (tn_edges n) = {}"
    and e: "es e = Some x" "e \<notin> X"
  shows "te_src x \<noteq> p" "te_dst x \<noteq> p"
proof -
  note D = nodes_invD [OF inv]
  have none: "edges_of ns es X p = {}" using D(4) [OF n(1)] n(2) by simp
  have src: "te_src y \<noteq> p" if "es f = Some y" "f \<notin> X" for f y
  proof
    assume "te_src y = p"
    then have "(rk_dst (node_prefix ns (te_dst y)), f) \<in> edges_of ns es X p" using that by (simp add: edges_of_def)
    then show False using none by simp
  qed
  show "te_src x \<noteq> p" using src [OF e] .
  have iv: "edge_inv ns es X e x" using D(5) [OF e] .
  then obtain y where y: "es (te_inverse x) = Some y" "te_src y = te_dst x" using edge_invD(5) by blast
  from src [OF y(1) edge_invD(4) [OF iv]] show "te_dst x \<noteq> p" using y(2) by simp
qed

lemma free_node_nodes_inv:
  assumes inv: "nodes_inv T ns es X" and n: "ns p = Some n" "index_set (tn_edges n) = {}"
  shows "nodes_inv (avl_remove T p) (ns(p := None)) es X"
proof -
  note D = nodes_invD [OF inv] and ne = no_edges_at [OF inv n]
  have "p \<in> set (avl_elements T)" using D(2) n(1) by (auto simp: in_elements nodes_of_def)
  note i = addr_index.remove_old [OF D(1) this]
  have "edges_of (ns(p := None)) es X q = edges_of ns es X q" for q
    using ne(2) by (auto simp: edges_of_def node_prefix_def split: option.splits)
  moreover have "edge_inv (ns(p := None)) es X e x" if "es e = Some x" "e \<notin> X" for e x
    using D(5) [OF that] ne [OF that] by (auto simp: edge_inv_def)
  ultimately show ?thesis using i D(2-4,6) by (auto simp: nodes_inv_def nodes_of_free)
qed

lemma free_node_endpoints_inv:
  assumes inv: "endpoints_inv T ns ps as" and a: "\<And>q a. as q = Some a \<Longrightarrow> ta_src a \<noteq> p"
  shows "endpoints_inv T (ns(p := None)) ps as"
proof -
  note D = endpoints_invD [OF inv]
  have "attaching_of (ns(p := None)) as r = attaching_of ns as r" for r
    using a by (auto simp: attaching_of_def node_prefix_def split: option.splits)
  then show ?thesis unfolding endpoints_inv_def using D a by auto
qed

text \<open>What \<open>release_node\<close> leaves.\<close>

definition released :: "ptr \<Rightarrow> tc_node \<Rightarrow> tc_db \<Rightarrow> tc_db \<Rightarrow> bool" where
  "released p n db db' \<longleftrightarrow> tc_edges db' = tc_edges db
     \<and> (\<forall>q. q \<noteq> p \<longrightarrow> map_option node_core (tc_nodes db' q) = map_option node_core (tc_nodes db q))
     \<and> (tc_nodes db' p = None \<longleftrightarrow> index_set (tn_edges n) = {})
     \<and> tc_attachments db' = (\<lambda>q. case tc_attachments db q of None \<Rightarrow> None
          | Some a \<Rightarrow> if ta_src a = p then None else Some a)"

lemma release_node_ok:
  assumes inv: "tc_inv X db" and n: "tc_nodes db p = Some n"
  shows "\<exists>db'. release_node p db = Some db' \<and> tc_inv X db' \<and> released p n db db'"
proof -
  have E: "endpoints_inv (tc_endpoint_tree db) (tc_nodes db) (tc_endpoints db) (tc_attachments db)"
    using inv by (simp add: tc_inv_def)
  note D = endpoints_invD [OF E]
  let ?qs = "avl_elements (tn_attached_networks n)"
  have qs: "set ?qs = {q. \<exists>a. tc_attachments db q = Some a \<and> ta_src a = p}"
    using D(4) [OF n] by (auto simp: in_elements attached_of_def split: option.splits)
  have dq: "distinct ?qs" by (rule route_index.distinct_elements [OF D(3) [OF n]])
  obtain db1 where 1: "remove_endpoints ?qs db = Some db1" "tc_inv X db1" "same_graph db db1"
    "tc_attachments db1 = (\<lambda>q. if q \<in> set ?qs then None else tc_attachments db q)"
    using remove_endpoints_ok [OF inv dq] qs by auto
  obtain n1 where n1: "tc_nodes db1 p = Some n1" "tn_edges n1 = tn_edges n"
    using same_graphD [OF 1(3) n] by metis
  have as: "tc_attachments db1 = (\<lambda>q. case tc_attachments db q of None \<Rightarrow> None
          | Some a \<Rightarrow> if ta_src a = p then None else Some a)"
    unfolding 1(4) qs by (auto simp: fun_eq_iff split: option.splits)
  let ?n2 = "n1\<lparr>tn_validity_time := None\<rparr>"
  let ?db2 = "db1\<lparr>tc_nodes := (tc_nodes db1)(p \<mapsto> ?n2)\<rparr>"
  have i2: "tc_inv X ?db2" by (rule tc_inv_node_cong [OF 1(2) n1(1)]) simp_all
  have N2: "nodes_inv (tc_tree db1) (tc_nodes ?db2) (tc_edges db1) X"
    and E2: "endpoints_inv (tc_endpoint_tree db1) (tc_nodes ?db2) (tc_endpoints db1) (tc_attachments db1)"
    and U2: "endpoints_used (tc_endpoints db1) (tc_attachments db1)"
    using i2 by (simp_all add: tc_inv_def)
  have p2: "tc_nodes ?db2 p = Some ?n2" by simp
  have cnt: "tr_count (tn_edges n) = 0 \<longleftrightarrow> index_set (tn_edges n) = {}"
    using index_count [OF nodes_invD(3) [OF N2 p2]] n1(2) by simp
  have rel: "released p n db (if tr_count (tn_edges n) = 0
       then ?db2\<lparr>tc_tree := avl_remove (tc_tree ?db2) p, tc_nodes := (tc_nodes ?db2)(p := None)\<rparr> else ?db2)"
    using 1(3) as cnt by (simp add: released_def same_graph_def)
  have "tc_inv X (?db2\<lparr>tc_tree := avl_remove (tc_tree ?db2) p, tc_nodes := (tc_nodes ?db2)(p := None)\<rparr>)"
    if "tr_count (tn_edges n) = 0"
  proof -
    have e: "index_set (tn_edges ?n2) = {}" using that cnt n1(2) by simp
    have "endpoints_inv (tc_endpoint_tree db1) ((tc_nodes ?db2)(p := None)) (tc_endpoints db1) (tc_attachments db1)"
      by (rule free_node_endpoints_inv [OF E2]) (auto simp: as split: option.splits if_splits)
    moreover have "nodes_inv (avl_remove (tc_tree db1) p) ((tc_nodes ?db2)(p := None)) (tc_edges db1) X"
      by (rule free_node_nodes_inv [OF N2 p2 e])
    ultimately show ?thesis using U2 by (simp add: tc_inv_def)
  qed
  note freed = this
  have r: "release_node p db = Some (if tr_count (tn_edges n) = 0
       then ?db2\<lparr>tc_tree := avl_remove (tc_tree ?db2) p, tc_nodes := (tc_nodes ?db2)(p := None)\<rparr> else ?db2)"
    using n 1(1) n1 by (simp add: release_node_def upd_node_def)
  show ?thesis
  proof (cases "tr_count (tn_edges n) = 0")
    case True
    show ?thesis using r rel freed [OF True] unfolding if_P [OF True] by blast
  next
    case False
    show ?thesis using r rel i2 unfolding if_not_P [OF False] by blast
  qed
qed

lemma unhook_nodes_inv:
  assumes inv: "nodes_inv T ns es {}" and e: "es e = Some x" and s: "ns (te_src x) = Some s" and d: "ns (te_dst x) = Some d"
  shows "nodes_inv T (ns(te_src x \<mapsto> s\<lparr>tn_edges := avl_remove (tn_edges s) e\<rparr>,
      te_dst x \<mapsto> d\<lparr>tn_edges := avl_remove (tn_edges d) (te_inverse x)\<rparr>)) es {e, te_inverse x}"
    (is "nodes_inv T ?ns es ?X")
proof -
  note D = nodes_invD [OF inv]
  have iv: "edge_inv ns es {} e x" using D(5) e by simp
  obtain y where y: "es (te_inverse x) = Some y" "te_inverse y = e" "te_src y = te_dst x" "te_dst y = te_src x"
    using edge_invD(5) [OF iv] by blast
  have sd: "te_src x \<noteq> te_dst x" using edge_invD(3) [OF iv] .
  have np: "node_prefix ?ns = node_prefix ns" using s d by (auto simp: node_prefix_def fun_eq_iff)
  have no: "nodes_of ?ns = nodes_of ns" using s d by (auto simp: nodes_of_def split: if_splits)
  have E: "edges_of ?ns es ?X q = {z \<in> edges_of ns es {} q. snd z \<noteq> e \<and> snd z \<noteq> te_inverse x}" for q
  proof -
    have "edges_of ?ns es ?X q = edges_of ns es ?X q" by (simp add: edges_of_def np cong: option.case_cong)
    then show ?thesis by (auto simp: edges_of_unhook)
  qed
  have es: "e \<in> set (avl_elements (tn_edges s))" "te_inverse x \<in> set (avl_elements (tn_edges d))"
    using D(4) [OF s] D(4) [OF d] e y by (auto simp: in_elements edges_of_def)
  note si = addr_index.remove_old [OF D(3) [OF s] es(1)]
    and di = addr_index.remove_old [OF D(3) [OF d] es(2)]
  have o: "(k, e) \<notin> edges_of ns es {} q" if "q \<noteq> te_src x" for k q using that e by (simp add: edges_of_def)
  have o': "(k, te_inverse x) \<notin> edges_of ns es {} q" if "q \<noteq> te_dst x" for k q using that y by (simp add: edges_of_def)
  have trees: "index_ok avl_comp_netaddr (tn_edges n) \<and> index_set (tn_edges n) = edges_of ?ns es ?X q
      \<and> \<not> tr_allow_dups (tn_edges n)"
    if "?ns q = Some n" for q n
  proof -
    consider "q = te_dst x" | "q = te_src x" "q \<noteq> te_dst x" | "q \<noteq> te_src x" "q \<noteq> te_dst x" by blast
    then show ?thesis
    proof cases
      case 1
      then show ?thesis using that di D(4,6) [OF d] o [of q] sd by (auto simp: E)
    next
      case 2
      then show ?thesis using that si D(4,6) [OF s] o' [of q] by (auto simp: E)
    next
      case 3
      then show ?thesis using that D(3,4,6) o [of q] o' [of q] by (auto simp: E)
    qed
  qed
  have "edge_inv ?ns es ?X g z" if g: "es g = Some z" "g \<notin> ?X" for g z
  proof -
    have gv: "edge_inv ns es {} g z" using D(5) g by simp
    obtain w where w: "es (te_inverse z) = Some w" "te_inverse w = g" using edge_invD(5) [OF gv] by blast
    have "te_inverse z \<notin> ?X" using w e y g(2) by auto
    then show ?thesis using gv by (auto simp: edge_inv_def)
  qed
  then show ?thesis unfolding nodes_inv_def no using D(1,2) trees by blast
qed

lemma free_edges_inv:
  assumes inv: "nodes_inv T ns es {e, i}"
  shows "nodes_inv T ns (es(i := None, e := None)) {}"
proof -
  note D = nodes_invD [OF inv]
  have "edges_of ns (es(i := None, e := None)) {} q = edges_of ns es {e, i} q" for q
    by (simp add: edges_of_free edges_of_unhook insert_commute)
  moreover have "edge_inv ns (es(i := None, e := None)) {} g z" if "(es(i := None, e := None)) g = Some z" for g z
  proof -
    have g: "es g = Some z" "g \<notin> {e, i}" using that by (auto split: if_splits)
    have gv: "edge_inv ns es {e, i} g z" using D(5) [OF g] .
    then show ?thesis by (auto simp: edge_inv_def)
  qed
  ultimately show ?thesis unfolding nodes_inv_def using D(1-4,6) by simp
qed

declare tc_node_remove_at.simps [simp del]

text \<open>A node without edges is removed without a further look at edges.\<close>

lemma isolated_node_remove:
  assumes inv: "tc_inv X db" and n: "tc_nodes db p = Some n" "index_set (tn_edges n) = {}"
  shows "\<exists>db'. tc_node_remove_at (Suc depth) p db = Some db' \<and> tc_inv X db' \<and> released p n db db'"
proof -
  let ?db = "class_event OBJECT_REMOVED (Tc_Node p) db"
  have "avl_elements (tn_edges n) = []" using n(2) by (simp add: elements_entries)
  then have "tc_node_remove_at (Suc depth) p db = release_node p ?db"
    using n(1) by (simp add: tc_node_remove_at.simps Let_def)
  moreover have "released p n ?db = released p n db" by (simp add: released_def fun_eq_iff)
  ultimately show ?thesis using release_node_ok [of X ?db p n] inv n(1) by simp
qed

text \<open>
  What the removal of an edge leaves of the others: it takes away at most this edge and its inverse,
  and no node but the destination.
\<close>

definition edge_removed :: "ptr \<Rightarrow> tc_edge \<Rightarrow> tc_db \<Rightarrow> tc_db \<Rightarrow> bool" where
  "edge_removed e x db db' \<longleftrightarrow>
     (\<forall>g. g \<noteq> e \<longrightarrow> g \<noteq> te_inverse x \<longrightarrow> tc_edges db' g = tc_edges db g)
     \<and> (\<forall>g y. tc_edges db' g = Some y \<longrightarrow> (\<exists>z. tc_edges db g = Some z \<and> (te_virtual z \<longrightarrow> te_virtual y)
          \<and> te_src y = te_src z \<and> te_dst y = te_dst z \<and> te_inverse y = te_inverse z))
     \<and> (\<forall>p. p \<noteq> te_dst x \<longrightarrow> (tc_nodes db' p = None \<longleftrightarrow> tc_nodes db p = None))
     \<and> (\<forall>y. tc_edges db' e = Some y \<longrightarrow> te_virtual y)
     \<and> (\<forall>q. tc_attachments db' q = None \<or> tc_attachments db' q = tc_attachments db q)"

lemma unhook_edge_ok:
  assumes inv: "tc_ok db" and e: "tc_edges db e = Some x" "\<not> te_virtual x"
    and i: "tc_edges db (te_inverse x) = Some y" "te_virtual y"
  shows "\<exists>r db'. unhook_edge (tc_node_remove_at (Suc depth)) e x cleanup db = Some (r, db') \<and> tc_ok db'
    \<and> edge_removed e x db db' \<and> tc_edges db' = (tc_edges db)(te_inverse x := None, e := None)
    \<and> (\<not> cleanup \<longrightarrow> (\<forall>p. tc_nodes db' p = None \<longleftrightarrow> tc_nodes db p = None) \<and> tc_tree db' = tc_tree db)"
proof -
  have N: "nodes_inv (tc_tree db) (tc_nodes db) (tc_edges db) {}"
    and E: "endpoints_inv (tc_endpoint_tree db) (tc_nodes db) (tc_endpoints db) (tc_attachments db)"
    and U: "endpoints_used (tc_endpoints db) (tc_attachments db)"
    using inv by (simp_all add: tc_inv_def)
  have iv: "edge_inv (tc_nodes db) (tc_edges db) {} e x" using nodes_invD(5) [OF N e(1)] by simp
  obtain s d where s: "tc_nodes db (te_src x) = Some s" and d: "tc_nodes db (te_dst x) = Some d"
    using edge_invD(1,2) [OF iv] by auto
  have sd: "te_src x \<noteq> te_dst x" using edge_invD(3) [OF iv] .
  let ?d = "d\<lparr>tn_edges := avl_remove (tn_edges d) (te_inverse x)\<rparr>"
  let ?ns = "(tc_nodes db)(te_src x \<mapsto> s\<lparr>tn_edges := avl_remove (tn_edges s) e\<rparr>, te_dst x \<mapsto> ?d)"
  let ?db = "db\<lparr>tc_nodes := ?ns\<rparr>"
  have "endpoints_inv (tc_endpoint_tree db) ?ns (tc_endpoints db) (tc_attachments db)"
  proof (rule endpoints_inv_node_cong)
    show "endpoints_inv (tc_endpoint_tree db) ((tc_nodes db)(te_src x \<mapsto> s\<lparr>tn_edges := avl_remove (tn_edges s) e\<rparr>))
      (tc_endpoints db) (tc_attachments db)"
      using E s by (intro endpoints_inv_node_cong) simp_all
  qed (use sd d in auto)
  then have i1: "tc_inv {e, te_inverse x} ?db"
    using unhook_nodes_inv [OF N e(1) s d] U by (simp add: tc_inv_def)
  have d1: "tc_nodes ?db (te_dst x) = Some ?d" by simp
  have dead: "\<exists>r db1. drop_destination (tc_node_remove_at (Suc depth)) (te_dst x) ?d cleanup ?db = Some (r, db1) \<and> tc_inv {e, te_inverse x} db1 \<and> tc_edges db1 = tc_edges db
      \<and> (\<forall>p. p \<noteq> te_dst x \<longrightarrow> (tc_nodes db1 p = None \<longleftrightarrow> tc_nodes db p = None))
      \<and> (\<forall>q. tc_attachments db1 q = None \<or> tc_attachments db1 q = tc_attachments db q)
      \<and> (\<not> cleanup \<longrightarrow> db1 = ?db)"
  proof (cases "tr_count (tn_edges ?d) = 0 \<and> cleanup \<and> tc_is_node_virtual ?d")
    case True
    have "index_ok avl_comp_netaddr (tn_edges ?d)"
      using i1 d1 nodes_invD(3) unfolding tc_inv_def by blast
    then have "index_set (tn_edges ?d) = {}" using index_count True by blast
    from isolated_node_remove [OF i1 d1 this, of depth]
    obtain db1 where r: "tc_node_remove_at (Suc depth) (te_dst x) ?db = Some db1"
      "tc_inv {e, te_inverse x} db1" "released (te_dst x) ?d ?db db1" by blast
    have "tc_nodes db1 p = None \<longleftrightarrow> tc_nodes db p = None" if "p \<noteq> te_dst x" for p
    proof -
      have "map_option node_core (tc_nodes db1 p) = map_option node_core (tc_nodes ?db p)"
        using r(3) that by (simp add: released_def)
      then have "tc_nodes db1 p = None \<longleftrightarrow> tc_nodes ?db p = None" by (metis map_option_is_None)
      then show ?thesis using s that by auto
    qed
    moreover have "tc_attachments db1 q = None \<or> tc_attachments db1 q = tc_attachments db q" for q
      using r(3) by (auto simp: released_def split: option.splits)
    moreover have "tc_edges db1 = tc_edges db" using r(3) by (simp add: released_def)
    moreover have "drop_destination (tc_node_remove_at (Suc depth)) (te_dst x) ?d cleanup ?db = Some (True, db1)" using True r(1) by (simp add: drop_destination_def)
    ultimately show ?thesis using True r(2) by blast
  next
    case False
    then have "drop_destination (tc_node_remove_at (Suc depth)) (te_dst x) ?d cleanup ?db = Some (False, ?db)"
      by (auto simp: drop_destination_def)
    then show ?thesis using i1 s d by auto
  qed
  then obtain r db1 where r: "drop_destination (tc_node_remove_at (Suc depth)) (te_dst x) ?d cleanup ?db = Some (r, db1)" "tc_inv {e, te_inverse x} db1" "tc_edges db1 = tc_edges db"
      "\<And>p. p \<noteq> te_dst x \<Longrightarrow> tc_nodes db1 p = None \<longleftrightarrow> tc_nodes db p = None"
      "\<And>q. tc_attachments db1 q = None \<or> tc_attachments db1 q = tc_attachments db q"
      "\<not> cleanup \<longrightarrow> db1 = ?db" by blast
  let ?db2 = "db1\<lparr>tc_edges := (tc_edges db1)(te_inverse x := None, e := None)\<rparr>"
  have "te_inverse x \<noteq> e" using e i by auto
  have "unhook_edge (tc_node_remove_at (Suc depth)) e x cleanup db = Some (r, ?db2)"
    using s d sd r(1) \<open>te_inverse x \<noteq> e\<close> r(3) e(1) i(1) by (simp add: unhook_edge_def upd_node_def free_edge_def)
  moreover have "tc_ok ?db2"
    using r(2) free_edges_inv [of "tc_tree db1" "tc_nodes db1" "tc_edges db1" e "te_inverse x"]
    by (simp add: tc_inv_def)
  moreover have "edge_removed e x db ?db2"
    using r(3-5) by (auto simp: edge_removed_def split: if_splits)
  moreover have "\<not> cleanup \<longrightarrow> (\<forall>p. tc_nodes ?db2 p = None \<longleftrightarrow> tc_nodes db p = None) \<and> tc_tree ?db2 = tc_tree db"
    using r(6) s d by auto
  moreover have "tc_edges ?db2 = (tc_edges db)(te_inverse x := None, e := None)" using r(3) by simp
  ultimately show ?thesis by blast
qed

lemma remove_edge_ok:
  assumes inv: "tc_ok db" and e: "tc_edges db e = Some x"
  shows "\<exists>r db'. remove_edge (tc_node_remove_at (Suc depth)) e cleanup db = Some (r, db') \<and> tc_ok db'
    \<and> edge_removed e x db db'
    \<and> (\<not> cleanup \<longrightarrow> (\<forall>p. tc_nodes db' p = None \<longleftrightarrow> tc_nodes db p = None) \<and> tc_tree db' = tc_tree db)"
proof (cases "te_virtual x")
  case True
  then show ?thesis using inv e by (auto simp: remove_edge_def edge_removed_def)
next
  case False
  have N: "nodes_inv (tc_tree db) (tc_nodes db) (tc_edges db) {}" using inv by (simp add: tc_inv_def)
  have iv: "edge_inv (tc_nodes db) (tc_edges db) {} e x" using nodes_invD(5) [OF N e] by simp
  obtain y where y: "tc_edges db (te_inverse x) = Some y" "te_src y = te_dst x" using edge_invD(5) [OF iv] by blast
  let ?db = "class_event OBJECT_REMOVED (Tc_Edge e) db"
  show ?thesis
  proof (cases "te_virtual y")
    case True
    from unhook_edge_ok [of ?db e x y depth cleanup]
    show ?thesis using True False inv e y
      by (auto simp: remove_edge_def Let_def edge_removed_def)
  next
    case nv: False
    have ne: "te_inverse x \<noteq> e" using y e edge_invD(3) [OF iv] by auto
    let ?x = "x\<lparr>te_virtual := True\<rparr>"
    have "nodes_inv (tc_tree db) (tc_nodes db) ((tc_edges db)(e \<mapsto> ?x)) {}"
      by (rule edges_inv_upd [OF N e]) (use y nv in simp_all)
    then have "tc_ok (?db\<lparr>tc_edges := (tc_edges db)(e \<mapsto> ?x)\<rparr>)" using inv by (simp add: tc_inv_def)
    moreover have "edge_removed e x db (?db\<lparr>tc_edges := (tc_edges db)(e \<mapsto> ?x)\<rparr>)"
      using e by (simp add: edge_removed_def)
    moreover have "remove_edge (tc_node_remove_at (Suc depth)) e cleanup db = Some (False, ?db\<lparr>tc_edges := (tc_edges db)(e \<mapsto> ?x)\<rparr>)"
      using e y False nv by (simp add: remove_edge_def upd_edge_def Let_def)
    ultimately show ?thesis by auto
  qed
qed

text \<open>What the removal of edges can do to the edges and attachments that are left.\<close>

definition shrinks :: "tc_db \<Rightarrow> tc_db \<Rightarrow> bool" where
  "shrinks db db' \<longleftrightarrow>
     (\<forall>g y. tc_edges db' g = Some y \<longrightarrow> (\<exists>z. tc_edges db g = Some z \<and> (te_virtual z \<longrightarrow> te_virtual y) \<and> te_src y = te_src z))
     \<and> (\<forall>q. tc_attachments db' q = None \<or> tc_attachments db' q = tc_attachments db q)"

lemma shrinks_refl [simp]: "shrinks db db"
  by (simp add: shrinks_def)

lemma shrinks_trans: "shrinks a b \<Longrightarrow> shrinks b c \<Longrightarrow> shrinks a c"
  unfolding shrinks_def by metis

lemma edge_removed_shrinks: "edge_removed e x db db' \<Longrightarrow> shrinks db db'"
  unfolding edge_removed_def shrinks_def by blast

lemma shrinksD:
  "shrinks db db' \<Longrightarrow> tc_edges db' g = Some y \<Longrightarrow> \<exists>z. tc_edges db g = Some z \<and> (te_virtual z \<longrightarrow> te_virtual y) \<and> te_src y = te_src z"
  "shrinks db db' \<Longrightarrow> tc_attachments db' q = Some a \<Longrightarrow> tc_attachments db q = Some a"
  unfolding shrinks_def by (blast, metis option.distinct(1))

lemma edge_inverse_src:
  assumes "tc_ok db" "tc_edges db e = Some x" "tc_edges db (te_inverse x) = Some y"
  shows "te_src y = te_dst x" "te_src x \<noteq> te_dst x"
proof -
  have "edge_inv (tc_nodes db) (tc_edges db) {} e x"
    using assms(1,2) nodes_invD(5) [of "tc_tree db" "tc_nodes db" "tc_edges db" "{}" e x] by (simp add: tc_inv_def)
  from edge_invD(3,5) [OF this] show "te_src y = te_dst x" "te_src x \<noteq> te_dst x" using assms(3) by auto
qed

lemma remove_edges_ok:
  assumes "tc_ok db" "distinct es" "\<And>e. e \<in> set es \<Longrightarrow> \<exists>x. tc_edges db e = Some x \<and> te_src x = p"
    "tc_nodes db p \<noteq> None"
  shows "\<exists>db'. remove_edges (tc_node_remove_at (Suc depth)) cleanup es db = Some db' \<and> tc_ok db'
    \<and> tc_nodes db' p \<noteq> None \<and> shrinks db db'
    \<and> (\<forall>e \<in> set es. \<forall>y. tc_edges db' e = Some y \<longrightarrow> te_virtual y)
    \<and> (\<not> cleanup \<longrightarrow> (\<forall>q. tc_nodes db' q = None \<longleftrightarrow> tc_nodes db q = None) \<and> tc_tree db' = tc_tree db)"
  using assms
proof (induction es arbitrary: db)
  case (Cons e es)
  obtain x where x: "tc_edges db e = Some x" "te_src x = p" using Cons.prems(3) by fastforce
  obtain r db1 where 1: "remove_edge (tc_node_remove_at (Suc depth)) e cleanup db = Some (r, db1)" "tc_ok db1"
    "edge_removed e x db db1"
    "\<not> cleanup \<longrightarrow> (\<forall>p. tc_nodes db1 p = None \<longleftrightarrow> tc_nodes db p = None) \<and> tc_tree db1 = tc_tree db"
    using remove_edge_ok [OF Cons.prems(1) x(1), of depth cleanup] by blast
  have sx: "te_src x \<noteq> te_dst x"
  proof -
    have "edge_inv (tc_nodes db) (tc_edges db) {} e x"
      using Cons.prems(1) nodes_invD(5) [of "tc_tree db" "tc_nodes db" "tc_edges db" "{}" e x] x(1) by (simp add: tc_inv_def)
    then show ?thesis by (rule edge_invD(3))
  qed
  have kept: "\<exists>y. tc_edges db1 f = Some y \<and> te_src y = p" if fs: "f \<in> set es" for f
  proof -
    obtain y where y: "tc_edges db f = Some y" "te_src y = p" using Cons.prems(3) [of f] fs by auto
    have "f \<noteq> e" using fs Cons.prems(2) by auto
    moreover have "f \<noteq> te_inverse x" using edge_inverse_src(1) [OF Cons.prems(1) x(1)] y x(2) sx by auto
    ultimately show ?thesis using 1(3) y by (simp add: edge_removed_def)
  qed
  have p1: "tc_nodes db1 p \<noteq> None" using 1(3) Cons.prems(4) x(2) sx by (auto simp: edge_removed_def)
  obtain db2 where 2: "remove_edges (tc_node_remove_at (Suc depth)) cleanup es db1 = Some db2" "tc_ok db2"
    "tc_nodes db2 p \<noteq> None" "shrinks db1 db2" "\<forall>e \<in> set es. \<forall>y. tc_edges db2 e = Some y \<longrightarrow> te_virtual y"
    "\<not> cleanup \<longrightarrow> (\<forall>q. tc_nodes db2 q = None \<longleftrightarrow> tc_nodes db1 q = None) \<and> tc_tree db2 = tc_tree db1"
    using Cons.IH [OF 1(2) _ kept p1] Cons.prems(2) by auto
  have "te_virtual y" if "tc_edges db2 e = Some y" for y
    using shrinksD(1) [OF 2(4) that] 1(3) unfolding edge_removed_def by blast
  then show ?case using 1 2 shrinks_trans [OF edge_removed_shrinks [OF 1(3)] 2(4)] by simp
qed simp

lemma node_edges:
  assumes "tc_ok db" "tc_nodes db p = Some n"
  shows "distinct (avl_elements (tn_edges n))"
    "set (avl_elements (tn_edges n)) = {e. \<exists>x. tc_edges db e = Some x \<and> te_src x = p}"
proof -
  have N: "nodes_inv (tc_tree db) (tc_nodes db) (tc_edges db) {}" using assms(1) by (simp add: tc_inv_def)
  show "distinct (avl_elements (tn_edges n))"
    by (rule addr_index.distinct_elements [OF nodes_invD(3) [OF N assms(2)]])
  show "set (avl_elements (tn_edges n)) = {e. \<exists>x. tc_edges db e = Some x \<and> te_src x = p}"
    using nodes_invD(4) [OF N assms(2)] by (auto simp: in_elements edges_of_def split: option.splits)
qed

lemma tc_node_remove_ok:
  assumes inv: "tc_ok db" and n: "tc_nodes db p = Some n"
  shows "\<exists>db'. tc_node_remove p db = Some db' \<and> tc_ok db'"
proof -
  let ?db = "class_event OBJECT_REMOVED (Tc_Node p) db"
  have "\<exists>x. tc_edges ?db e = Some x \<and> te_src x = p" if "e \<in> set (avl_elements (tn_edges n))" for e
    using node_edges(2) [OF inv n] that by auto
  then obtain db1 where 1: "remove_edges (tc_node_remove_at (Suc 0)) True (avl_elements (tn_edges n)) ?db = Some db1"
    "tc_ok db1" "tc_nodes db1 p \<noteq> None"
    using remove_edges_ok [of ?db "avl_elements (tn_edges n)" p 0 True] node_edges(1) [OF inv n] inv n by auto
  then obtain n1 where "tc_nodes db1 p = Some n1" by auto
  from release_node_ok [OF 1(2) this] 1(1) n show ?thesis
    by (auto simp: tc_node_remove_def numeral_2_eq_2 tc_node_remove_at.simps Let_def)
qed

subsection \<open>Cleanup\<close>

text \<open>A node that has nothing of its own any more.\<close>

definition bare :: "tc_db \<Rightarrow> ptr \<Rightarrow> bool" where
  "bare db p \<longleftrightarrow> (\<forall>e x. tc_edges db e = Some x \<and> te_src x = p \<longrightarrow> te_virtual x)
     \<and> (\<forall>q a. tc_attachments db q = Some a \<longrightarrow> ta_src a \<noteq> p)"

lemma bare_shrinks: "bare db p \<Longrightarrow> shrinks db db' \<Longrightarrow> bare db' p"
  unfolding bare_def by (metis shrinksD)

lemma node_attached:
  assumes "tc_ok db" "tc_nodes db p = Some n"
  shows "distinct (avl_elements (tn_attached_networks n))"
    "set (avl_elements (tn_attached_networks n)) = {q. \<exists>a. tc_attachments db q = Some a \<and> ta_src a = p}"
proof -
  have E: "endpoints_inv (tc_endpoint_tree db) (tc_nodes db) (tc_endpoints db) (tc_attachments db)"
    using assms(1) by (simp add: tc_inv_def)
  show "distinct (avl_elements (tn_attached_networks n))"
    by (rule route_index.distinct_elements [OF endpoints_invD(3) [OF E assms(2)]])
  show "set (avl_elements (tn_attached_networks n)) = {q. \<exists>a. tc_attachments db q = Some a \<and> ta_src a = p}"
    using endpoints_invD(4) [OF E assms(2)] by (auto simp: in_elements attached_of_def split: option.splits)
qed

lemma cleanup_nodes_ok:
  assumes "tc_ok db" "\<And>p. p \<in> set ps \<Longrightarrow> tc_nodes db p \<noteq> None"
  shows "\<exists>db'. cleanup_nodes ps db = Some db' \<and> tc_ok db' \<and> shrinks db db' \<and> (\<forall>p \<in> set ps. bare db' p)
    \<and> (\<forall>q. tc_nodes db' q = None \<longleftrightarrow> tc_nodes db q = None)"
  using assms
proof (induction ps arbitrary: db)
  case (Cons p ps)
  obtain n where n: "tc_nodes db p = Some n" using Cons.prems(2) [of p] by auto
  note E = node_edges [OF Cons.prems(1) n]
  obtain db1 where 1: "remove_edges (tc_node_remove_at (Suc 0)) False (avl_elements (tn_edges n)) db = Some db1"
    "tc_ok db1" "tc_nodes db1 p \<noteq> None" "shrinks db db1"
    "\<forall>e \<in> set (avl_elements (tn_edges n)). \<forall>y. tc_edges db1 e = Some y \<longrightarrow> te_virtual y"
    "\<forall>q. tc_nodes db1 q = None \<longleftrightarrow> tc_nodes db q = None"
    using remove_edges_ok [OF Cons.prems(1) E(1), of p 0 False] E(2) n by auto
  obtain n1 where n1: "tc_nodes db1 p = Some n1" using 1(3) by auto
  note A = node_attached [OF 1(2) n1]
  obtain db2 where 2: "remove_endpoints (avl_elements (tn_attached_networks n1)) db1 = Some db2" "tc_ok db2"
    "same_graph db1 db2"
    "tc_attachments db2 = (\<lambda>q. if q \<in> set (avl_elements (tn_attached_networks n1)) then None else tc_attachments db1 q)"
    using remove_endpoints_ok [OF 1(2) A(1)] A(2) by auto
  have s2: "shrinks db1 db2" using 2(3,4) by (auto simp: shrinks_def same_graph_def)
  have "te_virtual x" if "tc_edges db2 e = Some x" "te_src x = p" for e x
  proof -
    have e1: "tc_edges db1 e = Some x" using that 2(3) by (simp add: same_graph_def)
    then have "e \<in> set (avl_elements (tn_edges n))" using shrinksD(1) [OF 1(4) e1] E(2) that(2) by auto
    then show ?thesis using 1(5) e1 by auto
  qed
  moreover have "ta_src a \<noteq> p" if "tc_attachments db2 q = Some a" for q a
    using that 2(4) A(2) by (auto split: if_splits)
  ultimately have b: "bare db2 p" by (auto simp: bare_def)
  have live: "tc_nodes db2 q = None \<longleftrightarrow> tc_nodes db q = None" for q
    using same_graph_dom [OF 2(3)] 1(6) by simp
  obtain db3 where 3: "cleanup_nodes ps db2 = Some db3" "tc_ok db3" "shrinks db2 db3" "\<forall>p \<in> set ps. bare db3 p"
    "\<forall>q. tc_nodes db3 q = None \<longleftrightarrow> tc_nodes db2 q = None"
    using Cons.IH [OF 2(2)] Cons.prems(2) live by auto
  have "shrinks db db3" using 1(4) s2 3(3) shrinks_trans by blast
  then show ?case using n 1(1) n1 2(1) 3 bare_shrinks [OF b 3(3)] live by simp
qed simp

lemma all_bare_empty:
  assumes inv: "tc_ok db" and b: "\<And>p. tc_nodes db p \<noteq> None \<Longrightarrow> bare db p"
  shows "tc_edges db = (\<lambda>_. None)" "tc_attachments db = (\<lambda>_. None)"
proof -
  have N: "nodes_inv (tc_tree db) (tc_nodes db) (tc_edges db) {}"
    and E: "endpoints_inv (tc_endpoint_tree db) (tc_nodes db) (tc_endpoints db) (tc_attachments db)"
    using inv by (simp_all add: tc_inv_def)
  have "tc_edges db e = None" for e
  proof (rule ccontr)
    assume "tc_edges db e \<noteq> None"
    then obtain x where x: "tc_edges db e = Some x" by auto
    have iv: "edge_inv (tc_nodes db) (tc_edges db) {} e x" using nodes_invD(5) [OF N x] by simp
    then obtain y where y: "tc_edges db (te_inverse x) = Some y" "te_src y = te_dst x" "\<not> (te_virtual x \<and> te_virtual y)"
      using edge_invD(5) by blast
    show False using b [OF edge_invD(1) [OF iv]] b [OF edge_invD(2) [OF iv]] x y by (auto simp: bare_def)
  qed
  then show "tc_edges db = (\<lambda>_. None)" by auto
  have "tc_attachments db q = None" for q
  proof (rule ccontr)
    assume "tc_attachments db q \<noteq> None"
    then obtain a where a: "tc_attachments db q = Some a" by auto
    show False using b [OF endpoints_invD(7) [OF E a]] a by (auto simp: bare_def)
  qed
  then show "tc_attachments db = (\<lambda>_. None)" by auto
qed

lemma remove_nodes_ok:
  assumes "tc_ok db" "distinct ps" "set ps = {p. tc_nodes db p \<noteq> None}"
    "tc_edges db = (\<lambda>_. None)" "tc_attachments db = (\<lambda>_. None)"
  shows "\<exists>db'. remove_nodes ps db = Some db' \<and> tc_ok db' \<and> tc_nodes db' = (\<lambda>_. None)
    \<and> tc_edges db' = (\<lambda>_. None) \<and> tc_attachments db' = (\<lambda>_. None)"
  using assms
proof (induction ps arbitrary: db)
  case (Cons p ps)
  obtain n where n: "tc_nodes db p = Some n" using Cons.prems(3) by auto
  have N: "nodes_inv (tc_tree db) (tc_nodes db) (tc_edges db) {}" using Cons.prems(1) by (simp add: tc_inv_def)
  have "index_set (tn_edges n) = {}"
    using nodes_invD(4) [OF N n] Cons.prems(4) by (auto simp: edges_of_def)
  from isolated_node_remove [OF Cons.prems(1) n this, of 1]
  obtain db1 where 1: "tc_node_remove p db = Some db1" "tc_ok db1" "released p n db db1"
    unfolding tc_node_remove_def numeral_2_eq_2 by auto
  have p1: "tc_nodes db1 p = None" using 1(3) \<open>index_set (tn_edges n) = {}\<close> by (simp add: released_def)
  have o: "tc_nodes db1 q = None \<longleftrightarrow> tc_nodes db q = None" if "q \<noteq> p" for q
    using 1(3) that unfolding released_def by (metis map_option_is_None)
  have "q \<in> set ps \<longleftrightarrow> tc_nodes db1 q \<noteq> None" for q
  proof (cases "q = p")
    case True
    then show ?thesis using p1 Cons.prems(2) by simp
  next
    case False
    then have "q \<in> set ps \<longleftrightarrow> q \<in> {p. tc_nodes db p \<noteq> None}" using Cons.prems(3) by auto
    then show ?thesis using o [OF False] by simp
  qed
  then have "set ps = {p. tc_nodes db1 p \<noteq> None}" by auto
  moreover have "tc_edges db1 = (\<lambda>_. None)" "tc_attachments db1 = (\<lambda>_. None)"
    using 1(3) Cons.prems(4,5) by (simp_all add: released_def)
  ultimately show ?case using Cons.IH [OF 1(2)] Cons.prems(2) 1(1) by auto
qed auto

subsection \<open>Reachable databases\<close>

text \<open>
  The operations with the arguments under which they keep the database consistent: the addresses of
  new objects are not in use, the objects passed are allocated, and no edge leads from a node to
  itself. The last condition is not one that all callers keep (see below).
\<close>

datatype tc_operation =
    Node_Add "ptr option" netaddr u64 u16
  | Node_Remove ptr
  | Node_Timeout ptr
  | Edge_Add "ptr option" "ptr option" "ptr option" ptr netaddr
  | Edge_Remove ptr
  | Endpoint_Add "ptr option" "ptr option" ptr route_key bool
  | Endpoint_Remove ptr
  | Node_Change ptr

fun tc_apply :: "tc_operation \<Rightarrow> tc_db \<Rightarrow> tc_db option" where
  "tc_apply (Node_Add a addr vtime ansn) db = map_option snd (tc_node_add a addr vtime ansn db)"
| "tc_apply (Node_Remove p) db = tc_node_remove p db"
| "tc_apply (Node_Timeout p) db = cb_tc_node_timeout p db"
| "tc_apply (Edge_Add ae ai an src addr) db = map_option snd (tc_edge_add ae ai an src addr db)"
| "tc_apply (Edge_Remove e) db = map_option snd (tc_edge_remove e db)"
| "tc_apply (Endpoint_Add an ae node prefix mesh) db = map_option snd (tc_endpoint_add an ae node prefix mesh db)"
| "tc_apply (Endpoint_Remove q) db = tc_endpoint_remove q db"
| "tc_apply (Node_Change p) db = Some (tc_trigger_change p db)"

definition fresh :: "ptr option \<Rightarrow> (ptr \<Rightarrow> 'a option) \<Rightarrow> bool" where
  "fresh a m = (case a of None \<Rightarrow> True | Some p \<Rightarrow> m p = None)"

fun tc_callable :: "tc_operation \<Rightarrow> tc_db \<Rightarrow> bool" where
  "tc_callable (Node_Add a addr vtime ansn) db = fresh a (tc_nodes db)"
| "tc_callable (Node_Remove p) db = (tc_nodes db p \<noteq> None)"
| "tc_callable (Node_Timeout p) db = (tc_nodes db p \<noteq> None)"
| "tc_callable (Edge_Add ae ai an src addr) db =
     (fresh ae (tc_edges db) \<and> fresh ai (tc_edges db) \<and> (ae = None \<or> ae \<noteq> ai) \<and> fresh an (tc_nodes db)
      \<and> (case tc_nodes db src of None \<Rightarrow> False | Some s \<Rightarrow> addr \<noteq> rk_dst (tn_prefix s)))"
| "tc_callable (Edge_Remove e) db = (tc_edges db e \<noteq> None)"
| "tc_callable (Endpoint_Add an ae node prefix mesh) db =
     (fresh an (tc_attachments db) \<and> fresh ae (tc_endpoints db) \<and> tc_nodes db node \<noteq> None)"
| "tc_callable (Endpoint_Remove q) db = (tc_attachments db q \<noteq> None)"
| "tc_callable (Node_Change p) db = (tc_nodes db p \<noteq> None)"

inductive tc_reachable :: "tc_db \<Rightarrow> bool" where
  init: "tc_reachable tc_init"
| step: "tc_reachable db \<Longrightarrow> tc_callable op db \<Longrightarrow> tc_apply op db = Some db' \<Longrightarrow> tc_reachable db'"

lemma freshD: "fresh a m \<Longrightarrow> a = Some p \<Longrightarrow> m p = None"
  by (simp add: fresh_def)

lemma tc_apply_ok:
  assumes "tc_ok db" "tc_callable op db"
  shows "\<exists>db'. tc_apply op db = Some db' \<and> tc_ok db'"
proof (cases op)
  case (Node_Add a addr vtime ansn)
  then have "\<And>p. a = Some p \<Longrightarrow> tc_nodes db p = None" using assms(2) by (simp add: freshD)
  from tc_node_add_ok [OF assms(1) this] show ?thesis using Node_Add by fastforce
next
  case (Node_Remove p)
  then obtain n where "tc_nodes db p = Some n" using assms(2) by auto
  from tc_node_remove_ok [OF assms(1) this] show ?thesis using Node_Remove by simp
next
  case (Node_Timeout p)
  then obtain n where n: "tc_nodes db p = Some n" using assms(2) by auto
  let ?db = "db\<lparr>tc_nodes := (tc_nodes db)(p \<mapsto> n\<lparr>tn_validity_time := None\<rparr>)\<rparr>"
  have i: "tc_ok ?db" by (rule tc_inv_node_cong [OF assms(1) n]) simp_all
  have "tc_nodes ?db p = Some (n\<lparr>tn_validity_time := None\<rparr>)" by simp
  from tc_node_remove_ok [OF i this] show ?thesis
    using n Node_Timeout by (simp add: cb_tc_node_timeout_def upd_node_def)
next
  case (Edge_Add ae ai an src addr)
  then obtain s where s: "tc_nodes db src = Some s" "addr \<noteq> rk_dst (tn_prefix s)"
    using assms(2) by (auto split: option.splits)
  have f: "\<And>e. ae = Some e \<Longrightarrow> tc_edges db e = None" "\<And>i. ai = Some i \<Longrightarrow> tc_edges db i = None \<and> ae \<noteq> Some i"
      "\<And>p. an = Some p \<Longrightarrow> tc_nodes db p = None"
    using assms(2) Edge_Add by (auto dest: freshD)
  from tc_edge_add_ok [OF assms(1) s f] show ?thesis using Edge_Add by fastforce
next
  case (Edge_Remove e)
  then obtain x where "tc_edges db e = Some x" using assms(2) by auto
  from remove_edge_ok [OF assms(1) this, of 0 True] show ?thesis
    using Edge_Remove by (fastforce simp: tc_edge_remove_def)
next
  case (Endpoint_Add an ae node prefix mesh)
  then obtain n where n: "tc_nodes db node = Some n" using assms(2) by auto
  have f: "\<And>q. an = Some q \<Longrightarrow> tc_attachments db q = None" "\<And>u. ae = Some u \<Longrightarrow> tc_endpoints db u = None"
    using assms(2) Endpoint_Add by (auto dest: freshD)
  from tc_endpoint_add_ok [OF assms(1) n f] show ?thesis using Endpoint_Add by fastforce
next
  case (Endpoint_Remove q)
  then obtain a where "tc_attachments db q = Some a" using assms(2) by auto
  from tc_endpoint_remove_ok [OF assms(1) this] show ?thesis using Endpoint_Remove by auto
next
  case (Node_Change p)
  then show ?thesis using assms(1) by (simp add: tc_trigger_change_def)
qed

lemma tc_reachable_ok: "tc_reachable db \<Longrightarrow> tc_ok db"
  by (induction rule: tc_reachable.induct) (use tc_init_ok tc_apply_ok in \<open>fastforce+\<close>)

lemma tc_cleanup_ok:
  assumes "tc_ok db"
  shows "\<exists>db'. tc_cleanup db = Some db' \<and> tc_nodes db' = (\<lambda>_. None) \<and> tc_edges db' = (\<lambda>_. None)
    \<and> tc_attachments db' = (\<lambda>_. None) \<and> tc_endpoints db' = (\<lambda>_. None)"
proof -
  have T: "index_ok avl_comp_netaddr (tc_tree db)" "index_set (tc_tree db) = nodes_of (tc_nodes db)"
    if "tc_ok db" for db using that by (simp_all add: tc_inv_def nodes_inv_def)
  have S: "set (avl_elements (tc_tree db)) = {p. tc_nodes db p \<noteq> None}" if "tc_ok db" for db
    using T(2) [OF that] by (auto simp: in_elements nodes_of_def split: option.splits)
  obtain db1 where 1: "cleanup_nodes (avl_elements (tc_tree db)) db = Some db1" "tc_ok db1"
    "\<forall>p \<in> set (avl_elements (tc_tree db)). bare db1 p" "\<forall>q. tc_nodes db1 q = None \<longleftrightarrow> tc_nodes db q = None"
    using cleanup_nodes_ok [OF assms, of "avl_elements (tc_tree db)"] S [OF assms] by auto
  have "bare db1 p" if "tc_nodes db1 p \<noteq> None" for p using 1(3,4) S [OF assms] that by auto
  note e = all_bare_empty [OF 1(2) this]
  obtain db2 where 2: "remove_nodes (avl_elements (tc_tree db1)) db1 = Some db2" "tc_ok db2"
    "tc_nodes db2 = (\<lambda>_. None)" "tc_edges db2 = (\<lambda>_. None)" "tc_attachments db2 = (\<lambda>_. None)"
    using remove_nodes_ok [OF 1(2) addr_index.distinct_elements [OF T(1) [OF 1(2)]] S [OF 1(2)] e] by blast
  have "tc_endpoints db2 p = None" for p
    using 2(2,5) by (auto simp: tc_inv_def endpoints_used_def)
  then show ?thesis using 1(1) 2 by (auto simp: tc_cleanup_def)
qed

text \<open>
  What the callers request: \<open>_cb_addresstlvs\<close> of the reader passes the addresses of a received message to
  \<open>olsrv2_tc_edge_add\<close> without comparing them with the originator, so that an edge from a node to itself
  can be asked for. A self edge is one that will be made: both allocations succeed. It breaks the
  database: the second of the two edges has the key of the first one and is refused by the tree, but it
  is removed from the tree later.
\<close>

fun tc_requested :: "tc_operation \<Rightarrow> tc_db \<Rightarrow> bool" where
  "tc_requested (Edge_Add ae ai an src addr) db =
     (fresh ae (tc_edges db) \<and> fresh ai (tc_edges db) \<and> (ae = None \<or> ae \<noteq> ai) \<and> fresh an (tc_nodes db)
      \<and> tc_nodes db src \<noteq> None)"
| "tc_requested op db = tc_callable op db"

fun self_edge :: "tc_operation \<Rightarrow> tc_db \<Rightarrow> (ptr \<times> ptr) option" where
  "self_edge (Edge_Add (Some e) (Some i) an src addr) db =
     (case tc_nodes db src of None \<Rightarrow> None | Some s \<Rightarrow> if addr = rk_dst (tn_prefix s) then Some (src, i) else None)"
| "self_edge op db = None"

definition edge_not_hooked :: "ptr \<Rightarrow> ptr \<Rightarrow> tc_db \<Rightarrow> bool" where
  "edge_not_hooked p i db \<longleftrightarrow> (\<exists>n x. tc_nodes db p = Some n \<and> tc_edges db i = Some x \<and> te_src x = p
     \<and> i \<notin> set (avl_elements (tn_edges n)))"

lemma no_edge_to_itself:
  assumes inv: "tc_ok db" and s: "tc_nodes db p = Some s"
  shows "avl_find (tn_edges s) (rk_dst (tn_prefix s)) = None"
proof (rule ccontr)
  have N: "nodes_inv (tc_tree db) (tc_nodes db) (tc_edges db) {}" using inv by (simp add: tc_inv_def)
  note D = nodes_invD [OF N]
  assume "avl_find (tn_edges s) (rk_dst (tn_prefix s)) \<noteq> None"
  then obtain g x where x: "tc_edges db g = Some x" "te_src x = p"
    "rk_dst (tn_prefix s) = rk_dst (node_prefix (tc_nodes db) (te_dst x))"
    using addr_index.find_None [OF D(3) [OF s]] D(4) [OF s] by (auto simp: edges_of_def split: option.splits)
  have iv: "edge_inv (tc_nodes db) (tc_edges db) {} g x" using D(5) [OF x(1)] by simp
  obtain m where m: "tc_nodes db (te_dst x) = Some m" using edge_invD(2) [OF iv] by auto
  have "(rk_dst (tn_prefix s), te_dst x) \<in> nodes_of (tc_nodes db)" "(rk_dst (tn_prefix s), p) \<in> nodes_of (tc_nodes db)"
    using m s x(3) by (auto simp: nodes_of_def node_prefix_def)
  then have "te_dst x = p" using addr_index.key_fun [OF D(1)] D(2) by metis
  then show False using edge_invD(3) [OF iv] x(2) by simp
qed

lemma tc_self_edge_not_hooked:
  assumes inv: "tc_ok db" and s: "tc_nodes db p = Some s" "addr = rk_dst (tn_prefix s)"
    and new: "tc_edges db e = None" "tc_edges db i = None" "e \<noteq> i"
  shows "\<exists>db'. tc_edge_add (Some e) (Some i) an p addr db = Some (Some e, db') \<and> edge_not_hooked p i db'"
proof -
  have N: "nodes_inv (tc_tree db) (tc_nodes db) (tc_edges db) {}" using inv by (simp add: tc_inv_def)
  note D = nodes_invD [OF N]
  have none: "avl_find (tn_edges s) addr = None" using no_edge_to_itself [OF inv s(1)] s(2) by simp
  have "(addr, p) \<in> index_set (tc_tree db)" using D(2) s by (simp add: nodes_of_def)
  then have f: "avl_find (tc_tree db) addr = Some p" using addr_index.find_iff [OF D(1)] by simp
  have no: "e \<notin> set (avl_elements (tn_edges s))" "i \<notin> set (avl_elements (tn_edges s))"
    using node_edges(2) [OF inv s(1)] new by auto
  let ?T = "snd (avl_insert (tn_edges s) addr e)"
  note t = addr_index.insert_new [OF D(3) [OF s(1)] none no(1)]
  have i: "i \<notin> set (avl_elements ?T)" using no(2) t(3) new(3) by (auto simp: in_elements)
  have "avl_find ?T addr \<noteq> None" using addr_index.find_None [OF t(2), of addr] t(3) by auto
  moreover have "\<not> tr_allow_dups ?T" using D(6) [OF s(1)] by simp
  ultimately have r: "avl_insert ?T addr i = (- 1, ?T)" by (rule addr_index.insert_old [OF t(2) _ i])
  show ?thesis
    using s f none new i r
    by (simp add: tc_edge_add_def tc_edge_new_def tc_edge_dst_def tc_edge_link_def hook_edge_def upd_node_def Let_def
        edge_not_hooked_def)
qed

lemma tc_requested_result:
  assumes inv: "tc_ok db" and req: "tc_requested op db"
  shows "\<exists>db'. tc_apply op db = Some db' \<and>
    (case self_edge op db of None \<Rightarrow> tc_ok db' | Some (p, i) \<Rightarrow> edge_not_hooked p i db')"
proof (cases "tc_callable op db")
  case True
  have "self_edge op db = None"
    using True by (cases "(op, db)" rule: self_edge.cases) (auto split: option.splits)
  then show ?thesis using tc_apply_ok [OF inv True] by simp
next
  case False
  then obtain ae ai an src addr where op: "op = Edge_Add ae ai an src addr"
    using req by (cases op) auto
  obtain s where s: "tc_nodes db src = Some s" using req op by auto
  have self: "addr = rk_dst (tn_prefix s)" using False req op s by auto
  show ?thesis
  proof (cases "ae = None \<or> ai = None")
    case True
    then have "tc_apply op db = Some db" "self_edge op db = None"
      using no_edge_to_itself [OF inv s] s self
      by (auto simp: op tc_edge_add_def tc_edge_new_def split: option.splits)
    then show ?thesis using inv by simp
  next
    case False
    then obtain e i where ei: "ae = Some e" "ai = Some i" by auto
    have "tc_edges db e = None" "tc_edges db i = None" "e \<noteq> i" using req by (auto simp: op ei dest: freshD)
    from tc_self_edge_not_hooked [OF inv s self this, of an] show ?thesis using s self by (auto simp: op ei)
  qed
qed

text \<open>A database with one node, for the examples.\<close>

definition tc_example :: tc_db where
  "tc_example = snd (the (tc_node_add (Some 1) NETADDR_IPV4_ANY 1000 7 tc_init))"

lemma tc_example_reachable: "tc_reachable tc_example"
proof (rule tc_reachable.step [OF tc_reachable.init])
  show "tc_apply (Node_Add (Some 1) NETADDR_IPV4_ANY 1000 7) tc_init = Some tc_example"
    by (simp add: tc_example_def tc_node_add_def tc_node_get_def tc_init_def avl_find_def avl_init_def upd_node_def Let_def)
qed (simp add: fresh_def tc_init_def)

lemma tc_example_parts:
  "tc_nodes tc_example = [1 \<mapsto> (new_node NETADDR_IPV4_ANY 7)\<lparr>tn_validity_time := Some 1000\<rparr>]"
  "tc_edges tc_example = (\<lambda>_. None)"
  by (auto simp: tc_example_def tc_node_add_def tc_node_get_def tc_init_def avl_find_def avl_init_def upd_node_def Let_def
      timer_interval_def)

subsection \<open>Properties\<close>

text \<open>
  C24. Every operation that a caller can request on a topology database that was built by operations
  other than self edges succeeds without following a pointer to a freed object and without freeing one
  twice, with the recursion bound of the model. Unless it makes an edge from a node to itself, it leaves
  the database consistent: the trees hold exactly the objects that point back to them under their
  keys, edges come in pairs of which at least one is announced, and endpoints are attached somewhere. A
  self edge, which a received message can ask for, breaks the database: the inverse edge points to
  the node, but it is not in its tree.
\<close>

theorem tc_operation_consistent:
  assumes "tc_reachable db" "tc_requested op db"
  shows "\<exists>db'. tc_apply op db = Some db' \<and>
    (case self_edge op db of None \<Rightarrow> tc_ok db' | Some (p, i) \<Rightarrow> edge_not_hooked p i db')"
  using tc_requested_result [OF tc_reachable_ok [OF assms(1)] assms(2)] .

theorem tc_operation_consistent_witness:
  "(\<exists>db'. tc_apply (Edge_Add (Some 5) (Some 6) (Some 2) 1 NETADDR_IPV4_LINKLOCAL) tc_example = Some db' \<and> tc_ok db')
   \<and> (\<exists>db'. tc_apply (Edge_Add (Some 5) (Some 6) (Some 2) 1 NETADDR_IPV4_ANY) tc_example = Some db'
        \<and> edge_not_hooked 1 6 db')"
proof -
  let ?add = "\<lambda>addr. Edge_Add (Some 5) (Some 6) (Some 2) 1 addr"
  have "tc_requested (?add addr) tc_example" for addr by (simp add: tc_example_parts fresh_def)
  note ok = tc_operation_consistent [OF tc_example_reachable this]
  have "self_edge (?add NETADDR_IPV4_LINKLOCAL) tc_example = None"
    "self_edge (?add NETADDR_IPV4_ANY) tc_example = Some (1, 6)"
    by (simp_all add: tc_example_parts new_node_def init_sourcespec_prefix_def NETADDR_IPV4_ANY_def
      NETADDR_IPV4_LINKLOCAL_def na_const_def)
  then show ?thesis using ok [of NETADDR_IPV4_LINKLOCAL] ok [of NETADDR_IPV4_ANY] by simp
qed

text \<open>
  C25. Cleaning up a topology database that was built by operations other than self edges frees every
  node, edge, attachment and endpoint, whatever the order of the nodes in the tree.
\<close>

theorem tc_cleanup_frees_all:
  assumes "tc_reachable db"
  shows "\<exists>db'. tc_cleanup db = Some db' \<and> tc_nodes db' = (\<lambda>_. None) \<and> tc_edges db' = (\<lambda>_. None)
    \<and> tc_attachments db' = (\<lambda>_. None) \<and> tc_endpoints db' = (\<lambda>_. None)"
  using tc_cleanup_ok [OF tc_reachable_ok [OF assms]] .

theorem tc_cleanup_frees_all_witness:
  "\<exists>db'. tc_cleanup tc_example = Some db' \<and> tc_nodes db' = (\<lambda>_. None) \<and> tc_edges db' = (\<lambda>_. None)
    \<and> tc_attachments db' = (\<lambda>_. None) \<and> tc_endpoints db' = (\<lambda>_. None)"
  by (rule tc_cleanup_frees_all [OF tc_example_reachable])

end
