(* ===== verification/Hooks.thy ===== *)
theory Hooks
  imports Olsrv2_Tc
begin

text \<open>
  Objects that are hooked into containers of their owners. A database keeps its objects in stores and
  in trees and lists that belong to other objects; \<open>M x = Some (k, p)\<close> says that the object at \<open>x\<close>
  belongs to the container of \<open>p\<close> under the key \<open>k\<close>, and \<open>F p\<close> is the container of \<open>p\<close>. The facts below
  are about one family of containers each and carry the consistency of a whole database.
\<close>

text \<open>One field of all the records in a store.\<close>

definition proj :: "('r \<Rightarrow> 'f) \<Rightarrow> ('p \<Rightarrow> 'r option) \<Rightarrow> 'p \<Rightarrow> 'f option" where
  "proj f m = (\<lambda>p. map_option f (m p))"

lemma proj_apply: "proj f m p = map_option f (m p)"
  by (simp add: proj_def)

lemma proj_new [simp]: "proj f (m(p \<mapsto> r)) = (proj f m)(p \<mapsto> f r)"
  by (auto simp: proj_def)

lemma proj_free [simp]: "proj f (m(p := None)) = (proj f m)(p := None)"
  by (auto simp: proj_def)

lemma proj_same [simp]: "m p = Some r \<Longrightarrow> v = f r \<Longrightarrow> (proj f m)(p \<mapsto> v) = proj f m"
  by (auto simp: proj_def)

lemma proj_same2:
  "m q = Some n \<Longrightarrow> (m(q \<mapsto> n')) p = Some k \<Longrightarrow> f n' = f n \<Longrightarrow> f k' = f k \<Longrightarrow> proj f (m(q \<mapsto> n', p \<mapsto> k')) = proj f m"
  by (auto simp: proj_def fun_eq_iff split: if_splits)

lemma proj_None [simp]: "proj f m p = None \<longleftrightarrow> m p = None"
  by (simp add: proj_def)

lemma proj_Some: "m p = Some r \<Longrightarrow> proj f m p = Some (f r)"
  by (simp add: proj_def)

lemma proj_empty [simp]: "proj f (\<lambda>_. None) = (\<lambda>_. None)"
  by (simp add: proj_def)

text \<open>Trees with several entries of one key.\<close>

definition multi_ok :: "('k \<Rightarrow> 'k \<Rightarrow> int) \<Rightarrow> ('k, 'e) avl_tree \<Rightarrow> bool" where
  "multi_ok c T \<longleftrightarrow> avl_ok T \<and> tr_comp T = c \<and> tr_allow_dups T"

text \<open>
  What a family of containers has to provide: an empty container, the insertion of an object that is
  not in it, where it may be inserted at all, and the removal of an object that is in it.
\<close>

locale container =
  fixes good :: "'t \<Rightarrow> bool"
    and elems :: "'t \<Rightarrow> ('k \<times> 'e) set"
    and room :: "'t \<Rightarrow> 'k \<Rightarrow> bool"
    and add :: "'t \<Rightarrow> 'k \<Rightarrow> 'e \<Rightarrow> 't"
    and del :: "'t \<Rightarrow> 'e \<Rightarrow> 't"
  assumes add_good: "good T \<Longrightarrow> room T k \<Longrightarrow> x \<notin> snd ` elems T \<Longrightarrow> good (add T k x)"
    and add_elems: "good T \<Longrightarrow> room T k \<Longrightarrow> x \<notin> snd ` elems T \<Longrightarrow> elems (add T k x) = insert (k, x) (elems T)"
    and del_good: "good T \<Longrightarrow> x \<in> snd ` elems T \<Longrightarrow> good (del T x)"
    and del_elems: "good T \<Longrightarrow> x \<in> snd ` elems T \<Longrightarrow> elems (del T x) = {y \<in> elems T. snd y \<noteq> x}"
begin

definition hooked :: "('p \<Rightarrow> 't option) \<Rightarrow> ('e \<Rightarrow> ('k \<times> 'p) option) \<Rightarrow> bool" where
  "hooked F M \<longleftrightarrow> (\<forall>p T. F p = Some T \<longrightarrow> good T \<and> elems T = {(k, x). M x = Some (k, p)})"

lemma hookedD:
  assumes "hooked F M" "F p = Some T"
  shows "good T" "(k, x) \<in> elems T \<longleftrightarrow> M x = Some (k, p)" "x \<in> snd ` elems T \<longleftrightarrow> (\<exists>k. M x = Some (k, p))"
proof -
  have "good T" and e: "elems T = {(k, x). M x = Some (k, p)}"
    using assms by (simp_all add: hooked_def)
  then show "good T" by simp
  show "(k, x) \<in> elems T \<longleftrightarrow> M x = Some (k, p)" using e by simp
  show "x \<in> snd ` elems T \<longleftrightarrow> (\<exists>k. M x = Some (k, p))" using e by force
qed

lemma hookedI:
  "(\<And>p T. F p = Some T \<Longrightarrow> good T \<and> (\<forall>k x. (k, x) \<in> elems T \<longleftrightarrow> M x = Some (k, p))) \<Longrightarrow> hooked F M"
  by (auto simp: hooked_def)

lemma hooked_empty [simp]: "hooked (\<lambda>_. None) M"
  by (simp add: hooked_def)

lemma hook:
  assumes h: "hooked F M" and T: "F p = Some T" and x: "M x = None" and r: "room T k"
  shows "hooked (F(p \<mapsto> add T k x)) (M(x \<mapsto> (k, p)))"
proof (rule hookedI)
  note D = hookedD [OF h]
  have n: "x \<notin> snd ` elems T" using D(3) [OF T] x by simp
  fix q S assume S: "(F(p \<mapsto> add T k x)) q = Some S"
  show "good S \<and> (\<forall>j y. (j, y) \<in> elems S \<longleftrightarrow> (M(x \<mapsto> (k, p))) y = Some (j, q))"
  proof (cases "q = p")
    case True
    then show ?thesis
      using S add_good [OF D(1) [OF T] r n] add_elems [OF D(1) [OF T] r n] D(2) [OF T] x by auto
  next
    case False
    then have "F q = Some S" using S by simp
    then show ?thesis using D [of q S] False x by auto
  qed
qed

lemma unhook:
  assumes h: "hooked F M" and T: "F p = Some T" and x: "M x = Some (k, p)"
  shows "x \<in> snd ` elems T" "hooked (F(p \<mapsto> del T x)) (M(x := None))"
proof -
  note D = hookedD [OF h]
  show m: "x \<in> snd ` elems T" using D(3) [OF T] x by simp
  show "hooked (F(p \<mapsto> del T x)) (M(x := None))"
  proof (rule hookedI)
    fix q S assume S: "(F(p \<mapsto> del T x)) q = Some S"
    show "good S \<and> (\<forall>j y. (j, y) \<in> elems S \<longleftrightarrow> (M(x := None)) y = Some (j, q))"
    proof (cases "q = p")
      case True
      then show ?thesis
        using S del_good [OF D(1) [OF T] m] del_elems [OF D(1) [OF T] m] D(2) [OF T] by auto
    next
      case False
      then have "F q = Some S" using S by simp
      then show ?thesis using D [of q S] False x by auto
    qed
  qed
qed

lemma new_owner:
  assumes "hooked F M" "good T" "elems T = {}" "\<And>x k. M x \<noteq> Some (k, p)"
  shows "hooked (F(p \<mapsto> T)) M"
  using assms by (auto simp: hooked_def)

lemma free_owner: "hooked F M \<Longrightarrow> hooked (F(p := None)) M"
  by (simp add: hooked_def)

end

end
