(* ===== verification/Nhdp_Db.thy ===== *)
theory Nhdp_Db
  imports Hooks
begin

text \<open>
  The neighborhood database of NHDP (\<open>src-plugins/nhdp/nhdp/nhdp_db.h\<close>, \<open>nhdp_db.c\<close> and the part of
  \<open>nhdp_interfaces.h\<close> that hooks objects into interfaces): neighbors with their addresses, links with
  the addresses of the other side and the addresses two hops away. The objects live in stores from
  addresses to records; following a pointer to an object that is not in its store, and removing an
  object from a tree or list that does not contain it, is the result \<open>None\<close>. Arrays with one element
  per domain are functions of the index of the domain.
\<close>

subsection \<open>Objects\<close>

datatype link_status = NHDP_LINK_PENDING | NHDP_LINK_LOST | NHDP_LINK_SYMMETRIC | NHDP_LINK_HEARD

record nhdp_metric =
  nm_in :: u32
  nm_out :: u32

record neighbor_domaindata =
  nd_metric :: nhdp_metric
  nd_best_link :: "ptr option"
  nd_best_link_ifindex :: u32
  nd_local_is_mpr :: bool
  nd_neigh_is_mpr :: bool
  nd_willingness :: u8

record nhdp_link =
  nl_vtime_value :: u64
  nl_itime_value :: u64
  nl_sym_time :: "u64 option"
  nl_heard_time :: "u64 option"
  nl_vtime :: "u64 option"
  nl_status :: link_status
  nl_local_if :: "ptr option"
  nl_dualstack_partner :: "ptr option"
  nl_neigh :: ptr
  nl_if_addr :: netaddr
  nl_remote_mac :: netaddr
  nl_process_count :: int
  nl_addresses :: "(netaddr, ptr) avl_tree"
  nl_2hop :: "(netaddr, ptr) avl_tree"
  nl_domaindata :: "nat \<Rightarrow> nhdp_metric"

record nhdp_laddr =
  ld_addr :: netaddr
  ld_link :: ptr
  ld_might_be_removed :: bool

record nhdp_l2hop =
  l2_addr :: netaddr
  l2_same_interface :: bool
  l2_link :: ptr
  l2_vtime :: "u64 option"
  l2_domaindata :: "nat \<Rightarrow> nhdp_metric"

record nhdp_neighbor =
  nn_originator :: netaddr
  nn_symmetric :: int
  nn_dualstack_partner :: "ptr option"
  nn_local_is_flooding_mpr :: bool
  nn_neigh_is_flooding_mpr :: bool
  nn_flooding_willingness :: u8
  nn_process_count :: int
  nn_links :: "ptr list"
  nn_neigh_addresses :: "(netaddr, ptr) avl_tree"
  nn_link_addresses :: "(netaddr, ptr) avl_tree"
  nn_domaindata :: "nat \<Rightarrow> neighbor_domaindata"

record nhdp_naddr =
  nx_addr :: netaddr
  nx_neigh :: ptr
  nx_laddr_count :: int
  nx_lost_vtime :: "u64 option"
  nx_this_if :: bool
  nx_might_be_removed :: bool

text \<open>The part of an interface that the database uses; the index is that of the interface listener.\<close>

record nhdp_interface =
  ni_name :: string
  ni_index :: u32
  ni_l_hold_time :: u64
  ni_n_hold_time :: u64
  ni_use_ipv4_for_flooding :: bool
  ni_use_ipv6_for_flooding :: bool
  ni_dualstack_af_type :: u8
  ni_links :: "ptr list"
  ni_link_addresses :: "(netaddr, ptr) avl_tree"
  ni_link_originators :: "(netaddr, ptr) avl_tree"
  ni_if_twohops :: "(netaddr, ptr) avl_tree"

datatype nhdp_object = Nhdp_Neighbor ptr | Nhdp_Link ptr | Nhdp_Laddr ptr | Nhdp_L2hop ptr | Nhdp_Naddr ptr

record nhdp_db =
  db_naddr_tree :: "(netaddr, ptr) avl_tree"
  db_neigh_list :: "ptr list"
  db_originator_tree :: "(netaddr, ptr) avl_tree"
  db_link_list :: "ptr list"
  db_neighs :: "ptr \<Rightarrow> nhdp_neighbor option"
  db_links :: "ptr \<Rightarrow> nhdp_link option"
  db_laddrs :: "ptr \<Rightarrow> nhdp_laddr option"
  db_l2hops :: "ptr \<Rightarrow> nhdp_l2hop option"
  db_naddrs :: "ptr \<Rightarrow> nhdp_naddr option"
  db_interfaces :: "ptr \<Rightarrow> nhdp_interface option"
  db_events :: "(class_event \<times> nhdp_object) list"

definition nhdp_db_init :: nhdp_db where
  "nhdp_db_init =
     \<lparr>db_naddr_tree = avl_init avl_comp_netaddr False, db_neigh_list = [],
      db_originator_tree = avl_init avl_comp_netaddr False, db_link_list = [], db_neighs = (\<lambda>_. None),
      db_links = (\<lambda>_. None), db_laddrs = (\<lambda>_. None), db_l2hops = (\<lambda>_. None), db_naddrs = (\<lambda>_. None),
      db_interfaces = (\<lambda>_. None), db_events = []\<rparr>"

definition nhdp_event :: "class_event \<Rightarrow> nhdp_object \<Rightarrow> nhdp_db \<Rightarrow> nhdp_db" where
  "nhdp_event ev x db = db\<lparr>db_events := db_events db @ [(ev, x)]\<rparr>"

subsection \<open>Domains\<close>

text \<open>
  Domains and their handlers (\<open>nhdp_domain.h\<close>). The handler of a domain is a copy of its record, whose
  values do not change after it was registered, and the address of the record, \<open>None\<close> for the handlers of
  \<open>nhdp_domain.c\<close> itself; of its optional callbacks it says whether they are there. An update of a
  listener is logged with the listener and the neighbor that changed.
\<close>

record domain_metric =
  dm_handler :: "ptr option"
  dm_name :: string
  dm_incoming_link_start :: u32
  dm_outgoing_link_start :: u32
  dm_incoming_2hop_start :: u32
  dm_outgoing_2hop_start :: u32
  dm_no_default_handling :: bool
  dm_enable :: bool
  dm_disable :: bool

record domain_mpr =
  dp_handler :: "ptr option"
  dp_name :: string
  dp_mpr_start :: bool
  dp_mprs_start :: bool
  dp_update :: bool
  dp_enable :: bool
  dp_disable :: bool

record nhdp_domain =
  do_metric_name :: string
  do_mpr_name :: string
  do_metric :: domain_metric
  do_mpr :: domain_mpr
  do_local_willingness :: u8
  do_neighbor_metric_changed :: bool
  do_ext :: u8
  do_index :: nat
  do_tmp_willingness :: u8

record domain_listener =
  dl_id :: ptr
  dl_update :: bool

record domains =
  ds_list :: "nhdp_domain list"
  ds_counter :: nat
  ds_flooding :: nhdp_domain
  ds_node_is_selected_as_mpr :: bool
  ds_listeners :: "domain_listener list"
  ds_updates :: "(ptr \<times> ptr option) list"

definition RFC7181_WILLINGNESS_NEVER :: u8 where "RFC7181_WILLINGNESS_NEVER = 0"

definition max_metric :: nhdp_metric where
  "max_metric = \<lparr>nm_in = RFC7181_METRIC_MAX, nm_out = RFC7181_METRIC_MAX\<rparr>"

definition start_link_metric :: "nhdp_domain \<Rightarrow> (nat \<Rightarrow> nhdp_metric) \<Rightarrow> nat \<Rightarrow> nhdp_metric" where
  "start_link_metric d f = f(do_index d := \<lparr>nm_in = dm_incoming_link_start (do_metric d), nm_out = dm_outgoing_link_start (do_metric d)\<rparr>)"

definition nhdp_domain_init_link :: "domains \<Rightarrow> nhdp_link \<Rightarrow> nhdp_link" where
  "nhdp_domain_init_link ds l = l\<lparr>nl_domaindata := fold start_link_metric (ds_list ds) (\<lambda>_. max_metric)\<rparr>"

definition start_2hop_metric :: "nhdp_domain \<Rightarrow> (nat \<Rightarrow> nhdp_metric) \<Rightarrow> nat \<Rightarrow> nhdp_metric" where
  "start_2hop_metric d f = f(do_index d := \<lparr>nm_in = dm_incoming_2hop_start (do_metric d), nm_out = dm_outgoing_2hop_start (do_metric d)\<rparr>)"

definition nhdp_domain_init_l2hop :: "domains \<Rightarrow> nhdp_l2hop \<Rightarrow> nhdp_l2hop" where
  "nhdp_domain_init_l2hop ds h = h\<lparr>l2_domaindata := fold start_2hop_metric (ds_list ds) (\<lambda>_. max_metric)\<rparr>"

definition start_neighbor_data :: "nhdp_domain \<Rightarrow> (nat \<Rightarrow> neighbor_domaindata) \<Rightarrow> nat \<Rightarrow> neighbor_domaindata" where
  "start_neighbor_data d f = f(do_index d := (f (do_index d))
     \<lparr>nd_metric := \<lparr>nm_in = dm_incoming_link_start (do_metric d), nm_out = dm_outgoing_link_start (do_metric d)\<rparr>,
      nd_best_link := None, nd_willingness := RFC7181_WILLINGNESS_NEVER,
      nd_local_is_mpr := dp_mprs_start (do_mpr d), nd_neigh_is_mpr := dp_mpr_start (do_mpr d)\<rparr>)"

definition nhdp_domain_init_neighbor :: "domains \<Rightarrow> nhdp_neighbor \<Rightarrow> nhdp_neighbor" where
  "nhdp_domain_init_neighbor ds n =
     n\<lparr>nn_flooding_willingness := RFC7181_WILLINGNESS_NEVER,
       nn_local_is_flooding_mpr := dp_mprs_start (do_mpr (ds_flooding ds)),
       nn_neigh_is_flooding_mpr := dp_mpr_start (do_mpr (ds_flooding ds)),
       nn_domaindata := fold start_neighbor_data (ds_list ds) (\<lambda>i. (nn_domaindata n i)\<lparr>nd_metric := max_metric\<rparr>)\<rparr>"

subsection \<open>Access\<close>

definition tree_remove :: "('k, ptr) avl_tree \<Rightarrow> ptr \<Rightarrow> ('k, ptr) avl_tree option" where
  "tree_remove T x = (if x \<in> set (avl_elements T) then Some (avl_remove T x) else None)"

definition tree_insert :: "('k, ptr) avl_tree \<Rightarrow> 'k \<Rightarrow> ptr \<Rightarrow> ('k, ptr) avl_tree" where
  "tree_insert T k x = snd (avl_insert T k x)"

definition list_take_out :: "ptr list \<Rightarrow> ptr \<Rightarrow> ptr list option" where
  "list_take_out xs x = (if x \<in> set xs then Some (remove1 x xs) else None)"

definition upd_neigh :: "ptr \<Rightarrow> (nhdp_neighbor \<Rightarrow> nhdp_neighbor option) \<Rightarrow> nhdp_db \<Rightarrow> nhdp_db option" where
  "upd_neigh p f db = do {
     n \<leftarrow> db_neighs db p;
     n \<leftarrow> f n;
     Some (db\<lparr>db_neighs := (db_neighs db)(p \<mapsto> n)\<rparr>)
   }"

definition upd_link :: "ptr \<Rightarrow> (nhdp_link \<Rightarrow> nhdp_link option) \<Rightarrow> nhdp_db \<Rightarrow> nhdp_db option" where
  "upd_link p f db = do {
     n \<leftarrow> db_links db p;
     n \<leftarrow> f n;
     Some (db\<lparr>db_links := (db_links db)(p \<mapsto> n)\<rparr>)
   }"

definition upd_interface :: "ptr \<Rightarrow> (nhdp_interface \<Rightarrow> nhdp_interface option) \<Rightarrow> nhdp_db \<Rightarrow> nhdp_db option" where
  "upd_interface p f db = do {
     n \<leftarrow> db_interfaces db p;
     n \<leftarrow> f n;
     Some (db\<lparr>db_interfaces := (db_interfaces db)(p \<mapsto> n)\<rparr>)
   }"

definition upd_laddr :: "ptr \<Rightarrow> (nhdp_laddr \<Rightarrow> nhdp_laddr) \<Rightarrow> nhdp_db \<Rightarrow> nhdp_db option" where
  "upd_laddr p f db = do {
     a \<leftarrow> db_laddrs db p;
     Some (db\<lparr>db_laddrs := (db_laddrs db)(p \<mapsto> f a)\<rparr>)
   }"

definition upd_l2hop :: "ptr \<Rightarrow> (nhdp_l2hop \<Rightarrow> nhdp_l2hop) \<Rightarrow> nhdp_db \<Rightarrow> nhdp_db option" where
  "upd_l2hop p f db = do {
     a \<leftarrow> db_l2hops db p;
     Some (db\<lparr>db_l2hops := (db_l2hops db)(p \<mapsto> f a)\<rparr>)
   }"

definition upd_naddr :: "ptr \<Rightarrow> (nhdp_naddr \<Rightarrow> nhdp_naddr) \<Rightarrow> nhdp_db \<Rightarrow> nhdp_db option" where
  "upd_naddr p f db = do {
     a \<leftarrow> db_naddrs db p;
     Some (db\<lparr>db_naddrs := (db_naddrs db)(p \<mapsto> f a)\<rparr>)
   }"

text \<open>Loops over a list of objects.\<close>

fun for_each :: "('a \<Rightarrow> 's \<Rightarrow> 's option) \<Rightarrow> 'a list \<Rightarrow> 's \<Rightarrow> 's option" where
  "for_each f [] st = Some st"
| "for_each f (x # xs) st = f x st \<bind> for_each f xs"

definition nhdp_db_neighbor_addr_get :: "nhdp_db \<Rightarrow> netaddr \<Rightarrow> ptr option" where
  "nhdp_db_neighbor_addr_get db addr = avl_find (db_naddr_tree db) addr"

definition nhdp_db_neighbor_get_by_originator :: "nhdp_db \<Rightarrow> netaddr \<Rightarrow> ptr option" where
  "nhdp_db_neighbor_get_by_originator db originator = avl_find (db_originator_tree db) originator"

definition nhdp_db_link_addr_get :: "nhdp_link \<Rightarrow> netaddr \<Rightarrow> ptr option" where
  "nhdp_db_link_addr_get lnk addr = avl_find (nl_addresses lnk) addr"

definition nhdp_db_link_2hop_get :: "nhdp_link \<Rightarrow> netaddr \<Rightarrow> ptr option" where
  "nhdp_db_link_2hop_get lnk addr = avl_find (nl_2hop lnk) addr"

definition nhdp_interface_get_link_addr :: "nhdp_interface \<Rightarrow> netaddr \<Rightarrow> ptr option" where
  "nhdp_interface_get_link_addr interf addr = avl_find (ni_link_addresses interf) addr"

definition nhdp_interface_link_get_by_originator :: "nhdp_interface \<Rightarrow> netaddr \<Rightarrow> ptr option" where
  "nhdp_interface_link_get_by_originator interf originator = avl_find (ni_link_originators interf) originator"

definition nhdp_db_2hop_is_lost :: "nhdp_l2hop \<Rightarrow> bool" where
  "nhdp_db_2hop_is_lost l = (l2_vtime l \<noteq> None)"

end
