(* ===== verification/Olsrv2_Local.thy ===== *)
theory Olsrv2_Local
  imports Olsrv2_Tc
begin

text \<open>
  What OLSRv2 knows of the local node: its originator addresses with the set of the ones it had
  before (\<open>src-plugins/olsrv2/olsrv2/olsrv2_originator.c\<close>, and the originators of NHDP in \<open>nhdp.c\<close>) and
  the locally attached networks (\<open>olsrv2_lan.c\<close>).
\<close>

subsection \<open>Originators\<close>

record originator_entry =
  oe_originator :: netaddr
  oe_vtime :: "u64 option"

record originator_set =
  og_v4 :: netaddr
  og_v6 :: netaddr
  og_tree :: "(netaddr, ptr) avl_tree"
  og_entries :: "ptr \<Rightarrow> originator_entry option"
  og_nhdp_v4 :: netaddr
  og_nhdp_v6 :: netaddr

definition originator_init :: originator_set where
  "originator_init =
     \<lparr>og_v4 = na_const [] 0 0, og_v6 = na_const [] 0 0, og_tree = avl_init avl_comp_netaddr False,
      og_entries = (\<lambda>_. None), og_nhdp_v4 = na_const [] 0 0, og_nhdp_v6 = na_const [] 0 0\<rparr>"

definition originator_get :: "originator_set \<Rightarrow> u8 \<Rightarrow> netaddr option" where
  "originator_get S af = (if af = AF_INET then Some (og_v4 S) else if af = AF_INET6 then Some (og_v6 S) else None)"

definition originator_get_entry :: "originator_set \<Rightarrow> netaddr \<Rightarrow> ptr option" where
  "originator_get_entry S addr = avl_find (og_tree S) addr"

definition originator_is_local :: "originator_set \<Rightarrow> netaddr \<Rightarrow> bool" where
  "originator_is_local S addr =
     (if netaddr_cmp (og_v4 S) addr = 0 then True
      else if netaddr_cmp (og_v6 S) addr = 0 then True
      else originator_get_entry S addr \<noteq> None)"

definition remember_removed_originator :: "ptr option \<Rightarrow> netaddr \<Rightarrow> u64 \<Rightarrow> originator_set \<Rightarrow> originator_set option" where
  "remember_removed_originator alloc originator vtime S =
     (case originator_get_entry S originator of
        None \<Rightarrow>
          (case alloc of
             None \<Rightarrow> Some S
           | Some p \<Rightarrow> Some (S\<lparr>og_entries := (og_entries S)(p \<mapsto> \<lparr>oe_originator = originator, oe_vtime = timer_interval vtime\<rparr>),
                              og_tree := snd (avl_insert (og_tree S) originator p)\<rparr>))
      | Some p \<Rightarrow> do {
          e \<leftarrow> og_entries S p;
          Some (S\<lparr>og_entries := (og_entries S)(p \<mapsto> e\<lparr>oe_vtime := timer_interval vtime\<rparr>)\<rparr>)
        })"

definition remove_originator_entry :: "ptr \<Rightarrow> originator_set \<Rightarrow> originator_set" where
  "remove_originator_entry p S =
     S\<lparr>og_tree := avl_remove (og_tree S) p, og_entries := (og_entries S)(p := None)\<rparr>"

definition nhdp_set_originator :: "netaddr \<Rightarrow> originator_set \<Rightarrow> originator_set" where
  "nhdp_set_originator addr S =
     (if na_type addr = AF_INET then S\<lparr>og_nhdp_v4 := addr\<rparr>
      else if na_type addr = AF_INET6 then S\<lparr>og_nhdp_v6 := addr\<rparr>
      else S)"

definition nhdp_reset_originator :: "u8 \<Rightarrow> originator_set \<Rightarrow> originator_set" where
  "nhdp_reset_originator af S =
     (if af = AF_INET then S\<lparr>og_nhdp_v4 := netaddr_invalidate\<rparr>
      else if af = AF_INET6 then S\<lparr>og_nhdp_v6 := netaddr_invalidate\<rparr>
      else S)"

text \<open>\<open>_set_originator\<close>; the storage of the originator is the one of the address family.\<close>

definition originator_setting :: "u8 \<Rightarrow> originator_set \<Rightarrow> netaddr" where
  "originator_setting af S = (if af = AF_INET then og_v4 S else og_v6 S)"

definition store_setting :: "u8 \<Rightarrow> netaddr \<Rightarrow> originator_set \<Rightarrow> originator_set" where
  "store_setting af a S = (if af = AF_INET then S\<lparr>og_v4 := a\<rparr> else S\<lparr>og_v6 := a\<rparr>)"

definition set_originator :: "ptr option \<Rightarrow> u64 \<Rightarrow> u8 \<Rightarrow> netaddr \<Rightarrow> originator_set \<Rightarrow> originator_set option" where
  "set_originator alloc validity af new S = do {
     S \<leftarrow> (if na_type (originator_setting af S) \<noteq> AF_UNSPEC
          then remember_removed_originator alloc (originator_setting af S) validity S else Some S);
     let S = store_setting af new S;
     let S = (case originator_get_entry S new of Some p \<Rightarrow> remove_originator_entry p S | None \<Rightarrow> S);
     Some (if na_type new \<noteq> AF_UNSPEC then nhdp_set_originator new S else nhdp_reset_originator af S)
   }"

definition olsrv2_originator_set :: "ptr option \<Rightarrow> u64 \<Rightarrow> netaddr \<Rightarrow> originator_set \<Rightarrow> originator_set option" where
  "olsrv2_originator_set alloc validity originator S =
     (if na_type originator = AF_INET then set_originator alloc validity AF_INET originator S
      else if na_type originator = AF_INET6 then set_originator alloc validity AF_INET6 originator S
      else Some S)"

definition cb_originator_entry_vtime :: "ptr \<Rightarrow> originator_set \<Rightarrow> originator_set" where
  "cb_originator_entry_vtime p S = remove_originator_entry p S"

definition originator_cleanup :: "originator_set \<Rightarrow> originator_set" where
  "originator_cleanup S = fold remove_originator_entry (avl_elements (og_tree S)) S"

subsection \<open>Locally attached networks\<close>

record lan_domaindata =
  la_outgoing_metric :: u32
  la_distance :: u8
  la_active :: bool

record lan_entry =
  le_prefix :: route_key
  le_same_distance :: bool
  le_domaindata :: "nat \<Rightarrow> lan_domaindata"

record lan_set =
  lan_tree :: "(route_key, ptr) avl_tree"
  lan_entries :: "ptr \<Rightarrow> lan_entry option"

definition lan_init :: lan_set where
  "lan_init = \<lparr>lan_tree = avl_init avl_cmp_route_key False, lan_entries = (\<lambda>_. None)\<rparr>"

definition lan_get :: "lan_set \<Rightarrow> route_key \<Rightarrow> ptr option" where
  "lan_get L prefix = avl_find (lan_tree L) prefix"

text \<open>The comparison of the distances of the active domains.\<close>

fun lan_same_distance :: "lan_domaindata list \<Rightarrow> u8 \<Rightarrow> bool" where
  "lan_same_distance [] tmp_dist = True"
| "lan_same_distance (d # ds) tmp_dist =
     (if la_active d
      then let t = (if tmp_dist = 0 then la_distance d else tmp_dist)
           in if t \<noteq> la_distance d then False else lan_same_distance ds t
      else lan_same_distance ds tmp_dist)"

definition domain_list :: "(nat \<Rightarrow> 'a) \<Rightarrow> 'a list" where
  "domain_list f = map f [0..<NHDP_MAXIMUM_DOMAINS]"

definition new_lan_entry :: "route_key \<Rightarrow> lan_entry" where
  "new_lan_entry prefix =
     \<lparr>le_prefix = prefix, le_same_distance = True,
      le_domaindata = (\<lambda>_. \<lparr>la_outgoing_metric = RFC7181_METRIC_INFINITE, la_distance = 0, la_active = False\<rparr>)\<rparr>"

definition lan_update_entry :: "nat \<Rightarrow> u32 \<Rightarrow> u8 \<Rightarrow> lan_entry \<Rightarrow> lan_entry" where
  "lan_update_entry domain metric distance e =
     (let dd = (le_domaindata e)(domain := \<lparr>la_outgoing_metric = metric, la_distance = distance, la_active = True\<rparr>)
      in e\<lparr>le_domaindata := dd, le_same_distance := lan_same_distance (domain_list dd) 0\<rparr>)"

definition lan_add :: "ptr option \<Rightarrow> nat \<Rightarrow> route_key \<Rightarrow> u32 \<Rightarrow> u8 \<Rightarrow> lan_set \<Rightarrow> (ptr option \<times> lan_set) option" where
  "lan_add alloc domain prefix metric distance L =
     (case lan_get L prefix of
        Some p \<Rightarrow> do {
          e \<leftarrow> lan_entries L p;
          Some (Some p, L\<lparr>lan_entries := (lan_entries L)(p \<mapsto> lan_update_entry domain metric distance e)\<rparr>)
        }
      | None \<Rightarrow>
          (case alloc of
             None \<Rightarrow> Some (None, L)
           | Some p \<Rightarrow>
               Some (Some p, L\<lparr>lan_tree := snd (avl_insert (lan_tree L) prefix p),
                 lan_entries := (lan_entries L)(p \<mapsto> lan_update_entry domain metric distance (new_lan_entry prefix))\<rparr>)))"

definition lan_remove_entry :: "ptr \<Rightarrow> lan_set \<Rightarrow> lan_set" where
  "lan_remove_entry p L = L\<lparr>lan_tree := avl_remove (lan_tree L) p, lan_entries := (lan_entries L)(p := None)\<rparr>"

definition lan_remove :: "nat \<Rightarrow> route_key \<Rightarrow> lan_set \<Rightarrow> lan_set option" where
  "lan_remove domain prefix L =
     (case lan_get L prefix of
        None \<Rightarrow> Some L
      | Some p \<Rightarrow> do {
          e \<leftarrow> lan_entries L p;
          let dd = (le_domaindata e)(domain := (le_domaindata e domain)\<lparr>la_active := False\<rparr>);
          let L = L\<lparr>lan_entries := (lan_entries L)(p \<mapsto> e\<lparr>le_domaindata := dd\<rparr>)\<rparr>;
          Some (if list_ex la_active (domain_list dd) then L else lan_remove_entry p L)
        })"

definition lan_cleanup :: "lan_set \<Rightarrow> lan_set" where
  "lan_cleanup L = fold lan_remove_entry (avl_elements (lan_tree L)) L"

subsection \<open>Consistency\<close>

text \<open>The trees hold exactly the entries of the stores, and every operation keeps it so.\<close>

definition originators_of :: "(ptr \<Rightarrow> originator_entry option) \<Rightarrow> (netaddr \<times> ptr) set" where
  "originators_of es = {(k, p). case es p of None \<Rightarrow> False | Some e \<Rightarrow> k = oe_originator e}"

definition originator_ok :: "originator_set \<Rightarrow> bool" where
  "originator_ok S \<longleftrightarrow> index_ok avl_comp_netaddr (og_tree S) \<and> index_set (og_tree S) = originators_of (og_entries S)"

definition lans_of :: "(ptr \<Rightarrow> lan_entry option) \<Rightarrow> (route_key \<times> ptr) set" where
  "lans_of es = {(k, p). case es p of None \<Rightarrow> False | Some e \<Rightarrow> k = le_prefix e}"

definition lan_ok :: "lan_set \<Rightarrow> bool" where
  "lan_ok L \<longleftrightarrow> index_ok avl_cmp_route_key (lan_tree L) \<and> index_set (lan_tree L) = lans_of (lan_entries L)"

lemma originator_init_ok: "originator_ok originator_init"
  by (simp add: originator_ok_def originator_init_def originators_of_def)

lemma originator_entry_iff:
  assumes "originator_ok S"
  shows "originator_get_entry S a = Some p \<longleftrightarrow> (\<exists>e. og_entries S p = Some e \<and> oe_originator e = a)"
  using assms addr_index.find_iff [of "og_tree S" a p]
  by (auto simp: originator_ok_def originator_get_entry_def originators_of_def split: option.splits)

lemma remember_removed_originator_ok:
  assumes S: "originator_ok S" and fresh: "\<And>p. alloc = Some p \<Longrightarrow> og_entries S p = None"
  shows "\<exists>S'. remember_removed_originator alloc a v S = Some S' \<and> originator_ok S'"
proof (cases "originator_get_entry S a")
  case (Some p)
  then obtain e where e: "og_entries S p = Some e" using originator_entry_iff [OF S] by auto
  have "originators_of ((og_entries S)(p \<mapsto> e\<lparr>oe_vtime := timer_interval v\<rparr>)) = originators_of (og_entries S)"
    using e by (auto simp: originators_of_def split: if_splits)
  then show ?thesis using S Some e by (simp add: remember_removed_originator_def originator_ok_def)
next
  case None
  show ?thesis
  proof (cases alloc)
    case (Some p)
    have f: "og_entries S p = None" using fresh Some by simp
    have T: "index_ok avl_comp_netaddr (og_tree S)" "index_set (og_tree S) = originators_of (og_entries S)"
      using S by (simp_all add: originator_ok_def)
    have "p \<notin> set (avl_elements (og_tree S))" using f T(2) by (auto simp: in_elements originators_of_def)
    note i = addr_index.insert_new [OF T(1) None [unfolded originator_get_entry_def] this]
    have "originators_of ((og_entries S)(p \<mapsto> \<lparr>oe_originator = a, oe_vtime = timer_interval v\<rparr>)) = insert (a, p) (originators_of (og_entries S))"
      using f by (auto simp: originators_of_def split: if_splits)
    then show ?thesis using None Some i T(2) by (simp add: remember_removed_originator_def originator_ok_def)
  qed (use None S in \<open>simp add: remember_removed_originator_def\<close>)
qed

lemma remove_originator_entry_ok:
  assumes S: "originator_ok S" and p: "og_entries S p \<noteq> None"
  shows "originator_ok (remove_originator_entry p S)"
proof -
  have T: "index_ok avl_comp_netaddr (og_tree S)" "index_set (og_tree S) = originators_of (og_entries S)"
    using S by (simp_all add: originator_ok_def)
  have "p \<in> set (avl_elements (og_tree S))" using p T(2) by (auto simp: in_elements originators_of_def)
  note r = addr_index.remove_old [OF T(1) this]
  have "originators_of ((og_entries S)(p := None)) = {x \<in> originators_of (og_entries S). snd x \<noteq> p}"
    by (auto simp: originators_of_def)
  then show ?thesis using r T(2) by (simp add: originator_ok_def remove_originator_entry_def)
qed

lemma nhdp_originator_ok: "originator_ok S \<Longrightarrow> originator_ok (nhdp_set_originator a S)"
  "originator_ok S \<Longrightarrow> originator_ok (nhdp_reset_originator af S)"
  by (simp_all add: nhdp_set_originator_def nhdp_reset_originator_def originator_ok_def)

lemma set_originator_ok:
  assumes S: "originator_ok S" and fresh: "\<And>p. alloc = Some p \<Longrightarrow> og_entries S p = None"
  shows "\<exists>S'. set_originator alloc v af a S = Some S' \<and> originator_ok S'"
proof -
  have r: "\<exists>S'. remember_removed_originator alloc (originator_setting af S) v S = Some S' \<and> originator_ok S'"
    by (rule remember_removed_originator_ok [OF S]) (rule fresh)
  obtain S1 where 1: "(if na_type (originator_setting af S) \<noteq> AF_UNSPEC
          then remember_removed_originator alloc (originator_setting af S) v S else Some S) = Some S1" "originator_ok S1"
    using r S by (cases "na_type (originator_setting af S) \<noteq> AF_UNSPEC") auto
  let ?S2 = "store_setting af a S1"
  have 2: "originator_ok ?S2" using 1(2) by (simp add: store_setting_def originator_ok_def)
  let ?S3 = "case originator_get_entry ?S2 a of Some p \<Rightarrow> remove_originator_entry p ?S2 | None \<Rightarrow> ?S2"
  have 3: "originator_ok ?S3"
    using 2 remove_originator_entry_ok [OF 2] originator_entry_iff [OF 2] by (auto split: option.split)
  have "set_originator alloc v af a S = Some (if na_type a \<noteq> AF_UNSPEC then nhdp_set_originator a ?S3 else nhdp_reset_originator af ?S3)"
    unfolding set_originator_def Let_def by (simp only: 1(1) bind.bind_lunit)
  then show ?thesis using nhdp_originator_ok [OF 3] by simp
qed

lemma lan_init_ok: "lan_ok lan_init"
  by (simp add: lan_ok_def lan_init_def lans_of_def)

lemma lan_get_iff:
  assumes "lan_ok L"
  shows "lan_get L k = Some p \<longleftrightarrow> (\<exists>e. lan_entries L p = Some e \<and> le_prefix e = k)"
  using assms route_index.find_iff [of "lan_tree L" k p]
  by (auto simp: lan_ok_def lan_get_def lans_of_def split: option.splits)

lemma lan_same: "lan_entries L p = Some e \<Longrightarrow> le_prefix e' = le_prefix e \<Longrightarrow>
    lan_ok (L\<lparr>lan_entries := (lan_entries L)(p \<mapsto> e')\<rparr>) = lan_ok L"
proof -
  assume "lan_entries L p = Some e" "le_prefix e' = le_prefix e"
  then have "lans_of ((lan_entries L)(p \<mapsto> e')) = lans_of (lan_entries L)" by (auto simp: lans_of_def split: if_splits)
  then show ?thesis by (simp add: lan_ok_def)
qed

lemma lan_add_ok:
  assumes L: "lan_ok L" and fresh: "\<And>p. alloc = Some p \<Longrightarrow> lan_entries L p = None"
  shows "\<exists>r L'. lan_add alloc d k m x L = Some (r, L') \<and> lan_ok L'"
proof (cases "lan_get L k")
  case (Some p)
  then obtain e where e: "lan_entries L p = Some e" using lan_get_iff [OF L] by auto
  have "le_prefix (lan_update_entry d m x e) = le_prefix e" by (simp add: lan_update_entry_def Let_def)
  then show ?thesis using Some e L lan_same [OF e] by (simp add: lan_add_def)
next
  case None
  show ?thesis
  proof (cases alloc)
    case (Some p)
    have f: "lan_entries L p = None" using fresh Some by simp
    have T: "index_ok avl_cmp_route_key (lan_tree L)" "index_set (lan_tree L) = lans_of (lan_entries L)"
      using L by (simp_all add: lan_ok_def)
    have "p \<notin> set (avl_elements (lan_tree L))" using f T(2) by (auto simp: in_elements lans_of_def)
    note i = route_index.insert_new [OF T(1) None [unfolded lan_get_def] this]
    have "lans_of ((lan_entries L)(p \<mapsto> lan_update_entry d m x (new_lan_entry k))) = insert (k, p) (lans_of (lan_entries L))"
      using f by (auto simp: lans_of_def lan_update_entry_def new_lan_entry_def Let_def split: if_splits)
    then show ?thesis using None Some i T(2) by (simp add: lan_add_def lan_ok_def)
  qed (use None L in \<open>simp add: lan_add_def\<close>)
qed

lemma lan_remove_ok:
  assumes L: "lan_ok L"
  shows "\<exists>L'. lan_remove d k L = Some L' \<and> lan_ok L'"
proof (cases "lan_get L k")
  case (Some p)
  then obtain e where e: "lan_entries L p = Some e" using lan_get_iff [OF L] by auto
  let ?e = "e\<lparr>le_domaindata := (le_domaindata e)(d := (le_domaindata e d)\<lparr>la_active := False\<rparr>)\<rparr>"
  let ?L = "L\<lparr>lan_entries := (lan_entries L)(p \<mapsto> ?e)\<rparr>"
  have 1: "lan_ok ?L" using lan_same [OF e, of ?e] L by simp
  have T: "index_ok avl_cmp_route_key (lan_tree L)" "index_set (lan_tree L) = lans_of (lan_entries L)"
    using L by (simp_all add: lan_ok_def)
  have "p \<in> set (avl_elements (lan_tree L))" using e T(2) by (auto simp: in_elements lans_of_def)
  note r = route_index.remove_old [OF T(1) this]
  have "lans_of ((lan_entries L)(p := None)) = {x \<in> lans_of (lan_entries L). snd x \<noteq> p}" by (auto simp: lans_of_def)
  then have "lan_ok (lan_remove_entry p ?L)" using r T(2) by (simp add: lan_ok_def lan_remove_entry_def)
  then show ?thesis using Some e 1 by (auto simp: lan_remove_def Let_def)
qed (use L in \<open>simp add: lan_remove_def\<close>)

text \<open>A distance of 0 counts as unknown: the distances 0 and 5 of two active domains are taken as the same.\<close>

lemma lan_same_distance_ignores_zero:
  "lan_same_distance
     [\<lparr>la_outgoing_metric = 1, la_distance = 0, la_active = True\<rparr>, \<lparr>la_outgoing_metric = 1, la_distance = 5, la_active = True\<rparr>] 0"
  by simp

end
