(* ===== verification/Olsrv2_Routing.thy ===== *)
theory Olsrv2_Routing
  imports Nhdp_Db Olsrv2_Local Netaddr_Text
begin

text \<open>
  Shortest paths and the routing set of OLSRv2 (\<open>src-plugins/olsrv2/olsrv2/olsrv2_routing.c\<close>). The
  data that a run only reads, the topology, the neighborhood and the local node, is one record; the
  Dijkstra data of the targets, the working tree and the routing entries are the state. A target is a
  node or an endpoint of the topology; the test of the type in the code is the case distinction here.
\<close>

subsection \<open>State\<close>

datatype target = Node_Target ptr | End_Target ptr

record dijkstra_node =
  dj_path_cost :: u32
  dj_path_hops :: u8
  dj_distance :: u8
  dj_first_hop :: "ptr option"
  dj_last_originator :: "netaddr option"
  dj_single_hop :: bool
  dj_local :: bool
  dj_done :: bool

datatype route_type = OS_ROUTE_UNDEFINED | OS_ROUTE_UNICAST | OS_ROUTE_LOCAL | OS_ROUTE_BROADCAST
  | OS_ROUTE_MULTICAST | OS_ROUTE_THROW | OS_ROUTE_UNREACHABLE | OS_ROUTE_PROHIBIT | OS_ROUTE_BLACKHOLE | OS_ROUTE_NAT

record route_parameter =
  rp_family :: u8
  rp_type :: route_type
  rp_key :: route_key
  rp_gw :: netaddr
  rp_src_ip :: netaddr
  rp_metric :: int
  rp_table :: u8
  rp_protocol :: u8
  rp_if_index :: u32

record routing_entry =
  re_route :: route_parameter
  re_domain :: nat
  re_path_cost :: u32
  re_path_hops :: u8
  re_next_originator :: netaddr
  re_last_originator :: netaddr
  re_set :: bool
  re_in_processing :: bool
  re_old :: route_parameter

record routing_domain =
  rd_use_srcip_in_routes :: bool
  rd_protocol :: int
  rd_table :: int
  rd_distance :: int
  rd_source_specific :: bool

record environment =
  ev_tc :: tc_db
  ev_nhdp :: nhdp_db
  ev_originators :: originator_set
  ev_lan :: lan_set
  ev_if_addresses :: "(netaddr, ptr) avl_tree"
  ev_routable :: netaddr_acl

record routing =
  rt_tree :: "nat \<Rightarrow> (route_key, ptr) avl_tree"
  rt_entries :: "ptr \<Rightarrow> routing_entry option"
  rt_working :: "(u32, target) avl_tree"
  rt_nodes :: "target \<Rightarrow> dijkstra_node"

text \<open>The allocator for routing entries: an unused address, or \<open>None\<close> when there is no memory.\<close>

type_synonym allocator = "(ptr \<Rightarrow> routing_entry option) \<Rightarrow> ptr option"

definition zero_parameter :: route_parameter where
  "zero_parameter =
     \<lparr>rp_family = 0, rp_type = OS_ROUTE_UNDEFINED, rp_key = \<lparr>rk_dst = NETADDR_UNSPEC, rk_src = NETADDR_UNSPEC\<rparr>,
      rp_gw = NETADDR_UNSPEC, rp_src_ip = NETADDR_UNSPEC, rp_metric = 0, rp_table = 0, rp_protocol = 0, rp_if_index = 0\<rparr>"

definition new_entry :: "nat \<Rightarrow> route_key \<Rightarrow> routing_entry" where
  "new_entry domain prefix =
     \<lparr>re_route = zero_parameter\<lparr>rp_key := prefix, rp_family := na_type (rk_dst prefix), rp_type := OS_ROUTE_UNICAST\<rparr>,
      re_domain = domain, re_path_cost = RFC7181_METRIC_INFINITE_PATH, re_path_hops = 255,
      re_next_originator = NETADDR_UNSPEC, re_last_originator = NETADDR_UNSPEC, re_set = False,
      re_in_processing = False, re_old = zero_parameter\<rparr>"

definition upd_entry :: "ptr \<Rightarrow> (routing_entry \<Rightarrow> routing_entry) \<Rightarrow> routing \<Rightarrow> routing option" where
  "upd_entry p f st = do {
     e \<leftarrow> rt_entries st p;
     Some (st\<lparr>rt_entries := (rt_entries st)(p \<mapsto> f e)\<rparr>)
   }"

definition upd_dijkstra :: "target \<Rightarrow> (dijkstra_node \<Rightarrow> dijkstra_node) \<Rightarrow> routing \<Rightarrow> routing" where
  "upd_dijkstra t f st = st\<lparr>rt_nodes := (rt_nodes st)(t := f (rt_nodes st t))\<rparr>"

definition add_entry :: "allocator \<Rightarrow> nat \<Rightarrow> route_key \<Rightarrow> routing \<Rightarrow> ptr option \<times> routing" where
  "add_entry alloc domain prefix st =
     (case avl_find (rt_tree st domain) prefix of
        Some p \<Rightarrow> (Some p, st)
      | None \<Rightarrow>
          (case alloc (rt_entries st) of
             None \<Rightarrow> (None, st)
           | Some p \<Rightarrow>
               (Some p, st\<lparr>rt_entries := (rt_entries st)(p \<mapsto> new_entry domain prefix),
                  rt_tree := (rt_tree st)(domain := snd (avl_insert (rt_tree st domain) prefix p))\<rparr>)))"

subsection \<open>The working tree\<close>

definition insert_into_working_tree ::
  "target \<Rightarrow> ptr \<Rightarrow> u32 \<Rightarrow> u32 \<Rightarrow> u8 \<Rightarrow> u8 \<Rightarrow> bool \<Rightarrow> netaddr option \<Rightarrow> routing \<Rightarrow> routing" where
  "insert_into_working_tree t neigh linkcost path_cost path_hops distance single_hop last_originator st =
     (if linkcost > RFC7181_METRIC_MAX then st
      else let n = rt_nodes st t
      in if dj_local n \<or> dj_done n then st
      else let path_cost = path_cost + linkcost;
               path_hops = path_hops + 1;
               queued = t \<in> set (avl_elements (rt_working st))
      in if queued \<and> dj_path_cost n \<le> path_cost then st
      else let st = (if queued then st\<lparr>rt_working := avl_remove (rt_working st) t\<rparr> else st);
               st = upd_dijkstra t (\<lambda>n. n\<lparr>dj_path_cost := path_cost, dj_path_hops := path_hops,
                      dj_first_hop := Some neigh, dj_distance := distance, dj_single_hop := single_hop,
                      dj_last_originator := last_originator\<rparr>) st
      in st\<lparr>rt_working := snd (avl_insert (rt_working st) path_cost t)\<rparr>)"

subsection \<open>Routing entries\<close>

text \<open>The destinations for which no route is set.\<close>

definition route_refused :: "environment \<Rightarrow> nat \<Rightarrow> route_key \<Rightarrow> u32 \<Rightarrow> bool option" where
  "route_refused env domain prefix pathcost = do {
     originator \<leftarrow> originator_get (ev_originators env) (na_type (rk_dst prefix));
     if netaddr_cmp originator (rk_dst prefix) = 0 then Some True
     else if avl_find (ev_if_addresses env) (rk_dst prefix) \<noteq> None then Some True
     else do {
       better \<leftarrow> (case lan_get (ev_lan env) prefix of
                   None \<Rightarrow> Some False
                 | Some p \<Rightarrow> do {
                     l \<leftarrow> lan_entries (ev_lan env) p;
                     Some (la_active (le_domaindata l domain) \<and> la_outgoing_metric (le_domaindata l domain) < pathcost)
                   });
       if better then Some True
       else do {
         routable \<leftarrow> netaddr_acl_check_accept (ev_routable env) (rk_dst prefix);
         Some (\<not> routable)
       }
     }
   }"

definition fill_entry ::
  "neighbor_domaindata \<Rightarrow> nhdp_neighbor \<Rightarrow> netaddr \<Rightarrow> u8 \<Rightarrow> u32 \<Rightarrow> u8 \<Rightarrow> bool \<Rightarrow> netaddr \<Rightarrow> routing_entry \<Rightarrow> routing_entry" where
  "fill_entry nd neigh if_addr distance pathcost path_hops single_hop last_originator e =
     e\<lparr>re_route := (re_route e)\<lparr>rp_if_index := nd_best_link_ifindex nd, rp_metric := uint distance,
         rp_gw := (if single_hop \<and> netaddr_cmp if_addr (rk_dst (rp_key (re_route e))) = 0
                   then netaddr_invalidate else if_addr)\<rparr>,
       re_path_cost := pathcost, re_path_hops := path_hops, re_next_originator := nn_originator neigh,
       re_last_originator := last_originator, re_set := True\<rparr>"

definition update_routing_entry ::
  "environment \<Rightarrow> allocator \<Rightarrow> nat \<Rightarrow> route_key \<Rightarrow> ptr option \<Rightarrow> u8 \<Rightarrow> u32 \<Rightarrow> u8 \<Rightarrow> bool \<Rightarrow> netaddr option
     \<Rightarrow> routing \<Rightarrow> routing option" where
  "update_routing_entry env alloc domain prefix first_hop distance pathcost path_hops single_hop last_originator st = do {
     refused \<leftarrow> route_refused env domain prefix pathcost;
     if refused then Some st
     else (case add_entry alloc domain prefix st of
         (None, st) \<Rightarrow> Some st
       | (Some p, st) \<Rightarrow> do {
           e \<leftarrow> rt_entries st p;
           if re_set e \<and> re_path_cost e < pathcost then Some st
           else do {
             f \<leftarrow> first_hop;
             neigh \<leftarrow> db_neighs (ev_nhdp env) f;
             last_orig \<leftarrow> last_originator;
             let nd = nn_domaindata neigh domain;
             l \<leftarrow> nd_best_link nd;
             lnk \<leftarrow> db_links (ev_nhdp env) l;
             upd_entry p (fill_entry nd neigh (nl_if_addr lnk) distance pathcost path_hops single_hop last_orig) st
           }
         })
   }"

subsection \<open>Preparation\<close>

definition prepare_route :: "ptr \<Rightarrow> routing \<Rightarrow> routing" where
  "prepare_route p st = st\<lparr>rt_entries := (rt_entries st)(p :=
     map_option (\<lambda>e. e\<lparr>re_set := False, re_old := re_route e\<rparr>) (rt_entries st p))\<rparr>"

definition prepare_routes :: "nat \<Rightarrow> routing \<Rightarrow> routing" where
  "prepare_routes domain st = fold prepare_route (avl_elements (rt_tree st domain)) st"

definition prepare_node :: "environment \<Rightarrow> ptr \<Rightarrow> routing \<Rightarrow> routing option" where
  "prepare_node env p st = do {
     n \<leftarrow> tc_nodes (ev_tc env) p;
     Some (upd_dijkstra (Node_Target p) (\<lambda>d. d\<lparr>dj_first_hop := None, dj_path_cost := RFC7181_METRIC_INFINITE_PATH,
       dj_path_hops := 255, dj_local := originator_is_local (ev_originators env) (rk_dst (tn_prefix n)), dj_done := False\<rparr>) st)
   }"

definition prepare_end :: "ptr \<Rightarrow> routing \<Rightarrow> routing" where
  "prepare_end p st =
     upd_dijkstra (End_Target p) (\<lambda>d. d\<lparr>dj_first_hop := None, dj_path_cost := RFC7181_METRIC_INFINITE_PATH,
       dj_path_hops := 255, dj_done := False\<rparr>) st"

fun prepare_node_list :: "environment \<Rightarrow> ptr list \<Rightarrow> routing \<Rightarrow> routing option" where
  "prepare_node_list env [] st = Some st"
| "prepare_node_list env (p # ps) st = prepare_node env p st \<bind> prepare_node_list env ps"

definition prepare_nodes :: "environment \<Rightarrow> routing \<Rightarrow> routing option" where
  "prepare_nodes env st = do {
     st \<leftarrow> prepare_node_list env (avl_elements (tc_tree (ev_tc env))) st;
     Some (fold prepare_end (avl_elements (tc_endpoint_tree (ev_tc env))) st)
   }"

fun ssnode_counts :: "tc_db \<Rightarrow> nat \<Rightarrow> u8 \<Rightarrow> ptr list \<Rightarrow> u32 \<times> u32 \<times> bool \<Rightarrow> (u32 \<times> u32 \<times> bool) option" where
  "ssnode_counts db domain af [] c = Some c"
| "ssnode_counts db domain af (p # ps) (ss, full, pre) = do {
     n \<leftarrow> tc_nodes db p;
     let mine = (na_type (rk_dst (tn_prefix n)) = af);
     ssnode_counts db domain af ps
       (if mine \<and> tn_source_specific n then ss + 1 else ss, if mine then full + 1 else full,
        pre \<or> tn_ss_attached_networks n domain)
   }"

definition check_ssnode_split :: "environment \<Rightarrow> nat \<Rightarrow> u8 \<Rightarrow> bool option" where
  "check_ssnode_split env domain af = do {
     (ss, full, pre) \<leftarrow> ssnode_counts (ev_tc env) domain af (avl_elements (tc_tree (ev_tc env))) (0, 0, False);
     Some (ss \<noteq> 0 \<and> ss \<noteq> full \<and> pre)
   }"

subsection \<open>Dijkstra\<close>

definition add_one_hop_node ::
  "environment \<Rightarrow> nat \<Rightarrow> u8 \<Rightarrow> bool \<Rightarrow> bool \<Rightarrow> ptr \<Rightarrow> routing \<Rightarrow> routing option" where
  "add_one_hop_node env domain af use_non_ss use_ss q st = do {
     neigh \<leftarrow> db_neighs (ev_nhdp env) q;
     if na_type (nn_originator neigh) \<noteq> af then Some st
     else if nn_symmetric neigh = 0 then Some st
     else (case tc_node_get (ev_tc env) (nn_originator neigh) of
         None \<Rightarrow> Some st
       | Some p \<Rightarrow> do {
           n \<leftarrow> tc_nodes (ev_tc env) p;
           let m = nd_metric (nn_domaindata neigh domain);
           if \<not> use_non_ss \<and> \<not> (tn_source_specific n \<and> use_ss) then Some st
           else if nm_in m > RFC7181_METRIC_MAX \<or> nm_out m > RFC7181_METRIC_MAX then Some st
           else Some (insert_into_working_tree (Node_Target p) q (nm_out m) 0 0 0 True
                        (originator_get (ev_originators env) af) st)
         })
   }"

fun add_one_hop_nodes ::
  "environment \<Rightarrow> nat \<Rightarrow> u8 \<Rightarrow> bool \<Rightarrow> bool \<Rightarrow> ptr list \<Rightarrow> routing \<Rightarrow> routing option" where
  "add_one_hop_nodes env domain af use_non_ss use_ss [] st = Some st"
| "add_one_hop_nodes env domain af use_non_ss use_ss (q # qs) st =
     add_one_hop_node env domain af use_non_ss use_ss q st \<bind> add_one_hop_nodes env domain af use_non_ss use_ss qs"

definition handle_edge ::
  "environment \<Rightarrow> nat \<Rightarrow> bool \<Rightarrow> target \<Rightarrow> tc_node \<Rightarrow> ptr \<Rightarrow> ptr \<Rightarrow> routing \<Rightarrow> routing option" where
  "handle_edge env domain use_non_ss t n first_hop e st = do {
     x \<leftarrow> tc_edges (ev_tc env) e;
     if \<not> te_virtual x \<and> te_cost x domain \<le> RFC7181_METRIC_MAX \<and> \<not> (\<not> use_non_ss \<and> \<not> tn_source_specific n)
     then Some (insert_into_working_tree (Node_Target (te_dst x)) first_hop (te_cost x domain)
                  (dj_path_cost (rt_nodes st t)) (dj_path_hops (rt_nodes st t)) 0 False
                  (Some (rk_dst (tn_prefix n))) st)
     else Some st
   }"

fun handle_edges ::
  "environment \<Rightarrow> nat \<Rightarrow> bool \<Rightarrow> target \<Rightarrow> tc_node \<Rightarrow> ptr \<Rightarrow> ptr list \<Rightarrow> routing \<Rightarrow> routing option" where
  "handle_edges env domain use_non_ss t n first_hop [] st = Some st"
| "handle_edges env domain use_non_ss t n first_hop (e # es) st =
     handle_edge env domain use_non_ss t n first_hop e st \<bind> handle_edges env domain use_non_ss t n first_hop es"

text \<open>An attached network that cannot be reached in another way gets its route at once.\<close>

definition handle_attachment ::
  "environment \<Rightarrow> allocator \<Rightarrow> nat \<Rightarrow> bool \<Rightarrow> bool \<Rightarrow> target \<Rightarrow> tc_node \<Rightarrow> ptr \<Rightarrow> ptr \<Rightarrow> routing \<Rightarrow> routing option" where
  "handle_attachment env alloc domain use_non_ss use_ss t n first_hop q st = do {
     a \<leftarrow> tc_attachments (ev_tc env) q;
     if \<not> ta_cost a domain \<le> RFC7181_METRIC_MAX then Some st
     else do {
       x \<leftarrow> tc_endpoints (ev_tc env) (ta_dst a);
       if \<not> (if na_prefix_len (rk_src (tp_prefix x)) > 0 then use_ss else use_non_ss) then Some st
       else if tr_count (tp_attached_networks x) > 1
       then Some (insert_into_working_tree (End_Target (ta_dst a)) first_hop (ta_cost a domain)
                    (dj_path_cost (rt_nodes st t)) (dj_path_hops (rt_nodes st t)) (ta_distance a domain) False
                    (Some (rk_dst (tn_prefix n))) st)
       else do {
         let st = upd_dijkstra (End_Target (ta_dst a)) (\<lambda>d. d\<lparr>dj_done := True\<rparr>) st;
         update_routing_entry env alloc domain (tp_prefix x) (Some first_hop) (ta_distance a domain)
           (dj_path_cost (rt_nodes st t) + ta_cost a domain)
           (dj_path_hops (rt_nodes st (End_Target (ta_dst a))) + 1) False (Some (rk_dst (tn_prefix n))) st
       }
     }
   }"

fun handle_attachments ::
  "environment \<Rightarrow> allocator \<Rightarrow> nat \<Rightarrow> bool \<Rightarrow> bool \<Rightarrow> target \<Rightarrow> tc_node \<Rightarrow> ptr \<Rightarrow> ptr list \<Rightarrow> routing \<Rightarrow> routing option" where
  "handle_attachments env alloc domain use_non_ss use_ss t n first_hop [] st = Some st"
| "handle_attachments env alloc domain use_non_ss use_ss t n first_hop (q # qs) st =
     handle_attachment env alloc domain use_non_ss use_ss t n first_hop q st
       \<bind> handle_attachments env alloc domain use_non_ss use_ss t n first_hop qs"

definition target_prefix :: "tc_db \<Rightarrow> target \<Rightarrow> route_key option" where
  "target_prefix db t =
     (case t of Node_Target p \<Rightarrow> map_option tn_prefix (tc_nodes db p)
      | End_Target p \<Rightarrow> map_option tp_prefix (tc_endpoints db p))"

definition handle_node ::
  "environment \<Rightarrow> allocator \<Rightarrow> nat \<Rightarrow> bool \<Rightarrow> bool \<Rightarrow> ptr \<Rightarrow> routing \<Rightarrow> routing option" where
  "handle_node env alloc domain use_non_ss use_ss p st = do {
     n \<leftarrow> tc_nodes (ev_tc env) p;
     first_hop \<leftarrow> dj_first_hop (rt_nodes st (Node_Target p));
     st \<leftarrow> handle_edges env domain use_non_ss (Node_Target p) n first_hop (avl_elements (tn_edges n)) st;
     handle_attachments env alloc domain use_non_ss use_ss (Node_Target p) n first_hop
       (avl_elements (tn_attached_networks n)) st
   }"

definition handle_working_queue ::
  "environment \<Rightarrow> allocator \<Rightarrow> nat \<Rightarrow> bool \<Rightarrow> bool \<Rightarrow> routing \<Rightarrow> routing option" where
  "handle_working_queue env alloc domain use_non_ss use_ss st =
     (case avl_elements (rt_working st) of
        [] \<Rightarrow> None
      | t # _ \<Rightarrow> do {
          let st = st\<lparr>rt_working := avl_remove (rt_working st) t\<rparr>;
          let st = upd_dijkstra t (\<lambda>d. d\<lparr>dj_done := True\<rparr>) st;
          let d = rt_nodes st t;
          st \<leftarrow> (if use_non_ss
                then do {
                  prefix \<leftarrow> target_prefix (ev_tc env) t;
                  update_routing_entry env alloc domain prefix (dj_first_hop d) (dj_distance d) (dj_path_cost d)
                    (dj_path_hops d) (dj_single_hop d) (dj_last_originator d) st
                }
                else Some st);
          case t of
            Node_Target p \<Rightarrow> handle_node env alloc domain use_non_ss use_ss p st
          | End_Target p \<Rightarrow> Some st
        })"

partial_function (option) work_off ::
  "environment \<Rightarrow> allocator \<Rightarrow> nat \<Rightarrow> bool \<Rightarrow> bool \<Rightarrow> routing \<Rightarrow> routing option" where
  "work_off env alloc domain use_non_ss use_ss st =
     (if avl_is_empty (rt_working st) then Some st
      else do {
        st \<leftarrow> handle_working_queue env alloc domain use_non_ss use_ss st;
        work_off env alloc domain use_non_ss use_ss st
      })"

definition run_dijkstra ::
  "environment \<Rightarrow> allocator \<Rightarrow> nat \<Rightarrow> u8 \<Rightarrow> bool \<Rightarrow> bool \<Rightarrow> routing \<Rightarrow> routing option" where
  "run_dijkstra env alloc domain af use_non_ss use_ss st = do {
     st \<leftarrow> add_one_hop_nodes env domain af use_non_ss use_ss (db_neigh_list (ev_nhdp env)) st;
     work_off env alloc domain use_non_ss use_ss st
   }"

end
