(* ===== verification/Olsrv2_Dijkstra.thy ===== *)
theory Olsrv2_Dijkstra
  imports Olsrv2_Routing
begin

text \<open>
  The shortest path calculation of \<open>Olsrv2_Routing\<close> is correct: paths over the arcs of the topology, the
  invariant of the working tree with the arcs that were not looked at yet, the invariant of the routing
  entries, termination by the number of targets that are not settled, and the three properties.
\<close>

subsection \<open>Paths\<close>

text \<open>
  An arc leads from a neighbor of the local node to its node, or from a node to the destination of an
  edge or of an attached network that has more than one attachment. \<open>w\<close> is its cost.
\<close>

datatype source = Neigh ptr | Via target

definition one_hop :: "environment \<Rightarrow> nat \<Rightarrow> u8 \<Rightarrow> bool \<Rightarrow> bool \<Rightarrow> ptr \<Rightarrow> u32 \<Rightarrow> ptr \<Rightarrow> bool" where
  "one_hop env domain af use_non_ss use_ss q w p \<longleftrightarrow>
     (\<exists>neigh n. db_neighs (ev_nhdp env) q = Some neigh \<and> na_type (nn_originator neigh) = af \<and> nn_symmetric neigh \<noteq> 0
        \<and> tc_node_get (ev_tc env) (nn_originator neigh) = Some p \<and> tc_nodes (ev_tc env) p = Some n
        \<and> (use_non_ss \<or> tn_source_specific n \<and> use_ss)
        \<and> nm_in (nd_metric (nn_domaindata neigh domain)) \<le> RFC7181_METRIC_MAX
        \<and> nm_out (nd_metric (nn_domaindata neigh domain)) \<le> RFC7181_METRIC_MAX
        \<and> w = nm_out (nd_metric (nn_domaindata neigh domain)))"

definition edge_arc :: "environment \<Rightarrow> nat \<Rightarrow> bool \<Rightarrow> tc_node \<Rightarrow> ptr \<Rightarrow> u32 \<Rightarrow> target \<Rightarrow> bool" where
  "edge_arc env domain use_non_ss n e w t \<longleftrightarrow>
     (\<exists>x. tc_edges (ev_tc env) e = Some x \<and> \<not> te_virtual x \<and> te_cost x domain \<le> RFC7181_METRIC_MAX
        \<and> (use_non_ss \<or> tn_source_specific n) \<and> w = te_cost x domain \<and> t = Node_Target (te_dst x))"

definition attachment_arc :: "environment \<Rightarrow> nat \<Rightarrow> bool \<Rightarrow> bool \<Rightarrow> ptr \<Rightarrow> u32 \<Rightarrow> target \<Rightarrow> bool" where
  "attachment_arc env domain use_non_ss use_ss q w t \<longleftrightarrow>
     (\<exists>a x. tc_attachments (ev_tc env) q = Some a \<and> ta_cost a domain \<le> RFC7181_METRIC_MAX
        \<and> tc_endpoints (ev_tc env) (ta_dst a) = Some x
        \<and> (if na_prefix_len (rk_src (tp_prefix x)) > 0 then use_ss else use_non_ss)
        \<and> tr_count (tp_attached_networks x) > 1 \<and> w = ta_cost a domain \<and> t = End_Target (ta_dst a))"

definition arc :: "environment \<Rightarrow> nat \<Rightarrow> u8 \<Rightarrow> bool \<Rightarrow> bool \<Rightarrow> source \<Rightarrow> u32 \<Rightarrow> target \<Rightarrow> bool" where
  "arc env domain af use_non_ss use_ss s w t \<longleftrightarrow>
     (case s of
        Neigh q \<Rightarrow> q \<in> set (db_neigh_list (ev_nhdp env)) \<and> (\<exists>p. t = Node_Target p \<and> one_hop env domain af use_non_ss use_ss q w p)
      | Via (Node_Target p) \<Rightarrow> (\<exists>n. tc_nodes (ev_tc env) p = Some n
          \<and> ((\<exists>e \<in> set (avl_elements (tn_edges n)). edge_arc env domain use_non_ss n e w t)
             \<or> (\<exists>q \<in> set (avl_elements (tn_attached_networks n)). attachment_arc env domain use_non_ss use_ss q w t)))
      | Via (End_Target p) \<Rightarrow> False)"

text \<open>
  A path to a target with its cost and its first hop, which does not pass through a blocked target (the
  local node and what an earlier run has settled).
\<close>

inductive tc_path :: "(source \<Rightarrow> u32 \<Rightarrow> target \<Rightarrow> bool) \<Rightarrow> target set \<Rightarrow> ptr \<Rightarrow> target \<Rightarrow> nat \<Rightarrow> bool"
  for A :: "source \<Rightarrow> u32 \<Rightarrow> target \<Rightarrow> bool" and B :: "target set" where
  first: "A (Neigh q) w t \<Longrightarrow> t \<notin> B \<Longrightarrow> tc_path A B q t (unat w)"
| further: "tc_path A B q u c \<Longrightarrow> A (Via u) w t \<Longrightarrow> t \<notin> B \<Longrightarrow> tc_path A B q t (c + unat w)"

subsection \<open>Relaxation\<close>

abbreviation cost :: "routing \<Rightarrow> target \<Rightarrow> nat" where
  "cost st t \<equiv> unat (dj_path_cost (rt_nodes st t))"

definition queued :: "routing \<Rightarrow> target set" where
  "queued st = set (avl_elements (rt_working st))"

text \<open>Settled targets; \<open>E\<close> are the targets that take part in the search.\<close>

definition settled :: "target set \<Rightarrow> target set \<Rightarrow> routing \<Rightarrow> target set" where
  "settled E B st = {t \<in> E. t \<notin> B \<and> dj_done (rt_nodes st t)}"

definition working_ok :: "target set \<Rightarrow> target set \<Rightarrow> routing \<Rightarrow> bool" where
  "working_ok E B st \<longleftrightarrow> avl_ok (rt_working st) \<and> tr_comp (rt_working st) = avl_comp_uint32
     \<and> tr_allow_dups (rt_working st)
     \<and> (\<forall>(k, t) \<in> set (avl_entries (rt_working st)). k = dj_path_cost (rt_nodes st t) \<and> t \<in> E \<and> t \<notin> B
          \<and> \<not> dj_done (rt_nodes st t))
     \<and> (\<forall>t \<in> E. (dj_local (rt_nodes st t) \<longrightarrow> t \<in> B) \<and> (t \<in> B \<longrightarrow> dj_local (rt_nodes st t) \<or> dj_done (rt_nodes st t)))"

definition source_cost :: "routing \<Rightarrow> source \<Rightarrow> nat" where
  "source_cost st s = (case s of Neigh q \<Rightarrow> 0 | Via u \<Rightarrow> cost st u)"

definition source_settled :: "target set \<Rightarrow> target set \<Rightarrow> routing \<Rightarrow> source \<Rightarrow> bool" where
  "source_settled E B st s = (case s of Neigh q \<Rightarrow> True | Via u \<Rightarrow> u \<in> settled E B st)"

definition node_targets :: "target set \<Rightarrow> target set" where
  "node_targets T = {t \<in> T. \<exists>p. t = Node_Target p}"

text \<open>
  The invariant of the search. The arcs in \<open>P\<close> start at settled targets but were not looked at yet.
\<close>

definition search_inv ::
  "(source \<Rightarrow> u32 \<Rightarrow> target \<Rightarrow> bool) \<Rightarrow> target set \<Rightarrow> target set \<Rightarrow> (source \<times> u32 \<times> target) set \<Rightarrow> routing \<Rightarrow> bool" where
  "search_inv A E B P st \<longleftrightarrow> working_ok E B st
     \<and> (\<forall>t \<in> queued st \<union> settled E B st. \<exists>q. dj_first_hop (rt_nodes st t) = Some q \<and> tc_path A B q t (cost st t)
         \<and> dj_last_originator (rt_nodes st t) \<noteq> None)
     \<and> (\<forall>s w t. A s w t \<longrightarrow> source_settled E B st s \<longrightarrow> t \<notin> B \<longrightarrow> (s, w, t) \<notin> P
          \<longrightarrow> t \<in> queued st \<union> settled E B st \<and> cost st t \<le> source_cost st s + unat w)
     \<and> (\<forall>u \<in> settled E B st. \<forall>t \<in> queued st. cost st u \<le> cost st t)
     \<and> (\<forall>t \<in> queued st. cost st t \<le> 0xffff00 * (card (node_targets (settled E B st)) + 1))"

lemma requeue:
  fixes T :: "('k, 'e) avl_tree" and t :: 'e and k :: 'k
  assumes T: "avl_ok T" "tr_allow_dups T"
  defines "T' \<equiv> snd (avl_insert (if t \<in> set (avl_elements T) then avl_remove T t else T) k t)"
  shows "avl_ok T'" "tr_comp T' = tr_comp T" "tr_allow_dups T'"
    "set (avl_entries T') = insert (k, t) {x \<in> set (avl_entries T). snd x \<noteq> t}"
proof -
  obtain U where U: "U = (if t \<in> set (avl_elements T) then avl_remove T t else T)" by blast
  have 1: "avl_ok U \<and> tr_comp U = tr_comp T \<and> tr_allow_dups U \<and> set (avl_entries U) = {x \<in> set (avl_entries T). snd x \<noteq> t}"
  proof (cases "t \<in> set (avl_elements T)")
    case True
    then show ?thesis using avl.del_old [of T t] T U by (auto simp: avl_ids)
  next
    case False
    then show ?thesis using T U by (auto simp: elements_entries)
  qed
  then have "t \<notin> snd ` set (avl_entries U)" by auto
  with 1 obtain V where V: "avl_insert U k t = (0, V)" "avl_ok V" "avl_entries V = ord_insert (tr_comp U) (k, t) (avl_entries U)"
    "tr_comp V = tr_comp U" "tr_allow_dups V = tr_allow_dups U"
    using avl.ins_done [of U t k] by auto
  have "T' = V" using V(1) by (simp add: T'_def flip: U)
  then show "avl_ok T'" "tr_comp T' = tr_comp T" "tr_allow_dups T'"
    "set (avl_entries T') = insert (k, t) {x \<in> set (avl_entries T). snd x \<noteq> t}"
    using V 1 by simp_all
qed

lemma search_invD:
  assumes "search_inv A E B P st"
  shows "working_ok E B st"
    "t \<in> queued st \<union> settled E B st \<Longrightarrow> \<exists>q. dj_first_hop (rt_nodes st t) = Some q \<and> tc_path A B q t (cost st t)
         \<and> dj_last_originator (rt_nodes st t) \<noteq> None"
    "A s w t \<Longrightarrow> source_settled E B st s \<Longrightarrow> t \<notin> B \<Longrightarrow> (s, w, t) \<notin> P \<Longrightarrow> t \<in> queued st \<union> settled E B st"
    "A s w t \<Longrightarrow> source_settled E B st s \<Longrightarrow> t \<notin> B \<Longrightarrow> (s, w, t) \<notin> P \<Longrightarrow> cost st t \<le> source_cost st s + unat w"
    "u \<in> settled E B st \<Longrightarrow> t \<in> queued st \<Longrightarrow> cost st u \<le> cost st t"
    "t \<in> queued st \<Longrightarrow> cost st t \<le> 0xffff00 * (card (node_targets (settled E B st)) + 1)"
  using assms unfolding search_inv_def by blast+

lemma working_okD:
  assumes "working_ok E B st"
  shows "avl_ok (rt_working st)" "tr_comp (rt_working st) = avl_comp_uint32" "tr_allow_dups (rt_working st)"
    "(k, t) \<in> set (avl_entries (rt_working st)) \<Longrightarrow> k = dj_path_cost (rt_nodes st t)"
    "t \<in> queued st \<Longrightarrow> t \<in> E" "t \<in> queued st \<Longrightarrow> t \<notin> B" "t \<in> queued st \<Longrightarrow> \<not> dj_done (rt_nodes st t)"
    "t \<in> E \<Longrightarrow> dj_local (rt_nodes st t) \<Longrightarrow> t \<in> B"
    "t \<in> E \<Longrightarrow> t \<in> B \<Longrightarrow> dj_local (rt_nodes st t) \<or> dj_done (rt_nodes st t)"
  using assms unfolding working_ok_def queued_def by (fastforce simp: in_elements)+

text \<open>What one call of \<open>_insert_into_working_tree\<close> does for an arc of a settled source.\<close>

definition relaxed :: "target set \<Rightarrow> target set \<Rightarrow> routing \<Rightarrow> routing \<Rightarrow> bool" where
  "relaxed E B st st' \<longleftrightarrow> settled E B st' = settled E B st
     \<and> (\<forall>u \<in> E. dj_done (rt_nodes st u) \<longrightarrow> rt_nodes st' u = rt_nodes st u)"

lemma relax:
  fixes ph d :: u8
  assumes inv: "search_inv A E B P st" and arc: "A s w t" "t \<in> E" and s: "source_settled E B st s"
    and w: "w \<le> RFC7181_METRIC_MAX" and pc: "unat pc = source_cost st s"
    and h: "\<And>q. s = Neigh q \<Longrightarrow> h = q" "\<And>u. s = Via u \<Longrightarrow> dj_first_hop (rt_nodes st u) = Some h"
    and low: "\<And>u. u \<in> settled E B st \<Longrightarrow> cost st u \<le> source_cost st s"
    and bnd: "source_cost st s \<le> 0xffff00 * card (node_targets (settled E B st))"
      "card (node_targets (settled E B st)) \<le> 255"
    and lo: "lo \<noteq> None" and st'_def: "st' = insert_into_working_tree t h w pc ph d sh lo st"
  shows "search_inv A E B (P - {(s, w, t)}) st' \<and> relaxed E B st st'"
proof -
  note I = search_invD [OF inv] and W = working_okD [OF I(1)]
  have w24: "unat w \<le> 0xffff00" using w by (simp add: word_le_nat_alt RFC7181_METRIC_MAX_def)
  have sum: "unat (pc + w) = source_cost st s + unat w"
  proof -
    have "0xffff00 * card (node_targets (settled E B st)) \<le> 0xffff00 * 255"
      using bnd(2) by (rule mult_le_mono2)
    then have "unat pc + unat w < 2 ^ LENGTH(32)" using pc bnd(1) w24 by simp
    then show ?thesis using pc by (simp add: unat_add_lem [THEN iffD1])
  qed
  have keep: "search_inv A E B (P - {(s, w, t)}) st"
    if t: "t \<in> B \<or> (t \<in> queued st \<union> settled E B st \<and> cost st t \<le> source_cost st s + unat w)"
    using inv t unfolding search_inv_def by blast
  show ?thesis
  proof (cases "dj_local (rt_nodes st t) \<or> dj_done (rt_nodes st t)")
    case True
    then have "st' = st" using w by (simp add: st'_def insert_into_working_tree_def not_less Let_def)
    moreover have "t \<in> B \<or> (t \<in> settled E B st \<and> cost st t \<le> source_cost st s + unat w)"
    proof (cases "t \<in> B")
      case False
      then have "t \<in> settled E B st" using True W(8) [OF arc(2)] arc(2) by (auto simp: settled_def)
      then show ?thesis using low [of t] by simp
    qed simp
    ultimately show ?thesis using keep by (auto simp: relaxed_def)
  next
    case new: False
    show ?thesis
    proof (cases "t \<in> queued st \<and> dj_path_cost (rt_nodes st t) \<le> pc + w")
      case True
      then have "st' = st" using w new
        by (simp add: st'_def insert_into_working_tree_def not_less Let_def queued_def)
      moreover have "cost st t \<le> source_cost st s + unat w" using True sum by (simp add: word_le_nat_alt)
      ultimately show ?thesis using keep True by (auto simp: relaxed_def)
    next
      case False
      have tB: "t \<notin> B" using new W(9) arc(2) by blast
      have tS: "t \<notin> settled E B st" using new by (simp add: settled_def)
      let ?n = "(rt_nodes st t)\<lparr>dj_path_cost := pc + w, dj_path_hops := ph + 1, dj_first_hop := Some h,
        dj_distance := d, dj_single_hop := sh, dj_last_originator := lo\<rparr>"
      obtain T' where T'_def: "T' = snd (avl_insert (if t \<in> set (avl_elements (rt_working st))
        then avl_remove (rt_working st) t else rt_working st) (pc + w) t)" by blast
      have st': "st' = st\<lparr>rt_nodes := (rt_nodes st)(t := ?n), rt_working := T'\<rparr>"
        unfolding T'_def using w new False by (auto simp: st'_def insert_into_working_tree_def not_less Let_def queued_def upd_dijkstra_def)
      note T = requeue [OF W(1,3), of t "pc + w", folded T'_def]
      have q': "queued st' = insert t (queued st)"
        by (auto simp: queued_def st' elements_entries T(4) image_iff)
      have nd: "rt_nodes st' u = rt_nodes st u" if "u \<noteq> t" for u using that by (simp add: st')
      have nt: "rt_nodes st' t = ?n" by (simp add: st')
      have dl: "dj_done (rt_nodes st' u) = dj_done (rt_nodes st u)" "dj_local (rt_nodes st' u) = dj_local (rt_nodes st u)" for u
        by (cases "u = t"; simp add: st')+
      have se: "settled E B st' = settled E B st" by (simp add: settled_def dl)
      have cs: "cost st' u = cost st u" if "u \<in> settled E B st" for u
        using that tS nd [of u] by (cases "u = t") simp_all
      have ct: "cost st' t = source_cost st s + unat w" using sum nt by simp
      have sc: "source_cost st' r = source_cost st r" if "source_settled E B st r" for r
        using that cs by (simp add: source_cost_def source_settled_def split: source.splits)
      have ss: "source_settled E B st' r = source_settled E B st r" for r
        by (simp add: source_settled_def se split: source.splits)
      have rel: "relaxed E B st st'" using se nd new by (auto simp: relaxed_def st')
      have wo: "working_ok E B st'"
        unfolding working_ok_def
      proof (intro conjI)
        show "\<forall>(k, u) \<in> set (avl_entries (rt_working st')). k = dj_path_cost (rt_nodes st' u) \<and> u \<in> E \<and> u \<notin> B
          \<and> \<not> dj_done (rt_nodes st' u)"
        proof (clarify, goal_cases)
          case (1 k u)
          then have "(k = pc + w \<and> u = t) \<or> ((k, u) \<in> set (avl_entries (rt_working st)) \<and> u \<noteq> t)"
            by (auto simp: st' T(4))
          then show ?case
          proof
            assume "k = pc + w \<and> u = t"
            then show ?thesis using nt arc(2) tB new by simp
          next
            assume u: "(k, u) \<in> set (avl_entries (rt_working st)) \<and> u \<noteq> t"
            then have "u \<in> queued st" by (auto simp: queued_def in_elements)
            then show ?thesis using u W(4-7) nd by metis
          qed
        qed
        show "\<forall>u \<in> E. (dj_local (rt_nodes st' u) \<longrightarrow> u \<in> B) \<and> (u \<in> B \<longrightarrow> dj_local (rt_nodes st' u) \<or> dj_done (rt_nodes st' u))"
          using W(8,9) by (simp add: dl)
      qed (use T(1-3) W(2) in \<open>simp_all add: st'\<close>)
      have pth: "tc_path A B h t (source_cost st s + unat w)"
      proof (cases s)
        case (Neigh q)
        then show ?thesis using tc_path.first [of A q w t B] arc(1) tB h(1) by (simp add: source_cost_def)
      next
        case (Via u)
        then have "u \<in> settled E B st" using s by (simp add: source_settled_def)
        then obtain q where "dj_first_hop (rt_nodes st u) = Some q" "tc_path A B q u (cost st u)" using I(2) by blast
        then have "tc_path A B h u (cost st u)" using h(2) [OF Via] by simp
        then show ?thesis using tc_path.further [of A B h u "cost st u" w t] arc(1) tB Via by (simp add: source_cost_def)
      qed
      have i2: "\<exists>q. dj_first_hop (rt_nodes st' u) = Some q \<and> tc_path A B q u (cost st' u)
         \<and> dj_last_originator (rt_nodes st' u) \<noteq> None"
        if "u \<in> queued st' \<union> settled E B st'" for u
      proof (cases "u = t")
        case True
        then show ?thesis using pth ct nt lo by simp
      next
        case False
        then show ?thesis using that I(2) [of u] nd q' se by simp
      qed
      have i3: "u \<in> queued st' \<union> settled E B st' \<and> cost st' u \<le> source_cost st' r + unat v"
        if a: "A r v u" "source_settled E B st' r" "u \<notin> B" "(r, v, u) \<notin> P - {(s, w, t)}" for r v u
      proof (cases "(r, v, u) = (s, w, t)")
        case True
        then show ?thesis using q' ct sc [OF s] by simp
      next
        case False
        then have old: "u \<in> queued st \<union> settled E B st" "cost st u \<le> source_cost st r + unat v"
          using I(3,4) [OF a(1)] a ss by auto
        show ?thesis
        proof (cases "u = t")
          case True
          then have "t \<in> queued st" using old(1) tS by auto
          then have "cost st' t \<le> cost st t"
            using \<open>\<not> (t \<in> queued st \<and> _)\<close> ct sum by (simp add: word_le_nat_alt)
          then show ?thesis using True old q' sc ss a(2) by auto
        next
          case False
          then show ?thesis using old nd q' se sc ss a(2) by auto
        qed
      qed
      have i4: "cost st' u \<le> cost st' v" if "u \<in> settled E B st'" "v \<in> queued st'" for u v
      proof (cases "v = t")
        case True
        then show ?thesis using that low [of u] cs se ct by simp
      next
        case False
        then show ?thesis using that I(5) [of u v] cs se q' nd by auto
      qed
      have i5: "cost st' v \<le> 0xffff00 * (card (node_targets (settled E B st')) + 1)" if "v \<in> queued st'" for v
      proof (cases "v = t")
        case True
        then show ?thesis using ct bnd(1) w24 se by simp
      next
        case False
        then show ?thesis using that I(6) [of v] q' nd se by auto
      qed
      have "search_inv A E B (P - {(s, w, t)}) st'"
        unfolding search_inv_def using wo i2 i3 i4 i5 by blast
      then show ?thesis using rel by blast
    qed
  qed
qed

subsection \<open>What the run relies on\<close>

text \<open>
  The data that the run reads: the topology is consistent, all prefixes are IPv4 or IPv6 prefixes, every
  neighbor of the list is allocated, has a best link when its metric is usable, and the locally attached
  networks are those of their tree.
\<close>

definition ip_prefix :: "netaddr \<Rightarrow> bool" where
  "ip_prefix a \<longleftrightarrow> na_type a \<in> {AF_INET, AF_INET6} \<and> length (na_addr a) = 16"

definition usable :: "environment \<Rightarrow> nat \<Rightarrow> ptr \<Rightarrow> bool" where
  "usable env domain q \<longleftrightarrow> (\<exists>neigh l lnk. db_neighs (ev_nhdp env) q = Some neigh
     \<and> nd_best_link (nn_domaindata neigh domain) = Some l \<and> db_links (ev_nhdp env) l = Some lnk)"

definition env_ok :: "environment \<Rightarrow> nat \<Rightarrow> bool" where
  "env_ok env domain \<longleftrightarrow> tc_ok (ev_tc env) \<and> lan_ok (ev_lan env)
     \<and> (\<forall>p n. tc_nodes (ev_tc env) p = Some n \<longrightarrow> ip_prefix (rk_dst (tn_prefix n)))
     \<and> (\<forall>p x. tc_endpoints (ev_tc env) p = Some x \<longrightarrow> ip_prefix (rk_dst (tp_prefix x)))
     \<and> (\<forall>q \<in> set (db_neigh_list (ev_nhdp env)). \<exists>neigh. db_neighs (ev_nhdp env) q = Some neigh
          \<and> (nn_symmetric neigh \<noteq> 0 \<longrightarrow> nm_in (nd_metric (nn_domaindata neigh domain)) \<le> RFC7181_METRIC_MAX
              \<longrightarrow> nm_out (nd_metric (nn_domaindata neigh domain)) \<le> RFC7181_METRIC_MAX \<longrightarrow> usable env domain q))
     \<and> (\<forall>a \<in> set (acl_accept (ev_routable env)) \<union> set (acl_reject (ev_routable env)). netaddr_ok a)"

lemma env_okD:
  assumes "env_ok env domain"
  shows "tc_ok (ev_tc env)" "lan_ok (ev_lan env)"
    "tc_nodes (ev_tc env) p = Some n \<Longrightarrow> ip_prefix (rk_dst (tn_prefix n))"
    "tc_endpoints (ev_tc env) p = Some x \<Longrightarrow> ip_prefix (rk_dst (tp_prefix x))"
    "q \<in> set (db_neigh_list (ev_nhdp env)) \<Longrightarrow> \<exists>neigh. db_neighs (ev_nhdp env) q = Some neigh"
    "q \<in> set (db_neigh_list (ev_nhdp env)) \<Longrightarrow> db_neighs (ev_nhdp env) q = Some neigh \<Longrightarrow> nn_symmetric neigh \<noteq> 0 \<Longrightarrow>
       nm_in (nd_metric (nn_domaindata neigh domain)) \<le> RFC7181_METRIC_MAX \<Longrightarrow>
       nm_out (nd_metric (nn_domaindata neigh domain)) \<le> RFC7181_METRIC_MAX \<Longrightarrow> usable env domain q"
    "\<forall>a \<in> set (acl_accept (ev_routable env)). netaddr_ok a" "\<forall>a \<in> set (acl_reject (ev_routable env)). netaddr_ok a"
  using assms unfolding env_ok_def by (blast, blast, blast, blast, blast, fastforce, blast, blast)

subsection \<open>Routing entries\<close>

text \<open>The routing set of a domain is exactly what the entries say.\<close>

definition routes_of :: "(ptr \<Rightarrow> routing_entry option) \<Rightarrow> nat \<Rightarrow> (route_key \<times> ptr) set" where
  "routes_of es domain = {(k, p). case es p of None \<Rightarrow> False | Some e \<Rightarrow> re_domain e = domain \<and> k = rp_key (re_route e)}"

definition routes_ok :: "routing \<Rightarrow> bool" where
  "routes_ok st \<longleftrightarrow> finite (dom (rt_entries st)) \<and> (\<forall>domain. index_ok avl_cmp_route_key (rt_tree st domain)
     \<and> index_set (rt_tree st domain) = routes_of (rt_entries st) domain)"

definition allocator_ok :: "allocator \<Rightarrow> bool" where
  "allocator_ok alloc \<longleftrightarrow> (\<forall>m p. alloc m = Some p \<longrightarrow> m p = None)"

definition enough_memory :: "allocator \<Rightarrow> bool" where
  "enough_memory alloc \<longleftrightarrow> (\<forall>m. finite (dom m) \<longrightarrow> alloc m \<noteq> None)"

definition route_at :: "routing \<Rightarrow> nat \<Rightarrow> route_key \<Rightarrow> routing_entry option" where
  "route_at st domain k = do { p \<leftarrow> avl_find (rt_tree st domain) k; rt_entries st p }"

lemma routes_okD:
  assumes "routes_ok st"
  shows "index_ok avl_cmp_route_key (rt_tree st domain)" "index_set (rt_tree st domain) = routes_of (rt_entries st) domain"
  using assms by (simp_all add: routes_ok_def)

lemma routes_find:
  assumes "routes_ok st"
  shows "avl_find (rt_tree st domain) k = Some p \<longleftrightarrow>
    (\<exists>e. rt_entries st p = Some e \<and> re_domain e = domain \<and> rp_key (re_route e) = k)"
  using route_index.find_iff [OF routes_okD(1) [OF assms]] routes_okD(2) [OF assms]
  by (auto simp: routes_of_def split: option.splits)

lemma route_at_iff:
  assumes "routes_ok st"
  shows "route_at st domain k = Some e \<longleftrightarrow>
    (\<exists>p. avl_find (rt_tree st domain) k = Some p \<and> rt_entries st p = Some e)"
  by (auto simp: route_at_def bind_eq_Some_conv)

lemma upd_entry_ok:
  assumes r: "routes_ok st" and p: "rt_entries st p = Some e" and f: "re_domain e' = re_domain e"
    "rp_key (re_route e') = rp_key (re_route e)"
  shows "routes_ok (st\<lparr>rt_entries := (rt_entries st)(p \<mapsto> e')\<rparr>)"
proof -
  have "routes_of ((rt_entries st)(p \<mapsto> e')) d = routes_of (rt_entries st) d" for d
    using p f by (auto simp: routes_of_def split: if_splits)
  then show ?thesis using r by (simp add: routes_ok_def)
qed

lemma add_entry_ok:
  assumes r: "routes_ok st" and a: "allocator_ok alloc"
  obtains (full) "add_entry alloc domain prefix st = (None, st)" "route_at st domain prefix = None" "alloc (rt_entries st) = None"
  | (old) p e where "add_entry alloc domain prefix st = (Some p, st)" "avl_find (rt_tree st domain) prefix = Some p"
      "rt_entries st p = Some e" "route_at st domain prefix = Some e"
  | (new) p st' where "add_entry alloc domain prefix st = (Some p, st')" "routes_ok st'"
      "rt_entries st p = None" "rt_entries st' = (rt_entries st)(p \<mapsto> new_entry domain prefix)"
      "route_at st domain prefix = None" "avl_find (rt_tree st' domain) prefix = Some p"
      "rt_nodes st' = rt_nodes st" "rt_working st' = rt_working st"
      "alloc (rt_entries st) = Some p"
proof (cases "avl_find (rt_tree st domain) prefix")
  case (Some p)
  then obtain e where "rt_entries st p = Some e" using routes_find [OF r] by blast
  then show ?thesis using Some by (intro old) (auto simp: add_entry_def route_at_def)
next
  case None
  show ?thesis
  proof (cases "alloc (rt_entries st)")
    case n: None
    then show ?thesis using None by (intro full) (auto simp: add_entry_def route_at_def)
  next
    case (Some p)
    have fr: "rt_entries st p = None" using a Some by (simp add: allocator_ok_def)
    note D = routes_okD [OF r]
    have "p \<notin> set (avl_elements (rt_tree st domain))" using fr D(2) by (auto simp: in_elements routes_of_def)
    note i = route_index.insert_new [OF D(1) None this]
    let ?st = "st\<lparr>rt_entries := (rt_entries st)(p \<mapsto> new_entry domain prefix),
      rt_tree := (rt_tree st)(domain := snd (avl_insert (rt_tree st domain) prefix p))\<rparr>"
    have "routes_of ((rt_entries st)(p \<mapsto> new_entry domain prefix)) d =
        (if d = domain then insert (prefix, p) (routes_of (rt_entries st) d) else routes_of (rt_entries st) d)" for d
      using fr by (auto simp: routes_of_def new_entry_def split: if_splits)
    then have ok: "routes_ok ?st" using D i r by (simp add: routes_ok_def)
    have "avl_find (rt_tree ?st domain) prefix = Some p"
      using routes_find [OF ok, of domain prefix p] by (simp add: new_entry_def)
    then show ?thesis using None Some fr ok by (intro new [of p ?st]) (auto simp: add_entry_def route_at_def)
  qed
qed

text \<open>The decision not to set a route never fails.\<close>

lemma route_refused_some:
  assumes env: "env_ok env domain" and ip: "ip_prefix (rk_dst prefix)"
  shows "\<exists>r. route_refused env domain prefix c = Some r"
proof -
  note D = env_okD [OF env]
  have "\<exists>o'. originator_get (ev_originators env) (na_type (rk_dst prefix)) = Some o'"
    using ip by (auto simp: originator_get_def ip_prefix_def)
  moreover have "\<exists>l. lan_entries (ev_lan env) p = Some l" if "lan_get (ev_lan env) prefix = Some p" for p
    using D(2) that route_index.find_iff [of "lan_tree (ev_lan env)" prefix p]
    by (auto simp: lan_ok_def lan_get_def lans_of_def split: option.splits)
  moreover have "\<exists>b. netaddr_acl_check_accept (ev_routable env) (rk_dst prefix) = Some b"
    using acl_is_in_array_iff [OF D(7)] acl_is_in_array_iff [OF D(8)] ip
    by (auto simp: netaddr_acl_check_accept_def ip_prefix_def Let_def split: option.splits bool.splits)
  ultimately show ?thesis
    by (fastforce simp: route_refused_def split: option.splits)
qed

text \<open>The route of the prefix afterwards, as a function of the one before.\<close>

definition new_route ::
  "environment \<Rightarrow> nat \<Rightarrow> route_key \<Rightarrow> ptr \<Rightarrow> u8 \<Rightarrow> u32 \<Rightarrow> u8 \<Rightarrow> bool \<Rightarrow> netaddr \<Rightarrow> routing_entry \<Rightarrow> routing_entry \<Rightarrow> bool" where
  "new_route env domain prefix q distance pathcost path_hops single_hop last_orig e e' \<longleftrightarrow>
     (if re_set e \<and> re_path_cost e < pathcost then e' = e
      else \<exists>neigh l lnk. db_neighs (ev_nhdp env) q = Some neigh \<and> nd_best_link (nn_domaindata neigh domain) = Some l
        \<and> db_links (ev_nhdp env) l = Some lnk
        \<and> e' = fill_entry (nn_domaindata neigh domain) neigh (nl_if_addr lnk) distance pathcost path_hops single_hop last_orig e)"

definition route_updated ::
  "environment \<Rightarrow> allocator \<Rightarrow> nat \<Rightarrow> route_key \<Rightarrow> ptr \<Rightarrow> u8 \<Rightarrow> u32 \<Rightarrow> u8 \<Rightarrow> bool \<Rightarrow> netaddr \<Rightarrow> routing \<Rightarrow> routing \<Rightarrow> bool" where
  "route_updated env alloc domain prefix q distance pathcost path_hops single_hop last_orig st st' \<longleftrightarrow>
     (if route_refused env domain prefix pathcost = Some True then st' = st
      else case route_at st domain prefix of
          None \<Rightarrow> (if alloc (rt_entries st) = None then st' = st
            else \<exists>e. route_at st' domain prefix = Some e
              \<and> new_route env domain prefix q distance pathcost path_hops single_hop last_orig (new_entry domain prefix) e)
        | Some e0 \<Rightarrow> \<exists>e. route_at st' domain prefix = Some e
              \<and> new_route env domain prefix q distance pathcost path_hops single_hop last_orig e0 e)
     \<and> (\<forall>d k. (d, k) \<noteq> (domain, prefix) \<longrightarrow> route_at st' d k = route_at st d k)
     \<and> rt_nodes st' = rt_nodes st \<and> rt_working st' = rt_working st \<and> routes_ok st'"

lemma route_at_upd:
  assumes r: "routes_ok st" and p: "avl_find (rt_tree st domain) prefix = Some p" "rt_entries st p = Some e"
    and f: "re_domain e' = re_domain e" "rp_key (re_route e') = rp_key (re_route e)"
  defines "st' \<equiv> st\<lparr>rt_entries := (rt_entries st)(p \<mapsto> e')\<rparr>"
  shows "routes_ok st'" "route_at st' domain prefix = Some e'"
    "(d, k) \<noteq> (domain, prefix) \<Longrightarrow> route_at st' d k = route_at st d k"
proof -
  show r': "routes_ok st'" unfolding st'_def by (rule upd_entry_ok [OF r p(2) f])
  show "route_at st' domain prefix = Some e'" using p by (simp add: route_at_def st'_def)
  assume "(d, k) \<noteq> (domain, prefix)"
  then have "avl_find (rt_tree st d) k \<noteq> Some p" using p routes_find [OF r] by fastforce
  then show "route_at st' d k = route_at st d k"
    by (cases "avl_find (rt_tree st d) k") (auto simp: route_at_def st'_def)
qed

lemma update_routing_entry_ok:
  assumes env: "env_ok env domain" and ip: "ip_prefix (rk_dst prefix)" and r: "routes_ok st" and a: "allocator_ok alloc"
    and q: "usable env domain q"
  shows "\<exists>st'. update_routing_entry env alloc domain prefix (Some q) distance c ph sh (Some lo) st = Some st'
    \<and> route_updated env alloc domain prefix q distance c ph sh lo st st'"
proof -
  obtain b where b: "route_refused env domain prefix c = Some b" using route_refused_some [OF env ip] by blast
  obtain neigh l lnk where n: "db_neighs (ev_nhdp env) q = Some neigh"
    "nd_best_link (nn_domaindata neigh domain) = Some l" "db_links (ev_nhdp env) l = Some lnk"
    using q by (auto simp: usable_def)
  let ?f = "fill_entry (nn_domaindata neigh domain) neigh (nl_if_addr lnk) distance c ph sh lo"
  have f: "re_domain (?f e) = re_domain e" "rp_key (re_route (?f e)) = rp_key (re_route e)" for e
    by (simp_all add: fill_entry_def)
  show ?thesis
  proof (cases b)
    case True
    then show ?thesis using b r by (simp add: update_routing_entry_def route_updated_def)
  next
    case False
    show ?thesis
    proof (cases rule: add_entry_ok [OF r a, of domain prefix, case_names full old new])
      case full
      then show ?thesis using b False r by (simp add: update_routing_entry_def route_updated_def)
    next
      case (old p e)
      note u = route_at_upd [OF r old(2,3), of "?f e", OF f]
      show ?thesis
      proof (cases "re_set e \<and> re_path_cost e < c")
        case True
        then show ?thesis using b False r old by (simp add: update_routing_entry_def route_updated_def new_route_def)
      next
        case keep: False
        then have "update_routing_entry env alloc domain prefix (Some q) distance c ph sh (Some lo) st =
            Some (st\<lparr>rt_entries := (rt_entries st)(p \<mapsto> ?f e)\<rparr>)"
          using b False old(1,3) n keep by (auto simp: update_routing_entry_def upd_entry_def Let_def)
        moreover have "new_route env domain prefix q distance c ph sh lo e (?f e)"
          using keep n by (auto simp: new_route_def)
        ultimately show ?thesis using b False old(4) u by (simp add: route_updated_def)
      qed
    next
      case (new p st1)
      let ?e = "new_entry domain prefix"
      have e: "rt_entries st1 p = Some ?e" using new(4) by simp
      note u = route_at_upd [OF new(2,6) e, of "?f ?e", OF f]
      have "update_routing_entry env alloc domain prefix (Some q) distance c ph sh (Some lo) st =
          Some (st1\<lparr>rt_entries := (rt_entries st1)(p \<mapsto> ?f ?e)\<rparr>)"
        using b False new(1) e n by (simp add: update_routing_entry_def upd_entry_def Let_def new_entry_def)
      moreover have "new_route env domain prefix q distance c ph sh lo ?e (?f ?e)"
        using n by (auto simp: new_route_def new_entry_def)
      moreover have "route_at st1 d k = route_at st d k" if "(d, k) \<noteq> (domain, prefix)" for d k
      proof (cases "avl_find (rt_tree st d) k")
        case (Some p')
        then have p': "rt_entries st p' \<noteq> None" "p' \<noteq> p" using routes_find [OF r] new(3) by fastforce+
        then have "rt_entries st1 p' = rt_entries st p'" using new(4) by simp
        moreover from this have "avl_find (rt_tree st1 d) k = Some p'"
          using Some routes_find [OF r] routes_find [OF new(2)] by simp
        ultimately show ?thesis using Some by (simp add: route_at_def)
      next
        case None
        have "avl_find (rt_tree st1 d) k \<noteq> Some p'" for p'
          using None that routes_find [OF r, of d k p'] routes_find [OF new(2), of d k p'] new(4)
          by (cases "p' = p") (auto simp: new_entry_def)
        then show ?thesis using None by (cases "avl_find (rt_tree st1 d) k") (auto simp: route_at_def)
      qed
      ultimately show ?thesis using b False new(5,7,8,9) u by (auto simp: route_updated_def)
    qed
  qed
qed

subsection \<open>The invariant of a run\<close>

text \<open>Targets of the search: nodes, and endpoints that are attached more than once.\<close>

definition targets :: "environment \<Rightarrow> target set" where
  "targets env = {Node_Target p | p. tc_nodes (ev_tc env) p \<noteq> None}
     \<union> {End_Target p | p. \<exists>x. tc_endpoints (ev_tc env) p = Some x \<and> tr_count (tp_attached_networks x) > 1}"

text \<open>An attachment of an endpoint that is not attached in another way, with its prefix and its cost.\<close>

definition direct_attachment :: "environment \<Rightarrow> nat \<Rightarrow> bool \<Rightarrow> bool \<Rightarrow> ptr \<Rightarrow> route_key \<Rightarrow> u32 \<Rightarrow> bool" where
  "direct_attachment env domain use_non_ss use_ss j k w \<longleftrightarrow>
     (\<exists>a x. tc_attachments (ev_tc env) j = Some a \<and> ta_cost a domain \<le> RFC7181_METRIC_MAX
        \<and> tc_endpoints (ev_tc env) (ta_dst a) = Some x
        \<and> (if na_prefix_len (rk_src (tp_prefix x)) > 0 then use_ss else use_non_ss)
        \<and> \<not> tr_count (tp_attached_networks x) > 1 \<and> k = tp_prefix x \<and> w = ta_cost a domain)"

definition attached_at :: "environment \<Rightarrow> ptr \<Rightarrow> ptr set" where
  "attached_at env p = (case tc_nodes (ev_tc env) p of None \<Rightarrow> {} | Some n \<Rightarrow> set (avl_elements (tn_attached_networks n)))"

text \<open>A path to a destination prefix: to a target with this prefix, or to a node it is attached to.\<close>

definition dest_path ::
  "environment \<Rightarrow> nat \<Rightarrow> u8 \<Rightarrow> bool \<Rightarrow> bool \<Rightarrow> target set \<Rightarrow> ptr \<Rightarrow> route_key \<Rightarrow> nat \<Rightarrow> bool" where
  "dest_path env domain af use_non_ss use_ss B q k c \<longleftrightarrow>
     (use_non_ss \<and> (\<exists>t. tc_path (arc env domain af use_non_ss use_ss) B q t c \<and> target_prefix (ev_tc env) t = Some k))
     \<or> (\<exists>p d j w. tc_path (arc env domain af use_non_ss use_ss) B q (Node_Target p) d \<and> j \<in> attached_at env p
          \<and> direct_attachment env domain use_non_ss use_ss j k w \<and> c = d + unat w)"

text \<open>The costs of the destinations that the settled targets give.\<close>

definition owed_at :: "environment \<Rightarrow> nat \<Rightarrow> bool \<Rightarrow> bool \<Rightarrow> routing \<Rightarrow> target \<Rightarrow> (route_key \<times> u32) set" where
  "owed_at env domain use_non_ss use_ss st t =
     {(k, c). (use_non_ss \<and> target_prefix (ev_tc env) t = Some k \<and> c = dj_path_cost (rt_nodes st t))
        \<or> (\<exists>p j w. t = Node_Target p \<and> j \<in> attached_at env p
             \<and> direct_attachment env domain use_non_ss use_ss j k w \<and> c = dj_path_cost (rt_nodes st t) + w)}"

definition owed :: "environment \<Rightarrow> nat \<Rightarrow> bool \<Rightarrow> bool \<Rightarrow> target set \<Rightarrow> routing \<Rightarrow> (route_key \<times> u32) set" where
  "owed env domain use_non_ss use_ss B st =
     (\<Union>t \<in> settled (targets env) B st. owed_at env domain use_non_ss use_ss st t)"

definition covers :: "environment \<Rightarrow> nat \<Rightarrow> routing \<Rightarrow> route_key \<Rightarrow> u32 \<Rightarrow> bool" where
  "covers env domain st k c \<longleftrightarrow> route_refused env domain k c = Some True
     \<or> (\<exists>e. route_at st domain k = Some e \<and> re_set e \<and> re_path_cost e \<le> c)"

text \<open>The entry leads over the best link to the neighbor.\<close>

definition route_over :: "environment \<Rightarrow> nat \<Rightarrow> ptr \<Rightarrow> route_key \<Rightarrow> routing_entry \<Rightarrow> bool" where
  "route_over env domain q k e \<longleftrightarrow> (\<exists>neigh l lnk. db_neighs (ev_nhdp env) q = Some neigh
     \<and> nd_best_link (nn_domaindata neigh domain) = Some l \<and> db_links (ev_nhdp env) l = Some lnk
     \<and> rp_if_index (re_route e) = nd_best_link_ifindex (nn_domaindata neigh domain)
     \<and> re_next_originator e = nn_originator neigh
     \<and> (rp_gw (re_route e) = nl_if_addr lnk \<or> rp_gw (re_route e) = netaddr_invalidate \<and> nl_if_addr lnk = rk_dst k))"

definition routes_inv ::
  "environment \<Rightarrow> allocator \<Rightarrow> nat \<Rightarrow> u8 \<Rightarrow> bool \<Rightarrow> bool \<Rightarrow> target set \<Rightarrow> (route_key \<Rightarrow> routing_entry \<Rightarrow> bool)
     \<Rightarrow> (route_key \<times> u32) set \<Rightarrow> routing \<Rightarrow> bool" where
  "routes_inv env alloc domain af use_non_ss use_ss B Z D st \<longleftrightarrow> routes_ok st
     \<and> (\<forall>k e. route_at st domain k = Some e \<longrightarrow> re_set e \<longrightarrow>
          Z k e \<or> route_refused env domain k (re_path_cost e) = Some False
            \<and> (\<exists>q. dest_path env domain af use_non_ss use_ss B q k (unat (re_path_cost e)) \<and> route_over env domain q k e))
     \<and> (enough_memory alloc \<longrightarrow> (\<forall>(k, c) \<in> D. covers env domain st k c))"

lemma routes_invD:
  assumes "routes_inv env alloc domain af ns ss B Z D st"
  shows "routes_ok st"
    "route_at st domain k = Some e \<Longrightarrow> re_set e \<Longrightarrow> Z k e \<or> route_refused env domain k (re_path_cost e) = Some False
      \<and> (\<exists>q. dest_path env domain af ns ss B q k (unat (re_path_cost e)) \<and> route_over env domain q k e)"
    "enough_memory alloc \<Longrightarrow> (k, c) \<in> D \<Longrightarrow> covers env domain st k c"
  using assms unfolding routes_inv_def by blast+

lemma new_route_facts:
  assumes "new_route env domain k q d c ph sh a e e'" "rp_key (re_route e) = k"
  shows "re_set e'" "re_path_cost e' \<le> c" "re_set e \<Longrightarrow> re_path_cost e' \<le> re_path_cost e"
    "e' = e \<or> re_path_cost e' = c \<and> route_over env domain q k e'"
proof -
  show "re_set e'" "re_path_cost e' \<le> c" "re_set e \<Longrightarrow> re_path_cost e' \<le> re_path_cost e"
    using assms by (auto simp: new_route_def fill_entry_def split: if_splits)
  show "e' = e \<or> re_path_cost e' = c \<and> route_over env domain q k e'"
  proof (cases "re_set e \<and> re_path_cost e < c")
    case True
    then show ?thesis using assms(1) by (simp add: new_route_def)
  next
    case False
    then obtain neigh l lnk where n: "db_neighs (ev_nhdp env) q = Some neigh" "nd_best_link (nn_domaindata neigh domain) = Some l"
      "db_links (ev_nhdp env) l = Some lnk"
      "e' = fill_entry (nn_domaindata neigh domain) neigh (nl_if_addr lnk) d c ph sh a e"
      using assms(1) unfolding new_route_def by auto
    have "netaddr_cmp x y = 0 \<longleftrightarrow> x = y" for x y by (simp add: netaddr_cmp_def)
    then have "route_over env domain q k e'"
      unfolding route_over_def using n assms(2) by (intro exI conjI) (auto simp: fill_entry_def)
    then show ?thesis using n(4) by (simp add: fill_entry_def)
  qed
qed

lemma update_step:
  assumes env: "env_ok env domain" and al: "allocator_ok alloc" and ip: "ip_prefix (rk_dst k)" and q: "usable env domain q"
    and inv: "routes_inv env alloc domain af ns ss B Z D st" and p: "dest_path env domain af ns ss B q k (unat c)"
    and lo: "last_orig \<noteq> None"
  shows "\<exists>st'. update_routing_entry env alloc domain k (Some q) d c ph sh last_orig st = Some st'
    \<and> routes_inv env alloc domain af ns ss B Z (insert (k, c) D) st' \<and> rt_nodes st' = rt_nodes st \<and> rt_working st' = rt_working st"
proof -
  note I = routes_invD [OF inv]
  obtain a where a: "last_orig = Some a" using lo by blast
  obtain st' where st': "update_routing_entry env alloc domain k (Some q) d c ph sh last_orig st = Some st'"
    and u: "route_updated env alloc domain k q d c ph sh a st st'"
    using update_routing_entry_ok [OF env ip I(1) al q] a by blast
  have ok: "routes_ok st'" and fr: "\<And>d k'. (d, k') \<noteq> (domain, k) \<Longrightarrow> route_at st' d k' = route_at st d k'"
    and nd: "rt_nodes st' = rt_nodes st" "rt_working st' = rt_working st"
    using u by (auto simp: route_updated_def)
  have "routes_inv env alloc domain af ns ss B Z (insert (k, c) D) st'"
  proof (cases "route_refused env domain k c = Some True")
    case True
    then have "st' = st" using u by (simp add: route_updated_def)
    then show ?thesis using inv True by (auto simp: routes_inv_def covers_def)
  next
    case False
    then have rf: "route_refused env domain k c = Some False" using route_refused_some [OF env ip, of c] by auto
    have key: "rp_key (re_route e) = k" if "route_at st domain k = Some e" for e
      using that routes_find [OF I(1)] route_at_iff [OF I(1)] by fastforce
    consider (none) "st' = st" "\<not> enough_memory alloc"
      | (new) e where "route_at st domain k = None" "route_at st' domain k = Some e"
          "new_route env domain k q d c ph sh a (new_entry domain k) e"
      | (old) e0 e where "route_at st domain k = Some e0" "route_at st' domain k = Some e" "new_route env domain k q d c ph sh a e0 e"
      using u False I(1) by (auto simp: route_updated_def routes_ok_def enough_memory_def split: option.splits if_splits)
    then show ?thesis
    proof cases
      case none
      then show ?thesis using inv by (simp add: routes_inv_def)
    next
      case new
      note f = new_route_facts [OF new(3)]
      have "rp_key (re_route (new_entry domain k)) = k" "\<not> re_set (new_entry domain k)" by (simp_all add: new_entry_def)
      then have e: "re_set e" "re_path_cost e \<le> c" "re_path_cost e = c" "route_over env domain q k e"
        using f by auto
      show ?thesis
        unfolding routes_inv_def
      proof (intro conjI allI impI ballI)
        fix k' e' assume e': "route_at st' domain k' = Some e'" "re_set e'"
        show "Z k' e' \<or> route_refused env domain k' (re_path_cost e') = Some False
          \<and> (\<exists>q. dest_path env domain af ns ss B q k' (unat (re_path_cost e')) \<and> route_over env domain q k' e')"
          using e e' new(2) fr [of domain k'] I(2) [of k' e'] rf p by (cases "k' = k") auto
      next
        fix x assume x: "enough_memory alloc" "x \<in> insert (k, c) D"
        show "case x of (k, c) \<Rightarrow> covers env domain st' k c"
        proof (cases "x = (k, c)")
          case True
          then show ?thesis using e new(2) by (auto simp: covers_def)
        next
          case False
          then show ?thesis using x I(3) [of "fst x" "snd x"] new(1) fr [of domain "fst x"]
            by (cases "fst x = k") (auto simp: covers_def)
        qed
      qed (rule ok)
    next
      case old
      note f = new_route_facts [OF old(3) key [OF old(1)]]
      show ?thesis
        unfolding routes_inv_def
      proof (intro conjI allI impI ballI)
        fix k' e' assume e': "route_at st' domain k' = Some e'" "re_set e'"
        show "Z k' e' \<or> route_refused env domain k' (re_path_cost e') = Some False
          \<and> (\<exists>q. dest_path env domain af ns ss B q k' (unat (re_path_cost e')) \<and> route_over env domain q k' e')"
          using f e' old(1,2) fr [of domain k'] I(2) [of k' e'] rf p by (cases "k' = k") auto
      next
        fix x assume x: "enough_memory alloc" "x \<in> insert (k, c) D"
        show "case x of (k, c) \<Rightarrow> covers env domain st' k c"
        proof (cases "x = (k, c)")
          case True
          then show ?thesis using f(1,2) old(2) by (auto simp: covers_def)
        next
          case False
          then show ?thesis using x I(3) [of "fst x" "snd x"] old(1,2) f(1,3) fr [of domain "fst x"]
            by (cases "fst x = k") (auto simp: covers_def)
        qed
      qed (rule ok)
    qed
  qed
  then show ?thesis using st' nd by blast
qed

lemma relaxed_refl [simp]: "relaxed E B st st"
  by (simp add: relaxed_def)

lemma relaxed_settled: "relaxed E B st st' \<Longrightarrow> u \<in> settled E B st \<Longrightarrow> rt_nodes st' u = rt_nodes st u"
  by (simp add: relaxed_def settled_def)

lemma relaxed_trans: "relaxed E B st st1 \<Longrightarrow> relaxed E B st1 st2 \<Longrightarrow> relaxed E B st st2"
  unfolding relaxed_def by metis

lemma arc_target:
  assumes env: "env_ok env domain" and a: "arc env domain af ns ss s w t"
  shows "t \<in> targets env" "w \<le> RFC7181_METRIC_MAX"
proof -
  note D = nodes_invD [OF conjunct1 [OF env_okD(1) [OF env, unfolded tc_inv_def]]]
  have "tc_nodes (ev_tc env) (te_dst x) \<noteq> None" if "tc_edges (ev_tc env) e = Some x" for e x
    using edge_invD(2) [OF D(5) [OF that]] by simp
  then show "t \<in> targets env" "w \<le> RFC7181_METRIC_MAX"
    using a by (auto simp: arc_def one_hop_def edge_arc_def attachment_arc_def targets_def split: source.splits target.splits)
qed

lemma path_usable:
  assumes env: "env_ok env domain" and p: "tc_path (arc env domain af ns ss) B q t c"
  shows "usable env domain q"
  using p
proof induction
  case (first q w t)
  then show ?case using env_okD(6) [OF env] by (fastforce simp: arc_def one_hop_def)
qed

lemma path_target:
  assumes "env_ok env domain" "tc_path (arc env domain af ns ss) B q t c"
  shows "t \<in> targets env" "t \<notin> B"
  using assms(2) arc_target [OF assms(1)] by (induction, auto)

lemma finite_stores:
  assumes "env_ok env domain"
  shows "finite {p. tc_nodes (ev_tc env) p \<noteq> None}" "finite {p. tc_endpoints (ev_tc env) p \<noteq> None}"
proof -
  have "tc_inv {} (ev_tc env)" using env_okD(1) [OF assms] .
  then have N: "index_set (tc_tree (ev_tc env)) = nodes_of (tc_nodes (ev_tc env))"
    and P: "index_set (tc_endpoint_tree (ev_tc env)) = endpoints_of (tc_endpoints (ev_tc env))"
    by (simp_all add: tc_inv_def nodes_inv_def endpoints_inv_def)
  have "{p. tc_nodes (ev_tc env) p \<noteq> None} = snd ` nodes_of (tc_nodes (ev_tc env))"
    by (force simp: nodes_of_def image_iff split: option.splits)
  moreover have "{p. tc_endpoints (ev_tc env) p \<noteq> None} = snd ` endpoints_of (tc_endpoints (ev_tc env))"
    by (force simp: endpoints_of_def image_iff split: option.splits)
  ultimately show "finite {p. tc_nodes (ev_tc env) p \<noteq> None}" "finite {p. tc_endpoints (ev_tc env) p \<noteq> None}"
    by (simp_all add: N [symmetric] P [symmetric])
qed

lemma finite_targets:
  assumes "env_ok env domain"
  shows "finite (targets env)" "card (node_targets (targets env)) = card {p. tc_nodes (ev_tc env) p \<noteq> None}"
proof -
  note f = finite_stores [OF assms]
  have "targets env \<subseteq> Node_Target ` {p. tc_nodes (ev_tc env) p \<noteq> None} \<union> End_Target ` {p. tc_endpoints (ev_tc env) p \<noteq> None}"
    by (auto simp: targets_def)
  then show "finite (targets env)" using f finite_subset by blast
  have "node_targets (targets env) = Node_Target ` {p. tc_nodes (ev_tc env) p \<noteq> None}"
    by (auto simp: node_targets_def targets_def)
  then show "card (node_targets (targets env)) = card {p. tc_nodes (ev_tc env) p \<noteq> None}"
    by (simp add: card_image inj_on_def)
qed

definition run_inv ::
  "environment \<Rightarrow> allocator \<Rightarrow> nat \<Rightarrow> u8 \<Rightarrow> bool \<Rightarrow> bool \<Rightarrow> target set \<Rightarrow> (route_key \<Rightarrow> routing_entry \<Rightarrow> bool)
     \<Rightarrow> (source \<times> u32 \<times> target) set \<Rightarrow> (route_key \<times> u32) set \<Rightarrow> routing \<Rightarrow> bool" where
  "run_inv env alloc domain af ns ss B Z P R st \<longleftrightarrow> search_inv (arc env domain af ns ss) (targets env) B P st
     \<and> routes_inv env alloc domain af ns ss B Z (owed env domain ns ss B st - R) st"

lemma owed_relaxed: "relaxed (targets env) B st st' \<Longrightarrow> owed env domain ns ss B st' = owed env domain ns ss B st"
proof -
  assume r: "relaxed (targets env) B st st'"
  have s: "settled (targets env) B st' = settled (targets env) B st" using r by (simp add: relaxed_def)
  show ?thesis
    unfolding owed_def s by (rule SUP_cong [OF refl]) (simp add: owed_at_def relaxed_settled [OF r])
qed

lemma routes_inv_frame:
  assumes "rt_entries st' = rt_entries st" "rt_tree st' = rt_tree st"
  shows "routes_inv env alloc domain af ns ss B Z D st' = routes_inv env alloc domain af ns ss B Z D st"
  using assms by (simp add: routes_inv_def routes_ok_def route_at_def covers_def)

lemma routes_inv_subset: "routes_inv env alloc domain af ns ss B Z D st \<Longrightarrow> D' \<subseteq> D \<Longrightarrow> routes_inv env alloc domain af ns ss B Z D' st"
  by (fastforce simp: routes_inv_def)

lemma insert_frame [simp]:
  "rt_entries (insert_into_working_tree t h w pc ph d sh lo st) = rt_entries st"
  "rt_tree (insert_into_working_tree t h w pc ph d sh lo st) = rt_tree st"
  by (simp_all add: insert_into_working_tree_def upd_dijkstra_def Let_def)

text \<open>The target that is being processed: it was settled last and has the highest cost.\<close>

definition current :: "target set \<Rightarrow> target set \<Rightarrow> target \<Rightarrow> ptr \<Rightarrow> routing \<Rightarrow> bool" where
  "current E B t h st \<longleftrightarrow> t \<in> settled E B st \<and> (\<forall>u \<in> settled E B st. cost st u \<le> cost st t)
     \<and> cost st t \<le> 0xffff00 * card (node_targets (settled E B st)) \<and> card (node_targets (settled E B st)) \<le> 255
     \<and> dj_first_hop (rt_nodes st t) = Some h"

lemma current_relaxed: "relaxed E B st st' \<Longrightarrow> current E B t h st \<Longrightarrow> current E B t h st'"
  unfolding current_def using relaxed_settled [of E B st st'] by (simp add: relaxed_def)

lemma relax_current:
  fixes ph d :: u8 and sh :: bool and lo :: netaddr
  assumes env: "env_ok env domain" and inv: "run_inv env alloc domain af ns ss B Z P R st"
    and cur: "current (targets env) B t h st" and a: "arc env domain af ns ss (Via t) w u"
  defines "st' \<equiv> insert_into_working_tree u h w (dj_path_cost (rt_nodes st t)) ph d sh (Some lo) st"
  shows "run_inv env alloc domain af ns ss B Z (P - {(Via t, w, u)}) R st' \<and> relaxed (targets env) B st st'"
proof -
  note A = arc_target [OF env a]
  have i: "search_inv (arc env domain af ns ss) (targets env) B P st" using inv by (simp add: run_inv_def)
  have c: "t \<in> settled (targets env) B st" "\<And>v. v \<in> settled (targets env) B st \<Longrightarrow> cost st v \<le> cost st t"
    "cost st t \<le> 0xffff00 * card (node_targets (settled (targets env) B st))"
    "card (node_targets (settled (targets env) B st)) \<le> 255" "dj_first_hop (rt_nodes st t) = Some h"
    using cur unfolding current_def by blast+
  have sc: "source_cost st (Via t) = cost st t" by (simp add: source_cost_def)
  have 1: "search_inv (arc env domain af ns ss) (targets env) B (P - {(Via t, w, u)}) st' \<and> relaxed (targets env) B st st'"
    unfolding st'_def
  proof (rule relax [where s = "Via t" and h = h and pc = "dj_path_cost (rt_nodes st t)" and A = "arc env domain af ns ss"
        and E = "targets env", OF i a A(1) _ A(2), unfolded sc])
    show "source_settled (targets env) B st (Via t)" using c(1) by (simp add: source_settled_def)
    show "dj_first_hop (rt_nodes st v) = Some h" if "Via t = Via v" for v using that c(5) by simp
    show "cost st v \<le> cost st t" if "v \<in> settled (targets env) B st" for v by (rule c(2) [OF that])
  qed (use c(3,4) in auto)
  then have "owed env domain ns ss B st' = owed env domain ns ss B st" by (simp add: owed_relaxed)
  moreover have "routes_inv env alloc domain af ns ss B Z D st' = routes_inv env alloc domain af ns ss B Z D st" for D
    by (rule routes_inv_frame) (simp_all add: st'_def)
  ultimately show ?thesis using inv 1 by (simp add: run_inv_def)
qed

lemma run_inv_less:
  assumes "run_inv env alloc domain af ns ss B Z P R st"
    and "\<And>s w t. (s, w, t) \<in> P \<Longrightarrow> arc env domain af ns ss s w t \<Longrightarrow> (s, w, t) \<in> P'"
    and "R \<inter> owed env domain ns ss B st \<subseteq> R'"
  shows "run_inv env alloc domain af ns ss B Z P' R' st"
proof -
  have "owed env domain ns ss B st - R' \<subseteq> owed env domain ns ss B st - R" using assms(3) by blast
  then have "routes_inv env alloc domain af ns ss B Z (owed env domain ns ss B st - R') st"
    using assms(1) routes_inv_subset [OF _ \<open>_ - R' \<subseteq> _\<close>] by (simp add: run_inv_def)
  moreover have "search_inv (arc env domain af ns ss) (targets env) B P' st"
    using assms(1,2) unfolding run_inv_def search_inv_def by blast
  ultimately show ?thesis by (simp add: run_inv_def)
qed

lemma run_invD:
  assumes "run_inv env alloc domain af ns ss B Z P R st"
  shows "search_inv (arc env domain af ns ss) (targets env) B P st"
    "routes_inv env alloc domain af ns ss B Z (owed env domain ns ss B st - R) st"
  using assms by (simp_all add: run_inv_def)

subsection \<open>Processing a node\<close>

lemma node_edge:
  assumes "env_ok env domain" "tc_nodes (ev_tc env) p = Some n" "e \<in> set (avl_elements (tn_edges n))"
  shows "\<exists>x. tc_edges (ev_tc env) e = Some x"
proof -
  note D = nodes_invD [OF conjunct1 [OF env_okD(1) [OF assms(1), unfolded tc_inv_def]]]
  show ?thesis using D(4) [OF assms(2)] assms(3) by (auto simp: in_elements edges_of_def split: option.splits)
qed

lemma node_attachment:
  assumes "env_ok env domain" "tc_nodes (ev_tc env) p = Some n" "j \<in> set (avl_elements (tn_attached_networks n))"
  shows "\<exists>a x. tc_attachments (ev_tc env) j = Some a \<and> tc_endpoints (ev_tc env) (ta_dst a) = Some x"
proof -
  have "endpoints_inv (tc_endpoint_tree (ev_tc env)) (tc_nodes (ev_tc env)) (tc_endpoints (ev_tc env)) (tc_attachments (ev_tc env))"
    using env_okD(1) [OF assms(1)] by (simp add: tc_inv_def)
  note D = endpoints_invD [OF this]
  show ?thesis using D(4) [OF assms(2)] D(8) assms(3)
    by (fastforce simp: in_elements attached_of_def split: option.splits)
qed

lemma handle_edge_ok:
  assumes env: "env_ok env domain" and inv: "run_inv env alloc domain af ns ss B Z P R st"
    and n: "tc_nodes (ev_tc env) p = Some n" "e \<in> set (avl_elements (tn_edges n))"
    and cur: "current (targets env) B (Node_Target p) h st"
  shows "\<exists>st'. handle_edge env domain ns (Node_Target p) n h e st = Some st'
    \<and> run_inv env alloc domain af ns ss B Z (P - {(Via (Node_Target p), w, u) | w u. edge_arc env domain ns n e w u}) R st'
    \<and> relaxed (targets env) B st st'"
proof -
  obtain x where x: "tc_edges (ev_tc env) e = Some x" using node_edge [OF env n] by blast
  show ?thesis
  proof (cases "\<not> te_virtual x \<and> te_cost x domain \<le> RFC7181_METRIC_MAX \<and> \<not> (\<not> ns \<and> \<not> tn_source_specific n)")
    case True
    then have e: "edge_arc env domain ns n e w u \<longleftrightarrow> w = te_cost x domain \<and> u = Node_Target (te_dst x)" for w u
      using x by (auto simp: edge_arc_def)
    then have "arc env domain af ns ss (Via (Node_Target p)) (te_cost x domain) (Node_Target (te_dst x))"
      using n by (auto simp: arc_def)
    from relax_current [OF env inv cur this] show ?thesis
      using True x e by (simp add: handle_edge_def)
  next
    case False
    then have "\<not> edge_arc env domain ns n e w u" for w u using x by (auto simp: edge_arc_def)
    then show ?thesis using False x inv by (auto simp: handle_edge_def)
  qed
qed

lemma handle_edges_ok:
  assumes "env_ok env domain" "run_inv env alloc domain af ns ss B Z P R st"
    "tc_nodes (ev_tc env) p = Some n" "set es \<subseteq> set (avl_elements (tn_edges n))"
    "current (targets env) B (Node_Target p) h st"
  shows "\<exists>st'. handle_edges env domain ns (Node_Target p) n h es st = Some st'
    \<and> run_inv env alloc domain af ns ss B Z (P - {(Via (Node_Target p), w, u) | w u e. e \<in> set es \<and> edge_arc env domain ns n e w u}) R st'
    \<and> relaxed (targets env) B st st'"
  using assms(2,4,5)
proof (induction es arbitrary: P st)
  case (Cons e es)
  then obtain st1 where 1: "handle_edge env domain ns (Node_Target p) n h e st = Some st1"
    "run_inv env alloc domain af ns ss B Z (P - {(Via (Node_Target p), w, u) | w u. edge_arc env domain ns n e w u}) R st1"
    "relaxed (targets env) B st st1"
    using handle_edge_ok [OF assms(1) Cons.prems(1) assms(3), of e h] by auto
  obtain st2 where 2: "handle_edges env domain ns (Node_Target p) n h es st1 = Some st2"
    "run_inv env alloc domain af ns ss B Z (P - {(Via (Node_Target p), w, u) | w u. edge_arc env domain ns n e w u}
       - {(Via (Node_Target p), w, u) | w u e. e \<in> set es \<and> edge_arc env domain ns n e w u}) R st2"
    "relaxed (targets env) B st1 st2"
    using Cons.IH [OF 1(2) _ current_relaxed [OF 1(3) Cons.prems(3)]] Cons.prems(2) by auto
  have "run_inv env alloc domain af ns ss B Z
     (P - {(Via (Node_Target p), w, u) | w u e'. e' \<in> set (e # es) \<and> edge_arc env domain ns n e' w u}) R st2"
    by (rule run_inv_less [OF 2(2)]) auto
  then show ?case using 1(1) 2(1) relaxed_trans [OF 1(3) 2(3)] by simp
qed auto

lemma owed_outside:
  assumes "u \<notin> targets env"
  shows "owed env domain ns ss B (upd_dijkstra u f st) = owed env domain ns ss B st"
    "settled (targets env) B (upd_dijkstra u f st) = settled (targets env) B st"
proof -
  show s: "settled (targets env) B (upd_dijkstra u f st) = settled (targets env) B st"
    using assms by (auto simp: settled_def upd_dijkstra_def)
  have "rt_nodes (upd_dijkstra u f st) t = rt_nodes st t" if "t \<in> settled (targets env) B st" for t
    using assms that by (auto simp: settled_def upd_dijkstra_def)
  then show "owed env domain ns ss B (upd_dijkstra u f st) = owed env domain ns ss B st"
    unfolding owed_def s by (intro SUP_cong) (simp_all add: owed_at_def)
qed

lemma search_outside:
  assumes inv: "search_inv A E B P st" and u: "u \<notin> E"
  shows "search_inv A E B P (upd_dijkstra u f st)"
proof -
  note I = search_invD [OF inv] and W = working_okD [OF I(1)]
  let ?st = "upd_dijkstra u f st"
  have nd: "rt_nodes ?st t = rt_nodes st t" if "t \<in> E" for t using u that by (auto simp: upd_dijkstra_def)
  have w: "rt_working ?st = rt_working st" by (simp add: upd_dijkstra_def)
  have q: "queued ?st = queued st" by (simp add: queued_def w)
  have s: "settled E B ?st = settled E B st" using nd by (auto simp: settled_def)
  have se: "t \<in> E" if "t \<in> queued st \<union> settled E B st" for t using that W(5) by (auto simp: settled_def)
  have c: "cost ?st t = cost st t" if "t \<in> queued st \<union> settled E B st" for t using nd se that by simp
  have sc: "source_cost ?st r = source_cost st r" if "source_settled E B st r" for r
    using that c by (auto simp: source_cost_def source_settled_def split: source.splits)
  have ss: "source_settled E B ?st r = source_settled E B st r" for r
    by (simp add: source_settled_def s split: source.splits)
  have wo: "working_ok E B ?st"
  proof -
    have "rt_nodes ?st t = rt_nodes st t" if "(k, t) \<in> set (avl_entries (rt_working st))" for k t
      using that nd se by (auto simp: queued_def in_elements)
    then show ?thesis using I(1) nd unfolding working_ok_def w by fastforce
  qed
  show ?thesis
    unfolding search_inv_def q s ss
  proof (intro conjI allI impI ballI)
    fix t assume t: "t \<in> queued st \<union> settled E B st"
    show "\<exists>q. dj_first_hop (rt_nodes ?st t) = Some q \<and> tc_path A B q t (cost ?st t) \<and> dj_last_originator (rt_nodes ?st t) \<noteq> None"
      using I(2) [OF t] nd [OF se [OF t]] by simp
  next
    fix r w t assume a: "A r w t" "source_settled E B st r" "t \<notin> B" "(r, w, t) \<notin> P"
    from I(3,4) [OF a] show "t \<in> queued st \<union> settled E B st" "cost ?st t \<le> source_cost ?st r + unat w"
      using c sc [OF a(2)] by simp_all
  next
    fix v t assume "v \<in> settled E B st" "t \<in> queued st"
    then show "cost ?st v \<le> cost ?st t" using I(5) c by simp
  next
    fix t assume "t \<in> queued st"
    then show "cost ?st t \<le> 0xffff00 * (card (node_targets (settled E B st)) + 1)" using I(6) c by simp
  qed (rule wo)
qed

lemma current_path:
  assumes inv: "run_inv env alloc domain af ns ss B Z P R st" and cur: "current (targets env) B t h st"
  shows "tc_path (arc env domain af ns ss) B h t (cost st t)"
    "w \<le> RFC7181_METRIC_MAX \<Longrightarrow> unat (dj_path_cost (rt_nodes st t) + w) = cost st t + unat w"
proof -
  have c: "t \<in> settled (targets env) B st" "dj_first_hop (rt_nodes st t) = Some h"
    "cost st t \<le> 0xffff00 * card (node_targets (settled (targets env) B st))"
    "card (node_targets (settled (targets env) B st)) \<le> 255"
    using cur unfolding current_def by blast+
  show "tc_path (arc env domain af ns ss) B h t (cost st t)"
    using search_invD(2) [OF run_invD(1) [OF inv], of t] c by auto
  assume "w \<le> RFC7181_METRIC_MAX"
  then have "unat w \<le> 0xffff00" by (simp add: word_le_nat_alt RFC7181_METRIC_MAX_def)
  moreover have "0xffff00 * card (node_targets (settled (targets env) B st)) \<le> 0xffff00 * 255"
    using c(4) by (rule mult_le_mono2)
  ultimately have "unat (dj_path_cost (rt_nodes st t)) + unat w < 2 ^ LENGTH(32)" using c(3) by simp
  then show "unat (dj_path_cost (rt_nodes st t) + w) = cost st t + unat w"
    by (simp add: unat_add_lem [THEN iffD1])
qed

lemma search_inv_frame:
  assumes "rt_nodes st' = rt_nodes st" "rt_working st' = rt_working st" "search_inv A E B P st"
  shows "search_inv A E B P st'"
proof -
  have q: "queued st' = queued st" "settled E B st' = settled E B st" "working_ok E B st' = working_ok E B st"
    using assms(1,2) by (simp_all add: queued_def settled_def working_ok_def)
  have "source_cost st' s = source_cost st s" "source_settled E B st' s = source_settled E B st s" for s
    using assms(1) q(2) by (auto simp: source_cost_def source_settled_def split: source.splits)
  then show ?thesis using assms(1,3) by (simp add: search_inv_def q)
qed

lemma run_update:
  assumes env: "env_ok env domain" and al: "allocator_ok alloc"
    and inv: "run_inv env alloc domain af ns ss B Z P R st" and ip: "ip_prefix (rk_dst k)"
    and q: "usable env domain q" and p: "dest_path env domain af ns ss B q k (unat c)" and lo: "last_orig \<noteq> None"
  shows "\<exists>st'. update_routing_entry env alloc domain k (Some q) d c ph sh last_orig st = Some st'
    \<and> run_inv env alloc domain af ns ss B Z P (R - {(k, c)}) st' \<and> rt_nodes st' = rt_nodes st"
proof -
  note I = run_invD [OF inv]
  obtain st' where st': "update_routing_entry env alloc domain k (Some q) d c ph sh last_orig st = Some st'"
    "routes_inv env alloc domain af ns ss B Z (insert (k, c) (owed env domain ns ss B st - R)) st'"
    "rt_nodes st' = rt_nodes st" "rt_working st' = rt_working st"
    using update_step [OF env al ip q I(2) p lo] by blast
  have "search_inv (arc env domain af ns ss) (targets env) B P st'"
    by (rule search_inv_frame [OF st'(3,4) I(1)])
  moreover have "owed env domain ns ss B st' = owed env domain ns ss B st"
    using st'(3) by (simp add: owed_def owed_at_def settled_def)
  moreover have "routes_inv env alloc domain af ns ss B Z (owed env domain ns ss B st - (R - {(k, c)})) st'"
    by (rule routes_inv_subset [OF st'(2)]) blast
  ultimately show ?thesis using st' by (simp add: run_inv_def)
qed

lemma handle_attachment_ok:
  assumes env: "env_ok env domain" and al: "allocator_ok alloc" and inv: "run_inv env alloc domain af ns ss B Z P R st"
    and n: "tc_nodes (ev_tc env) p = Some n" "j \<in> set (avl_elements (tn_attached_networks n))"
    and cur: "current (targets env) B (Node_Target p) h st"
  shows "\<exists>st'. handle_attachment env alloc domain ns ss (Node_Target p) n h j st = Some st'
    \<and> run_inv env alloc domain af ns ss B Z (P - {(Via (Node_Target p), w, u) | w u. attachment_arc env domain ns ss j w u})
         (R - {(k, dj_path_cost (rt_nodes st (Node_Target p)) + w) | k w. direct_attachment env domain ns ss j k w}) st'
    \<and> relaxed (targets env) B st st'"
proof -
  obtain a x where x: "tc_attachments (ev_tc env) j = Some a" "tc_endpoints (ev_tc env) (ta_dst a) = Some x"
    using node_attachment [OF env n] by blast
  let ?used = "ta_cost a domain \<le> RFC7181_METRIC_MAX \<and> (if na_prefix_len (rk_src (tp_prefix x)) > 0 then ss else ns)"
  have arc: "attachment_arc env domain ns ss j w u \<longleftrightarrow> ?used \<and> tr_count (tp_attached_networks x) > 1
      \<and> w = ta_cost a domain \<and> u = End_Target (ta_dst a)" for w u
    using x by (auto simp: attachment_arc_def)
  have dir: "direct_attachment env domain ns ss j k w \<longleftrightarrow> ?used \<and> \<not> tr_count (tp_attached_networks x) > 1
      \<and> k = tp_prefix x \<and> w = ta_cost a domain" for k w
    using x by (auto simp: direct_attachment_def)
  show ?thesis
  proof (cases "?used")
    case False
    then have "handle_attachment env alloc domain ns ss (Node_Target p) n h j st = Some st"
      using x by (auto simp: handle_attachment_def)
    then show ?thesis using inv False by (auto simp: arc dir)
  next
    case used: True
    show ?thesis
    proof (cases "tr_count (tp_attached_networks x) > 1")
      case True
      then have "attachment_arc env domain ns ss j (ta_cost a domain) (End_Target (ta_dst a))" using used by (simp add: arc)
      then have "arc env domain af ns ss (Via (Node_Target p)) (ta_cost a domain) (End_Target (ta_dst a))"
        using n by (auto simp: arc_def)
      note r = relax_current [OF env inv cur this]
      have "{(Via (Node_Target p), w, u) | w u. attachment_arc env domain ns ss j w u}
          = {(Via (Node_Target p), ta_cost a domain, End_Target (ta_dst a))}"
        "{(k, dj_path_cost (rt_nodes st (Node_Target p)) + w) | k w. direct_attachment env domain ns ss j k w} = {}"
        using used True by (auto simp: arc dir)
      moreover have "handle_attachment env alloc domain ns ss (Node_Target p) n h j st =
        Some (insert_into_working_tree (End_Target (ta_dst a)) h (ta_cost a domain) (dj_path_cost (rt_nodes st (Node_Target p)))
          (dj_path_hops (rt_nodes st (Node_Target p))) (ta_distance a domain) False (Some (rk_dst (tn_prefix n))) st)"
        using True used x by (auto simp: handle_attachment_def)
      ultimately show ?thesis using r by simp
    next
      case False
      let ?u = "End_Target (ta_dst a)"
      let ?st = "upd_dijkstra ?u (\<lambda>d. d\<lparr>dj_done := True\<rparr>) st"
      let ?c = "dj_path_cost (rt_nodes st (Node_Target p)) + ta_cost a domain"
      have u: "?u \<notin> targets env" using False x by (simp add: targets_def)
      have "Node_Target p \<in> targets env" using n by (simp add: targets_def)
      then have pc: "dj_path_cost (rt_nodes ?st (Node_Target p)) = dj_path_cost (rt_nodes st (Node_Target p))"
        by (simp add: upd_dijkstra_def)
      have rel: "relaxed (targets env) B st ?st"
        using u owed_outside(2) [OF u] by (auto simp: relaxed_def upd_dijkstra_def)
      have "routes_inv env alloc domain af ns ss B Z D ?st = routes_inv env alloc domain af ns ss B Z D st" for D
        by (rule routes_inv_frame) (simp_all add: upd_dijkstra_def)
      then have 1: "run_inv env alloc domain af ns ss B Z P R ?st"
        using run_invD [OF inv] search_outside [OF _ u] by (simp add: run_inv_def owed_outside [OF u])
      note path = current_path [OF inv cur]
      have j: "j \<in> attached_at env p" using n by (simp add: attached_at_def)
      have "direct_attachment env domain ns ss j (tp_prefix x) (ta_cost a domain)" using used False by (simp add: dir)
      then have dp: "dest_path env domain af ns ss B h (tp_prefix x) (unat ?c)"
        unfolding dest_path_def using path(1) path(2) [OF conjunct1 [OF used]] j by blast
      obtain st' where st': "update_routing_entry env alloc domain (tp_prefix x) (Some h) (ta_distance a domain) ?c
          (dj_path_hops (rt_nodes ?st ?u) + 1) False (Some (rk_dst (tn_prefix n))) ?st = Some st'"
        "run_inv env alloc domain af ns ss B Z P (R - {(tp_prefix x, ?c)}) st'" "rt_nodes st' = rt_nodes ?st"
        using run_update [OF env al 1 env_okD(4) [OF env x(2)] path_usable [OF env path(1)] dp, of "Some (rk_dst (tn_prefix n))"]
        by blast
      have "settled (targets env) B st' = settled (targets env) B ?st" using st'(3) by (simp add: settled_def)
      then have "relaxed (targets env) B st st'" using rel st'(3) by (simp add: relaxed_def)
      moreover have "handle_attachment env alloc domain ns ss (Node_Target p) n h j st = Some st'"
        using x used False st'(1) pc by (auto simp: handle_attachment_def Let_def)
      moreover have "{(Via (Node_Target p), w, u) | w u. attachment_arc env domain ns ss j w u} = {}"
        "{(k, dj_path_cost (rt_nodes st (Node_Target p)) + w) | k w. direct_attachment env domain ns ss j k w} = {(tp_prefix x, ?c)}"
        using used False by (auto simp: arc dir)
      ultimately show ?thesis using st'(2) by simp
    qed
  qed
qed

lemma handle_attachments_ok:
  assumes "env_ok env domain" "allocator_ok alloc" "run_inv env alloc domain af ns ss B Z P R st"
    "tc_nodes (ev_tc env) p = Some n" "set js \<subseteq> set (avl_elements (tn_attached_networks n))"
    "current (targets env) B (Node_Target p) h st"
  shows "\<exists>st'. handle_attachments env alloc domain ns ss (Node_Target p) n h js st = Some st'
    \<and> run_inv env alloc domain af ns ss B Z
         (P - {(Via (Node_Target p), w, u) | w u j. j \<in> set js \<and> attachment_arc env domain ns ss j w u})
         (R - {(k, dj_path_cost (rt_nodes st (Node_Target p)) + w) | k w j. j \<in> set js \<and> direct_attachment env domain ns ss j k w}) st'
    \<and> relaxed (targets env) B st st'"
  using assms(3,5,6)
proof (induction js arbitrary: P R st)
  case (Cons j js)
  let ?P = "P - {(Via (Node_Target p), w, u) | w u. attachment_arc env domain ns ss j w u}"
  let ?R = "R - {(k, dj_path_cost (rt_nodes st (Node_Target p)) + w) | k w. direct_attachment env domain ns ss j k w}"
  obtain st1 where 1: "handle_attachment env alloc domain ns ss (Node_Target p) n h j st = Some st1"
    "run_inv env alloc domain af ns ss B Z ?P ?R st1" "relaxed (targets env) B st st1"
    using handle_attachment_ok [OF assms(1,2) Cons.prems(1) assms(4), of j h] Cons.prems(2,3) by auto
  have pc: "dj_path_cost (rt_nodes st1 (Node_Target p)) = dj_path_cost (rt_nodes st (Node_Target p))"
    using relaxed_settled [OF 1(3)] Cons.prems(3) by (simp add: current_def)
  obtain st2 where 2: "handle_attachments env alloc domain ns ss (Node_Target p) n h js st1 = Some st2"
    "run_inv env alloc domain af ns ss B Z
       (?P - {(Via (Node_Target p), w, u) | w u j. j \<in> set js \<and> attachment_arc env domain ns ss j w u})
       (?R - {(k, dj_path_cost (rt_nodes st (Node_Target p)) + w) | k w j. j \<in> set js \<and> direct_attachment env domain ns ss j k w}) st2"
    "relaxed (targets env) B st1 st2"
    using Cons.IH [OF 1(2) _ current_relaxed [OF 1(3) Cons.prems(3)]] Cons.prems(2) unfolding pc by auto
  have "run_inv env alloc domain af ns ss B Z
     (P - {(Via (Node_Target p), w, u) | w u i. i \<in> set (j # js) \<and> attachment_arc env domain ns ss i w u})
     (R - {(k, dj_path_cost (rt_nodes st (Node_Target p)) + w) | k w i. i \<in> set (j # js) \<and> direct_attachment env domain ns ss i k w}) st2"
    by (rule run_inv_less [OF 2(2)]) auto
  then show ?case using 1(1) 2(1) relaxed_trans [OF 1(3) 2(3)] by simp
qed auto

lemma handle_node_ok:
  assumes env: "env_ok env domain" "allocator_ok alloc" and inv: "run_inv env alloc domain af ns ss B Z P R st"
    and p: "tc_nodes (ev_tc env) p = Some n" and cur: "current (targets env) B (Node_Target p) h st"
    and P: "P \<subseteq> {(Via (Node_Target p), w, u) | w u. True}"
    and R: "R \<subseteq> {(k, dj_path_cost (rt_nodes st (Node_Target p)) + w) | k w j. j \<in> attached_at env p
      \<and> direct_attachment env domain ns ss j k w}"
  shows "\<exists>st'. handle_node env alloc domain ns ss p st = Some st'
    \<and> run_inv env alloc domain af ns ss B Z {} {} st' \<and> relaxed (targets env) B st st'"
proof -
  have h: "dj_first_hop (rt_nodes st (Node_Target p)) = Some h" using cur by (simp add: current_def)
  let ?E = "avl_elements (tn_edges n)" and ?J = "avl_elements (tn_attached_networks n)"
  let ?P = "P - {(Via (Node_Target p), w, u) | w u e. e \<in> set ?E \<and> edge_arc env domain ns n e w u}"
  obtain st1 where 1: "handle_edges env domain ns (Node_Target p) n h ?E st = Some st1"
    "run_inv env alloc domain af ns ss B Z ?P R st1" "relaxed (targets env) B st st1"
    using handle_edges_ok [OF env(1) inv p order_refl cur] by blast
  have pc: "dj_path_cost (rt_nodes st1 (Node_Target p)) = dj_path_cost (rt_nodes st (Node_Target p))"
    using relaxed_settled [OF 1(3)] cur by (simp add: current_def)
  obtain st2 where 2: "handle_attachments env alloc domain ns ss (Node_Target p) n h ?J st1 = Some st2"
    "run_inv env alloc domain af ns ss B Z
       (?P - {(Via (Node_Target p), w, u) | w u j. j \<in> set ?J \<and> attachment_arc env domain ns ss j w u})
       (R - {(k, dj_path_cost (rt_nodes st (Node_Target p)) + w) | k w j. j \<in> set ?J \<and> direct_attachment env domain ns ss j k w}) st2"
    "relaxed (targets env) B st1 st2"
    using handle_attachments_ok [OF env 1(2) p order_refl current_relaxed [OF 1(3) cur]] unfolding pc by blast
  have "run_inv env alloc domain af ns ss B Z {} {} st2"
  proof (rule run_inv_less [OF 2(2)], goal_cases)
    case (1 s w t)
    then show ?case using P p by (auto simp: arc_def)
  next
    case 2
    then show ?case using R p by (auto simp: attached_at_def)
  qed
  then show ?thesis using 1(1) 2(1) h p relaxed_trans [OF 1(3) 2(3)] by (simp add: handle_node_def)
qed

subsection \<open>Taking a target off the working tree\<close>

definition popped :: "target \<Rightarrow> routing \<Rightarrow> routing" where
  "popped t st = upd_dijkstra t (\<lambda>d. d\<lparr>dj_done := True\<rparr>) (st\<lparr>rt_working := avl_remove (rt_working st) t\<rparr>)"

lemma popped_data [simp]:
  "rt_working (popped t st) = avl_remove (rt_working st) t" "rt_entries (popped t st) = rt_entries st"
  "rt_tree (popped t st) = rt_tree st" "u \<noteq> t \<Longrightarrow> rt_nodes (popped t st) u = rt_nodes st u"
  "rt_nodes (popped t st) t = (rt_nodes st t)\<lparr>dj_done := True\<rparr>"
  by (simp_all add: popped_def upd_dijkstra_def)

lemma popped_cost [simp]: "dj_path_cost (rt_nodes (popped t st) u) = dj_path_cost (rt_nodes st u)"
  "dj_first_hop (rt_nodes (popped t st) u) = dj_first_hop (rt_nodes st u)"
  "dj_last_originator (rt_nodes (popped t st) u) = dj_last_originator (rt_nodes st u)"
  "dj_local (rt_nodes (popped t st) u) = dj_local (rt_nodes st u)"
  "dj_done (rt_nodes (popped t st) u) \<longleftrightarrow> u = t \<or> dj_done (rt_nodes st u)"
  by (cases "u = t"; simp)+

lemma node_targets_insert: "node_targets (insert t T) = (if \<exists>p. t = Node_Target p then insert t (node_targets T) else node_targets T)"
  by (auto simp: node_targets_def)

lemma pop_search:
  assumes inv: "search_inv A E B {} st" and e: "avl_elements (rt_working st) = t # ts" and fin: "finite E"
  shows "search_inv A E B {(Via t, w, u) | w u. True} (popped t st)"
    "settled E B (popped t st) = insert t (settled E B st)" "t \<in> E" "t \<notin> settled E B st" "t \<in> queued st"
    "\<forall>u \<in> settled E B st. cost st u \<le> cost st t"
proof -
  note I = search_invD [OF inv] and W = working_okD [OF I(1)]
  let ?T = "rt_working st" and ?st = "popped t st"
  show q: "t \<in> queued st" by (simp add: queued_def e)
  show tE: "t \<in> E" and tS: "t \<notin> settled E B st" using W(5,7) q by (auto simp: settled_def)
  have tB: "t \<notin> B" using W(6) q by simp
  show s: "settled E B ?st = insert t (settled E B st)"
    using tE tB by (auto simp: settled_def)
  have D: "avl_ok (avl_remove ?T t)" "set (avl_entries (avl_remove ?T t)) = {x \<in> set (avl_entries ?T). snd x \<noteq> t}"
    "tr_comp (avl_remove ?T t) = tr_comp ?T" "tr_allow_dups (avl_remove ?T t) = tr_allow_dups ?T"
    using avl.del_old [of ?T t] W(1) q by (auto simp: avl_ids queued_def)
  have q': "queued ?st = queued st - {t}" by (auto simp: queued_def elements_entries D(2))
  obtain k xs where k: "avl_entries ?T = (k, t) # xs" using e by (cases "avl_entries ?T") (auto simp: elements_entries)
  have least: "cost st t \<le> cost st u" if u: "u \<in> queued st" for u
  proof -
    obtain k' where k': "(k', u) \<in> set (avl_entries ?T)" using u unfolding queued_def in_elements by blast
    have "avl_comp_uint32 k k' \<le> 0" using avl.first_least [OF W(1) k k'] W(2) by simp
    moreover have "k = dj_path_cost (rt_nodes st t)" "k' = dj_path_cost (rt_nodes st u)"
      using W(4) k k' by auto
    ultimately show ?thesis by (auto simp: avl_comp_uint32_def word_le_nat_alt not_less split: if_splits)
  qed
  show low: "\<forall>u \<in> settled E B st. cost st u \<le> cost st t" using I(5) q by blast
  have wo: "working_ok E B ?st"
    unfolding working_ok_def
  proof (intro conjI)
    show "\<forall>(k, u) \<in> set (avl_entries (rt_working ?st)). k = dj_path_cost (rt_nodes ?st u) \<and> u \<in> E \<and> u \<notin> B
      \<and> \<not> dj_done (rt_nodes ?st u)"
    proof clarify
      fix k u assume "(k, u) \<in> set (avl_entries (rt_working ?st))"
      then have u: "(k, u) \<in> set (avl_entries ?T)" "u \<noteq> t" by (auto simp: D(2))
      then have "u \<in> queued st" by (force simp: queued_def elements_entries)
      then show "k = dj_path_cost (rt_nodes ?st u) \<and> u \<in> E \<and> u \<notin> B \<and> \<not> dj_done (rt_nodes ?st u)"
        using W(4) [OF u(1)] W(5-7) u(2) by simp
    qed
    show "\<forall>u \<in> E. (dj_local (rt_nodes ?st u) \<longrightarrow> u \<in> B) \<and> (u \<in> B \<longrightarrow> dj_local (rt_nodes ?st u) \<or> dj_done (rt_nodes ?st u))"
      using W(8,9) by auto
  qed (use D W(2,3) in simp_all)
  have un: "queued ?st \<union> settled E B ?st = queued st \<union> settled E B st" using q q' s by auto
  have sc: "source_cost ?st r = source_cost st r" for r by (simp add: source_cost_def split: source.splits)
  have "finite (node_targets (settled E B st))" using fin by (simp add: node_targets_def settled_def)
  then have card: "card (node_targets (settled E B st)) \<le> card (node_targets (settled E B ?st))"
    unfolding s node_targets_insert by (simp add: card_insert_le)
  show "search_inv A E B {(Via t, w, u) | w u. True} ?st"
    unfolding search_inv_def un
  proof (intro conjI allI impI ballI)
    fix u assume "u \<in> queued st \<union> settled E B st"
    from I(2) [OF this] show "\<exists>q. dj_first_hop (rt_nodes ?st u) = Some q \<and> tc_path A B q u (cost ?st u)
      \<and> dj_last_originator (rt_nodes ?st u) \<noteq> None" by simp
  next
    fix r w u assume a: "A r w u" "source_settled E B ?st r" "u \<notin> B" "(r, w, u) \<notin> {(Via t, w, u) | w u. True}"
    then have "source_settled E B st r" using s by (auto simp: source_settled_def split: source.splits)
    from I(3,4) [OF a(1) this a(3)] show "u \<in> queued st \<union> settled E B st" "cost ?st u \<le> source_cost ?st r + unat w"
      by (simp_all add: sc)
  next
    fix u v assume "u \<in> settled E B ?st" "v \<in> queued ?st"
    then show "cost ?st u \<le> cost ?st v" using s q' least I(5) [of u v] by auto
  next
    fix v assume "v \<in> queued ?st"
    then have "v \<in> queued st" using q' by simp
    from I(6) [OF this] card show "cost ?st v \<le> 0xffff00 * (card (node_targets (settled E B ?st)) + 1)"
      by simp
  qed (rule wo)
qed

lemma pop_run:
  assumes env: "env_ok env domain" and inv: "run_inv env alloc domain af ns ss B Z {} {} st"
    and e: "avl_elements (rt_working st) = t # ts" and few: "card {p. tc_nodes (ev_tc env) p \<noteq> None} \<le> 255"
  shows "run_inv env alloc domain af ns ss B Z {(Via t, w, u) | w u. True} (owed_at env domain ns ss (popped t st) t) (popped t st)"
    "settled (targets env) B (popped t st) = insert t (settled (targets env) B st)"
    "t \<in> targets env" "t \<notin> settled (targets env) B st"
    "\<exists>h. dj_first_hop (rt_nodes st t) = Some h \<and> tc_path (arc env domain af ns ss) B h t (cost st t)
       \<and> (\<forall>p. t = Node_Target p \<longrightarrow> current (targets env) B t h (popped t st))"
    "dj_last_originator (rt_nodes st t) \<noteq> None"
proof -
  note I = run_invD [OF inv] and P = pop_search [OF run_invD(1) [OF inv] e finite_targets(1) [OF env]]
  show "settled (targets env) B (popped t st) = insert t (settled (targets env) B st)"
    "t \<in> targets env" "t \<notin> settled (targets env) B st" by (rule P)+
  have "owed_at env domain ns ss (popped t st) u = owed_at env domain ns ss st u" for u
    by (simp add: owed_at_def)
  then have "owed env domain ns ss B (popped t st) - owed_at env domain ns ss (popped t st) t \<subseteq> owed env domain ns ss B st - {}"
    by (auto simp: owed_def P(2))
  moreover have "routes_inv env alloc domain af ns ss B Z D (popped t st) = routes_inv env alloc domain af ns ss B Z D st" for D
    by (rule routes_inv_frame) simp_all
  ultimately show "run_inv env alloc domain af ns ss B Z {(Via t, w, u) | w u. True} (owed_at env domain ns ss (popped t st) t) (popped t st)"
    using P(1) routes_inv_subset [OF I(2)] by (simp add: run_inv_def)
  obtain h where h: "dj_first_hop (rt_nodes st t) = Some h" "tc_path (arc env domain af ns ss) B h t (cost st t)"
    "dj_last_originator (rt_nodes st t) \<noteq> None"
    using search_invD(2) [OF I(1), of t] P(5) by blast
  then show "dj_last_originator (rt_nodes st t) \<noteq> None" by simp
  have fN: "finite (node_targets (targets env))" using finite_targets(1) [OF env] by (simp add: node_targets_def)
  let ?S = "node_targets (settled (targets env) B st)" and ?S' = "node_targets (settled (targets env) B (popped t st))"
  have "current (targets env) B t h (popped t st)" if t: "t = Node_Target p" for p
  proof -
    have "?S' \<subseteq> node_targets (targets env)" by (auto simp: node_targets_def settled_def)
    then have "card ?S' \<le> 255" using card_mono [OF fN] finite_targets(2) [OF env] few by (metis le_trans)
    moreover have "finite ?S" by (rule finite_subset [OF _ fN]) (auto simp: node_targets_def settled_def)
    moreover have "t \<notin> ?S" using P(4) by (simp add: node_targets_def)
    moreover have "?S' = insert t ?S" unfolding P(2) node_targets_insert using t by simp
    ultimately have "card ?S' \<le> 255" "card ?S' = card ?S + 1" by simp_all
    moreover have "cost st t \<le> 0xffff00 * (card ?S + 1)" using search_invD(6) [OF I(1) P(5)] .
    ultimately show ?thesis using h(1) P(2,6) by (auto simp: current_def)
  qed
  then show "\<exists>h. dj_first_hop (rt_nodes st t) = Some h \<and> tc_path (arc env domain af ns ss) B h t (cost st t)
       \<and> (\<forall>p. t = Node_Target p \<longrightarrow> current (targets env) B t h (popped t st))"
    using h by blast
qed

lemma target_prefix_ip:
  assumes env: "env_ok env domain" and t: "t \<in> targets env"
  shows "\<exists>k. target_prefix (ev_tc env) t = Some k \<and> ip_prefix (rk_dst k)"
  using t env_okD(3,4) [OF env] by (auto simp: targets_def target_prefix_def)

lemma handle_working_queue_ok:
  assumes env: "env_ok env domain" "allocator_ok alloc" and inv: "run_inv env alloc domain af ns ss B Z {} {} st"
    and few: "card {p. tc_nodes (ev_tc env) p \<noteq> None} \<le> 255" and ne: "\<not> avl_is_empty (rt_working st)"
  shows "\<exists>st' t. handle_working_queue env alloc domain ns ss st = Some st' \<and> run_inv env alloc domain af ns ss B Z {} {} st'
    \<and> t \<in> targets env \<and> t \<notin> settled (targets env) B st
    \<and> settled (targets env) B st' = insert t (settled (targets env) B st)"
proof -
  have "avl_ok (rt_working st)" using working_okD(1) [OF search_invD(1) [OF run_invD(1) [OF inv]]] .
  then obtain t ts where e: "avl_elements (rt_working st) = t # ts"
    using ne by (cases "avl_elements (rt_working st)") (auto simp: avl_is_empty_iff elements_entries)
  note P = pop_run [OF env(1) inv e few]
  let ?st = "popped t st" and ?d = "rt_nodes (popped t st) t"
  obtain h where h: "dj_first_hop (rt_nodes st t) = Some h" "tc_path (arc env domain af ns ss) B h t (cost st t)"
    "\<And>p. t = Node_Target p \<Longrightarrow> current (targets env) B t h ?st" using P(5) by blast
  obtain k where k: "target_prefix (ev_tc env) t = Some k" "ip_prefix (rk_dst k)" using target_prefix_ip [OF env(1) P(3)] by blast
  let ?R = "{(k, dj_path_cost (rt_nodes ?st t) + w) | k w p j. t = Node_Target p \<and> j \<in> attached_at env p
      \<and> direct_attachment env domain ns ss j k w}"
  have O: "owed_at env domain ns ss ?st t - {(k, dj_path_cost (rt_nodes st t))} \<subseteq> ?R"
    "\<not> ns \<Longrightarrow> owed_at env domain ns ss ?st t \<subseteq> ?R"
    using k(1) by (auto simp: owed_at_def)
  let ?X = "if ns then do { prefix \<leftarrow> target_prefix (ev_tc env) t;
        update_routing_entry env alloc domain prefix (dj_first_hop ?d) (dj_distance ?d) (dj_path_cost ?d)
          (dj_path_hops ?d) (dj_single_hop ?d) (dj_last_originator ?d) ?st } else Some ?st"
  obtain st1 where st1: "?X = Some st1"
    "run_inv env alloc domain af ns ss B Z {(Via t, w, u) | w u. True} ?R st1" "rt_nodes st1 = rt_nodes ?st"
  proof (cases ns)
    case True
    have "dest_path env domain af ns ss B h k (unat (dj_path_cost (rt_nodes st t)))"
      using True h(2) k(1) by (auto simp: dest_path_def)
    then obtain st1 where "update_routing_entry env alloc domain k (Some h) (dj_distance ?d) (dj_path_cost (rt_nodes st t))
        (dj_path_hops ?d) (dj_single_hop ?d) (dj_last_originator (rt_nodes st t)) ?st = Some st1"
      "run_inv env alloc domain af ns ss B Z {(Via t, w, u) | w u. True}
         (owed_at env domain ns ss ?st t - {(k, dj_path_cost (rt_nodes st t))}) st1" "rt_nodes st1 = rt_nodes ?st"
      using run_update [OF env P(1) k(2) path_usable [OF env(1) h(2)] _ P(6)] by blast
    moreover from this(2) have "run_inv env alloc domain af ns ss B Z {(Via t, w, u) | w u. True} ?R st1"
      by (rule run_inv_less) (use O(1) in \<open>blast+\<close>)
    ultimately show ?thesis by (intro that [of st1]) (simp_all add: True k(1) h(1))
  next
    case False
    have "run_inv env alloc domain af ns ss B Z {(Via t, w, u) | w u. True} ?R ?st"
      by (rule run_inv_less [OF P(1)]) (use O(2) [OF False] in \<open>blast+\<close>)
    then show ?thesis by (intro that [of ?st]) (simp_all add: False)
  qed
  have s1: "settled (targets env) B st1 = insert t (settled (targets env) B st)"
    using st1(3) P(2) by (simp add: settled_def)
  have step: "handle_working_queue env alloc domain ns ss st =
      (case t of Node_Target p \<Rightarrow> handle_node env alloc domain ns ss p st1 | End_Target p \<Rightarrow> Some st1)"
  proof -
    have "handle_working_queue env alloc domain ns ss st =
        ?X \<bind> (\<lambda>st. case t of Node_Target p \<Rightarrow> handle_node env alloc domain ns ss p st | End_Target p \<Rightarrow> Some st)"
      by (simp only: handle_working_queue_def e Let_def popped_def list.case)
    then show ?thesis by (simp only: st1(1) bind.bind_lunit)
  qed
  show ?thesis
  proof (cases t)
    case (Node_Target p)
    then obtain n where n: "tc_nodes (ev_tc env) p = Some n" using P(3) by (auto simp: targets_def)
    have "current (targets env) B (Node_Target p) h st1"
      using h(3) [OF Node_Target] st1(3) Node_Target by (simp add: current_def settled_def)
    then obtain st2 where st2: "handle_node env alloc domain ns ss p st1 = Some st2"
      "run_inv env alloc domain af ns ss B Z {} {} st2" "relaxed (targets env) B st1 st2"
      using handle_node_ok [OF env st1(2) n] Node_Target st1(3) by auto
    have "settled (targets env) B st2 = insert t (settled (targets env) B st)" using st2(3) s1 by (simp add: relaxed_def)
    then show ?thesis using step st2 Node_Target P(3,4) by auto
  next
    case (End_Target p)
    have "run_inv env alloc domain af ns ss B Z {} {} st1"
      by (rule run_inv_less [OF st1(2)]) (use End_Target in \<open>auto simp: arc_def\<close>)
    then show ?thesis using step s1 End_Target P(3,4) by auto
  qed
qed

lemma work_off_ok:
  assumes env: "env_ok env domain" "allocator_ok alloc" and few: "card {p. tc_nodes (ev_tc env) p \<noteq> None} \<le> 255"
    and inv: "run_inv env alloc domain af ns ss B Z {} {} st"
  shows "\<exists>st'. work_off env alloc domain ns ss st = Some st' \<and> run_inv env alloc domain af ns ss B Z {} {} st'
    \<and> avl_is_empty (rt_working st')"
  using inv
proof (induction "card (targets env - settled (targets env) B st)" arbitrary: st rule: less_induct)
  case less
  show ?case
  proof (cases "avl_is_empty (rt_working st)")
    case True
    then show ?thesis using less.prems by (subst work_off.simps) simp
  next
    case False
    obtain st1 t where 1: "handle_working_queue env alloc domain ns ss st = Some st1"
      "run_inv env alloc domain af ns ss B Z {} {} st1" "t \<in> targets env" "t \<notin> settled (targets env) B st"
      "settled (targets env) B st1 = insert t (settled (targets env) B st)"
      using handle_working_queue_ok [OF env less.prems few False] by blast
    have "card (targets env - settled (targets env) B st1) < card (targets env - settled (targets env) B st)"
      by (rule psubset_card_mono) (use 1(3-5) finite_targets(1) [OF env(1)] in auto)
    from less.hyps [OF this 1(2)] show ?thesis using False 1(1) by (subst work_off.simps) simp
  qed
qed

subsection \<open>The whole run\<close>

definition blocked :: "routing \<Rightarrow> target set" where
  "blocked st = {t. dj_local (rt_nodes st t) \<or> dj_done (rt_nodes st t)}"

text \<open>Before a run the working tree is empty.\<close>

definition run_ready :: "routing \<Rightarrow> bool" where
  "run_ready st \<longleftrightarrow> routes_ok st \<and> avl_ok (rt_working st) \<and> avl_is_empty (rt_working st)
     \<and> tr_comp (rt_working st) = avl_comp_uint32 \<and> tr_allow_dups (rt_working st)"

lemma start_settled: "settled (targets env) (blocked st) st = {}"
  by (auto simp: settled_def blocked_def)

lemma start_inv:
  assumes "run_ready st" "\<forall>k e. route_at st domain k = Some e \<longrightarrow> re_set e \<longrightarrow> Z k e"
  shows "run_inv env alloc domain af ns ss (blocked st) Z {(Neigh q, w, u) | q w u. True} {} st"
proof -
  have e: "avl_entries (rt_working st) = []" using assms by (auto simp: run_ready_def avl_is_empty_iff)
  note s = start_settled [of env st]
  then have o': "owed env domain ns ss (blocked st) st = {}" by (simp add: owed_def)
  have "queued st = {}" by (simp add: queued_def elements_entries e)
  moreover have "working_ok (targets env) (blocked st) st" using assms e by (auto simp: working_ok_def run_ready_def blocked_def)
  ultimately have "search_inv (arc env domain af ns ss) (targets env) (blocked st) {(Neigh q, w, u) | q w u. True} st"
    by (auto simp: search_inv_def s source_settled_def split: source.splits)
  then show "run_inv env alloc domain af ns ss (blocked st) Z {(Neigh q, w, u) | q w u. True} {} st"
    using assms by (simp add: run_inv_def routes_inv_def o' run_ready_def)
qed

lemma add_one_hop_node_ok:
  assumes env: "env_ok env domain" and inv: "run_inv env alloc domain af ns ss B Z P R st"
    and q: "q \<in> set (db_neigh_list (ev_nhdp env))" and s: "settled (targets env) B st = {}" and af: "af \<in> {AF_INET, AF_INET6}"
  shows "\<exists>st'. add_one_hop_node env domain af ns ss q st = Some st'
    \<and> run_inv env alloc domain af ns ss B Z (P - {(Neigh q, w, u) | w u. True}) R st' \<and> settled (targets env) B st' = {}"
proof -
  obtain neigh where n: "db_neighs (ev_nhdp env) q = Some neigh" using env_okD(5) [OF env q] by blast
  have nodes: "\<exists>n. tc_nodes (ev_tc env) p = Some n" if "tc_node_get (ev_tc env) a = Some p" for a p
  proof -
    have "nodes_inv (tc_tree (ev_tc env)) (tc_nodes (ev_tc env)) (tc_edges (ev_tc env)) {}"
      using env_okD(1) [OF env] by (simp add: tc_inv_def)
    note D = nodes_invD [OF this]
    show ?thesis using that addr_index.find_iff [OF D(1)] D(2) by (auto simp: tc_node_get_def nodes_of_def split: option.splits)
  qed
  let ?m = "nd_metric (nn_domaindata neigh domain)"
  show ?thesis
  proof (cases "\<exists>w p. one_hop env domain af ns ss q w p")
    case False
    have st: "add_one_hop_node env domain af ns ss q st = Some st"
      using False n nodes unfolding add_one_hop_node_def one_hop_def
      by (auto simp: Let_def not_less split: option.splits) fastforce+
    have "run_inv env alloc domain af ns ss B Z (P - {(Neigh q, w, u) | w u. True}) R st"
      by (rule run_inv_less [OF inv]) (use False in \<open>auto simp: arc_def\<close>)
    then show ?thesis using st s by blast
  next
    case True
    then obtain p x where p: "na_type (nn_originator neigh) = af" "nn_symmetric neigh \<noteq> 0"
      "tc_node_get (ev_tc env) (nn_originator neigh) = Some p" "tc_nodes (ev_tc env) p = Some x"
      "ns \<or> tn_source_specific x \<and> ss" "nm_in ?m \<le> RFC7181_METRIC_MAX" "nm_out ?m \<le> RFC7181_METRIC_MAX"
      using n by (auto simp: one_hop_def)
    have oh: "one_hop env domain af ns ss q w r \<longleftrightarrow> w = nm_out ?m \<and> r = p" for w r
      using n p by (auto simp: one_hop_def)
    let ?t = "Node_Target p"
    have arc: "arc env domain af ns ss (Neigh q) (nm_out ?m) ?t" using q oh by (auto simp: arc_def)
    obtain o' where o': "originator_get (ev_originators env) af = Some o'" using af by (cases "af = AF_INET") (auto simp: originator_get_def)
    let ?st = "insert_into_working_tree ?t q (nm_out ?m) 0 0 0 True (Some o') st"
    have st: "add_one_hop_node env domain af ns ss q st = Some ?st"
      using n p o' by (auto simp: add_one_hop_node_def Let_def not_less)
    have r: "search_inv (arc env domain af ns ss) (targets env) B (P - {(Neigh q, nm_out ?m, ?t)}) ?st
        \<and> relaxed (targets env) B st ?st"
      by (rule relax [where s = "Neigh q" and pc = 0 and h = q, OF run_invD(1) [OF inv] arc arc_target(1) [OF env arc] _ p(7)])
        (simp_all add: source_settled_def source_cost_def s node_targets_def)
    have "owed env domain ns ss B ?st = owed env domain ns ss B st" using r by (simp add: owed_relaxed)
    moreover have "routes_inv env alloc domain af ns ss B Z D ?st = routes_inv env alloc domain af ns ss B Z D st" for D
      by (rule routes_inv_frame) simp_all
    ultimately have "run_inv env alloc domain af ns ss B Z (P - {(Neigh q, nm_out ?m, ?t)}) R ?st"
      using r run_invD(2) [OF inv] by (simp add: run_inv_def)
    then have "run_inv env alloc domain af ns ss B Z (P - {(Neigh q, w, u) | w u. True}) R ?st"
      by (rule run_inv_less) (use oh in \<open>auto simp: arc_def\<close>)
    then show ?thesis using st r s by (auto simp: relaxed_def)
  qed
qed

lemma add_one_hop_nodes_ok:
  assumes "env_ok env domain" "run_inv env alloc domain af ns ss B Z P R st" "set qs \<subseteq> set (db_neigh_list (ev_nhdp env))"
    "settled (targets env) B st = {}" "af \<in> {AF_INET, AF_INET6}"
  shows "\<exists>st'. add_one_hop_nodes env domain af ns ss qs st = Some st'
    \<and> run_inv env alloc domain af ns ss B Z (P - {(Neigh q, w, u) | q w u. q \<in> set qs}) R st' \<and> settled (targets env) B st' = {}"
  using assms(2-4)
proof (induction qs arbitrary: P st)
  case (Cons q qs)
  obtain st1 where 1: "add_one_hop_node env domain af ns ss q st = Some st1"
    "run_inv env alloc domain af ns ss B Z (P - {(Neigh q, w, u) | w u. True}) R st1" "settled (targets env) B st1 = {}"
    using add_one_hop_node_ok [OF assms(1) Cons.prems(1) _ Cons.prems(3) assms(5), of q] Cons.prems(2) by auto
  obtain st2 where 2: "add_one_hop_nodes env domain af ns ss qs st1 = Some st2"
    "run_inv env alloc domain af ns ss B Z (P - {(Neigh q, w, u) | w u. True} - {(Neigh q, w, u) | q w u. q \<in> set qs}) R st2"
    "settled (targets env) B st2 = {}"
    using Cons.IH [OF 1(2) _ 1(3)] Cons.prems(2) by auto
  have "run_inv env alloc domain af ns ss B Z (P - {(Neigh r, w, u) | r w u. r \<in> set (q # qs)}) R st2"
    by (rule run_inv_less [OF 2(2)]) auto
  then show ?case using 1(1) 2(1,3) by auto
qed auto

lemma run_dijkstra_ok:
  assumes env: "env_ok env domain" "allocator_ok alloc" and few: "card {p. tc_nodes (ev_tc env) p \<noteq> None} \<le> 255"
    and r: "run_ready st" and z: "\<forall>k e. route_at st domain k = Some e \<longrightarrow> re_set e \<longrightarrow> Z k e" and af: "af \<in> {AF_INET, AF_INET6}"
  shows "\<exists>st'. run_dijkstra env alloc domain af ns ss st = Some st'
    \<and> run_inv env alloc domain af ns ss (blocked st) Z {} {} st' \<and> avl_is_empty (rt_working st')"
proof -
  obtain st1 where 1: "add_one_hop_nodes env domain af ns ss (db_neigh_list (ev_nhdp env)) st = Some st1"
    "run_inv env alloc domain af ns ss (blocked st) Z
      ({(Neigh q, w, u) | q w u. True} - {(Neigh q, w, u) | q w u. q \<in> set (db_neigh_list (ev_nhdp env))}) {} st1"
    using add_one_hop_nodes_ok [OF env(1) start_inv [OF r z] order_refl start_settled af] by blast
  have "run_inv env alloc domain af ns ss (blocked st) Z {} {} st1"
    by (rule run_inv_less [OF 1(2)]) (auto simp: arc_def)
  from work_off_ok [OF env few this] show ?thesis using 1(1) by (simp add: run_dijkstra_def)
qed

lemma run_result:
  assumes env: "env_ok env domain" and inv: "run_inv env alloc domain af ns ss B Z {} {} st" and e: "avl_is_empty (rt_working st)"
    and p: "tc_path (arc env domain af ns ss) B q t c"
  shows "t \<in> settled (targets env) B st \<and> cost st t \<le> c"
proof -
  note I = search_invD [OF run_invD(1) [OF inv]] and W = working_okD [OF I(1)]
  have Q: "queued st = {}" using e W(1) by (simp add: avl_is_empty_iff queued_def elements_entries)
  show ?thesis
    using p
  proof induction
    case (first q w t)
    then show ?case using I(3,4) [OF first(1)] Q by (auto simp: source_settled_def source_cost_def)
  next
    case (further q u c w t)
    then have "source_settled (targets env) B st (Via u)" by (simp add: source_settled_def)
    from I(3,4) [OF further(2) this further(3)] further show ?case using Q by (simp add: source_cost_def)
  qed
qed

lemma refused_mono:
  assumes "route_refused env domain k c = Some True" "c \<le> c'"
  shows "route_refused env domain k c' = Some True"
proof -
  obtain x where x: "originator_get (ev_originators env) (na_type (rk_dst k)) = Some x"
    using assms(1) by (cases "originator_get (ev_originators env) (na_type (rk_dst k))") (auto simp: route_refused_def)
  show ?thesis
  proof (cases "lan_get (ev_lan env) k")
    case None
    then show ?thesis using assms(1) x by (simp add: route_refused_def split: if_split_asm)
  next
    case (Some p)
    show ?thesis
    proof (cases "lan_entries (ev_lan env) p")
      case None
      then show ?thesis using assms(1) x Some by (simp add: route_refused_def split: if_split_asm)
    next
      case (Some l)
      have "la_outgoing_metric (le_domaindata l domain) < c \<Longrightarrow> la_outgoing_metric (le_domaindata l domain) < c'"
        by (rule less_le_trans [OF _ assms(2)])
      then show ?thesis using assms(1) x \<open>lan_get _ _ = _\<close> Some by (simp add: route_refused_def split: if_split_asm)
    qed
  qed
qed

lemma run_targets:
  assumes env: "env_ok env domain" and inv: "run_inv env alloc domain af ns ss B Z {} {} st"
    and e: "avl_is_empty (rt_working st)" and t: "t \<in> targets env" "t \<notin> B"
  shows "if dj_done (rt_nodes st t)
    then (\<exists>q. dj_first_hop (rt_nodes st t) = Some q \<and> tc_path (arc env domain af ns ss) B q t (cost st t))
      \<and> (\<forall>q c. tc_path (arc env domain af ns ss) B q t c \<longrightarrow> cost st t \<le> c)
    else \<forall>q c. \<not> tc_path (arc env domain af ns ss) B q t c"
proof (cases "dj_done (rt_nodes st t)")
  case True
  then have "t \<in> settled (targets env) B st" using t by (simp add: settled_def)
  then show ?thesis
    using True search_invD(2) [OF run_invD(1) [OF inv], of t] run_result [OF env inv e] by auto
next
  case False
  then show ?thesis using run_result [OF env inv e] by (auto simp: settled_def)
qed

lemma run_routes:
  assumes env: "env_ok env domain" and inv: "run_inv env alloc domain af ns ss B Z {} {} st"
    and e: "avl_is_empty (rt_working st)" and mem: "enough_memory alloc"
    and p: "dest_path env domain af ns ss B q k (unat c)" and r: "route_refused env domain k c = Some False"
  shows "\<exists>e. route_at st domain k = Some e \<and> re_set e \<and> re_path_cost e \<le> c"
proof -
  have cov: "\<exists>e. route_at st domain k = Some e \<and> re_set e \<and> re_path_cost e \<le> c"
    if o': "(k, c0) \<in> owed env domain ns ss B st" and le: "c0 \<le> c" for c0
  proof -
    have "covers env domain st k c0" using routes_invD(3) [OF run_invD(2) [OF inv] mem, of k c0] o' by simp
    then show ?thesis using refused_mono [OF _ le] r le unfolding covers_def by fastforce
  qed
  show ?thesis
    using p unfolding dest_path_def
  proof (elim disjE conjE exE)
    fix t assume ns and t: "tc_path (arc env domain af ns ss) B q t (unat c)" "target_prefix (ev_tc env) t = Some k"
    note s = run_result [OF env inv e t(1)]
    then have "(k, dj_path_cost (rt_nodes st t)) \<in> owed env domain ns ss B st" "dj_path_cost (rt_nodes st t) \<le> c"
      using \<open>ns\<close> t(2) by (auto simp: owed_def owed_at_def word_le_nat_alt)
    then show ?thesis by (rule cov)
  next
    fix p d j w assume t: "tc_path (arc env domain af ns ss) B q (Node_Target p) d" "j \<in> attached_at env p"
      "direct_attachment env domain ns ss j k w" "unat c = d + unat w"
    note s = run_result [OF env inv e t(1)]
    let ?c = "dj_path_cost (rt_nodes st (Node_Target p)) + w"
    have "(k, ?c) \<in> owed env domain ns ss B st" using s t(2,3) by (auto simp: owed_def owed_at_def)
    moreover have "?c \<le> c"
    proof -
      have "cost st (Node_Target p) + unat w \<le> unat c" using s t(4) by simp
      moreover have "unat ?c \<le> cost st (Node_Target p) + unat w" by (simp add: unat_word_ariths)
      ultimately show ?thesis by (simp add: word_le_nat_alt)
    qed
    ultimately show ?thesis by (rule cov)
  qed
qed

lemma run_routes_iff:
  assumes env: "env_ok env domain" and inv: "run_inv env alloc domain af ns ss B Z {} {} st"
    and e: "avl_is_empty (rt_working st)" and mem: "enough_memory alloc" and z: "\<And>e. \<not> Z k e"
  shows "case route_at st domain k of
      None \<Rightarrow> \<forall>q c. dest_path env domain af ns ss B q k (unat c) \<longrightarrow> route_refused env domain k c \<noteq> Some False
    | Some e \<Rightarrow>
        (if re_set e
         then route_refused env domain k (re_path_cost e) = Some False
           \<and> (\<exists>q. dest_path env domain af ns ss B q k (unat (re_path_cost e)) \<and> route_over env domain q k e)
           \<and> (\<forall>q c. dest_path env domain af ns ss B q k (unat c) \<longrightarrow> route_refused env domain k c = Some False
                \<longrightarrow> re_path_cost e \<le> c)
         else \<forall>q c. dest_path env domain af ns ss B q k (unat c) \<longrightarrow> route_refused env domain k c \<noteq> Some False)"
  using run_routes [OF env inv e mem, of _ k] routes_invD(2) [OF run_invD(2) [OF inv], of k] z
  by (fastforce split: option.splits)

subsection \<open>Properties\<close>

text \<open>
  What a run needs: a consistent environment with at most 255 nodes, so that no path cost overflows, an
  allocator that returns unused addresses, and an empty working tree.
\<close>

definition dijkstra_ready :: "environment \<Rightarrow> allocator \<Rightarrow> nat \<Rightarrow> u8 \<Rightarrow> routing \<Rightarrow> bool" where
  "dijkstra_ready env alloc domain af st \<longleftrightarrow> env_ok env domain \<and> allocator_ok alloc
     \<and> card {p. tc_nodes (ev_tc env) p \<noteq> None} \<le> 255 \<and> run_ready st \<and> af \<in> {AF_INET, AF_INET6}"

lemma dijkstra_ready_run:
  assumes "dijkstra_ready env alloc domain af st"
    "\<forall>k e. route_at st domain k = Some e \<longrightarrow> re_set e \<longrightarrow> Z k e"
  shows "\<exists>st'. run_dijkstra env alloc domain af ns ss st = Some st' \<and> env_ok env domain
    \<and> run_inv env alloc domain af ns ss (blocked st) Z {} {} st' \<and> avl_is_empty (rt_working st')"
  using run_dijkstra_ok [of env domain alloc st Z af] assms unfolding dijkstra_ready_def by blast

text \<open>A neighbor that is the only node of the topology, for the examples.\<close>

definition ex_addr :: netaddr where
  "ex_addr = na_const [10, 0, 0, 1] AF_INET 32"

definition ex_tc :: tc_db where
  "ex_tc = snd (the (tc_node_add (Some 1) ex_addr 1000 7 tc_init))"

definition ex_neighbor :: nhdp_neighbor where
  "ex_neighbor =
     \<lparr>nn_originator = ex_addr, nn_symmetric = 1, nn_dualstack_partner = None, nn_local_is_flooding_mpr = False,
      nn_neigh_is_flooding_mpr = False, nn_flooding_willingness = 7, nn_process_count = 0, nn_links = [1],
      nn_neigh_addresses = avl_init avl_comp_netaddr False, nn_link_addresses = avl_init avl_comp_netaddr False,
      nn_domaindata = (\<lambda>_. \<lparr>nd_metric = \<lparr>nm_in = 100, nm_out = 100\<rparr>, nd_best_link = Some 1, nd_best_link_ifindex = 5,
        nd_local_is_mpr = False, nd_neigh_is_mpr = False, nd_willingness = 7\<rparr>)\<rparr>"

definition ex_link :: nhdp_link where
  "ex_link =
     \<lparr>nl_vtime_value = 1000, nl_itime_value = 1000, nl_sym_time = Some 1000, nl_heard_time = Some 1000, nl_vtime = Some 1000,
      nl_status = NHDP_LINK_SYMMETRIC, nl_local_if = None, nl_dualstack_partner = None, nl_neigh = 1, nl_if_addr = ex_addr,
      nl_remote_mac = NETADDR_UNSPEC, nl_process_count = 0, nl_addresses = avl_init avl_comp_netaddr False,
      nl_2hop = avl_init avl_comp_netaddr False, nl_domaindata = (\<lambda>_. \<lparr>nm_in = 100, nm_out = 100\<rparr>)\<rparr>"

definition ex_env :: environment where
  "ex_env =
     \<lparr>ev_tc = ex_tc,
      ev_nhdp = \<lparr>db_naddr_tree = avl_init avl_comp_netaddr False, db_neigh_list = [1],
        db_originator_tree = avl_init avl_comp_netaddr False, db_link_list = [1], db_neighs = [1 \<mapsto> ex_neighbor],
        db_links = [1 \<mapsto> ex_link], db_laddrs = (\<lambda>_. None), db_l2hops = (\<lambda>_. None), db_naddrs = (\<lambda>_. None),
        db_interfaces = (\<lambda>_. None), db_events = []\<rparr>,
      ev_originators = originator_init, ev_lan = lan_init, ev_if_addresses = avl_init avl_comp_netaddr False,
      ev_routable = \<lparr>acl_accept = [], acl_reject = [], acl_reject_first = False, acl_accept_default = True\<rparr>\<rparr>"

definition ex_state :: routing where
  "ex_state =
     \<lparr>rt_tree = (\<lambda>_. avl_init avl_cmp_route_key False), rt_entries = (\<lambda>_. None),
      rt_working = avl_init avl_comp_uint32 True,
      rt_nodes = (\<lambda>_. \<lparr>dj_path_cost = 0, dj_path_hops = 0, dj_distance = 0, dj_first_hop = None, dj_last_originator = None,
        dj_single_hop = False, dj_local = False, dj_done = False\<rparr>)\<rparr>"

definition ex_alloc :: allocator where
  "ex_alloc m = (if finite (dom m) then Some (LEAST p. m p = None) else None)"

lemma ex_alloc_ok: "allocator_ok ex_alloc" "enough_memory ex_alloc"
proof -
  have "m (LEAST p. m p = None) = None" if "finite (dom m)" for m :: "ptr \<Rightarrow> routing_entry option"
  proof -
    have "dom m \<noteq> UNIV" using that by auto
    then obtain p where "m p = None" by auto
    then show ?thesis by (rule LeastI)
  qed
  then show "allocator_ok ex_alloc" "enough_memory ex_alloc"
    by (auto simp: allocator_ok_def enough_memory_def ex_alloc_def)
qed

lemma ex_tc_nodes: "tc_nodes ex_tc = [1 \<mapsto> (new_node ex_addr 7)\<lparr>tn_validity_time := Some 1000\<rparr>]" "tc_endpoints ex_tc = (\<lambda>_. None)"
  by (auto simp: ex_tc_def tc_node_add_def tc_node_get_def tc_init_def avl_find_def avl_init_def upd_node_def Let_def
      timer_interval_def)

lemma ex_tc_reachable: "tc_reachable ex_tc"
proof (rule tc_reachable.step [OF tc_reachable.init])
  show "tc_apply (Node_Add (Some 1) ex_addr 1000 7) tc_init = Some ex_tc"
    by (simp add: ex_tc_def tc_node_add_def tc_node_get_def tc_init_def avl_find_def avl_init_def upd_node_def Let_def)
qed (simp add: fresh_def tc_init_def)

lemma ex_ready: "dijkstra_ready ex_env ex_alloc 0 AF_INET ex_state"
proof -
  note lan = lan_init_ok
  have ip: "ip_prefix ex_addr" by (simp add: ip_prefix_def ex_addr_def na_const_def zero_bytes_def)
  have "usable ex_env 0 1" by (simp add: usable_def ex_env_def ex_neighbor_def)
  then have "env_ok ex_env 0"
    using lan ip tc_reachable_ok [OF ex_tc_reachable] ex_tc_nodes
    by (auto simp: env_ok_def ex_env_def new_node_def init_sourcespec_prefix_def)
  moreover have "{p. tc_nodes (ev_tc ex_env) p \<noteq> None} = {1}" by (auto simp: ex_env_def ex_tc_nodes)
  moreover have "run_ready ex_state"
    by (simp add: run_ready_def ex_state_def routes_ok_def avl_is_empty_def avl_init_def [of avl_comp_uint32] routes_of_def)
      (simp add: avl_init_ok avl_comp_uint32.comparator_axioms flip: avl_init_def)
  ultimately show ?thesis by (simp add: dijkstra_ready_def ex_alloc_ok)
qed

lemma ex_path: "tc_path (arc ex_env 0 AF_INET True True) (blocked ex_state) 1 (Node_Target 1) 100"
proof -
  have T: "nodes_inv (tc_tree ex_tc) (tc_nodes ex_tc) (tc_edges ex_tc) {}"
    using tc_reachable_ok [OF ex_tc_reachable] by (simp add: tc_inv_def)
  note D = nodes_invD [OF T]
  have "tc_node_get ex_tc ex_addr = Some 1"
    using addr_index.find_iff [OF D(1), of ex_addr 1] D(2) ex_tc_nodes
    by (simp add: tc_node_get_def nodes_of_def new_node_def init_sourcespec_prefix_def)
  then have "one_hop ex_env 0 AF_INET True True 1 100 1"
    by (simp add: one_hop_def ex_env_def ex_neighbor_def ex_tc_nodes RFC7181_METRIC_MAX_def) (simp add: ex_addr_def na_const_def)
  then have "arc ex_env 0 AF_INET True True (Neigh 1) 100 (Node_Target 1)" by (simp add: arc_def) (simp add: ex_env_def)
  from tc_path.first [of "arc ex_env 0 AF_INET True True", OF this, of "blocked ex_state"] show ?thesis
    by (simp add: blocked_def ex_state_def)
qed

text \<open>
  C26. A shortest path calculation ends, with an empty working tree, without following a pointer to a freed
  object and without a null pointer where the code relies on an object. It may be started
  (\<open>dijkstra_ready\<close>) when the topology is consistent and has at most 255 nodes, and when every symmetric
  neighbor with finite metrics in the domain has a best link that is allocated, which
  \<open>nhdp_domain_neighborhood_changed\<close> establishes.
\<close>

theorem dijkstra_terminates:
  assumes "dijkstra_ready env alloc domain af st"
  shows "\<exists>st'. run_dijkstra env alloc domain af use_non_ss use_ss st = Some st' \<and> avl_is_empty (rt_working st')"
  using dijkstra_ready_run [OF assms, of "\<lambda>_ _. True"] by blast

theorem dijkstra_terminates_witness:
  "\<exists>st'. run_dijkstra ex_env ex_alloc 0 AF_INET True True ex_state = Some st' \<and> avl_is_empty (rt_working st')"
  by (rule dijkstra_terminates [OF ex_ready])

text \<open>
  C27. The calculation finds shortest paths: afterwards a target that is not the local node and was not
  reached by an earlier calculation is done exactly when there is a path to it, its cost is the least
  cost of a path, and its first hop begins a path of this cost.
\<close>

theorem dijkstra_shortest_paths:
  assumes "dijkstra_ready env alloc domain af st" "run_dijkstra env alloc domain af use_non_ss use_ss st = Some st'"
    "t \<in> targets env" "t \<notin> blocked st"
  shows "if dj_done (rt_nodes st' t)
    then (\<exists>q. dj_first_hop (rt_nodes st' t) = Some q
            \<and> tc_path (arc env domain af use_non_ss use_ss) (blocked st) q t (unat (dj_path_cost (rt_nodes st' t))))
      \<and> (\<forall>q c. tc_path (arc env domain af use_non_ss use_ss) (blocked st) q t c \<longrightarrow> unat (dj_path_cost (rt_nodes st' t)) \<le> c)
    else \<forall>q c. \<not> tc_path (arc env domain af use_non_ss use_ss) (blocked st) q t c"
proof -
  have r: "env_ok env domain" "run_inv env alloc domain af use_non_ss use_ss (blocked st) (\<lambda>_ _. True) {} {} st'"
    "avl_is_empty (rt_working st')"
    using dijkstra_ready_run [OF assms(1), of "\<lambda>_ _. True" use_non_ss use_ss] assms(2) by auto
  show ?thesis by (rule run_targets [OF r assms(3,4)])
qed

theorem dijkstra_shortest_paths_witness:
  "\<exists>st'. run_dijkstra ex_env ex_alloc 0 AF_INET True True ex_state = Some st' \<and> dj_done (rt_nodes st' (Node_Target 1))
     \<and> dj_path_cost (rt_nodes st' (Node_Target 1)) \<le> 100"
proof -
  obtain st' where st': "run_dijkstra ex_env ex_alloc 0 AF_INET True True ex_state = Some st'"
    using dijkstra_ready_run [OF ex_ready, of "\<lambda>_ _. True"] by blast
  have t: "Node_Target 1 \<in> targets ex_env" "Node_Target 1 \<notin> blocked ex_state"
    by (simp_all add: targets_def ex_env_def ex_tc_nodes blocked_def ex_state_def)
  have "dj_done (rt_nodes st' (Node_Target 1)) \<and> unat (dj_path_cost (rt_nodes st' (Node_Target 1))) \<le> 100"
    using dijkstra_shortest_paths [OF ex_ready st' t] ex_path by (auto split: if_splits)
  then show ?thesis using st' by (simp add: word_le_nat_alt)
qed

text \<open>
  C28. The routes of a calculation are the cheapest ones: when no route of the domain was set before and
  there is memory for the routing entries, a route to a prefix is set exactly when some path leads to
  it at a cost for which the route is not refused; it then has the least such cost, and its gateway,
  interface and next hop are those of the best link to the first hop of a path of this cost.
\<close>

theorem dijkstra_routes_cheapest:
  assumes "dijkstra_ready env alloc domain af st" "enough_memory alloc"
    "\<forall>k e. route_at st domain k = Some e \<longrightarrow> \<not> re_set e"
    "run_dijkstra env alloc domain af use_non_ss use_ss st = Some st'"
  shows "case route_at st' domain k of
      None \<Rightarrow> \<forall>q c. dest_path env domain af use_non_ss use_ss (blocked st) q k (unat c) \<longrightarrow> route_refused env domain k c \<noteq> Some False
    | Some e \<Rightarrow>
        (if re_set e
         then route_refused env domain k (re_path_cost e) = Some False
           \<and> (\<exists>q. dest_path env domain af use_non_ss use_ss (blocked st) q k (unat (re_path_cost e)) \<and> route_over env domain q k e)
           \<and> (\<forall>q c. dest_path env domain af use_non_ss use_ss (blocked st) q k (unat c) \<longrightarrow> route_refused env domain k c = Some False
                \<longrightarrow> re_path_cost e \<le> c)
         else \<forall>q c. dest_path env domain af use_non_ss use_ss (blocked st) q k (unat c)
                \<longrightarrow> route_refused env domain k c \<noteq> Some False)"
proof -
  have r: "env_ok env domain" "run_inv env alloc domain af use_non_ss use_ss (blocked st) (\<lambda>_ _. False) {} {} st'"
    "avl_is_empty (rt_working st')"
    using dijkstra_ready_run [OF assms(1), of "\<lambda>_ _. False" use_non_ss use_ss] assms(3,4) by auto
  show ?thesis by (rule run_routes_iff [OF r assms(2)]) simp
qed

theorem dijkstra_routes_cheapest_witness:
  "\<exists>st' e. run_dijkstra ex_env ex_alloc 0 AF_INET True True ex_state = Some st'
     \<and> route_at st' 0 (init_sourcespec_prefix ex_addr) = Some e \<and> re_set e \<and> re_path_cost e \<le> 100
     \<and> re_next_originator e = ex_addr"
proof -
  obtain st' where st': "run_dijkstra ex_env ex_alloc 0 AF_INET True True ex_state = Some st'"
    using dijkstra_ready_run [OF ex_ready, of "\<lambda>_ _. True"] by blast
  have no: "\<forall>k e. route_at ex_state 0 k = Some e \<longrightarrow> \<not> re_set e"
    by (simp add: route_at_def ex_state_def bind_eq_Some_conv)
  let ?k = "init_sourcespec_prefix ex_addr"
  have p: "dest_path ex_env 0 AF_INET True True (blocked ex_state) 1 ?k (unat (100::u32))"
    using ex_path by (fastforce simp: dest_path_def target_prefix_def ex_env_def ex_tc_nodes new_node_def)
  have r: "route_refused ex_env 0 ?k 100 = Some False"
    by (simp add: route_refused_def ex_env_def originator_get_def originator_init_def init_sourcespec_prefix_def ex_addr_def
        na_const_def netaddr_cmp_def avl_find_def avl_init_def lan_get_def lan_init_def netaddr_acl_check_accept_def)
  from dijkstra_routes_cheapest [OF ex_ready ex_alloc_ok(2) no st', of ?k] p r
  obtain e where "route_at st' 0 ?k = Some e" "re_set e" "re_path_cost e \<le> 100" "\<exists>q. route_over ex_env 0 q ?k e"
    by (fastforce split: option.splits if_splits)
  moreover from this(4) have "re_next_originator e = ex_addr"
    by (auto simp: route_over_def ex_env_def ex_neighbor_def split: if_splits)
  ultimately show ?thesis using st' by blast
qed

end
