(* ===== verification/Olsrv2_Kernel.thy ===== *)
theory Olsrv2_Kernel
  imports Olsrv2_Dijkstra
begin

text \<open>
  The rest of \<open>src-plugins/olsrv2/olsrv2/olsrv2_routing.c\<close>: routes over the neighborhood, the queue of routes
  for the kernel, the recalculation with its rate limit, shutdown. The commands to the kernel are those
  of \<open>os_routing_linux.c\<close>: the routes that wait for an answer, and a log of what was sent; the bytes of
  the netlink messages are not modelled. A failing assertion is the result \<open>None\<close>.
\<close>

subsection \<open>Routes over the neighborhood\<close>

definition first_hop_originator :: "environment \<Rightarrow> u8 \<Rightarrow> netaddr" where
  "first_hop_originator env family =
     (case originator_get (ev_originators env) family of Some a \<Rightarrow> a | None \<Rightarrow> NETADDR_UNSPEC)"

fun neighbor_address_routes ::
  "environment \<Rightarrow> allocator \<Rightarrow> nat \<Rightarrow> ptr \<Rightarrow> u8 \<Rightarrow> u32 \<Rightarrow> ptr list \<Rightarrow> routing \<Rightarrow> routing option" where
  "neighbor_address_routes env alloc domain q family neighcost [] st = Some st"
| "neighbor_address_routes env alloc domain q family neighcost (a # as) st = do {
     x \<leftarrow> db_naddrs (ev_nhdp env) a;
     routable \<leftarrow> netaddr_acl_check_accept (ev_routable env) (nx_addr x);
     st \<leftarrow> (if \<not> routable then Some st
           else update_routing_entry env alloc domain (init_sourcespec_prefix (nx_addr x)) (Some q) 0 neighcost 1 True
                  (Some (first_hop_originator env family)) st);
     neighbor_address_routes env alloc domain q family neighcost as st
   }"

fun twohop_routes ::
  "environment \<Rightarrow> allocator \<Rightarrow> nat \<Rightarrow> ptr \<Rightarrow> netaddr \<Rightarrow> u32 \<Rightarrow> ptr list \<Rightarrow> routing \<Rightarrow> routing option" where
  "twohop_routes env alloc domain q originator neighcost [] st = Some st"
| "twohop_routes env alloc domain q originator neighcost (h # hs) st = do {
     l \<leftarrow> db_l2hops (ev_nhdp env) h;
     st \<leftarrow> (if nhdp_db_2hop_is_lost l then Some st
           else if nm_out (l2_domaindata l domain) > RFC7181_METRIC_MAX then Some st
           else update_routing_entry env alloc domain (init_sourcespec_prefix (l2_addr l)) (Some q) 0
                  (nm_out (l2_domaindata l domain) + neighcost) 2 False (Some originator) st);
     twohop_routes env alloc domain q originator neighcost hs st
   }"

fun link_routes ::
  "environment \<Rightarrow> allocator \<Rightarrow> nat \<Rightarrow> ptr \<Rightarrow> netaddr \<Rightarrow> u32 \<Rightarrow> ptr list \<Rightarrow> routing \<Rightarrow> routing option" where
  "link_routes env alloc domain q originator neighcost [] st = Some st"
| "link_routes env alloc domain q originator neighcost (l # ls) st = do {
     lnk \<leftarrow> db_links (ev_nhdp env) l;
     st \<leftarrow> twohop_routes env alloc domain q originator neighcost (avl_elements (nl_2hop lnk)) st;
     link_routes env alloc domain q originator neighcost ls st
   }"

definition handle_nhdp_neighbor :: "environment \<Rightarrow> allocator \<Rightarrow> nat \<Rightarrow> ptr \<Rightarrow> routing \<Rightarrow> routing option" where
  "handle_nhdp_neighbor env alloc domain q st = do {
     neigh \<leftarrow> db_neighs (ev_nhdp env) q;
     let neighcost = nm_out (nd_metric (nn_domaindata neigh domain));
     if nn_symmetric neigh = 0 \<or> neighcost > RFC7181_METRIC_MAX then Some st
     else do {
       st \<leftarrow> neighbor_address_routes env alloc domain q (na_type (nn_originator neigh)) neighcost
              (avl_elements (nn_neigh_addresses neigh)) st;
       link_routes env alloc domain q (nn_originator neigh) neighcost (nn_links neigh) st
     }
   }"

fun handle_nhdp_routes :: "environment \<Rightarrow> allocator \<Rightarrow> nat \<Rightarrow> ptr list \<Rightarrow> routing \<Rightarrow> routing option" where
  "handle_nhdp_routes env alloc domain [] st = Some st"
| "handle_nhdp_routes env alloc domain (q # qs) st =
     handle_nhdp_neighbor env alloc domain q st \<bind> handle_nhdp_routes env alloc domain qs"

subsection \<open>Commands to the kernel\<close>

record routing_set =
  rs_routing :: routing
  rs_kernel_queue :: "ptr list"
  rs_feedback :: "ptr set"
  rs_commands :: "(route_parameter \<times> bool \<times> bool) list"
  rs_domain_parameter :: "nat \<Rightarrow> routing_domain"
  rs_rate_limit_timer :: "u64 option"
  rs_trigger_dijkstra :: bool
  rs_initiate_shutdown :: bool

definition routing_init :: "(nat \<Rightarrow> routing_domain) \<Rightarrow> (target \<Rightarrow> dijkstra_node) \<Rightarrow> routing_set" where
  "routing_init parameter nodes =
     \<lparr>rs_routing = \<lparr>rt_tree = (\<lambda>_. avl_init avl_cmp_route_key False), rt_entries = (\<lambda>_. None),
        rt_working = avl_init avl_comp_uint32 True, rt_nodes = nodes\<rparr>,
      rs_kernel_queue = [], rs_feedback = {}, rs_commands = [], rs_domain_parameter = parameter,
      rs_rate_limit_timer = None, rs_trigger_dijkstra = False, rs_initiate_shutdown = False\<rparr>"

definition entry_of :: "routing_set \<Rightarrow> ptr \<Rightarrow> routing_entry option" where
  "entry_of rs p = rt_entries (rs_routing rs) p"

definition upd_rs :: "ptr \<Rightarrow> (routing_entry \<Rightarrow> routing_entry) \<Rightarrow> routing_set \<Rightarrow> routing_set option" where
  "upd_rs p f rs = do {
     st \<leftarrow> upd_entry p f (rs_routing rs);
     Some (rs\<lparr>rs_routing := st\<rparr>)
   }"

text \<open>The address family of the message, \<open>None\<close> when the addresses do not fit together.\<close>

definition routing_family :: "route_parameter \<Rightarrow> u8 option" where
  "routing_family p = do {
     let family = (if na_type (rk_dst (rp_key p)) \<noteq> AF_UNSPEC then na_type (rk_dst (rp_key p)) else rp_family p);
     family \<leftarrow> (if na_type (rp_gw p) \<noteq> AF_UNSPEC
               then if family \<noteq> AF_UNSPEC \<and> family \<noteq> na_type (rp_gw p) then None else Some (na_type (rp_gw p))
               else Some family);
     family \<leftarrow> (if na_type (rp_src_ip p) \<noteq> AF_UNSPEC
               then if family \<noteq> AF_UNSPEC \<and> family \<noteq> na_type (rp_src_ip p) then None else Some (na_type (rp_src_ip p))
               else Some family);
     Some (if family = AF_UNSPEC then AF_INET else family)
   }"

definition kernel_route :: "bool \<Rightarrow> bool \<Rightarrow> route_parameter \<Rightarrow> route_parameter" where
  "kernel_route st del_similar p =
     (let p = (if st then p
               else let p = p\<lparr>rp_protocol := 0, rp_src_ip := netaddr_invalidate\<rparr>
                    in if del_similar then p\<lparr>rp_if_index := 0\<rparr> else p);
          dst = rk_dst (rp_key p)
      in if netaddr_is_unspec (rp_gw p) \<and> na_type dst = AF_INET \<and> na_prefix_len dst = netaddr_get_maxprefix dst
         then p\<lparr>rp_gw := dst\<rparr> else p)"

definition os_routing_set :: "ptr \<Rightarrow> bool \<Rightarrow> bool \<Rightarrow> routing_set \<Rightarrow> (int \<times> routing_set) option" where
  "os_routing_set p st del_similar rs = do {
     e \<leftarrow> entry_of rs p;
     let r = kernel_route st del_similar (re_route e);
     if routing_family r = None then Some (- 1, rs)
     else if p \<in> rs_feedback rs then None
     else Some (0, rs\<lparr>rs_feedback := insert p (rs_feedback rs), rs_commands := rs_commands rs @ [(r, st, del_similar)]\<rparr>)
   }"

text \<open>\<open>os_routing_interrupt\<close> while the route has no callback.\<close>

definition drop_feedback :: "ptr \<Rightarrow> routing_set \<Rightarrow> routing_set" where
  "drop_feedback p rs = rs\<lparr>rs_feedback := rs_feedback rs - {p}\<rparr>"

definition remove_entry :: "ptr \<Rightarrow> routing_set \<Rightarrow> routing_set option" where
  "remove_entry p rs = do {
     e \<leftarrow> entry_of rs p;
     let rs = drop_feedback p rs;
     let st = rs_routing rs;
     Some (rs\<lparr>rs_routing := st\<lparr>rt_tree := (rt_tree st)(re_domain e := avl_remove (rt_tree st (re_domain e)) p),
       rt_entries := (rt_entries st)(p := None)\<rparr>\<rparr>)
   }"

definition ESRCH :: int where "ESRCH = 3"
definition EEXIST :: int where "EEXIST = 17"

definition cb_route_finished :: "ptr \<Rightarrow> int \<Rightarrow> routing_set \<Rightarrow> routing_set option" where
  "cb_route_finished p error rs = do {
     rs \<leftarrow> upd_rs p (\<lambda>e. e\<lparr>re_in_processing := False\<rparr>) rs;
     e \<leftarrow> entry_of rs p;
     if error \<noteq> 0 \<and> \<not> (\<not> re_set e \<and> error = ESRCH)
     then if error = - 1 then Some rs
          else if error = EEXIST \<and> re_set e then Some rs
          else if re_set e then remove_entry p rs
          else upd_rs p (\<lambda>e. e\<lparr>re_set := True\<rparr>) rs
     else if re_set e then Some rs
     else remove_entry p rs
   }"

text \<open>An answer of the kernel, and \<open>os_routing_interrupt\<close> while the route has its callback.\<close>

definition routing_finished :: "ptr \<Rightarrow> int \<Rightarrow> routing_set \<Rightarrow> routing_set option" where
  "routing_finished p error rs = cb_route_finished p error (drop_feedback p rs)"

definition os_routing_interrupt :: "ptr \<Rightarrow> routing_set \<Rightarrow> routing_set option" where
  "os_routing_interrupt p rs = (if p \<in> rs_feedback rs then routing_finished p (- 1) rs else Some rs)"

subsection \<open>The queue\<close>

definition add_route_to_kernel_queue :: "ptr \<Rightarrow> routing_set \<Rightarrow> routing_set option" where
  "add_route_to_kernel_queue p rs = do {
     e \<leftarrow> entry_of rs p;
     let single = (na_type (rp_gw (re_route e)) = AF_UNSPEC);
     Some (if re_set e = single
           then rs\<lparr>rs_kernel_queue := p # rs_kernel_queue rs\<rparr>
           else rs\<lparr>rs_kernel_queue := rs_kernel_queue rs @ [p]\<rparr>)
   }"

definition process_kernel_entry :: "ptr \<Rightarrow> routing_set \<Rightarrow> routing_set option" where
  "process_kernel_entry p rs = do {
     let rs = rs\<lparr>rs_kernel_queue := remove1 p (rs_kernel_queue rs)\<rparr>;
     e \<leftarrow> entry_of rs p;
     if re_in_processing e then Some rs
     else do {
       rs \<leftarrow> upd_rs p (\<lambda>e. e\<lparr>re_in_processing := True\<rparr>) rs;
       map_option snd (if re_set e then os_routing_set p True True rs else os_routing_set p False False rs)
     }
   }"

fun process_kernel_entries :: "ptr list \<Rightarrow> routing_set \<Rightarrow> routing_set option" where
  "process_kernel_entries [] rs = Some rs"
| "process_kernel_entries (p # ps) rs = process_kernel_entry p rs \<bind> process_kernel_entries ps"

definition process_kernel_queue :: "routing_set \<Rightarrow> routing_set option" where
  "process_kernel_queue rs = process_kernel_entries (rs_kernel_queue rs) rs"

subsection \<open>The result of a calculation\<close>

type_synonym routing_filter = "nat \<Rightarrow> route_parameter \<Rightarrow> bool \<Rightarrow> bool \<times> route_parameter"

text \<open>The result of a filter has no effect: the \<open>continue\<close> of the code only goes on to the next filter.\<close>

fun run_filters :: "nat \<Rightarrow> bool \<Rightarrow> routing_filter list \<Rightarrow> route_parameter \<Rightarrow> route_parameter" where
  "run_filters domain st [] p = p"
| "run_filters domain st (f # fs) p = run_filters domain st fs (snd (f domain p st))"

definition finish_route :: "environment \<Rightarrow> routing_filter list \<Rightarrow> routing_domain \<Rightarrow> nat \<Rightarrow> routing_entry \<Rightarrow> routing_entry" where
  "finish_route env filters dp domain e =
     (let p = (re_route e)\<lparr>rp_table := word_of_int (rd_table dp), rp_protocol := word_of_int (rd_protocol dp),
            rp_metric := rd_distance dp\<rparr>;
          p = (if re_set e \<and> rd_use_srcip_in_routes dp \<and> na_type (rk_dst (rp_key p)) = AF_INET
               then p\<lparr>rp_src_ip := og_v4 (ev_originators env)\<rparr> else p)
      in e\<lparr>re_route := run_filters domain (re_set e) filters p\<rparr>)"

definition process_result :: "environment \<Rightarrow> routing_filter list \<Rightarrow> nat \<Rightarrow> ptr \<Rightarrow> routing_set \<Rightarrow> routing_set option" where
  "process_result env filters domain p rs = do {
     e \<leftarrow> entry_of rs p;
     rs \<leftarrow> upd_rs p (finish_route env filters (rs_domain_parameter rs (re_domain e)) domain) rs;
     e \<leftarrow> entry_of rs p;
     if re_set e \<and> re_old e = re_route e then Some rs
     else add_route_to_kernel_queue p rs
   }"

fun process_results :: "environment \<Rightarrow> routing_filter list \<Rightarrow> nat \<Rightarrow> ptr list \<Rightarrow> routing_set \<Rightarrow> routing_set option" where
  "process_results env filters domain [] rs = Some rs"
| "process_results env filters domain (p # ps) rs =
     process_result env filters domain p rs \<bind> process_results env filters domain ps"

definition process_dijkstra_result :: "environment \<Rightarrow> routing_filter list \<Rightarrow> nat \<Rightarrow> routing_set \<Rightarrow> routing_set option" where
  "process_dijkstra_result env filters domain rs =
     process_results env filters domain (avl_elements (rt_tree (rs_routing rs) domain)) rs"

subsection \<open>Recalculation\<close>

definition calculate_domain :: "environment \<Rightarrow> allocator \<Rightarrow> nat \<Rightarrow> routing \<Rightarrow> routing option" where
  "calculate_domain env alloc domain st = do {
     let st = prepare_routes domain st;
     st \<leftarrow> prepare_nodes env st;
     splitv4 \<leftarrow> check_ssnode_split env domain AF_INET;
     st \<leftarrow> run_dijkstra env alloc domain AF_INET True (\<not> splitv4) st;
     splitv6 \<leftarrow> check_ssnode_split env domain AF_INET6;
     st \<leftarrow> run_dijkstra env alloc domain AF_INET6 True (\<not> splitv6) st;
     st \<leftarrow> (if splitv4 \<or> splitv6 then prepare_nodes env st else Some st);
     st \<leftarrow> (if splitv4 then run_dijkstra env alloc domain AF_INET False True st else Some st);
     st \<leftarrow> (if splitv6 then run_dijkstra env alloc domain AF_INET6 False True st else Some st);
     handle_nhdp_routes env alloc domain (db_neigh_list (ev_nhdp env)) st
   }"

fun update_domains ::
  "environment \<Rightarrow> allocator \<Rightarrow> routing_filter list \<Rightarrow> nat list \<Rightarrow> routing_set \<Rightarrow> routing_set option" where
  "update_domains env alloc filters [] rs = Some rs"
| "update_domains env alloc filters (domain # ds) rs = do {
     st \<leftarrow> calculate_domain env alloc domain (rs_routing rs);
     rs \<leftarrow> process_dijkstra_result env filters domain (rs\<lparr>rs_routing := st\<rparr>);
     update_domains env alloc filters ds rs
   }"

definition OLSRv2_DIJKSTRA_RATE_LIMITATION :: u64 where "OLSRv2_DIJKSTRA_RATE_LIMITATION = 1000"

definition routing_force_update ::
  "environment \<Rightarrow> allocator \<Rightarrow> routing_filter list \<Rightarrow> nat list \<Rightarrow> bool \<Rightarrow> routing_set \<Rightarrow> routing_set option" where
  "routing_force_update env alloc filters domains skip_wait rs =
     (if rs_initiate_shutdown rs then Some rs
      else if rs_rate_limit_timer rs \<noteq> None \<and> \<not> skip_wait then Some (rs\<lparr>rs_trigger_dijkstra := True\<rparr>)
      else do {
        let rs = rs\<lparr>rs_rate_limit_timer := None\<rparr>;
        rs \<leftarrow> update_domains env alloc filters domains rs;
        rs \<leftarrow> process_kernel_queue rs;
        Some (rs\<lparr>rs_rate_limit_timer := timer_interval OLSRv2_DIJKSTRA_RATE_LIMITATION\<rparr>)
      })"

definition routing_trigger_update :: "routing_set \<Rightarrow> routing_set" where
  "routing_trigger_update rs =
     (let rs = rs\<lparr>rs_trigger_dijkstra := True\<rparr>
      in if rs_rate_limit_timer rs = None then rs\<lparr>rs_rate_limit_timer := timer_interval 1\<rparr> else rs)"

text \<open>The timer has fired, it is not active any more.\<close>

definition cb_trigger_dijkstra ::
  "environment \<Rightarrow> allocator \<Rightarrow> routing_filter list \<Rightarrow> nat list \<Rightarrow> routing_set \<Rightarrow> routing_set option" where
  "cb_trigger_dijkstra env alloc filters domains rs =
     (let rs = rs\<lparr>rs_rate_limit_timer := None\<rparr>
      in if rs_trigger_dijkstra rs
         then routing_force_update env alloc filters domains False (rs\<lparr>rs_trigger_dijkstra := False\<rparr>)
         else Some rs)"

subsection \<open>Parameters, shutdown\<close>

definition withdraw_route :: "ptr \<Rightarrow> routing_set \<Rightarrow> routing_set option" where
  "withdraw_route p rs = do {
     e \<leftarrow> entry_of rs p;
     if re_set e
     then do {
       rs \<leftarrow> upd_rs p (\<lambda>e. e\<lparr>re_set := False\<rparr>) rs;
       rs \<leftarrow> (if re_in_processing e
             then os_routing_interrupt p rs \<bind> upd_rs p (\<lambda>e. e\<lparr>re_set := False\<rparr>)
             else Some rs);
       add_route_to_kernel_queue p rs
     }
     else Some rs
   }"

fun withdraw_routes :: "ptr list \<Rightarrow> routing_set \<Rightarrow> routing_set option" where
  "withdraw_routes [] rs = Some rs"
| "withdraw_routes (p # ps) rs = withdraw_route p rs \<bind> withdraw_routes ps"

definition routing_set_domain_parameter :: "nat \<Rightarrow> routing_domain \<Rightarrow> routing_set \<Rightarrow> routing_set option" where
  "routing_set_domain_parameter domain parameter rs =
     (if parameter = rs_domain_parameter rs domain then Some rs
      else let rs = rs\<lparr>rs_domain_parameter := (rs_domain_parameter rs)(domain := parameter)\<rparr>
      in if avl_is_empty (rt_tree (rs_routing rs) domain) then Some rs
      else do {
        rs \<leftarrow> withdraw_routes (avl_elements (rt_tree (rs_routing rs) domain)) rs;
        rs \<leftarrow> process_kernel_queue rs;
        Some (rs\<lparr>rs_rate_limit_timer := timer_interval 100, rs_trigger_dijkstra := True\<rparr>)
      })"

definition stop_route :: "ptr \<Rightarrow> routing_set \<Rightarrow> routing_set option" where
  "stop_route p rs = do {
     e \<leftarrow> entry_of rs p;
     let rs = drop_feedback p rs;
     if re_set e
     then upd_rs p (\<lambda>e. e\<lparr>re_set := False\<rparr>) rs \<bind> add_route_to_kernel_queue p
     else Some rs
   }"

fun stop_routes :: "ptr list \<Rightarrow> routing_set \<Rightarrow> routing_set option" where
  "stop_routes [] rs = Some rs"
| "stop_routes (p # ps) rs = stop_route p rs \<bind> stop_routes ps"

fun stop_domains :: "nat list \<Rightarrow> routing_set \<Rightarrow> routing_set option" where
  "stop_domains [] rs = Some rs"
| "stop_domains (d # ds) rs = stop_routes (avl_elements (rt_tree (rs_routing rs) d)) rs \<bind> stop_domains ds"

definition routing_initiate_shutdown :: "routing_set \<Rightarrow> routing_set option" where
  "routing_initiate_shutdown rs = do {
     let rs = rs\<lparr>rs_initiate_shutdown := True\<rparr>;
     rs \<leftarrow> stop_domains [0..<NHDP_MAXIMUM_DOMAINS] rs;
     process_kernel_queue rs
   }"

fun remove_entries :: "ptr list \<Rightarrow> routing_set \<Rightarrow> routing_set option" where
  "remove_entries [] rs = Some rs"
| "remove_entries (p # ps) rs = remove_entry p rs \<bind> remove_entries ps"

fun remove_domains :: "nat list \<Rightarrow> routing_set \<Rightarrow> routing_set option" where
  "remove_domains [] rs = Some rs"
| "remove_domains (d # ds) rs = remove_entries (avl_elements (rt_tree (rs_routing rs) d)) rs \<bind> remove_domains ds"

definition routing_cleanup :: "routing_set \<Rightarrow> routing_set option" where
  "routing_cleanup rs = remove_domains [0..<NHDP_MAXIMUM_DOMAINS] (rs\<lparr>rs_rate_limit_timer := None\<rparr>)"

subsection \<open>What the kernel knows\<close>

text \<open>
  A calculation does not remove routing entries and does not touch the mark of an entry that the kernel
  is working on.
\<close>

definition kept :: "routing \<Rightarrow> routing \<Rightarrow> bool" where
  "kept st st' \<longleftrightarrow> (\<forall>p e. rt_entries st p = Some e \<longrightarrow>
     (\<exists>e'. rt_entries st' p = Some e' \<and> re_in_processing e' = re_in_processing e \<and> re_domain e' = re_domain e))"

lemma kept_refl [simp]: "kept st st" by (simp add: kept_def)

lemma kept_same: "rt_entries st' = rt_entries st \<Longrightarrow> kept st st'" by (simp add: kept_def)

lemma kept_trans: "kept st st1 \<Longrightarrow> kept st1 st2 \<Longrightarrow> kept st st2"
  unfolding kept_def by metis

lemma update_kept:
  assumes "allocator_ok alloc" "update_routing_entry env alloc domain k h d c ph sh lo st = Some st'"
  shows "kept st st'"
proof -
  have "kept st st1" if a: "add_entry alloc domain k st = (p, st1)" for p st1
  proof (cases "alloc (rt_entries st)")
    case (Some q)
    then have "rt_entries st q = None" using assms(1) by (simp add: allocator_ok_def)
    then show ?thesis using a Some by (auto simp: add_entry_def kept_def split: option.splits)
  qed (use a in \<open>auto simp: add_entry_def split: option.splits\<close>)
  moreover have "kept st1 st2" if "upd_entry p (fill_entry nd neigh ia d c ph sh l) st1 = Some st2" for p st1 st2 nd neigh ia l
    using that by (auto simp: kept_def upd_entry_def bind_eq_Some_conv fill_entry_def)
  ultimately show ?thesis
    using assms(2) kept_trans unfolding update_routing_entry_def
    by (auto simp: bind_eq_Some_conv Let_def split: if_splits option.splits prod.splits)
qed

lemma handle_edge_kept: "handle_edge env domain ns t n h e st = Some st' \<Longrightarrow> kept st st'"
  by (auto simp: handle_edge_def bind_eq_Some_conv intro!: kept_same split: if_splits)

lemma handle_edges_kept: "handle_edges env domain ns t n h es st = Some st' \<Longrightarrow> kept st st'"
  by (induction es arbitrary: st) (auto simp: bind_eq_Some_conv intro: kept_trans handle_edge_kept)

lemma upd_dijkstra_kept: "kept (upd_dijkstra t f st) st' \<longleftrightarrow> kept st st'" "kept st (upd_dijkstra t f st') \<longleftrightarrow> kept st st'"
  by (simp_all add: kept_def upd_dijkstra_def)

lemma handle_attachment_kept:
  assumes "allocator_ok alloc" "handle_attachment env alloc domain ns ss t n h j st = Some st'"
  shows "kept st st'"
proof -
  obtain a where a: "tc_attachments (ev_tc env) j = Some a" using assms(2) by (auto simp: handle_attachment_def bind_eq_Some_conv)
  show ?thesis
  proof (cases "ta_cost a domain \<le> RFC7181_METRIC_MAX")
    case True
    then obtain x where x: "tc_endpoints (ev_tc env) (ta_dst a) = Some x"
      using assms(2) a by (auto simp: handle_attachment_def bind_eq_Some_conv)
    let ?u = "if na_prefix_len (rk_src (tp_prefix x)) > 0 then ss else ns"
    show ?thesis
    proof (cases "?u \<and> \<not> tr_count (tp_attached_networks x) > 1")
      case direct: True
      then have "kept (upd_dijkstra (End_Target (ta_dst a)) (\<lambda>d. d\<lparr>dj_done := True\<rparr>) st) st'"
        using assms(2) a x True by (intro update_kept [OF assms(1)]) (auto simp: handle_attachment_def Let_def split: if_splits)
      then show ?thesis by (simp add: upd_dijkstra_kept)
    next
      case False
      then show ?thesis using assms(2) a x True by (auto simp: handle_attachment_def Let_def intro!: kept_same split: if_splits)
    qed
  qed (use assms(2) a in \<open>simp add: handle_attachment_def\<close>)
qed

lemma handle_attachments_kept:
  "allocator_ok alloc \<Longrightarrow> handle_attachments env alloc domain ns ss t n h js st = Some st' \<Longrightarrow> kept st st'"
  by (induction js arbitrary: st) (auto simp: bind_eq_Some_conv intro: kept_trans handle_attachment_kept)

lemma handle_working_queue_kept:
  assumes al: "allocator_ok alloc" and h: "handle_working_queue env alloc domain ns ss st = Some st'"
  shows "kept st st'"
proof -
  obtain t ts where e: "avl_elements (rt_working st) = t # ts"
    using h by (cases "avl_elements (rt_working st)") (simp_all add: handle_working_queue_def)
  let ?st = "popped t st"
  have "\<exists>st1. kept ?st st1 \<and>
    (case t of Node_Target p \<Rightarrow> handle_node env alloc domain ns ss p st1 | End_Target p \<Rightarrow> Some st1) = Some st'"
  proof (cases ns)
    case True
    then obtain k st1 where "update_routing_entry env alloc domain k (dj_first_hop (rt_nodes ?st t)) (dj_distance (rt_nodes ?st t))
        (dj_path_cost (rt_nodes ?st t)) (dj_path_hops (rt_nodes ?st t)) (dj_single_hop (rt_nodes ?st t))
        (dj_last_originator (rt_nodes ?st t)) ?st = Some st1"
      "(case t of Node_Target p \<Rightarrow> handle_node env alloc domain True ss p st1 | End_Target p \<Rightarrow> Some st1) = Some st'"
      using h by (auto simp: handle_working_queue_def e Let_def bind_eq_Some_conv simp flip: popped_def)
    then show ?thesis using update_kept [OF al] by (intro exI [of _ st1] conjI) (simp_all add: True cong: target.case_cong)
  next
    case False
    then show ?thesis using h by (intro exI [of _ ?st]) (simp add: handle_working_queue_def e Let_def flip: popped_def cong: target.case_cong)
  qed
  then obtain st1 where 1: "kept ?st st1"
    "(case t of Node_Target p \<Rightarrow> handle_node env alloc domain ns ss p st1 | End_Target p \<Rightarrow> Some st1) = Some st'" by blast
  have "kept st ?st" by (rule kept_same) simp
  moreover have "kept st1 st'"
    using 1(2) by (auto simp: handle_node_def bind_eq_Some_conv split: target.splits
        intro: kept_trans handle_edges_kept handle_attachments_kept [OF al])
  ultimately show ?thesis using 1(1) kept_trans by blast
qed

lemma work_off_kept:
  assumes "allocator_ok alloc" "work_off env alloc domain ns ss st = Some st'"
  shows "kept st st'"
proof -
  have "alloc' = alloc \<longrightarrow> kept st st'" if "work_off env alloc' domain ns ss st = Some st'" for env alloc' domain ns ss st st'
    using that
  proof (rule work_off.raw_induct [rotated])
    fix w env alloc' domain ns ss st st'
    assume ih: "\<And>env alloc' domain ns ss st st'. w env alloc' domain ns ss st = Some st' \<Longrightarrow> alloc' = alloc \<longrightarrow> kept st st'"
      and e: "(if avl_is_empty (rt_working st) then Some st
        else handle_working_queue env alloc' domain ns ss st \<bind> w env alloc' domain ns ss) = Some st'"
    show "alloc' = alloc \<longrightarrow> kept st st'"
    proof
      assume al: "alloc' = alloc"
      show "kept st st'"
      proof (cases "avl_is_empty (rt_working st)")
        case False
        then obtain st1 where 1: "handle_working_queue env alloc domain ns ss st = Some st1" "w env alloc domain ns ss st1 = Some st'"
          using e al by (auto simp: bind_eq_Some_conv)
        then show ?thesis using handle_working_queue_kept [OF assms(1) 1(1)] ih [OF 1(2)] kept_trans by blast
      qed (use e in simp)
    qed
  qed
  then show ?thesis using assms(2) by blast
qed

lemma add_one_hop_nodes_kept: "add_one_hop_nodes env domain af ns ss qs st = Some st' \<Longrightarrow> kept st st'"
proof (induction qs arbitrary: st)
  case (Cons q qs)
  then obtain st1 where 1: "add_one_hop_node env domain af ns ss q st = Some st1"
    "add_one_hop_nodes env domain af ns ss qs st1 = Some st'" by (auto simp: bind_eq_Some_conv)
  have "rt_entries st1 = rt_entries st"
    using 1(1) by (auto simp: add_one_hop_node_def bind_eq_Some_conv Let_def split: if_splits option.splits)
  then show ?case using kept_trans [OF kept_same Cons.IH [OF 1(2)]] by simp
qed simp

lemma run_dijkstra_kept:
  "allocator_ok alloc \<Longrightarrow> run_dijkstra env alloc domain af ns ss st = Some st' \<Longrightarrow> kept st st'"
  by (auto simp: run_dijkstra_def bind_eq_Some_conv intro: kept_trans add_one_hop_nodes_kept work_off_kept)

subsection \<open>A calculation succeeds\<close>

definition nhdp_env_ok :: "environment \<Rightarrow> nat \<Rightarrow> bool" where
  "nhdp_env_ok env domain \<longleftrightarrow> (\<forall>q \<in> set (db_neigh_list (ev_nhdp env)). \<forall>neigh. db_neighs (ev_nhdp env) q = Some neigh \<longrightarrow>
     (nn_symmetric neigh \<noteq> 0 \<longrightarrow> nm_out (nd_metric (nn_domaindata neigh domain)) \<le> RFC7181_METRIC_MAX \<longrightarrow> usable env domain q)
     \<and> (\<forall>a \<in> set (avl_elements (nn_neigh_addresses neigh)). \<exists>x. db_naddrs (ev_nhdp env) a = Some x \<and> ip_prefix (nx_addr x))
     \<and> (\<forall>l \<in> set (nn_links neigh). \<exists>lnk. db_links (ev_nhdp env) l = Some lnk
          \<and> (\<forall>h \<in> set (avl_elements (nl_2hop lnk)). \<exists>x. db_l2hops (ev_nhdp env) h = Some x \<and> ip_prefix (l2_addr x))))"

text \<open>The state of the routing between calculations.\<close>

definition calculable :: "environment \<Rightarrow> allocator \<Rightarrow> nat \<Rightarrow> bool" where
  "calculable env alloc domain \<longleftrightarrow> env_ok env domain \<and> nhdp_env_ok env domain \<and> allocator_ok alloc
     \<and> card {p. tc_nodes (ev_tc env) p \<noteq> None} \<le> 255"

lemma run_ready_update:
  assumes "run_ready st" "route_updated env alloc domain k q d c ph sh lo st st'"
  shows "run_ready st'"
  using assms by (simp add: run_ready_def route_updated_def)

lemma update_ready:
  assumes "env_ok env domain" "allocator_ok alloc" "run_ready st" "ip_prefix (rk_dst k)" "usable env domain q"
  shows "\<exists>st'. update_routing_entry env alloc domain k (Some q) d c ph sh (Some lo) st = Some st' \<and> run_ready st' \<and> kept st st'"
  using update_routing_entry_ok [OF assms(1,4) _ assms(2,5), of st] assms(3) run_ready_update [OF assms(3)] update_kept [OF assms(2)]
  by (auto simp: run_ready_def) metis

lemma run_ready_dijkstra:
  assumes "calculable env alloc domain" "run_ready st" "af \<in> {AF_INET, AF_INET6}"
  shows "\<exists>st'. run_dijkstra env alloc domain af ns ss st = Some st' \<and> run_ready st' \<and> kept st st'"
proof -
  have "dijkstra_ready env alloc domain af st" using assms by (simp add: calculable_def dijkstra_ready_def)
  then obtain st' where st': "run_dijkstra env alloc domain af ns ss st = Some st'"
    "run_inv env alloc domain af ns ss (blocked st) (\<lambda>_ _. True) {} {} st'" "avl_is_empty (rt_working st')"
    using dijkstra_ready_run [of env alloc domain af st "\<lambda>_ _. True"] by blast
  then have "run_ready st'"
    using routes_invD(1) [OF run_invD(2) [OF st'(2)]] working_okD(1-3) [OF search_invD(1) [OF run_invD(1) [OF st'(2)]]]
    by (simp add: run_ready_def)
  then show ?thesis using st'(1) run_dijkstra_kept assms(1) by (auto simp: calculable_def)
qed

lemma ip_prefix_key [simp]: "rk_dst (init_sourcespec_prefix a) = a"
  by (simp add: init_sourcespec_prefix_def)

lemma acl_check_some:
  assumes "env_ok env domain" "ip_prefix a"
  shows "\<exists>b. netaddr_acl_check_accept (ev_routable env) a = Some b"
  using acl_is_in_array_iff [OF env_okD(7) [OF assms(1)]] acl_is_in_array_iff [OF env_okD(8) [OF assms(1)]] assms(2)
  by (auto simp: netaddr_acl_check_accept_def ip_prefix_def Let_def split: option.splits bool.splits)

lemma neighbor_address_routes_ok:
  assumes "env_ok env domain" "allocator_ok alloc" "run_ready st" "usable env domain q"
    "\<forall>a \<in> set as. \<exists>x. db_naddrs (ev_nhdp env) a = Some x \<and> ip_prefix (nx_addr x)"
  shows "\<exists>st'. neighbor_address_routes env alloc domain q family c as st = Some st' \<and> run_ready st' \<and> kept st st'"
  using assms(3,5)
proof (induction as arbitrary: st)
  case (Cons a as)
  then obtain x where x: "db_naddrs (ev_nhdp env) a = Some x" "ip_prefix (nx_addr x)" by auto
  obtain b where b: "netaddr_acl_check_accept (ev_routable env) (nx_addr x) = Some b"
    using acl_check_some [OF assms(1) x(2)] by blast
  let ?s = "if \<not> b then Some st else update_routing_entry env alloc domain (init_sourcespec_prefix (nx_addr x)) (Some q) 0 c 1 True
      (Some (first_hop_originator env family)) st"
  have "\<exists>st1. ?s = Some st1 \<and> run_ready st1 \<and> kept st st1"
    using update_ready [OF assms(1,2) Cons.prems(1) _ assms(4), of "init_sourcespec_prefix (nx_addr x)"] x(2) Cons.prems(1)
    by simp
  then obtain st1 where 1: "?s = Some st1" "run_ready st1" "kept st st1" by blast
  obtain st2 where "neighbor_address_routes env alloc domain q family c as st1 = Some st2" "run_ready st2" "kept st1 st2"
    using Cons.IH [OF 1(2)] Cons.prems(2) by auto
  then show ?case using 1 x(1) b kept_trans by (auto split: if_splits)
qed simp

lemma twohop_routes_ok:
  assumes "env_ok env domain" "allocator_ok alloc" "run_ready st" "usable env domain q"
    "\<forall>h \<in> set hs. \<exists>x. db_l2hops (ev_nhdp env) h = Some x \<and> ip_prefix (l2_addr x)"
  shows "\<exists>st'. twohop_routes env alloc domain q a c hs st = Some st' \<and> run_ready st' \<and> kept st st'"
  using assms(3,5)
proof (induction hs arbitrary: st)
  case (Cons h hs)
  then obtain x where x: "db_l2hops (ev_nhdp env) h = Some x" "ip_prefix (l2_addr x)" by auto
  let ?s = "if nhdp_db_2hop_is_lost x then Some st else if nm_out (l2_domaindata x domain) > RFC7181_METRIC_MAX then Some st
    else update_routing_entry env alloc domain (init_sourcespec_prefix (l2_addr x)) (Some q) 0
      (nm_out (l2_domaindata x domain) + c) 2 False (Some a) st"
  have "\<exists>st1. ?s = Some st1 \<and> run_ready st1 \<and> kept st st1"
    using update_ready [OF assms(1,2) Cons.prems(1) _ assms(4), of "init_sourcespec_prefix (l2_addr x)"] x(2) Cons.prems(1)
    by simp
  then obtain st1 where 1: "?s = Some st1" "run_ready st1" "kept st st1" by blast
  obtain st2 where "twohop_routes env alloc domain q a c hs st1 = Some st2" "run_ready st2" "kept st1 st2"
    using Cons.IH [OF 1(2)] Cons.prems(2) by auto
  then show ?case using 1 x(1) kept_trans by auto
qed simp

lemma link_routes_ok:
  assumes "env_ok env domain" "allocator_ok alloc" "run_ready st" "usable env domain q"
    "\<forall>l \<in> set ls. \<exists>lnk. db_links (ev_nhdp env) l = Some lnk
       \<and> (\<forall>h \<in> set (avl_elements (nl_2hop lnk)). \<exists>x. db_l2hops (ev_nhdp env) h = Some x \<and> ip_prefix (l2_addr x))"
  shows "\<exists>st'. link_routes env alloc domain q a c ls st = Some st' \<and> run_ready st' \<and> kept st st'"
  using assms(3,5)
proof (induction ls arbitrary: st)
  case (Cons l ls)
  then obtain lnk where l: "db_links (ev_nhdp env) l = Some lnk"
    "\<forall>h \<in> set (avl_elements (nl_2hop lnk)). \<exists>x. db_l2hops (ev_nhdp env) h = Some x \<and> ip_prefix (l2_addr x)" by auto
  obtain st1 where 1: "twohop_routes env alloc domain q a c (avl_elements (nl_2hop lnk)) st = Some st1" "run_ready st1" "kept st st1"
    using twohop_routes_ok [OF assms(1,2) Cons.prems(1) assms(4) l(2)] by blast
  obtain st2 where "link_routes env alloc domain q a c ls st1 = Some st2" "run_ready st2" "kept st1 st2"
    using Cons.IH [OF 1(2)] Cons.prems(2) by auto
  then show ?case using 1 l(1) kept_trans by auto
qed simp

lemma handle_nhdp_routes_ok:
  assumes env: "env_ok env domain" "nhdp_env_ok env domain" "allocator_ok alloc" and st: "run_ready st"
    and q: "set qs \<subseteq> set (db_neigh_list (ev_nhdp env))"
  shows "\<exists>st'. handle_nhdp_routes env alloc domain qs st = Some st' \<and> run_ready st' \<and> kept st st'"
  using st q
proof (induction qs arbitrary: st)
  case (Cons q qs)
  then have q: "q \<in> set (db_neigh_list (ev_nhdp env))" by simp
  obtain neigh where n: "db_neighs (ev_nhdp env) q = Some neigh" using env_okD(5) [OF env(1) q] by blast
  note N = env(2) [unfolded nhdp_env_ok_def, rule_format, OF q n]
  have "\<exists>st1. handle_nhdp_neighbor env alloc domain q st = Some st1 \<and> run_ready st1 \<and> kept st st1"
  proof (cases "nn_symmetric neigh = 0 \<or> nm_out (nd_metric (nn_domaindata neigh domain)) > RFC7181_METRIC_MAX")
    case True
    then show ?thesis using n Cons.prems(1) by (auto simp: handle_nhdp_neighbor_def Let_def)
  next
    case False
    then have u: "usable env domain q" using N by (auto simp: not_less)
    let ?c = "nm_out (nd_metric (nn_domaindata neigh domain))"
    obtain st1 where 1: "neighbor_address_routes env alloc domain q (na_type (nn_originator neigh)) ?c
        (avl_elements (nn_neigh_addresses neigh)) st = Some st1" "run_ready st1" "kept st st1"
      using neighbor_address_routes_ok [OF env(1,3) Cons.prems(1) u] N by blast
    obtain st2 where 2: "link_routes env alloc domain q (nn_originator neigh) ?c (nn_links neigh) st1 = Some st2" "run_ready st2" "kept st1 st2"
      using link_routes_ok [OF env(1,3) 1(2) u] N by blast
    show ?thesis using n False 1(1) 2 kept_trans [OF 1(3) 2(3)] by (auto simp: handle_nhdp_neighbor_def Let_def)
  qed
  then obtain st1 where 1: "handle_nhdp_neighbor env alloc domain q st = Some st1" "run_ready st1" "kept st st1" by blast
  obtain st2 where "handle_nhdp_routes env alloc domain qs st1 = Some st2" "run_ready st2" "kept st1 st2"
    using Cons.IH [OF 1(2)] Cons.prems(2) by auto
  then show ?case using 1 kept_trans by auto
qed simp

lemma map_entries_ready:
  assumes r: "routes_ok st" and f: "\<And>e. re_domain (f e) = re_domain e" "\<And>e. rp_key (re_route (f e)) = rp_key (re_route e)"
  shows "routes_ok (st\<lparr>rt_entries := (rt_entries st)(p := map_option f (rt_entries st p))\<rparr>)"
proof (cases "rt_entries st p")
  case (Some e)
  then show ?thesis using upd_entry_ok [OF r Some, of "f e"] f by simp
next
  case None
  then show ?thesis using r by (simp add: fun_upd_idem)
qed

lemma prepare_route_ready:
  assumes "run_ready st"
  shows "run_ready (prepare_route p st)" "kept st (prepare_route p st)"
  using assms map_entries_ready [of st "\<lambda>e. e\<lparr>re_set := False, re_old := re_route e\<rparr>" p]
  by (auto simp: run_ready_def prepare_route_def kept_def)

lemma prepare_routes_ready: "run_ready st \<Longrightarrow> run_ready (prepare_routes domain st) \<and> kept st (prepare_routes domain st)"
proof -
  have "run_ready (fold prepare_route ps st) \<and> kept st (fold prepare_route ps st)" if "run_ready st" for ps
    using that
  proof (induction ps arbitrary: st)
    case (Cons p ps)
    note p = prepare_route_ready [OF Cons.prems, of p]
    then show ?case using Cons.IH [OF p(1)] kept_trans [OF p(2)] by simp
  qed simp
  then show "run_ready st \<Longrightarrow> run_ready (prepare_routes domain st) \<and> kept st (prepare_routes domain st)"
    by (simp add: prepare_routes_def)
qed

lemma run_ready_nodes: "run_ready (upd_dijkstra t f st) = run_ready st"
  by (simp add: run_ready_def upd_dijkstra_def routes_ok_def)

lemma tree_nodes:
  assumes "env_ok env domain" "p \<in> set (avl_elements (tc_tree (ev_tc env)))"
  shows "\<exists>n. tc_nodes (ev_tc env) p = Some n"
proof -
  have "index_set (tc_tree (ev_tc env)) = nodes_of (tc_nodes (ev_tc env))"
    using env_okD(1) [OF assms(1)] by (simp add: tc_inv_def nodes_inv_def)
  then show ?thesis using assms(2) by (auto simp: in_elements nodes_of_def split: option.splits)
qed

lemma prepare_nodes_ready:
  assumes env: "env_ok env domain" and st: "run_ready st"
  shows "\<exists>st'. prepare_nodes env st = Some st' \<and> run_ready st' \<and> kept st st'"
proof -
  have 1: "\<exists>st'. prepare_node_list env ps st = Some st' \<and> run_ready st' \<and> kept st st'"
    if "set ps \<subseteq> set (avl_elements (tc_tree (ev_tc env)))" "run_ready st" for ps st
    using that
  proof (induction ps arbitrary: st)
    case (Cons p ps)
    then obtain n where n: "tc_nodes (ev_tc env) p = Some n" using tree_nodes [OF env, of p] by auto
    then obtain st1 where st1: "prepare_node env p st = Some st1" "run_ready st1" "kept st st1"
      using Cons.prems(2) by (auto simp: prepare_node_def run_ready_nodes upd_dijkstra_kept)
    obtain st2 where "prepare_node_list env ps st1 = Some st2" "run_ready st2" "kept st1 st2"
      using Cons.IH [OF _ st1(2)] Cons.prems(1) by auto
    then show ?case using st1 kept_trans by auto
  qed simp
  have 2: "run_ready (fold prepare_end ps st) \<and> kept st (fold prepare_end ps st)" if "run_ready st" for ps st
    using that
  proof (induction ps arbitrary: st)
    case (Cons p ps)
    have "run_ready (prepare_end p st)" "kept st (prepare_end p st)"
      using Cons.prems by (simp_all add: prepare_end_def run_ready_nodes upd_dijkstra_kept)
    then show ?case using Cons.IH kept_trans by fastforce
  qed simp
  obtain st1 where "prepare_node_list env (avl_elements (tc_tree (ev_tc env))) st = Some st1" "run_ready st1" "kept st st1"
    using 1 [OF order_refl st] by blast
  then show ?thesis using 2 [of st1] kept_trans by (fastforce simp: prepare_nodes_def)
qed

lemma ssnode_counts_some:
  "set ps \<subseteq> {p. tc_nodes db p \<noteq> None} \<Longrightarrow> \<exists>c. ssnode_counts db domain af ps x = Some c"
  by (induction ps arbitrary: x) (auto simp: Let_def)

lemma check_ssnode_split_some:
  assumes "env_ok env domain"
  shows "\<exists>b. check_ssnode_split env d af = Some b"
proof -
  have "set (avl_elements (tc_tree (ev_tc env))) \<subseteq> {p. tc_nodes (ev_tc env) p \<noteq> None}" using tree_nodes [OF assms] by fastforce
  from ssnode_counts_some [OF this, of d af "(0, 0, False)"] show ?thesis by (auto simp: check_ssnode_split_def)
qed

lemma calculate_domain_ok:
  assumes c: "calculable env alloc domain" and st: "run_ready st"
  shows "\<exists>st'. calculate_domain env alloc domain st = Some st' \<and> run_ready st' \<and> kept st st'"
proof -
  have env: "env_ok env domain" "nhdp_env_ok env domain" "allocator_ok alloc" using c by (simp_all add: calculable_def)
  let ?st0 = "prepare_routes domain st"
  have 0: "run_ready ?st0" "kept st ?st0" using prepare_routes_ready [OF st] by simp_all
  obtain st1 where 1: "prepare_nodes env ?st0 = Some st1" "run_ready st1" "kept ?st0 st1"
    using prepare_nodes_ready [OF env(1) 0(1)] by blast
  obtain v4 v6 where v: "check_ssnode_split env domain AF_INET = Some v4" "check_ssnode_split env domain AF_INET6 = Some v6"
    using check_ssnode_split_some [OF env(1)] by blast
  obtain st2 where 2: "run_dijkstra env alloc domain AF_INET True (\<not> v4) st1 = Some st2" "run_ready st2" "kept st1 st2"
    using run_ready_dijkstra [OF c 1(2), of AF_INET] by auto
  obtain st3 where 3: "run_dijkstra env alloc domain AF_INET6 True (\<not> v6) st2 = Some st3" "run_ready st3" "kept st2 st3"
    using run_ready_dijkstra [OF c 2(2), of AF_INET6] by auto
  obtain st4 where 4: "(if v4 \<or> v6 then prepare_nodes env st3 else Some st3) = Some st4" "run_ready st4" "kept st3 st4"
    using prepare_nodes_ready [OF env(1) 3(2)] 3(2) by (cases "v4 \<or> v6") auto
  obtain st5 where 5: "(if v4 then run_dijkstra env alloc domain AF_INET False True st4 else Some st4) = Some st5" "run_ready st5" "kept st4 st5"
    using run_ready_dijkstra [OF c 4(2), of AF_INET False True] 4(2) by (cases v4) auto
  obtain st6 where 6: "(if v6 then run_dijkstra env alloc domain AF_INET6 False True st5 else Some st5) = Some st6" "run_ready st6" "kept st5 st6"
    using run_ready_dijkstra [OF c 5(2), of AF_INET6 False True] 5(2) by (cases v6) auto
  obtain st7 where 7: "handle_nhdp_routes env alloc domain (db_neigh_list (ev_nhdp env)) st6 = Some st7" "run_ready st7" "kept st6 st7"
    using handle_nhdp_routes_ok [OF env 6(2) order_refl] by blast
  have "calculate_domain env alloc domain st = Some st7"
    unfolding calculate_domain_def Let_def by (simp only: 1(1) v 2(1) 3(1) 4(1) 5(1) 6(1) 7(1) bind.bind_lunit)
  moreover have "kept st st7"
    using 0(2) 1(3) 2(3) 3(3) 4(3) 5(3) 6(3) 7(3) kept_trans by meson
  ultimately show ?thesis using 7(2) by blast
qed

subsection \<open>The queue and the answers of the kernel\<close>

text \<open>
  A route that waits for an answer of the kernel has an entry that is marked as in processing; the queue
  holds entries, none of them twice.
\<close>

definition kernel_inv :: "routing_set \<Rightarrow> bool" where
  "kernel_inv rs \<longleftrightarrow> run_ready (rs_routing rs)
     \<and> (\<forall>p \<in> rs_feedback rs. \<exists>e. entry_of rs p = Some e \<and> re_in_processing e)
     \<and> (\<forall>p \<in> set (rs_kernel_queue rs). entry_of rs p \<noteq> None) \<and> distinct (rs_kernel_queue rs)"

lemma kernel_invD:
  assumes "kernel_inv rs"
  shows "run_ready (rs_routing rs)" "p \<in> rs_feedback rs \<Longrightarrow> \<exists>e. entry_of rs p = Some e \<and> re_in_processing e"
    "p \<in> set (rs_kernel_queue rs) \<Longrightarrow> entry_of rs p \<noteq> None" "distinct (rs_kernel_queue rs)" "routes_ok (rs_routing rs)"
  using assms unfolding kernel_inv_def run_ready_def by blast+

definition domain_of :: "routing_set \<Rightarrow> ptr \<Rightarrow> nat option" where
  "domain_of rs p = map_option re_domain (entry_of rs p)"

lemma tree_domain:
  assumes "routes_ok (rs_routing rs)"
  shows "set (avl_elements (rt_tree (rs_routing rs) d)) = {p. domain_of rs p = Some d}"
    "distinct (avl_elements (rt_tree (rs_routing rs) d))"
  using routes_okD(2) [OF assms, of d] route_index.distinct_elements [OF routes_okD(1) [OF assms]]
  by (auto simp: in_elements routes_of_def domain_of_def entry_of_def split: option.splits)

text \<open>A change of one entry.\<close>

definition set_entry :: "ptr \<Rightarrow> routing_entry \<Rightarrow> routing_set \<Rightarrow> routing_set" where
  "set_entry p e rs = rs\<lparr>rs_routing := (rs_routing rs)\<lparr>rt_entries := (rt_entries (rs_routing rs))(p \<mapsto> e)\<rparr>\<rparr>"

lemma set_entry_simps [simp]:
  "entry_of (set_entry p e rs) q = (if q = p then Some e else entry_of rs q)"
  "rs_feedback (set_entry p e rs) = rs_feedback rs" "rs_kernel_queue (set_entry p e rs) = rs_kernel_queue rs"
  "rs_commands (set_entry p e rs) = rs_commands rs" "rt_tree (rs_routing (set_entry p e rs)) = rt_tree (rs_routing rs)"
  "rs_domain_parameter (set_entry p e rs) = rs_domain_parameter rs"
  by (simp_all add: set_entry_def entry_of_def)

lemma upd_rs_some: "entry_of rs p = Some e \<Longrightarrow> upd_rs p f rs = Some (set_entry p (f e) rs)"
  by (simp add: upd_rs_def upd_entry_def set_entry_def entry_of_def)

lemma set_entry_inv:
  assumes k: "kernel_inv rs" and e: "entry_of rs p = Some e0"
    and f: "re_domain e = re_domain e0" "rp_key (re_route e) = rp_key (re_route e0)" "p \<in> rs_feedback rs \<Longrightarrow> re_in_processing e"
  shows "kernel_inv (set_entry p e rs)" "domain_of (set_entry p e rs) = domain_of rs"
proof -
  note K = kernel_invD [OF k]
  have "routes_ok ((rs_routing rs)\<lparr>rt_entries := (rt_entries (rs_routing rs))(p \<mapsto> e)\<rparr>)"
    by (rule upd_entry_ok [OF K(5) e [unfolded entry_of_def] f(1,2)])
  then have "run_ready (rs_routing (set_entry p e rs))" using K(1) by (simp add: run_ready_def set_entry_def)
  then show "kernel_inv (set_entry p e rs)" using K(2-4) f(3) by (auto simp: kernel_inv_def)
  show "domain_of (set_entry p e rs) = domain_of rs" using e f(1) by (auto simp: domain_of_def)
qed

lemma drop_feedback_inv: "kernel_inv rs \<Longrightarrow> kernel_inv (drop_feedback p rs)"
  by (auto simp: kernel_inv_def drop_feedback_def entry_of_def)

lemma drop_feedback_simps [simp]:
  "rs_routing (drop_feedback p rs) = rs_routing rs" "rs_feedback (drop_feedback p rs) = rs_feedback rs - {p}"
  "rs_kernel_queue (drop_feedback p rs) = rs_kernel_queue rs" "entry_of (drop_feedback p rs) = entry_of rs"
  "domain_of (drop_feedback p rs) = domain_of rs"
  by (auto simp: drop_feedback_def entry_of_def domain_of_def)

lemma remove_entry_inv:
  assumes k: "kernel_inv rs" and e: "entry_of rs p = Some e" and q: "p \<notin> set (rs_kernel_queue rs)"
  shows "\<exists>rs'. remove_entry p rs = Some rs' \<and> kernel_inv rs' \<and> rs_kernel_queue rs' = rs_kernel_queue rs
    \<and> domain_of rs' = (domain_of rs)(p := None)"
proof -
  note K = kernel_invD [OF k]
  let ?st = "rs_routing rs"
  let ?st' = "?st\<lparr>rt_tree := (rt_tree ?st)(re_domain e := avl_remove (rt_tree ?st (re_domain e)) p),
    rt_entries := (rt_entries ?st)(p := None)\<rparr>"
  let ?rs = "(drop_feedback p rs)\<lparr>rs_routing := ?st'\<rparr>"
  note D = routes_okD [OF K(5)]
  have p: "p \<in> set (avl_elements (rt_tree ?st (re_domain e)))"
    using tree_domain(1) [OF K(5)] e by (simp add: domain_of_def)
  note r = route_index.remove_old [OF D(1) p]
  have "routes_of ((rt_entries ?st)(p := None)) d = {x \<in> routes_of (rt_entries ?st) d. snd x \<noteq> p}" for d
    by (auto simp: routes_of_def)
  moreover have "{x \<in> routes_of (rt_entries ?st) d. snd x \<noteq> p} = routes_of (rt_entries ?st) d" if "d \<noteq> re_domain e" for d
    using that e by (auto simp: routes_of_def entry_of_def)
  ultimately have "routes_ok ?st'" using K(5) D r by (auto simp: routes_ok_def)
  then have "kernel_inv ?rs" using K q by (auto simp: kernel_inv_def run_ready_def entry_of_def drop_feedback_def)
  moreover have "remove_entry p rs = Some ?rs" using e by (simp add: remove_entry_def Let_def)
  moreover have "domain_of ?rs = (domain_of rs)(p := None)" by (auto simp: domain_of_def entry_of_def)
  ultimately show ?thesis by (simp add: drop_feedback_def)
qed

lemma cb_route_finished_inv:
  assumes k: "kernel_inv rs" and p: "p \<notin> rs_feedback rs" "entry_of rs p = Some e" and q: "error = - 1 \<or> p \<notin> set (rs_kernel_queue rs)"
  shows "\<exists>rs'. cb_route_finished p error rs = Some rs' \<and> kernel_inv rs' \<and> rs_kernel_queue rs' = rs_kernel_queue rs
    \<and> (error = - 1 \<longrightarrow> domain_of rs' = domain_of rs)"
proof -
  let ?e = "e\<lparr>re_in_processing := False\<rparr>"
  let ?rs = "set_entry p ?e rs"
  have 1: "kernel_inv ?rs" "domain_of ?rs = domain_of rs" by (rule set_entry_inv [OF k p(2)]; use p(1) in simp)+
  have e1: "entry_of ?rs p = Some ?e" by simp
  show ?thesis
  proof (cases "error = - 1")
    case True
    then have "cb_route_finished p error rs = Some ?rs"
      using p(2) by (simp add: cb_route_finished_def upd_rs_some ESRCH_def)
    then show ?thesis using 1 by simp
  next
    case False
    note r = remove_entry_inv [OF 1(1) e1]
    have 2: "kernel_inv (set_entry p (?e\<lparr>re_set := True\<rparr>) ?rs)" by (rule set_entry_inv(1) [OF 1(1) e1]) (use p(1) in simp_all)
    show ?thesis
      using r 1(1) 2 p(2) q False
      by (auto simp: cb_route_finished_def upd_rs_some split: if_splits)
  qed
qed

lemma os_routing_interrupt_inv:
  assumes k: "kernel_inv rs" and p: "entry_of rs p \<noteq> None"
  shows "\<exists>rs'. os_routing_interrupt p rs = Some rs' \<and> kernel_inv rs' \<and> rs_kernel_queue rs' = rs_kernel_queue rs
    \<and> domain_of rs' = domain_of rs"
proof (cases "p \<in> rs_feedback rs")
  case True
  obtain e where "entry_of (drop_feedback p rs) p = Some e" using p by auto
  from cb_route_finished_inv [OF drop_feedback_inv [OF k, of p] _ this, of "- 1"] True show ?thesis
    by (auto simp: os_routing_interrupt_def routing_finished_def)
qed (use k in \<open>simp add: os_routing_interrupt_def\<close>)

lemma routing_finished_inv:
  assumes k: "kernel_inv rs" and p: "p \<in> rs_feedback rs" and q: "rs_kernel_queue rs = []"
  shows "\<exists>rs'. routing_finished p error rs = Some rs' \<and> kernel_inv rs' \<and> rs_kernel_queue rs' = []"
proof -
  obtain e where "entry_of (drop_feedback p rs) p = Some e" using kernel_invD(2) [OF k p] by auto
  from cb_route_finished_inv [OF drop_feedback_inv [OF k, of p] _ this, of error] q show ?thesis
    by (auto simp: routing_finished_def)
qed

lemma add_route_inv:
  assumes k: "kernel_inv rs" and p: "entry_of rs p \<noteq> None" "p \<notin> set (rs_kernel_queue rs)"
  shows "\<exists>rs'. add_route_to_kernel_queue p rs = Some rs' \<and> kernel_inv rs' \<and> set (rs_kernel_queue rs') = insert p (set (rs_kernel_queue rs))
    \<and> domain_of rs' = domain_of rs"
proof -
  obtain e where e: "entry_of rs p = Some e" using p(1) by blast
  have "kernel_inv (rs\<lparr>rs_kernel_queue := p # rs_kernel_queue rs\<rparr>)" "kernel_inv (rs\<lparr>rs_kernel_queue := rs_kernel_queue rs @ [p]\<rparr>)"
    using k p by (auto simp: kernel_inv_def entry_of_def)
  then show ?thesis using e by (auto simp: add_route_to_kernel_queue_def Let_def domain_of_def entry_of_def)
qed

lemma process_kernel_entry_inv:
  assumes k: "kernel_inv rs" and q: "rs_kernel_queue rs = p # ps"
  shows "\<exists>rs'. process_kernel_entry p rs = Some rs' \<and> kernel_inv rs' \<and> rs_kernel_queue rs' = ps"
proof -
  note K = kernel_invD [OF k]
  let ?rs = "rs\<lparr>rs_kernel_queue := ps\<rparr>"
  have k1: "kernel_inv ?rs" using k q by (auto simp: kernel_inv_def entry_of_def)
  have en: "entry_of ?rs = entry_of rs" by (auto simp: entry_of_def)
  obtain e where e: "entry_of rs p = Some e" using K(3) [of p] q by auto
  show ?thesis
  proof (cases "re_in_processing e")
    case True
    then show ?thesis using k1 q e en by (simp add: process_kernel_entry_def Let_def)
  next
    case False
    then have nf: "p \<notin> rs_feedback ?rs" using K(2) [of p] e by auto
    let ?rs1 = "set_entry p (e\<lparr>re_in_processing := True\<rparr>) ?rs"
    have e1: "entry_of ?rs p = Some e" using e en by simp
    have k2: "kernel_inv ?rs1" by (rule set_entry_inv(1) [OF k1 e1]) simp_all
    have "\<exists>b rs'. os_routing_set p st del ?rs1 = Some (b, rs') \<and> kernel_inv rs' \<and> rs_kernel_queue rs' = ps" for st del
    proof (cases "routing_family (kernel_route st del (re_route (e\<lparr>re_in_processing := True\<rparr>))) = None")
      case True
      then show ?thesis using k2 by (simp add: os_routing_set_def)
    next
      case False
      let ?rs2 = "?rs1\<lparr>rs_feedback := insert p (rs_feedback ?rs1),
        rs_commands := rs_commands ?rs1 @ [(kernel_route st del (re_route e), st, del)]\<rparr>"
      have en2: "entry_of ?rs2 = entry_of ?rs1" by (auto simp: entry_of_def)
      have "kernel_inv ?rs2"
        unfolding kernel_inv_def en2 using kernel_invD [OF k2] by (auto split: if_splits)
      moreover have "os_routing_set p st del ?rs1 = Some (0, ?rs2)" using False nf by (simp add: os_routing_set_def Let_def)
      ultimately show ?thesis by (intro exI conjI) (assumption+, simp)
    qed
    then show ?thesis using e1 q False
      by (auto simp: process_kernel_entry_def Let_def upd_rs_some) (metis option.simps(9) snd_conv)+
  qed
qed

lemma process_kernel_queue_inv:
  assumes "kernel_inv rs"
  shows "\<exists>rs'. process_kernel_queue rs = Some rs' \<and> kernel_inv rs' \<and> rs_kernel_queue rs' = []"
proof -
  have "\<exists>rs'. process_kernel_entries ps rs = Some rs' \<and> kernel_inv rs' \<and> rs_kernel_queue rs' = []"
    if "kernel_inv rs" "rs_kernel_queue rs = ps" for ps rs
    using that
  proof (induction ps arbitrary: rs)
    case (Cons p ps)
    obtain rs1 where "process_kernel_entry p rs = Some rs1" "kernel_inv rs1" "rs_kernel_queue rs1 = ps"
      using process_kernel_entry_inv [OF Cons.prems] by blast
    then show ?case using Cons.IH [of rs1] by simp
  qed simp
  then show ?thesis using assms by (simp add: process_kernel_queue_def)
qed

text \<open>A loop over entries that are not queued yet: every entry is queued at most once.\<close>

definition queued_from :: "ptr set \<Rightarrow> routing_set \<Rightarrow> routing_set \<Rightarrow> bool" where
  "queued_from P rs rs' \<longleftrightarrow> kernel_inv rs' \<and> set (rs_kernel_queue rs') \<subseteq> set (rs_kernel_queue rs) \<union> P
     \<and> domain_of rs' = domain_of rs"

lemma queued_from_trans: "queued_from P rs rs1 \<Longrightarrow> queued_from Q rs1 rs2 \<Longrightarrow> queued_from (P \<union> Q) rs rs2"
  by (auto simp: queued_from_def)

lemma same_entries: "domain_of rs' = domain_of rs \<Longrightarrow> entry_of rs p \<noteq> None \<Longrightarrow> entry_of rs' p \<noteq> None"
  by (metis domain_of_def option.map_disc_iff)

lemma loop_inv:
  assumes step: "\<And>p rs. kernel_inv rs \<Longrightarrow> entry_of rs p \<noteq> None \<Longrightarrow> p \<notin> set (rs_kernel_queue rs) \<Longrightarrow>
      \<exists>rs'. f p rs = Some rs' \<and> queued_from {p} rs rs'"
    and loop: "\<And>rs. F [] rs = Some rs" "\<And>p ps rs. F (p # ps) rs = f p rs \<bind> F ps"
    and rs: "kernel_inv rs" "\<forall>p \<in> set ps. entry_of rs p \<noteq> None \<and> p \<notin> set (rs_kernel_queue rs)" "distinct ps"
  shows "\<exists>rs'. F ps rs = Some rs' \<and> queued_from (set ps) rs rs'"
  using rs
proof (induction ps arbitrary: rs)
  case Nil
  then show ?case by (simp add: loop queued_from_def)
next
  case (Cons p ps)
  then obtain rs1 where 1: "f p rs = Some rs1" "queued_from {p} rs rs1" using step [of rs p] by auto
  have "kernel_inv rs1" using 1(2) by (simp add: queued_from_def)
  moreover have "entry_of rs1 q \<noteq> None \<and> q \<notin> set (rs_kernel_queue rs1)" if "q \<in> set ps" for q
  proof
    show "entry_of rs1 q \<noteq> None" using same_entries [of rs1 rs q] 1(2) Cons.prems(2) that by (simp add: queued_from_def)
    show "q \<notin> set (rs_kernel_queue rs1)" using 1(2) Cons.prems(2,3) that by (auto simp: queued_from_def)
  qed
  ultimately obtain rs2 where "F ps rs1 = Some rs2" "queued_from (set ps) rs1 rs2"
    using Cons.IH [of rs1] Cons.prems(3) by (metis distinct.simps(2))
  then show ?case using 1 queued_from_trans [OF 1(2)] by (auto simp: loop)
qed

definition filters_ok :: "routing_filter list \<Rightarrow> bool" where
  "filters_ok filters \<longleftrightarrow> (\<forall>f \<in> set filters. \<forall>d p s. rp_key (snd (f d p s)) = rp_key p)"

lemma run_filters_key: "filters_ok filters \<Longrightarrow> rp_key (run_filters d s filters p) = rp_key p"
  by (induction filters arbitrary: p) (simp_all add: filters_ok_def)

lemma finish_route_same:
  assumes "filters_ok filters"
  shows "re_domain (finish_route env filters dp d e) = re_domain e" "rp_key (re_route (finish_route env filters dp d e)) = rp_key (re_route e)"
    "re_in_processing (finish_route env filters dp d e) = re_in_processing e"
  by (simp_all add: finish_route_def Let_def run_filters_key [OF assms])

lemma process_results_inv:
  assumes f: "filters_ok filters" and rs: "kernel_inv rs"
    and q: "\<forall>p \<in> set ps. entry_of rs p \<noteq> None \<and> p \<notin> set (rs_kernel_queue rs)" "distinct ps"
  shows "\<exists>rs'. process_results env filters domain ps rs = Some rs' \<and> queued_from (set ps) rs rs'"
proof (rule loop_inv [OF _ _ _ rs q, where f = "process_result env filters domain"])
  fix p rs assume k: "kernel_inv rs" "entry_of rs p \<noteq> None" "p \<notin> set (rs_kernel_queue rs)"
  then obtain e where e: "entry_of rs p = Some e" by blast
  let ?e = "finish_route env filters (rs_domain_parameter rs (re_domain e)) domain e"
  let ?rs = "set_entry p ?e rs"
  have i: "kernel_inv ?rs" "domain_of ?rs = domain_of rs"
    by (rule set_entry_inv [OF k(1) e]; use finish_route_same [OF f] kernel_invD(2) [OF k(1), of p] e in force)+
  obtain rs' where "add_route_to_kernel_queue p ?rs = Some rs'" "kernel_inv rs'"
    "set (rs_kernel_queue rs') = insert p (set (rs_kernel_queue rs))" "domain_of rs' = domain_of ?rs"
    using add_route_inv [OF i(1), of p] k(3) by auto
  then show "\<exists>rs'. process_result env filters domain p rs = Some rs' \<and> queued_from {p} rs rs'"
    using e i by (auto simp: process_result_def upd_rs_some queued_from_def)
qed simp_all

lemma unset_entry:
  assumes k: "kernel_inv rs" and e: "entry_of rs p = Some e"
  shows "kernel_inv (set_entry p (e\<lparr>re_set := False\<rparr>) rs)" "domain_of (set_entry p (e\<lparr>re_set := False\<rparr>) rs) = domain_of rs"
  by (rule set_entry_inv [OF k e]; use kernel_invD(2) [OF k, of p] e in force)+

lemma add_queued:
  assumes "kernel_inv rs1" "domain_of rs1 = domain_of rs" "rs_kernel_queue rs1 = rs_kernel_queue rs"
    "entry_of rs p \<noteq> None" "p \<notin> set (rs_kernel_queue rs)"
  shows "\<exists>rs'. add_route_to_kernel_queue p rs1 = Some rs' \<and> queued_from {p} rs rs'"
  using add_route_inv [OF assms(1) same_entries [OF assms(2,4)]] assms by (auto simp: queued_from_def)

lemma withdraw_route_inv:
  assumes k: "kernel_inv rs" "entry_of rs p \<noteq> None" "p \<notin> set (rs_kernel_queue rs)"
  shows "\<exists>rs'. withdraw_route p rs = Some rs' \<and> queued_from {p} rs rs'"
proof -
  obtain e where e: "entry_of rs p = Some e" using k(2) by blast
  let ?rs = "set_entry p (e\<lparr>re_set := False\<rparr>) rs"
  note i = unset_entry [OF k(1) e]
  let ?s = "if re_in_processing e then os_routing_interrupt p ?rs \<bind> upd_rs p (\<lambda>e. e\<lparr>re_set := False\<rparr>) else Some ?rs"
  have "\<exists>rs1. ?s = Some rs1 \<and> kernel_inv rs1 \<and> domain_of rs1 = domain_of rs \<and> rs_kernel_queue rs1 = rs_kernel_queue rs"
  proof (cases "re_in_processing e")
    case True
    obtain rs2 where 2: "os_routing_interrupt p ?rs = Some rs2" "kernel_inv rs2" "rs_kernel_queue rs2 = rs_kernel_queue rs"
      "domain_of rs2 = domain_of rs"
      using os_routing_interrupt_inv [OF i(1), of p] i(2) by auto
    then obtain e2 where e2: "entry_of rs2 p = Some e2" using same_entries [OF 2(4) k(2)] by blast
    from unset_entry [OF 2(2) e2] show ?thesis using True 2 e2 by (simp add: upd_rs_some)
  next
    case False
    then show ?thesis using i by simp
  qed
  then obtain rs1 where 1: "?s = Some rs1" "kernel_inv rs1" "domain_of rs1 = domain_of rs"
    "rs_kernel_queue rs1 = rs_kernel_queue rs" by blast
  then show ?thesis
    using e k(1) add_queued [OF 1(2-4) k(2,3)] by (auto simp: withdraw_route_def upd_rs_some queued_from_def)
qed

lemma withdraw_routes_inv:
  assumes "kernel_inv rs" "\<forall>p \<in> set ps. entry_of rs p \<noteq> None \<and> p \<notin> set (rs_kernel_queue rs)" "distinct ps"
  shows "\<exists>rs'. withdraw_routes ps rs = Some rs' \<and> queued_from (set ps) rs rs'"
  by (rule loop_inv [OF withdraw_route_inv _ _ assms]) simp_all

lemma stop_route_inv:
  assumes k: "kernel_inv rs" "entry_of rs p \<noteq> None" "p \<notin> set (rs_kernel_queue rs)"
  shows "\<exists>rs'. stop_route p rs = Some rs' \<and> queued_from {p} rs rs'"
proof -
  obtain e where e: "entry_of rs p = Some e" using k(2) by blast
  let ?rs = "drop_feedback p rs"
  have e1: "entry_of ?rs p = Some e" and d: "kernel_inv ?rs" using e drop_feedback_inv [OF k(1)] by simp_all
  note i = unset_entry [OF d e1]
  show ?thesis
    using e d i add_queued [OF i(1), of rs p] k(2,3)
    by (auto simp: stop_route_def upd_rs_some queued_from_def Let_def)
qed

lemma stop_routes_inv:
  assumes "kernel_inv rs" "\<forall>p \<in> set ps. entry_of rs p \<noteq> None \<and> p \<notin> set (rs_kernel_queue rs)" "distinct ps"
  shows "\<exists>rs'. stop_routes ps rs = Some rs' \<and> queued_from (set ps) rs rs'"
  by (rule loop_inv [OF stop_route_inv _ _ assms]) simp_all

text \<open>The same for the entries of several domains.\<close>

definition queue_in :: "nat set \<Rightarrow> routing_set \<Rightarrow> bool" where
  "queue_in D rs \<longleftrightarrow> (\<forall>p \<in> set (rs_kernel_queue rs). \<exists>d \<in> D. domain_of rs p = Some d)"

lemma domain_elements:
  assumes "kernel_inv rs" "queue_in D rs" "d \<notin> D"
  shows "\<forall>p \<in> set (avl_elements (rt_tree (rs_routing rs) d)). entry_of rs p \<noteq> None \<and> p \<notin> set (rs_kernel_queue rs)"
    "distinct (avl_elements (rt_tree (rs_routing rs) d))"
    "queued_from (set (avl_elements (rt_tree (rs_routing rs) d))) rs rs' \<Longrightarrow> queue_in (insert d D) rs'"
proof -
  note T = tree_domain [OF kernel_invD(5) [OF assms(1)], of d]
  show "distinct (avl_elements (rt_tree (rs_routing rs) d))" by (rule T)
  show "\<forall>p \<in> set (avl_elements (rt_tree (rs_routing rs) d)). entry_of rs p \<noteq> None \<and> p \<notin> set (rs_kernel_queue rs)"
    using T(1) assms(2,3) by (fastforce simp: queue_in_def domain_of_def)
  show "queued_from (set (avl_elements (rt_tree (rs_routing rs) d))) rs rs' \<Longrightarrow> queue_in (insert d D) rs'"
    using T(1) assms(2) by (fastforce simp: queue_in_def queued_from_def)
qed

lemma stop_domains_inv:
  assumes "kernel_inv rs" "queue_in D rs" "distinct ds" "set ds \<inter> D = {}"
  shows "\<exists>rs'. stop_domains ds rs = Some rs' \<and> kernel_inv rs'"
  using assms
proof (induction ds arbitrary: rs D)
  case (Cons d ds)
  have "d \<notin> D" using Cons.prems(4) by simp
  note E = domain_elements [OF Cons.prems(1,2) this]
  obtain rs1 where 1: "stop_routes (avl_elements (rt_tree (rs_routing rs) d)) rs = Some rs1"
    "queued_from (set (avl_elements (rt_tree (rs_routing rs) d))) rs rs1"
    using stop_routes_inv [OF Cons.prems(1) E(1,2)] by blast
  then show ?case
    using Cons.IH [of rs1 "insert d D"] E(3) [OF 1(2)] Cons.prems(3,4) by (auto simp: queued_from_def)
qed simp

lemma new_routing:
  assumes k: "kernel_inv rs" and st: "run_ready st" "kept (rs_routing rs) st" and q: "queue_in D rs"
  shows "kernel_inv (rs\<lparr>rs_routing := st\<rparr>)" "queue_in D (rs\<lparr>rs_routing := st\<rparr>)"
proof -
  have e: "\<exists>e'. rt_entries st p = Some e' \<and> re_in_processing e' = re_in_processing e \<and> re_domain e' = re_domain e"
    if "entry_of rs p = Some e" for p e
    using that st(2) by (simp add: kept_def entry_of_def)
  note K = kernel_invD [OF k]
  show "kernel_inv (rs\<lparr>rs_routing := st\<rparr>)"
    using st(1) K(4) K(2,3) e unfolding kernel_inv_def by (fastforce simp: entry_of_def)
  show "queue_in D (rs\<lparr>rs_routing := st\<rparr>)"
    using q e unfolding queue_in_def domain_of_def by (fastforce simp: entry_of_def)
qed

lemma update_domains_inv:
  assumes "filters_ok filters" "kernel_inv rs" "queue_in D rs" "distinct ds" "set ds \<inter> D = {}"
    "\<forall>d \<in> set ds. calculable env alloc d"
  shows "\<exists>rs'. update_domains env alloc filters ds rs = Some rs' \<and> kernel_inv rs'"
  using assms(2-)
proof (induction ds arbitrary: rs D)
  case (Cons d ds)
  obtain st where st: "calculate_domain env alloc d (rs_routing rs) = Some st" "run_ready st" "kept (rs_routing rs) st"
    using calculate_domain_ok [of env alloc d "rs_routing rs"] Cons.prems(5) kernel_invD(1) [OF Cons.prems(1)] by auto
  let ?rs = "rs\<lparr>rs_routing := st\<rparr>"
  note n = new_routing [OF Cons.prems(1) st(2,3) Cons.prems(2)]
  have "d \<notin> D" using Cons.prems(4) by simp
  note E = domain_elements [OF n this]
  obtain rs1 where 1: "process_dijkstra_result env filters d ?rs = Some rs1"
    "queued_from (set (avl_elements (rt_tree (rs_routing ?rs) d))) ?rs rs1"
    using process_results_inv [OF assms(1) n(1) E(1,2)] unfolding process_dijkstra_result_def by blast
  then show ?case
    using st(1) Cons.IH [of rs1 "insert d D"] E(3) [OF 1(2)] Cons.prems(3-5) by (auto simp: queued_from_def)
qed simp

subsection \<open>Operations between calculations\<close>

definition kernel_ok :: "routing_set \<Rightarrow> bool" where
  "kernel_ok rs \<longleftrightarrow> kernel_inv rs \<and> rs_kernel_queue rs = []"

datatype routing_op =
    Force_Update environment allocator "routing_filter list" "nat list" bool
  | Trigger_Update
  | Timer_Fired environment allocator "routing_filter list" "nat list"
  | Set_Domain_Parameter nat routing_domain
  | Kernel_Answer ptr int
  | Initiate_Shutdown

fun routing_apply :: "routing_op \<Rightarrow> routing_set \<Rightarrow> routing_set option" where
  "routing_apply (Force_Update env alloc filters domains skip_wait) rs = routing_force_update env alloc filters domains skip_wait rs"
| "routing_apply Trigger_Update rs = Some (routing_trigger_update rs)"
| "routing_apply (Timer_Fired env alloc filters domains) rs = cb_trigger_dijkstra env alloc filters domains rs"
| "routing_apply (Set_Domain_Parameter domain parameter) rs = routing_set_domain_parameter domain parameter rs"
| "routing_apply (Kernel_Answer p error) rs = routing_finished p error rs"
| "routing_apply Initiate_Shutdown rs = routing_initiate_shutdown rs"

fun routing_callable :: "routing_op \<Rightarrow> routing_set \<Rightarrow> bool" where
  "routing_callable (Force_Update env alloc filters domains skip_wait) rs =
     (distinct domains \<and> filters_ok filters \<and> (\<forall>d \<in> set domains. calculable env alloc d))"
| "routing_callable Trigger_Update rs = True"
| "routing_callable (Timer_Fired env alloc filters domains) rs =
     (distinct domains \<and> filters_ok filters \<and> (\<forall>d \<in> set domains. calculable env alloc d))"
| "routing_callable (Set_Domain_Parameter domain parameter) rs = True"
| "routing_callable (Kernel_Answer p error) rs = (p \<in> rs_feedback rs)"
| "routing_callable Initiate_Shutdown rs = True"

inductive routing_reachable :: "routing_set \<Rightarrow> bool" where
  init: "routing_reachable (routing_init parameter nodes)"
| step: "routing_reachable rs \<Longrightarrow> routing_callable op rs \<Longrightarrow> routing_apply op rs = Some rs' \<Longrightarrow> routing_reachable rs'"

lemma kernel_inv_fields [simp]:
  "kernel_inv (rs\<lparr>rs_rate_limit_timer := a\<rparr>) = kernel_inv rs" "kernel_inv (rs\<lparr>rs_trigger_dijkstra := b\<rparr>) = kernel_inv rs"
  "kernel_inv (rs\<lparr>rs_initiate_shutdown := b\<rparr>) = kernel_inv rs" "kernel_inv (rs\<lparr>rs_domain_parameter := c\<rparr>) = kernel_inv rs"
  by (simp_all add: kernel_inv_def entry_of_def)

lemma kernel_ok_fields [simp]:
  "kernel_ok (rs\<lparr>rs_rate_limit_timer := a\<rparr>) = kernel_ok rs" "kernel_ok (rs\<lparr>rs_trigger_dijkstra := b\<rparr>) = kernel_ok rs"
  "kernel_ok (rs\<lparr>rs_initiate_shutdown := b\<rparr>) = kernel_ok rs" "kernel_ok (rs\<lparr>rs_domain_parameter := c\<rparr>) = kernel_ok rs"
  by (simp_all add: kernel_ok_def)

lemma force_update_ok:
  assumes k: "kernel_ok rs" and c: "distinct domains" "filters_ok filters" "\<forall>d \<in> set domains. calculable env alloc d"
  shows "\<exists>rs'. routing_force_update env alloc filters domains skip_wait rs = Some rs' \<and> kernel_ok rs'"
proof -
  let ?rs = "rs\<lparr>rs_rate_limit_timer := None\<rparr>"
  have "kernel_inv ?rs" "queue_in {} ?rs" using k by (simp_all add: kernel_ok_def queue_in_def)
  from update_domains_inv [OF c(2) this c(1) _ c(3)]
  obtain rs1 where 1: "update_domains env alloc filters domains ?rs = Some rs1" "kernel_inv rs1" by auto
  obtain rs2 where 2: "process_kernel_queue rs1 = Some rs2" "kernel_inv rs2" "rs_kernel_queue rs2 = []"
    using process_kernel_queue_inv [OF 1(2)] by blast
  show ?thesis
    using k 1(1) 2 by (simp add: routing_force_update_def Let_def kernel_ok_def)
qed

lemma routing_apply_ok:
  assumes k: "kernel_ok rs" and c: "routing_callable op rs"
  shows "\<exists>rs'. routing_apply op rs = Some rs' \<and> kernel_ok rs'"
proof (cases op)
  case (Force_Update env alloc filters domains skip_wait)
  then show ?thesis using force_update_ok [OF k] c by simp
next
  case Trigger_Update
  then show ?thesis using k by (simp add: routing_trigger_update_def Let_def)
next
  case (Timer_Fired env alloc filters domains)
  then show ?thesis
    using force_update_ok [of "rs\<lparr>rs_rate_limit_timer := None, rs_trigger_dijkstra := False\<rparr>" domains filters env alloc False] c k
    by (simp add: cb_trigger_dijkstra_def Let_def)
next
  case (Set_Domain_Parameter d p)
  let ?rs = "rs\<lparr>rs_domain_parameter := (rs_domain_parameter rs)(d := p)\<rparr>"
  have i: "kernel_inv ?rs" "rs_kernel_queue ?rs = []" using k by (simp_all add: kernel_ok_def)
  have "queue_in {} ?rs" using i(2) by (simp add: queue_in_def)
  note E = domain_elements [OF i(1) this, of d, simplified]
  obtain rs1 where 1: "withdraw_routes (avl_elements (rt_tree (rs_routing rs) d)) ?rs = Some rs1" "kernel_inv rs1"
    using withdraw_routes_inv [OF i(1), of "avl_elements (rt_tree (rs_routing rs) d)"] E(1,2) by (auto simp: queued_from_def)
  obtain rs2 where "process_kernel_queue rs1 = Some rs2" "kernel_inv rs2" "rs_kernel_queue rs2 = []"
    using process_kernel_queue_inv [OF 1(2)] by blast
  then show ?thesis using Set_Domain_Parameter k 1 by (simp add: routing_set_domain_parameter_def Let_def kernel_ok_def)
next
  case (Kernel_Answer p error)
  then show ?thesis using routing_finished_inv [of rs p error] k c by (simp add: kernel_ok_def)
next
  case Initiate_Shutdown
  let ?rs = "rs\<lparr>rs_initiate_shutdown := True\<rparr>"
  have "kernel_inv ?rs" "queue_in {} ?rs" using k by (simp_all add: kernel_ok_def queue_in_def)
  from stop_domains_inv [OF this, of "[0..<NHDP_MAXIMUM_DOMAINS]"]
  obtain rs1 where 1: "stop_domains [0..<NHDP_MAXIMUM_DOMAINS] ?rs = Some rs1" "kernel_inv rs1" by auto
  obtain rs2 where "process_kernel_queue rs1 = Some rs2" "kernel_inv rs2" "rs_kernel_queue rs2 = []"
    using process_kernel_queue_inv [OF 1(2)] by blast
  then show ?thesis using Initiate_Shutdown 1(1) by (simp add: routing_initiate_shutdown_def Let_def kernel_ok_def)
qed

lemma routing_init_ok: "kernel_ok (routing_init parameter nodes)"
  by (simp add: kernel_ok_def kernel_inv_def routing_init_def run_ready_def routes_ok_def avl_is_empty_iff avl_init_ok
      avl_comp_uint32.comparator_axioms routes_of_def)

lemma routing_reachable_ok: "routing_reachable rs \<Longrightarrow> kernel_ok rs"
  by (induction rule: routing_reachable.induct) (use routing_init_ok routing_apply_ok in \<open>fastforce+\<close>)

text \<open>
  A route that the kernel is working on when the program shuts down stays in the kernel: its processing is
  interrupted without its callback, so that it stays marked and the queue skips its removal.
\<close>

lemma shutdown_skips_busy_route:
  assumes k: "kernel_inv rs" "rs_kernel_queue rs = []" and e: "entry_of rs p = Some e" "re_set e" "re_in_processing e"
  shows "\<exists>rs1 rs2. stop_route p rs = Some rs1 \<and> process_kernel_queue rs1 = Some rs2 \<and> rs_commands rs2 = rs_commands rs
    \<and> p \<notin> rs_feedback rs2 \<and> (\<exists>e'. entry_of rs2 p = Some e' \<and> \<not> re_set e' \<and> re_in_processing e')"
proof -
  let ?rs = "set_entry p (e\<lparr>re_set := False\<rparr>) (drop_feedback p rs)"
  let ?rs1 = "?rs\<lparr>rs_kernel_queue := [p]\<rparr>"
  have "stop_route p rs = Some ?rs1"
    using e k(2) by (auto simp: stop_route_def upd_rs_some Let_def add_route_to_kernel_queue_def)
  moreover have "process_kernel_queue ?rs1 = Some (?rs1\<lparr>rs_kernel_queue := []\<rparr>)"
    using e by (simp add: process_kernel_queue_def process_kernel_entry_def Let_def entry_of_def set_entry_def)
  moreover have "entry_of (?rs1\<lparr>rs_kernel_queue := []\<rparr>) p = Some (e\<lparr>re_set := False\<rparr>)" by (simp add: entry_of_def set_entry_def)
  ultimately show ?thesis using e by (simp add: drop_feedback_def)
qed

lemma ex_calculable: "calculable ex_env ex_alloc 0"
proof -
  have "usable ex_env 0 1" by (simp add: usable_def ex_env_def ex_neighbor_def)
  then have "nhdp_env_ok ex_env 0"
    by (auto simp: nhdp_env_ok_def) (auto simp: ex_env_def ex_neighbor_def ex_link_def elements_entries)
  then show ?thesis using ex_ready by (simp add: calculable_def dijkstra_ready_def)
qed

subsection \<open>Property\<close>

text \<open>
  C29. Routing entries and the kernel stay in step: every operation on a routing set that was built by
  the operations succeeds, the answers of the kernel with every error code included. No command is sent
  for a route that still waits for an answer, a route that waits has an entry that is marked as in
  processing, and no freed or already queued entry is in the queue, which is empty afterwards.
\<close>

theorem routing_operation_safe:
  assumes "routing_reachable rs" "routing_callable op rs"
  shows "\<exists>rs'. routing_apply op rs = Some rs' \<and> kernel_ok rs'"
  using routing_apply_ok [OF routing_reachable_ok [OF assms(1)] assms(2)] .

theorem routing_operation_safe_witness:
  "\<exists>rs'. routing_apply (Force_Update ex_env ex_alloc [] [0] True)
     (routing_init (\<lambda>_. \<lparr>rd_use_srcip_in_routes = False, rd_protocol = 100, rd_table = 254, rd_distance = 2, rd_source_specific = False\<rparr>)
        (rt_nodes ex_state)) = Some rs' \<and> kernel_ok rs'"
  by (rule routing_operation_safe [OF routing_reachable.init]) (simp add: filters_ok_def ex_calculable)

end
