(* ===== verification/Nhdp_Ops.thy ===== *)
theory Nhdp_Ops
  imports Nhdp_Db
begin

text \<open>
  The operations of the neighborhood database (\<open>src-plugins/nhdp/nhdp/nhdp_db.c\<close>, the hooks of
  \<open>nhdp_interfaces.h\<close> and \<open>nhdp_interface_update_status\<close> of \<open>nhdp_interfaces.c\<close>). The parameter
  \<open>alloc\<close> is the address of a new object, \<open>None\<close> when there is no memory; the hysteresis of a link is a
  handler of two tests.
\<close>

subsection \<open>Addresses of neighbors\<close>

definition nhdp_db_neighbor_addr_set_lost :: "ptr \<Rightarrow> u64 \<Rightarrow> nhdp_db \<Rightarrow> nhdp_db option" where
  "nhdp_db_neighbor_addr_set_lost x vtime = upd_naddr x (\<lambda>a. a\<lparr>nx_lost_vtime := timer_interval vtime\<rparr>)"

definition nhdp_db_neighbor_addr_not_lost :: "ptr \<Rightarrow> nhdp_db \<Rightarrow> nhdp_db option" where
  "nhdp_db_neighbor_addr_not_lost x = upd_naddr x (\<lambda>a. a\<lparr>nx_lost_vtime := None\<rparr>)"

definition nhdp_db_neighbor_addr_is_lost :: "nhdp_naddr \<Rightarrow> bool" where
  "nhdp_db_neighbor_addr_is_lost a = (nx_lost_vtime a \<noteq> None)"

definition nhdp_db_neighbor_addr_add ::
  "ptr option \<Rightarrow> ptr \<Rightarrow> netaddr \<Rightarrow> nhdp_db \<Rightarrow> (ptr option \<times> nhdp_db) option" where
  "nhdp_db_neighbor_addr_add alloc p addr db =
     (case alloc of
        None \<Rightarrow> Some (None, db)
      | Some x \<Rightarrow> do {
          let db = db\<lparr>db_naddrs := (db_naddrs db)(x \<mapsto>
                \<lparr>nx_addr = addr, nx_neigh = p, nx_laddr_count = 0, nx_lost_vtime = None, nx_this_if = False,
                 nx_might_be_removed = False\<rparr>),
              db_naddr_tree := tree_insert (db_naddr_tree db) addr x\<rparr>;
          db \<leftarrow> upd_neigh p (\<lambda>n. Some (n\<lparr>nn_neigh_addresses := tree_insert (nn_neigh_addresses n) addr x\<rparr>)) db;
          Some (Some x, nhdp_event OBJECT_ADDED (Nhdp_Naddr x) db)
        })"

definition nhdp_db_neighbor_addr_remove :: "ptr \<Rightarrow> nhdp_db \<Rightarrow> nhdp_db option" where
  "nhdp_db_neighbor_addr_remove x db = do {
     let db = nhdp_event OBJECT_REMOVED (Nhdp_Naddr x) db;
     a \<leftarrow> db_naddrs db x;
     t \<leftarrow> tree_remove (db_naddr_tree db) x;
     db \<leftarrow> upd_neigh (nx_neigh a) (\<lambda>n. do {
            t \<leftarrow> tree_remove (nn_neigh_addresses n) x;
            Some (n\<lparr>nn_neigh_addresses := t\<rparr>) }) (db\<lparr>db_naddr_tree := t\<rparr>);
     Some (db\<lparr>db_naddrs := (db_naddrs db)(x := None)\<rparr>)
   }"

definition nhdp_db_neighbor_addr_move :: "ptr \<Rightarrow> ptr \<Rightarrow> nhdp_db \<Rightarrow> nhdp_db option" where
  "nhdp_db_neighbor_addr_move p x db = do {
     a \<leftarrow> db_naddrs db x;
     db \<leftarrow> upd_neigh (nx_neigh a) (\<lambda>n. do {
            t \<leftarrow> tree_remove (nn_neigh_addresses n) x;
            Some (n\<lparr>nn_neigh_addresses := t\<rparr>) }) db;
     db \<leftarrow> upd_neigh p (\<lambda>n. Some (n\<lparr>nn_neigh_addresses := tree_insert (nn_neigh_addresses n) (nx_addr a) x\<rparr>)) db;
     upd_naddr x (\<lambda>a. a\<lparr>nx_neigh := p\<rparr>) db
   }"

subsection \<open>Addresses of links\<close>

definition nhdp_interface_add_laddr :: "ptr \<Rightarrow> nhdp_db \<Rightarrow> nhdp_db option" where
  "nhdp_interface_add_laddr x db = do {
     a \<leftarrow> db_laddrs db x;
     lnk \<leftarrow> db_links db (ld_link a);
     i \<leftarrow> nl_local_if lnk;
     upd_interface i (\<lambda>f. Some (f\<lparr>ni_link_addresses := tree_insert (ni_link_addresses f) (ld_addr a) x\<rparr>)) db
   }"

definition nhdp_interface_remove_laddr :: "ptr \<Rightarrow> nhdp_db \<Rightarrow> nhdp_db option" where
  "nhdp_interface_remove_laddr x db = do {
     a \<leftarrow> db_laddrs db x;
     lnk \<leftarrow> db_links db (ld_link a);
     i \<leftarrow> nl_local_if lnk;
     upd_interface i (\<lambda>f. do {
       t \<leftarrow> tree_remove (ni_link_addresses f) x;
       Some (f\<lparr>ni_link_addresses := t\<rparr>) }) db
   }"

definition nhdp_db_link_addr_add ::
  "ptr option \<Rightarrow> ptr \<Rightarrow> netaddr \<Rightarrow> nhdp_db \<Rightarrow> (ptr option \<times> nhdp_db) option" where
  "nhdp_db_link_addr_add alloc l addr db =
     (case alloc of
        None \<Rightarrow> Some (None, db)
      | Some x \<Rightarrow> do {
          let db = db\<lparr>db_laddrs := (db_laddrs db)(x \<mapsto> \<lparr>ld_addr = addr, ld_link = l, ld_might_be_removed = False\<rparr>)\<rparr>;
          db \<leftarrow> upd_link l (\<lambda>k. Some (k\<lparr>nl_addresses := tree_insert (nl_addresses k) addr x\<rparr>)) db;
          lnk \<leftarrow> db_links db l;
          db \<leftarrow> upd_neigh (nl_neigh lnk) (\<lambda>n. Some (n\<lparr>nn_link_addresses := tree_insert (nn_link_addresses n) addr x\<rparr>)) db;
          db \<leftarrow> nhdp_interface_add_laddr x db;
          Some (Some x, nhdp_event OBJECT_ADDED (Nhdp_Laddr x) db)
        })"

definition nhdp_db_link_addr_remove :: "ptr \<Rightarrow> nhdp_db \<Rightarrow> nhdp_db option" where
  "nhdp_db_link_addr_remove x db = do {
     let db = nhdp_event OBJECT_REMOVED (Nhdp_Laddr x) db;
     db \<leftarrow> nhdp_interface_remove_laddr x db;
     a \<leftarrow> db_laddrs db x;
     db \<leftarrow> upd_link (ld_link a) (\<lambda>k. do {
            t \<leftarrow> tree_remove (nl_addresses k) x;
            Some (k\<lparr>nl_addresses := t\<rparr>) }) db;
     lnk \<leftarrow> db_links db (ld_link a);
     db \<leftarrow> upd_neigh (nl_neigh lnk) (\<lambda>n. do {
            t \<leftarrow> tree_remove (nn_link_addresses n) x;
            Some (n\<lparr>nn_link_addresses := t\<rparr>) }) db;
     Some (db\<lparr>db_laddrs := (db_laddrs db)(x := None)\<rparr>)
   }"

definition nhdp_db_link_addr_move :: "ptr \<Rightarrow> ptr \<Rightarrow> nhdp_db \<Rightarrow> nhdp_db option" where
  "nhdp_db_link_addr_move l x db = do {
     a \<leftarrow> db_laddrs db x;
     db \<leftarrow> upd_link (ld_link a) (\<lambda>k. do {
            t \<leftarrow> tree_remove (nl_addresses k) x;
            Some (k\<lparr>nl_addresses := t\<rparr>) }) db;
     db \<leftarrow> upd_link l (\<lambda>k. Some (k\<lparr>nl_addresses := tree_insert (nl_addresses k) (ld_addr a) x\<rparr>)) db;
     old \<leftarrow> db_links db (ld_link a);
     new \<leftarrow> db_links db l;
     db \<leftarrow> (if nl_neigh old \<noteq> nl_neigh new
           then do {
             db \<leftarrow> upd_neigh (nl_neigh old) (\<lambda>n. do {
                    t \<leftarrow> tree_remove (nn_link_addresses n) x;
                    Some (n\<lparr>nn_link_addresses := t\<rparr>) }) db;
             upd_neigh (nl_neigh new) (\<lambda>n. Some (n\<lparr>nn_link_addresses := tree_insert (nn_link_addresses n) (ld_addr a) x\<rparr>)) db
           }
           else Some db);
     upd_laddr x (\<lambda>a. a\<lparr>ld_link := l\<rparr>) db
   }"

subsection \<open>Two-hop addresses\<close>

definition nhdp_interface_add_l2hop :: "ptr \<Rightarrow> ptr \<Rightarrow> nhdp_db \<Rightarrow> nhdp_db option" where
  "nhdp_interface_add_l2hop i x db = do {
     h \<leftarrow> db_l2hops db x;
     upd_interface i (\<lambda>f. Some (f\<lparr>ni_if_twohops := tree_insert (ni_if_twohops f) (l2_addr h) x\<rparr>)) db
   }"

definition nhdp_interface_remove_l2hop :: "ptr \<Rightarrow> nhdp_db \<Rightarrow> nhdp_db option" where
  "nhdp_interface_remove_l2hop x db = do {
     h \<leftarrow> db_l2hops db x;
     lnk \<leftarrow> db_links db (l2_link h);
     i \<leftarrow> nl_local_if lnk;
     upd_interface i (\<lambda>f. do {
       t \<leftarrow> tree_remove (ni_if_twohops f) x;
       Some (f\<lparr>ni_if_twohops := t\<rparr>) }) db
   }"

definition nhdp_db_link_2hop_add ::
  "domains \<Rightarrow> ptr option \<Rightarrow> ptr \<Rightarrow> netaddr \<Rightarrow> nhdp_db \<Rightarrow> (ptr option \<times> nhdp_db) option" where
  "nhdp_db_link_2hop_add ds alloc l addr db =
     (case alloc of
        None \<Rightarrow> Some (None, db)
      | Some x \<Rightarrow> do {
          let db = db\<lparr>db_l2hops := (db_l2hops db)(x \<mapsto>
            \<lparr>l2_addr = addr, l2_same_interface = False, l2_link = l, l2_vtime = None,
             l2_domaindata = (\<lambda>_. \<lparr>nm_in = 0, nm_out = 0\<rparr>)\<rparr>)\<rparr>;
          db \<leftarrow> upd_link l (\<lambda>k. Some (k\<lparr>nl_2hop := tree_insert (nl_2hop k) addr x\<rparr>)) db;
          lnk \<leftarrow> db_links db l;
          i \<leftarrow> nl_local_if lnk;
          db \<leftarrow> nhdp_interface_add_l2hop i x db;
          db \<leftarrow> upd_l2hop x (nhdp_domain_init_l2hop ds) db;
          Some (Some x, nhdp_event OBJECT_ADDED (Nhdp_L2hop x) db)
        })"

definition nhdp_db_link_2hop_remove :: "ptr \<Rightarrow> nhdp_db \<Rightarrow> nhdp_db option" where
  "nhdp_db_link_2hop_remove x db = do {
     let db = nhdp_event OBJECT_REMOVED (Nhdp_L2hop x) db;
     h \<leftarrow> db_l2hops db x;
     db \<leftarrow> upd_link (l2_link h) (\<lambda>k. do {
            t \<leftarrow> tree_remove (nl_2hop k) x;
            Some (k\<lparr>nl_2hop := t\<rparr>) }) db;
     db \<leftarrow> nhdp_interface_remove_l2hop x db;
     Some (db\<lparr>db_l2hops := (db_l2hops db)(x := None)\<rparr>)
   }"

definition nhdp_db_link_2hop_set_vtime :: "ptr \<Rightarrow> u64 \<Rightarrow> nhdp_db \<Rightarrow> nhdp_db option" where
  "nhdp_db_link_2hop_set_vtime x vtime = upd_l2hop x (\<lambda>h. h\<lparr>l2_vtime := timer_interval vtime\<rparr>)"

subsection \<open>Links\<close>

definition nhdp_db_link_is_dualstack :: "nhdp_link \<Rightarrow> bool" where
  "nhdp_db_link_is_dualstack lnk = (nl_dualstack_partner lnk \<noteq> None)"

text \<open>Whether a link or a neighbor is one half of a dualstack pair, and of which family it is.\<close>

definition nhdp_db_link_is_dualstack_type :: "nhdp_db \<Rightarrow> nhdp_link \<Rightarrow> u8 \<Rightarrow> bool option" where
  "nhdp_db_link_is_dualstack_type db lnk af =
     (if \<not> nhdp_db_link_is_dualstack lnk then Some False
      else do {
        n \<leftarrow> db_neighs db (nl_neigh lnk);
        Some (na_type (nn_originator n) = af)
      })"

definition nhdp_db_link_is_ipv4_dualstack :: "nhdp_db \<Rightarrow> nhdp_link \<Rightarrow> bool option" where
  "nhdp_db_link_is_ipv4_dualstack db lnk = nhdp_db_link_is_dualstack_type db lnk AF_INET"

definition nhdp_db_link_is_ipv6_dualstack :: "nhdp_db \<Rightarrow> nhdp_link \<Rightarrow> bool option" where
  "nhdp_db_link_is_ipv6_dualstack db lnk = nhdp_db_link_is_dualstack_type db lnk AF_INET6"

definition nhdp_db_neighbor_is_dualstack_type :: "nhdp_neighbor \<Rightarrow> u8 \<Rightarrow> bool" where
  "nhdp_db_neighbor_is_dualstack_type n af = (nn_dualstack_partner n \<noteq> None \<and> na_type (nn_originator n) = af)"

definition nhdp_db_neighbor_is_ipv4_dualstack :: "nhdp_neighbor \<Rightarrow> bool" where
  "nhdp_db_neighbor_is_ipv4_dualstack n = nhdp_db_neighbor_is_dualstack_type n AF_INET"

definition nhdp_db_neighbor_is_ipv6_dualstack :: "nhdp_neighbor \<Rightarrow> bool" where
  "nhdp_db_neighbor_is_ipv6_dualstack n = nhdp_db_neighbor_is_dualstack_type n AF_INET6"

fun nhdp_db_link_status_to_string :: "link_status \<Rightarrow> string" where
  "nhdp_db_link_status_to_string NHDP_LINK_PENDING = ''pending''"
| "nhdp_db_link_status_to_string NHDP_LINK_HEARD = ''heard''"
| "nhdp_db_link_status_to_string NHDP_LINK_SYMMETRIC = ''symmetric''"
| "nhdp_db_link_status_to_string NHDP_LINK_LOST = ''lost''"

definition nhdp_db_link_disconnect_dualstack :: "ptr \<Rightarrow> nhdp_db \<Rightarrow> nhdp_db option" where
  "nhdp_db_link_disconnect_dualstack l db = do {
     lnk \<leftarrow> db_links db l;
     (case nl_dualstack_partner lnk of
        None \<Rightarrow> Some db
      | Some q \<Rightarrow>
          upd_link q (\<lambda>k. Some (k\<lparr>nl_dualstack_partner := None\<rparr>)) db
            \<bind> upd_link l (\<lambda>k. Some (k\<lparr>nl_dualstack_partner := None\<rparr>)))
   }"

definition nhdp_db_link_set_partner :: "ptr \<Rightarrow> ptr \<Rightarrow> nhdp_db \<Rightarrow> nhdp_db option" where
  "nhdp_db_link_set_partner l q db = do {
     lnk \<leftarrow> db_links db l;
     if nl_dualstack_partner lnk \<noteq> Some q
     then nhdp_db_link_disconnect_dualstack l db \<bind> upd_link l (\<lambda>k. Some (k\<lparr>nl_dualstack_partner := Some q\<rparr>))
     else Some db
   }"

definition nhdp_db_link_connect_dualstack :: "ptr \<Rightarrow> ptr \<Rightarrow> nhdp_db \<Rightarrow> nhdp_db option" where
  "nhdp_db_link_connect_dualstack l4 l6 db =
     nhdp_db_link_set_partner l4 l6 db \<bind> nhdp_db_link_set_partner l6 l4"

definition nhdp_interface_add_link :: "ptr \<Rightarrow> ptr \<Rightarrow> nhdp_db \<Rightarrow> nhdp_db option" where
  "nhdp_interface_add_link i l db = do {
     db \<leftarrow> upd_link l (\<lambda>k. Some (k\<lparr>nl_local_if := Some i\<rparr>)) db;
     upd_interface i (\<lambda>f. Some (f\<lparr>ni_links := ni_links f @ [l]\<rparr>)) db
   }"

definition nhdp_interface_remove_link :: "ptr \<Rightarrow> nhdp_db \<Rightarrow> nhdp_db option" where
  "nhdp_interface_remove_link l db = do {
     lnk \<leftarrow> db_links db l;
     i \<leftarrow> nl_local_if lnk;
     db \<leftarrow> upd_interface i (\<lambda>f. do {
            xs \<leftarrow> list_take_out (ni_links f) l;
            Some (f\<lparr>ni_links := xs\<rparr>) }) db;
     upd_link l (\<lambda>k. Some (k\<lparr>nl_local_if := None\<rparr>)) db
   }"

definition new_link :: "ptr \<Rightarrow> nhdp_link" where
  "new_link p =
     \<lparr>nl_vtime_value = 0, nl_itime_value = 0, nl_sym_time = None, nl_heard_time = None, nl_vtime = None,
      nl_status = NHDP_LINK_LOST, nl_local_if = None, nl_dualstack_partner = None, nl_neigh = p,
      nl_if_addr = NETADDR_UNSPEC, nl_remote_mac = NETADDR_UNSPEC, nl_process_count = 0,
      nl_addresses = avl_init avl_comp_netaddr False, nl_2hop = avl_init avl_comp_netaddr False,
      nl_domaindata = (\<lambda>_. \<lparr>nm_in = 0, nm_out = 0\<rparr>)\<rparr>"

definition hook_originator :: "netaddr \<Rightarrow> ptr \<Rightarrow> nhdp_db \<Rightarrow> nhdp_db option" where
  "hook_originator originator l db = do {
     lnk \<leftarrow> db_links db l;
     i \<leftarrow> nl_local_if lnk;
     upd_interface i (\<lambda>f. Some (f\<lparr>ni_link_originators := tree_insert (ni_link_originators f) originator l\<rparr>)) db
   }"

definition unhook_originator :: "ptr \<Rightarrow> nhdp_db \<Rightarrow> nhdp_db option" where
  "unhook_originator l db = do {
     lnk \<leftarrow> db_links db l;
     i \<leftarrow> nl_local_if lnk;
     upd_interface i (\<lambda>f. do {
       t \<leftarrow> tree_remove (ni_link_originators f) l;
       Some (f\<lparr>ni_link_originators := t\<rparr>) }) db
   }"

definition nhdp_db_link_add ::
  "domains \<Rightarrow> ptr option \<Rightarrow> ptr \<Rightarrow> ptr \<Rightarrow> nhdp_db \<Rightarrow> (ptr option \<times> nhdp_db) option" where
  "nhdp_db_link_add ds alloc p i db =
     (case alloc of
        None \<Rightarrow> Some (None, db)
      | Some l \<Rightarrow> do {
          let db = db\<lparr>db_links := (db_links db)(l \<mapsto> new_link p)\<rparr>;
          db \<leftarrow> nhdp_interface_add_link i l db;
          db \<leftarrow> upd_neigh p (\<lambda>n. Some (n\<lparr>nn_links := nn_links n @ [l]\<rparr>)) db;
          let db = db\<lparr>db_link_list := db_link_list db @ [l]\<rparr>;
          n \<leftarrow> db_neighs db p;
          db \<leftarrow> (if na_type (nn_originator n) \<noteq> AF_UNSPEC then hook_originator (nn_originator n) l db else Some db);
          db \<leftarrow> upd_link l (\<lambda>k. Some (nhdp_domain_init_link ds k)) db;
          Some (Some l, nhdp_event OBJECT_ADDED (Nhdp_Link l) db)
        })"

definition stop_link_timers :: "nhdp_link \<Rightarrow> nhdp_link" where
  "stop_link_timers k = k\<lparr>nl_sym_time := None, nl_heard_time := None, nl_vtime := None\<rparr>"

definition unhook_link :: "ptr \<Rightarrow> nhdp_db \<Rightarrow> nhdp_db option" where
  "unhook_link l db = do {
     db \<leftarrow> nhdp_interface_remove_link l db;
     lnk \<leftarrow> db_links db l;
     db \<leftarrow> upd_neigh (nl_neigh lnk) (\<lambda>n. do {
            xs \<leftarrow> list_take_out (nn_links n) l;
            Some (n\<lparr>nn_links := xs\<rparr>) }) db;
     xs \<leftarrow> list_take_out (db_link_list db) l;
     Some (db\<lparr>db_link_list := xs, db_links := (db_links db)(l := None)\<rparr>)
   }"

definition nhdp_db_link_remove :: "ptr \<Rightarrow> nhdp_db \<Rightarrow> nhdp_db option" where
  "nhdp_db_link_remove l db = do {
     let db = nhdp_event OBJECT_REMOVED (Nhdp_Link l) db;
     db \<leftarrow> upd_link l (\<lambda>k. Some (stop_link_timers k)) db;
     lnk \<leftarrow> db_links db l;
     db \<leftarrow> (if nhdp_db_link_is_dualstack lnk then nhdp_db_link_disconnect_dualstack l db else Some db);
     n \<leftarrow> db_neighs db (nl_neigh lnk);
     db \<leftarrow> (if na_type (nn_originator n) \<noteq> AF_UNSPEC then unhook_originator l db else Some db);
     lnk \<leftarrow> db_links db l;
     db \<leftarrow> for_each nhdp_db_link_addr_remove (avl_elements (nl_addresses lnk)) db;
     lnk \<leftarrow> db_links db l;
     db \<leftarrow> for_each nhdp_db_link_2hop_remove (avl_elements (nl_2hop lnk)) db;
     unhook_link l db
   }"

subsection \<open>Link status\<close>

record hysteresis =
  hy_is_pending :: "ptr \<Rightarrow> bool"
  hy_is_lost :: "ptr \<Rightarrow> bool"

definition no_hysteresis :: hysteresis where
  "no_hysteresis = \<lparr>hy_is_pending = (\<lambda>_. False), hy_is_lost = (\<lambda>_. False)\<rparr>"

definition nhdp_db_link_calculate_status :: "hysteresis \<Rightarrow> ptr \<Rightarrow> nhdp_link \<Rightarrow> link_status" where
  "nhdp_db_link_calculate_status hy l k =
     (if hy_is_pending hy l then NHDP_LINK_PENDING
      else if hy_is_lost hy l then NHDP_LINK_LOST
      else if nl_sym_time k \<noteq> None then NHDP_LINK_SYMMETRIC
      else if nl_heard_time k \<noteq> None then NHDP_LINK_HEARD
      else NHDP_LINK_LOST)"

definition link_status_now_symmetric :: "ptr \<Rightarrow> nhdp_db \<Rightarrow> nhdp_db option" where
  "link_status_now_symmetric l db = do {
     lnk \<leftarrow> db_links db l;
     db \<leftarrow> upd_neigh (nl_neigh lnk) (\<lambda>n. Some (n\<lparr>nn_symmetric := nn_symmetric n + 1\<rparr>)) db;
     n \<leftarrow> db_neighs db (nl_neigh lnk);
     if nn_symmetric n = 1
     then for_each nhdp_db_neighbor_addr_not_lost (avl_elements (nn_neigh_addresses n)) db
     else Some db
   }"

definition link_status_not_symmetric_anymore :: "ptr \<Rightarrow> nhdp_db \<Rightarrow> nhdp_db option" where
  "link_status_not_symmetric_anymore l db = do {
     lnk \<leftarrow> db_links db l;
     db \<leftarrow> for_each nhdp_db_link_2hop_remove (avl_elements (nl_2hop lnk)) db;
     lnk \<leftarrow> db_links db l;
     db \<leftarrow> upd_neigh (nl_neigh lnk) (\<lambda>n. Some (n\<lparr>nn_symmetric := nn_symmetric n - 1\<rparr>)) db;
     n \<leftarrow> db_neighs db (nl_neigh lnk);
     if nn_symmetric n = 0
     then for_each (\<lambda>x db. do {
            i \<leftarrow> nl_local_if lnk;
            f \<leftarrow> db_interfaces db i;
            nhdp_db_neighbor_addr_set_lost x (ni_n_hold_time f) db }) (avl_elements (nn_neigh_addresses n)) db
     else Some db
   }"

text \<open>Which kinds of symmetric neighbors an interface has: only IPv4, only IPv6, both.\<close>

fun count_flooding :: "nhdp_db \<Rightarrow> ptr list \<Rightarrow> int \<times> int \<times> int \<Rightarrow> (int \<times> int \<times> int) option" where
  "count_flooding db [] c = Some c"
| "count_flooding db (l # ls) (v4, v6, dual) = do {
     lnk \<leftarrow> db_links db l;
     if nl_status lnk \<noteq> NHDP_LINK_SYMMETRIC then count_flooding db ls (v4, v6, dual)
     else do {
       n \<leftarrow> db_neighs db (nl_neigh lnk);
       let af = na_type (nn_originator n);
       count_flooding db ls
         (if nl_dualstack_partner lnk \<noteq> None then (v4, v6, if af = AF_INET then dual + 1 else dual)
          else if af = AF_INET then (v4 + 1, v6, dual)
          else if af = AF_INET6 then (v4, v6 + 1, dual)
          else (v4, v6, dual))
     }
   }"

definition flooding_settings :: "int \<times> int \<times> int \<Rightarrow> nhdp_interface \<Rightarrow> nhdp_interface" where
  "flooding_settings c f = (case c of (v4, v6, dual) \<Rightarrow>
     f\<lparr>ni_use_ipv4_for_flooding := v4 > 0, ni_use_ipv6_for_flooding := v6 > 0 \<or> (v4 = 0 \<and> dual > 0),
       ni_dualstack_af_type := (if dual > 0 then if v4 = 0 then AF_INET6 else if v6 = 0 then AF_INET else AF_UNSPEC
                                else AF_UNSPEC)\<rparr>)"

definition nhdp_interface_update_status :: "ptr \<Rightarrow> nhdp_db \<Rightarrow> nhdp_db option" where
  "nhdp_interface_update_status i db = do {
     f \<leftarrow> db_interfaces db i;
     c \<leftarrow> count_flooding db (ni_links f) (0, 0, 0);
     upd_interface i (\<lambda>f. Some (flooding_settings c f)) db
   }"

definition nhdp_db_link_update_status :: "hysteresis \<Rightarrow> ptr \<Rightarrow> nhdp_db \<Rightarrow> nhdp_db option" where
  "nhdp_db_link_update_status hy l db = do {
     lnk \<leftarrow> db_links db l;
     let was = (nl_status lnk = NHDP_LINK_SYMMETRIC);
     let status = nhdp_db_link_calculate_status hy l lnk;
     let now = (status = NHDP_LINK_SYMMETRIC);
     db \<leftarrow> upd_link l (\<lambda>k. Some (k\<lparr>nl_status := status\<rparr>)) db;
     db \<leftarrow> (if was \<and> \<not> now then link_status_not_symmetric_anymore l db else Some db);
     db \<leftarrow> (if \<not> was \<and> now then link_status_now_symmetric l db else Some db);
     db \<leftarrow> (if was \<noteq> now then do { i \<leftarrow> nl_local_if lnk; nhdp_interface_update_status i db } else Some db);
     Some (nhdp_event OBJECT_CHANGED (Nhdp_Link l) db)
   }"

definition nhdp_db_link_set_unsymmetric :: "ptr \<Rightarrow> nhdp_db \<Rightarrow> nhdp_db option" where
  "nhdp_db_link_set_unsymmetric l db = do {
     lnk \<leftarrow> db_links db l;
     db \<leftarrow> (if nl_status lnk = NHDP_LINK_SYMMETRIC then link_status_not_symmetric_anymore l db else Some db);
     db \<leftarrow> upd_link l (\<lambda>k. Some (k\<lparr>nl_sym_time := None\<rparr>)) db;
     lnk \<leftarrow> db_links db l;
     db \<leftarrow> for_each nhdp_db_link_2hop_remove (avl_elements (nl_2hop lnk)) db;
     Some (nhdp_event OBJECT_CHANGED (Nhdp_Link l) db)
   }"

definition nhdp_db_link_set_vtime :: "ptr \<Rightarrow> u64 \<Rightarrow> nhdp_db \<Rightarrow> nhdp_db option" where
  "nhdp_db_link_set_vtime l vtime = upd_link l (\<lambda>k. Some (k\<lparr>nl_vtime := timer_interval vtime\<rparr>))"

definition nhdp_db_link_set_heardtime :: "ptr \<Rightarrow> u64 \<Rightarrow> nhdp_db \<Rightarrow> nhdp_db option" where
  "nhdp_db_link_set_heardtime l htime = upd_link l (\<lambda>k. Some (k\<lparr>nl_heard_time := timer_interval htime\<rparr>))"

definition nhdp_db_link_set_symtime :: "hysteresis \<Rightarrow> ptr \<Rightarrow> u64 \<Rightarrow> nhdp_db \<Rightarrow> nhdp_db option" where
  "nhdp_db_link_set_symtime hy l stime db =
     upd_link l (\<lambda>k. Some (k\<lparr>nl_sym_time := timer_interval stime\<rparr>)) db \<bind> nhdp_db_link_update_status hy l"

subsection \<open>Neighbors\<close>

definition new_neighbor :: nhdp_neighbor where
  "new_neighbor =
     \<lparr>nn_originator = NETADDR_UNSPEC, nn_symmetric = 0, nn_dualstack_partner = None,
      nn_local_is_flooding_mpr = False, nn_neigh_is_flooding_mpr = False, nn_flooding_willingness = 0,
      nn_process_count = 0, nn_links = [], nn_neigh_addresses = avl_init avl_comp_netaddr False,
      nn_link_addresses = avl_init avl_comp_netaddr True,
      nn_domaindata = (\<lambda>_. \<lparr>nd_metric = \<lparr>nm_in = 0, nm_out = 0\<rparr>, nd_best_link = None, nd_best_link_ifindex = 0,
        nd_local_is_mpr = False, nd_neigh_is_mpr = False, nd_willingness = 0\<rparr>)\<rparr>"

definition nhdp_db_neighbor_add :: "domains \<Rightarrow> ptr option \<Rightarrow> nhdp_db \<Rightarrow> ptr option \<times> nhdp_db" where
  "nhdp_db_neighbor_add ds alloc db =
     (case alloc of
        None \<Rightarrow> (None, db)
      | Some p \<Rightarrow>
          let db = db\<lparr>db_neighs := (db_neighs db)(p \<mapsto> nhdp_domain_init_neighbor ds new_neighbor),
                      db_neigh_list := db_neigh_list db @ [p]\<rparr>
          in (Some p, nhdp_event OBJECT_ADDED (Nhdp_Neighbor p) db))"

definition nhdp_db_neighbor_disconnect_dualstack :: "ptr \<Rightarrow> nhdp_db \<Rightarrow> nhdp_db option" where
  "nhdp_db_neighbor_disconnect_dualstack p db = do {
     n \<leftarrow> db_neighs db p;
     (case nn_dualstack_partner n of
        None \<Rightarrow> Some db
      | Some q \<Rightarrow>
          upd_neigh q (\<lambda>n. Some (n\<lparr>nn_dualstack_partner := None\<rparr>)) db
            \<bind> upd_neigh p (\<lambda>n. Some (n\<lparr>nn_dualstack_partner := None\<rparr>)))
   }"

definition nhdp_db_neighbor_set_partner :: "ptr \<Rightarrow> ptr \<Rightarrow> nhdp_db \<Rightarrow> nhdp_db option" where
  "nhdp_db_neighbor_set_partner p q db = do {
     n \<leftarrow> db_neighs db p;
     if nn_dualstack_partner n \<noteq> Some q
     then nhdp_db_neighbor_disconnect_dualstack p db \<bind> upd_neigh p (\<lambda>n. Some (n\<lparr>nn_dualstack_partner := Some q\<rparr>))
     else Some db
   }"

definition nhdp_db_neighbor_connect_dualstack :: "ptr \<Rightarrow> ptr \<Rightarrow> nhdp_db \<Rightarrow> nhdp_db option" where
  "nhdp_db_neighbor_connect_dualstack p4 p6 db =
     nhdp_db_neighbor_set_partner p4 p6 db \<bind> nhdp_db_neighbor_set_partner p6 p4"

definition release_neighbor :: "ptr \<Rightarrow> nhdp_db \<Rightarrow> nhdp_db option" where
  "release_neighbor p db = do {
     n \<leftarrow> db_neighs db p;
     t \<leftarrow> (if na_type (nn_originator n) \<noteq> AF_UNSPEC then tree_remove (db_originator_tree db) p
          else Some (db_originator_tree db));
     xs \<leftarrow> list_take_out (db_neigh_list db) p;
     Some (db\<lparr>db_originator_tree := t, db_neigh_list := xs, db_neighs := (db_neighs db)(p := None)\<rparr>)
   }"

definition nhdp_db_neighbor_remove :: "ptr \<Rightarrow> nhdp_db \<Rightarrow> nhdp_db option" where
  "nhdp_db_neighbor_remove p db = do {
     let db = nhdp_event OBJECT_REMOVED (Nhdp_Neighbor p) db;
     db \<leftarrow> nhdp_db_neighbor_disconnect_dualstack p db;
     n \<leftarrow> db_neighs db p;
     db \<leftarrow> for_each nhdp_db_link_remove (nn_links n) db;
     n \<leftarrow> db_neighs db p;
     db \<leftarrow> for_each nhdp_db_neighbor_addr_remove (avl_elements (nn_neigh_addresses n)) db;
     release_neighbor p db
   }"

definition nhdp_db_neighbor_set_unsymmetric :: "ptr \<Rightarrow> nhdp_db \<Rightarrow> nhdp_db option" where
  "nhdp_db_neighbor_set_unsymmetric p db = do {
     n \<leftarrow> db_neighs db p;
     db \<leftarrow> for_each nhdp_db_link_set_unsymmetric (nn_links n) db;
     Some (nhdp_event OBJECT_CHANGED (Nhdp_Neighbor p) db)
   }"

text \<open>
  One round of the loop over the links of \<open>src\<close> in \<open>nhdp_db_neighbor_join\<close>. The loop over the
  addresses of a link goes through the nodes of one tree with the offset of another one and corrupts
  the trees when there is an address; then the result is \<open>None\<close>.
\<close>

definition join_link :: "ptr \<Rightarrow> ptr \<Rightarrow> ptr \<Rightarrow> nhdp_db \<Rightarrow> nhdp_db option" where
  "join_link dst src l db = do {
     lnk \<leftarrow> db_links db l;
     if \<not> avl_is_empty (nl_addresses lnk) then None
     else do {
       s \<leftarrow> db_neighs db src;
       d \<leftarrow> db_neighs db dst;
       db \<leftarrow> (if na_type (nn_originator s) \<noteq> AF_UNSPEC then unhook_originator l db else Some db);
       db \<leftarrow> (if na_type (nn_originator d) \<noteq> AF_UNSPEC then hook_originator (nn_originator d) l db else Some db);
       db \<leftarrow> upd_neigh src (\<lambda>n. do {
              xs \<leftarrow> list_take_out (nn_links n) l;
              Some (n\<lparr>nn_links := xs\<rparr>) }) db;
       db \<leftarrow> upd_neigh dst (\<lambda>n. Some (n\<lparr>nn_links := nn_links n @ [l]\<rparr>)) db;
       upd_link l (\<lambda>k. Some (k\<lparr>nl_neigh := dst\<rparr>)) db
     }
   }"

definition nhdp_db_neighbor_join :: "ptr \<Rightarrow> ptr \<Rightarrow> nhdp_db \<Rightarrow> nhdp_db option" where
  "nhdp_db_neighbor_join dst src db =
     (if dst = src then Some db
      else do {
        s \<leftarrow> db_neighs db src;
        db \<leftarrow> upd_neigh dst (\<lambda>n. Some (n\<lparr>nn_symmetric := nn_symmetric n + nn_symmetric s\<rparr>)) db;
        db \<leftarrow> for_each (join_link dst src) (nn_links s) db;
        db \<leftarrow> for_each (nhdp_db_neighbor_addr_move dst) (avl_elements (nn_neigh_addresses s)) db;
        nhdp_db_neighbor_remove src db
      })"

definition nhdp_db_neighbor_set_originator :: "ptr \<Rightarrow> netaddr \<Rightarrow> nhdp_db \<Rightarrow> nhdp_db option" where
  "nhdp_db_neighbor_set_originator p originator db = do {
     n \<leftarrow> db_neighs db p;
     if nn_originator n = originator then Some db
     else do {
       db \<leftarrow> (if na_type (nn_originator n) \<noteq> AF_UNSPEC
             then do {
               t \<leftarrow> tree_remove (db_originator_tree db) p;
               for_each unhook_originator (nn_links n) (db\<lparr>db_originator_tree := t\<rparr>)
             }
             else Some db);
       db \<leftarrow> (case nhdp_db_neighbor_get_by_originator db originator of
               None \<Rightarrow> Some db
             | Some q \<Rightarrow> do {
                 t \<leftarrow> tree_remove (db_originator_tree db) q;
                 m \<leftarrow> db_neighs db q;
                 db \<leftarrow> for_each unhook_originator (nn_links m) (db\<lparr>db_originator_tree := t\<rparr>);
                 upd_neigh q (\<lambda>m. Some (m\<lparr>nn_originator := netaddr_invalidate\<rparr>)) db
               });
       db \<leftarrow> upd_neigh p (\<lambda>n. Some (n\<lparr>nn_originator := originator\<rparr>)) db;
       if na_type originator \<noteq> AF_UNSPEC
       then do {
         n \<leftarrow> db_neighs db p;
         for_each (hook_originator originator) (nn_links n)
           (db\<lparr>db_originator_tree := tree_insert (db_originator_tree db) originator p\<rparr>)
       }
       else Some db
     }
   }"

definition nhdp_db_cleanup :: "nhdp_db \<Rightarrow> nhdp_db option" where
  "nhdp_db_cleanup db = for_each nhdp_db_neighbor_remove (db_neigh_list db) db"

end
