(* ===== verification/Nhdp_Inv.thy ===== *)
theory Nhdp_Inv
  imports Nhdp_Ops
begin

text \<open>
  The consistency of the neighborhood database: every tree and list holds exactly the objects whose back
  pointers say so. Every operation keeps it, and in a consistent database no operation follows a pointer
  to a freed object or removes an object from a container that does not hold it.
\<close>

subsection \<open>Containers\<close>

lemma tree_remove_Some: "x \<in> snd ` index_set T \<Longrightarrow> tree_remove T x = Some (avl_remove T x)"
  by (auto simp: tree_remove_def elements_entries)

lemma list_take_out_Some: "x \<in> set xs \<Longrightarrow> list_take_out xs x = Some (remove1 x xs)"
  by (simp add: list_take_out_def)

abbreviation unit_elems :: "'a list \<Rightarrow> (unit \<times> 'a) set" where
  "unit_elems xs \<equiv> Pair () ` set xs"

lemma pair_set_eqI: "(\<And>u y. (u, y) \<in> A \<longleftrightarrow> (u, y) \<in> B) \<Longrightarrow> A = B"
  by auto

interpretation hlist: container distinct unit_elems "\<lambda>_ _. True" "\<lambda>xs _ x. xs @ [x]" "\<lambda>xs x. remove1 x xs"
proof
  fix T :: "'e list" and x :: 'e
  assume d: "distinct T"
  show "distinct (T @ [x])" if "x \<notin> snd ` unit_elems T"
    using d that by (simp add: image_image)
  show "unit_elems (T @ [x]) = insert (k, x) (unit_elems T)" for k
    by simp
  show "distinct (remove1 x T)" by (rule distinct_remove1 [OF d])
  have "(u, y) \<in> unit_elems (remove1 x T) \<longleftrightarrow> (u, y) \<in> {z \<in> unit_elems T. snd z \<noteq> x}" for u y
    by (simp add: image_iff set_remove1_eq [OF d])
  then show "unit_elems (remove1 x T) = {z \<in> unit_elems T. snd z \<noteq> x}"
    by (rule pair_set_eqI)
qed

interpretation htree: container "index_ok avl_comp_netaddr" index_set "\<lambda>T k. avl_find T k = None" tree_insert avl_remove
proof
  fix T :: "(netaddr, ptr) avl_tree" and k x
  assume m: "index_ok avl_comp_netaddr T"
  show "index_ok avl_comp_netaddr (tree_insert T k x)" "index_set (tree_insert T k x) = insert (k, x) (index_set T)"
    if "avl_find T k = None" "x \<notin> snd ` index_set T"
    using addr_index.insert_new [OF m that(1), of x] that(2) by (simp_all add: tree_insert_def elements_entries)
  show "index_ok avl_comp_netaddr (avl_remove T x)" "index_set (avl_remove T x) = {y \<in> index_set T. snd y \<noteq> x}"
    if "x \<in> snd ` index_set T"
    using addr_index.remove_old [OF m, of x] that by (simp_all add: elements_entries)
qed

interpretation hmulti: container "multi_ok avl_comp_netaddr" index_set "\<lambda>_ _. True" tree_insert avl_remove
proof
  fix T :: "(netaddr, ptr) avl_tree" and k x
  assume m: "multi_ok avl_comp_netaddr T"
  show "multi_ok avl_comp_netaddr (tree_insert T k x)" "index_set (tree_insert T k x) = insert (k, x) (index_set T)"
    if "x \<notin> snd ` index_set T"
    using avl.ins_done [of T x k] m that by (auto simp: multi_ok_def tree_insert_def set_ord_insert)
  show "multi_ok avl_comp_netaddr (avl_remove T x)" "index_set (avl_remove T x) = {y \<in> index_set T. snd y \<noteq> x}"
    if "x \<in> snd ` index_set T"
    using avl.del_old [of T x] m that by (auto simp: multi_ok_def)
qed

lemma multi_init: "multi_ok avl_comp_netaddr (avl_init avl_comp_netaddr True)"
  by (simp add: multi_ok_def avl_init_ok avl_comp_netaddr.comparator_axioms)

subsection \<open>Consistency\<close>

text \<open>
  What the back pointers say. The core of a link is its neighbor and its interface; \<open>via\<close> goes from an
  address of a link to the neighbor or the interface of the link.
\<close>

type_synonym link_cores = "ptr \<Rightarrow> (ptr \<times> ptr option) option"

definition link_core :: "nhdp_link \<Rightarrow> ptr \<times> ptr option" where
  "link_core k = (nl_neigh k, nl_local_if k)"

definition neigh_of :: "link_cores \<Rightarrow> ptr \<Rightarrow> (unit \<times> ptr) option" where
  "neigh_of LC l = map_option (\<lambda>(p, i). ((), p)) (LC l)"

definition if_of :: "link_cores \<Rightarrow> ptr \<Rightarrow> (unit \<times> ptr) option" where
  "if_of LC l = LC l \<bind> (\<lambda>(p, i). map_option (Pair ()) i)"

definition via :: "(link_cores \<Rightarrow> ptr \<Rightarrow> (unit \<times> ptr) option) \<Rightarrow> (ptr \<Rightarrow> (netaddr \<times> ptr) option) \<Rightarrow> link_cores
    \<Rightarrow> ptr \<Rightarrow> (netaddr \<times> ptr) option" where
  "via f AC LC x = AC x \<bind> (\<lambda>(k, l). map_option (\<lambda>(_, p). (k, p)) (f LC l))"

definition set_originator_of :: "(ptr \<Rightarrow> netaddr option) \<Rightarrow> ptr \<Rightarrow> netaddr option" where
  "set_originator_of NO p = NO p \<bind> (\<lambda>a. if na_type a = AF_UNSPEC then None else Some a)"

text \<open>\<open>U\<close> is the set of objects that are not hooked into their tree of originators at the moment.\<close>

definition orig_of :: "nhdp_object set \<Rightarrow> (ptr \<Rightarrow> netaddr option) \<Rightarrow> ptr \<Rightarrow> (netaddr \<times> unit) option" where
  "orig_of U NO p = (if Nhdp_Neighbor p \<in> U then None else map_option (\<lambda>a. (a, ())) (set_originator_of NO p))"

definition link_orig :: "nhdp_object set \<Rightarrow> (ptr \<Rightarrow> netaddr option) \<Rightarrow> link_cores \<Rightarrow> ptr \<Rightarrow> (netaddr \<times> ptr) option" where
  "link_orig U NO LC l =
     (if Nhdp_Link l \<in> U then None
      else LC l \<bind> (\<lambda>(p, i). i \<bind> (\<lambda>i. map_option (\<lambda>a. (a, i)) (set_originator_of NO p))))"

definition refs :: "(ptr \<Rightarrow> ('k \<times> ptr) option) \<Rightarrow> (ptr \<Rightarrow> 'c option) \<Rightarrow> bool" where
  "refs M F \<longleftrightarrow> (\<forall>x k p. M x = Some (k, p) \<longrightarrow> F p \<noteq> None)"

definition all_of :: "(ptr \<Rightarrow> ('k \<times> ptr) option) \<Rightarrow> ptr \<Rightarrow> ('k \<times> unit) option" where
  "all_of M x = map_option (\<lambda>(k, p). (k, ())) (M x)"

definition naddr_inv where
  "naddr_inv NT NA XC \<longleftrightarrow> htree.hooked (\<lambda>_. Some NT) (all_of XC) \<and> htree.hooked NA XC \<and> refs XC NA"

definition neigh_inv where
  "neigh_inv U NL OT NO \<longleftrightarrow> distinct NL \<and> set NL = dom NO \<and> htree.hooked (\<lambda>_. Some OT) (orig_of U NO)"

definition link_refs :: "(ptr \<Rightarrow> 'a option) \<Rightarrow> (ptr \<Rightarrow> 'b option) \<Rightarrow> link_cores \<Rightarrow> bool" where
  "link_refs NK IK LC \<longleftrightarrow> (\<forall>l p i. LC l = Some (p, i) \<longrightarrow> p \<in> dom NK \<and> (\<exists>j \<in> dom IK. i = Some j))"

definition link_inv where
  "link_inv LL NK IK LC \<longleftrightarrow> distinct LL \<and> set LL = dom LC \<and> hlist.hooked NK (neigh_of LC) \<and> hlist.hooked IK (if_of LC)
     \<and> link_refs NK IK LC"

definition orig_inv where
  "orig_inv U IO NO LC \<longleftrightarrow> hmulti.hooked IO (link_orig U NO LC)"

definition laddr_inv where
  "laddr_inv LA NLA ILA AC LC \<longleftrightarrow> htree.hooked LA AC \<and> refs AC LA \<and> hmulti.hooked NLA (via neigh_of AC LC)
     \<and> htree.hooked ILA (via if_of AC LC)"

definition l2hop_inv where
  "l2hop_inv LH IH HC LC \<longleftrightarrow> htree.hooked LH HC \<and> refs HC LH \<and> hmulti.hooked IH (via if_of HC LC)"

definition partner_inv :: "(ptr \<Rightarrow> ptr option option) \<Rightarrow> bool" where
  "partner_inv P \<longleftrightarrow> (\<forall>p q. P p = Some (Some q) \<longrightarrow> P q = Some (Some p))"

abbreviation naddr_core :: "nhdp_naddr \<Rightarrow> netaddr \<times> ptr" where "naddr_core a \<equiv> (nx_addr a, nx_neigh a)"
abbreviation laddr_core :: "nhdp_laddr \<Rightarrow> netaddr \<times> ptr" where "laddr_core a \<equiv> (ld_addr a, ld_link a)"
abbreviation l2hop_core :: "nhdp_l2hop \<Rightarrow> netaddr \<times> ptr" where "l2hop_core a \<equiv> (l2_addr a, l2_link a)"

definition stores_inv where
  "stores_inv U NT NL OT LL N L A H X I \<longleftrightarrow>
     naddr_inv NT (proj nn_neigh_addresses N) (proj naddr_core X)
     \<and> neigh_inv U NL OT (proj nn_originator N)
     \<and> link_inv LL (proj nn_links N) (proj ni_links I) (proj link_core L)
     \<and> orig_inv U (proj ni_link_originators I) (proj nn_originator N) (proj link_core L)
     \<and> laddr_inv (proj nl_addresses L) (proj nn_link_addresses N) (proj ni_link_addresses I) (proj laddr_core A) (proj link_core L)
     \<and> l2hop_inv (proj nl_2hop L) (proj ni_if_twohops I) (proj l2hop_core H) (proj link_core L)
     \<and> partner_inv (proj nn_dualstack_partner N) \<and> partner_inv (proj nl_dualstack_partner L)"

definition nhdp_inv :: "nhdp_object set \<Rightarrow> nhdp_db \<Rightarrow> bool" where
  "nhdp_inv U db \<longleftrightarrow> stores_inv U (db_naddr_tree db) (db_neigh_list db) (db_originator_tree db) (db_link_list db)
     (db_neighs db) (db_links db) (db_laddrs db) (db_l2hops db) (db_naddrs db) (db_interfaces db)"

abbreviation nhdp_ok :: "nhdp_db \<Rightarrow> bool" where
  "nhdp_ok \<equiv> nhdp_inv {}"

lemma nhdp_event_simps [simp]:
  "db_naddr_tree (nhdp_event v x db) = db_naddr_tree db" "db_neigh_list (nhdp_event v x db) = db_neigh_list db"
  "db_originator_tree (nhdp_event v x db) = db_originator_tree db" "db_link_list (nhdp_event v x db) = db_link_list db"
  "db_neighs (nhdp_event v x db) = db_neighs db" "db_links (nhdp_event v x db) = db_links db"
  "db_laddrs (nhdp_event v x db) = db_laddrs db" "db_l2hops (nhdp_event v x db) = db_l2hops db"
  "db_naddrs (nhdp_event v x db) = db_naddrs db" "db_interfaces (nhdp_event v x db) = db_interfaces db"
  by (simp_all add: nhdp_event_def)

lemma nhdp_inv_event [simp]: "nhdp_inv U (nhdp_event v x db) = nhdp_inv U db"
  by (simp add: nhdp_inv_def)

text \<open>A database without objects, with whatever interfaces.\<close>

definition bare_interface :: "nhdp_interface \<Rightarrow> bool" where
  "bare_interface f \<longleftrightarrow> ni_links f = [] \<and> ni_link_addresses f = avl_init avl_comp_netaddr False
     \<and> ni_link_originators f = avl_init avl_comp_netaddr True \<and> ni_if_twohops f = avl_init avl_comp_netaddr True"

lemma nhdp_db_init_ok:
  assumes "\<forall>i f. I i = Some f \<longrightarrow> bare_interface f"
  shows "nhdp_ok (nhdp_db_init\<lparr>db_interfaces := I\<rparr>)"
proof -
  have I: "\<exists>f. I i = Some f \<and> bare_interface f \<and> g f = T" if "proj g I i = Some T" for g :: "nhdp_interface \<Rightarrow> 'a" and i T
    using that assms by (auto simp: proj_def)
  have "link_inv [] (\<lambda>_. None) (proj ni_links I) (\<lambda>_. None)"
    using I [of ni_links] by (fastforce simp: link_inv_def link_refs_def hlist.hooked_def neigh_of_def if_of_def bare_interface_def)
  moreover have "orig_inv {} (proj ni_link_originators I) (\<lambda>_. None) (\<lambda>_. None)"
    using I [of ni_link_originators]
    by (fastforce simp: orig_inv_def hmulti.hooked_def link_orig_def bare_interface_def multi_init)
  moreover have "laddr_inv (\<lambda>_. None) (\<lambda>_. None) (proj ni_link_addresses I) (\<lambda>_. None) (\<lambda>_. None)"
    using I [of ni_link_addresses]
    by (fastforce simp: laddr_inv_def htree.hooked_def hmulti.hooked_def via_def refs_def bare_interface_def)
  moreover have "l2hop_inv (\<lambda>_. None) (proj ni_if_twohops I) (\<lambda>_. None) (\<lambda>_. None)"
    using I [of ni_if_twohops]
    by (fastforce simp: l2hop_inv_def htree.hooked_def hmulti.hooked_def via_def refs_def bare_interface_def multi_init)
  moreover have "naddr_inv (avl_init avl_comp_netaddr False) (\<lambda>_. None) (\<lambda>_. None)"
    "neigh_inv {} [] (avl_init avl_comp_netaddr False) (\<lambda>_. None)" "partner_inv (\<lambda>_. None)"
    by (auto simp: naddr_inv_def neigh_inv_def htree.hooked_def all_of_def refs_def orig_of_def set_originator_of_def
        partner_inv_def)
  ultimately show ?thesis by (simp add: nhdp_inv_def nhdp_db_init_def stores_inv_def)
qed

subsection \<open>Addresses of neighbors\<close>

lemma const_hookedD:
  assumes "htree.hooked (\<lambda>_ :: unit. Some T) M"
  shows "index_ok avl_comp_netaddr T" "(k, x) \<in> index_set T \<longleftrightarrow> M x = Some (k, ())"
  using assms by (auto simp: htree.hooked_def)

lemma const_hook:
  assumes "htree.hooked (\<lambda>_ :: unit. Some T) M" "M x = None" "avl_find T k = None"
  shows "htree.hooked (\<lambda>_ :: unit. Some (tree_insert T k x)) (M(x \<mapsto> (k, ())))"
  using htree.hook [OF assms(1) _ assms(2,3), of "()"] by (simp add: fun_upd_def)

lemma const_unhook:
  assumes "htree.hooked (\<lambda>_ :: unit. Some T) M" "M x = Some (k, ())"
  shows "x \<in> snd ` index_set T" "htree.hooked (\<lambda>_ :: unit. Some (avl_remove T x)) (M(x := None))"
  using htree.unhook [OF assms(1) _ assms(2)] by (simp_all add: fun_upd_def)

lemma naddr_invD:
  assumes "naddr_inv NT NA XC"
  shows "htree.hooked (\<lambda>_. Some NT) (all_of XC)" "htree.hooked NA XC" "refs XC NA"
    "avl_find NT k = None \<longleftrightarrow> (\<forall>x p. XC x \<noteq> Some (k, p))"
proof -
  show h: "htree.hooked (\<lambda>_. Some NT) (all_of XC)" "htree.hooked NA XC" "refs XC NA"
    using assms by (simp_all add: naddr_inv_def)
  note D = const_hookedD [OF h(1)]
  show "avl_find NT k = None \<longleftrightarrow> (\<forall>x p. XC x \<noteq> Some (k, p))"
    using addr_index.find_None [OF D(1), of k] by (auto simp: D(2) all_of_def)
qed

lemma hooked_find_None:
  assumes "htree.hooked F M" "F p = Some T"
  shows "avl_find T k = None \<longleftrightarrow> (\<forall>x. M x \<noteq> Some (k, p))"
  using addr_index.find_None [OF htree.hookedD(1) [OF assms]] by (simp add: htree.hookedD(2) [OF assms])

lemma hooked_find_Some:
  assumes "htree.hooked F M" "F p = Some T"
  shows "avl_find T k = Some x \<longleftrightarrow> M x = Some (k, p)"
  using addr_index.find_iff [OF htree.hookedD(1) [OF assms]] by (simp add: htree.hookedD(2) [OF assms])

lemma all_of_upd:
  "all_of (XC(x \<mapsto> (k, p))) = (all_of XC)(x \<mapsto> (k, ()))" "all_of (XC(x := None)) = (all_of XC)(x := None)"
  by (auto simp: all_of_def)

lemma refs_new: "refs M F \<Longrightarrow> F p \<noteq> None \<Longrightarrow> refs (M(x \<mapsto> (k, p))) F"
  "refs M F \<Longrightarrow> refs (M(x := None)) F" "refs M F \<Longrightarrow> refs M (F(q \<mapsto> T))"
  by (auto simp: refs_def)

lemma refs_free: "refs M F \<Longrightarrow> (\<And>x k. M x \<noteq> Some (k, p)) \<Longrightarrow> refs M (F(p := None))"
  by (auto simp: refs_def)

lemma naddr_inv_add:
  assumes inv: "naddr_inv NT NA XC" and T: "NA p = Some T" and x: "XC x = None" and k: "avl_find NT k = None"
  shows "naddr_inv (tree_insert NT k x) (NA(p \<mapsto> tree_insert T k x)) (XC(x \<mapsto> (k, p)))"
proof -
  note D = naddr_invD [OF inv]
  have "avl_find T k = None" using k D(4) by (simp add: hooked_find_None [OF D(2) T])
  then show ?thesis
    using const_hook [OF D(1) _ k, of x] htree.hook [OF D(2) T x, of k] x D(3) T
    by (simp add: naddr_inv_def all_of_upd refs_new) (simp add: all_of_def)
qed

lemma naddr_inv_remove:
  assumes inv: "naddr_inv NT NA XC" and x: "XC x = Some (k, p)" and T: "NA p = Some T"
  shows "x \<in> snd ` index_set NT" "x \<in> snd ` index_set T"
    "naddr_inv (avl_remove NT x) (NA(p \<mapsto> avl_remove T x)) (XC(x := None))"
proof -
  note D = naddr_invD [OF inv]
  have a: "all_of XC x = Some (k, ())" using x by (simp add: all_of_def)
  note u = const_unhook [OF D(1) a] htree.unhook [OF D(2) T x]
  show "x \<in> snd ` index_set NT" "x \<in> snd ` index_set T" using u by simp_all
  show "naddr_inv (avl_remove NT x) (NA(p \<mapsto> avl_remove T x)) (XC(x := None))"
    using u D(3) by (simp add: naddr_inv_def all_of_upd refs_new)
qed

lemma naddr_inv_move:
  assumes inv: "naddr_inv NT NA XC" and x: "XC x = Some (k, q)" and S: "NA q = Some S"
    and T: "(NA(q \<mapsto> avl_remove S x)) p = Some T"
  shows "x \<in> snd ` index_set S" "naddr_inv NT (NA(q \<mapsto> avl_remove S x, p \<mapsto> tree_insert T k x)) (XC(x \<mapsto> (k, p)))"
proof -
  note D = naddr_invD [OF inv] and u = htree.unhook [OF naddr_invD(2) [OF inv] S x]
  show "x \<in> snd ` index_set S" by (rule u)
  have "(XC(x := None)) y \<noteq> Some (k, r)" for y r
  proof
    assume "(XC(x := None)) y = Some (k, r)"
    then have y: "y \<noteq> x" "all_of XC y = Some (k, ())" by (auto simp: all_of_def split: if_splits)
    moreover have "all_of XC x = Some (k, ())" using x by (simp add: all_of_def)
    ultimately show False
      using addr_index.key_fun [OF const_hookedD(1) [OF D(1)], of k x y] const_hookedD(2) [OF D(1), of k] by simp
  qed
  then have "avl_find T k = None" using hooked_find_None [OF u(2) T, of k] by simp
  then have "htree.hooked (NA(q \<mapsto> avl_remove S x, p \<mapsto> tree_insert T k x)) ((XC(x := None))(x \<mapsto> (k, p)))"
    by (intro htree.hook [OF u(2) T]) simp_all
  moreover have "all_of (XC(x \<mapsto> (k, p))) = all_of XC" using x by (auto simp: all_of_def)
  moreover have "refs (XC(x \<mapsto> (k, p))) (NA(q \<mapsto> avl_remove S x, p \<mapsto> tree_insert T k x))"
    using D(3) by (intro refs_new(1) refs_new(3)) simp_all
  ultimately show "naddr_inv NT (NA(q \<mapsto> avl_remove S x, p \<mapsto> tree_insert T k x)) (XC(x \<mapsto> (k, p)))"
    using D(1) by (simp add: naddr_inv_def)
qed

lemma empty_tree: "index_ok avl_comp_netaddr (avl_init avl_comp_netaddr d)" "index_set (avl_init c d) = {}"
  by simp_all

lemma naddr_inv_new: "naddr_inv NT NA XC \<Longrightarrow> NA p = None \<Longrightarrow> naddr_inv NT (NA(p \<mapsto> avl_init avl_comp_netaddr d)) XC"
  unfolding naddr_inv_def refs_def
  by (fastforce intro: htree.new_owner)

lemma naddr_inv_free:
  "naddr_inv NT NA XC \<Longrightarrow> NA p = Some T \<Longrightarrow> index_set T = {} \<Longrightarrow> naddr_inv NT (NA(p := None)) XC"
  using htree.hookedD(2) [of NA XC p T]
  by (auto simp: naddr_inv_def htree.free_owner intro!: refs_free)

subsection \<open>Neighbors\<close>

lemma orig_of_upd:
  "orig_of U (NO(p \<mapsto> a)) = (orig_of U NO)(p := if na_type a = AF_UNSPEC \<or> Nhdp_Neighbor p \<in> U then None else Some (a, ()))"
  "orig_of U (NO(p := None)) = (orig_of U NO)(p := None)"
  by (auto simp: orig_of_def set_originator_of_def)

lemma orig_of_Some: "orig_of U NO p = Some (a, u) \<longleftrightarrow> Nhdp_Neighbor p \<notin> U \<and> NO p = Some a \<and> na_type a \<noteq> AF_UNSPEC"
  by (auto simp: orig_of_def set_originator_of_def split: bind_splits if_splits)

lemma orig_of_None: "orig_of U NO p = None \<longleftrightarrow> Nhdp_Neighbor p \<in> U \<or> (\<forall>a. NO p = Some a \<longrightarrow> na_type a = AF_UNSPEC)"
  by (auto simp: orig_of_def set_originator_of_def split: bind_splits if_splits)

lemma type_unspec [simp]: "na_type NETADDR_UNSPEC = AF_UNSPEC" "na_type netaddr_invalidate = AF_UNSPEC"
  by (simp_all add: NETADDR_UNSPEC_def netaddr_invalidate_def na_const_def AF_UNSPEC_def)

lemma neigh_inv_new:
  assumes inv: "neigh_inv U NL OT NO" and p: "NO p = None" and a: "na_type a = AF_UNSPEC"
  shows "neigh_inv U (NL @ [p]) OT (NO(p \<mapsto> a))"
proof -
  have "orig_of U (NO(p \<mapsto> a)) = orig_of U NO"
    using p a by (simp add: orig_of_upd fun_upd_idem orig_of_None)
  then show ?thesis using inv p by (auto simp: neigh_inv_def)
qed

lemma orig_of_objects [simp]:
  "orig_of (insert (Nhdp_Link l) U) NO = orig_of U NO" "orig_of (U - {Nhdp_Link l}) NO = orig_of U NO"
  "orig_of (insert (Nhdp_Neighbor p) U) NO = (orig_of U NO)(p := None)"
  by (auto simp: orig_of_def fun_eq_iff)

lemma orig_of_hook: "Nhdp_Neighbor p \<in> U \<Longrightarrow> orig_of (U - {Nhdp_Neighbor p}) NO = (orig_of U NO)(p := orig_of {} NO p)"
  by (auto simp: orig_of_def fun_eq_iff)

lemma neigh_inv_same: "neigh_inv U NL OT NO \<Longrightarrow> orig_of U' NO' = orig_of U NO \<Longrightarrow> dom NO' = dom NO \<Longrightarrow> neigh_inv U' NL OT NO'"
  by (simp add: neigh_inv_def)

lemma neigh_inv_link [simp]:
  "neigh_inv (insert (Nhdp_Link l) U) NL OT NO = neigh_inv U NL OT NO" "neigh_inv (U - {Nhdp_Link l}) NL OT NO = neigh_inv U NL OT NO"
  by (simp_all add: neigh_inv_def)

text \<open>The originator of a neighbor goes and comes.\<close>

lemma neigh_inv_unhook:
  assumes inv: "neigh_inv U NL OT NO" and p: "NO p = Some a" "na_type a \<noteq> AF_UNSPEC" "Nhdp_Neighbor p \<notin> U"
  shows "p \<in> snd ` index_set OT" "neigh_inv (insert (Nhdp_Neighbor p) U) NL (avl_remove OT p) NO"
proof -
  note I = inv [unfolded neigh_inv_def]
  have s: "orig_of U NO p = Some (a, ())" using p by (simp add: orig_of_Some)
  note u = const_unhook [of OT "orig_of U NO" p a]
  show "p \<in> snd ` index_set OT" using u(1) I s by simp
  show "neigh_inv (insert (Nhdp_Neighbor p) U) NL (avl_remove OT p) NO"
    using u(2) I s by (simp add: neigh_inv_def)
qed

lemma neigh_inv_hook:
  assumes inv: "neigh_inv U NL OT NO" and p: "NO p = Some a" "na_type a \<noteq> AF_UNSPEC" "Nhdp_Neighbor p \<in> U"
    and k: "avl_find OT a = None"
  shows "neigh_inv (U - {Nhdp_Neighbor p}) NL (tree_insert OT a p) NO"
proof -
  note I = inv [unfolded neigh_inv_def]
  have "orig_of U NO p = None" "orig_of {} NO p = Some (a, ())" using p by (simp_all add: orig_of_None orig_of_Some)
  then show ?thesis
    using const_hook [of OT "orig_of U NO" p a] I p(3) k by (simp add: neigh_inv_def orig_of_hook)
qed

lemma neigh_inv_change: "neigh_inv U NL OT NO \<Longrightarrow> Nhdp_Neighbor p \<in> U \<Longrightarrow> NO p = Some a \<Longrightarrow> neigh_inv U NL OT (NO(p \<mapsto> b))"
  by (erule neigh_inv_same) (auto simp: orig_of_upd fun_upd_idem orig_of_None)

lemma neigh_inv_none:
  assumes "neigh_inv U NL OT NO" "NO p = Some a" "na_type a = AF_UNSPEC"
  shows "neigh_inv (insert (Nhdp_Neighbor p) U) NL OT NO" "neigh_inv (U - {Nhdp_Neighbor p}) NL OT NO"
proof -
  have o: "orig_of V NO p = None" for V using assms(2,3) by (simp add: orig_of_None)
  show "neigh_inv (insert (Nhdp_Neighbor p) U) NL OT NO"
    by (rule neigh_inv_same [OF assms(1)]) (simp_all add: fun_upd_idem o)
  show "neigh_inv (U - {Nhdp_Neighbor p}) NL OT NO"
    by (rule neigh_inv_same [OF assms(1)])
      (use o in \<open>cases "Nhdp_Neighbor p \<in> U"; simp add: orig_of_hook fun_upd_idem\<close>)+
qed

lemma neigh_inv_free:
  assumes inv: "neigh_inv (insert (Nhdp_Neighbor p) U) NL OT NO" and p: "NO p = Some a"
  shows "p \<in> set NL" "neigh_inv U (remove1 p NL) OT (NO(p := None))"
  using inv p by (auto simp: neigh_inv_def orig_of_upd)

lemma originator_find:
  assumes "neigh_inv U NL OT NO"
  shows "avl_find OT a = Some p \<longleftrightarrow> Nhdp_Neighbor p \<notin> U \<and> NO p = Some a \<and> na_type a \<noteq> AF_UNSPEC"
  using hooked_find_Some [of "\<lambda>_. Some OT" "orig_of U NO" "()" OT a p] assms
  by (simp add: neigh_inv_def orig_of_Some)

subsection \<open>Links\<close>

lemma neigh_of_upd:
  "neigh_of (LC(l \<mapsto> (p, i))) = (neigh_of LC)(l \<mapsto> ((), p))" "neigh_of (LC(l := None)) = (neigh_of LC)(l := None)"
  by (auto simp: neigh_of_def)

lemma if_of_upd:
  "if_of (LC(l \<mapsto> (p, Some i))) = (if_of LC)(l \<mapsto> ((), i))" "if_of (LC(l := None)) = (if_of LC)(l := None)"
  by (auto simp: if_of_def)

lemma neigh_of_Some: "neigh_of LC l = Some (u, p) \<longleftrightarrow> (\<exists>i. LC l = Some (p, i))"
  by (auto simp: neigh_of_def)

lemma if_of_Some: "if_of LC l = Some (u, i) \<longleftrightarrow> (\<exists>p. LC l = Some (p, Some i))"
  by (auto simp: if_of_def split: bind_splits)

lemma of_None: "LC l = None \<Longrightarrow> neigh_of LC l = None" "LC l = None \<Longrightarrow> if_of LC l = None"
  by (simp_all add: neigh_of_def if_of_def)

lemma link_invD:
  assumes "link_inv LL NK IK LC"
  shows "distinct LL" "set LL = dom LC" "hlist.hooked NK (neigh_of LC)" "hlist.hooked IK (if_of LC)"
    "link_refs NK IK LC"
  using assms unfolding link_inv_def by blast+

lemma link_refs_mono:
  assumes "link_refs NK IK LC" "dom NK \<subseteq> dom NK'" "dom IK \<subseteq> dom IK'"
    "\<And>l. LC' l = LC l \<or> LC' l = None \<or> (\<exists>p j. LC' l = Some (p, Some j) \<and> p \<in> dom NK' \<and> j \<in> dom IK')"
  shows "link_refs NK' IK' LC'"
  unfolding link_refs_def
proof (intro allI impI)
  fix l p i assume l: "LC' l = Some (p, i)"
  from assms(4) [of l] show "p \<in> dom NK' \<and> (\<exists>j \<in> dom IK'. i = Some j)"
  proof (elim disjE)
    assume "LC' l = LC l"
    then have "LC l = Some (p, i)" using l by simp
    then have "p \<in> dom NK" "\<exists>j \<in> dom IK. i = Some j" using assms(1) unfolding link_refs_def by blast+
    then show ?thesis using assms(2,3) by blast
  qed (use l in auto)
qed

lemma link_refsD: "link_refs NK IK LC \<Longrightarrow> LC l = Some (p, i) \<Longrightarrow> \<exists>x j y. NK p = Some x \<and> i = Some j \<and> IK j = Some y"
  by (fastforce simp: link_refs_def)

lemma link_inv_members:
  assumes inv: "link_inv LL NK IK LC"
  shows "NK p = Some xs \<Longrightarrow> l \<in> set xs \<longleftrightarrow> (\<exists>i. LC l = Some (p, i))" "NK p = Some xs \<Longrightarrow> distinct xs"
    "IK j = Some ys \<Longrightarrow> l \<in> set ys \<longleftrightarrow> (\<exists>p. LC l = Some (p, Some j))" "IK j = Some ys \<Longrightarrow> distinct ys"
proof -
  note D = link_invD [OF inv]
  show "NK p = Some xs \<Longrightarrow> l \<in> set xs \<longleftrightarrow> (\<exists>i. LC l = Some (p, i))"
    using hlist.hookedD(2) [OF D(3), of p xs "()" l] by (auto simp: neigh_of_Some)
  show "IK j = Some ys \<Longrightarrow> l \<in> set ys \<longleftrightarrow> (\<exists>p. LC l = Some (p, Some j))"
    using hlist.hookedD(2) [OF D(4), of j ys "()" l] by (auto simp: if_of_Some)
qed (use hlist.hookedD(1) [OF link_invD(3) [OF inv]] hlist.hookedD(1) [OF link_invD(4) [OF inv]] in blast)+

lemma link_inv_add:
  assumes inv: "link_inv LL NK IK LC" and l: "LC l = None" and p: "NK p = Some xs" and i: "IK i = Some ys"
  shows "link_inv (LL @ [l]) (NK(p \<mapsto> xs @ [l])) (IK(i \<mapsto> ys @ [l])) (LC(l \<mapsto> (p, Some i)))"
proof -
  note D = link_invD [OF inv]
  have n: "neigh_of LC l = None" "if_of LC l = None" using l by (simp_all add: of_None)
  have "link_refs (NK(p \<mapsto> xs @ [l])) (IK(i \<mapsto> ys @ [l])) (LC(l \<mapsto> (p, Some i)))"
    by (rule link_refs_mono [OF D(5)]) auto
  then show ?thesis
    using D(1,2) l hlist.hook [OF D(3) p n(1)] hlist.hook [OF D(4) i n(2)]
    by (auto simp: link_inv_def neigh_of_upd if_of_upd)
qed

lemma link_inv_remove:
  assumes inv: "link_inv LL NK IK LC" and l: "LC l = Some (p, Some i)" and p: "NK p = Some xs" and i: "IK i = Some ys"
  shows "l \<in> set LL" "l \<in> set xs" "l \<in> set ys"
    "link_inv (remove1 l LL) (NK(p \<mapsto> remove1 l xs)) (IK(i \<mapsto> remove1 l ys)) (LC(l := None))"
proof -
  note D = link_invD [OF inv]
  have n: "neigh_of LC l = Some ((), p)" "if_of LC l = Some ((), i)"
    using l by (simp_all add: neigh_of_Some if_of_Some)
  note u = hlist.unhook [OF D(3) p n(1)] hlist.unhook [OF D(4) i n(2)]
  show "l \<in> set LL" "l \<in> set xs" "l \<in> set ys" using D(2) l link_inv_members [OF inv] p i by auto
  have r: "link_refs (NK(p \<mapsto> remove1 l xs)) (IK(i \<mapsto> remove1 l ys)) (LC(l := None))"
    by (rule link_refs_mono [OF D(5)]) auto
  show "link_inv (remove1 l LL) (NK(p \<mapsto> remove1 l xs)) (IK(i \<mapsto> remove1 l ys)) (LC(l := None))"
    using D(1,2) u(2,4) r by (auto simp: link_inv_def neigh_of_upd if_of_upd)
qed

lemma link_inv_move:
  assumes inv: "link_inv LL NK IK LC" and l: "LC l = Some (p, Some i)" and p: "NK p = Some xs"
    and q: "(NK(p \<mapsto> remove1 l xs)) q = Some ys"
  shows "l \<in> set xs" "link_inv LL (NK(p \<mapsto> remove1 l xs, q \<mapsto> ys @ [l])) IK (LC(l \<mapsto> (q, Some i)))"
proof -
  note D = link_invD [OF inv]
  have n: "neigh_of LC l = Some ((), p)" using l by (simp add: neigh_of_Some)
  note u = hlist.unhook [OF D(3) p n]
  have "hlist.hooked (NK(p \<mapsto> remove1 l xs, q \<mapsto> ys @ [l])) ((neigh_of LC)(l := None, l \<mapsto> ((), q)))"
    by (rule hlist.hook [OF u(2) q]) simp_all
  moreover have "if_of (LC(l \<mapsto> (q, Some i))) = if_of LC"
    using l by (simp add: if_of_upd fun_upd_idem if_of_Some)
  moreover have "set LL = dom (LC(l \<mapsto> (q, Some i)))" using D(2) l by auto
  moreover have "link_refs (NK(p \<mapsto> remove1 l xs, q \<mapsto> ys @ [l])) IK (LC(l \<mapsto> (q, Some i)))"
    by (rule link_refs_mono [OF D(5)]) (use link_refsD [OF D(5) l] in auto)
  ultimately show "link_inv LL (NK(p \<mapsto> remove1 l xs, q \<mapsto> ys @ [l])) IK (LC(l \<mapsto> (q, Some i)))"
    using D(1,4) by (simp add: link_inv_def neigh_of_upd)
  show "l \<in> set xs" using link_inv_members(1) [OF inv p] l by auto
qed

lemma link_inv_new_neighbor: "link_inv LL NK IK LC \<Longrightarrow> NK p = None \<Longrightarrow> link_inv LL (NK(p \<mapsto> [])) IK LC"
proof -
  assume inv: "link_inv LL NK IK LC" and p: "NK p = None"
  note D = link_invD [OF inv]
  have "hlist.hooked (NK(p \<mapsto> [])) (neigh_of LC)"
    by (rule hlist.new_owner [OF D(3)]) (use link_refsD [OF D(5)] p in \<open>fastforce simp: neigh_of_Some\<close>)+
  moreover have "link_refs (NK(p \<mapsto> [])) IK LC" by (rule link_refs_mono [OF D(5)]) auto
  ultimately show ?thesis using D by (simp add: link_inv_def)
qed

lemma link_inv_free_neighbor: "link_inv LL NK IK LC \<Longrightarrow> NK p = Some [] \<Longrightarrow> link_inv LL (NK(p := None)) IK LC"
proof -
  assume inv: "link_inv LL NK IK LC" and p: "NK p = Some []"
  note D = link_invD [OF inv]
  have "LC l \<noteq> Some (p, i)" for l i using link_inv_members(1) [OF inv p, of l] by auto
  then have "link_refs (NK(p := None)) IK LC" using D(5) by (fastforce simp: link_refs_def)
  then show ?thesis using D by (simp add: link_inv_def hlist.free_owner)
qed

subsection \<open>Originators of links\<close>

lemma link_orig_Some:
  "link_orig U NO LC l = Some (a, i) \<longleftrightarrow> Nhdp_Link l \<notin> U \<and> (\<exists>p. LC l = Some (p, Some i) \<and> NO p = Some a \<and> na_type a \<noteq> AF_UNSPEC)"
  by (auto simp: link_orig_def set_originator_of_def split: bind_splits if_splits)

lemma link_orig_None:
  "link_orig U NO LC l = None \<longleftrightarrow> Nhdp_Link l \<in> U \<or> (\<forall>a i p. LC l = Some (p, Some i) \<longrightarrow> NO p = Some a \<longrightarrow> na_type a = AF_UNSPEC)"
  by (cases "Nhdp_Link l \<in> U")
    (auto simp: link_orig_def set_originator_of_def split: bind_splits if_splits)

lemma link_orig_cong:
  "(\<And>l. Nhdp_Link l \<notin> U \<Longrightarrow> LC' l = LC l) \<Longrightarrow> link_orig U NO LC' = link_orig U NO LC"
  by (simp add: link_orig_def fun_eq_iff)

lemma orig_inv_hook:
  assumes inv: "orig_inv U IO NO LC" and T: "IO i = Some T" and l: "link_orig U NO LC l = None"
    and n: "link_orig U' NO' LC' = (link_orig U NO LC)(l \<mapsto> (a, i))"
  shows "orig_inv U' (IO(i \<mapsto> tree_insert T a l)) NO' LC'"
  using hmulti.hook [OF inv [unfolded orig_inv_def] T l, of a] n by (simp add: orig_inv_def)

lemma orig_inv_unhook:
  assumes inv: "orig_inv U IO NO LC" and T: "IO i = Some T" and l: "link_orig U NO LC l = Some (a, i)"
    and n: "link_orig U' NO' LC' = (link_orig U NO LC)(l := None)"
  shows "l \<in> snd ` index_set T" "orig_inv U' (IO(i \<mapsto> avl_remove T l)) NO' LC'"
  using hmulti.unhook [OF inv [unfolded orig_inv_def] T l] n by (simp_all add: orig_inv_def)

lemma orig_inv_same: "orig_inv U IO NO LC \<Longrightarrow> link_orig U' NO' LC' = link_orig U NO LC \<Longrightarrow> orig_inv U' IO NO' LC'"
  by (simp add: orig_inv_def)

subsection \<open>Addresses of links and two-hop addresses\<close>

lemma via_upd:
  "via f (AC(x \<mapsto> (k, l))) LC = (via f AC LC)(x := map_option (\<lambda>(_, p). (k, p)) (f LC l))"
  "via f (AC(x := None)) LC = (via f AC LC)(x := None)"
  by (auto simp: via_def fun_eq_iff)

lemma via_Some: "via f AC LC x = Some (k, p) \<longleftrightarrow> (\<exists>l u. AC x = Some (k, l) \<and> f LC l = Some (u, p))"
  by (auto simp: via_def split: bind_splits)

lemma via_None: "AC x = None \<Longrightarrow> via f AC LC x = None"
  by (simp add: via_def)

lemma via_cong: "(\<And>x k l. AC x = Some (k, l) \<Longrightarrow> f LC' l = f LC l) \<Longrightarrow> via f AC LC' = via f AC LC"
  by (auto simp: via_def fun_eq_iff intro!: Option.bind_cong split: prod.splits)

lemma laddr_invD:
  assumes "laddr_inv LA NLA ILA AC LC"
  shows "htree.hooked LA AC" "refs AC LA" "hmulti.hooked NLA (via neigh_of AC LC)" "htree.hooked ILA (via if_of AC LC)"
  using assms by (simp_all add: laddr_inv_def)

lemma laddr_inv_add:
  assumes inv: "laddr_inv LA NLA ILA AC LC" and l: "LC l = Some (p, Some i)" and x: "AC x = None"
    and T: "LA l = Some T" "NLA p = Some S" "ILA i = Some U" and k: "avl_find U k = None"
  shows "laddr_inv (LA(l \<mapsto> tree_insert T k x)) (NLA(p \<mapsto> tree_insert S k x)) (ILA(i \<mapsto> tree_insert U k x)) (AC(x \<mapsto> (k, l))) LC"
proof -
  note D = laddr_invD [OF inv]
  have n: "neigh_of LC l = Some ((), p)" "if_of LC l = Some ((), i)" using l by (simp_all add: neigh_of_Some if_of_Some)
  have "AC y \<noteq> Some (k, l)" for y
  proof
    assume "AC y = Some (k, l)"
    then have "via if_of AC LC y = Some (k, i)" using n by (auto simp: via_Some)
    then show False using k hooked_find_None [OF D(4) T(3), of k] by simp
  qed
  then have "avl_find T k = None" using hooked_find_None [OF D(1) T(1), of k] by simp
  then show ?thesis
    using htree.hook [OF D(1) T(1) x, of k] hmulti.hook [OF D(3) T(2), of x k] htree.hook [OF D(4) T(3), of x k]
      k n D(2) T(1) via_None [where AC = AC, OF x]
    by (simp add: laddr_inv_def via_upd refs_new)
qed

lemma laddr_inv_remove:
  assumes inv: "laddr_inv LA NLA ILA AC LC" and x: "AC x = Some (k, l)" and l: "LC l = Some (p, Some i)"
    and T: "LA l = Some T" "NLA p = Some S" "ILA i = Some U"
  shows "x \<in> snd ` index_set T" "x \<in> snd ` index_set S" "x \<in> snd ` index_set U"
    "laddr_inv (LA(l \<mapsto> avl_remove T x)) (NLA(p \<mapsto> avl_remove S x)) (ILA(i \<mapsto> avl_remove U x)) (AC(x := None)) LC"
proof -
  note D = laddr_invD [OF inv]
  have v: "via neigh_of AC LC x = Some (k, p)" "via if_of AC LC x = Some (k, i)"
    using x l by (auto simp: via_Some neigh_of_Some if_of_Some)
  note u = htree.unhook [OF D(1) T(1) x] hmulti.unhook [OF D(3) T(2) v(1)] htree.unhook [OF D(4) T(3) v(2)]
  show "x \<in> snd ` index_set T" "x \<in> snd ` index_set S" "x \<in> snd ` index_set U" using u by simp_all
  show "laddr_inv (LA(l \<mapsto> avl_remove T x)) (NLA(p \<mapsto> avl_remove S x)) (ILA(i \<mapsto> avl_remove U x)) (AC(x := None)) LC"
    using u D(2) by (simp add: laddr_inv_def via_upd refs_new)
qed

lemma laddr_inv_cong:
  assumes "laddr_inv LA NLA ILA AC LC" "\<And>x k l. AC x = Some (k, l) \<Longrightarrow> LC' l = LC l"
  shows "laddr_inv LA NLA ILA AC LC'"
proof -
  have "via neigh_of AC LC' = via neigh_of AC LC" "via if_of AC LC' = via if_of AC LC"
    using assms(2) by (auto intro!: via_cong simp: neigh_of_def if_of_def)
  then show ?thesis using assms(1) by (simp add: laddr_inv_def)
qed

lemma laddr_inv_new_link:
  "laddr_inv LA NLA ILA AC LC \<Longrightarrow> LA l = None \<Longrightarrow> laddr_inv (LA(l \<mapsto> avl_init avl_comp_netaddr False)) NLA ILA AC LC"
  by (fastforce simp: laddr_inv_def refs_def intro: htree.new_owner)

lemma laddr_inv_free_link:
  "laddr_inv LA NLA ILA AC LC \<Longrightarrow> (\<And>x k. AC x \<noteq> Some (k, l)) \<Longrightarrow> laddr_inv (LA(l := None)) NLA ILA AC LC"
  by (auto simp: laddr_inv_def htree.free_owner intro!: refs_free)

lemma laddr_inv_new_neighbor:
  assumes "laddr_inv LA NLA ILA AC LC" "\<And>l i. LC l \<noteq> Some (p, i)"
  shows "laddr_inv LA (NLA(p \<mapsto> avl_init avl_comp_netaddr True)) ILA AC LC"
  using assms
  by (auto simp: laddr_inv_def multi_init via_Some neigh_of_Some intro!: hmulti.new_owner)

lemma laddr_inv_free_neighbor: "laddr_inv LA NLA ILA AC LC \<Longrightarrow> laddr_inv LA (NLA(p := None)) ILA AC LC"
  by (simp add: laddr_inv_def hmulti.free_owner)

lemma l2hop_invD:
  assumes "l2hop_inv LH IH HC LC"
  shows "htree.hooked LH HC" "refs HC LH" "hmulti.hooked IH (via if_of HC LC)"
  using assms by (simp_all add: l2hop_inv_def)

lemma l2hop_inv_add:
  assumes inv: "l2hop_inv LH IH HC LC" and l: "LC l = Some (p, Some i)" and x: "HC x = None"
    and T: "LH l = Some T" "IH i = Some U" and k: "avl_find T k = None"
  shows "l2hop_inv (LH(l \<mapsto> tree_insert T k x)) (IH(i \<mapsto> tree_insert U k x)) (HC(x \<mapsto> (k, l))) LC"
proof -
  note D = l2hop_invD [OF inv]
  have n: "if_of LC l = Some ((), i)" using l by (simp add: if_of_Some)
  show ?thesis
    using htree.hook [OF D(1) T(1) x k] hmulti.hook [OF D(3) T(2), of x k] n D(2) T(1) via_None [where AC = HC, OF x]
    by (simp add: l2hop_inv_def via_upd refs_new)
qed

lemma l2hop_inv_remove:
  assumes inv: "l2hop_inv LH IH HC LC" and x: "HC x = Some (k, l)" and l: "LC l = Some (p, Some i)"
    and T: "LH l = Some T" "IH i = Some U"
  shows "x \<in> snd ` index_set T" "x \<in> snd ` index_set U"
    "l2hop_inv (LH(l \<mapsto> avl_remove T x)) (IH(i \<mapsto> avl_remove U x)) (HC(x := None)) LC"
proof -
  note D = l2hop_invD [OF inv]
  have v: "via if_of HC LC x = Some (k, i)" using x l by (auto simp: via_Some if_of_Some)
  note u = htree.unhook [OF D(1) T(1) x] hmulti.unhook [OF D(3) T(2) v]
  show "x \<in> snd ` index_set T" "x \<in> snd ` index_set U" using u by simp_all
  show "l2hop_inv (LH(l \<mapsto> avl_remove T x)) (IH(i \<mapsto> avl_remove U x)) (HC(x := None)) LC"
    using u D(2) by (simp add: l2hop_inv_def via_upd refs_new)
qed

lemma l2hop_inv_cong:
  assumes "l2hop_inv LH IH HC LC" "\<And>x k l. HC x = Some (k, l) \<Longrightarrow> if_of LC' l = if_of LC l"
  shows "l2hop_inv LH IH HC LC'"
  using assms via_cong [of HC if_of LC' LC] by (simp add: l2hop_inv_def)

lemma l2hop_inv_new_link:
  "l2hop_inv LH IH HC LC \<Longrightarrow> LH l = None \<Longrightarrow> l2hop_inv (LH(l \<mapsto> avl_init avl_comp_netaddr False)) IH HC LC"
  by (fastforce simp: l2hop_inv_def refs_def intro: htree.new_owner)

lemma l2hop_inv_free_link:
  "l2hop_inv LH IH HC LC \<Longrightarrow> (\<And>x k. HC x \<noteq> Some (k, l)) \<Longrightarrow> l2hop_inv (LH(l := None)) IH HC LC"
  by (auto simp: l2hop_inv_def htree.free_owner intro!: refs_free)

subsection \<open>Partners\<close>

lemma partner_invI: "(\<And>p q. P p = Some (Some q) \<Longrightarrow> P q = Some (Some p)) \<Longrightarrow> partner_inv P"
  unfolding partner_inv_def by blast

lemma partner_invD: "partner_inv P \<Longrightarrow> P p = Some (Some q) \<Longrightarrow> P q = Some (Some p)"
  unfolding partner_inv_def by blast

lemma partner_inv_new:
  assumes "partner_inv P" "P p = None"
  shows "partner_inv (P(p \<mapsto> None))"
proof (rule partner_invI)
  fix x y assume "(P(p \<mapsto> None)) x = Some (Some y)"
  then have "P y = Some (Some x)" using partner_invD [OF assms(1), of x y] by (simp split: if_splits)
  then show "(P(p \<mapsto> None)) y = Some (Some x)" using assms(2) by auto
qed

lemma partner_inv_free:
  assumes "partner_inv P" "P p = Some None"
  shows "partner_inv (P(p := None))"
proof (rule partner_invI)
  fix x y assume "(P(p := None)) x = Some (Some y)"
  then have "P y = Some (Some x)" using partner_invD [OF assms(1), of x y] by (simp split: if_splits)
  then show "(P(p := None)) y = Some (Some x)" using assms(2) by auto
qed

lemma partner_inv_disconnect:
  assumes "partner_inv P" "P p = Some (Some q)"
  shows "P q = Some (Some p)" "partner_inv (P(q \<mapsto> None, p \<mapsto> None))"
proof -
  have m: "P x = Some (Some y) \<Longrightarrow> P y = Some (Some x)" for x y by (rule partner_invD [OF assms(1)])
  show "P q = Some (Some p)" by (rule m [OF assms(2)])
  show "partner_inv (P(q \<mapsto> None, p \<mapsto> None))"
  proof (rule partner_invI)
    fix x y assume "(P(q \<mapsto> None, p \<mapsto> None)) x = Some (Some y)"
    then have x: "x \<noteq> p" "x \<noteq> q" "P x = Some (Some y)" by (auto split: if_splits)
    then have "y \<noteq> p" "y \<noteq> q" using m [OF x(3)] m [OF assms(2)] assms(2) by (metis option.inject)+
    then show "(P(q \<mapsto> None, p \<mapsto> None)) y = Some (Some x)" using m [OF x(3)] by simp
  qed
qed

lemma partner_inv_connect:
  assumes "partner_inv P" "P p = Some None" "P q = Some None"
  shows "partner_inv (P(p \<mapsto> Some q, q \<mapsto> Some p))"
proof (rule partner_invI)
  fix x y assume xy: "(P(p \<mapsto> Some q, q \<mapsto> Some p)) x = Some (Some y)"
  consider "x = q" "y = p" | "x = p" "y = q" | "x \<noteq> p" "x \<noteq> q" "P x = Some (Some y)"
    using xy by (auto split: if_splits)
  then show "(P(p \<mapsto> Some q, q \<mapsto> Some p)) y = Some (Some x)"
  proof cases
    case 3
    have "P y = Some (Some x)" by (rule partner_invD [OF assms(1) 3(3)])
    moreover have "y \<noteq> p" "y \<noteq> q" using calculation assms(2,3) by auto
    ultimately show ?thesis by simp
  qed (use xy in \<open>auto split: if_splits\<close>)
qed

end
