(* ===== verification/Nhdp_Tables.thy ===== *)
theory Nhdp_Tables
  imports Nhdp_Inv
begin

text \<open>
  The neighborhood database as its users see it, tables of objects with back pointers, and the operations
  on addresses, links and neighbors: each of them keeps the database consistent and has the stated effect
  on the tables.
\<close>

subsection \<open>The database as tables\<close>

text \<open>
  What a user of the database sees: the objects with their back pointers, without the containers. The
  specification of an operation is its effect on these tables.
\<close>

record nhdp_tables =
  tb_neighs :: "ptr \<Rightarrow> nhdp_neighbor option"
  tb_links :: "ptr \<Rightarrow> nhdp_link option"
  tb_laddrs :: "ptr \<Rightarrow> nhdp_laddr option"
  tb_l2hops :: "ptr \<Rightarrow> nhdp_l2hop option"
  tb_naddrs :: "ptr \<Rightarrow> nhdp_naddr option"
  tb_interfaces :: "ptr \<Rightarrow> nhdp_interface option"

definition bare_neigh :: "nhdp_neighbor \<Rightarrow> nhdp_neighbor" where
  "bare_neigh n = n\<lparr>nn_links := [], nn_neigh_addresses := avl_init avl_comp_netaddr False,
     nn_link_addresses := avl_init avl_comp_netaddr True\<rparr>"

definition bare_link :: "nhdp_link \<Rightarrow> nhdp_link" where
  "bare_link k = k\<lparr>nl_addresses := avl_init avl_comp_netaddr False, nl_2hop := avl_init avl_comp_netaddr False\<rparr>"

definition bare_if :: "nhdp_interface \<Rightarrow> nhdp_interface" where
  "bare_if f = f\<lparr>ni_links := [], ni_link_addresses := avl_init avl_comp_netaddr False,
     ni_link_originators := avl_init avl_comp_netaddr True, ni_if_twohops := avl_init avl_comp_netaddr True\<rparr>"

definition tables :: "nhdp_db \<Rightarrow> nhdp_tables" where
  "tables db = \<lparr>tb_neighs = proj bare_neigh (db_neighs db), tb_links = proj bare_link (db_links db),
     tb_laddrs = db_laddrs db, tb_l2hops = db_l2hops db, tb_naddrs = db_naddrs db,
     tb_interfaces = proj bare_if (db_interfaces db)\<rparr>"

lemma tables_event [simp]: "tables (nhdp_event v x db) = tables db"
  by (simp add: tables_def)

lemma bare_fields [simp]:
  "nn_originator (bare_neigh n) = nn_originator n" "nn_dualstack_partner (bare_neigh n) = nn_dualstack_partner n"
  "nn_symmetric (bare_neigh n) = nn_symmetric n" "nn_domaindata (bare_neigh n) = nn_domaindata n"
  "nl_neigh (bare_link k) = nl_neigh k" "nl_local_if (bare_link k) = nl_local_if k"
  "nl_dualstack_partner (bare_link k) = nl_dualstack_partner k" "nl_status (bare_link k) = nl_status k"
  "nl_sym_time (bare_link k) = nl_sym_time k" "nl_heard_time (bare_link k) = nl_heard_time k"
  "nl_domaindata (bare_link k) = nl_domaindata k" "link_core (bare_link k) = link_core k"
  by (simp_all add: bare_neigh_def bare_link_def link_core_def)

lemma bare_upd [simp]:
  "bare_neigh (nn_links_update f n) = bare_neigh n" "bare_neigh (nn_neigh_addresses_update g n) = bare_neigh n"
  "bare_neigh (nn_link_addresses_update g n) = bare_neigh n" "bare_link (nl_addresses_update h k) = bare_link k"
  "bare_link (nl_2hop_update h k) = bare_link k" "bare_if (ni_links_update f i) = bare_if i"
  "bare_if (ni_link_addresses_update g i) = bare_if i" "bare_if (ni_link_originators_update g i) = bare_if i"
  "bare_if (ni_if_twohops_update g i) = bare_if i"
  by (simp_all add: bare_neigh_def bare_link_def bare_if_def)

lemma bare_upd_other [simp]:
  "bare_neigh (nn_symmetric_update s n) = nn_symmetric_update s (bare_neigh n)"
  "bare_neigh (nn_originator_update a n) = nn_originator_update a (bare_neigh n)"
  "bare_neigh (nn_dualstack_partner_update q n) = nn_dualstack_partner_update q (bare_neigh n)"
  "bare_link (nl_neigh_update u k) = nl_neigh_update u (bare_link k)"
  "bare_link (nl_local_if_update v k) = nl_local_if_update v (bare_link k)"
  "bare_link (nl_dualstack_partner_update q k) = nl_dualstack_partner_update q (bare_link k)"
  "bare_link (nl_status_update w k) = nl_status_update w (bare_link k)"
  "bare_link (nl_sym_time_update t k) = nl_sym_time_update t (bare_link k)"
  "bare_link (nl_heard_time_update t k) = nl_heard_time_update t (bare_link k)"
  "bare_link (nl_vtime_update t k) = nl_vtime_update t (bare_link k)"
  by (simp_all add: bare_neigh_def bare_link_def)

lemma tables_simps:
  "tb_laddrs (tables db) = db_laddrs db" "tb_l2hops (tables db) = db_l2hops db" "tb_naddrs (tables db) = db_naddrs db"
  "db_neighs db p = Some n \<Longrightarrow> tb_neighs (tables db) p = Some (bare_neigh n)"
  "db_links db l = Some k \<Longrightarrow> tb_links (tables db) l = Some (bare_link k)"
  "tb_neighs (tables db) p = None \<longleftrightarrow> db_neighs db p = None" "tb_links (tables db) l = None \<longleftrightarrow> db_links db l = None"
  by (simp_all add: tables_def proj_apply)

lemma tables_links: "tb_links (tables db) l = Some k \<Longrightarrow> \<exists>k'. db_links db l = Some k' \<and> k = bare_link k'"
  by (auto simp: tables_def proj_apply)

lemma tables_neighs: "tb_neighs (tables db) l = Some k \<Longrightarrow> \<exists>k'. db_neighs db l = Some k' \<and> k = bare_neigh k'"
  by (auto simp: tables_def proj_apply)

lemma nhdp_okD:
  assumes "nhdp_inv U db"
  shows "naddr_inv (db_naddr_tree db) (proj nn_neigh_addresses (db_neighs db)) (proj naddr_core (db_naddrs db))"
    "neigh_inv U (db_neigh_list db) (db_originator_tree db) (proj nn_originator (db_neighs db))"
    "link_inv (db_link_list db) (proj nn_links (db_neighs db)) (proj ni_links (db_interfaces db)) (proj link_core (db_links db))"
    "orig_inv U (proj ni_link_originators (db_interfaces db)) (proj nn_originator (db_neighs db)) (proj link_core (db_links db))"
    "laddr_inv (proj nl_addresses (db_links db)) (proj nn_link_addresses (db_neighs db)) (proj ni_link_addresses (db_interfaces db))
       (proj laddr_core (db_laddrs db)) (proj link_core (db_links db))"
    "l2hop_inv (proj nl_2hop (db_links db)) (proj ni_if_twohops (db_interfaces db)) (proj l2hop_core (db_l2hops db))
       (proj link_core (db_links db))"
    "partner_inv (proj nn_dualstack_partner (db_neighs db))" "partner_inv (proj nl_dualstack_partner (db_links db))"
  using assms by (simp_all add: nhdp_inv_def stores_inv_def)

lemmas nhdp_ok_unfold = nhdp_inv_def stores_inv_def

lemma refsD: "refs M F \<Longrightarrow> M x = Some (k, p) \<Longrightarrow> \<exists>v. F p = Some v"
  unfolding refs_def by blast

lemma nhdp_refs:
  assumes "nhdp_inv U db"
  shows "db_naddrs db x = Some a \<Longrightarrow> \<exists>n. db_neighs db (nx_neigh a) = Some n"
    "db_links db l = Some k \<Longrightarrow> \<exists>n i f. db_neighs db (nl_neigh k) = Some n \<and> nl_local_if k = Some i \<and> db_interfaces db i = Some f"
    "db_laddrs db y = Some b \<Longrightarrow> \<exists>k. db_links db (ld_link b) = Some k"
    "db_l2hops db z = Some h \<Longrightarrow> \<exists>k. db_links db (l2_link h) = Some k"
proof -
  note D = nhdp_okD [OF assms]
  show "db_naddrs db x = Some a \<Longrightarrow> \<exists>n. db_neighs db (nx_neigh a) = Some n"
    using refsD [OF naddr_invD(3) [OF D(1)], of x "nx_addr a" "nx_neigh a"] by (auto simp: proj_apply)
  show "db_laddrs db y = Some b \<Longrightarrow> \<exists>k. db_links db (ld_link b) = Some k"
    using refsD [OF laddr_invD(2) [OF D(5)], of y "ld_addr b" "ld_link b"] by (auto simp: proj_apply)
  show "db_l2hops db z = Some h \<Longrightarrow> \<exists>k. db_links db (l2_link h) = Some k"
    using refsD [OF l2hop_invD(2) [OF D(6)], of z "l2_addr h" "l2_link h"] by (auto simp: proj_apply)
  assume k: "db_links db l = Some k"
  then have "proj link_core (db_links db) l = Some (nl_neigh k, nl_local_if k)" by (simp add: proj_apply link_core_def)
  from link_refsD [OF link_invD(5) [OF D(3)] this]
  show "\<exists>n i f. db_neighs db (nl_neigh k) = Some n \<and> nl_local_if k = Some i \<and> db_interfaces db i = Some f"
    by (auto simp: proj_apply)
qed

subsection \<open>Addresses of neighbors\<close>

lemma upd_naddr_ok:
  assumes ok: "nhdp_inv U db" and x: "db_naddrs db x = Some a" and f: "naddr_core (f a) = naddr_core a"
  shows "\<exists>db'. upd_naddr x f db = Some db' \<and> nhdp_inv U db' \<and> tables db' = (tables db)\<lparr>tb_naddrs := (db_naddrs db)(x \<mapsto> f a)\<rparr>"
  using assms by (simp add: upd_naddr_def nhdp_ok_unfold tables_def)

lemma neighbor_addr_add_ok:
  assumes ok: "nhdp_inv U db" and p: "db_neighs db p = Some n" and x: "db_naddrs db x = None"
    and k: "nhdp_db_neighbor_addr_get db addr = None"
  shows "\<exists>db'. nhdp_db_neighbor_addr_add (Some x) p addr db = Some (Some x, db') \<and> nhdp_inv U db'
    \<and> tables db' = (tables db)\<lparr>tb_naddrs := (db_naddrs db)(x \<mapsto>
         \<lparr>nx_addr = addr, nx_neigh = p, nx_laddr_count = 0, nx_lost_vtime = None, nx_this_if = False, nx_might_be_removed = False\<rparr>)\<rparr>"
  using naddr_inv_add [OF nhdp_okD(1) [OF ok], of p "nn_neigh_addresses n" x addr] ok p x k
  by (simp add: nhdp_db_neighbor_addr_add_def upd_neigh_def nhdp_ok_unfold tables_def nhdp_db_neighbor_addr_get_def proj_Some)

lemma neighbor_addr_remove_ok:
  assumes ok: "nhdp_inv U db" and x: "db_naddrs db x = Some a"
  shows "\<exists>db'. nhdp_db_neighbor_addr_remove x db = Some db' \<and> nhdp_inv U db'
    \<and> tables db' = (tables db)\<lparr>tb_naddrs := (db_naddrs db)(x := None)\<rparr>"
proof -
  obtain n where n: "db_neighs db (nx_neigh a) = Some n" using nhdp_refs(1) [OF ok x] by blast
  note r = naddr_inv_remove [OF nhdp_okD(1) [OF ok], of x "nx_addr a" "nx_neigh a" "nn_neigh_addresses n"]
  have "tree_remove (db_naddr_tree db) x = Some (avl_remove (db_naddr_tree db) x)"
    "tree_remove (nn_neigh_addresses n) x = Some (avl_remove (nn_neigh_addresses n) x)"
    using r(1,2) x n by (simp_all add: tree_remove_Some proj_Some)
  then show ?thesis
    using r(3) ok x n by (simp add: nhdp_db_neighbor_addr_remove_def upd_neigh_def nhdp_ok_unfold tables_def proj_Some)
qed

lemma neighbor_addr_move_ok:
  assumes ok: "nhdp_inv U db" and x: "db_naddrs db x = Some a" and p: "db_neighs db p = Some m"
  shows "\<exists>db'. nhdp_db_neighbor_addr_move p x db = Some db' \<and> nhdp_inv U db'
    \<and> tables db' = (tables db)\<lparr>tb_naddrs := (db_naddrs db)(x \<mapsto> a\<lparr>nx_neigh := p\<rparr>)\<rparr>"
proof -
  obtain n where n: "db_neighs db (nx_neigh a) = Some n" using nhdp_refs(1) [OF ok x] by blast
  let ?n = "n\<lparr>nn_neigh_addresses := avl_remove (nn_neigh_addresses n) x\<rparr>"
  obtain m' where m': "((db_neighs db)(nx_neigh a \<mapsto> ?n)) p = Some m'" using p by (cases "p = nx_neigh a") auto
  let ?m = "m'\<lparr>nn_neigh_addresses := tree_insert (nn_neigh_addresses m') (nx_addr a) x\<rparr>"
  obtain N where N_def: "N = (db_neighs db)(nx_neigh a \<mapsto> ?n, p \<mapsto> ?m)" by blast
  have N: "proj f N = proj f (db_neighs db)" if "f ?n = f n" "f ?m = f m'" for f :: "nhdp_neighbor \<Rightarrow> 'b"
    unfolding N_def by (rule proj_same2 [OF n m' that])
  have T: "((proj nn_neigh_addresses (db_neighs db))(nx_neigh a \<mapsto> avl_remove (nn_neigh_addresses n) x)) p
      = Some (nn_neigh_addresses m')"
    using m' by (auto simp: proj_apply split: if_splits)
  note r = naddr_inv_move [OF nhdp_okD(1) [OF ok], of x "nx_addr a" "nx_neigh a" "nn_neigh_addresses n" p "nn_neigh_addresses m'", OF _ _ T]
  have "tree_remove (nn_neigh_addresses n) x = Some (avl_remove (nn_neigh_addresses n) x)"
    using r(1) x n by (simp add: tree_remove_Some proj_Some)
  then have "nhdp_db_neighbor_addr_move p x db = Some (db\<lparr>db_neighs := N, db_naddrs := (db_naddrs db)(x \<mapsto> a\<lparr>nx_neigh := p\<rparr>)\<rparr>)"
    using x n m' by (simp add: N_def nhdp_db_neighbor_addr_move_def upd_neigh_def upd_naddr_def del: fun_upd_apply)
  moreover have "naddr_inv (db_naddr_tree db) (proj nn_neigh_addresses N) ((proj naddr_core (db_naddrs db))(x \<mapsto> (nx_addr a, p)))"
    using r(2) x n by (simp add: N_def proj_Some)
  ultimately show ?thesis
    using ok by (simp add: nhdp_ok_unfold tables_def N)
qed

subsection \<open>Addresses of links\<close>

lemma link_parts:
  assumes ok: "nhdp_inv U db" and l: "db_links db l = Some k"
  obtains n i f where "db_neighs db (nl_neigh k) = Some n" "nl_local_if k = Some i" "db_interfaces db i = Some f"
    "proj link_core (db_links db) l = Some (nl_neigh k, Some i)"
  using nhdp_refs(2) [OF ok l] l by (auto simp: proj_apply link_core_def)

lemma link_core_upd [simp]:
  "link_core (nl_addresses_update h k) = link_core k" "link_core (nl_2hop_update h k) = link_core k"
  "link_core (nl_dualstack_partner_update q k) = link_core k" "link_core (nl_status_update w k) = link_core k"
  "link_core (nl_sym_time_update t k) = link_core k" "link_core (nl_heard_time_update t k) = link_core k"
  "link_core (nl_vtime_update t k) = link_core k" "link_core (nl_domaindata_update d k) = link_core k"
  by (simp_all add: link_core_def)

lemma link_addr_add_ok:
  assumes ok: "nhdp_inv U db" and l: "db_links db l = Some k" and x: "db_laddrs db x = None"
    and i: "nl_local_if k = Some i" "db_interfaces db i = Some f" and a: "nhdp_interface_get_link_addr f addr = None"
  shows "\<exists>db'. nhdp_db_link_addr_add (Some x) l addr db = Some (Some x, db') \<and> nhdp_inv U db'
    \<and> tables db' = (tables db)\<lparr>tb_laddrs := (db_laddrs db)(x \<mapsto> \<lparr>ld_addr = addr, ld_link = l, ld_might_be_removed = False\<rparr>)\<rparr>"
proof -
  obtain n where n: "db_neighs db (nl_neigh k) = Some n" "proj link_core (db_links db) l = Some (nl_neigh k, Some i)"
    using link_parts [OF ok l] i by (metis option.inject)
  note r = laddr_inv_add [OF nhdp_okD(5) [OF ok] n(2), of x "nl_addresses k" "nn_link_addresses n" "ni_link_addresses f" addr]
  show ?thesis
    using r ok l x i a n
    by (simp add: nhdp_db_link_addr_add_def nhdp_interface_add_laddr_def upd_link_def upd_neigh_def upd_interface_def
        nhdp_ok_unfold tables_def nhdp_interface_get_link_addr_def proj_Some)
qed

lemma link_addr_remove_ok:
  assumes ok: "nhdp_inv U db" and x: "db_laddrs db x = Some a"
  shows "\<exists>db'. nhdp_db_link_addr_remove x db = Some db' \<and> nhdp_inv U db'
    \<and> tables db' = (tables db)\<lparr>tb_laddrs := (db_laddrs db)(x := None)\<rparr>"
proof -
  obtain k where k: "db_links db (ld_link a) = Some k" using nhdp_refs(3) [OF ok x] by blast
  from link_parts [OF ok k] obtain n i f where n: "db_neighs db (nl_neigh k) = Some n" "nl_local_if k = Some i"
    "db_interfaces db i = Some f" "proj link_core (db_links db) (ld_link a) = Some (nl_neigh k, Some i)" .
  note r = laddr_inv_remove [OF nhdp_okD(5) [OF ok] _ n(4), of x "ld_addr a" "nl_addresses k" "nn_link_addresses n" "ni_link_addresses f"]
  have "tree_remove (nl_addresses k) x = Some (avl_remove (nl_addresses k) x)"
    "tree_remove (nn_link_addresses n) x = Some (avl_remove (nn_link_addresses n) x)"
    "tree_remove (ni_link_addresses f) x = Some (avl_remove (ni_link_addresses f) x)"
    using r(1,2,3) x k n by (simp_all add: tree_remove_Some proj_Some)
  then show ?thesis
    using r(4) ok x k n
    by (simp add: nhdp_db_link_addr_remove_def nhdp_interface_remove_laddr_def upd_link_def upd_neigh_def
        upd_interface_def nhdp_ok_unfold tables_def proj_Some)
qed

subsection \<open>Two-hop addresses\<close>

lemma upd_l2hop_ok:
  assumes "nhdp_inv U db" "db_l2hops db x = Some h" "l2hop_core (f h) = l2hop_core h"
  shows "\<exists>db'. upd_l2hop x f db = Some db' \<and> nhdp_inv U db' \<and> tables db' = (tables db)\<lparr>tb_l2hops := (db_l2hops db)(x \<mapsto> f h)\<rparr>"
  using assms by (simp add: upd_l2hop_def nhdp_ok_unfold tables_def)

lemma init_l2hop_core [simp]: "l2_addr (nhdp_domain_init_l2hop ds h) = l2_addr h" "l2_link (nhdp_domain_init_l2hop ds h) = l2_link h"
  by (simp_all add: nhdp_domain_init_l2hop_def)

definition new_l2hop :: "domains \<Rightarrow> ptr \<Rightarrow> netaddr \<Rightarrow> nhdp_l2hop" where
  "new_l2hop ds l addr = nhdp_domain_init_l2hop ds
     \<lparr>l2_addr = addr, l2_same_interface = False, l2_link = l, l2_vtime = None, l2_domaindata = (\<lambda>_. \<lparr>nm_in = 0, nm_out = 0\<rparr>)\<rparr>"

lemma link_2hop_add_ok:
  assumes ok: "nhdp_inv U db" and l: "db_links db l = Some k" and x: "db_l2hops db x = None"
    and a: "nhdp_db_link_2hop_get k addr = None"
  shows "\<exists>db'. nhdp_db_link_2hop_add ds (Some x) l addr db = Some (Some x, db') \<and> nhdp_inv U db'
    \<and> tables db' = (tables db)\<lparr>tb_l2hops := (db_l2hops db)(x \<mapsto> new_l2hop ds l addr)\<rparr>"
proof -
  from link_parts [OF ok l] obtain n i f where n: "db_neighs db (nl_neigh k) = Some n" "nl_local_if k = Some i"
    "db_interfaces db i = Some f" "proj link_core (db_links db) l = Some (nl_neigh k, Some i)" .
  note r = l2hop_inv_add [OF nhdp_okD(6) [OF ok] n(4), of x "nl_2hop k" "ni_if_twohops f" addr]
  show ?thesis
    using r ok l x a n
    by (simp add: nhdp_db_link_2hop_add_def nhdp_interface_add_l2hop_def upd_link_def upd_l2hop_def upd_interface_def
        nhdp_ok_unfold tables_def nhdp_db_link_2hop_get_def new_l2hop_def proj_Some)
qed

lemma link_2hop_remove_ok:
  assumes ok: "nhdp_inv U db" and x: "db_l2hops db x = Some h"
  shows "\<exists>db'. nhdp_db_link_2hop_remove x db = Some db' \<and> nhdp_inv U db'
    \<and> tables db' = (tables db)\<lparr>tb_l2hops := (db_l2hops db)(x := None)\<rparr>"
proof -
  obtain k where k: "db_links db (l2_link h) = Some k" using nhdp_refs(4) [OF ok x] by blast
  from link_parts [OF ok k] obtain n i f where n: "db_neighs db (nl_neigh k) = Some n" "nl_local_if k = Some i"
    "db_interfaces db i = Some f" "proj link_core (db_links db) (l2_link h) = Some (nl_neigh k, Some i)" .
  note r = l2hop_inv_remove [OF nhdp_okD(6) [OF ok] _ n(4), of x "l2_addr h" "nl_2hop k" "ni_if_twohops f"]
  have "tree_remove (nl_2hop k) x = Some (avl_remove (nl_2hop k) x)"
    "tree_remove (ni_if_twohops f) x = Some (avl_remove (ni_if_twohops f) x)"
    using r(1,2) x k n by (simp_all add: tree_remove_Some proj_Some)
  then show ?thesis
    using r(3) ok x k n
    by (simp add: nhdp_db_link_2hop_remove_def nhdp_interface_remove_l2hop_def upd_link_def upd_interface_def
        nhdp_ok_unfold tables_def proj_Some)
qed

subsection \<open>Loops\<close>

lemma for_each_ok:
  assumes step: "\<And>x db. x \<in> set xs \<Longrightarrow> nhdp_inv U db \<Longrightarrow> P x (tables db) \<Longrightarrow>
      \<exists>db'. f x db = Some db' \<and> nhdp_inv U db' \<and> tables db' = g x (tables db)"
    and keep: "\<And>x y t. x \<in> set xs \<Longrightarrow> y \<in> set xs \<Longrightarrow> y \<noteq> x \<Longrightarrow> P x t \<Longrightarrow> P y t \<Longrightarrow> P y (g x t)"
    and d: "distinct xs" and P: "\<forall>x \<in> set xs. P x (tables db)" and ok: "nhdp_inv U db"
  shows "\<exists>db'. for_each f xs db = Some db' \<and> nhdp_inv U db' \<and> tables db' = fold g xs (tables db)"
  using assms
proof (induction xs arbitrary: db)
  case (Cons x xs)
  obtain db1 where 1: "f x db = Some db1" "nhdp_inv U db1" "tables db1 = g x (tables db)"
    using Cons.prems(1) [of x db] Cons.prems(4,5) by auto
  have "\<exists>db'. for_each f xs db1 = Some db' \<and> nhdp_inv U db' \<and> tables db' = fold g xs (tables db1)"
  proof (rule Cons.IH)
    show "\<forall>y \<in> set xs. P y (tables db1)"
      using Cons.prems(2) [of x] Cons.prems(3,4) 1(3) by auto
  qed (use Cons.prems(1,2,3) 1(2) in auto)
  then show ?case using 1 by simp
qed simp

lemma restrict_upd: "m(x := None) |` (- S) = m |` (- insert x S)"
  by (auto simp: restrict_map_def fun_eq_iff)

lemma restrict_UNIV: "m |` UNIV = m"
  by (simp add: restrict_map_def fun_eq_iff)

lemma fold_laddrs: "fold (\<lambda>x t. t\<lparr>tb_laddrs := (tb_laddrs t)(x := None)\<rparr>) xs t = t\<lparr>tb_laddrs := tb_laddrs t |` (- set xs)\<rparr>"
  for t :: nhdp_tables
  by (induction xs arbitrary: t) (simp_all add: restrict_upd restrict_UNIV del: restrict_fun_upd)

lemma remove_laddrs_ok:
  assumes "nhdp_inv U db" "distinct xs" "\<forall>x \<in> set xs. db_laddrs db x \<noteq> None"
  shows "\<exists>db'. for_each nhdp_db_link_addr_remove xs db = Some db' \<and> nhdp_inv U db'
    \<and> tables db' = (tables db)\<lparr>tb_laddrs := (db_laddrs db) |` (- set xs)\<rparr>"
proof -
  have "\<exists>db'. for_each nhdp_db_link_addr_remove xs db = Some db' \<and> nhdp_inv U db'
      \<and> tables db' = fold (\<lambda>x t. t\<lparr>tb_laddrs := (tb_laddrs t)(x := None)\<rparr>) xs (tables db)"
  proof (rule for_each_ok [where P = "\<lambda>x t. tb_laddrs t x \<noteq> None"])
    show "\<exists>db'. nhdp_db_link_addr_remove x db = Some db' \<and> nhdp_inv U db'
        \<and> tables db' = (tables db)\<lparr>tb_laddrs := (tb_laddrs (tables db))(x := None)\<rparr>"
      if "nhdp_inv U db" "tb_laddrs (tables db) x \<noteq> None" for x db
      using link_addr_remove_ok [OF that(1), of x] that(2) by (auto simp: tables_simps)
  qed (use assms in \<open>simp_all add: tables_simps\<close>)
  then show ?thesis by (simp add: fold_laddrs tables_simps)
qed

lemma fold_l2hops: "fold (\<lambda>x t. t\<lparr>tb_l2hops := (tb_l2hops t)(x := None)\<rparr>) xs t = t\<lparr>tb_l2hops := tb_l2hops t |` (- set xs)\<rparr>"
  for t :: nhdp_tables
  by (induction xs arbitrary: t) (simp_all add: restrict_upd restrict_UNIV del: restrict_fun_upd)

lemma remove_l2hops_ok:
  assumes "nhdp_inv U db" "distinct xs" "\<forall>x \<in> set xs. db_l2hops db x \<noteq> None"
  shows "\<exists>db'. for_each nhdp_db_link_2hop_remove xs db = Some db' \<and> nhdp_inv U db'
    \<and> tables db' = (tables db)\<lparr>tb_l2hops := (db_l2hops db) |` (- set xs)\<rparr>"
proof -
  have "\<exists>db'. for_each nhdp_db_link_2hop_remove xs db = Some db' \<and> nhdp_inv U db'
      \<and> tables db' = fold (\<lambda>x t. t\<lparr>tb_l2hops := (tb_l2hops t)(x := None)\<rparr>) xs (tables db)"
  proof (rule for_each_ok [where P = "\<lambda>x t. tb_l2hops t x \<noteq> None"])
    show "\<exists>db'. nhdp_db_link_2hop_remove x db = Some db' \<and> nhdp_inv U db'
        \<and> tables db' = (tables db)\<lparr>tb_l2hops := (tb_l2hops (tables db))(x := None)\<rparr>"
      if "nhdp_inv U db" "tb_l2hops (tables db) x \<noteq> None" for x db
      using link_2hop_remove_ok [OF that(1), of x] that(2) by (auto simp: tables_simps)
  qed (use assms in \<open>simp_all add: tables_simps\<close>)
  then show ?thesis by (simp add: fold_l2hops tables_simps)
qed

lemma fold_naddrs: "fold (\<lambda>x t. t\<lparr>tb_naddrs := (tb_naddrs t)(x := None)\<rparr>) xs t = t\<lparr>tb_naddrs := tb_naddrs t |` (- set xs)\<rparr>"
  for t :: nhdp_tables
  by (induction xs arbitrary: t) (simp_all add: restrict_upd restrict_UNIV del: restrict_fun_upd)

lemma remove_naddrs_ok:
  assumes "nhdp_inv U db" "distinct xs" "\<forall>x \<in> set xs. db_naddrs db x \<noteq> None"
  shows "\<exists>db'. for_each nhdp_db_neighbor_addr_remove xs db = Some db' \<and> nhdp_inv U db'
    \<and> tables db' = (tables db)\<lparr>tb_naddrs := (db_naddrs db) |` (- set xs)\<rparr>"
proof -
  have "\<exists>db'. for_each nhdp_db_neighbor_addr_remove xs db = Some db' \<and> nhdp_inv U db'
      \<and> tables db' = fold (\<lambda>x t. t\<lparr>tb_naddrs := (tb_naddrs t)(x := None)\<rparr>) xs (tables db)"
  proof (rule for_each_ok [where P = "\<lambda>x t. tb_naddrs t x \<noteq> None"])
    show "\<exists>db'. nhdp_db_neighbor_addr_remove x db = Some db' \<and> nhdp_inv U db'
        \<and> tables db' = (tables db)\<lparr>tb_naddrs := (tb_naddrs (tables db))(x := None)\<rparr>"
      if "nhdp_inv U db" "tb_naddrs (tables db) x \<noteq> None" for x db
      using neighbor_addr_remove_ok [OF that(1), of x] that(2) by (auto simp: tables_simps)
  qed (use assms in \<open>simp_all add: tables_simps\<close>)
  then show ?thesis by (simp add: fold_naddrs tables_simps)
qed

subsection \<open>Updates that touch no container\<close>

lemma upd_link_ok:
  assumes ok: "nhdp_inv U db" and l: "db_links db l = Some k" and f: "f k = Some k'"
    and same: "link_core k' = link_core k" "nl_addresses k' = nl_addresses k" "nl_2hop k' = nl_2hop k"
      "nl_dualstack_partner k' = nl_dualstack_partner k"
  shows "\<exists>db'. upd_link l f db = Some db' \<and> nhdp_inv U db'
    \<and> tables db' = (tables db)\<lparr>tb_links := (tb_links (tables db))(l \<mapsto> bare_link k')\<rparr>"
  using assms by (simp add: upd_link_def nhdp_ok_unfold tables_def)

lemma upd_neigh_ok:
  assumes ok: "nhdp_inv U db" and p: "db_neighs db p = Some n" and f: "f n = Some n'"
    and same: "nn_originator n' = nn_originator n" "nn_links n' = nn_links n" "nn_neigh_addresses n' = nn_neigh_addresses n"
      "nn_link_addresses n' = nn_link_addresses n" "nn_dualstack_partner n' = nn_dualstack_partner n"
  shows "\<exists>db'. upd_neigh p f db = Some db' \<and> nhdp_inv U db'
    \<and> tables db' = (tables db)\<lparr>tb_neighs := (tb_neighs (tables db))(p \<mapsto> bare_neigh n')\<rparr>"
  using assms by (simp add: upd_neigh_def nhdp_ok_unfold tables_def)

lemma upd_interface_ok:
  assumes ok: "nhdp_inv U db" and i: "db_interfaces db i = Some h" and f: "f h = Some h'"
    and same: "ni_links h' = ni_links h" "ni_link_addresses h' = ni_link_addresses h"
      "ni_link_originators h' = ni_link_originators h" "ni_if_twohops h' = ni_if_twohops h"
  shows "\<exists>db'. upd_interface i f db = Some db' \<and> nhdp_inv U db'
    \<and> tables db' = (tables db)\<lparr>tb_interfaces := (tb_interfaces (tables db))(i \<mapsto> bare_if h')\<rparr>"
  using assms by (simp add: upd_interface_def nhdp_ok_unfold tables_def)

subsection \<open>Originators of links\<close>

lemma link_orig_add: "link_orig (insert (Nhdp_Link l) U) NO LC = (link_orig U NO LC)(l := None)"
  by (auto simp: link_orig_def)

lemma link_orig_weaken: "link_orig U NO LC l = None \<Longrightarrow> link_orig (insert (Nhdp_Link l) U) NO LC = link_orig U NO LC"
  by (simp add: link_orig_add fun_upd_idem)

lemma link_orig_only:
  "link_orig (U - {Nhdp_Link l}) NO LC = (link_orig (insert (Nhdp_Link l) U) NO LC)(l := link_orig {} NO LC l)"
  by (auto simp: link_orig_def)

lemma link_orig_fresh: "LC l = None \<Longrightarrow> link_orig (insert (Nhdp_Link l) U) NO (LC(l \<mapsto> c)) = link_orig U NO LC"
  by (simp add: link_orig_def fun_eq_iff)

lemma unhook_originator_ok:
  assumes ok: "nhdp_inv U db" and l: "db_links db l = Some k" "Nhdp_Link l \<notin> U"
    and n: "db_neighs db (nl_neigh k) = Some n" "na_type (nn_originator n) \<noteq> AF_UNSPEC"
  shows "\<exists>db'. unhook_originator l db = Some db' \<and> nhdp_inv (insert (Nhdp_Link l) U) db' \<and> tables db' = tables db"
proof -
  from link_parts [OF ok l(1)] obtain i f where i: "nl_local_if k = Some i" "db_interfaces db i = Some f"
    "proj link_core (db_links db) l = Some (nl_neigh k, Some i)" by blast
  have o: "link_orig U (proj nn_originator (db_neighs db)) (proj link_core (db_links db)) l = Some (nn_originator n, i)"
    using l i n by (simp add: link_orig_Some proj_Some)
  note r = orig_inv_unhook [OF nhdp_okD(4) [OF ok] _ o link_orig_add, of "ni_link_originators f"]
  have "tree_remove (ni_link_originators f) l = Some (avl_remove (ni_link_originators f) l)"
    using r(1) i by (simp add: tree_remove_Some proj_Some)
  then show ?thesis
    using r(2) ok l i by (simp add: unhook_originator_def upd_interface_def nhdp_ok_unfold tables_def proj_Some)
qed

lemma hook_originator_ok:
  assumes ok: "nhdp_inv U db" and l: "db_links db l = Some k" "Nhdp_Link l \<in> U"
    and n: "db_neighs db (nl_neigh k) = Some n" "na_type (nn_originator n) \<noteq> AF_UNSPEC"
  shows "\<exists>db'. hook_originator (nn_originator n) l db = Some db' \<and> nhdp_inv (U - {Nhdp_Link l}) db' \<and> tables db' = tables db"
proof -
  from link_parts [OF ok l(1)] obtain i f where i: "nl_local_if k = Some i" "db_interfaces db i = Some f"
    "proj link_core (db_links db) l = Some (nl_neigh k, Some i)" by blast
  let ?NO = "proj nn_originator (db_neighs db)" and ?LC = "proj link_core (db_links db)"
  have o: "link_orig U ?NO ?LC l = None" using l by (simp add: link_orig_def)
  have "link_orig {} ?NO ?LC l = Some (nn_originator n, i)" using i n by (simp add: link_orig_Some proj_Some)
  then have n: "link_orig (U - {Nhdp_Link l}) ?NO ?LC = (link_orig U ?NO ?LC)(l \<mapsto> (nn_originator n, i))"
    using l(2) by (simp add: link_orig_only insert_absorb)
  note r = orig_inv_hook [OF nhdp_okD(4) [OF ok] _ o n, of "ni_link_originators f"]
  show ?thesis
    using r ok l i by (simp add: hook_originator_def upd_interface_def nhdp_ok_unfold tables_def proj_Some)
qed

text \<open>A link whose neighbor has no originator is in no tree of originators.\<close>

lemma nhdp_inv_weaken:
  assumes ok: "nhdp_inv U db" and l: "db_links db l = Some k"
    and n: "db_neighs db (nl_neigh k) = Some n" "na_type (nn_originator n) = AF_UNSPEC"
  shows "nhdp_inv (insert (Nhdp_Link l) U) db" "nhdp_inv (U - {Nhdp_Link l}) db"
proof -
  let ?NO = "proj nn_originator (db_neighs db)" and ?LC = "proj link_core (db_links db)"
  have o: "link_orig V ?NO ?LC l = None" for V
    using l n by (auto simp: link_orig_None proj_apply link_core_def)
  then have "link_orig (insert (Nhdp_Link l) U) ?NO ?LC = link_orig U ?NO ?LC" "link_orig (U - {Nhdp_Link l}) ?NO ?LC = link_orig U ?NO ?LC"
    by (simp_all add: link_orig_only link_orig_add fun_upd_idem)
  then show "nhdp_inv (insert (Nhdp_Link l) U) db" "nhdp_inv (U - {Nhdp_Link l}) db"
    using ok orig_inv_same [OF nhdp_okD(4) [OF ok]] by (simp_all add: nhdp_ok_unfold)
qed

subsection \<open>New links\<close>

definition fresh_link :: "domains \<Rightarrow> ptr \<Rightarrow> ptr \<Rightarrow> nhdp_link" where
  "fresh_link ds p i = nhdp_domain_init_link ds ((new_link p)\<lparr>nl_local_if := Some i\<rparr>)"

lemma init_link_fields [simp]:
  "link_core (nhdp_domain_init_link ds k) = link_core k" "nl_addresses (nhdp_domain_init_link ds k) = nl_addresses k"
  "nl_2hop (nhdp_domain_init_link ds k) = nl_2hop k" "nl_dualstack_partner (nhdp_domain_init_link ds k) = nl_dualstack_partner k"
  "nl_neigh (nhdp_domain_init_link ds k) = nl_neigh k" "nl_local_if (nhdp_domain_init_link ds k) = nl_local_if k"
  by (simp_all add: nhdp_domain_init_link_def link_core_def)

lemma bare_init_link: "bare_link (nhdp_domain_init_link ds k) = nhdp_domain_init_link ds (bare_link k)"
  by (simp add: bare_link_def nhdp_domain_init_link_def)

lemma new_link_fields [simp]:
  "nl_addresses (new_link p) = avl_init avl_comp_netaddr False" "nl_2hop (new_link p) = avl_init avl_comp_netaddr False"
  "nl_dualstack_partner (new_link p) = None" "nl_neigh (new_link p) = p" "nl_local_if (new_link p) = None"
  by (simp_all add: new_link_def)

text \<open>The state of \<open>nhdp_db_link_add\<close> before the originator.\<close>

lemma link_add_parts:
  assumes ok: "nhdp_inv U db" and p: "db_neighs db p = Some n" and i: "db_interfaces db i = Some f" and l: "db_links db l = None"
  shows "nhdp_inv (insert (Nhdp_Link l) U) (db\<lparr>db_links := (db_links db)(l \<mapsto> (new_link p)\<lparr>nl_local_if := Some i\<rparr>),
    db_interfaces := (db_interfaces db)(i \<mapsto> f\<lparr>ni_links := ni_links f @ [l]\<rparr>),
    db_neighs := (db_neighs db)(p \<mapsto> n\<lparr>nn_links := nn_links n @ [l]\<rparr>), db_link_list := db_link_list db @ [l]\<rparr>)"
proof -
  note D = nhdp_okD [OF ok]
  have LC: "proj link_core (db_links db) l = None" using l by simp
  note 1 = link_inv_add [OF D(3) LC, of p "nn_links n" i "ni_links f"]
  have 2: "orig_inv (insert (Nhdp_Link l) U) (proj ni_link_originators (db_interfaces db)) (proj nn_originator (db_neighs db))
      ((proj link_core (db_links db))(l \<mapsto> (p, Some i)))"
    by (rule orig_inv_same [OF D(4)]) (rule link_orig_fresh, rule LC)
  have 3: "laddr_inv ((proj nl_addresses (db_links db))(l \<mapsto> avl_init avl_comp_netaddr False))
      (proj nn_link_addresses (db_neighs db)) (proj ni_link_addresses (db_interfaces db)) (proj laddr_core (db_laddrs db))
      ((proj link_core (db_links db))(l \<mapsto> (p, Some i)))"
    by (rule laddr_inv_cong [OF laddr_inv_new_link [OF D(5)]])
      (use l in \<open>auto simp: proj_apply dest: nhdp_refs(3) [OF ok]\<close>)
  have 4: "l2hop_inv ((proj nl_2hop (db_links db))(l \<mapsto> avl_init avl_comp_netaddr False))
      (proj ni_if_twohops (db_interfaces db)) (proj l2hop_core (db_l2hops db))
      ((proj link_core (db_links db))(l \<mapsto> (p, Some i)))"
    by (rule l2hop_inv_cong [OF l2hop_inv_new_link [OF D(6)]])
      (use l in \<open>auto simp: proj_apply if_of_def dest: nhdp_refs(4) [OF ok]\<close>)
  have 5: "partner_inv ((proj nl_dualstack_partner (db_links db))(l \<mapsto> None))"
    by (rule partner_inv_new [OF D(8)]) (simp add: l)
  have "link_core ((new_link p)\<lparr>nl_local_if := Some i\<rparr>) = (p, Some i)" by (simp add: link_core_def)
  then show ?thesis
    using 1 2 3 4 5 D p i by (simp add: nhdp_ok_unfold proj_Some)
qed

lemma link_add_ok:
  assumes ok: "nhdp_ok db" and p: "db_neighs db p = Some n" and i: "db_interfaces db i = Some f" and l: "db_links db l = None"
  shows "\<exists>db'. nhdp_db_link_add ds (Some l) p i db = Some (Some l, db') \<and> nhdp_ok db'
    \<and> tables db' = (tables db)\<lparr>tb_links := (tb_links (tables db))(l \<mapsto> bare_link (fresh_link ds p i))\<rparr>"
proof -
  let ?k = "(new_link p)\<lparr>nl_local_if := Some i\<rparr>"
  let ?db = "db\<lparr>db_links := (db_links db)(l \<mapsto> ?k),
    db_interfaces := (db_interfaces db)(i \<mapsto> f\<lparr>ni_links := ni_links f @ [l]\<rparr>),
    db_neighs := (db_neighs db)(p \<mapsto> n\<lparr>nn_links := nn_links n @ [l]\<rparr>), db_link_list := db_link_list db @ [l]\<rparr>"
  let ?orig = "\<lambda>db. if na_type (nn_originator n) \<noteq> AF_UNSPEC then hook_originator (nn_originator n) l db else Some db"
  have ok1: "nhdp_inv {Nhdp_Link l} ?db" by (rule link_add_parts [OF ok p i l])
  have t1: "tables ?db = (tables db)\<lparr>tb_links := (tb_links (tables db))(l \<mapsto> bare_link ?k)\<rparr>"
    using p i by (simp add: tables_def proj_Some)
  have "\<exists>db'. ?orig ?db = Some db' \<and> nhdp_ok db' \<and> tables db' = tables ?db"
    using hook_originator_ok [OF ok1, of l ?k "n\<lparr>nn_links := nn_links n @ [l]\<rparr>"]
      nhdp_inv_weaken(2) [OF ok1, of l ?k "n\<lparr>nn_links := nn_links n @ [l]\<rparr>"] by simp
  then obtain db2 where 2: "?orig ?db = Some db2" "nhdp_ok db2" "tables db2 = tables ?db" by blast
  obtain k2 where k2: "db_links db2 l = Some k2" "bare_link k2 = bare_link ?k"
    using tables_links [of db2 l "bare_link ?k"] by (auto simp: 2(3) t1)
  have b: "bare_link (nhdp_domain_init_link ds k2) = bare_link (fresh_link ds p i)"
    by (simp add: fresh_link_def bare_init_link k2(2))
  from upd_link_ok [OF 2(2) k2(1), of "\<lambda>k. Some (nhdp_domain_init_link ds k)", OF refl]
  obtain db3 where 3: "upd_link l (\<lambda>k. Some (nhdp_domain_init_link ds k)) db2 = Some db3" "nhdp_ok db3"
    "tables db3 = (tables db2)\<lparr>tb_links := (tb_links (tables db2))(l \<mapsto> bare_link (nhdp_domain_init_link ds k2))\<rparr>"
    by auto
  have "nhdp_db_link_add ds (Some l) p i db = ?orig ?db \<bind> (\<lambda>db. upd_link l (\<lambda>k. Some (nhdp_domain_init_link ds k)) db
      \<bind> (\<lambda>db. Some (Some l, nhdp_event OBJECT_ADDED (Nhdp_Link l) db)))"
    using p i by (simp add: nhdp_db_link_add_def nhdp_interface_add_link_def upd_link_def upd_interface_def upd_neigh_def Let_def)
  then show ?thesis
    using 3 by (simp only: 2 bind.bind_lunit option.simps prod.simps) (simp add: t1 b 2(3))
qed

subsection \<open>Dualstack partners\<close>

text \<open>
  Objects of a store with a field for their partner, which neighbors and links have in the same way.
\<close>

locale partner_field =
  fixes get :: "'r \<Rightarrow> ptr option"
    and put :: "ptr option \<Rightarrow> 'r \<Rightarrow> 'r"
  assumes get_put: "get (put q r) = q"
    and put_put: "put q (put q' r) = put q r"
    and put_get: "put (get r) r = r"
begin

definition disconnect :: "ptr \<Rightarrow> (ptr \<Rightarrow> 'r option) \<Rightarrow> (ptr \<Rightarrow> 'r option) option" where
  "disconnect p m = do {
     r \<leftarrow> m p;
     (case get r of
        None \<Rightarrow> Some m
      | Some q \<Rightarrow> do {
          s \<leftarrow> m q;
          r \<leftarrow> (m(q \<mapsto> put None s)) p;
          Some (m(q \<mapsto> put None s, p \<mapsto> put None r))
        })
   }"

definition partner_set :: "ptr \<Rightarrow> ptr \<Rightarrow> (ptr \<Rightarrow> 'r option) \<Rightarrow> (ptr \<Rightarrow> 'r option) option" where
  "partner_set p q m = do {
     r \<leftarrow> m p;
     if get r \<noteq> Some q
     then do {
       m \<leftarrow> disconnect p m;
       r \<leftarrow> m p;
       Some (m(p \<mapsto> put (Some q) r))
     }
     else Some m
   }"

definition connect :: "ptr \<Rightarrow> ptr \<Rightarrow> (ptr \<Rightarrow> 'r option) \<Rightarrow> (ptr \<Rightarrow> 'r option) option" where
  "connect p q m = partner_set p q m \<bind> partner_set q p"

text \<open>The store without the partnership of \<open>p\<close>.\<close>

definition lone :: "ptr \<Rightarrow> (ptr \<Rightarrow> 'r option) \<Rightarrow> ptr \<Rightarrow> 'r option" where
  "lone p m = (\<lambda>x. map_option (\<lambda>v. if x = p \<or> get v = Some p then put None v else v) (m x))"

definition paired :: "ptr \<Rightarrow> ptr \<Rightarrow> (ptr \<Rightarrow> 'r option) \<Rightarrow> ptr \<Rightarrow> 'r option" where
  "paired p q m = (\<lambda>x. if x = p then map_option (put (Some q)) (m p) else if x = q then map_option (put (Some p)) (m q)
     else lone q (lone p m) x)"

lemma put_None: "get r = None \<Longrightarrow> put None r = r"
  using put_get [of r] by simp

lemma proj_lone:
  assumes "\<And>v q. g (put q v) = g v"
  shows "proj g (lone p m) = proj g m"
proof
  fix x show "proj g (lone p m) x = proj g m x" by (cases "m x") (simp_all add: proj_apply lone_def assms)
qed

lemma proj_paired:
  assumes "\<And>v q. g (put q v) = g v"
  shows "proj g (paired p q m) = proj g m"
proof
  fix x show "proj g (paired p q m) x = proj g m x"
    by (cases "m x") (auto simp: proj_apply paired_def lone_def assms)
qed

lemma partner_back:
  assumes "partner_inv (proj get m)" "m p = Some r" "get r = Some q"
  shows "\<exists>s. m q = Some s \<and> get s = Some p"
  using partner_invD [OF assms(1), of p q] assms(2,3) by (auto simp: proj_apply)

lemma disconnect_ok:
  assumes inv: "partner_inv (proj get m)" and p: "m p = Some r"
  shows "disconnect p m = Some (lone p m)" "partner_inv (proj get (lone p m))"
proof -
  note bk = partner_back [OF inv]
  show "disconnect p m = Some (lone p m)"
  proof (cases "get r")
    case None
    have "lone p m x = m x" for x
    proof (cases "m x")
      case (Some v)
      have "get v \<noteq> Some p" using bk [OF Some] p None by auto
      then show ?thesis using Some None p by (auto simp: lone_def put_None)
    qed (simp add: lone_def)
    then show ?thesis using p None by (simp add: disconnect_def fun_eq_iff)
  next
    case (Some q)
    obtain s where s: "m q = Some s" "get s = Some p" using bk [OF p Some] by blast
    obtain r' where r': "(m(q \<mapsto> put None s)) p = Some r'" "put None r' = put None r"
      using p s by (cases "p = q") (auto simp: put_put)
    have "(m(q \<mapsto> put None s, p \<mapsto> put None r')) x = lone p m x" for x
    proof (cases "x = p \<or> x = q")
      case True
      then show ?thesis using p s r' by (auto simp: lone_def)
    next
      case False
      have "get v \<noteq> Some p" if "m x = Some v" for v using bk [OF that] p Some False by auto
      then show ?thesis using False by (cases "m x") (auto simp: lone_def)
    qed
    then show ?thesis using p Some s r' by (simp add: disconnect_def fun_eq_iff)
  qed
  show "partner_inv (proj get (lone p m))"
  proof (rule partner_invI)
    fix x y assume "proj get (lone p m) x = Some (Some y)"
    then obtain v where m: "m x = Some v" and g: "get (if x = p \<or> get v = Some p then put None v else v) = Some y"
      by (auto simp: proj_apply lone_def)
    then have v: "m x = Some v" "get v = Some y" "x \<noteq> p" "y \<noteq> p" by (auto simp: get_put split: if_split_asm)
    then show "proj get (lone p m) y = Some (Some x)"
      using bk [OF v(1,2)] by (elim exE conjE) (simp add: proj_apply lone_def)
  qed
qed

lemma lone_apply: "lone p m p = map_option (put None) (m p)" "m x = Some v \<Longrightarrow> \<exists>w. lone p m x = Some w \<and> get w \<noteq> Some p"
  by (auto simp: lone_def get_put)

lemma connect_ok:
  assumes inv: "partner_inv (proj get m)" and p: "m p = Some r" and q: "m q = Some s" and ne: "p \<noteq> q"
  shows "connect p q m = Some (paired p q m)" "partner_inv (proj get (paired p q m))"
proof -
  note bk = partner_back [OF inv]
  show "connect p q m = Some (paired p q m)"
  proof (cases "get r = Some q")
    case True
    then have s: "get s = Some p" using bk [OF p True] q by simp
    have "paired p q m x = m x" for x
    proof -
      have "get v \<noteq> Some p" "get v \<noteq> Some q" if "m x = Some v" "x \<noteq> p" "x \<noteq> q" for v
        using bk [OF that(1)] that(2,3) True s p q by auto
      then show ?thesis
        using p q s True put_get [of r] put_get [of s] by (cases "m x") (auto simp: paired_def lone_def)
    qed
    then show ?thesis using p q s True by (simp add: connect_def partner_set_def fun_eq_iff)
  next
    case False
    let ?m1 = "lone p m"
    note d = disconnect_ok [OF inv p]
    have r1: "?m1 p = Some (put None r)" using p by (simp add: lone_apply)
    obtain s1 where s1: "?m1 q = Some s1" "get s1 \<noteq> Some p" using lone_apply(2) [of m q s p] q by blast
    note d1 = disconnect_ok [OF d(2) s1(1)]
    have "disconnect q (?m1(p \<mapsto> put (Some q) (put None r))) = Some ((lone q ?m1)(p \<mapsto> put (Some q) r))"
    proof (cases "get s1")
      case None
      then show ?thesis using d1(1) s1 ne by (simp add: disconnect_def put_put)
    next
      case (Some t)
      then have "t \<noteq> p" using s1(2) by blast
      obtain u where u: "?m1 t = Some u" using partner_back [OF d(2) s1(1) Some] by blast
      then show ?thesis
        using d1(1) s1 ne Some \<open>t \<noteq> p\<close> by (auto simp: disconnect_def put_put fun_upd_twist split: if_splits)
    qed
    moreover have "(lone q ?m1) q = Some (put None s)" "?m1 q = Some s1"
      using q s1 by (auto simp: lone_def put_put split: if_splits)
    moreover have "(lone q ?m1)(p \<mapsto> put (Some q) r, q \<mapsto> put (Some p) s) = paired p q m"
      using p q by (auto simp: paired_def fun_eq_iff)
    ultimately show ?thesis
      using False p q ne d(1) r1 s1 by (simp add: connect_def partner_set_def put_put)
  qed
  note d = disconnect_ok(2) [OF inv p]
  obtain s1 where "lone p m q = Some s1" using lone_apply(2) [of m q s p] q by blast
  note d1 = disconnect_ok(2) [OF d this]
  have "proj get (lone q (lone p m)) p = Some None" "proj get (lone q (lone p m)) q = Some None"
    using p q by (auto simp: proj_apply lone_def get_put)
  from partner_inv_connect [OF d1 this]
  have "partner_inv ((proj get (lone q (lone p m)))(p \<mapsto> Some q, q \<mapsto> Some p))" .
  moreover have "(proj get (lone q (lone p m)))(p \<mapsto> Some q, q \<mapsto> Some p) = proj get (paired p q m)"
    using p q ne by (auto simp: proj_apply paired_def get_put fun_eq_iff)
  ultimately show "partner_inv (proj get (paired p q m))" by simp
qed

end

interpretation link_partner: partner_field nl_dualstack_partner "\<lambda>q k. k\<lparr>nl_dualstack_partner := q\<rparr>"
  by unfold_locales simp_all

interpretation neigh_partner: partner_field nn_dualstack_partner "\<lambda>q n. n\<lparr>nn_dualstack_partner := q\<rparr>"
  by unfold_locales simp_all

lemma link_partner_ops:
  "nhdp_db_link_disconnect_dualstack l db = map_option (\<lambda>m. db\<lparr>db_links := m\<rparr>) (link_partner.disconnect l (db_links db))"
  "nhdp_db_link_set_partner l q db = map_option (\<lambda>m. db\<lparr>db_links := m\<rparr>) (link_partner.partner_set l q (db_links db))"
  "nhdp_db_link_connect_dualstack l q db = map_option (\<lambda>m. db\<lparr>db_links := m\<rparr>) (link_partner.connect l q (db_links db))"
proof -
  show d: "nhdp_db_link_disconnect_dualstack l db = map_option (\<lambda>m. db\<lparr>db_links := m\<rparr>) (link_partner.disconnect l (db_links db))"
    for l db
    by (cases "db_links db l")
      (auto simp: nhdp_db_link_disconnect_dualstack_def link_partner.disconnect_def upd_link_def map_option_bind o_def
        split: option.split intro!: Option.bind_cong)
  show s: "nhdp_db_link_set_partner l q db = map_option (\<lambda>m. db\<lparr>db_links := m\<rparr>) (link_partner.partner_set l q (db_links db))"
    for l q db
    by (cases "db_links db l") (simp_all add: nhdp_db_link_set_partner_def link_partner.partner_set_def d upd_link_def
        map_option_bind o_def bind_map_option)
  show "nhdp_db_link_connect_dualstack l q db = map_option (\<lambda>m. db\<lparr>db_links := m\<rparr>) (link_partner.connect l q (db_links db))"
    by (simp add: nhdp_db_link_connect_dualstack_def link_partner.connect_def s map_option_bind o_def bind_map_option)
qed

lemma neigh_partner_ops:
  "nhdp_db_neighbor_disconnect_dualstack l db = map_option (\<lambda>m. db\<lparr>db_neighs := m\<rparr>) (neigh_partner.disconnect l (db_neighs db))"
  "nhdp_db_neighbor_set_partner l q db = map_option (\<lambda>m. db\<lparr>db_neighs := m\<rparr>) (neigh_partner.partner_set l q (db_neighs db))"
  "nhdp_db_neighbor_connect_dualstack l q db = map_option (\<lambda>m. db\<lparr>db_neighs := m\<rparr>) (neigh_partner.connect l q (db_neighs db))"
proof -
  show d: "nhdp_db_neighbor_disconnect_dualstack l db = map_option (\<lambda>m. db\<lparr>db_neighs := m\<rparr>) (neigh_partner.disconnect l (db_neighs db))"
    for l db
    by (cases "db_neighs db l")
      (auto simp: nhdp_db_neighbor_disconnect_dualstack_def neigh_partner.disconnect_def upd_neigh_def map_option_bind o_def
        split: option.split intro!: Option.bind_cong)
  show s: "nhdp_db_neighbor_set_partner l q db = map_option (\<lambda>m. db\<lparr>db_neighs := m\<rparr>) (neigh_partner.partner_set l q (db_neighs db))"
    for l q db
    by (cases "db_neighs db l") (simp_all add: nhdp_db_neighbor_set_partner_def neigh_partner.partner_set_def d upd_neigh_def
        map_option_bind o_def bind_map_option)
  show "nhdp_db_neighbor_connect_dualstack l q db = map_option (\<lambda>m. db\<lparr>db_neighs := m\<rparr>) (neigh_partner.connect l q (db_neighs db))"
    by (simp add: nhdp_db_neighbor_connect_dualstack_def neigh_partner.connect_def s map_option_bind o_def bind_map_option)
qed

lemma link_store_ok:
  assumes "nhdp_inv U db" "partner_inv (proj nl_dualstack_partner m)"
    "proj link_core m = proj link_core (db_links db)" "proj nl_addresses m = proj nl_addresses (db_links db)"
    "proj nl_2hop m = proj nl_2hop (db_links db)"
  shows "nhdp_inv U (db\<lparr>db_links := m\<rparr>)"
  using assms by (simp add: nhdp_ok_unfold)

lemma neigh_store_ok:
  assumes "nhdp_inv U db" "partner_inv (proj nn_dualstack_partner m)"
    "proj nn_links m = proj nn_links (db_neighs db)" "proj nn_originator m = proj nn_originator (db_neighs db)"
    "proj nn_neigh_addresses m = proj nn_neigh_addresses (db_neighs db)" "proj nn_link_addresses m = proj nn_link_addresses (db_neighs db)"
  shows "nhdp_inv U (db\<lparr>db_neighs := m\<rparr>)"
  using assms by (simp add: nhdp_ok_unfold)

lemma bare_lone:
  "proj bare_link (link_partner.lone l m) = link_partner.lone l (proj bare_link m)"
  "proj bare_link (link_partner.paired l q m) = link_partner.paired l q (proj bare_link m)"
  "proj bare_neigh (neigh_partner.lone p n) = neigh_partner.lone p (proj bare_neigh n)"
  "proj bare_neigh (neigh_partner.paired p r n) = neigh_partner.paired p r (proj bare_neigh n)"
  by (auto simp: proj_def link_partner.paired_def link_partner.lone_def neigh_partner.paired_def neigh_partner.lone_def
      fun_eq_iff option.map_comp o_def intro!: option.map_cong)

lemma link_disconnect_ok:
  assumes ok: "nhdp_inv U db" and l: "db_links db l = Some k"
  shows "\<exists>db'. nhdp_db_link_disconnect_dualstack l db = Some db' \<and> nhdp_inv U db'
    \<and> tables db' = (tables db)\<lparr>tb_links := link_partner.lone l (tb_links (tables db))\<rparr>"
proof -
  note d = link_partner.disconnect_ok [OF nhdp_okD(8) [OF ok] l]
  have "nhdp_inv U (db\<lparr>db_links := link_partner.lone l (db_links db)\<rparr>)"
    by (rule link_store_ok [OF ok d(2)]) (simp_all add: link_partner.proj_lone)
  then show ?thesis by (simp add: link_partner_ops d(1) tables_def bare_lone)
qed

lemma link_connect_ok:
  assumes ok: "nhdp_inv U db" and l: "db_links db l = Some k" and q: "db_links db q = Some j" "l \<noteq> q"
  shows "\<exists>db'. nhdp_db_link_connect_dualstack l q db = Some db' \<and> nhdp_inv U db'
    \<and> tables db' = (tables db)\<lparr>tb_links := link_partner.paired l q (tb_links (tables db))\<rparr>"
proof -
  note d = link_partner.connect_ok [OF nhdp_okD(8) [OF ok] l q]
  have "nhdp_inv U (db\<lparr>db_links := link_partner.paired l q (db_links db)\<rparr>)"
    by (rule link_store_ok [OF ok d(2)]) (simp_all add: link_partner.proj_paired)
  then show ?thesis by (simp add: link_partner_ops d(1) tables_def bare_lone)
qed

lemma neighbor_disconnect_ok:
  assumes ok: "nhdp_inv U db" and p: "db_neighs db p = Some n"
  shows "\<exists>db'. nhdp_db_neighbor_disconnect_dualstack p db = Some db' \<and> nhdp_inv U db'
    \<and> tables db' = (tables db)\<lparr>tb_neighs := neigh_partner.lone p (tb_neighs (tables db))\<rparr>"
proof -
  note d = neigh_partner.disconnect_ok [OF nhdp_okD(7) [OF ok] p]
  have "nhdp_inv U (db\<lparr>db_neighs := neigh_partner.lone p (db_neighs db)\<rparr>)"
    by (rule neigh_store_ok [OF ok d(2)]) (simp_all add: neigh_partner.proj_lone)
  then show ?thesis by (simp add: neigh_partner_ops d(1) tables_def bare_lone)
qed

lemma neighbor_connect_ok:
  assumes ok: "nhdp_inv U db" and p: "db_neighs db p = Some n" and q: "db_neighs db q = Some m" "p \<noteq> q"
  shows "\<exists>db'. nhdp_db_neighbor_connect_dualstack p q db = Some db' \<and> nhdp_inv U db'
    \<and> tables db' = (tables db)\<lparr>tb_neighs := neigh_partner.paired p q (tb_neighs (tables db))\<rparr>"
proof -
  note d = neigh_partner.connect_ok [OF nhdp_okD(7) [OF ok] p q]
  have "nhdp_inv U (db\<lparr>db_neighs := neigh_partner.paired p q (db_neighs db)\<rparr>)"
    by (rule neigh_store_ok [OF ok d(2)]) (simp_all add: neigh_partner.proj_paired)
  then show ?thesis by (simp add: neigh_partner_ops d(1) tables_def bare_lone)
qed

subsection \<open>Removal of links\<close>

definition purge :: "('v \<Rightarrow> bool) \<Rightarrow> ('k \<Rightarrow> 'v option) \<Rightarrow> 'k \<Rightarrow> 'v option" where
  "purge P m x = (case m x of None \<Rightarrow> None | Some v \<Rightarrow> if P v then None else Some v)"

definition without_link :: "(ptr \<Rightarrow> bool) \<Rightarrow> nhdp_link \<Rightarrow> nhdp_link" where
  "without_link S k = (case nl_dualstack_partner k of None \<Rightarrow> k | Some q \<Rightarrow> if S q then k\<lparr>nl_dualstack_partner := None\<rparr> else k)"

text \<open>The links of \<open>S\<close> go with all that belongs to them; nobody has them as a partner any more.\<close>

definition remove_links :: "(ptr \<Rightarrow> bool) \<Rightarrow> nhdp_tables \<Rightarrow> nhdp_tables" where
  "remove_links S t = t
     \<lparr>tb_links := (\<lambda>l. if S l then None else map_option (without_link S) (tb_links t l)),
      tb_laddrs := purge (\<lambda>a. S (ld_link a)) (tb_laddrs t),
      tb_l2hops := purge (\<lambda>h. S (l2_link h)) (tb_l2hops t)\<rparr>"

lemma purge_purge: "purge P (purge Q m) = purge (\<lambda>v. P v \<or> Q v) m"
  by (auto simp: purge_def fun_eq_iff split: option.splits)

lemma without_link_twice: "without_link S (without_link T k) = without_link (\<lambda>l. S l \<or> T l) k"
  by (auto simp: without_link_def split: option.splits)

lemma without_none: "without_link (\<lambda>_. False) k = k"
  by (simp add: without_link_def split: option.splits)

lemma purge_none: "purge (\<lambda>_. False) m = m"
  by (simp add: purge_def fun_eq_iff split: option.splits)

lemma remove_links_twice: "remove_links S (remove_links T t) = remove_links (\<lambda>l. S l \<or> T l) t"
  by (auto simp: remove_links_def purge_purge fun_eq_iff without_link_twice option.map_comp o_def)

lemma remove_links_none: "remove_links (\<lambda>_. False) t = t"
proof -
  have "without_link (\<lambda>_. False) = (\<lambda>k. k)" by (simp add: fun_eq_iff without_none)
  then show ?thesis by (simp add: remove_links_def purge_none option.map_ident)
qed

lemma fold_remove_links: "fold (\<lambda>l. remove_links (\<lambda>x. x = l)) ls t = remove_links (\<lambda>l. l \<in> set ls) t"
proof (induction ls arbitrary: t)
  case (Cons l ls)
  have "(\<lambda>x. x \<in> set ls \<or> x = l) = (\<lambda>x. x \<in> set (l # ls))" by (auto simp: fun_eq_iff)
  then show ?case by (simp add: Cons remove_links_twice del: set_simps)
qed (simp add: remove_links_none)

lemma restrict_purge:
  assumes "\<And>x. x \<in> S \<longleftrightarrow> (\<exists>v. m x = Some v \<and> P v)"
  shows "m |` (- S) = purge P m"
proof
  fix x
  show "(m |` (- S)) x = purge P m x"
    using assms [of x] by (cases "m x") (auto simp: restrict_map_def purge_def)
qed

lemma link_orig_removed: "link_orig U NO (LC(l := None)) = link_orig (insert (Nhdp_Link l) U) NO LC"
  by (auto simp: link_orig_def)

lemma unhook_link_ok:
  assumes ok: "nhdp_inv (insert (Nhdp_Link l) U) db" and l: "db_links db l = Some k" and q: "nl_dualstack_partner k = None"
    and empty: "\<And>x a. db_laddrs db x = Some a \<Longrightarrow> ld_link a \<noteq> l" "\<And>x h. db_l2hops db x = Some h \<Longrightarrow> l2_link h \<noteq> l"
  shows "\<exists>db'. unhook_link l db = Some db' \<and> nhdp_inv U db' \<and> tables db' = (tables db)\<lparr>tb_links := (tb_links (tables db))(l := None)\<rparr>"
proof -
  note D = nhdp_okD [OF ok]
  from link_parts [OF ok l] obtain n i f where n: "db_neighs db (nl_neigh k) = Some n" "nl_local_if k = Some i"
    "db_interfaces db i = Some f" "proj link_core (db_links db) l = Some (nl_neigh k, Some i)" .
  let ?LC = "(proj link_core (db_links db))(l := None)"
  note 1 = link_inv_remove [OF D(3) n(4), of "nn_links n" "ni_links f"]
  have 2: "orig_inv U (proj ni_link_originators (db_interfaces db)) (proj nn_originator (db_neighs db)) ?LC"
    by (rule orig_inv_same [OF D(4)]) (rule link_orig_removed)
  have 3: "laddr_inv ((proj nl_addresses (db_links db))(l := None)) (proj nn_link_addresses (db_neighs db))
      (proj ni_link_addresses (db_interfaces db)) (proj laddr_core (db_laddrs db)) ?LC"
    by (rule laddr_inv_cong [OF laddr_inv_free_link [OF D(5)]]) (use empty(1) in \<open>auto simp: proj_apply\<close>)
  have 4: "l2hop_inv ((proj nl_2hop (db_links db))(l := None)) (proj ni_if_twohops (db_interfaces db))
      (proj l2hop_core (db_l2hops db)) ?LC"
    by (rule l2hop_inv_cong [OF l2hop_inv_free_link [OF D(6)]]) (use empty(2) in \<open>auto simp: proj_apply if_of_def\<close>)
  have 5: "partner_inv ((proj nl_dualstack_partner (db_links db))(l := None))"
    by (rule partner_inv_free [OF D(8)]) (simp add: l q proj_apply)
  have r: "list_take_out (db_link_list db) l = Some (remove1 l (db_link_list db))"
    "list_take_out (nn_links n) l = Some (remove1 l (nn_links n))" "list_take_out (ni_links f) l = Some (remove1 l (ni_links f))"
    using 1(1,2,3) n by (simp_all add: list_take_out_Some proj_Some)
  show ?thesis
    using 1(4) 2 3 4 5 D n l r
    by (simp add: unhook_link_def nhdp_interface_remove_link_def upd_neigh_def upd_interface_def upd_link_def nhdp_ok_unfold
        tables_def proj_Some)
qed

text \<open>What the trees and lists of an object hold.\<close>

lemma avl_distinct: "index_ok c T \<Longrightarrow> distinct (avl_elements T)" "multi_ok c T \<Longrightarrow> distinct (avl_elements T)"
  by (simp_all add: index_ok_def multi_ok_def avl_ok_def avl_elements_def)

lemma in_avl_elements: "x \<in> set (avl_elements T) \<longleftrightarrow> (\<exists>k. (k, x) \<in> index_set T)"
  by (force simp: elements_entries)

lemma link_addresses:
  assumes "nhdp_inv U db" "db_links db l = Some k"
  shows "distinct (avl_elements (nl_addresses k))"
    "x \<in> set (avl_elements (nl_addresses k)) \<longleftrightarrow> (\<exists>a. db_laddrs db x = Some a \<and> ld_link a = l)"
    "nhdp_db_link_addr_get k addr = Some x \<longleftrightarrow> (\<exists>a. db_laddrs db x = Some a \<and> ld_link a = l \<and> ld_addr a = addr)"
proof -
  note h = laddr_invD(1) [OF nhdp_okD(5) [OF assms(1)]]
  have T: "proj nl_addresses (db_links db) l = Some (nl_addresses k)" using assms(2) by (simp add: proj_apply)
  show "distinct (avl_elements (nl_addresses k))" by (rule avl_distinct(1) [OF htree.hookedD(1) [OF h T]])
  show "x \<in> set (avl_elements (nl_addresses k)) \<longleftrightarrow> (\<exists>a. db_laddrs db x = Some a \<and> ld_link a = l)"
    by (auto simp: in_avl_elements htree.hookedD(2) [OF h T] proj_apply)
  show "nhdp_db_link_addr_get k addr = Some x \<longleftrightarrow> (\<exists>a. db_laddrs db x = Some a \<and> ld_link a = l \<and> ld_addr a = addr)"
    by (auto simp: nhdp_db_link_addr_get_def hooked_find_Some [OF h T] proj_apply)
qed

lemma link_2hops:
  assumes "nhdp_inv U db" "db_links db l = Some k"
  shows "distinct (avl_elements (nl_2hop k))"
    "x \<in> set (avl_elements (nl_2hop k)) \<longleftrightarrow> (\<exists>h. db_l2hops db x = Some h \<and> l2_link h = l)"
    "nhdp_db_link_2hop_get k addr = Some x \<longleftrightarrow> (\<exists>h. db_l2hops db x = Some h \<and> l2_link h = l \<and> l2_addr h = addr)"
proof -
  note h = l2hop_invD(1) [OF nhdp_okD(6) [OF assms(1)]]
  have T: "proj nl_2hop (db_links db) l = Some (nl_2hop k)" using assms(2) by (simp add: proj_apply)
  show "distinct (avl_elements (nl_2hop k))" by (rule avl_distinct(1) [OF htree.hookedD(1) [OF h T]])
  show "x \<in> set (avl_elements (nl_2hop k)) \<longleftrightarrow> (\<exists>h. db_l2hops db x = Some h \<and> l2_link h = l)"
    by (auto simp: in_avl_elements htree.hookedD(2) [OF h T] proj_apply)
  show "nhdp_db_link_2hop_get k addr = Some x \<longleftrightarrow> (\<exists>h. db_l2hops db x = Some h \<and> l2_link h = l \<and> l2_addr h = addr)"
    by (auto simp: nhdp_db_link_2hop_get_def hooked_find_Some [OF h T] proj_apply)
qed

lemma neighbor_addresses:
  assumes "nhdp_inv U db" "db_neighs db p = Some n"
  shows "distinct (avl_elements (nn_neigh_addresses n))"
    "x \<in> set (avl_elements (nn_neigh_addresses n)) \<longleftrightarrow> (\<exists>a. db_naddrs db x = Some a \<and> nx_neigh a = p)"
proof -
  note h = naddr_invD(2) [OF nhdp_okD(1) [OF assms(1)]]
  have T: "proj nn_neigh_addresses (db_neighs db) p = Some (nn_neigh_addresses n)" using assms(2) by (simp add: proj_apply)
  show "distinct (avl_elements (nn_neigh_addresses n))" by (rule avl_distinct(1) [OF htree.hookedD(1) [OF h T]])
  show "x \<in> set (avl_elements (nn_neigh_addresses n)) \<longleftrightarrow> (\<exists>a. db_naddrs db x = Some a \<and> nx_neigh a = p)"
    by (auto simp: in_avl_elements htree.hookedD(2) [OF h T] proj_apply)
qed

lemma neighbor_links:
  assumes "nhdp_inv U db" "db_neighs db p = Some n"
  shows "distinct (nn_links n)" "l \<in> set (nn_links n) \<longleftrightarrow> (\<exists>k. db_links db l = Some k \<and> nl_neigh k = p)"
proof -
  have T: "proj nn_links (db_neighs db) p = Some (nn_links n)" using assms(2) by (simp add: proj_apply)
  note m = link_inv_members(1,2) [OF nhdp_okD(3) [OF assms(1)] T]
  show "distinct (nn_links n)" by (rule m)
  show "l \<in> set (nn_links n) \<longleftrightarrow> (\<exists>k. db_links db l = Some k \<and> nl_neigh k = p)"
    using m(1) [of l] by (auto simp: proj_apply link_core_def)
qed

lemma interface_links:
  assumes "nhdp_inv U db" "db_interfaces db i = Some f"
  shows "distinct (ni_links f)" "l \<in> set (ni_links f) \<longleftrightarrow> (\<exists>k. db_links db l = Some k \<and> nl_local_if k = Some i)"
proof -
  have T: "proj ni_links (db_interfaces db) i = Some (ni_links f)" using assms(2) by (simp add: proj_apply)
  note m = link_inv_members(3,4) [OF nhdp_okD(3) [OF assms(1)] T]
  show "distinct (ni_links f)" by (rule m)
  show "l \<in> set (ni_links f) \<longleftrightarrow> (\<exists>k. db_links db l = Some k \<and> nl_local_if k = Some i)"
    using m(1) [of l] by (auto simp: proj_apply link_core_def)
qed

lemma neigh_list_ok:
  assumes "nhdp_inv U db"
  shows "distinct (db_neigh_list db)" "p \<in> set (db_neigh_list db) \<longleftrightarrow> db_neighs db p \<noteq> None"
  using nhdp_okD(2) [OF assms] by (auto simp: neigh_inv_def proj_apply dom_def)

lemma addresses_of_link_removed:
  assumes ok: "nhdp_inv U db" and l: "db_links db l = Some k"
  shows "\<exists>db'. for_each nhdp_db_link_addr_remove (avl_elements (nl_addresses k)) db = Some db' \<and> nhdp_inv U db'
    \<and> tables db' = (tables db)\<lparr>tb_laddrs := purge (\<lambda>a. ld_link a = l) (db_laddrs db)\<rparr>"
proof -
  have "\<forall>x \<in> set (avl_elements (nl_addresses k)). db_laddrs db x \<noteq> None" by (auto simp: link_addresses(2) [OF assms])
  from remove_laddrs_ok [OF ok link_addresses(1) [OF assms] this] show ?thesis
    by (simp only: restrict_purge [OF link_addresses(2) [OF assms]])
qed

lemma l2hops_of_link_removed:
  assumes ok: "nhdp_inv U db" and l: "db_links db l = Some k"
  shows "\<exists>db'. for_each nhdp_db_link_2hop_remove (avl_elements (nl_2hop k)) db = Some db' \<and> nhdp_inv U db'
    \<and> tables db' = (tables db)\<lparr>tb_l2hops := purge (\<lambda>h. l2_link h = l) (db_l2hops db)\<rparr>"
proof -
  have "\<forall>x \<in> set (avl_elements (nl_2hop k)). db_l2hops db x \<noteq> None" by (auto simp: link_2hops(2) [OF assms])
  from remove_l2hops_ok [OF ok link_2hops(1) [OF assms] this] show ?thesis
    by (simp only: restrict_purge [OF link_2hops(2) [OF assms]])
qed

lemma naddrs_of_neighbor_removed:
  assumes ok: "nhdp_inv U db" and p: "db_neighs db p = Some n"
  shows "\<exists>db'. for_each nhdp_db_neighbor_addr_remove (avl_elements (nn_neigh_addresses n)) db = Some db' \<and> nhdp_inv U db'
    \<and> tables db' = (tables db)\<lparr>tb_naddrs := purge (\<lambda>a. nx_neigh a = p) (db_naddrs db)\<rparr>"
proof -
  have "\<forall>x \<in> set (avl_elements (nn_neigh_addresses n)). db_naddrs db x \<noteq> None" by (auto simp: neighbor_addresses(2) [OF assms])
  from remove_naddrs_ok [OF ok neighbor_addresses(1) [OF assms] this] show ?thesis
    by (simp only: restrict_purge [OF neighbor_addresses(2) [OF assms]])
qed

lemma unhook_part_ok:
  assumes ok: "nhdp_ok db" and l: "db_links db l = Some k" and n: "db_neighs db (nl_neigh k) = Some n"
  shows "\<exists>db'. (if na_type (nn_originator n) \<noteq> AF_UNSPEC then unhook_originator l db else Some db) = Some db'
    \<and> nhdp_inv {Nhdp_Link l} db' \<and> tables db' = tables db"
  using unhook_originator_ok [OF ok l _ n] nhdp_inv_weaken(1) [OF ok l n] by simp

lemma link_remove_ok:
  assumes ok: "nhdp_ok db" and l: "db_links db l = Some k"
  shows "\<exists>db'. nhdp_db_link_remove l db = Some db' \<and> nhdp_ok db' \<and> tables db' = remove_links (\<lambda>x. x = l) (tables db)"
proof -
  let ?db = "nhdp_event OBJECT_REMOVED (Nhdp_Link l) db"
  have "nhdp_ok ?db" "db_links ?db l = Some k" using ok l by simp_all
  from upd_link_ok [OF this, of "\<lambda>k. Some (stop_link_timers k)", OF refl]
  obtain db1 where 1: "upd_link l (\<lambda>k. Some (stop_link_timers k)) ?db = Some db1" "nhdp_ok db1"
    "tables db1 = (tables db)\<lparr>tb_links := (tb_links (tables db))(l \<mapsto> bare_link (stop_link_timers k))\<rparr>"
    by (auto simp: stop_link_timers_def link_core_def)
  obtain k1 where k1: "db_links db1 l = Some k1" using tables_links [of db1 l] by (auto simp: 1(3))
  have "(if nhdp_db_link_is_dualstack k1 then nhdp_db_link_disconnect_dualstack l db1 else Some db1)
      = nhdp_db_link_disconnect_dualstack l db1"
    using k1 by (auto simp: nhdp_db_link_is_dualstack_def nhdp_db_link_disconnect_dualstack_def)
  then obtain db2 where 2: "(if nhdp_db_link_is_dualstack k1 then nhdp_db_link_disconnect_dualstack l db1 else Some db1) = Some db2"
    "nhdp_ok db2"
    "tables db2 = (tables db1)\<lparr>tb_links := link_partner.lone l (tb_links (tables db1))\<rparr>"
    using link_disconnect_ok [OF 1(2) k1] by auto
  obtain k2 where k2: "db_links db2 l = Some k2" "bare_link k2 = (bare_link k1)\<lparr>nl_dualstack_partner := None\<rparr>"
    using tables_links [of db2 l] by (auto simp: 2(3) tables_simps k1 link_partner.lone_apply)
  have nk: "nl_neigh k2 = nl_neigh k1" using arg_cong [OF k2(2), of nl_neigh] by simp
  obtain n where n: "db_neighs db2 (nl_neigh k2) = Some n" using nhdp_refs(2) [OF 2(2) k2(1)] by blast
  obtain db3 where 3: "(if na_type (nn_originator n) \<noteq> AF_UNSPEC then unhook_originator l db2 else Some db2) = Some db3"
    "nhdp_inv {Nhdp_Link l} db3" "tables db3 = tables db2"
    using unhook_part_ok [OF 2(2) k2(1) n] by blast
  obtain k3 where k3: "db_links db3 l = Some k3" using tables_links [of db3 l] by (auto simp: 3(3) tables_simps k2)
  obtain db4 where 4: "for_each nhdp_db_link_addr_remove (avl_elements (nl_addresses k3)) db3 = Some db4" "nhdp_inv {Nhdp_Link l} db4"
    "tables db4 = (tables db3)\<lparr>tb_laddrs := purge (\<lambda>a. ld_link a = l) (db_laddrs db3)\<rparr>"
    using addresses_of_link_removed [OF 3(2) k3] by blast
  obtain k4 where k4: "db_links db4 l = Some k4"
    using tables_links [of db4 l] by (auto simp: 4(3) tables_simps k3)
  obtain db5 where 5: "for_each nhdp_db_link_2hop_remove (avl_elements (nl_2hop k4)) db4 = Some db5" "nhdp_inv {Nhdp_Link l} db5"
    "tables db5 = (tables db4)\<lparr>tb_l2hops := purge (\<lambda>h. l2_link h = l) (db_l2hops db4)\<rparr>"
    using l2hops_of_link_removed [OF 4(2) k4] by blast
  obtain k5 where k5: "db_links db5 l = Some k5" "bare_link k5 = bare_link k2"
    using tables_links [of db5 l] by (auto simp: 5(3) 4(3) 3(3) tables_simps k2)
  have q5: "nl_dualstack_partner k5 = None"
    using arg_cong [OF k5(2), of nl_dualstack_partner] arg_cong [OF k2(2), of nl_dualstack_partner] by simp
  have A: "ld_link a \<noteq> l" if "db_laddrs db5 x = Some a" for x a
    using that by (auto simp: tables_simps(1) [symmetric] 5(3) 4(3) purge_def split: option.splits if_splits)
  have H: "l2_link h \<noteq> l" if "db_l2hops db5 x = Some h" for x h
    using that by (auto simp: tables_simps(2) [symmetric] 5(3) purge_def split: option.splits if_splits)
  obtain db6 where 6: "unhook_link l db5 = Some db6" "nhdp_ok db6"
    "tables db6 = (tables db5)\<lparr>tb_links := (tb_links (tables db5))(l := None)\<rparr>"
    using unhook_link_ok [OF 5(2) k5(1) q5] A H by blast
  have "nhdp_db_link_remove l db = Some db6"
    using 1(1) k1 2(1) k2(1) nk n 3(1) k3 4(1) k4 5(1) 6(1) by (simp add: nhdp_db_link_remove_def Let_def)
  moreover have "tables db6 = remove_links (\<lambda>x. x = l) (tables db)"
  proof -
    have "(link_partner.lone l (T(l \<mapsto> v)))(l := None) = (\<lambda>q. if q = l then None else map_option (without_link (\<lambda>x. x = l)) (T q))"
      for v and T :: "ptr \<Rightarrow> nhdp_link option"
      by (auto simp: fun_eq_iff link_partner.lone_def without_link_def intro!: option.map_cong split: option.split)
    then show ?thesis
      by (simp add: tables_simps(1,2) [symmetric] 1(3) 2(3) 3(3) 4(3) 5(3) 6(3) remove_links_def del: fun_upd_apply)
  qed
  ultimately show ?thesis using 6(2) by blast
qed

subsection \<open>Neighbors come and go\<close>

lemma link_orig_other:
  "(\<And>l i. LC l = Some (p, i) \<Longrightarrow> Nhdp_Link l \<in> U) \<Longrightarrow> link_orig U (NO(p := v)) LC = link_orig U NO LC"
  by (auto simp: link_orig_def set_originator_of_def fun_eq_iff intro!: Option.bind_cong)

lemma link_orig_objects [simp]:
  "link_orig (insert (Nhdp_Neighbor p) U) NO LC = link_orig U NO LC" "link_orig (U - {Nhdp_Neighbor p}) NO LC = link_orig U NO LC"
  by (auto simp: link_orig_def fun_eq_iff)

lemma orig_inv_objects [simp]:
  "orig_inv (insert (Nhdp_Neighbor p) U) IO NO LC = orig_inv U IO NO LC"
  "orig_inv (U - {Nhdp_Neighbor p}) IO NO LC = orig_inv U IO NO LC"
  by (simp_all add: orig_inv_def)

lemma new_neighbor_fields [simp]:
  "nn_originator (nhdp_domain_init_neighbor ds new_neighbor) = NETADDR_UNSPEC"
  "nn_links (nhdp_domain_init_neighbor ds new_neighbor) = []"
  "nn_neigh_addresses (nhdp_domain_init_neighbor ds new_neighbor) = avl_init avl_comp_netaddr False"
  "nn_link_addresses (nhdp_domain_init_neighbor ds new_neighbor) = avl_init avl_comp_netaddr True"
  "nn_dualstack_partner (nhdp_domain_init_neighbor ds new_neighbor) = None"
  "bare_neigh (nhdp_domain_init_neighbor ds new_neighbor) = nhdp_domain_init_neighbor ds new_neighbor"
  by (simp_all add: nhdp_domain_init_neighbor_def new_neighbor_def bare_neigh_def)

lemma neighbor_add_ok:
  assumes ok: "nhdp_inv U db" and p: "db_neighs db p = None"
  shows "\<exists>db'. nhdp_db_neighbor_add ds (Some p) db = (Some p, db') \<and> nhdp_inv U db'
    \<and> tables db' = (tables db)\<lparr>tb_neighs := (tb_neighs (tables db))(p \<mapsto> nhdp_domain_init_neighbor ds new_neighbor)\<rparr>"
proof -
  note D = nhdp_okD [OF ok]
  have none: "LC l \<noteq> Some (p, i)" if "LC = proj link_core (db_links db)" for LC l i
    using link_refsD [OF link_invD(5) [OF D(3)], of l p i] p that by (auto simp: proj_apply)
  have 1: "naddr_inv (db_naddr_tree db) ((proj nn_neigh_addresses (db_neighs db))(p \<mapsto> avl_init avl_comp_netaddr False)) (proj naddr_core (db_naddrs db))"
    by (rule naddr_inv_new [OF D(1)]) (simp add: p)
  have 2: "neigh_inv U (db_neigh_list db @ [p]) (db_originator_tree db) ((proj nn_originator (db_neighs db))(p \<mapsto> NETADDR_UNSPEC))"
    by (rule neigh_inv_new [OF D(2)]) (simp_all add: p)
  have 3: "link_inv (db_link_list db) ((proj nn_links (db_neighs db))(p \<mapsto> [])) (proj ni_links (db_interfaces db)) (proj link_core (db_links db))"
    by (rule link_inv_new_neighbor [OF D(3)]) (simp add: p)
  have 4: "orig_inv U (proj ni_link_originators (db_interfaces db)) ((proj nn_originator (db_neighs db))(p \<mapsto> NETADDR_UNSPEC)) (proj link_core (db_links db))"
    by (rule orig_inv_same [OF D(4)]) (rule link_orig_other, simp add: none)
  have 5: "laddr_inv (proj nl_addresses (db_links db)) ((proj nn_link_addresses (db_neighs db))(p \<mapsto> avl_init avl_comp_netaddr True))
      (proj ni_link_addresses (db_interfaces db)) (proj laddr_core (db_laddrs db)) (proj link_core (db_links db))"
    by (rule laddr_inv_new_neighbor [OF D(5)]) (simp add: none)
  have 7: "partner_inv ((proj nn_dualstack_partner (db_neighs db))(p \<mapsto> None))"
    by (rule partner_inv_new [OF D(7)]) (simp add: p)
  show ?thesis
    using 1 2 3 4 5 D(6,8) 7 by (simp add: nhdp_db_neighbor_add_def nhdp_ok_unfold tables_def)
qed

lemma release_neighbor_ok:
  assumes ok: "nhdp_ok db" and p: "db_neighs db p = Some n" and q: "nn_dualstack_partner n = None"
    and empty: "\<And>l k. db_links db l = Some k \<Longrightarrow> nl_neigh k \<noteq> p" "\<And>x a. db_naddrs db x = Some a \<Longrightarrow> nx_neigh a \<noteq> p"
  shows "\<exists>db'. release_neighbor p db = Some db' \<and> nhdp_ok db' \<and> tables db' = (tables db)\<lparr>tb_neighs := (tb_neighs (tables db))(p := None)\<rparr>"
proof -
  note D = nhdp_okD [OF ok]
  let ?NO = "proj nn_originator (db_neighs db)"
  have none: "LC l \<noteq> Some (p, i)" if "LC = proj link_core (db_links db)" for LC l i
    using empty(1) [of l] that by (auto simp: proj_apply link_core_def)
  have p': "?NO p = Some (nn_originator n)" using p by (simp add: proj_apply)
  obtain OT where OT: "(if na_type (nn_originator n) \<noteq> AF_UNSPEC then tree_remove (db_originator_tree db) p
      else Some (db_originator_tree db)) = Some OT" "neigh_inv (insert (Nhdp_Neighbor p) {}) (db_neigh_list db) OT ?NO"
    using neigh_inv_unhook [OF D(2) p'] neigh_inv_none(1) [OF D(2) p']
    by (cases "na_type (nn_originator n) = AF_UNSPEC") (simp_all add: tree_remove_Some)
  note 2 = neigh_inv_free [OF OT(2) p']
  have links: "nn_links n = []" using neighbor_links(2) [OF ok p] empty(1) by (metis set_empty subsetI subset_empty empty_iff equals0I)
  have 1: "naddr_inv (db_naddr_tree db) ((proj nn_neigh_addresses (db_neighs db))(p := None)) (proj naddr_core (db_naddrs db))"
  proof (rule naddr_inv_free [OF D(1)])
    show "proj nn_neigh_addresses (db_neighs db) p = Some (nn_neigh_addresses n)" using p by (simp add: proj_apply)
    show "index_set (nn_neigh_addresses n) = {}"
    proof (rule equals0I)
      fix z assume "z \<in> index_set (nn_neigh_addresses n)"
      then have "snd z \<in> set (avl_elements (nn_neigh_addresses n))"
        unfolding in_avl_elements by (metis prod.collapse)
      then show False using neighbor_addresses(2) [OF ok p] empty(2) by blast
    qed
  qed
  have 3: "link_inv (db_link_list db) ((proj nn_links (db_neighs db))(p := None)) (proj ni_links (db_interfaces db)) (proj link_core (db_links db))"
    by (rule link_inv_free_neighbor [OF D(3)]) (simp add: p proj_apply links)
  have 4: "orig_inv {} (proj ni_link_originators (db_interfaces db)) (?NO(p := None)) (proj link_core (db_links db))"
    by (rule orig_inv_same [OF D(4)]) (rule link_orig_other, simp add: none)
  note 5 = laddr_inv_free_neighbor [OF D(5), of p]
  have 7: "partner_inv ((proj nn_dualstack_partner (db_neighs db))(p := None))"
    by (rule partner_inv_free [OF D(7)]) (simp add: p proj_apply q)
  show ?thesis
    using 1 2 3 4 5 7 D(6,8) OT(1) p list_take_out_Some [OF 2(1)]
    by (simp add: release_neighbor_def nhdp_ok_unfold tables_def)
qed

definition remove_neighbor :: "ptr \<Rightarrow> nhdp_tables \<Rightarrow> nhdp_tables" where
  "remove_neighbor p t = (remove_links (\<lambda>l. case tb_links t l of None \<Rightarrow> False | Some k \<Rightarrow> nl_neigh k = p) t)
     \<lparr>tb_neighs := (neigh_partner.lone p (tb_neighs t))(p := None), tb_naddrs := purge (\<lambda>a. nx_neigh a = p) (tb_naddrs t)\<rparr>"

lemma remove_links_cong: "(\<And>l. S l = T l) \<Longrightarrow> remove_links S t = remove_links T t"
  by presburger

lemma links_of_neighbor_removed:
  assumes ok: "nhdp_ok db" and p: "db_neighs db p = Some n"
  shows "\<exists>db'. for_each nhdp_db_link_remove (nn_links n) db = Some db' \<and> nhdp_ok db' \<and> tables db' =
    remove_links (\<lambda>l. case tb_links (tables db) l of None \<Rightarrow> False | Some k \<Rightarrow> nl_neigh k = p) (tables db)"
proof -
  have "\<exists>db'. for_each nhdp_db_link_remove (nn_links n) db = Some db' \<and> nhdp_ok db'
      \<and> tables db' = fold (\<lambda>l. remove_links (\<lambda>x. x = l)) (nn_links n) (tables db)"
  proof (rule for_each_ok [where P = "\<lambda>l t. tb_links t l \<noteq> None"])
    show "\<exists>db'. nhdp_db_link_remove l db = Some db' \<and> nhdp_ok db' \<and> tables db' = remove_links (\<lambda>x. x = l) (tables db)"
      if "nhdp_ok db" "tb_links (tables db) l \<noteq> None" for l db
      using link_remove_ok [OF that(1)] that(2) by (auto simp: tables_simps)
    show "\<forall>l \<in> set (nn_links n). tb_links (tables db) l \<noteq> None"
      using neighbor_links(2) [OF ok p] by (auto simp: tables_simps)
  qed (use neighbor_links(1) [OF ok p] ok in \<open>simp_all add: remove_links_def\<close>)
  moreover have "(l \<in> set (nn_links n)) = (case tb_links (tables db) l of None \<Rightarrow> False | Some k \<Rightarrow> nl_neigh k = p)" for l
    using neighbor_links(2) [OF ok p, of l] by (cases "db_links db l") (auto simp: tables_def proj_apply)
  ultimately show ?thesis by (simp add: fold_remove_links)
qed

lemma neighbor_remove_ok:
  assumes ok: "nhdp_ok db" and p: "db_neighs db p = Some n"
  shows "\<exists>db'. nhdp_db_neighbor_remove p db = Some db' \<and> nhdp_ok db' \<and> tables db' = remove_neighbor p (tables db)"
proof -
  let ?db = "nhdp_event OBJECT_REMOVED (Nhdp_Neighbor p) db" and ?t = "tables db"
  let ?S = "\<lambda>l. case tb_links ?t l of None \<Rightarrow> False | Some k \<Rightarrow> nl_neigh k = p"
  obtain db1 where 1: "nhdp_db_neighbor_disconnect_dualstack p ?db = Some db1" "nhdp_ok db1"
    "tables db1 = ?t\<lparr>tb_neighs := neigh_partner.lone p (tb_neighs ?t)\<rparr>"
    using neighbor_disconnect_ok [of "{}" ?db p n] ok p by auto
  obtain n1 where n1: "db_neighs db1 p = Some n1" "bare_neigh n1 = (bare_neigh n)\<lparr>nn_dualstack_partner := None\<rparr>"
    using tables_neighs [of db1 p] by (auto simp: 1(3) tables_simps p neigh_partner.lone_apply)
  obtain db2 where 2: "for_each nhdp_db_link_remove (nn_links n1) db1 = Some db2" "nhdp_ok db2" "tables db2 = remove_links ?S (tables db1)"
    using links_of_neighbor_removed [OF 1(2) n1(1)] by (auto simp: 1(3))
  obtain n2 where n2: "db_neighs db2 p = Some n2" "bare_neigh n2 = bare_neigh n1"
    using tables_neighs [of db2 p] tables_simps(4) [OF n1(1)] by (auto simp: 2(3) remove_links_def)
  obtain db3 where 3: "for_each nhdp_db_neighbor_addr_remove (avl_elements (nn_neigh_addresses n2)) db2 = Some db3" "nhdp_ok db3"
    "tables db3 = (tables db2)\<lparr>tb_naddrs := purge (\<lambda>a. nx_neigh a = p) (db_naddrs db2)\<rparr>"
    using naddrs_of_neighbor_removed [OF 2(2) n2(1)] by blast
  obtain n3 where n3: "db_neighs db3 p = Some n3" "bare_neigh n3 = bare_neigh n2"
    using tables_neighs [of db3 p] tables_simps(4) [OF n2(1)] by (auto simp: 3(3))
  have q: "nn_dualstack_partner n3 = None"
    using arg_cong [OF n3(2), of nn_dualstack_partner] arg_cong [OF n2(2), of nn_dualstack_partner]
      arg_cong [OF n1(2), of nn_dualstack_partner] by simp
  have L: "nl_neigh k \<noteq> p" if k: "db_links db3 l = Some k" for l k
  proof -
    obtain j where j: "tb_links ?t l = Some j" "nl_neigh j \<noteq> p" "without_link ?S j = bare_link k"
      using tables_simps(5) [OF k] by (auto simp: 3(3) 2(3) 1(3) remove_links_def split: if_splits option.splits)
    have "nl_neigh (without_link ?S j) = nl_neigh j" by (simp add: without_link_def split: option.split)
    then show ?thesis using j(2,3) by simp
  qed
  have A: "nx_neigh a \<noteq> p" if "db_naddrs db3 x = Some a" for x a
    using that by (auto simp: tables_simps(3) [symmetric] 3(3) purge_def split: option.splits if_splits)
  obtain db4 where 4: "release_neighbor p db3 = Some db4" "nhdp_ok db4" "tables db4 = (tables db3)\<lparr>tb_neighs := (tb_neighs (tables db3))(p := None)\<rparr>"
    using release_neighbor_ok [OF 3(2) n3(1) q] L A by blast
  have "nhdp_db_neighbor_remove p db = Some db4"
    using 1(1) n1 2(1) n2 3(1) 4(1) by (simp add: nhdp_db_neighbor_remove_def Let_def)
  moreover have "tables db4 = remove_neighbor p ?t"
    by (simp add: tables_simps(1-3) [symmetric] 1(3) 2(3) 3(3) 4(3) remove_neighbor_def remove_links_def
        del: fun_upd_apply cong: if_cong)
  ultimately show ?thesis using 4(2) by blast
qed

end
