(* ===== verification/Nhdp_Moves.thy ===== *)
theory Nhdp_Moves
  imports Nhdp_Tables
begin

text \<open>
  The operations that move objects of the neighborhood database from one owner to another: the originator
  of a neighbor, the links and addresses of a neighbor that is joined to another one, the address of a link.
\<close>

subsection \<open>Originators of neighbors\<close>

text \<open>The objects that are in trees of originators because of a neighbor.\<close>

definition own :: "ptr \<Rightarrow> nhdp_tables \<Rightarrow> nhdp_object set" where
  "own p t = insert (Nhdp_Neighbor p) (Nhdp_Link ` {l. \<exists>k. tb_links t l = Some k \<and> nl_neigh k = p})"

lemma in_own:
  "Nhdp_Neighbor q \<in> own p t \<longleftrightarrow> q = p" "Nhdp_Link l \<in> own p t \<longleftrightarrow> (\<exists>k. tb_links t l = Some k \<and> nl_neigh k = p)"
  by (auto simp: own_def)

lemma map_eqI: "(\<And>x y. f x = Some y \<longleftrightarrow> g x = Some y) \<Longrightarrow> f = g"
  by (rule ext) (metis not_None_eq)

lemma nhdp_inv_objects:
  assumes ok: "nhdp_inv U db"
    and L: "\<And>l k n. tb_links (tables db) l = Some k \<Longrightarrow> tb_neighs (tables db) (nl_neigh k) = Some n \<Longrightarrow>
      na_type (nn_originator n) \<noteq> AF_UNSPEC \<Longrightarrow> Nhdp_Link l \<in> U' \<longleftrightarrow> Nhdp_Link l \<in> U"
    and N: "\<And>p n. tb_neighs (tables db) p = Some n \<Longrightarrow> na_type (nn_originator n) \<noteq> AF_UNSPEC \<Longrightarrow>
      Nhdp_Neighbor p \<in> U' \<longleftrightarrow> Nhdp_Neighbor p \<in> U"
  shows "nhdp_inv U' db"
proof -
  let ?NO = "proj nn_originator (db_neighs db)" and ?LC = "proj link_core (db_links db)"
  have "link_orig U' ?NO ?LC l = Some y \<longleftrightarrow> link_orig U ?NO ?LC l = Some y" for l y
  proof (cases y)
    case (Pair a i)
    have "Nhdp_Link l \<in> U' \<longleftrightarrow> Nhdp_Link l \<in> U"
      if "?LC l = Some (p, Some i)" "?NO p = Some a" "na_type a \<noteq> AF_UNSPEC" for p
      using that L [of l] by (auto simp: tables_def proj_apply link_core_def)
    then show ?thesis unfolding Pair link_orig_Some by blast
  qed
  then have "link_orig U' ?NO ?LC = link_orig U ?NO ?LC" by (rule map_eqI)
  moreover have "orig_of U' ?NO p = Some y \<longleftrightarrow> orig_of U ?NO p = Some y" for p y
  proof (cases y)
    case (Pair a i)
    have "Nhdp_Neighbor p \<in> U' \<longleftrightarrow> Nhdp_Neighbor p \<in> U" if "?NO p = Some a" "na_type a \<noteq> AF_UNSPEC"
      using that N [of p] by (auto simp: tables_def proj_apply)
    then show ?thesis unfolding Pair orig_of_Some by blast
  qed
  then have "orig_of U' ?NO = orig_of U ?NO" by (rule map_eqI)
  ultimately show ?thesis
    using ok orig_inv_same [OF nhdp_okD(4) [OF ok]] neigh_inv_same [OF nhdp_okD(2) [OF ok]] by (simp add: nhdp_ok_unfold)
qed

lemma unhook_all_ok:
  assumes "nhdp_inv U db" "distinct ls" "tb_neighs (tables db) p = Some n" "na_type (nn_originator n) \<noteq> AF_UNSPEC"
    "\<forall>l \<in> set ls. Nhdp_Link l \<notin> U \<and> (\<exists>k. tb_links (tables db) l = Some k \<and> nl_neigh k = p)"
  shows "\<exists>db'. for_each unhook_originator ls db = Some db' \<and> nhdp_inv (Nhdp_Link ` set ls \<union> U) db' \<and> tables db' = tables db"
  using assms
proof (induction ls arbitrary: U db)
  case (Cons l ls)
  obtain k where k: "db_links db l = Some k" "nl_neigh k = p"
    using Cons.prems(5) tables_links [of db l] by auto
  obtain m where m: "db_neighs db p = Some m" "nn_originator m = nn_originator n"
    using Cons.prems(3) tables_neighs [of db p] by auto
  obtain db1 where 1: "unhook_originator l db = Some db1" "nhdp_inv (insert (Nhdp_Link l) U) db1" "tables db1 = tables db"
    using unhook_originator_ok [OF Cons.prems(1) k(1), of m] Cons.prems(4,5) k m by auto
  have "\<exists>db'. for_each unhook_originator ls db1 = Some db' \<and> nhdp_inv (Nhdp_Link ` set ls \<union> insert (Nhdp_Link l) U) db' \<and> tables db' = tables db1"
    by (rule Cons.IH [OF 1(2)]) (use Cons.prems in \<open>auto simp: 1(3)\<close>)
  then show ?case using 1(1,3) by simp
qed simp

lemma hook_all_ok:
  assumes "nhdp_inv U db" "distinct ls" "tb_neighs (tables db) p = Some n" "na_type (nn_originator n) \<noteq> AF_UNSPEC"
    "\<forall>l \<in> set ls. Nhdp_Link l \<in> U \<and> (\<exists>k. tb_links (tables db) l = Some k \<and> nl_neigh k = p)"
  shows "\<exists>db'. for_each (hook_originator (nn_originator n)) ls db = Some db' \<and> nhdp_inv (U - Nhdp_Link ` set ls) db' \<and> tables db' = tables db"
  using assms
proof (induction ls arbitrary: U db)
  case (Cons l ls)
  obtain k where k: "db_links db l = Some k" "nl_neigh k = p"
    using Cons.prems(5) tables_links [of db l] by auto
  obtain m where m: "db_neighs db p = Some m" "nn_originator m = nn_originator n"
    using Cons.prems(3) tables_neighs [of db p] by auto
  obtain db1 where 1: "hook_originator (nn_originator n) l db = Some db1" "nhdp_inv (U - {Nhdp_Link l}) db1" "tables db1 = tables db"
    using hook_originator_ok [OF Cons.prems(1) k(1), of m] Cons.prems(4,5) k m by auto
  have "\<exists>db'. for_each (hook_originator (nn_originator n)) ls db1 = Some db' \<and> nhdp_inv (U - {Nhdp_Link l} - Nhdp_Link ` set ls) db' \<and> tables db' = tables db1"
    by (rule Cons.IH [OF 1(2)]) (use Cons.prems in \<open>auto simp: 1(3)\<close>)
  then show ?case using 1(1,3) by (simp add: Diff_insert2 [symmetric])
qed simp

lemma links_own:
  assumes "nhdp_inv U db" "db_neighs db p = Some n"
  shows "insert (Nhdp_Neighbor p) (Nhdp_Link ` set (nn_links n) \<union> V) = own p (tables db) \<union> V"
    "\<And>l. l \<in> set (nn_links n) \<Longrightarrow> \<exists>k. tb_links (tables db) l = Some k \<and> nl_neigh k = p"
proof -
  have "l \<in> set (nn_links n) \<longleftrightarrow> (\<exists>k. tb_links (tables db) l = Some k \<and> nl_neigh k = p)" for l
    using neighbor_links(2) [OF assms, of l] by (auto simp: tables_def proj_apply)
  then show "insert (Nhdp_Neighbor p) (Nhdp_Link ` set (nn_links n) \<union> V) = own p (tables db) \<union> V"
    "\<And>l. l \<in> set (nn_links n) \<Longrightarrow> \<exists>k. tb_links (tables db) l = Some k \<and> nl_neigh k = p"
    by (auto simp: own_def)
qed

lemma tables_originators [simp]: "tables (db\<lparr>db_originator_tree := t\<rparr>) = tables db"
  by (simp add: tables_def)

text \<open>A neighbor with its links leaves the trees of originators.\<close>

lemma leave_originators:
  assumes ok: "nhdp_inv U db" and p: "db_neighs db p = Some n" "na_type (nn_originator n) \<noteq> AF_UNSPEC"
    and U: "own p (tables db) \<inter> U = {}"
  shows "\<exists>t db'. tree_remove (db_originator_tree db) p = Some t \<and>
    for_each unhook_originator (nn_links n) (db\<lparr>db_originator_tree := t\<rparr>) = Some db' \<and>
    nhdp_inv (own p (tables db) \<union> U) db' \<and> tables db' = tables db"
proof -
  let ?t = "avl_remove (db_originator_tree db) p"
  have "Nhdp_Neighbor p \<notin> U" using U by (auto simp: own_def)
  note u = neigh_inv_unhook [OF nhdp_okD(2) [OF ok], of p "nn_originator n", OF _ p(2) this]
  have t: "tree_remove (db_originator_tree db) p = Some ?t"
    using u(1) p(1) by (simp add: tree_remove_Some proj_apply)
  have ok1: "nhdp_inv (insert (Nhdp_Neighbor p) U) (db\<lparr>db_originator_tree := ?t\<rparr>)"
    using u(2) ok p(1) by (simp add: nhdp_ok_unfold proj_apply)
  have "\<forall>l \<in> set (nn_links n). Nhdp_Link l \<notin> U" using U links_own(2) [OF ok p(1)] by (fastforce simp: own_def)
  then show ?thesis
    using unhook_all_ok [OF ok1 neighbor_links(1) [OF ok p(1)], of p "bare_neigh n"] t p links_own [OF ok p(1)]
    by (simp add: tables_simps)
qed

lemma change_originator:
  assumes ok: "nhdp_inv U db" and p: "db_neighs db p = Some n" and U: "own p (tables db) \<subseteq> U"
  shows "\<exists>db'. upd_neigh p (\<lambda>n. Some (n\<lparr>nn_originator := a\<rparr>)) db = Some db' \<and> nhdp_inv U db' \<and>
    tables db' = (tables db)\<lparr>tb_neighs := (tb_neighs (tables db))(p \<mapsto> (bare_neigh n)\<lparr>nn_originator := a\<rparr>)\<rparr>
    \<and> db_originator_tree db' = db_originator_tree db"
proof -
  have 1: "neigh_inv U (db_neigh_list db) (db_originator_tree db) ((proj nn_originator (db_neighs db))(p \<mapsto> a))"
    by (rule neigh_inv_change [OF nhdp_okD(2) [OF ok]]) (use p U in \<open>auto simp: own_def proj_apply\<close>)
  have 2: "orig_inv U (proj ni_link_originators (db_interfaces db)) ((proj nn_originator (db_neighs db))(p \<mapsto> a)) (proj link_core (db_links db))"
    by (rule orig_inv_same [OF nhdp_okD(4) [OF ok]], rule link_orig_other)
      (use U in \<open>auto simp: own_def tables_def proj_apply link_core_def\<close>)
  show ?thesis using 1 2 ok p by (simp add: upd_neigh_def nhdp_ok_unfold tables_def)
qed

lemma join_originators:
  assumes ok: "nhdp_inv U db" and p: "db_neighs db p = Some n" "na_type (nn_originator n) \<noteq> AF_UNSPEC"
    and U: "own p (tables db) \<subseteq> U" and k: "avl_find (db_originator_tree db) (nn_originator n) = None"
  shows "\<exists>db'. for_each (hook_originator (nn_originator n)) (nn_links n)
      (db\<lparr>db_originator_tree := tree_insert (db_originator_tree db) (nn_originator n) p\<rparr>) = Some db' \<and>
    nhdp_inv (U - own p (tables db)) db' \<and> tables db' = tables db"
proof -
  let ?db = "db\<lparr>db_originator_tree := tree_insert (db_originator_tree db) (nn_originator n) p\<rparr>"
  have "Nhdp_Neighbor p \<in> U" using U by (auto simp: own_def)
  from neigh_inv_hook [OF nhdp_okD(2) [OF ok] _ p(2) this k]
  have ok1: "nhdp_inv (U - {Nhdp_Neighbor p}) ?db"
    using ok p(1) by (simp add: nhdp_ok_unfold proj_apply)
  have "\<forall>l \<in> set (nn_links n). Nhdp_Link l \<in> U" using U links_own(2) [OF ok p(1)] by (fastforce simp: own_def)
  moreover have "U - {Nhdp_Neighbor p} - Nhdp_Link ` set (nn_links n) = U - own p (tables db)"
    using links_own(1) [OF ok p(1), of "{}"] by auto
  ultimately show ?thesis
    using hook_all_ok [OF ok1 neighbor_links(1) [OF ok p(1)], of p "bare_neigh n"] p links_own(2) [OF ok p(1)]
    by (simp add: tables_simps)
qed

lemma map_option_keep: "(\<And>v. m = Some v \<Longrightarrow> f v = v) \<Longrightarrow> map_option f m = m"
  by (cases m) simp_all

definition renamed :: "ptr \<Rightarrow> netaddr \<Rightarrow> ptr \<Rightarrow> nhdp_neighbor \<Rightarrow> nhdp_neighbor" where
  "renamed p a q n =
     (if q = p then n\<lparr>nn_originator := a\<rparr>
      else if na_type a \<noteq> AF_UNSPEC \<and> nn_originator n = a then n\<lparr>nn_originator := netaddr_invalidate\<rparr> else n)"

definition tables_originator :: "ptr \<Rightarrow> netaddr \<Rightarrow> nhdp_tables \<Rightarrow> nhdp_tables" where
  "tables_originator p a t = t\<lparr>tb_neighs := (\<lambda>q. map_option (renamed p a q) (tb_neighs t q))\<rparr>"

lemma find_originator:
  assumes "nhdp_inv U db"
  shows "nhdp_db_neighbor_get_by_originator db a = Some q \<longleftrightarrow>
    Nhdp_Neighbor q \<notin> U \<and> na_type a \<noteq> AF_UNSPEC \<and> (\<exists>n. tb_neighs (tables db) q = Some n \<and> nn_originator n = a)"
  using originator_find [OF nhdp_okD(2) [OF assms], of a q]
  by (auto simp: nhdp_db_neighbor_get_by_originator_def tables_def proj_apply)

lemma own_neighs: "own p (t\<lparr>tb_neighs := N\<rparr>) = own p t"
  by (simp add: own_def)

lemma originator_unique:
  assumes "nhdp_inv U db" "tb_neighs (tables db) q = Some n" "tb_neighs (tables db) r = Some m"
    "nn_originator n = nn_originator m" "na_type (nn_originator m) \<noteq> AF_UNSPEC" "Nhdp_Neighbor q \<notin> U" "Nhdp_Neighbor r \<notin> U"
  shows "q = r"
  using find_originator [OF assms(1), of "nn_originator m" q] find_originator [OF assms(1), of "nn_originator m" r] assms
  by simp

lemma leave_stage:
  assumes ok: "nhdp_ok db" and p: "db_neighs db p = Some n"
  shows "\<exists>db'. (if na_type (nn_originator n) \<noteq> AF_UNSPEC
      then do {
        t \<leftarrow> tree_remove (db_originator_tree db) p;
        for_each unhook_originator (nn_links n) (db\<lparr>db_originator_tree := t\<rparr>)
      }
      else Some db) = Some db' \<and> nhdp_inv (own p (tables db)) db' \<and> tables db' = tables db"
proof (cases "na_type (nn_originator n) = AF_UNSPEC")
  case True
  have "nhdp_inv (own p (tables db)) db"
    by (rule nhdp_inv_objects [OF ok]) (use p True in \<open>auto simp: in_own tables_simps\<close>)
  then show ?thesis using True by simp
next
  case False
  then show ?thesis using leave_originators [OF ok p] by auto
qed

lemma invalidate_stage:
  assumes ok: "nhdp_inv (own p (tables db)) db" and a: "na_type a \<noteq> AF_UNSPEC"
    and q: "nhdp_db_neighbor_get_by_originator db a = Some q"
  shows "\<exists>db'. do {
      t \<leftarrow> tree_remove (db_originator_tree db) q;
      m \<leftarrow> db_neighs db q;
      db \<leftarrow> for_each unhook_originator (nn_links m) (db\<lparr>db_originator_tree := t\<rparr>);
      upd_neigh q (\<lambda>m. Some (m\<lparr>nn_originator := netaddr_invalidate\<rparr>)) db } = Some db' \<and>
    nhdp_inv (own p (tables db)) db' \<and> q \<noteq> p \<and> (\<exists>m. db_neighs db q = Some m \<and> nn_originator m = a \<and>
      tables db' = (tables db)\<lparr>tb_neighs := (tb_neighs (tables db))(q \<mapsto> (bare_neigh m)\<lparr>nn_originator := netaddr_invalidate\<rparr>)\<rparr>)"
proof -
  let ?t = "tables db"
  obtain m where m: "db_neighs db q = Some m" "nn_originator m = a" and qp: "q \<noteq> p"
    using find_originator [OF ok, of a q] q tables_neighs [of db q] by (auto simp: in_own)
  have "own q ?t \<inter> own p ?t = {}" using qp by (auto simp: own_def)
  then obtain t db1 where 1: "tree_remove (db_originator_tree db) q = Some t"
    "for_each unhook_originator (nn_links m) (db\<lparr>db_originator_tree := t\<rparr>) = Some db1"
    "nhdp_inv (own q ?t \<union> own p ?t) db1" "tables db1 = ?t"
    using leave_originators [OF ok m(1)] m(2) a by blast
  obtain m1 where m1: "db_neighs db1 q = Some m1" "bare_neigh m1 = bare_neigh m"
    using tables_neighs [of db1 q] tables_simps(4) [OF m(1)] by (auto simp: 1(4))
  obtain db2 where 2: "upd_neigh q (\<lambda>m. Some (m\<lparr>nn_originator := netaddr_invalidate\<rparr>)) db1 = Some db2"
    "nhdp_inv (own q ?t \<union> own p ?t) db2"
    "tables db2 = ?t\<lparr>tb_neighs := (tb_neighs ?t)(q \<mapsto> (bare_neigh m)\<lparr>nn_originator := netaddr_invalidate\<rparr>)\<rparr>"
    using change_originator [OF 1(3) m1(1)] by (auto simp: 1(4) m1(2))
  have "nhdp_inv (own p ?t) db2"
    by (rule nhdp_inv_objects [OF 2(2)]) (use qp in \<open>auto simp: in_own 2(3) split: if_splits\<close>)
  then show ?thesis using 1(1,2) 2(1,3) m qp by simp
qed

lemma neighbor_originator_ok:
  assumes ok: "nhdp_ok db" and p: "db_neighs db p = Some n"
  shows "\<exists>db'. nhdp_db_neighbor_set_originator p a db = Some db' \<and> nhdp_ok db' \<and> tables db' = tables_originator p a (tables db)"
proof (cases "nn_originator n = a")
  case True
  have "renamed p a q m = m" if "tb_neighs (tables db) q = Some m" for q m
    using originator_unique [OF ok that tables_simps(4) [OF p]] True tables_simps(4) [OF p] that by (auto simp: renamed_def)
  then have "(\<lambda>q. map_option (renamed p a q) (tb_neighs (tables db) q)) = tb_neighs (tables db)"
    by (auto simp: fun_eq_iff intro!: map_option_keep)
  then show ?thesis using True ok p by (simp add: nhdp_db_neighbor_set_originator_def tables_originator_def)
next
  case False
  let ?t = "tables db" and ?U = "own p (tables db)"
  obtain db1 where 1: "(if na_type (nn_originator n) \<noteq> AF_UNSPEC
      then do {
        t \<leftarrow> tree_remove (db_originator_tree db) p;
        for_each unhook_originator (nn_links n) (db\<lparr>db_originator_tree := t\<rparr>)
      }
      else Some db) = Some db1" "nhdp_inv ?U db1" "tables db1 = ?t"
    using leave_stage [OF ok p] by blast
  let ?N = "\<lambda>q. if q = p then tb_neighs ?t q else map_option (renamed p a q) (tb_neighs ?t q)"
  have "\<exists>db2. (case nhdp_db_neighbor_get_by_originator db1 a of
        None \<Rightarrow> Some db1
      | Some q \<Rightarrow> do {
          t \<leftarrow> tree_remove (db_originator_tree db1) q;
          m \<leftarrow> db_neighs db1 q;
          db \<leftarrow> for_each unhook_originator (nn_links m) (db1\<lparr>db_originator_tree := t\<rparr>);
          upd_neigh q (\<lambda>m. Some (m\<lparr>nn_originator := netaddr_invalidate\<rparr>)) db
        }) = Some db2 \<and> nhdp_inv ?U db2 \<and> tables db2 = ?t\<lparr>tb_neighs := ?N\<rparr>"
  proof (cases "nhdp_db_neighbor_get_by_originator db1 a")
    case None
    have "renamed p a q m = m" if "tb_neighs ?t q = Some m" "q \<noteq> p" for q m
      using find_originator [OF 1(2), of a q] None that by (auto simp: renamed_def in_own 1(3))
    then have "?N = tb_neighs ?t" by (auto simp: fun_eq_iff intro!: map_option_keep)
    then show ?thesis using None 1 by simp
  next
    case (Some q)
    then have a: "na_type a \<noteq> AF_UNSPEC" using find_originator [OF 1(2)] by blast
    have U: "nhdp_inv (own p (tables db1)) db1" using 1(2,3) by simp
    obtain db2 m where 2: "q \<noteq> p" "db_neighs db1 q = Some m" "nn_originator m = a" "nhdp_inv ?U db2"
      "tables db2 = ?t\<lparr>tb_neighs := (tb_neighs ?t)(q \<mapsto> (bare_neigh m)\<lparr>nn_originator := netaddr_invalidate\<rparr>)\<rparr>"
      "do {
        t \<leftarrow> tree_remove (db_originator_tree db1) q;
        m \<leftarrow> db_neighs db1 q;
        db \<leftarrow> for_each unhook_originator (nn_links m) (db1\<lparr>db_originator_tree := t\<rparr>);
        upd_neigh q (\<lambda>m. Some (m\<lparr>nn_originator := netaddr_invalidate\<rparr>)) db } = Some db2"
      using invalidate_stage [OF U a Some] 1(3) by auto
    have m: "tb_neighs ?t q = Some (bare_neigh m)" using tables_simps(4) [OF 2(2)] 1(3) by simp
    have "renamed p a r k = k" if "tb_neighs ?t r = Some k" "r \<noteq> p" "r \<noteq> q" for r k
      using originator_unique [OF 1(2), of r k q "bare_neigh m"] that m 2(1,3) by (auto simp: renamed_def 1(3) in_own)
    then have "?N = (tb_neighs ?t)(q \<mapsto> (bare_neigh m)\<lparr>nn_originator := netaddr_invalidate\<rparr>)"
      using m 2(1,3) a by (auto simp: fun_eq_iff renamed_def intro!: map_option_keep)
    then show ?thesis using 2(4,5,6) Some by simp
  qed
  then obtain db2 where 2: "(case nhdp_db_neighbor_get_by_originator db1 a of
        None \<Rightarrow> Some db1
      | Some q \<Rightarrow> do {
          t \<leftarrow> tree_remove (db_originator_tree db1) q;
          m \<leftarrow> db_neighs db1 q;
          db \<leftarrow> for_each unhook_originator (nn_links m) (db1\<lparr>db_originator_tree := t\<rparr>);
          upd_neigh q (\<lambda>m. Some (m\<lparr>nn_originator := netaddr_invalidate\<rparr>)) db
        }) = Some db2" "nhdp_inv ?U db2" "tables db2 = ?t\<lparr>tb_neighs := ?N\<rparr>"
    by blast
  obtain n2 where n2: "db_neighs db2 p = Some n2" "bare_neigh n2 = bare_neigh n"
    using tables_neighs [of db2 p] tables_simps(4) [OF p] by (auto simp: 2(3))
  obtain db3 where 3: "upd_neigh p (\<lambda>n. Some (n\<lparr>nn_originator := a\<rparr>)) db2 = Some db3" "nhdp_inv ?U db3"
    "tables db3 = tables_originator p a ?t" "db_originator_tree db3 = db_originator_tree db2"
    using change_originator [OF 2(2) n2(1), of a] tables_simps(4) [OF p]
    by (auto simp: 2(3) own_neighs n2(2) tables_originator_def renamed_def fun_eq_iff)
  obtain n3 where n3: "db_neighs db3 p = Some n3" "(bare_neigh n)\<lparr>nn_originator := a\<rparr> = bare_neigh n3"
    using tables_neighs [of db3 p] tables_simps(4) [OF p] by (auto simp: 3(3) tables_originator_def renamed_def)
  have n3a: "nn_originator n3 = a" using arg_cong [OF n3(2), of nn_originator] by simp
  have "\<exists>db'. (if na_type a \<noteq> AF_UNSPEC
      then do {
        n \<leftarrow> db_neighs db3 p;
        for_each (hook_originator a) (nn_links n) (db3\<lparr>db_originator_tree := tree_insert (db_originator_tree db3) a p\<rparr>)
      }
      else Some db3) = Some db' \<and> nhdp_ok db' \<and> tables db' = tables db3"
  proof (cases "na_type a = AF_UNSPEC")
    case True
    have unset: "na_type (nn_originator m) = AF_UNSPEC" if "tb_neighs (tables db3) p = Some m" for m
      using that tables_simps(4) [OF n3(1)] n3a True by auto
    have links: "tb_links (tables db3) = tb_links ?t" by (simp add: 3(3) tables_originator_def)
    have "nhdp_ok db3"
      by (rule nhdp_inv_objects [OF 3(2)]) (use unset in \<open>auto simp: in_own links\<close>)
    then show ?thesis using True by simp
  next
    case False
    have inval: "nn_originator (renamed p a q m) = a \<Longrightarrow> q = p" for q m
      using False by (cases "nn_originator m = a") (auto simp: renamed_def split: if_split_asm dest: sym)
    have "nhdp_db_neighbor_get_by_originator db2 a \<noteq> Some q" for q
    proof
      assume "nhdp_db_neighbor_get_by_originator db2 a = Some q"
      with find_originator [OF 2(2), of a q] obtain m where m: "q \<noteq> p" "?N q = Some m" "nn_originator m = a"
        by (auto simp: in_own 2(3))
      obtain k where "m = renamed p a q k" using m(1,2) by auto
      then show False using inval [of q k] m(1,3) by simp
    qed
    then have "avl_find (db_originator_tree db3) a = None"
      by (cases "avl_find (db_originator_tree db3) a") (simp_all add: 3(4) nhdp_db_neighbor_get_by_originator_def)
    moreover have "own p (tables db3) = ?U" by (simp add: 3(3) tables_originator_def own_neighs)
    ultimately show ?thesis
      using join_originators [OF 3(2) n3(1)] n3(1) n3a False by auto
  qed
  then obtain db' where 4: "(if na_type a \<noteq> AF_UNSPEC
      then do {
        n \<leftarrow> db_neighs db3 p;
        for_each (hook_originator a) (nn_links n) (db3\<lparr>db_originator_tree := tree_insert (db_originator_tree db3) a p\<rparr>)
      }
      else Some db3) = Some db'" "nhdp_ok db'" "tables db' = tables db3"
    by blast
  have "nhdp_db_neighbor_set_originator p a db = Some db'"
    unfolding nhdp_db_neighbor_set_originator_def using p False by (simp only: bind.bind_lunit if_False 1(1) 2(1) 3(1) 4(1))
  then show ?thesis using 4 3(3) by simp
qed

subsection \<open>Joining two neighbors\<close>

text \<open>A link without addresses goes from one neighbor to another one.\<close>

lemma move_link:
  assumes ok: "nhdp_inv (insert (Nhdp_Link l) U) db" and l: "db_links db l = Some k" and p: "db_neighs db (nl_neigh k) = Some n"
    and m: "((db_neighs db)(nl_neigh k \<mapsto> n\<lparr>nn_links := remove1 l (nn_links n)\<rparr>)) q = Some m"
    and a: "\<And>x a. db_laddrs db x = Some a \<Longrightarrow> ld_link a \<noteq> l"
    and N_def: "N = (db_neighs db)(nl_neigh k \<mapsto> n\<lparr>nn_links := remove1 l (nn_links n)\<rparr>, q \<mapsto> m\<lparr>nn_links := nn_links m @ [l]\<rparr>)"
  shows "l \<in> set (nn_links n)"
    "nhdp_inv (insert (Nhdp_Link l) U) (db\<lparr>db_neighs := N, db_links := (db_links db)(l \<mapsto> k\<lparr>nl_neigh := q\<rparr>)\<rparr>)"
    "tables (db\<lparr>db_neighs := N, db_links := (db_links db)(l \<mapsto> k\<lparr>nl_neigh := q\<rparr>)\<rparr>) =
      (tables db)\<lparr>tb_links := (tb_links (tables db))(l \<mapsto> (bare_link k)\<lparr>nl_neigh := q\<rparr>)\<rparr>"
proof -
  note D = nhdp_okD [OF ok]
  from link_parts [OF ok l] obtain i where i: "nl_local_if k = Some i"
    "proj link_core (db_links db) l = Some (nl_neigh k, Some i)" by blast
  have N: "proj f N = proj f (db_neighs db)" if "f (n\<lparr>nn_links := remove1 l (nn_links n)\<rparr>) = f n" "f (m\<lparr>nn_links := nn_links m @ [l]\<rparr>) = f m"
    for f :: "nhdp_neighbor \<Rightarrow> 'b"
    unfolding N_def by (rule proj_same2 [OF p m that])
  have T: "((proj nn_links (db_neighs db))(nl_neigh k \<mapsto> remove1 l (nn_links n))) q = Some (nn_links m)"
    using m by (auto simp: proj_apply split: if_splits)
  note r = link_inv_move [OF D(3) i(2), of "nn_links n", OF _ T]
  show "l \<in> set (nn_links n)" using r(1) p by (simp add: proj_apply)
  have 1: "link_inv (db_link_list db) (proj nn_links N) (proj ni_links (db_interfaces db)) ((proj link_core (db_links db))(l \<mapsto> (q, Some i)))"
    using r(2) p by (simp add: N_def proj_Some)
  have 2: "orig_inv (insert (Nhdp_Link l) U) (proj ni_link_originators (db_interfaces db)) (proj nn_originator (db_neighs db))
      ((proj link_core (db_links db))(l \<mapsto> (q, Some i)))"
    by (rule orig_inv_same [OF D(4)], rule link_orig_cong) auto
  have 3: "laddr_inv (proj nl_addresses (db_links db)) (proj nn_link_addresses (db_neighs db)) (proj ni_link_addresses (db_interfaces db))
      (proj laddr_core (db_laddrs db)) ((proj link_core (db_links db))(l \<mapsto> (q, Some i)))"
    by (rule laddr_inv_cong [OF D(5)]) (use a in \<open>auto simp: proj_apply\<close>)
  have 4: "l2hop_inv (proj nl_2hop (db_links db)) (proj ni_if_twohops (db_interfaces db)) (proj l2hop_core (db_l2hops db))
      ((proj link_core (db_links db))(l \<mapsto> (q, Some i)))"
    by (rule l2hop_inv_cong [OF D(6)]) (use i in \<open>auto simp: if_of_def\<close>)
  have c: "link_core (k\<lparr>nl_neigh := q\<rparr>) = (q, Some i)" using i by (simp add: link_core_def)
  show "nhdp_inv (insert (Nhdp_Link l) U) (db\<lparr>db_neighs := N, db_links := (db_links db)(l \<mapsto> k\<lparr>nl_neigh := q\<rparr>)\<rparr>)"
    using 1 2 3 4 D l c by (simp add: nhdp_ok_unfold N)
  show "tables (db\<lparr>db_neighs := N, db_links := (db_links db)(l \<mapsto> k\<lparr>nl_neigh := q\<rparr>)\<rparr>) =
      (tables db)\<lparr>tb_links := (tb_links (tables db))(l \<mapsto> (bare_link k)\<lparr>nl_neigh := q\<rparr>)\<rparr>"
    by (simp add: tables_def N)
qed

lemma no_addresses:
  assumes ok: "nhdp_inv U db" and l: "db_links db l = Some k"
  shows "avl_is_empty (nl_addresses k) \<longleftrightarrow> (\<forall>x a. db_laddrs db x = Some a \<longrightarrow> ld_link a \<noteq> l)"
proof -
  have "avl_ok (nl_addresses k)"
    using htree.hookedD(1) [OF laddr_invD(1) [OF nhdp_okD(5) [OF ok]], of l "nl_addresses k"] l
    by (simp add: proj_apply index_ok_def)
  then have "avl_is_empty (nl_addresses k) \<longleftrightarrow> set (avl_elements (nl_addresses k)) = {}"
    by (simp add: avl_is_empty_iff elements_entries)
  also have "\<dots> \<longleftrightarrow> (\<forall>x a. db_laddrs db x = Some a \<longrightarrow> ld_link a \<noteq> l)" 
    by (simp only: set_eq_iff empty_iff link_addresses(2) [OF ok l]) blast
  finally show ?thesis .
qed

lemma hook_part_ok:
  assumes ok: "nhdp_inv {Nhdp_Link l} db" and l: "db_links db l = Some k" and n: "db_neighs db (nl_neigh k) = Some n" "nn_originator n = a"
  shows "\<exists>db'. (if na_type a \<noteq> AF_UNSPEC then hook_originator a l db else Some db) = Some db' \<and> nhdp_ok db' \<and> tables db' = tables db"
  using hook_originator_ok [OF ok l _ n(1)] nhdp_inv_weaken(2) [OF ok l n(1)] n(2) by auto

lemma join_link_ok:
  assumes ok: "nhdp_ok db" and l: "db_links db l = Some k" and s: "db_neighs db (nl_neigh k) = Some s"
    and d: "db_neighs db q = Some d" and ne: "q \<noteq> nl_neigh k" and a: "\<And>x a. db_laddrs db x = Some a \<Longrightarrow> ld_link a \<noteq> l"
  shows "\<exists>db'. join_link q (nl_neigh k) l db = Some db' \<and> nhdp_ok db' \<and>
    tables db' = (tables db)\<lparr>tb_links := (tb_links (tables db))(l \<mapsto> (bare_link k)\<lparr>nl_neigh := q\<rparr>)\<rparr>"
proof -
  from link_parts [OF ok l] obtain i where i: "nl_local_if k = Some i" by blast
  have e: "avl_is_empty (nl_addresses k)" using no_addresses [OF ok l] a by blast
  obtain db1 where 1: "(if na_type (nn_originator s) \<noteq> AF_UNSPEC then unhook_originator l db else Some db) = Some db1"
    "nhdp_inv {Nhdp_Link l} db1" "tables db1 = tables db"
    using unhook_part_ok [OF ok l s] by blast
  have same: "db_neighs db1 = db_neighs db" "db_links db1 = db_links db" "db_laddrs db1 = db_laddrs db"
    using 1(1) l i by (auto simp: unhook_originator_def upd_interface_def Let_def split: if_splits bind_splits)
  let ?s = "s\<lparr>nn_links := remove1 l (nn_links s)\<rparr>" and ?d = "d\<lparr>nn_links := nn_links d @ [l]\<rparr>"
  let ?N = "(db_neighs db)(nl_neigh k \<mapsto> ?s, q \<mapsto> ?d)" and ?L = "(db_links db)(l \<mapsto> k\<lparr>nl_neigh := q\<rparr>)"
  let ?db = "db1\<lparr>db_neighs := ?N, db_links := ?L\<rparr>"
  have "db_links db1 l = Some k" "db_neighs db1 (nl_neigh k) = Some s" "((db_neighs db1)(nl_neigh k \<mapsto> ?s)) q = Some d"
    "\<And>x a. db_laddrs db1 x = Some a \<Longrightarrow> ld_link a \<noteq> l" "?N = (db_neighs db1)(nl_neigh k \<mapsto> ?s, q \<mapsto> ?d)"
    using l s d ne a by (simp_all add: same)
  note m = move_link [OF 1(2) this]
  have ok2: "nhdp_inv {Nhdp_Link l} ?db" using m(2) by (simp add: same)
  have t2: "tables ?db = (tables db)\<lparr>tb_links := (tb_links (tables db))(l \<mapsto> (bare_link k)\<lparr>nl_neigh := q\<rparr>)\<rparr>"
    using m(3) 1(3) by (simp add: same)
  have L: "db_links ?db l = Some (k\<lparr>nl_neigh := q\<rparr>)" "db_neighs ?db (nl_neigh (k\<lparr>nl_neigh := q\<rparr>)) = Some ?d" "nn_originator ?d = nn_originator d"
    by simp_all
  let ?hook = "\<lambda>db. if na_type (nn_originator d) \<noteq> AF_UNSPEC then hook_originator (nn_originator d) l db else Some db"
  obtain db3 where 3: "?hook ?db = Some db3" "nhdp_ok db3" "tables db3 = tables ?db"
    using hook_part_ok [OF ok2 L] by blast
  have "join_link q (nl_neigh k) l db = ?hook db1 \<bind> (\<lambda>db. Some (db\<lparr>db_neighs := ?N, db_links := ?L\<rparr>))"
  proof -
    have "upd_neigh (nl_neigh k) (\<lambda>n. do {
            xs \<leftarrow> list_take_out (nn_links n) l;
            Some (n\<lparr>nn_links := xs\<rparr>) }) db4 \<bind> (\<lambda>db.
          upd_neigh q (\<lambda>n. Some (n\<lparr>nn_links := nn_links n @ [l]\<rparr>)) db \<bind>
          upd_link l (\<lambda>k. Some (k\<lparr>nl_neigh := q\<rparr>))) = Some (db4\<lparr>db_neighs := ?N, db_links := ?L\<rparr>)"
      if "db_neighs db4 = db_neighs db" "db_links db4 = db_links db" for db4
      using that s d l ne m(1) by (simp add: upd_neigh_def upd_link_def list_take_out_Some)
    moreover have "db_neighs db4 = db_neighs db \<and> db_links db4 = db_links db" if "?hook db1 = Some db4" for db4
      using that l i same by (auto simp: hook_originator_def upd_interface_def split: if_splits bind_splits)
    ultimately show ?thesis
      using l e s d by (simp add: join_link_def 1(1)) (auto intro!: Option.bind_cong simp del: fun_upd_apply)
  qed
  also have "\<dots> = ?hook ?db"
    using l i by (cases "db_interfaces db1 i") (simp_all add: hook_originator_def upd_interface_def same)
  finally show ?thesis using 3 t2 by simp
qed

definition touch :: "('v option \<Rightarrow> 'v option) \<Rightarrow> ('k \<Rightarrow> bool) \<Rightarrow> ('k \<Rightarrow> 'v option) \<Rightarrow> 'k \<Rightarrow> 'v option" where
  "touch h S m x = (if S x then h (m x) else m x)"

lemma touch_step: "touch h (\<lambda>x. x \<in> set xs) (m(x := h (m x))) = touch h (\<lambda>y. y \<in> set (x # xs)) m" if "x \<notin> set xs"
  using that by (auto simp: touch_def fun_eq_iff)

lemma touch_none [simp]: "touch h (\<lambda>_. False) m = m"
  by (simp add: touch_def fun_eq_iff)

lemma fold_links: "distinct ls \<Longrightarrow> fold (\<lambda>l t. t\<lparr>tb_links := (tb_links t)(l := h (tb_links t l))\<rparr>) ls t
    = t\<lparr>tb_links := touch h (\<lambda>l. l \<in> set ls) (tb_links t)\<rparr>" for t :: nhdp_tables
proof (induction ls arbitrary: t)
  case (Cons x xs)
  then have n: "x \<notin> set xs" "distinct xs" by simp_all
  show ?case by (simp add: Cons.IH [OF n(2)] touch_step [OF n(1)] del: list.set fun_upd_apply)
qed simp

lemma fold_touch_naddrs: "distinct xs \<Longrightarrow> fold (\<lambda>x t. t\<lparr>tb_naddrs := (tb_naddrs t)(x := h (tb_naddrs t x))\<rparr>) xs t
    = t\<lparr>tb_naddrs := touch h (\<lambda>x. x \<in> set xs) (tb_naddrs t)\<rparr>" for t :: nhdp_tables
proof (induction xs arbitrary: t)
  case (Cons x xs)
  then have n: "x \<notin> set xs" "distinct xs" by simp_all
  show ?case by (simp add: Cons.IH [OF n(2)] touch_step [OF n(1)] del: list.set fun_upd_apply)
qed simp

lemma touch_owned:
  assumes "\<And>x. S x \<longleftrightarrow> (\<exists>a. m x = Some a \<and> P a)"
  shows "touch (map_option f) S m = (\<lambda>x. map_option (\<lambda>a. if P a then f a else a) (m x))"
proof
  fix x show "touch (map_option f) S m x = map_option (\<lambda>a. if P a then f a else a) (m x)"
    using assms [of x] by (cases "m x") (auto simp: touch_def)
qed

definition join :: "ptr \<Rightarrow> ptr \<Rightarrow> nhdp_tables \<Rightarrow> nhdp_tables" where
  "join dst src t = t
     \<lparr>tb_neighs := (neigh_partner.lone src (\<lambda>p. map_option (\<lambda>n. if p = dst
         then n\<lparr>nn_symmetric := nn_symmetric n + (case tb_neighs t src of None \<Rightarrow> 0 | Some s \<Rightarrow> nn_symmetric s)\<rparr> else n)
       (tb_neighs t p)))(src := None),
      tb_links := (\<lambda>l. map_option (\<lambda>k. if nl_neigh k = src then k\<lparr>nl_neigh := dst\<rparr> else k) (tb_links t l)),
      tb_naddrs := (\<lambda>x. map_option (\<lambda>a. if nx_neigh a = src then a\<lparr>nx_neigh := dst\<rparr> else a) (tb_naddrs t x))\<rparr>"

lemma join_links_ok:
  assumes ok: "nhdp_ok db" and s: "db_neighs db src = Some s" and d: "db_neighs db dst = Some d" and ne: "dst \<noteq> src"
    and a: "\<And>x a k. db_laddrs db x = Some a \<Longrightarrow> db_links db (ld_link a) = Some k \<Longrightarrow> nl_neigh k \<noteq> src"
  shows "\<exists>db'. for_each (join_link dst src) (nn_links s) db = Some db' \<and> nhdp_ok db' \<and> tables db' = (tables db)\<lparr>tb_links :=
    (\<lambda>l. map_option (\<lambda>k. if nl_neigh k = src then k\<lparr>nl_neigh := dst\<rparr> else k) (tb_links (tables db) l))\<rparr>"
proof -
  let ?P = "\<lambda>l t. (\<exists>k. tb_links t l = Some k \<and> nl_neigh k = src) \<and> tb_neighs t src \<noteq> None \<and> tb_neighs t dst \<noteq> None
      \<and> (\<forall>x a. tb_laddrs t x = Some a \<longrightarrow> ld_link a \<noteq> l)"
  let ?h = "map_option (\<lambda>k. k\<lparr>nl_neigh := dst\<rparr>)"
  have "\<exists>db'. for_each (join_link dst src) (nn_links s) db = Some db' \<and> nhdp_ok db' \<and>
      tables db' = fold (\<lambda>l t. t\<lparr>tb_links := (tb_links t)(l := ?h (tb_links t l))\<rparr>) (nn_links s) (tables db)"
  proof (rule for_each_ok [where P = ?P])
    show "\<exists>db'. join_link dst src l db = Some db' \<and> nhdp_ok db' \<and>
        tables db' = (tables db)\<lparr>tb_links := (tb_links (tables db))(l := ?h (tb_links (tables db) l))\<rparr>"
      if ok: "nhdp_ok db" and P: "?P l (tables db)" for l db
    proof -
      obtain k where k: "db_links db l = Some k" "nl_neigh k = src" using P tables_links [of db l] by auto
      obtain s d where n: "db_neighs db src = Some s" "db_neighs db dst = Some d"
        using P by (auto simp: tables_simps(6))
      show ?thesis
        using join_link_ok [OF ok k(1), of s dst d] k n P ne tables_simps(5) [OF k(1)] by (simp add: tables_simps(1))
    qed
    show "\<forall>l \<in> set (nn_links s). ?P l (tables db)"
    proof
      fix l assume "l \<in> set (nn_links s)"
      then obtain k where k: "db_links db l = Some k" "nl_neigh k = src" using neighbor_links(2) [OF ok s] by blast
      then show "?P l (tables db)" using s d a by (auto simp: tables_simps)
    qed
  qed (use neighbor_links(1) [OF ok s] ok in auto)
  moreover have "touch ?h (\<lambda>l. l \<in> set (nn_links s)) (tb_links (tables db)) =
      (\<lambda>l. map_option (\<lambda>k. if nl_neigh k = src then k\<lparr>nl_neigh := dst\<rparr> else k) (tb_links (tables db) l))"
    using neighbor_links(2) [OF ok s] by (intro touch_owned) (auto simp: tables_def proj_apply)
  ultimately show ?thesis using neighbor_links(1) [OF ok s] by (simp add: fold_links)
qed

lemma join_addresses_ok:
  assumes ok: "nhdp_ok db" and d: "db_neighs db dst = Some d"
    and xs: "distinct xs" "\<And>x. x \<in> set xs \<longleftrightarrow> (\<exists>a. db_naddrs db x = Some a \<and> nx_neigh a = src)"
  shows "\<exists>db'. for_each (nhdp_db_neighbor_addr_move dst) xs db = Some db' \<and> nhdp_ok db' \<and> tables db' = (tables db)\<lparr>tb_naddrs :=
    (\<lambda>x. map_option (\<lambda>a. if nx_neigh a = src then a\<lparr>nx_neigh := dst\<rparr> else a) (tb_naddrs (tables db) x))\<rparr>"
proof -
  let ?P = "\<lambda>x t. tb_naddrs t x \<noteq> None \<and> tb_neighs t dst \<noteq> None" and ?h = "map_option (\<lambda>a. a\<lparr>nx_neigh := dst\<rparr>)"
  have "\<exists>db'. for_each (nhdp_db_neighbor_addr_move dst) xs db = Some db' \<and> nhdp_ok db' \<and>
      tables db' = fold (\<lambda>x t. t\<lparr>tb_naddrs := (tb_naddrs t)(x := ?h (tb_naddrs t x))\<rparr>) xs (tables db)"
  proof (rule for_each_ok [where P = ?P])
    show "\<exists>db'. nhdp_db_neighbor_addr_move dst x db = Some db' \<and> nhdp_ok db' \<and>
        tables db' = (tables db)\<lparr>tb_naddrs := (tb_naddrs (tables db))(x := ?h (tb_naddrs (tables db) x))\<rparr>"
      if ok: "nhdp_ok db" and P: "?P x (tables db)" for x db
    proof -
      obtain a d where "db_naddrs db x = Some a" "db_neighs db dst = Some d" using P by (auto simp: tables_simps)
      then show ?thesis using neighbor_addr_move_ok [OF ok] by (simp add: tables_simps(3))
    qed
    show "\<forall>x \<in> set xs. ?P x (tables db)" using xs(2) d by (auto simp: tables_simps)
  qed (use xs ok in auto)
  moreover have "touch ?h (\<lambda>x. x \<in> set xs) (tb_naddrs (tables db)) =
      (\<lambda>x. map_option (\<lambda>a. if nx_neigh a = src then a\<lparr>nx_neigh := dst\<rparr> else a) (tb_naddrs (tables db) x))"
    by (rule touch_owned) (simp add: xs(2) tables_simps)
  ultimately show ?thesis using xs(1) by (simp add: fold_touch_naddrs)
qed

lemma neighbor_join_ok:
  assumes ok: "nhdp_ok db" and s: "db_neighs db src = Some s" and d: "db_neighs db dst = Some d" and ne: "dst \<noteq> src"
    and a: "\<And>x a k. db_laddrs db x = Some a \<Longrightarrow> db_links db (ld_link a) = Some k \<Longrightarrow> nl_neigh k \<noteq> src"
  shows "\<exists>db'. nhdp_db_neighbor_join dst src db = Some db' \<and> nhdp_ok db' \<and> tables db' = join dst src (tables db)"
proof -
  let ?t = "tables db" and ?n = "\<lambda>n. n\<lparr>nn_symmetric := nn_symmetric n + nn_symmetric s\<rparr>"
  obtain db1 where 1: "upd_neigh dst (\<lambda>n. Some (?n n)) db = Some db1" "nhdp_ok db1"
    "tables db1 = ?t\<lparr>tb_neighs := (tb_neighs ?t)(dst \<mapsto> ?n (bare_neigh d))\<rparr>"
    using upd_neigh_ok [OF ok d, of "\<lambda>n. Some (?n n)", OF refl] by auto
  have same: "db_laddrs db1 = db_laddrs db" "db_links db1 = db_links db" "db_neighs db1 src = Some s" "db_naddrs db1 = db_naddrs db"
    using 1(1) d s ne by (auto simp: upd_neigh_def)
  obtain d1 where d1: "db_neighs db1 dst = Some d1" using 1(1) d by (auto simp: upd_neigh_def)
  obtain db2 where 2: "for_each (join_link dst src) (nn_links s) db1 = Some db2" "nhdp_ok db2"
    "tables db2 = (tables db1)\<lparr>tb_links := (\<lambda>l. map_option (\<lambda>k. if nl_neigh k = src then k\<lparr>nl_neigh := dst\<rparr> else k) (tb_links (tables db1) l))\<rparr>"
    using join_links_ok [OF 1(2) same(3) d1 ne] a by (auto simp: same)
  have naddrs2: "db_naddrs db2 = db_naddrs db"
    by (simp add: tables_simps(3) [symmetric] 2(3)) (simp add: tables_simps(3) same)
  obtain d2 where d2: "db_neighs db2 dst = Some d2"
    using tables_neighs [of db2 dst] by (auto simp: 2(3) 1(3))
  obtain db3 where 3: "for_each (nhdp_db_neighbor_addr_move dst) (avl_elements (nn_neigh_addresses s)) db2 = Some db3" "nhdp_ok db3"
    "tables db3 = (tables db2)\<lparr>tb_naddrs := (\<lambda>x. map_option (\<lambda>a. if nx_neigh a = src then a\<lparr>nx_neigh := dst\<rparr> else a) (tb_naddrs (tables db2) x))\<rparr>"
    using join_addresses_ok [OF 2(2) d2 neighbor_addresses(1) [OF ok s], of src] neighbor_addresses(2) [OF ok s]
    by (auto simp: naddrs2)
  obtain s3 where s3: "db_neighs db3 src = Some s3"
    using tables_neighs [of db3 src] tables_simps(4) [OF s] ne by (auto simp: 3(3) 2(3) 1(3))
  obtain db4 where 4: "nhdp_db_neighbor_remove src db3 = Some db4" "nhdp_ok db4" "tables db4 = remove_neighbor src (tables db3)"
    using neighbor_remove_ok [OF 3(2) s3] by blast
  have "nhdp_db_neighbor_join dst src db = Some db4"
    using ne s 1(1) 2(1) 3(1) 4(1) by (simp add: nhdp_db_neighbor_join_def)
  moreover have "remove_neighbor src (tables db3) = join dst src ?t"
  proof -
    have "(case tb_links (tables db3) l of None \<Rightarrow> False | Some k \<Rightarrow> nl_neigh k = src) = False" for l
      using ne by (auto simp: 3(3) 2(3) split: option.split)
    then have r: "remove_links (\<lambda>l. case tb_links (tables db3) l of None \<Rightarrow> False | Some k \<Rightarrow> nl_neigh k = src) (tables db3) = tables db3"
      by (simp add: remove_links_none)
    have p: "purge (\<lambda>a. nx_neigh a = src) (tb_naddrs (tables db3)) = tb_naddrs (tables db3)"
      using ne by (auto simp: 3(3) purge_def fun_eq_iff split: option.split)
    have n: "tb_neighs (tables db3) = (\<lambda>p. map_option (\<lambda>n. if p = dst
         then n\<lparr>nn_symmetric := nn_symmetric n + (case tb_neighs ?t src of None \<Rightarrow> 0 | Some s \<Rightarrow> nn_symmetric s)\<rparr> else n) (tb_neighs ?t p))"
      using tables_simps(4) [OF s] tables_simps(4) [OF d] by (auto simp: 3(3) 2(3) 1(3) fun_eq_iff option.map_ident)
    show ?thesis
      unfolding remove_neighbor_def join_def r p n by (simp add: 3(3) 2(3) 1(3))
  qed
  ultimately show ?thesis using 4(2,3) by simp
qed

subsection \<open>Moving the address of a link\<close>

lemma laddr_inv_move:
  assumes inv: "laddr_inv LA NLA ILA AC LC" and x: "AC x = Some (k, l)"
    and l: "LC l = Some (p, Some i)" "LC q = Some (r, Some i)"
    and T: "LA l = Some T" "(LA(l \<mapsto> avl_remove T x)) q = Some T'" and I: "ILA i = Some V"
    and N: "if p = r then NLA' = NLA else \<exists>S S'. NLA p = Some S \<and> NLA r = Some S' \<and> NLA' = NLA(p \<mapsto> avl_remove S x, r \<mapsto> tree_insert S' k x)"
  shows "x \<in> snd ` index_set T" "p \<noteq> r \<Longrightarrow> NLA p = Some S \<Longrightarrow> x \<in> snd ` index_set S"
    "laddr_inv (LA(l \<mapsto> avl_remove T x, q \<mapsto> tree_insert T' k x)) NLA' ILA (AC(x \<mapsto> (k, q))) LC"
proof -
  note D = laddr_invD [OF inv]
  have v: "via neigh_of AC LC x = Some (k, p)" "via if_of AC LC x = Some (k, i)"
    using x l by (auto simp: via_Some neigh_of_Some if_of_Some)
  have f: "neigh_of LC q = Some ((), r)" "if_of LC q = Some ((), i)" using l by (simp_all add: neigh_of_Some if_of_Some)
  note u = htree.unhook [OF D(1) T(1) x]
  show "x \<in> snd ` index_set T" by (rule u)
  show "p \<noteq> r \<Longrightarrow> NLA p = Some S \<Longrightarrow> x \<in> snd ` index_set S" using hmulti.unhook(1) [OF D(3) _ v(1)] by simp
  have "(AC(x := None)) y \<noteq> Some (k, q)" for y
  proof
    assume "(AC(x := None)) y = Some (k, q)"
    then have y: "y \<noteq> x" "via if_of AC LC y = Some (k, i)" using f(2) by (auto simp: via_Some split: if_splits)
    show False
      using addr_index.key_fun [OF htree.hookedD(1) [OF D(4) I], of k x y] v(2) y by (simp add: htree.hookedD(2) [OF D(4) I])
  qed
  then have k: "avl_find T' k = None" using hooked_find_None [OF u(2) T(2), of k] by simp
  have "htree.hooked (LA(l \<mapsto> avl_remove T x, q \<mapsto> tree_insert T' k x)) ((AC(x := None))(x \<mapsto> (k, q)))"
    by (rule htree.hook [OF u(2) T(2)]) (simp_all add: k)
  then have 1: "htree.hooked (LA(l \<mapsto> avl_remove T x, q \<mapsto> tree_insert T' k x)) (AC(x \<mapsto> (k, q)))" by simp
  have 2: "refs (AC(x \<mapsto> (k, q))) (LA(l \<mapsto> avl_remove T x, q \<mapsto> tree_insert T' k x))"
    using D(2) by (intro refs_new(1) refs_new(3)) simp_all
  have 3: "via if_of (AC(x \<mapsto> (k, q))) LC = via if_of AC LC" using v(2) f(2) by (simp add: via_upd fun_upd_idem)
  have 4: "hmulti.hooked NLA' (via neigh_of (AC(x \<mapsto> (k, q))) LC)"
  proof (cases "p = r")
    case True
    then have "via neigh_of (AC(x \<mapsto> (k, q))) LC = via neigh_of AC LC" using v(1) f(1) by (simp add: via_upd fun_upd_idem)
    then show ?thesis using D(3) N True by simp
  next
    case False
    then obtain S S' where S: "NLA p = Some S" "NLA r = Some S'" "NLA' = NLA(p \<mapsto> avl_remove S x, r \<mapsto> tree_insert S' k x)"
      using N by auto
    have "hmulti.hooked (NLA(p \<mapsto> avl_remove S x, r \<mapsto> tree_insert S' k x)) ((via neigh_of AC LC)(x := None, x \<mapsto> (k, r)))"
      by (rule hmulti.hook [OF hmulti.unhook(2) [OF D(3) S(1) v(1)]]) (use S False in simp_all)
    then show ?thesis using S(3) f(1) by (simp add: via_upd)
  qed
  show "laddr_inv (LA(l \<mapsto> avl_remove T x, q \<mapsto> tree_insert T' k x)) NLA' ILA (AC(x \<mapsto> (k, q))) LC"
    using 1 2 4 D(4) by (simp add: laddr_inv_def 3)
qed

lemma link_addr_move_ok:
  assumes ok: "nhdp_inv U db" and x: "db_laddrs db x = Some a" and l: "db_links db (ld_link a) = Some k" and q: "db_links db q = Some j"
    and i: "nl_local_if k = nl_local_if j"
  shows "\<exists>db'. nhdp_db_link_addr_move q x db = Some db' \<and> nhdp_inv U db'
    \<and> tables db' = (tables db)\<lparr>tb_laddrs := (db_laddrs db)(x \<mapsto> a\<lparr>ld_link := q\<rparr>)\<rparr>"
proof -
  from link_parts [OF ok l] obtain n i f where n: "db_neighs db (nl_neigh k) = Some n" "nl_local_if k = Some i"
    "db_interfaces db i = Some f" "proj link_core (db_links db) (ld_link a) = Some (nl_neigh k, Some i)" .
  from link_parts [OF ok q] obtain m where m: "db_neighs db (nl_neigh j) = Some m"
    "proj link_core (db_links db) q = Some (nl_neigh j, Some i)" using assms(5) n(2) by metis
  let ?k = "k\<lparr>nl_addresses := avl_remove (nl_addresses k) x\<rparr>"
  obtain j' where j': "((db_links db)(ld_link a \<mapsto> ?k)) q = Some j'" "nl_neigh j' = nl_neigh j"
    using q l by (cases "q = ld_link a") auto
  let ?j = "j'\<lparr>nl_addresses := tree_insert (nl_addresses j') (ld_addr a) x\<rparr>"
  obtain L where L_def: "L = (db_links db)(ld_link a \<mapsto> ?k, q \<mapsto> ?j)" by blast
  have L: "proj g L = proj g (db_links db)" if "g ?k = g k" "g ?j = g j'" for g :: "nhdp_link \<Rightarrow> 'b"
    unfolding L_def by (rule proj_same2 [OF l j'(1) that])
  have T: "((proj nl_addresses (db_links db))(ld_link a \<mapsto> avl_remove (nl_addresses k) x)) q = Some (nl_addresses j')"
    using j' by (auto simp: proj_apply split: if_splits)
  obtain N where N_def: "N = (if nl_neigh k = nl_neigh j then db_neighs db else (db_neighs db)
      (nl_neigh k \<mapsto> n\<lparr>nn_link_addresses := avl_remove (nn_link_addresses n) x\<rparr>,
       nl_neigh j \<mapsto> m\<lparr>nn_link_addresses := tree_insert (nn_link_addresses m) (ld_addr a) x\<rparr>))" by blast
  have N: "proj g N = proj g (db_neighs db)" if "\<And>n u. g (n\<lparr>nn_link_addresses := u\<rparr>) = g n" for g :: "nhdp_neighbor \<Rightarrow> 'b"
  proof (cases "nl_neigh k = nl_neigh j")
    case False
    then show ?thesis
      unfolding N_def using m(1) by (simp only: if_False) (rule proj_same2 [where m = "db_neighs db" and f = g, OF n(1)], simp_all add: that)
  qed (simp add: N_def)
  have NL: "if nl_neigh k = nl_neigh j then proj nn_link_addresses N = proj nn_link_addresses (db_neighs db) else
      \<exists>S S'. proj nn_link_addresses (db_neighs db) (nl_neigh k) = Some S \<and> proj nn_link_addresses (db_neighs db) (nl_neigh j) = Some S' \<and>
        proj nn_link_addresses N = (proj nn_link_addresses (db_neighs db))(nl_neigh k \<mapsto> avl_remove S x, nl_neigh j \<mapsto> tree_insert S' (ld_addr a) x)"
    using n(1) m(1) by (auto simp: N_def proj_Some)
  have a: "proj laddr_core (db_laddrs db) x = Some (ld_addr a, ld_link a)" "proj nl_addresses (db_links db) (ld_link a) = Some (nl_addresses k)"
    "proj ni_link_addresses (db_interfaces db) i = Some (ni_link_addresses f)"
    using x l n by (simp_all add: proj_apply)
  note r = laddr_inv_move [OF nhdp_okD(5) [OF ok] a(1) n(4) m(2) a(2) T a(3) NL]
  have t: "tree_remove (nl_addresses k) x = Some (avl_remove (nl_addresses k) x)"
    "nl_neigh k \<noteq> nl_neigh j \<Longrightarrow> tree_remove (nn_link_addresses n) x = Some (avl_remove (nn_link_addresses n) x)"
    using r(1) r(2) [of "nn_link_addresses n"] n(1) by (simp_all add: tree_remove_Some proj_apply)
  let ?db = "db\<lparr>db_links := L, db_neighs := N, db_laddrs := (db_laddrs db)(x \<mapsto> a\<lparr>ld_link := q\<rparr>)\<rparr>"
  obtain k' where k': "L (ld_link a) = Some k'" "nl_neigh k' = nl_neigh k"
    using l j' by (cases "ld_link a = q") (auto simp: L_def)
  have e1: "upd_link (ld_link a) (\<lambda>k. do {
            t \<leftarrow> tree_remove (nl_addresses k) x;
            Some (k\<lparr>nl_addresses := t\<rparr>) }) db = Some (db\<lparr>db_links := (db_links db)(ld_link a \<mapsto> ?k)\<rparr>)"
    using l t(1) by (simp add: upd_link_def)
  have e2: "upd_link q (\<lambda>k. Some (k\<lparr>nl_addresses := tree_insert (nl_addresses k) (ld_addr a) x\<rparr>))
      (db\<lparr>db_links := (db_links db)(ld_link a \<mapsto> ?k)\<rparr>) = Some (db\<lparr>db_links := L\<rparr>)"
    using j'(1) by (simp add: upd_link_def L_def)
  have e3: "(if nl_neigh k' \<noteq> nl_neigh ?j
           then do {
             db \<leftarrow> upd_neigh (nl_neigh k') (\<lambda>n. do {
                    t \<leftarrow> tree_remove (nn_link_addresses n) x;
                    Some (n\<lparr>nn_link_addresses := t\<rparr>) }) (db\<lparr>db_links := L\<rparr>);
             upd_neigh (nl_neigh ?j) (\<lambda>n. Some (n\<lparr>nn_link_addresses := tree_insert (nn_link_addresses n) (ld_addr a) x\<rparr>)) db
           }
           else Some (db\<lparr>db_links := L\<rparr>)) = Some (db\<lparr>db_links := L, db_neighs := N\<rparr>)"
    using t(2) n(1) m(1) k'(2) j'(2) by (cases "nl_neigh k = nl_neigh j") (simp_all add: upd_neigh_def N_def)
  have "L q = Some ?j" by (simp add: L_def)
  then have "nhdp_db_link_addr_move q x db = Some ?db"
    using x e3 k'(1) by (simp add: nhdp_db_link_addr_move_def e1 e2 upd_laddr_def del: fun_upd_apply)
  moreover have "nhdp_inv U ?db"
  proof -
    have "proj nl_addresses L = (proj nl_addresses (db_links db))
        (ld_link a \<mapsto> avl_remove (nl_addresses k) x, q \<mapsto> tree_insert (nl_addresses j') (ld_addr a) x)"
      by (simp add: L_def)
    then show ?thesis using ok r(3) by (simp add: nhdp_ok_unfold L N)
  qed
  moreover have "tables ?db = (tables db)\<lparr>tb_laddrs := (db_laddrs db)(x \<mapsto> a\<lparr>ld_link := q\<rparr>)\<rparr>"
    by (simp add: tables_def L N)
  ultimately show ?thesis by blast
qed

end
