(* ===== verification/Nhdp_Spec.thy ===== *)
theory Nhdp_Spec
  imports Nhdp_Moves
begin

text \<open>
  Symmetric links, the settings of interfaces and the loops over all links and neighbors, the
  specification of all operations of the neighborhood database, and its properties.
\<close>

subsection \<open>Symmetric links\<close>

text \<open>The lost timer of all the addresses of a neighbor.\<close>

definition mark_lost :: "ptr \<Rightarrow> u64 option \<Rightarrow> nhdp_tables \<Rightarrow> nhdp_tables" where
  "mark_lost p v t = t\<lparr>tb_naddrs := (\<lambda>x. map_option (\<lambda>a. if nx_neigh a = p then a\<lparr>nx_lost_vtime := v\<rparr> else a) (tb_naddrs t x))\<rparr>"

definition add_symmetric :: "ptr \<Rightarrow> int \<Rightarrow> nhdp_tables \<Rightarrow> nhdp_tables" where
  "add_symmetric p d t = t\<lparr>tb_neighs := (tb_neighs t)(p := map_option (\<lambda>n. n\<lparr>nn_symmetric := nn_symmetric n + d\<rparr>) (tb_neighs t p))\<rparr>"

definition symmetric_count :: "ptr \<Rightarrow> nhdp_tables \<Rightarrow> int option" where
  "symmetric_count p t = map_option nn_symmetric (tb_neighs t p)"

definition now_symmetric :: "ptr \<Rightarrow> nhdp_tables \<Rightarrow> nhdp_tables" where
  "now_symmetric p t = (let t' = add_symmetric p 1 t in if symmetric_count p t' = Some 1 then mark_lost p None t' else t')"

definition not_symmetric :: "ptr \<Rightarrow> ptr \<Rightarrow> u64 \<Rightarrow> nhdp_tables \<Rightarrow> nhdp_tables" where
  "not_symmetric l p hold t =
     (let t' = add_symmetric p (-1) (t\<lparr>tb_l2hops := purge (\<lambda>h. l2_link h = l) (tb_l2hops t)\<rparr>)
      in if symmetric_count p t' = Some 0 then mark_lost p (timer_interval hold) t' else t')"

lemma mark_lost_ok:
  assumes ok: "nhdp_inv U db" and p: "db_neighs db p = Some n"
    and f: "\<And>x db. f x db = upd_naddr x (\<lambda>a. a\<lparr>nx_lost_vtime := v\<rparr>) db"
  shows "\<exists>db'. for_each f (avl_elements (nn_neigh_addresses n)) db = Some db' \<and> nhdp_inv U db' \<and> tables db' = mark_lost p v (tables db)"
proof -
  let ?xs = "avl_elements (nn_neigh_addresses n)" and ?h = "map_option (\<lambda>a. a\<lparr>nx_lost_vtime := v\<rparr>)"
  note xs = neighbor_addresses [OF ok p]
  have "\<exists>db'. for_each f ?xs db = Some db' \<and> nhdp_inv U db'
      \<and> tables db' = fold (\<lambda>x t. t\<lparr>tb_naddrs := (tb_naddrs t)(x := ?h (tb_naddrs t x))\<rparr>) ?xs (tables db)"
  proof (rule for_each_ok [where P = "\<lambda>x t. tb_naddrs t x \<noteq> None"])
    show "\<exists>db'. f x db = Some db' \<and> nhdp_inv U db' \<and> tables db' = (tables db)\<lparr>tb_naddrs := (tb_naddrs (tables db))(x := ?h (tb_naddrs (tables db) x))\<rparr>"
      if 1: "nhdp_inv U db" and 2: "tb_naddrs (tables db) x \<noteq> None" for x db
    proof -
      obtain a where "db_naddrs db x = Some a" using 2 by (auto simp: tables_simps)
      then show ?thesis using upd_naddr_ok [OF 1, of x a "\<lambda>a. a\<lparr>nx_lost_vtime := v\<rparr>"] by (simp add: f tables_simps(3))
    qed
    show "\<forall>x \<in> set ?xs. tb_naddrs (tables db) x \<noteq> None" using xs(2) by (auto simp: tables_simps)
  qed (use xs(1) ok in auto)
  moreover have "touch ?h (\<lambda>x. x \<in> set ?xs) (tb_naddrs (tables db)) = tb_naddrs (mark_lost p v (tables db))"
    unfolding mark_lost_def by (simp, rule touch_owned) (simp add: xs(2) tables_simps)
  ultimately show ?thesis using xs(1) by (simp add: fold_touch_naddrs) (simp add: mark_lost_def)
qed

lemma add_symmetric_ok:
  assumes ok: "nhdp_inv U db" and p: "db_neighs db p = Some n"
  shows "\<exists>db' n'. upd_neigh p (\<lambda>n. Some (n\<lparr>nn_symmetric := nn_symmetric n + d\<rparr>)) db = Some db' \<and> nhdp_inv U db' \<and>
    tables db' = add_symmetric p d (tables db) \<and> db_neighs db' p = Some n' \<and> symmetric_count p (tables db') = Some (nn_symmetric n')"
proof -
  let ?f = "\<lambda>n. Some (n\<lparr>nn_symmetric := nn_symmetric n + d\<rparr>)"
  obtain db' where 1: "upd_neigh p ?f db = Some db'" "nhdp_inv U db'"
    "tables db' = (tables db)\<lparr>tb_neighs := (tb_neighs (tables db))(p \<mapsto> bare_neigh (n\<lparr>nn_symmetric := nn_symmetric n + d\<rparr>))\<rparr>"
    using upd_neigh_ok [OF ok p, of ?f, OF refl] by auto
  moreover have "db_neighs db' p = Some (n\<lparr>nn_symmetric := nn_symmetric n + d\<rparr>)"
    using 1(1) p by (auto simp: upd_neigh_def)
  ultimately show ?thesis
    using tables_simps(4) [OF p] by (auto simp: add_symmetric_def symmetric_count_def)
qed

lemma now_symmetric_ok:
  assumes ok: "nhdp_inv U db" and l: "db_links db l = Some k"
  shows "\<exists>db'. link_status_now_symmetric l db = Some db' \<and> nhdp_inv U db' \<and> tables db' = now_symmetric (nl_neigh k) (tables db)"
proof -
  obtain n where n: "db_neighs db (nl_neigh k) = Some n" using nhdp_refs(2) [OF ok l] by blast
  obtain db1 n1 where 1: "upd_neigh (nl_neigh k) (\<lambda>n. Some (n\<lparr>nn_symmetric := nn_symmetric n + 1\<rparr>)) db = Some db1" "nhdp_inv U db1"
    "tables db1 = add_symmetric (nl_neigh k) 1 (tables db)" "db_neighs db1 (nl_neigh k) = Some n1"
    "symmetric_count (nl_neigh k) (tables db1) = Some (nn_symmetric n1)"
    using add_symmetric_ok [OF ok n] by blast
  obtain db2 where 2: "for_each nhdp_db_neighbor_addr_not_lost (avl_elements (nn_neigh_addresses n1)) db1 = Some db2" "nhdp_inv U db2"
    "tables db2 = mark_lost (nl_neigh k) None (tables db1)"
    using mark_lost_ok [OF 1(2,4), of nhdp_db_neighbor_addr_not_lost None] by (auto simp: nhdp_db_neighbor_addr_not_lost_def)
  show ?thesis
    using l 1 2 by (cases "nn_symmetric n1 = 1") (simp_all add: link_status_now_symmetric_def now_symmetric_def)
qed

lemma not_symmetric_ok:
  assumes ok: "nhdp_inv U db" and l: "db_links db l = Some k" and i: "nl_local_if k = Some i" "db_interfaces db i = Some f"
  shows "\<exists>db'. link_status_not_symmetric_anymore l db = Some db' \<and> nhdp_inv U db'
    \<and> tables db' = not_symmetric l (nl_neigh k) (ni_n_hold_time f) (tables db)"
proof -
  obtain db1 where 1: "for_each nhdp_db_link_2hop_remove (avl_elements (nl_2hop k)) db = Some db1" "nhdp_inv U db1"
    "tables db1 = (tables db)\<lparr>tb_l2hops := purge (\<lambda>h. l2_link h = l) (db_l2hops db)\<rparr>"
    using l2hops_of_link_removed [OF ok l] by blast
  obtain k1 where k1: "db_links db1 l = Some k1" "bare_link k1 = bare_link k"
    using tables_links [of db1 l] tables_simps(5) [OF l] by (auto simp: 1(3))
  have k1': "nl_neigh k1 = nl_neigh k" "nl_local_if k1 = Some i"
    using arg_cong [OF k1(2), of nl_neigh] arg_cong [OF k1(2), of nl_local_if] i by simp_all
  obtain n where n: "db_neighs db1 (nl_neigh k) = Some n" using nhdp_refs(2) [OF 1(2) k1(1)] k1' by auto
  obtain db2 n2 where 2: "upd_neigh (nl_neigh k) (\<lambda>n. Some (n\<lparr>nn_symmetric := nn_symmetric n + (-1)\<rparr>)) db1 = Some db2" "nhdp_inv U db2"
    "tables db2 = add_symmetric (nl_neigh k) (-1) (tables db1)" "db_neighs db2 (nl_neigh k) = Some n2"
    "symmetric_count (nl_neigh k) (tables db2) = Some (nn_symmetric n2)"
    using add_symmetric_ok [OF 1(2) n] by blast
  let ?lost = "\<lambda>x db. do {
            i \<leftarrow> nl_local_if k1;
            f \<leftarrow> db_interfaces db i;
            nhdp_db_neighbor_addr_set_lost x (ni_n_hold_time f) db }"
  let ?lost' = "\<lambda>x. upd_naddr x (\<lambda>a. a\<lparr>nx_lost_vtime := timer_interval (ni_n_hold_time f)\<rparr>)"
  obtain db3 where 3: "for_each ?lost' (avl_elements (nn_neigh_addresses n2)) db2 = Some db3" "nhdp_inv U db3"
    "tables db3 = mark_lost (nl_neigh k) (timer_interval (ni_n_hold_time f)) (tables db2)"
    using mark_lost_ok [OF 2(2,4), of ?lost' "timer_interval (ni_n_hold_time f)"] by auto
  have I: "proj bare_if (db_interfaces db2) = proj bare_if (db_interfaces db)"
    using arg_cong [OF 2(3), of tb_interfaces] by (simp add: add_symmetric_def 1(3)) (simp add: tables_def)
  obtain f2 where f2: "db_interfaces db2 i = Some f2" "bare_if f2 = bare_if f"
    using fun_cong [OF I, of i] i(2) by (auto simp: proj_apply)
  have hold: "ni_n_hold_time f2 = ni_n_hold_time f" using arg_cong [OF f2(2), of ni_n_hold_time] by (simp add: bare_if_def)
  have loop: "for_each ?lost xs db' = for_each ?lost' xs db'" if "db_interfaces db' = db_interfaces db2" for xs db'
    using that
  proof (induction xs arbitrary: db')
    case (Cons x xs)
    have "?lost x db' = ?lost' x db'"
      using Cons.prems k1'(2) f2(1) hold by (simp add: nhdp_db_neighbor_addr_set_lost_def)
    moreover have "for_each ?lost xs db1 = for_each ?lost' xs db1" if "?lost' x db' = Some db1" for db1
      by (rule Cons.IH) (use that Cons.prems in \<open>auto simp: upd_naddr_def split: bind_splits\<close>)
    ultimately show ?case by (cases "?lost' x db'") simp_all
  qed simp
  have "link_status_not_symmetric_anymore l db = Some (if nn_symmetric n2 = 0 then db3 else db2)"
    using l 1(1) k1 k1' 2(1,4) 3(1) loop [of db2] by (simp add: link_status_not_symmetric_anymore_def)
  then show ?thesis
    using 2 3 by (cases "nn_symmetric n2 = 0") (simp_all add: not_symmetric_def Let_def 1(3) tables_simps(2))
qed

subsection \<open>Settings of the interface\<close>

text \<open>Whether an interface has a symmetric link to an originator of the family, alone or with a partner.\<close>

definition sym_neighbor :: "bool \<Rightarrow> u8 \<Rightarrow> nhdp_tables \<Rightarrow> ptr \<Rightarrow> bool" where
  "sym_neighbor dual af t l \<longleftrightarrow> (case tb_links t l of None \<Rightarrow> False | Some k \<Rightarrow>
     nl_status k = NHDP_LINK_SYMMETRIC \<and> (nl_dualstack_partner k \<noteq> None) = dual \<and>
     (case tb_neighs t (nl_neigh k) of None \<Rightarrow> False | Some n \<Rightarrow> na_type (nn_originator n) = af))"

definition if_has :: "nhdp_tables \<Rightarrow> ptr \<Rightarrow> bool \<Rightarrow> u8 \<Rightarrow> bool" where
  "if_has t i dual af \<longleftrightarrow> (\<exists>l k. tb_links t l = Some k \<and> nl_local_if k = Some i \<and> sym_neighbor dual af t l)"

definition flooding_of :: "bool \<Rightarrow> bool \<Rightarrow> bool \<Rightarrow> nhdp_interface \<Rightarrow> nhdp_interface" where
  "flooding_of v4 v6 dual f = f\<lparr>ni_use_ipv4_for_flooding := v4, ni_use_ipv6_for_flooding := v6 \<or> \<not> v4 \<and> dual,
     ni_dualstack_af_type := (if dual \<and> \<not> v4 then AF_INET6 else if dual \<and> \<not> v6 then AF_INET else AF_UNSPEC)\<rparr>"

definition flooding_update :: "ptr \<Rightarrow> nhdp_tables \<Rightarrow> nhdp_tables" where
  "flooding_update i t = t\<lparr>tb_interfaces := (tb_interfaces t)(i :=
     map_option (flooding_of (if_has t i False AF_INET) (if_has t i False AF_INET6) (if_has t i True AF_INET)) (tb_interfaces t i))\<rparr>"

lemma af_neq: "AF_INET \<noteq> AF_INET6" "AF_INET6 \<noteq> AF_INET"
  by (simp_all add: AF_INET_def AF_INET6_def)

lemma count_flooding_ok:
  assumes "\<forall>l \<in> set ls. db_links db l \<noteq> None" "nhdp_inv U db" "a \<ge> 0" "b \<ge> 0" "c \<ge> 0"
  shows "\<exists>a' b' c'. count_flooding db ls (a, b, c) = Some (a', b', c') \<and> a' \<ge> 0 \<and> b' \<ge> 0 \<and> c' \<ge> 0 \<and>
    (a' > 0 \<longleftrightarrow> a > 0 \<or> (\<exists>l \<in> set ls. sym_neighbor False AF_INET (tables db) l)) \<and>
    (b' > 0 \<longleftrightarrow> b > 0 \<or> (\<exists>l \<in> set ls. sym_neighbor False AF_INET6 (tables db) l)) \<and>
    (c' > 0 \<longleftrightarrow> c > 0 \<or> (\<exists>l \<in> set ls. sym_neighbor True AF_INET (tables db) l))"
  using assms
proof (induction ls arbitrary: a b c)
  case (Cons l ls)
  obtain k where k: "db_links db l = Some k" using Cons.prems(1) by auto
  obtain n where n: "db_neighs db (nl_neigh k) = Some n" using nhdp_refs(2) [OF Cons.prems(2) k] by blast
  have s: "sym_neighbor dual af (tables db) l \<longleftrightarrow> nl_status k = NHDP_LINK_SYMMETRIC \<and> (nl_dualstack_partner k \<noteq> None) = dual
      \<and> na_type (nn_originator n) = af" for dual af
    using tables_simps(4) [OF n] tables_simps(5) [OF k] by (simp add: sym_neighbor_def)
  let ?af = "na_type (nn_originator n)"
  let ?c = "if nl_status k \<noteq> NHDP_LINK_SYMMETRIC then (a, b, c)
    else if nl_dualstack_partner k \<noteq> None then (a, b, if ?af = AF_INET then c + 1 else c)
    else if ?af = AF_INET then (a + 1, b, c) else if ?af = AF_INET6 then (a, b + 1, c) else (a, b, c)"
  obtain a1 b1 c1 where 1: "?c = (a1, b1, c1)" by (cases ?c) blast
  have 2: "a1 \<ge> 0" "b1 \<ge> 0" "c1 \<ge> 0" "a1 > 0 \<longleftrightarrow> a > 0 \<or> sym_neighbor False AF_INET (tables db) l"
    "b1 > 0 \<longleftrightarrow> b > 0 \<or> sym_neighbor False AF_INET6 (tables db) l" "c1 > 0 \<longleftrightarrow> c > 0 \<or> sym_neighbor True AF_INET (tables db) l"
    unfolding s using 1 Cons.prems(3-5) af_neq by (auto split: if_split_asm)
  have "count_flooding db (l # ls) (a, b, c) = count_flooding db ls ?c"
    using k n by (simp add: Let_def)
  then have e: "count_flooding db (l # ls) (a, b, c) = count_flooding db ls (a1, b1, c1)" using 1 by simp
  have "\<forall>l \<in> set ls. db_links db l \<noteq> None" using Cons.prems(1) by simp
  from Cons.IH [OF this Cons.prems(2) 2(1-3)] show ?case
    unfolding e using 2(4-6) by fastforce
qed simp

lemma flooding_settings_of:
  "a \<ge> 0 \<Longrightarrow> b \<ge> 0 \<Longrightarrow> c \<ge> 0 \<Longrightarrow> flooding_settings (a, b, c) f = flooding_of (a > 0) (b > 0) (c > 0) f"
  by (auto simp: flooding_settings_def flooding_of_def)

lemma flooding_bare: "bare_if (flooding_of a b c f) = flooding_of a b c (bare_if f)"
  by (simp add: flooding_of_def bare_if_def)

lemma interface_update_status_ok:
  assumes ok: "nhdp_inv U db" and i: "db_interfaces db i = Some f"
  shows "\<exists>db'. nhdp_interface_update_status i db = Some db' \<and> nhdp_inv U db' \<and> tables db' = flooding_update i (tables db)"
proof -
  note L = interface_links(2) [OF ok i]
  have T: "l \<in> set (ni_links f) \<longleftrightarrow> (\<exists>k. tb_links (tables db) l = Some k \<and> nl_local_if k = Some i)" for l
    using L [of l] by (auto simp: tables_def proj_apply)
  have has: "(\<exists>l \<in> set (ni_links f). sym_neighbor dual af (tables db) l) \<longleftrightarrow> if_has (tables db) i dual af" for dual af
    unfolding if_has_def Bex_def T by blast
  obtain a b c where c: "count_flooding db (ni_links f) (0, 0, 0) = Some (a, b, c)" "a \<ge> 0" "b \<ge> 0" "c \<ge> 0"
    "a > 0 \<longleftrightarrow> if_has (tables db) i False AF_INET" "b > 0 \<longleftrightarrow> if_has (tables db) i False AF_INET6"
    "c > 0 \<longleftrightarrow> if_has (tables db) i True AF_INET"
  proof -
    have "\<forall>l \<in> set (ni_links f). db_links db l \<noteq> None" using L by auto
    from count_flooding_ok [OF this ok, of 0 0 0] show ?thesis using that unfolding has by auto
  qed
  let ?g = "\<lambda>f. Some (flooding_settings (a, b, c) f)"
  have s: "ni_links (flooding_settings (a, b, c) f) = ni_links f" "ni_link_addresses (flooding_settings (a, b, c) f) = ni_link_addresses f"
    "ni_link_originators (flooding_settings (a, b, c) f) = ni_link_originators f" "ni_if_twohops (flooding_settings (a, b, c) f) = ni_if_twohops f"
    by (simp_all add: flooding_settings_def)
  have "tb_interfaces (tables db) i = Some (bare_if f)" using i by (simp add: tables_def proj_apply)
  then show ?thesis
    using upd_interface_ok [OF ok i, of ?g, OF refl s(1-4)] i c(1)
    by (simp add: nhdp_interface_update_status_def flooding_update_def flooding_bare flooding_settings_of [OF c(2-4)] c(5-7) del: fun_upd_apply)
qed

subsection \<open>Status of links\<close>

definition set_link :: "ptr \<Rightarrow> (nhdp_link \<Rightarrow> nhdp_link) \<Rightarrow> nhdp_tables \<Rightarrow> nhdp_tables" where
  "set_link l f t = t\<lparr>tb_links := (tb_links t)(l := map_option f (tb_links t l))\<rparr>"

text \<open>\<open>when b f\<close> does \<open>f\<close> if \<open>b\<close>.\<close>

definition only_if :: "bool \<Rightarrow> ('s \<Rightarrow> 's) \<Rightarrow> 's \<Rightarrow> 's" where
  "only_if b f s = (if b then f s else s)"

definition hold_time :: "nhdp_tables \<Rightarrow> nhdp_link \<Rightarrow> u64" where
  "hold_time t k = (case nl_local_if k \<bind> tb_interfaces t of None \<Rightarrow> 0 | Some f \<Rightarrow> ni_n_hold_time f)"

definition update_status :: "hysteresis \<Rightarrow> ptr \<Rightarrow> nhdp_tables \<Rightarrow> nhdp_tables" where
  "update_status hy l t = (case tb_links t l of None \<Rightarrow> t | Some k \<Rightarrow>
     let status = nhdp_db_link_calculate_status hy l k;
         was = (nl_status k = NHDP_LINK_SYMMETRIC);
         now = (status = NHDP_LINK_SYMMETRIC)
     in only_if (was \<noteq> now) (case nl_local_if k of None \<Rightarrow> id | Some i \<Rightarrow> flooding_update i)
          (only_if (\<not> was \<and> now) (now_symmetric (nl_neigh k))
            (only_if (was \<and> \<not> now) (not_symmetric l (nl_neigh k) (hold_time t k))
              (set_link l (\<lambda>k. k\<lparr>nl_status := status\<rparr>) t))))"

definition set_unsymmetric :: "ptr \<Rightarrow> nhdp_tables \<Rightarrow> nhdp_tables" where
  "set_unsymmetric l t = (case tb_links t l of None \<Rightarrow> t | Some k \<Rightarrow>
     let t = set_link l (\<lambda>k. k\<lparr>nl_sym_time := None\<rparr>)
          (only_if (nl_status k = NHDP_LINK_SYMMETRIC) (not_symmetric l (nl_neigh k) (hold_time t k)) t)
     in t\<lparr>tb_l2hops := purge (\<lambda>h. l2_link h = l) (tb_l2hops t)\<rparr>)"

lemma set_link_ok:
  assumes ok: "nhdp_inv U db" and l: "db_links db l = Some k" and g: "\<And>k. bare_link (g k) = g (bare_link k)"
    and same: "link_core (g k) = link_core k" "nl_addresses (g k) = nl_addresses k" "nl_2hop (g k) = nl_2hop k"
      "nl_dualstack_partner (g k) = nl_dualstack_partner k"
  shows "\<exists>db'. upd_link l (\<lambda>k. Some (g k)) db = Some db' \<and> nhdp_inv U db' \<and> tables db' = set_link l g (tables db) \<and> db_links db' l = Some (g k)"
  using upd_link_ok [OF ok l, of "\<lambda>k. Some (g k)", OF refl same] l tables_simps(5) [OF l]
  by (auto simp: set_link_def g upd_link_def)

lemma calculate_bare: "nhdp_db_link_calculate_status hy l (bare_link k) = nhdp_db_link_calculate_status hy l k"
  by (simp add: nhdp_db_link_calculate_status_def)

lemma bare_if_hold: "ni_n_hold_time (bare_if f) = ni_n_hold_time f"
  by (simp add: bare_if_def)

lemma hold_time_ok: "nl_local_if k = Some i \<Longrightarrow> db_interfaces db i = Some f \<Longrightarrow> hold_time (tables db) (bare_link k) = ni_n_hold_time f"
  by (simp add: hold_time_def tables_def proj_apply bare_if_hold)

lemma interface_kept:
  assumes "tb_interfaces (tables db') = tb_interfaces (tables db)" "db_interfaces db i = Some f"
  shows "\<exists>f'. db_interfaces db' i = Some f' \<and> ni_n_hold_time f' = ni_n_hold_time f"
proof -
  obtain f' where f: "db_interfaces db' i = Some f'" "bare_if f' = bare_if f"
    using fun_cong [OF assms(1), of i] assms(2) by (auto simp: tables_def proj_apply)
  then show ?thesis using arg_cong [OF f(2), of ni_n_hold_time] f(1) unfolding bare_if_hold by blast
qed

lemma only_if_ok:
  assumes "nhdp_inv U db" "b \<Longrightarrow> \<exists>db'. f db = Some db' \<and> nhdp_inv U db' \<and> tables db' = g (tables db)"
  shows "\<exists>db'. (if b then f db else Some db) = Some db' \<and> nhdp_inv U db' \<and> tables db' = only_if b g (tables db)"
  using assms by (simp add: only_if_def)

lemma symmetric_fields [simp]:
  "tb_links (now_symmetric p t) = tb_links t" "tb_interfaces (now_symmetric p t) = tb_interfaces t"
  "tb_links (not_symmetric l p h t) = tb_links t" "tb_interfaces (not_symmetric l p h t) = tb_interfaces t"
  by (simp_all add: now_symmetric_def not_symmetric_def add_symmetric_def mark_lost_def Let_def)

lemma link_of_tables:
  assumes "tb_links (tables db') l = Some (bare_link k)"
  shows "\<exists>k'. db_links db' l = Some k' \<and> nl_neigh k' = nl_neigh k \<and> nl_local_if k' = nl_local_if k"
proof -
  obtain k' where k: "db_links db' l = Some k'" "bare_link k = bare_link k'" using tables_links [OF assms] by blast
  then show ?thesis using arg_cong [OF k(2), of nl_neigh] arg_cong [OF k(2), of nl_local_if] k(1) unfolding bare_fields by simp
qed

lemma link_update_status_ok:
  assumes ok: "nhdp_inv U db" and l: "db_links db l = Some k"
  shows "\<exists>db'. nhdp_db_link_update_status hy l db = Some db' \<and> nhdp_inv U db' \<and> tables db' = update_status hy l (tables db)"
proof -
  let ?s = "nhdp_db_link_calculate_status hy l k"
  let ?was = "nl_status k = NHDP_LINK_SYMMETRIC" and ?now = "?s = NHDP_LINK_SYMMETRIC"
  obtain i f where i: "nl_local_if k = Some i" "db_interfaces db i = Some f" using nhdp_refs(2) [OF ok l] by blast
  obtain db1 where 1: "upd_link l (\<lambda>k. Some (k\<lparr>nl_status := ?s\<rparr>)) db = Some db1" "nhdp_inv U db1"
    "tables db1 = set_link l (\<lambda>k. k\<lparr>nl_status := ?s\<rparr>) (tables db)" "db_links db1 l = Some (k\<lparr>nl_status := ?s\<rparr>)"
    using set_link_ok [OF ok l, of "\<lambda>k. k\<lparr>nl_status := ?s\<rparr>"] by auto
  obtain f1 where f1: "db_interfaces db1 i = Some f1" "ni_n_hold_time f1 = ni_n_hold_time f"
    using interface_kept [of db1 db i f] i 1(3) by (auto simp: set_link_def)
  have k1: "nl_neigh (k\<lparr>nl_status := ?s\<rparr>) = nl_neigh k" "nl_local_if (k\<lparr>nl_status := ?s\<rparr>) = Some i" using i by simp_all
  have "\<exists>db'. (if ?was \<and> \<not> ?now then link_status_not_symmetric_anymore l db1 else Some db1) = Some db' \<and> nhdp_inv U db'
      \<and> tables db' = only_if (?was \<and> \<not> ?now) (not_symmetric l (nl_neigh k) (ni_n_hold_time f)) (tables db1)"
    using only_if_ok [OF 1(2)] not_symmetric_ok [OF 1(2,4) k1(2) f1(1)] unfolding f1(2) k1(1) by blast
  then obtain db2 where 2: "(if ?was \<and> \<not> ?now then link_status_not_symmetric_anymore l db1 else Some db1) = Some db2"
    "nhdp_inv U db2" "tables db2 = only_if (?was \<and> \<not> ?now) (not_symmetric l (nl_neigh k) (ni_n_hold_time f)) (tables db1)"
    by blast
  have "tb_links (tables db2) l = Some (bare_link (k\<lparr>nl_status := ?s\<rparr>))"
    using tables_simps(5) [OF 1(4)] by (simp add: 2(3) only_if_def)
  then obtain k2 where k2: "db_links db2 l = Some k2" "nl_neigh k2 = nl_neigh k" using link_of_tables [of db2 l] k1 by metis
  have "\<exists>db'. (if \<not> ?was \<and> ?now then link_status_now_symmetric l db2 else Some db2) = Some db' \<and> nhdp_inv U db'
      \<and> tables db' = only_if (\<not> ?was \<and> ?now) (now_symmetric (nl_neigh k)) (tables db2)"
    using only_if_ok [OF 2(2)] now_symmetric_ok [OF 2(2) k2(1)] unfolding k2(2) by blast
  then obtain db3 where 3: "(if \<not> ?was \<and> ?now then link_status_now_symmetric l db2 else Some db2) = Some db3"
    "nhdp_inv U db3" "tables db3 = only_if (\<not> ?was \<and> ?now) (now_symmetric (nl_neigh k)) (tables db2)"
    by blast
  have "tb_interfaces (tables db3) = tb_interfaces (tables db)"
    by (simp add: 3(3) 2(3) 1(3) only_if_def set_link_def)
  then obtain f3 where f3: "db_interfaces db3 i = Some f3" using interface_kept i(2) by blast
  have "\<exists>db'. (if ?was \<noteq> ?now then nhdp_interface_update_status i db3 else Some db3) = Some db' \<and> nhdp_inv U db'
      \<and> tables db' = only_if (?was \<noteq> ?now) (flooding_update i) (tables db3)"
    using only_if_ok [OF 3(2)] interface_update_status_ok [OF 3(2) f3] by blast
  then obtain db4 where 4: "(if ?was \<noteq> ?now then nhdp_interface_update_status i db3 else Some db3) = Some db4"
    "nhdp_inv U db4" "tables db4 = only_if (?was \<noteq> ?now) (flooding_update i) (tables db3)"
    by blast
  have "nhdp_db_link_update_status hy l db = Some (nhdp_event OBJECT_CHANGED (Nhdp_Link l) db4)"
    using l i(1) 4(1) by (simp add: nhdp_db_link_update_status_def Let_def 1(1) 2(1) 3(1) del: de_Morgan_conj not_all split: if_split_asm)
  moreover have "tables db4 = update_status hy l (tables db)"
    using i tables_simps(5) [OF l]
    by (simp add: 4(3) 3(3) 2(3) 1(3) update_status_def calculate_bare hold_time_ok Let_def)
  ultimately show ?thesis using 4(2) by simp
qed

lemma link_set_unsymmetric_ok:
  assumes ok: "nhdp_inv U db" and l: "db_links db l = Some k"
  shows "\<exists>db'. nhdp_db_link_set_unsymmetric l db = Some db' \<and> nhdp_inv U db' \<and> tables db' = set_unsymmetric l (tables db)"
proof -
  let ?was = "nl_status k = NHDP_LINK_SYMMETRIC"
  obtain i f where i: "nl_local_if k = Some i" "db_interfaces db i = Some f" using nhdp_refs(2) [OF ok l] by blast
  have "\<exists>db'. (if ?was then link_status_not_symmetric_anymore l db else Some db) = Some db' \<and> nhdp_inv U db'
      \<and> tables db' = only_if ?was (not_symmetric l (nl_neigh k) (ni_n_hold_time f)) (tables db)"
    using only_if_ok [OF ok] not_symmetric_ok [OF ok l i] by blast
  then obtain db1 where 1: "(if ?was then link_status_not_symmetric_anymore l db else Some db) = Some db1" "nhdp_inv U db1"
    "tables db1 = only_if ?was (not_symmetric l (nl_neigh k) (ni_n_hold_time f)) (tables db)"
    by blast
  have "tb_links (tables db1) l = Some (bare_link k)"
    using tables_simps(5) [OF l] by (simp add: 1(3) only_if_def)
  then obtain k1 where k1: "db_links db1 l = Some k1" using link_of_tables [of db1 l] by blast
  obtain db2 where 2: "upd_link l (\<lambda>k. Some (k\<lparr>nl_sym_time := None\<rparr>)) db1 = Some db2" "nhdp_inv U db2"
    "tables db2 = set_link l (\<lambda>k. k\<lparr>nl_sym_time := None\<rparr>) (tables db1)" "db_links db2 l = Some (k1\<lparr>nl_sym_time := None\<rparr>)"
    using set_link_ok [OF 1(2) k1, of "\<lambda>k. k\<lparr>nl_sym_time := None\<rparr>"] by auto
  obtain db3 where 3: "for_each nhdp_db_link_2hop_remove (avl_elements (nl_2hop (k1\<lparr>nl_sym_time := None\<rparr>))) db2 = Some db3" "nhdp_inv U db3"
    "tables db3 = (tables db2)\<lparr>tb_l2hops := purge (\<lambda>h. l2_link h = l) (db_l2hops db2)\<rparr>"
    using l2hops_of_link_removed [OF 2(2,4)] by blast
  have "nhdp_db_link_set_unsymmetric l db = Some (nhdp_event OBJECT_CHANGED (Nhdp_Link l) db3)"
    using l 1(1) 2(1,4) 3(1) by (simp add: nhdp_db_link_set_unsymmetric_def)
  moreover have "tables db3 = set_unsymmetric l (tables db)"
    using i tables_simps(5) [OF l] tables_simps(2) [of db2]
    by (simp add: 3(3) 2(3) 1(3) set_unsymmetric_def hold_time_ok Let_def)
  ultimately show ?thesis using 3(2) by simp
qed

subsection \<open>Timers\<close>

lemma link_set_times_ok:
  assumes ok: "nhdp_inv U db" and l: "db_links db l = Some k"
  shows "\<exists>db'. nhdp_db_link_set_vtime l v db = Some db' \<and> nhdp_inv U db' \<and> tables db' = set_link l (\<lambda>k. k\<lparr>nl_vtime := timer_interval v\<rparr>) (tables db)"
    "\<exists>db'. nhdp_db_link_set_heardtime l v db = Some db' \<and> nhdp_inv U db' \<and> tables db' = set_link l (\<lambda>k. k\<lparr>nl_heard_time := timer_interval v\<rparr>) (tables db)"
    "\<exists>db'. nhdp_db_link_set_symtime hy l v db = Some db' \<and> nhdp_inv U db'
      \<and> tables db' = update_status hy l (set_link l (\<lambda>k. k\<lparr>nl_sym_time := timer_interval v\<rparr>) (tables db))"
proof -
  show "\<exists>db'. nhdp_db_link_set_vtime l v db = Some db' \<and> nhdp_inv U db' \<and> tables db' = set_link l (\<lambda>k. k\<lparr>nl_vtime := timer_interval v\<rparr>) (tables db)"
    using set_link_ok [OF ok l, of "\<lambda>k. k\<lparr>nl_vtime := timer_interval v\<rparr>"] by (auto simp: nhdp_db_link_set_vtime_def)
  show "\<exists>db'. nhdp_db_link_set_heardtime l v db = Some db' \<and> nhdp_inv U db' \<and> tables db' = set_link l (\<lambda>k. k\<lparr>nl_heard_time := timer_interval v\<rparr>) (tables db)"
    using set_link_ok [OF ok l, of "\<lambda>k. k\<lparr>nl_heard_time := timer_interval v\<rparr>"] by (auto simp: nhdp_db_link_set_heardtime_def)
  obtain db1 k1 where 1: "upd_link l (\<lambda>k. Some (k\<lparr>nl_sym_time := timer_interval v\<rparr>)) db = Some db1" "nhdp_inv U db1"
    "tables db1 = set_link l (\<lambda>k. k\<lparr>nl_sym_time := timer_interval v\<rparr>) (tables db)" "db_links db1 l = Some k1"
    using set_link_ok [OF ok l, of "\<lambda>k. k\<lparr>nl_sym_time := timer_interval v\<rparr>"] by auto
  show "\<exists>db'. nhdp_db_link_set_symtime hy l v db = Some db' \<and> nhdp_inv U db'
      \<and> tables db' = update_status hy l (set_link l (\<lambda>k. k\<lparr>nl_sym_time := timer_interval v\<rparr>) (tables db))"
    using link_update_status_ok [OF 1(2,4), of hy] by (simp add: nhdp_db_link_set_symtime_def 1(1,3))
qed

subsection \<open>All links of a neighbor, all neighbors\<close>

lemma set_unsymmetric_links: "tb_links (set_unsymmetric l t) q = None \<longleftrightarrow> tb_links t q = None"
  by (simp add: set_unsymmetric_def set_link_def only_if_def Let_def split: option.split)

lemma neighbor_set_unsymmetric_ok:
  assumes ok: "nhdp_inv U db" and p: "db_neighs db p = Some n"
  shows "\<exists>db'. nhdp_db_neighbor_set_unsymmetric p db = Some db' \<and> nhdp_inv U db' \<and> tables db' = fold set_unsymmetric (nn_links n) (tables db)"
proof -
  note L = neighbor_links [OF ok p]
  have "\<exists>db'. for_each nhdp_db_link_set_unsymmetric (nn_links n) db = Some db' \<and> nhdp_inv U db' \<and> tables db' = fold set_unsymmetric (nn_links n) (tables db)"
  proof (rule for_each_ok [where P = "\<lambda>l t. tb_links t l \<noteq> None"])
    show "\<exists>db'. nhdp_db_link_set_unsymmetric l db = Some db' \<and> nhdp_inv U db' \<and> tables db' = set_unsymmetric l (tables db)"
      if "nhdp_inv U db" "tb_links (tables db) l \<noteq> None" for l db
      using link_set_unsymmetric_ok [OF that(1), of l] that(2) by (auto simp: tables_simps)
    show "\<forall>l \<in> set (nn_links n). tb_links (tables db) l \<noteq> None" using L(2) by (auto simp: tables_simps)
  qed (use L(1) ok in \<open>simp_all add: set_unsymmetric_links\<close>)
  then obtain db' where "for_each nhdp_db_link_set_unsymmetric (nn_links n) db = Some db'" "nhdp_inv U db'"
    "tables db' = fold set_unsymmetric (nn_links n) (tables db)" by blast
  then show ?thesis using p by (simp add: nhdp_db_neighbor_set_unsymmetric_def)
qed

definition no_tables :: "(ptr \<Rightarrow> nhdp_interface option) \<Rightarrow> nhdp_tables" where
  "no_tables I = \<lparr>tb_neighs = (\<lambda>_. None), tb_links = (\<lambda>_. None), tb_laddrs = (\<lambda>_. None), tb_l2hops = (\<lambda>_. None),
     tb_naddrs = (\<lambda>_. None), tb_interfaces = I\<rparr>"

lemma no_neighbors:
  assumes ok: "nhdp_inv U db" and none: "\<And>p. db_neighs db p = None"
  shows "tables db = no_tables (tb_interfaces (tables db))"
proof -
  have "db_links db l = None" for l
    by (cases "db_links db l") (use nhdp_refs(2) [OF ok] none in auto)
  moreover from this have "db_laddrs db x = None" for x
    by (cases "db_laddrs db x") (use nhdp_refs(3) [OF ok] in auto)
  moreover from calculation(1) have "db_l2hops db x = None" for x
    by (cases "db_l2hops db x") (use nhdp_refs(4) [OF ok] in auto)
  moreover have "db_naddrs db x = None" for x
    by (cases "db_naddrs db x") (use nhdp_refs(1) [OF ok] none in auto)
  ultimately show ?thesis using none by (simp add: no_tables_def tables_def proj_def fun_eq_iff)
qed

lemma remove_neighbor_fields:
  "tb_neighs (remove_neighbor p t) q = None \<longleftrightarrow> q = p \<or> tb_neighs t q = None" "tb_interfaces (remove_neighbor p t) = tb_interfaces t"
  by (auto simp: remove_neighbor_def remove_links_def neigh_partner.lone_def)

lemma fold_remove_neighbor:
  "tb_neighs (fold remove_neighbor ps t) q = None \<longleftrightarrow> q \<in> set ps \<or> tb_neighs t q = None"
  "tb_interfaces (fold remove_neighbor ps t) = tb_interfaces t"
  by (induction ps arbitrary: t) (auto simp: remove_neighbor_fields)

lemma cleanup_ok:
  assumes ok: "nhdp_ok db"
  shows "\<exists>db'. nhdp_db_cleanup db = Some db' \<and> nhdp_ok db' \<and> tables db' = no_tables (tb_interfaces (tables db))"
proof -
  note N = neigh_list_ok [OF ok]
  have "\<exists>db'. for_each nhdp_db_neighbor_remove (db_neigh_list db) db = Some db' \<and> nhdp_ok db'
      \<and> tables db' = fold remove_neighbor (db_neigh_list db) (tables db)"
  proof (rule for_each_ok [where P = "\<lambda>p t. tb_neighs t p \<noteq> None"])
    show "\<exists>db'. nhdp_db_neighbor_remove p db = Some db' \<and> nhdp_ok db' \<and> tables db' = remove_neighbor p (tables db)"
      if "nhdp_ok db" "tb_neighs (tables db) p \<noteq> None" for p db
      using neighbor_remove_ok [OF that(1), of p] that(2) by (auto simp: tables_simps)
  qed (use N ok in \<open>simp_all add: remove_neighbor_fields tables_simps\<close>)
  then obtain db' where 1: "nhdp_db_cleanup db = Some db'" "nhdp_ok db'" "tables db' = fold remove_neighbor (db_neigh_list db) (tables db)"
    by (auto simp: nhdp_db_cleanup_def)
  have "db_neighs db' p = None" for p
    using tables_simps(6) [of db' p] N(2) [of p] by (cases "db_neighs db p") (simp_all add: 1(3) fold_remove_neighbor tables_simps)
  from no_neighbors [OF 1(2) this] show ?thesis using 1 by (simp add: fold_remove_neighbor)
qed

subsection \<open>Operations\<close>

text \<open>
  The operations with their arguments, what a caller has to guarantee, and what an operation does to the
  tables. New objects get fresh addresses; an address is added only after a lookup did not find it; the
  links of a neighbor that is joined to another one have no addresses; an address of a link moves only
  between links of one interface.
\<close>

datatype nhdp_op =
  Neighbor_Add ptr | Neighbor_Remove ptr | Neighbor_Set_Originator ptr netaddr | Neighbor_Connect ptr ptr
| Neighbor_Join ptr ptr | Neighbor_Set_Unsymmetric ptr
| Naddr_Add ptr ptr netaddr | Naddr_Remove ptr | Naddr_Move ptr ptr | Naddr_Set_Lost ptr u64 | Naddr_Not_Lost ptr
| Link_Add ptr ptr ptr | Link_Remove ptr | Link_Connect ptr ptr | Link_Update_Status ptr | Link_Set_Unsymmetric ptr
| Link_Set_Vtime ptr u64 | Link_Set_Heardtime ptr u64 | Link_Set_Symtime ptr u64
| Laddr_Add ptr ptr netaddr | Laddr_Remove ptr | Laddr_Move ptr ptr
| L2hop_Add ptr ptr netaddr | L2hop_Remove ptr | L2hop_Set_Vtime ptr u64 | Interface_Update_Status ptr | Cleanup

fun exec_op :: "domains \<Rightarrow> hysteresis \<Rightarrow> nhdp_op \<Rightarrow> nhdp_db \<Rightarrow> nhdp_db option" where
  "exec_op ds hy (Neighbor_Add p) db = Some (snd (nhdp_db_neighbor_add ds (Some p) db))"
| "exec_op ds hy (Neighbor_Remove p) db = nhdp_db_neighbor_remove p db"
| "exec_op ds hy (Neighbor_Set_Originator p a) db = nhdp_db_neighbor_set_originator p a db"
| "exec_op ds hy (Neighbor_Connect p q) db = nhdp_db_neighbor_connect_dualstack p q db"
| "exec_op ds hy (Neighbor_Join dst src) db = nhdp_db_neighbor_join dst src db"
| "exec_op ds hy (Neighbor_Set_Unsymmetric p) db = nhdp_db_neighbor_set_unsymmetric p db"
| "exec_op ds hy (Naddr_Add x p a) db = map_option snd (nhdp_db_neighbor_addr_add (Some x) p a db)"
| "exec_op ds hy (Naddr_Remove x) db = nhdp_db_neighbor_addr_remove x db"
| "exec_op ds hy (Naddr_Move p x) db = nhdp_db_neighbor_addr_move p x db"
| "exec_op ds hy (Naddr_Set_Lost x v) db = nhdp_db_neighbor_addr_set_lost x v db"
| "exec_op ds hy (Naddr_Not_Lost x) db = nhdp_db_neighbor_addr_not_lost x db"
| "exec_op ds hy (Link_Add l p i) db = map_option snd (nhdp_db_link_add ds (Some l) p i db)"
| "exec_op ds hy (Link_Remove l) db = nhdp_db_link_remove l db"
| "exec_op ds hy (Link_Connect l q) db = nhdp_db_link_connect_dualstack l q db"
| "exec_op ds hy (Link_Update_Status l) db = nhdp_db_link_update_status hy l db"
| "exec_op ds hy (Link_Set_Unsymmetric l) db = nhdp_db_link_set_unsymmetric l db"
| "exec_op ds hy (Link_Set_Vtime l v) db = nhdp_db_link_set_vtime l v db"
| "exec_op ds hy (Link_Set_Heardtime l v) db = nhdp_db_link_set_heardtime l v db"
| "exec_op ds hy (Link_Set_Symtime l v) db = nhdp_db_link_set_symtime hy l v db"
| "exec_op ds hy (Laddr_Add x l a) db = map_option snd (nhdp_db_link_addr_add (Some x) l a db)"
| "exec_op ds hy (Laddr_Remove x) db = nhdp_db_link_addr_remove x db"
| "exec_op ds hy (Laddr_Move l x) db = nhdp_db_link_addr_move l x db"
| "exec_op ds hy (L2hop_Add x l a) db = map_option snd (nhdp_db_link_2hop_add ds (Some x) l a db)"
| "exec_op ds hy (L2hop_Remove x) db = nhdp_db_link_2hop_remove x db"
| "exec_op ds hy (L2hop_Set_Vtime x v) db = nhdp_db_link_2hop_set_vtime x v db"
| "exec_op ds hy (Interface_Update_Status i) db = nhdp_interface_update_status i db"
| "exec_op ds hy Cleanup db = nhdp_db_cleanup db"

text \<open>Without memory for the new object an operation leaves the database as it was, so these runs add no states.\<close>

lemma add_without_memory:
  "nhdp_db_neighbor_add ds None db = (None, db)" "nhdp_db_neighbor_addr_add None p addr db = Some (None, db)"
  "nhdp_db_link_add ds None p i db = Some (None, db)" "nhdp_db_link_addr_add None l addr db = Some (None, db)"
  "nhdp_db_link_2hop_add ds None l addr db = Some (None, db)"
  by (simp_all add: nhdp_db_neighbor_add_def nhdp_db_neighbor_addr_add_def nhdp_db_link_add_def
      nhdp_db_link_addr_add_def nhdp_db_link_2hop_add_def)

definition has :: "('k \<Rightarrow> 'v option) \<Rightarrow> 'k \<Rightarrow> bool" where
  "has m x = (m x \<noteq> None)"

text \<open>The guarantees of the caller, over the tables.\<close>

fun allowed :: "nhdp_op \<Rightarrow> nhdp_tables \<Rightarrow> bool" where
  "allowed (Neighbor_Add p) t = (\<not> has (tb_neighs t) p)"
| "allowed (Neighbor_Remove p) t = has (tb_neighs t) p"
| "allowed (Neighbor_Set_Originator p a) t = has (tb_neighs t) p"
| "allowed (Neighbor_Connect p q) t = (has (tb_neighs t) p \<and> has (tb_neighs t) q \<and> p \<noteq> q)"
| "allowed (Neighbor_Join dst src) t = (has (tb_neighs t) dst \<and> has (tb_neighs t) src \<and>
     (\<forall>x a k. tb_laddrs t x = Some a \<longrightarrow> tb_links t (ld_link a) = Some k \<longrightarrow> nl_neigh k \<noteq> src))"
| "allowed (Neighbor_Set_Unsymmetric p) t = has (tb_neighs t) p"
| "allowed (Naddr_Add x p a) t = (\<not> has (tb_naddrs t) x \<and> has (tb_neighs t) p \<and> (\<forall>y b. tb_naddrs t y = Some b \<longrightarrow> nx_addr b \<noteq> a))"
| "allowed (Naddr_Remove x) t = has (tb_naddrs t) x"
| "allowed (Naddr_Move p x) t = (has (tb_naddrs t) x \<and> has (tb_neighs t) p)"
| "allowed (Naddr_Set_Lost x v) t = has (tb_naddrs t) x"
| "allowed (Naddr_Not_Lost x) t = has (tb_naddrs t) x"
| "allowed (Link_Add l p i) t = (\<not> has (tb_links t) l \<and> has (tb_neighs t) p \<and> has (tb_interfaces t) i)"
| "allowed (Link_Remove l) t = has (tb_links t) l"
| "allowed (Link_Connect l q) t = (has (tb_links t) l \<and> has (tb_links t) q \<and> l \<noteq> q)"
| "allowed (Link_Update_Status l) t = has (tb_links t) l"
| "allowed (Link_Set_Unsymmetric l) t = has (tb_links t) l"
| "allowed (Link_Set_Vtime l v) t = has (tb_links t) l"
| "allowed (Link_Set_Heardtime l v) t = has (tb_links t) l"
| "allowed (Link_Set_Symtime l v) t = has (tb_links t) l"
| "allowed (Laddr_Add x l a) t = (\<not> has (tb_laddrs t) x \<and> (\<exists>k. tb_links t l = Some k \<and>
     (\<forall>y b j. tb_laddrs t y = Some b \<longrightarrow> tb_links t (ld_link b) = Some j \<longrightarrow> nl_local_if j = nl_local_if k \<longrightarrow> ld_addr b \<noteq> a)))"
| "allowed (Laddr_Remove x) t = has (tb_laddrs t) x"
| "allowed (Laddr_Move l x) t = (\<exists>a k j. tb_laddrs t x = Some a \<and> tb_links t (ld_link a) = Some j \<and> tb_links t l = Some k \<and>
     nl_local_if j = nl_local_if k)"
| "allowed (L2hop_Add x l a) t = (\<not> has (tb_l2hops t) x \<and> has (tb_links t) l \<and>
     (\<forall>y h. tb_l2hops t y = Some h \<longrightarrow> l2_link h = l \<longrightarrow> l2_addr h \<noteq> a))"
| "allowed (L2hop_Remove x) t = has (tb_l2hops t) x"
| "allowed (L2hop_Set_Vtime x v) t = has (tb_l2hops t) x"
| "allowed (Interface_Update_Status i) t = has (tb_interfaces t) i"
| "allowed Cleanup t = True"

definition set_field :: "('k \<Rightarrow> 'v option) \<Rightarrow> 'k \<Rightarrow> ('v \<Rightarrow> 'v) \<Rightarrow> 'k \<Rightarrow> 'v option" where
  "set_field m x f = m(x := map_option f (m x))"

text \<open>The effect of an operation; the links of a neighbor lose their symmetric status in some order.\<close>

fun effect :: "domains \<Rightarrow> hysteresis \<Rightarrow> nhdp_op \<Rightarrow> nhdp_tables \<Rightarrow> nhdp_tables \<Rightarrow> bool" where
  "effect ds hy (Neighbor_Add p) t t' = (t' = t\<lparr>tb_neighs := (tb_neighs t)(p \<mapsto> nhdp_domain_init_neighbor ds new_neighbor)\<rparr>)"
| "effect ds hy (Neighbor_Remove p) t t' = (t' = remove_neighbor p t)"
| "effect ds hy (Neighbor_Set_Originator p a) t t' = (t' = tables_originator p a t)"
| "effect ds hy (Neighbor_Connect p q) t t' = (t' = t\<lparr>tb_neighs := neigh_partner.paired p q (tb_neighs t)\<rparr>)"
| "effect ds hy (Neighbor_Join dst src) t t' = (t' = (if dst = src then t else join dst src t))"
| "effect ds hy (Neighbor_Set_Unsymmetric p) t t' =
     (\<exists>ls. distinct ls \<and> (\<forall>l. l \<in> set ls \<longleftrightarrow> (\<exists>k. tb_links t l = Some k \<and> nl_neigh k = p)) \<and> t' = fold set_unsymmetric ls t)"
| "effect ds hy (Naddr_Add x p a) t t' = (t' = t\<lparr>tb_naddrs := (tb_naddrs t)(x \<mapsto>
     \<lparr>nx_addr = a, nx_neigh = p, nx_laddr_count = 0, nx_lost_vtime = None, nx_this_if = False, nx_might_be_removed = False\<rparr>)\<rparr>)"
| "effect ds hy (Naddr_Remove x) t t' = (t' = t\<lparr>tb_naddrs := (tb_naddrs t)(x := None)\<rparr>)"
| "effect ds hy (Naddr_Move p x) t t' = (t' = t\<lparr>tb_naddrs := set_field (tb_naddrs t) x (\<lambda>a. a\<lparr>nx_neigh := p\<rparr>)\<rparr>)"
| "effect ds hy (Naddr_Set_Lost x v) t t' = (t' = t\<lparr>tb_naddrs := set_field (tb_naddrs t) x (\<lambda>a. a\<lparr>nx_lost_vtime := timer_interval v\<rparr>)\<rparr>)"
| "effect ds hy (Naddr_Not_Lost x) t t' = (t' = t\<lparr>tb_naddrs := set_field (tb_naddrs t) x (\<lambda>a. a\<lparr>nx_lost_vtime := None\<rparr>)\<rparr>)"
| "effect ds hy (Link_Add l p i) t t' = (t' = t\<lparr>tb_links := (tb_links t)(l \<mapsto> bare_link (fresh_link ds p i))\<rparr>)"
| "effect ds hy (Link_Remove l) t t' = (t' = remove_links (\<lambda>x. x = l) t)"
| "effect ds hy (Link_Connect l q) t t' = (t' = t\<lparr>tb_links := link_partner.paired l q (tb_links t)\<rparr>)"
| "effect ds hy (Link_Update_Status l) t t' = (t' = update_status hy l t)"
| "effect ds hy (Link_Set_Unsymmetric l) t t' = (t' = set_unsymmetric l t)"
| "effect ds hy (Link_Set_Vtime l v) t t' = (t' = set_link l (\<lambda>k. k\<lparr>nl_vtime := timer_interval v\<rparr>) t)"
| "effect ds hy (Link_Set_Heardtime l v) t t' = (t' = set_link l (\<lambda>k. k\<lparr>nl_heard_time := timer_interval v\<rparr>) t)"
| "effect ds hy (Link_Set_Symtime l v) t t' = (t' = update_status hy l (set_link l (\<lambda>k. k\<lparr>nl_sym_time := timer_interval v\<rparr>) t))"
| "effect ds hy (Laddr_Add x l a) t t' = (t' = t\<lparr>tb_laddrs := (tb_laddrs t)(x \<mapsto> \<lparr>ld_addr = a, ld_link = l, ld_might_be_removed = False\<rparr>)\<rparr>)"
| "effect ds hy (Laddr_Remove x) t t' = (t' = t\<lparr>tb_laddrs := (tb_laddrs t)(x := None)\<rparr>)"
| "effect ds hy (Laddr_Move l x) t t' = (t' = t\<lparr>tb_laddrs := set_field (tb_laddrs t) x (\<lambda>a. a\<lparr>ld_link := l\<rparr>)\<rparr>)"
| "effect ds hy (L2hop_Add x l a) t t' = (t' = t\<lparr>tb_l2hops := (tb_l2hops t)(x \<mapsto> new_l2hop ds l a)\<rparr>)"
| "effect ds hy (L2hop_Remove x) t t' = (t' = t\<lparr>tb_l2hops := (tb_l2hops t)(x := None)\<rparr>)"
| "effect ds hy (L2hop_Set_Vtime x v) t t' = (t' = t\<lparr>tb_l2hops := set_field (tb_l2hops t) x (\<lambda>h. h\<lparr>l2_vtime := timer_interval v\<rparr>)\<rparr>)"
| "effect ds hy (Interface_Update_Status i) t t' = (t' = flooding_update i t)"
| "effect ds hy Cleanup t t' = (t' = no_tables (tb_interfaces t))"

lemma find_naddr:
  assumes "nhdp_inv U db"
  shows "nhdp_db_neighbor_addr_get db addr = Some x \<longleftrightarrow> (\<exists>a. db_naddrs db x = Some a \<and> nx_addr a = addr)"
proof -
  note D = naddr_invD [OF nhdp_okD(1) [OF assms]]
  show ?thesis
    using addr_index.find_iff [OF const_hookedD(1) [OF D(1)], of addr x]
    by (auto simp: nhdp_db_neighbor_addr_get_def const_hookedD(2) [OF D(1)] all_of_def proj_apply)
qed

lemma find_laddr:
  assumes ok: "nhdp_inv U db" and i: "db_interfaces db i = Some f"
  shows "nhdp_interface_get_link_addr f addr = Some x \<longleftrightarrow>
    (\<exists>a k. db_laddrs db x = Some a \<and> ld_addr a = addr \<and> db_links db (ld_link a) = Some k \<and> nl_local_if k = Some i)"
proof -
  note h = laddr_invD(4) [OF nhdp_okD(5) [OF ok]]
  have T: "proj ni_link_addresses (db_interfaces db) i = Some (ni_link_addresses f)" using i by (simp add: proj_apply)
  show ?thesis
    by (auto simp: nhdp_interface_get_link_addr_def hooked_find_Some [OF h T] via_Some if_of_Some proj_apply link_core_def)
qed

lemma option_NoneI: "(\<And>x. m \<noteq> Some x) \<Longrightarrow> m = None"
  by (cases m) auto

lemma free_addresses:
  assumes ok: "nhdp_inv U db"
  shows "(\<forall>y b. db_naddrs db y = Some b \<longrightarrow> nx_addr b \<noteq> a) \<Longrightarrow> nhdp_db_neighbor_addr_get db a = None"
    "db_links db l = Some k \<Longrightarrow> nl_local_if k = Some i \<Longrightarrow> db_interfaces db i = Some f \<Longrightarrow>
     (\<forall>y b j. db_laddrs db y = Some b \<longrightarrow> db_links db (ld_link b) = Some j \<longrightarrow> nl_local_if j = nl_local_if k \<longrightarrow> ld_addr b \<noteq> a) \<Longrightarrow>
     nhdp_interface_get_link_addr f a = None"
    "db_links db l = Some k \<Longrightarrow> (\<forall>y h. db_l2hops db y = Some h \<longrightarrow> l2_link h = l \<longrightarrow> l2_addr h \<noteq> a) \<Longrightarrow> nhdp_db_link_2hop_get k a = None"
proof -
  show "(\<forall>y b. db_naddrs db y = Some b \<longrightarrow> nx_addr b \<noteq> a) \<Longrightarrow> nhdp_db_neighbor_addr_get db a = None"
    by (rule option_NoneI) (simp add: find_naddr [OF ok])
  show "nhdp_interface_get_link_addr f a = None"
    if "db_links db l = Some k" "nl_local_if k = Some i" "db_interfaces db i = Some f"
      "\<forall>y b j. db_laddrs db y = Some b \<longrightarrow> db_links db (ld_link b) = Some j \<longrightarrow> nl_local_if j = nl_local_if k \<longrightarrow> ld_addr b \<noteq> a"
    by (rule option_NoneI) (use that(2,4) in \<open>auto simp: find_laddr [OF ok that(3)]\<close>)
  show "nhdp_db_link_2hop_get k a = None"
    if "db_links db l = Some k" "\<forall>y h. db_l2hops db y = Some h \<longrightarrow> l2_link h = l \<longrightarrow> l2_addr h \<noteq> a"
    by (rule option_NoneI) (use that(2) in \<open>simp add: link_2hops(3) [OF ok that(1)]\<close>)
qed

lemma tb_has:
  assumes "nhdp_inv U db"
  shows "has (tb_neighs (tables db)) p \<longleftrightarrow> (\<exists>n. db_neighs db p = Some n)" "has (tb_links (tables db)) l \<longleftrightarrow> (\<exists>k. db_links db l = Some k)"
    "has (tb_laddrs (tables db)) x \<longleftrightarrow> (\<exists>a. db_laddrs db x = Some a)" "has (tb_l2hops (tables db)) x \<longleftrightarrow> (\<exists>h. db_l2hops db x = Some h)"
    "has (tb_naddrs (tables db)) x \<longleftrightarrow> (\<exists>a. db_naddrs db x = Some a)" "has (tb_interfaces (tables db)) i \<longleftrightarrow> (\<exists>f. db_interfaces db i = Some f)"
  by (auto simp: has_def tables_def proj_apply)

lemma tb_links_iff: "tb_links (tables db) l = Some k \<longleftrightarrow> (\<exists>k'. db_links db l = Some k' \<and> k = bare_link k')"
  by (auto simp: tables_def proj_apply)

lemma exec_neighbor_ops:
  assumes ok: "nhdp_ok db" and op: "op = Neighbor_Add p \<or> op = Neighbor_Remove p \<or> op = Neighbor_Set_Originator p a \<or>
    op = Neighbor_Connect p q \<or> op = Neighbor_Join p q \<or> op = Neighbor_Set_Unsymmetric p"
    and a: "allowed op (tables db)"
  shows "\<exists>db'. exec_op ds hy op db = Some db' \<and> nhdp_ok db' \<and> effect ds hy op (tables db) (tables db')"
  using op
proof (elim disjE)
  note tb = tb_has [OF ok]
  show ?thesis if "op = Neighbor_Add p"
    using neighbor_add_ok [OF ok, of p ds] a that by (auto simp: tb)
  show ?thesis if "op = Neighbor_Remove p"
    using neighbor_remove_ok [OF ok, of p] a that by (auto simp: tb)
  show ?thesis if "op = Neighbor_Set_Originator p a"
    using neighbor_originator_ok [OF ok, of p] a that by (auto simp: tb)
  show ?thesis if "op = Neighbor_Connect p q"
    using neighbor_connect_ok [OF ok, of p _ q] a that by (auto simp: tb)
  show ?thesis if op: "op = Neighbor_Join p q"
  proof (cases "p = q")
    case True
    then show ?thesis using op ok by (simp add: nhdp_db_neighbor_join_def)
  next
    case False
    obtain n m where n: "db_neighs db q = Some n" "db_neighs db p = Some m" using a op by (auto simp: tb)
    have "nl_neigh k \<noteq> q" if "db_laddrs db x = Some b" "db_links db (ld_link b) = Some k" for x b k
    proof -
      have "\<forall>x a k. tb_laddrs (tables db) x = Some a \<longrightarrow> tb_links (tables db) (ld_link a) = Some k \<longrightarrow> nl_neigh k \<noteq> q"
        using a op by simp
      from this [rule_format, of x b "bare_link k"] show ?thesis using that by (simp add: tables_simps)
    qed
    from neighbor_join_ok [OF ok n False this] show ?thesis using op False by simp
  qed
  show ?thesis if op: "op = Neighbor_Set_Unsymmetric p"
  proof -
    obtain n where n: "db_neighs db p = Some n" using a op by (auto simp: tb)
    have "l \<in> set (nn_links n) \<longleftrightarrow> (\<exists>k. tb_links (tables db) l = Some k \<and> nl_neigh k = p)" for l
      using neighbor_links(2) [OF ok n, of l] by (auto simp: tb_links_iff)
    then show ?thesis using neighbor_set_unsymmetric_ok [OF ok n] neighbor_links(1) [OF ok n] op by auto
  qed
qed

lemma exec_address_ops:
  assumes ok: "nhdp_ok db" and op: "op = Naddr_Add x p a \<or> op = Naddr_Remove x \<or> op = Naddr_Move p x \<or> op = Naddr_Set_Lost x v \<or>
    op = Naddr_Not_Lost x \<or> op = Laddr_Add x p a \<or> op = Laddr_Remove x \<or> op = Laddr_Move p x"
    and a: "allowed op (tables db)"
  shows "\<exists>db'. exec_op ds hy op db = Some db' \<and> nhdp_ok db' \<and> effect ds hy op (tables db) (tables db')"
  using op
proof (elim disjE)
  note tb = tb_has [OF ok]
  show ?thesis if op: "op = Naddr_Add x p a"
  proof -
    have x: "db_naddrs db x = None" "\<forall>y b. db_naddrs db y = Some b \<longrightarrow> nx_addr b \<noteq> a" and "has (tb_neighs (tables db)) p"
      using a op by (auto simp: has_def tables_simps(3))
    then obtain n where "db_neighs db p = Some n" by (auto simp: tb)
    from neighbor_addr_add_ok [OF ok this x(1) free_addresses(1) [OF ok x(2)]] show ?thesis using op by (auto simp: tables_simps(3))
  qed
  show ?thesis if "op = Naddr_Remove x"
    using neighbor_addr_remove_ok [OF ok, of x] a that by (auto simp: has_def tables_simps(3))
  show ?thesis if op: "op = Naddr_Move p x"
  proof -
    obtain b n where "db_naddrs db x = Some b" "db_neighs db p = Some n" using a op by (auto simp: tb)
    then show ?thesis using neighbor_addr_move_ok [OF ok, of x b p n] op by (auto simp: tables_simps(3) set_field_def)
  qed
  show ?thesis if op: "op = Naddr_Set_Lost x v"
  proof -
    obtain b where "db_naddrs db x = Some b" using a op by (auto simp: tb)
    then show ?thesis
      using upd_naddr_ok [OF ok, of x b "\<lambda>a. a\<lparr>nx_lost_vtime := timer_interval v\<rparr>"] op
      by (auto simp: tables_simps(3) set_field_def nhdp_db_neighbor_addr_set_lost_def)
  qed
  show ?thesis if op: "op = Naddr_Not_Lost x"
  proof -
    obtain b where "db_naddrs db x = Some b" using a op by (auto simp: tb)
    then show ?thesis
      using upd_naddr_ok [OF ok, of x b "\<lambda>a. a\<lparr>nx_lost_vtime := None\<rparr>"] op
      by (auto simp: tables_simps(3) set_field_def nhdp_db_neighbor_addr_not_lost_def)
  qed
  show ?thesis if op: "op = Laddr_Add x p a"
  proof -
    obtain k where k: "db_links db p = Some k" "db_laddrs db x = None" and
      u: "\<forall>y b j. tb_laddrs (tables db) y = Some b \<longrightarrow> tb_links (tables db) (ld_link b) = Some j \<longrightarrow>
        nl_local_if j = nl_local_if (bare_link k) \<longrightarrow> ld_addr b \<noteq> a"
      using a op by (auto simp: has_def tables_simps(1) tb_links_iff)
    have u': "\<forall>y b j. db_laddrs db y = Some b \<longrightarrow> db_links db (ld_link b) = Some j \<longrightarrow> nl_local_if j = nl_local_if k \<longrightarrow> ld_addr b \<noteq> a"
    proof (intro allI impI)
      fix y b j assume "db_laddrs db y = Some b" "db_links db (ld_link b) = Some j" "nl_local_if j = nl_local_if k"
      then show "ld_addr b \<noteq> a" using u [rule_format, of y b "bare_link j"] by (simp add: tables_simps)
    qed
    obtain i f where i: "nl_local_if k = Some i" "db_interfaces db i = Some f" using nhdp_refs(2) [OF ok k(1)] by blast
    from link_addr_add_ok [OF ok k i free_addresses(2) [OF ok k(1) i u']] show ?thesis using op by (auto simp: tables_simps(1))
  qed
  show ?thesis if "op = Laddr_Remove x"
    using link_addr_remove_ok [OF ok, of x] a that by (auto simp: has_def tables_simps(1))
  show ?thesis if op: "op = Laddr_Move p x"
  proof -
    obtain b k j where b: "db_laddrs db x = Some b" "db_links db (ld_link b) = Some j" "db_links db p = Some k" "nl_local_if j = nl_local_if k"
      using a op by (auto simp: tb_links_iff tables_simps(1))
    from link_addr_move_ok [OF ok b] show ?thesis using op b(1) by (auto simp: tables_simps(1) set_field_def)
  qed
qed

lemma exec_link_ops:
  assumes ok: "nhdp_ok db" and op: "op = Link_Add l p i \<or> op = Link_Remove l \<or> op = Link_Connect l q \<or> op = Link_Update_Status l \<or>
    op = Link_Set_Unsymmetric l \<or> op = Link_Set_Vtime l v \<or> op = Link_Set_Heardtime l v \<or> op = Link_Set_Symtime l v"
    and a: "allowed op (tables db)"
  shows "\<exists>db'. exec_op ds hy op db = Some db' \<and> nhdp_ok db' \<and> effect ds hy op (tables db) (tables db')"
  using op
proof (elim disjE)
  note tb = tb_has [OF ok]
  show ?thesis if op: "op = Link_Add l p i"
  proof -
    have l: "db_links db l = None" using a op by (simp add: has_def tables_simps(7))
    obtain n f where "db_neighs db p = Some n" "db_interfaces db i = Some f" using a op by (auto simp: tb)
    from link_add_ok [OF ok this l, of ds] show ?thesis using op by auto
  qed
  show ?thesis if "op = Link_Remove l" using link_remove_ok [OF ok, of l] a that by (auto simp: tb)
  show ?thesis if "op = Link_Connect l q" using link_connect_ok [OF ok, of l _ q] a that by (auto simp: tb)
  show ?thesis if "op = Link_Update_Status l" using link_update_status_ok [OF ok, of l] a that by (auto simp: tb)
  show ?thesis if "op = Link_Set_Unsymmetric l" using link_set_unsymmetric_ok [OF ok, of l] a that by (auto simp: tb)
  show ?thesis if "op = Link_Set_Vtime l v" using link_set_times_ok(1) [OF ok, of l] a that by (auto simp: tb)
  show ?thesis if "op = Link_Set_Heardtime l v" using link_set_times_ok(2) [OF ok, of l] a that by (auto simp: tb)
  show ?thesis if "op = Link_Set_Symtime l v" using link_set_times_ok(3) [OF ok, of l] a that by (auto simp: tb)
qed

lemma exec_other_ops:
  assumes ok: "nhdp_ok db" and op: "op = L2hop_Add x l a \<or> op = L2hop_Remove x \<or> op = L2hop_Set_Vtime x v \<or>
    op = Interface_Update_Status i \<or> op = Cleanup"
    and a: "allowed op (tables db)"
  shows "\<exists>db'. exec_op ds hy op db = Some db' \<and> nhdp_ok db' \<and> effect ds hy op (tables db) (tables db')"
  using op
proof (elim disjE)
  note tb = tb_has [OF ok]
  show ?thesis if op: "op = L2hop_Add x l a"
  proof -
    have x: "db_l2hops db x = None" "\<forall>y h. db_l2hops db y = Some h \<longrightarrow> l2_link h = l \<longrightarrow> l2_addr h \<noteq> a" and "has (tb_links (tables db)) l"
      using a op by (auto simp: has_def tables_simps(2))
    then obtain k where k: "db_links db l = Some k" by (auto simp: tb)
    from link_2hop_add_ok [OF ok k x(1) free_addresses(3) [OF ok k x(2)], of ds] show ?thesis using op by (auto simp: tables_simps(2))
  qed
  show ?thesis if "op = L2hop_Remove x" using link_2hop_remove_ok [OF ok, of x] a that by (auto simp: has_def tables_simps(2))
  show ?thesis if op: "op = L2hop_Set_Vtime x v"
  proof -
    obtain h where "db_l2hops db x = Some h" using a op by (auto simp: tb)
    then show ?thesis
      using upd_l2hop_ok [OF ok, of x h "\<lambda>h. h\<lparr>l2_vtime := timer_interval v\<rparr>"] op
      by (auto simp: tables_simps(2) set_field_def nhdp_db_link_2hop_set_vtime_def)
  qed
  show ?thesis if "op = Interface_Update_Status i" using interface_update_status_ok [OF ok, of i] a that by (auto simp: tb)
  show ?thesis if "op = Cleanup" using cleanup_ok [OF ok] that by auto
qed

lemma exec_op_ok:
  assumes "nhdp_ok db" "allowed op (tables db)"
  shows "\<exists>db'. exec_op ds hy op db = Some db' \<and> nhdp_ok db' \<and> effect ds hy op (tables db) (tables db')"
  using exec_neighbor_ops [OF assms(1) _ assms(2)] exec_address_ops [OF assms(1) _ assms(2)] exec_link_ops [OF assms(1) _ assms(2)]
    exec_other_ops [OF assms(1) _ assms(2)]
  by (cases op) simp_all

subsection \<open>Reachable databases\<close>

text \<open>
  From a database without objects, over interfaces without links, by operations that are allowed; the
  domains and the state of the hysteresis may change between two operations.
\<close>

inductive nhdp_reachable :: "nhdp_db \<Rightarrow> bool" where
  start: "\<forall>i f. I i = Some f \<longrightarrow> bare_interface f \<Longrightarrow> nhdp_reachable (nhdp_db_init\<lparr>db_interfaces := I\<rparr>)"
| step: "nhdp_reachable db \<Longrightarrow> allowed op (tables db) \<Longrightarrow> exec_op ds hy op db = Some db' \<Longrightarrow> nhdp_reachable db'"

lemma reachable_ok: "nhdp_reachable db \<Longrightarrow> nhdp_ok db"
proof (induction rule: nhdp_reachable.induct)
  case (start I)
  then show ?case by (rule nhdp_db_init_ok)
next
  case (step db op ds hy db')
  then show ?case using exec_op_ok [of db op ds hy] by auto
qed

subsection \<open>Properties\<close>

text \<open>
  No operation on a reachable neighborhood database follows a pointer to a freed object or takes an
  object out of a tree or list that does not hold it, as long as the caller gives fresh addresses to new
  objects and adds no address that is already there.
\<close>

theorem nhdp_operation_safe:
  assumes "nhdp_reachable db" "allowed op (tables db)"
  shows "exec_op ds hy op db \<noteq> None"
  using exec_op_ok [OF reachable_ok [OF assms(1)] assms(2), of ds hy] by auto

text \<open>
  C30. The operations on the lists and trees of a reachable database do what the specification says about
  the objects with their back pointers: who is removed together with a neighbor or a link, who loses a
  partner, an originator or a symmetric link, and that nothing else changes.
\<close>

theorem nhdp_operation_refines:
  assumes "nhdp_reachable db" "allowed op (tables db)" "exec_op ds hy op db = Some db'"
  shows "effect ds hy op (tables db) (tables db')"
  using exec_op_ok [OF reachable_ok [OF assms(1)] assms(2), of ds hy] assms(3) by auto

text \<open>
  C31. In a reachable database a lookup finds an object exactly when there is one: an address of a neighbor,
  a neighbor by its originator, an address of a link on an interface and a two-hop address of a link.
\<close>

theorem nhdp_lookup_complete:
  assumes "nhdp_reachable db" "db_interfaces db i = Some f" "db_links db l = Some k"
  shows "(nhdp_db_neighbor_addr_get db a = Some x \<longleftrightarrow> (\<exists>na. db_naddrs db x = Some na \<and> nx_addr na = a)) \<and>
    (nhdp_db_neighbor_get_by_originator db a = Some x \<longleftrightarrow>
      na_type a \<noteq> AF_UNSPEC \<and> (\<exists>n. db_neighs db x = Some n \<and> nn_originator n = a)) \<and>
    (nhdp_interface_get_link_addr f a = Some x \<longleftrightarrow>
      (\<exists>la j. db_laddrs db x = Some la \<and> ld_addr la = a \<and> db_links db (ld_link la) = Some j \<and> nl_local_if j = Some i)) \<and>
    (nhdp_db_link_2hop_get k a = Some x \<longleftrightarrow> (\<exists>h. db_l2hops db x = Some h \<and> l2_link h = l \<and> l2_addr h = a))"
proof -
  note ok = reachable_ok [OF assms(1)]
  have "nhdp_db_neighbor_get_by_originator db a = Some x \<longleftrightarrow>
      na_type a \<noteq> AF_UNSPEC \<and> (\<exists>n. db_neighs db x = Some n \<and> nn_originator n = a)"
    using find_originator [OF ok, of a x] by (auto simp: tables_def proj_apply)
  then show ?thesis
    using find_naddr [OF ok, of a x] find_laddr [OF ok assms(2), of a x] link_2hops(3) [OF ok assms(3), of a x] by blast
qed

text \<open>
  C32. The cleanup of a reachable database frees every object; only the interfaces stay, without links.
\<close>

theorem nhdp_cleanup_frees_all:
  assumes "nhdp_reachable db"
  shows "\<exists>db'. nhdp_db_cleanup db = Some db' \<and> tables db' = no_tables (tb_interfaces (tables db)) \<and>
    db_neigh_list db' = [] \<and> db_link_list db' = [] \<and> avl_elements (db_naddr_tree db') = []"
proof -
  obtain db' where 1: "nhdp_db_cleanup db = Some db'" "nhdp_ok db'" "tables db' = no_tables (tb_interfaces (tables db))"
    using cleanup_ok [OF reachable_ok [OF assms]] by blast
  have none: "db_neighs db' p = None" "db_links db' p = None" "db_naddrs db' p = None" for p
    using tables_simps(6,7) [of db' p] fun_cong [OF tables_simps(3) [of db'], of p] unfolding 1(3) by (simp_all add: no_tables_def)
  have "p \<notin> set (db_neigh_list db')" for p using neigh_list_ok(2) [OF 1(2), of p] none(1) [of p] by simp
  then have "set (db_neigh_list db') = {}" by (simp only: set_eq_iff empty_iff not_False_eq_True) simp
  moreover have "set (db_link_list db') = {}"
    using link_invD(2) [OF nhdp_okD(3) [OF 1(2)]] none(2) by (auto simp: dom_def proj_apply)
  moreover have "set (avl_elements (db_naddr_tree db')) = {}"
  proof (rule equals0I)
    fix x assume "x \<in> set (avl_elements (db_naddr_tree db'))"
    then obtain k where "(k, x) \<in> index_set (db_naddr_tree db')" unfolding in_avl_elements by blast
    then show False
      using const_hookedD(2) [OF naddr_invD(1) [OF nhdp_okD(1) [OF 1(2)]], of k x] none(3) by (simp add: all_of_def proj_apply)
  qed
  ultimately show ?thesis using 1 by simp
qed

lemma symmetric_count_fields:
  "symmetric_count p (add_symmetric p d t) = map_option (\<lambda>s. s + d) (symmetric_count p t)"
  "symmetric_count p (mark_lost q v t) = symmetric_count p t" "symmetric_count p (set_link l g t) = symmetric_count p t"
  "symmetric_count p (flooding_update i t) = symmetric_count p t" "symmetric_count p (t\<lparr>tb_l2hops := H\<rparr>) = symmetric_count p t"
  by (simp_all add: symmetric_count_def add_symmetric_def mark_lost_def set_link_def flooding_update_def option.map_comp o_def)

lemma symmetric_count_down: "symmetric_count p (not_symmetric l p h t) = map_option (\<lambda>s. s - 1) (symmetric_count p t)"
  by (simp add: not_symmetric_def Let_def symmetric_count_fields)

text \<open>
  C33. A symmetric link that is set to unsymmetric keeps its status, so that the next update of the status
  counts it down a second time: the neighbor ends with two symmetric links less.
\<close>

theorem set_unsymmetric_counts_twice:
  assumes "nhdp_reachable db" "db_links db l = Some k" "nl_status k = NHDP_LINK_SYMMETRIC"
    "db_neighs db (nl_neigh k) = Some n"
  shows "\<exists>db' db'' n''. nhdp_db_link_set_unsymmetric l db = Some db' \<and> nhdp_db_link_update_status hy l db' = Some db'' \<and>
    db_neighs db'' (nl_neigh k) = Some n'' \<and> nn_symmetric n'' = nn_symmetric n - 2"
proof -
  note ok = reachable_ok [OF assms(1)]
  obtain db1 where 1: "nhdp_db_link_set_unsymmetric l db = Some db1" "nhdp_ok db1" "tables db1 = set_unsymmetric l (tables db)"
    using link_set_unsymmetric_ok [OF ok assms(2)] by blast
  have l1: "tb_links (tables db1) l = Some ((bare_link k)\<lparr>nl_sym_time := None\<rparr>)"
    using tables_simps(5) [OF assms(2)] by (simp add: 1(3) set_unsymmetric_def set_link_def only_if_def Let_def)
  then obtain k1 where k1: "db_links db1 l = Some k1" using tables_links by blast
  obtain db2 where 2: "nhdp_db_link_update_status hy l db1 = Some db2" "nhdp_ok db2" "tables db2 = update_status hy l (tables db1)"
    using link_update_status_ok [OF 1(2) k1] by blast
  have n: "symmetric_count (nl_neigh k) (tables db) = Some (nn_symmetric n)"
    using tables_simps(4) [OF assms(4)] by (simp add: symmetric_count_def)
  have c1: "symmetric_count (nl_neigh k) (tables db1) = Some (nn_symmetric n - 1)"
    using tables_simps(5) [OF assms(2)] assms(3)
    by (simp add: 1(3) set_unsymmetric_def only_if_def Let_def symmetric_count_fields symmetric_count_down n)
  have s: "nhdp_db_link_calculate_status hy l ((bare_link k)\<lparr>nl_sym_time := None\<rparr>) \<noteq> NHDP_LINK_SYMMETRIC"
    by (simp add: nhdp_db_link_calculate_status_def)
  have "symmetric_count (nl_neigh k) (tables db2) = Some (nn_symmetric n - 2)"
    using s assms(3)
    by (simp add: 2(3) update_status_def l1 only_if_def Let_def symmetric_count_fields symmetric_count_down c1 split: option.split)
  then show ?thesis
    using 1(1) 2(1) tables_neighs [of db2 "nl_neigh k"] by (auto simp: symmetric_count_def)
qed

definition ex_interface :: nhdp_interface where
  "ex_interface = \<lparr>ni_name = ''wlan0'', ni_index = 3, ni_l_hold_time = 6000, ni_n_hold_time = 6000,
     ni_use_ipv4_for_flooding = False, ni_use_ipv6_for_flooding = False, ni_dualstack_af_type = 0, ni_links = [],
     ni_link_addresses = avl_init avl_comp_netaddr False, ni_link_originators = avl_init avl_comp_netaddr True,
     ni_if_twohops = avl_init avl_comp_netaddr True\<rparr>"

definition ex_flooding :: nhdp_domain where
  "ex_flooding = \<lparr>do_metric_name = [], do_mpr_name = [],
     do_metric = \<lparr>dm_handler = None, dm_name = ''Hopcount metric'', dm_incoming_link_start = 1, dm_outgoing_link_start = 1,
       dm_incoming_2hop_start = 1, dm_outgoing_2hop_start = 1, dm_no_default_handling = True, dm_enable = False, dm_disable = False\<rparr>,
     do_mpr = \<lparr>dp_handler = None, dp_name = ''Everyone MPR'', dp_mpr_start = True, dp_mprs_start = True, dp_update = True,
       dp_enable = False, dp_disable = False\<rparr>, do_local_willingness = 7,
     do_neighbor_metric_changed = False, do_ext = 0, do_index = 0, do_tmp_willingness = 0\<rparr>"

definition ex_domains :: domains where
  "ex_domains = \<lparr>ds_list = [ex_flooding], ds_counter = 1, ds_flooding = ex_flooding, ds_node_is_selected_as_mpr = False,
     ds_listeners = [], ds_updates = []\<rparr>"

definition ex_empty :: nhdp_db where
  "ex_empty = nhdp_db_init\<lparr>db_interfaces := [7 \<mapsto> ex_interface]\<rparr>"

definition ex_run :: "nhdp_op list \<Rightarrow> nhdp_db" where
  "ex_run ops = fold (\<lambda>op db. the (exec_op ex_domains no_hysteresis op db)) ops ex_empty"

lemma ex_empty_reachable: "nhdp_reachable (ex_run [])"
  unfolding ex_run_def ex_empty_def fold_simps id_apply
  by (rule nhdp_reachable.start) (auto simp: bare_interface_def ex_interface_def)

lemma ex_step:
  assumes "nhdp_reachable (ex_run ops)" "allowed op (tables (ex_run ops))"
  shows "nhdp_reachable (ex_run (ops @ [op]))"
  using nhdp_reachable.step [OF assms] exec_op_ok [OF reachable_ok [OF assms(1)] assms(2), of ex_domains no_hysteresis]
  by (auto simp: ex_run_def)

abbreviation ex_ops :: "nhdp_op list" where
  "ex_ops \<equiv> [Neighbor_Add 10, Link_Add 20 10 7]"

abbreviation ex_ops2 :: "nhdp_op list" where
  "ex_ops2 \<equiv> [Neighbor_Add 10, Link_Add 20 10 7, Naddr_Add 30 10 NETADDR_IPV4_LOOPBACK_NET, Link_Set_Symtime 20 1000]"

lemma ex_link_reachable: "nhdp_reachable (ex_run ex_ops)"
proof -
  have "allowed (Neighbor_Add 10) (tables (ex_run []))" unfolding allowed.simps by code_simp
  from ex_step [OF ex_empty_reachable this] have 1: "nhdp_reachable (ex_run [Neighbor_Add 10])" by simp
  have "allowed (Link_Add 20 10 7) (tables (ex_run [Neighbor_Add 10]))" unfolding allowed.simps by code_simp
  from ex_step [OF 1 this] show ?thesis by simp
qed

lemma ex_symmetric_reachable: "nhdp_reachable (ex_run ex_ops2)"
proof -
  have n: "db_naddrs (ex_run ex_ops) = (\<lambda>_. None)"
    by (simp add: ex_run_def ex_empty_def nhdp_db_init_def nhdp_db_neighbor_add_def nhdp_event_def nhdp_db_link_add_def
        nhdp_interface_add_link_def upd_link_def upd_interface_def upd_neigh_def Let_def)
  have "has (tb_neighs (tables (ex_run ex_ops))) 10" by code_simp
  then have "allowed (Naddr_Add 30 10 NETADDR_IPV4_LOOPBACK_NET) (tables (ex_run ex_ops))"
    by (simp add: tables_simps(3) n has_def)
  from ex_step [OF ex_link_reachable this]
  have 1: "nhdp_reachable (ex_run (ex_ops @ [Naddr_Add 30 10 NETADDR_IPV4_LOOPBACK_NET]))" .
  have "allowed (Link_Set_Symtime 20 1000) (tables (ex_run (ex_ops @ [Naddr_Add 30 10 NETADDR_IPV4_LOOPBACK_NET])))" unfolding allowed.simps by code_simp
  from ex_step [OF 1 this] show ?thesis by simp
qed

lemma ex_symmetric_parts:
  "db_interfaces (ex_run ex_ops2) 7 = Some (the (db_interfaces (ex_run ex_ops2) 7))"
  "db_links (ex_run ex_ops2) 20 = Some (the (db_links (ex_run ex_ops2) 20))"
  "nl_status (the (db_links (ex_run ex_ops2) 20)) = NHDP_LINK_SYMMETRIC" "nl_neigh (the (db_links (ex_run ex_ops2) 20)) = 10"
  "db_neighs (ex_run ex_ops2) 10 = Some (the (db_neighs (ex_run ex_ops2) 10))"
  "nn_symmetric (the (db_neighs (ex_run ex_ops2) 10)) = 1"
  "has (tb_neighs (tables (ex_run ex_ops2))) 10"
proof -
  show 1: "has (tb_neighs (tables (ex_run ex_ops2))) 10" by code_simp
  have 2: "has (tb_links (tables (ex_run ex_ops2))) 20" "has (tb_interfaces (tables (ex_run ex_ops2))) 7" by code_simp+
  note h = tb_has [OF reachable_ok [OF ex_symmetric_reachable]]
  show "db_interfaces (ex_run ex_ops2) 7 = Some (the (db_interfaces (ex_run ex_ops2) 7))"
    "db_links (ex_run ex_ops2) 20 = Some (the (db_links (ex_run ex_ops2) 20))"
    "db_neighs (ex_run ex_ops2) 10 = Some (the (db_neighs (ex_run ex_ops2) 10))"
    using 1 2 unfolding h by auto
  show "nl_status (the (db_links (ex_run ex_ops2) 20)) = NHDP_LINK_SYMMETRIC" "nl_neigh (the (db_links (ex_run ex_ops2) 20)) = 10"
    "nn_symmetric (the (db_neighs (ex_run ex_ops2) 10)) = 1"
    by code_simp+
qed

theorem nhdp_operation_safe_witness:
  "exec_op ex_domains no_hysteresis (Neighbor_Remove 10) (ex_run ex_ops2) \<noteq> None"
  by (rule nhdp_operation_safe [OF ex_symmetric_reachable]) (simp add: ex_symmetric_parts)

theorem nhdp_operation_refines_witness:
  "\<exists>db'. exec_op ex_domains no_hysteresis (Neighbor_Remove 10) (ex_run ex_ops2) = Some db' \<and>
    effect ex_domains no_hysteresis (Neighbor_Remove 10) (tables (ex_run ex_ops2)) (tables db')"
proof -
  have a: "allowed (Neighbor_Remove 10) (tables (ex_run ex_ops2))" by (simp add: ex_symmetric_parts)
  obtain db' where e: "exec_op ex_domains no_hysteresis (Neighbor_Remove 10) (ex_run ex_ops2) = Some db'"
    using exec_op_ok [OF reachable_ok [OF ex_symmetric_reachable] a] by blast
  from nhdp_operation_refines [OF ex_symmetric_reachable a e] show ?thesis using e by blast
qed

theorem nhdp_lookup_complete_witness:
  "nhdp_db_neighbor_addr_get (ex_run ex_ops2) NETADDR_IPV4_LOOPBACK_NET = Some 30 \<longleftrightarrow>
    (\<exists>na. db_naddrs (ex_run ex_ops2) 30 = Some na \<and> nx_addr na = NETADDR_IPV4_LOOPBACK_NET)"
  using nhdp_lookup_complete [OF ex_symmetric_reachable ex_symmetric_parts(1,2)] by blast

theorem nhdp_cleanup_frees_all_witness:
  "\<exists>db'. nhdp_db_cleanup (ex_run ex_ops2) = Some db' \<and> db_neigh_list db' = []"
  using nhdp_cleanup_frees_all [OF ex_symmetric_reachable] by blast

theorem set_unsymmetric_counts_twice_witness:
  "\<exists>db' db'' n''. nhdp_db_link_set_unsymmetric 20 (ex_run ex_ops2) = Some db' \<and>
    nhdp_db_link_update_status no_hysteresis 20 db' = Some db'' \<and> db_neighs db'' 10 = Some n'' \<and> nn_symmetric n'' = - 1"
proof -
  note p = ex_symmetric_parts
  have "db_neighs (ex_run ex_ops2) (nl_neigh (the (db_links (ex_run ex_ops2) 20))) = Some (the (db_neighs (ex_run ex_ops2) 10))"
    unfolding p(4) by (rule p(5))
  from set_unsymmetric_counts_twice [OF ex_symmetric_reachable p(2,3) this, of no_hysteresis]
  show ?thesis unfolding p(4,6) by simp
qed

end
