(* ===== verification/Nhdp_Domain.thy ===== *)
theory Nhdp_Domain
  imports Nhdp_Spec "HOL-Library.Multiset"
begin

text \<open>
  The domains of NHDP (\<open>src-plugins/nhdp/nhdp/nhdp_domain.c\<close>): the registered metrics and MPR algorithms
  with their reference counts, the list of domains and their configuration, and the values of the TLVs for
  MPRs, willingness and metrics.
\<close>

subsection \<open>Handlers\<close>

definition CFG_DOMAIN_NO_METRIC_MPR :: string where "CFG_DOMAIN_NO_METRIC_MPR = ''-''"
definition CFG_DOMAIN_ANY_METRIC_MPR :: string where "CFG_DOMAIN_ANY_METRIC_MPR = ''*''"
definition NHDP_DOMAIN_METRIC_MAXLEN :: nat where "NHDP_DOMAIN_METRIC_MAXLEN = 16"
definition NHDP_DOMAIN_MPR_MAXLEN :: nat where "NHDP_DOMAIN_MPR_MAXLEN = 16"

definition no_metric :: domain_metric where
  "no_metric = \<lparr>dm_handler = None, dm_name = ''Hopcount metric'', dm_incoming_link_start = RFC7181_METRIC_MAX,
     dm_outgoing_link_start = RFC7181_METRIC_MAX, dm_incoming_2hop_start = RFC7181_METRIC_MAX,
     dm_outgoing_2hop_start = RFC7181_METRIC_MAX, dm_no_default_handling = True, dm_enable = False, dm_disable = False\<rparr>"

definition everyone_mprs :: domain_mpr where
  "everyone_mprs = \<lparr>dp_handler = None, dp_name = ''Everyone MPR'', dp_mpr_start = True, dp_mprs_start = True,
     dp_update = True, dp_enable = False, dp_disable = False\<rparr>"

text \<open>
  The calls that leave the component: the callbacks of handlers, the registration of the metric TLVs with
  the writer, the events of the class of domains.
\<close>

datatype domain_call =
    Metric_Enable "ptr option" | Metric_Disable "ptr option" | Mpr_Enable "ptr option" | Mpr_Disable "ptr option"
  | Register_Metric_Tlv u8 | Unregister_Metric_Tlv u8 | Domain_Event class_event u8

text \<open>
  The registered handlers of one kind: their records at the addresses of their owners, the tree of names
  and the reference counts.
\<close>

record 'h registry =
  rg_store :: "ptr \<Rightarrow> 'h option"
  rg_tree :: "(string, ptr) avl_tree"
  rg_refs :: "ptr option \<Rightarrow> int"

record handlers =
  ha_metrics :: "domain_metric registry"
  ha_mprs :: "domain_mpr registry"
  ha_calls :: "domain_call list"

text \<open>What metrics and MPR algorithms have in common.\<close>

record 'h handler_kind =
  hk_id :: "'h \<Rightarrow> ptr option"
  hk_name :: "'h \<Rightarrow> string"
  hk_enable :: "'h \<Rightarrow> bool"
  hk_disable :: "'h \<Rightarrow> bool"
  hk_none :: 'h
  hk_on :: "ptr option \<Rightarrow> domain_call"
  hk_off :: "ptr option \<Rightarrow> domain_call"

definition metric_kind :: "domain_metric handler_kind" where
  "metric_kind = \<lparr>hk_id = dm_handler, hk_name = dm_name, hk_enable = dm_enable, hk_disable = dm_disable,
     hk_none = no_metric, hk_on = Metric_Enable, hk_off = Metric_Disable\<rparr>"

definition mpr_kind :: "domain_mpr handler_kind" where
  "mpr_kind = \<lparr>hk_id = dp_handler, hk_name = dp_name, hk_enable = dp_enable, hk_disable = dp_disable,
     hk_none = everyone_mprs, hk_on = Mpr_Enable, hk_off = Mpr_Disable\<rparr>"

definition add_refs :: "ptr option \<Rightarrow> int \<Rightarrow> 'h registry \<Rightarrow> 'h registry" where
  "add_refs p n r = r\<lparr>rg_refs := (rg_refs r)(p := rg_refs r p + n)\<rparr>"

text \<open>A domain goes back from a handler to the built-in one.\<close>

definition release_handler :: "'h handler_kind \<Rightarrow> 'h \<Rightarrow> 'h registry \<Rightarrow> 'h registry \<times> domain_call list" where
  "release_handler K m r =
     (let r = add_refs (hk_id K m) (- 1) r;
          calls = (if rg_refs r (hk_id K m) = 0 \<and> hk_disable K m then [hk_off K (hk_id K m)] else [])
      in (add_refs (hk_id K (hk_none K)) 1 r, calls))"

text \<open>A domain goes from one handler to another one, which is enabled when it has had no user.\<close>

definition acquire_handler :: "'h handler_kind \<Rightarrow> 'h \<Rightarrow> 'h \<Rightarrow> 'h registry \<Rightarrow> 'h registry \<times> domain_call list" where
  "acquire_handler K old new r =
     (let r = add_refs (hk_id K old) (- 1) r;
          calls = (if rg_refs r (hk_id K new) = 0 \<and> hk_enable K new then [hk_on K (hk_id K new)] else [])
      in (add_refs (hk_id K new) 1 r, calls))"

definition find_handler :: "'h handler_kind \<Rightarrow> string \<Rightarrow> 'h registry \<Rightarrow> 'h option" where
  "find_handler K name r = do {
     name \<leftarrow> (if avl_comp_strcasecmp name CFG_DOMAIN_ANY_METRIC_MPR = 0 \<and> \<not> avl_is_empty (rg_tree r)
             then map_option (hk_name K) (rg_store r (hd (avl_elements (rg_tree r))))
             else Some name);
     case avl_find (rg_tree r) name of
       None \<Rightarrow> Some (hk_none K)
     | Some p \<Rightarrow> rg_store r p
   }"

definition copy_name :: "string \<Rightarrow> string \<Rightarrow> nat \<Rightarrow> string" where
  "copy_name dest src sz = (case strscpy (Some dest) (Some src) sz of Some s \<Rightarrow> s | None \<Rightarrow> dest)"

definition remove_metric :: "nhdp_domain \<Rightarrow> handlers \<Rightarrow> nhdp_domain \<times> handlers" where
  "remove_metric d ha =
     (let (r, calls) = release_handler metric_kind (do_metric d) (ha_metrics ha)
      in (d\<lparr>do_metric_name := copy_name (do_metric_name d) CFG_DOMAIN_NO_METRIC_MPR NHDP_DOMAIN_METRIC_MAXLEN,
            do_metric := no_metric\<rparr>,
          ha\<lparr>ha_metrics := r, ha_calls := ha_calls ha @ calls\<rparr>))"

definition remove_mpr :: "nhdp_domain \<Rightarrow> handlers \<Rightarrow> nhdp_domain \<times> handlers" where
  "remove_mpr d ha =
     (let (r, calls) = release_handler mpr_kind (do_mpr d) (ha_mprs ha)
      in (d\<lparr>do_mpr_name := copy_name (do_mpr_name d) CFG_DOMAIN_NO_METRIC_MPR NHDP_DOMAIN_MPR_MAXLEN,
            do_mpr := everyone_mprs\<rparr>,
          ha\<lparr>ha_mprs := r, ha_calls := ha_calls ha @ calls\<rparr>))"

definition apply_metric :: "string \<Rightarrow> nhdp_domain \<Rightarrow> handlers \<Rightarrow> (nhdp_domain \<times> handlers) option" where
  "apply_metric name d ha =
     (if avl_comp_strcasecmp (do_metric_name d) name = 0 then Some (d, ha)
      else do {
        let (d, ha) = (if dm_handler (do_metric d) \<noteq> None then remove_metric d ha else (d, ha));
        m \<leftarrow> find_handler metric_kind name (ha_metrics ha);
        let (r, calls) = acquire_handler metric_kind (do_metric d) m (ha_metrics ha);
        Some (d\<lparr>do_metric_name := copy_name (do_metric_name d) (dm_name m) NHDP_DOMAIN_METRIC_MAXLEN, do_metric := m\<rparr>,
              ha\<lparr>ha_metrics := r, ha_calls := ha_calls ha @ calls\<rparr>)
      })"

definition apply_mpr :: "string \<Rightarrow> u8 \<Rightarrow> nhdp_domain \<Rightarrow> handlers \<Rightarrow> (nhdp_domain \<times> handlers) option" where
  "apply_mpr name willingness d ha =
     (let d = d\<lparr>do_local_willingness := willingness\<rparr>
      in if avl_comp_strcasecmp (do_mpr_name d) name = 0 then Some (d, ha)
         else do {
           let (d, ha) = (if dp_handler (do_mpr d) \<noteq> None then remove_mpr d ha else (d, ha));
           m \<leftarrow> find_handler mpr_kind name (ha_mprs ha);
           let (r, calls) = acquire_handler mpr_kind (do_mpr d) m (ha_mprs ha);
           Some (d\<lparr>do_mpr_name := copy_name (do_mpr_name d) (dp_name m) NHDP_DOMAIN_MPR_MAXLEN, do_mpr := m\<rparr>,
                 ha\<lparr>ha_mprs := r, ha_calls := ha_calls ha @ calls\<rparr>)
         })"

subsection \<open>Registration\<close>

definition empty_registry :: "'h registry" where
  "empty_registry = \<lparr>rg_store = (\<lambda>_. None), rg_tree = avl_init avl_comp_strcasecmp False, rg_refs = (\<lambda>_. 0)\<rparr>"

definition new_domain :: "u8 \<Rightarrow> nat \<Rightarrow> nhdp_domain" where
  "new_domain ext index =
     \<lparr>do_metric_name = [], do_mpr_name = [], do_metric = no_metric, do_mpr = everyone_mprs, do_local_willingness = 0,
      do_neighbor_metric_changed = False, do_ext = ext, do_index = index, do_tmp_willingness = 0\<rparr>"

definition nhdp_domain_init :: "domains \<times> handlers" where
  "nhdp_domain_init =
     (\<lparr>ds_list = [], ds_counter = 0, ds_flooding = new_domain 0 0, ds_node_is_selected_as_mpr = False,
       ds_listeners = [], ds_updates = []\<rparr>,
      \<lparr>ha_metrics = add_refs None 1 empty_registry, ha_mprs = add_refs None 1 empty_registry, ha_calls = []\<rparr>)"

definition nhdp_domain_cleanup :: "domains \<times> handlers \<Rightarrow> domains \<times> handlers" where
  "nhdp_domain_cleanup = (\<lambda>(ds, ha).
     (ds\<lparr>ds_list := [], ds_listeners := []\<rparr>,
      ha\<lparr>ha_calls := ha_calls ha @ concat (map (\<lambda>d. replicate 4 (Unregister_Metric_Tlv (do_ext d))) (ds_list ds))\<rparr>))"

definition nhdp_domain_get_count :: "domains \<Rightarrow> nat" where
  "nhdp_domain_get_count ds = ds_counter ds"

definition register_handler :: "'h handler_kind \<Rightarrow> ptr \<Rightarrow> 'h \<Rightarrow> 'h registry \<Rightarrow> int \<times> 'h registry" where
  "register_handler K p m r =
     (let (rc, t) = avl_insert (rg_tree r) (hk_name K m) p
      in (rc, r\<lparr>rg_store := (rg_store r)(p \<mapsto> m), rg_tree := t\<rparr>))"

definition metric_defaults :: "domain_metric \<Rightarrow> domain_metric" where
  "metric_defaults m = m
     \<lparr>dm_incoming_link_start := if dm_incoming_link_start m = 0 then RFC7181_METRIC_MAX else dm_incoming_link_start m,
      dm_outgoing_link_start := if dm_outgoing_link_start m = 0 then RFC7181_METRIC_INFINITE else dm_outgoing_link_start m,
      dm_incoming_2hop_start := if dm_incoming_2hop_start m = 0 then RFC7181_METRIC_INFINITE else dm_incoming_2hop_start m,
      dm_outgoing_2hop_start := if dm_outgoing_2hop_start m = 0 then RFC7181_METRIC_INFINITE else dm_outgoing_2hop_start m\<rparr>"

definition nhdp_domain_metric_add :: "ptr \<Rightarrow> domain_metric \<Rightarrow> handlers \<Rightarrow> int \<times> handlers" where
  "nhdp_domain_metric_add p m ha =
     (let (rc, r) = register_handler metric_kind p (metric_defaults m) (ha_metrics ha) in (rc, ha\<lparr>ha_metrics := r\<rparr>))"

text \<open>Only the first domain with the handler goes back to the built-in one.\<close>

fun remove_first_metric :: "ptr \<Rightarrow> nhdp_domain list \<Rightarrow> handlers \<Rightarrow> nhdp_domain list \<times> handlers" where
  "remove_first_metric p [] ha = ([], ha)"
| "remove_first_metric p (d # ds) ha =
     (if dm_handler (do_metric d) = Some p then (let (d, ha) = remove_metric d ha in (d # ds, ha))
      else (let (ds, ha) = remove_first_metric p ds ha in (d # ds, ha)))"

fun remove_first_mpr :: "ptr \<Rightarrow> nhdp_domain list \<Rightarrow> handlers \<Rightarrow> nhdp_domain list \<times> handlers" where
  "remove_first_mpr p [] ha = ([], ha)"
| "remove_first_mpr p (d # ds) ha =
     (if dp_handler (do_mpr d) = Some p then (let (d, ha) = remove_mpr d ha in (d # ds, ha))
      else (let (ds, ha) = remove_first_mpr p ds ha in (d # ds, ha)))"

definition nhdp_domain_metric_remove :: "ptr \<Rightarrow> domains \<times> handlers \<Rightarrow> (domains \<times> handlers) option" where
  "nhdp_domain_metric_remove p = (\<lambda>(ds, ha). do {
     let (l, ha) = remove_first_metric p (ds_list ds) ha;
     t \<leftarrow> tree_remove (rg_tree (ha_metrics ha)) p;
     Some (ds\<lparr>ds_list := l\<rparr>, ha\<lparr>ha_metrics := (ha_metrics ha)\<lparr>rg_tree := t\<rparr>\<rparr>)
   })"

definition nhdp_domain_mpr_remove :: "ptr \<Rightarrow> domains \<times> handlers \<Rightarrow> (domains \<times> handlers) option" where
  "nhdp_domain_mpr_remove p = (\<lambda>(ds, ha). do {
     let (l, ha) = remove_first_mpr p (ds_list ds) ha;
     t \<leftarrow> tree_remove (rg_tree (ha_mprs ha)) p;
     Some (ds\<lparr>ds_list := l\<rparr>, ha\<lparr>ha_mprs := (ha_mprs ha)\<lparr>rg_tree := t\<rparr>\<rparr>)
   })"

definition reapply_mpr :: "nhdp_domain \<Rightarrow> handlers \<Rightarrow> (nhdp_domain \<times> handlers) option" where
  "reapply_mpr d ha =
     (if dp_handler (do_mpr d) = None then apply_mpr (do_mpr_name d) (do_local_willingness d) d ha else Some (d, ha))"

fun reapply_mprs :: "nhdp_domain list \<Rightarrow> handlers \<Rightarrow> (nhdp_domain list \<times> handlers) option" where
  "reapply_mprs [] ha = Some ([], ha)"
| "reapply_mprs (d # ds) ha = do {
     (d, ha) \<leftarrow> reapply_mpr d ha;
     (ds, ha) \<leftarrow> reapply_mprs ds ha;
     Some (d # ds, ha)
   }"

definition nhdp_domain_mpr_add :: "ptr \<Rightarrow> domain_mpr \<Rightarrow> domains \<times> handlers \<Rightarrow> (int \<times> domains \<times> handlers) option" where
  "nhdp_domain_mpr_add p m = (\<lambda>(ds, ha). do {
     let (rc, r) = register_handler mpr_kind p m (ha_mprs ha);
     let ha = ha\<lparr>ha_mprs := r\<rparr>;
     if rc \<noteq> 0 then Some (- 1, ds, ha)
     else do {
       (l, ha) \<leftarrow> reapply_mprs (ds_list ds) ha;
       (f, ha) \<leftarrow> reapply_mpr (ds_flooding ds) ha;
       Some (0, ds\<lparr>ds_list := l, ds_flooding := f\<rparr>, ha)
     }
   })"

definition nhdp_domain_listener_add :: "domain_listener \<Rightarrow> domains \<Rightarrow> domains" where
  "nhdp_domain_listener_add x ds = ds\<lparr>ds_listeners := ds_listeners ds @ [x]\<rparr>"

definition nhdp_domain_listener_remove :: "domain_listener \<Rightarrow> domains \<Rightarrow> domains" where
  "nhdp_domain_listener_remove x ds = ds\<lparr>ds_listeners := remove1 x (ds_listeners ds)\<rparr>"

subsection \<open>Domains\<close>

definition nhdp_domain_get_by_ext :: "u8 \<Rightarrow> domains \<Rightarrow> nhdp_domain option" where
  "nhdp_domain_get_by_ext ext ds = List.find (\<lambda>d. do_ext d = ext) (ds_list ds)"

text \<open>The first domain with an extension is changed.\<close>

fun update_by_ext :: "u8 \<Rightarrow> (nhdp_domain \<Rightarrow> nhdp_domain) \<Rightarrow> nhdp_domain list \<Rightarrow> nhdp_domain list" where
  "update_by_ext ext f [] = []"
| "update_by_ext ext f (d # ds) = (if do_ext d = ext then f d # ds else d # update_by_ext ext f ds)"

definition nhdp_domain_add :: "bool \<Rightarrow> u8 \<Rightarrow> domains \<times> handlers \<Rightarrow> nhdp_domain option \<times> domains \<times> handlers" where
  "nhdp_domain_add memory ext = (\<lambda>(ds, ha).
     (case nhdp_domain_get_by_ext ext ds of
        Some d \<Rightarrow> (Some d, ds, ha)
      | None \<Rightarrow>
          if ds_counter ds = NHDP_MAXIMUM_DOMAINS \<or> \<not> memory then (None, ds, ha)
          else let d = new_domain ext (ds_counter ds)
               in (Some d, ds\<lparr>ds_list := ds_list ds @ [d], ds_counter := ds_counter ds + 1\<rparr>,
                   ha\<lparr>ha_metrics := add_refs None 1 (ha_metrics ha), ha_mprs := add_refs None 1 (ha_mprs ha),
                      ha_calls := ha_calls ha @ replicate 4 (Register_Metric_Tlv ext) @ [Domain_Event OBJECT_ADDED ext]\<rparr>)))"

definition nhdp_domain_configure ::
  "bool \<Rightarrow> u8 \<Rightarrow> string \<Rightarrow> string \<Rightarrow> u8 \<Rightarrow> domains \<times> handlers \<Rightarrow> (nhdp_domain option \<times> domains \<times> handlers) option" where
  "nhdp_domain_configure memory ext metric_name mpr_name willingness st =
     (case nhdp_domain_add memory ext st of
        (None, ds, ha) \<Rightarrow> Some (None, ds, ha)
      | (Some d, ds, ha) \<Rightarrow> do {
          (d, ha) \<leftarrow> apply_metric metric_name d ha;
          (d, ha) \<leftarrow> apply_mpr mpr_name willingness d ha;
          Some (Some d, ds\<lparr>ds_list := update_by_ext ext (\<lambda>_. d) (ds_list ds)\<rparr>,
                ha\<lparr>ha_calls := ha_calls ha @ [Domain_Event OBJECT_CHANGED ext]\<rparr>)
        })"

definition nhdp_domain_set_flooding_mpr :: "string \<Rightarrow> u8 \<Rightarrow> domains \<times> handlers \<Rightarrow> (domains \<times> handlers) option" where
  "nhdp_domain_set_flooding_mpr mpr_name willingness = (\<lambda>(ds, ha). do {
     (f, ha) \<leftarrow> apply_mpr mpr_name willingness (ds_flooding ds) ha;
     Some (ds\<lparr>ds_flooding := f\<rparr>, ha)
   })"

subsection \<open>The values of TLVs\<close>

text \<open>
  A TLV is the list of the bytes of its first value, \<open>None\<close> a null pointer. Reading or writing a byte
  that is not there is the result \<open>None\<close>.
\<close>

definition RFC7181_MPR_FLOODING :: u8 where "RFC7181_MPR_FLOODING = 1"
definition RFC7181_WILLINGNESS_MASK :: u8 where "RFC7181_WILLINGNESS_MASK = 15"
definition RFC7181_WILLINGNESS_SHIFT :: nat where "RFC7181_WILLINGNESS_SHIFT = 4"

fun write_exts :: "nat \<Rightarrow> nhdp_domain list \<Rightarrow> u8 list \<Rightarrow> u8 list option" where
  "write_exts sz [] buf = Some buf"
| "write_exts sz (d # ds) buf =
     (if sz \<le> length buf then None
      else let buf = buf @ [do_ext d] in if sz \<le> length buf then Some buf else write_exts sz ds buf)"

definition nhdp_domain_encode_mprtypes_tlvvalue :: "domains \<Rightarrow> nat \<Rightarrow> u8 list option" where
  "nhdp_domain_encode_mprtypes_tlvvalue ds mprtypes_size = write_exts mprtypes_size (ds_list ds) []"

definition nhdp_domain_process_mprtypes_tlv :: "domains \<Rightarrow> nat \<Rightarrow> u8 list option \<Rightarrow> u8 list option" where
  "nhdp_domain_process_mprtypes_tlv ds mprtypes_size tlv =
     (case tlv of
        None \<Rightarrow> (case ds_list ds of [] \<Rightarrow> None | d # _ \<Rightarrow> if mprtypes_size = 0 then None else Some [do_ext d])
      | Some _ \<Rightarrow> write_exts mprtypes_size (ds_list ds) [])"

definition set_local_mpr :: "bool \<Rightarrow> nhdp_domain \<Rightarrow> nhdp_neighbor \<Rightarrow> nhdp_neighbor" where
  "set_local_mpr b d n = n\<lparr>nn_domaindata := (nn_domaindata n)
     (do_index d := (nn_domaindata n (do_index d))\<lparr>nd_local_is_mpr := b\<rparr>)\<rparr>"

fun read_mpr_bits :: "domains \<Rightarrow> u8 list \<Rightarrow> nat \<Rightarrow> u8 list \<Rightarrow> nhdp_neighbor \<Rightarrow> nhdp_neighbor" where
  "read_mpr_bits ds val i [] n = n"
| "read_mpr_bits ds val i (ext # exts) n =
     read_mpr_bits ds val (i + 1) exts
       (case nhdp_domain_get_by_ext ext ds of
          None \<Rightarrow> n
        | Some d \<Rightarrow>
            let bit_idx = (i + 1) mod 8; byte_idx = (i + 1) div 8
            in if length val \<le> byte_idx then n
               else set_local_mpr (val ! byte_idx AND push_bit bit_idx 1 \<noteq> 0) d n)"

definition nhdp_domain_process_mpr_tlv :: "domains \<Rightarrow> u8 list \<Rightarrow> nhdp_neighbor \<Rightarrow> u8 list option \<Rightarrow> nhdp_neighbor option" where
  "nhdp_domain_process_mpr_tlv ds mprtypes n tlv =
     (let n = fold (set_local_mpr False) (ds_list ds) (n\<lparr>nn_local_is_flooding_mpr := False\<rparr>)
      in case tlv of
           None \<Rightarrow> Some n
         | Some [] \<Rightarrow> None
         | Some val \<Rightarrow> Some (read_mpr_bits ds val 0 mprtypes
             (n\<lparr>nn_local_is_flooding_mpr := (val ! 0 AND RFC7181_MPR_FLOODING \<noteq> 0)\<rparr>)))"

fun read_willingness :: "u8 list \<Rightarrow> nat \<Rightarrow> u8 list \<Rightarrow> domains \<Rightarrow> domains" where
  "read_willingness val i [] ds = ds"
| "read_willingness val i (ext # exts) ds =
     read_willingness val (i + 1) exts
       (case nhdp_domain_get_by_ext ext ds of
          None \<Rightarrow> ds
        | Some d \<Rightarrow>
            let idx = (i + 1) div 2
            in if length val \<le> idx then ds
               else let w = (if do_index d mod 2 = 0 then drop_bit RFC7181_WILLINGNESS_SHIFT (val ! idx)
                             else val ! idx AND RFC7181_WILLINGNESS_MASK)
                    in ds\<lparr>ds_list := update_by_ext ext (\<lambda>d. d\<lparr>do_tmp_willingness := w\<rparr>) (ds_list ds)\<rparr>)"

definition nhdp_domain_process_willingness_tlv :: "u8 list \<Rightarrow> u8 list option \<Rightarrow> domains \<Rightarrow> domains option" where
  "nhdp_domain_process_willingness_tlv mprtypes tlv ds =
     (let ds = ds\<lparr>ds_flooding := (ds_flooding ds)\<lparr>do_tmp_willingness := RFC7181_WILLINGNESS_NEVER\<rparr>,
                 ds_list := map (\<lambda>d. d\<lparr>do_tmp_willingness := RFC7181_WILLINGNESS_NEVER\<rparr>) (ds_list ds)\<rparr>
      in case tlv of
           None \<Rightarrow> Some ds
         | Some [] \<Rightarrow> None
         | Some val \<Rightarrow> Some (read_willingness val 0 mprtypes
             (ds\<lparr>ds_flooding := (ds_flooding ds)\<lparr>do_tmp_willingness := val ! 0 AND RFC7181_WILLINGNESS_MASK\<rparr>\<rparr>)))"

definition store_willingness :: "nhdp_domain \<Rightarrow> nhdp_neighbor \<Rightarrow> nhdp_neighbor" where
  "store_willingness d n = n\<lparr>nn_domaindata := (nn_domaindata n)
     (do_index d := (nn_domaindata n (do_index d))\<lparr>nd_willingness := do_tmp_willingness d\<rparr>)\<rparr>"

definition nhdp_domain_store_willingness :: "domains \<Rightarrow> nhdp_neighbor \<Rightarrow> nhdp_neighbor" where
  "nhdp_domain_store_willingness ds n =
     fold store_willingness (ds_list ds) (n\<lparr>nn_flooding_willingness := do_tmp_willingness (ds_flooding ds)\<rparr>)"

text \<open>
  The writers return the number of bytes and the buffer; the error of \<open>encode_willingness\<close> is the value
  -1 of an unsigned type.
\<close>

fun write_mpr_bits :: "nhdp_neighbor \<Rightarrow> nhdp_domain list \<Rightarrow> nat \<Rightarrow> u8 list \<Rightarrow> nat \<times> u8 list" where
  "write_mpr_bits n [] len buf = (len, buf)"
| "write_mpr_bits n (d # ds) len buf =
     (let bit_idx = (do_index d + 1) mod 8; byte_idx = (do_index d + 1) div 8
      in if length buf \<le> byte_idx then (0, buf)
         else write_mpr_bits n ds (if len < byte_idx + 1 then byte_idx + 1 else len)
                (if nd_neigh_is_mpr (nn_domaindata n (do_index d))
                 then buf[byte_idx := buf ! byte_idx OR push_bit bit_idx 1] else buf))"

definition nhdp_domain_encode_mpr_tlvvalue :: "domains \<Rightarrow> nat \<Rightarrow> nhdp_neighbor \<Rightarrow> (nat \<times> u8 list) option" where
  "nhdp_domain_encode_mpr_tlvvalue ds tlvsize n =
     (let buf = replicate tlvsize 0
      in if nn_neigh_is_flooding_mpr n \<and> tlvsize = 0 then None
         else Some (write_mpr_bits n (ds_list ds) 0
                (if nn_neigh_is_flooding_mpr n then buf[0 := buf ! 0 OR RFC7181_MPR_FLOODING] else buf)))"

fun write_willingness :: "nhdp_domain list \<Rightarrow> u64 \<Rightarrow> u8 list \<Rightarrow> u64 \<times> u8 list" where
  "write_willingness [] len buf = (len, buf)"
| "write_willingness (d # ds) len buf =
     (let idx = (do_index d + 1) div 2
      in if length buf \<le> idx then (- 1, buf)
         else let w = do_local_willingness d AND RFC7181_WILLINGNESS_MASK;
                  w = (if do_index d mod 2 = 0 then push_bit RFC7181_WILLINGNESS_SHIFT w else w)
              in write_willingness ds (if len < of_nat (idx + 1) then of_nat (idx + 1) else len) (buf[idx := buf ! idx OR w]))"

definition nhdp_domain_encode_willingness_tlvvalue :: "domains \<Rightarrow> nat \<Rightarrow> (u64 \<times> u8 list) option" where
  "nhdp_domain_encode_willingness_tlvvalue ds tlvsize =
     (if tlvsize = 0 then None
      else Some (write_willingness (ds_list ds) 0 ((replicate tlvsize 0)[0 := do_local_willingness (ds_flooding ds)])))"

text \<open>The metric TLVs; the value of a TLV has two bytes.\<close>

definition RFC7181_LINKMETRIC_INCOMING_LINK :: u8 where "RFC7181_LINKMETRIC_INCOMING_LINK = 0x80"
definition RFC7181_LINKMETRIC_OUTGOING_LINK :: u8 where "RFC7181_LINKMETRIC_OUTGOING_LINK = 0x40"
definition RFC7181_LINKMETRIC_INCOMING_NEIGH :: u8 where "RFC7181_LINKMETRIC_INCOMING_NEIGH = 0x20"
definition RFC7181_LINKMETRIC_OUTGOING_NEIGH :: u8 where "RFC7181_LINKMETRIC_OUTGOING_NEIGH = 0x10"

definition set_link_metric :: "nhdp_domain \<Rightarrow> (nhdp_metric \<Rightarrow> nhdp_metric) \<Rightarrow> nhdp_link \<Rightarrow> nhdp_link" where
  "set_link_metric d f k = k\<lparr>nl_domaindata := (nl_domaindata k)(do_index d := f (nl_domaindata k (do_index d)))\<rparr>"

definition set_neighbor_data :: "nhdp_domain \<Rightarrow> (neighbor_domaindata \<Rightarrow> neighbor_domaindata) \<Rightarrow> nhdp_neighbor \<Rightarrow> nhdp_neighbor" where
  "set_neighbor_data d f n = n\<lparr>nn_domaindata := (nn_domaindata n)(do_index d := f (nn_domaindata n (do_index d)))\<rparr>"

definition nhdp_domain_process_metric_linktlv :: "nhdp_domain \<Rightarrow> ptr \<Rightarrow> rfc7181_metric_field \<Rightarrow> nhdp_db \<Rightarrow> nhdp_db option" where
  "nhdp_domain_process_metric_linktlv d l field db = do {
     let metric = rfc7181_metric_decode field;
     db \<leftarrow> (if rfc7181_metric_has_flag field RFC7181_LINKMETRIC_INCOMING_LINK
           then upd_link l (\<lambda>k. Some (set_link_metric d (\<lambda>m. m\<lparr>nm_out := metric\<rparr>) k)) db else Some db);
     if rfc7181_metric_has_flag field RFC7181_LINKMETRIC_INCOMING_NEIGH
     then do {
       lnk \<leftarrow> db_links db l;
       upd_neigh (nl_neigh lnk) (\<lambda>n. Some (set_neighbor_data d (\<lambda>nd. nd\<lparr>nd_metric := (nd_metric nd)\<lparr>nm_out := metric\<rparr>\<rparr>) n)) db
     }
     else Some db
   }"

definition nhdp_domain_process_metric_2hoptlv :: "nhdp_domain \<Rightarrow> ptr \<Rightarrow> rfc7181_metric_field \<Rightarrow> nhdp_db \<Rightarrow> nhdp_db option" where
  "nhdp_domain_process_metric_2hoptlv d x field db = do {
     let metric = rfc7181_metric_decode field;
     upd_l2hop x (\<lambda>h.
       let m = l2_domaindata h (do_index d);
           m = (if rfc7181_metric_has_flag field RFC7181_LINKMETRIC_INCOMING_NEIGH then m\<lparr>nm_in := metric\<rparr> else m);
           m = (if rfc7181_metric_has_flag field RFC7181_LINKMETRIC_OUTGOING_NEIGH then m\<lparr>nm_out := metric\<rparr> else m)
       in h\<lparr>l2_domaindata := (l2_domaindata h)(do_index d := m)\<rparr>) db
   }"

text \<open>The incoming metric of a link in all domains that use the metric; whether something changed.\<close>

fun set_incoming_metrics :: "ptr option \<Rightarrow> u32 \<Rightarrow> nhdp_domain list \<Rightarrow> bool \<Rightarrow> nhdp_link \<Rightarrow> bool \<times> nhdp_link" where
  "set_incoming_metrics h metric_in [] changed k = (changed, k)"
| "set_incoming_metrics h metric_in (d # ds) changed k =
     (if dm_handler (do_metric d) = h
      then set_incoming_metrics h metric_in ds (changed \<or> nm_in (nl_domaindata k (do_index d)) \<noteq> metric_in)
             (set_link_metric d (\<lambda>m. m\<lparr>nm_in := metric_in\<rparr>) k)
      else set_incoming_metrics h metric_in ds changed k)"

definition nhdp_domain_set_incoming_metric ::
  "domains \<Rightarrow> ptr option \<Rightarrow> ptr \<Rightarrow> u32 \<Rightarrow> nhdp_db \<Rightarrow> (bool \<times> nhdp_db) option" where
  "nhdp_domain_set_incoming_metric ds h l metric_in db = do {
     k \<leftarrow> db_links db l;
     let (changed, k) = set_incoming_metrics h metric_in (ds_list ds) False k;
     Some (changed, db\<lparr>db_links := (db_links db)(l \<mapsto> k)\<rparr>)
   }"

subsection \<open>Counting the users of a handler\<close>

definition switched_on :: "'h handler_kind \<Rightarrow> ptr option \<Rightarrow> domain_call list \<Rightarrow> bool" where
  "switched_on K p calls = fold (\<lambda>c b. if c = hk_on K p then True else if c = hk_off K p then False else b) calls False"

definition known_handler :: "'h handler_kind \<Rightarrow> 'h registry \<Rightarrow> 'h \<Rightarrow> bool" where
  "known_handler K r m = (case hk_id K m of None \<Rightarrow> m = hk_none K | Some p \<Rightarrow> rg_store r p = Some m)"

text \<open>
  A registry whose handlers are used by the multiset \<open>U\<close>: the reference counts are the numbers of users,
  the tree leads to handlers, and a handler is enabled as long as it has a user.
\<close>

definition registry_ok :: "'h handler_kind \<Rightarrow> 'h multiset \<Rightarrow> 'h registry \<Rightarrow> domain_call list \<Rightarrow> bool" where
  "registry_ok K U r calls \<longleftrightarrow>
     (\<forall>p. rg_refs r p = int (count (image_mset (hk_id K) U) p)) \<and>
     (\<forall>m \<in># U. known_handler K r m) \<and> (\<forall>p m. rg_store r p = Some m \<longrightarrow> hk_id K m = Some p) \<and>
     avl_ok (rg_tree r) \<and> (\<forall>p \<in> set (avl_elements (rg_tree r)). rg_store r p \<noteq> None) \<and>
     (\<forall>p. case rg_store r p of
        None \<Rightarrow> \<not> switched_on K (Some p) calls
      | Some m \<Rightarrow> hk_enable K m \<longrightarrow> hk_disable K m \<longrightarrow> switched_on K (Some p) calls = (rg_refs r (Some p) > 0))"

locale handler_class =
  fixes K :: "'h handler_kind"
  assumes none_id: "hk_id K (hk_none K) = None"
    and none_calls: "\<not> hk_enable K (hk_none K)" "\<not> hk_disable K (hk_none K)"
    and calls_inj: "hk_on K p = hk_on K q \<longleftrightarrow> p = q" "hk_off K p = hk_off K q \<longleftrightarrow> p = q" "hk_on K p \<noteq> hk_off K q"
begin

lemma none_known: "known_handler K r (hk_none K)"
  by (simp add: known_handler_def none_id)

lemma switched_append [simp]:
  "switched_on K p (calls @ [hk_on K q]) = (p = q \<or> switched_on K p calls)"
  "switched_on K p (calls @ [hk_off K q]) = (p \<noteq> q \<and> switched_on K p calls)"
  "switched_on K p [] = False"
  using calls_inj(3) [of p q] calls_inj(3) [of q p] calls_inj(3) [of p p]
  by (simp_all add: switched_on_def calls_inj(1,2) not_sym [OF calls_inj(3)] eq_commute [of q p])

lemma switched_other: "c \<notin> range (hk_on K) \<Longrightarrow> c \<notin> range (hk_off K) \<Longrightarrow> switched_on K p (calls @ [c]) = switched_on K p calls"
  by (auto simp: switched_on_def)

lemma empty_ok: "registry_ok K {#hk_none K#} (add_refs None 1 empty_registry) []"
  by (simp add: registry_ok_def add_refs_def empty_registry_def none_known none_id elements_entries
      avl_init_ok [OF avl_comp_strcasecmp.comparator_axioms])

lemma registry_okD:
  assumes "registry_ok K U r calls"
  shows "rg_refs r p = int (count (image_mset (hk_id K) U) p)" "m \<in># U \<Longrightarrow> known_handler K r m"
    "rg_store r q = Some m \<Longrightarrow> hk_id K m = Some q" "avl_ok (rg_tree r)"
    "q \<in> set (avl_elements (rg_tree r)) \<Longrightarrow> rg_store r q \<noteq> None"
    "rg_store r q = None \<Longrightarrow> \<not> switched_on K (Some q) calls"
    "rg_store r q = Some m \<Longrightarrow> hk_enable K m \<Longrightarrow> hk_disable K m \<Longrightarrow> switched_on K (Some q) calls = (rg_refs r (Some q) > 0)"
  using assms unfolding registry_ok_def by (auto dest: spec [of _ q])

lemma registry_okI:
  assumes "\<And>p. rg_refs r p = int (count (image_mset (hk_id K) U) p)" "\<And>m. m \<in># U \<Longrightarrow> known_handler K r m"
    "\<And>q m. rg_store r q = Some m \<Longrightarrow> hk_id K m = Some q" "avl_ok (rg_tree r)"
    "\<And>q. q \<in> set (avl_elements (rg_tree r)) \<Longrightarrow> rg_store r q \<noteq> None"
    "\<And>q. rg_store r q = None \<Longrightarrow> \<not> switched_on K (Some q) calls"
    "\<And>q m. rg_store r q = Some m \<Longrightarrow> hk_enable K m \<Longrightarrow> hk_disable K m \<Longrightarrow>
      switched_on K (Some q) calls = (rg_refs r (Some q) > 0)"
  shows "registry_ok K U r calls"
  using assms unfolding registry_ok_def by (auto split: option.split)

lemma add_refs_fields [simp]:
  "rg_store (add_refs p n r) = rg_store r" "rg_tree (add_refs p n r) = rg_tree r" "known_handler K (add_refs p n r) = known_handler K r"
  "rg_refs (add_refs p n r) q = rg_refs r q + (if q = p then n else 0)"
  by (simp_all add: add_refs_def known_handler_def fun_eq_iff split: option.split)

lemma new_user:
  assumes "registry_ok K U r calls"
  shows "registry_ok K (add_mset (hk_none K) U) (add_refs None 1 r) calls"
proof (rule registry_okI)
  note D = registry_okD [OF assms]
  show "rg_refs (add_refs None 1 r) p = int (count (image_mset (hk_id K) (add_mset (hk_none K) U)) p)" for p
    using D(1) [of p] by (simp add: none_id)
  show "switched_on K (Some q) calls = (rg_refs (add_refs None 1 r) (Some q) > 0)"
    if "rg_store (add_refs None 1 r) q = Some m" "hk_enable K m" "hk_disable K m" for q m
    using D(7) [of q m] that by simp
qed (use registry_okD [OF assms] none_known in auto)

lemma release_ok:
  assumes ok: "registry_ok K (add_mset m U) r calls" and e: "release_handler K m r = (r', c)"
  shows "registry_ok K (add_mset (hk_none K) U) r' (calls @ c)"
proof (rule registry_okI)
  note D = registry_okD [OF ok]
  have f: "rg_store r' = rg_store r" "rg_tree r' = rg_tree r" "known_handler K r' = known_handler K r"
    using e by (auto simp: release_handler_def Let_def)
  show "rg_refs r' p = int (count (image_mset (hk_id K) (add_mset (hk_none K) U)) p)" for p
    using e D(1) [of p] by (auto simp: release_handler_def Let_def none_id)
  show "known_handler K r' x" if "x \<in># add_mset (hk_none K) U" for x
    using that D(2) none_known by (auto simp: f)
  show "avl_ok (rg_tree r')" "rg_store r' q = Some x \<Longrightarrow> hk_id K x = Some q"
    "q \<in> set (avl_elements (rg_tree r')) \<Longrightarrow> rg_store r' q \<noteq> None" for q x
    using D(3,4,5) by (simp_all add: f)
  have c: "c = [] \<or> c = [hk_off K (hk_id K m)]" using e by (auto simp: release_handler_def Let_def split: if_splits)
  show "\<not> switched_on K (Some q) (calls @ c)" if "rg_store r' q = None" for q
    using D(6) [of q] that c by (auto simp: f)
  show "switched_on K (Some q) (calls @ c) = (rg_refs r' (Some q) > 0)"
    if q: "rg_store r' q = Some x" "hk_enable K x" "hk_disable K x" for q x
  proof (cases "hk_id K m = Some q")
    case True
    then have "m = x" using D(2) [of m] q(1) by (simp add: known_handler_def f)
    then show ?thesis
      using e q D(1) [of "Some q"] D(7) [of q x] True
      by (auto simp: f release_handler_def Let_def none_id split: if_splits)
  next
    case False
    then show ?thesis
      using e q D(7) [of q x] c by (auto simp: f release_handler_def Let_def none_id split: if_splits)
  qed
qed

lemma acquire_ok:
  assumes ok: "registry_ok K (add_mset (hk_none K) U) r calls" and m: "known_handler K r m"
    and e: "acquire_handler K (hk_none K) m r = (r', c)"
  shows "registry_ok K (add_mset m U) r' (calls @ c)"
proof (rule registry_okI)
  note D = registry_okD [OF ok]
  have f: "rg_store r' = rg_store r" "rg_tree r' = rg_tree r" "known_handler K r' = known_handler K r"
    using e by (auto simp: acquire_handler_def Let_def)
  show "rg_refs r' p = int (count (image_mset (hk_id K) (add_mset m U)) p)" for p
    using e D(1) [of p] by (auto simp: acquire_handler_def Let_def none_id)
  show "known_handler K r' x" if "x \<in># add_mset m U" for x
    using that D(2) m by (auto simp: f)
  show "avl_ok (rg_tree r')" "rg_store r' q = Some x \<Longrightarrow> hk_id K x = Some q"
    "q \<in> set (avl_elements (rg_tree r')) \<Longrightarrow> rg_store r' q \<noteq> None" for q x
    using D(3,4,5) by (simp_all add: f)
  have c: "c = [] \<or> c = [hk_on K (hk_id K m)] \<and> hk_enable K m" using e by (auto simp: acquire_handler_def Let_def split: if_splits)
  show "\<not> switched_on K (Some q) (calls @ c)" if "rg_store r' q = None" for q
    using D(6) [of q] that c m none_calls by (auto simp: f known_handler_def split: option.splits)
  show "switched_on K (Some q) (calls @ c) = (rg_refs r' (Some q) > 0)"
    if q: "rg_store r' q = Some x" "hk_enable K x" "hk_disable K x" for q x
  proof (cases "hk_id K m = Some q")
    case True
    then have "m = x" using m q(1) by (simp add: known_handler_def f)
    then show ?thesis
      using e q D(1) [of "Some q"] D(7) [of q x] True
      by (auto simp: f acquire_handler_def Let_def none_id eq_commute [of "Some q"] simp del: count_image_mset split: if_splits)
  next
    case False
    then show ?thesis
      using e q D(7) [of q x] c by (auto simp: f acquire_handler_def Let_def none_id split: if_splits)
  qed
qed

lemma first_element: "avl_ok T \<Longrightarrow> \<not> avl_is_empty T \<Longrightarrow> hd (avl_elements T) \<in> set (avl_elements T)"
  by (simp add: avl_is_empty_iff elements_entries flip: set_map)

lemma find_ok:
  assumes ok: "registry_ok K U r calls"
  shows "\<exists>m. find_handler K name r = Some m \<and> known_handler K r m"
proof -
  note D = registry_okD [OF ok]
  have 1: "\<exists>m. (case avl_find (rg_tree r) n of None \<Rightarrow> Some (hk_none K) | Some p \<Rightarrow> rg_store r p) = Some m \<and> known_handler K r m" for n
  proof (cases "avl_find (rg_tree r) n")
    case (Some p)
    then have "p \<in> set (avl_elements (rg_tree r))" using avl.look_Some [OF D(4) Some] by (auto simp: in_elements)
    then obtain m where "rg_store r p = Some m" using D(5) by blast
    then show ?thesis using Some D(3) by (auto simp: known_handler_def)
  qed (simp add: none_known)
  have 2: "\<exists>m. rg_store r (hd (avl_elements (rg_tree r))) = Some m" if "\<not> avl_is_empty (rg_tree r)"
    using D(5) [OF first_element [OF D(4) that]] by blast
  show ?thesis using 1 2 by (auto simp: find_handler_def)
qed

lemma register_ok:
  assumes ok: "registry_ok K U r calls" and m: "hk_id K m = Some p" and new: "rg_store r p = None \<or> rg_store r p = Some m"
    and free: "p \<notin> set (avl_elements (rg_tree r))" and d: "\<not> tr_allow_dups (rg_tree r)" and e: "register_handler K p m r = (rc, r')"
  shows "registry_ok K U r' calls" "\<not> tr_allow_dups (rg_tree r')" "rc = 0 \<or> rc = - 1"
proof -
  note D = registry_okD [OF ok]
  obtain T where T: "avl_insert (rg_tree r) (hk_name K m) p = (rc, T)" "r' = r\<lparr>rg_store := (rg_store r)(p \<mapsto> m), rg_tree := T\<rparr>"
    using e by (auto simp: register_handler_def split: prod.splits)
  have t: "avl_ok T \<and> set (avl_elements T) \<subseteq> insert p (set (avl_elements (rg_tree r))) \<and> \<not> tr_allow_dups T \<and> (rc = 0 \<or> rc = - 1)"
  proof (cases "avl_find (rg_tree r) (hk_name K m)")
    case None
    then show ?thesis
      using avl.ins_new [OF D(4) None, of p] free d T(1) by (auto simp: elements_entries)
  next
    case (Some q)
    then show ?thesis
      using avl.ins_refused [OF D(4), of p "hk_name K m"] free d T(1) D(4) by (auto simp: avl_ids)
  qed
  show "\<not> tr_allow_dups (rg_tree r')" "rc = 0 \<or> rc = - 1" using t T by simp_all
  have unused: "x \<noteq> p" if "y \<in># U" "hk_id K y = Some x" "rg_store r p = None" for x y
    using D(2) [OF that(1)] that(2,3) by (auto simp: known_handler_def)
  have none: "rg_refs r (Some p) = 0" if "rg_store r p = None"
    using D(1) [of "Some p"] unused [OF _ _ that] by (force simp: count_eq_zero_iff)
  show "registry_ok K U r' calls"
  proof (rule registry_okI)
    show "known_handler K r' x" if "x \<in># U" for x
      using D(2) [OF that] new unused [OF that] by (auto simp: known_handler_def T(2) split: option.splits)
    show "rg_store r' q \<noteq> None" if "q \<in> set (avl_elements (rg_tree r'))" for q
      using that t D(5) by (auto simp: T(2))
    show "switched_on K (Some q) calls = (rg_refs r' (Some q) > 0)"
      if "rg_store r' q = Some x" "hk_enable K x" "hk_disable K x" for q x
      using that D(6) [of q] D(7) [of q x] new none by (auto simp: T(2) split: if_splits)
  qed (use D m t in \<open>auto simp: T(2) split: if_splits\<close>)
qed

lemma unregister_ok:
  assumes ok: "registry_ok K U r calls" and p: "p \<in> set (avl_elements (rg_tree r))"
  shows "\<exists>t. tree_remove (rg_tree r) p = Some t \<and> registry_ok K U (r\<lparr>rg_tree := t\<rparr>) calls
    \<and> tr_allow_dups t = tr_allow_dups (rg_tree r)"
proof -
  note D = registry_okD [OF ok]
  let ?t = "avl_remove (rg_tree r) p"
  have t: "avl_ok ?t \<and> set (avl_elements ?t) \<subseteq> set (avl_elements (rg_tree r)) \<and> tr_allow_dups ?t = tr_allow_dups (rg_tree r)"
    using avl.del_old [OF D(4), of p] p by (auto simp: elements_entries)
  have "known_handler K (r\<lparr>rg_tree := t\<rparr>) = known_handler K r" for t
    by (simp add: known_handler_def fun_eq_iff split: option.split)
  then have "registry_ok K U (r\<lparr>rg_tree := ?t\<rparr>) calls"
    using D t by (intro registry_okI) auto
  then show ?thesis using p t by (simp add: tree_remove_def)
qed

end

interpretation metric_class: handler_class metric_kind
  by unfold_locales (auto simp: metric_kind_def no_metric_def)

interpretation mpr_class: handler_class mpr_kind
  by unfold_locales (auto simp: mpr_kind_def everyone_mprs_def)

subsection \<open>Consistency\<close>

definition domains_ok :: "domains \<Rightarrow> bool" where
  "domains_ok ds \<longleftrightarrow> ds_counter ds = length (ds_list ds) \<and> length (ds_list ds) \<le> NHDP_MAXIMUM_DOMAINS
     \<and> map do_index (ds_list ds) = [0..<length (ds_list ds)] \<and> distinct (map do_ext (ds_list ds))"

definition metrics_in_use :: "domains \<Rightarrow> domain_metric multiset" where
  "metrics_in_use ds = mset (map do_metric (ds_flooding ds # ds_list ds))"

definition mprs_in_use :: "domains \<Rightarrow> domain_mpr multiset" where
  "mprs_in_use ds = mset (map do_mpr (ds_flooding ds # ds_list ds))"

definition handlers_ok :: "domain_metric multiset \<Rightarrow> domain_mpr multiset \<Rightarrow> handlers \<Rightarrow> bool" where
  "handlers_ok U V ha \<longleftrightarrow> registry_ok metric_kind U (ha_metrics ha) (ha_calls ha) \<and> registry_ok mpr_kind V (ha_mprs ha) (ha_calls ha)
     \<and> \<not> tr_allow_dups (rg_tree (ha_metrics ha)) \<and> \<not> tr_allow_dups (rg_tree (ha_mprs ha))"

lemma kind_simps [simp]:
  "hk_id metric_kind = dm_handler" "hk_name metric_kind = dm_name" "hk_none metric_kind = no_metric"
  "hk_on metric_kind = Metric_Enable" "hk_off metric_kind = Metric_Disable"
  "hk_enable metric_kind = dm_enable" "hk_disable metric_kind = dm_disable"
  "hk_id mpr_kind = dp_handler" "hk_name mpr_kind = dp_name" "hk_none mpr_kind = everyone_mprs"
  "hk_on mpr_kind = Mpr_Enable" "hk_off mpr_kind = Mpr_Disable" "hk_enable mpr_kind = dp_enable" "hk_disable mpr_kind = dp_disable"
  by (simp_all add: metric_kind_def mpr_kind_def)

lemma registry_foreign:
  assumes "registry_ok K U r calls" "\<forall>c \<in> set cs. c \<notin> range (hk_on K) \<and> c \<notin> range (hk_off K)"
  shows "registry_ok K U r (calls @ cs)"
proof -
  have sw: "switched_on K p (calls @ cs) = switched_on K p calls" for p
    using assms(2) by (induction cs rule: rev_induct) (auto simp: switched_on_def)
  show ?thesis using assms(1) unfolding registry_ok_def sw .
qed

lemma foreign_calls:
  "handlers_ok U V ha \<Longrightarrow> \<forall>c \<in> set cs. \<exists>e. c = Register_Metric_Tlv e \<or> c = Unregister_Metric_Tlv e \<or> (\<exists>v. c = Domain_Event v e)
    \<Longrightarrow> handlers_ok U V (ha\<lparr>ha_calls := ha_calls ha @ cs\<rparr>)"
  unfolding handlers_ok_def by (auto intro!: registry_foreign)

lemma remove_metric_ok:
  assumes "handlers_ok (add_mset (do_metric d) U) V ha" "remove_metric d ha = (d', ha')"
  shows "handlers_ok (add_mset (do_metric d') U) V ha'" "do_metric d' = no_metric" "do_mpr d' = do_mpr d" "do_ext d' = do_ext d" "do_index d' = do_index d"
proof -
  obtain r c where e: "release_handler metric_kind (do_metric d) (ha_metrics ha) = (r, c)" by fastforce
  note 1 = metric_class.release_ok [OF _ e, of U "ha_calls ha"]
  have "c = [] \<or> c = [Metric_Disable (dm_handler (do_metric d))]" using e by (auto simp: release_handler_def Let_def split: if_splits)
  then have "registry_ok mpr_kind V (ha_mprs ha) (ha_calls ha @ c)"
    using assms(1) by (auto simp: handlers_ok_def intro!: registry_foreign)
  moreover have "rg_tree r = rg_tree (ha_metrics ha)" using e by (auto simp: release_handler_def Let_def add_refs_def)
  ultimately show "handlers_ok (add_mset (do_metric d') U) V ha'"
    using 1 assms e by (auto simp: handlers_ok_def remove_metric_def)
  show "do_metric d' = no_metric" "do_mpr d' = do_mpr d" "do_ext d' = do_ext d" "do_index d' = do_index d"
    using assms(2) e by (auto simp: remove_metric_def)
qed

lemma remove_mpr_ok:
  assumes "handlers_ok U (add_mset (do_mpr d) V) ha" "remove_mpr d ha = (d', ha')"
  shows "handlers_ok U (add_mset (do_mpr d') V) ha'" "do_mpr d' = everyone_mprs" "do_metric d' = do_metric d" "do_ext d' = do_ext d" "do_index d' = do_index d"
proof -
  obtain r c where e: "release_handler mpr_kind (do_mpr d) (ha_mprs ha) = (r, c)" by fastforce
  note 1 = mpr_class.release_ok [OF _ e, of V "ha_calls ha"]
  have "c = [] \<or> c = [Mpr_Disable (dp_handler (do_mpr d))]" using e by (auto simp: release_handler_def Let_def split: if_splits)
  then have "registry_ok metric_kind U (ha_metrics ha) (ha_calls ha @ c)"
    using assms(1) by (auto simp: handlers_ok_def intro!: registry_foreign)
  moreover have "rg_tree r = rg_tree (ha_mprs ha)" using e by (auto simp: release_handler_def Let_def add_refs_def)
  ultimately show "handlers_ok U (add_mset (do_mpr d') V) ha'"
    using 1 assms e by (auto simp: handlers_ok_def remove_mpr_def)
  show "do_mpr d' = everyone_mprs" "do_metric d' = do_metric d" "do_ext d' = do_ext d" "do_index d' = do_index d"
    using assms(2) e by (auto simp: remove_mpr_def)
qed

lemma handlers_known:
  "handlers_ok (add_mset m U) V ha \<Longrightarrow> dm_handler m = None \<Longrightarrow> m = no_metric"
  "handlers_ok U (add_mset n V) ha \<Longrightarrow> dp_handler n = None \<Longrightarrow> n = everyone_mprs"
  using metric_class.registry_okD(2) [of "add_mset m U" "ha_metrics ha" "ha_calls ha" m]
    mpr_class.registry_okD(2) [of "add_mset n V" "ha_mprs ha" "ha_calls ha" n]
  by (simp_all add: handlers_ok_def known_handler_def)

lemma apply_metric_ok:
  assumes ok: "handlers_ok (add_mset (do_metric d) U) V ha"
  shows "\<exists>d' ha'. apply_metric name d ha = Some (d', ha') \<and> handlers_ok (add_mset (do_metric d') U) V ha'
    \<and> do_mpr d' = do_mpr d \<and> do_ext d' = do_ext d \<and> do_index d' = do_index d"
proof (cases "avl_comp_strcasecmp (do_metric_name d) name = 0")
  case True
  then show ?thesis using ok by (simp add: apply_metric_def)
next
  case False
  obtain d1 ha1 where 1: "(if dm_handler (do_metric d) \<noteq> None then remove_metric d ha else (d, ha)) = (d1, ha1)" by fastforce
  have 2: "handlers_ok (add_mset no_metric U) V ha1" "do_metric d1 = no_metric" "do_mpr d1 = do_mpr d" "do_ext d1 = do_ext d" "do_index d1 = do_index d"
    using 1 remove_metric_ok [OF ok] handlers_known(1) [OF ok] ok by (auto split: if_splits)
  then have r: "registry_ok metric_kind (add_mset (hk_none metric_kind) U) (ha_metrics ha1) (ha_calls ha1)" by (simp add: handlers_ok_def)
  obtain m where m: "find_handler metric_kind name (ha_metrics ha1) = Some m" "known_handler metric_kind (ha_metrics ha1) m"
    using metric_class.find_ok [OF r] by blast
  obtain r' c where e: "acquire_handler metric_kind (hk_none metric_kind) m (ha_metrics ha1) = (r', c)" by fastforce
  have c: "\<forall>x \<in> set c. x = Metric_Enable (dm_handler m)" "rg_tree r' = rg_tree (ha_metrics ha1)"
    using e by (auto simp: acquire_handler_def Let_def add_refs_def split: if_splits)
  then have "registry_ok mpr_kind V (ha_mprs ha1) (ha_calls ha1 @ c)"
    using 2(1) by (auto simp: handlers_ok_def intro!: registry_foreign)
  then show ?thesis
    using metric_class.acquire_ok [OF r m(2) e] 1 2 m(1) e c(2) False
    by (auto simp: apply_metric_def handlers_ok_def simp del: kind_simps(1,2) split: if_splits)
qed

lemma apply_mpr_ok:
  assumes ok: "handlers_ok U (add_mset (do_mpr d) V) ha"
  shows "\<exists>d' ha'. apply_mpr name w d ha = Some (d', ha') \<and> handlers_ok U (add_mset (do_mpr d') V) ha'
    \<and> do_metric d' = do_metric d \<and> do_ext d' = do_ext d \<and> do_index d' = do_index d"
proof (cases "avl_comp_strcasecmp (do_mpr_name d) name = 0")
  case True
  then show ?thesis using ok by (simp add: apply_mpr_def)
next
  case False
  let ?d = "d\<lparr>do_local_willingness := w\<rparr>"
  obtain d1 ha1 where 1: "(if dp_handler (do_mpr d) \<noteq> None then remove_mpr ?d ha else (?d, ha)) = (d1, ha1)" by fastforce
  have ok': "handlers_ok U (add_mset (do_mpr ?d) V) ha" using ok by simp
  have 2: "handlers_ok U (add_mset everyone_mprs V) ha1" "do_mpr d1 = everyone_mprs" "do_metric d1 = do_metric d" "do_ext d1 = do_ext d" "do_index d1 = do_index d"
    using 1 remove_mpr_ok [OF ok'] handlers_known(2) [OF ok] ok by (auto split: if_splits)
  then have r: "registry_ok mpr_kind (add_mset (hk_none mpr_kind) V) (ha_mprs ha1) (ha_calls ha1)" by (simp add: handlers_ok_def)
  obtain m where m: "find_handler mpr_kind name (ha_mprs ha1) = Some m" "known_handler mpr_kind (ha_mprs ha1) m"
    using mpr_class.find_ok [OF r] by blast
  obtain r' c where e: "acquire_handler mpr_kind (hk_none mpr_kind) m (ha_mprs ha1) = (r', c)" by fastforce
  have c: "\<forall>x \<in> set c. x = Mpr_Enable (dp_handler m)" "rg_tree r' = rg_tree (ha_mprs ha1)"
    using e by (auto simp: acquire_handler_def Let_def add_refs_def split: if_splits)
  then have "registry_ok metric_kind U (ha_metrics ha1) (ha_calls ha1 @ c)"
    using 2(1) by (auto simp: handlers_ok_def intro!: registry_foreign)
  then show ?thesis
    using mpr_class.acquire_ok [OF r m(2) e] 1 2 m(1) e c(2) False
    by (auto simp: apply_mpr_def handlers_ok_def simp del: kind_simps(8,9) split: if_splits)
qed

lemma remove_tree [simp]:
  "rg_tree (ha_metrics (snd (remove_metric d ha))) = rg_tree (ha_metrics ha)" "rg_tree (ha_mprs (snd (remove_mpr d ha))) = rg_tree (ha_mprs ha)"
  by (simp_all add: remove_metric_def remove_mpr_def release_handler_def Let_def add_refs_def)

lemma remove_first_tree:
  "rg_tree (ha_metrics (snd (remove_first_metric p ds ha))) = rg_tree (ha_metrics ha)"
  "rg_tree (ha_mprs (snd (remove_first_mpr p ds ha))) = rg_tree (ha_mprs ha)"
  by (induction ds arbitrary: ha) (simp_all add: case_prod_unfold Let_def)

lemma remove_first_metric_ok:
  assumes "handlers_ok (mset (map do_metric ds) + U) V ha" "remove_first_metric p ds ha = (ds', ha')"
  shows "handlers_ok (mset (map do_metric ds') + U) V ha' \<and> map do_mpr ds' = map do_mpr ds \<and> map do_ext ds' = map do_ext ds
    \<and> map do_index ds' = map do_index ds"
  using assms
proof (induction ds arbitrary: U ha ds' ha')
  case (Cons d ds)
  show ?case
  proof (cases "dm_handler (do_metric d) = Some p")
    case True
    then show ?thesis
      using Cons.prems remove_metric_ok [of d "mset (map do_metric ds) + U" V ha] by (auto split: prod.splits)
  next
    case False
    obtain es ha1 where 1: "remove_first_metric p ds ha = (es, ha1)" by fastforce
    then show ?thesis
      using Cons.prems False Cons.IH [of "add_mset (do_metric d) U" ha es ha1] by auto
  qed
qed simp

lemma remove_first_mpr_ok:
  assumes "handlers_ok U (mset (map do_mpr ds) + V) ha" "remove_first_mpr p ds ha = (ds', ha')"
  shows "handlers_ok U (mset (map do_mpr ds') + V) ha' \<and> map do_metric ds' = map do_metric ds \<and> map do_ext ds' = map do_ext ds
    \<and> map do_index ds' = map do_index ds"
  using assms
proof (induction ds arbitrary: V ha ds' ha')
  case (Cons d ds)
  show ?case
  proof (cases "dp_handler (do_mpr d) = Some p")
    case True
    then show ?thesis
      using Cons.prems remove_mpr_ok [of U d "mset (map do_mpr ds) + V" ha] by (auto split: prod.splits)
  next
    case False
    obtain es ha1 where 1: "remove_first_mpr p ds ha = (es, ha1)" by fastforce
    then show ?thesis
      using Cons.prems False Cons.IH [of "add_mset (do_mpr d) V" ha es ha1] by auto
  qed
qed simp

text \<open>
  A new MPR algorithm is applied again to the domains without one, under the name that they have
  already: nothing changes.
\<close>

lemma strcasecmp_refl [simp]: "avl_comp_strcasecmp s s = 0"
  by (simp add: avl_comp_strcasecmp_def)

lemma reapply_mpr_same: "reapply_mpr d ha = Some (d, ha)"
  by (simp add: reapply_mpr_def apply_mpr_def)

lemma reapply_mprs_same: "reapply_mprs ds ha = Some (ds, ha)"
  by (induction ds) (simp_all add: reapply_mpr_same)

definition state_ok :: "domains \<times> handlers \<Rightarrow> bool" where
  "state_ok = (\<lambda>(ds, ha). domains_ok ds \<and> handlers_ok (metrics_in_use ds) (mprs_in_use ds) ha)"

datatype domain_op =
    Domain_Metric_Add ptr domain_metric | Domain_Metric_Remove ptr
  | Domain_Mpr_Add ptr domain_mpr | Domain_Mpr_Remove ptr
  | Domain_Configure bool u8 string string u8 | Domain_Set_Flooding_Mpr string u8

fun exec_domain_op :: "domain_op \<Rightarrow> domains \<times> handlers \<Rightarrow> (domains \<times> handlers) option" where
  "exec_domain_op (Domain_Metric_Add p m) (ds, ha) = Some (ds, snd (nhdp_domain_metric_add p m ha))"
| "exec_domain_op (Domain_Metric_Remove p) st = nhdp_domain_metric_remove p st"
| "exec_domain_op (Domain_Mpr_Add p m) st = map_option snd (nhdp_domain_mpr_add p m st)"
| "exec_domain_op (Domain_Mpr_Remove p) st = nhdp_domain_mpr_remove p st"
| "exec_domain_op (Domain_Configure memory ext metric mpr w) st = map_option snd (nhdp_domain_configure memory ext metric mpr w st)"
| "exec_domain_op (Domain_Set_Flooding_Mpr mpr w) st = nhdp_domain_set_flooding_mpr mpr w st"

text \<open>
  A handler is registered with the address of its record, which is not in the tree of the names, and
  a record that is registered again has its values still.
\<close>

fun domain_op_allowed :: "domain_op \<Rightarrow> handlers \<Rightarrow> bool" where
  "domain_op_allowed (Domain_Metric_Add p m) ha \<longleftrightarrow> dm_handler m = Some p \<and> p \<notin> set (avl_elements (rg_tree (ha_metrics ha)))
     \<and> (rg_store (ha_metrics ha) p = None \<or> rg_store (ha_metrics ha) p = Some (metric_defaults m))"
| "domain_op_allowed (Domain_Mpr_Add p m) ha \<longleftrightarrow> dp_handler m = Some p \<and> p \<notin> set (avl_elements (rg_tree (ha_mprs ha)))
     \<and> (rg_store (ha_mprs ha) p = None \<or> rg_store (ha_mprs ha) p = Some m)"
| "domain_op_allowed (Domain_Metric_Remove p) ha \<longleftrightarrow> p \<in> set (avl_elements (rg_tree (ha_metrics ha)))"
| "domain_op_allowed (Domain_Mpr_Remove p) ha \<longleftrightarrow> p \<in> set (avl_elements (rg_tree (ha_mprs ha)))"
| "domain_op_allowed _ ha \<longleftrightarrow> True"

lemma domain_add_new:
  assumes ok: "state_ok (ds, ha)" and x: "nhdp_domain_get_by_ext ext ds = None" and n: "ds_counter ds \<noteq> NHDP_MAXIMUM_DOMAINS"
  shows "state_ok (ds\<lparr>ds_list := ds_list ds @ [new_domain ext (ds_counter ds)], ds_counter := ds_counter ds + 1\<rparr>,
    ha\<lparr>ha_metrics := add_refs None 1 (ha_metrics ha), ha_mprs := add_refs None 1 (ha_mprs ha),
       ha_calls := ha_calls ha @ replicate 4 (Register_Metric_Tlv ext) @ [Domain_Event OBJECT_ADDED ext]\<rparr>)"
proof -
  let ?ds = "ds\<lparr>ds_list := ds_list ds @ [new_domain ext (ds_counter ds)], ds_counter := ds_counter ds + 1\<rparr>"
  have "ext \<notin> do_ext ` set (ds_list ds)" using x by (auto simp: nhdp_domain_get_by_ext_def find_None_iff)
  then have 1: "domains_ok ?ds" using ok n by (simp add: state_ok_def domains_ok_def new_domain_def)
  have 2: "metrics_in_use ?ds = add_mset no_metric (metrics_in_use ds)" "mprs_in_use ?ds = add_mset everyone_mprs (mprs_in_use ds)"
    by (simp_all add: metrics_in_use_def mprs_in_use_def new_domain_def)
  have "handlers_ok (add_mset no_metric (metrics_in_use ds)) (add_mset everyone_mprs (mprs_in_use ds))
      (ha\<lparr>ha_metrics := add_refs None 1 (ha_metrics ha), ha_mprs := add_refs None 1 (ha_mprs ha)\<rparr>)"
    using ok metric_class.new_user [of "metrics_in_use ds" "ha_metrics ha" "ha_calls ha"]
      mpr_class.new_user [of "mprs_in_use ds" "ha_mprs ha" "ha_calls ha"]
    by (simp add: state_ok_def handlers_ok_def add_refs_def)
  from foreign_calls [OF this, of "replicate 4 (Register_Metric_Tlv ext) @ [Domain_Event OBJECT_ADDED ext]"]
  show ?thesis using 1 2 by (simp add: state_ok_def)
qed

lemma domain_add_ok:
  assumes ok: "state_ok (ds, ha)" and e: "nhdp_domain_add memory ext (ds, ha) = (d, ds', ha')"
  shows "state_ok (ds', ha')" "d = Some x \<Longrightarrow> x \<in> set (ds_list ds') \<and> do_ext x = ext"
proof -
  show "state_ok (ds', ha')"
  proof (cases "nhdp_domain_get_by_ext ext ds")
    case None
    then show ?thesis
      using ok e domain_add_new [OF ok None] by (simp add: nhdp_domain_add_def Let_def split: if_split_asm)
  next
    case (Some y)
    then show ?thesis using ok e by (simp add: nhdp_domain_add_def)
  qed
  show "x \<in> set (ds_list ds') \<and> do_ext x = ext" if "d = Some x"
  proof (cases "nhdp_domain_get_by_ext ext ds")
    case None
    then show ?thesis
      using that e by (simp add: nhdp_domain_add_def Let_def new_domain_def split: if_split_asm) fastforce
  next
    case (Some y)
    then have "y \<in> set (ds_list ds) \<and> do_ext y = ext" by (auto simp: nhdp_domain_get_by_ext_def find_Some_iff)
    then show ?thesis using that Some e by (simp add: nhdp_domain_add_def)
  qed
qed

lemma update_by_ext_split:
  assumes "distinct (map do_ext ds)" "d \<in> set ds" "do_ext d = ext"
  shows "\<exists>as bs. ds = as @ d # bs \<and> (\<forall>f. update_by_ext ext f ds = as @ f d # bs)"
  using assms
proof (induction ds)
  case (Cons x ds)
  show ?case
  proof (cases "x = d")
    case True
    then show ?thesis using Cons.prems by fastforce
  next
    case False
    then have "do_ext x \<noteq> ext" using Cons.prems by auto
    moreover obtain as bs where "ds = as @ d # bs" "\<forall>f. update_by_ext ext f ds = as @ f d # bs" using Cons False by auto
    ultimately show ?thesis by (intro exI [of _ "x # as"] exI [of _ bs]) simp
  qed
qed simp

lemma domain_configure_ok:
  assumes ok: "state_ok (ds, ha)"
  shows "\<exists>d st. nhdp_domain_configure memory ext metric mpr w (ds, ha) = Some (d, st) \<and> state_ok st"
proof (cases "nhdp_domain_add memory ext (ds, ha)")
  case (fields o' ds1 ha1)
  note 1 = domain_add_ok [OF ok fields]
  show ?thesis
  proof (cases o')
    case None
    then show ?thesis using fields 1 by (simp add: nhdp_domain_configure_def)
  next
    case (Some d)
    then have d: "d \<in> set (ds_list ds1)" "do_ext d = ext" using 1(2) by auto
    have di: "domains_ok ds1" using 1(1) by (simp add: state_ok_def)
    obtain as bs where s: "ds_list ds1 = as @ d # bs" "\<And>f. update_by_ext ext f (ds_list ds1) = as @ f d # bs"
      using update_by_ext_split [OF _ d] di unfolding domains_ok_def by blast
    define U where "U = mset (map do_metric (ds_flooding ds1 # as @ bs))"
    define V where "V = mset (map do_mpr (ds_flooding ds1 # as @ bs))"
    have "handlers_ok (add_mset (do_metric d) U) (add_mset (do_mpr d) V) ha1"
      using 1(1) by (simp add: state_ok_def metrics_in_use_def mprs_in_use_def s(1) U_def V_def add_mset_commute)
    from apply_metric_ok [OF this, of metric] obtain d2 ha2 where 2: "apply_metric metric d ha1 = Some (d2, ha2)"
      "handlers_ok (add_mset (do_metric d2) U) (add_mset (do_mpr d2) V) ha2" "do_ext d2 = do_ext d" "do_index d2 = do_index d" by auto
    from apply_mpr_ok [OF 2(2), of mpr w] obtain d3 ha3 where 3: "apply_mpr mpr w d2 ha2 = Some (d3, ha3)"
      "handlers_ok (add_mset (do_metric d3) U) (add_mset (do_mpr d3) V) ha3" "do_ext d3 = do_ext d" "do_index d3 = do_index d"
      using 2(3,4) by auto
    let ?ds = "ds1\<lparr>ds_list := as @ d3 # bs\<rparr>"
    have "domains_ok ?ds" using di s(1) 3(3,4) by (simp add: domains_ok_def)
    moreover have "metrics_in_use ?ds = add_mset (do_metric d3) U" "mprs_in_use ?ds = add_mset (do_mpr d3) V"
      by (simp_all add: metrics_in_use_def mprs_in_use_def U_def V_def)
    ultimately show ?thesis
      using fields Some 2(1) 3(1) s(2) foreign_calls [OF 3(2), of "[Domain_Event OBJECT_CHANGED ext]"]
      by (simp add: nhdp_domain_configure_def state_ok_def)
  qed
qed

lemma exec_domain_op_ok:
  assumes ok: "state_ok (ds, ha)" and a: "domain_op_allowed op ha"
  shows "\<exists>st. exec_domain_op op (ds, ha) = Some st \<and> state_ok st"
proof (cases op)
  case (Domain_Metric_Add p m)
  obtain rc r where e: "register_handler metric_kind p (metric_defaults m) (ha_metrics ha) = (rc, r)" by fastforce
  have "hk_id metric_kind (metric_defaults m) = Some p" using a Domain_Metric_Add by (simp add: metric_defaults_def)
  note 1 = metric_class.register_ok [OF _ this _ _ _ e, of "metrics_in_use ds" "ha_calls ha"]
  show ?thesis
    using 1 ok a e Domain_Metric_Add by (auto simp: nhdp_domain_metric_add_def state_ok_def handlers_ok_def)
next
  case (Domain_Mpr_Add p m)
  obtain rc r where e: "register_handler mpr_kind p m (ha_mprs ha) = (rc, r)" by fastforce
  have "hk_id mpr_kind m = Some p" using a Domain_Mpr_Add by simp
  note 1 = mpr_class.register_ok [OF _ this _ _ _ e, of "mprs_in_use ds" "ha_calls ha"]
  show ?thesis
    using 1 ok a e Domain_Mpr_Add
    by (auto simp: nhdp_domain_mpr_add_def state_ok_def handlers_ok_def reapply_mprs_same reapply_mpr_same)
next
  case (Domain_Metric_Remove p)
  obtain l ha1 where e: "remove_first_metric p (ds_list ds) ha = (l, ha1)" by fastforce
  have "handlers_ok (mset (map do_metric (ds_list ds)) + {#do_metric (ds_flooding ds)#}) (mprs_in_use ds) ha"
    using ok by (simp add: state_ok_def metrics_in_use_def)
  note 1 = remove_first_metric_ok [OF this e]
  have t: "rg_tree (ha_metrics ha1) = rg_tree (ha_metrics ha)" using remove_first_tree(1) [of p "ds_list ds" ha] e by simp
  have r: "registry_ok metric_kind (metrics_in_use (ds\<lparr>ds_list := l\<rparr>)) (ha_metrics ha1) (ha_calls ha1)"
    "registry_ok mpr_kind (mprs_in_use (ds\<lparr>ds_list := l\<rparr>)) (ha_mprs ha1) (ha_calls ha1)"
    "\<not> tr_allow_dups (rg_tree (ha_metrics ha1))" "\<not> tr_allow_dups (rg_tree (ha_mprs ha1))"
    using 1 by (simp_all add: handlers_ok_def metrics_in_use_def mprs_in_use_def)
  obtain T where T: "tree_remove (rg_tree (ha_metrics ha1)) p = Some T" "\<not> tr_allow_dups T"
    "registry_ok metric_kind (metrics_in_use (ds\<lparr>ds_list := l\<rparr>)) ((ha_metrics ha1)\<lparr>rg_tree := T\<rparr>) (ha_calls ha1)"
    using metric_class.unregister_ok [OF r(1), of p] a Domain_Metric_Remove t r(3) by auto
  have d: "map do_ext l = map do_ext (ds_list ds)" "map do_index l = map do_index (ds_list ds)" using 1 by simp_all
  have "domains_ok (ds\<lparr>ds_list := l\<rparr>)"
    using ok map_eq_imp_length_eq [OF d(1)] by (simp add: state_ok_def domains_ok_def d)
  then show ?thesis
    using Domain_Metric_Remove e r T by (simp add: nhdp_domain_metric_remove_def state_ok_def handlers_ok_def)
next
  case (Domain_Mpr_Remove p)
  obtain l ha1 where e: "remove_first_mpr p (ds_list ds) ha = (l, ha1)" by fastforce
  have "handlers_ok (metrics_in_use ds) (mset (map do_mpr (ds_list ds)) + {#do_mpr (ds_flooding ds)#}) ha"
    using ok by (simp add: state_ok_def mprs_in_use_def)
  note 1 = remove_first_mpr_ok [OF this e]
  have t: "rg_tree (ha_mprs ha1) = rg_tree (ha_mprs ha)" using remove_first_tree(2) [of p "ds_list ds" ha] e by simp
  have r: "registry_ok metric_kind (metrics_in_use (ds\<lparr>ds_list := l\<rparr>)) (ha_metrics ha1) (ha_calls ha1)"
    "registry_ok mpr_kind (mprs_in_use (ds\<lparr>ds_list := l\<rparr>)) (ha_mprs ha1) (ha_calls ha1)"
    "\<not> tr_allow_dups (rg_tree (ha_metrics ha1))" "\<not> tr_allow_dups (rg_tree (ha_mprs ha1))"
    using 1 by (simp_all add: handlers_ok_def metrics_in_use_def mprs_in_use_def)
  obtain T where T: "tree_remove (rg_tree (ha_mprs ha1)) p = Some T" "\<not> tr_allow_dups T"
    "registry_ok mpr_kind (mprs_in_use (ds\<lparr>ds_list := l\<rparr>)) ((ha_mprs ha1)\<lparr>rg_tree := T\<rparr>) (ha_calls ha1)"
    using mpr_class.unregister_ok [OF r(2), of p] a Domain_Mpr_Remove t r(4) by auto
  have d: "map do_ext l = map do_ext (ds_list ds)" "map do_index l = map do_index (ds_list ds)" using 1 by simp_all
  have "domains_ok (ds\<lparr>ds_list := l\<rparr>)"
    using ok map_eq_imp_length_eq [OF d(1)] by (simp add: state_ok_def domains_ok_def d)
  then show ?thesis
    using Domain_Mpr_Remove e r T by (simp add: nhdp_domain_mpr_remove_def state_ok_def handlers_ok_def)
next
  case (Domain_Configure memory ext metric mpr w)
  then show ?thesis using domain_configure_ok [OF ok, of memory ext metric mpr w] by auto
next
  case (Domain_Set_Flooding_Mpr mpr w)
  have "handlers_ok (metrics_in_use ds) (add_mset (do_mpr (ds_flooding ds)) (mset (map do_mpr (ds_list ds)))) ha"
    using ok by (simp add: state_ok_def mprs_in_use_def)
  from apply_mpr_ok [OF this, of mpr w] show ?thesis
    using ok Domain_Set_Flooding_Mpr
    by (auto simp: nhdp_domain_set_flooding_mpr_def state_ok_def domains_ok_def mprs_in_use_def metrics_in_use_def)
qed

inductive domains_reachable :: "domains \<times> handlers \<Rightarrow> bool" where
  start: "domains_reachable nhdp_domain_init"
| step: "domains_reachable (ds, ha) \<Longrightarrow> domain_op_allowed op ha \<Longrightarrow> exec_domain_op op (ds, ha) = Some st \<Longrightarrow> domains_reachable st"

lemma domains_reachable_ok: "domains_reachable st \<Longrightarrow> state_ok st"
proof (induction rule: domains_reachable.induct)
  case start
  then show ?case
    using metric_class.empty_ok mpr_class.empty_ok
    by (simp add: nhdp_domain_init_def state_ok_def domains_ok_def handlers_ok_def metrics_in_use_def mprs_in_use_def new_domain_def)
      (simp add: add_refs_def empty_registry_def avl_init_def)
next
  case (step ds ha op st)
  then show ?case using exec_domain_op_ok [of ds ha op] by auto
qed

lemma reachable_step: "domains_reachable (ds, ha) \<Longrightarrow> domain_op_allowed op ha \<Longrightarrow> \<exists>st. exec_domain_op op (ds, ha) = Some st \<and> domains_reachable st"
  using exec_domain_op_ok [OF domains_reachable_ok] domains_reachable.step by blast

text \<open>
  C38. Whatever is registered, removed and configured: there are at most as many domains as the arrays of
  the database have room for, the i-th domain has the index i and an extension of its own; the reference
  count of a metric or MPR algorithm is the number of domains that use it, and a metric with the two
  callbacks is enabled exactly as long as a domain uses it.
\<close>

theorem handlers_counted:
  assumes "domains_reachable (ds, ha)"
  shows "length (ds_list ds) \<le> NHDP_MAXIMUM_DOMAINS \<and> map do_index (ds_list ds) = [0..<length (ds_list ds)]
    \<and> distinct (map do_ext (ds_list ds))
    \<and> rg_refs (ha_metrics ha) h = int (count (image_mset dm_handler (metrics_in_use ds)) h)
    \<and> rg_refs (ha_mprs ha) h = int (count (image_mset dp_handler (mprs_in_use ds)) h)
    \<and> (\<forall>p m. rg_store (ha_metrics ha) p = Some m \<longrightarrow> dm_enable m \<longrightarrow> dm_disable m \<longrightarrow>
         (switched_on metric_kind (Some p) (ha_calls ha) \<longleftrightarrow> m \<in># metrics_in_use ds))"
proof -
  have ok: "domains_ok ds" "registry_ok metric_kind (metrics_in_use ds) (ha_metrics ha) (ha_calls ha)"
    "registry_ok mpr_kind (mprs_in_use ds) (ha_mprs ha) (ha_calls ha)"
    using domains_reachable_ok [OF assms] by (simp_all add: state_ok_def handlers_ok_def)
  note D = metric_class.registry_okD [OF ok(2)]
  have "switched_on metric_kind (Some p) (ha_calls ha) \<longleftrightarrow> m \<in># metrics_in_use ds"
    if m: "rg_store (ha_metrics ha) p = Some m" "dm_enable m" "dm_disable m" for p m
  proof -
    have "switched_on metric_kind (Some p) (ha_calls ha) \<longleftrightarrow> (\<exists>x \<in># metrics_in_use ds. dm_handler x = Some p)"
      using D(7) [OF m(1)] m(2,3) D(1) [of "Some p"] by (auto simp: eq_commute [of "Some p"] simp del: count_image_mset)
    also have "\<dots> \<longleftrightarrow> m \<in># metrics_in_use ds"
      using D(2) D(3) [OF m(1)] m(1) by (fastforce simp: known_handler_def)
    finally show ?thesis .
  qed
  then show ?thesis
    using ok(1) D(1) [of h] mpr_class.registry_okD(1) [OF ok(3), of h] by (simp add: domains_ok_def)
qed

definition ex_metric :: domain_metric where
  "ex_metric = \<lparr>dm_handler = Some 50, dm_name = ''ff_dat_metric'', dm_incoming_link_start = 0, dm_outgoing_link_start = 0,
     dm_incoming_2hop_start = 0, dm_outgoing_2hop_start = 0, dm_no_default_handling = False, dm_enable = True, dm_disable = True\<rparr>"

definition ex_registered :: "domains \<times> handlers" where
  "ex_registered = the (exec_domain_op (Domain_Metric_Add 50 ex_metric) nhdp_domain_init)"

definition ex_configured :: "domains \<times> handlers" where
  "ex_configured = the (exec_domain_op (Domain_Configure True 1 ''*'' ''*'' 7) ex_registered)"

lemma ex_configured_reachable: "domains_reachable ex_registered" "domains_reachable ex_configured"
proof -
  obtain ds ha where i: "nhdp_domain_init = (ds, ha)" by fastforce
  have "domain_op_allowed (Domain_Metric_Add 50 ex_metric) (snd nhdp_domain_init)" by code_simp
  then show 1: "domains_reachable ex_registered"
    using reachable_step [of ds ha "Domain_Metric_Add 50 ex_metric"] domains_reachable.start unfolding ex_registered_def i by (auto simp del: exec_domain_op.simps)
  obtain ds ha where r: "ex_registered = (ds, ha)" by fastforce
  show "domains_reachable ex_configured"
    using reachable_step [of ds ha "Domain_Configure True 1 ''*'' ''*'' 7"] 1 unfolding ex_configured_def r by (auto simp del: exec_domain_op.simps)
qed

theorem handlers_counted_witness:
  "rg_refs (ha_metrics (snd ex_configured)) (Some 50) = 1 \<and> switched_on metric_kind (Some 50) (ha_calls (snd ex_configured))"
proof -
  obtain ds ha where r: "ex_configured = (ds, ha)" by fastforce
  have c: "int (count (image_mset dm_handler (metrics_in_use (fst ex_configured))) (Some 50)) = 1" by code_simp
  have s: "rg_store (ha_metrics (snd ex_configured)) 50 = Some (metric_defaults ex_metric)" by code_simp
  have m: "metric_defaults ex_metric \<in># metrics_in_use (fst ex_configured)" by code_simp
  have e: "dm_enable (metric_defaults ex_metric)" "dm_disable (metric_defaults ex_metric)" by code_simp+
  show ?thesis
    using handlers_counted [OF ex_configured_reachable(2) [unfolded r], of "Some 50"] c s m e unfolding r by auto
qed

text \<open>A metric that is removed stays the metric of every domain but the first one that uses it.\<close>

lemma metric_remove_leaves_users:
  "map_option (\<lambda>(ds, ha). (map (\<lambda>d. dm_handler (do_metric d)) (ds_list ds), avl_is_empty (rg_tree (ha_metrics ha))))
     (exec_domain_op (Domain_Configure True 2 ''*'' ''*'' 7) ex_configured \<bind> exec_domain_op (Domain_Metric_Remove 50))
   = Some ([None, Some 50], True)"
  by code_simp

subsection \<open>Round trips\<close>

lemma bit_test: "j < 8 \<Longrightarrow> (v AND push_bit j 1 \<noteq> 0) = bit v j" for v :: u8
proof
  assume "v AND push_bit j 1 \<noteq> 0"
  then obtain i where "bit (v AND push_bit j 1) i" by (metis bit_eqI bit_0_eq bot_apply bot_bool_def)
  then show "bit v j" by (auto simp: bit_simps)
next
  assume "j < 8" "bit v j"
  then have "bit (v AND push_bit j 1) j" by (simp add: bit_simps)
  then show "v AND push_bit j 1 \<noteq> 0" by (metis bit_0_eq bot_apply bot_bool_def)
qed

lemma domains_okD:
  assumes "domains_ok ds"
  shows "distinct (map do_ext (ds_list ds))" "distinct (map do_index (ds_list ds))" "d \<in> set (ds_list ds) \<Longrightarrow> do_index d < 4"
    "i < length (ds_list ds) \<Longrightarrow> do_index (ds_list ds ! i) = i" "length (ds_list ds) \<le> 4"
proof -
  note h = assms [unfolded domains_ok_def NHDP_MAXIMUM_DOMAINS_def]
  show "distinct (map do_ext (ds_list ds))" "distinct (map do_index (ds_list ds))" "length (ds_list ds) \<le> 4" using h by simp_all
  show i: "i < length (ds_list ds) \<Longrightarrow> do_index (ds_list ds ! i) = i" for i using h by (metis (no_types, lifting) nth_map nth_upt add_0)
  show "d \<in> set (ds_list ds) \<Longrightarrow> do_index d < 4" using i h by (metis in_set_conv_nth order_less_le_trans)
qed

lemma ext_inj: "distinct (map do_ext ds) \<Longrightarrow> d \<in> set ds \<Longrightarrow> e \<in> set ds \<Longrightarrow> do_ext d = do_ext e \<Longrightarrow> d = e"
  by (auto simp: distinct_map inj_on_def)

lemma get_by_ext:
  assumes "distinct (map do_ext (ds_list ds))" "d \<in> set (ds_list ds)"
  shows "nhdp_domain_get_by_ext (do_ext d) ds = Some d"
proof -
  obtain e where "nhdp_domain_get_by_ext (do_ext d) ds = Some e"
    using assms(2) by (cases "nhdp_domain_get_by_ext (do_ext d) ds") (auto simp: nhdp_domain_get_by_ext_def find_None_iff)
  moreover from this have "e \<in> set (ds_list ds)" "do_ext e = do_ext d" by (auto simp: nhdp_domain_get_by_ext_def find_Some_iff)
  ultimately show ?thesis using ext_inj [OF assms(1)] assms(2) by metis
qed

lemma get_by_ext_Some: "nhdp_domain_get_by_ext ext ds = Some d \<Longrightarrow> d \<in> set (ds_list ds) \<and> do_ext d = ext"
  by (auto simp: nhdp_domain_get_by_ext_def find_Some_iff)

lemma write_mpr_bits_byte:
  assumes "\<forall>d \<in> set ds. do_index d < 7" "buf \<noteq> []"
  shows "\<exists>v. write_mpr_bits n ds len buf = (if ds = [] then len else max len 1, buf[0 := v])
    \<and> (\<forall>j < 8. bit v j = (bit (buf ! 0) j \<or> (\<exists>d \<in> set ds. do_index d + 1 = j \<and> nd_neigh_is_mpr (nn_domaindata n (do_index d)))))"
  using assms
proof (induction ds arbitrary: len buf)
  case Nil
  then show ?case by (auto intro!: exI [of _ "buf ! 0"])
next
  case (Cons d ds)
  have i: "(do_index d + 1) div 8 = 0" "(do_index d + 1) mod 8 = do_index d + 1" using Cons.prems(1) by auto
  define b where "b = (if nd_neigh_is_mpr (nn_domaindata n (do_index d)) then buf[0 := buf ! 0 OR push_bit (do_index d + 1) 1] else buf)"
  have b: "b \<noteq> []" "b[0 := v] = buf[0 := v]" for v using Cons.prems(2) by (simp_all add: b_def)
  have "\<forall>d \<in> set ds. do_index d < 7" using Cons.prems(1) by simp
  from Cons.IH [OF this b(1), of "max len 1"] obtain v
    where v: "write_mpr_bits n ds (max len 1) b = (if ds = [] then max len 1 else max (max len 1) 1, buf[0 := v])"
    "\<forall>j < 8. bit v j = (bit (b ! 0) j \<or> (\<exists>d \<in> set ds. do_index d + 1 = j \<and> nd_neigh_is_mpr (nn_domaindata n (do_index d))))"
    unfolding b(2) by blast
  have "(if len < 0 + 1 then 0 + 1 else len) = max len 1" by simp
  then have "write_mpr_bits n (d # ds) len buf = write_mpr_bits n ds (max len 1) b"
    using Cons.prems(2) unfolding write_mpr_bits.simps i Let_def b_def by simp
  then have "write_mpr_bits n (d # ds) len buf = (max len 1, buf[0 := v])" using v(1) by simp
  moreover have "bit (b ! 0) j = (bit (buf ! 0) j \<or> do_index d + 1 = j \<and> nd_neigh_is_mpr (nn_domaindata n (do_index d)))" if "j < 8" for j
    using that Cons.prems(2) by (auto simp: b_def bit_simps)
  ultimately show ?case using v(2) by auto
qed

lemma set_local_mpr_fields [simp]:
  "nn_local_is_flooding_mpr (set_local_mpr b d n) = nn_local_is_flooding_mpr n"
  "nd_local_is_mpr (nn_domaindata (set_local_mpr b d n) i) = (if i = do_index d then b else nd_local_is_mpr (nn_domaindata n i))"
  by (simp_all add: set_local_mpr_def)

lemma clear_local_mpr:
  "nn_local_is_flooding_mpr (fold (set_local_mpr False) ds n) = nn_local_is_flooding_mpr n"
  "d \<in> set ds \<Longrightarrow> \<not> nd_local_is_mpr (nn_domaindata (fold (set_local_mpr False) ds n) (do_index d))"
proof -
  show "nn_local_is_flooding_mpr (fold (set_local_mpr False) ds n) = nn_local_is_flooding_mpr n"
    by (induction ds arbitrary: n) simp_all
  have keep: "\<not> nd_local_is_mpr (nn_domaindata n i) \<Longrightarrow> \<not> nd_local_is_mpr (nn_domaindata (fold (set_local_mpr False) ds n) i)" for n i ds
    by (induction ds arbitrary: n) simp_all
  show "d \<in> set ds \<Longrightarrow> \<not> nd_local_is_mpr (nn_domaindata (fold (set_local_mpr False) ds n) (do_index d))"
    by (induction ds arbitrary: n) (auto simp: keep)
qed

lemma read_mpr_bits_byte:
  assumes R: "distinct (map do_ext (ds_list R))" "distinct (map do_index (ds_list R))" and d: "d \<in> set (ds_list R)"
    and "distinct exts" "i + length exts \<le> 7"
  shows "nd_local_is_mpr (nn_domaindata (read_mpr_bits R [v] i exts n) (do_index d)) =
    (if do_ext d \<in> set exts then \<exists>k < length exts. exts ! k = do_ext d \<and> bit v (i + k + 1)
     else nd_local_is_mpr (nn_domaindata n (do_index d)))
    \<and> nn_local_is_flooding_mpr (read_mpr_bits R [v] i exts n) = nn_local_is_flooding_mpr n"
  using assms(4,5)
proof (induction exts arbitrary: i n)
  case (Cons ext exts)
  have i: "(i + 1) div 8 = 0" "(i + 1) mod 8 = i + 1" "i + 1 < 8" using Cons.prems(2) by auto
  let ?n = "case nhdp_domain_get_by_ext ext R of None \<Rightarrow> n | Some d \<Rightarrow> set_local_mpr (bit v (i + 1)) d n"
  have step: "read_mpr_bits R [v] i (ext # exts) n = read_mpr_bits R [v] (i + 1) exts ?n"
    unfolding read_mpr_bits.simps i(1,2) Let_def bit_test [OF i(3)] by (simp cong: option.case_cong)
  have n: "nd_local_is_mpr (nn_domaindata ?n (do_index d)) = (if do_ext d = ext then bit v (i + 1) else nd_local_is_mpr (nn_domaindata n (do_index d)))"
    "nn_local_is_flooding_mpr ?n = nn_local_is_flooding_mpr n"
  proof -
    show "nn_local_is_flooding_mpr ?n = nn_local_is_flooding_mpr n" by (simp split: option.split)
    show "nd_local_is_mpr (nn_domaindata ?n (do_index d)) = (if do_ext d = ext then bit v (i + 1) else nd_local_is_mpr (nn_domaindata n (do_index d)))"
    proof (cases "nhdp_domain_get_by_ext ext R")
      case None
      then have "do_ext d \<noteq> ext" using get_by_ext [OF R(1) d] by auto
      then show ?thesis using None by simp
    next
      case (Some e)
      note e = get_by_ext_Some [OF Some]
      show ?thesis
      proof (cases "d = e")
        case True
        then show ?thesis using e Some by simp
      next
        case False
        then have "do_ext d \<noteq> ext" "do_index d \<noteq> do_index e"
          using ext_inj [OF R(1) d, of e] e d R(2) by (auto simp: distinct_map dest: inj_onD)
        then show ?thesis using Some by simp
      qed
    qed
  qed
  have k: "(\<exists>k < length (ext # exts). (ext # exts) ! k = do_ext d \<and> bit v (i + k + 1)) \<longleftrightarrow>
      (ext = do_ext d \<and> bit v (i + 1)) \<or> (\<exists>k < length exts. exts ! k = do_ext d \<and> bit v (i + 1 + k + 1))"
    by (auto simp: less_Suc_eq_0_disj)
  have IH: "nd_local_is_mpr (nn_domaindata (read_mpr_bits R [v] (i + 1) exts ?n) (do_index d)) =
      (if do_ext d \<in> set exts then \<exists>k < length exts. exts ! k = do_ext d \<and> bit v (i + 1 + k + 1)
       else nd_local_is_mpr (nn_domaindata ?n (do_index d)))"
    "nn_local_is_flooding_mpr (read_mpr_bits R [v] (i + 1) exts ?n) = nn_local_is_flooding_mpr ?n"
    using Cons.IH [of "i + 1" ?n] Cons.prems by simp_all
  show ?case
  proof (cases "do_ext d = ext")
    case True
    then have "do_ext d \<notin> set exts" using Cons.prems(1) by simp
    moreover from this have "\<not> (\<exists>k < length exts. exts ! k = do_ext d \<and> bit v (i + 1 + k + 1))" by (metis nth_mem)
    ultimately show ?thesis unfolding step k IH n using True by auto
  next
    case False
    then show ?thesis unfolding step k IH n by simp
  qed
qed simp

text \<open>
  The list of domain types of a HELLO: \<open>_cb_addMessageTLVs\<close> of the writer adds the MPR types TLV when
  the node has more than one domain. What the reader makes of it: it takes the number of domains from the
  presence of the TLV, but their types from its own list.
\<close>

definition hello_mprtypes :: "domains \<Rightarrow> u8 list option option" where
  "hello_mprtypes ds = do {
     mprtypes \<leftarrow> nhdp_domain_encode_mprtypes_tlvvalue ds NHDP_MAXIMUM_DOMAINS;
     Some (if 1 < length mprtypes then Some mprtypes else None)
   }"

lemma write_exts_all:
  "length buf + length ds \<le> sz \<Longrightarrow> write_exts sz ds buf = Some (buf @ map do_ext ds)"
proof (induction ds arbitrary: buf)
  case (Cons d ds)
  have "ds = []" if "sz \<le> length (buf @ [do_ext d])" using that Cons.prems by (cases ds) auto
  then show ?case using Cons.IH [of "buf @ [do_ext d]"] Cons.prems by (auto simp: Let_def)
qed simp

lemma hello_mprtypes_sent:
  assumes "domains_ok S"
  shows "hello_mprtypes S = Some (if 1 < length (ds_list S) then Some (map do_ext (ds_list S)) else None)"
  using assms by (simp add: hello_mprtypes_def nhdp_domain_encode_mprtypes_tlvvalue_def write_exts_all domains_ok_def)

definition types_read :: "domains \<Rightarrow> domains \<Rightarrow> nat" where
  "types_read S R = (if 1 < length (ds_list S) then length (ds_list R) else 1)"

lemma hello_mprtypes_read:
  assumes S: "domains_ok S" and R: "domains_ok R" "ds_list R \<noteq> []"
  shows "hello_mprtypes S \<bind> nhdp_domain_process_mprtypes_tlv R NHDP_MAXIMUM_DOMAINS
    = Some (map do_ext (take (types_read S R) (ds_list R)))"
  using R by (cases "ds_list R")
    (auto simp: hello_mprtypes_sent [OF S] nhdp_domain_process_mprtypes_tlv_def write_exts_all domains_ok_def
      types_read_def NHDP_MAXIMUM_DOMAINS_def)

text \<open>The place of a domain in the list of types is its index.\<close>

lemma type_place:
  assumes R: "domains_ok R" and d: "d \<in> set (ds_list R)"
  shows "do_ext d \<in> set (map do_ext (take c (ds_list R))) \<longleftrightarrow> do_index d < c"
    and "k < length (map do_ext (take c (ds_list R))) \<Longrightarrow>
      map do_ext (take c (ds_list R)) ! k = do_ext d \<longleftrightarrow> k = do_index d"
proof -
  note D = domains_okD [OF R]
  obtain i where i: "i < length (ds_list R)" "d = ds_list R ! i" using d by (auto simp: in_set_conv_nth)
  have di: "do_index d = i" using D(4) i by simp
  have inj: "do_ext (ds_list R ! k) = do_ext d \<longleftrightarrow> k = i" if "k < length (ds_list R)" for k
    using nth_eq_iff_index_eq [OF D(1), of k i] that i by simp
  show "do_ext d \<in> set (map do_ext (take c (ds_list R))) \<longleftrightarrow> do_index d < c"
  proof -
    have "do_ext d \<in> set (map do_ext (take c (ds_list R)))
        \<longleftrightarrow> (\<exists>k < length (map do_ext (take c (ds_list R))). map do_ext (take c (ds_list R)) ! k = do_ext d)"
      by (rule in_set_conv_nth)
    also have "\<dots> \<longleftrightarrow> (\<exists>k < length (ds_list R). k < c \<and> do_ext (ds_list R ! k) = do_ext d)" by auto
    also have "\<dots> \<longleftrightarrow> i < c" using inj i(1) by blast
    finally show ?thesis by (simp add: di)
  qed
  show "k < length (map do_ext (take c (ds_list R))) \<Longrightarrow>
      map do_ext (take c (ds_list R)) ! k = do_ext d \<longleftrightarrow> k = do_index d"
    using inj by (simp add: di)
qed

lemma index_used:
  assumes "domains_ok S"
  shows "(\<exists>e \<in> set (ds_list S). do_index e = k) \<longleftrightarrow> k < length (ds_list S)"
proof
  show "k < length (ds_list S) \<Longrightarrow> \<exists>e \<in> set (ds_list S). do_index e = k"
    using domains_okD(4) [OF assms, of k] nth_mem [of k "ds_list S"] by blast
qed (use domains_okD(4) [OF assms] in \<open>auto simp: in_set_conv_nth\<close>)

definition mpr_sent :: "domains \<Rightarrow> nhdp_neighbor \<Rightarrow> u8 \<Rightarrow> bool" where
  "mpr_sent ds n ext \<longleftrightarrow> (\<exists>e \<in> set (ds_list ds). do_ext e = ext \<and> nd_neigh_is_mpr (nn_domaindata n (do_index e)))"

text \<open>Where the domains of two nodes stand at the same place for an extension.\<close>

definition same_place :: "domains \<Rightarrow> nhdp_domain \<Rightarrow> bool" where
  "same_place S d \<longleftrightarrow> (\<forall>e \<in> set (ds_list S). do_index e = do_index d \<longleftrightarrow> do_ext e = do_ext d)"

lemma same_place_at:
  assumes S: "domains_ok S" and p: "same_place S d"
  shows "nhdp_domain_get_by_ext (do_ext d) S
    = (if do_index d < length (ds_list S) then Some (ds_list S ! do_index d) else None)"
proof -
  note D = domains_okD [OF S]
  show ?thesis
  proof (cases "do_index d < length (ds_list S)")
    case True
    have "ds_list S ! do_index d \<in> set (ds_list S)" using True by simp
    moreover from this have "do_ext (ds_list S ! do_index d) = do_ext d"
      using p D(4) [OF True] unfolding same_place_def by blast
    ultimately show ?thesis using get_by_ext [OF D(1), of "ds_list S ! do_index d"] True by simp
  next
    case False
    have "do_ext e \<noteq> do_ext d" if e: "e \<in> set (ds_list S)" for e
    proof -
      obtain k where "k < length (ds_list S)" "e = ds_list S ! k" using e unfolding in_set_conv_nth by blast
      then have "do_index e \<noteq> do_index d" using D(4) [of k] False by auto
      then show ?thesis using p e unfolding same_place_def by blast
    qed
    then show ?thesis using False by (auto simp: nhdp_domain_get_by_ext_def find_None_iff)
  qed
qed

lemma mpr_sent_same_place:
  assumes S: "domains_ok S" and p: "same_place S d"
  shows "mpr_sent S m (do_ext d) \<longleftrightarrow> do_index d < length (ds_list S) \<and> nd_neigh_is_mpr (nn_domaindata m (do_index d))"
proof -
  note D = domains_okD [OF S]
  have "mpr_sent S m (do_ext d) \<longleftrightarrow> (\<exists>e \<in> set (ds_list S). do_index e = do_index d \<and> nd_neigh_is_mpr (nn_domaindata m (do_index d)))"
    using p unfolding mpr_sent_def same_place_def by (metis (no_types, lifting))
  also have "\<dots> \<longleftrightarrow> do_index d < length (ds_list S) \<and> nd_neigh_is_mpr (nn_domaindata m (do_index d))"
    using index_used [OF S, of "do_index d"] by blast
  finally show ?thesis .
qed

text \<open>What is written: one byte, the flag of the flooding domain first.\<close>

lemma mpr_written:
  assumes S: "domains_ok S" "ds_list S \<noteq> []" and sz: "0 < sz"
  shows "\<exists>v buf. nhdp_domain_encode_mpr_tlvvalue S sz m = Some (1, buf) \<and> take 1 buf = [v]
    \<and> bit v 0 = nn_neigh_is_flooding_mpr m
    \<and> (\<forall>k < 4. bit v (k + 1) = (k < length (ds_list S) \<and> nd_neigh_is_mpr (nn_domaindata m k)))"
proof -
  note D = domains_okD [OF S(1)]
  define b0 where "b0 = (replicate sz (0 :: u8))[0 := if nn_neigh_is_flooding_mpr m then RFC7181_MPR_FLOODING else 0]"
  have b0: "b0 \<noteq> []" "bit (b0 ! 0) j = (j = 0 \<and> nn_neigh_is_flooding_mpr m)" for j
    using sz by (auto simp: b0_def RFC7181_MPR_FLOODING_def bit_1_iff)
  have e: "nhdp_domain_encode_mpr_tlvvalue S sz m = Some (write_mpr_bits m (ds_list S) 0 b0)"
    using sz by (auto simp: nhdp_domain_encode_mpr_tlvvalue_def b0_def RFC7181_MPR_FLOODING_def list_update_id nth_replicate
        intro!: arg_cong [of _ _ "write_mpr_bits m (ds_list S) 0"] list_update_same_conv [THEN iffD2, symmetric])
  have "\<forall>d \<in> set (ds_list S). do_index d < 7" using D(3) by fastforce
  from write_mpr_bits_byte [OF this b0(1), of m 0] S(2)
  obtain v where v: "write_mpr_bits m (ds_list S) 0 b0 = (1, b0[0 := v])"
    "\<forall>j < 8. bit v j = (bit (b0 ! 0) j \<or> (\<exists>d \<in> set (ds_list S). do_index d + 1 = j \<and> nd_neigh_is_mpr (nn_domaindata m (do_index d))))"
    by auto
  have "bit v (k + 1) = (k < length (ds_list S) \<and> nd_neigh_is_mpr (nn_domaindata m k))" if "k < 4" for k
  proof -
    have "bit v (k + 1) = (\<exists>d \<in> set (ds_list S). do_index d = k \<and> nd_neigh_is_mpr (nn_domaindata m k))"
      using v(2) [rule_format, of "k + 1"] that by (auto simp: b0(2))
    also have "\<dots> = (k < length (ds_list S) \<and> nd_neigh_is_mpr (nn_domaindata m k))"
      using index_used [OF S(1), of k] by blast
    finally show ?thesis .
  qed
  moreover have "take 1 (b0[0 := v]) = [v]" using b0(1) by (cases b0) auto
  moreover have "bit v 0 = nn_neigh_is_flooding_mpr m" using v(2) [rule_format, of 0] by (simp add: b0(2))
  ultimately show ?thesis using e v(1) by auto
qed

text \<open>
  C39. The MPR TLV of a HELLO: a node writes its MPR flags for a neighbor, and the neighbor reads them with the
  list of types that it makes of the message. The flooding flag arrives. For every domain of the reader
  the flag arrives that the sender has for its own domain at the same place, and none when the sender has
  no domain there; it is the flag of the domain with the same extension when the two nodes have this
  domain at the same place. The extensions that the sender puts into the message have no influence.
\<close>

theorem mpr_tlv_roundtrip:
  assumes S: "domains_ok S" "ds_list S \<noteq> []" and R: "domains_ok R" "ds_list R \<noteq> []" and sz: "0 < sz"
  shows "\<exists>exts len buf n'. hello_mprtypes S \<bind> nhdp_domain_process_mprtypes_tlv R NHDP_MAXIMUM_DOMAINS = Some exts
    \<and> nhdp_domain_encode_mpr_tlvvalue S sz m = Some (len, buf)
    \<and> nhdp_domain_process_mpr_tlv R exts n (Some (take len buf)) = Some n'
    \<and> nn_local_is_flooding_mpr n' = nn_neigh_is_flooding_mpr m
    \<and> (\<forall>d \<in> set (ds_list R). nd_local_is_mpr (nn_domaindata n' (do_index d)) =
         (do_index d < length (ds_list S) \<and> nd_neigh_is_mpr (nn_domaindata m (do_index d)))
       \<and> (same_place S d \<longrightarrow> nd_local_is_mpr (nn_domaindata n' (do_index d)) = mpr_sent S m (do_ext d)))"
proof -
  note D = domains_okD [OF S(1)] and E = domains_okD [OF R(1)]
  define exts where "exts = map do_ext (take (types_read S R) (ds_list R))"
  obtain v buf where w: "nhdp_domain_encode_mpr_tlvvalue S sz m = Some (1, buf)" "take 1 buf = [v]" "bit v 0 = nn_neigh_is_flooding_mpr m"
    "\<forall>k < 4. bit v (k + 1) = (k < length (ds_list S) \<and> nd_neigh_is_mpr (nn_domaindata m k))"
    using mpr_written [OF S sz] by blast
  let ?n = "fold (set_local_mpr False) (ds_list R) (n\<lparr>nn_local_is_flooding_mpr := False\<rparr>)\<lparr>nn_local_is_flooding_mpr := (v AND RFC7181_MPR_FLOODING \<noteq> 0)\<rparr>"
  let ?r = "read_mpr_bits R [v] 0 exts ?n"
  have f: "(v AND RFC7181_MPR_FLOODING \<noteq> 0) = nn_neigh_is_flooding_mpr m"
    using bit_test [of 0 v] w(3) by (simp add: RFC7181_MPR_FLOODING_def)
  have len: "0 + length exts \<le> 7" using E(5) by (simp add: exts_def)
  have dist: "distinct exts" using E(1) by (simp add: exts_def take_map [symmetric])
  note read = read_mpr_bits_byte [OF E(1,2) _ dist len, of _ v ?n]
  have m: "nd_local_is_mpr (nn_domaindata ?r (do_index d)) =
      (do_index d < length (ds_list S) \<and> nd_neigh_is_mpr (nn_domaindata m (do_index d)))" if d: "d \<in> set (ds_list R)" for d
  proof (cases "do_index d < types_read S R")
    case True
    have p: "do_ext d \<in> set exts" using type_place(1) [OF R(1) d] True by (simp add: exts_def)
    have "do_index d < length (ds_list R)" using d E(4) by (auto simp: in_set_conv_nth)
    then have l: "do_index d < length exts" using True by (simp add: exts_def)
    have "(\<exists>k < length exts. exts ! k = do_ext d \<and> bit v (0 + k + 1)) = bit v (do_index d + 1)"
      using type_place(2) [OF R(1) d, of _ "types_read S R"] l unfolding exts_def by auto
    then show ?thesis using conjunct1 [OF read [OF d]] p w(4) E(3) [OF d] by simp
  next
    case False
    then have "do_ext d \<notin> set exts" using type_place(1) [OF R(1) d] by (simp add: exts_def)
    then have "\<not> nd_local_is_mpr (nn_domaindata ?r (do_index d))"
      using conjunct1 [OF read [OF d]] clear_local_mpr(2) [OF d, of "n\<lparr>nn_local_is_flooding_mpr := False\<rparr>"] by simp
    moreover have "do_index d < length (ds_list R)" using d E(4) by (auto simp: in_set_conv_nth)
    then have "length (ds_list S) \<le> do_index d" using False by (auto simp: types_read_def split: if_splits)
    ultimately show ?thesis by simp
  qed
  have "nn_local_is_flooding_mpr ?r = nn_neigh_is_flooding_mpr m"
    using R(2) conjunct2 [OF read [of "hd (ds_list R)"]] f by simp
  moreover have "nhdp_domain_process_mpr_tlv R exts n (Some (take 1 buf)) = Some ?r"
    using w(2) by (simp add: nhdp_domain_process_mpr_tlv_def)
  moreover have "hello_mprtypes S \<bind> nhdp_domain_process_mprtypes_tlv R NHDP_MAXIMUM_DOMAINS = Some exts"
    unfolding exts_def by (rule hello_mprtypes_read [OF S(1) R])
  ultimately show ?thesis using w(1) m mpr_sent_same_place [OF S(1)] by blast
qed

text \<open>The willingness of the domain with an index, in its half of its byte.\<close>

definition nibble :: "u8 list \<Rightarrow> nat \<Rightarrow> u8" where
  "nibble buf i = (if i mod 2 = 0 then drop_bit 4 (buf ! ((i + 1) div 2)) else buf ! ((i + 1) div 2) AND 15)"

definition nibble_bits :: "nat \<Rightarrow> u8 \<Rightarrow> u8" where
  "nibble_bits i w = (if i mod 2 = 0 then push_bit 4 (w AND 15) else w AND 15)"

lemma bit_low: "bit (w AND 15) j \<Longrightarrow> j < 4" for w :: u8
proof -
  assume "bit (w AND 15) j"
  moreover have m: "(15 :: u8) = mask 4" by (simp add: mask_eq_decr_exp)
  ultimately have "bit (w AND mask 4) j" by (simp only: m)
  then show "j < 4" by (auto simp only: bit_and_iff bit_mask_iff)
qed

lemma low_bits: "x AND 15 = take_bit 4 x" for x :: u8
  by (simp add: take_bit_eq_mask mask_eq_decr_exp)

lemma nibble_parts:
  fixes x y :: u8
  assumes y: "\<And>j. bit y j \<Longrightarrow> j < 4"
  shows "drop_bit 4 (x OR y) = drop_bit 4 x" "take_bit 4 (x OR push_bit 4 y) = take_bit 4 x"
    "drop_bit 4 (x OR push_bit 4 y) = drop_bit 4 x OR y" "take_bit 4 (x OR y) = take_bit 4 x OR y"
  by (rule bit_word_eqI; auto simp: bit_simps dest: y)+

lemmas nibble_split = nibble_parts(1,3) nibble_parts(2,4) [folded low_bits]

lemma nibble_update:
  assumes "(i + 1) div 2 < length buf"
  shows "nibble (buf[(i + 1) div 2 := buf ! ((i + 1) div 2) OR nibble_bits i w]) j =
    (if i = j then nibble buf i OR (w AND 15) else nibble buf j)"
proof -
  define y where "y = w AND 15"
  have y: "bit y j \<Longrightarrow> j < 4" for j unfolding y_def by (rule bit_low)
  note sp = nibble_split [OF y]
  show ?thesis
  proof (cases "(i + 1) div 2 = (j + 1) div 2")
    case same: True
    show ?thesis
    proof (cases "i = j")
      case True
      show ?thesis using assms unfolding True nibble_def nibble_bits_def y_def [symmetric] by (simp add: sp del: drop_bit_or)
    next
      case False
      then have p: "(j mod 2 = 0) = (i mod 2 \<noteq> 0)" using same by presburger
      show ?thesis using assms False unfolding nibble_def nibble_bits_def y_def [symmetric] same p by (simp add: sp del: drop_bit_or)
    qed
  next
    case False
    then have "i \<noteq> j" by auto
    then show ?thesis using False by (simp add: nibble_def)
  qed
qed

lemma write_willingness_nibbles:
  assumes "\<forall>d \<in> set ds. (do_index d + 1) div 2 < length buf" "length buf < 256" "distinct (map do_index ds)" "l < 256"
  shows "\<exists>L buf'. write_willingness ds (of_nat l) buf = (of_nat L, buf') \<and> length buf' = length buf \<and> l \<le> L
    \<and> (L = l \<or> L \<le> length buf) \<and> (\<forall>d \<in> set ds. (do_index d + 1) div 2 < L) \<and> buf' ! 0 AND 15 = buf ! 0 AND 15
    \<and> (\<forall>j. nibble buf' j = (case List.find (\<lambda>d. do_index d = j) ds of None \<Rightarrow> nibble buf j | Some d \<Rightarrow> nibble buf j OR (do_local_willingness d AND 15)))"
  using assms
proof (induction ds arbitrary: l buf)
  case Nil
  then show ?case by auto
next
  case (Cons d ds)
  let ?i = "do_index d" let ?x = "(?i + 1) div 2" let ?w = "do_local_willingness d"
  define b where "b = buf[?x := buf ! ?x OR nibble_bits ?i ?w]"
  define m where "m = (if l < ?x + 1 then ?x + 1 else l)"
  have x: "?x < length buf" using Cons.prems(1) by simp
  have m: "m < 256" "l \<le> m" "m = l \<or> m \<le> length buf" "?x < m" using x Cons.prems(2,4) by (auto simp: m_def)
  have "((of_nat l :: u64) < of_nat (?x + 1)) = (l < ?x + 1)"
    using x Cons.prems(2,4) by (intro of_nat_word_less_iff [THEN trans]) (simp add: take_bit_nat_eq_self)
  then have o: "(if (of_nat l :: u64) < of_nat (?x + 1) then of_nat (?x + 1) else of_nat l) = (of_nat m :: u64)"
    unfolding m_def by (simp split del: if_split cong: if_cong) (simp split: if_split)
  have w: "(if ?i mod 2 = 0 then push_bit RFC7181_WILLINGNESS_SHIFT (?w AND RFC7181_WILLINGNESS_MASK) else ?w AND RFC7181_WILLINGNESS_MASK)
      = nibble_bits ?i ?w"
    by (simp add: nibble_bits_def RFC7181_WILLINGNESS_MASK_def RFC7181_WILLINGNESS_SHIFT_def)
  have step: "write_willingness (d # ds) (of_nat l) buf = write_willingness ds (of_nat m) b"
    using x unfolding write_willingness.simps Let_def o w b_def by simp
  obtain L buf' where IH: "write_willingness ds (of_nat m) b = (of_nat L, buf')" "length buf' = length b" "m \<le> L" "L = m \<or> L \<le> length b"
    "\<forall>d \<in> set ds. (do_index d + 1) div 2 < L" "buf' ! 0 AND 15 = b ! 0 AND 15"
    "\<forall>j. nibble buf' j = (case List.find (\<lambda>d. do_index d = j) ds of None \<Rightarrow> nibble b j | Some d \<Rightarrow> nibble b j OR (do_local_willingness d AND 15))"
    using Cons.IH [of b m] Cons.prems m(1) by (auto simp: b_def)
  have l: "length b = length buf" by (simp add: b_def)
  have nb: "nibble b j = (if ?i = j then nibble buf ?i OR (?w AND 15) else nibble buf j)" for j
    unfolding b_def by (rule nibble_update [OF x])
  have "List.find (\<lambda>d. do_index d = ?i) ds = None" using Cons.prems(3) by (auto simp: find_None_iff image_iff)
  then have "nibble buf' j = (case List.find (\<lambda>d. do_index d = j) (d # ds) of None \<Rightarrow> nibble buf j | Some d \<Rightarrow> nibble buf j OR (do_local_willingness d AND 15))" for j
    using IH(7) nb by (auto split: option.split)
  moreover have "b ! 0 AND 15 = buf ! 0 AND 15"
  proof (cases "?x = 0")
    case True
    then have "?i = 0" by presburger
    then show ?thesis using x nibble_split(3) [where y = "?w AND 15" and x = "buf ! 0", OF bit_low] by (simp add: b_def nibble_bits_def)
  qed (simp add: b_def)
  moreover have "L = l \<or> L \<le> length buf" using IH(4) m(3) l by auto
  ultimately show ?case
    using step IH(1,2,3,5,6) m l by (intro exI [of _ L] exI [of _ buf']) auto
qed

text \<open>The domains after reading: only the temporary willingness has changed.\<close>

lemma read_willingness_nibbles:
  assumes "distinct exts" "distinct (map do_ext (ds_list ds))"
    "\<And>k d. k < length exts \<Longrightarrow> d \<in> set (ds_list ds) \<Longrightarrow> do_ext d = exts ! k \<Longrightarrow> do_index d mod 2 = (i + k) mod 2"
  shows "ds_flooding (read_willingness val i exts ds) = ds_flooding ds
    \<and> ds_list (read_willingness val i exts ds) = map (\<lambda>d.
        if do_ext d \<in> set exts \<and> (i + length (takeWhile (\<lambda>e. e \<noteq> do_ext d) exts) + 1) div 2 < length val
        then d\<lparr>do_tmp_willingness := nibble val (i + length (takeWhile (\<lambda>e. e \<noteq> do_ext d) exts))\<rparr> else d) (ds_list ds)"
  using assms
proof (induction exts arbitrary: i ds)
  case (Cons ext exts)
  let ?f = "\<lambda>d. d\<lparr>do_tmp_willingness := nibble val i\<rparr>"
  let ?in = "(i + 1) div 2 < length val"
  define ds1 where "ds1 = (case nhdp_domain_get_by_ext ext ds of None \<Rightarrow> ds
    | Some d \<Rightarrow> if ?in then ds\<lparr>ds_list := update_by_ext ext ?f (ds_list ds)\<rparr> else ds)"
  have par: "do_index d mod 2 = i mod 2" if "nhdp_domain_get_by_ext ext ds = Some d" for d
    using Cons.prems(3) [of 0 d] get_by_ext_Some [OF that] by auto
  have step: "read_willingness val i (ext # exts) ds = read_willingness val (i + 1) exts ds1"
    unfolding read_willingness.simps ds1_def using par
    by (auto simp: Let_def nibble_def RFC7181_WILLINGNESS_SHIFT_def RFC7181_WILLINGNESS_MASK_def split: option.split
        intro!: arg_cong [of _ _ "read_willingness val (Suc i) exts"])
  have l1: "ds_list ds1 = map (\<lambda>d. if do_ext d = ext \<and> ?in then ?f d else d) (ds_list ds)"
  proof (cases "nhdp_domain_get_by_ext ext ds")
    case None
    then have "\<forall>d \<in> set (ds_list ds). do_ext d \<noteq> ext" by (auto simp: nhdp_domain_get_by_ext_def find_None_iff)
    then show ?thesis using None by (simp add: ds1_def map_idI)
  next
    case (Some d)
    have "distinct (map do_ext xs) \<Longrightarrow> update_by_ext ext ?f xs = map (\<lambda>d. if do_ext d = ext then ?f d else d) xs" for xs
    proof (induction xs)
      case (Cons x xs)
      have "do_ext x = ext \<Longrightarrow> map (\<lambda>d. if do_ext d = ext then ?f d else d) xs = xs"
        using Cons.prems by (intro map_idI) (auto simp: image_iff)
      then show ?case using Cons by auto
    qed simp
    then show ?thesis using Some Cons.prems(2) by (simp add: ds1_def)
  qed
  have f1: "ds_flooding ds1 = ds_flooding ds" by (simp add: ds1_def split: option.split)
  have e1: "map do_ext (ds_list ds1) = map do_ext (ds_list ds)" by (simp add: l1)
  have IH: "ds_flooding (read_willingness val (i + 1) exts ds1) = ds_flooding ds1
    \<and> ds_list (read_willingness val (i + 1) exts ds1) = map (\<lambda>d.
        if do_ext d \<in> set exts \<and> (i + 1 + length (takeWhile (\<lambda>e. e \<noteq> do_ext d) exts) + 1) div 2 < length val
        then d\<lparr>do_tmp_willingness := nibble val (i + 1 + length (takeWhile (\<lambda>e. e \<noteq> do_ext d) exts))\<rparr> else d) (ds_list ds1)"
  proof (rule Cons.IH)
    show "do_index d mod 2 = (i + 1 + k) mod 2" if "k < length exts" "d \<in> set (ds_list ds1)" "do_ext d = exts ! k" for k d
      using Cons.prems(3) [of "Suc k"] that by (auto simp: l1 split: if_splits)
  qed (use Cons.prems e1 in \<open>auto\<close>)
  show ?case
    unfolding step using IH Cons.prems(1) f1 by (auto simp: l1)
qed simp

lemma store_willingness_fields:
  assumes "distinct (map do_index ds)"
  shows "nn_flooding_willingness (fold store_willingness ds n) = nn_flooding_willingness n"
    "d \<in> set ds \<Longrightarrow> nd_willingness (nn_domaindata (fold store_willingness ds n) (do_index d)) = do_tmp_willingness d"
proof -
  show "nn_flooding_willingness (fold store_willingness ds n) = nn_flooding_willingness n"
    by (induction ds arbitrary: n) (simp_all add: store_willingness_def)
  have keep: "i \<notin> do_index ` set ds \<Longrightarrow> nn_domaindata (fold store_willingness ds n) i = nn_domaindata n i" for n i ds
    by (induction ds arbitrary: n) (simp_all add: store_willingness_def)
  show "d \<in> set ds \<Longrightarrow> nd_willingness (nn_domaindata (fold store_willingness ds n) (do_index d)) = do_tmp_willingness d"
    using assms by (induction ds arbitrary: n) (auto simp: keep store_willingness_def)
qed

definition willingness_sent :: "domains \<Rightarrow> u8 \<Rightarrow> u8" where
  "willingness_sent ds ext = (case nhdp_domain_get_by_ext ext ds of
     None \<Rightarrow> RFC7181_WILLINGNESS_NEVER | Some e \<Rightarrow> do_local_willingness e AND RFC7181_WILLINGNESS_MASK)"

lemma first_position: "x \<in> set xs \<Longrightarrow> length (takeWhile (\<lambda>e. e \<noteq> x) xs) < length xs \<and> xs ! length (takeWhile (\<lambda>e. e \<noteq> x) xs) = x"
  by (induction xs) auto

lemma nibble_four_bits:
  assumes "f < (16 :: u8)"
  shows "f AND 15 = f" "drop_bit 4 f = 0"
proof -
  have "f AND mask 4 = f" using assms by (intro less_mask_eq) simp
  then show 1: "f AND 15 = f" by (simp add: mask_eq_decr_exp)
  have "drop_bit 4 (f AND 15) = 0" by simp
  then show "drop_bit 4 f = 0" using 1 by metis
qed

text \<open>What is written: the flooding willingness, then one half of a byte per domain.\<close>

lemma willingness_written:
  assumes S: "domains_ok S" "ds_list S \<noteq> []" "do_local_willingness (ds_flooding S) < 16" and sz: "3 \<le> sz" "sz < 256"
  shows "\<exists>len buf. nhdp_domain_encode_willingness_tlvvalue S sz = Some (len, buf)
    \<and> length (ds_list S) div 2 < length (take (unat len) buf)
    \<and> (take (unat len) buf) ! 0 AND 15 = do_local_willingness (ds_flooding S)
    \<and> (\<forall>k. (k + 1) div 2 < length (take (unat len) buf) \<longrightarrow> k < 4 \<longrightarrow> nibble (take (unat len) buf) k =
         (if k < length (ds_list S) then do_local_willingness (ds_list S ! k) AND 15 else 0))"
proof -
  note D = domains_okD [OF S(1)]
  define f where "f = do_local_willingness (ds_flooding S)"
  note f15 = nibble_four_bits [OF S(3), folded f_def]
  define b0 where "b0 = (replicate sz (0 :: u8))[0 := f]"
  have b0: "length b0 = sz" "b0 ! 0 = f" using sz by (simp_all add: b0_def)
  have z: "nibble b0 j = 0" if "j < 4" for j
  proof -
    have "b0 ! k = (if k = 0 then f else 0)" if "k < 3" for k using that sz by (simp add: b0_def nth_list_update)
    moreover have "(j + 1) div 2 < 3" "(j + 1) div 2 = 0 \<longleftrightarrow> j = 0" using that by presburger+
    ultimately show ?thesis by (simp add: nibble_def f15)
  qed
  have "\<forall>d \<in> set (ds_list S). (do_index d + 1) div 2 < length b0" using D(3) sz b0(1) by fastforce
  from write_willingness_nibbles [OF this _ D(2), of 0] sz b0(1)
  obtain L buf where w: "write_willingness (ds_list S) 0 b0 = (of_nat L, buf)" "length buf = sz" "L = 0 \<or> L \<le> sz"
    "\<forall>d \<in> set (ds_list S). (do_index d + 1) div 2 < L" "buf ! 0 AND 15 = f"
    "\<forall>j. nibble buf j = (case List.find (\<lambda>d. do_index d = j) (ds_list S) of None \<Rightarrow> nibble b0 j
       | Some d \<Rightarrow> nibble b0 j OR (do_local_willingness d AND 15))"
    using f15 b0(2) by auto
  let ?n = "length (ds_list S)"
  have n: "0 < ?n" using S(2) by simp
  have "ds_list S ! (?n - 1) \<in> set (ds_list S)" using n by simp
  then have L: "?n div 2 < L" using w(4) D(4) [of "?n - 1"] n by (metis Suc_eq_plus1 Suc_pred' diff_less less_numeral_extra(1))
  have u: "unat (of_nat L :: u64) = L" using w(3) sz by (auto simp: unat_of_nat)
  have "nibble (take L buf) k = (if k < ?n then do_local_willingness (ds_list S ! k) AND 15 else 0)"
    if k: "(k + 1) div 2 < L" "k < 4" for k
  proof -
    have cut: "nibble (take L buf) k = nibble buf k" using k(1) by (simp add: nibble_def)
    show ?thesis
    proof (cases "k < ?n")
      case True
      have "do_index (ds_list S ! j) \<noteq> k" if "j < k" for j using D(4) [of j] that True by simp
      then have "List.find (\<lambda>d. do_index d = k) (ds_list S) = Some (ds_list S ! k)"
        unfolding find_Some_iff using True D(4) [OF True] by blast
      then show ?thesis using w(6) z [OF k(2)] True cut by simp
    next
      case False
      then have "List.find (\<lambda>d. do_index d = k) (ds_list S) = None"
        unfolding find_None_iff using index_used [OF S(1), of k] by blast
      then show ?thesis using w(6) z [OF k(2)] False cut by simp
    qed
  qed
  moreover have "nhdp_domain_encode_willingness_tlvvalue S sz = Some (of_nat L, buf)"
    using w(1) sz by (simp add: nhdp_domain_encode_willingness_tlvvalue_def b0_def f_def)
  moreover have "?n div 2 < length (take L buf)" "take L buf ! 0 AND 15 = f" using L w(2,3,5) by auto
  ultimately show ?thesis unfolding f_def
    by (intro exI [of _ "of_nat L"] exI [of _ buf]) (simp add: u w(2))
qed

text \<open>
  What is stored after reading with a list of the reader's own types: for a domain in the list the half of a
  byte at its place, as far as the value reaches, and \<open>NEVER\<close> for the others.
\<close>

lemma willingness_stored:
  assumes R: "domains_ok R" and v: "v \<noteq> []" and exts: "exts = map do_ext (take c (ds_list R))"
  shows "\<exists>R'. nhdp_domain_process_willingness_tlv exts (Some v) R = Some R'
    \<and> nn_flooding_willingness (nhdp_domain_store_willingness R' n) = v ! 0 AND 15
    \<and> (\<forall>d \<in> set (ds_list R). nd_willingness (nn_domaindata (nhdp_domain_store_willingness R' n) (do_index d)) =
        (if do_index d < c \<and> (do_index d + 1) div 2 < length v then nibble v (do_index d) else RFC7181_WILLINGNESS_NEVER))"
proof -
  note E = domains_okD [OF R]
  define R1 where "R1 = R\<lparr>ds_list := map (\<lambda>d. d\<lparr>do_tmp_willingness := RFC7181_WILLINGNESS_NEVER\<rparr>) (ds_list R),
    ds_flooding := (ds_flooding R)\<lparr>do_tmp_willingness := v ! 0 AND 15\<rparr>\<rparr>"
  define R' where "R' = read_willingness v 0 exts R1"
  define g where "g = (\<lambda>d :: nhdp_domain.
      if do_ext d \<in> set exts \<and> (0 + length (takeWhile (\<lambda>e. e \<noteq> do_ext d) exts) + 1) div 2 < length v
      then d\<lparr>do_tmp_willingness := nibble v (0 + length (takeWhile (\<lambda>e. e \<noteq> do_ext d) exts))\<rparr> else d)"
  have l1: "ds_list R1 = map (\<lambda>d. d\<lparr>do_tmp_willingness := RFC7181_WILLINGNESS_NEVER\<rparr>) (ds_list R)" by (simp add: R1_def)
  have R': "ds_flooding R' = ds_flooding R1 \<and> ds_list R' = map g (ds_list R1)"
    unfolding R'_def g_def
  proof (rule read_willingness_nibbles)
    show "distinct exts" using E(1) by (simp add: exts take_map [symmetric])
    show "distinct (map do_ext (ds_list R1))" using E(1) by (simp add: l1 o_def)
    show "do_index d mod 2 = (0 + k) mod 2" if k: "k < length exts" and d: "d \<in> set (ds_list R1)" "do_ext d = exts ! k" for k d
    proof -
      obtain d0 where d0: "d0 \<in> set (ds_list R)" "do_ext d0 = do_ext d" "do_index d0 = do_index d" using d(1) by (auto simp: l1)
      then show ?thesis using type_place(2) [OF R d0(1), of k c] k d(2) by (simp add: exts)
    qed
  qed
  have p: "nhdp_domain_process_willingness_tlv exts (Some v) R = Some R'"
    using v by (cases v) (simp_all add: nhdp_domain_process_willingness_tlv_def R'_def R1_def Let_def RFC7181_WILLINGNESS_MASK_def)
  have "map do_index (ds_list R') = map do_index (ds_list R)" using R' by (simp add: l1 g_def)
  then have di: "distinct (map do_index (ds_list R'))" using E(2) by simp
  have "nd_willingness (nn_domaindata (nhdp_domain_store_willingness R' n) (do_index d)) =
      (if do_index d < c \<and> (do_index d + 1) div 2 < length v then nibble v (do_index d) else RFC7181_WILLINGNESS_NEVER)"
    if d: "d \<in> set (ds_list R)" for d
  proof -
    let ?d = "g (d\<lparr>do_tmp_willingness := RFC7181_WILLINGNESS_NEVER\<rparr>)"
    have "?d \<in> set (ds_list R')" using conjunct2 [OF R'] d unfolding l1 by simp
    from store_willingness_fields(2) [OF di this]
    have "nd_willingness (nn_domaindata (nhdp_domain_store_willingness R' n) (do_index ?d)) = do_tmp_willingness ?d"
      by (simp add: nhdp_domain_store_willingness_def)
    moreover have "do_index ?d = do_index d" by (simp add: g_def)
    moreover have pl: "do_ext d \<in> set exts \<longleftrightarrow> do_index d < c" using type_place(1) [OF R d, of c] by (simp only: exts)
    have pos: "length (takeWhile (\<lambda>e. e \<noteq> do_ext d) exts) = do_index d" if "do_index d < c"
      using first_position [OF pl [THEN iffD2, OF that]] type_place(2) [OF R d, of _ c] unfolding exts by metis
    have "do_tmp_willingness ?d =
        (if do_index d < c \<and> (do_index d + 1) div 2 < length v then nibble v (do_index d) else RFC7181_WILLINGNESS_NEVER)"
      by (cases "do_index d < c") (simp_all add: g_def pl pos)
    ultimately show ?thesis by metis
  qed
  moreover have "nn_flooding_willingness (nhdp_domain_store_willingness R' n) = v ! 0 AND 15"
    using store_willingness_fields(1) [OF di] R' by (simp add: nhdp_domain_store_willingness_def R1_def)
  ultimately show ?thesis using p by blast
qed

text \<open>
  C40. The willingness TLV of a HELLO: what a node writes, with a buffer of 3 to 255 bytes and a flooding
  willingness below 16, is read by a neighbor with the list of types that it makes of the message and
  stored: the willingness for flooding, and for every domain of the reader the willingness that the
  sender has for its own domain at the same place, \<open>NEVER\<close> when the sender has no domain there. It is
  the willingness of the domain with the same extension when the two nodes have this domain at the
  same place.
\<close>

theorem willingness_tlv_roundtrip:
  assumes S: "domains_ok S" "ds_list S \<noteq> []" "do_local_willingness (ds_flooding S) < 16"
    and R: "domains_ok R" "ds_list R \<noteq> []" and sz: "3 \<le> sz" "sz < 256"
  shows "\<exists>exts len buf R' n'. hello_mprtypes S \<bind> nhdp_domain_process_mprtypes_tlv R NHDP_MAXIMUM_DOMAINS = Some exts
    \<and> nhdp_domain_encode_willingness_tlvvalue S sz = Some (len, buf)
    \<and> nhdp_domain_process_willingness_tlv exts (Some (take (unat len) buf)) R = Some R'
    \<and> n' = nhdp_domain_store_willingness R' n \<and> nn_flooding_willingness n' = do_local_willingness (ds_flooding S)
    \<and> (\<forall>d \<in> set (ds_list R). nd_willingness (nn_domaindata n' (do_index d)) =
         (if do_index d < length (ds_list S) then do_local_willingness (ds_list S ! do_index d) AND RFC7181_WILLINGNESS_MASK
          else RFC7181_WILLINGNESS_NEVER)
       \<and> (same_place S d \<longrightarrow> nd_willingness (nn_domaindata n' (do_index d)) = willingness_sent S (do_ext d)))"
proof -
  note E = domains_okD [OF R(1)]
  define exts where "exts = map do_ext (take (types_read S R) (ds_list R))"
  obtain len buf where w: "nhdp_domain_encode_willingness_tlvvalue S sz = Some (len, buf)"
    "length (ds_list S) div 2 < length (take (unat len) buf)"
    "(take (unat len) buf) ! 0 AND 15 = do_local_willingness (ds_flooding S)"
    "\<forall>k. (k + 1) div 2 < length (take (unat len) buf) \<longrightarrow> k < 4 \<longrightarrow> nibble (take (unat len) buf) k =
         (if k < length (ds_list S) then do_local_willingness (ds_list S ! k) AND 15 else 0)"
    using willingness_written [OF S sz] by blast
  let ?v = "take (unat len) buf"
  have "?v \<noteq> []" using w(2) by auto
  from willingness_stored [OF R(1) this exts_def, of n]
  obtain R' where r: "nhdp_domain_process_willingness_tlv exts (Some ?v) R = Some R'"
    "nn_flooding_willingness (nhdp_domain_store_willingness R' n) = ?v ! 0 AND 15"
    "\<forall>d \<in> set (ds_list R). nd_willingness (nn_domaindata (nhdp_domain_store_willingness R' n) (do_index d)) =
        (if do_index d < types_read S R \<and> (do_index d + 1) div 2 < length ?v then nibble ?v (do_index d) else RFC7181_WILLINGNESS_NEVER)"
    by blast
  define stored where "stored d = (if do_index d < length (ds_list S)
    then do_local_willingness (ds_list S ! do_index d) AND RFC7181_WILLINGNESS_MASK else RFC7181_WILLINGNESS_NEVER)" for d :: nhdp_domain
  have st: "nd_willingness (nn_domaindata (nhdp_domain_store_willingness R' n) (do_index d)) = stored d"
    if d: "d \<in> set (ds_list R)" for d
  proof (cases "do_index d < length (ds_list S)")
    case True
    have "do_index d < length (ds_list R)" using index_used [OF R(1)] d by blast
    then have "do_index d < types_read S R" using True by (auto simp: types_read_def)
    moreover have i: "(do_index d + 1) div 2 < length ?v" using True w(2) by linarith
    moreover have "nibble ?v (do_index d) = do_local_willingness (ds_list S ! do_index d) AND 15"
      using w(4) [rule_format, OF i E(3) [OF d]] True by simp
    ultimately show ?thesis using r(3) d True by (simp add: stored_def RFC7181_WILLINGNESS_MASK_def)
  next
    case False
    then show ?thesis
      using r(3) d w(4) [rule_format, OF _ E(3) [OF d]] by (simp add: stored_def RFC7181_WILLINGNESS_NEVER_def)
  qed
  have "stored d = willingness_sent S (do_ext d)" if "same_place S d" for d
    unfolding willingness_sent_def same_place_at [OF S(1) that] by (simp add: stored_def)
  moreover have "hello_mprtypes S \<bind> nhdp_domain_process_mprtypes_tlv R NHDP_MAXIMUM_DOMAINS = Some exts"
    unfolding exts_def by (rule hello_mprtypes_read [OF S(1) R])
  ultimately show ?thesis using w(1,3) r(1,2) st unfolding stored_def by metis
qed

text \<open>The content of the MPR types TLV of the sender does not matter, only whether it is there.\<close>

lemma mprtypes_content_ignored:
  "nhdp_domain_process_mprtypes_tlv ds sz (Some val) = nhdp_domain_process_mprtypes_tlv ds sz (Some val')"
  by (simp add: nhdp_domain_process_mprtypes_tlv_def)

definition ex_pair :: "u8 \<Rightarrow> u8 \<Rightarrow> domains" where
  "ex_pair a b = \<lparr>ds_list = [(new_domain a 0)\<lparr>do_local_willingness := 3\<rparr>, (new_domain b 1)\<lparr>do_local_willingness := 7\<rparr>], ds_counter = 2,
     ds_flooding = (new_domain 0 0)\<lparr>do_local_willingness := 6\<rparr>, ds_node_is_selected_as_mpr = False, ds_listeners = [], ds_updates = []\<rparr>"

lemma ex_pair_ok: "domains_ok (ex_pair 1 2)" "domains_ok (ex_pair 2 1)"
  by (simp_all add: domains_ok_def ex_pair_def new_domain_def NHDP_MAXIMUM_DOMAINS_def upt_rec)

definition ex_mpr_neighbor :: nhdp_neighbor where
  "ex_mpr_neighbor = set_neighbor_data (new_domain 1 0) (\<lambda>nd. nd\<lparr>nd_neigh_is_mpr := True\<rparr>) new_neighbor"

text \<open>
  Two nodes with the domains 1 and 2 in different orders: the MPR flag for domain 1 arrives in domain 2. If the
  reader used the types of the message, the half of the byte that it takes from its own index would be the
  wrong one.
\<close>

lemma mpr_flags_swapped:
  "map_option (\<lambda>n'. map (\<lambda>d. (do_ext d, nd_local_is_mpr (nn_domaindata n' (do_index d)))) (ds_list (ex_pair 2 1)))
     (hello_mprtypes (ex_pair 1 2) \<bind> nhdp_domain_process_mprtypes_tlv (ex_pair 2 1) 4 \<bind> (\<lambda>types.
      nhdp_domain_encode_mpr_tlvvalue (ex_pair 1 2) 2 ex_mpr_neighbor \<bind> (\<lambda>(len, buf).
      nhdp_domain_process_mpr_tlv (ex_pair 2 1) types new_neighbor (Some (take len buf)))))
   = Some [(2, True), (1, False)]"
  by code_simp

lemma willingness_wrong_half:
  "map_option (\<lambda>ds. map (\<lambda>d. (do_ext d, do_tmp_willingness d)) (ds_list ds))
     (nhdp_domain_encode_willingness_tlvvalue (ex_pair 1 2) 4 \<bind> (\<lambda>(len, buf).
      nhdp_domain_process_willingness_tlv [1, 2] (Some (take (unat len) buf)) (ex_pair 2 1)))
   = Some [(2, 0), (1, 6)]"
  by code_simp

theorem mpr_tlv_roundtrip_witness:
  "\<exists>exts len buf n'. hello_mprtypes (ex_pair 1 2) \<bind> nhdp_domain_process_mprtypes_tlv (ex_pair 2 1) NHDP_MAXIMUM_DOMAINS = Some exts
    \<and> nhdp_domain_encode_mpr_tlvvalue (ex_pair 1 2) 4 ex_mpr_neighbor = Some (len, buf)
    \<and> nhdp_domain_process_mpr_tlv (ex_pair 2 1) exts new_neighbor (Some (take len buf)) = Some n'
    \<and> nd_local_is_mpr (nn_domaindata n' 0) \<and> \<not> nd_local_is_mpr (nn_domaindata n' 1)"
proof -
  have e: "ds_list (ex_pair a b) \<noteq> []" "length (ds_list (ex_pair a b)) = 2" for a b by (simp_all add: ex_pair_def)
  have s: "nd_neigh_is_mpr (nn_domaindata ex_mpr_neighbor 0)" "\<not> nd_neigh_is_mpr (nn_domaindata ex_mpr_neighbor 1)"
    by (simp_all add: new_domain_def ex_mpr_neighbor_def set_neighbor_data_def new_neighbor_def)
  have d: "ds_list (ex_pair 2 1) = [(new_domain 2 0)\<lparr>do_local_willingness := 3\<rparr>, (new_domain 1 1)\<lparr>do_local_willingness := 7\<rparr>]"
    by (simp add: ex_pair_def)
  show ?thesis
    using mpr_tlv_roundtrip [OF ex_pair_ok(1) e(1) ex_pair_ok(2) e(1), of 4 ex_mpr_neighbor new_neighbor] s e(2) unfolding d
    by (simp add: new_domain_def) blast
qed

theorem willingness_tlv_roundtrip_witness:
  "\<exists>exts len buf R' n'. hello_mprtypes (ex_pair 1 2) \<bind> nhdp_domain_process_mprtypes_tlv (ex_pair 1 2) NHDP_MAXIMUM_DOMAINS = Some exts
    \<and> nhdp_domain_encode_willingness_tlvvalue (ex_pair 1 2) 4 = Some (len, buf)
    \<and> nhdp_domain_process_willingness_tlv exts (Some (take (unat len) buf)) (ex_pair 1 2) = Some R'
    \<and> n' = nhdp_domain_store_willingness R' new_neighbor \<and> nn_flooding_willingness n' = 6
    \<and> nd_willingness (nn_domaindata n' 0) = 3 \<and> willingness_sent (ex_pair 1 2) 1 = 3"
proof -
  have e: "ds_list (ex_pair a b) \<noteq> []" "do_local_willingness (ds_flooding (ex_pair 1 2)) = 6" for a b
    by (simp_all add: ex_pair_def new_domain_def)
  have w: "(new_domain 1 0)\<lparr>do_local_willingness := 3\<rparr> \<in> set (ds_list (ex_pair 1 2))" "willingness_sent (ex_pair 1 2) 1 = 3"
    by (simp add: ex_pair_def) code_simp
  have p: "same_place (ex_pair 1 2) ((new_domain 1 0)\<lparr>do_local_willingness := 3\<rparr>)"
    by (simp add: same_place_def ex_pair_def new_domain_def)
  have f: "do_local_willingness (ds_flooding (ex_pair 1 2)) < 16" unfolding e(2) by simp
  have sz: "3 \<le> (4 :: nat)" "(4 :: nat) < 256" by simp_all
  from willingness_tlv_roundtrip [OF ex_pair_ok(1) e(1) f ex_pair_ok(1) e(1) sz, of new_neighbor]
  obtain exts len buf R' n' where h: "hello_mprtypes (ex_pair 1 2) \<bind> nhdp_domain_process_mprtypes_tlv (ex_pair 1 2) NHDP_MAXIMUM_DOMAINS = Some exts"
    "nhdp_domain_encode_willingness_tlvvalue (ex_pair 1 2) 4 = Some (len, buf)"
    "nhdp_domain_process_willingness_tlv exts (Some (take (unat len) buf)) (ex_pair 1 2) = Some R'"
    "n' = nhdp_domain_store_willingness R' new_neighbor" "nn_flooding_willingness n' = 6"
    "\<forall>d \<in> set (ds_list (ex_pair 1 2)). same_place (ex_pair 1 2) d \<longrightarrow>
       nd_willingness (nn_domaindata n' (do_index d)) = willingness_sent (ex_pair 1 2) (do_ext d)"
    unfolding e(2) by blast
  from h(6) [rule_format, OF w(1) p] w(2) have "nd_willingness (nn_domaindata n' 0) = 3" by (simp add: new_domain_def)
  then show ?thesis using h(1-5) w(2) by blast
qed

end
