(* ===== verification/Nhdp_Timers.thy ===== *)
theory Nhdp_Timers
  imports Nhdp_Domain
begin

text \<open>
  What follows from a change of the neighborhood (\<open>nhdp_domain.c\<close>): the metrics of neighbors and their
  best links, the MPR algorithms, the listeners; and the timers of the neighborhood database
  (\<open>nhdp_db.c\<close>), whose callbacks end in such a change. The MPR algorithms of plugins are a parameter, by
  the address of their handler.
\<close>

subsection \<open>Changes of the neighborhood\<close>

fun best_of_links :: "nat \<Rightarrow> nhdp_db \<Rightarrow> ptr list \<Rightarrow> neighbor_domaindata \<Rightarrow> neighbor_domaindata option" where
  "best_of_links i db [] nd = Some nd"
| "best_of_links i db (l # ls) nd = do {
     k \<leftarrow> db_links db l;
     let m = nl_domaindata k i;
     let nd = (if nm_out m < nm_out (nd_metric nd)
               then nd\<lparr>nd_metric := (nd_metric nd)\<lparr>nm_out := nm_out m\<rparr>, nd_best_link := Some l\<rparr> else nd);
     let nd = (if nm_in m < nm_in (nd_metric nd) then nd\<lparr>nd_metric := (nd_metric nd)\<lparr>nm_in := nm_in m\<rparr>\<rparr> else nd);
     best_of_links i db ls nd
   }"

definition recalculate_neighbor_metric :: "ptr \<Rightarrow> nhdp_domain \<times> nhdp_db \<Rightarrow> (nhdp_domain \<times> nhdp_db) option" where
  "recalculate_neighbor_metric p = (\<lambda>(d, db). do {
     n \<leftarrow> db_neighs db p;
     let nd = nn_domaindata n (do_index d);
     let oldmetric = nd_metric nd;
     nd \<leftarrow> best_of_links (do_index d) db (nn_links n)
            (nd\<lparr>nd_metric := \<lparr>nm_in = RFC7181_METRIC_INFINITE, nm_out = RFC7181_METRIC_INFINITE\<rparr>, nd_best_link := None\<rparr>);
     nd \<leftarrow> (case nd_best_link nd of
              None \<Rightarrow> Some nd
            | Some l \<Rightarrow> do {
                k \<leftarrow> db_links db l;
                i \<leftarrow> nl_local_if k;
                f \<leftarrow> db_interfaces db i;
                Some (nd\<lparr>nd_best_link_ifindex := ni_index f\<rparr>)
              });
     db \<leftarrow> upd_neigh p (\<lambda>n. Some (set_neighbor_data d (\<lambda>_. nd) n)) db;
     Some (if nd_metric nd \<noteq> oldmetric then d\<lparr>do_neighbor_metric_changed := True\<rparr> else d, db)
   })"

type_synonym mpr_algorithms = "ptr \<Rightarrow> domains \<Rightarrow> nhdp_db \<Rightarrow> nhdp_db option"

definition everyone_is_mpr :: "domains \<Rightarrow> nhdp_neighbor \<Rightarrow> nhdp_neighbor" where
  "everyone_is_mpr ds n =
     (let n = (if dp_handler (do_mpr (ds_flooding ds)) = None
               then n\<lparr>nn_neigh_is_flooding_mpr := (nn_flooding_willingness n > RFC7181_WILLINGNESS_NEVER)\<rparr> else n)
      in fold (\<lambda>d n. if dp_handler (do_mpr d) = None
                     then set_neighbor_data d (\<lambda>nd. nd\<lparr>nd_neigh_is_mpr := (nd_willingness nd > RFC7181_WILLINGNESS_NEVER)\<rparr>) n
                     else n) (ds_list ds) n)"

definition cb_update_everyone_mpr :: "domains \<Rightarrow> nhdp_db \<Rightarrow> nhdp_db option" where
  "cb_update_everyone_mpr ds db = for_each (\<lambda>p. upd_neigh p (\<lambda>n. Some (everyone_is_mpr ds n))) (db_neigh_list db) db"

definition update_mpr :: "mpr_algorithms \<Rightarrow> domain_mpr \<Rightarrow> domains \<Rightarrow> nhdp_db \<Rightarrow> nhdp_db option" where
  "update_mpr mpr m ds db =
     (if dp_update m
      then (case dp_handler m of None \<Rightarrow> cb_update_everyone_mpr ds db | Some h \<Rightarrow> mpr h ds db)
      else Some db)"

text \<open>One round of the loop over the domains; \<open>who\<close> is the list of the neighbors that may have changed.\<close>

definition domain_changed ::
  "mpr_algorithms \<Rightarrow> (nhdp_db \<Rightarrow> ptr list) \<Rightarrow> nat \<Rightarrow> domains \<times> nhdp_db \<Rightarrow> (domains \<times> nhdp_db) option" where
  "domain_changed mpr who i = (\<lambda>(ds, db). do {
     (d, db) \<leftarrow> for_each recalculate_neighbor_metric (who db) (ds_list ds ! i, db);
     let ds = ds\<lparr>ds_list := (ds_list ds)[i := d]\<rparr>;
     db \<leftarrow> update_mpr mpr (do_mpr d) ds db;
     Some (ds, db)
   })"

definition notify_listeners :: "ptr option \<Rightarrow> domains \<Rightarrow> domains" where
  "notify_listeners p ds = ds\<lparr>ds_updates := ds_updates ds @ map (\<lambda>x. (dl_id x, p)) (filter dl_update (ds_listeners ds))\<rparr>"

fun has_mpr_selector :: "nhdp_db \<Rightarrow> nat \<Rightarrow> ptr list \<Rightarrow> bool option" where
  "has_mpr_selector db i [] = Some False"
| "has_mpr_selector db i (p # ps) = do {
     n \<leftarrow> db_neighs db p;
     if nd_local_is_mpr (nn_domaindata n i) then Some True else has_mpr_selector db i ps
   }"

fun any_mpr_selector :: "nhdp_db \<Rightarrow> nhdp_domain list \<Rightarrow> bool option" where
  "any_mpr_selector db [] = Some False"
| "any_mpr_selector db (d # ds) = do {
     b \<leftarrow> has_mpr_selector db (do_index d) (db_neigh_list db);
     if b then Some True else any_mpr_selector db ds
   }"

definition changed :: "mpr_algorithms \<Rightarrow> (nhdp_db \<Rightarrow> ptr list) \<Rightarrow> ptr option \<Rightarrow> domains \<times> nhdp_db \<Rightarrow> (domains \<times> nhdp_db) option" where
  "changed mpr who p st = do {
     (ds, db) \<leftarrow> for_each (domain_changed mpr who) [0..<length (ds_list (fst st))] st;
     let ds = notify_listeners p ds;
     b \<leftarrow> any_mpr_selector db (ds_list ds);
     Some (ds\<lparr>ds_node_is_selected_as_mpr := b\<rparr>, db)
   }"

definition nhdp_domain_neighborhood_changed :: "mpr_algorithms \<Rightarrow> domains \<times> nhdp_db \<Rightarrow> (domains \<times> nhdp_db) option" where
  "nhdp_domain_neighborhood_changed mpr = changed mpr db_neigh_list None"

definition nhdp_domain_neighbor_changed :: "mpr_algorithms \<Rightarrow> ptr \<Rightarrow> domains \<times> nhdp_db \<Rightarrow> (domains \<times> nhdp_db) option" where
  "nhdp_domain_neighbor_changed mpr p = changed mpr (\<lambda>_. [p]) (Some p)"

definition nhdp_domain_node_is_mpr :: "domains \<Rightarrow> bool" where
  "nhdp_domain_node_is_mpr ds = ds_node_is_selected_as_mpr ds"

subsection \<open>Timers\<close>

definition cb_link_vtime :: "mpr_algorithms \<Rightarrow> ptr \<Rightarrow> domains \<times> nhdp_db \<Rightarrow> (domains \<times> nhdp_db) option" where
  "cb_link_vtime mpr l = (\<lambda>(ds, db). do {
     lnk \<leftarrow> db_links db l;
     let p = nl_neigh lnk;
     db \<leftarrow> (if nl_status lnk = NHDP_LINK_SYMMETRIC then link_status_not_symmetric_anymore l db else Some db);
     db \<leftarrow> nhdp_db_link_remove l db;
     n \<leftarrow> db_neighs db p;
     if nn_links n = []
     then do {
       db \<leftarrow> nhdp_db_neighbor_remove p db;
       nhdp_domain_neighborhood_changed mpr (ds, db)
     }
     else nhdp_domain_neighbor_changed mpr p (ds, db)
   })"

definition cb_link_heard :: "hysteresis \<Rightarrow> ptr \<Rightarrow> nhdp_db \<Rightarrow> nhdp_db option" where
  "cb_link_heard hy l db = nhdp_db_link_update_status hy l db"

definition cb_link_symtime :: "mpr_algorithms \<Rightarrow> hysteresis \<Rightarrow> ptr \<Rightarrow> domains \<times> nhdp_db \<Rightarrow> (domains \<times> nhdp_db) option" where
  "cb_link_symtime mpr hy l = (\<lambda>(ds, db). do {
     db \<leftarrow> nhdp_db_link_update_status hy l db;
     lnk \<leftarrow> db_links db l;
     nhdp_domain_neighbor_changed mpr (nl_neigh lnk) (ds, db)
   })"

definition cb_naddr_vtime :: "ptr \<Rightarrow> nhdp_db \<Rightarrow> nhdp_db option" where
  "cb_naddr_vtime x db = nhdp_db_neighbor_addr_remove x db"

definition cb_l2hop_vtime :: "mpr_algorithms \<Rightarrow> ptr \<Rightarrow> domains \<times> nhdp_db \<Rightarrow> (domains \<times> nhdp_db) option" where
  "cb_l2hop_vtime mpr x = (\<lambda>(ds, db). do {
     h \<leftarrow> db_l2hops db x;
     lnk \<leftarrow> db_links db (l2_link h);
     db \<leftarrow> nhdp_db_link_2hop_remove x db;
     nhdp_domain_neighbor_changed mpr (nl_neigh lnk) (ds, db)
   })"

text \<open>A timer that has run out is stopped before its callback is called.\<close>

datatype nhdp_timer =
  Link_Vtime ptr | Link_Heard_Time ptr | Link_Sym_Time ptr | Naddr_Lost_Vtime ptr | L2hop_Vtime ptr

fun timer_fires :: "mpr_algorithms \<Rightarrow> hysteresis \<Rightarrow> nhdp_timer \<Rightarrow> domains \<times> nhdp_db \<Rightarrow> (domains \<times> nhdp_db) option" where
  "timer_fires mpr hy (Link_Vtime l) (ds, db) =
     upd_link l (\<lambda>k. Some (k\<lparr>nl_vtime := None\<rparr>)) db \<bind> (\<lambda>db. cb_link_vtime mpr l (ds, db))"
| "timer_fires mpr hy (Link_Heard_Time l) (ds, db) =
     upd_link l (\<lambda>k. Some (k\<lparr>nl_heard_time := None\<rparr>)) db \<bind> (\<lambda>db. map_option (Pair ds) (cb_link_heard hy l db))"
| "timer_fires mpr hy (Link_Sym_Time l) (ds, db) =
     upd_link l (\<lambda>k. Some (k\<lparr>nl_sym_time := None\<rparr>)) db \<bind> (\<lambda>db. cb_link_symtime mpr hy l (ds, db))"
| "timer_fires mpr hy (Naddr_Lost_Vtime x) (ds, db) =
     upd_naddr x (\<lambda>a. a\<lparr>nx_lost_vtime := None\<rparr>) db \<bind> (\<lambda>db. map_option (Pair ds) (cb_naddr_vtime x db))"
| "timer_fires mpr hy (L2hop_Vtime x) (ds, db) =
     upd_l2hop x (\<lambda>h. h\<lparr>l2_vtime := None\<rparr>) db \<bind> (\<lambda>db. cb_l2hop_vtime mpr x (ds, db))"

subsection \<open>What changes of the neighborhood leave alone\<close>

text \<open>\<open>db'\<close> differs from \<open>db\<close> only in the records of neighbors, and there not in what \<open>g\<close> sees.\<close>

definition same_except :: "(nhdp_neighbor \<Rightarrow> 'g) \<Rightarrow> nhdp_db \<Rightarrow> nhdp_db \<Rightarrow> bool" where
  "same_except g db db' \<longleftrightarrow> (\<exists>N. db' = db\<lparr>db_neighs := N\<rparr> \<and> proj g N = proj g (db_neighs db))"

definition neigh_core where
  "neigh_core n = (nn_originator n, nn_symmetric n, nn_dualstack_partner n, nn_process_count n, nn_links n,
     nn_neigh_addresses n, nn_link_addresses n)"

text \<open>All but the marks that an MPR algorithm sets.\<close>

definition but_mpr :: "nhdp_neighbor \<Rightarrow> nhdp_neighbor" where
  "but_mpr n = n\<lparr>nn_neigh_is_flooding_mpr := False, nn_domaindata := (\<lambda>i. (nn_domaindata n i)\<lparr>nd_neigh_is_mpr := False\<rparr>)\<rparr>"

lemma same_exceptE:
  assumes "same_except g db db'"
  obtains N where "db' = db\<lparr>db_neighs := N\<rparr>" "proj g N = proj g (db_neighs db)"
  using assms unfolding same_except_def by blast

lemma same_except_refl [simp]: "same_except g db db"
  unfolding same_except_def by (rule exI [of _ "db_neighs db"]) simp

lemma same_except_trans: "same_except g a b \<Longrightarrow> same_except g b c \<Longrightarrow> same_except g a c"
  by (elim same_exceptE) (auto simp: same_except_def)

lemma proj_weaken:
  assumes "proj g N = proj g M" "\<And>n m. g n = g m \<Longrightarrow> h n = h m"
  shows "proj h N = proj h M"
proof (rule ext)
  fix p
  have e: "map_option g (N p) = map_option g (M p)" using fun_cong [OF assms(1), of p] by (simp add: proj_apply)
  show "proj h N p = proj h M p"
  proof (cases "N p")
    case None
    then show ?thesis using e by (simp add: proj_apply)
  next
    case (Some n)
    then obtain m where m: "M p = Some m" "g n = g m" using e by (cases "M p") auto
    have "h n = h m" by (rule assms(2) [OF m(2)])
    then show ?thesis using Some m(1) by (simp add: proj_apply)
  qed
qed

lemma same_except_weaken:
  assumes "same_except g db db'" "\<And>n m. g n = g m \<Longrightarrow> h n = h m"
  shows "same_except h db db'"
  using assms(1)
proof (elim same_exceptE)
  fix N assume N: "db' = db\<lparr>db_neighs := N\<rparr>" "proj g N = proj g (db_neighs db)"
  have "proj h N = proj h (db_neighs db)" by (rule proj_weaken [OF N(2) assms(2)])
  then show ?thesis using N(1) unfolding same_except_def by blast
qed

lemma but_mpr_core: "but_mpr n = but_mpr m \<Longrightarrow> neigh_core n = neigh_core m"
proof -
  have "neigh_core n = neigh_core (but_mpr n)" for n by (simp add: neigh_core_def but_mpr_def)
  then show "but_mpr n = but_mpr m \<Longrightarrow> neigh_core n = neigh_core m" by metis
qed

lemma same_exceptD:
  assumes "same_except g db db'"
  shows "db_links db' = db_links db" "db_interfaces db' = db_interfaces db" "db_l2hops db' = db_l2hops db" "db_laddrs db' = db_laddrs db"
    "db_naddrs db' = db_naddrs db" "db_neigh_list db' = db_neigh_list db" "db_link_list db' = db_link_list db"
    "db_naddr_tree db' = db_naddr_tree db" "db_originator_tree db' = db_originator_tree db"
    "db_neighs db p = Some n \<Longrightarrow> \<exists>n'. db_neighs db' p = Some n' \<and> g n' = g n" "db_neighs db' p = None \<longleftrightarrow> db_neighs db p = None"
    "proj g (db_neighs db') = proj g (db_neighs db)"
proof -
  obtain N where N: "db' = db\<lparr>db_neighs := N\<rparr>" "proj g N = proj g (db_neighs db)" using assms by (rule same_exceptE)
  have p: "map_option g (N p) = map_option g (db_neighs db p)" using fun_cong [OF N(2), of p] by (simp add: proj_apply)
  show "db_neighs db p = Some n \<Longrightarrow> \<exists>n'. db_neighs db' p = Some n' \<and> g n' = g n" "db_neighs db' p = None \<longleftrightarrow> db_neighs db p = None"
    using p by (cases "N p"; cases "db_neighs db p"; simp add: N(1))+
  show "db_links db' = db_links db" "db_interfaces db' = db_interfaces db" "db_l2hops db' = db_l2hops db" "db_laddrs db' = db_laddrs db"
    "db_naddrs db' = db_naddrs db" "db_neigh_list db' = db_neigh_list db" "db_link_list db' = db_link_list db"
    "db_naddr_tree db' = db_naddr_tree db" "db_originator_tree db' = db_originator_tree db" "proj g (db_neighs db') = proj g (db_neighs db)"
    by (simp_all add: N)
qed

lemma same_except_ok:
  assumes "same_except neigh_core db db'"
  shows "nhdp_inv U db' = nhdp_inv U db"
proof -
  note c = same_exceptD(12) [OF assms]
  have "proj nn_originator (db_neighs db') = proj nn_originator (db_neighs db)" "proj nn_links (db_neighs db') = proj nn_links (db_neighs db)"
    "proj nn_neigh_addresses (db_neighs db') = proj nn_neigh_addresses (db_neighs db)"
    "proj nn_link_addresses (db_neighs db') = proj nn_link_addresses (db_neighs db)"
    "proj nn_dualstack_partner (db_neighs db') = proj nn_dualstack_partner (db_neighs db)"
    by (rule proj_weaken [OF c]; simp add: neigh_core_def)+
  then show ?thesis by (simp add: nhdp_ok_unfold same_exceptD(1-9) [OF assms])
qed

lemma upd_neigh_same:
  assumes "db_neighs db p = Some n" "g (f n) = g n"
  shows "\<exists>db'. upd_neigh p (\<lambda>n. Some (f n)) db = Some db' \<and> same_except g db db' \<and> db_neighs db' = (db_neighs db)(p \<mapsto> f n)"
proof -
  have "proj g ((db_neighs db)(p \<mapsto> f n)) = proj g (db_neighs db)" using assms by simp
  then have "same_except g db (db\<lparr>db_neighs := (db_neighs db)(p \<mapsto> f n)\<rparr>)" unfolding same_except_def by blast
  then show ?thesis using assms(1) by (simp add: upd_neigh_def)
qed

lemma for_each_same:
  assumes step: "\<And>x s. I s \<Longrightarrow> P x s \<Longrightarrow> \<exists>s'. f x s = Some s' \<and> I s' \<and> R s s'"
    and R: "\<And>s. R s s" "\<And>a b c. R a b \<Longrightarrow> R b c \<Longrightarrow> R a c" and P: "\<And>x s s'. P x s \<Longrightarrow> R s s' \<Longrightarrow> P x s'"
    and I: "I s" "\<forall>x \<in> set xs. P x s"
  shows "\<exists>s'. for_each f xs s = Some s' \<and> I s' \<and> R s s'"
  using I
proof (induction xs arbitrary: s)
  case (Cons x xs)
  have "P x s" using Cons.prems(2) by simp
  from step [OF Cons.prems(1) this] obtain s1 where 1: "f x s = Some s1" "I s1" "R s s1" by blast
  obtain s2 where "for_each f xs s1 = Some s2" "I s2" "R s1 s2" using Cons.IH [OF 1(2)] P [OF _ 1(3)] Cons.prems(2) by auto
  then show ?case using 1 R(2) by auto
qed (simp add: R(1))

subsection \<open>MPR algorithms\<close>

text \<open>
  What the database relies on in an MPR algorithm: in a consistent database it returns, and it sets nothing
  but the marks of neighbors.
\<close>

locale mpr_contract =
  fixes mpr :: mpr_algorithms
  assumes keeps: "nhdp_ok db \<Longrightarrow> \<exists>db'. mpr h ds db = Some db' \<and> same_except but_mpr db db'"

lemma everyone_but_mpr: "but_mpr (everyone_is_mpr ds n) = but_mpr n"
proof -
  have d: "but_mpr (set_neighbor_data d (\<lambda>nd. nd\<lparr>nd_neigh_is_mpr := f nd\<rparr>) n) = but_mpr n" for d f n
    by (simp add: but_mpr_def set_neighbor_data_def fun_eq_iff)
  have l: "but_mpr (fold (\<lambda>d n. if dp_handler (do_mpr d) = None
      then set_neighbor_data d (\<lambda>nd. nd\<lparr>nd_neigh_is_mpr := (nd_willingness nd > RFC7181_WILLINGNESS_NEVER)\<rparr>) n else n) ds n) = but_mpr n" for ds n
    by (induction ds arbitrary: n) (simp_all add: d)
  show ?thesis by (simp add: everyone_is_mpr_def l) (simp add: but_mpr_def)
qed

lemma everyone_keeps:
  assumes "nhdp_ok db"
  shows "\<exists>db'. cb_update_everyone_mpr ds db = Some db' \<and> same_except but_mpr db db'"
proof -
  have "\<exists>db'. for_each (\<lambda>p. upd_neigh p (\<lambda>n. Some (everyone_is_mpr ds n))) (db_neigh_list db) db = Some db' \<and> True \<and> same_except but_mpr db db'"
  proof (rule for_each_same [where P = "\<lambda>p db. db_neighs db p \<noteq> None"])
    show "\<exists>s'. upd_neigh p (\<lambda>n. Some (everyone_is_mpr ds n)) s = Some s' \<and> True \<and> same_except but_mpr s s'"
      if "db_neighs s p \<noteq> None" for p s
      using that upd_neigh_same [of s p _ but_mpr "everyone_is_mpr ds"] everyone_but_mpr by auto
    show "db_neighs s' p \<noteq> None" if "db_neighs s p \<noteq> None" "same_except but_mpr s s'" for p s s'
      using that(1) same_exceptD(11) [OF that(2)] by simp
  qed (use neigh_list_ok [OF assms] in \<open>auto intro: same_except_trans\<close>)
  then show ?thesis by (simp add: cb_update_everyone_mpr_def)
qed

interpretation everyone: mpr_contract "\<lambda>_. cb_update_everyone_mpr"
  by unfold_locales (rule everyone_keeps)

lemma update_mpr_ok:
  assumes "mpr_contract mpr" "nhdp_ok db"
  shows "\<exists>db'. update_mpr mpr m ds db = Some db' \<and> same_except but_mpr db db' \<and> nhdp_ok db'"
proof -
  obtain db' where 1: "update_mpr mpr m ds db = Some db'" "same_except but_mpr db db'"
  proof (cases "dp_update m")
    case True
    then show ?thesis
      using mpr_contract.keeps [OF assms, of "the (dp_handler m)" ds] everyone_keeps [OF assms(2), of ds] that
      by (cases "dp_handler m") (auto simp: update_mpr_def)
  next
    case False
    then show ?thesis using that by (simp add: update_mpr_def)
  qed
  then show ?thesis using same_except_ok [OF same_except_weaken [OF 1(2) but_mpr_core]] assms(2) by blast
qed

subsection \<open>Metrics of neighbors\<close>

text \<open>
  The data of a neighbor in a domain is up to date: its metrics are the least ones of its links, and the
  best link is a link of the neighbor with this outgoing metric.
\<close>

definition best_metric :: "nhdp_db \<Rightarrow> ptr \<Rightarrow> nat \<Rightarrow> neighbor_domaindata \<Rightarrow> bool" where
  "best_metric db p i nd \<longleftrightarrow>
     (\<forall>l k. db_links db l = Some k \<longrightarrow> nl_neigh k = p \<longrightarrow>
        nm_out (nd_metric nd) \<le> nm_out (nl_domaindata k i) \<and> nm_in (nd_metric nd) \<le> nm_in (nl_domaindata k i)) \<and>
     (nm_in (nd_metric nd) = RFC7181_METRIC_INFINITE \<or>
        (\<exists>l k. db_links db l = Some k \<and> nl_neigh k = p \<and> nm_in (nd_metric nd) = nm_in (nl_domaindata k i))) \<and>
     (case nd_best_link nd of
        None \<Rightarrow> nm_out (nd_metric nd) = RFC7181_METRIC_INFINITE
      | Some l \<Rightarrow> \<exists>k j f. db_links db l = Some k \<and> nl_neigh k = p \<and> nm_out (nd_metric nd) = nm_out (nl_domaindata k i) \<and>
          nm_out (nd_metric nd) < RFC7181_METRIC_INFINITE \<and> nl_local_if k = Some j \<and> db_interfaces db j = Some f \<and>
          nd_best_link_ifindex nd = ni_index f)"

definition best_at :: "nhdp_db \<Rightarrow> nat \<Rightarrow> ptr \<Rightarrow> bool" where
  "best_at db i p \<longleftrightarrow> (\<exists>n. db_neighs db p = Some n \<and> best_metric db p i (nn_domaindata n i))"

text \<open>The best link is at least still a link of the neighbor.\<close>

definition linked_at :: "nhdp_db \<Rightarrow> nat \<Rightarrow> ptr \<Rightarrow> bool" where
  "linked_at db i p \<longleftrightarrow> (\<forall>n l. db_neighs db p = Some n \<longrightarrow> nd_best_link (nn_domaindata n i) = Some l \<longrightarrow>
     (\<exists>k. db_links db l = Some k \<and> nl_neigh k = p))"

text \<open>From \<open>db\<close> to \<open>db'\<close> the pairs of an index and a neighbor in \<open>T\<close> were recalculated.\<close>

definition refreshed :: "(nat \<times> ptr) set \<Rightarrow> nhdp_db \<Rightarrow> nhdp_db \<Rightarrow> bool" where
  "refreshed T db db' \<longleftrightarrow> (\<forall>j p. (j, p) \<in> T \<or> best_at db j p \<longrightarrow> best_at db' j p) \<and> (\<forall>j p. linked_at db j p \<longrightarrow> linked_at db' j p)"

definition but_index :: "nat \<Rightarrow> nhdp_neighbor \<Rightarrow> nhdp_neighbor" where
  "but_index i n = n\<lparr>nn_domaindata := (nn_domaindata n)(i := nn_domaindata new_neighbor i)\<rparr>"

lemma but_index_core: "but_index i n = but_index i m \<Longrightarrow> neigh_core n = neigh_core m"
proof -
  have "neigh_core n = neigh_core (but_index i n)" for n by (simp add: neigh_core_def but_index_def)
  then show "but_index i n = but_index i m \<Longrightarrow> neigh_core n = neigh_core m" by metis
qed

lemma but_index_set: "but_index (do_index d) (set_neighbor_data d f n) = but_index (do_index d) n"
  by (simp add: but_index_def set_neighbor_data_def)

lemma best_metric_cong:
  assumes "db_links db' = db_links db" "db_interfaces db' = db_interfaces db" "nd_metric nd' = nd_metric nd"
    "nd_best_link nd' = nd_best_link nd" "nd_best_link_ifindex nd' = nd_best_link_ifindex nd"
  shows "best_metric db' p i nd' = best_metric db p i nd"
  unfolding best_metric_def assms by (rule refl)

lemma best_linked: "best_at db i p \<Longrightarrow> linked_at db i p"
  by (auto simp: best_at_def linked_at_def best_metric_def)

lemma refreshed_trans: "refreshed S a b \<Longrightarrow> refreshed T b c \<Longrightarrow> refreshed (S \<union> T) a c"
  by (auto simp: refreshed_def)

lemma refreshed_refl: "refreshed {} db db"
  by (simp add: refreshed_def)

lemma data_kept:
  assumes s: "same_except g db db'"
    and g: "\<And>n m. g n = g m \<Longrightarrow> nd_metric (nn_domaindata n j) = nd_metric (nn_domaindata m j) \<and>
      nd_best_link (nn_domaindata n j) = nd_best_link (nn_domaindata m j) \<and>
      nd_best_link_ifindex (nn_domaindata n j) = nd_best_link_ifindex (nn_domaindata m j)"
  shows "best_at db j p \<Longrightarrow> best_at db' j p" "linked_at db j p \<Longrightarrow> linked_at db' j p"
proof -
  note e = same_exceptD(1,2) [OF s]
  assume "best_at db j p"
  then obtain n where n: "db_neighs db p = Some n" "best_metric db p j (nn_domaindata n j)" by (auto simp: best_at_def)
  obtain n' where n': "db_neighs db' p = Some n'" "g n' = g n" using same_exceptD(10) [OF s n(1)] by blast
  have "best_metric db' p j (nn_domaindata n' j)" using best_metric_cong [OF e] n(2) g [OF n'(2)] by metis
  then show "best_at db' j p" using n'(1) by (auto simp: best_at_def)
next
  assume a: "linked_at db j p"
  show "linked_at db' j p"
    unfolding linked_at_def
  proof (intro allI impI)
    fix n' l assume n': "db_neighs db' p = Some n'" "nd_best_link (nn_domaindata n' j) = Some l"
    then obtain n where n: "db_neighs db p = Some n" using same_exceptD(11) [OF s, of p] by (cases "db_neighs db p") auto
    have "g n' = g n" using same_exceptD(10) [OF s n] n'(1) by auto
    from g [OF this] show "\<exists>k. db_links db' l = Some k \<and> nl_neigh k = p"
      using a n n'(2) unfolding linked_at_def same_exceptD(1) [OF s] by metis
  qed
qed

lemma refreshed_mpr:
  assumes "same_except but_mpr db db'"
  shows "refreshed {} db db'"
proof -
  have e: "nd_metric (nn_domaindata n j) = nd_metric (nn_domaindata (but_mpr n) j)"
    "nd_best_link (nn_domaindata n j) = nd_best_link (nn_domaindata (but_mpr n) j)"
    "nd_best_link_ifindex (nn_domaindata n j) = nd_best_link_ifindex (nn_domaindata (but_mpr n) j)" for n j
    by (simp_all add: but_mpr_def)
  have "nd_metric (nn_domaindata n j) = nd_metric (nn_domaindata m j) \<and> nd_best_link (nn_domaindata n j) = nd_best_link (nn_domaindata m j) \<and>
      nd_best_link_ifindex (nn_domaindata n j) = nd_best_link_ifindex (nn_domaindata m j)" if "but_mpr n = but_mpr m" for n m j
    using e [of n j] e [of m j] that by metis
  from data_kept [OF assms this] show ?thesis unfolding refreshed_def by blast
qed

lemma kept_elsewhere:
  assumes "same_except (but_index i) db db'" "j \<noteq> i"
  shows "best_at db j p \<Longrightarrow> best_at db' j p" "linked_at db j p \<Longrightarrow> linked_at db' j p"
proof -
  have e: "nn_domaindata n j = nn_domaindata (but_index i n) j" for n using assms(2) by (simp add: but_index_def)
  have "nd_metric (nn_domaindata n j) = nd_metric (nn_domaindata m j) \<and> nd_best_link (nn_domaindata n j) = nd_best_link (nn_domaindata m j) \<and>
      nd_best_link_ifindex (nn_domaindata n j) = nd_best_link_ifindex (nn_domaindata m j)" if "but_index i n = but_index i m" for n m
    using e [of n] e [of m] that by metis
  then show "best_at db j p \<Longrightarrow> best_at db' j p" "linked_at db j p \<Longrightarrow> linked_at db' j p"
    using data_kept [OF assms(1), of j p] by blast+
qed

text \<open>The loop over the links, from any start.\<close>

lemma best_of_links_ok:
  assumes "\<forall>l \<in> set ls. \<exists>k. db_links db l = Some k"
  shows "\<exists>nd'. best_of_links i db ls nd = Some nd'
    \<and> (\<forall>l \<in> set ls. \<forall>k. db_links db l = Some k \<longrightarrow> nm_out (nd_metric nd') \<le> nm_out (nl_domaindata k i) \<and> nm_in (nd_metric nd') \<le> nm_in (nl_domaindata k i))
    \<and> nm_out (nd_metric nd') \<le> nm_out (nd_metric nd) \<and> nm_in (nd_metric nd') \<le> nm_in (nd_metric nd)
    \<and> (nm_in (nd_metric nd') = nm_in (nd_metric nd) \<or> (\<exists>l \<in> set ls. \<exists>k. db_links db l = Some k \<and> nm_in (nd_metric nd') = nm_in (nl_domaindata k i)))
    \<and> (nm_out (nd_metric nd') = nm_out (nd_metric nd) \<and> nd_best_link nd' = nd_best_link nd \<or>
       (\<exists>l \<in> set ls. \<exists>k. nd_best_link nd' = Some l \<and> db_links db l = Some k \<and> nm_out (nd_metric nd') = nm_out (nl_domaindata k i)
          \<and> nm_out (nd_metric nd') < nm_out (nd_metric nd)))"
  using assms
proof (induction ls arbitrary: nd)
  case (Cons l ls)
  obtain k where k: "db_links db l = Some k" using Cons.prems by auto
  let ?m = "nl_domaindata k i"
  define nd1 where "nd1 = (if nm_out ?m < nm_out (nd_metric nd)
    then nd\<lparr>nd_metric := (nd_metric nd)\<lparr>nm_out := nm_out ?m\<rparr>, nd_best_link := Some l\<rparr> else nd)"
  define nd2 where "nd2 = (if nm_in ?m < nm_in (nd_metric nd1) then nd1\<lparr>nd_metric := (nd_metric nd1)\<lparr>nm_in := nm_in ?m\<rparr>\<rparr> else nd1)"
  have 2: "nm_out (nd_metric nd2) = min (nm_out ?m) (nm_out (nd_metric nd))" "nm_in (nd_metric nd2) = min (nm_in ?m) (nm_in (nd_metric nd))"
    "nd_best_link nd2 = (if nm_out ?m < nm_out (nd_metric nd) then Some l else nd_best_link nd)"
    by (auto simp: nd2_def nd1_def min_def)
  have step: "best_of_links i db (l # ls) nd = best_of_links i db ls nd2"
    unfolding best_of_links.simps k Option.bind.bind_lunit Let_def nd1_def [symmetric] nd2_def [symmetric] by (rule refl)
  have "\<forall>l \<in> set ls. \<exists>k. db_links db l = Some k" using Cons.prems by simp
  from Cons.IH [OF this, of nd2] obtain nd' where IH: "best_of_links i db ls nd2 = Some nd'"
    "\<forall>l \<in> set ls. \<forall>k. db_links db l = Some k \<longrightarrow> nm_out (nd_metric nd') \<le> nm_out (nl_domaindata k i) \<and> nm_in (nd_metric nd') \<le> nm_in (nl_domaindata k i)"
    "nm_out (nd_metric nd') \<le> nm_out (nd_metric nd2)" "nm_in (nd_metric nd') \<le> nm_in (nd_metric nd2)"
    "nm_in (nd_metric nd') = nm_in (nd_metric nd2) \<or> (\<exists>l \<in> set ls. \<exists>k. db_links db l = Some k \<and> nm_in (nd_metric nd') = nm_in (nl_domaindata k i))"
    "nm_out (nd_metric nd') = nm_out (nd_metric nd2) \<and> nd_best_link nd' = nd_best_link nd2 \<or>
       (\<exists>l \<in> set ls. \<exists>k. nd_best_link nd' = Some l \<and> db_links db l = Some k \<and> nm_out (nd_metric nd') = nm_out (nl_domaindata k i)
          \<and> nm_out (nd_metric nd') < nm_out (nd_metric nd2))"
    by blast
  have "nm_in (nd_metric nd') = nm_in (nd_metric nd) \<or> (\<exists>l \<in> set (l # ls). \<exists>k. db_links db l = Some k \<and> nm_in (nd_metric nd') = nm_in (nl_domaindata k i))"
    using IH(5) 2(2) k by (auto simp: min_def split: if_splits)
  moreover have "nm_out (nd_metric nd') = nm_out (nd_metric nd) \<and> nd_best_link nd' = nd_best_link nd \<or>
       (\<exists>l \<in> set (l # ls). \<exists>k. nd_best_link nd' = Some l \<and> db_links db l = Some k \<and> nm_out (nd_metric nd') = nm_out (nl_domaindata k i)
          \<and> nm_out (nd_metric nd') < nm_out (nd_metric nd))"
    using IH(6)
  proof (elim disjE)
    assume e: "nm_out (nd_metric nd') = nm_out (nd_metric nd2) \<and> nd_best_link nd' = nd_best_link nd2"
    show ?thesis using e 2(1,3) k by (cases "nm_out ?m < nm_out (nd_metric nd)") (auto simp: min_def)
  next
    assume "\<exists>l \<in> set ls. \<exists>k. nd_best_link nd' = Some l \<and> db_links db l = Some k \<and> nm_out (nd_metric nd') = nm_out (nl_domaindata k i)
          \<and> nm_out (nd_metric nd') < nm_out (nd_metric nd2)"
    moreover have "nm_out (nd_metric nd2) \<le> nm_out (nd_metric nd)" by (simp add: 2(1))
    ultimately show ?thesis by (meson list.set_intros(2) order_less_le_trans)
  qed
  moreover have "nm_out (nd_metric nd') \<le> nm_out (nd_metric nd)" "nm_in (nd_metric nd') \<le> nm_in (nd_metric nd)"
    "nm_out (nd_metric nd') \<le> nm_out ?m" "nm_in (nd_metric nd') \<le> nm_in ?m"
    using IH(3,4) 2(1,2) by simp_all
  ultimately show ?case using IH(1,2) step k by auto
qed simp

definition mark_changed :: "bool \<Rightarrow> nhdp_domain \<Rightarrow> nhdp_domain" where
  "mark_changed b d = (if b then d\<lparr>do_neighbor_metric_changed := True\<rparr> else d)"

lemma mark_changed_fields [simp]:
  "do_index (mark_changed b d) = do_index d" "do_metric (mark_changed b d) = do_metric d" "do_mpr (mark_changed b d) = do_mpr d"
  "do_ext (mark_changed b d) = do_ext d" "mark_changed a (mark_changed b d) = mark_changed (a \<or> b) d"
  by (simp_all add: mark_changed_def)

text \<open>The index of the interface of the best link is looked up when there is one.\<close>

lemma best_link_index:
  assumes ok: "nhdp_ok db" and n: "db_neighs db p = Some n" "set ls = set (nn_links n)"
    and b: "nd_best_link nd = None \<or> (\<exists>l \<in> set ls. nd_best_link nd = Some l)"
  shows "\<exists>x. (case nd_best_link nd of None \<Rightarrow> Some nd
      | Some l \<Rightarrow> do { k \<leftarrow> db_links db l; i \<leftarrow> nl_local_if k; f \<leftarrow> db_interfaces db i; Some (nd\<lparr>nd_best_link_ifindex := ni_index f\<rparr>) })
      = Some (nd\<lparr>nd_best_link_ifindex := x\<rparr>)
    \<and> (\<forall>l. nd_best_link nd = Some l \<longrightarrow> (\<exists>k i f. db_links db l = Some k \<and> nl_local_if k = Some i \<and> db_interfaces db i = Some f \<and> x = ni_index f))"
proof (cases "nd_best_link nd")
  case None
  then show ?thesis by (intro exI [of _ "nd_best_link_ifindex nd"]) simp
next
  case (Some l)
  then have "l \<in> set (nn_links n)" using b n(2) by auto
  then obtain k where k: "db_links db l = Some k" using neighbor_links(2) [OF ok n(1)] by auto
  obtain i f where "nl_local_if k = Some i" "db_interfaces db i = Some f" using nhdp_refs(2) [OF ok k] by blast
  then show ?thesis using k Some by (intro exI [of _ "ni_index f"]) simp
qed

lemma refreshed_one:
  assumes s: "same_except (but_index (do_index d)) db db'" and b: "best_metric db' p (do_index d) nd"
    and u: "db_neighs db' = (db_neighs db)(p \<mapsto> set_neighbor_data d (\<lambda>_. nd) n)"
  shows "refreshed {(do_index d, p)} db db'"
proof -
  let ?i = "do_index d"
  have p: "best_at db' ?i p" using b by (simp add: best_at_def u set_neighbor_data_def)
  have o: "best_at db ?i q \<Longrightarrow> best_at db' ?i q" "linked_at db ?i q \<Longrightarrow> linked_at db' ?i q" if "q \<noteq> p" for q
    using that best_metric_cong [OF same_exceptD(1,2) [OF s] refl refl refl]
    by (simp_all add: best_at_def linked_at_def u same_exceptD(1) [OF s])
  have "best_at db' j q" if "best_at db j q" for j q
    using that p o(1) kept_elsewhere(1) [OF s] by (cases "j = ?i"; cases "q = p") blast+
  moreover have "linked_at db' j q" if "linked_at db j q" for j q
    using that best_linked [OF p] o(2) kept_elsewhere(2) [OF s] by (cases "j = ?i"; cases "q = p") blast+
  ultimately show ?thesis using p by (auto simp: refreshed_def)
qed

lemma recalculate_ok:
  assumes ok: "nhdp_ok db" and n: "db_neighs db p = Some n"
  shows "\<exists>b db'. recalculate_neighbor_metric p (d, db) = Some (mark_changed b d, db')
    \<and> nhdp_ok db' \<and> same_except (but_index (do_index d)) db db' \<and> refreshed {(do_index d, p)} db db'"
proof -
  let ?i = "do_index d"
  define nd0 where "nd0 = (nn_domaindata n ?i)\<lparr>nd_metric := \<lparr>nm_in = RFC7181_METRIC_INFINITE, nm_out = RFC7181_METRIC_INFINITE\<rparr>, nd_best_link := None\<rparr>"
  have nd0: "nm_in (nd_metric nd0) = RFC7181_METRIC_INFINITE" "nm_out (nd_metric nd0) = RFC7181_METRIC_INFINITE" "nd_best_link nd0 = None"
    by (simp_all add: nd0_def)
  note L = neighbor_links(2) [OF ok n]
  have M: "nl_neigh k = p" if "l \<in> set (nn_links n)" "db_links db l = Some k" for l k using L [of l] that by auto
  have "\<forall>l \<in> set (nn_links n). \<exists>k. db_links db l = Some k" using L by auto
  from best_of_links_ok [OF this, of ?i nd0] obtain nd where nd: "best_of_links ?i db (nn_links n) nd0 = Some nd"
    "\<forall>l \<in> set (nn_links n). \<forall>k. db_links db l = Some k \<longrightarrow> nm_out (nd_metric nd) \<le> nm_out (nl_domaindata k ?i) \<and> nm_in (nd_metric nd) \<le> nm_in (nl_domaindata k ?i)"
    "nm_in (nd_metric nd) = RFC7181_METRIC_INFINITE \<or> (\<exists>l \<in> set (nn_links n). \<exists>k. db_links db l = Some k \<and> nm_in (nd_metric nd) = nm_in (nl_domaindata k ?i))"
    "nm_out (nd_metric nd) = RFC7181_METRIC_INFINITE \<and> nd_best_link nd = None \<or>
       (\<exists>l \<in> set (nn_links n). \<exists>k. nd_best_link nd = Some l \<and> db_links db l = Some k \<and> nm_out (nd_metric nd) = nm_out (nl_domaindata k ?i)
          \<and> nm_out (nd_metric nd) < RFC7181_METRIC_INFINITE)"
    unfolding nd0 by blast
  have "nd_best_link nd = None \<or> (\<exists>l \<in> set (nn_links n). nd_best_link nd = Some l)" using nd(4) by blast
  from best_link_index [OF ok n refl this] obtain x where
    x: "(case nd_best_link nd of None \<Rightarrow> Some nd
      | Some l \<Rightarrow> do { k \<leftarrow> db_links db l; i \<leftarrow> nl_local_if k; f \<leftarrow> db_interfaces db i; Some (nd\<lparr>nd_best_link_ifindex := ni_index f\<rparr>) })
      = Some (nd\<lparr>nd_best_link_ifindex := x\<rparr>)"
    "\<And>l. nd_best_link nd = Some l \<Longrightarrow> \<exists>k i f. db_links db l = Some k \<and> nl_local_if k = Some i \<and> db_interfaces db i = Some f \<and> x = ni_index f"
    by blast
  let ?nd = "nd\<lparr>nd_best_link_ifindex := x\<rparr>"
  obtain db' where db': "upd_neigh p (\<lambda>n. Some (set_neighbor_data d (\<lambda>_. ?nd) n)) db = Some db'" "same_except (but_index ?i) db db'"
    "db_neighs db' = (db_neighs db)(p \<mapsto> set_neighbor_data d (\<lambda>_. ?nd) n)"
    using upd_neigh_same [of db p n "but_index ?i" "set_neighbor_data d (\<lambda>_. ?nd)", OF n but_index_set] by blast
  have best: "best_metric db p ?i ?nd"
    unfolding best_metric_def
  proof (intro conjI)
    show "\<forall>l k. db_links db l = Some k \<longrightarrow> nl_neigh k = p \<longrightarrow>
        nm_out (nd_metric ?nd) \<le> nm_out (nl_domaindata k ?i) \<and> nm_in (nd_metric ?nd) \<le> nm_in (nl_domaindata k ?i)"
    proof (intro allI impI)
      fix l k assume k: "db_links db l = Some k" "nl_neigh k = p"
      then have "l \<in> set (nn_links n)" using L by blast
      then show "nm_out (nd_metric ?nd) \<le> nm_out (nl_domaindata k ?i) \<and> nm_in (nd_metric ?nd) \<le> nm_in (nl_domaindata k ?i)"
        using nd(2) k(1) by simp
    qed
    show "nm_in (nd_metric ?nd) = RFC7181_METRIC_INFINITE \<or>
        (\<exists>l k. db_links db l = Some k \<and> nl_neigh k = p \<and> nm_in (nd_metric ?nd) = nm_in (nl_domaindata k ?i))"
      using nd(3) M by auto
    show "case nd_best_link ?nd of None \<Rightarrow> nm_out (nd_metric ?nd) = RFC7181_METRIC_INFINITE
      | Some l \<Rightarrow> \<exists>k j f. db_links db l = Some k \<and> nl_neigh k = p \<and> nm_out (nd_metric ?nd) = nm_out (nl_domaindata k ?i) \<and>
          nm_out (nd_metric ?nd) < RFC7181_METRIC_INFINITE \<and> nl_local_if k = Some j \<and> db_interfaces db j = Some f \<and>
          nd_best_link_ifindex ?nd = ni_index f"
      using nd(4) M x(2) by (cases "nd_best_link nd") fastforce+
  qed
  from best have b': "best_metric db' p ?i ?nd" using best_metric_cong [OF same_exceptD(1,2) [OF db'(2)] refl refl refl] by metis
  moreover have "same_except neigh_core db db'" by (rule same_except_weaken [OF db'(2)]) (rule but_index_core)
  then have "nhdp_ok db'" using same_except_ok ok by blast
  moreover have "recalculate_neighbor_metric p (d, db) = Some (mark_changed (nd_metric ?nd \<noteq> nd_metric (nn_domaindata n ?i)) d, db')"
    using n nd(1) x(1) db'(1) unfolding nd0_def
    by (simp add: recalculate_neighbor_metric_def mark_changed_def Let_def)
  moreover have "refreshed {(?i, p)} db db'" by (rule refreshed_one [OF db'(2) b' db'(3)])
  ultimately show ?thesis using db'(2) by blast
qed

lemma recalculate_all_ok:
  assumes "nhdp_ok db" "\<forall>p \<in> set ps. db_neighs db p \<noteq> None"
  shows "\<exists>b db'. for_each recalculate_neighbor_metric ps (d, db) = Some (mark_changed b d, db') \<and> nhdp_ok db'
    \<and> same_except (but_index (do_index d)) db db' \<and> refreshed ({do_index d} \<times> set ps) db db'"
  using assms
proof (induction ps arbitrary: d db)
  case Nil
  then show ?case by (intro exI [of _ False] exI [of _ db]) (simp add: mark_changed_def refreshed_refl)
next
  case (Cons p ps)
  let ?i = "do_index d"
  obtain n where n: "db_neighs db p = Some n" using Cons.prems(2) by auto
  obtain c db1 where 1: "recalculate_neighbor_metric p (d, db) = Some (mark_changed c d, db1)"
    "nhdp_ok db1" "same_except (but_index ?i) db db1" "refreshed {(?i, p)} db db1"
    using recalculate_ok [OF Cons.prems(1) n, of d] by blast
  have "\<forall>q \<in> set ps. db_neighs db1 q \<noteq> None" using Cons.prems(2) same_exceptD(11) [OF 1(3)] by simp
  from Cons.IH [OF 1(2) this, of "mark_changed c d"] obtain b db2 where
    2: "for_each recalculate_neighbor_metric ps (mark_changed c d, db1) = Some (mark_changed b (mark_changed c d), db2)"
    "nhdp_ok db2" "same_except (but_index ?i) db1 db2" "refreshed ({?i} \<times> set ps) db1 db2"
    unfolding mark_changed_fields by blast
  have "{(?i, p)} \<union> {?i} \<times> set ps = {?i} \<times> set (p # ps)" by auto
  then have "refreshed ({?i} \<times> set (p # ps)) db db2" using refreshed_trans [OF 1(4) 2(4)] by simp
  moreover have "same_except (but_index ?i) db db2" by (rule same_except_trans [OF 1(3) 2(3)])
  ultimately show ?case using 1(1) 2(1,2) by (simp only: for_each.simps Option.bind.bind_lunit mark_changed_fields) blast
qed

text \<open>A list of neighbors that the change of marks and metrics does not change.\<close>

definition stable_choice :: "(nhdp_db \<Rightarrow> ptr list) \<Rightarrow> nhdp_db \<Rightarrow> bool" where
  "stable_choice who db \<longleftrightarrow> (\<forall>p \<in> set (who db). db_neighs db p \<noteq> None) \<and> (\<forall>db'. same_except neigh_core db db' \<longrightarrow> who db' = who db)"

lemma stable_choice_kept:
  assumes "stable_choice who db" "same_except neigh_core db db'"
  shows "stable_choice who db'" "who db' = who db"
proof -
  show w: "who db' = who db" using assms unfolding stable_choice_def by blast
  have "who db'' = who db" if "same_except neigh_core db' db''" for db''
    using assms(1) same_except_trans [OF assms(2) that] unfolding stable_choice_def by blast
  moreover have "\<forall>p \<in> set (who db). db_neighs db' p \<noteq> None"
    using assms(1) same_exceptD(11) [OF assms(2)] unfolding stable_choice_def by blast
  ultimately show "stable_choice who db'" unfolding stable_choice_def w by blast
qed

lemma domain_changed_ok:
  assumes m: "mpr_contract mpr" and ok: "nhdp_ok db" and who: "stable_choice who db"
  shows "\<exists>b db'. domain_changed mpr who i (ds, db) = Some (ds\<lparr>ds_list := (ds_list ds)[i := mark_changed b (ds_list ds ! i)]\<rparr>, db')
    \<and> nhdp_ok db' \<and> same_except neigh_core db db'
    \<and> refreshed ({do_index (ds_list ds ! i)} \<times> set (who db)) db db'"
proof -
  let ?d = "ds_list ds ! i" and ?i = "do_index (ds_list ds ! i)"
  have "\<forall>p \<in> set (who db). db_neighs db p \<noteq> None" using who unfolding stable_choice_def by blast
  from recalculate_all_ok [OF ok this, of ?d] obtain b db1 where
    1: "for_each recalculate_neighbor_metric (who db) (?d, db) = Some (mark_changed b ?d, db1)" "nhdp_ok db1"
      "same_except (but_index ?i) db db1" "refreshed ({?i} \<times> set (who db)) db db1"
    by blast
  let ?ds = "ds\<lparr>ds_list := (ds_list ds)[i := mark_changed b ?d]\<rparr>"
  obtain db2 where 2: "update_mpr mpr (do_mpr ?d) ?ds db1 = Some db2" "same_except but_mpr db1 db2" "nhdp_ok db2"
    using update_mpr_ok [OF m 1(2)] by blast
  have "same_except neigh_core db db1" by (rule same_except_weaken [OF 1(3)]) (rule but_index_core)
  moreover have "same_except neigh_core db1 db2" by (rule same_except_weaken [OF 2(2)]) (rule but_mpr_core)
  ultimately have "same_except neigh_core db db2" by (rule same_except_trans)
  moreover have "refreshed ({?i} \<times> set (who db)) db db2" using refreshed_trans [OF 1(4) refreshed_mpr [OF 2(2)]] by simp
  moreover have "domain_changed mpr who i (ds, db) = Some (?ds, db2)" using 1(1) 2(1) by (simp add: domain_changed_def Let_def)
  ultimately show ?thesis using 2(3) by blast
qed

text \<open>Only the marks of the domains, the notifications and the flag of the node change.\<close>

definition same_domains :: "domains \<Rightarrow> domains \<Rightarrow> bool" where
  "same_domains ds ds' \<longleftrightarrow> map (mark_changed True) (ds_list ds') = map (mark_changed True) (ds_list ds)
     \<and> ds_flooding ds' = ds_flooding ds \<and> ds_counter ds' = ds_counter ds \<and> ds_listeners ds' = ds_listeners ds"

lemma same_domainsD:
  assumes "same_domains ds ds'"
  shows "map do_index (ds_list ds') = map do_index (ds_list ds)" "map do_ext (ds_list ds') = map do_ext (ds_list ds)"
    "map do_metric (ds_list ds') = map do_metric (ds_list ds)" "map do_mpr (ds_list ds') = map do_mpr (ds_list ds)"
    "length (ds_list ds') = length (ds_list ds)"
proof -
  have m: "map (mark_changed True) (ds_list ds') = map (mark_changed True) (ds_list ds)" using assms by (simp add: same_domains_def)
  have g: "map g (ds_list ds') = map g (ds_list ds)" if "\<And>d. g (mark_changed True d) = g d" for g :: "nhdp_domain \<Rightarrow> 'b"
  proof -
    have "map g X = map g (map (mark_changed True) X)" for X by (simp add: that)
    then show ?thesis using m by metis
  qed
  show "map do_index (ds_list ds') = map do_index (ds_list ds)" "map do_ext (ds_list ds') = map do_ext (ds_list ds)"
    "map do_metric (ds_list ds') = map do_metric (ds_list ds)" "map do_mpr (ds_list ds') = map do_mpr (ds_list ds)"
    by (rule g; simp)+
  show "length (ds_list ds') = length (ds_list ds)" using m by (rule map_eq_imp_length_eq)
qed

lemma same_domains_state:
  assumes "same_domains ds ds'"
  shows "state_ok (ds', ha) = state_ok (ds, ha)"
proof -
  note S = same_domainsD [OF assms]
  have f: "ds_flooding ds' = ds_flooding ds" "ds_counter ds' = ds_counter ds" using assms by (simp_all add: same_domains_def)
  have "metrics_in_use ds' = metrics_in_use ds" "mprs_in_use ds' = mprs_in_use ds"
    by (simp_all only: metrics_in_use_def mprs_in_use_def list.map S f)
  moreover have "domains_ok ds' = domains_ok ds" by (simp only: domains_ok_def S f)
  ultimately show ?thesis by (simp only: state_ok_def prod.case)
qed

lemma for_each_append: "for_each f (xs @ ys) s = for_each f xs s \<bind> for_each f ys"
  by (induction xs arbitrary: s) (auto split: bind_splits)

lemma same_domains_mark: "same_domains ds (ds\<lparr>ds_list := (ds_list ds)[i := mark_changed b (ds_list ds ! i)]\<rparr>)"
proof (cases "i < length (ds_list ds)")
  case True
  have "mark_changed True (mark_changed b d) = mark_changed True d" for d by (simp add: mark_changed_def)
  then show ?thesis using True by (simp add: same_domains_def map_update list_update_same_conv)
next
  case False
  then show ?thesis by (simp add: same_domains_def list_update_beyond)
qed

lemma same_domains_trans: "same_domains a b \<Longrightarrow> same_domains b c \<Longrightarrow> same_domains a c"
  by (simp add: same_domains_def)

lemma domains_changed_ok:
  assumes m: "mpr_contract mpr" and ok: "nhdp_ok db" and who: "stable_choice who db" and k: "k \<le> length (ds_list ds)"
  shows "\<exists>ds' db'. for_each (domain_changed mpr who) [0..<k] (ds, db) = Some (ds', db') \<and> nhdp_ok db' \<and> same_except neigh_core db db'
    \<and> same_domains ds ds' \<and> refreshed (do_index ` set (take k (ds_list ds)) \<times> set (who db)) db db'"
  using k
proof (induction k)
  case 0
  then show ?case using ok by (simp add: same_domains_def refreshed_refl)
next
  case (Suc k)
  then obtain ds1 db1 where 1: "for_each (domain_changed mpr who) [0..<k] (ds, db) = Some (ds1, db1)" "nhdp_ok db1" "same_except neigh_core db db1"
    "same_domains ds ds1" "refreshed (do_index ` set (take k (ds_list ds)) \<times> set (who db)) db db1"
    by auto
  have k: "k < length (ds_list ds)" using Suc.prems by simp
  have i: "do_index (ds_list ds1 ! k) = do_index (ds_list ds ! k)"
    using arg_cong [OF same_domainsD(1) [OF 1(4)], of "\<lambda>l. l ! k"] k same_domainsD(5) [OF 1(4)] by simp
  note s = stable_choice_kept [OF who 1(3)]
  from domain_changed_ok [OF m 1(2) s(1), of k ds1] obtain b db2 where
    2: "domain_changed mpr who k (ds1, db1) = Some (ds1\<lparr>ds_list := (ds_list ds1)[k := mark_changed b (ds_list ds1 ! k)]\<rparr>, db2)"
      "nhdp_ok db2" "same_except neigh_core db1 db2"
      "refreshed ({do_index (ds_list ds ! k)} \<times> set (who db)) db1 db2"
    unfolding i s(2) by blast
  have t: "set (take (Suc k) (ds_list ds)) = insert (ds_list ds ! k) (set (take k (ds_list ds)))"
    using k by (simp add: take_Suc_conv_app_nth)
  have "do_index ` set (take k (ds_list ds)) \<times> set (who db) \<union> {do_index (ds_list ds ! k)} \<times> set (who db)
      = do_index ` set (take (Suc k) (ds_list ds)) \<times> set (who db)"
    unfolding t by auto
  then have "refreshed (do_index ` set (take (Suc k) (ds_list ds)) \<times> set (who db)) db db2"
    using refreshed_trans [OF 1(5) 2(4)] by simp
  moreover have "for_each (domain_changed mpr who) [0..<Suc k] (ds, db) =
      Some (ds1\<lparr>ds_list := (ds_list ds1)[k := mark_changed b (ds_list ds1 ! k)]\<rparr>, db2)"
    by (simp add: for_each_append 1(1) 2(1))
  ultimately show ?case
    using 2(2) same_except_trans [OF 1(3) 2(3)] same_domains_trans [OF 1(4) same_domains_mark] by blast
qed

definition selector_in :: "nhdp_db \<Rightarrow> nat \<Rightarrow> bool" where
  "selector_in db i \<longleftrightarrow> (\<exists>p n. db_neighs db p = Some n \<and> nd_local_is_mpr (nn_domaindata n i))"

lemma has_mpr_selector_ok:
  assumes "\<forall>p \<in> set ps. db_neighs db p \<noteq> None"
  shows "has_mpr_selector db i ps = Some (\<exists>p \<in> set ps. \<exists>n. db_neighs db p = Some n \<and> nd_local_is_mpr (nn_domaindata n i))"
  using assms by (induction ps) fastforce+

lemma any_mpr_selector_ok:
  assumes "nhdp_ok db"
  shows "any_mpr_selector db ds = Some (\<exists>d \<in> set ds. selector_in db (do_index d))"
proof (induction ds)
  case (Cons d ds)
  have "\<forall>p \<in> set (db_neigh_list db). db_neighs db p \<noteq> None" using neigh_list_ok(2) [OF assms] by blast
  from has_mpr_selector_ok [OF this, of "do_index d"]
  have "has_mpr_selector db (do_index d) (db_neigh_list db) = Some (selector_in db (do_index d))"
    using neigh_list_ok(2) [OF assms] by (auto simp: selector_in_def)
  then show ?case using Cons.IH by simp
qed simp

text \<open>A change of the neighborhood returns, and the data of the neighbors in question is up to date.\<close>

lemma changed_ok:
  assumes m: "mpr_contract mpr" and ok: "nhdp_ok db" and who: "stable_choice who db"
  shows "\<exists>ds' db'. changed mpr who q (ds, db) = Some (ds', db') \<and> nhdp_ok db' \<and> same_except neigh_core db db' \<and> same_domains ds ds'
    \<and> refreshed (do_index ` set (ds_list ds) \<times> set (who db)) db db'
    \<and> ds_node_is_selected_as_mpr ds' = (\<exists>d \<in> set (ds_list ds). selector_in db' (do_index d))"
proof -
  from domains_changed_ok [OF m ok who order_refl, of ds] obtain ds1 db1 where
    1: "for_each (domain_changed mpr who) [0..<length (ds_list ds)] (ds, db) = Some (ds1, db1)" "nhdp_ok db1" "same_except neigh_core db db1"
      "same_domains ds ds1" "refreshed (do_index ` set (ds_list ds) \<times> set (who db)) db db1"
    unfolding take_all [OF order_refl] by blast
  have "(\<exists>d \<in> set (ds_list ds1). selector_in db1 (do_index d)) = (\<exists>i \<in> set (map do_index (ds_list ds1)). selector_in db1 i)" by simp
  also have "\<dots> = (\<exists>d \<in> set (ds_list ds). selector_in db1 (do_index d))" unfolding same_domainsD(1) [OF 1(4)] by simp
  finally have sel: "any_mpr_selector db1 (ds_list ds1) = Some (\<exists>d \<in> set (ds_list ds). selector_in db1 (do_index d))"
    by (simp add: any_mpr_selector_ok [OF 1(2)])
  let ?ds = "(notify_listeners q ds1)\<lparr>ds_node_is_selected_as_mpr := (\<exists>d \<in> set (ds_list ds). selector_in db1 (do_index d))\<rparr>"
  have "changed mpr who q (ds, db) = Some (?ds, db1)" using 1(1) sel by (simp add: changed_def notify_listeners_def Let_def)
  moreover have "same_domains ds ?ds" using 1(4) by (simp add: same_domains_def notify_listeners_def)
  ultimately show ?thesis using 1(2,3,5) by (intro exI [of _ ?ds] exI [of _ db1]) simp
qed

lemma stable_neighborhood: "nhdp_ok db \<Longrightarrow> stable_choice db_neigh_list db"
  unfolding stable_choice_def using neigh_list_ok(2) same_exceptD(6) by blast

lemma stable_neighbor: "db_neighs db p \<noteq> None \<Longrightarrow> stable_choice (\<lambda>_. [p]) db"
  unfolding stable_choice_def by simp

subsection \<open>Effects of timers\<close>

text \<open>What a timer does to the tables, up to the data that the metrics and the MPR algorithms own.\<close>

definition plain_neigh :: "nhdp_neighbor \<Rightarrow> nhdp_neighbor" where
  "plain_neigh n = n\<lparr>nn_neigh_is_flooding_mpr := False, nn_local_is_flooding_mpr := False, nn_flooding_willingness := 0,
     nn_domaindata := nn_domaindata new_neighbor\<rparr>"

definition plain_tables :: "nhdp_tables \<Rightarrow> nhdp_tables" where
  "plain_tables t = t\<lparr>tb_neighs := proj plain_neigh (tb_neighs t)\<rparr>"

fun timer_effect :: "hysteresis \<Rightarrow> nhdp_timer \<Rightarrow> nhdp_tables \<Rightarrow> nhdp_tables" where
  "timer_effect hy (Link_Vtime l) t = (case tb_links t l of None \<Rightarrow> t | Some k \<Rightarrow>
     let t = remove_links (\<lambda>x. x = l)
           (only_if (nl_status k = NHDP_LINK_SYMMETRIC) (not_symmetric l (nl_neigh k) (hold_time t k)) t)
     in only_if (\<forall>x j. tb_links t x = Some j \<longrightarrow> nl_neigh j \<noteq> nl_neigh k) (remove_neighbor (nl_neigh k)) t)"
| "timer_effect hy (Link_Heard_Time l) t = update_status hy l (set_link l (\<lambda>k. k\<lparr>nl_heard_time := None\<rparr>) t)"
| "timer_effect hy (Link_Sym_Time l) t = update_status hy l (set_link l (\<lambda>k. k\<lparr>nl_sym_time := None\<rparr>) t)"
| "timer_effect hy (Naddr_Lost_Vtime x) t = t\<lparr>tb_naddrs := (tb_naddrs t)(x := None)\<rparr>"
| "timer_effect hy (L2hop_Vtime x) t = t\<lparr>tb_l2hops := (tb_l2hops t)(x := None)\<rparr>"

text \<open>The object with this timer exists, and the timer runs.\<close>

fun timer_runs :: "nhdp_timer \<Rightarrow> nhdp_tables \<Rightarrow> bool" where
  "timer_runs (Link_Vtime l) t \<longleftrightarrow> (\<exists>k. tb_links t l = Some k \<and> nl_vtime k \<noteq> None)"
| "timer_runs (Link_Heard_Time l) t \<longleftrightarrow> (\<exists>k. tb_links t l = Some k \<and> nl_heard_time k \<noteq> None)"
| "timer_runs (Link_Sym_Time l) t \<longleftrightarrow> (\<exists>k. tb_links t l = Some k \<and> nl_sym_time k \<noteq> None)"
| "timer_runs (Naddr_Lost_Vtime x) t \<longleftrightarrow> (\<exists>a. tb_naddrs t x = Some a \<and> nx_lost_vtime a \<noteq> None)"
| "timer_runs (L2hop_Vtime x) t \<longleftrightarrow> (\<exists>h. tb_l2hops t x = Some h \<and> l2_vtime h \<noteq> None)"

text \<open>Best links over the tables.\<close>

definition linked :: "nat \<Rightarrow> nhdp_tables \<Rightarrow> ptr \<Rightarrow> bool" where
  "linked i t p \<longleftrightarrow> (\<forall>n l. tb_neighs t p = Some n \<longrightarrow> nd_best_link (nn_domaindata n i) = Some l \<longrightarrow>
     (\<exists>k. tb_links t l = Some k \<and> nl_neigh k = p))"

lemma bare_data [simp]: "nn_domaindata (bare_neigh n) = nn_domaindata n"
  by (simp add: bare_neigh_def)

lemma linked_tables: "linked_at db i p = linked i (tables db) p"
  by (auto simp: linked_at_def linked_def tables_def proj_apply)

lemma linked_cong:
  assumes "map_option nn_domaindata (tb_neighs t' p) = map_option nn_domaindata (tb_neighs t p)"
    "\<And>l. map_option nl_neigh (tb_links t' l) = map_option nl_neigh (tb_links t l)"
  shows "linked i t' p = linked i t p"
proof -
  have n: "linked i s p \<longleftrightarrow> (\<forall>f l. map_option nn_domaindata (tb_neighs s p) = Some f \<longrightarrow> nd_best_link (f i) = Some l \<longrightarrow>
      map_option nl_neigh (tb_links s l) = Some p)" for s
    by (cases "tb_neighs s p") (auto simp: linked_def)
  show ?thesis unfolding n assms by (rule refl)
qed

lemma linked_simps [simp]:
  "linked i (t\<lparr>tb_naddrs := a\<rparr>) p = linked i t p" "linked i (t\<lparr>tb_l2hops := b\<rparr>) p = linked i t p"
  "linked i (t\<lparr>tb_interfaces := c\<rparr>) p = linked i t p" "linked i (t\<lparr>tb_laddrs := d\<rparr>) p = linked i t p"
  "linked i (mark_lost q v t) p = linked i t p" "linked i (add_symmetric q x t) p = linked i t p"
  by (rule linked_cong; simp add: mark_lost_def add_symmetric_def option.map_comp comp_def)+

lemma linked_steps [simp]:
  "linked i (not_symmetric l q h t) p = linked i t p" "linked i (now_symmetric q t) p = linked i t p"
  "linked i (flooding_update f t) p = linked i t p"
  by (simp_all add: not_symmetric_def now_symmetric_def flooding_update_def Let_def)

lemma linked_set_link: "(\<And>k. nl_neigh (g k) = nl_neigh k) \<Longrightarrow> linked i (set_link l g t) p = linked i t p"
  by (rule linked_cong) (simp_all add: set_link_def option.map_comp comp_def)

lemma linked_only_if: "(\<And>s. linked i (f s) p = linked i s p) \<Longrightarrow> linked i (only_if b f t) p = linked i t p"
  by (simp add: only_if_def)

lemma linked_update_status: "linked i (update_status hy l t) p = linked i t p"
  by (simp add: update_status_def Let_def only_if_def linked_set_link split: option.split)

lemma linked_remove_links:
  assumes "linked i t p" "\<And>l k. S l \<Longrightarrow> tb_links t l = Some k \<Longrightarrow> nl_neigh k \<noteq> p"
  shows "linked i (remove_links S t) p"
proof -
  have "nl_neigh (without_link S k) = nl_neigh k" for k by (simp add: without_link_def split: option.split)
  then show ?thesis using assms unfolding linked_def by (fastforce simp: remove_links_def)
qed

lemma linked_remove_neighbor:
  assumes "linked i t q"
  shows "linked i (remove_neighbor p t) q"
proof (cases "q = p")
  case False
  let ?S = "\<lambda>l. case tb_links t l of None \<Rightarrow> False | Some k \<Rightarrow> nl_neigh k = p"
  have "linked i (remove_links ?S t) q" using assms False by (rule_tac linked_remove_links) auto
  moreover have e: "nn_domaindata (if b then x\<lparr>nn_dualstack_partner := y\<rparr> else x) = nn_domaindata x" for b x y by simp
  have "linked i (remove_neighbor p t) q = linked i (remove_links ?S t) q"
    using False by (intro linked_cong) (simp_all add: e remove_neighbor_def remove_links_def neigh_partner.lone_def option.map_comp comp_def)
  ultimately show ?thesis by simp
qed (simp add: linked_def remove_neighbor_def)

lemma core_plain:
  assumes "same_except neigh_core db db'"
  shows "plain_tables (tables db') = plain_tables (tables db)"
proof -
  have "proj (\<lambda>n. plain_neigh (bare_neigh n)) (db_neighs db') = proj (\<lambda>n. plain_neigh (bare_neigh n)) (db_neighs db)"
    by (rule proj_weaken [OF same_exceptD(12) [OF assms]]) (simp add: neigh_core_def plain_neigh_def bare_neigh_def)
  then show ?thesis
    by (simp add: plain_tables_def tables_def same_exceptD(1-5) [OF assms] proj_def option.map_comp comp_def)
qed

lemma neighbor_changed_ok:
  assumes m: "mpr_contract mpr" and ok: "nhdp_ok db" and p: "db_neighs db p \<noteq> None"
  shows "\<exists>ds' db'. nhdp_domain_neighbor_changed mpr p (ds, db) = Some (ds', db') \<and> nhdp_ok db' \<and> same_domains ds ds'
    \<and> plain_tables (tables db') = plain_tables (tables db) \<and> refreshed (do_index ` set (ds_list ds) \<times> {p}) db db'"
  using changed_ok [OF m ok stable_neighbor [OF p], of "Some p" ds] core_plain
  by (simp only: nhdp_domain_neighbor_changed_def list.set) blast

lemma neighborhood_changed_ok:
  assumes m: "mpr_contract mpr" and ok: "nhdp_ok db"
  shows "\<exists>ds' db'. nhdp_domain_neighborhood_changed mpr (ds, db) = Some (ds', db') \<and> nhdp_ok db' \<and> same_domains ds ds'
    \<and> plain_tables (tables db') = plain_tables (tables db) \<and> refreshed (do_index ` set (ds_list ds) \<times> set (db_neigh_list db)) db db'"
  using changed_ok [OF m ok stable_neighborhood [OF ok], of None ds] core_plain
  by (simp only: nhdp_domain_neighborhood_changed_def) blast

text \<open>What holds after a timer: \<open>t\<close> is the effect on the tables.\<close>

definition best_links_live :: "domains \<Rightarrow> nhdp_db \<Rightarrow> bool" where
  "best_links_live ds db \<longleftrightarrow> (\<forall>d \<in> set (ds_list ds). \<forall>p. linked_at db (do_index d) p)"

definition timer_post :: "domains \<Rightarrow> nhdp_db \<Rightarrow> nhdp_tables \<Rightarrow> domains \<times> nhdp_db \<Rightarrow> bool" where
  "timer_post ds db t = (\<lambda>(ds', db'). nhdp_ok db' \<and> same_domains ds ds' \<and> plain_tables (tables db') = plain_tables t
     \<and> (best_links_live ds db \<longrightarrow> best_links_live ds' db'))"

lemma best_links_same: "same_domains ds ds' \<Longrightarrow> best_links_live ds' db = best_links_live ds db"
proof -
  assume "same_domains ds ds'"
  from same_domainsD(1) [OF this] have "do_index ` set (ds_list ds') = do_index ` set (ds_list ds)" by (metis set_map)
  then show ?thesis unfolding best_links_live_def by (metis image_iff)
qed

lemma timer_post_db:
  assumes "nhdp_ok db'" "tables db' = t" "\<And>i p. linked i (tables db) p \<Longrightarrow> linked i t p"
  shows "timer_post ds db t (ds, db')"
  using assms by (auto simp: timer_post_def same_domains_def best_links_live_def linked_tables)

lemma timer_post_changed:
  assumes ok: "nhdp_ok db1" and t: "tables db1 = t" and s: "same_domains ds ds'" and ok': "nhdp_ok db'"
    and c: "plain_tables (tables db') = plain_tables (tables db1)"
    and r: "refreshed (do_index ` set (ds_list ds) \<times> P) db1 db'" and l: "\<And>i p. linked i (tables db) p \<Longrightarrow> p \<in> P \<or> linked i t p"
  shows "timer_post ds db t (ds', db')"
proof -
  have "linked_at db' (do_index d) p" if d: "d \<in> set (ds_list ds)" and a: "linked_at db (do_index d) p" for d p
    using l [of "do_index d" p] a r d best_linked [of db' "do_index d" p] unfolding linked_tables refreshed_def t by blast
  then have "best_links_live ds db \<longrightarrow> best_links_live ds db'" by (auto simp: best_links_live_def)
  then show ?thesis using s ok' c t by (simp add: timer_post_def best_links_same [OF s])
qed

lemma timer_stop_commutes: "not_symmetric l p h (set_link x g t) = set_link x g (not_symmetric l p h t)"
  by (cases t) (auto simp: not_symmetric_def set_link_def Let_def add_symmetric_def symmetric_count_def mark_lost_def)

lemma remove_links_stopped: "remove_links (\<lambda>x. x = l) (set_link l g t) = remove_links (\<lambda>x. x = l) t"
  by (simp add: remove_links_def set_link_def fun_eq_iff)

lemma tb_links_steps [simp]:
  "tb_links (mark_lost q v t) = tb_links t" "tb_links (add_symmetric q x t) = tb_links t" "tb_links (not_symmetric l q h t) = tb_links t"
  "tb_links (now_symmetric q t) = tb_links t" "tb_links (flooding_update f t) = tb_links t"
  by (simp_all add: mark_lost_def add_symmetric_def not_symmetric_def now_symmetric_def flooding_update_def Let_def)

lemma update_status_links: "tb_links (update_status hy l t) x = None \<longleftrightarrow> tb_links t x = None"
  by (simp add: update_status_def set_link_def only_if_def Let_def split: option.split)

lemma stop_link_timer:
  assumes ok: "nhdp_ok db" and l: "tb_links (tables db) l = Some k0"
    and g: "\<And>k. bare_link (g k) = g (bare_link k)" "\<And>k. link_core (g k) = link_core k" "\<And>k. nl_addresses (g k) = nl_addresses k"
      "\<And>k. nl_2hop (g k) = nl_2hop k" "\<And>k. nl_dualstack_partner (g k) = nl_dualstack_partner k"
  shows "\<exists>db'. upd_link l (\<lambda>k. Some (g k)) db = Some db' \<and> nhdp_ok db' \<and> tables db' = set_link l g (tables db) \<and> (\<exists>k. db_links db' l = Some k)"
proof -
  obtain k where k: "db_links db l = Some k" using l by (auto simp: tables_def proj_apply)
  show ?thesis using set_link_ok [OF ok k, of g] g by blast
qed

text \<open>The timers that end in an update of the status of a link.\<close>

lemma link_timer_ok:
  assumes "nhdp_ok db" "tb_links (tables db) l = Some k0"
    and "\<And>k. bare_link (g k) = g (bare_link k)" "\<And>k. link_core (g k) = link_core k" "\<And>k. nl_addresses (g k) = nl_addresses k"
      "\<And>k. nl_2hop (g k) = nl_2hop k" "\<And>k. nl_dualstack_partner (g k) = nl_dualstack_partner k" "\<And>k. nl_neigh (g k) = nl_neigh k"
  shows "\<exists>db1 db2. upd_link l (\<lambda>k. Some (g k)) db = Some db1 \<and> nhdp_db_link_update_status hy l db1 = Some db2 \<and> nhdp_ok db2
    \<and> tables db2 = update_status hy l (set_link l g (tables db)) \<and> (\<forall>i p. linked i (tables db2) p = linked i (tables db) p)
    \<and> (\<exists>k. db_links db2 l = Some k)"
proof -
  obtain db1 k where 1: "upd_link l (\<lambda>k. Some (g k)) db = Some db1" "nhdp_ok db1" "tables db1 = set_link l g (tables db)" "db_links db1 l = Some k"
    using stop_link_timer [OF assms(1-7)] by blast
  obtain db2 where 2: "nhdp_db_link_update_status hy l db1 = Some db2" "nhdp_ok db2" "tables db2 = update_status hy l (tables db1)"
    using link_update_status_ok [OF 1(2,4)] by blast
  have "tb_links (update_status hy l (tables db1)) l \<noteq> None"
    using 1(4) unfolding update_status_links by (simp add: tables_simps(5))
  then obtain k' where "db_links db2 l = Some k'" using tables_links [of db2 l] by (auto simp: 2(3) [symmetric])
  moreover have "linked i (tables db2) p = linked i (tables db) p" for i p
    by (simp add: 2(3) 1(3) linked_update_status linked_set_link assms(8))
  ultimately show ?thesis using 1(1) 2 1(3) by auto
qed

lemma heard_timer_ok:
  assumes "nhdp_ok db" "timer_runs (Link_Heard_Time l) (tables db)"
  shows "\<exists>st. timer_fires mpr hy (Link_Heard_Time l) (ds, db) = Some st \<and> timer_post ds db (timer_effect hy (Link_Heard_Time l) (tables db)) st"
proof -
  let ?g = "\<lambda>k. k\<lparr>nl_heard_time := None\<rparr>"
  obtain k where "tb_links (tables db) l = Some k" using assms(2) by auto
  then obtain db1 db2 where 1: "upd_link l (\<lambda>k. Some (?g k)) db = Some db1" "nhdp_db_link_update_status hy l db1 = Some db2" "nhdp_ok db2"
    "tables db2 = update_status hy l (set_link l ?g (tables db))" "\<forall>i p. linked i (tables db2) p = linked i (tables db) p"
    using link_timer_ok [OF assms(1), of l k ?g hy] by (auto simp: bare_link_def)
  have "timer_post ds db (timer_effect hy (Link_Heard_Time l) (tables db)) (ds, db2)"
    using timer_post_db [OF 1(3) refl] 1(5) by (simp add: 1(4))
  then show ?thesis using 1(1,2) by (simp add: cb_link_heard_def)
qed

lemma symtime_timer_ok:
  assumes "mpr_contract mpr" "nhdp_ok db" "timer_runs (Link_Sym_Time l) (tables db)"
  shows "\<exists>st. timer_fires mpr hy (Link_Sym_Time l) (ds, db) = Some st \<and> timer_post ds db (timer_effect hy (Link_Sym_Time l) (tables db)) st"
proof -
  let ?g = "\<lambda>k. k\<lparr>nl_sym_time := None\<rparr>"
  obtain k0 where "tb_links (tables db) l = Some k0" using assms(3) by auto
  then obtain db1 db2 k where 1: "upd_link l (\<lambda>k. Some (?g k)) db = Some db1" "nhdp_db_link_update_status hy l db1 = Some db2" "nhdp_ok db2"
    "tables db2 = update_status hy l (set_link l ?g (tables db))" "\<forall>i p. linked i (tables db2) p = linked i (tables db) p"
    "db_links db2 l = Some k"
    using link_timer_ok [OF assms(2), of l k0 ?g hy] by (auto simp: bare_link_def)
  have "db_neighs db2 (nl_neigh k) \<noteq> None" using nhdp_refs(2) [OF 1(3,6)] by auto
  from neighbor_changed_ok [OF assms(1) 1(3) this, of ds] obtain ds' db' where
    2: "nhdp_domain_neighbor_changed mpr (nl_neigh k) (ds, db2) = Some (ds', db')" "nhdp_ok db'" "same_domains ds ds'"
      "plain_tables (tables db') = plain_tables (tables db2)" "refreshed (do_index ` set (ds_list ds) \<times> {nl_neigh k}) db2 db'"
    by blast
  have "timer_post ds db (tables db2) (ds', db')"
    using timer_post_changed [OF 1(3) refl 2(3,2,4,5)] 1(5) by simp
  moreover have "timer_fires mpr hy (Link_Sym_Time l) (ds, db) = Some (ds', db')"
    using 1(1,2,6) 2(1) by (simp add: cb_link_symtime_def)
  ultimately show ?thesis by (simp only: timer_effect.simps 1(4)) blast
qed

lemma naddr_timer_ok:
  assumes "nhdp_ok db" "timer_runs (Naddr_Lost_Vtime x) (tables db)"
  shows "\<exists>st. timer_fires mpr hy (Naddr_Lost_Vtime x) (ds, db) = Some st \<and> timer_post ds db (timer_effect hy (Naddr_Lost_Vtime x) (tables db)) st"
proof -
  let ?f = "\<lambda>a. a\<lparr>nx_lost_vtime := None\<rparr>"
  obtain a where a: "db_naddrs db x = Some a" using assms(2) by (auto simp: tables_simps)
  obtain db1 where 1: "upd_naddr x ?f db = Some db1" "nhdp_ok db1" "tables db1 = (tables db)\<lparr>tb_naddrs := (db_naddrs db)(x \<mapsto> ?f a)\<rparr>"
    using upd_naddr_ok [OF assms(1) a, of ?f] by auto
  have e: "db_naddrs db1 = (db_naddrs db)(x \<mapsto> ?f a)" using arg_cong [OF 1(3), of tb_naddrs] by (simp add: tables_simps(3))
  then have a1: "db_naddrs db1 x = Some (?f a)" by simp
  obtain db2 where 2: "nhdp_db_neighbor_addr_remove x db1 = Some db2" "nhdp_ok db2" "tables db2 = (tables db1)\<lparr>tb_naddrs := (db_naddrs db1)(x := None)\<rparr>"
    using neighbor_addr_remove_ok [OF 1(2) a1] by blast
  have t: "tables db2 = timer_effect hy (Naddr_Lost_Vtime x) (tables db)"
    by (simp add: 2(3) 1(3) e tables_simps(3))
  have "timer_post ds db (tables db2) (ds, db2)" using timer_post_db [OF 2(2) refl] by (simp add: t)
  then show ?thesis using 1(1) 2(1) by (simp only: t [symmetric]) (simp add: cb_naddr_vtime_def)
qed

lemma l2hop_timer_ok:
  assumes "mpr_contract mpr" "nhdp_ok db" "timer_runs (L2hop_Vtime x) (tables db)"
  shows "\<exists>st. timer_fires mpr hy (L2hop_Vtime x) (ds, db) = Some st \<and> timer_post ds db (timer_effect hy (L2hop_Vtime x) (tables db)) st"
proof -
  let ?f = "\<lambda>h. h\<lparr>l2_vtime := None\<rparr>"
  obtain h where h: "db_l2hops db x = Some h" using assms(3) by (auto simp: tables_simps)
  obtain db1 where 1: "upd_l2hop x ?f db = Some db1" "nhdp_ok db1" "tables db1 = (tables db)\<lparr>tb_l2hops := (db_l2hops db)(x \<mapsto> ?f h)\<rparr>"
    using upd_l2hop_ok [OF assms(2) h, of ?f] by auto
  have e: "db_l2hops db1 = (db_l2hops db)(x \<mapsto> ?f h)" using arg_cong [OF 1(3), of tb_l2hops] by (simp add: tables_simps(2))
  then have h1: "db_l2hops db1 x = Some (?f h)" by simp
  obtain k where k: "db_links db1 (l2_link h) = Some k" using nhdp_refs(4) [OF 1(2) h1] by auto
  obtain n where n: "db_neighs db1 (nl_neigh k) = Some n" using nhdp_refs(2) [OF 1(2) k] by blast
  obtain db2 where 2: "nhdp_db_link_2hop_remove x db1 = Some db2" "nhdp_ok db2" "tables db2 = (tables db1)\<lparr>tb_l2hops := (db_l2hops db1)(x := None)\<rparr>"
    using link_2hop_remove_ok [OF 1(2) h1] by blast
  have t: "tables db2 = timer_effect hy (L2hop_Vtime x) (tables db)"
    by (simp add: 2(3) 1(3) e tables_simps(2))
  have "tb_neighs (tables db2) (nl_neigh k) \<noteq> None" using tables_simps(6) [of db1] n by (simp add: 2(3))
  then have "db_neighs db2 (nl_neigh k) \<noteq> None" by (simp add: tables_simps(6))
  from neighbor_changed_ok [OF assms(1) 2(2) this, of ds] obtain ds' db' where
    3: "nhdp_domain_neighbor_changed mpr (nl_neigh k) (ds, db2) = Some (ds', db')" "nhdp_ok db'" "same_domains ds ds'"
      "plain_tables (tables db') = plain_tables (tables db2)" "refreshed (do_index ` set (ds_list ds) \<times> {nl_neigh k}) db2 db'"
    by blast
  have "timer_post ds db (tables db2) (ds', db')"
    by (rule timer_post_changed [OF 2(2) refl 3(3,2,4,5)]) (simp add: t)
  moreover have "timer_fires mpr hy (L2hop_Vtime x) (ds, db) = Some (ds', db')"
    using 1(1) 2(1) h1 k 3(1) by (simp add: cb_l2hop_vtime_def)
  ultimately show ?thesis using t by auto
qed

text \<open>The first half of the timer of the validity of a link: the link goes.\<close>

definition lost_link :: "ptr \<Rightarrow> nhdp_link \<Rightarrow> nhdp_tables \<Rightarrow> nhdp_tables" where
  "lost_link l k t = remove_links (\<lambda>x. x = l) (only_if (nl_status k = NHDP_LINK_SYMMETRIC) (not_symmetric l (nl_neigh k) (hold_time t k)) t)"

lemma lost_link_stopped:
  "lost_link l (k\<lparr>nl_vtime := v\<rparr>) (set_link l g t) = lost_link l k t"
  by (simp add: lost_link_def only_if_def timer_stop_commutes remove_links_stopped hold_time_def) (simp add: set_link_def)

lemma lost_link_linked:
  assumes "linked i t p" "tb_links t l = Some k" "p \<noteq> nl_neigh k"
  shows "linked i (lost_link l k t) p"
  unfolding lost_link_def
  by (rule linked_remove_links) (use assms in \<open>auto simp: only_if_def split: if_splits\<close>)

lemma lost_link_neighs: "tb_neighs (lost_link l k t) p = None \<longleftrightarrow> tb_neighs t p = None"
  by (simp add: lost_link_def remove_links_def only_if_def not_symmetric_def mark_lost_def add_symmetric_def Let_def)

lemma link_lost_ok:
  assumes ok: "nhdp_ok db" and l: "db_links db l = Some k"
  shows "\<exists>db1 db2 n. (if nl_status k = NHDP_LINK_SYMMETRIC then link_status_not_symmetric_anymore l db else Some db) = Some db1
    \<and> nhdp_db_link_remove l db1 = Some db2 \<and> nhdp_ok db2 \<and> tables db2 = lost_link l (bare_link k) (tables db)
    \<and> db_neighs db2 (nl_neigh k) = Some n"
proof -
  let ?sym = "nl_status k = NHDP_LINK_SYMMETRIC" and ?p = "nl_neigh k"
  obtain i f n where i: "nl_local_if k = Some i" "db_interfaces db i = Some f" and n: "db_neighs db ?p = Some n" using nhdp_refs(2) [OF ok l] by blast
  have h: "hold_time (tables db) (bare_link k) = ni_n_hold_time f" by (rule hold_time_ok [OF i])
  obtain db1 where 1: "(if ?sym then link_status_not_symmetric_anymore l db else Some db) = Some db1" "nhdp_ok db1"
    "tables db1 = only_if ?sym (not_symmetric l ?p (ni_n_hold_time f)) (tables db)"
    using not_symmetric_ok [OF ok l i] ok by (cases ?sym) (auto simp: only_if_def)
  have "tb_links (tables db1) l = Some (bare_link k)" by (simp add: 1(3) only_if_def tables_simps(5) [OF l])
  then obtain k1 where k1: "db_links db1 l = Some k1" using tables_links by blast
  obtain db2 where 2: "nhdp_db_link_remove l db1 = Some db2" "nhdp_ok db2" "tables db2 = remove_links (\<lambda>x. x = l) (tables db1)"
    using link_remove_ok [OF 1(2) k1] by blast
  have t: "tables db2 = lost_link l (bare_link k) (tables db)" by (simp add: 2(3) 1(3) lost_link_def h)
  have "tb_neighs (tables db2) ?p \<noteq> None" unfolding t lost_link_neighs by (simp add: tables_simps(4) [OF n])
  then have "db_neighs db2 ?p \<noteq> None" unfolding tables_simps(6) .
  then show ?thesis using 1(1) 2(1,2) t by blast
qed

lemma no_link_tables:
  "(\<forall>x j. tb_links (tables db) x = Some j \<longrightarrow> nl_neigh j \<noteq> p) \<longleftrightarrow> (\<forall>x j. db_links db x = Some j \<longrightarrow> nl_neigh j \<noteq> p)"
proof -
  have "(\<forall>j. map_option bare_link m = Some j \<longrightarrow> nl_neigh j \<noteq> p) \<longleftrightarrow> (\<forall>j. m = Some j \<longrightarrow> nl_neigh j \<noteq> p)" for m
    by (cases m) simp_all
  moreover have "tb_links (tables db) x = map_option bare_link (db_links db x)" for x by (simp add: tables_def proj_apply)
  ultimately show ?thesis by presburger
qed

lemma vtime_timer_begins:
  assumes ok: "nhdp_ok db" and k: "db_links db l = Some k"
  shows "\<exists>db2 n. timer_fires mpr hy (Link_Vtime l) (ds, db) = (if nn_links n = []
        then nhdp_db_neighbor_remove (nl_neigh k) db2 \<bind> (\<lambda>db. nhdp_domain_neighborhood_changed mpr (ds, db))
        else nhdp_domain_neighbor_changed mpr (nl_neigh k) (ds, db2))
    \<and> nhdp_ok db2 \<and> tables db2 = lost_link l (bare_link k) (tables db) \<and> db_neighs db2 (nl_neigh k) = Some n
    \<and> (nn_links n = [] \<longleftrightarrow> (\<forall>x j. tb_links (tables db2) x = Some j \<longrightarrow> nl_neigh j \<noteq> nl_neigh k))"
proof -
  let ?g = "\<lambda>k. k\<lparr>nl_vtime := None\<rparr>"
  let ?p = "nl_neigh k" and ?t = "lost_link l (bare_link k) (tables db)"
  obtain db0 where 0: "upd_link l (\<lambda>k. Some (?g k)) db = Some db0" "nhdp_ok db0" "tables db0 = set_link l ?g (tables db)" "db_links db0 l = Some (?g k)"
    using set_link_ok [OF ok k, of ?g] by (auto simp: bare_link_def)
  obtain db1 db2 n where 1: "(if nl_status (?g k) = NHDP_LINK_SYMMETRIC then link_status_not_symmetric_anymore l db0 else Some db0) = Some db1"
    "nhdp_db_link_remove l db1 = Some db2" "nhdp_ok db2" "tables db2 = lost_link l (bare_link (?g k)) (tables db0)" "db_neighs db2 (nl_neigh (?g k)) = Some n"
    using link_lost_ok [OF 0(2,4)] by blast
  have "bare_link (?g k) = ?g (bare_link k)" by (simp add: bare_link_def)
  then have t: "tables db2 = ?t" unfolding 1(4) 0(3) by (simp only: lost_link_stopped)
  have n: "db_neighs db2 ?p = Some n" using 1(5) by simp
  have "nn_links n = [] \<longleftrightarrow> (\<forall>x j. db_links db2 x = Some j \<longrightarrow> nl_neigh j \<noteq> ?p)"
    using neighbor_links(2) [OF 1(3) n] by (metis list.set_intros(1) neq_Nil_conv empty_iff list.set(1))
  then have "nn_links n = [] \<longleftrightarrow> (\<forall>x j. tb_links (tables db2) x = Some j \<longrightarrow> nl_neigh j \<noteq> ?p)"
    unfolding no_link_tables .
  moreover have "timer_fires mpr hy (Link_Vtime l) (ds, db) = (if nn_links n = []
      then nhdp_db_neighbor_remove ?p db2 \<bind> (\<lambda>db. nhdp_domain_neighborhood_changed mpr (ds, db)) else nhdp_domain_neighbor_changed mpr ?p (ds, db2))"
    using 0(1,4) 1(1,2) n by (simp add: cb_link_vtime_def Let_def)
  ultimately show ?thesis using 1(3) t n by blast
qed

lemma vtime_timer_ok:
  assumes m: "mpr_contract mpr" and ok: "nhdp_ok db" and runs: "timer_runs (Link_Vtime l) (tables db)"
  shows "\<exists>st. timer_fires mpr hy (Link_Vtime l) (ds, db) = Some st \<and> timer_post ds db (timer_effect hy (Link_Vtime l) (tables db)) st"
proof -
  obtain k where k: "db_links db l = Some k" using runs by (auto simp: tables_def proj_apply)
  let ?p = "nl_neigh k" and ?t = "lost_link l (bare_link k) (tables db)"
  let ?last = "\<forall>x j. tb_links ?t x = Some j \<longrightarrow> nl_neigh j \<noteq> ?p"
  have tk: "tb_links (tables db) l = Some (bare_link k)" by (rule tables_simps(5) [OF k])
  have eff: "timer_effect hy (Link_Vtime l) (tables db) = only_if ?last (remove_neighbor ?p) ?t"
    by (simp add: tk lost_link_def Let_def)
  from vtime_timer_begins [OF ok k, of mpr hy ds] obtain db2 n where
    fires: "timer_fires mpr hy (Link_Vtime l) (ds, db) = (if nn_links n = []
      then nhdp_db_neighbor_remove ?p db2 \<bind> (\<lambda>db. nhdp_domain_neighborhood_changed mpr (ds, db)) else nhdp_domain_neighbor_changed mpr ?p (ds, db2))"
    and ok2: "nhdp_ok db2" and t: "tables db2 = ?t" and n: "db_neighs db2 ?p = Some n"
    and last: "nn_links n = [] \<longleftrightarrow> (\<forall>x j. tb_links (tables db2) x = Some j \<longrightarrow> nl_neigh j \<noteq> ?p)"
    by blast
  note last = last [unfolded t]
  show ?thesis
  proof (cases "nn_links n = []")
    case True
    obtain db3 where 3: "nhdp_db_neighbor_remove ?p db2 = Some db3" "nhdp_ok db3" "tables db3 = remove_neighbor ?p ?t"
      using neighbor_remove_ok [OF ok2 n] t by auto
    obtain ds' db' where 4: "nhdp_domain_neighborhood_changed mpr (ds, db3) = Some (ds', db')" "nhdp_ok db'" "same_domains ds ds'"
      "plain_tables (tables db') = plain_tables (tables db3)" "refreshed (do_index ` set (ds_list ds) \<times> set (db_neigh_list db3)) db3 db'"
      using neighborhood_changed_ok [OF m 3(2), of ds] by blast
    have "linked i (remove_neighbor ?p ?t) q" if "linked i (tables db) q" for i q
      using lost_link_linked [OF that tk] linked_remove_neighbor [of i ?t q ?p]
      by (cases "q = ?p") (auto simp: linked_def remove_neighbor_def)
    then have "timer_post ds db (remove_neighbor ?p ?t) (ds', db')" using timer_post_changed [OF 3(2,3) 4(3,2,4,5)] by blast
    moreover have "timer_fires mpr hy (Link_Vtime l) (ds, db) = Some (ds', db')" unfolding fires if_P [OF True] using 3(1) 4(1) by simp
    moreover have "timer_effect hy (Link_Vtime l) (tables db) = remove_neighbor ?p ?t"
      unfolding eff only_if_def by (rule if_P) (rule iffD1 [OF last True])
    ultimately show ?thesis by metis
  next
    case False
    obtain ds' db' where 4: "nhdp_domain_neighbor_changed mpr ?p (ds, db2) = Some (ds', db')" "nhdp_ok db'" "same_domains ds ds'"
      "plain_tables (tables db') = plain_tables (tables db2)" "refreshed (do_index ` set (ds_list ds) \<times> {?p}) db2 db'"
      using neighbor_changed_ok [OF m ok2, of ?p ds] n by blast
    have "timer_post ds db ?t (ds', db')"
      by (rule timer_post_changed [OF ok2 t 4(3,2,4,5)]) (use lost_link_linked [OF _ tk] in auto)
    moreover have "timer_fires mpr hy (Link_Vtime l) (ds, db) = Some (ds', db')" unfolding fires if_not_P [OF False] by (rule 4(1))
    moreover have "\<not> ?last" using False unfolding last .
    then have "timer_effect hy (Link_Vtime l) (tables db) = ?t" unfolding eff only_if_def by (rule if_not_P)
    ultimately show ?thesis by metis
  qed
qed

lemma timer_ok:
  assumes "mpr_contract mpr" "nhdp_ok db" "timer_runs x (tables db)"
  shows "\<exists>st. timer_fires mpr hy x (ds, db) = Some st \<and> timer_post ds db (timer_effect hy x (tables db)) st"
proof (cases x)
  case (Link_Vtime l)
  show ?thesis using vtime_timer_ok [OF assms(1,2)] assms(3) unfolding Link_Vtime by blast
next
  case (Link_Heard_Time l)
  show ?thesis using heard_timer_ok [OF assms(2)] assms(3) unfolding Link_Heard_Time by blast
next
  case (Link_Sym_Time l)
  show ?thesis using symtime_timer_ok [OF assms(1,2)] assms(3) unfolding Link_Sym_Time by blast
next
  case (Naddr_Lost_Vtime y)
  show ?thesis using naddr_timer_ok [OF assms(2)] assms(3) unfolding Naddr_Lost_Vtime by blast
next
  case (L2hop_Vtime y)
  show ?thesis using l2hop_timer_ok [OF assms(1,2)] assms(3) unfolding L2hop_Vtime by blast
qed

subsection \<open>NHDP as a whole\<close>

text \<open>The state: the domains, their metrics and MPR algorithms, the database.\<close>

datatype nhdp_action =
  Domain_Op domain_op | Database_Op nhdp_op | Timer nhdp_timer | Neighborhood_Changed | Neighbor_Changed ptr

fun exec_action :: "mpr_algorithms \<Rightarrow> hysteresis \<Rightarrow> nhdp_action \<Rightarrow> domains \<times> handlers \<times> nhdp_db \<Rightarrow> (domains \<times> handlers \<times> nhdp_db) option" where
  "exec_action mpr hy (Domain_Op op) (ds, ha, db) = map_option (\<lambda>(ds, ha). (ds, ha, db)) (exec_domain_op op (ds, ha))"
| "exec_action mpr hy (Database_Op op) (ds, ha, db) = map_option (\<lambda>db. (ds, ha, db)) (exec_op ds hy op db)"
| "exec_action mpr hy (Timer x) (ds, ha, db) = map_option (\<lambda>(ds, db). (ds, ha, db)) (timer_fires mpr hy x (ds, db))"
| "exec_action mpr hy Neighborhood_Changed (ds, ha, db) =
     map_option (\<lambda>(ds, db). (ds, ha, db)) (nhdp_domain_neighborhood_changed mpr (ds, db))"
| "exec_action mpr hy (Neighbor_Changed p) (ds, ha, db) =
     map_option (\<lambda>(ds, db). (ds, ha, db)) (nhdp_domain_neighbor_changed mpr p (ds, db))"

fun action_allowed :: "nhdp_action \<Rightarrow> domains \<times> handlers \<times> nhdp_db \<Rightarrow> bool" where
  "action_allowed (Domain_Op op) (ds, ha, db) \<longleftrightarrow> domain_op_allowed op ha"
| "action_allowed (Database_Op op) (ds, ha, db) \<longleftrightarrow> allowed op (tables db)"
| "action_allowed (Timer x) (ds, ha, db) \<longleftrightarrow> timer_runs x (tables db)"
| "action_allowed Neighborhood_Changed (ds, ha, db) \<longleftrightarrow> True"
| "action_allowed (Neighbor_Changed p) (ds, ha, db) \<longleftrightarrow> has (tb_neighs (tables db)) p"

inductive nhdp_live :: "mpr_algorithms \<Rightarrow> domains \<times> handlers \<times> nhdp_db \<Rightarrow> bool" for mpr where
  start: "\<forall>i f. I i = Some f \<longrightarrow> bare_interface f \<Longrightarrow>
    nhdp_live mpr (fst nhdp_domain_init, snd nhdp_domain_init, nhdp_db_init\<lparr>db_interfaces := I\<rparr>)"
| step: "nhdp_live mpr s \<Longrightarrow> action_allowed a s \<Longrightarrow> exec_action mpr hy a s = Some s' \<Longrightarrow> nhdp_live mpr s'"

inductive_cases nhdp_liveE: "nhdp_live mpr s"

definition live_ok :: "domains \<times> handlers \<times> nhdp_db \<Rightarrow> bool" where
  "live_ok = (\<lambda>(ds, ha, db). state_ok (ds, ha) \<and> nhdp_ok db)"

lemma exec_action_ok:
  assumes m: "mpr_contract mpr" and ok: "live_ok (ds, ha, db)" and a: "action_allowed a (ds, ha, db)"
  shows "\<exists>s'. exec_action mpr hy a (ds, ha, db) = Some s' \<and> live_ok s'"
proof (cases a)
  case (Domain_Op op)
  then show ?thesis using exec_domain_op_ok [of ds ha op] ok a by (auto simp: live_ok_def)
next
  case (Database_Op op)
  then show ?thesis using exec_op_ok [of db op ds hy] ok a by (auto simp: live_ok_def)
next
  case (Timer x)
  obtain ds' db' where 1: "timer_fires mpr hy x (ds, db) = Some (ds', db')" "timer_post ds db (timer_effect hy x (tables db)) (ds', db')"
    using timer_ok [OF m, of db x hy ds] ok a Timer by (auto simp: live_ok_def)
  then have "live_ok (ds', ha, db')" using ok same_domains_state [of ds ds' ha] by (simp add: live_ok_def timer_post_def)
  then show ?thesis using Timer 1(1) by simp
next
  case Neighborhood_Changed
  obtain ds' db' where 1: "nhdp_domain_neighborhood_changed mpr (ds, db) = Some (ds', db')" "nhdp_ok db'" "same_domains ds ds'"
    using neighborhood_changed_ok [OF m, of db ds] ok by (auto simp: live_ok_def)
  then have "live_ok (ds', ha, db')" using ok same_domains_state [of ds ds' ha] by (simp add: live_ok_def)
  then show ?thesis using Neighborhood_Changed 1(1) by simp
next
  case (Neighbor_Changed p)
  have "db_neighs db p \<noteq> None" using a Neighbor_Changed by (simp add: has_def tables_simps(6))
  then obtain ds' db' where 1: "nhdp_domain_neighbor_changed mpr p (ds, db) = Some (ds', db')" "nhdp_ok db'" "same_domains ds ds'"
    using neighbor_changed_ok [OF m, of db p ds] ok by (auto simp: live_ok_def)
  then have "live_ok (ds', ha, db')" using ok same_domains_state [of ds ds' ha] by (simp add: live_ok_def)
  then show ?thesis using Neighbor_Changed 1(1) by simp
qed

lemma live_is_ok:
  assumes "mpr_contract mpr"
  shows "nhdp_live mpr s \<Longrightarrow> live_ok s"
proof (induction rule: nhdp_live.induct)
  case (start I)
  have "state_ok (fst nhdp_domain_init, snd nhdp_domain_init)" using domains_reachable_ok [OF domains_reachable.start] by simp
  then show ?case using nhdp_db_init_ok [OF start] by (simp add: live_ok_def)
next
  case (step s a hy s')
  then show ?case using exec_action_ok [OF assms, of "fst s" "fst (snd s)" "snd (snd s)" a hy] by auto
qed

lemma live_step:
  assumes "mpr_contract mpr" "nhdp_live mpr s" "action_allowed a s"
  shows "\<exists>s'. exec_action mpr hy a s = Some s' \<and> nhdp_live mpr s'"
proof -
  obtain ds ha db where s: "s = (ds, ha, db)" by (cases s)
  obtain s' where "exec_action mpr hy a s = Some s'"
    using exec_action_ok [OF assms(1) live_is_ok [OF assms(1,2), unfolded s] assms(3) [unfolded s], of hy] s by blast
  then show ?thesis using nhdp_live.step [OF assms(2,3)] by blast
qed

subsection \<open>All neighbors\<close>

lemma all_best_ok:
  assumes m: "mpr_contract mpr" and ok: "nhdp_ok db"
  shows "\<exists>ds' db'. nhdp_domain_neighborhood_changed mpr (ds, db) = Some (ds', db') \<and> nhdp_ok db' \<and>
    (\<forall>d \<in> set (ds_list ds'). \<forall>p n. db_neighs db' p = Some n \<longrightarrow> best_metric db' p (do_index d) (nn_domaindata n (do_index d))) \<and>
    (nhdp_domain_node_is_mpr ds' \<longleftrightarrow> (\<exists>d \<in> set (ds_list ds'). selector_in db' (do_index d)))"
proof -
  obtain ds' db' where 1: "nhdp_domain_neighborhood_changed mpr (ds, db) = Some (ds', db')" "nhdp_ok db'" "same_except neigh_core db db'"
    "same_domains ds ds'" "refreshed (do_index ` set (ds_list ds) \<times> set (db_neigh_list db)) db db'"
    "ds_node_is_selected_as_mpr ds' = (\<exists>d \<in> set (ds_list ds). selector_in db' (do_index d))"
    using changed_ok [OF m ok stable_neighborhood [OF ok], of None ds] by (simp only: nhdp_domain_neighborhood_changed_def) blast
  have i: "do_index ` set (ds_list ds') = do_index ` set (ds_list ds)" using same_domainsD(1) [OF 1(4)] by (metis set_map)
  have best: "best_metric db' p (do_index d) (nn_domaindata n (do_index d))" if "d \<in> set (ds_list ds')" "db_neighs db' p = Some n" for d p n
  proof -
    have "p \<in> set (db_neigh_list db)" using neigh_list_ok(2) [OF ok, of p] same_exceptD(11) [OF 1(3), of p] that(2) by simp
    moreover have "do_index d \<in> do_index ` set (ds_list ds)" using that(1) i by blast
    ultimately have "best_at db' (do_index d) p" using 1(5) unfolding refreshed_def by blast
    then show ?thesis using that(2) by (simp add: best_at_def)
  qed
  have "(\<exists>j \<in> do_index ` set (ds_list ds'). selector_in db' j) = (\<exists>j \<in> do_index ` set (ds_list ds). selector_in db' j)" by (simp only: i)
  then have "(\<exists>d \<in> set (ds_list ds). selector_in db' (do_index d)) = (\<exists>d \<in> set (ds_list ds'). selector_in db' (do_index d))" by simp
  then show ?thesis using 1(1,2,6) best unfolding nhdp_domain_node_is_mpr_def by blast
qed

lemma all_best_live:
  assumes "mpr_contract mpr" "nhdp_ok db" "nhdp_domain_neighborhood_changed mpr (ds, db) = Some (ds', db')"
  shows "best_links_live ds' db'"
proof -
  have b: "\<forall>d \<in> set (ds_list ds'). \<forall>p n. db_neighs db' p = Some n \<longrightarrow> best_metric db' p (do_index d) (nn_domaindata n (do_index d))"
    using all_best_ok [OF assms(1,2), of ds] assms(3) by auto
  have "linked_at db' (do_index d) p" if d: "d \<in> set (ds_list ds')" for d p
  proof (cases "db_neighs db' p")
    case (Some n)
    then show ?thesis using b d best_linked [of db' "do_index d" p] by (simp add: best_at_def)
  qed (simp add: linked_at_def)
  then show ?thesis by (simp add: best_links_live_def)
qed

subsection \<open>Properties\<close>


text \<open>
  C35. A timer that runs out does to the lists and trees what the specification says: the timer of the validity
  of a link removes the link, its two-hop neighbors and, with the last link, the neighbor, the timers of the
  states of a link recompute its status, the others remove their object; nothing else changes but the
  metrics and MPR marks of neighbors.
\<close>

theorem nhdp_timer_refines:
  assumes "mpr_contract mpr" "nhdp_live mpr (ds, ha, db)" "timer_runs x (tables db)"
  shows "\<exists>ds' db'. timer_fires mpr hy x (ds, db) = Some (ds', db') \<and>
    plain_tables (tables db') = plain_tables (timer_effect hy x (tables db))"
  using timer_ok [OF assms(1) _ assms(3), of hy ds] live_is_ok [OF assms(1,2)] by (auto simp: live_ok_def timer_post_def)

text \<open>
  C36. A timer never leaves a dangling best link: when the best link of every neighbor in every domain is one of
  its links, then it still is after any timer, also after the one that frees the best link.
\<close>

theorem timers_keep_best_links:
  assumes "mpr_contract mpr" "nhdp_live mpr (ds, ha, db)" "timer_runs x (tables db)" "best_links_live ds db"
    "timer_fires mpr hy x (ds, db) = Some (ds', db')"
  shows "best_links_live ds' db'"
  using timer_ok [OF assms(1) _ assms(3), of hy ds] live_is_ok [OF assms(1,2)] assms(4,5) by (auto simp: live_ok_def timer_post_def)

text \<open>
  C37. After a change of the neighborhood the metrics of every neighbor in every domain are the least of its
  links, or infinite without one, and its best link is the one with the outgoing metric, with the index of its
  interface; the node knows whether a neighbor has selected it as an MPR.
\<close>

theorem neighborhood_changed_best:
  assumes "mpr_contract mpr" "nhdp_live mpr (ds, ha, db)"
  shows "\<exists>ds' db'. nhdp_domain_neighborhood_changed mpr (ds, db) = Some (ds', db') \<and>
    (\<forall>d \<in> set (ds_list ds'). \<forall>p n. db_neighs db' p = Some n \<longrightarrow> best_metric db' p (do_index d) (nn_domaindata n (do_index d))) \<and>
    (nhdp_domain_node_is_mpr ds' \<longleftrightarrow>
      (\<exists>d \<in> set (ds_list ds'). \<exists>p n. db_neighs db' p = Some n \<and> nd_local_is_mpr (nn_domaindata n (do_index d))))"
  using all_best_ok [OF assms(1), of db ds] live_is_ok [OF assms] by (simp only: live_ok_def prod.case selector_in_def) blast

text \<open>
  A link that is removed without a timer stays the best link of its neighbor until the next change of
  this neighbor.
\<close>

lemma removed_best_link_dangles:
  assumes ok: "nhdp_ok db" and l: "db_links db l = Some k" and p: "db_neighs db p = Some n"
    and b: "nd_best_link (nn_domaindata n i) = Some l"
  shows "\<exists>db'. nhdp_db_link_remove l db = Some db' \<and> \<not> linked_at db' i p"
proof -
  obtain db' where 1: "nhdp_db_link_remove l db = Some db'" "nhdp_ok db'" "tables db' = remove_links (\<lambda>x. x = l) (tables db)"
    using link_remove_ok [OF ok l] by blast
  have "\<not> linked i (tables db') p" using b tables_simps(4) [OF p] by (auto simp: 1(3) linked_def remove_links_def)
  then show ?thesis using 1(1) by (auto simp: linked_tables)
qed

subsection \<open>A run\<close>

abbreviation ex_mpr :: mpr_algorithms where
  "ex_mpr \<equiv> \<lambda>_. cb_update_everyone_mpr"

definition ex_live :: "nhdp_action list \<Rightarrow> domains \<times> handlers \<times> nhdp_db" where
  "ex_live as = fold (\<lambda>a s. the (exec_action ex_mpr no_hysteresis a s)) as (fst nhdp_domain_init, snd nhdp_domain_init, ex_empty)"

lemma ex_mpr_contract: "mpr_contract ex_mpr"
  by (rule everyone.mpr_contract_axioms)

lemma ex_live_start: "nhdp_live ex_mpr (ex_live [])"
  unfolding ex_live_def ex_empty_def fold_simps id_apply
  by (rule nhdp_live.start) (auto simp: bare_interface_def ex_interface_def)

lemma ex_live_step:
  assumes "nhdp_live ex_mpr (ex_live as)" "action_allowed a (ex_live as)"
  shows "nhdp_live ex_mpr (ex_live (as @ [a]))"
  using live_step [OF ex_mpr_contract assms, of no_hysteresis] by (auto simp: ex_live_def)

abbreviation ex_acts :: "nhdp_action list" where
  "ex_acts \<equiv> [Domain_Op (Domain_Configure True 1 ''-'' ''-'' 7), Database_Op (Neighbor_Add 10), Database_Op (Link_Add 20 10 7),
     Database_Op (Link_Set_Vtime 20 6000), Neighborhood_Changed]"

lemma ex_database_op:
  assumes "nhdp_live ex_mpr (ex_live as)" "allowed op (tables (snd (snd (ex_live as))))"
  shows "nhdp_live ex_mpr (ex_live (as @ [Database_Op op]))"
  by (rule ex_live_step [OF assms(1)]) (use assms(2) in \<open>cases "ex_live as"; simp\<close>)

lemma ex_live_reachable: "nhdp_live ex_mpr (ex_live (take 4 ex_acts))" "nhdp_live ex_mpr (ex_live ex_acts)"
proof -
  let ?db = "\<lambda>k. snd (snd (ex_live (take k ex_acts)))"
  have "action_allowed (Domain_Op (Domain_Configure True 1 ''-'' ''-'' 7)) (ex_live [])" by (cases "ex_live []") simp
  from ex_live_step [OF ex_live_start this] have 1: "nhdp_live ex_mpr (ex_live (take 1 ex_acts))" by simp
  have "allowed (Neighbor_Add 10) (tables (?db 1))" unfolding allowed.simps by code_simp
  from ex_database_op [OF 1 this] have 2: "nhdp_live ex_mpr (ex_live (take 2 ex_acts))" by simp
  have "allowed (Link_Add 20 10 7) (tables (?db 2))" unfolding allowed.simps by code_simp
  from ex_database_op [OF 2 this] have 3: "nhdp_live ex_mpr (ex_live (take 3 ex_acts))" by simp
  have "allowed (Link_Set_Vtime 20 6000) (tables (?db 3))" unfolding allowed.simps by code_simp
  from ex_database_op [OF 3 this] have 4: "nhdp_live ex_mpr (ex_live (take 4 ex_acts))" by simp
  show "nhdp_live ex_mpr (ex_live (take 4 ex_acts))" by (rule 4)
  have "action_allowed Neighborhood_Changed (ex_live (take 4 ex_acts))" by (cases "ex_live (take 4 ex_acts)") simp
  from ex_live_step [OF 4 this] show "nhdp_live ex_mpr (ex_live ex_acts)" by simp
qed

lemma ex_live_parts:
  obtains ds4 ha4 db4 ds ha db where "ex_live (take 4 ex_acts) = (ds4, ha4, db4)" "nhdp_live ex_mpr (ds4, ha4, db4)" "ex_live ex_acts = (ds, ha, db)"
    "nhdp_live ex_mpr (ds, ha, db)" "timer_runs (Link_Vtime 20) (tables db)" "best_links_live ds db"
proof -
  obtain ds4 ha4 db4 where 4: "ex_live (take 4 ex_acts) = (ds4, ha4, db4)" by (cases "ex_live (take 4 ex_acts)")
  obtain ds ha db where 5: "ex_live ex_acts = (ds, ha, db)" by (cases "ex_live ex_acts")
  have l4: "nhdp_live ex_mpr (ds4, ha4, db4)" using ex_live_reachable(1) 4 by simp
  have l5: "nhdp_live ex_mpr (ds, ha, db)" using ex_live_reachable(2) 5 by simp
  have ok4: "nhdp_ok db4" using live_is_ok [OF ex_mpr_contract l4] by (simp add: live_ok_def)
  obtain ds' db' where c: "nhdp_domain_neighborhood_changed ex_mpr (ds4, db4) = Some (ds', db')"
    using neighborhood_changed_ok [OF ex_mpr_contract ok4] by blast
  have "ex_live ex_acts = the (exec_action ex_mpr no_hysteresis Neighborhood_Changed (ex_live (take 4 ex_acts)))" by (simp add: ex_live_def)
  then have "(ds, ha, db) = (ds', ha4, db')" using 4 5 c by simp
  then have "best_links_live ds db" using all_best_live [OF ex_mpr_contract ok4 c] by simp
  moreover have "has (tb_links (tables (snd (snd (ex_live ex_acts))))) 20"
    "nl_vtime (the (tb_links (tables (snd (snd (ex_live ex_acts)))) 20)) = Some 6000" by code_simp+
  then have "timer_runs (Link_Vtime 20) (tables db)" unfolding 5 by (auto simp: has_def)
  ultimately show thesis using that 4 5 l4 l5 by blast
qed


theorem nhdp_timer_refines_witness:
  "\<exists>db ds' db'. snd (snd (ex_live ex_acts)) = db \<and>
    timer_fires ex_mpr no_hysteresis (Link_Vtime 20) (fst (ex_live ex_acts), db) = Some (ds', db') \<and>
    plain_tables (tables db') = plain_tables (timer_effect no_hysteresis (Link_Vtime 20) (tables db))"
proof -
  from ex_live_parts obtain ds ha db where p: "ex_live ex_acts = (ds, ha, db)" "nhdp_live ex_mpr (ds, ha, db)" "timer_runs (Link_Vtime 20) (tables db)"
    by metis
  show ?thesis unfolding p(1) using nhdp_timer_refines [OF ex_mpr_contract p(2,3), of no_hysteresis] by auto
qed

theorem timers_keep_best_links_witness:
  "\<exists>ds' db'. timer_fires ex_mpr no_hysteresis (Link_Vtime 20) (fst (ex_live ex_acts), snd (snd (ex_live ex_acts))) = Some (ds', db') \<and>
    best_links_live ds' db'"
proof -
  from ex_live_parts obtain ds ha db where p: "ex_live ex_acts = (ds, ha, db)" "nhdp_live ex_mpr (ds, ha, db)" "timer_runs (Link_Vtime 20) (tables db)"
    "best_links_live ds db"
    by metis
  have "nhdp_ok db" using live_is_ok [OF ex_mpr_contract p(2)] by (simp add: live_ok_def)
  then obtain ds' db' where f: "timer_fires ex_mpr no_hysteresis (Link_Vtime 20) (ds, db) = Some (ds', db')"
    using timer_ok [OF ex_mpr_contract _ p(3)] by fastforce
  from timers_keep_best_links [OF ex_mpr_contract p(2-4) f] show ?thesis using f p(1) by simp
qed

theorem neighborhood_changed_best_witness:
  "\<exists>ds' db'. nhdp_domain_neighborhood_changed ex_mpr (fst (ex_live ex_acts), snd (snd (ex_live ex_acts))) = Some (ds', db') \<and>
    (\<forall>d \<in> set (ds_list ds'). \<forall>p n. db_neighs db' p = Some n \<longrightarrow> best_metric db' p (do_index d) (nn_domaindata n (do_index d)))"
proof -
  from ex_live_parts obtain ds ha db where p: "ex_live ex_acts = (ds, ha, db)" "nhdp_live ex_mpr (ds, ha, db)" by metis
  show ?thesis unfolding p(1) using neighborhood_changed_best [OF ex_mpr_contract p(2)] by auto
qed

end
