(* ===== verification/Oonf_Timer.thy ===== *)
theory Oonf_Timer
  imports Duplicate_Set Index "HOL-Library.Monad_Syntax"
begin

text \<open>
  The timer scheduler (\<open>src-plugins/subsystems/oonf_timer.c, oonf_timer.h\<close>). A running timer is a node of one
  AVL tree over the times at which timers fire; the tree compares the times that are stored in the timers
  themselves, so the key of a node is the time of its timer when it was inserted. Classes and timers are
  objects in stores, by their address. The random numbers of the operating system and the callbacks of
  the clients are parameters.
\<close>

subsection \<open>Classes, timers and the scheduler\<close>

definition OONF_TIMER_SLICE :: u64 where "OONF_TIMER_SLICE = 100"

record timer_class =
  tk_periodic :: bool
  tk_usage :: u32
  tk_changes :: u32
  tk_in_callback :: "ptr option"
  tk_stopped :: bool

record timer_instance =
  ti_class :: ptr
  ti_jitter_pct :: u8
  ti_period :: u64
  ti_random :: u32
  ti_clock :: u64

text \<open>\<open>sd_draws\<close> counts the random numbers that were asked for, \<open>sd_fired\<close> logs the calls of callbacks.\<close>

record scheduler =
  sd_tree :: "(u64, ptr) avl_tree"
  sd_class_list :: "ptr list"
  sd_classes :: "ptr \<Rightarrow> timer_class option"
  sd_timers :: "ptr \<Rightarrow> timer_instance option"
  sd_now :: u64
  sd_scheduling :: bool
  sd_draws :: nat
  sd_fired :: "ptr list"

definition avlcomp_timer :: "u64 \<Rightarrow> u64 \<Rightarrow> int" where
  "avlcomp_timer t1 t2 = (if t1 > t2 then 1 else if t1 < t2 then - 1 else 0)"

definition timer_init :: scheduler where
  "timer_init = \<lparr>sd_tree = avl_init avlcomp_timer True, sd_class_list = [], sd_classes = (\<lambda>_. None), sd_timers = (\<lambda>_. None),
     sd_now = 0, sd_scheduling = False, sd_draws = 0, sd_fired = []\<rparr>"

definition oonf_clock_get_absolute :: "u64 \<Rightarrow> scheduler \<Rightarrow> u64" where
  "oonf_clock_get_absolute relative sd = sd_now sd + relative"

definition oonf_clock_get_relative :: "u64 \<Rightarrow> scheduler \<Rightarrow> int" where
  "oonf_clock_get_relative absolute sd = sint (absolute - sd_now sd)"

definition calc_clock :: "timer_instance \<Rightarrow> u64 \<Rightarrow> scheduler \<Rightarrow> u64" where
  "calc_clock ti rel_time sd =
     (let rel_time = (if ti_jitter_pct ti \<noteq> 0
                      then (let random_jitter = ti_random ti div (0xFFFFFFFF div ucast (ti_jitter_pct ti));
                                t = ucast random_jitter * rel_time div 100
                            in rel_time - t)
                      else rel_time);
          clock = oonf_clock_get_absolute rel_time sd + OONF_TIMER_SLICE
      in clock - clock mod OONF_TIMER_SLICE)"

subsection \<open>Start and stop\<close>

definition upd_class :: "ptr \<Rightarrow> (timer_class \<Rightarrow> timer_class) \<Rightarrow> scheduler \<Rightarrow> scheduler option" where
  "upd_class c f sd = do { k \<leftarrow> sd_classes sd c; Some (sd\<lparr>sd_classes := (sd_classes sd)(c \<mapsto> f k)\<rparr>) }"

definition upd_timer :: "ptr \<Rightarrow> (timer_instance \<Rightarrow> timer_instance) \<Rightarrow> scheduler \<Rightarrow> scheduler option" where
  "upd_timer p f sd = do { ti \<leftarrow> sd_timers sd p; Some (sd\<lparr>sd_timers := (sd_timers sd)(p \<mapsto> f ti)\<rparr>) }"

definition timer_tree_remove :: "ptr \<Rightarrow> scheduler \<Rightarrow> scheduler option" where
  "timer_tree_remove p sd = (if p \<in> set (avl_elements (sd_tree sd)) then Some (sd\<lparr>sd_tree := avl_remove (sd_tree sd) p\<rparr>) else None)"

text \<open>Draws a number when there is none yet; 0 when the operating system has none.\<close>

definition new_random :: "(nat \<Rightarrow> u32 option) \<Rightarrow> ptr \<Rightarrow> scheduler \<Rightarrow> scheduler option" where
  "new_random rnd p sd = upd_timer p (\<lambda>ti. ti\<lparr>ti_random := (case rnd (sd_draws sd) of None \<Rightarrow> 0 | Some r \<Rightarrow> r)\<rparr>)
     (sd\<lparr>sd_draws := sd_draws sd + 1\<rparr>)"

definition oonf_timer_start_ext :: "(nat \<Rightarrow> u32 option) \<Rightarrow> ptr \<Rightarrow> u64 \<Rightarrow> u64 \<Rightarrow> scheduler \<Rightarrow> scheduler option" where
  "oonf_timer_start_ext rnd p first interval sd = do {
     ti \<leftarrow> sd_timers sd p;
     k \<leftarrow> sd_classes sd (ti_class ti);
     if ti_jitter_pct ti > 100 then None
     else do {
       sd \<leftarrow> (if ti_clock ti \<noteq> 0 then timer_tree_remove p sd
              else upd_class (ti_class ti) (\<lambda>k. k\<lparr>tk_usage := tk_usage k + 1\<rparr>) sd);
       sd \<leftarrow> upd_class (ti_class ti) (\<lambda>k. k\<lparr>tk_changes := tk_changes k + 1\<rparr>) sd;
       sd \<leftarrow> (if ti_random ti = 0 then new_random rnd p sd else Some sd);
       ti \<leftarrow> sd_timers sd p;
       let clock = calc_clock ti first sd;
       sd \<leftarrow> upd_timer p (\<lambda>ti. ti\<lparr>ti_clock := clock, ti_period := (if tk_periodic k then interval else 0)\<rparr>) sd;
       Some (sd\<lparr>sd_tree := snd (avl_insert (sd_tree sd) clock p)\<rparr>)
     }
   }"

definition oonf_timer_stop :: "ptr \<Rightarrow> scheduler \<Rightarrow> scheduler option" where
  "oonf_timer_stop p sd = do {
     ti \<leftarrow> sd_timers sd p;
     if ti_clock ti = 0 then Some sd
     else do {
       sd \<leftarrow> timer_tree_remove p sd;
       sd \<leftarrow> upd_timer p (\<lambda>ti. ti\<lparr>ti_clock := 0, ti_random := 0\<rparr>) sd;
       upd_class (ti_class ti) (\<lambda>k. k\<lparr>tk_usage := tk_usage k - 1, tk_changes := tk_changes k + 1,
           tk_stopped := (if tk_in_callback k = Some p then True else tk_stopped k)\<rparr>) sd
     }
   }"

definition oonf_timer_set_ext :: "(nat \<Rightarrow> u32 option) \<Rightarrow> ptr \<Rightarrow> u64 \<Rightarrow> u64 \<Rightarrow> scheduler \<Rightarrow> scheduler option" where
  "oonf_timer_set_ext rnd p first interval sd =
     (if first = 0 then oonf_timer_stop p sd else oonf_timer_start_ext rnd p first interval sd)"

definition oonf_timer_set :: "(nat \<Rightarrow> u32 option) \<Rightarrow> ptr \<Rightarrow> u64 \<Rightarrow> scheduler \<Rightarrow> scheduler option" where
  "oonf_timer_set rnd p rel_time = oonf_timer_set_ext rnd p rel_time rel_time"

definition oonf_timer_start :: "(nat \<Rightarrow> u32 option) \<Rightarrow> ptr \<Rightarrow> u64 \<Rightarrow> scheduler \<Rightarrow> scheduler option" where
  "oonf_timer_start rnd p rel_time = oonf_timer_start_ext rnd p rel_time rel_time"

definition oonf_timer_is_active :: "ptr \<Rightarrow> scheduler \<Rightarrow> bool option" where
  "oonf_timer_is_active p sd = map_option (\<lambda>ti. ti_clock ti \<noteq> 0) (sd_timers sd p)"

definition oonf_timer_get_period :: "ptr \<Rightarrow> scheduler \<Rightarrow> u64 option" where
  "oonf_timer_get_period p sd = map_option ti_period (sd_timers sd p)"

definition oonf_timer_get_due :: "ptr \<Rightarrow> scheduler \<Rightarrow> int option" where
  "oonf_timer_get_due p sd = map_option (\<lambda>ti. oonf_clock_get_relative (ti_clock ti) sd) (sd_timers sd p)"

definition oonf_timer_getNextEvent :: "scheduler \<Rightarrow> u64 option" where
  "oonf_timer_getNextEvent sd = (case avl_entries (sd_tree sd) of
     [] \<Rightarrow> Some (- 1)
   | x # _ \<Rightarrow> map_option ti_clock (sd_timers sd (snd x)))"

subsection \<open>Classes\<close>

definition oonf_timer_add :: "ptr \<Rightarrow> scheduler \<Rightarrow> scheduler" where
  "oonf_timer_add c sd = sd\<lparr>sd_class_list := sd_class_list sd @ [c]\<rparr>"

fun stop_timers_of :: "ptr \<Rightarrow> ptr list \<Rightarrow> scheduler \<Rightarrow> scheduler option" where
  "stop_timers_of c [] sd = Some sd"
| "stop_timers_of c (p # ps) sd = do {
     ti \<leftarrow> sd_timers sd p;
     sd \<leftarrow> (if ti_class ti = c then oonf_timer_stop p sd else Some sd);
     stop_timers_of c ps sd
   }"

definition oonf_timer_remove :: "ptr \<Rightarrow> scheduler \<Rightarrow> scheduler option" where
  "oonf_timer_remove c sd =
     (if c \<notin> set (sd_class_list sd) then Some sd
      else do {
        sd \<leftarrow> stop_timers_of c (avl_elements (sd_tree sd)) sd;
        Some (sd\<lparr>sd_class_list := remove1 c (sd_class_list sd)\<rparr>)
      })"

fun remove_classes :: "ptr list \<Rightarrow> scheduler \<Rightarrow> scheduler option" where
  "remove_classes [] sd = Some sd"
| "remove_classes (c # cs) sd = oonf_timer_remove c sd \<bind> remove_classes cs"

definition timer_cleanup :: "scheduler \<Rightarrow> scheduler option" where
  "timer_cleanup sd = remove_classes (sd_class_list sd) sd"

subsection \<open>The clients\<close>

text \<open>
  What a client does with the scheduler, inside and outside of callbacks: the calls, and the allocation and
  release of the objects that contain timers. A new timer is not running.
\<close>

datatype timer_call =
  Timer_Set ptr u64 u64 | Timer_Start ptr u64 u64 | Timer_Stop ptr | Timer_New ptr ptr u8 | Timer_Free ptr

fun exec_call :: "(nat \<Rightarrow> u32 option) \<Rightarrow> timer_call \<Rightarrow> scheduler \<Rightarrow> scheduler option" where
  "exec_call rnd (Timer_Set p first interval) sd = oonf_timer_set_ext rnd p first interval sd"
| "exec_call rnd (Timer_Start p first interval) sd = oonf_timer_start_ext rnd p first interval sd"
| "exec_call rnd (Timer_Stop p) sd = oonf_timer_stop p sd"
| "exec_call rnd (Timer_New p c j) sd = Some (sd\<lparr>sd_timers := (sd_timers sd)(p \<mapsto>
     \<lparr>ti_class = c, ti_jitter_pct = j, ti_period = 0, ti_random = 0, ti_clock = 0\<rparr>)\<rparr>)"
| "exec_call rnd (Timer_Free p) sd = Some (sd\<lparr>sd_timers := (sd_timers sd)(p := None)\<rparr>)"

fun exec_calls :: "(nat \<Rightarrow> u32 option) \<Rightarrow> timer_call list \<Rightarrow> scheduler \<Rightarrow> scheduler option" where
  "exec_calls rnd [] sd = Some sd"
| "exec_calls rnd (a # as) sd = exec_call rnd a sd \<bind> exec_calls rnd as"

text \<open>The callbacks of all classes: from the state of the client, the timer and the scheduler to the calls.\<close>

type_synonym 'c callbacks = "'c \<Rightarrow> ptr \<Rightarrow> scheduler \<Rightarrow> 'c \<times> timer_call list"

subsection \<open>The scheduler loop\<close>

text \<open>One timer fires: it is stopped before its callback unless it is periodic, and started again afterwards unless it was stopped.\<close>

definition fire_timer :: "(nat \<Rightarrow> u32 option) \<Rightarrow> 'c callbacks \<Rightarrow> ptr \<Rightarrow> 'c \<times> scheduler \<Rightarrow> ('c \<times> scheduler) option" where
  "fire_timer rnd cb p = (\<lambda>(cl, sd). do {
     ti \<leftarrow> sd_timers sd p;
     let info = ti_class ti;
     sd \<leftarrow> upd_class info (\<lambda>k. k\<lparr>tk_in_callback := Some p, tk_stopped := False, tk_changes := tk_changes k + 1\<rparr>) sd;
     sd \<leftarrow> (if ti_period ti = 0 then oonf_timer_stop p sd else Some sd);
     let sd = sd\<lparr>sd_fired := sd_fired sd @ [p]\<rparr>;
     let (cl, calls) = cb cl p sd;
     sd \<leftarrow> exec_calls rnd calls sd;
     k \<leftarrow> sd_classes sd info;
     sd \<leftarrow> (if tk_stopped k then Some sd
            else do {
              sd \<leftarrow> new_random rnd p sd;
              ti \<leftarrow> sd_timers sd p;
              oonf_timer_start rnd p (ti_period ti) sd
            });
     Some (cl, sd)
   })"

partial_function (option) walk_loop ::
  "(nat \<Rightarrow> u32 option) \<Rightarrow> 'c callbacks \<Rightarrow> 'c \<times> scheduler \<Rightarrow> ('c \<times> scheduler) option" where
  "walk_loop rnd cb st = (case avl_entries (sd_tree (snd st)) of
     [] \<Rightarrow> Some st
   | x # _ \<Rightarrow> do {
       ti \<leftarrow> sd_timers (snd st) (snd x);
       if ti_clock ti > sd_now (snd st) then Some st
       else fire_timer rnd cb (snd x) st \<bind> walk_loop rnd cb
     })"

definition oonf_timer_walk :: "(nat \<Rightarrow> u32 option) \<Rightarrow> 'c callbacks \<Rightarrow> 'c \<times> scheduler \<Rightarrow> ('c \<times> scheduler) option" where
  "oonf_timer_walk rnd cb = (\<lambda>(cl, sd). do {
     (cl, sd) \<leftarrow> walk_loop rnd cb (cl, sd\<lparr>sd_scheduling := True\<rparr>);
     Some (cl, sd\<lparr>sd_scheduling := False\<rparr>)
   })"

subsection \<open>The time at which a timer fires\<close>

text \<open>Times that a running program can reach; far beyond this one the sums of times would wrap around.\<close>

definition HORIZON :: nat where "HORIZON = 2 ^ 57"

text \<open>The percentage that a random number stands for never exceeds the one of the timer.\<close>

lemma random_share: "r \<le> m \<Longrightarrow> 0 < j \<Longrightarrow> j \<le> 100 \<Longrightarrow> 10000 \<le> m \<Longrightarrow> r div (m div j) \<le> j" for r m j :: nat
proof -
  assume a: "r \<le> m" "0 < j" "j \<le> 100" "10000 \<le> m"
  let ?q = "m div j"
  have "100 * j \<le> m" using a(3,4) by linarith
  then have q: "100 \<le> ?q" using a(2) by (simp add: less_eq_div_iff_mult_less_eq)
  have "m mod j < j" using a(2) by simp
  then have "m < ?q * j + ?q" using q a(3) div_mult_mod_eq [of m j] by linarith
  then have "r < (j + 1) * ?q" using a(1) by (simp add: algebra_simps)
  then have "r div ?q < j + 1" using q by (simp add: div_less_iff_less_mult)
  then show ?thesis by simp
qed

definition jitter_of :: "timer_instance \<Rightarrow> nat \<Rightarrow> nat" where
  "jitter_of ti rel = (if ti_jitter_pct ti = 0 then 0
     else (unat (ti_random ti) div (4294967295 div unat (ti_jitter_pct ti))) * rel div 100)"

lemma widen_unat:
  "unat (ucast w :: u32) = unat w" "unat (ucast x :: u64) = unat x" for w :: u8 and x :: u32
  by (simp_all add: unsigned_ucast_eq take_bit_nat_eq_self unsigned_less [of w, where ?'a = nat, THEN less_le_trans]
      unsigned_less [of x, where ?'a = nat, THEN less_le_trans])

lemma jitter_bound:
  assumes "ti_jitter_pct ti \<le> 100"
  shows "jitter_of ti rel \<le> unat (ti_jitter_pct ti) * rel div 100" "jitter_of ti rel \<le> rel"
proof -
  have j: "unat (ti_jitter_pct ti) \<le> 100" using assms by (simp add: word_le_nat_alt)
  have "unat (ti_random ti) \<le> 4294967295" using unsigned_less [of "ti_random ti", where ?'a = nat] by simp
  then have "unat (ti_random ti) div (4294967295 div unat (ti_jitter_pct ti)) \<le> unat (ti_jitter_pct ti)" if "ti_jitter_pct ti \<noteq> 0"
    using random_share [of "unat (ti_random ti)" 4294967295 "unat (ti_jitter_pct ti)"] j that by (simp add: unat_gt_0)
  then show 1: "jitter_of ti rel \<le> unat (ti_jitter_pct ti) * rel div 100"
    by (auto simp: jitter_of_def intro!: div_le_mono mult_right_mono)
  also have "\<dots> \<le> 100 * rel div 100" by (rule div_le_mono) (use j in simp)
  finally show "jitter_of ti rel \<le> rel" by simp
qed

lemma calc_clock_value:
  assumes j: "ti_jitter_pct ti \<le> 100" and rel: "unat rel \<le> HORIZON" and now: "unat (sd_now sd) \<le> HORIZON"
  shows "unat (calc_clock ti rel sd) = (let t = unat (sd_now sd) + (unat rel - jitter_of ti (unat rel)) + 100 in t - t mod 100)"
proof -
  have J: "unat (ti_jitter_pct ti) \<le> 100" using j by (simp add: word_le_nat_alt)
  let ?r = "ti_random ti div (0xFFFFFFFF div ucast (ti_jitter_pct ti))"
  define rel' where "rel' = (if ti_jitter_pct ti \<noteq> 0 then rel - ucast ?r * rel div 100 else rel)"
  have ur: "unat ?r = unat (ti_random ti) div (4294967295 div unat (ti_jitter_pct ti))"
    by (simp add: unat_div widen_unat)
  have rel': "unat rel' = unat rel - jitter_of ti (unat rel)"
  proof (cases "ti_jitter_pct ti = 0")
    case False
    have "unat ?r \<le> 100"
      using jitter_bound(1) [OF j, of 100] False J by (simp add: jitter_of_def ur)
    then have "unat ?r * unat rel \<le> 100 * 2 ^ 57" using rel mult_le_mono [of "unat ?r" 100 "unat rel" "2 ^ 57"] by (simp add: HORIZON_def)
    then have "unat (ucast ?r * rel :: u64) = unat ?r * unat rel" by (simp add: unat_mult_lem [THEN iffD1] widen_unat)
    then have "unat (ucast ?r * rel div 100 :: u64) = jitter_of ti (unat rel)"
      using False by (simp add: unat_div jitter_of_def ur widen_unat)
    moreover from this have "ucast ?r * rel div 100 \<le> rel" using jitter_bound(2) [OF j, of "unat rel"] by (simp add: word_le_nat_alt)
    ultimately show ?thesis using False by (simp add: rel'_def unat_sub)
  qed (simp add: rel'_def jitter_of_def)
  have s: "unat (sd_now sd + rel' + 100) = unat (sd_now sd) + unat rel' + 100"
  proof -
    have b: "unat (sd_now sd) + unat rel' + 100 < 2 ^ 64" using rel now rel' by (simp add: HORIZON_def)
    then have "unat (sd_now sd + rel') = unat (sd_now sd) + unat rel'" by (simp add: unat_add_lem [THEN iffD1])
    then show ?thesis using b by (simp add: unat_add_lem [THEN iffD1])
  qed
  have c: "calc_clock ti rel sd = (sd_now sd + rel' + 100) - (sd_now sd + rel' + 100) mod 100"
    by (simp add: calc_clock_def rel'_def Let_def oonf_clock_get_absolute_def OONF_TIMER_SLICE_def)
  have "(sd_now sd + rel' + 100) mod 100 \<le> sd_now sd + rel' + 100" by (simp add: word_le_nat_alt unat_mod)
  then show ?thesis unfolding c by (simp add: unat_sub unat_mod s rel' Let_def)
qed

lemma calc_clock_later:
  assumes "ti_jitter_pct ti \<le> 100" "unat rel \<le> HORIZON" "unat (sd_now sd) \<le> HORIZON"
  shows "sd_now sd < calc_clock ti rel sd" "calc_clock ti rel sd \<noteq> 0"
proof -
  have "t - t mod 100 > s" if "t = s + r + 100" for t s r :: nat
    using that mod_less_divisor [of 100 t] by linarith
  then have "unat (sd_now sd) < unat (calc_clock ti rel sd)" by (simp add: calc_clock_value [OF assms] Let_def)
  then show "sd_now sd < calc_clock ti rel sd" by (simp add: word_less_nat_alt)
  then show "calc_clock ti rel sd \<noteq> 0" by auto
qed

subsection \<open>Consistency\<close>

interpretation avlcomp_timer: strict_comparator avlcomp_timer
  by unfold_locales (auto simp: avlcomp_timer_def split: if_splits)

text \<open>The times of the running timers.\<close>

definition clocks :: "scheduler \<Rightarrow> ptr \<Rightarrow> u64 option" where
  "clocks sd p = (case sd_timers sd p of None \<Rightarrow> None | Some ti \<Rightarrow> if ti_clock ti = 0 then None else Some (ti_clock ti))"

definition timer_tree_ok :: "(u64, ptr) avl_tree \<Rightarrow> (ptr \<Rightarrow> u64 option) \<Rightarrow> bool" where
  "timer_tree_ok T M \<longleftrightarrow> avl_ok T \<and> tr_comp T = avlcomp_timer \<and> tr_allow_dups T \<and> (\<forall>k p. (k, p) \<in> index_set T \<longleftrightarrow> M p = Some k)"

definition users :: "scheduler \<Rightarrow> ptr \<Rightarrow> ptr set" where
  "users sd c = {p. \<exists>ti. sd_timers sd p = Some ti \<and> ti_class ti = c \<and> ti_clock ti \<noteq> 0}"

definition timer_ok_in :: "scheduler \<Rightarrow> timer_instance \<Rightarrow> bool" where
  "timer_ok_in sd ti \<longleftrightarrow> sd_classes sd (ti_class ti) \<noteq> None \<and> ti_jitter_pct ti \<le> 100 \<and> unat (ti_period ti) \<le> HORIZON"

definition sched_ok :: "scheduler \<Rightarrow> bool" where
  "sched_ok sd \<longleftrightarrow> timer_tree_ok (sd_tree sd) (clocks sd) \<and> (\<forall>p ti. sd_timers sd p = Some ti \<longrightarrow> timer_ok_in sd ti)
     \<and> unat (sd_now sd) \<le> HORIZON \<and> (\<forall>c k. sd_classes sd c = Some k \<longrightarrow> tk_usage k = of_nat (card (users sd c)))"

lemma timer_tree_remove_ok:
  assumes "timer_tree_ok T M" "M p = Some k"
  shows "p \<in> set (avl_elements T)" "timer_tree_ok (avl_remove T p) (M(p := None))"
proof -
  have "(k, p) \<in> index_set T" using assms by (simp add: timer_tree_ok_def)
  then show 1: "p \<in> set (avl_elements T)" unfolding in_elements by blast
  then have "p \<in> snd ` set (avl_entries T)" by (simp add: avl_ids)
  then show "timer_tree_ok (avl_remove T p) (M(p := None))"
    using avl.del_old [of T p] assms(1) by (auto simp: timer_tree_ok_def)
qed

lemma timer_tree_insert_ok:
  assumes "timer_tree_ok T M" "M p = None"
  shows "timer_tree_ok (snd (avl_insert T k p)) (M(p \<mapsto> k))"
proof -
  have "p \<notin> snd ` set (avl_entries T)" using assms by (auto simp: timer_tree_ok_def)
  moreover have "avl_ok T" "tr_allow_dups T" using assms(1) by (simp_all add: timer_tree_ok_def)
  ultimately obtain T' where "avl_insert T k p = (0, T')" "avl_ok T'" "avl_entries T' = ord_insert (tr_comp T) (k, p) (avl_entries T)"
    "tr_comp T' = tr_comp T" "tr_allow_dups T' = tr_allow_dups T"
    using avl.ins_done [of T p k] by blast
  then show ?thesis using assms by (auto simp: timer_tree_ok_def)
qed

lemma users_finite:
  assumes "timer_tree_ok (sd_tree sd) (clocks sd)"
  shows "finite (users sd c)"
proof (rule finite_subset)
  show "users sd c \<subseteq> snd ` set (avl_entries (sd_tree sd))"
  proof
    fix p assume "p \<in> users sd c"
    then obtain ti where "sd_timers sd p = Some ti" "ti_clock ti \<noteq> 0" by (auto simp: users_def)
    then have "(ti_clock ti, p) \<in> index_set (sd_tree sd)" using assms by (simp add: timer_tree_ok_def clocks_def)
    then show "p \<in> snd ` set (avl_entries (sd_tree sd))" by force
  qed
qed simp

subsection \<open>What calls do\<close>

text \<open>
  From \<open>sd\<close> to \<open>sd'\<close> timers were only stopped, or started for later: a timer that is due was due before, for
  the same time. The classes stay, and so does what the loop relies on while the timer \<open>p\<close> of the class
  \<open>c\<close> is in its callback.
\<close>

definition in_callback :: "ptr \<Rightarrow> ptr \<Rightarrow> scheduler \<Rightarrow> bool" where
  "in_callback c p sd \<longleftrightarrow> (\<exists>k. sd_classes sd c = Some k \<and> tk_in_callback k = Some p \<and>
     (if tk_stopped k then \<forall>t. clocks sd p = Some t \<longrightarrow> sd_now sd < t
      else \<exists>ti. sd_timers sd p = Some ti \<and> ti_class ti = c \<and> ti_clock ti \<noteq> 0))"

definition sched_later :: "scheduler \<Rightarrow> scheduler \<Rightarrow> bool" where
  "sched_later sd sd' \<longleftrightarrow> sd_now sd' = sd_now sd \<and> sd_fired sd' = sd_fired sd \<and>
     (\<forall>q t. clocks sd' q = Some t \<longrightarrow> t \<le> sd_now sd \<longrightarrow> clocks sd q = Some t) \<and>
     (\<forall>c. sd_classes sd' c = None \<longleftrightarrow> sd_classes sd c = None) \<and>
     (\<forall>c p. in_callback c p sd \<longrightarrow> in_callback c p sd')"

lemma sched_later_refl: "sched_later sd sd"
  by (simp add: sched_later_def)

lemma sched_later_trans: "sched_later a b \<Longrightarrow> sched_later b c \<Longrightarrow> sched_later a c"
  by (simp add: sched_later_def)

lemma clocks_simps:
  "clocks (sd\<lparr>sd_timers := (sd_timers sd)(p \<mapsto> ti)\<rparr>) = (clocks sd)(p := if ti_clock ti = 0 then None else Some (ti_clock ti))"
  "clocks (sd\<lparr>sd_tree := T\<rparr>) = clocks sd" "clocks (sd\<lparr>sd_classes := K\<rparr>) = clocks sd" "clocks (sd\<lparr>sd_draws := n\<rparr>) = clocks sd"
  "clocks (sd\<lparr>sd_fired := l\<rparr>) = clocks sd" "clocks (sd\<lparr>sd_scheduling := b\<rparr>) = clocks sd"
  "clocks (sd\<lparr>sd_timers := (sd_timers sd)(p := None)\<rparr>) = (clocks sd)(p := None)"
  by (auto simp: clocks_def fun_eq_iff)

lemma stop_ok:
  assumes ok: "sched_ok sd" and p: "sd_timers sd p = Some ti"
  shows "\<exists>sd'. oonf_timer_stop p sd = Some sd' \<and> sched_ok sd' \<and> sched_later sd sd' \<and> clocks sd' = (clocks sd)(p := None)
    \<and> (\<forall>q. q \<noteq> p \<longrightarrow> sd_timers sd' q = sd_timers sd q) \<and> (\<exists>ti'. sd_timers sd' p = Some ti' \<and> ti_clock ti' = 0)
    \<and> sd_class_list sd' = sd_class_list sd
    \<and> (\<forall>k. sd_classes sd (ti_class ti) = Some k \<longrightarrow> tk_in_callback k = Some p \<longrightarrow> ti_clock ti \<noteq> 0 \<longrightarrow>
         (\<exists>k'. sd_classes sd' (ti_class ti) = Some k' \<and> tk_in_callback k' = Some p \<and> tk_stopped k'))"
proof (cases "ti_clock ti = 0")
  case True
  then have "clocks sd p = None" using p by (simp add: clocks_def)
  then have "clocks sd = (clocks sd)(p := None)" by auto
  then show ?thesis using True p ok by (simp add: oonf_timer_stop_def sched_later_refl)
next
  case False
  let ?c = "ti_class ti"
  have K: "timer_tree_ok (sd_tree sd) (clocks sd)" "timer_ok_in sd ti" "clocks sd p = Some (ti_clock ti)"
    using ok p False by (auto simp: sched_ok_def clocks_def)
  obtain k where k: "sd_classes sd ?c = Some k" using K(2) by (auto simp: timer_ok_in_def)
  note r = timer_tree_remove_ok [OF K(1,3)]
  let ?ti = "ti\<lparr>ti_clock := 0, ti_random := 0\<rparr>"
  let ?k = "k\<lparr>tk_usage := tk_usage k - 1, tk_changes := tk_changes k + 1, tk_stopped := (if tk_in_callback k = Some p then True else tk_stopped k)\<rparr>"
  define sd' where "sd' = sd\<lparr>sd_tree := avl_remove (sd_tree sd) p, sd_timers := (sd_timers sd)(p \<mapsto> ?ti), sd_classes := (sd_classes sd)(?c \<mapsto> ?k)\<rparr>"
  have F: "sd_tree sd' = avl_remove (sd_tree sd) p" "sd_timers sd' = (sd_timers sd)(p \<mapsto> ?ti)" "sd_classes sd' = (sd_classes sd)(?c \<mapsto> ?k)"
    "sd_now sd' = sd_now sd" "sd_fired sd' = sd_fired sd" "sd_class_list sd' = sd_class_list sd"
    by (simp_all add: sd'_def)
  have s: "oonf_timer_stop p sd = Some sd'"
    using p False r(1) k by (simp add: oonf_timer_stop_def timer_tree_remove_def upd_timer_def upd_class_def sd'_def)
  have c: "clocks sd' = (clocks sd)(p := None)" by (auto simp: clocks_def fun_eq_iff F)
  have u: "users sd' c = users sd c - {p}" for c using p by (auto simp: users_def F)
  have n: "of_nat (card (users sd c - {p})) = (if c = ?c then of_nat (card (users sd c)) - 1 else of_nat (card (users sd c)) :: u32)" for c
  proof (cases "c = ?c")
    case True
    then have m: "p \<in> users sd c" using p False by (simp add: users_def)
    then have "card (users sd c) = Suc (card (users sd c - {p}))" using users_finite [OF K(1)] by (metis card.remove)
    then show ?thesis using True by simp
  next
    case ne: False
    then have "p \<notin> users sd c" using p by (simp add: users_def)
    then show ?thesis using ne by simp
  qed
  have U: "tk_usage j = of_nat (card (users sd c))" if "sd_classes sd c = Some j" for c j using ok that by (simp add: sched_ok_def)
  have "tk_usage j = of_nat (card (users sd' c))" if "sd_classes sd' c = Some j" for c j
    using that U [of c] U [OF k] unfolding u n by (auto simp: F split: if_splits)
  moreover have "timer_ok_in sd' t" if "sd_timers sd' q = Some t" for q t
    using that ok p by (auto simp: F sched_ok_def timer_ok_in_def split: if_splits)
  ultimately have ok': "sched_ok sd'" using ok r(2) unfolding sched_ok_def c F(1,4) by blast
  have "in_callback d q sd'" if i: "in_callback d q sd" for d q
    using i p k unfolding in_callback_def c F by (cases "q = p"; cases "d = ?c") (auto split: if_splits)
  then have "sched_later sd sd'" using k unfolding sched_later_def c F by auto
  then show ?thesis using s ok' c k F by auto
qed

text \<open>The random number of a timer and the counters do not matter.\<close>

lemma draw_ok:
  assumes ok: "sched_ok sd" and p: "sd_timers sd p = Some ti"
  shows "\<exists>sd' r. new_random rnd p sd = Some sd' \<and> sched_ok sd' \<and> sched_later sd sd' \<and> clocks sd' = clocks sd
    \<and> sd_timers sd' = (sd_timers sd)(p \<mapsto> ti\<lparr>ti_random := r\<rparr>) \<and> sd_classes sd' = sd_classes sd \<and> sd_tree sd' = sd_tree sd
    \<and> sd_class_list sd' = sd_class_list sd"
proof -
  define r where "r = (case rnd (sd_draws sd) of None \<Rightarrow> 0 | Some r \<Rightarrow> r)"
  define sd' where "sd' = sd\<lparr>sd_draws := sd_draws sd + 1, sd_timers := (sd_timers sd)(p \<mapsto> ti\<lparr>ti_random := r\<rparr>)\<rparr>"
  have F: "sd_tree sd' = sd_tree sd" "sd_timers sd' = (sd_timers sd)(p \<mapsto> ti\<lparr>ti_random := r\<rparr>)" "sd_classes sd' = sd_classes sd"
    "sd_now sd' = sd_now sd" "sd_fired sd' = sd_fired sd" "sd_class_list sd' = sd_class_list sd"
    by (simp_all add: sd'_def)
  have n: "new_random rnd p sd = Some sd'" using p by (simp add: new_random_def upd_timer_def sd'_def r_def)
  have c: "clocks sd' = clocks sd" using p by (auto simp: clocks_def fun_eq_iff F)
  have u: "users sd' c = users sd c" for c using p by (auto simp: users_def F)
  have "timer_ok_in sd' t" if "sd_timers sd' q = Some t" for q t
    using that ok p by (auto simp: F sched_ok_def timer_ok_in_def split: if_splits)
  then have "sched_ok sd'" using ok unfolding sched_ok_def c u F(1,3,4) by blast
  moreover have "in_callback d q sd'" if "in_callback d q sd" for d q
    using that p unfolding in_callback_def c F by (cases "q = p") (auto split: if_splits)
  then have "sched_later sd sd'" unfolding sched_later_def c F by auto
  ultimately show ?thesis using n c F by auto
qed

lemma timer_okD:
  assumes "sched_ok sd" "sd_timers sd p = Some ti"
  shows "\<exists>k. sd_classes sd (ti_class ti) = Some k" "ti_jitter_pct ti \<le> 100" "unat (ti_period ti) \<le> HORIZON"
proof -
  have "timer_ok_in sd ti" using assms unfolding sched_ok_def by blast
  then show "\<exists>k. sd_classes sd (ti_class ti) = Some k" "ti_jitter_pct ti \<le> 100" "unat (ti_period ti) \<le> HORIZON"
    unfolding timer_ok_in_def by auto
qed

text \<open>The first part of the start of a timer: out of the tree, and counted.\<close>

definition restart_prepared :: "ptr \<Rightarrow> timer_instance \<Rightarrow> scheduler \<Rightarrow> scheduler \<Rightarrow> bool" where
  "restart_prepared p ti sd sd' \<longleftrightarrow> timer_tree_ok (sd_tree sd') ((clocks sd)(p := None)) \<and> sd_timers sd' = sd_timers sd \<and> sd_now sd' = sd_now sd
     \<and> sd_fired sd' = sd_fired sd \<and> sd_class_list sd' = sd_class_list sd
     \<and> (\<forall>c. case sd_classes sd c of None \<Rightarrow> sd_classes sd' c = None
          | Some k \<Rightarrow> \<exists>k'. sd_classes sd' c = Some k' \<and> tk_in_callback k' = tk_in_callback k \<and> tk_stopped k' = tk_stopped k \<and> tk_periodic k' = tk_periodic k
              \<and> tk_usage k' = tk_usage k + (if c = ti_class ti \<and> ti_clock ti = 0 then 1 else 0))"

lemma restart_prepare:
  assumes ok: "sched_ok sd" and p: "sd_timers sd p = Some ti"
  shows "\<exists>sd1 sd2. (if ti_clock ti \<noteq> 0 then timer_tree_remove p sd
        else upd_class (ti_class ti) (\<lambda>k. k\<lparr>tk_usage := tk_usage k + 1\<rparr>) sd) = Some sd1
    \<and> upd_class (ti_class ti) (\<lambda>k. k\<lparr>tk_changes := tk_changes k + 1\<rparr>) sd1 = Some sd2 \<and> restart_prepared p ti sd sd2"
proof (cases "ti_clock ti = 0")
  case True
  have "(clocks sd)(p := None) = clocks sd" using p True by (auto simp: clocks_def fun_eq_iff)
  moreover obtain k where "sd_classes sd (ti_class ti) = Some k" using timer_okD(1) [OF ok p] by blast
  ultimately show ?thesis
    using True ok by (auto simp: upd_class_def restart_prepared_def sched_ok_def split: option.split)
next
  case False
  then have "clocks sd p = Some (ti_clock ti)" using p by (simp add: clocks_def)
  moreover have "timer_tree_ok (sd_tree sd) (clocks sd)" using ok by (simp add: sched_ok_def)
  ultimately have "p \<in> set (avl_elements (sd_tree sd))" "timer_tree_ok (avl_remove (sd_tree sd) p) ((clocks sd)(p := None))" using timer_tree_remove_ok [of "sd_tree sd" "clocks sd" p "ti_clock ti"] by blast+
  moreover obtain k where "sd_classes sd (ti_class ti) = Some k" using timer_okD(1) [OF ok p] by blast
  ultimately show ?thesis
    using False by (auto simp: upd_class_def timer_tree_remove_def restart_prepared_def split: option.split)
qed

lemma restart_draw:
  assumes "sd_timers sd p = Some ti"
  shows "\<exists>sd' r. (if ti_random ti = 0 then new_random rnd p sd else Some sd) = Some sd' \<and> sd_timers sd' = (sd_timers sd)(p \<mapsto> ti\<lparr>ti_random := r\<rparr>)
    \<and> sd_tree sd' = sd_tree sd \<and> sd_classes sd' = sd_classes sd \<and> sd_now sd' = sd_now sd \<and> sd_fired sd' = sd_fired sd
    \<and> sd_class_list sd' = sd_class_list sd"
proof (cases "ti_random ti = 0")
  case False
  have "(sd_timers sd)(p \<mapsto> ti\<lparr>ti_random := ti_random ti\<rparr>) = sd_timers sd" using assms by (simp add: fun_upd_idem)
  then show ?thesis using False by (intro exI [of _ sd] exI [of _ "ti_random ti"]) simp
qed (use assms in \<open>auto simp: new_random_def upd_timer_def\<close>)

lemma users_started:
  assumes p: "sd_timers sd p = Some ti" and s: "sd_timers sd' = (sd_timers sd)(p \<mapsto> ti')" "ti_class ti' = ti_class ti" "ti_clock ti' \<noteq> 0"
    and fin: "finite (users sd c)"
  shows "of_nat (card (users sd' c)) = (of_nat (card (users sd c)) + (if c = ti_class ti \<and> ti_clock ti = 0 then 1 else 0) :: u32)"
proof -
  have "users sd' c = (if c = ti_class ti then insert p (users sd c) else users sd c)" using p s by (auto simp: users_def)
  moreover have "p \<in> users sd (ti_class ti) \<longleftrightarrow> ti_clock ti \<noteq> 0" using p by (simp add: users_def)
  ultimately show ?thesis using fin by (auto simp: insert_absorb card_insert_if)
qed

lemma started_ok:
  assumes ok: "sched_ok sd" and p: "sd_timers sd p = Some ti" and prep: "restart_prepared p ti sd sd2"
    and ti': "ti_class ti' = ti_class ti" "ti_jitter_pct ti' = ti_jitter_pct ti" "unat (ti_period ti') \<le> HORIZON" "sd_now sd < ti_clock ti'"
    and F: "sd_timers sd' = (sd_timers sd)(p \<mapsto> ti')" "sd_tree sd' = snd (avl_insert (sd_tree sd2) (ti_clock ti') p)" "sd_classes sd' = sd_classes sd2"
      "sd_now sd' = sd_now sd" "sd_fired sd' = sd_fired sd"
  shows "sched_ok sd' \<and> sched_later sd sd' \<and> clocks sd' = (clocks sd)(p \<mapsto> ti_clock ti')"
proof -
  have z: "ti_clock ti' \<noteq> 0" using ti'(4) by auto
  have c: "clocks sd' = (clocks sd)(p \<mapsto> ti_clock ti')" using z by (auto simp: clocks_def fun_eq_iff F)
  have T: "timer_tree_ok (sd_tree sd) (clocks sd)" using ok by (simp add: sched_ok_def)
  have K: "case sd_classes sd d of None \<Rightarrow> sd_classes sd' d = None
      | Some k \<Rightarrow> \<exists>k'. sd_classes sd' d = Some k' \<and> tk_in_callback k' = tk_in_callback k \<and> tk_stopped k' = tk_stopped k \<and> tk_periodic k' = tk_periodic k
          \<and> tk_usage k' = tk_usage k + (if d = ti_class ti \<and> ti_clock ti = 0 then 1 else 0)" for d
    using prep unfolding restart_prepared_def F(3) by blast
  have N: "sd_classes sd' d = None \<longleftrightarrow> sd_classes sd d = None" for d using K [of d] by (cases "sd_classes sd d") auto
  have "timer_tree_ok (sd_tree sd') (clocks sd')"
    using timer_tree_insert_ok [of "sd_tree sd2" "(clocks sd)(p := None)" p] prep unfolding c F(2) by (simp add: restart_prepared_def)
  moreover have "tk_usage j = of_nat (card (users sd' d))" if j: "sd_classes sd' d = Some j" for d j
  proof -
    obtain k where k: "sd_classes sd d = Some k" using N [of d] j by auto
    have "tk_usage k = of_nat (card (users sd d))" using ok k by (simp add: sched_ok_def)
    then show ?thesis using K [of d] k j users_started [OF p F(1) ti'(1) z users_finite [OF T]] by simp
  qed
  moreover have "timer_ok_in sd' t" if t: "sd_timers sd' q = Some t" for q t
  proof (cases "q = p")
    case True
    then show ?thesis using t ti'(1-3) timer_okD [OF ok p] N by (auto simp: F timer_ok_in_def)
  next
    case False
    then show ?thesis using t timer_okD [OF ok, of q t] N by (auto simp: F timer_ok_in_def)
  qed
  ultimately have "sched_ok sd'" using ok unfolding sched_ok_def F(4) by blast
  moreover have "in_callback d q sd'" if i: "in_callback d q sd" for d q
    using i K [of d] p z ti'(1,4) unfolding in_callback_def c F(1,4) by (cases "q = p") (auto split: if_splits)
  then have "sched_later sd sd'" using N ti'(4) unfolding sched_later_def c F(4,5) by auto
  ultimately show ?thesis using c by blast
qed

lemma start_ok:
  assumes ok: "sched_ok sd" and p: "sd_timers sd p = Some ti" and b: "unat first \<le> HORIZON" "unat interval \<le> HORIZON"
  shows "\<exists>sd' t. oonf_timer_start_ext rnd p first interval sd = Some sd' \<and> sched_ok sd' \<and> sched_later sd sd' \<and> clocks sd' = (clocks sd)(p \<mapsto> t)
    \<and> sd_now sd < t \<and> sd_class_list sd' = sd_class_list sd"
proof -
  obtain k where k: "sd_classes sd (ti_class ti) = Some k" using timer_okD(1) [OF ok p] by blast
  have j: "\<not> ti_jitter_pct ti > 100" using timer_okD(2) [OF ok p] by simp
  obtain sd1 sd2 where 1: "(if ti_clock ti \<noteq> 0 then timer_tree_remove p sd else upd_class (ti_class ti) (\<lambda>k. k\<lparr>tk_usage := tk_usage k + 1\<rparr>) sd) = Some sd1"
    "upd_class (ti_class ti) (\<lambda>k. k\<lparr>tk_changes := tk_changes k + 1\<rparr>) sd1 = Some sd2" and prep: "restart_prepared p ti sd sd2"
    using restart_prepare [OF ok p] by blast
  have P: "sd_timers sd2 = sd_timers sd" "sd_now sd2 = sd_now sd" "sd_fired sd2 = sd_fired sd" "sd_class_list sd2 = sd_class_list sd"
    using prep by (simp_all add: restart_prepared_def)
  have "sd_timers sd2 p = Some ti" using p P(1) by simp
  from restart_draw [OF this] obtain sd3 r where 3: "(if ti_random ti = 0 then new_random rnd p sd2 else Some sd2) = Some sd3"
    "sd_timers sd3 = (sd_timers sd2)(p \<mapsto> ti\<lparr>ti_random := r\<rparr>)" "sd_tree sd3 = sd_tree sd2" "sd_classes sd3 = sd_classes sd2"
    "sd_now sd3 = sd_now sd2" "sd_fired sd3 = sd_fired sd2" "sd_class_list sd3 = sd_class_list sd2"
    by blast
  let ?t = "calc_clock (ti\<lparr>ti_random := r\<rparr>) first sd3"
  let ?ti = "ti\<lparr>ti_random := r, ti_clock := ?t, ti_period := (if tk_periodic k then interval else 0)\<rparr>"
  define sd' where "sd' = sd3\<lparr>sd_timers := (sd_timers sd3)(p \<mapsto> ?ti), sd_tree := snd (avl_insert (sd_tree sd3) ?t p)\<rparr>"
  have now: "unat (sd_now sd3) \<le> HORIZON" using ok by (simp add: sched_ok_def 3(5) P(2))
  have t: "sd_now sd < ?t" using calc_clock_later(1) [of "ti\<lparr>ti_random := r\<rparr>" first sd3] j b(1) now by (simp add: 3(5) P(2))
  have s: "oonf_timer_start_ext rnd p first interval sd = Some sd'"
    using p k j 1 3(1,2) by (simp add: oonf_timer_start_ext_def upd_timer_def sd'_def Let_def)
  have "sched_ok sd' \<and> sched_later sd sd' \<and> clocks sd' = (clocks sd)(p \<mapsto> ti_clock ?ti)"
    by (rule started_ok [OF ok p prep]) (use b t in \<open>simp_all add: sd'_def 3 P\<close>)
  then show ?thesis using s t by (auto simp: sd'_def 3 P)
qed

subsection \<open>Clients\<close>

text \<open>What the caller owes: objects exist once, are released only when their timer does not run, times are in the horizon.\<close>

fun call_allowed :: "timer_call \<Rightarrow> scheduler \<Rightarrow> bool" where
  "call_allowed (Timer_Set p first interval) sd \<longleftrightarrow> sd_timers sd p \<noteq> None \<and> unat first \<le> HORIZON \<and> unat interval \<le> HORIZON"
| "call_allowed (Timer_Start p first interval) sd \<longleftrightarrow> sd_timers sd p \<noteq> None \<and> unat first \<le> HORIZON \<and> unat interval \<le> HORIZON"
| "call_allowed (Timer_Stop p) sd \<longleftrightarrow> sd_timers sd p \<noteq> None"
| "call_allowed (Timer_New p c j) sd \<longleftrightarrow> sd_timers sd p = None \<and> sd_classes sd c \<noteq> None \<and> j \<le> 100"
| "call_allowed (Timer_Free p) sd \<longleftrightarrow> (case sd_timers sd p of None \<Rightarrow> False | Some ti \<Rightarrow> ti_clock ti = 0)"

fun calls_allowed :: "(nat \<Rightarrow> u32 option) \<Rightarrow> timer_call list \<Rightarrow> scheduler \<Rightarrow> bool" where
  "calls_allowed rnd [] sd \<longleftrightarrow> True"
| "calls_allowed rnd (a # as) sd \<longleftrightarrow> call_allowed a sd \<and> (case exec_call rnd a sd of None \<Rightarrow> False | Some sd' \<Rightarrow> calls_allowed rnd as sd')"

lemma store_changed_ok:
  assumes ok: "sched_ok sd" and n: "clocks sd p = None" and c: "clocks (sd\<lparr>sd_timers := (sd_timers sd)(p := m)\<rparr>) = clocks sd"
    and m: "\<And>ti. m = Some ti \<Longrightarrow> timer_ok_in sd ti"
  shows "sched_ok (sd\<lparr>sd_timers := (sd_timers sd)(p := m)\<rparr>) \<and> sched_later sd (sd\<lparr>sd_timers := (sd_timers sd)(p := m)\<rparr>)"
proof -
  define sd' where "sd' = sd\<lparr>sd_timers := (sd_timers sd)(p := m)\<rparr>"
  have F: "sd_tree sd' = sd_tree sd" "sd_timers sd' = (sd_timers sd)(p := m)" "sd_classes sd' = sd_classes sd" "sd_now sd' = sd_now sd"
    "sd_fired sd' = sd_fired sd" "clocks sd' = clocks sd"
    using c by (simp_all add: sd'_def)
  have r: "q \<in> users s d \<longleftrightarrow> clocks s q \<noteq> None \<and> map_option ti_class (sd_timers s q) = Some d" for q s d
    by (auto simp: users_def clocks_def split: option.splits if_splits)
  have u: "users sd' d = users sd d" for d unfolding set_eq_iff r F(2,6) using n by auto
  have "timer_ok_in sd' t" if t: "sd_timers sd' q = Some t" for q t
  proof (cases "q = p")
    case True
    then show ?thesis using t m by (simp add: F timer_ok_in_def)
  next
    case False
    then show ?thesis using t timer_okD [OF ok, of q t] by (simp add: F timer_ok_in_def)
  qed
  then have "sched_ok sd'" using ok unfolding sched_ok_def F(1,3,4,6) u by blast
  moreover have "in_callback d q sd'" if i: "in_callback d q sd" for d q
    using i n unfolding in_callback_def F(2,3,4,6) by (cases "q = p") (auto simp: clocks_def split: if_splits)
  then have "sched_later sd sd'" unfolding sched_later_def F by auto
  ultimately show ?thesis unfolding sd'_def by blast
qed

lemma exec_call_ok:
  assumes ok: "sched_ok sd" and a: "call_allowed a sd"
  shows "\<exists>sd'. exec_call rnd a sd = Some sd' \<and> sched_ok sd' \<and> sched_later sd sd' \<and> sd_class_list sd' = sd_class_list sd"
proof (cases a)
  case (Timer_Set p first interval)
  then obtain ti where p: "sd_timers sd p = Some ti" "unat first \<le> HORIZON" "unat interval \<le> HORIZON" using a by auto
  show ?thesis using start_ok [OF ok p, of rnd] stop_ok [OF ok p(1)] Timer_Set by (cases "first = 0") (auto simp: oonf_timer_set_ext_def)
next
  case (Timer_Start p first interval)
  then obtain ti where p: "sd_timers sd p = Some ti" "unat first \<le> HORIZON" "unat interval \<le> HORIZON" using a by auto
  show ?thesis using start_ok [OF ok p, of rnd] Timer_Start by auto
next
  case (Timer_Stop p)
  then obtain ti where p: "sd_timers sd p = Some ti" using a by auto
  show ?thesis using stop_ok [OF ok p] Timer_Stop by auto
next
  case (Timer_New p c j)
  let ?ti = "\<lparr>ti_class = c, ti_jitter_pct = j, ti_period = 0, ti_random = 0, ti_clock = 0\<rparr>"
  have n: "clocks sd p = None" using a Timer_New by (simp add: clocks_def)
  then have "clocks (sd\<lparr>sd_timers := (sd_timers sd)(p := Some ?ti)\<rparr>) = clocks sd" by (auto simp: clocks_simps)
  from store_changed_ok [OF ok n this] show ?thesis using a Timer_New by (auto simp: timer_ok_in_def)
next
  case (Timer_Free p)
  have n: "clocks sd p = None" using a Timer_Free by (auto simp: clocks_def split: option.splits)
  then have "clocks (sd\<lparr>sd_timers := (sd_timers sd)(p := None)\<rparr>) = clocks sd" by (auto simp: clocks_simps)
  from store_changed_ok [OF ok n this] show ?thesis using Timer_Free by auto
qed

lemma exec_calls_ok:
  assumes "sched_ok sd" "calls_allowed rnd as sd"
  shows "\<exists>sd'. exec_calls rnd as sd = Some sd' \<and> sched_ok sd' \<and> sched_later sd sd'"
  using assms
proof (induction as arbitrary: sd)
  case (Cons a as)
  obtain sd1 where 1: "exec_call rnd a sd = Some sd1" "sched_ok sd1" "sched_later sd sd1" using exec_call_ok [OF Cons.prems(1)] Cons.prems(2) by auto
  then obtain sd2 where "exec_calls rnd as sd1 = Some sd2" "sched_ok sd2" "sched_later sd1 sd2" using Cons.IH [OF 1(2)] Cons.prems(2) by auto
  then show ?case using 1 sched_later_trans by auto
qed (simp add: sched_later_refl)

text \<open>The timers that are due.\<close>

definition due_timers :: "scheduler \<Rightarrow> ptr set" where
  "due_timers sd = {q. \<exists>t. clocks sd q = Some t \<and> t \<le> sd_now sd}"

lemma due_finite:
  assumes "sched_ok sd"
  shows "finite (due_timers sd)"
proof (rule finite_subset)
  show "due_timers sd \<subseteq> snd ` set (avl_entries (sd_tree sd))"
  proof
    fix q assume "q \<in> due_timers sd"
    then obtain t where "clocks sd q = Some t" by (auto simp: due_timers_def)
    then have "(t, q) \<in> index_set (sd_tree sd)" using assms by (simp add: sched_ok_def timer_tree_ok_def)
    then show "q \<in> snd ` set (avl_entries (sd_tree sd))" by force
  qed
qed simp

lemma first_timer:
  assumes ok: "sched_ok sd" and e: "avl_entries (sd_tree sd) = x # xs"
  shows "clocks sd (snd x) = Some (fst x)" "clocks sd q = Some t \<Longrightarrow> fst x \<le> t"
    "\<exists>ti. sd_timers sd (snd x) = Some ti \<and> ti_clock ti = fst x \<and> fst x \<noteq> 0"
proof -
  have T: "avl_ok (sd_tree sd)" "tr_comp (sd_tree sd) = avlcomp_timer" "\<And>k p. (k, p) \<in> index_set (sd_tree sd) \<longleftrightarrow> clocks sd p = Some k"
    using ok by (auto simp: sched_ok_def timer_tree_ok_def)
  show c: "clocks sd (snd x) = Some (fst x)" using T(3) [of "fst x" "snd x"] e by simp
  show "clocks sd q = Some t \<Longrightarrow> fst x \<le> t"
    using avl.first_least [OF T(1) e, of "(t, q)"] T(2,3) by (auto simp: avlcomp_timer_def split: if_splits)
  show "\<exists>ti. sd_timers sd (snd x) = Some ti \<and> ti_clock ti = fst x \<and> fst x \<noteq> 0"
    using c by (auto simp: clocks_def split: option.splits if_splits)
qed

lemma no_timer:
  assumes "sched_ok sd" "avl_entries (sd_tree sd) = []"
  shows "clocks sd q = None"
  using assms by (cases "clocks sd q") (auto simp: sched_ok_def timer_tree_ok_def)

lemma scheduling_ok: "sched_ok (sd\<lparr>sd_scheduling := b\<rparr>) = sched_ok sd" "due_timers (sd\<lparr>sd_scheduling := b\<rparr>) = due_timers sd"
  by (simp_all add: sched_ok_def timer_ok_in_def users_def clocks_simps due_timers_def)

subsection \<open>The loop\<close>

text \<open>
  What the loop relies on: in a consistent scheduler with the timer that fires, the calls of its callback
  are allowed one after the other.
\<close>

locale timer_client =
  fixes rnd :: "nat \<Rightarrow> u32 option" and cb :: "'c callbacks"
  assumes polite: "sched_ok sd \<Longrightarrow> sd_timers sd p = Some ti \<Longrightarrow> calls_allowed rnd (snd (cb cl p sd)) sd"
begin

text \<open>Before the callback: the timer is marked, and stopped if it is not periodic.\<close>

lemma callback_begins:
  fixes p :: ptr
  defines "f \<equiv> \<lambda>k. k\<lparr>tk_in_callback := Some p, tk_stopped := False, tk_changes := tk_changes k + 1\<rparr>"
  assumes ok: "sched_ok sd" and p: "sd_timers sd p = Some ti" and due: "ti_clock ti \<noteq> 0"
  shows "\<exists>sd1 sd2 sd3. upd_class (ti_class ti) f sd = Some sd1 \<and> (if ti_period ti = 0 then oonf_timer_stop p sd1 else Some sd1) = Some sd2
    \<and> sd3 = sd2\<lparr>sd_fired := sd_fired sd2 @ [p]\<rparr> \<and> sched_ok sd3 \<and> in_callback (ti_class ti) p sd3 \<and> sd_timers sd3 p \<noteq> None
    \<and> sd_now sd3 = sd_now sd \<and> sd_fired sd3 = sd_fired sd @ [p] \<and> (\<forall>q t. clocks sd3 q = Some t \<longrightarrow> t \<le> sd_now sd \<longrightarrow> clocks sd q = Some t)"
proof -
  let ?c = "ti_class ti"
  obtain k where k: "sd_classes sd ?c = Some k" using timer_okD(1) [OF ok p] by blast
  define sd1 where "sd1 = sd\<lparr>sd_classes := (sd_classes sd)(?c \<mapsto> f k)\<rparr>"
  have 1: "upd_class ?c f sd = Some sd1" "clocks sd1 = clocks sd" "sd_timers sd1 = sd_timers sd" "sd_now sd1 = sd_now sd" "sd_fired sd1 = sd_fired sd"
    "\<And>d. users sd1 d = users sd d" "sd_tree sd1 = sd_tree sd"
    using k by (simp_all add: upd_class_def sd1_def clocks_simps users_def f_def)
  have "timer_ok_in sd1 t" if "timer_ok_in sd t" for t using that k by (auto simp: timer_ok_in_def sd1_def f_def)
  moreover have "tk_usage j = of_nat (card (users sd d))" if "sd_classes sd1 d = Some j" for d j
    using that ok k by (auto simp: sched_ok_def sd1_def f_def split: if_splits)
  ultimately have ok1: "sched_ok sd1" using ok unfolding sched_ok_def 1(2-4,6,7) by blast
  have c1: "in_callback ?c p sd1" using p due(1) by (simp add: in_callback_def sd1_def f_def)
  have p1: "sd_timers sd1 p = Some ti" using p 1(3) by simp
  obtain sd2 ti2 where 2: "(if ti_period ti = 0 then oonf_timer_stop p sd1 else Some sd1) = Some sd2" "sched_ok sd2" "sched_later sd1 sd2"
    "sd_timers sd2 p = Some ti2"
    using stop_ok [OF ok1 p1] ok1 p1 sched_later_refl [of sd1] by (cases "ti_period ti = 0") auto
  define sd3 where "sd3 = sd2\<lparr>sd_fired := sd_fired sd2 @ [p]\<rparr>"
  have F3: "clocks sd3 = clocks sd2" "sd_timers sd3 = sd_timers sd2" "sd_classes sd3 = sd_classes sd2" "sd_now sd3 = sd_now sd2" "sd_tree sd3 = sd_tree sd2"
    by (simp_all add: sd3_def clocks_simps)
  have u3: "users sd3 d = users sd2 d" for d by (simp add: users_def F3)
  have ok3: "sched_ok sd3" using 2(2) unfolding sched_ok_def timer_ok_in_def F3 u3 .
  have c3: "in_callback ?c p sd3" using c1 2(3) unfolding sched_later_def in_callback_def F3 by blast
  have "\<forall>q t. clocks sd3 q = Some t \<longrightarrow> t \<le> sd_now sd \<longrightarrow> clocks sd q = Some t" "sd_now sd3 = sd_now sd" "sd_fired sd3 = sd_fired sd @ [p]"
    using 2(3) 1(2,4,5) by (auto simp: sched_later_def F3 sd3_def clocks_simps)
  moreover have "sd_timers sd3 p \<noteq> None" using 2(4) F3(2) by simp
  ultimately show ?thesis using 1(1) 2(1) ok3 c3 sd3_def by blast
qed

text \<open>After the callback: the timer is started again unless it was stopped; it is not due any more.\<close>

lemma callback_ends:
  assumes ok: "sched_ok sd" and c: "in_callback c p sd"
  shows "\<exists>k sd'. sd_classes sd c = Some k \<and> (if tk_stopped k then Some sd
      else do { sd \<leftarrow> new_random rnd p sd; ti \<leftarrow> sd_timers sd p; oonf_timer_start rnd p (ti_period ti) sd }) = Some sd'
    \<and> sched_ok sd' \<and> sched_later sd sd' \<and> (\<forall>t. clocks sd' p = Some t \<longrightarrow> sd_now sd < t)"
proof -
  obtain k where k: "sd_classes sd c = Some k" "tk_in_callback k = Some p"
    "if tk_stopped k then \<forall>t. clocks sd p = Some t \<longrightarrow> sd_now sd < t else \<exists>ti. sd_timers sd p = Some ti \<and> ti_class ti = c \<and> ti_clock ti \<noteq> 0"
    using c unfolding in_callback_def by blast
  show ?thesis
  proof (cases "tk_stopped k")
    case True
    then show ?thesis using k ok sched_later_refl by auto
  next
    case False
    then obtain ti where p: "sd_timers sd p = Some ti" using k(3) by auto
    obtain sd1 r where 1: "new_random rnd p sd = Some sd1" "sched_ok sd1" "sched_later sd sd1" "sd_timers sd1 p = Some (ti\<lparr>ti_random := r\<rparr>)"
      using draw_ok [OF ok p, of rnd] by fastforce
    have per: "unat (ti_period ti) \<le> HORIZON" by (rule timer_okD(3) [OF ok p])
    obtain sd2 t where 2: "oonf_timer_start_ext rnd p (ti_period ti) (ti_period ti) sd1 = Some sd2" "sched_ok sd2" "sched_later sd1 sd2"
      "clocks sd2 = (clocks sd1)(p \<mapsto> t)" "sd_now sd1 < t"
      using start_ok [OF 1(2,4) per per, of rnd] by blast
    have "sd_now sd1 = sd_now sd" using 1(3) by (simp add: sched_later_def)
    then show ?thesis using k(1) False 1 2 sched_later_trans [OF 1(3) 2(3)] by (auto simp: oonf_timer_start_def)
  qed
qed

lemma fire_ok:
  assumes ok: "sched_ok sd" and p: "sd_timers sd p = Some ti" and due: "ti_clock ti \<noteq> 0"
  shows "\<exists>cl' sd'. fire_timer rnd cb p (cl, sd) = Some (cl', sd') \<and> sched_ok sd' \<and> sd_now sd' = sd_now sd \<and> sd_fired sd' = sd_fired sd @ [p]
    \<and> (\<forall>q t. clocks sd' q = Some t \<longrightarrow> t \<le> sd_now sd \<longrightarrow> q \<noteq> p \<and> clocks sd q = Some t)"
proof -
  obtain sd1 sd2 sd3 where 1: "upd_class (ti_class ti) (\<lambda>k. k\<lparr>tk_in_callback := Some p, tk_stopped := False, tk_changes := tk_changes k + 1\<rparr>) sd = Some sd1"
    "(if ti_period ti = 0 then oonf_timer_stop p sd1 else Some sd1) = Some sd2" "sd3 = sd2\<lparr>sd_fired := sd_fired sd2 @ [p]\<rparr>"
    "sched_ok sd3" "in_callback (ti_class ti) p sd3" "sd_timers sd3 p \<noteq> None" "sd_now sd3 = sd_now sd" "sd_fired sd3 = sd_fired sd @ [p]"
    "\<forall>q t. clocks sd3 q = Some t \<longrightarrow> t \<le> sd_now sd \<longrightarrow> clocks sd q = Some t"
    using callback_begins [OF ok p due] by blast
  obtain cl' calls where c: "cb cl p sd3 = (cl', calls)" by fastforce
  have "calls_allowed rnd calls sd3" using polite [OF 1(4), of p _ cl] 1(6) c by auto
  from exec_calls_ok [OF 1(4) this] obtain sd4 where 4: "exec_calls rnd calls sd3 = Some sd4" "sched_ok sd4" "sched_later sd3 sd4" by blast
  have "in_callback (ti_class ti) p sd4" using 4(3) 1(5) by (simp add: sched_later_def)
  from callback_ends [OF 4(2) this] obtain k sd5 where 5: "sd_classes sd4 (ti_class ti) = Some k" "(if tk_stopped k then Some sd4
      else do { sd \<leftarrow> new_random rnd p sd4; ti \<leftarrow> sd_timers sd p; oonf_timer_start rnd p (ti_period ti) sd }) = Some sd5"
    "sched_ok sd5" "sched_later sd4 sd5" "\<forall>t. clocks sd5 p = Some t \<longrightarrow> sd_now sd4 < t"
    by blast
  have a: "sched_later sd3 sd5" by (rule sched_later_trans [OF 4(3) 5(4)])
  have "fire_timer rnd cb p (cl, sd) = Some (cl', sd5)"
    using p 1(1,2) c 4(1) 5(1,2) unfolding 1(3) by (simp add: fire_timer_def Let_def)
  moreover have "q \<noteq> p \<and> clocks sd q = Some t" if q: "clocks sd5 q = Some t" "t \<le> sd_now sd" for q t
  proof -
    have "sd_now sd4 = sd_now sd" using 4(3) 1(7) by (simp add: sched_later_def)
    then have "q \<noteq> p" using 5(5) q by auto
    moreover have "clocks sd3 q = Some t" using a q 1(7) unfolding sched_later_def by simp
    ultimately show ?thesis using 1(9) q(2) by blast
  qed
  moreover have "sd_now sd5 = sd_now sd" "sd_fired sd5 = sd_fired sd @ [p]" using a 1(7,8) by (simp_all add: sched_later_def)
  ultimately show ?thesis using 5(3) by blast
qed

lemma walk_loop_ok:
  assumes "sched_ok sd"
  shows "\<exists>cl' sd' fs. walk_loop rnd cb (cl, sd) = Some (cl', sd') \<and> sched_ok sd' \<and> sd_now sd' = sd_now sd \<and> sd_fired sd' = sd_fired sd @ fs
    \<and> distinct fs \<and> set fs \<subseteq> due_timers sd \<and> sorted_wrt (\<lambda>p q. the (clocks sd p) \<le> the (clocks sd q)) fs \<and> due_timers sd' = {}"
  using assms
proof (induction "card (due_timers sd)" arbitrary: cl sd rule: less_induct)
  case less
  show ?case
  proof (cases "avl_entries (sd_tree sd)")
    case Nil
    then show ?thesis using less.prems no_timer [OF less.prems Nil] by (simp add: walk_loop.simps due_timers_def)
  next
    case (Cons x xs)
    note f = first_timer [OF less.prems Cons]
    obtain ti where ti: "sd_timers sd (snd x) = Some ti" "ti_clock ti = fst x" "fst x \<noteq> 0" using f(3) by blast
    show ?thesis
    proof (cases "fst x > sd_now sd")
      case True
      have "\<not> t \<le> sd_now sd" if "clocks sd q = Some t" for q t using f(2) [OF that] True by simp
      then have "due_timers sd = {}" unfolding due_timers_def by blast
      then show ?thesis using less.prems Cons ti True by (simp add: walk_loop.simps)
    next
      case False
      let ?p = "snd x"
      obtain cl1 sd1 where 1: "fire_timer rnd cb ?p (cl, sd) = Some (cl1, sd1)" "sched_ok sd1" "sd_now sd1 = sd_now sd" "sd_fired sd1 = sd_fired sd @ [?p]"
        "\<forall>q t. clocks sd1 q = Some t \<longrightarrow> t \<le> sd_now sd \<longrightarrow> q \<noteq> ?p \<and> clocks sd q = Some t"
        using fire_ok [OF less.prems ti(1), of cl] ti(2,3) by auto
      have p: "?p \<in> due_timers sd" using f(1) False by (simp add: due_timers_def)
      have sub: "due_timers sd1 \<subseteq> due_timers sd - {?p}" using 1(3,5) by (auto simp: due_timers_def)
      then have "card (due_timers sd1) < card (due_timers sd)" using p due_finite [OF less.prems] by (intro psubset_card_mono) auto
      from less.hyps [OF this 1(2), of cl1] obtain cl' sd' fs where
        2: "walk_loop rnd cb (cl1, sd1) = Some (cl', sd')" "sched_ok sd'" "sd_now sd' = sd_now sd1" "sd_fired sd' = sd_fired sd1 @ fs" "distinct fs"
          "set fs \<subseteq> due_timers sd1" "sorted_wrt (\<lambda>p q. the (clocks sd1 p) \<le> the (clocks sd1 q)) fs" "due_timers sd' = {}"
        by blast
      have same: "clocks sd q = clocks sd1 q" if "q \<in> set fs" for q using that 2(6) 1(3,5) by (auto simp: due_timers_def)
      have "sorted_wrt (\<lambda>p q. the (clocks sd p) \<le> the (clocks sd q)) fs"
        using 2(7) by (rule sorted_wrt_mono_rel [rotated]) (simp add: same)
      moreover have "the (clocks sd ?p) \<le> the (clocks sd q)" if "q \<in> set fs" for q
      proof -
        have "q \<in> due_timers sd" using that 2(6) sub by blast
        then obtain t where "clocks sd q = Some t" by (auto simp: due_timers_def)
        then show ?thesis using f(1,2) by simp
      qed
      ultimately have "sorted_wrt (\<lambda>p q. the (clocks sd p) \<le> the (clocks sd q)) (?p # fs)" by simp
      moreover have "distinct (?p # fs)" "set (?p # fs) \<subseteq> due_timers sd" using 2(5,6) sub p by auto
      moreover have "walk_loop rnd cb (cl, sd) = Some (cl', sd')" using Cons ti False 1(1) 2(1) by (simp add: walk_loop.simps [of _ _ "(cl, sd)"])
      moreover have "sd_fired sd' = sd_fired sd @ (?p # fs)" "sd_now sd' = sd_now sd" using 1(3,4) 2(3,4) by simp_all
      ultimately show ?thesis using 2(2,8) by blast
    qed
  qed
qed

lemma walk_ok:
  assumes "sched_ok sd"
  shows "\<exists>cl' sd' fs. oonf_timer_walk rnd cb (cl, sd) = Some (cl', sd') \<and> sched_ok sd' \<and> sd_now sd' = sd_now sd \<and> sd_fired sd' = sd_fired sd @ fs
    \<and> distinct fs \<and> set fs \<subseteq> due_timers sd \<and> sorted_wrt (\<lambda>p q. the (clocks sd p) \<le> the (clocks sd q)) fs \<and> due_timers sd' = {}"
proof -
  let ?sd = "sd\<lparr>sd_scheduling := True\<rparr>"
  have "sched_ok ?sd" using assms by (simp only: scheduling_ok)
  from walk_loop_ok [OF this, of cl] obtain cl' sd' fs where 1: "walk_loop rnd cb (cl, ?sd) = Some (cl', sd')" "sched_ok sd'" "sd_now sd' = sd_now ?sd"
    "sd_fired sd' = sd_fired ?sd @ fs" "distinct fs" "set fs \<subseteq> due_timers ?sd" "sorted_wrt (\<lambda>p q. the (clocks ?sd p) \<le> the (clocks ?sd q)) fs"
    "due_timers sd' = {}"
    by blast
  then show ?thesis
    by (intro exI [of _ cl'] exI [of _ "sd'\<lparr>sd_scheduling := False\<rparr>"] exI [of _ fs])
      (simp add: oonf_timer_walk_def scheduling_ok clocks_simps)
qed

end

text \<open>
  A client: the entries of a duplicate set, whose timers remove them. The callback stops the timer, takes the
  entry out of the set and releases it (\<open>_remove_duplicate_entry\<close>).
\<close>

definition dup_timer_callback :: "dup_set callbacks" where
  "dup_timer_callback S p sd = (cb_vtime S p, [Timer_Stop p, Timer_Free p])"

interpretation dup_client: timer_client rnd dup_timer_callback for rnd
proof
  fix sd :: scheduler and p :: ptr and ti :: timer_instance and cl :: dup_set
  assume ok: "sched_ok sd" and p: "sd_timers sd p = Some ti"
  obtain sd' ti' where s: "oonf_timer_stop p sd = Some sd'" "sd_timers sd' p = Some ti'" "ti_clock ti' = 0"
    using stop_ok [OF ok p] by blast
  then show "calls_allowed rnd (snd (dup_timer_callback cl p sd)) sd"
    using p by (simp add: dup_timer_callback_def)
qed

text \<open>
  The scheduler loop over the timers of a duplicate set: it ends, follows no pointer to a timer that was
  released, fires every timer at most once and only timers that are due, in the order of their times, and
  leaves no timer due.
\<close>

theorem duplicate_timers_walk:
  assumes "sched_ok sd"
  shows "\<exists>S' sd' fs. oonf_timer_walk rnd dup_timer_callback (S, sd) = Some (S', sd') \<and> sched_ok sd' \<and> sd_now sd' = sd_now sd
    \<and> sd_fired sd' = sd_fired sd @ fs \<and> distinct fs \<and> set fs \<subseteq> due_timers sd
    \<and> sorted_wrt (\<lambda>p q. the (clocks sd p) \<le> the (clocks sd q)) fs \<and> due_timers sd' = {}"
  by (rule dup_client.walk_ok) fact

text \<open>The time that the main loop sleeps for: no running timer fires earlier.\<close>

theorem next_event_least:
  assumes ok: "sched_ok sd"
  shows "if clocks sd = (\<lambda>_. None) then oonf_timer_getNextEvent sd = Some (- 1)
    else \<exists>t. oonf_timer_getNextEvent sd = Some t \<and> (\<exists>p. clocks sd p = Some t) \<and> (\<forall>q t'. clocks sd q = Some t' \<longrightarrow> t \<le> t')"
proof (cases "avl_entries (sd_tree sd)")
  case Nil
  then have "clocks sd = (\<lambda>_. None)" using no_timer [OF ok Nil] by (simp add: fun_eq_iff)
  then show ?thesis using Nil by (simp add: oonf_timer_getNextEvent_def)
next
  case (Cons x xs)
  note f = first_timer [OF ok Cons]
  obtain ti where ti: "sd_timers sd (snd x) = Some ti" "ti_clock ti = fst x" using f(3) by blast
  have "oonf_timer_getNextEvent sd = Some (fst x)" using Cons ti by (simp add: oonf_timer_getNextEvent_def)
  moreover have "clocks sd \<noteq> (\<lambda>_. None)" using f(1) by (auto simp: fun_eq_iff)
  ultimately show ?thesis using f(1,2) by auto
qed

text \<open>
  When a timer fires: rounded up to the next slice, the delay shortened by at most the jitter of the timer.
\<close>

theorem calc_clock_bounds:
  assumes j: "ti_jitter_pct ti \<le> 100" and rel: "unat rel \<le> HORIZON" and now: "unat (sd_now sd) \<le> HORIZON"
  shows "unat (calc_clock ti rel sd) mod 100 = 0
    \<and> unat (sd_now sd) + unat rel < unat (calc_clock ti rel sd) + unat (ti_jitter_pct ti) * unat rel div 100
    \<and> unat (calc_clock ti rel sd) \<le> unat (sd_now sd) + unat rel + 100"
proof -
  define t where "t = unat (sd_now sd) + (unat rel - jitter_of ti (unat rel)) + 100"
  have v: "unat (calc_clock ti rel sd) = t - t mod 100" using calc_clock_value [OF assms] by (simp add: t_def Let_def)
  have "t mod 100 < 100" by simp
  moreover have "(t - t mod 100) mod 100 = 0" by (simp add: minus_mod_eq_mult_div)
  ultimately show ?thesis using jitter_bound [OF j, of "unat rel"] unfolding v by (auto simp: t_def)
qed

end
