(* ===== verification/Spec2Isabelle.thy ===== *)
theory Spec2Isabelle
  imports Rfc5444_Conversion Avl Duplicate_Set Rfc5444_Reader Olsrv2_Kernel Nhdp_Timers Oonf_Timer
begin

text \<open>
  A verification development for OONF / olsrd2, a routing daemon for mobile ad-hoc networks: the
  routing protocol OLSRv2 (RFC 7181) over the neighborhood discovery protocol NHDP (RFC 6130), both
  carried in packets of the format of RFC 5444, on a library of data structures
  (\<open>src-api/common\<close>) and a set of subsystems (\<open>src-plugins/subsystems\<close>).

  Parts and theories, from the bottom up:

  \<^item> \<open>Prelude\<close>: machine integers, the interface of comparison functions (locales \<open>comparator\<close> and
    \<open>strict_comparator\<close>), \<open>memcmp\<close>, generic facts.
  \<^item> \<open>C_Strings\<close> (\<open>src-api/common/string.c, string.h\<close>): C strings as lists of characters without a
    terminator, string arrays as one block of memory in which the strings follow each other.
  \<^item> \<open>Netaddr\<close> (\<open>src-api/common/netaddr.c, netaddr.h\<close>): addresses and prefixes in binary form.
  \<^item> \<open>Netaddr_Text\<close> (\<open>netaddr.c, netaddr_acl.c\<close>): addresses as text, access control lists.
  \<^item> \<open>Avl\<close> (\<open>src-api/common/avl.c, avl.h, avl_comp.c\<close>): the balanced trees that are the index of every
    database of the program. A node is a value of the tree, the position of the C pointers is a path
    of frames; the doubly linked list of the nodes is a list of entries with their follower flags.
    The locale \<open>ordered_index\<close> states what the clients rely on, the trees are its instance.
  \<^item> \<open>Bitmap256\<close> (\<open>src-api/common/bitmap256.c, bitmap256.h\<close>): sets of address indices.
  \<^item> \<open>Rfc5444_Conversion\<close> (\<open>src-plugins/subsystems/rfc5444/rfc5444.c, rfc5444.h\<close>): time, hop count
    and metric codes, arithmetic of sequence numbers.
  \<^item> \<open>Duplicate_Set\<close> (\<open>src-plugins/subsystems/oonf_duplicate_set.c\<close>): which sequence numbers of an
    originator were processed or forwarded already.
  \<^item> \<open>Rfc5444_Parse\<close> (\<open>rfc5444_reader.c\<close>, \<open>rfc5444_context.h\<close>): reading numbers, TLVs, TLV blocks and
    address blocks from the bytes of a packet. A buffer is the list of its bytes; a read outside of
    it and a division by zero are the result \<open>None\<close>, so that a theorem about \<open>Some\<close> includes that the
    code stays inside of its memory. TLV nodes live in a store of allocated nodes.
  \<^item> \<open>Rfc5444_Reader\<close> (\<open>rfc5444_reader.c, rfc5444_reader.h\<close>): registration of consumers, the merge of
    a TLV block with the sorted entries of a consumer, address, message and packet processing with
    the result codes that drop a TLV, an address, a message or a packet.

  \<^item> \<open>Index\<close>: what a database of objects in a store relies on in its trees, the index laws of \<open>Avl\<close>
    as finite sets of key and pointer.
  \<^item> \<open>Oonf_Timer\<close> (\<open>src-plugins/subsystems/oonf_timer.c, oonf_timer.h\<close>): timer classes and timers in
    stores, the running timers in one tree over the times at which they fire, and the scheduler loop. The
    clock stands still during a run of the loop, as it does in the program, where the socket scheduler
    advances it; the callbacks are a parameter, a function from the state of the client to its new state
    and its calls of the scheduler. What a callback owes (to call the scheduler only for timers that
    exist, and not to release a running one) is the locale \<open>timer_client\<close>; the timers of the duplicate set
    are its instance. The loop ends, fires only timers that were due at the start, each at
    most once and in the order of the times, and leaves none due. Times up to 2 ^ 57 milliseconds
    (\<open>HORIZON\<close>) keep every sum of times below 2 ^ 64. The theory also has the bounds of the jitter and
    the time of the next event.
  \<^item> \<open>Olsrv2_Tc\<close> (\<open>src-plugins/olsrv2/olsrv2/olsrv2_tc.c, olsrv2_tc.h\<close>): the topology, nodes, pairs of
    edges, attachments and endpoints in stores from addresses to records, with their trees.
  \<^item> \<open>Olsrv2_Local\<close> (\<open>olsrv2_originator.c, olsrv2_lan.c\<close>): the current and remembered originator
    addresses of the node and its locally attached networks.
  \<^item> \<open>Hooks\<close>: objects that are hooked into containers of their owners. The locale \<open>container\<close> states what
    a tree, a multimap or a list gives its owner; its instances are in \<open>Hooks\<close> and \<open>Nhdp_Inv\<close>.
  \<^item> \<open>Nhdp_Db\<close> (\<open>src-plugins/nhdp/nhdp/nhdp_db.h, nhdp_interfaces.h\<close>): the records of the neighborhood
    database, stores from pointers to records as in \<open>Olsrv2_Tc\<close>, with the trees and lists inside of them.
  \<^item> \<open>Nhdp_Ops\<close> (\<open>nhdp_db.c, nhdp_interfaces.c\<close>): every operation of the database. \<open>Nhdp_Inv\<close> states its
    consistency \<open>nhdp_inv U\<close>: each container holds exactly the objects whose back pointers say so, where
    \<open>U\<close> are the objects that an operation has taken out of their trees of originators for a moment.
    \<open>Nhdp_Tables\<close> and \<open>Nhdp_Moves\<close> give the effect of each operation on the tables of objects, without the
    containers. \<open>Nhdp_Spec\<close> has the operations as a datatype with \<open>allowed\<close> (what a caller owes),
    \<open>effect\<close> (the specification on tables) and \<open>exec_op\<close> (the code), the reachable databases, and the
    properties over them.
  \<^item> \<open>Nhdp_Domain\<close> (\<open>nhdp_domain.c, nhdp_domain.h\<close>): the registered metrics and MPR algorithms with their
    reference counts, the domains and their configuration, and the values of the TLVs for MPRs,
    willingness and metrics, written and read. The facts about reference counts are proved once in the
    locale \<open>handler_class\<close>, of which metrics and MPR algorithms are the instances.
  \<^item> \<open>Nhdp_Timers\<close> (\<open>nhdp_domain.c, nhdp_db.c\<close>): what follows from a change of the neighborhood (metrics
    and best links of neighbors, MPRs, listeners) and the callbacks of the timers of the database, with
    \<open>nhdp_live\<close>, the states of domains and database that callers and timers can reach. The locale
    \<open>mpr_contract\<close> is what the database relies on in an MPR algorithm of a plugin.
  \<^item> \<open>Olsrv2_Routing\<close> (\<open>olsrv2_routing.c\<close>): the Dijkstra data of the targets, the working tree and the
    routing entries, and the calculation; \<open>Olsrv2_Dijkstra\<close> proves it correct against paths.
  \<^item> \<open>Olsrv2_Kernel\<close> (\<open>olsrv2_routing.c\<close>, the command interface of \<open>os_routing_linux.c\<close>): routes from
    the neighborhood, the queue of route changes and the answers of the kernel, updates, change of
    parameters, shutdown.

  Interaction: the reader calls its consumers, which are parameters of the model (functions from
  the context and the state of the client to a result and a new state), with TLVs that it has put
  into an AVL tree; a consumer of the routing protocol looks a message up in the duplicate set,
  which is a tree over the comparator of addresses and message types; its times and metrics come
  from the codecs. The shortest paths read the topology, the neighborhood, the originators and the
  attached networks and write the routing entries, from which the commands to the kernel are built.

  What the lemmas show: every codec is the least code above a value and the inverse of its decoder;
  addresses are prefixes and parsing inverts printing; the trees keep order, balance and list
  consistent and are finite maps or multimaps whose height stays logarithmic; the duplicate set refines a
  sliding window and does not accept a number again as long as its entry remembers it (no timeout, no
  restart of the window); the reader looks at no byte behind the end that it is given, reads back what
  the format describes, frees every node on every path and keeps to the size fields; the operations on
  the topology and on the sets of the local node never follow a freed pointer and keep trees and stores
  in step, except for an edge from a node to itself, which a received message can ask for and which
  breaks the topology database; the operations on the
  neighborhood database do so as well, refine the specification on tables, their lookups are complete
  and the cleanup frees every object; handlers of domains are counted and enabled as long as they are
  used; the MPR flags and the willingness of a HELLO arrive in the domain at the same place of the reader's
  list, which is the right one only when the nodes have their domains in the same places; no timer follows a freed pointer, refines
  its specification and leaves no best link to a freed link, and a change of the neighborhood leaves
  every neighbor with its least metrics; the calculation ends, its
  costs are the least costs of paths and its routes the cheapest ones that are not refused; commands
  and answers of the kernel stay in step with the routing entries.

  Bounds: machine integers are words of their C width. Counters that only count objects in memory are
  unbounded numbers: the count of a tree, the symmetric links and addresses of a neighbor and its
  processing counter, the references of a handler.
  A wrap of one of these needs 2 ^ 31 objects at the same time. A loop of the code is structural recursion, a
  function with a termination proof, or, for the working tree of the shortest paths, a partial
  function whose termination is a theorem. The removal of a node calls itself at most once, which the
  depth argument of \<open>tc_node_remove_at\<close> allows. What can run into undefined behaviour returns an
  option. The shortest paths assume fewer nodes than the largest hop count, so that no path cost wraps.

  The operations of the neighborhood database (\<open>exec_op\<close>) run with memory for every new object; without
  memory the definitions of \<open>Nhdp_Ops\<close> leave the database unchanged (lemma \<open>add_without_memory\<close>).

  Parameters: functions of the C library (\<open>inet_pton\<close>, \<open>inet_ntop\<close>, \<open>if_indextoname\<close>), the memory
  allocator (which pointer a \<open>malloc\<close> returns, or that it fails) and the callbacks of clients.

  Not modelled so far: the interfaces of NHDP and its HELLO messages,
  the selection of multipoint relays, TC messages, the writer for RFC 5444 messages, memory classes, DLEP, the layer 2 database and the configuration system; these are the plan for
  the next steps. Not planned: sockets, text interfaces, logging, netlink and
  system calls, the glue around cryptographic libraries and the copy of a kernel header in
  \<open>nl80211_listener\<close>, whose code only moves data between this program and others.
\<close>

end
